(* ===== verification/Prelude.thy ===== *)
theory Prelude
  imports Main "HOL-Library.Word" "HOL-Library.Char_ord" "HOL-Library.List_Lexorder"
    "HOL-Library.Sublist"
begin

text \<open>
  Shared vocabulary of the development: machine integers at the widths Go uses, byte
  slices, the encodings of the standard library the sources call (big-endian integers,
  hexadecimal text, two's-complement wrap-around of \<open>int64\<close>), and the generic facts on
  lists and words that every component uses.
\<close>

section \<open>Types\<close>

type_synonym byte = "8 word"
type_synonym bytes = "8 word list"
type_synonym u8 = "8 word"
type_synonym u32 = "32 word"
type_synonym u64 = "64 word"

text \<open>Rewrite rules that evaluate the models on concrete inputs.\<close>

named_theorems eval_simps \<open>definitions unfolded when a model is run on a concrete input\<close>

section \<open>Wrap-around of signed 64-bit integers\<close>

text \<open>\<open>i64 x\<close> is the \<open>int64\<close> that Go keeps when the exact result is \<open>x\<close>.\<close>

definition i64 :: "int \<Rightarrow> int" where
  "i64 x = (x + 2 ^ 63) mod 2 ^ 64 - 2 ^ 63"

lemma i64_id [simp]: "- (2 ^ 63) \<le> x \<Longrightarrow> x < 2 ^ 63 \<Longrightarrow> i64 x = x"
  by (simp add: i64_def)

lemma i64_bounds: "- (2 ^ 63) \<le> i64 x \<and> i64 x < 2 ^ 63"
proof -
  have "0 \<le> (x + 2 ^ 63) mod 2 ^ 64 \<and> (x + 2 ^ 63) mod 2 ^ 64 < (2 ^ 64 :: int)" by simp
  then show ?thesis by (simp add: i64_def)
qed

lemma i64_idem [simp]: "i64 (i64 x) = i64 x"
  using i64_bounds [of x] by simp

section \<open>Big-endian integers\<close>

fun be_bytes :: "nat \<Rightarrow> nat \<Rightarrow> bytes" where
  "be_bytes 0 x = []"
| "be_bytes (Suc n) x = be_bytes n (x div 256) @ [word_of_nat (x mod 256)]"

definition be_val :: "bytes \<Rightarrow> nat" where
  "be_val bs = foldl (\<lambda>a b. a * 256 + unat b) 0 bs"

lemma be_val_Nil [simp]: "be_val [] = 0"
  by (simp add: be_val_def)

lemma be_val_snoc [simp]: "be_val (bs @ [b]) = be_val bs * 256 + unat b"
  by (simp add: be_val_def)

lemma be_bytes_zero: "be_bytes n 0 = replicate n 0"
  by (induction n) (simp_all flip: replicate_append_same)

lemma length_be_bytes [simp]: "length (be_bytes n x) = n"
  by (induction n arbitrary: x) auto

lemma unat_byte_less [simp]: "unat (b :: 8 word) < 256"
proof -
  have "unat b < 2 ^ LENGTH(8)" by (rule unsigned_less)
  then show ?thesis by simp
qed

lemma unat_byte_of_mod [simp]: "unat (word_of_nat (x mod 256) :: 8 word) = x mod 256"
  by (simp add: unat_of_nat)

lemma be_val_be_bytes: "be_val (be_bytes n x) = x mod 256 ^ n"
proof (induction n arbitrary: x)
  case 0
  then show ?case by simp
next
  case (Suc n)
  have "be_val (be_bytes (Suc n) x) = (x div 256) mod 256 ^ n * 256 + x mod 256"
    by (simp add: Suc.IH)
  also have "\<dots> = x mod (256 * 256 ^ n)"
    by (simp add: mod_mult2_eq)
  finally show ?case by simp
qed

lemma be_val_be_bytes_id [simp]: "x < 256 ^ n \<Longrightarrow> be_val (be_bytes n x) = x"
  by (simp add: be_val_be_bytes)

lemma be_val_less: "be_val bs < 256 ^ length bs"
proof (induction bs rule: rev_induct)
  case Nil
  then show ?case by simp
next
  case (snoc b bs)
  have "be_val bs * 256 + unat b < be_val bs * 256 + 256" by simp
  also have "\<dots> = (be_val bs + 1) * 256" by simp
  also have "\<dots> \<le> 256 ^ length bs * 256" using snoc by (intro mult_right_mono) auto
  finally show ?case by (simp add: mult.commute)
qed

lemma be_bytes_be_val [simp]: "be_bytes (length bs) (be_val bs) = bs"
proof (induction bs rule: rev_induct)
  case Nil
  then show ?case by simp
next
  case (snoc b bs)
  have "(be_val bs * 256 + unat b) div 256 = be_val bs" by simp
  moreover have "(word_of_nat ((be_val bs * 256 + unat b) mod 256) :: 8 word) = b"
    by (simp add: mod_add_eq [symmetric])
  ultimately show ?case using snoc by simp
qed

lemma be_bytes_inject:
  "x < 256 ^ n \<Longrightarrow> y < 256 ^ n \<Longrightarrow> be_bytes n x = be_bytes n y \<longleftrightarrow> x = y"
  by (metis be_val_be_bytes_id)

text \<open>
  Read from the most significant byte, the value of an encoding orders byte slices of one
  length as the byte-wise (lexicographic) order does.
\<close>

lemma be_val_foldl:
  "foldl (\<lambda>a b. a * 256 + unat b) acc bs = acc * 256 ^ length bs + be_val (bs :: bytes)"
proof (induction bs rule: rev_induct)
  case Nil
  then show ?case by simp
next
  case (snoc b bs)
  then show ?case by (simp add: algebra_simps)
qed

lemma be_val_Cons: "be_val (b # bs) = unat b * 256 ^ length bs + be_val bs"
  by (simp add: be_val_def) (simp add: be_val_foldl)

lemma be_val_append: "be_val (as @ bs) = be_val as * 256 ^ length bs + be_val bs"
  by (simp add: be_val_def) (simp add: be_val_foldl be_val_def [symmetric])

lemma digit_less_iff:
  fixes x y a b m :: nat
  assumes "a < m" "b < m"
  shows "x * m + a < y * m + b \<longleftrightarrow> x < y \<or> x = y \<and> a < b"
proof -
  have less: "u * m + c < v * m + d" if "u < v" "c < m" for u v c d
  proof -
    have "u * m + c < Suc u * m" using that by simp
    also have "\<dots> \<le> v * m" using that by (intro mult_le_mono1) simp
    finally show ?thesis by simp
  qed
  show ?thesis using less [of x y a b] less [of y x b a] assms
    by (cases x y rule: linorder_cases) auto
qed

lemma be_val_less_iff:
  "length xs = length ys \<Longrightarrow> be_val xs < be_val ys \<longleftrightarrow> xs < ys"
proof (induction xs ys rule: list_induct2)
  case Nil
  then show ?case by simp
next
  case (Cons x xs y ys)
  then show ?case
    using be_val_less [of xs] be_val_less [of ys]
    by (simp add: be_val_Cons digit_less_iff word_less_nat_alt word_unat_eq_iff)
qed

lemma be_val_inject: "length xs = length ys \<Longrightarrow> be_val xs = be_val ys \<longleftrightarrow> xs = ys"
  by (metis be_bytes_be_val)

section \<open>Bits of bytes\<close>

lemma bit_imp_ge: "bit (w :: 8 word) n \<Longrightarrow> 2 ^ n \<le> unat w"
proof -
  assume "bit w n"
  then have "odd (unat w div 2 ^ n)" by (simp add: bit_iff_odd [symmetric] bit_unsigned_iff)
  then have "unat w div 2 ^ n \<noteq> 0" by (metis even_zero)
  then show ?thesis by (simp add: div_eq_0_iff)
qed

lemma no_bits_imp_less: "(\<And>n. k \<le> n \<Longrightarrow> \<not> bit (w :: 8 word) n) \<Longrightarrow> unat w < 2 ^ k"
proof -
  assume "\<And>n. k \<le> n \<Longrightarrow> \<not> bit w n"
  then have "take_bit k (unat w) = unat w"
    by (intro bit_eqI) (auto simp: bit_take_bit_iff bit_unsigned_iff not_le [symmetric])
  then show ?thesis by (simp add: take_bit_nat_eq_self_iff)
qed

end
