(* ===== verification/Encodings.thy ===== *)
theory Encodings
  imports Prelude
begin

text \<open>
  The parts of Go's standard library that the sources use to build and read store keys:
  \<open>encoding/hex\<close>, \<open>strconv.FormatUint\<close> and \<open>strconv.ParseUint\<close>, \<open>strings.SplitAfter\<close>,
  \<open>bytes.Split\<close> and \<open>bytes.SplitN\<close>, the bytes of a \<open>big.Int\<close>,
  and the conversion between byte slices and strings.
\<close>

section \<open>Byte slices as strings\<close>

definition string_of_bytes :: "bytes \<Rightarrow> string" where
  "string_of_bytes bs = map (\<lambda>b. char_of (unat b)) bs"

definition bytes_of_string :: "string \<Rightarrow> bytes" where
  "bytes_of_string s = map (\<lambda>c. word_of_nat (of_char c)) s"

lemma bytes_of_string_of_bytes [simp]: "bytes_of_string (string_of_bytes bs) = bs"
  by (induction bs) (auto simp: bytes_of_string_def string_of_bytes_def)

lemma string_of_bytes_inject [simp]: "string_of_bytes a = string_of_bytes b \<longleftrightarrow> a = b"
  by (metis bytes_of_string_of_bytes)

lemma length_string_of_bytes [simp]: "length (string_of_bytes bs) = length bs"
  by (simp add: string_of_bytes_def)

section \<open>Big integers as bytes\<close>

text \<open>\<open>big.Int.Bytes\<close>: the absolute value, big-endian, without leading zeros.\<close>

fun nat_bytes :: "nat \<Rightarrow> bytes" where
  "nat_bytes n = (if n = 0 then [] else nat_bytes (n div 256) @ [word_of_nat (n mod 256)])"

declare nat_bytes.simps [simp del]

definition big_Bytes :: "int \<Rightarrow> bytes" where
  "big_Bytes x = nat_bytes (nat \<bar>x\<bar>)"

lemma be_val_nat_bytes [simp]: "be_val (nat_bytes n) = n"
proof (induction n rule: nat_bytes.induct)
  case (1 n)
  then show ?case by (cases "n = 0") (simp_all add: nat_bytes.simps [of n] nat_bytes.simps [of 0])
qed

lemma length_nat_bytes: "n < 256 ^ k \<Longrightarrow> length (nat_bytes n) \<le> k"
proof (induction n arbitrary: k rule: nat_bytes.induct)
  case (1 n)
  show ?case
  proof (cases "n = 0")
    case False
    with "1.prems" obtain k' where k: "k = Suc k'" by (cases k) auto
    with "1.prems" have "n div 256 < 256 ^ k'" by (simp add: less_mult_imp_div_less)
    from "1.IH" [OF False this] False k show ?thesis by (simp add: nat_bytes.simps [of n])
  qed (simp add: nat_bytes.simps)
qed

lemma be_val_zeros [simp]: "be_val (replicate n 0 @ bs) = be_val bs"
proof -
  have "be_val (replicate n (0 :: byte)) = 0"
    by (induction n) (simp_all add: be_val_Cons)
  then show ?thesis by (simp add: be_val_append)
qed

definition SetBytes :: "bytes \<Rightarrow> int" where
  "SetBytes bs = int (be_val bs)"

lemma SetBytes_big_Bytes [simp]: "SetBytes (big_Bytes x) = \<bar>x\<bar>"
  by (simp add: SetBytes_def big_Bytes_def)

lemma SetBytes_nonneg [simp]: "0 \<le> SetBytes bs"
  by (simp add: SetBytes_def)

section \<open>Hexadecimal text\<close>

datatype hex_error = InvalidByteError char | ErrLength

definition hextable :: string where
  "hextable = ''0123456789abcdef''"

fun EncodeToString :: "bytes \<Rightarrow> string" where
  "EncodeToString [] = []"
| "EncodeToString (b # bs) =
     hextable ! (unat b div 16) # hextable ! (unat b mod 16) # EncodeToString bs"

definition fromHexChar :: "char \<Rightarrow> nat option" where
  "fromHexChar c =
     (let n = of_char c :: nat in
      if 48 \<le> n \<and> n \<le> 57 then Some (n - 48)
      else if 97 \<le> n \<and> n \<le> 102 then Some (n - 87)
      else if 65 \<le> n \<and> n \<le> 70 then Some (n - 55)
      else None)"

fun DecodeString :: "string \<Rightarrow> hex_error + bytes" where
  "DecodeString [] = Inr []"
| "DecodeString [p] =
     (case fromHexChar p of None \<Rightarrow> Inl (InvalidByteError p) | Some _ \<Rightarrow> Inl ErrLength)"
| "DecodeString (p # q # s) =
     (case fromHexChar p of
        None \<Rightarrow> Inl (InvalidByteError p)
      | Some a \<Rightarrow>
         (case fromHexChar q of
            None \<Rightarrow> Inl (InvalidByteError q)
          | Some b \<Rightarrow>
             (case DecodeString s of
                Inl e \<Rightarrow> Inl e
              | Inr bs \<Rightarrow> Inr (word_of_nat (a * 16 + b) # bs))))"

lemma nibbles: "unat (b :: 8 word) div 16 < 16"
  using unat_byte_less [of b] by (intro less_mult_imp_div_less) simp

lemma fromHexChar_all: "list_all (\<lambda>n. fromHexChar (hextable ! n) = Some n) [0..<16]"
  by (simp add: upt_rec hextable_def fromHexChar_def)

lemma fromHexChar_hextable [simp]: "n < 16 \<Longrightarrow> fromHexChar (hextable ! n) = Some n"
  using fromHexChar_all by (simp only: list_all_iff) simp

lemma hextable_mem: "n < 16 \<Longrightarrow> hextable ! n \<in> set hextable"
  by (rule nth_mem) (simp add: hextable_def)

text \<open>Decoding an encoding gives the bytes back: \<open>Address.String\<close> is injective.\<close>

lemma DecodeString_EncodeToString [simp]: "DecodeString (EncodeToString bs) = Inr bs"
proof (induction bs)
  case Nil
  then show ?case by simp
next
  case (Cons b bs)
  then show ?case by (simp add: nibbles)
qed

lemma EncodeToString_inject [simp]: "EncodeToString a = EncodeToString b \<longleftrightarrow> a = b"
  by (metis DecodeString_EncodeToString sum.inject(2))

lemma EncodeToString_chars: "set (EncodeToString bs) \<subseteq> set hextable"
proof (induction bs)
  case Nil
  then show ?case by simp
next
  case (Cons b bs)
  then show ?case by (simp add: hextable_mem nibbles)
qed

lemma EncodeToString_no [simp]: "c \<notin> set hextable \<Longrightarrow> c \<notin> set (EncodeToString bs)"
  using EncodeToString_chars by blast

section \<open>Numbers as text\<close>

datatype num_error = ErrSyntax | ErrRange

definition digits36 :: string where
  "digits36 = ''0123456789abcdefghijklmnopqrstuvwxyz''"

fun FormatUint :: "nat \<Rightarrow> nat \<Rightarrow> string" where
  "FormatUint base n =
     (if base < 2 \<or> n < base then [digits36 ! n]
      else FormatUint base (n div base) @ [digits36 ! (n mod base)])"

declare FormatUint.simps [simp del]

definition digit_val :: "char \<Rightarrow> nat option" where
  "digit_val c =
     (let n = of_char c :: nat in
      if 48 \<le> n \<and> n \<le> 57 then Some (n - 48)
      else if 97 \<le> n \<and> n \<le> 122 then Some (n - 87)
      else if 65 \<le> n \<and> n \<le> 90 then Some (n - 55)
      else None)"

fun parse_digits :: "nat \<Rightarrow> nat \<Rightarrow> string \<Rightarrow> num_error + nat" where
  "parse_digits base acc [] = Inr acc"
| "parse_digits base acc (c # cs) =
     (case digit_val c of
        None \<Rightarrow> Inl ErrSyntax
      | Some d \<Rightarrow>
          if base \<le> d then Inl ErrSyntax
          else if 2 ^ 64 \<le> acc * base + d then Inl ErrRange
          else parse_digits base (acc * base + d) cs)"

definition ParseUint :: "nat \<Rightarrow> string \<Rightarrow> num_error + nat" where
  "ParseUint base s = (if s = [] then Inl ErrSyntax else parse_digits base 0 s)"

lemma digit_val_all: "list_all (\<lambda>n. digit_val (digits36 ! n) = Some n) [0..<36]"
  by (simp add: upt_rec digits36_def digit_val_def)

lemma digit_val_digits36 [simp]: "n < 36 \<Longrightarrow> digit_val (digits36 ! n) = Some n"
  using digit_val_all by (simp only: list_all_iff) simp

lemma digits36_mem: "n < 36 \<Longrightarrow> digits36 ! n \<in> set digits36"
  by (rule nth_mem) (simp add: digits36_def)

lemma FormatUint_not_Nil [simp]: "FormatUint base n \<noteq> []"
  by (subst FormatUint.simps) simp

lemma FormatUint_chars:
  "2 \<le> base \<Longrightarrow> base \<le> 36 \<Longrightarrow> set (FormatUint base n) \<subseteq> set digits36"
proof (induction base n rule: FormatUint.induct)
  case (1 base n)
  show ?case
  proof (cases "n < base")
    case True
    with 1 show ?thesis by (subst FormatUint.simps) (simp add: digits36_mem)
  next
    case False
    have "digits36 ! (n mod base) \<in> set digits36"
      using 1 by (intro digits36_mem) (metis mod_less_divisor order.strict_trans2 gr0I not_numeral_le_zero)
    with 1 False show ?thesis by (subst FormatUint.simps) auto
  qed
qed

lemma parse_digits_append:
  "parse_digits base acc (s @ t) =
     (case parse_digits base acc s of Inl e \<Rightarrow> Inl e | Inr v \<Rightarrow> parse_digits base v t)"
  by (induction base acc s rule: parse_digits.induct) (auto split: option.splits)

lemma parse_digits_FormatUint:
  "2 \<le> base \<Longrightarrow> base \<le> 36 \<Longrightarrow> n < 2 ^ 64 \<Longrightarrow> parse_digits base 0 (FormatUint base n) = Inr n"
proof (induction base n rule: FormatUint.induct)
  case (1 base n)
  show ?case
  proof (cases "n < base")
    case True
    with 1 show ?thesis by (subst FormatUint.simps) simp
  next
    case False
    have m: "n mod base < base" using 1 by (intro mod_less_divisor) simp
    then have nm: "\<not> base \<le> n mod base" and "n mod base < 36" using 1 by linarith+
    then have d: "digit_val (digits36 ! (n mod base)) = Some (n mod base)" by simp
    have "n div base < 2 ^ 64" using 1 by (meson div_le_dividend order.strict_trans1)
    with 1 False have "parse_digits base 0 (FormatUint base (n div base)) = Inr (n div base)"
      by simp
    then show ?thesis using 1 False
      by (subst FormatUint.simps) (simp add: parse_digits_append d nm)
  qed
qed

lemma ParseUint_FormatUint [simp]:
  "2 \<le> base \<Longrightarrow> base \<le> 36 \<Longrightarrow> n < 2 ^ 64 \<Longrightarrow> ParseUint base (FormatUint base n) = Inr n"
  by (simp add: ParseUint_def parse_digits_FormatUint)

section \<open>Splitting\<close>

text \<open>\<open>strings.SplitAfter s sep\<close> for a non-empty separator.\<close>

function split_after_aux :: "string \<Rightarrow> string \<Rightarrow> string \<Rightarrow> string list" where
  "split_after_aux sep acc [] = [rev acc]"
| "split_after_aux sep acc (c # cs) =
     (if sep \<noteq> [] \<and> prefix sep (c # cs)
      then (rev acc @ sep) # split_after_aux sep [] (drop (length sep) (c # cs))
      else split_after_aux sep (c # acc) cs)"
  by pat_completeness auto
termination
  by (relation "measure (\<lambda>(sep, acc, s). length s)") auto

definition SplitAfter :: "string \<Rightarrow> string \<Rightarrow> string list" where
  "SplitAfter s sep = split_after_aux sep [] s"

lemma split_after_aux_none:
  "c \<in> set sep \<Longrightarrow> c \<notin> set s \<Longrightarrow> split_after_aux sep acc s = [rev acc @ s]"
proof (induction s arbitrary: acc)
  case Nil
  then show ?case by simp
next
  case (Cons x xs)
  then have "\<not> prefix sep (x # xs)" using set_mono_prefix by fastforce
  with Cons show ?case by simp
qed

lemma SplitAfter_prefixed:
  "c \<in> set sep \<Longrightarrow> c \<notin> set s \<Longrightarrow> SplitAfter (sep @ s) sep = [sep, s]"
  by (cases sep) (auto simp: SplitAfter_def split_after_aux_none)

text \<open>\<open>bytes.Split data sep\<close> and \<open>bytes.SplitN data sep 2\<close> for a one-character separator.\<close>

fun Split :: "char \<Rightarrow> string \<Rightarrow> string list" where
  "Split sep [] = [[]]"
| "Split sep (c # cs) =
     (if c = sep then [] # Split sep cs
      else (case Split sep cs of [] \<Rightarrow> [[c]] | p # ps \<Rightarrow> (c # p) # ps))"

fun SplitN2 :: "char \<Rightarrow> string \<Rightarrow> string list" where
  "SplitN2 sep [] = [[]]"
| "SplitN2 sep (c # cs) =
     (if c = sep then [[], cs]
      else (case SplitN2 sep cs of [] \<Rightarrow> [[c]] | p # ps \<Rightarrow> (c # p) # ps))"

text \<open>\<open>bytes.Join parts sep\<close>.\<close>

fun Join :: "char \<Rightarrow> string list \<Rightarrow> string" where
  "Join sep [] = []"
| "Join sep [p] = p"
| "Join sep (p # ps) = p @ sep # Join sep ps"

lemma Split_no_sep [simp]: "sep \<notin> set s \<Longrightarrow> Split sep s = [s]"
  by (induction s) auto

lemma Split_append_sep: "sep \<notin> set s \<Longrightarrow> Split sep (s @ sep # t) = s # Split sep t"
  by (induction s) auto

lemma Split_Join:
  "ps \<noteq> [] \<Longrightarrow> \<forall>p \<in> set ps. sep \<notin> set p \<Longrightarrow> Split sep (Join sep ps) = ps"
  by (induction sep ps rule: Join.induct) (auto simp: Split_append_sep)

lemma SplitN2_append_sep: "sep \<notin> set s \<Longrightarrow> SplitN2 sep (s @ sep # t) = [s, t]"
  by (induction s) auto

end
