(* ===== verification/Swarm.thy ===== *)
theory Swarm
  imports Encodings
begin

text \<open>
  The metric space of addresses: \<open>pkg/swarm/swarm.go\<close> (addresses and chunks),
  \<open>pkg/swarm/proximity.go\<close> and \<open>pkg/swarm/distance.go\<close>. The main facts: the hexadecimal
  form of an address round-trips, \<open>DistanceCmp\<close> orders addresses as the exact XOR distance
  does, and a strictly larger proximity order means a strictly smaller distance.
\<close>

unbundle bit_operations_syntax

section \<open>Constants\<close>

definition SpanSize :: nat where "SpanSize = 8"
definition SectionSize :: nat where "SectionSize = 32"
definition Branches :: nat where "Branches = 128"
definition ChunkSize :: nat where "ChunkSize = SectionSize * Branches"
definition HashSize :: nat where "HashSize = 32"
definition MaxPO :: u8 where "MaxPO = 31"
definition ExtendedPO :: u8 where "ExtendedPO = MaxPO + 5"
definition ChunkWithSpanSize :: nat where "ChunkWithSpanSize = ChunkSize + SpanSize"

section \<open>Addresses\<close>

text \<open>The struct \<open>Address\<close> holds one byte slice; \<open>bytes.Equal\<close> does not tell a nil slice
  from an empty one, so an address is its bytes.\<close>

type_synonym Address = bytes

definition NewAddress :: "bytes \<Rightarrow> Address" where
  "NewAddress b = b"

definition ZeroAddress :: Address where
  "ZeroAddress = NewAddress []"

definition ParseHexAddress :: "string \<Rightarrow> hex_error + Address" where
  "ParseHexAddress s =
     (case DecodeString s of Inl err \<Rightarrow> Inl err | Inr b \<Rightarrow> Inr (NewAddress b))"

text \<open>\<open>None\<close> is the panic.\<close>

definition MustParseHexAddress :: "string \<Rightarrow> Address option" where
  "MustParseHexAddress s =
     (case ParseHexAddress s of Inl _ \<Rightarrow> None | Inr a \<Rightarrow> Some a)"

definition addr_String :: "Address \<Rightarrow> string" where
  "addr_String a = EncodeToString a"

definition addr_Equal :: "Address \<Rightarrow> Address \<Rightarrow> bool" where
  "addr_Equal a b \<longleftrightarrow> a = b"

fun MemberOf :: "Address \<Rightarrow> Address list \<Rightarrow> bool" where
  "MemberOf a [] = False"
| "MemberOf a (v # addrs) = (if addr_Equal v a then True else MemberOf a addrs)"

definition IsZero :: "Address \<Rightarrow> bool" where
  "IsZero a = addr_Equal a ZeroAddress"

definition addr_ByteString :: "Address \<Rightarrow> string" where
  "addr_ByteString a = string_of_bytes a"

lemma MemberOf_iff: "MemberOf a addrs \<longleftrightarrow> a \<in> set addrs"
  by (induction addrs) (auto simp: addr_Equal_def)

lemma addr_String_inject [simp]: "addr_String a = addr_String b \<longleftrightarrow> a = b"
  by (simp add: addr_String_def)

lemma Parse_String [simp]: "ParseHexAddress (addr_String a) = Inr a"
  by (simp add: ParseHexAddress_def addr_String_def NewAddress_def)

section \<open>Chunks\<close>

record 'stamp chunk =
  ch_addr :: Address
  ch_sdata :: bytes
  ch_tagID :: u32
  ch_stamp :: "'stamp option"
  ch_radius :: u8
  ch_depth :: u8
  ch_bucketDepth :: u8
  ch_immutable :: bool

definition NewChunk :: "Address \<Rightarrow> bytes \<Rightarrow> 'stamp chunk" where
  "NewChunk a d = \<lparr>ch_addr = a, ch_sdata = d, ch_tagID = 0, ch_stamp = None, ch_radius = 0, ch_depth = 0,
     ch_bucketDepth = 0, ch_immutable = False\<rparr>"

definition WithTagID :: "u32 \<Rightarrow> 'stamp chunk \<Rightarrow> 'stamp chunk" where
  "WithTagID t c = c\<lparr>ch_tagID := t\<rparr>"

definition WithStamp :: "'stamp \<Rightarrow> 'stamp chunk \<Rightarrow> 'stamp chunk" where
  "WithStamp s c = c\<lparr>ch_stamp := Some s\<rparr>"

definition WithBatch ::
  "u8 \<Rightarrow> u8 \<Rightarrow> u8 \<Rightarrow> bool \<Rightarrow> 'stamp chunk \<Rightarrow> 'stamp chunk" where
  "WithBatch r d bd im c =
     c\<lparr>ch_radius := r, ch_depth := d, ch_bucketDepth := bd, ch_immutable := im\<rparr>"

definition chunk_Equal :: "'stamp chunk \<Rightarrow> 'stamp chunk \<Rightarrow> bool" where
  "chunk_Equal c cp \<longleftrightarrow> addr_Equal (ch_addr c) (ch_addr cp) \<and> ch_sdata c = ch_sdata cp"

section \<open>Proximity order\<close>

text \<open>The inner loop over the bits of one byte, most significant first.\<close>

fun scan_bits :: "byte \<Rightarrow> nat list \<Rightarrow> nat option" where
  "scan_bits oxo [] = None"
| "scan_bits oxo (j # js) =
     (if drop_bit (7 - j) oxo AND 1 \<noteq> 0 then Some j else scan_bits oxo js)"

text \<open>The outer loop over the bytes.\<close>

fun scan_bytes :: "bytes \<Rightarrow> bytes \<Rightarrow> nat list \<Rightarrow> nat option" where
  "scan_bytes one other [] = None"
| "scan_bytes one other (i # is) =
     (case scan_bits (one ! i XOR other ! i) [0..<8] of
        Some j \<Rightarrow> Some (i * 8 + j)
      | None \<Rightarrow> scan_bytes one other is)"

text \<open>The number of bytes compared: lengths are truncated to \<open>uint8\<close>, as in the source.\<close>

definition scan_limit :: "u8 \<Rightarrow> bytes \<Rightarrow> bytes \<Rightarrow> u8" where
  "scan_limit po one other =
     (let b = po div 8 + 1;
          l1 = word_of_nat (length one);
          b1 = (if l1 < b then l1 else b);
          l2 = word_of_nat (length other)
      in if l2 < b1 then l2 else b1)"

definition Proximity :: "bytes \<Rightarrow> bytes \<Rightarrow> u8" where
  "Proximity one other =
     (case scan_bytes one other [0..<unat (scan_limit MaxPO one other)] of
        Some n \<Rightarrow> word_of_nat n
      | None \<Rightarrow> MaxPO)"

definition ExtendedProximity :: "bytes \<Rightarrow> bytes \<Rightarrow> u8" where
  "ExtendedProximity one other =
     (case scan_bytes one other [0..<unat (scan_limit ExtendedPO one other)] of
        Some n \<Rightarrow> word_of_nat n
      | None \<Rightarrow> ExtendedPO)"

section \<open>Distance\<close>

datatype distance_error = AddressLengthMustMatch

definition DistanceRaw :: "bytes \<Rightarrow> bytes \<Rightarrow> distance_error + bytes" where
  "DistanceRaw x y =
     (if length x \<noteq> length y then Inl AddressLengthMustMatch
      else Inr (map (\<lambda>i. x ! i XOR y ! i) [0..<length x]))"

definition Distance :: "bytes \<Rightarrow> bytes \<Rightarrow> distance_error + nat" where
  "Distance x y =
     (case DistanceRaw x y of Inl err \<Rightarrow> Inl err | Inr d \<Rightarrow> Inr (be_val d))"

fun distance_cmp_loop :: "bytes \<Rightarrow> bytes \<Rightarrow> bytes \<Rightarrow> int" where
  "distance_cmp_loop (a # as) (x # xs) (y # ys) =
     (let dx = x XOR a; dy = y XOR a in
      if dx = dy then distance_cmp_loop as xs ys
      else if dx < dy then 1 else -1)"
| "distance_cmp_loop _ _ _ = 0"

definition DistanceCmp :: "bytes \<Rightarrow> bytes \<Rightarrow> bytes \<Rightarrow> distance_error + int" where
  "DistanceCmp a x y =
     (if length a \<noteq> length x \<or> length a \<noteq> length y then Inl AddressLengthMustMatch
      else Inr (distance_cmp_loop a x y))"

section \<open>Proximity and distance agree\<close>

text \<open>The bytes of the XOR of two slices, as far as both go.\<close>

definition xor_bytes :: "bytes \<Rightarrow> bytes \<Rightarrow> bytes" where
  "xor_bytes x y = map2 (XOR) x y"

lemma length_xor_bytes [simp]: "length (xor_bytes x y) = min (length x) (length y)"
  by (simp add: xor_bytes_def)

lemma DistanceRaw_eq: "length x = length y \<Longrightarrow> DistanceRaw x y = Inr (xor_bytes x y)"
  by (auto simp: DistanceRaw_def xor_bytes_def intro: nth_equalityI)

lemma Distance_eq: "length x = length y \<Longrightarrow> Distance x y = Inr (be_val (xor_bytes x y))"
  by (simp add: Distance_def DistanceRaw_eq)

lemma xor_bytes_commute: "xor_bytes x y = xor_bytes y x"
  unfolding xor_bytes_def by (rule nth_equalityI) (auto simp: xor.commute)

lemma xor_bytes_cancel:
  "length x = length a \<Longrightarrow> length y = length a \<Longrightarrow> xor_bytes x a = xor_bytes y a \<Longrightarrow> x = y"
proof (induction x a arbitrary: y rule: list_induct2)
  case Nil
  then show ?case by simp
next
  case (Cons x xs a as)
  then obtain z zs where y: "y = z # zs" by (cases y) auto
  with Cons.prems have "x XOR a = z XOR a" by (simp add: xor_bytes_def)
  then have "(x XOR a) XOR a = (z XOR a) XOR a" by (rule arg_cong)
  then have x: "x = z" by (simp add: xor.assoc)
  have "xor_bytes xs as = xor_bytes zs as" and "length zs = length as"
    using Cons.prems Cons.hyps y by (simp_all add: xor_bytes_def)
  then have "xs = zs" by (intro Cons.IH)
  with x y show ?case by simp
qed

lemma distance_cmp_loop_eq:
  "length x = length a \<Longrightarrow> length y = length a \<Longrightarrow>
   distance_cmp_loop a x y =
     (if xor_bytes x a < xor_bytes y a then 1
      else if xor_bytes x a = xor_bytes y a then 0 else -1)"
  by (induction a x y rule: distance_cmp_loop.induct)
    (auto simp: xor_bytes_def Let_def split: if_splits)

text \<open>One byte: where the scan stops bounds the byte from both sides.\<close>

lemma scan_bit_test: "drop_bit n (w :: 8 word) AND 1 \<noteq> 0 \<longleftrightarrow> bit w n"
  by (simp add: and_one_eq mod_2_eq_odd bit_iff_odd_drop_bit)

lemma scan_bits_find: "scan_bits w js = find (\<lambda>j. bit w (7 - j)) js"
  by (induction js) (simp_all only: scan_bits.simps find.simps scan_bit_test)

lemma bit_byte_bound: "bit (w :: 8 word) n \<Longrightarrow> n < 8"
  using bit_imp_le_length [of w n] by simp

lemma scan_bits_None: "scan_bits w [0..<8] = None \<longleftrightarrow> w = 0"
proof
  assume "scan_bits w [0..<8] = None"
  then have none: "\<not> bit w (7 - j)" if "j < 8" for j
    using that by (auto simp: scan_bits_find find_None_iff)
  have "\<not> bit w n" for n
    using none [of "7 - n"] bit_byte_bound [of w n] by (cases "n < 8") auto
  then show "w = 0" by (simp add: bit_eq_iff)
qed (simp add: scan_bits_find find_None_iff)

lemma scan_bits_Some:
  assumes "scan_bits w [0..<8] = Some j"
  shows "j < 8" "2 ^ (7 - j) \<le> unat w" "unat w < 2 ^ (8 - j)"
proof -
  from assms have j: "j < 8" "bit w (7 - j)" and before: "\<And>i. i < j \<Longrightarrow> \<not> bit w (7 - i)"
    by (auto simp: scan_bits_find find_Some_iff)
  show "j < 8" by (rule j)
  show "2 ^ (7 - j) \<le> unat w" using j(2) by (rule bit_imp_ge)
  have "\<not> bit w n" if "8 - j \<le> n" for n
    using before [of "7 - n"] bit_byte_bound [of w n] that by (cases "n < 8") auto
  then show "unat w < 2 ^ (8 - j)" by (rule no_bits_imp_less)
qed

lemma scan_bits_order:
  assumes "scan_bits v [0..<8] = Some p" "scan_bits w [0..<8] = Some q" "q < p"
  shows "v < w"
proof -
  have "unat v < 2 ^ (8 - p)" by (rule scan_bits_Some [OF assms(1)])
  also have "\<dots> \<le> 2 ^ (7 - q)" using assms(3) scan_bits_Some(1) [OF assms(1)]
    by (intro power_increasing) auto
  also have "\<dots> \<le> unat w" by (rule scan_bits_Some [OF assms(2)])
  finally show ?thesis by (simp add: word_less_nat_alt)
qed

text \<open>The scan of the XOR bytes, by recursion on the list.\<close>

fun scan_xor :: "bytes \<Rightarrow> nat option" where
  "scan_xor [] = None"
| "scan_xor (d # ds) =
     (case scan_bits d [0..<8] of
        Some j \<Rightarrow> Some j
      | None \<Rightarrow> map_option ((+) 8) (scan_xor ds))"

lemma scan_bytes_shift:
  "k + n \<le> length x \<Longrightarrow> k + n \<le> length y \<Longrightarrow>
   scan_bytes x y [k..<k + n] = map_option ((+) (k * 8)) (scan_xor (take n (drop k (xor_bytes x y))))"
proof (induction n arbitrary: k)
  case 0
  then show ?case by simp
next
  case (Suc n)
  have nth: "xor_bytes x y ! k = x ! k XOR y ! k"
    using Suc.prems by (simp add: xor_bytes_def)
  have "k < length (xor_bytes x y)" using Suc.prems by simp
  then have drop: "drop k (xor_bytes x y) = (x ! k XOR y ! k) # drop (Suc k) (xor_bytes x y)"
    using nth Cons_nth_drop_Suc by metis
  have upt: "[k..<k + Suc n] = k # [Suc k..<Suc k + n]"
    by (simp add: upt_conv_Cons)
  have "scan_bytes x y [Suc k..<Suc k + n] =
      map_option ((+) (Suc k * 8)) (scan_xor (take n (drop (Suc k) (xor_bytes x y))))"
    using Suc.prems by (intro Suc.IH) auto
  then show ?case unfolding upt drop
    by (cases "scan_xor (take n (drop (Suc k) (xor_bytes x y)))")
      (auto simp del: upt_Suc split: option.splits)
qed

lemma scan_bytes_eq:
  "n \<le> length x \<Longrightarrow> n \<le> length y \<Longrightarrow>
   scan_bytes x y [0..<n] = scan_xor (take n (xor_bytes x y))"
  using scan_bytes_shift [of 0 n x y] by (cases "scan_xor (take n (xor_bytes x y))") auto

lemma scan_xor_bound: "scan_xor ds = Some n \<Longrightarrow> n < 8 * length ds"
proof (induction ds arbitrary: n)
  case Nil
  then show ?case by simp
next
  case (Cons d ds)
  then show ?case using scan_bits_Some(1) [of d]
    by (fastforce split: option.splits)
qed

text \<open>A longer common prefix (or no difference at all) means a smaller slice of XOR bytes.\<close>

lemma scan_xor_order:
  assumes "length ds = length es" and "scan_xor es = Some q"
    and "\<And>p. scan_xor ds = Some p \<Longrightarrow> q < p"
  shows "ds < es"
  using assms
proof (induction ds es arbitrary: q rule: list_induct2)
  case Nil
  then show ?case by simp
next
  case (Cons d ds e es)
  show ?case
  proof (cases "scan_bits e [0..<8]")
    case None
    then have e: "e = 0" by (simp add: scan_bits_None)
    from None Cons.prems(1) obtain q' where q': "scan_xor es = Some q'" "q = 8 + q'" by auto
    have d: "d = 0"
    proof (rule ccontr)
      assume "d \<noteq> 0"
      then obtain j where "scan_bits d [0..<8] = Some j" "j < 8"
        using scan_bits_None scan_bits_Some(1) by blast
      with Cons.prems(2) [of j] q' show False by simp
    qed
    then have "scan_bits d [0..<8] = None" by (simp add: scan_bits_None)
    with Cons.prems(2) q' have "\<And>p. scan_xor ds = Some p \<Longrightarrow> q' < p" by fastforce
    with Cons.IH q' have "ds < es" by blast
    with d e show ?thesis by simp
  next
    case (Some q1)
    with Cons.prems(1) have q: "q = q1" by simp
    have "d < e"
    proof (cases "scan_bits d [0..<8]")
      case None
      then show ?thesis using Some scan_bits_None [of e] by (auto simp: scan_bits_None word_neq_0_conv)
    next
      case (Some p)
      with Cons.prems(2) [of p] q \<open>scan_bits e [0..<8] = Some q1\<close> show ?thesis
        by (auto intro: scan_bits_order)
    qed
    then show ?thesis by simp
  qed
qed

lemma list_less_take:
  "length ds = length es \<Longrightarrow> take n ds < take n (es :: bytes) \<Longrightarrow> ds < es"
proof (induction ds es arbitrary: n rule: list_induct2)
  case Nil
  then show ?case by simp
next
  case (Cons d ds e es)
  then show ?case by (cases n) auto
qed

lemma Proximity_scan:
  assumes "4 \<le> length x" "length x < 256" "4 \<le> length y" "length y < 256"
  shows "Proximity x y = (case scan_xor (take 4 (xor_bytes x y)) of
    Some n \<Rightarrow> word_of_nat n | None \<Rightarrow> MaxPO)"
proof -
  have w: "\<not> (word_of_nat n :: 8 word) < 4" if "4 \<le> n" "n < 256" for n
    using that by (simp add: word_less_nat_alt unat_of_nat)
  have "scan_limit MaxPO x y = 4"
    using w [of "length x"] w [of "length y"] assms by (simp add: scan_limit_def MaxPO_def)
  then show ?thesis using assms by (simp add: Proximity_def scan_bytes_eq)
qed

text \<open>C14. \<open>DistanceCmp a x y\<close> decides which of two addresses is closer to \<open>a\<close>: for
  addresses of one length it returns 1, 0 or -1 as the exact XOR distance of \<open>x\<close> to \<open>a\<close>
  (as \<open>Distance\<close> computes it) is smaller than, equal to or larger than that of \<open>y\<close>, and
  the distances are equal only for equal addresses.\<close>

theorem DistanceCmp_correct:
  assumes "length x = length a" and "length y = length a"
    and "Distance x a = Inr dx" and "Distance y a = Inr dy"
  shows "DistanceCmp a x y = Inr (if dx < dy then 1 else if dx = dy then 0 else -1)
    \<and> (dx = dy \<longleftrightarrow> x = y)"
proof -
  have d: "dx = be_val (xor_bytes x a)" "dy = be_val (xor_bytes y a)"
    using assms by (simp_all add: Distance_eq)
  have "dx < dy \<longleftrightarrow> xor_bytes x a < xor_bytes y a" "dx = dy \<longleftrightarrow> xor_bytes x a = xor_bytes y a"
    using assms d by (simp_all add: be_val_less_iff be_val_inject)
  moreover have "xor_bytes x a = xor_bytes y a \<longleftrightarrow> x = y"
    using assms xor_bytes_cancel by blast
  ultimately show ?thesis
    using assms by (simp add: DistanceCmp_def distance_cmp_loop_eq)
qed

theorem DistanceCmp_correct_witness:
  "DistanceCmp [0, 0] [1, 7] [2, 0] = Inr 1 \<and> ([1, 7 :: 8 word] \<noteq> [2, 0])"
proof -
  have "Distance [1, 7] [0, 0] = Inr 263" "Distance [2, 0] [0, 0] = Inr 512"
    by (simp_all add: Distance_def DistanceRaw_def be_val_def)
  from DistanceCmp_correct [OF _ _ this] show ?thesis by simp
qed

text \<open>Proximity order refines distance: if \<open>x\<close> has a strictly larger proximity order
  to \<open>a\<close> than \<open>y\<close> has, then \<open>x\<close> is strictly closer to \<open>a\<close> in the XOR distance (addresses
  of one length, at least the four bytes \<open>Proximity\<close> reads and fewer than 256).\<close>

theorem Proximity_closer:
  assumes "length x = length a" and "length y = length a"
    and "4 \<le> length a" and "length a < 256"
    and "Proximity a y < Proximity a x"
  shows "\<exists>dx dy. Distance a x = Inr dx \<and> Distance a y = Inr dy \<and> dx < dy"
proof -
  let ?dx = "xor_bytes a x" and ?dy = "xor_bytes a y"
  have px: "Proximity a x = (case scan_xor (take 4 ?dx) of Some n \<Rightarrow> word_of_nat n | None \<Rightarrow> MaxPO)"
    and py: "Proximity a y = (case scan_xor (take 4 ?dy) of Some n \<Rightarrow> word_of_nat n | None \<Rightarrow> MaxPO)"
    using assms by (simp_all add: Proximity_scan)
  have small: "unat (word_of_nat n :: 8 word) = n" "n \<le> 31" if "scan_xor (take 4 d) = Some n" for n d
    using scan_xor_bound [OF that] by (simp_all add: unat_of_nat)
  obtain q where q: "scan_xor (take 4 ?dy) = Some q"
  proof (cases "scan_xor (take 4 ?dy)")
    case None
    with py px assms(5) small(1,2) [of ?dx] show ?thesis
      by (auto simp: MaxPO_def word_less_nat_alt split: option.splits)
  qed (rule that)
  have "q < p" if "scan_xor (take 4 ?dx) = Some p" for p
    using that q px py assms(5) small(1) [OF that] small(1) [OF q] by (simp add: word_less_nat_alt)
  then have "take 4 ?dx < take 4 ?dy"
    by (intro scan_xor_order [OF _ q]) (simp_all add: assms)
  then have "?dx < ?dy" by (rule list_less_take [rotated]) (simp add: assms)
  then have "be_val ?dx < be_val ?dy" by (simp add: be_val_less_iff assms)
  then show ?thesis using assms by (simp add: Distance_eq)
qed

theorem Proximity_closer_witness:
  "\<exists>dx dy. Distance [0, 0, 0, 0] [0, 1, 9, 9] = Inr dx \<and>
     Distance [0, 0, 0, 0] [0, 2, 0, 0] = Inr dy \<and> dx < dy"
proof -
  have "Proximity [0, 0, 0, 0] [0, 2, 0, 0] < Proximity [0, 0, 0, 0] [0, 1, 9, 9]"
    by (simp add: Proximity_scan xor_bytes_def scan_bits_find upt_rec bit_numeral_rec MaxPO_def)
  from Proximity_closer [OF _ _ _ _ this] show ?thesis by simp
qed

end
