(* ===== verification/Intervals.thy ===== *)
theory Intervals
  imports Encodings
begin

text \<open>
  \<open>pkg/intervalstore/intervals.go\<close>: the set of already synchronised ranges of a peer's
  chunk bin, kept as a list of closed ranges of \<open>uint64\<close>. The invariant \<open>iv_ok\<close> says that
  the list is sorted, its ranges are non-empty, pairwise separated by a gap and above the
  lower bound. \<open>add\<close> keeps it and adds exactly the new range, unless the new range lies
  strictly inside a stored one or ends at \<open>MaxUint64\<close>; both exceptions are defects that the
  last section exhibits on concrete inputs.
\<close>

section \<open>The data structure and its operations\<close>

record Intervals =
  iv_start :: u64
  iv_ranges :: "(u64 \<times> u64) list"

definition NewIntervals :: "u64 \<Rightarrow> Intervals" where
  "NewIntervals start = \<lparr>iv_start = start, iv_ranges = []\<rparr>"

definition MaxUint64 :: u64 where
  "MaxUint64 = -1"

text \<open>The loop of \<open>add\<close>: \<open>None\<close> is the value -1 of \<open>minStartJ\<close> and \<open>maxEndJ\<close>. It returns
  \<open>j\<close>, \<open>start\<close>, \<open>end\<close>, \<open>minStartJ\<close> and \<open>maxEndJ\<close>.\<close>

fun add_loop ::
  "(u64 \<times> u64) list \<Rightarrow> nat \<Rightarrow> u64 \<Rightarrow> u64 \<Rightarrow> u64 \<Rightarrow> nat option \<Rightarrow> nat option \<Rightarrow>
   nat \<times> u64 \<times> u64 \<times> nat option \<times> nat option" where
  "add_loop [] j start fin endCheck mn mx = (j, start, fin, mn, mx)"
| "add_loop ((r0, r1) # rs) j start fin endCheck mn mx =
     (let (start1, mn1) =
            (if mn = None \<and>
                ((start \<le> r0 \<and> r0 \<le> endCheck) \<or> (start \<le> r1 + 1 \<and> r1 \<le> endCheck))
             then (if r0 < start then r0 else start, Some j) else (start, mn));
          (fin1, mx1) =
            (if (start1 \<le> r1 \<and> r1 \<le> endCheck) \<or> (start1 \<le> r0 \<and> r0 \<le> endCheck)
             then (if fin < r1 then r1 else fin, Some j) else (fin, mx))
      in if fin1 + 1 \<le> r0 then (j, start1, fin1, mn1, mx1)
         else add_loop rs (j + 1) start1 fin1 endCheck mn1 mx1)"

text \<open>What \<open>add\<close> does with the loop's result.\<close>

definition add_write ::
  "(u64 \<times> u64) list \<Rightarrow> nat \<times> u64 \<times> u64 \<times> nat option \<times> nat option \<Rightarrow> (u64 \<times> u64) list" where
  "add_write rs res =
     (case res of (j, start, fin, mn, mx) \<Rightarrow>
       if mn = None \<and> mx = None then take j rs @ [(start, fin)] @ drop j rs
       else
         let rs1 = (case mn of None \<Rightarrow> rs | Some m \<Rightarrow> rs[m := (start, snd (rs ! m))]);
             rs2 = (case mx of None \<Rightarrow> rs1 | Some m \<Rightarrow> rs1[m := (fst (rs1 ! m), fin)])
         in (case (mn, mx) of
               (Some a, Some b) \<Rightarrow>
                 if a \<noteq> b
                 then take a (rs2[b := (start, snd (rs2 ! b))])
                      @ drop b (rs2[b := (start, snd (rs2 ! b))])
                 else rs2
             | _ \<Rightarrow> rs2))"

definition iv_add :: "u64 \<Rightarrow> u64 \<Rightarrow> Intervals \<Rightarrow> Intervals" where
  "iv_add start0 fin i =
     (let start = (if start0 < iv_start i then iv_start i else start0) in
      if fin < iv_start i then i
      else
        let endCheck = (if fin = MaxUint64 then fin else fin + 1)
        in i\<lparr>iv_ranges :=
               add_write (iv_ranges i) (add_loop (iv_ranges i) 0 start fin endCheck None None)\<rparr>)"

definition Add :: "u64 \<Rightarrow> u64 \<Rightarrow> Intervals \<Rightarrow> Intervals" where
  "Add start fin i = iv_add start fin i"

definition Merge :: "Intervals \<Rightarrow> Intervals \<Rightarrow> Intervals" where
  "Merge m i = fold (\<lambda>r. iv_add (fst r) (snd r)) (iv_ranges m) i"

text \<open>The body of \<open>Next\<close>, and the deferred function that applies the ceiling.\<close>

definition next_body :: "Intervals \<Rightarrow> u64 \<times> u64 \<times> bool" where
  "next_body i =
     (case iv_ranges i of
        [] \<Rightarrow> (iv_start i, 0, False)
      | (a0, a1) # rest \<Rightarrow>
          if a0 \<noteq> iv_start i then (iv_start i, a0 - 1, False)
          else (case rest of
                  [] \<Rightarrow> (a1 + 1, 0, False)
                | (b0, b1) # _ \<Rightarrow> (a1 + 1, b0 - 1, False)))"

definition iv_Next :: "u64 \<Rightarrow> Intervals \<Rightarrow> u64 \<times> u64 \<times> bool" where
  "iv_Next ceiling i =
     (case next_body i of (start, fin, emp) \<Rightarrow>
       if 0 < ceiling then
         (if ceiling < start then ceiling else start,
          if fin = 0 \<or> ceiling < fin then ceiling else fin,
          ceiling < start \<and> (fin = 0 \<or> ceiling < fin))
       else (start, fin, emp))"

definition Last :: "Intervals \<Rightarrow> u64" where
  "Last i = (if iv_ranges i = [] then 0 else snd (last (iv_ranges i)))"

definition iv_MarshalBinary :: "Intervals \<Rightarrow> string" where
  "iv_MarshalBinary i =
     Join (CHR '';'')
       (FormatUint 36 (unat (iv_start i)) #
        map (\<lambda>r. FormatUint 36 (unat (fst r)) @ CHR '','' # FormatUint 36 (unat (snd r)))
          (iv_ranges i))"

datatype iv_error = ParseStart num_error | TooFewElements nat | ParseFirst nat num_error
  | ParseSecond nat num_error

text \<open>The loop of \<open>UnmarshalBinary\<close> over the encoded ranges; a failed parse leaves the ranges
  added so far in place.\<close>

fun unmarshal_ranges :: "nat \<Rightarrow> string list \<Rightarrow> Intervals \<Rightarrow> iv_error option \<times> Intervals" where
  "unmarshal_ranges j [] i = (None, i)"
| "unmarshal_ranges j (d # ds) i =
     (case SplitN2 (CHR '','') d of
        r0 # r1 # _ \<Rightarrow>
          (case ParseUint 36 r0 of
             Inl e \<Rightarrow> (Some (ParseFirst j e), i)
           | Inr start \<Rightarrow>
              (case ParseUint 36 r1 of
                 Inl e \<Rightarrow> (Some (ParseSecond j e), i)
               | Inr fin \<Rightarrow>
                   unmarshal_ranges (j + 1) ds (iv_add (word_of_nat start) (word_of_nat fin) i)))
      | _ \<Rightarrow> (Some (TooFewElements j), i))"

text \<open>On a failed parse \<open>ParseUint\<close> still assigns a value to \<open>i.start\<close>: 0 for a syntax error,
  the largest value for a number out of range.\<close>

definition iv_UnmarshalBinary :: "string \<Rightarrow> Intervals \<Rightarrow> iv_error option \<times> Intervals" where
  "iv_UnmarshalBinary data i =
     (case Split (CHR '';'') data of
        [] \<Rightarrow> (None, i)
      | d # ds \<Rightarrow>
          (case ParseUint 36 d of
             Inl e \<Rightarrow> (Some (ParseStart e),
                i\<lparr>iv_start := (case e of ErrSyntax \<Rightarrow> 0 | ErrRange \<Rightarrow> MaxUint64)\<rparr>)
           | Inr v \<Rightarrow>
               if ds = [] then (None, i\<lparr>iv_start := word_of_nat v\<rparr>)
               else unmarshal_ranges 1 ds \<lparr>iv_start = word_of_nat v, iv_ranges = []\<rparr>))"

section \<open>Invariant and meaning\<close>

definition covered :: "Intervals \<Rightarrow> u64 set" where
  "covered i = (\<Union>r \<in> set (iv_ranges i). {fst r..snd r})"

definition gap :: "u64 \<times> u64 \<Rightarrow> u64 \<times> u64 \<Rightarrow> bool" where
  "gap r r' \<longleftrightarrow> unat (snd r) + 1 < unat (fst r')"

definition ranges_ok :: "(u64 \<times> u64) list \<Rightarrow> bool" where
  "ranges_ok rs \<longleftrightarrow>
     sorted_wrt gap rs \<and> list_all (\<lambda>r. fst r \<le> snd r \<and> snd r \<noteq> MaxUint64) rs"

definition iv_ok :: "Intervals \<Rightarrow> bool" where
  "iv_ok i \<longleftrightarrow> ranges_ok (iv_ranges i) \<and> list_all (\<lambda>r. iv_start i \<le> fst r) (iv_ranges i)"

text \<open>The range lies strictly inside a stored range, touching neither of its ends: the case
  that \<open>add\<close> does not recognise.\<close>

definition strictly_inside :: "u64 \<Rightarrow> u64 \<Rightarrow> Intervals \<Rightarrow> bool" where
  "strictly_inside start fin i \<longleftrightarrow>
     list_ex (\<lambda>r. fst r < start \<and> unat fin + 1 < unat (snd r)) (iv_ranges i)"

section \<open>How \<open>add\<close> works on a well-formed list\<close>

text \<open>Relative to a new range a stored range is before it, touches it or is after it.\<close>

definition before_rng :: "u64 \<Rightarrow> u64 \<times> u64 \<Rightarrow> bool" where
  "before_rng s r \<longleftrightarrow> unat (snd r) + 1 < unat s"

definition touch_rng :: "u64 \<Rightarrow> u64 \<Rightarrow> u64 \<times> u64 \<Rightarrow> bool" where
  "touch_rng s e r \<longleftrightarrow> unat (fst r) \<le> unat e + 1 \<and> unat s \<le> unat (snd r) + 1"

definition after_rng :: "u64 \<Rightarrow> u64 \<times> u64 \<Rightarrow> bool" where
  "after_rng e r \<longleftrightarrow> unat e + 1 < unat (fst r)"

lemmas rng_defs = before_rng_def touch_rng_def after_rng_def gap_def

lemma unat_Suc_word: "w \<noteq> MaxUint64 \<Longrightarrow> unat (w + 1 :: u64) = unat w + 1"
proof -
  assume "w \<noteq> MaxUint64"
  then have "w + 1 \<noteq> 0" by (metis MaxUint64_def add_eq_0_iff2)
  then show ?thesis by (simp add: unatSuc add.commute)
qed

lemma unat_MaxUint64: "unat MaxUint64 = 2 ^ 64 - 1"
  by (simp add: MaxUint64_def unsigned_minus_1_eq_mask mask_eq_exp_minus_1)

lemma MaxUint64_top [simp]: "\<not> MaxUint64 < w" "w \<le> MaxUint64"
  by (simp_all add: MaxUint64_def)

lemma ranges_ok_simps [simp]:
  "ranges_ok []"
  "ranges_ok (r # rs) \<longleftrightarrow>
     (\<forall>r' \<in> set rs. gap r r') \<and> fst r \<le> snd r \<and> snd r \<noteq> MaxUint64 \<and> ranges_ok rs"
  by (auto simp: ranges_ok_def)

lemma ranges_ok_append:
  "ranges_ok (xs @ ys) \<longleftrightarrow> ranges_ok xs \<and> ranges_ok ys \<and> (\<forall>x \<in> set xs. \<forall>y \<in> set ys. gap x y)"
  by (auto simp: ranges_ok_def sorted_wrt_append)

lemma ranges_split:
  assumes "ranges_ok rs" and "s \<le> e"
  shows "\<exists>L M R. rs = L @ M @ R \<and> list_all (before_rng s) L \<and> list_all (touch_rng s e) M
    \<and> list_all (after_rng e) R"
  using assms(1)
proof (induction rs)
  case Nil
  then show ?case by simp
next
  case (Cons r rs)
  then obtain L M R where rs: "rs = L @ M @ R" and L: "list_all (before_rng s) L"
    and M: "list_all (touch_rng s e) M" and R: "list_all (after_rng e) R" by auto
  have gap: "\<forall>r' \<in> set (L @ M @ R). gap r r'" and r: "unat (fst r) \<le> unat (snd r)"
    and fits: "\<forall>r' \<in> set (L @ M @ R). unat (fst r') \<le> unat (snd r')"
    using Cons.prems rs by (auto simp: ranges_ok_def list_all_iff word_le_nat_alt)
  consider "before_rng s r" | "touch_rng s e r" "\<not> before_rng s r" | "after_rng e r" "\<not> before_rng s r"
    using assms(2) r by (force simp: rng_defs word_le_nat_alt)
  then show ?case
  proof cases
    case 1
    with rs L M R show ?thesis by (intro exI [of _ "r # L"] exI [of _ M] exI [of _ R]) simp
  next
    case 2
    have "L = []" using 2 gap fits L r by (cases L) (force simp: rng_defs)+
    with 2 rs M R show ?thesis by (intro exI [of _ "[]"] exI [of _ "r # M"] exI [of _ R]) simp
  next
    case 3
    have "L = []" using 3 gap fits L r by (cases L) (force simp: rng_defs)+
    moreover have "M = []" using 3 gap fits M r by (cases M) (force simp: rng_defs)+
    ultimately show ?thesis using 3 rs R
      by (intro exI [of _ "[]"] exI [of _ "r # R"]) simp
  qed
qed

text \<open>The loop skips the ranges before the new one,\<close>

lemma loop_before:
  assumes "s \<le> e" and "e \<noteq> MaxUint64"
  shows "ranges_ok L \<Longrightarrow> list_all (before_rng s) L \<Longrightarrow>
    add_loop (L @ rs) j s e (e + 1) None None = add_loop rs (j + length L) s e (e + 1) None None"
proof (induction L arbitrary: j)
  case Nil
  then show ?case by simp
next
  case (Cons r L)
  obtain r0 r1 where r: "r = (r0, r1)" by (cases r)
  from Cons.prems r assms have "\<not> s \<le> r0" "\<not> s \<le> r1" "\<not> s \<le> r1 + 1" "\<not> e + 1 \<le> r0"
    by (auto simp: rng_defs word_le_nat_alt unat_Suc_word)
  with Cons r show ?case by simp
qed

text \<open>runs through those that touch it,\<close>

lemma loop_touching:
  assumes "e \<noteq> MaxUint64"
  shows "ranges_ok (M @ R) \<Longrightarrow> fin \<noteq> MaxUint64 \<Longrightarrow>
    list_all (\<lambda>r. s \<le> fst r \<and> fst r \<le> e + 1) M \<Longrightarrow>
    list_all (\<lambda>r. after_rng e r \<and> after_rng fin r) R \<Longrightarrow>
    \<exists>j'. add_loop (M @ R) j s fin (e + 1) (Some a) mx =
      (j', s, if M = [] then fin else max fin (snd (last M)), Some a,
       if M = [] then mx else Some (j + length M - 1))"
proof (induction M arbitrary: j fin mx)
  case Nil
  show ?case
  proof (cases R)
    case Nil
    then show ?thesis by simp
  next
    case (Cons r R')
    obtain r0 r1 where r: "r = (r0, r1)" by (cases r)
    with Cons Nil.prems assms have "\<not> r0 \<le> e + 1" "\<not> r1 \<le> e + 1" "fin + 1 \<le> r0"
      by (auto simp: rng_defs word_le_nat_alt unat_Suc_word)
    with Cons r show ?thesis by simp
  qed
next
  case (Cons r M)
  obtain r0 r1 where r: "r = (r0, r1)" by (cases r)
  let ?fin = "if fin < r1 then r1 else fin"
  have fin: "?fin \<noteq> MaxUint64" and le: "s \<le> r0" "r0 \<le> e + 1" "r0 \<le> ?fin"
    using Cons.prems r by auto
  then have "\<not> ?fin + 1 \<le> r0" by (auto simp: word_le_nat_alt unat_Suc_word)
  then have step: "add_loop ((r # M) @ R) j s fin (e + 1) (Some a) mx =
      add_loop (M @ R) (j + 1) s ?fin (e + 1) (Some a) (Some j)"
    using le r by simp
  have "list_all (\<lambda>r. after_rng e r \<and> after_rng ?fin r) R"
    using Cons.prems r by (auto simp: rng_defs list_all_iff)
  then obtain j' where "add_loop (M @ R) (j + 1) s ?fin (e + 1) (Some a) (Some j) =
      (j', s, if M = [] then ?fin else max ?fin (snd (last M)), Some a,
       if M = [] then Some j else Some (j + 1 + length M - 1))"
    using Cons.IH [of ?fin "j + 1" "Some j"] Cons.prems fin by auto
  moreover have "max ?fin (snd (last M)) = max fin (snd (last M))" if "M \<noteq> []"
  proof -
    have "last M \<in> set M" using that by simp
    then have "gap r (last M)" "fst (last M) \<le> snd (last M)"
      using Cons.prems by (auto simp: ranges_ok_append ranges_ok_def list_all_iff)
    then have "r1 \<le> snd (last M)" using r by (simp add: rng_defs word_le_nat_alt)
    then show ?thesis by (auto simp: max_def)
  qed
  ultimately show ?case using step r by (auto simp: max_def)
qed

text \<open>and so collects the first and the last range that touch the new one.\<close>

lemma loop_merge:
  assumes "s \<le> e" and "e \<noteq> MaxUint64" and ok: "ranges_ok (m # M @ R)"
    and "list_all (touch_rng s e) (m # M)" and "list_all (after_rng e) R"
    and "\<not> (fst m < s \<and> unat e + 1 < unat (snd m))"
  shows "\<exists>j'. add_loop (m # M @ R) j s e (e + 1) None None =
    (j', min s (fst m), max e (snd (last (m # M))), Some j, Some (j + length M))"
proof -
  obtain r0 r1 where m: "m = (r0, r1)" by (cases m)
  let ?s = "if r0 < s then r0 else s" and ?fin = "if e < r1 then r1 else e"
  have "?s \<le> r0" by (simp add: not_less)
  moreover have r1: "r1 \<noteq> MaxUint64" and "r0 \<le> e + 1" and s: "s \<le> r1 + 1"
    using assms m by (auto simp: rng_defs word_le_nat_alt unat_Suc_word)
  ultimately have r0: "r0 \<le> e + 1" "?s \<le> r0" by simp_all
  have "(s \<le> r0 \<and> r0 \<le> e + 1) \<or> (s \<le> r1 + 1 \<and> r1 \<le> e + 1)"
    using assms(2,6) r0 s m by (auto simp: word_le_nat_alt word_less_nat_alt unat_Suc_word)
  moreover have fin: "?fin \<noteq> MaxUint64" using assms(2) r1 by simp
  moreover have "\<not> ?fin + 1 \<le> r0" using fin ok m
    by (auto simp: word_le_nat_alt word_less_nat_alt unat_Suc_word)
  ultimately have step: "add_loop (m # M @ R) j s e (e + 1) None None =
      add_loop (M @ R) (j + 1) ?s ?fin (e + 1) (Some j) (Some j)"
    using m r0 by simp
  have "?s \<le> fst r \<and> fst r \<le> e + 1" if "r \<in> set M" for r
  proof -
    have "gap m r" "touch_rng s e r" using that assms by (auto simp: list_all_iff)
    moreover have "unat r0 \<le> unat r1" using ok m by (simp add: word_le_nat_alt)
    ultimately have "r0 \<le> fst r" "fst r \<le> e + 1"
      using assms(2) m by (auto simp: rng_defs word_le_nat_alt unat_Suc_word)
    with r0 show ?thesis by simp
  qed
  then have "list_all (\<lambda>r. ?s \<le> fst r \<and> fst r \<le> e + 1) M" by (simp add: list_all_iff)
  moreover have "list_all (\<lambda>r. after_rng e r \<and> after_rng ?fin r) R"
    using assms m by (auto simp: rng_defs list_all_iff)
  ultimately obtain j' where j': "add_loop (M @ R) (j + 1) ?s ?fin (e + 1) (Some j) (Some j) =
      (j', ?s, if M = [] then ?fin else max ?fin (snd (last M)), Some j,
       if M = [] then Some j else Some (j + 1 + length M - 1))"
    using loop_touching [OF assms(2), of M R ?fin ?s "j + 1" j "Some j"] ok fin by auto
  have "max ?fin (snd (last M)) = max e (snd (last M))" if "M \<noteq> []"
  proof -
    have "last M \<in> set (M @ R)" using that by simp
    then have "gap m (last M)" "fst (last M) \<le> snd (last M)"
      using ok by (auto simp: ranges_ok_def list_all_iff)
    then have "r1 \<le> snd (last M)" using m by (simp add: rng_defs word_le_nat_alt)
    then show ?thesis by (auto simp: max_def)
  qed
  then show ?thesis using step j' m by (auto simp: max_def min_def)
qed

lemma loop_insert:
  assumes "s \<le> e" and "e \<noteq> MaxUint64" and "ranges_ok R" and "list_all (after_rng e) R"
  shows "add_loop R j s e (e + 1) None None = (j, s, e, None, None)"
proof (cases R)
  case Nil
  then show ?thesis by simp
next
  case (Cons r R')
  obtain r0 r1 where r: "r = (r0, r1)" by (cases r)
  with Cons assms have "\<not> r0 \<le> e + 1" "\<not> r1 \<le> e + 1" "e + 1 \<le> r0"
    by (auto simp: rng_defs word_le_nat_alt unat_Suc_word)
  with Cons r show ?thesis by simp
qed

text \<open>Writing the result back replaces the ranges that touch the new one by their hull.\<close>

lemma add_write_merge:
  "add_write (L @ (m # M) @ R) (j', lo, hi, Some (length L), Some (length L + length M)) =
     L @ (lo, hi) # R"
proof (cases "M = []")
  case True
  then show ?thesis by (simp add: add_write_def)
next
  case False
  then obtain M' z where M: "M = M' @ [z]" by (cases M rule: rev_cases) auto
  have b: "length L + length M = length (L @ m # M')" using M by simp
  have "L @ (m # M) @ R = (L @ m # M') @ z # R" using M by simp
  then show ?thesis using M
    by (simp add: add_write_def list_update_append nth_append drop_update_swap)
qed

lemma add_ranges_merge:
  assumes "s \<le> e" and "e \<noteq> MaxUint64" and ok: "ranges_ok (L @ (m # M) @ R)"
    and "list_all (before_rng s) L" and "list_all (touch_rng s e) (m # M)"
    and "list_all (after_rng e) R" and "\<not> (fst m < s \<and> unat e + 1 < unat (snd m))"
  shows "add_write (L @ (m # M) @ R) (add_loop (L @ (m # M) @ R) 0 s e (e + 1) None None) =
    L @ (min s (fst m), max e (snd (last (m # M)))) # R"
proof -
  have "ranges_ok L" "ranges_ok (m # M @ R)" using ok by (simp_all add: ranges_ok_append)
  moreover then obtain j' where "add_loop (m # M @ R) (length L) s e (e + 1) None None =
      (j', min s (fst m), max e (snd (last (m # M))), Some (length L), Some (length L + length M))"
    using loop_merge assms by metis
  ultimately have "add_loop (L @ (m # M) @ R) 0 s e (e + 1) None None =
      (j', min s (fst m), max e (snd (last (m # M))), Some (length L), Some (length L + length M))"
    using loop_before [OF assms(1,2), of L "m # M @ R" 0] assms(4) by simp
  then show ?thesis by (simp only: add_write_merge)
qed

lemma add_ranges_insert:
  assumes "s \<le> e" and "e \<noteq> MaxUint64" and ok: "ranges_ok (L @ R)"
    and "list_all (before_rng s) L" and "list_all (after_rng e) R"
  shows "add_write (L @ R) (add_loop (L @ R) 0 s e (e + 1) None None) = L @ (s, e) # R"
proof -
  have "ranges_ok L" "ranges_ok R" using ok by (simp_all add: ranges_ok_append)
  then have "add_loop (L @ R) 0 s e (e + 1) None None = (length L, s, e, None, None)"
    using loop_before [OF assms(1,2), of L R 0] loop_insert [OF assms(1,2), of R] assms by simp
  then show ?thesis by (simp add: add_write_def)
qed

section \<open>Effect of \<open>add\<close> on the covered set\<close>

definition rng_set :: "(u64 \<times> u64) list \<Rightarrow> u64 set" where
  "rng_set rs = (\<Union>r \<in> set rs. {fst r..snd r})"

lemma rng_set_simps [simp]:
  "rng_set [] = {}" "rng_set (r # rs) = {fst r..snd r} \<union> rng_set rs"
  "rng_set (xs @ ys) = rng_set xs \<union> rng_set ys"
  by (auto simp: rng_set_def)

lemma ranges_ok_last: "ranges_ok rs \<Longrightarrow> r \<in> set rs \<Longrightarrow> snd r \<le> snd (last rs)"
proof (induction rs)
  case Nil
  then show ?case by simp
next
  case (Cons x rs)
  show ?case
  proof (cases "rs = []")
    case True
    with Cons.prems show ?thesis by simp
  next
    case False
    then have "last rs \<in> set rs" by simp
    then have "gap x (last rs)" "fst (last rs) \<le> snd (last rs)"
      using Cons.prems by (auto simp: ranges_ok_def list_all_iff)
    then have "snd x \<le> snd (last rs)" by (simp add: rng_defs word_le_nat_alt)
    with False Cons show ?thesis by auto
  qed
qed

lemma hull_set:
  assumes "s \<le> e" and "e \<noteq> MaxUint64" and ok: "ranges_ok (m # M)"
    and touch: "list_all (touch_rng s e) (m # M)"
  shows "{min s (fst m)..max e (snd (last (m # M)))} = {s..e} \<union> rng_set (m # M)"
proof
  have hd: "fst m \<le> fst r" if "r \<in> set (m # M)" for r
    using that ok by (auto simp: rng_defs word_le_nat_alt)
  have lst: "snd r \<le> snd (last (m # M))" if "r \<in> set (m # M)" for r
    using ok that by (rule ranges_ok_last)
  show "{s..e} \<union> rng_set (m # M) \<subseteq> {min s (fst m)..max e (snd (last (m # M)))}"
  proof
    fix x
    assume "x \<in> {s..e} \<union> rng_set (m # M)"
    then consider "x \<in> {s..e}" | r where "r \<in> set (m # M)" "x \<in> {fst r..snd r}"
      unfolding rng_set_def by blast
    then show "x \<in> {min s (fst m)..max e (snd (last (m # M)))}"
    proof cases
      case 1
      then show ?thesis by (auto simp: min_le_iff_disj le_max_iff_disj)
    next
      case 2
      then show ?thesis using hd [OF 2(1)] lst [OF 2(1)]
        by (auto simp: min_le_iff_disj le_max_iff_disj)
    qed
  qed
  have last: "touch_rng s e (last (m # M))" "last (m # M) \<in> set (m # M)"
    using touch last_in_set [of "m # M"] by (simp_all only: list_all_iff) blast+
  show "{min s (fst m)..max e (snd (last (m # M)))} \<subseteq> {s..e} \<union> rng_set (m # M)"
  proof
    fix x
    assume x: "x \<in> {min s (fst m)..max e (snd (last (m # M)))}"
    show "x \<in> {s..e} \<union> rng_set (m # M)"
    proof (cases "x < s")
      case True
      with x touch have "x \<in> {fst m..snd m}"
        by (auto simp: rng_defs min_le_iff_disj word_le_nat_alt word_less_nat_alt)
      then show ?thesis by simp
    next
      case False
      then have "x \<in> {s..e}" if "x \<le> e" using that by simp
      moreover have "x \<in> {fst (last (m # M))..snd (last (m # M))}" if "e < x"
        using that x last(1) by (auto simp: rng_defs le_max_iff_disj word_le_nat_alt word_less_nat_alt)
      moreover have "{fst (last (m # M))..snd (last (m # M))} \<subseteq> rng_set (m # M)"
        unfolding rng_set_def using last(2) by blast
      ultimately show ?thesis by (cases "e < x") auto
    qed
  qed
qed

text \<open>On ranges that satisfy the invariant \<open>add\<close> gives the invariant and the union.\<close>

lemma add_ranges_correct:
  assumes "ranges_ok rs" and "s \<le> e" and "e \<noteq> MaxUint64"
    and inside: "\<not> list_ex (\<lambda>r. fst r < s \<and> unat e + 1 < unat (snd r)) rs"
  shows "ranges_ok (add_write rs (add_loop rs 0 s e (e + 1) None None))
    \<and> rng_set (add_write rs (add_loop rs 0 s e (e + 1) None None)) = rng_set rs \<union> {s..e}"
proof -
  obtain L M R where rs: "rs = L @ M @ R" and L: "list_all (before_rng s) L"
    and M: "list_all (touch_rng s e) M" and R: "list_all (after_rng e) R"
    using ranges_split assms by blast
  show ?thesis
  proof (cases M)
    case Nil
    then have "add_write rs (add_loop rs 0 s e (e + 1) None None) = L @ (s, e) # R"
      using add_ranges_insert [OF assms(2,3) _ L R] assms(1) rs by simp
    moreover have "ranges_ok (L @ (s, e) # R)"
      using assms rs Nil L R by (auto simp: ranges_ok_append rng_defs list_all_iff)
    ultimately show ?thesis using rs Nil by auto
  next
    case (Cons m N)
    let ?r = "(min s (fst m), max e (snd (last (m # N))))"
    have ok: "ranges_ok (L @ (m # N) @ R)" using assms(1) rs Cons by simp
    then have okM: "ranges_ok (m # N)" by (simp only: ranges_ok_append)
    have lst: "last (m # N) \<in> set (m # N)" by (rule last_in_set) simp
    have gaps: "\<forall>x \<in> set L. \<forall>y \<in> set (m # N). gap x y" "\<forall>x \<in> set (m # N). \<forall>y \<in> set R. gap x y"
      using ok by (auto simp: ranges_ok_append)
    have "\<not> (fst m < s \<and> unat e + 1 < unat (snd m))" using inside rs Cons by simp
    then have "add_write rs (add_loop rs 0 s e (e + 1) None None) = L @ ?r # R"
      using add_ranges_merge [OF assms(2,3) ok L _ R] M Cons rs by simp
    moreover have "ranges_ok (L @ ?r # R)"
    proof -
      have "gap x ?r" if "x \<in> set L" for x
        using that L gaps(1) by (auto simp: rng_defs list_all_iff min_def)
      moreover have "gap ?r y" if "y \<in> set R" for y
        using that R gaps(2) lst unfolding rng_defs list_all_iff
        by (cases "e \<le> snd (last (m # N))") (auto simp only: max_def if_True if_False fst_conv snd_conv)
      moreover have "fst ?r \<le> snd ?r" using assms(2) by (simp add: min_le_iff_disj le_max_iff_disj)
      moreover have "snd ?r \<noteq> MaxUint64"
        using assms(3) okM lst by (auto simp: max_def ranges_ok_def list_all_iff)
      moreover have "\<forall>x \<in> set L. \<forall>y \<in> set R. gap x y" "ranges_ok L" "ranges_ok R"
        using ok by (auto simp: ranges_ok_append)
      ultimately show ?thesis by (simp add: ranges_ok_append)
    qed
    moreover have "rng_set (L @ ?r # R) = rng_set rs \<union> {s..e}"
      using hull_set [OF assms(2,3) okM] M Cons rs by auto
    ultimately show ?thesis by simp
  qed
qed

lemma covered_rng_set: "covered i = rng_set (iv_ranges i)"
  by (simp add: covered_def rng_set_def)

lemma rng_set_lower:
  assumes "list_all (\<lambda>r. lo \<le> fst r) rs" and "rng_set rs' = rng_set rs \<union> {s..e}" and "lo \<le> s"
    and "ranges_ok rs'"
  shows "list_all (\<lambda>r. lo \<le> fst r) rs'"
proof -
  have "lo \<le> fst r" if "r \<in> set rs'" for r
  proof -
    have "fst r \<le> snd r" using that assms(4) by (auto simp: ranges_ok_def list_all_iff)
    then have "fst r \<in> rng_set rs'" using that by (force simp: rng_set_def)
    then have "fst r \<in> rng_set rs \<union> {s..e}" by (simp only: assms(2))
    then consider r' where "r' \<in> set rs" "fst r' \<le> fst r" | "s \<le> fst r"
      unfolding rng_set_def by auto
    then show ?thesis using assms(1,3) by cases (auto simp: list_all_iff)
  qed
  then show ?thesis by (simp add: list_all_iff)
qed

text \<open>A range strictly inside a stored one: no stored range has an end that the loop sees, so the range is
  inserted as it is.\<close>

lemma add_loop_nested:
  assumes "s \<le> e" and "e \<noteq> MaxUint64"
    and "\<forall>(r0, r1) \<in> set rs. r1 \<noteq> MaxUint64 \<and> r0 \<le> r1 \<and>
      (unat r1 + 1 < unat s \<or> unat e + 1 < unat r0 \<or> r0 < s \<and> unat e + 1 < unat r1)"
  shows "\<exists>j'. add_loop rs j s e (e + 1) None None = (j', s, e, None, None)"
  using assms(3)
proof (induction rs arbitrary: j)
  case Nil
  then show ?case by simp
next
  case (Cons r rs)
  obtain r0 r1 where r: "r = (r0, r1)" by (cases r)
  have no: "(s \<le> r0 \<and> r0 \<le> e + 1) = False" "(s \<le> r1 + 1 \<and> r1 \<le> e + 1) = False" "(s \<le> r1 \<and> r1 \<le> e + 1) = False"
    using Cons.prems r assms(1,2) by (auto simp: word_le_nat_alt word_less_nat_alt unat_Suc_word)
  have "add_loop ((r0, r1) # rs) j s e (e + 1) None None =
      (if e + 1 \<le> r0 then (j, s, e, None, None) else add_loop rs (j + 1) s e (e + 1) None None)"
    by (simp only: add_loop.simps no Let_def prod.case if_False simp_thms)
  then show ?case using Cons by (auto simp: r)
qed

lemma nested_places:
  assumes "ranges_ok rs" and "r \<in> set rs" and "fst r < s" and "unat e + 1 < unat (snd r)" and "x \<in> set rs"
  shows "snd x \<noteq> MaxUint64 \<and> fst x \<le> snd x \<and>
    (unat (snd x) + 1 < unat s \<or> unat e + 1 < unat (fst x) \<or> fst x < s \<and> unat e + 1 < unat (snd x))"
proof -
  have "x = r \<or> gap x r \<or> gap r x"
    using assms(1,2,5) by (induction rs) auto
  moreover have "snd x \<noteq> MaxUint64 \<and> fst x \<le> snd x" using assms(1,5) by (auto simp: ranges_ok_def list_all_iff)
  ultimately show ?thesis using assms(3,4) by (auto simp: gap_def word_less_nat_alt)
qed

lemma add_ranges_nested:
  assumes "ranges_ok rs" and "s \<le> e" and "e \<noteq> MaxUint64"
    and "list_ex (\<lambda>r. fst r < s \<and> unat e + 1 < unat (snd r)) rs"
  defines "rs' \<equiv> add_write rs (add_loop rs 0 s e (e + 1) None None)"
  shows "rng_set rs' = rng_set rs \<union> {s..e} \<and> \<not> ranges_ok rs'"
proof -
  obtain r where r: "r \<in> set rs" "fst r < s" "unat e + 1 < unat (snd r)" using assms(4) by (auto simp: list_ex_iff)
  obtain j where "add_loop rs 0 s e (e + 1) None None = (j, s, e, None, None)"
    using add_loop_nested [OF assms(2,3), of rs 0] nested_places [OF assms(1) r] by fastforce
  then have rs': "rs' = take j rs @ [(s, e)] @ drop j rs" by (simp add: rs'_def add_write_def)
  then have set: "set rs' = insert (s, e) (set rs)" by (metis Un_insert_right append_Cons append_Nil append_take_drop_id list.simps(15) set_append)
  have "\<not> gap r (s, e)" "\<not> gap (s, e) r" using r assms(2) by (auto simp: gap_def word_less_nat_alt word_le_nat_alt)
  moreover have "r \<in> set (take j rs) \<or> r \<in> set (drop j rs)" using r(1) by (metis Un_iff append_take_drop_id set_append)
  ultimately have "\<not> ranges_ok rs'" by (auto simp: rs' ranges_ok_append)
  moreover have "rng_set rs' = rng_set rs \<union> {s..e}" using set by (auto simp: rng_set_def)
  ultimately show ?thesis by blast
qed

text \<open>C15. \<open>Intervals.add\<close> of a range that does not end at \<open>MaxUint64\<close> adds exactly the (clipped) new range to the
  covered values, and it keeps the list sorted, gap-separated and above the lower bound if and only if the
  range does not lie strictly inside one stored range.\<close>

theorem iv_add_correct:
  assumes "iv_ok i" and "start \<le> fin" and "iv_start i \<le> fin" and "fin \<noteq> MaxUint64"
  shows "covered (iv_add start fin i) = covered i \<union> {max start (iv_start i)..fin}
    \<and> (iv_ok (iv_add start fin i) \<longleftrightarrow> \<not> strictly_inside (max start (iv_start i)) fin i)"
proof -
  let ?s = "max start (iv_start i)"
  let ?rs = "add_write (iv_ranges i) (add_loop (iv_ranges i) 0 ?s fin (fin + 1) None None)"
  have eq: "iv_add start fin i = i\<lparr>iv_ranges := ?rs\<rparr>"
    using assms by (simp add: iv_add_def max_def Let_def not_less)
  have s: "?s \<le> fin" "ranges_ok (iv_ranges i)" using assms by (simp_all add: iv_ok_def)
  show ?thesis
  proof (cases "strictly_inside ?s fin i")
    case True
    then show ?thesis using add_ranges_nested [OF s(2,1) assms(4)]
      by (simp add: eq iv_ok_def covered_rng_set strictly_inside_def)
  next
    case False
    then have *: "ranges_ok ?rs" "rng_set ?rs = rng_set (iv_ranges i) \<union> {?s..fin}"
      using add_ranges_correct s assms(4) by (auto simp: strictly_inside_def)
    then have "list_all (\<lambda>r. iv_start i \<le> fst r) ?rs"
      using rng_set_lower assms(1) by (auto simp: iv_ok_def)
    with * False show ?thesis by (simp add: eq iv_ok_def covered_rng_set)
  qed
qed

theorem iv_add_correct_witness:
  "iv_ok (iv_add 4 12 \<lparr>iv_start = 1, iv_ranges = [(1, 5), (9, 11), (30, 40)]\<rparr>) \<and>
   \<not> iv_ok (iv_add 32 35 \<lparr>iv_start = 1, iv_ranges = [(1, 5), (9, 11), (30, 40)]\<rparr>)"
proof -
  have "iv_ok \<lparr>iv_start = 1, iv_ranges = [(1, 5), (9, 11), (30, 40)]\<rparr>"
    by (simp add: iv_ok_def gap_def MaxUint64_def)
  moreover have "max (4 :: u64) 1 = 4" "max (32 :: u64) 1 = 32" by (simp_all add: max_def word_le_nat_alt)
  ultimately show ?thesis using iv_add_correct [of _ 4 12] iv_add_correct [of _ 32 35]
    by (simp add: strictly_inside_def MaxUint64_def word_less_nat_alt word_le_nat_alt)
qed

section \<open>The next missing range\<close>

lemma pred_word: "0 < (w :: u64) \<Longrightarrow> unat (w - 1) = unat w - 1"
  by (metis unat_gt_0 unat_minus_one word_gt_0)

text \<open>\<open>Next\<close> (without a ceiling) returns the first gap: everything from the lower bound up to
  the returned start is covered and the start is not; a non-zero end closes the gap (nothing up to it
  is covered, its successor is), and a zero end means that nothing at or after the start is covered.\<close>

theorem iv_Next_first_gap:
  assumes "iv_ok i" and "0 < iv_start i" and "iv_Next 0 i = (s, e, emp)"
  shows "\<not> emp \<and> iv_start i \<le> s \<and> {iv_start i..<s} \<subseteq> covered i \<and> s \<notin> covered i
    \<and> (if e = 0 then {s..} \<inter> covered i = {}
        else s \<le> e \<and> {s..e} \<inter> covered i = {} \<and> e + 1 \<in> covered i)"
proof (cases "iv_ranges i")
  case Nil
  with assms(3) show ?thesis by (simp add: iv_Next_def next_body_def covered_def)
next
  case (Cons r rest)
  obtain a0 a1 where r: "r = (a0, a1)" by (cases r)
  have a: "a0 \<le> a1" "a1 \<noteq> MaxUint64" "iv_start i \<le> a0" and gaps: "\<forall>r' \<in> set rest. gap r r'"
    using assms(1) Cons r by (auto simp: iv_ok_def)
  have above: "unat a1 + 1 < unat x" if "x \<in> rng_set rest" for x
    using that gaps r by (fastforce simp: rng_set_def rng_defs word_le_nat_alt)
  have cov: "covered i = {a0..a1} \<union> rng_set rest" using Cons r by (simp add: covered_rng_set)
  show ?thesis
  proof (cases "a0 = iv_start i")
    case False
    then have "s = iv_start i" "e = a0 - 1" "\<not> emp" and lt: "iv_start i < a0"
      using assms(3) Cons r a by (auto simp: iv_Next_def next_body_def)
    moreover have "unat e = unat a0 - 1" "1 < unat a0"
      using lt assms(2) \<open>e = a0 - 1\<close> by (auto simp: pred_word word_less_nat_alt)
    ultimately show ?thesis using a lt above unfolding cov
      by (auto simp: word_le_nat_alt word_less_nat_alt dest!: above)
  next
    case True
    have s1: "unat (a1 + 1) = unat a1 + 1" using a by (simp add: unat_Suc_word)
    show ?thesis
    proof (cases rest)
      case Nil
      then have "s = a1 + 1" "e = 0" "\<not> emp"
        using assms(3) Cons r True by (auto simp: iv_Next_def next_body_def)
      then show ?thesis using a True Nil s1 unfolding cov
        by (auto simp: word_le_nat_alt word_less_nat_alt)
    next
      case (Cons q rest')
      obtain b0 b1 where q: "q = (b0, b1)" by (cases q)
      have eqs: "s = a1 + 1" "e = b0 - 1" "\<not> emp"
        using assms(3) \<open>iv_ranges i = r # rest\<close> r True Cons q
        by (auto simp: iv_Next_def next_body_def)
      have b: "unat a1 + 1 < unat b0" "b0 \<le> b1" and later: "\<forall>x \<in> rng_set rest'. b1 < x"
        using gaps Cons q assms(1) \<open>iv_ranges i = r # rest\<close> r
        by (auto simp: rng_defs iv_ok_def rng_set_def word_less_nat_alt word_le_nat_alt)
      have "unat e = unat b0 - 1" using b eqs by (simp add: pred_word word_less_nat_alt)
      then show ?thesis using eqs a True s1 b later unfolding cov Cons q
        by (auto simp: word_le_nat_alt word_less_nat_alt)
    qed
  qed
qed

theorem iv_Next_first_gap_witness:
  "{1..<6} \<subseteq> covered \<lparr>iv_start = 1, iv_ranges = [(1, 5), (9, 11)]\<rparr>"
proof -
  let ?i = "\<lparr>iv_start = 1, iv_ranges = [(1, 5), (9, 11)]\<rparr> :: Intervals"
  have "iv_ok ?i" by (simp add: iv_ok_def gap_def MaxUint64_def)
  moreover have "iv_Next 0 ?i = (6, 8, False)" by (simp add: iv_Next_def next_body_def)
  ultimately show ?thesis using iv_Next_first_gap [of ?i 6 8 False] by simp
qed

section \<open>Persistence\<close>

lemma unat_u64_bound: "unat (w :: u64) < 2 ^ 64"
  using unsigned_less [of w, where ?'a = nat] by simp

lemma separators:
  "CHR '';'' \<notin> set (FormatUint 36 n)" "CHR '','' \<notin> set (FormatUint 36 n)"
  using FormatUint_chars [of 36 n] by (auto simp: digits36_def)

text \<open>Adding a range behind all stored ones appends it.\<close>

lemma iv_add_append:
  assumes "ranges_ok (rs @ [r])" and "lo \<le> fst r"
  shows "iv_add (fst r) (snd r) \<lparr>iv_start = lo, iv_ranges = rs\<rparr> =
    \<lparr>iv_start = lo, iv_ranges = rs @ [r]\<rparr>"
proof -
  have "list_all (before_rng (fst r)) rs"
    using assms(1) by (auto simp: ranges_ok_append list_all_iff rng_defs)
  moreover have "fst r \<le> snd r" "snd r \<noteq> MaxUint64" "ranges_ok rs"
    using assms(1) by (simp_all add: ranges_ok_append)
  ultimately show ?thesis
    using add_ranges_insert [of "fst r" "snd r" rs "[]"] assms(2)
    by (simp add: iv_add_def Let_def) (meson leD order.trans)
qed

lemma unmarshal_ranges_correct:
  "ranges_ok (rs @ qs) \<Longrightarrow> list_all (\<lambda>r. lo \<le> fst r) qs \<Longrightarrow>
   unmarshal_ranges j
     (map (\<lambda>r. FormatUint 36 (unat (fst r)) @ CHR '','' # FormatUint 36 (unat (snd r))) qs)
     \<lparr>iv_start = lo, iv_ranges = rs\<rparr> = (None, \<lparr>iv_start = lo, iv_ranges = rs @ qs\<rparr>)"
proof (induction qs arbitrary: rs j)
  case Nil
  then show ?case by simp
next
  case (Cons q qs)
  have "ranges_ok (rs @ [q])" using Cons.prems(1) by (auto simp: ranges_ok_append)
  then have "iv_add (fst q) (snd q) \<lparr>iv_start = lo, iv_ranges = rs\<rparr> =
      \<lparr>iv_start = lo, iv_ranges = rs @ [q]\<rparr>"
    using Cons.prems(2) by (intro iv_add_append) simp_all
  moreover have "unmarshal_ranges (j + 1)
      (map (\<lambda>r. FormatUint 36 (unat (fst r)) @ CHR '','' # FormatUint 36 (unat (snd r))) qs)
      \<lparr>iv_start = lo, iv_ranges = rs @ [q]\<rparr> =
      (None, \<lparr>iv_start = lo, iv_ranges = (rs @ [q]) @ qs\<rparr>)"
    using Cons.prems by (intro Cons.IH) simp_all
  ultimately show ?case
    using unat_u64_bound [of "fst q"] unat_u64_bound [of "snd q"]
    by (simp add: SplitN2_append_sep separators)
qed

text \<open>Persisting intervals and reading them back into a fresh object is the identity on every
  value that satisfies the invariant.\<close>

theorem iv_roundtrip:
  assumes "iv_ok i"
  shows "iv_UnmarshalBinary (iv_MarshalBinary i) (NewIntervals 0) = (None, i)"
proof -
  let ?f = "\<lambda>r. FormatUint 36 (unat (fst r)) @ CHR '','' # FormatUint 36 (unat (snd r))"
  have "Split (CHR '';'') (iv_MarshalBinary i) =
      FormatUint 36 (unat (iv_start i)) # map ?f (iv_ranges i)"
    unfolding iv_MarshalBinary_def
    by (rule Split_Join) (auto simp: separators)
  moreover have "unmarshal_ranges 1 (map ?f (iv_ranges i)) \<lparr>iv_start = iv_start i, iv_ranges = []\<rparr> =
      (None, \<lparr>iv_start = iv_start i, iv_ranges = [] @ iv_ranges i\<rparr>)"
    using assms by (intro unmarshal_ranges_correct) (simp_all add: iv_ok_def)
  ultimately show ?thesis
    using unat_u64_bound [of "iv_start i"]
    by (simp add: iv_UnmarshalBinary_def NewIntervals_def)
qed

theorem iv_roundtrip_witness:
  "iv_UnmarshalBinary (iv_MarshalBinary \<lparr>iv_start = 1, iv_ranges = [(1, 5), (9, 11)]\<rparr>)
     (NewIntervals 0) = (None, \<lparr>iv_start = 1, iv_ranges = [(1, 5), (9, 11)]\<rparr>)"
  by (rule iv_roundtrip) (simp add: iv_ok_def gap_def MaxUint64_def)

section \<open>Where \<open>add\<close> fails\<close>

text \<open>A range strictly inside the only stored range is not recognised as covered: \<open>add\<close> stores
  it a second time behind the range that contains it. The invariant is lost, \<open>Last\<close> then reports an
  end below the true one and \<open>Next\<close> a range whose end lies below its start.\<close>

theorem iv_add_nested_defect:
  assumes "iv_ok i" and "iv_ranges i = [(iv_start i, b)]" and "s \<le> e"
    and "strictly_inside s e i"
  shows "iv_ranges (iv_add s e i) = [(iv_start i, b), (s, e)] \<and> \<not> iv_ok (iv_add s e i)
    \<and> Last (iv_add s e i) = e \<and> e < b \<and> iv_Next 0 (iv_add s e i) = (b + 1, s - 1, False)"
proof -
  have in1: "iv_start i < s" and in2: "unat e + 1 < unat b"
    using assms(2,4) by (simp_all add: strictly_inside_def)
  have e: "e \<noteq> MaxUint64"
    using in2 unat_u64_bound [of b] by (auto simp: unat_MaxUint64)
  have "\<not> b \<le> e + 1" "\<not> s \<le> iv_start i" "\<not> e + 1 \<le> iv_start i"
    using in1 in2 e assms(3) by (auto simp: word_le_nat_alt word_less_nat_alt unat_Suc_word)
  then have rs: "iv_add s e i = i\<lparr>iv_ranges := [(iv_start i, b), (s, e)]\<rparr>"
    using assms(2,3) in1 e by (simp add: iv_add_def add_write_def Let_def)
  have "\<not> gap (iv_start i, b) (s, e)" using in1 in2 assms(3)
    by (simp add: gap_def word_le_nat_alt)
  then show ?thesis using rs in2
    by (simp add: iv_ok_def Last_def iv_Next_def next_body_def word_less_nat_alt)
qed

theorem iv_add_nested_defect_witness:
  "iv_Next 0 (iv_add 10 20 \<lparr>iv_start = 1, iv_ranges = [(1, 100)]\<rparr>) = (101, 9, False)"
proof -
  let ?i = "\<lparr>iv_start = 1, iv_ranges = [(1, 100)]\<rparr> :: Intervals"
  have "iv_ok ?i" by (simp add: iv_ok_def MaxUint64_def)
  moreover have "strictly_inside 10 20 ?i" by (simp add: strictly_inside_def)
  ultimately show ?thesis using iv_add_nested_defect [of ?i 100 10 20] by simp
qed

text \<open>A range that ends at \<open>MaxUint64\<close> and starts behind a stored range is put in front of it,
  because the loop's exit test \<open>end + 1 \<le> r\<close> wraps around to zero.\<close>

theorem iv_add_maxuint_defect:
  assumes "iv_ranges i = [(a, b)]" and "iv_start i \<le> a" and "a \<le> b" and "unat b + 1 < unat s"
  shows "iv_ranges (iv_add s MaxUint64 i) = [(s, MaxUint64), (a, b)]"
proof -
  have b: "b \<noteq> MaxUint64"
    using assms(4) unat_u64_bound [of s] by (auto simp: unat_MaxUint64)
  have "\<not> s \<le> a" "\<not> s \<le> b" "\<not> s \<le> b + 1" "\<not> s < iv_start i"
    using assms b by (auto simp: word_le_nat_alt word_less_nat_alt unat_Suc_word)
  then show ?thesis using assms by (simp add: iv_add_def add_write_def Let_def) (simp add: MaxUint64_def)
qed

theorem iv_add_maxuint_defect_witness:
  "iv_ranges (iv_add 10 MaxUint64 \<lparr>iv_start = 0, iv_ranges = [(0, 5)]\<rparr>) =
     [(10, MaxUint64), (0, 5)]"
  by (rule iv_add_maxuint_defect) simp_all

end
