(* ===== verification/PSlice.thy ===== *)
theory PSlice
  imports Swarm
begin

text \<open>
  \<open>pkg/topology/pslice/pslice.go\<close>: the list of peers ordered by proximity order to the node's
  address, with the index of the first peer of every bin. The invariant \<open>ps_ok\<close> says that the list
  is duplicate-free and sorted by proximity order and that \<open>bins ! i\<close> counts the peers of bins below
  \<open>i\<close>. The interface \<open>peer_set\<close> is what clients of a peer list rely on; it is interpreted here on
  \<open>PSlice\<close>.
\<close>

section \<open>State and operations\<close>

text \<open>The bin indexes are \<open>uint\<close>: increments and decrements wrap around at \<open>2 ^ 64\<close>.\<close>

record PSlice =
  ps_peers :: "Address list"
  ps_bins :: "nat list"
  ps_base :: bytes

definition ps_New :: "nat \<Rightarrow> Address \<Rightarrow> PSlice" where
  "ps_New maxBins base = \<lparr>ps_peers = [], ps_bins = replicate maxBins 0, ps_base = base\<rparr>"

definition uint_inc :: "nat \<Rightarrow> nat" where
  "uint_inc n = (n + 1) mod 2 ^ 64"

definition uint_dec :: "nat \<Rightarrow> nat" where
  "uint_dec n = (if n = 0 then 2 ^ 64 - 1 else n - 1)"

text \<open>Go's \<open>xs[a:b]\<close>; \<open>None\<close> is the panic on bad bounds.\<close>

definition slice :: "'a list \<Rightarrow> nat \<Rightarrow> nat \<Rightarrow> 'a list option" where
  "slice xs a b = (if a \<le> b \<and> b \<le> length xs then Some (take (b - a) (drop a xs)) else None)"

text \<open>The callback gets and returns a caller-defined state; \<open>Some e\<close> is its error.\<close>

type_synonym ('s, 'e) peer_func = "Address \<Rightarrow> u8 \<Rightarrow> 's \<Rightarrow> 's \<times> bool \<times> bool \<times> 'e option"

datatype ('s, 'e) visit = Continue 's | Stop 's | Failed 's 'e

fun visit_bin :: "('s, 'e) peer_func \<Rightarrow> u8 \<Rightarrow> Address list \<Rightarrow> 's \<Rightarrow> ('s, 'e) visit" where
  "visit_bin pf i [] s = Continue s"
| "visit_bin pf i (v # vs) s =
     (case pf v i s of (s', stop, nxt, err) \<Rightarrow>
       (case err of
          Some e \<Rightarrow> Failed s' e
        | None \<Rightarrow> if stop then Stop s' else if nxt then Continue s' else visit_bin pf i vs s'))"

text \<open>The loop of \<open>EachBin\<close>: \<open>n\<close> bins are left, the next is bin \<open>n - 1\<close>.\<close>

fun each_bin_loop ::
  "('s, 'e) peer_func \<Rightarrow> PSlice \<Rightarrow> nat \<Rightarrow> nat \<Rightarrow> 's \<Rightarrow> ('s \<times> 'e option) option" where
  "each_bin_loop pf ps 0 binEnd s = Some (s, None)"
| "each_bin_loop pf ps (Suc i) binEnd s =
     (case slice (ps_peers ps) (ps_bins ps ! i) binEnd of
        None \<Rightarrow> None
      | Some vs \<Rightarrow>
         (case visit_bin pf (word_of_nat i) vs s of
            Failed s' e \<Rightarrow> Some (s', Some e)
          | Stop s' \<Rightarrow> Some (s', None)
          | Continue s' \<Rightarrow> each_bin_loop pf ps i (ps_bins ps ! i) s'))"

definition EachBin :: "('s, 'e) peer_func \<Rightarrow> PSlice \<Rightarrow> 's \<Rightarrow> ('s \<times> 'e option) option" where
  "EachBin pf ps s =
     (if ps_peers ps = [] then Some (s, None)
      else each_bin_loop pf ps (length (ps_bins ps)) (length (ps_peers ps)) s)"

definition bin_end :: "PSlice \<Rightarrow> nat \<Rightarrow> nat" where
  "bin_end ps i =
     (if i = length (ps_bins ps) - 1 then length (ps_peers ps) else ps_bins ps ! (i + 1))"

fun each_bin_rev_loop ::
  "('s, 'e) peer_func \<Rightarrow> PSlice \<Rightarrow> nat list \<Rightarrow> 's \<Rightarrow> ('s \<times> 'e option) option" where
  "each_bin_rev_loop pf ps [] s = Some (s, None)"
| "each_bin_rev_loop pf ps (i # is) s =
     (case slice (ps_peers ps) (ps_bins ps ! i) (bin_end ps i) of
        None \<Rightarrow> None
      | Some vs \<Rightarrow>
         (case visit_bin pf (word_of_nat i) vs s of
            Failed s' e \<Rightarrow> Some (s', Some e)
          | Stop s' \<Rightarrow> Some (s', None)
          | Continue s' \<Rightarrow> each_bin_rev_loop pf ps is s'))"

definition EachBinRev :: "('s, 'e) peer_func \<Rightarrow> PSlice \<Rightarrow> 's \<Rightarrow> ('s \<times> 'e option) option" where
  "EachBinRev pf ps s =
     (if ps_peers ps = [] then Some (s, None)
      else each_bin_rev_loop pf ps [0..<length (ps_bins ps)] s)"

definition BinPeers :: "u8 \<Rightarrow> PSlice \<Rightarrow> Address list option" where
  "BinPeers bin ps =
     (let b = unat bin in
      if length (ps_bins ps) \<le> b then Some []
      else slice (ps_peers ps) (ps_bins ps ! b) (bin_end ps b))"

definition ps_Length :: "PSlice \<Rightarrow> nat" where
  "ps_Length ps = length (ps_peers ps)"

fun shallowest_empty_loop :: "nat list \<Rightarrow> nat list \<Rightarrow> u8 \<times> bool" where
  "shallowest_empty_loop binCp [] = (0, True)"
| "shallowest_empty_loop binCp (i # is) =
     (if binCp ! (i + 1) = binCp ! i then (word_of_nat i, False)
      else shallowest_empty_loop binCp is)"

definition ShallowestEmpty :: "PSlice \<Rightarrow> u8 \<times> bool" where
  "ShallowestEmpty ps =
     (let binCp = ps_bins ps @ [length (ps_peers ps)]
      in shallowest_empty_loop binCp [0..<(length binCp - 1) mod 256])"

fun exists_loop :: "Address \<Rightarrow> nat \<Rightarrow> Address list \<Rightarrow> bool \<times> nat" where
  "exists_loop a i [] = (False, 0)"
| "exists_loop a i (p # ps) = (if addr_Equal p a then (True, i) else exists_loop a (i + 1) ps)"

definition ps_exists :: "Address \<Rightarrow> PSlice \<Rightarrow> bool \<times> nat" where
  "ps_exists a ps = (if ps_peers ps = [] then (False, 0) else exists_loop a 0 (ps_peers ps))"

definition Exists :: "Address \<Rightarrow> PSlice \<Rightarrow> bool" where
  "Exists a ps = fst (ps_exists a ps)"

definition ps_po :: "PSlice \<Rightarrow> bytes \<Rightarrow> u8" where
  "ps_po ps peer =
     (let po = Proximity (ps_base ps) peer in
      if length (ps_bins ps) \<le> unat po then word_of_nat (length (ps_bins ps)) - 1 else po)"

text \<open>\<open>None\<close> is the panic ``po too high''.\<close>

definition incDeeper :: "nat list \<Rightarrow> u8 \<Rightarrow> nat list option" where
  "incDeeper bins po =
     (if length bins mod 256 < unat po then None
      else Some (map (\<lambda>i. if unat (po + 1) \<le> i \<and> i < length bins mod 256
                          then uint_inc (bins ! i) else bins ! i) [0..<length bins]))"

definition decDeeper :: "nat list \<Rightarrow> u8 \<Rightarrow> nat list option" where
  "decDeeper bins po =
     (if length bins mod 256 < unat po then None
      else Some (map (\<lambda>i. if unat (po + 1) \<le> i \<and> i < length bins mod 256
                          then uint_dec (bins ! i) else bins ! i) [0..<length bins]))"

text \<open>Both branches of \<open>insertAddresses\<close> build the same list, in place or in a new array.\<close>

definition insertAddresses :: "Address list \<Rightarrow> nat \<Rightarrow> Address list \<Rightarrow> Address list" where
  "insertAddresses s pos vs = take pos s @ vs @ drop pos s"

text \<open>The loop of \<open>Add\<close>: an address that is already present ends the whole call.\<close>

fun ps_Add :: "Address list \<Rightarrow> PSlice \<Rightarrow> PSlice option" where
  "ps_Add [] ps = Some ps"
| "ps_Add (a # addrs) ps =
     (if fst (ps_exists a ps) then Some ps
      else
        let po = ps_po ps a;
            peers = insertAddresses (ps_peers ps) (ps_bins ps ! unat po) [a]
        in (case incDeeper (ps_bins ps) po of
              None \<Rightarrow> None
            | Some bins \<Rightarrow> ps_Add addrs (ps\<lparr>ps_peers := peers, ps_bins := bins\<rparr>)))"

definition ps_Remove :: "Address \<Rightarrow> PSlice \<Rightarrow> PSlice option" where
  "ps_Remove a ps =
     (case ps_exists a ps of (e, i) \<Rightarrow>
       if \<not> e then Some ps
       else (case decDeeper (ps_bins ps) (ps_po ps a) of
               None \<Rightarrow> None
             | Some bins \<Rightarrow>
                 Some (ps\<lparr>ps_peers := take i (ps_peers ps) @ drop (i + 1) (ps_peers ps),
                          ps_bins := bins\<rparr>)))"

section \<open>Invariant\<close>

definition ps_pon :: "PSlice \<Rightarrow> Address \<Rightarrow> nat" where
  "ps_pon ps a = unat (ps_po ps a)"

definition ps_ok :: "PSlice \<Rightarrow> bool" where
  "ps_ok ps \<longleftrightarrow> 0 < length (ps_bins ps) \<and> length (ps_bins ps) < 256
     \<and> length (ps_peers ps) < 2 ^ 64 \<and> distinct (ps_peers ps)
     \<and> sorted (map (ps_pon ps) (ps_peers ps))
     \<and> list_all (\<lambda>i. ps_bins ps ! i = length (filter (\<lambda>p. ps_pon ps p < i) (ps_peers ps)))
         [0..<length (ps_bins ps)]"

text \<open>A list sorted by a key splits at the number of elements below a bound.\<close>

lemma sorted_take_filter:
  "sorted (map f xs) \<Longrightarrow> take (length (filter (\<lambda>x. f x < (i::nat)) xs)) xs = filter (\<lambda>x. f x < i) xs"
proof (induction xs)
  case Nil
  then show ?case by simp
next
  case (Cons x xs)
  have "filter (\<lambda>x. f x < i) xs = []" if "\<not> f x < i"
    using that Cons.prems by (auto simp: filter_empty_conv)
  then show ?case using Cons by auto
qed

lemma sorted_drop_filter:
  "sorted (map f xs) \<Longrightarrow> drop (length (filter (\<lambda>x. f x < (i::nat)) xs)) xs = filter (\<lambda>x. i \<le> f x) xs"
proof (induction xs)
  case Nil
  then show ?case by simp
next
  case (Cons x xs)
  have "filter (\<lambda>x. f x < i) xs = []" "filter (\<lambda>x. i \<le> f x) xs = xs" if "\<not> f x < i"
    using that Cons.prems by (auto simp: filter_empty_conv filter_id_conv)
  then show ?case using Cons by auto
qed

lemma filter_count_mono: "i \<le> j \<Longrightarrow>
  length (filter (\<lambda>x. f x < (i::nat)) xs) \<le> length (filter (\<lambda>x. f x < j) xs)"
  by (induction xs) auto

text \<open>The slice between the counts for \<open>i\<close> and \<open>j\<close> holds the elements with keys in between.\<close>

lemma sorted_slice:
  assumes "sorted (map f xs)" and "(i::nat) \<le> j"
  shows "slice xs (length (filter (\<lambda>x. f x < i) xs)) (length (filter (\<lambda>x. f x < j) xs)) =
    Some (filter (\<lambda>x. i \<le> f x \<and> f x < j) xs)"
proof -
  let ?ci = "length (filter (\<lambda>x. f x < i) xs)" and ?cj = "length (filter (\<lambda>x. f x < j) xs)"
  have le: "?ci \<le> ?cj" using assms(2) by (rule filter_count_mono)
  have ci: "filter (\<lambda>x. f x < i) (filter (\<lambda>x. f x < j) xs) = filter (\<lambda>x. f x < i) xs"
    using assms(2) by (simp only: filter_filter) (auto intro: filter_cong)
  have "sorted (map f (filter (\<lambda>x. f x < j) xs))" using assms(1) by (rule sorted_filter)
  from sorted_drop_filter [OF this, of i]
  have "drop ?ci (filter (\<lambda>x. f x < j) xs) = filter (\<lambda>x. i \<le> f x) (filter (\<lambda>x. f x < j) xs)"
    by (simp only: ci)
  moreover have "take (?cj - ?ci) (drop ?ci xs) = drop ?ci (filter (\<lambda>x. f x < j) xs)"
    using assms(1) by (simp add: drop_take [symmetric] sorted_take_filter)
  ultimately show ?thesis using le by (simp add: slice_def length_filter_le conj_commute)
qed

lemma exists_loop_iff: "fst (exists_loop a i ps) \<longleftrightarrow> a \<in> set ps"
  by (induction ps arbitrary: i) (auto simp: addr_Equal_def)

lemma exists_loop_index:
  "a \<in> set ps \<Longrightarrow> \<exists>j. exists_loop a i ps = (True, i + j) \<and> j < length ps \<and> ps ! j = a"
proof (induction ps arbitrary: i)
  case Nil
  then show ?case by simp
next
  case (Cons p ps)
  show ?case
  proof (cases "p = a")
    case True
    then show ?thesis by (simp add: addr_Equal_def)
  next
    case False
    with Cons.prems have "a \<in> set ps" by simp
    from Cons.IH [OF this, of "i + 1"] obtain j where
      "exists_loop a (i + 1) ps = (True, i + 1 + j)" "j < length ps" "ps ! j = a" by blast
    with False show ?thesis by (intro exI [of _ "Suc j"]) (simp add: addr_Equal_def)
  qed
qed

lemma Exists_iff: "Exists a ps \<longleftrightarrow> a \<in> set (ps_peers ps)"
  by (simp add: Exists_def ps_exists_def exists_loop_iff)

lemma ps_pon_less: "ps_ok ps \<Longrightarrow> ps_pon ps a < length (ps_bins ps)"
proof -
  assume ok: "ps_ok ps"
  let ?n = "length (ps_bins ps)"
  have "unat (word_of_nat ?n - 1 :: u8) = ?n - 1"
  proof -
    have n: "unat (word_of_nat ?n :: u8) = ?n" using ok by (simp add: ps_ok_def unat_of_nat)
    then have "(word_of_nat ?n :: u8) \<noteq> 0" using ok by (auto simp: ps_ok_def)
    then show ?thesis using n by (simp add: unat_minus_one)
  qed
  then show ?thesis using ok by (auto simp: ps_pon_def ps_po_def Let_def ps_ok_def)
qed

lemma ps_po_cong: "length (ps_bins ps) = length (ps_bins ps') \<Longrightarrow> ps_base ps = ps_base ps' \<Longrightarrow>
  ps_po ps = ps_po ps'"
  by (rule ext) (simp add: ps_po_def Let_def)

lemma ps_ok_bins:
  "ps_ok ps \<Longrightarrow> i < length (ps_bins ps) \<Longrightarrow>
   ps_bins ps ! i = length (filter (\<lambda>p. ps_pon ps p < i) (ps_peers ps))"
  by (simp add: ps_ok_def list_all_iff)

text \<open>Both bin updates on a well-formed slice, without the bounds of the byte-sized loop.\<close>

lemma po_Suc: "po < 255 \<Longrightarrow> unat (word_of_nat po + 1 :: u8) = po + 1"
proof -
  assume "po < 255"
  moreover have "(word_of_nat po + 1 :: u8) = word_of_nat (po + 1)" by simp
  ultimately show ?thesis by (simp only: unat_of_nat) simp
qed

lemma deeper_bounds:
  assumes "ps_ok ps"
  shows "\<not> length (ps_bins ps) mod 256 < unat (ps_po ps a)"
    "unat (ps_po ps a + 1) = ps_pon ps a + 1" "length (ps_bins ps) mod 256 = length (ps_bins ps)"
proof -
  have lt: "ps_pon ps a < length (ps_bins ps)" and n: "length (ps_bins ps) < 256"
    using assms ps_pon_less by (auto simp: ps_ok_def)
  then show "length (ps_bins ps) mod 256 = length (ps_bins ps)"
    and "\<not> length (ps_bins ps) mod 256 < unat (ps_po ps a)"
    by (simp_all add: ps_pon_def)
  have "word_of_nat (ps_pon ps a) = ps_po ps a" by (simp add: ps_pon_def)
  then show "unat (ps_po ps a + 1) = ps_pon ps a + 1"
    using po_Suc [of "ps_pon ps a"] lt n by simp
qed

section \<open>Adding and removing one peer\<close>

lemma ps_Add_new:
  assumes "ps_ok ps" and "a \<notin> set (ps_peers ps)" and "length (ps_peers ps) + 1 < 2 ^ 64"
  shows "\<exists>ps'. ps_Add (a # addrs) ps = ps_Add addrs ps' \<and> ps_ok ps'
    \<and> set (ps_peers ps') = insert a (set (ps_peers ps)) \<and> ps_base ps' = ps_base ps
    \<and> length (ps_bins ps') = length (ps_bins ps) \<and> length (ps_peers ps') = length (ps_peers ps) + 1"
proof -
  let ?n = "length (ps_bins ps)" and ?po = "ps_pon ps a" and ?f = "ps_pon ps"
  let ?lo = "filter (\<lambda>p. ?f p < ?po) (ps_peers ps)" and ?hi = "filter (\<lambda>p. ?po \<le> ?f p) (ps_peers ps)"
  let ?bins = "map (\<lambda>i. if ?po + 1 \<le> i then uint_inc (ps_bins ps ! i) else ps_bins ps ! i) [0..<?n]"
  let ?ps = "ps\<lparr>ps_peers := ?lo @ a # ?hi, ps_bins := ?bins\<rparr>"
  have srt: "sorted (map ?f (ps_peers ps))" using assms(1) by (simp add: ps_ok_def)
  have po: "?po < ?n" using assms(1) by (rule ps_pon_less)
  have split: "ps_peers ps = ?lo @ ?hi"
    using srt sorted_take_filter [of ?f] sorted_drop_filter [of ?f] append_take_drop_id by metis
  have "ps_bins ps ! unat (ps_po ps a) = length ?lo"
    using ps_ok_bins [OF assms(1) po] by (simp add: ps_pon_def)
  then have ins: "insertAddresses (ps_peers ps) (ps_bins ps ! unat (ps_po ps a)) [a] = ?lo @ a # ?hi"
    using srt by (simp add: insertAddresses_def sorted_take_filter sorted_drop_filter)
  have inc: "incDeeper (ps_bins ps) (ps_po ps a) = Some ?bins"
    using deeper_bounds(1,2) [OF assms(1), of a] deeper_bounds(3) [OF assms(1)] by (simp add: incDeeper_def)
  have fun_eq: "ps_pon ?ps = ?f" 
    using ps_po_cong [of ?ps ps] by (simp add: ps_pon_def fun_eq_iff)
  have bins: "?bins ! i = length (filter (\<lambda>p. ?f p < i) (?lo @ a # ?hi))" if "i < ?n" for i
  proof -
    have "length (filter (\<lambda>p. ?f p < i) (ps_peers ps)) =
        length (filter (\<lambda>p. ?f p < i) (?lo @ ?hi))" using split by (rule arg_cong)
    moreover have "length (filter (\<lambda>p. ?f p < i) (ps_peers ps)) \<le> length (ps_peers ps)"
      by (rule length_filter_le)
    ultimately show ?thesis
      using that ps_ok_bins [OF assms(1) that] assms(3) by (auto simp: uint_inc_def)
  qed
  have "ps_ok ?ps"
  proof -
    have "length (?lo @ a # ?hi) = length (ps_peers ps) + 1"
      using arg_cong [OF split, of length] by simp
    moreover have "distinct (?lo @ a # ?hi)"
      using assms(1,2) by (auto simp: ps_ok_def)
    moreover have "sorted (map ?f (?lo @ a # ?hi))"
      using srt by (auto simp: sorted_append intro: sorted_filter)
    ultimately show ?thesis
      using assms bins unfolding ps_ok_def fun_eq by (simp add: list_all_iff)
  qed
  moreover have "ps_Add (a # addrs) ps = ps_Add addrs ?ps"
    using assms(2) ins inc by (simp add: ps_exists_def exists_loop_iff Let_def)
  moreover have "set (ps_peers ?ps) = insert a (set (ps_peers ps))" by auto
  moreover have "length (ps_peers ?ps) = length (ps_peers ps) + 1"
    using arg_cong [OF split, of length] by simp
  ultimately show ?thesis by (intro exI [of _ ?ps]) simp
qed

lemma ps_Remove_present:
  assumes "ps_ok ps" and "a \<in> set (ps_peers ps)"
  shows "\<exists>ps'. ps_Remove a ps = Some ps' \<and> ps_ok ps' \<and> set (ps_peers ps') = set (ps_peers ps) - {a}
    \<and> ps_base ps' = ps_base ps \<and> length (ps_bins ps') = length (ps_bins ps)"
proof -
  let ?n = "length (ps_bins ps)" and ?po = "ps_pon ps a" and ?f = "ps_pon ps"
  obtain i where ex: "ps_exists a ps = (True, i)" and i: "i < length (ps_peers ps)" "ps_peers ps ! i = a"
  proof -
    obtain j where "exists_loop a 0 (ps_peers ps) = (True, 0 + j)" "j < length (ps_peers ps)"
      "ps_peers ps ! j = a" using exists_loop_index [OF assms(2), of 0] by blast
    moreover have "ps_peers ps \<noteq> []" using assms(2) by auto
    ultimately show thesis using that [of j] by (simp add: ps_exists_def)
  qed
  let ?xs = "take i (ps_peers ps)" and ?ys = "drop (i + 1) (ps_peers ps)"
  let ?bins = "map (\<lambda>i. if ?po + 1 \<le> i then uint_dec (ps_bins ps ! i) else ps_bins ps ! i) [0..<?n]"
  let ?ps = "ps\<lparr>ps_peers := ?xs @ ?ys, ps_bins := ?bins\<rparr>"
  have split: "ps_peers ps = ?xs @ a # ?ys" using i id_take_nth_drop [of i "ps_peers ps"] by simp
  have dec: "decDeeper (ps_bins ps) (ps_po ps a) = Some ?bins"
    using deeper_bounds(1,2) [OF assms(1), of a] deeper_bounds(3) [OF assms(1)]
    by (simp add: decDeeper_def)
  have fun_eq: "ps_pon ?ps = ?f"
    using ps_po_cong [of ?ps ps] by (simp add: ps_pon_def fun_eq_iff)
  have bins: "?bins ! j = length (filter (\<lambda>p. ?f p < j) (?xs @ ?ys))" if "j < ?n" for j
  proof -
    have "ps_bins ps ! j = length (filter (\<lambda>p. ?f p < j) (?xs @ a # ?ys))"
      using ps_ok_bins [OF assms(1) that] arg_cong [OF split] by metis
    then show ?thesis using that by (auto simp: uint_dec_def)
  qed
  have dst: "distinct (?xs @ a # ?ys)" and srt: "sorted (map ?f (?xs @ a # ?ys))"
    using assms(1) split by (simp_all add: ps_ok_def)
  have "ps_ok ?ps"
  proof -
    have "length (?xs @ ?ys) \<le> length (ps_peers ps)" using i by simp
    moreover have "distinct (?xs @ ?ys)" using dst by auto
    moreover have "sorted (map ?f (?xs @ ?ys))" using srt by (auto simp: sorted_append)
    ultimately show ?thesis
      using assms(1) bins unfolding ps_ok_def fun_eq by (simp add: list_all_iff)
  qed
  moreover have "set (ps_peers ?ps) = set (ps_peers ps) - {a}"
  proof -
    have "set (ps_peers ps) = insert a (set (?xs @ ?ys))" using arg_cong [OF split, of set] by simp
    then show ?thesis using dst by auto
  qed
  moreover have "ps_Remove a ps = Some ?ps" using ex dec by (simp add: ps_Remove_def)
  ultimately show ?thesis by (intro exI [of _ ?ps]) simp
qed

section \<open>The interface of a peer list\<close>

text \<open>What a client relies on: adding and removing never panic, change exactly one member and keep
  the representation valid; membership is decided. \<open>room\<close> says that one more peer fits.\<close>

locale peer_set =
  fixes add :: "Address \<Rightarrow> 's \<Rightarrow> 's option"
    and remove :: "Address \<Rightarrow> 's \<Rightarrow> 's option"
    and member :: "Address \<Rightarrow> 's \<Rightarrow> bool"
    and peers :: "'s \<Rightarrow> Address set"
    and valid :: "'s \<Rightarrow> bool"
    and room :: "'s \<Rightarrow> bool"
  assumes add_law: "valid s \<Longrightarrow> room s \<Longrightarrow>
      \<exists>s'. add a s = Some s' \<and> valid s' \<and> peers s' = insert a (peers s)"
    and remove_law: "valid s \<Longrightarrow>
      \<exists>s'. remove a s = Some s' \<and> valid s' \<and> peers s' = peers s - {a}"
    and member_law: "valid s \<Longrightarrow> member a s \<longleftrightarrow> a \<in> peers s"
begin

text \<open>Moving a peer from one list to another keeps the two lists disjoint.\<close>

lemma move_in:
  assumes "valid c" "valid d" "room c" "peers c \<inter> peers d = {}"
  shows "\<exists>c' d'. add a c = Some c' \<and> remove a d = Some d' \<and> valid c' \<and> valid d'
    \<and> peers c' = insert a (peers c) \<and> peers d' = peers d - {a} \<and> peers c' \<inter> peers d' = {}"
proof -
  obtain c' where "add a c = Some c'" "valid c'" "peers c' = insert a (peers c)"
    using add_law assms by blast
  moreover obtain d' where "remove a d = Some d'" "valid d'" "peers d' = peers d - {a}"
    using remove_law assms by blast
  ultimately show ?thesis using assms(4) by auto
qed

lemma move_out:
  assumes "valid c" "valid d" "room d" "peers c \<inter> peers d = {}" "member a c"
  shows "\<exists>c' d'. remove a c = Some c' \<and> add a d = Some d' \<and> valid c' \<and> valid d'
    \<and> peers c' = peers c - {a} \<and> peers d' = insert a (peers d) \<and> peers c' \<inter> peers d' = {}
    \<and> peers c' \<union> peers d' = peers c \<union> peers d"
proof -
  have "a \<in> peers c" using member_law assms by blast
  moreover obtain c' where "remove a c = Some c'" "valid c'" "peers c' = peers c - {a}"
    using remove_law assms by blast
  moreover obtain d' where "add a d = Some d'" "valid d'" "peers d' = insert a (peers d)"
    using add_law assms by blast
  ultimately show ?thesis using assms(4) by auto
qed

end

definition ps_room :: "PSlice \<Rightarrow> bool" where
  "ps_room ps \<longleftrightarrow> length (ps_peers ps) + 1 < 2 ^ 64"

definition ps_add1 :: "Address \<Rightarrow> PSlice \<Rightarrow> PSlice option" where
  "ps_add1 a ps = ps_Add [a] ps"

definition ps_set :: "PSlice \<Rightarrow> Address set" where
  "ps_set ps = set (ps_peers ps)"

interpretation pslice: peer_set ps_add1 ps_Remove Exists ps_set ps_ok ps_room
proof (unfold_locales, goal_cases)
  case (1 s a)
  show ?case
  proof (cases "a \<in> set (ps_peers s)")
    case True
    then show ?thesis using 1
      by (auto simp: ps_add1_def ps_exists_def exists_loop_iff ps_set_def)
  next
    case False
    with 1 ps_Add_new [of s a "[]"] show ?thesis
      by (auto simp: ps_add1_def ps_room_def ps_set_def)
  qed
next
  case (2 s a)
  show ?case
  proof (cases "a \<in> set (ps_peers s)")
    case True
    with 2 ps_Remove_present [of s a] show ?thesis by (auto simp: ps_set_def)
  next
    case False
    then have "fst (ps_exists a s) = False" by (simp add: ps_exists_def exists_loop_iff)
    then show ?thesis using 2 False
      by (auto simp: ps_Remove_def ps_set_def split: prod.splits)
  qed
next
  case (3 s a)
  then show ?case by (simp add: Exists_iff ps_set_def)
qed

lemma ps_New_ok: "0 < n \<Longrightarrow> n < 256 \<Longrightarrow> ps_ok (ps_New n base)"
  by (simp add: ps_ok_def ps_New_def list_all_iff)

text \<open>C16. Adding and removing a peer keep the slice well formed (duplicate-free, sorted by
  proximity order, bin indexes exact), never panic, and change the set of peers by exactly that
  peer.\<close>

theorem pslice_add_remove:
  assumes "ps_ok ps" and "length (ps_peers ps) + 1 < 2 ^ 64"
  shows "(\<exists>ps'. ps_Add [a] ps = Some ps' \<and> ps_ok ps' \<and> set (ps_peers ps') = insert a (set (ps_peers ps)))
    \<and> (\<exists>ps'. ps_Remove a ps = Some ps' \<and> ps_ok ps' \<and> set (ps_peers ps') = set (ps_peers ps) - {a})"
  using pslice.add_law [of ps a] pslice.remove_law [of ps a] assms
  by (simp add: ps_room_def ps_add1_def ps_set_def)

theorem pslice_add_remove_witness:
  "\<exists>ps'. ps_Add [[128, 0, 0, 0]] (ps_New 4 [0, 0, 0, 0]) = Some ps' \<and> ps_ok ps'"
proof -
  have "ps_ok (ps_New 4 [0, 0, 0, 0])" by (rule ps_New_ok) simp_all
  moreover have "length (ps_peers (ps_New 4 [0, 0, 0, 0])) + 1 < 2 ^ 64" by (simp add: ps_New_def)
  ultimately show ?thesis using pslice_add_remove by blast
qed

section \<open>Reading by bins\<close>

lemma bin_end_count:
  assumes "ps_ok ps" and "i < length (ps_bins ps)"
  shows "bin_end ps i = length (filter (\<lambda>p. ps_pon ps p < i + 1) (ps_peers ps))"
proof (cases "i = length (ps_bins ps) - 1")
  case True
  have "filter (\<lambda>p. ps_pon ps p < i + 1) (ps_peers ps) = ps_peers ps"
    using True ps_pon_less [OF assms(1)] by (auto simp: filter_id_conv less_Suc_eq_le Suc_le_eq)
      (metis Suc_pred assms(1) less_Suc_eq_le ps_ok_def)
  with True show ?thesis by (simp add: bin_end_def)
next
  case False
  with assms show ?thesis by (simp add: bin_end_def ps_ok_bins)
qed

lemma bin_slice:
  assumes "ps_ok ps" and "i < length (ps_bins ps)"
  shows "slice (ps_peers ps) (ps_bins ps ! i) (bin_end ps i) =
    Some (filter (\<lambda>p. ps_pon ps p = i) (ps_peers ps))"
proof -
  have "sorted (map (ps_pon ps) (ps_peers ps))" using assms(1) by (simp add: ps_ok_def)
  note sorted_slice [OF this, of i "i + 1"]
  moreover have "(\<lambda>p. i \<le> ps_pon ps p \<and> ps_pon ps p < i + 1) = (\<lambda>p. ps_pon ps p = i)" by auto
  ultimately show ?thesis using assms by (simp add: ps_ok_bins bin_end_count)
qed

text \<open>\<open>BinPeers\<close> returns exactly the peers whose proximity order falls in the bin (and nothing
  for a bin that does not exist), without panicking.\<close>

theorem BinPeers_exact:
  assumes "ps_ok ps"
  shows "BinPeers bin ps = Some (filter (\<lambda>p. ps_po ps p = bin) (ps_peers ps))"
proof (cases "length (ps_bins ps) \<le> unat bin")
  case True
  then have "ps_po ps p \<noteq> bin" for p using ps_pon_less [OF assms, of p] by (auto simp: ps_pon_def)
  with True show ?thesis by (simp add: BinPeers_def)
next
  case False
  then show ?thesis using bin_slice [OF assms, of "unat bin"]
    by (simp add: BinPeers_def ps_pon_def Let_def word_unat_eq_iff)
qed

theorem BinPeers_exact_witness:
  "BinPeers 2 (ps_New 4 [0, 0, 0, 0]) = Some []"
  using BinPeers_exact [OF ps_New_ok [of 4 "[0, 0, 0, 0]"], of 2] by (simp add: ps_New_def)

text \<open>A visitor that records every call and never stops.\<close>

definition collect :: "((Address \<times> u8) list, unit) peer_func" where
  "collect a po s = (s @ [(a, po)], False, False, None)"

lemma visit_bin_collect: "visit_bin collect i vs s = Continue (s @ map (\<lambda>v. (v, i)) vs)"
  by (induction vs arbitrary: s) (simp_all add: collect_def)

definition bin_visits :: "PSlice \<Rightarrow> nat \<Rightarrow> (Address \<times> u8) list" where
  "bin_visits ps i = map (\<lambda>p. (p, word_of_nat i)) (filter (\<lambda>p. ps_pon ps p = i) (ps_peers ps))"

lemma each_bin_loop_collect:
  assumes "ps_ok ps"
  shows "n \<le> length (ps_bins ps) \<Longrightarrow> 0 < n \<Longrightarrow> e = bin_end ps (n - 1) \<Longrightarrow>
    each_bin_loop collect ps n e s = Some (s @ concat (map (bin_visits ps) (rev [0..<n])), None)"
proof (induction n arbitrary: e s)
  case 0
  then show ?case by simp
next
  case (Suc i)
  have vis: "slice (ps_peers ps) (ps_bins ps ! i) e =
      Some (filter (\<lambda>p. ps_pon ps p = i) (ps_peers ps))"
    using bin_slice [OF assms, of i] Suc.prems by simp
  show ?case
  proof (cases i)
    case 0
    with vis show ?thesis by (simp add: visit_bin_collect bin_visits_def)
  next
    case (Suc k)
    have "ps_bins ps ! i = bin_end ps (i - 1)"
      using Suc \<open>Suc i \<le> length (ps_bins ps)\<close> unfolding bin_end_def by (subst if_not_P) auto
    then have "each_bin_loop collect ps i (ps_bins ps ! i) s' =
        Some (s' @ concat (map (bin_visits ps) (rev [0..<i])), None)" for s'
      using Suc.IH [of "ps_bins ps ! i" s'] Suc Suc.prems by simp
    with vis show ?thesis by (simp add: visit_bin_collect bin_visits_def [of ps i])
  qed
qed

lemma each_bin_rev_loop_collect:
  assumes "ps_ok ps"
  shows "\<forall>i \<in> set is. i < length (ps_bins ps) \<Longrightarrow>
    each_bin_rev_loop collect ps is s = Some (s @ concat (map (bin_visits ps) is), None)"
proof (induction "is" arbitrary: s)
  case Nil
  then show ?case by simp
next
  case (Cons i "is")
  then show ?case using bin_slice [OF assms, of i]
    by (simp add: visit_bin_collect bin_visits_def)
qed

text \<open>A full iteration visits the bins in order, \<open>EachBin\<close> from the deepest to the
  shallowest and \<open>EachBinRev\<close> the other way round, and in each bin exactly its peers, with the bin
  number as proximity order; neither panics.\<close>

theorem each_bin_visits:
  assumes "ps_ok ps"
  shows "EachBin collect ps [] =
      Some (concat (map (bin_visits ps) (rev [0..<length (ps_bins ps)])), None)
    \<and> EachBinRev collect ps [] =
      Some (concat (map (bin_visits ps) [0..<length (ps_bins ps)]), None)"
proof (cases "ps_peers ps = []")
  case True
  then have "bin_visits ps i = []" for i by (simp add: bin_visits_def)
  with True show ?thesis by (simp add: EachBin_def EachBinRev_def)
next
  case False
  have n: "0 < length (ps_bins ps)" using assms by (simp add: ps_ok_def)
  then have "bin_end ps (length (ps_bins ps) - 1) = length (ps_peers ps)" by (simp add: bin_end_def)
  with False n show ?thesis
    using each_bin_loop_collect [OF assms, of "length (ps_bins ps)" "length (ps_peers ps)" "[]"]
      each_bin_rev_loop_collect [OF assms, of "[0..<length (ps_bins ps)]" "[]"]
    by (simp add: EachBin_def EachBinRev_def)
qed

theorem each_bin_visits_witness:
  "EachBin collect (ps_New 2 [0]) [] = Some ([], None)"
  using each_bin_visits [OF ps_New_ok [of 2 "[0]"]] by (simp add: ps_New_def EachBin_def)

lemma shallowest_empty_loop_spec:
  "shallowest_empty_loop cp is = (b, none) \<Longrightarrow> \<forall>i \<in> set is. i < 256 \<Longrightarrow> sorted is \<Longrightarrow>
   (if none then \<forall>i \<in> set is. cp ! (i + 1) \<noteq> cp ! i
    else unat b \<in> set is \<and> cp ! (unat b + 1) = cp ! unat b
      \<and> (\<forall>i \<in> set is. i < unat b \<longrightarrow> cp ! (i + 1) \<noteq> cp ! i))"
  by (induction "is") (auto simp: unat_of_nat split: if_splits)

lemma count_Suc_eq:
  "length (filter (\<lambda>p. f p < i + 1) xs) = length (filter (\<lambda>p. f p < (i::nat)) xs) \<longleftrightarrow>
   (\<forall>p \<in> set xs. f p \<noteq> i)"
proof -
  have "length (filter (\<lambda>p. f p < i + 1) xs) =
      length (filter (\<lambda>p. f p < i) xs) + length (filter (\<lambda>p. f p = i) xs)"
    by (induction xs) auto
  then show ?thesis by (auto simp: filter_empty_conv)
qed

text \<open>\<open>ShallowestEmpty\<close> reports the least bin that holds no peer, and reports \<open>none\<close> only if
  every bin holds one.\<close>

theorem ShallowestEmpty_least:
  assumes "ps_ok ps" and "ShallowestEmpty ps = (b, none)"
  shows "if none then \<forall>i < length (ps_bins ps). \<exists>p \<in> set (ps_peers ps). ps_pon ps p = i
    else unat b < length (ps_bins ps) \<and> (\<forall>p \<in> set (ps_peers ps). ps_pon ps p \<noteq> unat b)
      \<and> (\<forall>i < unat b. \<exists>p \<in> set (ps_peers ps). ps_pon ps p = i)"
proof -
  let ?n = "length (ps_bins ps)" and ?cp = "ps_bins ps @ [length (ps_peers ps)]"
  have n: "?n < 256" using assms(1) by (simp add: ps_ok_def)
  have eq: "?cp ! (i + 1) = ?cp ! i \<longleftrightarrow> (\<forall>p \<in> set (ps_peers ps). ps_pon ps p \<noteq> i)" if "i < ?n" for i
  proof -
    have "?cp ! (i + 1) = bin_end ps i" using that by (auto simp: nth_append bin_end_def)
    then show ?thesis
      using that assms(1) count_Suc_eq [of "ps_pon ps" i "ps_peers ps"]
      by (simp add: bin_end_count ps_ok_bins nth_append)
  qed
  have "shallowest_empty_loop ?cp [0..<?n] = (b, none)"
    using assms(2) n by (simp add: ShallowestEmpty_def)
  from shallowest_empty_loop_spec [OF this] n eq show ?thesis
    by (auto split: if_splits)
qed

theorem ShallowestEmpty_least_witness:
  "unat (0 :: u8) < length (ps_bins (ps_New 4 [0, 0, 0, 0]))"
proof -
  have "ps_ok (ps_New 4 [0, 0, 0, 0])" by (rule ps_New_ok) simp_all
  moreover have "ShallowestEmpty (ps_New 4 [0, 0, 0, 0]) = (0, False)"
    by (simp add: ShallowestEmpty_def ps_New_def upt_rec Let_def nth_append)
  ultimately show ?thesis using ShallowestEmpty_least by fastforce
qed

end
