(* ===== verification/LightNode.thy ===== *)
theory LightNode
  imports PSlice
begin

text \<open>
  \<open>pkg/topology/lightnode/container.go\<close>: the light nodes a full node serves, in two peer lists with
  a single bin each. Built on the interface \<open>peer_set\<close>: the two lists stay disjoint and valid.
\<close>

record Container =
  lc_base :: Address
  connectedPeers :: PSlice
  disconnectedPeers :: PSlice

definition NewContainer :: "Address \<Rightarrow> Container" where
  "NewContainer base =
     \<lparr>lc_base = base, connectedPeers = ps_New 1 base, disconnectedPeers = ps_New 1 base\<rparr>"

text \<open>\<open>None\<close> is a panic of the peer list.\<close>

definition lc_Connected :: "Address \<Rightarrow> Container \<Rightarrow> Container option" where
  "lc_Connected a c =
     (case ps_Add [a] (connectedPeers c) of
        None \<Rightarrow> None
      | Some conn \<Rightarrow>
         (case ps_Remove a (disconnectedPeers c) of
            None \<Rightarrow> None
          | Some disc \<Rightarrow> Some (c\<lparr>connectedPeers := conn, disconnectedPeers := disc\<rparr>)))"

definition lc_Disconnected :: "Address \<Rightarrow> Container \<Rightarrow> Container option" where
  "lc_Disconnected a c =
     (if Exists a (connectedPeers c) then
        (case ps_Remove a (connectedPeers c) of
           None \<Rightarrow> None
         | Some conn \<Rightarrow>
            (case ps_Add [a] (disconnectedPeers c) of
               None \<Rightarrow> None
             | Some disc \<Rightarrow> Some (c\<lparr>connectedPeers := conn, disconnectedPeers := disc\<rparr>)))
      else Some c)"

definition lc_Count :: "Container \<Rightarrow> nat" where
  "lc_Count c = ps_Length (connectedPeers c)"

text \<open>The callback of \<open>RandomPeer\<close>: it takes the address at position \<open>ix\<close>.\<close>

definition pick_func :: "nat \<Rightarrow> (Address \<times> nat, unit) peer_func" where
  "pick_func ix peer po st =
     (case st of (a, count) \<Rightarrow>
       if count = ix then ((peer, count), True, False, None)
       else ((a, count + 1), False, False, None))"

text \<open>The loop of \<open>RandomPeer\<close> over the draws of the random source (an error of the source is
  \<open>Inl\<close>); the last \<open>None\<close> is a loop that has not ended within the given draws. A draw from an
  empty range panics in \<open>rand.Int\<close>; that panic is the first \<open>None\<close>. The address found in one round
  is kept for the next, as the variable \<open>addr\<close> of the source is.\<close>

fun RandomPeer_loop ::
  "Address \<Rightarrow> Container \<Rightarrow> ('e + nat) list \<Rightarrow> Address \<Rightarrow> ('e + Address) option" where
  "RandomPeer_loop n c [] a = None"
| "RandomPeer_loop n c (Inl e # ds) a = Some (Inl e)"
| "RandomPeer_loop n c (Inr i # ds) a =
     (case EachBinRev (pick_func i) (connectedPeers c) (a, 0) of
        None \<Rightarrow> None
      | Some ((a', _), _) \<Rightarrow>
          if addr_Equal a' n then RandomPeer_loop n c ds a' else Some (Inr a'))"

definition RandomPeer ::
  "Address \<Rightarrow> Container \<Rightarrow> ('e + nat) list \<Rightarrow> ('e + Address) option" where
  "RandomPeer n c ds = (if lc_Count c = 0 then None else RandomPeer_loop n c ds ZeroAddress)"

definition peersInfo_func :: "(Address list, unit) peer_func" where
  "peersInfo_func a po s = (s @ [a], False, False, None)"

definition peersInfo :: "PSlice \<Rightarrow> Address list option" where
  "peersInfo s =
     (if ps_Length s = 0 then Some []
      else map_option fst (EachBin peersInfo_func s []))"

record BinInfo =
  BinPopulation :: nat
  BinConnected :: nat
  bi_DisconnectedPeers :: "Address list"
  bi_ConnectedPeers :: "Address list"

definition PeerInfo :: "Container \<Rightarrow> BinInfo option" where
  "PeerInfo c =
     (case peersInfo (disconnectedPeers c) of
        None \<Rightarrow> None
      | Some d \<Rightarrow>
         (case peersInfo (connectedPeers c) of
            None \<Rightarrow> None
          | Some p \<Rightarrow>
              Some \<lparr>BinPopulation = ps_Length (connectedPeers c),
                    BinConnected = ps_Length (connectedPeers c),
                    bi_DisconnectedPeers = d, bi_ConnectedPeers = p\<rparr>))"

section \<open>The two lists stay disjoint\<close>

definition lc_ok :: "Container \<Rightarrow> bool" where
  "lc_ok c \<longleftrightarrow> ps_ok (connectedPeers c) \<and> ps_ok (disconnectedPeers c)
     \<and> ps_set (connectedPeers c) \<inter> ps_set (disconnectedPeers c) = {}"

definition lc_room :: "Container \<Rightarrow> bool" where
  "lc_room c \<longleftrightarrow> ps_room (connectedPeers c) \<and> ps_room (disconnectedPeers c)"

lemma lc_Connected_ok:
  assumes "lc_ok c" and "lc_room c"
  shows "\<exists>c'. lc_Connected a c = Some c' \<and> lc_ok c'
    \<and> ps_set (connectedPeers c') = insert a (ps_set (connectedPeers c))
    \<and> ps_set (disconnectedPeers c') = ps_set (disconnectedPeers c) - {a}"
proof -
  have "ps_ok (connectedPeers c)" "ps_ok (disconnectedPeers c)" "ps_room (connectedPeers c)"
    "ps_set (connectedPeers c) \<inter> ps_set (disconnectedPeers c) = {}"
    using assms by (simp_all add: lc_ok_def lc_room_def)
  from pslice.move_in [OF this, of a] obtain p d where
    "ps_add1 a (connectedPeers c) = Some p" "ps_Remove a (disconnectedPeers c) = Some d"
    "ps_ok p" "ps_ok d" "ps_set p = insert a (ps_set (connectedPeers c))"
    "ps_set d = ps_set (disconnectedPeers c) - {a}" "ps_set p \<inter> ps_set d = {}" by blast
  then show ?thesis by (simp add: lc_Connected_def ps_add1_def lc_ok_def)
qed

lemma lc_Disconnected_ok:
  assumes "lc_ok c" and "lc_room c"
  shows "\<exists>c'. lc_Disconnected a c = Some c' \<and> lc_ok c'
    \<and> ps_set (connectedPeers c') = ps_set (connectedPeers c) - {a}
    \<and> ps_set (connectedPeers c') \<union> ps_set (disconnectedPeers c') =
      ps_set (connectedPeers c) \<union> ps_set (disconnectedPeers c)"
proof (cases "Exists a (connectedPeers c)")
  case True
  have "ps_ok (connectedPeers c)" "ps_ok (disconnectedPeers c)" "ps_room (disconnectedPeers c)"
    "ps_set (connectedPeers c) \<inter> ps_set (disconnectedPeers c) = {}"
    using assms by (simp_all add: lc_ok_def lc_room_def)
  from pslice.move_out [OF this True] obtain p d where
    "ps_Remove a (connectedPeers c) = Some p" "ps_add1 a (disconnectedPeers c) = Some d"
    "ps_ok p" "ps_ok d" "ps_set p = ps_set (connectedPeers c) - {a}"
    "ps_set p \<inter> ps_set d = {}"
    "ps_set p \<union> ps_set d = ps_set (connectedPeers c) \<union> ps_set (disconnectedPeers c)" by blast
  with True show ?thesis by (simp add: lc_Disconnected_def ps_add1_def lc_ok_def)
next
  case False
  then have "a \<notin> ps_set (connectedPeers c)"
    using assms by (simp add: Exists_iff ps_set_def)
  with False show ?thesis using assms by (simp add: lc_Disconnected_def)
qed

text \<open>The container of light nodes: connecting and disconnecting never panic, keep the lists
  of connected and disconnected peers disjoint and well formed, and a known peer is never lost (a
  disconnect moves it, it does not drop it).\<close>

theorem container_disjoint:
  assumes "lc_ok c" and "lc_room c"
  shows "(\<exists>c'. lc_Connected a c = Some c' \<and> lc_ok c' \<and> a \<in> ps_set (connectedPeers c')
      \<and> a \<notin> ps_set (disconnectedPeers c'))
    \<and> (\<exists>c'. lc_Disconnected a c = Some c' \<and> lc_ok c' \<and> a \<notin> ps_set (connectedPeers c')
      \<and> ps_set (connectedPeers c') \<union> ps_set (disconnectedPeers c') =
        ps_set (connectedPeers c) \<union> ps_set (disconnectedPeers c))"
  using lc_Connected_ok [OF assms, of a] lc_Disconnected_ok [OF assms, of a] by auto

theorem container_disjoint_witness:
  "\<exists>c'. lc_Connected [1] (NewContainer [0]) = Some c' \<and> lc_ok c'"
proof -
  have "lc_ok (NewContainer [0])"
    by (simp add: lc_ok_def NewContainer_def ps_New_ok) (simp add: ps_set_def ps_New_def)
  moreover have "lc_room (NewContainer [0])"
    by (simp add: lc_room_def NewContainer_def ps_room_def ps_New_def)
  ultimately show ?thesis using container_disjoint by blast
qed

end
