(* ===== verification/Statestore.thy ===== *)
theory Statestore
  imports Prelude
begin

text \<open>
  The key-value store of the node: the interface \<open>StateStorer\<close> of \<open>pkg/storage/store.go\<close>, the
  iteration loop and the schema migrations of \<open>pkg/statestore/leveldb\<close>, and the in-memory store of
  \<open>pkg/statestore/mock\<close> that \<open>InitStateStore\<close> uses when no data directory is given. LevelDB itself
  is third-party code: it is a value of the interface type, with its documented behaviour as the
  laws of the locale \<open>state_store\<close> (a read returns the last write or an error; a failed call
  changes nothing). Values are kept decoded, at the type the caller stores.
\<close>

section \<open>The interface\<close>

datatype store_error = ErrNotFound | ErrStore string

text \<open>\<open>st_Iter p s\<close> is what an iterator over the prefix \<open>p\<close> yields: the entries and the error it
  ends with.\<close>

record ('s, 'v) StateStorer =
  st_Get :: "string \<Rightarrow> 's \<Rightarrow> store_error + 'v"
  st_Put :: "string \<Rightarrow> 'v \<Rightarrow> 's \<Rightarrow> store_error + 's"
  st_Delete :: "string \<Rightarrow> 's \<Rightarrow> store_error + 's"
  st_Iter :: "string \<Rightarrow> 's \<Rightarrow> (string \<times> 'v) list \<times> store_error option"

datatype 'e iter_error = IterErr store_error | FuncErr 'e

type_synonym ('v, 'c, 'e) StateIterFunc = "string \<Rightarrow> 'v \<Rightarrow> 'c \<Rightarrow> 'c \<times> bool \<times> 'e option"

text \<open>The loop of \<open>Iterate\<close>: the state \<open>'c\<close> is what the callback captures; it returns whether to
  stop and an error.\<close>

fun iterate_loop ::
  "('v, 'c, 'e) StateIterFunc \<Rightarrow> (string \<times> 'v) list \<Rightarrow> store_error option \<Rightarrow> 'c
   \<Rightarrow> 'c \<times> 'e iter_error option" where
  "iterate_loop f [] err c = (c, map_option IterErr err)"
| "iterate_loop f ((k, v) # es) err c =
     (case f k v c of
        (c', _, Some e) \<Rightarrow> (c', Some (FuncErr e))
      | (c', True, None) \<Rightarrow> (c', None)
      | (c', False, None) \<Rightarrow> iterate_loop f es err c')"

definition st_Iterate ::
  "('s, 'v) StateStorer \<Rightarrow> string \<Rightarrow> ('v, 'c, 'e) StateIterFunc \<Rightarrow> 's \<Rightarrow> 'c
   \<Rightarrow> 'c \<times> 'e iter_error option" where
  "st_Iterate S p f s c = (case st_Iter S p s of (es, err) \<Rightarrow> iterate_loop f es err c)"

lemma iterate_loop_inv:
  assumes "\<And>k v c. P c \<Longrightarrow> P (fst (f k v c))" and "P c"
  shows "P (fst (iterate_loop f es err c))"
  using assms(2)
proof (induction es arbitrary: c)
  case Nil
  then show ?case by simp
next
  case (Cons e es)
  obtain k v where e: "e = (k, v)" by fastforce
  obtain c' stop r where f: "f k v c = (c', stop, r)" by (cases "f k v c") auto
  have "P c'" using assms(1) [OF Cons.prems, of k v] by (simp add: f)
  with Cons.IH show ?case by (simp add: e f split: option.splits bool.splits)
qed

lemma st_Iterate_inv:
  assumes "\<And>k v c. P c \<Longrightarrow> P (fst (f k v c))" and "P c" and "st_Iterate S p f s c = (c', r)"
  shows "P c'"
  using iterate_loop_inv [of P f, OF assms(1,2)] assms(3)
  by (auto simp: st_Iterate_def split: prod.splits) (metis fst_conv)

section \<open>The contract\<close>

locale state_store =
  fixes S :: "('s, 'v) StateStorer" and look :: "'s \<Rightarrow> string \<Rightarrow> 'v option"
  assumes get_some: "st_Get S k s = Inr v \<Longrightarrow> look s k = Some v"
    and get_none: "st_Get S k s = Inl ErrNotFound \<Longrightarrow> look s k = None"
    and put_look: "st_Put S k v s = Inr s' \<Longrightarrow> look s' = (look s)(k \<mapsto> v)"
    and delete_look: "st_Delete S k s = Inr s' \<Longrightarrow> look s' = (look s)(k := None)"
    and iter_set: "st_Iter S p s = (es, None) \<Longrightarrow>
      set es = {(k, v). look s k = Some v \<and> prefix p k} \<and> distinct (map fst es)"
begin

lemma put_same: "st_Put S k v s = Inr s' \<Longrightarrow> look s' k = Some v"
  by (simp add: put_look)

lemma put_other: "st_Put S k v s = Inr s' \<Longrightarrow> k' \<noteq> k \<Longrightarrow> look s' k' = look s k'"
  by (simp add: put_look)

lemma get_after_put: "st_Put S k v s = Inr s' \<Longrightarrow> st_Get S k s' = Inr w \<Longrightarrow> w = v"
  using put_same get_some by fastforce

text \<open>An iteration whose callback never stops nor fails is the fold over the stored entries.\<close>

lemma iterate_fold:
  assumes "\<And>k v c. f k v c = (g k v c, False, None)"
    and "st_Iterate S p f s c = (c', None)"
  shows "\<exists>es. set es = {(k, v). look s k = Some v \<and> prefix p k} \<and> distinct (map fst es)
    \<and> c' = fold (\<lambda>(k, v). g k v) es c"
proof -
  obtain es err where es: "st_Iter S p s = (es, err)" by fastforce
  have loop: "iterate_loop f xs err c = (fold (\<lambda>(k, v). g k v) xs c, map_option IterErr err)"
    for xs c
    by (induction xs arbitrary: c) (auto simp: assms(1))
  with assms(2) es have "err = None" "c' = fold (\<lambda>(k, v). g k v) es c"
    by (auto simp: st_Iterate_def)
  with iter_set es show ?thesis by blast
qed

end

text \<open>A store that does not fail, and a store that iterates in key order.\<close>

locale reliable_store = state_store +
  assumes get_total: "st_Get S k s = (case look s k of None \<Rightarrow> Inl ErrNotFound | Some v \<Rightarrow> Inr v)"
    and put_total: "\<exists>s'. st_Put S k v s = Inr s'"
    and delete_total: "\<exists>s'. st_Delete S k s = Inr s'"
    and iter_total: "snd (st_Iter S p s) = None"

locale ordered_store = state_store +
  assumes iter_sorted: "st_Iter S p s = (es, err) \<Longrightarrow> sorted (map fst es)"
begin

lemma iter_strict_sorted:
  "st_Iter S p s = (es, None) \<Longrightarrow> sorted_wrt (<) (map fst es)"
  using iter_sorted iter_set by (simp add: strict_sorted_iff)

end

section \<open>The in-memory store\<close>

type_synonym 'v mem = "(string \<times> 'v) list"

definition mem_Get :: "string \<Rightarrow> 'v mem \<Rightarrow> store_error + 'v" where
  "mem_Get k s = (case map_of s k of None \<Rightarrow> Inl ErrNotFound | Some v \<Rightarrow> Inr v)"

definition mem_Put :: "string \<Rightarrow> 'v \<Rightarrow> 'v mem \<Rightarrow> store_error + 'v mem" where
  "mem_Put k v s = Inr ((k, v) # s)"

definition mem_Delete :: "string \<Rightarrow> 'v mem \<Rightarrow> store_error + 'v mem" where
  "mem_Delete k s = Inr (filter (\<lambda>e. fst e \<noteq> k) s)"

text \<open>The order of a Go map is unspecified; \<open>mem_Iterate\<close> yields the entries in the order \<open>ord\<close>
  puts their keys.\<close>

definition mem_Iterate ::
  "(string list \<Rightarrow> string list) \<Rightarrow> string \<Rightarrow> 'v mem \<Rightarrow> (string \<times> 'v) list \<times> store_error option" where
  "mem_Iterate ord p s =
     (map (\<lambda>k. (k, the (map_of s k))) (filter (prefix p) (ord (remdups (map fst s)))), None)"

definition mem_store :: "(string list \<Rightarrow> string list) \<Rightarrow> ('v mem, 'v) StateStorer" where
  "mem_store ord = \<lparr>st_Get = mem_Get, st_Put = mem_Put, st_Delete = mem_Delete,
     st_Iter = mem_Iterate ord\<rparr>"

definition InMem :: "('v mem, 'v) StateStorer" where
  "InMem = mem_store (\<lambda>ks. ks)"

definition SortedMem :: "('v mem, 'v) StateStorer" where
  "SortedMem = mem_store sort"

lemmas mem_defs = mem_Get_def mem_Put_def mem_Delete_def mem_Iterate_def mem_store_def
  InMem_def SortedMem_def

declare mem_defs [eval_simps]

lemma map_of_filter_ne: "map_of (filter (\<lambda>e. fst e \<noteq> k) s) = (map_of s)(k := None)"
  by (induction s) (auto simp: fun_eq_iff)

lemma mem_reliable:
  assumes "\<And>ks. set (ord ks) = set ks" and "\<And>ks. distinct ks \<Longrightarrow> distinct (ord ks)"
  shows "reliable_store (mem_store ord) (map_of :: 'v mem \<Rightarrow> string \<Rightarrow> 'v option)"
proof
  fix p :: string and s es :: "'v mem"
  assume "st_Iter (mem_store ord) p s = (es, None)"
  then have es: "es = map (\<lambda>k. (k, the (map_of s k))) (filter (prefix p) (ord (remdups (map fst s))))"
    by (simp add: mem_defs)
  have "set es = {(k, v). map_of s k = Some v \<and> prefix p k}"
  proof (intro set_eqI iffI)
    fix e assume "e \<in> set es"
    then obtain k where k: "e = (k, the (map_of s k))" "prefix p k" "k \<in> fst ` set s"
      using assms(1) by (auto simp: es)
    then have "map_of s k \<noteq> None" by (simp add: map_of_eq_None_iff)
    with k show "e \<in> {(k, v). map_of s k = Some v \<and> prefix p k}" by auto
  next
    fix e assume "e \<in> {(k, v). map_of s k = Some v \<and> prefix p k}"
    then obtain k v where e: "e = (k, v)" "map_of s k = Some v" "prefix p k" by blast
    then have "k \<in> fst ` set s" by (metis map_of_eq_None_iff option.distinct(1))
    with e show "e \<in> set es" using assms(1) by (auto simp: es)
  qed
  moreover have "distinct (map fst es)" using assms(2) by (simp add: es comp_def)
  ultimately show "set es = {(k, v). map_of s k = Some v \<and> prefix p k} \<and> distinct (map fst es)" ..
qed (auto simp: mem_defs map_of_filter_ne split: option.splits)

interpretation inmem: reliable_store InMem "map_of :: 'v mem \<Rightarrow> string \<Rightarrow> 'v option"
  unfolding InMem_def by (rule mem_reliable) auto

interpretation sortmem: reliable_store SortedMem "map_of :: 'v mem \<Rightarrow> string \<Rightarrow> 'v option"
  unfolding SortedMem_def by (rule mem_reliable) auto

interpretation sortmem_ordered: ordered_store SortedMem "map_of :: 'v mem \<Rightarrow> string \<Rightarrow> 'v option"
proof
  fix p :: string and s es :: "'v mem" and err
  assume "st_Iter SortedMem p s = (es, err)"
  then have "map fst es = filter (prefix p) (sort (remdups (map fst s)))"
    by (auto simp: mem_defs comp_def)
  then show "sorted (map fst es)" using sorted_wrt_filter [OF sorted_sort, of "prefix p" "remdups (map fst s)"] by simp
qed

end
