(* ===== verification/Accounting.thy ===== *)
theory Accounting
  imports Swarm Statestore
begin

text \<open>
  \<open>pkg/accounting/accounting.go\<close>: what a node owes each peer and what each peer owes it. The state
  of the component is the record \<open>Accounting\<close>: the in-memory data of each peer, the configured
  limits, and the store with three balances per peer (balance, surplus, originated). Amounts are
  unbounded integers as \<open>big.Int\<close> is; prices are 64-bit words; timestamps and durations wrap as
  \<open>int64\<close> does. Each operation runs under the lock of its peer, so it is one function of the state.

  The clock, the time-based settlement (\<open>refreshFunction\<close>), the store and the p2p service are other
  components: the clock is an argument, the refreshment is a function, the store is a value of the
  interface \<open>StateStorer\<close>, and the calls that leave the component (a payment started, a peer
  blocklisted) are recorded in \<open>acc_events\<close>. Metrics and log lines are left out. \<open>None\<close> as the
  result of an operation is a panic.
\<close>

section \<open>Errors and state\<close>

datatype acc_error =
    ErrOverdraft
  | ErrDisconnectThresholdExceeded
  | ErrPeerNoBalance
  | ErrInvalidValue
  | NotInitialized
  | SanityCheckFailed
  | NoPeerInKey
  | BadAddress hex_error
  | StoreErr store_error
  | RefreshErr string
  | BlockPeerError int acc_error
  | Wrap string acc_error

datatype acc_event = Pay Address int | Blocklist Address int

record accountingPeer =
  reservedBalance :: int
  shadowReservedBalance :: int
  ghostBalance :: int
  ap_paymentThreshold :: int
  refreshTimestamp :: int
  paymentOngoing :: bool
  lastSettlementFailureTimestamp :: int
  ap_connected :: bool

record 's Accounting =
  accountingPeers :: "string \<rightharpoonup> accountingPeer"
  acc_store :: 's
  paymentThreshold :: int
  paymentTolerance :: int
  earlyPayment :: int
  disconnectLimit :: int
  refreshRate :: int
  minimumPayment :: int
  payFunction :: bool
  acc_wg :: nat
  acc_events :: "acc_event list"

definition minimumPaymentDivisor :: int where "minimumPaymentDivisor = 5"
definition failedSettlementInterval :: int where "failedSettlementInterval = 10"

text \<open>\<open>big.Int.Div\<close> is Euclidean division.\<close>

definition big_Div :: "int \<Rightarrow> int \<Rightarrow> int" where
  "big_Div x y = (if 0 < y then x div y else - (x div - y))"

definition NewAccounting :: "int \<Rightarrow> int \<Rightarrow> int \<Rightarrow> 's \<Rightarrow> int \<Rightarrow> 's Accounting" where
  "NewAccounting threshold tolerance early st rate =
     \<lparr>accountingPeers = Map.empty, acc_store = st, paymentThreshold = threshold,
      paymentTolerance = tolerance, earlyPayment = early, disconnectLimit = threshold + tolerance,
      refreshRate = rate, minimumPayment = big_Div rate minimumPaymentDivisor,
      payFunction = False, acc_wg = 0, acc_events = []\<rparr>"

definition SetPayFunc :: "'s Accounting \<Rightarrow> 's Accounting" where
  "SetPayFunc a = a\<lparr>payFunction := True\<rparr>"

section \<open>Keys\<close>

definition balancesPrefix :: string where "balancesPrefix = ''accounting_balance_''"
definition balancesSurplusPrefix :: string where
  "balancesSurplusPrefix = ''accounting_surplusbalance_''"
definition balancesOriginatedPrefix :: string where
  "balancesOriginatedPrefix = ''accounting_originatedbalance_''"

definition peerBalanceKey :: "Address \<Rightarrow> string" where
  "peerBalanceKey peer = balancesPrefix @ addr_String peer"

definition peerSurplusBalanceKey :: "Address \<Rightarrow> string" where
  "peerSurplusBalanceKey peer = balancesSurplusPrefix @ addr_String peer"

definition originatedBalanceKey :: "Address \<Rightarrow> string" where
  "originatedBalanceKey peer = balancesOriginatedPrefix @ addr_String peer"

definition balanceKeyPeer :: "string \<Rightarrow> acc_error + Address" where
  "balanceKeyPeer k =
     (case SplitAfter k balancesPrefix of
        [_, h] \<Rightarrow> (case ParseHexAddress h of Inl e \<Rightarrow> Inl (BadAddress e) | Inr a \<Rightarrow> Inr a)
      | _ \<Rightarrow> Inl NoPeerInKey)"

definition surplusBalanceKeyPeer :: "string \<Rightarrow> acc_error + Address" where
  "surplusBalanceKeyPeer k =
     (case SplitAfter k balancesSurplusPrefix of
        [_, h] \<Rightarrow> (case ParseHexAddress h of Inl e \<Rightarrow> Inl (BadAddress e) | Inr a \<Rightarrow> Inr a)
      | _ \<Rightarrow> Inl NoPeerInKey)"

section \<open>Peers and balances\<close>

definition newPeer :: "'s Accounting \<Rightarrow> accountingPeer" where
  "newPeer a = \<lparr>reservedBalance = 0, shadowReservedBalance = 0, ghostBalance = 0,
     ap_paymentThreshold = paymentThreshold a, refreshTimestamp = 0, paymentOngoing = False,
     lastSettlementFailureTimestamp = 0, ap_connected = False\<rparr>"

definition getAccountingPeer :: "Address \<Rightarrow> 's Accounting \<Rightarrow> accountingPeer \<times> 's Accounting" where
  "getAccountingPeer peer a =
     (case accountingPeers a (addr_String peer) of
        Some p \<Rightarrow> (p, a)
      | None \<Rightarrow>
          (newPeer a, a\<lparr>accountingPeers := (accountingPeers a)(addr_String peer \<mapsto> newPeer a)\<rparr>))"

text \<open>The data a pointer returned by \<open>getAccountingPeer\<close> refers to, and an assignment through it.\<close>

definition peer_of :: "Address \<Rightarrow> 's Accounting \<Rightarrow> accountingPeer" where
  "peer_of peer a = fst (getAccountingPeer peer a)"

definition upd_peer ::
  "Address \<Rightarrow> (accountingPeer \<Rightarrow> accountingPeer) \<Rightarrow> 's Accounting \<Rightarrow> 's Accounting" where
  "upd_peer peer f a =
     a\<lparr>accountingPeers := (accountingPeers a)(addr_String peer \<mapsto> f (peer_of peer a))\<rparr>"

definition Balance :: "('s, int) StateStorer \<Rightarrow> Address \<Rightarrow> 's Accounting \<Rightarrow> acc_error + int" where
  "Balance S peer a =
     (case st_Get S (peerBalanceKey peer) (acc_store a) of
        Inl ErrNotFound \<Rightarrow> Inl ErrPeerNoBalance
      | Inl e \<Rightarrow> Inl (StoreErr e)
      | Inr b \<Rightarrow> Inr b)"

definition OriginatedBalance ::
  "('s, int) StateStorer \<Rightarrow> Address \<Rightarrow> 's Accounting \<Rightarrow> acc_error + int" where
  "OriginatedBalance S peer a =
     (case st_Get S (originatedBalanceKey peer) (acc_store a) of
        Inl ErrNotFound \<Rightarrow> Inl ErrPeerNoBalance
      | Inl e \<Rightarrow> Inl (StoreErr e)
      | Inr b \<Rightarrow> Inr b)"

definition SurplusBalance ::
  "('s, int) StateStorer \<Rightarrow> Address \<Rightarrow> 's Accounting \<Rightarrow> acc_error + int" where
  "SurplusBalance S peer a =
     (case st_Get S (peerSurplusBalanceKey peer) (acc_store a) of
        Inl ErrNotFound \<Rightarrow> Inr 0
      | Inl e \<Rightarrow> Inl (StoreErr e)
      | Inr b \<Rightarrow> if b < 0 then Inl ErrInvalidValue else Inr b)"

text \<open>The callers of \<open>Balance\<close> and \<open>OriginatedBalance\<close> go on with the zero that accompanies
  \<open>ErrPeerNoBalance\<close>.\<close>

definition or_zero :: "acc_error + int \<Rightarrow> acc_error + int" where
  "or_zero r = (case r of Inl ErrPeerNoBalance \<Rightarrow> Inr 0 | _ \<Rightarrow> r)"

definition CompensatedBalance ::
  "('s, int) StateStorer \<Rightarrow> Address \<Rightarrow> 's Accounting \<Rightarrow> acc_error + int" where
  "CompensatedBalance S peer a =
     (case SurplusBalance S peer a of
        Inl e \<Rightarrow> Inl e
      | Inr surplus \<Rightarrow>
         (case or_zero (Balance S peer a) of
            Inl e \<Rightarrow> Inl e
          | Inr balance \<Rightarrow>
              if surplus = 0 \<and> Balance S peer a = Inl ErrPeerNoBalance then Inl ErrPeerNoBalance
              else Inr (balance - surplus)))"

definition put_int ::
  "('s, int) StateStorer \<Rightarrow> string \<Rightarrow> int \<Rightarrow> string \<Rightarrow> 's Accounting
   \<Rightarrow> acc_error option \<times> 's Accounting" where
  "put_int S k v msg a =
     (case st_Put S k v (acc_store a) of
        Inl e \<Rightarrow> (Some (Wrap msg (StoreErr e)), a)
      | Inr s \<Rightarrow> (None, a\<lparr>acc_store := s\<rparr>))"

section \<open>All balances\<close>

text \<open>The callbacks of \<open>Balances\<close> and \<open>CompensatedBalances\<close>; the captured state is the map that is
  filled.\<close>

definition Balances_func ::
  "('s, int) StateStorer \<Rightarrow> 's Accounting \<Rightarrow> (int, string \<rightharpoonup> int, acc_error) StateIterFunc" where
  "Balances_func S a key v s =
     (case balanceKeyPeer key of
        Inl e \<Rightarrow> (s, False, Some (Wrap ''parse address from key'' e))
      | Inr addr \<Rightarrow>
          if s (addr_String addr) = None then
            (case st_Get S (peerBalanceKey addr) (acc_store a) of
               Inl e \<Rightarrow> (s, False, Some (Wrap ''get peer balance'' (StoreErr e)))
             | Inr b \<Rightarrow> (s(addr_String addr \<mapsto> b), False, None))
          else (s, False, None))"

definition Balances ::
  "('s, int) StateStorer \<Rightarrow> 's Accounting \<Rightarrow> acc_error iter_error + (string \<rightharpoonup> int)" where
  "Balances S a =
     (case st_Iterate S balancesPrefix (Balances_func S a) (acc_store a) Map.empty of
        (_, Some e) \<Rightarrow> Inl e
      | (s, None) \<Rightarrow> Inr s)"

definition Compensated_func ::
  "(string \<Rightarrow> acc_error + Address) \<Rightarrow> ('s, int) StateStorer \<Rightarrow> 's Accounting
   \<Rightarrow> (int, string \<rightharpoonup> int, acc_error) StateIterFunc" where
  "Compensated_func keyPeer S a key v s =
     (case keyPeer key of
        Inl e \<Rightarrow> (s, False, Some (Wrap ''parse address from key'' e))
      | Inr addr \<Rightarrow>
          if s (addr_String addr) = None then
            (case CompensatedBalance S addr a of
               Inl e \<Rightarrow> (s, False, Some (Wrap ''get peer balance'' e))
             | Inr b \<Rightarrow> (s(addr_String addr \<mapsto> b), False, None))
          else (s, False, None))"

definition CompensatedBalances ::
  "('s, int) StateStorer \<Rightarrow> 's Accounting \<Rightarrow> acc_error iter_error + (string \<rightharpoonup> int)" where
  "CompensatedBalances S a =
     (case st_Iterate S balancesPrefix (Compensated_func balanceKeyPeer S a) (acc_store a) Map.empty of
        (_, Some e) \<Rightarrow> Inl e
      | (s, None) \<Rightarrow>
         (case st_Iterate S balancesSurplusPrefix (Compensated_func surplusBalanceKeyPeer S a)
                 (acc_store a) s of
            (_, Some e) \<Rightarrow> Inl e
          | (s', None) \<Rightarrow> Inr s'))"

section \<open>Debts\<close>

definition get_or_zero :: "('s, int) StateStorer \<Rightarrow> Address \<Rightarrow> 's Accounting \<Rightarrow> acc_error + int" where
  "get_or_zero S peer a =
     (case st_Get S (peerBalanceKey peer) (acc_store a) of
        Inl ErrNotFound \<Rightarrow> Inr 0
      | Inl e \<Rightarrow> Inl (StoreErr e)
      | Inr b \<Rightarrow> Inr b)"

definition PeerDebt ::
  "('s, int) StateStorer \<Rightarrow> Address \<Rightarrow> 's Accounting \<Rightarrow> (acc_error + int) \<times> 's Accounting" where
  "PeerDebt S peer a0 =
     (case getAccountingPeer peer a0 of
        (p, a) \<Rightarrow>
         (case get_or_zero S peer a of
            Inl e \<Rightarrow> (Inl e, a)
          | Inr balance \<Rightarrow>
              let peerDebt = balance + shadowReservedBalance p in
              (Inr (if peerDebt < 0 then 0 else peerDebt), a)))"

definition peerLatentDebt ::
  "('s, int) StateStorer \<Rightarrow> Address \<Rightarrow> 's Accounting \<Rightarrow> acc_error + int" where
  "peerLatentDebt S peer a =
     (case get_or_zero S peer a of
        Inl e \<Rightarrow> Inl e
      | Inr b \<Rightarrow>
          let balance = (if b < 0 then 0 else b);
              peerDebt = balance + shadowReservedBalance (peer_of peer a);
              latent = peerDebt + ghostBalance (peer_of peer a)
          in Inr (if latent < 0 then 0 else latent))"

definition shadowBalance ::
  "('s, int) StateStorer \<Rightarrow> Address \<Rightarrow> 's Accounting \<Rightarrow> acc_error + int" where
  "shadowBalance S peer a =
     (case st_Get S (peerBalanceKey peer) (acc_store a) of
        Inl ErrNotFound \<Rightarrow> Inr 0
      | Inl e \<Rightarrow> Inl (StoreErr e)
      | Inr balance \<Rightarrow>
          if 0 \<le> balance then Inr 0
          else
            let negativeBalance = - balance in
            (case SurplusBalance S peer a of
               Inl e \<Rightarrow> Inl e
             | Inr surplusBalance \<Rightarrow>
                 let debt = negativeBalance + surplusBalance in
                 if debt < shadowReservedBalance (peer_of peer a) then Inr 0
                 else Inr (negativeBalance - shadowReservedBalance (peer_of peer a))))"

definition getIncreasedExpectedDebt ::
  "('s, int) StateStorer \<Rightarrow> Address \<Rightarrow> int \<Rightarrow> 's Accounting \<Rightarrow> acc_error + int \<times> int" where
  "getIncreasedExpectedDebt S peer bigPrice a =
     (let nextReserved = reservedBalance (peer_of peer a) + bigPrice in
      case or_zero (Balance S peer a) of
        Inl e \<Rightarrow> Inl (Wrap ''failed to load balance'' e)
      | Inr currentBalance \<Rightarrow>
          let currentDebt = (if - currentBalance < 0 then 0 else - currentBalance);
              expectedDebt = currentDebt + nextReserved
          in (case SurplusBalance S peer a of
                Inl e \<Rightarrow> Inl (Wrap ''failed to load surplus balance'' e)
              | Inr additionalDebt \<Rightarrow> Inr (expectedDebt + additionalDebt, currentBalance)))"

section \<open>Blocklisting\<close>

definition second :: int where "second = 1000000000"

text \<open>\<open>Div\<close> panics when the refresh rate is zero; \<open>Int64\<close> keeps the low 64 bits.\<close>

definition blocklistUntil ::
  "('s, int) StateStorer \<Rightarrow> Address \<Rightarrow> int \<Rightarrow> 's Accounting \<Rightarrow> (acc_error + int) option" where
  "blocklistUntil S peer multiplier a =
     (case peerLatentDebt S peer a of
        Inl e \<Rightarrow> Some (Inl e)
      | Inr d \<Rightarrow>
          let debt = (if d < refreshRate a then refreshRate a else d);
              additionalDebt = debt + paymentThreshold a;
              multiplyDebt = additionalDebt * multiplier
          in if refreshRate a = 0 then None
             else Some (Inr (i64 (big_Div multiplyDebt (refreshRate a)))))"

definition emit :: "acc_event \<Rightarrow> 's Accounting \<Rightarrow> 's Accounting" where
  "emit e a = a\<lparr>acc_events := acc_events a @ [e]\<rparr>"

text \<open>Every caller discards the error \<open>p2p.Blocklist\<close> returns.\<close>

definition blocklist ::
  "('s, int) StateStorer \<Rightarrow> Address \<Rightarrow> int \<Rightarrow> 's Accounting \<Rightarrow> 's Accounting option" where
  "blocklist S peer multiplier a =
     (case blocklistUntil S peer multiplier a of
        None \<Rightarrow> None
      | Some (Inl e) \<Rightarrow> Some (emit (Blocklist peer (60 * second)) a)
      | Some (Inr disconnectFor) \<Rightarrow> Some (emit (Blocklist peer (i64 (disconnectFor * second))) a))"

section \<open>The originated balance\<close>

definition decreaseOriginatedBalanceTo ::
  "('s, int) StateStorer \<Rightarrow> Address \<Rightarrow> int \<Rightarrow> 's Accounting
   \<Rightarrow> acc_error option \<times> 's Accounting" where
  "decreaseOriginatedBalanceTo S peer limit a =
     (case or_zero (OriginatedBalance S peer a) of
        Inl e \<Rightarrow> (Some (Wrap ''failed to load originated balance'' e), a)
      | Inr originatedBalance \<Rightarrow>
          let toSet = (if 0 < limit then 0 else limit) in
          if originatedBalance < toSet
          then put_int S (originatedBalanceKey peer) toSet ''failed to persist originated balance'' a
          else (None, a))"

definition decreaseOriginatedBalanceBy ::
  "('s, int) StateStorer \<Rightarrow> Address \<Rightarrow> int \<Rightarrow> 's Accounting
   \<Rightarrow> acc_error option \<times> 's Accounting" where
  "decreaseOriginatedBalanceBy S peer amount a =
     (case or_zero (OriginatedBalance S peer a) of
        Inl e \<Rightarrow> (Some (Wrap ''failed to load balance'' e), a)
      | Inr originatedBalance \<Rightarrow>
          put_int S (originatedBalanceKey peer) (originatedBalance + amount)
            ''failed to persist originated balance'' a)"

section \<open>Settling\<close>

type_synonym RefreshFunc = "Address \<Rightarrow> int \<Rightarrow> int \<Rightarrow> string + int \<times> int"

text \<open>The second half of \<open>settle\<close>: start a payment when none is under way, none has failed
  recently, and the originated debt is worth one.\<close>

definition settle_monetary ::
  "('s, int) StateStorer \<Rightarrow> int \<Rightarrow> Address \<Rightarrow> 's Accounting \<Rightarrow> acc_error option \<times> 's Accounting" where
  "settle_monetary S now peer a =
     (let balance = peer_of peer a in
      if payFunction a \<and> \<not> paymentOngoing balance then
        let difference = i64 (now - lastSettlementFailureTimestamp balance) in
        if failedSettlementInterval < difference then
          (case or_zero (OriginatedBalance S peer a) of
             Inl e \<Rightarrow> (Some (Wrap ''failed to load originated balance to settle'' e), a)
           | Inr originatedBalance \<Rightarrow>
               let paymentAmount = - originatedBalance in
               if minimumPayment a \<le> paymentAmount then
                 (None,
                  emit (Pay peer paymentAmount)
                    ((upd_peer peer (\<lambda>p. p\<lparr>paymentOngoing := True,
                        shadowReservedBalance := shadowReservedBalance p + paymentAmount\<rparr>) a)
                      \<lparr>acc_wg := acc_wg a + 1\<rparr>))
               else (None, a))
        else (None, a)
      else (None, a))"

definition settle ::
  "('s, int) StateStorer \<Rightarrow> RefreshFunc \<Rightarrow> int \<Rightarrow> Address \<Rightarrow> 's Accounting
   \<Rightarrow> (acc_error option \<times> 's Accounting) option" where
  "settle S refresh now peer a =
     (let timeElapsed = i64 (now - refreshTimestamp (peer_of peer a)) in
      case or_zero (Balance S peer a) of
        Inl e \<Rightarrow> Some (Some (Wrap ''failed to load balance'' e), a)
      | Inr oldBalance \<Rightarrow>
         (case CompensatedBalance S peer a of
            Inl e \<Rightarrow> Some (Some e, a)
          | Inr compensatedBalance \<Rightarrow>
              let paymentAmount = - compensatedBalance in
              if 0 < paymentAmount \<and> 0 < timeElapsed then
                (case shadowBalance S peer a of
                   Inl e \<Rightarrow> Some (Some e, a)
                 | Inr shadow \<Rightarrow>
                    (case refresh peer paymentAmount shadow of
                       Inl e \<Rightarrow>
                        (case blocklist S peer 1 a of
                           None \<Rightarrow> None
                         | Some a' \<Rightarrow> Some (Some (Wrap ''refresh failure'' (RefreshErr e)), a'))
                     | Inr (acceptedAmount, timestamp) \<Rightarrow>
                        let a1 = upd_peer peer (\<lambda>p. p\<lparr>refreshTimestamp := timestamp\<rparr>) a;
                            newBalance = oldBalance + acceptedAmount in
                        (case put_int S (peerBalanceKey peer) newBalance
                                ''settle: failed to persist balance'' a1 of
                           (Some e, a2) \<Rightarrow> Some (Some e, a2)
                         | (None, a2) \<Rightarrow>
                            (case decreaseOriginatedBalanceTo S peer newBalance a2 of
                               (Some e, a3) \<Rightarrow>
                                 Some (Some (Wrap ''settle: failed to decrease originated balance'' e), a3)
                             | (None, a3) \<Rightarrow> Some (settle_monetary S now peer a3)))))
              else Some (settle_monetary S now peer a)))"

section \<open>Reserve, Release, Credit\<close>

text \<open>The last part of \<open>Reserve\<close>: refuse an overdraft or reserve.\<close>

definition reserve_commit ::
  "Address \<Rightarrow> int \<Rightarrow> int \<Rightarrow> 's Accounting \<Rightarrow> acc_error option \<times> 's Accounting" where
  "reserve_commit peer bigPrice increasedExpectedDebt a =
     (if ap_paymentThreshold (peer_of peer a) < increasedExpectedDebt then (Some ErrOverdraft, a)
      else (None, upd_peer peer (\<lambda>p. p\<lparr>reservedBalance := reservedBalance p + bigPrice\<rparr>) a))"

definition Reserve ::
  "('s, int) StateStorer \<Rightarrow> RefreshFunc \<Rightarrow> int \<Rightarrow> Address \<Rightarrow> u64 \<Rightarrow> 's Accounting
   \<Rightarrow> (acc_error option \<times> 's Accounting) option" where
  "Reserve S refresh now peer price a0 =
     (case getAccountingPeer peer a0 of
        (p, a) \<Rightarrow>
          if \<not> ap_connected p then Some (Some NotInitialized, a)
          else
            let bigPrice = uint price;
                threshold = (if earlyPayment a < ap_paymentThreshold p
                             then ap_paymentThreshold p - earlyPayment a else 0) in
            (case getIncreasedExpectedDebt S peer bigPrice a of
               Inl e \<Rightarrow> Some (Some e, a)
             | Inr (increasedExpectedDebt, currentBalance) \<Rightarrow>
                 let increasedExpectedDebtReduced = increasedExpectedDebt - shadowReservedBalance p in
                 if threshold \<le> increasedExpectedDebtReduced \<and> currentBalance < 0 then
                   (case settle S refresh now peer a of
                      None \<Rightarrow> None
                    | Some (Some e, a1) \<Rightarrow> Some (Some (Wrap ''failed to settle with peer'' e), a1)
                    | Some (None, a1) \<Rightarrow>
                       (case getIncreasedExpectedDebt S peer bigPrice a1 of
                          Inl e \<Rightarrow> Some (Some e, a1)
                        | Inr (increasedExpectedDebt', _) \<Rightarrow>
                            Some (reserve_commit peer bigPrice increasedExpectedDebt' a1)))
                 else Some (reserve_commit peer bigPrice increasedExpectedDebt a)))"

definition Release :: "Address \<Rightarrow> u64 \<Rightarrow> 's Accounting \<Rightarrow> 's Accounting" where
  "Release peer price a0 =
     (case getAccountingPeer peer a0 of
        (p, a) \<Rightarrow>
          let bigPrice = uint price in
          if reservedBalance p < bigPrice then upd_peer peer (\<lambda>p. p\<lparr>reservedBalance := 0\<rparr>) a
          else upd_peer peer (\<lambda>p. p\<lparr>reservedBalance := reservedBalance p - bigPrice\<rparr>) a)"

definition Credit ::
  "('s, int) StateStorer \<Rightarrow> Address \<Rightarrow> u64 \<Rightarrow> bool \<Rightarrow> 's Accounting
   \<Rightarrow> acc_error option \<times> 's Accounting" where
  "Credit S peer price originated a0 =
     (case getAccountingPeer peer a0 of
        (p, a) \<Rightarrow>
         (case or_zero (Balance S peer a) of
            Inl e \<Rightarrow> (Some (Wrap ''failed to load balance'' e), a)
          | Inr currentBalance \<Rightarrow>
              let nextBalance = currentBalance - uint price in
              (case put_int S (peerBalanceKey peer) nextBalance ''failed to persist balance'' a of
                 (Some e, a1) \<Rightarrow> (Some e, a1)
               | (None, a1) \<Rightarrow>
                   if \<not> originated then (None, a1)
                   else
                    (case or_zero (OriginatedBalance S peer a1) of
                       Inl e \<Rightarrow> (Some (Wrap ''failed to load originated balance'' e), a1)
                     | Inr originBalance \<Rightarrow>
                         let nextOriginBalance = originBalance - uint price;
                             limit = (if 0 < nextBalance then 0 else nextBalance) in
                         put_int S (originatedBalanceKey peer)
                           (if nextOriginBalance < limit then limit else nextOriginBalance)
                           ''failed to persist originated balance'' a1))))"

section \<open>Notifications\<close>

text \<open>\<open>wg.Done\<close>, deferred to the end, panics when no payment was started.\<close>

definition NotifyPaymentSent ::
  "('s, int) StateStorer \<Rightarrow> int \<Rightarrow> Address \<Rightarrow> int \<Rightarrow> bool \<Rightarrow> 's Accounting \<Rightarrow> 's Accounting option" where
  "NotifyPaymentSent S now peer amount failed a0 =
     (case getAccountingPeer peer a0 of
        (p, a00) \<Rightarrow>
          let a = upd_peer peer (\<lambda>p. p\<lparr>paymentOngoing := False,
                    shadowReservedBalance := shadowReservedBalance p - amount\<rparr>) a00;
              finish = (\<lambda>b. if acc_wg b = 0 then None else Some (b\<lparr>acc_wg := acc_wg b - 1\<rparr>)) in
          if failed then
            finish (upd_peer peer (\<lambda>p. p\<lparr>lastSettlementFailureTimestamp := now\<rparr>) a)
          else
            (case or_zero (Balance S peer a) of
               Inl e \<Rightarrow> finish a
             | Inr currentBalance \<Rightarrow>
                (case put_int S (peerBalanceKey peer) (currentBalance + amount) [] a of
                   (Some e, a1) \<Rightarrow> finish a1
                 | (None, a1) \<Rightarrow> finish (snd (decreaseOriginatedBalanceBy S peer amount a1)))))"

definition NotifyPaymentThreshold :: "Address \<Rightarrow> int \<Rightarrow> 's Accounting \<Rightarrow> 's Accounting" where
  "NotifyPaymentThreshold peer threshold a =
     upd_peer peer (\<lambda>p. p\<lparr>ap_paymentThreshold := threshold\<rparr>) (snd (getAccountingPeer peer a))"

text \<open>\<open>grow_surplus\<close>: the surplus is increased by an amount, in both branches of
  \<open>NotifyPaymentReceived\<close>.\<close>

definition grow_surplus ::
  "('s, int) StateStorer \<Rightarrow> Address \<Rightarrow> int \<Rightarrow> 's Accounting \<Rightarrow> acc_error option \<times> 's Accounting" where
  "grow_surplus S peer amount a =
     (case SurplusBalance S peer a of
        Inl e \<Rightarrow> (Some (Wrap ''failed to get surplus balance'' e), a)
      | Inr surplus \<Rightarrow>
          put_int S (peerSurplusBalanceKey peer) (surplus + amount)
            ''failed to persist surplus balance'' a)"

definition NotifyPaymentReceived ::
  "('s, int) StateStorer \<Rightarrow> Address \<Rightarrow> int \<Rightarrow> 's Accounting \<Rightarrow> acc_error option \<times> 's Accounting" where
  "NotifyPaymentReceived S peer amount a0 =
     (case getAccountingPeer peer a0 of
        (p, a) \<Rightarrow>
         (case or_zero (Balance S peer a) of
            Inl e \<Rightarrow> (Some e, a)
          | Inr currentBalance \<Rightarrow>
              if currentBalance \<le> 0 then grow_surplus S peer amount a
              else
                let newBalance = currentBalance - amount;
                    nextBalance = (if newBalance < 0 then 0 else newBalance) in
                (case put_int S (peerBalanceKey peer) nextBalance ''failed to persist balance'' a of
                   (Some e, a1) \<Rightarrow> (Some e, a1)
                 | (None, a1) \<Rightarrow>
                     if newBalance < 0 then grow_surplus S peer (amount - currentBalance) a1
                     else (None, a1))))"

definition NotifyRefreshmentReceived ::
  "('s, int) StateStorer \<Rightarrow> Address \<Rightarrow> int \<Rightarrow> 's Accounting \<Rightarrow> acc_error option \<times> 's Accounting" where
  "NotifyRefreshmentReceived S peer amount a0 =
     (case getAccountingPeer peer a0 of
        (p, a) \<Rightarrow>
         (case or_zero (Balance S peer a) of
            Inl e \<Rightarrow> (Some e, a)
          | Inr currentBalance \<Rightarrow>
              put_int S (peerBalanceKey peer) (currentBalance - amount)
                ''failed to persist balance'' a))"

section \<open>Debiting\<close>

record debitAction =
  da_price :: int
  da_peer :: Address
  da_applied :: bool

definition PrepareDebit ::
  "Address \<Rightarrow> u64 \<Rightarrow> 's Accounting \<Rightarrow> (acc_error + debitAction) \<times> 's Accounting" where
  "PrepareDebit peer price a0 =
     (case getAccountingPeer peer a0 of
        (p, a) \<Rightarrow>
          if \<not> ap_connected p then (Inl NotInitialized, a)
          else
            let bigPrice = uint price in
            (Inr \<lparr>da_price = bigPrice, da_peer = peer, da_applied = False\<rparr>,
             upd_peer peer
               (\<lambda>p. p\<lparr>shadowReservedBalance := shadowReservedBalance p + bigPrice\<rparr>) a))"

text \<open>The debit of what the surplus does not cover.\<close>

definition debit_balance ::
  "('s, int) StateStorer \<Rightarrow> Address \<Rightarrow> int \<Rightarrow> 's Accounting \<Rightarrow> (acc_error + int) \<times> 's Accounting" where
  "debit_balance S peer cost a =
     (case or_zero (Balance S peer a) of
        Inl e \<Rightarrow> (Inl (Wrap ''failed to load balance'' e), a)
      | Inr currentBalance \<Rightarrow>
          let nextBalance = currentBalance + cost in
          (case put_int S (peerBalanceKey peer) nextBalance ''failed to persist balance'' a of
             (Some e, a1) \<Rightarrow> (Inl e, a1)
           | (None, a1) \<Rightarrow>
               (Inr nextBalance, snd (decreaseOriginatedBalanceTo S peer nextBalance a1))))"

definition increaseBalance ::
  "('s, int) StateStorer \<Rightarrow> Address \<Rightarrow> int \<Rightarrow> 's Accounting \<Rightarrow> (acc_error + int) \<times> 's Accounting" where
  "increaseBalance S peer price a =
     (case SurplusBalance S peer a of
        Inl e \<Rightarrow> (Inl (Wrap ''failed to get surplus balance'' e), a)
      | Inr surplusBalance \<Rightarrow>
          if 0 < surplusBalance then
            let newSurplusBalance = surplusBalance - price in
            if 0 \<le> newSurplusBalance then
              (case put_int S (peerSurplusBalanceKey peer) newSurplusBalance
                      ''failed to persist surplus balance'' a of
                 (Some e, a1) \<Rightarrow> (Inl e, a1)
               | (None, a1) \<Rightarrow> (Balance S peer a1, a1))
            else
              let debitIncrease = price - surplusBalance in
              if debitIncrease \<le> 0 then (Inl SanityCheckFailed, a)
              else
                (case put_int S (peerSurplusBalanceKey peer) 0
                        ''failed to persist surplus balance'' a of
                   (Some e, a1) \<Rightarrow> (Inl e, a1)
                 | (None, a1) \<Rightarrow> debit_balance S peer debitIncrease a1)
          else debit_balance S peer price a)"

definition Apply ::
  "('s, int) StateStorer \<Rightarrow> debitAction \<Rightarrow> 's Accounting
   \<Rightarrow> (acc_error option \<times> debitAction \<times> 's Accounting) option" where
  "Apply S d a =
     (case increaseBalance S (da_peer d) (da_price d) a of
        (Inl e, a1) \<Rightarrow> Some (Some e, d, a1)
      | (Inr nextBalance, a1) \<Rightarrow>
          let d' = d\<lparr>da_applied := True\<rparr>;
              a2 = upd_peer (da_peer d)
                     (\<lambda>p. p\<lparr>shadowReservedBalance := shadowReservedBalance p - da_price d\<rparr>) a1 in
          if disconnectLimit a2 \<le> nextBalance then
            (case blocklistUntil S (da_peer d) 1 a2 of
               None \<Rightarrow> None
             | Some (Inl e) \<Rightarrow>
                 Some (Some (BlockPeerError (60 * second) ErrDisconnectThresholdExceeded), d', a2)
             | Some (Inr disconnectFor) \<Rightarrow>
                 Some (Some (BlockPeerError (i64 (disconnectFor * second))
                               ErrDisconnectThresholdExceeded), d', a2))
          else Some (None, d', a2))"

definition Cleanup ::
  "('s, int) StateStorer \<Rightarrow> debitAction \<Rightarrow> 's Accounting \<Rightarrow> 's Accounting option" where
  "Cleanup S d a =
     (if \<not> da_applied d then
        let a1 = upd_peer (da_peer d)
                   (\<lambda>p. p\<lparr>shadowReservedBalance := shadowReservedBalance p - da_price d,
                          ghostBalance := ghostBalance p + da_price d\<rparr>) a in
        if disconnectLimit a1 < ghostBalance (peer_of (da_peer d) a1)
        then blocklist S (da_peer d) 1 a1
        else Some a1
      else Some a)"

section \<open>Connections\<close>

definition acc_Connect :: "('s, int) StateStorer \<Rightarrow> Address \<Rightarrow> 's Accounting \<Rightarrow> 's Accounting" where
  "acc_Connect S peer a0 =
     (let a = upd_peer peer (\<lambda>p. p\<lparr>ap_connected := True, shadowReservedBalance := 0,
                ghostBalance := 0, reservedBalance := 0\<rparr>) (snd (getAccountingPeer peer a0));
          a1 = snd (put_int S (peerBalanceKey peer) 0 [] a)
      in snd (put_int S (peerSurplusBalanceKey peer) 0 [] a1))"

definition acc_Disconnect ::
  "('s, int) StateStorer \<Rightarrow> Address \<Rightarrow> 's Accounting \<Rightarrow> 's Accounting option" where
  "acc_Disconnect S peer a0 =
     (case getAccountingPeer peer a0 of
        (p, a) \<Rightarrow>
          if ap_connected p then
            (case blocklistUntil S peer 1 a of
               None \<Rightarrow> None
             | Some r \<Rightarrow>
                 let disconnectFor = (case r of Inl _ \<Rightarrow> 60 | Inr k \<Rightarrow> k) in
                 Some (emit (Blocklist peer (i64 (disconnectFor * second)))
                        (upd_peer peer (\<lambda>p. p\<lparr>ap_connected := False\<rparr>) a)))
          else Some a)"

section \<open>Frame facts\<close>

lemma getAccountingPeer_eq: "getAccountingPeer peer a = (peer_of peer a, snd (getAccountingPeer peer a))"
  by (simp add: peer_of_def)

text \<open>\<open>touch\<close>: the state after the peer was looked up (and created when it was unknown).\<close>

definition touch :: "Address \<Rightarrow> 's Accounting \<Rightarrow> 's Accounting" where
  "touch peer a = snd (getAccountingPeer peer a)"

lemma getAccountingPeer_touch: "getAccountingPeer peer a = (peer_of peer a, touch peer a)"
  by (simp add: touch_def getAccountingPeer_eq [symmetric])

lemma peer_of_touch [simp]: "peer_of q (touch peer a) = peer_of q a"
  by (auto simp: touch_def peer_of_def getAccountingPeer_def newPeer_def split: option.splits)

lemma touch_fields [simp]:
  "acc_store (touch peer a) = acc_store a" "paymentThreshold (touch peer a) = paymentThreshold a"
  "earlyPayment (touch peer a) = earlyPayment a" "refreshRate (touch peer a) = refreshRate a"
  "disconnectLimit (touch peer a) = disconnectLimit a" "acc_wg (touch peer a) = acc_wg a"
  "payFunction (touch peer a) = payFunction a" "acc_events (touch peer a) = acc_events a"
  "minimumPayment (touch peer a) = minimumPayment a"
  by (auto simp: touch_def getAccountingPeer_def split: option.splits)

lemma peer_of_upd [simp]:
  "peer_of q (upd_peer peer f a) = (if q = peer then f (peer_of peer a) else peer_of q a)"
  by (auto simp: upd_peer_def peer_of_def getAccountingPeer_def newPeer_def split: option.splits)

lemma upd_fields [simp]:
  "acc_store (upd_peer peer f a) = acc_store a"
  "paymentThreshold (upd_peer peer f a) = paymentThreshold a"
  "earlyPayment (upd_peer peer f a) = earlyPayment a"
  "refreshRate (upd_peer peer f a) = refreshRate a"
  "disconnectLimit (upd_peer peer f a) = disconnectLimit a" "acc_wg (upd_peer peer f a) = acc_wg a"
  "payFunction (upd_peer peer f a) = payFunction a" "acc_events (upd_peer peer f a) = acc_events a"
  "minimumPayment (upd_peer peer f a) = minimumPayment a"
  by (simp_all add: upd_peer_def)

lemma peer_of_fields [simp]:
  "peer_of q (a\<lparr>acc_store := s\<rparr>) = peer_of q a" "peer_of q (a\<lparr>acc_wg := n\<rparr>) = peer_of q a"
  "peer_of q (emit e a) = peer_of q a"
  by (simp_all add: peer_of_def getAccountingPeer_def emit_def newPeer_def split: option.splits)

lemma emit_fields [simp]:
  "acc_store (emit e a) = acc_store a" "acc_wg (emit e a) = acc_wg a"
  "disconnectLimit (emit e a) = disconnectLimit a" "refreshRate (emit e a) = refreshRate a"
  "acc_events (emit e a) = acc_events a @ [e]"
  by (simp_all add: emit_def)

lemma or_zero_Inr: "or_zero r = Inr b \<longleftrightarrow> r = Inr b \<or> r = Inl ErrPeerNoBalance \<and> b = 0"
  by (cases r) (auto simp: or_zero_def split: acc_error.splits)

lemma keys_distinct [simp]:
  "peerBalanceKey p \<noteq> peerSurplusBalanceKey q" "peerBalanceKey p \<noteq> originatedBalanceKey q"
  "peerSurplusBalanceKey p \<noteq> originatedBalanceKey q" "peerSurplusBalanceKey p \<noteq> peerBalanceKey q"
  "originatedBalanceKey p \<noteq> peerBalanceKey q" "originatedBalanceKey p \<noteq> peerSurplusBalanceKey q"
  by (simp_all add: peerBalanceKey_def peerSurplusBalanceKey_def originatedBalanceKey_def
      balancesPrefix_def balancesSurplusPrefix_def balancesOriginatedPrefix_def)

lemma keys_inject [simp]:
  "peerBalanceKey p = peerBalanceKey q \<longleftrightarrow> p = q"
  "peerSurplusBalanceKey p = peerSurplusBalanceKey q \<longleftrightarrow> p = q"
  "originatedBalanceKey p = originatedBalanceKey q \<longleftrightarrow> p = q"
  by (simp_all add: peerBalanceKey_def peerSurplusBalanceKey_def originatedBalanceKey_def)

section \<open>The ledger: an abstract specification\<close>

text \<open>What the store holds of one peer, and what each operation does to it when it reports success.\<close>

record ledger =
  l_balance :: int
  l_surplus :: int
  l_originated :: int

definition val0 :: "int option \<Rightarrow> int" where
  "val0 x = (case x of None \<Rightarrow> 0 | Some v \<Rightarrow> v)"

lemma val0_simps [simp]: "val0 None = 0" "val0 (Some v) = v"
  by (simp_all add: val0_def)

definition ledger_of :: "('s \<Rightarrow> string \<Rightarrow> int option) \<Rightarrow> 's \<Rightarrow> Address \<Rightarrow> ledger" where
  "ledger_of look s peer =
     \<lparr>l_balance = val0 (look s (peerBalanceKey peer)),
      l_surplus = val0 (look s (peerSurplusBalanceKey peer)),
      l_originated = val0 (look s (originatedBalanceKey peer))\<rparr>"

definition l_limit :: "int \<Rightarrow> ledger \<Rightarrow> ledger" where
  "l_limit b l = l\<lparr>l_originated := max (l_originated l) (min 0 b)\<rparr>"

definition l_credit :: "int \<Rightarrow> bool \<Rightarrow> ledger \<Rightarrow> ledger" where
  "l_credit price originated l =
     (let b = l_balance l - price in
      l\<lparr>l_balance := b,
        l_originated := if originated then max (l_originated l - price) (min 0 b) else l_originated l\<rparr>)"

definition l_payment_received :: "int \<Rightarrow> ledger \<Rightarrow> ledger" where
  "l_payment_received amount l =
     (if l_balance l \<le> 0 then l\<lparr>l_surplus := l_surplus l + amount\<rparr>
      else l\<lparr>l_balance := max 0 (l_balance l - amount),
             l_surplus := l_surplus l + max 0 (amount - l_balance l)\<rparr>)"

definition l_refreshment_received :: "int \<Rightarrow> ledger \<Rightarrow> ledger" where
  "l_refreshment_received amount l = l\<lparr>l_balance := l_balance l - amount\<rparr>"

definition l_debit :: "int \<Rightarrow> ledger \<Rightarrow> ledger" where
  "l_debit price l =
     (if 0 < l_surplus l \<and> price \<le> l_surplus l then l\<lparr>l_surplus := l_surplus l - price\<rparr>
      else let b = l_balance l + price - l_surplus l in
           l_limit b (l\<lparr>l_balance := b, l_surplus := 0\<rparr>))"

definition l_payment_sent :: "int \<Rightarrow> ledger \<Rightarrow> ledger" where
  "l_payment_sent amount l =
     l\<lparr>l_balance := l_balance l + amount, l_originated := l_originated l + amount\<rparr>"

section \<open>The operations refine the ledger\<close>

lemma put_int_Some: "put_int S k v m a = (Some e, a') \<Longrightarrow> a' = a"
  by (simp add: put_int_def split: sum.splits)

locale balance_store = state_store S look
  for S :: "('s, int) StateStorer" and look :: "'s \<Rightarrow> string \<Rightarrow> int option"
begin

lemma Balance_look:
  "or_zero (Balance S peer a) = Inr b \<Longrightarrow> l_balance (ledger_of look (acc_store a) peer) = b"
  using get_some [of "peerBalanceKey peer" "acc_store a"]
    get_none [of "peerBalanceKey peer" "acc_store a"]
  by (auto simp: or_zero_Inr Balance_def ledger_of_def split: sum.splits store_error.splits)

lemma OriginatedBalance_look:
  "or_zero (OriginatedBalance S peer a) = Inr b \<Longrightarrow>
   l_originated (ledger_of look (acc_store a) peer) = b"
  using get_some [of "originatedBalanceKey peer" "acc_store a"]
    get_none [of "originatedBalanceKey peer" "acc_store a"]
  by (auto simp: or_zero_Inr OriginatedBalance_def ledger_of_def split: sum.splits store_error.splits)

lemma SurplusBalance_look:
  "SurplusBalance S peer a = Inr b \<Longrightarrow>
   l_surplus (ledger_of look (acc_store a) peer) = b \<and> 0 \<le> b"
  using get_some [of "peerSurplusBalanceKey peer" "acc_store a"]
    get_none [of "peerSurplusBalanceKey peer" "acc_store a"]
  by (auto simp: SurplusBalance_def ledger_of_def
      split: sum.splits store_error.splits if_splits)

lemma put_int_None:
  assumes "put_int S k v m a = (None, a')"
  obtains s' where "a' = a\<lparr>acc_store := s'\<rparr>" "look s' = (look (acc_store a))(k \<mapsto> v)"
  using assms put_look by (auto simp: put_int_def split: sum.splits)

lemma put_balance:
  assumes "put_int S (peerBalanceKey peer) v m a = (None, a')"
  shows "ledger_of look (acc_store a') q = (if q = peer
      then (ledger_of look (acc_store a) peer)\<lparr>l_balance := v\<rparr> else ledger_of look (acc_store a) q)
    \<and> peer_of q a' = peer_of q a"
  using assms by (elim put_int_None) (auto simp: ledger_of_def)

lemma put_surplus:
  assumes "put_int S (peerSurplusBalanceKey peer) v m a = (None, a')"
  shows "ledger_of look (acc_store a') q = (if q = peer
      then (ledger_of look (acc_store a) peer)\<lparr>l_surplus := v\<rparr> else ledger_of look (acc_store a) q)
    \<and> peer_of q a' = peer_of q a"
  using assms by (elim put_int_None) (auto simp: ledger_of_def)

lemma put_originated:
  assumes "put_int S (originatedBalanceKey peer) v m a = (None, a')"
  shows "ledger_of look (acc_store a') q = (if q = peer
      then (ledger_of look (acc_store a) peer)\<lparr>l_originated := v\<rparr> else ledger_of look (acc_store a) q)
    \<and> peer_of q a' = peer_of q a"
  using assms by (elim put_int_None) (auto simp: ledger_of_def)

lemma decreaseTo_ledger:
  assumes "decreaseOriginatedBalanceTo S peer limit a = (None, a')"
  shows "ledger_of look (acc_store a') q = (if q = peer
      then l_limit limit (ledger_of look (acc_store a) peer) else ledger_of look (acc_store a) q)
    \<and> peer_of q a' = peer_of q a"
proof -
  obtain ob where ob: "or_zero (OriginatedBalance S peer a) = Inr ob"
    using assms by (auto simp: decreaseOriginatedBalanceTo_def split: sum.splits)
  define t where "t = (if 0 < limit then 0 else limit)"
  have l: "l_limit limit (ledger_of look (acc_store a) peer) =
      (ledger_of look (acc_store a) peer)\<lparr>l_originated := max ob t\<rparr>"
    using OriginatedBalance_look [OF ob] by (auto simp: l_limit_def t_def)
  show ?thesis
  proof (cases "ob < t")
    case True
    then have "put_int S (originatedBalanceKey peer) t ''failed to persist originated balance'' a = (None, a')"
      using assms ob by (simp add: decreaseOriginatedBalanceTo_def t_def)
    from put_originated [OF this, of q] True show ?thesis by (simp add: l)
  next
    case False
    then have "a' = a" using assms ob by (simp add: decreaseOriginatedBalanceTo_def t_def)
    with False OriginatedBalance_look [OF ob] show ?thesis by (simp add: l max_def)
  qed
qed

lemma decreaseBy_ledger:
  assumes "decreaseOriginatedBalanceBy S peer amount a = (None, a')"
  shows "ledger_of look (acc_store a') q = (if q = peer
      then (ledger_of look (acc_store a) peer)
        \<lparr>l_originated := l_originated (ledger_of look (acc_store a) peer) + amount\<rparr>
      else ledger_of look (acc_store a) q)"
proof -
  obtain ob where ob: "or_zero (OriginatedBalance S peer a) = Inr ob"
    using assms by (auto simp: decreaseOriginatedBalanceBy_def split: sum.splits)
  then have "put_int S (originatedBalanceKey peer) (ob + amount)
      ''failed to persist originated balance'' a = (None, a')"
    using assms by (simp add: decreaseOriginatedBalanceBy_def)
  from put_originated [OF this, of q] OriginatedBalance_look [OF ob] show ?thesis by simp
qed

lemma Credit_ledger:
  assumes "Credit S peer price originated a = (None, a')"
  shows "ledger_of look (acc_store a') q = (if q = peer
      then l_credit (uint price) originated (ledger_of look (acc_store a) peer)
      else ledger_of look (acc_store a) q) \<and> peer_of q a' = peer_of q a"
proof -
  obtain b where b: "or_zero (Balance S peer (touch peer a)) = Inr b"
    using assms by (auto simp: Credit_def getAccountingPeer_touch split: sum.splits)
  obtain r a1 where put1: "put_int S (peerBalanceKey peer) (b - uint price)
      ''failed to persist balance'' (touch peer a) = (r, a1)" by fastforce
  with assms b have r: "r = None"
    by (auto simp: Credit_def getAccountingPeer_touch Let_def split: option.splits)
  note l1 = put_balance [OF put1 [unfolded r]] and bal = Balance_look [OF b]
  show ?thesis
  proof (cases originated)
    case False
    then have "a' = a1" using assms b put1 r
      by (simp add: Credit_def getAccountingPeer_touch Let_def)
    with l1 [of q] bal False show ?thesis by (simp add: l_credit_def Let_def)
  next
    case True
    obtain ob where ob: "or_zero (OriginatedBalance S peer a1) = Inr ob"
      using assms b put1 r True
      by (auto simp: Credit_def getAccountingPeer_touch Let_def split: sum.splits)
    define m where "m = (let lim = (if 0 < b - uint price then 0 else b - uint price) in
      if ob - uint price < lim then lim else ob - uint price)"
    have m: "m = max (ob - uint price) (min 0 (b - uint price))"
      by (auto simp: m_def Let_def)
    have "put_int S (originatedBalanceKey peer) m ''failed to persist originated balance'' a1 = (None, a')"
      using assms b put1 r True ob
      by (simp add: Credit_def getAccountingPeer_touch Let_def m_def)
    from put_originated [OF this, of q] l1 [of q] bal OriginatedBalance_look [OF ob] l1 [of peer] True
    show ?thesis by (auto simp: l_credit_def Let_def m)
  qed
qed

lemma grow_surplus_ledger:
  assumes "grow_surplus S peer amount a = (None, a')"
  shows "ledger_of look (acc_store a') q = (if q = peer
      then (ledger_of look (acc_store a) peer)
        \<lparr>l_surplus := l_surplus (ledger_of look (acc_store a) peer) + amount\<rparr>
      else ledger_of look (acc_store a) q) \<and> peer_of q a' = peer_of q a"
proof -
  obtain x where x: "SurplusBalance S peer a = Inr x"
    using assms by (auto simp: grow_surplus_def split: sum.splits)
  then have "put_int S (peerSurplusBalanceKey peer) (x + amount)
      ''failed to persist surplus balance'' a = (None, a')"
    using assms by (simp add: grow_surplus_def)
  from put_surplus [OF this, of q] SurplusBalance_look [OF x] show ?thesis by simp
qed

lemma NotifyPaymentReceived_ledger:
  assumes "NotifyPaymentReceived S peer amount a = (None, a')"
  shows "ledger_of look (acc_store a') q = (if q = peer
      then l_payment_received amount (ledger_of look (acc_store a) peer)
      else ledger_of look (acc_store a) q) \<and> peer_of q a' = peer_of q a"
proof -
  obtain b where b: "or_zero (Balance S peer (touch peer a)) = Inr b"
    using assms by (auto simp: NotifyPaymentReceived_def getAccountingPeer_touch split: sum.splits)
  note bal = Balance_look [OF b, simplified]
  show ?thesis
  proof (cases "b \<le> 0")
    case True
    then have "grow_surplus S peer amount (touch peer a) = (None, a')"
      using assms b by (simp add: NotifyPaymentReceived_def getAccountingPeer_touch)
    from grow_surplus_ledger [OF this, of q] bal True show ?thesis
      by (simp add: l_payment_received_def)
  next
    case False
    define nb where "nb = (if b - amount < 0 then 0 else b - amount)"
    obtain r a1 where put1: "put_int S (peerBalanceKey peer) nb ''failed to persist balance''
        (touch peer a) = (r, a1)" by fastforce
    with assms b False have r: "r = None"
      by (auto simp: NotifyPaymentReceived_def getAccountingPeer_touch Let_def nb_def
          split: option.splits)
    note l1 = put_balance [OF put1 [unfolded r]]
    show ?thesis
    proof (cases "b - amount < 0")
      case True
      then have "grow_surplus S peer (amount - b) a1 = (None, a')"
        using assms b put1 r False
        by (simp add: NotifyPaymentReceived_def getAccountingPeer_touch Let_def nb_def)
      from grow_surplus_ledger [OF this, of q] l1 [of q] l1 [of peer] bal False True show ?thesis
        by (simp add: l_payment_received_def nb_def)
    next
      case nonneg: False
      then have "a' = a1"
        using assms b put1 r False
        by (simp add: NotifyPaymentReceived_def getAccountingPeer_touch Let_def nb_def)
      with l1 [of q] bal False nonneg show ?thesis by (simp add: l_payment_received_def nb_def)
    qed
  qed
qed

lemma NotifyRefreshmentReceived_ledger:
  assumes "NotifyRefreshmentReceived S peer amount a = (None, a')"
  shows "ledger_of look (acc_store a') q = (if q = peer
      then l_refreshment_received amount (ledger_of look (acc_store a) peer)
      else ledger_of look (acc_store a) q) \<and> peer_of q a' = peer_of q a"
proof -
  obtain b where b: "or_zero (Balance S peer (touch peer a)) = Inr b"
    using assms by (auto simp: NotifyRefreshmentReceived_def getAccountingPeer_touch split: sum.splits)
  then have "put_int S (peerBalanceKey peer) (b - amount) ''failed to persist balance''
      (touch peer a) = (None, a')"
    using assms by (simp add: NotifyRefreshmentReceived_def getAccountingPeer_touch)
  from put_balance [OF this, of q] Balance_look [OF b] show ?thesis
    by (simp add: l_refreshment_received_def)
qed

text \<open>A debit writes the originated balance last and only logs when that fails.\<close>

lemma decreaseTo_any:
  assumes "decreaseOriginatedBalanceTo S peer limit a = (r, a')"
  shows "(\<exists>ob. ledger_of look (acc_store a') q = (if q = peer
      then (ledger_of look (acc_store a) peer)\<lparr>l_originated := ob\<rparr>
      else ledger_of look (acc_store a) q)) \<and> peer_of q a' = peer_of q a
      \<and> refreshRate a' = refreshRate a \<and> disconnectLimit a' = disconnectLimit a"
proof (cases r)
  case None
  with assms have "decreaseOriginatedBalanceTo S peer limit a = (None, a')" by simp
  from decreaseTo_ledger [OF this, of q] show ?thesis
    using assms None by (auto simp: l_limit_def decreaseOriginatedBalanceTo_def put_int_def Let_def
        split: sum.splits if_splits)
next
  case (Some e)
  then have "a' = a" using assms
    by (auto simp: decreaseOriginatedBalanceTo_def put_int_def Let_def split: sum.splits if_splits)
  then show ?thesis by (auto intro: exI [of _ "l_originated (ledger_of look (acc_store a) peer)"])
qed

lemma debit_balance_ledger:
  assumes "debit_balance S peer cost a = (Inr b', a')"
  shows "b' = l_balance (ledger_of look (acc_store a) peer) + cost
    \<and> (\<exists>ob. ledger_of look (acc_store a') peer =
      (ledger_of look (acc_store a) peer)\<lparr>l_balance := b', l_originated := ob\<rparr>)
    \<and> (\<forall>q. peer_of q a' = peer_of q a
      \<and> (q \<noteq> peer \<longrightarrow> ledger_of look (acc_store a') q = ledger_of look (acc_store a) q))"
proof -
  obtain b where b: "or_zero (Balance S peer a) = Inr b"
    using assms by (auto simp: debit_balance_def split: sum.splits)
  obtain r a1 where put1: "put_int S (peerBalanceKey peer) (b + cost) ''failed to persist balance'' a
      = (r, a1)" by fastforce
  with assms b have r: "r = None"
    by (auto simp: debit_balance_def Let_def split: option.splits)
  obtain r2 where d: "decreaseOriginatedBalanceTo S peer (b + cost) a1 = (r2, a')"
    using assms b put1 r by (auto simp: debit_balance_def Let_def intro: prod.collapse [symmetric])
  have "b' = b + cost" using assms b put1 r by (simp add: debit_balance_def Let_def)
  moreover have "\<exists>ob. ledger_of look (acc_store a') peer =
      (ledger_of look (acc_store a) peer)\<lparr>l_balance := b + cost, l_originated := ob\<rparr>"
    using decreaseTo_any [OF d, of peer] put_balance [OF put1 [unfolded r], of peer] by auto
  moreover have "peer_of q a' = peer_of q a
      \<and> (q \<noteq> peer \<longrightarrow> ledger_of look (acc_store a') q = ledger_of look (acc_store a) q)" for q
    using decreaseTo_any [OF d, of q] put_balance [OF put1 [unfolded r], of q] by auto
  ultimately show ?thesis using Balance_look [OF b] by simp
qed

lemma increaseBalance_ledger:
  assumes inc: "increaseBalance S peer price a = (Inr b', a')" and "0 \<le> price"
  shows "\<exists>ob. ledger_of look (acc_store a') peer =
        (l_debit price (ledger_of look (acc_store a) peer))\<lparr>l_originated := ob\<rparr>
      \<and> b' = l_balance (ledger_of look (acc_store a') peer)
      \<and> (\<forall>q. peer_of q a' = peer_of q a
        \<and> (q \<noteq> peer \<longrightarrow> ledger_of look (acc_store a') q = ledger_of look (acc_store a) q))"
proof -
  define l where "l = ledger_of look (acc_store a) peer"
  obtain x where x: "SurplusBalance S peer a = Inr x"
    using inc by (auto simp: increaseBalance_def split: sum.splits)
  have sur: "l_surplus l = x" "0 \<le> x" using SurplusBalance_look [OF x] by (simp_all add: l_def)
  consider (none) "x = 0" | (full) "0 < x" "price \<le> x" | (part) "0 < x" "x < price"
    using sur by linarith
  then show ?thesis
  proof cases
    case none
    then have d: "debit_balance S peer price a = (Inr b', a')"
      using inc x by (simp add: increaseBalance_def)
    note dl = debit_balance_ledger [OF d, folded l_def]
    then obtain ob where "ledger_of look (acc_store a') peer = l\<lparr>l_balance := b', l_originated := ob\<rparr>"
      by blast
    moreover have "l_debit price l = l_limit b' (l\<lparr>l_balance := b'\<rparr>)"
      using dl sur none by (cases l) (simp add: l_debit_def Let_def)
    ultimately show ?thesis using dl by (intro exI [of _ ob]) (simp add: l_limit_def l_def)
  next
    case full
    obtain r a1 where put1: "put_int S (peerSurplusBalanceKey peer) (x - price)
        ''failed to persist surplus balance'' a = (r, a1)" by fastforce
    with inc x full have r: "r = None" "a' = a1" "Balance S peer a1 = Inr b'"
      by (auto simp: increaseBalance_def Let_def split: option.splits)
    note l1 = put_surplus [OF put1 [unfolded r(1)], folded l_def]
    have "l_balance (ledger_of look (acc_store a1) peer) = b'"
      by (rule Balance_look) (simp add: r or_zero_def)
    then show ?thesis using l1 sur full r
      by (intro exI [of _ "l_originated l"]) (simp add: l_debit_def l_def)
  next
    case part
    obtain r a1 where put1: "put_int S (peerSurplusBalanceKey peer) 0
        ''failed to persist surplus balance'' a = (r, a1)" by fastforce
    with inc x part have r: "r = None" and d: "debit_balance S peer (price - x) a1 = (Inr b', a')"
      by (simp_all add: increaseBalance_def Let_def split: option.splits)
    note l1 = put_surplus [OF put1 [unfolded r], folded l_def]
    note dl = debit_balance_ledger [OF d]
    then obtain ob where ob: "ledger_of look (acc_store a') peer =
        (ledger_of look (acc_store a1) peer)\<lparr>l_balance := b', l_originated := ob\<rparr>" by blast
    have b': "b' = l_balance l + price - x" using dl l1 [of peer] by simp
    have "l_debit price l = l_limit b' (l\<lparr>l_balance := b', l_surplus := 0\<rparr>)"
      using sur part by (simp add: l_debit_def b' Let_def)
    with ob dl l1 show ?thesis
      by (intro exI [of _ ob]) (simp add: l_limit_def l_def)
  qed
qed

end

end
