(* ===== verification/AccountingSafety.thy ===== *)
theory AccountingSafety
  imports Accounting
begin

text \<open>
  What the accounting of \<open>pkg/accounting\<close> guarantees: reservations stay within the payment
  threshold, every operation moves exactly the amounts it is called with, the shadow reserve pairs
  up, and the invariants of all reachable states.
\<close>

section \<open>What the operations leave alone\<close>

lemma put_int_frame:
  "put_int S k v m a = (r, a') \<Longrightarrow> peer_of q a' = peer_of q a \<and> refreshRate a' = refreshRate a
    \<and> disconnectLimit a' = disconnectLimit a \<and> acc_wg a' = acc_wg a \<and> acc_events a' = acc_events a"
  by (auto simp: put_int_def split: sum.splits)

lemma decreaseTo_frame:
  "decreaseOriginatedBalanceTo S peer l a = (r, a') \<Longrightarrow> peer_of q a' = peer_of q a
    \<and> refreshRate a' = refreshRate a \<and> disconnectLimit a' = disconnectLimit a \<and> acc_wg a' = acc_wg a"
  by (auto simp: decreaseOriginatedBalanceTo_def Let_def dest: put_int_frame
      split: sum.splits if_splits)

lemma decreaseBy_frame:
  "decreaseOriginatedBalanceBy S peer l a = (r, a') \<Longrightarrow> peer_of q a' = peer_of q a
    \<and> refreshRate a' = refreshRate a \<and> disconnectLimit a' = disconnectLimit a \<and> acc_wg a' = acc_wg a"
  by (auto simp: decreaseOriginatedBalanceBy_def dest: put_int_frame split: sum.splits)

lemma blocklist_frame:
  "blocklist S peer m a = Some a' \<Longrightarrow> peer_of q a' = peer_of q a \<and> acc_store a' = acc_store a"
  by (auto simp: blocklist_def split: option.splits sum.splits)

text \<open>The part of the peer data that settling does not touch.\<close>

definition reserve_part :: "accountingPeer \<Rightarrow> int \<times> int \<times> int \<times> bool" where
  "reserve_part p = (reservedBalance p, ghostBalance p, ap_paymentThreshold p, ap_connected p)"

lemma settle_monetary_frame:
  "settle_monetary S now peer a = (r, a') \<Longrightarrow>
   reserve_part (peer_of q a') = reserve_part (peer_of q a) \<and> acc_store a' = acc_store a"
  by (auto simp: settle_monetary_def Let_def reserve_part_def split: sum.splits if_splits)

lemma settle_frame:
  assumes "settle S refresh now peer a = Some (r, a')"
  shows "reserve_part (peer_of q a') = reserve_part (peer_of q a)"
proof -
  have upd: "reserve_part (p\<lparr>refreshTimestamp := t\<rparr>) = reserve_part p" for p t
    by (simp add: reserve_part_def)
  show ?thesis using assms
    by (auto simp: settle_def Let_def upd
        dest!: settle_monetary_frame [of _ _ _ _ _ _ q] blocklist_frame [of _ _ _ _ _ q]
          put_int_frame [of _ _ _ _ _ _ _ q] decreaseTo_frame [of _ _ _ _ _ _ q]
        split: sum.splits if_splits option.splits prod.splits)
qed

section \<open>Reserve\<close>

context balance_store
begin

lemma getIncreasedExpectedDebt_look:
  assumes "getIncreasedExpectedDebt S peer price a = Inr (d, b)"
  shows "b = l_balance (ledger_of look (acc_store a) peer)
    \<and> 0 \<le> l_surplus (ledger_of look (acc_store a) peer)
    \<and> d = max 0 (- b) + l_surplus (ledger_of look (acc_store a) peer)
      + reservedBalance (peer_of peer a) + price"
  using assms Balance_look SurplusBalance_look
  by (auto simp: getIncreasedExpectedDebt_def Let_def split: sum.splits if_splits)

lemma reserve_commit_ok:
  assumes "reserve_commit peer price d a = (None, a')"
    and "getIncreasedExpectedDebt S peer price a = Inr (d, b)"
  shows "acc_store a' = acc_store a \<and>
    peer_of peer a' = (peer_of peer a)\<lparr>reservedBalance := reservedBalance (peer_of peer a) + price\<rparr>
    \<and> max 0 (- l_balance (ledger_of look (acc_store a') peer))
      + l_surplus (ledger_of look (acc_store a') peer) + reservedBalance (peer_of peer a')
      \<le> ap_paymentThreshold (peer_of peer a')"
  using assms getIncreasedExpectedDebt_look [OF assms(2)]
  by (auto simp: reserve_commit_def split: if_splits)

lemma Reserve_within_threshold:
  assumes "Reserve S refresh now peer price a = Some (None, a')"
  shows "ap_connected (peer_of peer a) \<and>
    reservedBalance (peer_of peer a') = reservedBalance (peer_of peer a) + uint price \<and>
    ap_paymentThreshold (peer_of peer a') = ap_paymentThreshold (peer_of peer a) \<and>
    max 0 (- l_balance (ledger_of look (acc_store a') peer))
      + l_surplus (ledger_of look (acc_store a') peer) + reservedBalance (peer_of peer a')
      \<le> ap_paymentThreshold (peer_of peer a')"
proof -
  have conn: "ap_connected (peer_of peer a)"
    using assms by (auto simp: Reserve_def getAccountingPeer_touch split: if_splits)
  then obtain a1 d b where "getIncreasedExpectedDebt S peer (uint price) a1 = Inr (d, b)"
      "reserve_commit peer (uint price) d a1 = (None, a')"
      "reserve_part (peer_of peer a1) = reserve_part (peer_of peer a)"
    using assms
    by (auto simp: Reserve_def getAccountingPeer_touch Let_def
        dest: settle_frame [of _ _ _ _ _ _ _ peer]
        split: sum.splits if_splits option.splits prod.splits)
  with conn reserve_commit_ok [OF this(2) this(1)] show ?thesis by (auto simp: reserve_part_def)
qed

end

lemma Reserve_error_frame:
  assumes "Reserve S refresh now peer price a = Some (Some e, a')"
  shows "reserve_part (peer_of q a') = reserve_part (peer_of q a)"
  using assms
  by (auto simp: Reserve_def getAccountingPeer_touch Let_def reserve_commit_def
      dest!: settle_frame [of _ _ _ _ _ _ _ q]
      split: sum.splits if_splits option.splits prod.splits)

section \<open>A store that does not fail\<close>

locale reliable_balances = reliable_store S look
  for S :: "('s, int) StateStorer" and look :: "'s \<Rightarrow> string \<Rightarrow> int option"

sublocale reliable_balances \<subseteq> balance_store S look
  by unfold_locales

context reliable_balances
begin

lemma or_zero_Balance:
  "or_zero (Balance S peer a) = Inr (l_balance (ledger_of look (acc_store a) peer))"
  by (auto simp: or_zero_def Balance_def ledger_of_def get_total split: option.splits)

lemma or_zero_OriginatedBalance:
  "or_zero (OriginatedBalance S peer a) = Inr (l_originated (ledger_of look (acc_store a) peer))"
  by (auto simp: or_zero_def OriginatedBalance_def ledger_of_def get_total split: option.splits)

lemma SurplusBalance_ok:
  "0 \<le> l_surplus (ledger_of look (acc_store a) peer) \<Longrightarrow>
   SurplusBalance S peer a = Inr (l_surplus (ledger_of look (acc_store a) peer))"
  by (auto simp: SurplusBalance_def ledger_of_def get_total split: option.splits)

lemma put_int_ok: "\<exists>a'. put_int S k v m a = (None, a')"
  using put_total [of k v "acc_store a"] by (auto simp: put_int_def)

lemma decreaseTo_ok: "\<exists>a'. decreaseOriginatedBalanceTo S peer l a = (None, a')"
  using put_int_ok by (auto simp: decreaseOriginatedBalanceTo_def or_zero_OriginatedBalance Let_def)

lemma decreaseBy_ok: "\<exists>a'. decreaseOriginatedBalanceBy S peer l a = (None, a')"
  using put_int_ok by (auto simp: decreaseOriginatedBalanceBy_def or_zero_OriginatedBalance)

lemma debit_balance_exact:
  assumes "debit_balance S peer cost a = (r, a')"
  shows "\<exists>b'. r = Inr b' \<and> b' = l_balance (ledger_of look (acc_store a) peer) + cost \<and>
    ledger_of look (acc_store a') =
      (ledger_of look (acc_store a))(peer := l_limit b'
        ((ledger_of look (acc_store a) peer)\<lparr>l_balance := b'\<rparr>))"
proof -
  define b' where "b' = l_balance (ledger_of look (acc_store a) peer) + cost"
  obtain a1 where put1: "put_int S (peerBalanceKey peer) b' ''failed to persist balance'' a = (None, a1)"
    using put_int_ok by blast
  obtain a2 where d: "decreaseOriginatedBalanceTo S peer b' a1 = (None, a2)"
    using decreaseTo_ok by blast
  have "r = Inr b'" "a' = a2" using assms put1 d
    by (auto simp: debit_balance_def or_zero_Balance Let_def b'_def)
  with put_balance [OF put1] decreaseTo_ledger [OF d] show ?thesis
    by (auto simp: fun_eq_iff b'_def)
qed

lemma increaseBalance_exact:
  assumes inc: "increaseBalance S peer price a = (Inr b', a')" and "0 \<le> price"
  shows "ledger_of look (acc_store a') =
    (ledger_of look (acc_store a))(peer := l_debit price (ledger_of look (acc_store a) peer))"
proof -
  define l where "l = ledger_of look (acc_store a) peer"
  obtain x where x: "SurplusBalance S peer a = Inr x"
    using inc by (auto simp: increaseBalance_def split: sum.splits)
  have sur: "l_surplus l = x" "0 \<le> x" using SurplusBalance_look [OF x] by (simp_all add: l_def)
  consider (none) "x = 0" | (full) "0 < x" "price \<le> x" | (part) "0 < x" "x < price"
    using sur by linarith
  then show ?thesis
  proof cases
    case none
    then have d: "debit_balance S peer price a = (Inr b', a')"
      using inc x by (simp add: increaseBalance_def)
    have "l_debit price l = l_limit (l_balance l + price) (l\<lparr>l_balance := l_balance l + price\<rparr>)"
      using sur none by (cases l) (simp add: l_debit_def Let_def)
    with debit_balance_exact [OF d] show ?thesis by (simp add: l_def)
  next
    case full
    obtain a1 where put1: "put_int S (peerSurplusBalanceKey peer) (x - price)
        ''failed to persist surplus balance'' a = (None, a1)" using put_int_ok by blast
    then have "a' = a1" using inc x full by (simp add: increaseBalance_def Let_def)
    with put_surplus [OF put1] sur full show ?thesis
      by (auto simp: fun_eq_iff l_debit_def l_def)
  next
    case part
    obtain a1 where put1: "put_int S (peerSurplusBalanceKey peer) 0
        ''failed to persist surplus balance'' a = (None, a1)" using put_int_ok by blast
    then have d: "debit_balance S peer (price - x) a1 = (Inr b', a')"
      using inc x part by (simp add: increaseBalance_def Let_def)
    have f: "ledger_of look (acc_store a1) = (ledger_of look (acc_store a))(peer := l\<lparr>l_surplus := 0\<rparr>)"
      using put_surplus [OF put1] by (auto simp: fun_eq_iff l_def)
    have "l_debit price l = l_limit (l_balance l + price - x)
        (l\<lparr>l_surplus := 0, l_balance := l_balance l + price - x\<rparr>)"
      using sur part by (cases l) (simp add: l_debit_def Let_def)
    with debit_balance_exact [OF d] f show ?thesis by (simp add: l_def add_diff_eq)
  qed
qed

lemma NotifyPaymentSent_ledger:
  assumes "NotifyPaymentSent S now peer amount False a = Some a'"
  shows "ledger_of look (acc_store a') =
    (ledger_of look (acc_store a))(peer := l_payment_sent amount (ledger_of look (acc_store a) peer))"
proof -
  define a0 where "a0 = upd_peer peer (\<lambda>p. p\<lparr>paymentOngoing := False,
    shadowReservedBalance := shadowReservedBalance p - amount\<rparr>) (touch peer a)"
  obtain a1 where put1: "put_int S (peerBalanceKey peer)
      (l_balance (ledger_of look (acc_store a) peer) + amount) [] a0 = (None, a1)"
    using put_int_ok by blast
  obtain a2 where d: "decreaseOriginatedBalanceBy S peer amount a1 = (None, a2)"
    using decreaseBy_ok by blast
  have st: "acc_store a0 = acc_store a" by (simp add: a0_def)
  have "acc_store a' = acc_store a2" using assms put1 d
    by (auto simp: NotifyPaymentSent_def getAccountingPeer_touch Let_def or_zero_Balance st
        simp flip: a0_def split: if_splits)
  with put_balance [OF put1] decreaseBy_ledger [OF d] st show ?thesis
    by (auto simp: fun_eq_iff l_payment_sent_def)
qed

end

interpretation inmem_balances: reliable_balances InMem "map_of :: int mem \<Rightarrow> string \<Rightarrow> int option"
  by unfold_locales

section \<open>Reachable states\<close>

text \<open>
  One step is one call on the component, whatever it returns; \<open>ds\<close> are the debit actions handed out
  and not cleaned up yet. Payments that arrive have a non-negative amount; every other argument, the
  clock, the refreshments and the faults of the store are arbitrary.
\<close>

inductive acc_step ::
  "('s, int) StateStorer \<Rightarrow> 's Accounting \<times> debitAction list \<Rightarrow> 's Accounting \<times> debitAction list \<Rightarrow> bool"
  for S where
  step_reserve: "Reserve S refresh now peer price a = Some (r, a') \<Longrightarrow> acc_step S (a, ds) (a', ds)"
| step_release: "acc_step S (a, ds) (Release peer price a, ds)"
| step_credit: "Credit S peer price originated a = (r, a') \<Longrightarrow> acc_step S (a, ds) (a', ds)"
| step_sent: "NotifyPaymentSent S now peer amount failed a = Some a' \<Longrightarrow> acc_step S (a, ds) (a', ds)"
| step_threshold: "acc_step S (a, ds) (NotifyPaymentThreshold peer t a, ds)"
| step_received: "0 \<le> amount \<Longrightarrow> NotifyPaymentReceived S peer amount a = (r, a') \<Longrightarrow>
    acc_step S (a, ds) (a', ds)"
| step_refreshed: "NotifyRefreshmentReceived S peer amount a = (r, a') \<Longrightarrow> acc_step S (a, ds) (a', ds)"
| step_prepare: "PrepareDebit peer price a = (Inr d, a') \<Longrightarrow> acc_step S (a, ds) (a', d # ds)"
| step_prepare_fail: "PrepareDebit peer price a = (Inl e, a') \<Longrightarrow> acc_step S (a, ds) (a', ds)"
| step_apply: "Apply S d a = Some (r, d', a') \<Longrightarrow> acc_step S (a, ds @ d # ds') (a', ds @ d' # ds')"
| step_cleanup: "Cleanup S d a = Some a' \<Longrightarrow> acc_step S (a, ds @ d # ds') (a', ds @ ds')"
| step_connect: "acc_step S (a, ds) (acc_Connect S peer a, ds)"
| step_disconnect: "acc_Disconnect S peer a = Some a' \<Longrightarrow> acc_step S (a, ds) (a', ds)"
| step_debt: "PeerDebt S peer a = (r, a') \<Longrightarrow> acc_step S (a, ds) (a', ds)"

definition surplus_ok :: "('s \<Rightarrow> string \<Rightarrow> int option) \<Rightarrow> 's \<Rightarrow> bool" where
  "surplus_ok look s \<longleftrightarrow> (\<forall>q v. look s (peerSurplusBalanceKey q) = Some v \<longrightarrow> 0 \<le> v)"

definition peer_ok :: "accountingPeer \<Rightarrow> bool" where
  "peer_ok p \<longleftrightarrow> 0 \<le> reservedBalance p \<and> 0 \<le> ghostBalance p"

definition acc_inv ::
  "('s \<Rightarrow> string \<Rightarrow> int option) \<Rightarrow> 's Accounting \<times> debitAction list \<Rightarrow> bool" where
  "acc_inv look x \<longleftrightarrow> surplus_ok look (acc_store (fst x)) \<and> (\<forall>q. peer_ok (peer_of q (fst x)))
     \<and> (\<forall>d \<in> set (snd x). 0 \<le> da_price d)"

text \<open>Every operation keeps the in-memory amounts non-negative.\<close>

lemma peer_ok_reserve_part: "reserve_part p' = reserve_part p \<Longrightarrow> peer_ok p' \<longleftrightarrow> peer_ok p"
  by (simp add: reserve_part_def peer_ok_def)

lemma uint_nonneg: "0 \<le> uint (w :: u64)"
  by simp

lemma Reserve_ok_cases:
  assumes "Reserve S refresh now peer price a = Some (None, a')"
  shows "\<exists>a1 d. reserve_commit peer (uint price) d a1 = (None, a')
    \<and> reserve_part (peer_of q a1) = reserve_part (peer_of q a)"
  using assms
  by (auto simp: Reserve_def getAccountingPeer_touch Let_def
      dest!: settle_frame [of _ _ _ _ _ _ _ q]
      split: sum.splits if_splits option.splits prod.splits)

lemma Reserve_peer_ok:
  assumes "Reserve S refresh now peer price a = Some (r, a')" and "peer_ok (peer_of q a)"
  shows "peer_ok (peer_of q a')"
proof (cases r)
  case None
  with assms obtain a1 d where "reserve_commit peer (uint price) d a1 = (None, a')"
      "reserve_part (peer_of q a1) = reserve_part (peer_of q a)"
    using Reserve_ok_cases by blast
  then show ?thesis using assms(2)
    by (auto simp: reserve_commit_def reserve_part_def peer_ok_def split: if_splits)
next
  case (Some e)
  with assms show ?thesis using Reserve_error_frame [of S refresh now peer price a e a' q]
      peer_ok_reserve_part by blast
qed

lemma put_int_snd [simp]:
  "peer_of q (snd (put_int S k v m a)) = peer_of q a"
  "refreshRate (snd (put_int S k v m a)) = refreshRate a"
  "disconnectLimit (snd (put_int S k v m a)) = disconnectLimit a"
  by (simp_all add: put_int_def split: sum.splits)

lemma decreaseTo_snd [simp]:
  "peer_of q (snd (decreaseOriginatedBalanceTo S peer l a)) = peer_of q a"
  "refreshRate (snd (decreaseOriginatedBalanceTo S peer l a)) = refreshRate a"
  "disconnectLimit (snd (decreaseOriginatedBalanceTo S peer l a)) = disconnectLimit a"
  by (simp_all add: decreaseOriginatedBalanceTo_def Let_def split: sum.splits)

lemma decreaseBy_snd [simp]:
  "peer_of q (snd (decreaseOriginatedBalanceBy S peer l a)) = peer_of q a"
  by (simp add: decreaseOriginatedBalanceBy_def Let_def split: sum.splits)

lemma debit_frame:
  "debit_balance S peer c a = (r, a') \<Longrightarrow> peer_of q a' = peer_of q a
    \<and> refreshRate a' = refreshRate a \<and> disconnectLimit a' = disconnectLimit a"
  by (auto simp: debit_balance_def Let_def dest!: put_int_frame [of _ _ _ _ _ _ _ q]
      split: sum.splits prod.splits option.splits)

lemma increaseBalance_frame:
  "increaseBalance S peer c a = (r, a') \<Longrightarrow> peer_of q a' = peer_of q a
    \<and> refreshRate a' = refreshRate a \<and> disconnectLimit a' = disconnectLimit a"
  by (auto simp: increaseBalance_def Let_def dest!: put_int_frame [of _ _ _ _ _ _ _ q]
      debit_frame [of _ _ _ _ _ _ q]
      split: sum.splits prod.splits option.splits if_splits)

lemma grow_surplus_frame: "grow_surplus S peer c a = (r, a') \<Longrightarrow> peer_of q a' = peer_of q a"
  by (auto simp: grow_surplus_def dest!: put_int_frame [of _ _ _ _ _ _ _ q] split: sum.splits)

lemma Credit_frame: "Credit S peer price o' a = (r, a') \<Longrightarrow> peer_of q a' = peer_of q a"
  by (auto simp: Credit_def getAccountingPeer_touch Let_def dest!: put_int_frame [of _ _ _ _ _ _ _ q]
      split: sum.splits option.splits prod.splits if_splits)

lemma NotifyPaymentReceived_frame:
  "NotifyPaymentReceived S peer amount a = (r, a') \<Longrightarrow> peer_of q a' = peer_of q a"
  by (auto simp: NotifyPaymentReceived_def getAccountingPeer_touch Let_def
      dest!: put_int_frame [of _ _ _ _ _ _ _ q] grow_surplus_frame [of _ _ _ _ _ _ q]
      split: sum.splits option.splits prod.splits if_splits)

lemma NotifyRefreshmentReceived_frame:
  "NotifyRefreshmentReceived S peer amount a = (r, a') \<Longrightarrow> peer_of q a' = peer_of q a"
  by (auto simp: NotifyRefreshmentReceived_def getAccountingPeer_touch
      dest!: put_int_frame [of _ _ _ _ _ _ _ q] split: sum.splits)

lemma NotifyPaymentSent_frame:
  "NotifyPaymentSent S now peer amount failed a = Some a' \<Longrightarrow>
   reserve_part (peer_of q a') = reserve_part (peer_of q a)"
  by (auto simp: NotifyPaymentSent_def getAccountingPeer_touch Let_def reserve_part_def
      dest!: put_int_frame [of _ _ _ _ _ _ _ q]
      split: sum.splits option.splits prod.splits if_splits)

lemma Apply_peer:
  assumes "Apply S d a = Some (r, d', a')"
  shows "reserve_part (peer_of q a') = reserve_part (peer_of q a) \<and> da_price d' = da_price d"
proof -
  obtain x a1 where i: "increaseBalance S (da_peer d) (da_price d) a = (x, a1)" by fastforce
  show ?thesis using assms increaseBalance_frame [OF i]
    by (auto simp: Apply_def i Let_def reserve_part_def split: sum.splits option.splits if_splits)
qed

lemma Cleanup_peer_ok:
  assumes "Cleanup S d a = Some a'" "0 \<le> da_price d" "peer_ok (peer_of q a)"
  shows "peer_ok (peer_of q a') \<and> acc_store a' = acc_store a"
  using assms by (auto simp: Cleanup_def Let_def peer_ok_def dest!: blocklist_frame [of _ _ _ _ _ q]
      split: if_splits)

lemma Release_peer: "peer_ok (peer_of q a) \<Longrightarrow> peer_ok (peer_of q (Release peer price a))"
  by (auto simp: Release_def getAccountingPeer_touch peer_ok_def Let_def)

lemma NotifyPaymentThreshold_peer:
  "peer_ok (peer_of q (NotifyPaymentThreshold peer t a)) = peer_ok (peer_of q a)"
  by (simp add: NotifyPaymentThreshold_def touch_def [symmetric] peer_ok_def)

lemma PrepareDebit_peer:
  "PrepareDebit peer price a = (r, a') \<Longrightarrow>
   reserve_part (peer_of q a') = reserve_part (peer_of q a) \<and> acc_store a' = acc_store a
   \<and> (\<forall>d. r = Inr d \<longrightarrow> 0 \<le> da_price d)"
  by (auto simp: PrepareDebit_def getAccountingPeer_touch reserve_part_def Let_def split: if_splits)

lemma acc_Connect_peer: "peer_ok (peer_of q a) \<Longrightarrow> peer_ok (peer_of q (acc_Connect S peer a))"
  by (simp add: acc_Connect_def touch_def [symmetric] peer_ok_def Let_def)

lemma acc_Disconnect_peer:
  "acc_Disconnect S peer a = Some a' \<Longrightarrow>
   peer_ok (peer_of q a') = peer_ok (peer_of q a) \<and> acc_store a' = acc_store a"
  by (auto simp: acc_Disconnect_def getAccountingPeer_touch peer_ok_def Let_def
      split: if_splits option.splits)

lemma PeerDebt_peer:
  "PeerDebt S peer a = (r, a') \<Longrightarrow> peer_of q a' = peer_of q a \<and> acc_store a' = acc_store a"
  by (auto simp: PeerDebt_def getAccountingPeer_touch Let_def split: sum.splits)

lemma acc_step_peer_ok:
  assumes "acc_step S x y" and "\<forall>q. peer_ok (peer_of q (fst x))" and "\<forall>d \<in> set (snd x). 0 \<le> da_price d"
  shows "(\<forall>q. peer_ok (peer_of q (fst y))) \<and> (\<forall>d \<in> set (snd y). 0 \<le> da_price d)"
  using assms
proof (induction rule: acc_step.induct)
  case (step_reserve refresh now peer price a r a' ds)
  then show ?case using Reserve_peer_ok [OF step_reserve(1)] by simp
next
  case (step_release a ds peer price)
  then show ?case by (simp add: Release_peer)
next
  case (step_credit peer price originated a r a' ds)
  then show ?case by (simp add: Credit_frame [OF step_credit(1)])
next
  case (step_sent now peer amount failed a a' ds)
  then show ?case using peer_ok_reserve_part [OF NotifyPaymentSent_frame [OF step_sent(1)]] by simp
next
  case (step_threshold a ds peer t)
  then show ?case by (simp add: NotifyPaymentThreshold_peer)
next
  case (step_received amount peer a r a' ds)
  then show ?case by (simp add: NotifyPaymentReceived_frame [OF step_received(2)])
next
  case (step_refreshed peer amount a r a' ds)
  then show ?case by (simp add: NotifyRefreshmentReceived_frame [OF step_refreshed(1)])
next
  case (step_prepare peer price a d a' ds)
  note f = PrepareDebit_peer [OF step_prepare(1)]
  show ?case using step_prepare(2,3) f peer_ok_reserve_part [OF conjunct1 [OF f]] by simp
next
  case (step_prepare_fail peer price a e a' ds)
  note f = PrepareDebit_peer [OF step_prepare_fail(1)]
  show ?case using step_prepare_fail(2,3) peer_ok_reserve_part [OF conjunct1 [OF f]] by simp
next
  case (step_apply d a r d' a' ds ds')
  note f = Apply_peer [OF step_apply(1)]
  show ?case using step_apply(2,3) f peer_ok_reserve_part [OF conjunct1 [OF f]] by auto
next
  case (step_cleanup d a a' ds ds')
  then show ?case using Cleanup_peer_ok [OF step_cleanup(1)] by auto
next
  case (step_connect a ds peer)
  then show ?case by (simp add: acc_Connect_peer)
next
  case (step_disconnect peer a a' ds)
  then show ?case by (simp add: acc_Disconnect_peer [OF step_disconnect(1)])
next
  case (step_debt peer a r a' ds)
  then show ?case by (simp add: PeerDebt_peer [OF step_debt(1)])
qed

section \<open>The surplus stays non-negative\<close>

context balance_store
begin

lemma put_int_surplus_ok:
  assumes "put_int S k v m a = (r, a')" and "surplus_ok look (acc_store a)"
    and "\<And>q. k = peerSurplusBalanceKey q \<Longrightarrow> 0 \<le> v"
  shows "surplus_ok look (acc_store a')"
  using assms put_look [of k v "acc_store a"]
  by (auto simp: put_int_def surplus_ok_def split: sum.splits if_splits)

lemma put_balance_surplus_ok:
  "put_int S (peerBalanceKey peer) v m a = (r, a') \<Longrightarrow> surplus_ok look (acc_store a) \<Longrightarrow>
   surplus_ok look (acc_store a')"
  by (erule put_int_surplus_ok) auto

lemma decreaseTo_surplus_ok:
  assumes "decreaseOriginatedBalanceTo S peer l a = (r, a')" and "surplus_ok look (acc_store a)"
  shows "surplus_ok look (acc_store a')"
  using assms by (auto simp: decreaseOriginatedBalanceTo_def Let_def elim: put_int_surplus_ok
      split: sum.splits if_splits)

lemma decreaseBy_surplus_ok:
  assumes "decreaseOriginatedBalanceBy S peer l a = (r, a')" and "surplus_ok look (acc_store a)"
  shows "surplus_ok look (acc_store a')"
  using assms by (auto simp: decreaseOriginatedBalanceBy_def Let_def elim: put_int_surplus_ok
      split: sum.splits)

lemma settle_surplus_ok:
  assumes "settle S refresh now peer a = Some (r, a')" and "surplus_ok look (acc_store a)"
  shows "surplus_ok look (acc_store a')"
proof -
  have put: "surplus_ok look (acc_store b')"
    if "put_int S (peerBalanceKey peer) v m (upd_peer peer f a) = (r', b')" for v m f r' b'
    using put_int_surplus_ok [OF that] assms(2) by simp
  have mon: "surplus_ok look (acc_store b')" if "settle_monetary S now peer b = (r', b')"
    "surplus_ok look (acc_store b)" for b r' b'
    using settle_monetary_frame [OF that(1)] that(2) by simp
  have bl: "surplus_ok look (acc_store b')" if "blocklist S peer 1 a = Some b'" for b'
    using blocklist_frame [OF that] assms(2) by simp
  show ?thesis using assms
    by (auto simp: settle_def Let_def dest!: bl intro: assms(2) put decreaseTo_surplus_ok
        elim!: mon decreaseTo_surplus_ok
        split: sum.splits if_splits option.splits prod.splits)
qed

lemma Reserve_surplus_ok:
  assumes "Reserve S refresh now peer price a = Some (r, a')" and "surplus_ok look (acc_store a)"
  shows "surplus_ok look (acc_store a')"
proof -
  have set: "surplus_ok look (acc_store b)" if "settle S refresh now peer (touch peer a) = Some (r', b)"
    for r' b using settle_surplus_ok [OF that] assms(2) by simp
  have commit: "acc_store b' = acc_store b" if "reserve_commit peer p d b = (r', b')" for p d b r' b'
    using that by (auto simp: reserve_commit_def split: if_splits)
  show ?thesis using assms
    by (auto simp: Reserve_def getAccountingPeer_touch Let_def dest!: commit intro: set
        split: sum.splits if_splits option.splits prod.splits)
qed

lemma Credit_surplus_ok:
  assumes "Credit S peer price o' a = (r, a')" and "surplus_ok look (acc_store a)"
  shows "surplus_ok look (acc_store a')"
  using assms
  by (auto simp: Credit_def getAccountingPeer_touch Let_def elim!: put_int_surplus_ok
      split: sum.splits option.splits prod.splits if_splits)

lemma NotifyPaymentSent_surplus_ok:
  assumes "NotifyPaymentSent S now peer amount failed a = Some a'" and "surplus_ok look (acc_store a)"
  shows "surplus_ok look (acc_store a')"
  using assms
  by (auto simp: NotifyPaymentSent_def getAccountingPeer_touch Let_def
      intro!: decreaseBy_surplus_ok [OF prod.collapse [symmetric]] elim!: put_balance_surplus_ok
      split: sum.splits option.splits prod.splits if_splits)

lemma grow_surplus_ok:
  assumes "grow_surplus S peer amount a = (r, a')" and "surplus_ok look (acc_store a)" and "0 \<le> amount"
  shows "surplus_ok look (acc_store a')"
  using assms SurplusBalance_look
  by (auto simp: grow_surplus_def elim!: put_int_surplus_ok split: sum.splits)

lemma NotifyPaymentReceived_surplus_ok:
  assumes "NotifyPaymentReceived S peer amount a = (r, a')" and "surplus_ok look (acc_store a)"
    and "0 \<le> amount"
  shows "surplus_ok look (acc_store a')"
  using assms
  by (auto simp: NotifyPaymentReceived_def getAccountingPeer_touch Let_def
      elim!: grow_surplus_ok put_int_surplus_ok
      split: sum.splits option.splits prod.splits if_splits)

lemma NotifyRefreshmentReceived_surplus_ok:
  assumes "NotifyRefreshmentReceived S peer amount a = (r, a')" and "surplus_ok look (acc_store a)"
  shows "surplus_ok look (acc_store a')"
  using assms
  by (auto simp: NotifyRefreshmentReceived_def getAccountingPeer_touch elim!: put_int_surplus_ok
      split: sum.splits)

lemma debit_surplus_ok:
  assumes "debit_balance S peer cost a = (r, a')" and "surplus_ok look (acc_store a)"
  shows "surplus_ok look (acc_store a')"
  using assms
  by (auto simp: debit_balance_def Let_def
      intro!: decreaseTo_surplus_ok [OF prod.collapse [symmetric]] elim!: put_balance_surplus_ok
      split: sum.splits option.splits prod.splits)

lemma increaseBalance_surplus_ok:
  assumes "increaseBalance S peer price a = (r, a')" and "surplus_ok look (acc_store a)"
  shows "surplus_ok look (acc_store a')"
  using assms
  by (auto simp: increaseBalance_def Let_def elim!: debit_surplus_ok put_int_surplus_ok
      split: sum.splits option.splits prod.splits if_splits)

lemma Apply_surplus_ok:
  assumes "Apply S d a = Some (r, d', a')" and "surplus_ok look (acc_store a)"
  shows "surplus_ok look (acc_store a')"
proof -
  obtain x a1 where i: "increaseBalance S (da_peer d) (da_price d) a = (x, a1)" by fastforce
  have "acc_store a' = acc_store a1" using assms(1)
    by (auto simp: Apply_def i Let_def split: sum.splits option.splits if_splits)
  with increaseBalance_surplus_ok [OF i assms(2)] show ?thesis by simp
qed

lemma acc_Connect_surplus_ok:
  assumes "surplus_ok look (acc_store a)"
  shows "surplus_ok look (acc_store (acc_Connect S peer a))"
  using assms unfolding acc_Connect_def Let_def touch_def [symmetric]
  by (auto intro!: put_int_surplus_ok [OF prod.collapse [symmetric]])

lemma acc_step_surplus_ok:
  assumes "acc_step S x y" and "surplus_ok look (acc_store (fst x))"
  shows "surplus_ok look (acc_store (fst y))"
  using assms
proof (induction rule: acc_step.induct)
  case (step_cleanup d a a' ds ds')
  then have "acc_store a' = acc_store a"
    by (auto simp: Cleanup_def Let_def dest: blocklist_frame split: if_splits)
  with step_cleanup show ?case by simp
qed (auto simp: PrepareDebit_def Release_def NotifyPaymentThreshold_def getAccountingPeer_touch Let_def
    touch_def [symmetric] acc_Connect_surplus_ok
    dest: acc_Disconnect_peer PeerDebt_peer split: if_splits
    elim: Reserve_surplus_ok Credit_surplus_ok NotifyPaymentSent_surplus_ok
      NotifyPaymentReceived_surplus_ok NotifyRefreshmentReceived_surplus_ok Apply_surplus_ok)

lemma acc_step_inv:
  assumes "acc_step S x y" and "acc_inv look x"
  shows "acc_inv look y"
  using assms acc_step_peer_ok [OF assms(1)] acc_step_surplus_ok [OF assms(1)]
  by (simp add: acc_inv_def)

lemma acc_reachable_inv:
  assumes "(acc_step S)\<^sup>*\<^sup>* x y" and "acc_inv look x"
  shows "acc_inv look y"
  using assms by (induction rule: rtranclp_induct) (auto intro: acc_step_inv)

end

section \<open>Properties\<close>

text \<open>A small state used by the witnesses: one connected peer, an in-memory store.\<close>

definition ex_peer :: Address where "ex_peer = [1]"

definition ex_acc :: "int mem Accounting" where
  "ex_acc = acc_Connect InMem ex_peer (NewAccounting 100 10 5 [] 10)"

lemma ex_acc_store [simp]:
  "acc_store ex_acc = [(peerSurplusBalanceKey ex_peer, 0), (peerBalanceKey ex_peer, 0)]"
  by (simp add: ex_acc_def acc_Connect_def NewAccounting_def put_int_def Let_def
      touch_def [symmetric] mem_defs)

lemma ex_acc_peer [simp]:
  "peer_of ex_peer ex_acc = \<lparr>reservedBalance = 0, shadowReservedBalance = 0, ghostBalance = 0,
     ap_paymentThreshold = 100, refreshTimestamp = 0, paymentOngoing = False,
     lastSettlementFailureTimestamp = 0, ap_connected = True\<rparr>"
  by (simp add: ex_acc_def acc_Connect_def put_int_def Let_def touch_def [symmetric] mem_defs)
    (simp add: NewAccounting_def peer_of_def getAccountingPeer_def newPeer_def)

lemma ex_acc_fields [simp]:
  "earlyPayment ex_acc = 5" "disconnectLimit ex_acc = 110" "refreshRate ex_acc = 10"
  "paymentThreshold ex_acc = 100"
  by (simp_all add: ex_acc_def acc_Connect_def NewAccounting_def put_int_def Let_def
      touch_def [symmetric] mem_defs)

text \<open>C1. A reservation is granted only to a connected peer, and after it the debt to the peer, the
  surplus it has paid and everything reserved for it together stay within the payment threshold the
  peer announced; a refused reservation reserves nothing. This holds for any store, with faults,
  and any outcome of the settlement that \<open>Reserve\<close> may run.\<close>

theorem reserve_within_threshold:
  assumes "balance_store S look" and "Reserve S refresh now peer price a = Some (r, a')"
  shows "(r = None \<longrightarrow> ap_connected (peer_of peer a) \<and>
      reservedBalance (peer_of peer a') = reservedBalance (peer_of peer a) + uint price \<and>
      max 0 (- l_balance (ledger_of look (acc_store a') peer))
        + l_surplus (ledger_of look (acc_store a') peer) + reservedBalance (peer_of peer a')
        \<le> ap_paymentThreshold (peer_of peer a')) \<and>
    (r \<noteq> None \<longrightarrow> reservedBalance (peer_of peer a') = reservedBalance (peer_of peer a))"
proof (cases r)
  case None
  with assms balance_store.Reserve_within_threshold [OF assms(1)] show ?thesis by blast
next
  case (Some e)
  with assms Reserve_error_frame [of S refresh now peer price a e a' peer] show ?thesis
    by (simp add: reserve_part_def)
qed

theorem reserve_within_threshold_witness:
  "\<exists>a'. Reserve InMem (\<lambda>_ _ _. Inl []) 0 ex_peer 30 ex_acc = Some (None, a') \<and>
    reservedBalance (peer_of ex_peer a') \<le> 100"
proof -
  obtain a' where r: "Reserve InMem (\<lambda>_ _ _. Inl []) 0 ex_peer 30 ex_acc = Some (None, a')"
      and t: "ap_paymentThreshold (peer_of ex_peer a') = 100"
    by (simp add: Reserve_def getAccountingPeer_touch Let_def getIncreasedExpectedDebt_def
        Balance_def SurplusBalance_def or_zero_def reserve_commit_def mem_defs)
  have "0 \<le> l_surplus (ledger_of map_of (acc_store a') ex_peer)"
    using r by (auto simp: Reserve_def getAccountingPeer_touch Let_def getIncreasedExpectedDebt_def
        Balance_def SurplusBalance_def or_zero_def reserve_commit_def mem_defs ledger_of_def)
  with reserve_within_threshold [OF inmem_balances.balance_store_axioms r] r t show ?thesis
    by (intro exI [of _ a']) auto
qed



text \<open>C5. Crediting a peer lowers its balance by exactly the price and no other peer's; for a request
  this node originated, the originated balance drops by the price as well, but never below what is
  owed (the negative part of the new balance).\<close>

theorem credit_exact:
  assumes "balance_store S look" and "Credit S peer price originated a = (None, a')"
  shows "ledger_of look (acc_store a') = (ledger_of look (acc_store a))
      (peer := l_credit (uint price) originated (ledger_of look (acc_store a) peer))"
  using balance_store.Credit_ledger [OF assms] by (auto simp: fun_eq_iff)

theorem credit_exact_witness:
  "\<exists>a'. Credit InMem ex_peer 7 True ex_acc = (None, a')
    \<and> l_balance (ledger_of map_of (acc_store a') ex_peer) = - 7
    \<and> l_originated (ledger_of map_of (acc_store a') ex_peer) = - 7"
proof -
  obtain a' where r: "Credit InMem ex_peer 7 True ex_acc = (None, a')"
    by (simp add: Credit_def getAccountingPeer_touch Balance_def OriginatedBalance_def or_zero_def
        put_int_def mem_defs Let_def)
  with credit_exact [OF inmem_balances.balance_store_axioms r] show ?thesis
    by (intro exI [of _ a']) (simp add: l_credit_def ledger_of_def)
qed

text \<open>C4. A payment received is never lost and never turns into a debt of this node: the balance less
  the surplus drops by exactly the amount, the balance never goes below zero through it, and the
  other peers are untouched.\<close>

theorem payment_received_conserved:
  assumes "balance_store S look" and "NotifyPaymentReceived S peer amount a = (None, a')"
  shows "(let l = ledger_of look (acc_store a) peer; l' = ledger_of look (acc_store a') peer in
      l_balance l' - l_surplus l' = l_balance l - l_surplus l - amount \<and>
      min 0 (l_balance l') = min 0 (l_balance l) \<and> l_originated l' = l_originated l) \<and>
    (\<forall>q. q \<noteq> peer \<longrightarrow> ledger_of look (acc_store a') q = ledger_of look (acc_store a) q)"
  using balance_store.NotifyPaymentReceived_ledger [OF assms]
  by (auto simp: l_payment_received_def Let_def)

theorem payment_received_conserved_witness:
  "\<exists>a'. NotifyPaymentReceived InMem ex_peer 9 ex_acc = (None, a')
    \<and> l_balance (ledger_of map_of (acc_store a') ex_peer)
      - l_surplus (ledger_of map_of (acc_store a') ex_peer) = - 9"
proof -
  obtain a' where r: "NotifyPaymentReceived InMem ex_peer 9 ex_acc = (None, a')"
    by (simp add: NotifyPaymentReceived_def getAccountingPeer_touch Balance_def SurplusBalance_def
        or_zero_def grow_surplus_def put_int_def mem_defs Let_def)
  with payment_received_conserved [OF inmem_balances.balance_store_axioms r] show ?thesis
    by (intro exI [of _ a']) (simp add: ledger_of_def Let_def)
qed

lemma Apply_applied:
  assumes "Apply S d a = Some (r, d', a')" and "\<not> da_applied d" and "da_applied d'"
  obtains b a1 where "increaseBalance S (da_peer d) (da_price d) a = (Inr b, a1)"
    "acc_store a' = acc_store a1" "r = None \<longleftrightarrow> b < disconnectLimit a"
    "shadowReservedBalance (peer_of (da_peer d) a') =
       shadowReservedBalance (peer_of (da_peer d) a) - da_price d"
proof -
  obtain x a1 where i: "increaseBalance S (da_peer d) (da_price d) a = (x, a1)" by fastforce
  obtain b where x: "x = Inr b" using assms i by (cases x) (auto simp: Apply_def)
  note f = increaseBalance_frame [OF i, of "da_peer d"]
  have "acc_store a' = acc_store a1" "r = None \<longleftrightarrow> b < disconnectLimit a"
    "shadowReservedBalance (peer_of (da_peer d) a') =
       shadowReservedBalance (peer_of (da_peer d) a) - da_price d"
    using assms(1) f
    by (auto simp: Apply_def i x Let_def split: option.splits sum.splits if_splits)
  with that i x show ?thesis by blast
qed

lemma l_debit_compensated:
  "0 \<le> l_surplus l \<Longrightarrow> 0 \<le> price \<Longrightarrow>
   l_balance (l_debit price l) - l_surplus (l_debit price l) = l_balance l - l_surplus l + price
   \<and> 0 \<le> l_surplus (l_debit price l) \<and> l_balance l \<le> l_balance (l_debit price l)"
  by (auto simp: l_debit_def l_limit_def Let_def)

text \<open>C3. A debit that was applied raises what the peer owes (the balance less the surplus) by exactly
  its price, taking it from the surplus first, gives the reserved shadow amount back, and reports the
  disconnect threshold exactly when the new balance reaches it; cleaning up afterwards changes
  nothing.\<close>

theorem debit_exact:
  assumes "balance_store S look" and "Apply S d a = Some (r, d', a')"
    and "\<not> da_applied d" and "da_applied d'" and "0 \<le> da_price d"
  shows "(let l = ledger_of look (acc_store a) (da_peer d);
           l' = ledger_of look (acc_store a') (da_peer d) in
      l_balance l' - l_surplus l' = l_balance l - l_surplus l + da_price d \<and> 0 \<le> l_surplus l' \<and>
      (l_balance l' \<noteq> l_balance l \<longrightarrow> l_surplus l' = 0 \<or> da_price d = 0) \<and>
      (r = None \<longleftrightarrow> l_balance l' < disconnectLimit a)) \<and>
    (\<forall>q. q \<noteq> da_peer d \<longrightarrow> ledger_of look (acc_store a') q = ledger_of look (acc_store a) q) \<and>
    shadowReservedBalance (peer_of (da_peer d) a') =
      shadowReservedBalance (peer_of (da_peer d) a) - da_price d \<and>
    (\<forall>b. Cleanup S d' b = Some b)"
proof -
  obtain b a1 where i: "increaseBalance S (da_peer d) (da_price d) a = (Inr b, a1)"
    and st: "acc_store a' = acc_store a1" and r: "r = None \<longleftrightarrow> b < disconnectLimit a"
    and sh: "shadowReservedBalance (peer_of (da_peer d) a') =
       shadowReservedBalance (peer_of (da_peer d) a) - da_price d"
    using Apply_applied [OF assms(2-4)] by blast
  define l where "l = ledger_of look (acc_store a) (da_peer d)"
  obtain ob where l': "ledger_of look (acc_store a') (da_peer d) = (l_debit (da_price d) l)\<lparr>l_originated := ob\<rparr>"
    and b: "b = l_balance (l_debit (da_price d) l)"
    and q: "\<forall>q. q \<noteq> da_peer d \<longrightarrow> ledger_of look (acc_store a') q = ledger_of look (acc_store a) q"
    using balance_store.increaseBalance_ledger [OF assms(1) i assms(5)] by (auto simp: st l_def)
  obtain x where "SurplusBalance S (da_peer d) a = Inr x"
    using i by (auto simp: increaseBalance_def split: sum.splits)
  then have "0 \<le> l_surplus l"
    using balance_store.SurplusBalance_look [OF assms(1)] by (auto simp: l_def)
  with l_debit_compensated [OF this assms(5)] l' b r q sh assms(4) show ?thesis
    by (auto simp: Let_def l_def [symmetric] Cleanup_def) (auto simp: l_debit_def l_limit_def Let_def split: if_splits)
qed

theorem debit_exact_witness:
  "\<exists>a'. Apply InMem \<lparr>da_price = 20, da_peer = ex_peer, da_applied = False\<rparr> ex_acc =
      Some (None, \<lparr>da_price = 20, da_peer = ex_peer, da_applied = True\<rparr>, a')
    \<and> l_balance (ledger_of map_of (acc_store a') ex_peer)
      - l_surplus (ledger_of map_of (acc_store a') ex_peer) = 20"
proof -
  obtain a' where r: "Apply InMem \<lparr>da_price = 20, da_peer = ex_peer, da_applied = False\<rparr> ex_acc =
      Some (None, \<lparr>da_price = 20, da_peer = ex_peer, da_applied = True\<rparr>, a')"
    by (simp add: Apply_def increaseBalance_def SurplusBalance_def debit_balance_def Balance_def
        or_zero_def put_int_def decreaseOriginatedBalanceTo_def OriginatedBalance_def mem_defs Let_def)
  have "l_balance (ledger_of map_of (acc_store a') ex_peer)
      - l_surplus (ledger_of map_of (acc_store a') ex_peer) = 20"
    using debit_exact [OF inmem_balances.balance_store_axioms r]
    by (simp add: Let_def) (simp add: ledger_of_def)
  with r show ?thesis by blast
qed

text \<open>The shadow reserve pairs up: preparing a debit adds its price, and a debit that is cleaned up
  without having been applied gives it back and adds it to the ghost balance, leaving the stored
  balances alone; only a connected peer can be debited.\<close>

theorem prepare_cleanup_pair:
  assumes "PrepareDebit peer price a = (Inr d, a1)" and "Cleanup S d a1 = Some a2"
  shows "ap_connected (peer_of peer a) \<and> acc_store a2 = acc_store a \<and>
    shadowReservedBalance (peer_of peer a1) = shadowReservedBalance (peer_of peer a) + uint price \<and>
    shadowReservedBalance (peer_of peer a2) = shadowReservedBalance (peer_of peer a) \<and>
    ghostBalance (peer_of peer a2) = ghostBalance (peer_of peer a) + uint price"
  using assms
  by (auto simp: PrepareDebit_def getAccountingPeer_touch Cleanup_def Let_def
      dest!: blocklist_frame [of _ _ _ _ _ peer] split: if_splits)

theorem prepare_cleanup_pair_witness:
  "\<exists>d a1 a2. PrepareDebit ex_peer 20 ex_acc = (Inr d, a1) \<and> Cleanup InMem d a1 = Some a2 \<and>
    ghostBalance (peer_of ex_peer a2) = 20"
proof -
  obtain d a1 where p: "PrepareDebit ex_peer 20 ex_acc = (Inr d, a1)"
    by (simp add: PrepareDebit_def getAccountingPeer_touch Let_def)
  moreover obtain a2 where "Cleanup InMem d a1 = Some a2"
    using p by (auto simp: PrepareDebit_def getAccountingPeer_touch Let_def Cleanup_def split: if_splits)
  ultimately show ?thesis using prepare_cleanup_pair [OF p, of InMem a2] by auto
qed

text \<open>The invariant of the originated balance: it is never deeper in debt than the balance.\<close>

definition originated_ok :: "ledger \<Rightarrow> bool" where
  "originated_ok l \<longleftrightarrow> min 0 (l_balance l) \<le> l_originated l"

lemma originated_ok_ops:
  assumes "originated_ok l"
  shows "0 \<le> p \<Longrightarrow> originated_ok (l_credit p o' l)" "originated_ok (l_payment_received q l)"
    "0 \<le> q \<Longrightarrow> originated_ok (l_refreshment_received q l)"
    "originated_ok (l_debit q l)" "0 \<le> q \<Longrightarrow> originated_ok (l_payment_sent q l)"
  using assms
  by (auto simp: originated_ok_def l_credit_def l_payment_received_def l_refreshment_received_def
      l_debit_def l_limit_def l_payment_sent_def Let_def)

lemma l_limit_originated_ok: "originated_ok (l_limit b (l\<lparr>l_balance := b\<rparr>))"
  by (simp add: originated_ok_def l_limit_def)

context reliable_balances
begin

lemma settle_originated_ok:
  assumes "settle S refresh now peer a = Some (r, a')"
    and "\<forall>q. originated_ok (ledger_of look (acc_store a) q)"
  shows "\<forall>q. originated_ok (ledger_of look (acc_store a') q)"
proof -
  have bl: "acc_store b' = acc_store a" if "blocklist S peer 1 a = Some b'" for b'
    using blocklist_frame [OF that] by simp
  have mon: "acc_store b' = acc_store b" if "settle_monetary S now peer b = (r', b')" for b r' b'
    using settle_monetary_frame [OF that] by simp
  have ref: "originated_ok (ledger_of look (acc_store b2) q)"
    if put: "put_int S (peerBalanceKey peer) v m (upd_peer peer f a) = (None, b1)"
      and dec: "decreaseOriginatedBalanceTo S peer v b1 = (r', b2)" for v m f b1 r' b2 q
  proof -
    have r': "r' = None" using decreaseTo_ok [of peer v b1] dec by auto
    from decreaseTo_ledger [OF dec [unfolded r'], of q] put_balance [OF put, of q] assms(2)
    show ?thesis by (auto simp: l_limit_originated_ok)
  qed
  have put: "r' \<noteq> Some e" if "put_int S k v m b = (r', b')" for k v m b r' b' e
    using put_int_ok [of k v m b] that by auto
  show ?thesis using assms
    by (auto simp: settle_def Let_def dest!: bl mon dest: put intro: ref
        split: sum.splits if_splits option.splits prod.splits)
qed

lemma Reserve_originated_ok:
  assumes "Reserve S refresh now peer price a = Some (r, a')"
    and "\<forall>q. originated_ok (ledger_of look (acc_store a) q)"
  shows "\<forall>q. originated_ok (ledger_of look (acc_store a') q)"
proof -
  have commit: "acc_store b' = acc_store b" if "reserve_commit peer p d b = (r', b')" for p d b r' b'
    using that by (auto simp: reserve_commit_def split: if_splits)
  have set: "originated_ok (ledger_of look (acc_store b) q)"
    if "settle S refresh now peer (touch peer a) = Some (r', b)" for r' b q
    using settle_originated_ok [OF that] assms(2) by simp
  show ?thesis using assms
    by (auto simp: Reserve_def getAccountingPeer_touch Let_def dest!: commit intro: set
        split: sum.splits if_splits option.splits prod.splits)
qed

end

definition originated_all :: "('s \<Rightarrow> string \<Rightarrow> int option) \<Rightarrow> 's Accounting \<Rightarrow> bool" where
  "originated_all look a \<longleftrightarrow> (\<forall>q. originated_ok (ledger_of look (acc_store a) q))"

lemma originated_all_upd:
  "originated_all look a \<Longrightarrow> originated_ok l \<Longrightarrow>
   ledger_of look (acc_store a') = (ledger_of look (acc_store a))(peer := l) \<Longrightarrow> originated_all look a'"
  by (auto simp: originated_all_def)

text \<open>The calls as in \<open>acc_step\<close>, with amounts that are not negative, and where a peer is connected only while its originated
  balance is zero: \<open>Connect\<close> resets the balance and the surplus but not the originated balance.\<close>

inductive session_step ::
  "('s, int) StateStorer \<Rightarrow> ('s \<Rightarrow> string \<Rightarrow> int option) \<Rightarrow> 's Accounting \<times> debitAction list \<Rightarrow> 's Accounting \<times> debitAction list \<Rightarrow> bool"
  for S look where
  ses_reserve: "Reserve S refresh now peer price a = Some (r, a') \<Longrightarrow> session_step S look (a, ds) (a', ds)"
| ses_release: "session_step S look (a, ds) (Release peer price a, ds)"
| ses_credit: "Credit S peer price originated a = (r, a') \<Longrightarrow> session_step S look (a, ds) (a', ds)"
| ses_sent: "0 \<le> amount \<Longrightarrow> NotifyPaymentSent S now peer amount failed a = Some a' \<Longrightarrow> session_step S look (a, ds) (a', ds)"
| ses_threshold: "session_step S look (a, ds) (NotifyPaymentThreshold peer t a, ds)"
| ses_received: "0 \<le> amount \<Longrightarrow> NotifyPaymentReceived S peer amount a = (r, a') \<Longrightarrow> session_step S look (a, ds) (a', ds)"
| ses_refreshed: "0 \<le> amount \<Longrightarrow> NotifyRefreshmentReceived S peer amount a = (r, a') \<Longrightarrow> session_step S look (a, ds) (a', ds)"
| ses_prepare: "PrepareDebit peer price a = (Inr d, a') \<Longrightarrow> session_step S look (a, ds) (a', d # ds)"
| ses_prepare_fail: "PrepareDebit peer price a = (Inl e, a') \<Longrightarrow> session_step S look (a, ds) (a', ds)"
| ses_apply: "Apply S d a = Some (r, d', a') \<Longrightarrow> session_step S look (a, ds @ d # ds') (a', ds @ d' # ds')"
| ses_cleanup: "Cleanup S d a = Some a' \<Longrightarrow> session_step S look (a, ds @ d # ds') (a', ds @ ds')"
| ses_connect: "l_originated (ledger_of look (acc_store a) peer) = 0 \<Longrightarrow> session_step S look (a, ds) (acc_Connect S peer a, ds)"
| ses_disconnect: "acc_Disconnect S peer a = Some a' \<Longrightarrow> session_step S look (a, ds) (a', ds)"
| ses_debt: "PeerDebt S peer a = (r, a') \<Longrightarrow> session_step S look (a, ds) (a', ds)"

lemma session_acc_step: "session_step S look x y \<Longrightarrow> acc_step S x y"
  by (induction rule: session_step.induct) (auto intro: acc_step.intros)

context reliable_balances
begin

lemma acc_Connect_ledger:
  "ledger_of look (acc_store (acc_Connect S peer a)) = (ledger_of look (acc_store a))
     (peer := (ledger_of look (acc_store a) peer)\<lparr>l_balance := 0, l_surplus := 0\<rparr>)"
proof -
  define a0 where "a0 = upd_peer peer (\<lambda>p. p\<lparr>ap_connected := True, shadowReservedBalance := 0,
      ghostBalance := 0, reservedBalance := 0\<rparr>) (touch peer a)"
  obtain a1 where p1: "put_int S (peerBalanceKey peer) 0 [] a0 = (None, a1)" using put_int_ok by blast
  obtain a2 where p2: "put_int S (peerSurplusBalanceKey peer) 0 [] a1 = (None, a2)"
    using put_int_ok by blast
  have "acc_Connect S peer a = a2"
    by (simp add: acc_Connect_def Let_def touch_def [symmetric] a0_def [symmetric] p1 p2)
  moreover have "acc_store a0 = acc_store a" by (simp add: a0_def)
  ultimately show ?thesis using put_balance [OF p1] put_surplus [OF p2] by (auto simp: fun_eq_iff)
qed

lemma Apply_originated_ok:
  assumes "Apply S d a = Some (r, d', a')" and "originated_all look a" and p: "0 \<le> da_price d"
  shows "originated_all look a'"
proof -
  let ?p = "da_peer d"
  obtain x a1 where i: "increaseBalance S ?p (da_price d) a = (x, a1)" by fastforce
  have st: "acc_store a' = acc_store a1" using assms(1) by (auto simp: Apply_def i Let_def split: sum.splits option.splits if_splits)
  have "originated_all look a1"
  proof (cases x)
    case (Inr b)
    have "originated_ok (l_debit (da_price d) (ledger_of look (acc_store a) ?p))" using assms(2) by (intro originated_ok_ops(4)) (simp add: originated_all_def)
    then show ?thesis using originated_all_upd [OF assms(2)] increaseBalance_exact [OF i [unfolded Inr] p] by blast
  next
    case (Inl e)
    have debit: "\<exists>b. y = Inr b" if "debit_balance S ?p c b0 = (y, b1)" for c b0 y b1 using debit_balance_exact [OF that] by blast
    have put: "y = None" if "put_int S k v m b0 = (y, b1)" for k v m b0 y b1 using put_int_ok [of k v m b0] that by auto
    have "a1 = a \<or> (\<exists>v m. put_int S (peerSurplusBalanceKey ?p) v m a = (None, a1))"
      using i Inl p by (auto simp: increaseBalance_def Let_def dest!: debit dest: put split: sum.splits if_splits prod.splits option.splits)
    then show ?thesis
    proof
      assume "\<exists>v m. put_int S (peerSurplusBalanceKey ?p) v m a = (None, a1)"
      then show ?thesis using put_surplus assms(2) unfolding originated_all_def originated_ok_def by force
    qed (use assms(2) in simp)
  qed
  then show ?thesis by (simp add: originated_all_def st)
qed

lemma received_ok:
  assumes "surplus_ok look (acc_store a)" and "NotifyPaymentReceived S peer amount a = (r, a')" shows "r = None"
proof -
  have put: "y = None" if "put_int S k v m b0 = (y, b1)" for k v m b0 y b1 using put_int_ok [of k v m b0] that by auto
  have "0 \<le> l_surplus (ledger_of look (acc_store a) peer)" using assms(1) by (auto simp: surplus_ok_def ledger_of_def val0_def split: option.splits)
  then have "SurplusBalance S peer (touch peer a) = Inr (l_surplus (ledger_of look (acc_store a) peer))" using SurplusBalance_ok [of "touch peer a" peer] by simp
  moreover have "SurplusBalance S peer b = Inr (l_surplus (ledger_of look (acc_store a) peer))"
    if "put_int S (peerBalanceKey peer) v m (touch peer a) = (None, b)" for v m b
    using put_balance [OF that, of peer] SurplusBalance_ok [of b peer] \<open>0 \<le> l_surplus (ledger_of look (acc_store a) peer)\<close> by simp
  ultimately show ?thesis using assms(2)
    by (auto simp: NotifyPaymentReceived_def getAccountingPeer_touch or_zero_Balance grow_surplus_def Let_def dest!: put split: if_splits prod.splits option.splits)
qed

lemma session_originated:
  assumes "session_step S look x y" and "originated_all look (fst x)" and "acc_inv look x"
  shows "originated_all look (fst y)"
  using assms
proof (induction rule: session_step.induct)
  case (ses_reserve refresh now peer price a r a' ds)
  then show ?case using Reserve_originated_ok [OF ses_reserve(1)] by (simp add: originated_all_def)
next
  case (ses_credit peer price originated a r a' ds)
  have put: "y = None" if "put_int S k v m b0 = (y, b1)" for k v m b0 y b1 using put_int_ok [of k v m b0] that by auto
  have "r = None" using ses_credit(1)
    by (auto simp: Credit_def getAccountingPeer_touch or_zero_Balance or_zero_OriginatedBalance Let_def dest!: put split: if_splits prod.splits option.splits)
  then show ?case using Credit_ledger ses_credit originated_ok_ops(1) [of _ "uint price"] by (auto simp: originated_all_def)
next
  case (ses_sent amount now peer failed a a' ds)
  show ?case
  proof (cases failed)
    case True
    then have "acc_store a' = acc_store a" using ses_sent(2) by (auto simp: NotifyPaymentSent_def getAccountingPeer_touch Let_def split: if_splits)
    then show ?thesis using ses_sent(3) by (simp add: originated_all_def)
  next
    case False
    have "originated_ok (l_payment_sent amount (ledger_of look (acc_store a) peer))" using ses_sent(1,3) by (intro originated_ok_ops(5)) (simp_all add: originated_all_def)
    then show ?thesis using originated_all_upd [of look a] NotifyPaymentSent_ledger [of now peer amount a a'] ses_sent(2,3) False by auto
  qed
next
  case (ses_received amount peer a r a' ds)
  have "r = None" using received_ok ses_received(2,4) by (auto simp: acc_inv_def)
  then show ?case using NotifyPaymentReceived_ledger ses_received originated_ok_ops(2) [of _ amount] by (auto simp: originated_all_def)
next
  case (ses_refreshed amount peer a r a' ds)
  have put: "y = None" if "put_int S k v m b0 = (y, b1)" for k v m b0 y b1 using put_int_ok [of k v m b0] that by auto
  have "r = None" using ses_refreshed(2) by (auto simp: NotifyRefreshmentReceived_def getAccountingPeer_touch or_zero_Balance dest!: put)
  then show ?case using NotifyRefreshmentReceived_ledger ses_refreshed originated_ok_ops(3) [of _ amount] by (auto simp: originated_all_def)
next
  case (ses_apply d a r d' a' ds ds')
  then show ?case using Apply_originated_ok [OF ses_apply(1)] by (simp add: acc_inv_def)
next
  case (ses_cleanup d a a' ds ds')
  then have "acc_store a' = acc_store a" by (auto simp: Cleanup_def Let_def dest: blocklist_frame split: if_splits)
  then show ?case using ses_cleanup(2) by (simp add: originated_all_def)
next
  case (ses_connect a peer ds)
  then show ?case by (auto simp: originated_all_def acc_Connect_ledger originated_ok_def)
qed (auto simp: originated_all_def PrepareDebit_def Release_def NotifyPaymentThreshold_def getAccountingPeer_touch Let_def touch_def [symmetric]
    dest: acc_Disconnect_peer PeerDebt_peer split: if_splits)

lemma session_reachable:
  assumes "(session_step S look)\<^sup>*\<^sup>* x y" and "originated_all look (fst x)" "acc_inv look x"
  shows "originated_all look (fst y) \<and> acc_inv look y"
  using assms
proof (induction rule: rtranclp_induct)
  case (step y z)
  then show ?case using session_originated [OF step(2)] acc_step_inv [OF session_acc_step [OF step(2)]] by blast
qed simp

end



context reliable_balances
begin

lemma settle_no_debt:
  assumes "0 \<le> l_balance (ledger_of look (acc_store a) peer)"
    and "l_surplus (ledger_of look (acc_store a) peer) = 0"
    and "look (acc_store a) (peerBalanceKey peer) \<noteq> None"
  shows "settle S refresh now peer a = Some (settle_monetary S now peer a)"
proof -
  have "SurplusBalance S peer a = Inr 0" using SurplusBalance_ok [of a peer] assms(2) by simp
  moreover have "Balance S peer a \<noteq> Inl ErrPeerNoBalance"
    using assms(3) by (auto simp: Balance_def get_total)
  ultimately have "CompensatedBalance S peer a = Inr (l_balance (ledger_of look (acc_store a) peer))"
    by (simp add: CompensatedBalance_def or_zero_Balance)
  then show ?thesis using assms(1) by (simp add: settle_def or_zero_Balance)
qed

lemma acc_Connect_look: "look (acc_store (acc_Connect S peer a)) (peerBalanceKey peer) = Some 0"
proof -
  define a0 where "a0 = upd_peer peer (\<lambda>p. p\<lparr>ap_connected := True, shadowReservedBalance := 0,
      ghostBalance := 0, reservedBalance := 0\<rparr>) (touch peer a)"
  obtain a1 where p1: "put_int S (peerBalanceKey peer) 0 [] a0 = (None, a1)" using put_int_ok by blast
  obtain a2 where p2: "put_int S (peerSurplusBalanceKey peer) 0 [] a1 = (None, a2)"
    using put_int_ok by blast
  have "acc_Connect S peer a = a2"
    by (simp add: acc_Connect_def Let_def touch_def [symmetric] a0_def [symmetric] p1 p2)
  then show ?thesis using p1 p2 by (auto elim!: put_int_None)
qed

end

lemma acc_Connect_fields:
  "payFunction (acc_Connect S peer a) = payFunction a"
  "minimumPayment (acc_Connect S peer a) = minimumPayment a"
  "acc_events (acc_Connect S peer a) = acc_events a"
  "paymentOngoing (peer_of peer (acc_Connect S peer a)) = paymentOngoing (peer_of peer a)"
  "lastSettlementFailureTimestamp (peer_of peer (acc_Connect S peer a)) =
     lastSettlementFailureTimestamp (peer_of peer a)"
  by (simp_all add: acc_Connect_def put_int_def Let_def touch_def [symmetric] split: sum.splits)

text \<open>A new connection resets the balance and the surplus of the peer but not its originated
  balance: the originated debt of the previous connection survives, and the next monetary settlement
  pays it although nothing is owed any more.\<close>

theorem reconnect_pays_stale_debt:
  assumes "reliable_balances S look"
    and "payFunction a" and "\<not> paymentOngoing (peer_of peer a)"
    and "failedSettlementInterval < i64 (now - lastSettlementFailureTimestamp (peer_of peer a))"
    and "minimumPayment a \<le> - l_originated (ledger_of look (acc_store a) peer)"
  shows "(let a1 = acc_Connect S peer a; l1 = ledger_of look (acc_store a1) peer in
    l_balance l1 = 0 \<and> l_surplus l1 = 0 \<and>
    (\<exists>a2. settle S refresh now peer a1 = Some (None, a2) \<and>
       acc_events a2 = acc_events a @ [Pay peer (- l_originated (ledger_of look (acc_store a) peer))]))"
proof -
  let ?a1 = "acc_Connect S peer a"
  note led = reliable_balances.acc_Connect_ledger [OF assms(1), of peer a]
  have set: "settle S refresh now peer ?a1 = Some (settle_monetary S now peer ?a1)"
    using led reliable_balances.acc_Connect_look [OF assms(1), of peer a]
    by (intro reliable_balances.settle_no_debt [OF assms(1)]) auto
  have orig: "or_zero (OriginatedBalance S peer ?a1) =
      Inr (l_originated (ledger_of look (acc_store a) peer))"
    by (simp add: reliable_balances.or_zero_OriginatedBalance [OF assms(1)] led)
  show ?thesis using assms(2-5) led set
    by (simp add: Let_def settle_monetary_def acc_Connect_fields orig)
qed

definition ex_owing :: "int mem Accounting" where
  "ex_owing = SetPayFunc (ex_acc\<lparr>acc_store := [(originatedBalanceKey ex_peer, - 50)]\<rparr>)"

theorem reconnect_pays_stale_debt_witness:
  "\<exists>a2. settle InMem (\<lambda>_ _ _. Inl []) 100 ex_peer (acc_Connect InMem ex_peer ex_owing) = Some (None, a2)
    \<and> acc_events a2 = acc_events ex_owing @ [Pay ex_peer 50]"
proof -
  have "peer_of ex_peer ex_owing = peer_of ex_peer ex_acc"
    by (simp add: ex_owing_def SetPayFunc_def peer_of_def getAccountingPeer_def newPeer_def
        split: option.splits)
  moreover have "payFunction ex_owing" "minimumPayment ex_owing = 2"
    "ledger_of map_of (acc_store ex_owing) ex_peer = \<lparr>l_balance = 0, l_surplus = 0, l_originated = - 50\<rparr>"
    by (simp_all add: ex_owing_def SetPayFunc_def ex_acc_def ledger_of_def acc_Connect_fields)
      (simp add: NewAccounting_def big_Div_def minimumPaymentDivisor_def)
  ultimately show ?thesis
    using reconnect_pays_stale_debt [OF inmem_balances.reliable_balances_axioms, of ex_owing ex_peer 100
        "\<lambda>_ _ _. Inl []"]
    by (simp add: failedSettlementInterval_def Let_def)
qed

lemma balanceKeyPeer_key [simp]: "balanceKeyPeer (peerBalanceKey peer) = Inr peer"
proof -
  have "SplitAfter (balancesPrefix @ addr_String peer) balancesPrefix = [balancesPrefix, addr_String peer]"
    by (rule SplitAfter_prefixed [of "CHR ''_''"])
      (simp_all add: balancesPrefix_def addr_String_def hextable_def)
  then show ?thesis by (simp add: balanceKeyPeer_def peerBalanceKey_def)
qed

lemma surplusBalanceKeyPeer_key [simp]: "surplusBalanceKeyPeer (peerSurplusBalanceKey peer) = Inr peer"
proof -
  have "SplitAfter (balancesSurplusPrefix @ addr_String peer) balancesSurplusPrefix =
      [balancesSurplusPrefix, addr_String peer]"
    by (rule SplitAfter_prefixed [of "CHR ''_''"])
      (simp_all add: balancesSurplusPrefix_def addr_String_def hextable_def)
  then show ?thesis by (simp add: surplusBalanceKeyPeer_def peerSurplusBalanceKey_def)
qed

lemma Balances_func_step:
  assumes "Balances_func S a k v m = (m', stop, None)"
  shows "\<not> stop \<and> m \<subseteq>\<^sub>m m' \<and>
    (\<forall>addr b. m' (addr_String addr) = Some b \<longrightarrow>
       m (addr_String addr) = Some b \<or> st_Get S (peerBalanceKey addr) (acc_store a) = Inr b) \<and>
    (\<forall>addr. k = peerBalanceKey addr \<longrightarrow> m' (addr_String addr) \<noteq> None)"
  using assms
  by (auto simp: Balances_func_def map_le_def split: sum.splits if_splits)

lemma Balances_loop:
  "iterate_loop (Balances_func S a) es err m = (m', None) \<Longrightarrow>
   err = None \<and> m \<subseteq>\<^sub>m m' \<and>
   (\<forall>addr b. m' (addr_String addr) = Some b \<longrightarrow>
      m (addr_String addr) = Some b \<or> st_Get S (peerBalanceKey addr) (acc_store a) = Inr b) \<and>
   (\<forall>addr v. (peerBalanceKey addr, v) \<in> set es \<longrightarrow> m' (addr_String addr) \<noteq> None)"
proof (induction es arbitrary: m)
  case Nil
  then show ?case by auto
next
  case (Cons e es)
  obtain k v where e: "e = (k, v)" by fastforce
  obtain m1 stop r where f: "Balances_func S a k v m = (m1, stop, r)"
    by (cases "Balances_func S a k v m") auto
  have r: "r = None" using Cons.prems by (auto simp: e f split: option.splits bool.splits)
  note step = Balances_func_step [OF f [unfolded r]]
  then have "iterate_loop (Balances_func S a) es err m1 = (m', None)"
    using Cons.prems by (auto simp: e f r)
  note ih = Cons.IH [OF this]
  have "m \<subseteq>\<^sub>m m'" using step ih map_le_trans by blast
  moreover have "m' (addr_String addr) \<noteq> None" if "k = peerBalanceKey addr" for addr
  proof -
    from step that obtain b where "m1 (addr_String addr) = Some b" by auto
    with ih show ?thesis by (auto simp: map_le_def dom_def)
  qed
  moreover have "m (addr_String addr) = Some b \<or> st_Get S (peerBalanceKey addr) (acc_store a) = Inr b"
    if "m' (addr_String addr) = Some b" for addr b using step ih that by blast
  ultimately show ?case using ih by (auto simp: e)
qed

text \<open>\<open>Balances\<close> returns for every peer exactly the balance the store holds, and nothing for a
  peer without one: the keys parse back to the peers they were written for.\<close>

theorem balances_exact:
  assumes "balance_store S look" and "Balances S a = Inr m"
  shows "m (addr_String peer) = look (acc_store a) (peerBalanceKey peer)"
proof -
  obtain es err where es: "st_Iter S balancesPrefix (acc_store a) = (es, err)" by fastforce
  have loop: "iterate_loop (Balances_func S a) es err Map.empty = (m, None)"
    using assms(2) by (auto simp: Balances_def st_Iterate_def es split: prod.splits option.splits)
  note l = Balances_loop [OF loop]
  have st: "state_store S look" using assms(1) by (simp add: balance_store_def)
  have set: "set es = {(k, v). look (acc_store a) k = Some v \<and> prefix balancesPrefix k}"
    using state_store.iter_set [OF st] es l by blast
  show ?thesis
  proof (cases "m (addr_String peer)")
    case None
    then have "(peerBalanceKey peer, v) \<notin> set es" for v using l by blast
    moreover have "prefix balancesPrefix (peerBalanceKey peer)" by (simp add: peerBalanceKey_def)
    ultimately show ?thesis using None set by (cases "look (acc_store a) (peerBalanceKey peer)") auto
  next
    case (Some b)
    then have "st_Get S (peerBalanceKey peer) (acc_store a) = Inr b" using l by auto
    with Some state_store.get_some [OF st] show ?thesis by simp
  qed
qed

theorem balances_exact_witness:
  "\<exists>m. Balances InMem ex_acc = Inr m \<and> m (addr_String ex_peer) = Some 0"
proof -
  have p: "prefix balancesPrefix (peerBalanceKey ex_peer)" by (simp add: peerBalanceKey_def)
  have np: "\<not> prefix balancesPrefix (peerSurplusBalanceKey ex_peer)"
    by (simp add: peerSurplusBalanceKey_def balancesPrefix_def balancesSurplusPrefix_def)
  obtain m where m: "Balances InMem ex_acc = Inr m"
    by (simp add: Balances_def st_Iterate_def Balances_func_def mem_defs p np)
  from balances_exact [OF inmem_balances.balance_store_axioms m, of ex_peer] m show ?thesis by simp
qed

lemma peerLatentDebt_ok:
  "get_or_zero S peer a = Inr b \<Longrightarrow> peerLatentDebt S peer a =
   Inr (max 0 (max 0 b + shadowReservedBalance (peer_of peer a) + ghostBalance (peer_of peer a)))"
  by (auto simp: peerLatentDebt_def Let_def)

text \<open>A peer is blocklisted for at least as long as its latent debt (balance, shadow reserve and
  ghost balance) and the payment threshold take to refresh at the refresh rate, rounded down, and at
  least one second; the computation does not panic when the refresh rate is positive.\<close>

theorem blocklist_covers_debt:
  assumes "0 < refreshRate a" and "0 \<le> paymentThreshold a" and "peerLatentDebt S peer a = Inr d"
    and "(max d (refreshRate a) + paymentThreshold a) div refreshRate a < 2 ^ 63"
  shows "\<exists>k. blocklistUntil S peer 1 a = Some (Inr k) \<and> 1 \<le> k \<and>
    d + paymentThreshold a < (k + 1) * refreshRate a \<and>
    k * refreshRate a \<le> max d (refreshRate a) + paymentThreshold a"
proof -
  let ?n = "max d (refreshRate a) + paymentThreshold a"
  let ?k = "?n div refreshRate a"
  have m: "(if d < refreshRate a then refreshRate a else d) = max d (refreshRate a)" by auto
  have one: "1 \<le> ?k"
    using zdiv_mono1 [of "refreshRate a" ?n "refreshRate a"] assms(1,2) by simp
  have "?k * refreshRate a + ?n mod refreshRate a = ?n" by (rule div_mult_mod_eq)
  then have "?k * refreshRate a \<le> ?n \<and> ?n < ?k * refreshRate a + refreshRate a"
    using pos_mod_bound [OF assms(1), of ?n] pos_mod_sign [OF assms(1), of ?n] by linarith
  then have "?k * refreshRate a \<le> ?n" "?n < (?k + 1) * refreshRate a"
    by (simp_all add: distrib_right)
  moreover have "d + paymentThreshold a \<le> ?n" by simp
  moreover have "blocklistUntil S peer 1 a = Some (Inr ?k)"
    using assms one by (simp add: blocklistUntil_def m big_Div_def Let_def)
  ultimately show ?thesis using one by (intro exI [of _ ?k]) auto
qed

theorem blocklist_covers_debt_witness:
  "\<exists>k. blocklistUntil InMem ex_peer 1 ex_acc = Some (Inr k) \<and> 1 \<le> k"
proof -
  have "peerLatentDebt InMem ex_peer ex_acc = Inr 0"
    by (simp add: peerLatentDebt_def get_or_zero_def mem_defs)
  from blocklist_covers_debt [OF _ _ this] show ?thesis by auto
qed

text \<open>The shadow balance that accompanies a refreshment can be negative: the comparison with the
  shadow reserve counts the surplus, the subtraction after it does not.\<close>

theorem shadow_balance_negative:
  assumes "reliable_balances S look" and "look (acc_store a) (peerBalanceKey peer) = Some b" and "b < 0"
    and "l_surplus (ledger_of look (acc_store a) peer) = x" and "0 \<le> x"
    and "- b < shadowReservedBalance (peer_of peer a)"
    and "shadowReservedBalance (peer_of peer a) \<le> - b + x"
  shows "\<exists>v. shadowBalance S peer a = Inr v \<and> v < 0"
proof -
  have "SurplusBalance S peer a = Inr x"
    using reliable_balances.SurplusBalance_ok [OF assms(1), of a peer] assms(4,5) by simp
  moreover have "st_Get S (peerBalanceKey peer) (acc_store a) = Inr b"
    using assms(1,2) by (simp add: reliable_balances_def reliable_store.get_total)
  ultimately show ?thesis using assms(3,6,7) by (simp add: shadowBalance_def Let_def)
qed

theorem shadow_balance_negative_witness:
  "\<exists>v. shadowBalance InMem ex_peer (upd_peer ex_peer (\<lambda>p. p\<lparr>shadowReservedBalance := 10\<rparr>)
      (ex_acc\<lparr>acc_store := [(peerBalanceKey ex_peer, - 5), (peerSurplusBalanceKey ex_peer, 5)]\<rparr>))
    = Inr v \<and> v < 0"
  by (rule shadow_balance_negative [OF inmem_balances.reliable_balances_axioms, where b = "- 5" and x = 5])
    (simp_all add: ledger_of_def)

end
