(* ===== verification/Postage.thy ===== *)
theory Postage
  imports Swarm Statestore
begin

text \<open>
  \<open>pkg/postage\<close>: batches and their serialisation (\<open>batch.go\<close>), stamps and their validation
  (\<open>stamp.go\<close>), the issuer that hands out stamp indexes bucket by bucket (\<open>stampissuer.go\<close>), the
  stamper (\<open>stamper.go\<close>) and the service that keeps the issuers (\<open>service.go\<close>). Depths are 8-bit
  words and indexes 32-bit words, with Go's shifts: a shift by the width or more gives zero. The
  hash, the signer, the public-key recovery and the clock are parameters. \<open>None\<close> is a panic.
\<close>

section \<open>Copying into slices\<close>

text \<open>\<open>copy(dst[lo:hi], src)\<close>: as many bytes as both slices have.\<close>

definition go_copy :: "nat \<Rightarrow> nat \<Rightarrow> bytes \<Rightarrow> bytes \<Rightarrow> bytes" where
  "go_copy lo hi src dst =
     take lo dst @ take (hi - lo) src @ drop (lo + min (hi - lo) (length src)) dst"

lemma length_go_copy [simp]: "lo \<le> hi \<Longrightarrow> hi \<le> length dst \<Longrightarrow> length (go_copy lo hi src dst) = length dst"
  by (simp add: go_copy_def min_def)

lemma go_copy_exact:
  "length src = hi - lo \<Longrightarrow> lo \<le> hi \<Longrightarrow> hi \<le> length dst \<Longrightarrow>
   go_copy lo hi src dst = take lo dst @ src @ drop hi dst"
  by (simp add: go_copy_def)

section \<open>Batches\<close>

record Batch =
  b_ID :: bytes
  b_Value :: int
  b_Start :: u64
  b_Owner :: bytes
  b_Depth :: u8
  b_BucketDepth :: u8
  b_Immutable :: bool
  b_Radius :: u8

definition b_MarshalBinary :: "Batch \<Rightarrow> bytes option" where
  "b_MarshalBinary b =
     (let out0 = replicate 95 (0 :: byte);
          out1 = go_copy 0 95 (b_ID b) out0;
          value = big_Bytes (b_Value b)
      in if 64 < length value then None
         else
           let out2 = go_copy (64 - length value) 95 value out1;
               out3 = go_copy 64 72 (be_bytes 8 (unat (b_Start b))) out2;
               out4 = go_copy 72 95 (b_Owner b) out3;
               out5 = out4[92 := b_BucketDepth b];
               out6 = out5[93 := b_Depth b]
           in Some (if b_Immutable b then out6[94 := 1] else out6))"

text \<open>The receiver keeps its radius, which is not serialised.\<close>

definition b_UnmarshalBinary :: "bytes \<Rightarrow> Batch \<Rightarrow> Batch option" where
  "b_UnmarshalBinary buf b =
     (if length buf < 95 then None
      else Some (b\<lparr>b_ID := take 32 buf,
                   b_Value := int (be_val (take 32 (drop 32 buf))),
                   b_Start := word_of_nat (be_val (take 8 (drop 64 buf))),
                   b_Owner := take 20 (drop 72 buf),
                   b_BucketDepth := buf ! 92,
                   b_Depth := buf ! 93,
                   b_Immutable := 0 < buf ! 94\<rparr>))"

section \<open>Stamps\<close>

definition StampSize :: nat where "StampSize = 113"
definition IndexSize :: nat where "IndexSize = 8"

datatype 'e postage_error =
    ErrOwnerMismatch
  | ErrInvalidIndex
  | ErrStampInvalid
  | ErrBucketMismatch
  | ErrBucketFull
  | PostageNotFound
  | ErrNotUsable
  | BatchStoreErr store_error
  | CryptoErr 'e

record Stamp =
  sp_batchID :: bytes
  sp_index :: bytes
  sp_timestamp :: bytes
  sp_sig :: bytes

definition NewStamp :: "bytes \<Rightarrow> bytes \<Rightarrow> bytes \<Rightarrow> bytes \<Rightarrow> Stamp" where
  "NewStamp batchID index ts sig =
     \<lparr>sp_batchID = batchID, sp_index = index, sp_timestamp = ts, sp_sig = sig\<rparr>"

definition sp_MarshalBinary :: "Stamp \<Rightarrow> bytes" where
  "sp_MarshalBinary s =
     (let buf0 = replicate StampSize (0 :: byte);
          buf1 = go_copy 0 StampSize (sp_batchID s) buf0;
          buf2 = go_copy 32 40 (sp_index s) buf1;
          buf3 = go_copy 40 48 (sp_timestamp s) buf2
      in go_copy 48 StampSize (sp_sig s) buf3)"

definition sp_UnmarshalBinary :: "bytes \<Rightarrow> 'e postage_error + Stamp" where
  "sp_UnmarshalBinary buf =
     (if length buf \<noteq> StampSize then Inl ErrStampInvalid
      else Inr \<lparr>sp_batchID = take 32 buf, sp_index = take 8 (drop 32 buf),
                sp_timestamp = take 8 (drop 40 buf), sp_sig = drop 48 buf\<rparr>)"

text \<open>The four writes to the hasher feed it their concatenation; they cannot fail.\<close>

definition toSignDigest :: "(bytes \<Rightarrow> bytes) \<Rightarrow> bytes \<Rightarrow> bytes \<Rightarrow> bytes \<Rightarrow> bytes \<Rightarrow> bytes" where
  "toSignDigest hash addr batchId index ts = hash (addr @ batchId @ index @ ts)"

definition toBucket :: "u8 \<Rightarrow> Address \<Rightarrow> u32 option" where
  "toBucket depth addr =
     (if length addr < 4 then None
      else Some (drop_bit (unat (32 - depth)) (word_of_nat (be_val (take 4 addr)))))"

definition indexToBytes :: "u32 \<Rightarrow> u32 \<Rightarrow> bytes" where
  "indexToBytes bucket index = be_bytes 4 (unat bucket) @ be_bytes 4 (unat index)"

definition bytesToIndex :: "bytes \<Rightarrow> (u32 \<times> u32) option" where
  "bytesToIndex buf =
     (if length buf < 8 then None
      else let index64 = (word_of_nat (be_val (take 8 buf)) :: u64) in
           Some (ucast (drop_bit 32 index64), ucast index64))"

text \<open>\<open>1 << (depth - bucketDepth)\<close> at 32 bits: the subtraction wraps at 8 bits.\<close>

definition capacity :: "u8 \<Rightarrow> u8 \<Rightarrow> u32" where
  "capacity depth bucketDepth = push_bit (unat (depth - bucketDepth)) 1"

text \<open>\<open>recover\<close> and \<open>ethAddr\<close> are \<open>crypto.Recover\<close> and \<open>crypto.NewEthereumAddress\<close>.\<close>

definition sp_Valid ::
  "(bytes \<Rightarrow> bytes) \<Rightarrow> (bytes \<Rightarrow> bytes \<Rightarrow> 'e + 'pk) \<Rightarrow> ('pk \<Rightarrow> 'e + bytes) \<Rightarrow> Stamp \<Rightarrow> Address \<Rightarrow> bytes
   \<Rightarrow> u8 \<Rightarrow> u8 \<Rightarrow> 'e postage_error option option" where
  "sp_Valid hash recover ethAddr s chunkAddr ownerAddr depth bucketDepth =
     (let toSign = toSignDigest hash chunkAddr (sp_batchID s) (sp_index s) (sp_timestamp s) in
      case recover (sp_sig s) toSign of
        Inl e \<Rightarrow> Some (Some (CryptoErr e))
      | Inr signerPubkey \<Rightarrow>
         (case ethAddr signerPubkey of
            Inl e \<Rightarrow> Some (Some (CryptoErr e))
          | Inr signerAddr \<Rightarrow>
             (case bytesToIndex (sp_index s) of
                None \<Rightarrow> None
              | Some (bucket, index) \<Rightarrow>
                 (case toBucket bucketDepth chunkAddr of
                    None \<Rightarrow> None
                  | Some b \<Rightarrow>
                      if b \<noteq> bucket then Some (Some ErrBucketMismatch)
                      else if capacity depth bucketDepth \<le> index then Some (Some ErrInvalidIndex)
                      else if signerAddr \<noteq> ownerAddr then Some (Some ErrOwnerMismatch)
                      else Some None))))"

definition ValidStamp ::
  "(bytes \<Rightarrow> bytes) \<Rightarrow> (bytes \<Rightarrow> bytes \<Rightarrow> 'e + 'pk) \<Rightarrow> ('pk \<Rightarrow> 'e + bytes) \<Rightarrow> (bytes \<Rightarrow> store_error + Batch)
   \<Rightarrow> Stamp chunk \<Rightarrow> bytes \<Rightarrow> ('e postage_error + Stamp chunk) option" where
  "ValidStamp hash recover ethAddr getBatch ch stampBytes =
     (case sp_UnmarshalBinary stampBytes of
        Inl e \<Rightarrow> Some (Inl e)
      | Inr stamp \<Rightarrow>
         (case getBatch (sp_batchID stamp) of
            Inl store_error.ErrNotFound \<Rightarrow> Some (Inl PostageNotFound)
          | Inl e \<Rightarrow> Some (Inl (BatchStoreErr e))
          | Inr b \<Rightarrow>
             (case sp_Valid hash recover ethAddr stamp (ch_addr ch) (b_Owner b) (b_Depth b)
                     (b_BucketDepth b) of
                None \<Rightarrow> None
              | Some (Some e) \<Rightarrow> Some (Inl e)
              | Some None \<Rightarrow>
                  Some (Inr (WithBatch (b_Radius b) (b_Depth b) (b_BucketDepth b) (b_Immutable b)
                          (WithStamp stamp ch))))))"

section \<open>The issuer\<close>

record StampIssuer =
  si_Label :: string
  si_KeyID :: string
  si_BatchID :: bytes
  si_BatchAmount :: int
  si_BatchDepth :: u8
  si_BucketDepth :: u8
  si_Buckets :: "u32 list"
  si_MaxBucketCount :: u32
  si_BlockNumber :: u64
  si_ImmutableFlag :: bool

text \<open>\<open>make\<close> panics for a negative length, which \<open>1<<63\<close> is; from 64 on the shift is zero.\<close>

definition NewStampIssuer ::
  "string \<Rightarrow> string \<Rightarrow> bytes \<Rightarrow> int \<Rightarrow> u8 \<Rightarrow> u8 \<Rightarrow> u64 \<Rightarrow> bool \<Rightarrow> StampIssuer option" where
  "NewStampIssuer label keyID batchID amount batchDepth bucketDepth block immutable =
     (if unat bucketDepth = 63 then None
      else Some \<lparr>si_Label = label, si_KeyID = keyID, si_BatchID = batchID, si_BatchAmount = amount,
             si_BatchDepth = batchDepth, si_BucketDepth = bucketDepth,
             si_Buckets = replicate (if unat bucketDepth < 63 then 2 ^ unat bucketDepth else 0) 0,
             si_MaxBucketCount = 0, si_BlockNumber = block, si_ImmutableFlag = immutable\<rparr>)"

definition si_inc :: "Address \<Rightarrow> StampIssuer \<Rightarrow> (('e postage_error + bytes) \<times> StampIssuer) option" where
  "si_inc addr si =
     (case toBucket (si_BucketDepth si) addr of
        None \<Rightarrow> None
      | Some b \<Rightarrow>
          if length (si_Buckets si) \<le> unat b then None
          else
            let bucketCount = si_Buckets si ! unat b in
            if bucketCount = capacity (si_BatchDepth si) (si_BucketDepth si)
            then Some (Inl ErrBucketFull, si)
            else
              let buckets = (si_Buckets si)[unat b := bucketCount + 1];
                  si' = si\<lparr>si_Buckets := buckets\<rparr>;
                  si'' = (if si_MaxBucketCount si < buckets ! unat b
                          then si'\<lparr>si_MaxBucketCount := buckets ! unat b\<rparr> else si')
              in Some (Inr (indexToBytes b bucketCount), si''))"

definition stamper_Stamp ::
  "(bytes \<Rightarrow> bytes) \<Rightarrow> (bytes \<Rightarrow> 'e + bytes) \<Rightarrow> u64 \<Rightarrow> Address \<Rightarrow> StampIssuer
   \<Rightarrow> (('e postage_error + Stamp) \<times> StampIssuer) option" where
  "stamper_Stamp hash sign nanos addr si =
     (case si_inc addr si of
        None \<Rightarrow> None
      | Some (Inl e, si') \<Rightarrow> Some (Inl e, si')
      | Some (Inr index, si') \<Rightarrow>
          let ts = be_bytes 8 (unat nanos);
              toSign = toSignDigest hash addr (si_BatchID si) index ts in
          (case sign toSign of
             Inl e \<Rightarrow> Some (Inl (CryptoErr e), si')
           | Inr sig \<Rightarrow> Some (Inr (NewStamp (si_BatchID si) index ts sig), si')))"

section \<open>Round trips\<close>

definition batch_ok :: "Batch \<Rightarrow> bool" where
  "batch_ok b \<longleftrightarrow> length (b_ID b) = 32 \<and> 0 \<le> b_Value b \<and> b_Value b < 256 ^ 32 \<and> length (b_Owner b) = 20"

lemma go_copy_middle:
  "length xs = lo \<Longrightarrow> length src \<le> hi - lo \<Longrightarrow> length src = length ys \<Longrightarrow>
   go_copy lo hi src (xs @ ys @ zs) = xs @ src @ zs"
  by (simp add: go_copy_def min_def)

lemma b_Marshal_layout:
  assumes "batch_ok b"
  shows "b_MarshalBinary b = Some (b_ID b @ replicate (32 - length (big_Bytes (b_Value b))) 0
    @ big_Bytes (b_Value b) @ be_bytes 8 (unat (b_Start b)) @ b_Owner b
    @ [b_BucketDepth b, b_Depth b, if b_Immutable b then 1 else 0])"
proof -
  define v where "v = big_Bytes (b_Value b)"
  have len: "length v \<le> 32"
    using assms by (auto simp: v_def big_Bytes_def batch_ok_def intro!: length_nat_bytes)
  have id: "length (b_ID b) = 32" and ow: "length (b_Owner b) = 20"
    using assms by (simp_all add: batch_ok_def)
  define z where "z = (\<lambda>n. replicate n (0 :: byte))"
  have zs: "z (m + n) = z m @ z n" for m n by (simp add: z_def replicate_add)
  have lz [simp]: "length (z n) = n" for n by (simp add: z_def)
  have "z 95 = [] @ z 32 @ z 63" using zs [of 32 63] by simp
  then have c1: "go_copy 0 95 (b_ID b) (z 95) = b_ID b @ z 63"
    by (simp only: go_copy_middle [of "[]" 0 "b_ID b" 95 "z 32" "z 63"] id) (simp add: id go_copy_def z_def)
  have "z 63 = z (32 - length v) @ z (length v) @ z 31"
    using zs [of "32 - length v" "length v + 31"] zs [of "length v" 31] len by simp
  then have c2: "go_copy (64 - length v) 95 v (b_ID b @ z 63) = b_ID b @ z (32 - length v) @ v @ z 31"
    using go_copy_middle [of "b_ID b @ z (32 - length v)" "64 - length v" v 95 "z (length v)" "z 31"] len id
    by simp
  have "z 31 = z 8 @ z 23" using zs [of 8 23] by simp
  then have c3: "go_copy 64 72 (be_bytes 8 (unat (b_Start b))) (b_ID b @ z (32 - length v) @ v @ z 31) =
      b_ID b @ z (32 - length v) @ v @ be_bytes 8 (unat (b_Start b)) @ z 23"
    using go_copy_middle [of "b_ID b @ z (32 - length v) @ v" 64 "be_bytes 8 (unat (b_Start b))" 72 "z 8" "z 23"] len id
    by simp
  have "z 23 = z 20 @ z 3" using zs [of 20 3] by simp
  then have c4: "go_copy 72 95 (b_Owner b) (b_ID b @ z (32 - length v) @ v @ be_bytes 8 (unat (b_Start b)) @ z 23) =
      b_ID b @ z (32 - length v) @ v @ be_bytes 8 (unat (b_Start b)) @ b_Owner b @ z 3"
    using go_copy_middle [of "b_ID b @ z (32 - length v) @ v @ be_bytes 8 (unat (b_Start b))" 72 "b_Owner b" 95 "z 20" "z 3"]
      len id ow by simp
  have z3: "z 3 = [0, 0, 0]" by (simp add: z_def eval_nat_numeral)
  show ?thesis using len
    by (simp add: b_MarshalBinary_def Let_def v_def [symmetric] c1 [unfolded z_def] c2 [unfolded z_def]
        c3 [unfolded z_def] c4 [unfolded z_def])
      (auto simp: z3 [unfolded z_def] list_update_append id ow)
qed

lemma batch_roundtrip_aux:
  assumes "batch_ok b"
  shows "\<exists>bs. b_MarshalBinary b = Some bs \<and> length bs = 95
    \<and> b_UnmarshalBinary bs r = Some (b\<lparr>b_Radius := b_Radius r\<rparr>)"
proof -
  define v where "v = big_Bytes (b_Value b)"
  define bs where "bs = b_ID b @ (replicate (32 - length v) 0 @ v) @ be_bytes 8 (unat (b_Start b)) @ b_Owner b
    @ [b_BucketDepth b, b_Depth b, if b_Immutable b then 1 else 0]"
  have len: "length v \<le> 32"
    using assms by (auto simp: v_def big_Bytes_def batch_ok_def intro!: length_nat_bytes)
  have id: "length (b_ID b) = 32" and ow: "length (b_Owner b) = 20" and vb: "be_val v = nat (b_Value b)"
    using assms by (simp_all add: batch_ok_def v_def big_Bytes_def)
  have m: "b_MarshalBinary b = Some bs" using b_Marshal_layout [OF assms] by (simp add: bs_def v_def)
  have l: "length bs = 95" using len by (simp add: bs_def id ow)
  have st: "unat (b_Start b) < 256 ^ 8"
    using unsigned_less [of "b_Start b"] by simp
  have p1: "take 32 bs = b_ID b" by (simp add: bs_def id)
  have p2: "take 32 (drop 32 bs) = replicate (32 - length v) 0 @ v" using len by (simp add: bs_def id)
  have p3: "take 8 (drop 64 bs) = be_bytes 8 (unat (b_Start b))" using len by (simp add: bs_def id)
  have p4: "take 20 (drop 72 bs) = b_Owner b" using len by (simp add: bs_def id ow)
  have p5: "bs ! 92 = b_BucketDepth b" "bs ! 93 = b_Depth b" "(0 < bs ! 94) = b_Immutable b"
    using len by (auto simp: bs_def id ow nth_append)
  have "b_UnmarshalBinary bs r = Some (b\<lparr>b_Radius := b_Radius r\<rparr>)"
    using assms st by (cases b; cases r)
      (simp add: b_UnmarshalBinary_def l p1 p2 p3 p4 p5 vb batch_ok_def)
  with m l show ?thesis by blast
qed

lemma stamp_roundtrip_aux:
  assumes "length (sp_batchID st) = 32" "length (sp_index st) = 8" "length (sp_timestamp st) = 8"
    "length (sp_sig st) = 65"
  shows "length (sp_MarshalBinary st) = StampSize \<and> sp_UnmarshalBinary (sp_MarshalBinary st) = Inr st"
proof -
  define z where "z = (\<lambda>n. replicate n (0 :: byte))"
  have zs: "z (m + n) = z m @ z n" for m n by (simp add: z_def replicate_add)
  have [simp]: "length (z n) = n" for n by (simp add: z_def)
  have c1: "go_copy 0 113 (sp_batchID st) (z 113) = sp_batchID st @ z 8 @ z 73"
    using go_copy_middle [of "[]" 0 "sp_batchID st" 113 "z 32" "z 81"] zs [of 32 81] zs [of 8 73] assms
    by simp
  have c2: "go_copy 32 40 (sp_index st) (sp_batchID st @ z 8 @ z 73) = sp_batchID st @ sp_index st @ z 73"
    using assms by (intro go_copy_middle) simp_all
  have c3: "go_copy 40 48 (sp_timestamp st) (sp_batchID st @ sp_index st @ z 73) =
      sp_batchID st @ sp_index st @ sp_timestamp st @ z 65"
    using go_copy_middle [of "sp_batchID st @ sp_index st" 40 "sp_timestamp st" 48 "z 8" "z 65"]
      zs [of 8 65] assms by simp
  have c4: "go_copy 48 113 (sp_sig st) (sp_batchID st @ sp_index st @ sp_timestamp st @ z 65) =
      sp_batchID st @ sp_index st @ sp_timestamp st @ sp_sig st"
    using go_copy_middle [of "sp_batchID st @ sp_index st @ sp_timestamp st" 48 "sp_sig st" 113 "z 65" "[]"] assms
    by simp
  have m: "sp_MarshalBinary st = sp_batchID st @ sp_index st @ sp_timestamp st @ sp_sig st"
    by (simp add: sp_MarshalBinary_def StampSize_def Let_def c1 [unfolded z_def] c2 [unfolded z_def]
        c3 [unfolded z_def] c4 [unfolded z_def])
  show ?thesis using assms by (simp add: m sp_UnmarshalBinary_def StampSize_def)
qed

lemma unat_u32_less: "unat (w :: u32) < 2 ^ 32"
  using unsigned_less [of w] by simp

lemma index_roundtrip_aux: "bytesToIndex (indexToBytes b i) = Some (b, i)"
proof -
  have val: "be_val (indexToBytes b i) = unat b * 2 ^ 32 + unat i"
    using unat_u32_less [of b] unat_u32_less [of i] by (simp add: indexToBytes_def be_val_append)
  have bound: "unat b * 2 ^ 32 + unat i < 2 ^ 64"
    using unat_u32_less [of b] unat_u32_less [of i] by (simp add: mult_less_cancel2)
  define n where "n = unat b * 2 ^ 32 + unat i"
  define w where "w = (word_of_nat n :: u64)"
  have "n < 2 ^ 64" using bound by (simp only: n_def)
  then have "unat w = n" by (simp add: w_def unat_of_nat)
  then have w: "unat w = unat b * 2 ^ 32 + unat i" by (simp add: n_def)
  have "unat (drop_bit 32 w) = unat b"
    using unat_u32_less [of i] by (simp add: drop_bit_eq_div unat_div w)
  moreover have "unat (ucast (drop_bit 32 w) :: u32) = unat (drop_bit 32 w) mod 2 ^ 32"
    by (simp add: take_bit_eq_mod unsigned_ucast_eq)
  moreover have "unat (ucast w :: u32) = unat i"
    using unat_u32_less [of i] by (simp add: unsigned_ucast_eq take_bit_eq_mod w)
  ultimately have "ucast (drop_bit 32 w) = b" "(ucast w :: u32) = i"
    using unat_u32_less [of b] by (simp_all add: word_unat_eq_iff)
  moreover have "length (indexToBytes b i) = 8" by (simp add: indexToBytes_def)
  ultimately show ?thesis by (simp add: bytesToIndex_def val [folded n_def] w_def [symmetric])
qed

lemma length_indexToBytes [simp]: "length (indexToBytes b i) = 8"
  by (simp add: indexToBytes_def)

section \<open>The issuer never hands out an index twice\<close>

definition depths_ok :: "u8 \<Rightarrow> u8 \<Rightarrow> bool" where
  "depths_ok depth bucketDepth \<longleftrightarrow>
     bucketDepth \<le> depth \<and> unat bucketDepth \<le> 32 \<and> unat depth - unat bucketDepth < 32"

definition issuer_ok :: "StampIssuer \<Rightarrow> bool" where
  "issuer_ok si \<longleftrightarrow> depths_ok (si_BatchDepth si) (si_BucketDepth si)
     \<and> length (si_Buckets si) = 2 ^ unat (si_BucketDepth si)
     \<and> (\<forall>c \<in> set (si_Buckets si). c \<le> capacity (si_BatchDepth si) (si_BucketDepth si)
          \<and> c \<le> si_MaxBucketCount si)
     \<and> si_MaxBucketCount si \<in> set (si_Buckets si)"

lemma unat_capacity:
  assumes "depths_ok d b"
  shows "unat (capacity d b) = 2 ^ (unat d - unat b)"
proof -
  have "unat (d - b) = unat d - unat b" using assms by (simp add: depths_ok_def unat_sub)
  moreover have "unat (push_bit n (1 :: u32)) = 2 ^ n" if "n < 32" for n
  proof -
    have "(2 :: nat) ^ n < 2 ^ 32" using that by (intro power_strict_increasing) simp_all
    then show ?thesis unfolding unsigned_push_bit_eq by (simp add: take_bit_eq_mod push_bit_eq_mult)
  qed
  ultimately show ?thesis using assms by (simp add: capacity_def depths_ok_def)
qed

lemma toBucket_bound:
  assumes "4 \<le> length addr" and "unat d \<le> 32"
  obtains b where "toBucket d addr = Some b" "unat b < 2 ^ unat d"
proof -
  define w where "w = (word_of_nat (be_val (take 4 addr)) :: u32)"
  have "d \<le> 32" using assms(2) by (simp add: word_le_nat_alt)
  then have k: "unat (32 - d) = 32 - unat d" by (simp add: unat_sub)
  have "(2 :: nat) ^ 32 = 2 ^ unat d * 2 ^ (32 - unat d)"
    using assms(2) by (simp flip: power_add)
  then have "unat w div 2 ^ (32 - unat d) < 2 ^ unat d"
    using unat_u32_less [of w] by (simp add: less_mult_imp_div_less)
  moreover have "unat (drop_bit n w) = unat w div 2 ^ n" for n
    unfolding unat_drop_bit_eq by (simp add: drop_bit_eq_div)
  ultimately show ?thesis using that assms(1) k by (simp add: toBucket_def w_def)
qed

lemma si_inc_cases:
  assumes "issuer_ok si" and "4 \<le> length addr"
  obtains (full) b where "toBucket (si_BucketDepth si) addr = Some b" "unat b < length (si_Buckets si)"
      "si_Buckets si ! unat b = capacity (si_BatchDepth si) (si_BucketDepth si)"
      "(si_inc addr si :: (('e postage_error + bytes) \<times> StampIssuer) option) = Some (Inl ErrBucketFull, si)"
    | (issued) b si' where "toBucket (si_BucketDepth si) addr = Some b" "unat b < length (si_Buckets si)"
      "si_Buckets si ! unat b < capacity (si_BatchDepth si) (si_BucketDepth si)"
      "(si_inc addr si :: (('e postage_error + bytes) \<times> StampIssuer) option) =
        Some (Inr (indexToBytes b (si_Buckets si ! unat b)), si')"
      "si_Buckets si' = (si_Buckets si)[unat b := si_Buckets si ! unat b + 1]"
      "issuer_ok si'" "si_BatchDepth si' = si_BatchDepth si" "si_BucketDepth si' = si_BucketDepth si"
      "si_BatchID si' = si_BatchID si"
proof -
  let ?cap = "capacity (si_BatchDepth si) (si_BucketDepth si)"
  obtain b where b: "toBucket (si_BucketDepth si) addr = Some b" "unat b < 2 ^ unat (si_BucketDepth si)"
    using toBucket_bound [OF assms(2)] assms(1) unfolding issuer_ok_def depths_ok_def by blast
  then have len: "unat b < length (si_Buckets si)" using assms(1) by (simp add: issuer_ok_def)
  define c where "c = si_Buckets si ! unat b"
  have cin: "c \<in> set (si_Buckets si)" using len by (simp add: c_def)
  then have cle: "c \<le> ?cap" using assms(1) by (simp add: issuer_ok_def)
  show ?thesis
  proof (cases "c = ?cap")
    case True
    with b len show ?thesis by (intro full) (auto simp: si_inc_def c_def)
  next
    case False
    with cle have lt: "c < ?cap" by simp
    then have "unat c + 1 < 2 ^ 32" using unat_u32_less [of ?cap] by (simp add: word_less_nat_alt)
    then have "unat (c + 1) = Suc (unat c)" by (simp add: unat_word_ariths)
    with lt have suc: "c < c + 1" "c + 1 \<le> ?cap" by (simp_all add: word_less_nat_alt word_le_nat_alt)
    define si' where "si' = (let buckets = (si_Buckets si)[unat b := c + 1]; s1 = si\<lparr>si_Buckets := buckets\<rparr>
      in if si_MaxBucketCount si < c + 1 then s1\<lparr>si_MaxBucketCount := c + 1\<rparr> else s1)"
    have inc: "(si_inc addr si :: (('e postage_error + bytes) \<times> StampIssuer) option) = Some (Inr (indexToBytes b c), si')"
      using False len b by (simp add: si_inc_def c_def [symmetric] Let_def si'_def)
    have sel: "si_Buckets si' = (si_Buckets si)[unat b := c + 1]" "si_BatchDepth si' = si_BatchDepth si"
      "si_BucketDepth si' = si_BucketDepth si" "si_BatchID si' = si_BatchID si"
      "si_MaxBucketCount si' = max (si_MaxBucketCount si) (c + 1)"
      by (simp_all add: si'_def Let_def max_def)
        (metis linorder_not_le order.strict_implies_order order_antisym)
    have max: "si_MaxBucketCount si' \<in> set (si_Buckets si')"
    proof (cases "si_MaxBucketCount si < c + 1")
      case True
      then show ?thesis using len by (simp add: sel max.absorb4 set_update_memI)
    next
      case ge: False
      then obtain j where j: "j < length (si_Buckets si)" "si_Buckets si ! j = si_MaxBucketCount si"
        using assms(1) by (auto simp: issuer_ok_def in_set_conv_nth)
      then have "j \<noteq> unat b" using ge suc(1) by (auto simp: c_def)
      with j have "si_Buckets si' ! j = si_MaxBucketCount si" by (simp add: sel)
      with j ge show ?thesis by (metis (no_types, lifting) length_list_update max_def not_le nth_mem order.order_iff_strict sel(1) sel(5))
    qed
    have "issuer_ok si'"
      using assms(1) max suc(2)
      by (auto simp: issuer_ok_def sel dest!: set_update_subset_insert [THEN subsetD] intro: max.coboundedI1)
    with inc lt sel b len show ?thesis by (intro issued [of b si']) (simp_all add: c_def)
  qed
qed

text \<open>The indexes issued to a sequence of chunks, the refused ones skipped.\<close>

fun issue_all :: "Address list \<Rightarrow> StampIssuer \<Rightarrow> (bytes list \<times> StampIssuer) option" where
  "issue_all [] si = Some ([], si)"
| "issue_all (a # as) si =
     (case (si_inc a si :: ((unit postage_error + bytes) \<times> StampIssuer) option) of
        None \<Rightarrow> None
      | Some (Inl e, si') \<Rightarrow> issue_all as si'
      | Some (Inr ix, si') \<Rightarrow>
          (case issue_all as si' of None \<Rightarrow> None | Some (ixs, si'') \<Rightarrow> Some (ix # ixs, si'')))"

text \<open>An issued index lies in its bucket between the count before and the count after.\<close>

definition within :: "StampIssuer \<Rightarrow> StampIssuer \<Rightarrow> bytes \<Rightarrow> bool" where
  "within si si' ix \<longleftrightarrow> (\<exists>b i. ix = indexToBytes b i \<and> unat b < length (si_Buckets si)
     \<and> si_Buckets si ! unat b \<le> i \<and> i < si_Buckets si' ! unat b)"

definition grows :: "StampIssuer \<Rightarrow> StampIssuer \<Rightarrow> bool" where
  "grows si si' \<longleftrightarrow> length (si_Buckets si') = length (si_Buckets si)
     \<and> si_BatchDepth si' = si_BatchDepth si \<and> si_BucketDepth si' = si_BucketDepth si
     \<and> (\<forall>j < length (si_Buckets si). si_Buckets si ! j \<le> si_Buckets si' ! j)"

lemma indexToBytes_inject [simp]: "indexToBytes b i = indexToBytes b' i' \<longleftrightarrow> b = b' \<and> i = i'"
  using index_roundtrip_aux by (metis option.inject prod.inject)

lemma issue_all_unique:
  assumes "issuer_ok si" and "\<forall>a \<in> set as. 4 \<le> length a"
  shows "\<exists>ixs si'. issue_all as si = Some (ixs, si') \<and> issuer_ok si' \<and> distinct ixs
    \<and> grows si si' \<and> (\<forall>ix \<in> set ixs. within si si' ix)"
  using assms
proof (induction as arbitrary: si)
  case Nil
  then show ?case by (auto simp: grows_def)
next
  case (Cons a as)
  have a: "4 \<le> length a" using Cons.prems by simp
  show ?case
    using Cons.prems(1) a
  proof (cases rule: si_inc_cases [where ?'e = unit])
    case (full b)
    then show ?thesis using Cons.IH [OF Cons.prems(1)] Cons.prems(2) by simp
  next
    case (issued b si1)
    define c where "c = si_Buckets si ! unat b"
    obtain ixs si' where r: "issue_all as si1 = Some (ixs, si')" "issuer_ok si'" "distinct ixs"
      "grows si1 si'" and w: "\<forall>ix \<in> set ixs. within si1 si' ix"
      using Cons.IH [OF issued(6)] Cons.prems(2) by (metis list.set_intros(2))
    have "unat c + 1 < 2 ^ 32"
      using issued(3) unat_u32_less [of "capacity (si_BatchDepth si) (si_BucketDepth si)"]
      by (simp add: word_less_nat_alt c_def)
    then have "unat (c + 1) = Suc (unat c)" by (simp add: unat_word_ariths)
    then have lt: "c < c + 1" by (simp add: word_less_nat_alt)
    have sel: "si_Buckets si1 ! j = (if j = unat b then c + 1 else si_Buckets si ! j)" for j
      using issued(2) by (simp add: issued(5) c_def nth_list_update)
    have len: "length (si_Buckets si1) = length (si_Buckets si)" by (simp add: issued(5))
    have mono: "si_Buckets si ! j \<le> si_Buckets si1 ! j" for j
      using lt by (auto simp: sel c_def less_imp_le)
    have up: "si_Buckets si1 ! j \<le> si_Buckets si' ! j" if "j < length (si_Buckets si)" for j
      using r(4) that len by (simp add: grows_def)
    have "si_Buckets si ! j \<le> si_Buckets si' ! j" if "j < length (si_Buckets si)" for j
      using mono [of j] up [OF that] by (rule order.trans)
    then have g: "grows si si'" using r(4) issued(7,8) len by (simp add: grows_def)
    have top: "c + 1 \<le> si_Buckets si' ! unat b"
      using up [OF issued(2)] sel [of "unat b"] by simp
    have "c < si_Buckets si' ! unat b" using lt top by (rule less_le_trans)
    then have new: "within si si' (indexToBytes b c)"
      unfolding within_def using issued(2) by (intro exI [of _ b] exI [of _ c]) (simp add: c_def)
    have fresh: "indexToBytes b c \<notin> set ixs"
    proof
      assume "indexToBytes b c \<in> set ixs"
      with w have "within si1 si' (indexToBytes b c)" by blast
      then have "si_Buckets si1 ! unat b \<le> c" by (auto simp: within_def)
      with sel [of "unat b"] lt show False by simp
    qed
    have old: "within si si' ix" if "within si1 si' ix" for ix
    proof -
      from that obtain b' i where "ix = indexToBytes b' i" "unat b' < length (si_Buckets si1)"
        "si_Buckets si1 ! unat b' \<le> i" "i < si_Buckets si' ! unat b'" by (auto simp: within_def)
      moreover have "si_Buckets si ! unat b' \<le> i"
        using mono [of "unat b'"] calculation(3) by (rule order.trans)
      ultimately show ?thesis using len by (auto simp: within_def)
    qed
    have "issue_all (a # as) si = Some (indexToBytes b c # ixs, si')"
      using issued(4) r(1) by (simp add: c_def)
    then show ?thesis using r(2,3) g new fresh w old
      by (intro exI [of _ "indexToBytes b c # ixs"] exI [of _ si']) (auto simp del: issue_all.simps)
  qed
qed

lemma NewStampIssuer_ok:
  assumes "depths_ok depth bucketDepth"
  shows "\<exists>si. NewStampIssuer label key batchID amount depth bucketDepth block imm = Some si
    \<and> issuer_ok si \<and> si_BatchID si = batchID \<and> si_BatchDepth si = depth \<and> si_BucketDepth si = bucketDepth"
  using assms unfolding NewStampIssuer_def
  by (auto simp: issuer_ok_def depths_ok_def word_le_nat_alt)

section \<open>Properties\<close>

text \<open>C7. An issuer never gives the same index twice: whatever chunks it is asked to stamp, in whatever
  order, the indexes it hands out are pairwise distinct, each is within the capacity of its bucket,
  and the issuer keeps its counts and its maximum consistent; no call panics.\<close>

theorem issued_indexes_unique:
  assumes "depths_ok depth bucketDepth" and "\<forall>a \<in> set as. 4 \<le> length a"
    and "NewStampIssuer label key batchID amount depth bucketDepth block imm = Some si"
  shows "\<exists>ixs si'. issue_all as si = Some (ixs, si') \<and> distinct ixs \<and> issuer_ok si' \<and>
    (\<forall>ix \<in> set ixs. \<exists>b i. ix = indexToBytes b i \<and> unat b < 2 ^ unat bucketDepth \<and>
       unat i < 2 ^ (unat depth - unat bucketDepth))"
proof -
  have ok: "issuer_ok si" and d: "si_BatchDepth si = depth" "si_BucketDepth si = bucketDepth"
    using NewStampIssuer_ok [OF assms(1), of label key batchID amount block imm] assms(3) by simp_all
  obtain ixs si' where r: "issue_all as si = Some (ixs, si')" "issuer_ok si'" "distinct ixs"
      "grows si si'" "\<forall>ix \<in> set ixs. within si si' ix"
    using issue_all_unique [OF ok assms(2)] by blast
  have "\<exists>b i. ix = indexToBytes b i \<and> unat b < 2 ^ unat bucketDepth \<and>
      unat i < 2 ^ (unat depth - unat bucketDepth)" if "ix \<in> set ixs" for ix
  proof -
    from that r(5) obtain b i where bi: "ix = indexToBytes b i" "unat b < length (si_Buckets si)"
      "i < si_Buckets si' ! unat b" by (auto simp: within_def)
    have d': "si_BatchDepth si' = depth" "si_BucketDepth si' = bucketDepth"
      and len': "length (si_Buckets si') = length (si_Buckets si)"
      using r(4) d by (simp_all add: grows_def)
    have len: "length (si_Buckets si) = 2 ^ unat bucketDepth" using ok d by (simp add: issuer_ok_def)
    have "si_Buckets si' ! unat b \<in> set (si_Buckets si')" using bi(2) len' by simp
    then have "si_Buckets si' ! unat b \<le> capacity depth bucketDepth"
      using r(2) d' unfolding issuer_ok_def by metis
    with bi(3) have "unat i < unat (capacity depth bucketDepth)"
      by (simp add: word_less_nat_alt word_le_nat_alt)
    then show ?thesis using bi(1,2) len unat_capacity [OF assms(1)] by auto
  qed
  with r show ?thesis by blast
qed

theorem issued_indexes_unique_witness:
  "\<exists>si ixs si'. NewStampIssuer [] [] [] 0 3 2 0 False = Some si
    \<and> issue_all [[0, 0, 0, 0], [64, 0, 0, 0], [1, 0, 0, 0], [2, 0, 0, 0]] si = Some (ixs, si')
    \<and> distinct ixs"
proof -
  have d: "depths_ok 3 2" by (simp add: depths_ok_def)
  obtain si where si: "NewStampIssuer [] [] [] 0 3 2 0 False = Some si" using NewStampIssuer_ok [OF d] by blast
  have "\<forall>a \<in> set [[0, 0, 0, 0], [64, 0, 0, 0], [1, 0, 0, 0], [2, 0, 0, 0 :: byte]]. 4 \<le> length a" by simp
  from issued_indexes_unique [OF d this si] si show ?thesis by blast
qed

text \<open>A stamp the stamper issues is valid: if signatures recover to the owner of the batch, the
  validation that every receiving node runs accepts the stamp for the chunk it was issued for.\<close>

theorem issued_stamp_valid:
  fixes sign :: "bytes \<Rightarrow> 'e + bytes"
  assumes "issuer_ok si" and "4 \<le> length addr"
    and "stamper_Stamp hash sign nanos addr si = Some (Inr stamp, si')"
    and recover: "\<And>digest sig. sign digest = Inr sig \<Longrightarrow> recover sig digest = Inr pk"
    and owner: "ethAddr pk = Inr ownerAddr"
  shows "sp_Valid hash recover ethAddr stamp addr ownerAddr (si_BatchDepth si) (si_BucketDepth si) = Some None
    \<and> sp_batchID stamp = si_BatchID si"
  using assms(1,2)
proof (cases rule: si_inc_cases [where ?'e = 'e])
  case (full b)
  with assms(3) show ?thesis by (simp add: stamper_Stamp_def)
next
  case (issued b si1)
  obtain sig where sig: "sign (toSignDigest hash addr (si_BatchID si)
      (indexToBytes b (si_Buckets si ! unat b)) (be_bytes 8 (unat nanos))) = Inr sig"
    using assms(3) issued(4) by (auto simp: stamper_Stamp_def Let_def split: sum.splits)
  then have st: "stamp = NewStamp (si_BatchID si) (indexToBytes b (si_Buckets si ! unat b))
      (be_bytes 8 (unat nanos)) sig"
    using assms(3) issued(4) by (simp add: stamper_Stamp_def Let_def)
  have "\<not> capacity (si_BatchDepth si) (si_BucketDepth si) \<le> si_Buckets si ! unat b"
    using issued(3) by simp
  with recover [OF sig] owner issued(1) show ?thesis
    by (simp add: sp_Valid_def st NewStamp_def index_roundtrip_aux Let_def)
qed

text \<open>An abstract signature scheme for the witness: the signature is the signed digest.\<close>

theorem issued_stamp_valid_witness:
  "\<exists>si stamp si'. NewStampIssuer [] [] [9] 0 3 2 0 False = Some si
    \<and> stamper_Stamp (\<lambda>m. m) (\<lambda>d. Inr d :: unit + bytes) 5 [64, 0, 0, 0] si = Some (Inr stamp, si')
    \<and> sp_Valid (\<lambda>m. m) (\<lambda>sg d. if sg = d then Inr () else Inl ()) (\<lambda>_. Inr [7] :: unit + bytes) stamp
        [64, 0, 0, 0] [7] (si_BatchDepth si) (si_BucketDepth si) = Some None"
proof -
  have d: "depths_ok 3 2" by (simp add: depths_ok_def)
  obtain si where si: "NewStampIssuer [] [] [9] 0 3 2 0 False = Some si" "issuer_ok si"
    "si_BatchDepth si = 3" "si_BucketDepth si = 2" using NewStampIssuer_ok [OF d] by blast
  have full: "capacity 3 2 \<noteq> 0" using unat_capacity [OF d] by (auto simp: word_unat_eq_iff)
  have "si_Buckets si = replicate 4 0" using si(1) by (auto simp: NewStampIssuer_def)
  then obtain stamp si' where st: "stamper_Stamp (\<lambda>m. m) (\<lambda>d. Inr d :: unit + bytes) 5 [64, 0, 0, 0] si =
      Some (Inr stamp, si')"
    using full by (simp add: stamper_Stamp_def si_inc_def si toBucket_def be_val_def Let_def)
  from issued_stamp_valid [OF si(2) _ st, of "\<lambda>sg d. if sg = d then Inr () else Inl ()" "()"
      "\<lambda>_. Inr [7]" "[7]"] st si(1) show ?thesis by auto
qed

text \<open>C8. Validation is sound: a chunk that passes comes back with its address and data unchanged and
  the parsed stamp attached, the batch exists, the signature over chunk address, batch, index and time
  recovers to the owner of that batch, the stamp sits in the bucket of the chunk's address, and its
  index is within the capacity of the bucket.\<close>

theorem valid_stamp_sound:
  fixes recover :: "bytes \<Rightarrow> bytes \<Rightarrow> 'e + 'pk"
  assumes "ValidStamp hash recover ethAddr getBatch ch stampBytes = Some (Inr ch')"
  shows "\<exists>stamp b pk bucket index. stampBytes = sp_batchID stamp @ sp_index stamp @ sp_timestamp stamp @ sp_sig stamp
    \<and> getBatch (sp_batchID stamp) = Inr b
    \<and> recover (sp_sig stamp) (hash (ch_addr ch @ sp_batchID stamp @ sp_index stamp @ sp_timestamp stamp)) = Inr pk
    \<and> ethAddr pk = Inr (b_Owner b)
    \<and> bytesToIndex (sp_index stamp) = Some (bucket, index)
    \<and> toBucket (b_BucketDepth b) (ch_addr ch) = Some bucket \<and> index < capacity (b_Depth b) (b_BucketDepth b)
    \<and> ch' = WithBatch (b_Radius b) (b_Depth b) (b_BucketDepth b) (b_Immutable b) (WithStamp stamp ch)"
proof -
  obtain stamp where st: "(sp_UnmarshalBinary stampBytes :: 'e postage_error + Stamp) = Inr stamp"
    using assms by (auto simp: ValidStamp_def split: sum.splits)
  obtain b where b: "getBatch (sp_batchID stamp) = Inr b"
    using assms st by (auto simp: ValidStamp_def split: sum.splits store_error.splits)
  have v: "sp_Valid hash recover ethAddr stamp (ch_addr ch) (b_Owner b) (b_Depth b) (b_BucketDepth b) = Some None"
    and ch': "ch' = WithBatch (b_Radius b) (b_Depth b) (b_BucketDepth b) (b_Immutable b) (WithStamp stamp ch)"
    using assms st b by (auto simp: ValidStamp_def split: option.splits)
  have "stampBytes = sp_batchID stamp @ sp_index stamp @ sp_timestamp stamp @ sp_sig stamp"
    using st append_take_drop_id [of 32 stampBytes] append_take_drop_id [of 8 "drop 32 stampBytes"]
      append_take_drop_id [of 8 "drop 40 stampBytes"]
    by (auto simp: sp_UnmarshalBinary_def split: if_splits)
  with b ch' v show ?thesis
    by (intro exI [of _ stamp] exI [of _ b])
      (auto simp: sp_Valid_def toSignDigest_def Let_def split: sum.splits option.splits if_splits)
qed

theorem valid_stamp_sound_witness:
  "\<exists>ch' pk. ValidStamp (\<lambda>m. m) (\<lambda>sg d. Inr () :: unit + unit) (\<lambda>_. Inr [7])
      (\<lambda>id. Inr \<lparr>b_ID = id, b_Value = 0, b_Start = 0, b_Owner = [7], b_Depth = 3, b_BucketDepth = 2,
         b_Immutable = False, b_Radius = 0\<rparr>)
      (NewChunk [0, 0, 0, 0] []) (replicate 113 0) = Some (Inr ch') \<and> ch_addr ch' = [0, 0, 0, 0]
    \<and> (\<lambda>sg d. Inr () :: unit + unit) [] [] = Inr pk"
proof -
  have "bytesToIndex (replicate 8 0) = Some (0, 0)"
    using index_roundtrip_aux [of 0 0] by (simp add: indexToBytes_def be_bytes_zero flip: replicate_add)
  moreover have "toBucket 2 [0, 0, 0, 0] = Some 0" by (simp add: toBucket_def be_val_def)
  moreover have "\<not> capacity 3 2 \<le> 0"
    using unat_capacity [of 3 2] by (simp add: depths_ok_def word_le_nat_alt)
  ultimately obtain ch' where v: "ValidStamp (\<lambda>m. m) (\<lambda>sg d. Inr () :: unit + unit) (\<lambda>_. Inr [7])
      (\<lambda>id. Inr \<lparr>b_ID = id, b_Value = 0, b_Start = 0, b_Owner = [7], b_Depth = 3, b_BucketDepth = 2,
         b_Immutable = False, b_Radius = 0\<rparr>)
      (NewChunk [0, 0, 0, 0] []) (replicate 113 0) = Some (Inr ch')"
    by (simp add: ValidStamp_def sp_UnmarshalBinary_def StampSize_def sp_Valid_def NewChunk_def)
  from valid_stamp_sound [OF v] v show ?thesis
    by (auto simp: WithBatch_def WithStamp_def NewChunk_def)
qed

text \<open>Batches survive serialisation: for a 32-byte identifier, a 20-byte owner and a value that fits
  32 bytes, unmarshalling the marshalled batch gives it back (the radius, which is not serialised,
  comes from the receiver).\<close>

theorem batch_roundtrip:
  assumes "length (b_ID b) = 32" and "0 \<le> b_Value b" and "b_Value b < 256 ^ 32" and "length (b_Owner b) = 20"
  shows "\<exists>bs. b_MarshalBinary b = Some bs \<and> length bs = 95
    \<and> b_UnmarshalBinary bs r = Some (b\<lparr>b_Radius := b_Radius r\<rparr>)"
  using batch_roundtrip_aux [of b r] assms by (simp add: batch_ok_def)

theorem batch_roundtrip_witness:
  "\<exists>bs. b_MarshalBinary \<lparr>b_ID = replicate 32 1, b_Value = 1000, b_Start = 5, b_Owner = replicate 20 2,
      b_Depth = 20, b_BucketDepth = 16, b_Immutable = True, b_Radius = 0\<rparr> = Some bs \<and> length bs = 95"
  using batch_roundtrip [of "\<lparr>b_ID = replicate 32 1, b_Value = 1000, b_Start = 5, b_Owner = replicate 20 2,
      b_Depth = 20, b_BucketDepth = 16, b_Immutable = True, b_Radius = 0\<rparr>"] by auto

text \<open>Stamps survive serialisation, and the two halves of a stamp index (bucket and position) are
  recovered exactly.\<close>

theorem stamp_roundtrip:
  assumes "length (sp_batchID st) = 32" and "length (sp_timestamp st) = 8" and "length (sp_sig st) = 65"
    and "sp_index st = indexToBytes bucket index"
  shows "length (sp_MarshalBinary st) = StampSize \<and> sp_UnmarshalBinary (sp_MarshalBinary st) = Inr st
    \<and> bytesToIndex (sp_index st) = Some (bucket, index)"
  using stamp_roundtrip_aux [of st] assms by (simp add: index_roundtrip_aux)

theorem stamp_roundtrip_witness:
  "bytesToIndex (indexToBytes 3 9) = Some (3, 9)
    \<and> length (sp_MarshalBinary (NewStamp (replicate 32 1) (indexToBytes 3 9) (replicate 8 0) (replicate 65 4))) = 113"
  using stamp_roundtrip [of "NewStamp (replicate 32 1) (indexToBytes 3 9) (replicate 8 0) (replicate 65 4)" 3 9]
  by (auto simp: NewStamp_def StampSize_def)

text \<open>When the bucket depth exceeds the batch depth (by less than 225) the issuer refuses every
  chunk with \<open>ErrBucketFull\<close>: the wrapped shift makes the capacity zero. It does not panic.\<close>

theorem inverted_depths_refuse:
  assumes "si_BatchDepth si < si_BucketDepth si" and "unat (si_BucketDepth si) - unat (si_BatchDepth si) < 225"
    and "toBucket (si_BucketDepth si) addr = Some b" and "unat b < length (si_Buckets si)"
    and "si_Buckets si ! unat b = 0"
  shows "si_inc addr si = Some (Inl ErrBucketFull, si)"
proof -
  let ?d = "si_BatchDepth si" and ?b = "si_BucketDepth si"
  have "unat (?d - ?b) = unat ?d + 256 - unat ?b"
    using assms(1) by (simp add: unat_sub_if' word_less_nat_alt)
  then have "32 \<le> unat (?d - ?b)" using assms(1,2) by (simp add: word_less_nat_alt)
  then have "push_bit (unat (?d - ?b)) (1 :: u32) = 0"
    by (intro bit_eqI) (auto simp: bit_push_bit_iff bit_exp_iff)
  then have "capacity ?d ?b = 0" by (simp add: capacity_def)
  with assms(3-5) show ?thesis by (simp add: si_inc_def Let_def)
qed

theorem inverted_depths_refuse_witness:
  "\<exists>si. NewStampIssuer [] [] [] 0 1 2 0 False = Some si \<and>
    (si_inc [0, 0, 0, 0] si :: ((unit postage_error + bytes) \<times> StampIssuer) option) = Some (Inl ErrBucketFull, si)"
proof -
  obtain si where si: "NewStampIssuer [] [] [] 0 1 2 0 False = Some si" by (simp add: NewStampIssuer_def)
  then have "si_BatchDepth si = 1" "si_BucketDepth si = 2" "si_Buckets si = replicate 4 0"
    by (auto simp: NewStampIssuer_def)
  then have "(si_inc [0, 0, 0, 0] si :: ((unit postage_error + bytes) \<times> StampIssuer) option) =
      Some (Inl ErrBucketFull, si)"
    by (intro inverted_depths_refuse [where b = 0]) (simp_all add: toBucket_def be_val_def)
  with si show ?thesis by blast
qed

end
