(* ===== verification/PostageService.thy ===== *)
theory PostageService
  imports Postage Encodings
begin

text \<open>
  \<open>pkg/postage/service.go\<close>: the active stamp issuers and their persistence. The serialisation of one
  issuer is msgpack, third-party code; the store keeps issuers as values. The block number of the
  chain state is an argument.
\<close>

definition postagePrefix :: string where "postagePrefix = ''postage''"
definition blockThreshold :: u64 where "blockThreshold = 10"

text \<open>The verb \<open>%d\<close> of \<open>fmt\<close>.\<close>

definition FormatInt :: "int \<Rightarrow> string" where
  "FormatInt i = (if i < 0 then CHR ''-'' # FormatUint 10 (nat (- i)) else FormatUint 10 (nat i))"

definition svc_key :: "int \<Rightarrow> string" where
  "svc_key chainID = postagePrefix @ FormatInt chainID"

definition keyForIndex :: "int \<Rightarrow> nat \<Rightarrow> string" where
  "keyForIndex chainID i = svc_key chainID @ FormatUint 10 i"

record service =
  sv_chainID :: int
  sv_issuers :: "StampIssuer list"

definition svc_Add :: "StampIssuer \<Rightarrow> StampIssuer list \<Rightarrow> StampIssuer list" where
  "svc_Add st issuers =
     (if list_ex (\<lambda>v. si_BatchID st = si_BatchID v) issuers then issuers else issuers @ [st])"

definition svc_Handle :: "Batch \<Rightarrow> StampIssuer list \<Rightarrow> StampIssuer list option" where
  "svc_Handle b issuers =
     (case NewStampIssuer ''recovered'' (string_of_bytes (b_Owner b)) (b_ID b) (b_Value b) (b_Depth b)
             (b_BucketDepth b) (b_Start b) (b_Immutable b) of
        None \<Rightarrow> None
      | Some st \<Rightarrow> Some (svc_Add st issuers))"

fun load_issuers ::
  "('s, StampIssuer) StateStorer \<Rightarrow> int \<Rightarrow> 's \<Rightarrow> nat list \<Rightarrow> StampIssuer list
   \<Rightarrow> store_error + StampIssuer list" where
  "load_issuers S chainID st [] issuers = Inr issuers"
| "load_issuers S chainID st (i # is) issuers =
     (case st_Get S (keyForIndex chainID i) st of
        Inl e \<Rightarrow> Inl e
      | Inr si \<Rightarrow> load_issuers S chainID st is (svc_Add si issuers))"

definition count_func :: "(StampIssuer, nat, unit) StateIterFunc" where
  "count_func k v n = (n + 1, False, None)"

definition NewService :: "('s, StampIssuer) StateStorer \<Rightarrow> int \<Rightarrow> 's \<Rightarrow> store_error + service" where
  "NewService S chainID st =
     (case st_Iterate S (svc_key chainID) count_func st 0 of
        (_, Some (IterErr e)) \<Rightarrow> Inl e
      | (_, Some (FuncErr _)) \<Rightarrow> Inl ErrNotFound
      | (n, None) \<Rightarrow>
         (case load_issuers S chainID st [0..<n] [] of
            Inl e \<Rightarrow> Inl e
          | Inr issuers \<Rightarrow> Inr \<lparr>sv_chainID = chainID, sv_issuers = issuers\<rparr>))"

definition IssuerUsable :: "u64 \<Rightarrow> StampIssuer \<Rightarrow> bool" where
  "IssuerUsable csBlock st \<longleftrightarrow>
     \<not> (csBlock < si_BlockNumber st \<or> csBlock - si_BlockNumber st < blockThreshold)"

fun GetStampIssuer :: "u64 \<Rightarrow> bytes \<Rightarrow> StampIssuer list \<Rightarrow> unit postage_error + StampIssuer" where
  "GetStampIssuer csBlock batchID [] = Inl PostageNotFound"
| "GetStampIssuer csBlock batchID (st # issuers) =
     (if batchID = si_BatchID st
      then (if \<not> IssuerUsable csBlock st then Inl ErrNotUsable else Inr st)
      else GetStampIssuer csBlock batchID issuers)"

fun close_loop ::
  "('s, StampIssuer) StateStorer \<Rightarrow> int \<Rightarrow> nat \<Rightarrow> StampIssuer list \<Rightarrow> 's \<Rightarrow> store_error option \<times> 's" where
  "close_loop S chainID i [] st = (None, st)"
| "close_loop S chainID i (si # sis) st =
     (case st_Put S (keyForIndex chainID i) si st of
        Inl e \<Rightarrow> (Some e, st)
      | Inr st' \<Rightarrow> close_loop S chainID (i + 1) sis st')"

definition svc_Close :: "('s, StampIssuer) StateStorer \<Rightarrow> service \<Rightarrow> 's \<Rightarrow> store_error option \<times> 's" where
  "svc_Close S sv st = close_loop S (sv_chainID sv) 0 (sv_issuers sv) st"

section \<open>Issuers have distinct batches\<close>

definition issuers_ok :: "StampIssuer list \<Rightarrow> bool" where
  "issuers_ok issuers \<longleftrightarrow> distinct (map si_BatchID issuers)"

lemma svc_Add_ok: "issuers_ok issuers \<Longrightarrow> issuers_ok (svc_Add st issuers)"
  by (auto simp: issuers_ok_def svc_Add_def list_ex_iff)

lemma svc_Add_new: "si_BatchID st \<notin> si_BatchID ` set issuers \<Longrightarrow> svc_Add st issuers = issuers @ [st]"
  by (auto simp: svc_Add_def list_ex_iff)

lemma GetStampIssuer_in:
  "issuers_ok issuers \<Longrightarrow> st \<in> set issuers \<Longrightarrow>
   GetStampIssuer blk (si_BatchID st) issuers = (if IssuerUsable blk st then Inr st else Inl ErrNotUsable)"
proof (induction issuers)
  case Nil
  then show ?case by simp
next
  case (Cons a sts)
  show ?case
  proof (cases "st = a")
    case False
    then have m: "st \<in> set sts" using Cons.prems by simp
    have "si_BatchID st \<in> si_BatchID ` set sts" using m by (rule imageI)
    moreover have "si_BatchID a \<notin> si_BatchID ` set sts" using Cons.prems(1) by (simp add: issuers_ok_def)
    ultimately have "si_BatchID st \<noteq> si_BatchID a" by metis
    then show ?thesis using Cons.IH [OF _ m] Cons.prems(1) by (simp add: issuers_ok_def)
  qed simp
qed

lemma GetStampIssuer_out:
  "batchID \<notin> si_BatchID ` set issuers \<Longrightarrow> GetStampIssuer blk batchID issuers = Inl PostageNotFound"
  by (induction issuers) auto

section \<open>Persistence\<close>

lemma FormatUint10_inject:
  assumes "i < 2 ^ 64" and "j < 2 ^ 64"
  shows "FormatUint 10 i = FormatUint 10 j \<longleftrightarrow> i = j"
proof
  assume eq: "FormatUint 10 i = FormatUint 10 j"
  have b: "2 \<le> (10 :: nat)" "10 \<le> (36 :: nat)" by simp_all
  note ParseUint_FormatUint [OF b assms(1)] ParseUint_FormatUint [OF b assms(2)]
  with eq show "i = j" by (metis sum.inject(2))
qed (rule arg_cong)

lemma keyForIndex_inject:
  "i < 2 ^ 64 \<Longrightarrow> j < 2 ^ 64 \<Longrightarrow> keyForIndex c i = keyForIndex c j \<longleftrightarrow> i = j"
  by (simp add: keyForIndex_def FormatUint10_inject)

lemma count_loop: "iterate_loop (count_func :: (StampIssuer, nat, unit) StateIterFunc) es None n = (n + length es, None)"
  by (induction es arbitrary: n) (auto simp: count_func_def)

locale issuer_store = reliable_store S look
  for S :: "('s, StampIssuer) StateStorer" and look :: "'s \<Rightarrow> string \<Rightarrow> StampIssuer option"
begin

lemma close_loop_look:
  assumes "k + length sis < 2 ^ 64"
  shows "\<exists>st'. close_loop S c k sis st = (None, st') \<and>
    (\<forall>i < length sis. look st' (keyForIndex c (k + i)) = Some (sis ! i)) \<and>
    (\<forall>key. (\<forall>i < length sis. key \<noteq> keyForIndex c (k + i)) \<longrightarrow> look st' key = look st key)"
  using assms
proof (induction sis arbitrary: k st)
  case Nil
  then show ?case by simp
next
  case (Cons si sis)
  obtain s1 where s1: "st_Put S (keyForIndex c k) si st = Inr s1" using put_total by blast
  have l1: "look s1 = (look st)(keyForIndex c k \<mapsto> si)" using put_look [OF s1] .
  have "(k + 1) + length sis < 2 ^ 64" using Cons.prems by simp
  from Cons.IH [OF this, of s1] obtain st' where st': "close_loop S c (k + 1) sis s1 = (None, st')"
    and in': "\<forall>i < length sis. look st' (keyForIndex c (k + 1 + i)) = Some (sis ! i)"
    and out': "\<forall>key. (\<forall>i < length sis. key \<noteq> keyForIndex c (k + 1 + i)) \<longrightarrow> look st' key = look s1 key"
    by blast
  have "keyForIndex c k \<noteq> keyForIndex c (k + 1 + i)" if "i < length sis" for i
    using that Cons.prems by (simp add: keyForIndex_inject)
  then have "look st' (keyForIndex c k) = Some si" using out' l1 by simp
  then have "look st' (keyForIndex c (k + i)) = Some ((si # sis) ! i)" if "i < length (si # sis)" for i
    using in' that by (cases i) auto
  moreover have "look st' key = look st key" if k': "\<forall>i < length (si # sis). key \<noteq> keyForIndex c (k + i)" for key
  proof -
    have "key \<noteq> keyForIndex c (k + 1 + i)" if "i < length sis" for i
      using k' that by (auto dest: spec [of _ "Suc i"])
    moreover have "key \<noteq> keyForIndex c k" using k' by (auto dest: spec [of _ 0])
    ultimately show ?thesis using out' l1 by simp
  qed
  ultimately show ?case using s1 st' by auto
qed

lemma load_issuers_all:
  assumes "\<forall>i < length sis. look st (keyForIndex c (k + i)) = Some (sis ! i)"
    and "distinct (map si_BatchID (acc @ sis))"
  shows "load_issuers S c st [k..<k + length sis] acc = Inr (acc @ sis)"
  using assms
proof (induction sis arbitrary: k acc)
  case Nil
  then show ?case by simp
next
  case (Cons si sis)
  have "look st (keyForIndex c k) = Some si" using Cons.prems(1) by (auto dest: spec [of _ 0])
  then have g: "st_Get S (keyForIndex c k) st = Inr si" by (simp add: get_total)
  have add: "svc_Add si acc = acc @ [si]" using Cons.prems(2) by (intro svc_Add_new) auto
  have "\<forall>i < length sis. look st (keyForIndex c (k + 1 + i)) = Some (sis ! i)"
    using Cons.prems(1) by (auto dest: spec [of _ "Suc _"])
  from Cons.IH [OF this, of "acc @ [si]"] Cons.prems(2) g add show ?case
    by (simp add: upt_conv_Cons del: upt_Suc)
qed

end

context issuer_store
begin

lemma NewService_after_close:
  assumes ok: "issuers_ok (sv_issuers sv)" and len: "length (sv_issuers sv) < 2 ^ 64"
    and only: "\<forall>k. prefix (svc_key (sv_chainID sv)) k \<and> look st k \<noteq> None \<longrightarrow>
      (\<exists>i < length (sv_issuers sv). k = keyForIndex (sv_chainID sv) i)"
  shows "\<exists>st'. svc_Close S sv st = (None, st') \<and> NewService S (sv_chainID sv) st' = Inr sv"
proof -
  let ?c = "sv_chainID sv" and ?sis = "sv_issuers sv"
  obtain st' where cl: "close_loop S ?c 0 ?sis st = (None, st')"
    and in': "\<forall>i < length ?sis. look st' (keyForIndex ?c i) = Some (?sis ! i)"
    and out': "\<forall>key. (\<forall>i < length ?sis. key \<noteq> keyForIndex ?c i) \<longrightarrow> look st' key = look st key"
    using close_loop_look [of 0 ?sis ?c st] len by auto
  obtain es where es: "st_Iter S (svc_key ?c) st' = (es, None)"
    using iter_total [of "svc_key ?c" st'] by (metis prod.collapse)
  note set = iter_set [OF es]
  have keys: "set (map fst es) = keyForIndex ?c ` {..<length ?sis}"
  proof (intro set_eqI iffI)
    fix k assume "k \<in> set (map fst es)"
    then obtain v where k: "look st' k = Some v" "prefix (svc_key ?c) k" using set by auto
    show "k \<in> keyForIndex ?c ` {..<length ?sis}"
    proof (rule ccontr)
      assume no: "k \<notin> keyForIndex ?c ` {..<length ?sis}"
      then have "look st k = Some v" using out' k(1) by (metis imageI lessThan_iff)
      then have "look st k \<noteq> None" by simp
      with only k(2) no show False by (metis imageI lessThan_iff)
    qed
  next
    fix k assume "k \<in> keyForIndex ?c ` {..<length ?sis}"
    then obtain i where i: "i < length ?sis" "k = keyForIndex ?c i" by auto
    then have "(k, ?sis ! i) \<in> set es" using in' set by (auto simp: keyForIndex_def)
    then show "k \<in> set (map fst es)" by force
  qed
  have inj: "inj_on (keyForIndex ?c) {..<length ?sis}"
    using len by (intro inj_onI) (simp add: keyForIndex_inject)
  have "length es = card (set (map fst es))" using set by (metis distinct_card length_map)
  also have "\<dots> = length ?sis" by (simp only: keys card_image [OF inj] card_lessThan)
  finally have n: "length es = length ?sis" .
  have "load_issuers S ?c st' [0..<length ?sis] [] = Inr ?sis"
    using load_issuers_all [of ?sis st' ?c 0 "[]"] in' ok by (simp add: issuers_ok_def)
  then have "NewService S ?c st' = Inr sv"
    by (simp add: NewService_def st_Iterate_def es count_loop n)
  with cl show ?thesis by (simp add: svc_Close_def)
qed

end

interpretation inmem_issuers: issuer_store InMem "map_of :: StampIssuer mem \<Rightarrow> string \<Rightarrow> StampIssuer option"
  by unfold_locales

section \<open>Properties\<close>


definition ex_issuer :: "bytes \<Rightarrow> StampIssuer" where
  "ex_issuer batchID = \<lparr>si_Label = [], si_KeyID = [], si_BatchID = batchID, si_BatchAmount = 0,
     si_BatchDepth = 3, si_BucketDepth = 2, si_Buckets = [0, 0, 0, 0], si_MaxBucketCount = 0,
     si_BlockNumber = 0, si_ImmutableFlag = False\<rparr>"


lemma FormatUint10_digit: "d < 10 \<Longrightarrow> FormatUint 10 d = [digits36 ! d]"
  by (simp add: FormatUint.simps)

lemma FormatUint10_snoc: "0 < c \<Longrightarrow> d < 10 \<Longrightarrow> FormatUint 10 (10 * c + d) = FormatUint 10 c @ FormatUint 10 d"
  by (subst FormatUint.simps) (simp add: FormatUint10_digit)

text \<open>The keys of different chains overlap: the issuers of chain \<open>10 c + d\<close> lie under the prefix of
  chain \<open>c\<close>. A node that has stored issuers on the former and none on the latter cannot start the
  service for the latter: it counts foreign entries and then fails to find its own.\<close>

theorem chain_prefix_collision:
  assumes "0 < c" and "d < 10"
  shows "NewService InMem (int c) [(keyForIndex (int (10 * c + d)) 0, si)] = Inl ErrNotFound"
proof -
  have fc: "svc_key (int (10 * c + d)) = keyForIndex (int c) d"
    using assms by (simp add: svc_key_def keyForIndex_def FormatInt_def nat_mult_distrib nat_add_distrib
        FormatUint10_snoc [symmetric] nat_int_add)
  have key: "keyForIndex (int (10 * c + d)) 0 = svc_key (int c) @ FormatUint 10 d @ FormatUint 10 0"
    by (simp only: keyForIndex_def fc append_assoc)
  have "length (FormatUint 10 0) = 1" "length (FormatUint 10 d) = 1"
    using assms by (simp_all add: FormatUint10_digit)
  then have "keyForIndex (int c) 0 \<noteq> keyForIndex (int (10 * c + d)) 0"
    unfolding key by (auto simp: keyForIndex_def dest: arg_cong [of _ _ length])
  then show ?thesis
    unfolding key by (simp add: NewService_def st_Iterate_def mem_defs count_func_def)
qed

theorem chain_prefix_collision_witness:
  "NewService InMem (int 1) [(keyForIndex (int (10 * 1 + 0)) 0, ex_issuer [1])] = Inl ErrNotFound"
  by (rule chain_prefix_collision) simp_all

end
