(* ===== verification/BatchStore.thy ===== *)
theory BatchStore
  imports Postage
begin

text \<open>
  \<open>pkg/postage/batchstore\<close>: the batches known from the chain and the reserve. \<open>reserve.go\<close> keeps the
  value limits of the inner and outer tiers, the radius and the available capacity; \<open>store.go\<close> keeps
  batches by identifier and by value in the state store. The capacity is an \<open>int64\<close> and the radii
  and depths are 8-bit words, with Go's wrap-around; values are unbounded. The function that evicts a
  batch from the local store is a parameter (its error, or none); evictions and the calls to the radius
  setter are recorded. Every error ends the call it occurs in, so a panic (a value of more than 32 bytes,
  or a key too short) is one more error, \<open>Panic\<close>.
\<close>

section \<open>Powers of two and the reserve state\<close>

fun exp2_loop :: "nat \<Rightarrow> int \<Rightarrow> int" where
  "exp2_loop 0 b = b"
| "exp2_loop (Suc n) b = exp2_loop n (i64 (b * 2))"

definition exp2 :: "u8 \<Rightarrow> int" where
  "exp2 e = (if e = 0 then 1 else exp2_loop (unat e - 1) 2)"

definition DefaultDepth :: u8 where "DefaultDepth = 12"
definition Capacity :: int where "Capacity = exp2 22"

record reserveState =
  rs_Radius :: u8
  rs_StorageRadius :: u8
  rs_Available :: int
  rs_Outer :: int
  rs_Inner :: int

datatype tier = unreserved | inner | outer

definition rs_size :: "u8 \<Rightarrow> tier \<Rightarrow> reserveState \<Rightarrow> int" where
  "rs_size depth t rs =
     (let size = exp2 (depth - rs_Radius rs - 1) in
      case t of inner \<Rightarrow> size | outer \<Rightarrow> i64 (2 * size) | unreserved \<Rightarrow> 0)"

definition rs_tier :: "int \<Rightarrow> reserveState \<Rightarrow> tier" where
  "rs_tier x rs =
     (if x < rs_Inner rs \<or> rs_Inner rs = 0 then unreserved
      else if x < rs_Outer rs then inner else outer)"

definition rs_radius :: "tier \<Rightarrow> reserveState \<Rightarrow> u8" where
  "rs_radius t rs =
     (case t of unreserved \<Rightarrow> MaxPO | inner \<Rightarrow> rs_Radius rs | outer \<Rightarrow> rs_Radius rs - 1)"

definition setLimits :: "int \<Rightarrow> tier \<Rightarrow> reserveState \<Rightarrow> tier \<times> reserveState" where
  "setLimits val newTier rs =
     (if newTier \<noteq> unreserved then (newTier, rs)
      else if rs_Inner rs = 0 \<or> val < rs_Inner rs then
        (if rs_Outer rs = rs_Inner rs
         then (outer, rs\<lparr>rs_Outer := val, rs_Inner := val\<rparr>)
         else (inner, rs\<lparr>rs_Inner := val\<rparr>))
      else (unreserved, rs))"

definition rs_change :: "int \<Rightarrow> int \<Rightarrow> u8 \<Rightarrow> u8 \<Rightarrow> reserveState \<Rightarrow> int \<times> u8 \<times> reserveState" where
  "rs_change oldv newv oldDepth newDepth rs =
     (let oldTier = rs_tier oldv rs in
      case setLimits newv (rs_tier newv rs) rs of
        (newTier, rs') \<Rightarrow>
          let oldSize = rs_size oldDepth oldTier rs';
              newSize = rs_size newDepth newTier rs'
          in (i64 (oldSize - newSize), rs_radius newTier rs', rs'))"

section \<open>The queue of batches to unreserve\<close>

record UnreserveItem =
  ui_BatchID :: bytes
  ui_Radius :: u8

definition ui_MarshalBinary :: "UnreserveItem \<Rightarrow> bytes" where
  "ui_MarshalBinary u = (go_copy 0 33 (ui_BatchID u) (replicate 33 0))[32 := ui_Radius u]"

definition ui_UnmarshalBinary :: "bytes \<Rightarrow> UnreserveItem option" where
  "ui_UnmarshalBinary b =
     (if length b \<noteq> 33 then None
      else Some \<lparr>ui_BatchID = go_copy 0 32 (take 32 b) (replicate 32 0), ui_Radius = b ! 32\<rparr>)"

section \<open>State and keys\<close>

record ChainState =
  cs_Block :: u64
  cs_TotalAmount :: int
  cs_CurrentPrice :: int

text \<open>What the state store holds for this component and for the batch service, decoded. The queue items stay in their
  serialised form, which the iteration of \<open>Unreserve\<close> decodes itself.\<close>

datatype bs_val =
    BatchV Batch
  | NilV
  | ChainV ChainState
  | ReserveV reserveState
  | ItemV bytes
  | CardV u64
  | ChecksumV string
  | DirtyV bool

datatype bs_error =
    BsStore store_error
  | GetBatch bytes store_error
  | BadItem
  | EvictErr string
  | CbErr string
  | Panic

record 's BatchStore =
  bs_store :: 's
  bs_cs :: ChainState
  bs_rs :: reserveState
  queueIdx :: u64
  radiusSetter :: bool
  bs_radii :: "u8 list"
  bs_evicted :: "bytes list"

definition batchKeyPrefix :: string where "batchKeyPrefix = ''batchstore_batch_''"
definition valueKeyPrefix :: string where "valueKeyPrefix = ''batchstore_value_''"
definition chainStateKey :: string where "chainStateKey = ''batchstore_chainstate''"
definition reserveStateKey :: string where "reserveStateKey = ''batchstore_reservestate''"
definition unreserveQueueKey :: string where "unreserveQueueKey = ''batchstore_unreserve_queue_''"
definition ureserveQueueCardinalityKey :: string where
  "ureserveQueueCardinalityKey = ''batchstore_queue_cardinality''"

definition batchKey :: "bytes \<Rightarrow> string" where
  "batchKey bid = batchKeyPrefix @ string_of_bytes bid"

text \<open>\<open>FillBytes\<close> writes the absolute value and panics when it does not fit.\<close>

definition valueKey :: "int \<Rightarrow> bytes \<Rightarrow> string option" where
  "valueKey val bid =
     (if 256 ^ 32 \<le> nat \<bar>val\<bar> then None
      else Some (valueKeyPrefix @ string_of_bytes (be_bytes 32 (nat \<bar>val\<bar>)) @ string_of_bytes bid))"

definition valueKeyToID :: "string \<Rightarrow> bytes option" where
  "valueKeyToID key =
     (if length key < 32 then None else Some (bytes_of_string (drop (length key - 32) key)))"

definition queueKey :: "u64 \<Rightarrow> string" where
  "queueKey c = unreserveQueueKey @ CHR ''_'' # string_of_bytes (be_bytes 8 (unat c))"

section \<open>Reading and writing the store\<close>

type_synonym 's bstore = "('s, bs_val) StateStorer"

definition bs_put :: "'s bstore \<Rightarrow> string \<Rightarrow> bs_val \<Rightarrow> 's BatchStore \<Rightarrow> bs_error option \<times> 's BatchStore" where
  "bs_put S k v s =
     (case st_Put S k v (bs_store s) of
        Inl e \<Rightarrow> (Some (BsStore e), s)
      | Inr st \<Rightarrow> (None, s\<lparr>bs_store := st\<rparr>))"

definition bs_del :: "'s bstore \<Rightarrow> string \<Rightarrow> 's BatchStore \<Rightarrow> bs_error option \<times> 's BatchStore" where
  "bs_del S k s =
     (case st_Delete S k (bs_store s) of
        Inl e \<Rightarrow> (Some (BsStore e), s)
      | Inr st \<Rightarrow> (None, s\<lparr>bs_store := st\<rparr>))"

text \<open>A stored value of another type does not decode.\<close>

definition decode_err :: store_error where "decode_err = ErrStore ''decode''"

definition batch_radius :: "int \<Rightarrow> reserveState \<Rightarrow> u8" where
  "batch_radius val rs =
     (if rs_StorageRadius rs < rs_Radius rs then rs_StorageRadius rs
      else rs_radius (rs_tier val rs) rs)"

definition bs_Get :: "'s bstore \<Rightarrow> bytes \<Rightarrow> 's BatchStore \<Rightarrow> bs_error + Batch" where
  "bs_Get S bid s =
     (case st_Get S (batchKey bid) (bs_store s) of
        Inl e \<Rightarrow> Inl (GetBatch bid e)
      | Inr (BatchV b) \<Rightarrow> Inr (b\<lparr>b_Radius := batch_radius (b_Value b) (bs_rs s)\<rparr>)
      | Inr _ \<Rightarrow> Inl (GetBatch bid decode_err))"

definition bs_unreserve :: "'s bstore \<Rightarrow> bytes \<Rightarrow> u8 \<Rightarrow> 's BatchStore \<Rightarrow> bs_error option \<times> 's BatchStore" where
  "bs_unreserve S b radius s =
     (let c = queueIdx s + 1;
          i = \<lparr>ui_BatchID = b, ui_Radius = radius\<rparr> in
      case bs_put S (queueKey c) (ItemV (ui_MarshalBinary i)) s of
        (Some e, s1) \<Rightarrow> (Some e, s1)
      | (None, s1) \<Rightarrow>
         (case bs_put S ureserveQueueCardinalityKey (CardV c) s1 of
            (Some e, s2) \<Rightarrow> (Some e, s2)
          | (None, s2) \<Rightarrow> (None, s2\<lparr>queueIdx := c\<rparr>)))"

definition getQueueCardinality :: "'s bstore \<Rightarrow> 's \<Rightarrow> bs_error + u64" where
  "getQueueCardinality S st =
     (case st_Get S ureserveQueueCardinalityKey st of
        Inl store_error.ErrNotFound \<Rightarrow> Inr 0
      | Inl e \<Rightarrow> Inl (BsStore e)
      | Inr (CardV v) \<Rightarrow> Inr v
      | Inr _ \<Rightarrow> Inl (BsStore decode_err))"

definition zeroChain :: "u64 \<Rightarrow> ChainState" where
  "zeroChain block = \<lparr>cs_Block = block, cs_TotalAmount = 0, cs_CurrentPrice = 0\<rparr>"

definition zeroReserve :: reserveState where
  "zeroReserve = \<lparr>rs_Radius = DefaultDepth, rs_StorageRadius = 0, rs_Available = Capacity,
     rs_Outer = 0, rs_Inner = 0\<rparr>"

definition bs_New :: "'s bstore \<Rightarrow> 's \<Rightarrow> bs_error + 's BatchStore" where
  "bs_New S st =
     (case (case st_Get S chainStateKey st of
              Inl store_error.ErrNotFound \<Rightarrow> Inr (zeroChain 0)
            | Inl e \<Rightarrow> Inl (BsStore e)
            | Inr (ChainV c) \<Rightarrow> Inr c
            | Inr _ \<Rightarrow> Inl (BsStore decode_err)) of
        Inl e \<Rightarrow> Inl e
      | Inr cs \<Rightarrow>
         (case (case st_Get S reserveStateKey st of
                  Inl store_error.ErrNotFound \<Rightarrow> Inr zeroReserve
                | Inl e \<Rightarrow> Inl (BsStore e)
                | Inr (ReserveV r) \<Rightarrow> Inr r
                | Inr _ \<Rightarrow> Inl (BsStore decode_err)) of
            Inl e \<Rightarrow> Inl e
          | Inr rs \<Rightarrow>
             (case getQueueCardinality S st of
                Inl e \<Rightarrow> Inl e
              | Inr q \<Rightarrow> Inr \<lparr>bs_store = st, bs_cs = cs, bs_rs = rs, queueIdx = q,
                    radiusSetter = False, bs_radii = [], bs_evicted = []\<rparr>)))"

definition notify_radius :: "'s BatchStore \<Rightarrow> 's BatchStore" where
  "notify_radius s =
     (if radiusSetter s then s\<lparr>bs_radii := bs_radii s @ [rs_Radius (bs_rs s)]\<rparr> else s)"

section \<open>Unreserving\<close>

text \<open>The callback of \<open>Unreserve\<close>: \<open>cb\<close> is the caller's function; the captured state is the store and
  the entries to clean up.\<close>

type_synonym UnreserveIteratorFn = "bytes \<Rightarrow> u8 \<Rightarrow> string + bool"

definition Unreserve_func ::
  "'s bstore \<Rightarrow> UnreserveIteratorFn \<Rightarrow> (bs_val, 's BatchStore \<times> string list, bs_error) StateIterFunc" where
  "Unreserve_func S cb key val st =
     (case st of (s, entries) \<Rightarrow>
       (case val of
          ItemV bs \<Rightarrow>
           (case ui_UnmarshalBinary bs of
              None \<Rightarrow> (st, True, Some BadItem)
            | Some v \<Rightarrow>
               (case cb (ui_BatchID v) (ui_Radius v) of
                  Inl e \<Rightarrow> (st, True, Some (CbErr e))
                | Inr stop \<Rightarrow>
                    if rs_StorageRadius (bs_rs s) + 1 < ui_Radius v then
                      let s1 = s\<lparr>bs_rs := (bs_rs s)\<lparr>rs_StorageRadius := ui_Radius v - 1\<rparr>\<rparr> in
                      (case bs_put S reserveStateKey (ReserveV (bs_rs s1)) s1 of
                         (Some e, s2) \<Rightarrow> ((s2, entries), True, Some e)
                       | (None, s2) \<Rightarrow> ((s2, entries @ [key]), stop, None))
                    else ((s, entries @ [key]), stop, None)))
        | _ \<Rightarrow> (st, True, Some BadItem)))"

fun clean_entries :: "'s bstore \<Rightarrow> string list \<Rightarrow> 's BatchStore \<Rightarrow> 's BatchStore" where
  "clean_entries S [] s = s"
| "clean_entries S (k # ks) s =
     (case bs_del S k s of (Some e, s1) \<Rightarrow> s1 | (None, s1) \<Rightarrow> clean_entries S ks s1)"

definition iter_err :: "bs_error iter_error option \<Rightarrow> bs_error option" where
  "iter_err r = (case r of None \<Rightarrow> None | Some (IterErr e) \<Rightarrow> Some (BsStore e) | Some (FuncErr e) \<Rightarrow> Some e)"

definition Unreserve ::
  "'s bstore \<Rightarrow> UnreserveIteratorFn \<Rightarrow> 's BatchStore \<Rightarrow> bs_error option \<times> 's BatchStore" where
  "Unreserve S cb s =
     (case st_Iterate S unreserveQueueKey (Unreserve_func S cb) (bs_store s) (s, []) of
        ((s1, entries), r) \<Rightarrow> (iter_err r, clean_entries S entries s1))"

section \<open>Eviction\<close>

definition evict_until :: "'s BatchStore \<Rightarrow> int" where
  "evict_until s =
     (if 0 < rs_Inner (bs_rs s) \<and> rs_Inner (bs_rs s) \<le> cs_TotalAmount (bs_cs s)
      then cs_TotalAmount (bs_cs s) + 1 else rs_Inner (bs_rs s))"

text \<open>The callback of \<open>evictExpired\<close>: it captures the store, the multiplier and the batches to delete.\<close>

definition evictExpired_func ::
  "'s bstore \<Rightarrow> (bytes \<Rightarrow> string option) \<Rightarrow> int
   \<Rightarrow> (bs_val, 's BatchStore \<times> int \<times> bytes list, bs_error) StateIterFunc" where
  "evictExpired_func S evictFn until key v st =
     (case st of (s, multiplier, toDelete) \<Rightarrow>
       (case valueKeyToID key of
          None \<Rightarrow> (st, True, Some Panic)
        | Some bid \<Rightarrow>
           (case bs_Get S bid s of
              Inl e \<Rightarrow> (st, True, Some e)
            | Inr b \<Rightarrow>
                if until \<le> b_Value b then (st, True, None)
                else
                  let m1 = (if multiplier = 0 \<and> rs_Inner (bs_rs s) \<le> b_Value b then 1 else multiplier);
                      m2 = (if m1 = 1 \<and> rs_Outer (bs_rs s) \<le> b_Value b then 2 else m1) in
                  (case evictFn (b_ID b) of
                     Some e \<Rightarrow> ((s, m2, toDelete), True, Some (EvictErr e))
                   | None \<Rightarrow>
                       let rs = bs_rs s;
                           gain = i64 (m2 * exp2 (b_Radius b - rs_Radius rs - 1));
                           s1 = s\<lparr>bs_rs := rs\<lparr>rs_Available := i64 (rs_Available rs + gain)\<rparr>,
                                  bs_evicted := bs_evicted s @ [b_ID b]\<rparr> in
                       ((s1, m2,
                         if b_Value b \<le> cs_TotalAmount (bs_cs s) then toDelete @ [b_ID b] else toDelete),
                        False, None)))))"

fun bs_delete :: "'s bstore \<Rightarrow> bytes list \<Rightarrow> 's BatchStore \<Rightarrow> bs_error option \<times> 's BatchStore" where
  "bs_delete S [] s = (None, s)"
| "bs_delete S (bid # ids) s =
     (case bs_Get S bid s of
        Inl e \<Rightarrow> (Some e, s)
      | Inr b \<Rightarrow>
         (case valueKey (b_Value b) bid of
            None \<Rightarrow> (Some Panic, s)
          | Some k \<Rightarrow>
             (case bs_del S k s of
                (Some e, s1) \<Rightarrow> (Some e, s1)
              | (None, s1) \<Rightarrow>
                 (case bs_del S (batchKey bid) s1 of
                    (Some e, s2) \<Rightarrow> (Some e, s2)
                  | (None, s2) \<Rightarrow> bs_delete S ids s2))))"

definition evictExpired ::
  "'s bstore \<Rightarrow> (bytes \<Rightarrow> string option) \<Rightarrow> 's BatchStore \<Rightarrow> bs_error option \<times> 's BatchStore" where
  "evictExpired S evictFn s =
     (let until = evict_until s in
      case st_Iterate S valueKeyPrefix (evictExpired_func S evictFn until) (bs_store s) (s, 0, []) of
        ((s1, _, toDelete), r) \<Rightarrow>
         (case iter_err r of
            Some e \<Rightarrow> (Some e, s1)
          | None \<Rightarrow>
              let rs = bs_rs s1;
                  s2 = s1\<lparr>bs_rs := rs\<lparr>rs_Inner := until,
                            rs_Outer := if rs_Outer rs < until then until else rs_Outer rs\<rparr>\<rparr> in
              (case bs_put S reserveStateKey (ReserveV (bs_rs s2)) s2 of
                 (Some e, s3) \<Rightarrow> (Some e, s3)
               | (None, s3) \<Rightarrow> bs_delete S toDelete s3)))"

text \<open>The callback and the recursion of \<open>evictOuter\<close>. Each round in which the capacity stays negative
  raises the radius; the recursion is bounded by fuel, and \<open>None\<close> is running out of it.\<close>

definition evictOuter_func ::
  "'s bstore \<Rightarrow> Batch \<Rightarrow> (bs_val, 's BatchStore, bs_error) StateIterFunc" where
  "evictOuter_func S latest key v s =
     (case valueKeyToID key of
        None \<Rightarrow> (s, True, Some Panic)
      | Some batchID \<Rightarrow>
         (case (if b_ID latest = batchID then Inr latest else bs_Get S batchID s) of
            Inl e \<Rightarrow> (s, True, Some e)
          | Inr b \<Rightarrow>
              let rs = bs_rs s in
              if b_Value b < rs_Outer rs then (s, False, None)
              else if 0 \<le> rs_Available rs \<and> rs_Outer rs \<noteq> b_Value b then (s, True, None)
              else
                let s1 = s\<lparr>bs_rs := rs\<lparr>rs_Available := i64 (rs_Available rs + exp2 (b_Depth b - rs_Radius rs - 1)),
                                       rs_Outer := b_Value b\<rparr>\<rparr> in
                (case bs_unreserve S (b_ID b) (rs_Radius rs) s1 of
                   (e, s2) \<Rightarrow> (s2, False, e))))"

fun evictOuter ::
  "nat \<Rightarrow> 's bstore \<Rightarrow> Batch \<Rightarrow> 's BatchStore \<Rightarrow> (bs_error option \<times> 's BatchStore) option" where
  "evictOuter 0 S latest s = None"
| "evictOuter (Suc n) S latest s =
     (if 0 \<le> rs_Available (bs_rs s) then Some (None, s)
      else
        (case st_Iterate S valueKeyPrefix (evictOuter_func S latest) (bs_store s) s of
           (s1, r) \<Rightarrow>
            (case iter_err r of
               Some e \<Rightarrow> Some (Some e, s1)
             | None \<Rightarrow>
                 let rs1 = (bs_rs s1)\<lparr>rs_Outer := rs_Outer (bs_rs s1) + 1\<rparr>;
                     s2 = s1\<lparr>bs_rs := rs1\<rparr> in
                 if rs_Available rs1 < 0 then
                   evictOuter n S latest
                     (s2\<lparr>bs_rs := rs1\<lparr>rs_Radius := rs_Radius rs1 + 1, rs_Outer := rs_Inner rs1\<rparr>\<rparr>)
                 else Some (bs_put S reserveStateKey (ReserveV rs1) s2))))"

section \<open>Put and the chain state\<close>

definition bs_update ::
  "nat \<Rightarrow> 's bstore \<Rightarrow> Batch \<Rightarrow> u8 \<Rightarrow> int \<Rightarrow> 's BatchStore \<Rightarrow> (bs_error option \<times> 's BatchStore) option" where
  "bs_update fuel S b oldDepth oldValue s =
     (case rs_change oldValue (b_Value b) oldDepth (b_Depth b) (bs_rs s) of
        (capacityChange, reserveRadius, rs1) \<Rightarrow>
          let s1 = s\<lparr>bs_rs := rs1\<lparr>rs_Available := i64 (rs_Available rs1 + capacityChange)\<rparr>\<rparr> in
          (case bs_unreserve S (b_ID b) reserveRadius s1 of
             (Some e, s2) \<Rightarrow> Some (Some e, s2)
           | (None, s2) \<Rightarrow> evictOuter fuel S b s2))"

definition bs_Put ::
  "nat \<Rightarrow> 's bstore \<Rightarrow> Batch \<Rightarrow> int \<Rightarrow> u8 \<Rightarrow> 's BatchStore \<Rightarrow> (bs_error option \<times> 's BatchStore) option" where
  "bs_Put fuel S b value depth s =
     (case valueKey (b_Value b) (b_ID b) of
        None \<Rightarrow> Some (Some Panic, s)
      | Some oldKey \<Rightarrow>
         (case bs_del S oldKey s of
            (Some e, s1) \<Rightarrow> Some (Some e, s1)
          | (None, s1) \<Rightarrow>
              let b' = b\<lparr>b_Value := value, b_Depth := depth\<rparr> in
              (case valueKey value (b_ID b) of
                 None \<Rightarrow> Some (Some Panic, s1)
               | Some newKey \<Rightarrow>
                  (case bs_put S newKey NilV s1 of
                     (Some e, s2) \<Rightarrow> Some (Some e, s2)
                   | (None, s2) \<Rightarrow>
                      (case bs_update fuel S b' (b_Depth b) (b_Value b) s2 of
                         None \<Rightarrow> None
                       | Some (Some e, s3) \<Rightarrow> Some (Some e, s3)
                       | Some (None, s3) \<Rightarrow>
                           Some (bs_put S (batchKey (b_ID b)) (BatchV b') (notify_radius s3)))))))"

definition PutChainState ::
  "'s bstore \<Rightarrow> (bytes \<Rightarrow> string option) \<Rightarrow> ChainState \<Rightarrow> 's BatchStore \<Rightarrow> bs_error option \<times> 's BatchStore" where
  "PutChainState S evictFn cs s =
     (case evictExpired S evictFn (s\<lparr>bs_cs := cs\<rparr>) of
        (Some e, s1) \<Rightarrow> (Some e, s1)
      | (None, s1) \<Rightarrow> bs_put S chainStateKey (ChainV cs) (notify_radius s1))"

definition Reset_func :: "'s bstore \<Rightarrow> (bs_val, 's BatchStore, bs_error) StateIterFunc" where
  "Reset_func S k v s = (case bs_del S k s of (e, s1) \<Rightarrow> (s1, False, e))"

definition bs_Reset :: "'s bstore \<Rightarrow> u64 \<Rightarrow> 's BatchStore \<Rightarrow> bs_error option \<times> 's BatchStore" where
  "bs_Reset S startBlock s =
     (case st_Iterate S ''batchstore_'' (Reset_func S) (bs_store s) s of
        (s1, r) \<Rightarrow>
         (case iter_err r of
            Some e \<Rightarrow> (Some e, s1)
          | None \<Rightarrow> (None, s1\<lparr>bs_cs := zeroChain startBlock, bs_rs := zeroReserve\<rparr>)))"

section \<open>Arithmetic of the capacity\<close>

lemma i64_shift: "i64 (x + 2 ^ 64 * q) = i64 x"
proof -
  have "x + 2 ^ 64 * q + 2 ^ 63 = (x + 2 ^ 63) + 2 ^ 64 * q" by simp
  then have "(x + 2 ^ 64 * q + 2 ^ 63) mod 2 ^ 64 = (x + 2 ^ 63) mod 2 ^ 64" by (metis mod_mult_self2)
  then show ?thesis by (simp only: i64_def)
qed

lemma i64_diff: "\<exists>q. i64 x = x + 2 ^ 64 * q"
proof -
  define d where "d = (x + 2 ^ 63) div 2 ^ 64"
  have "d * 2 ^ 64 + (x + 2 ^ 63) mod 2 ^ 64 = x + 2 ^ 63" unfolding d_def by (rule div_mult_mod_eq)
  moreover have "r - k = x + m * - d" if "d * m + r = x + k" for r k m
    using that by (simp add: algebra_simps)
  ultimately have "i64 x = x + 2 ^ 64 * - d" unfolding i64_def by blast
  then show ?thesis by blast
qed

lemma i64_mult2: "i64 (i64 x * 2) = i64 (x * 2)"
proof -
  obtain q where "i64 x = x + 2 ^ 64 * q" using i64_diff by blast
  then have "i64 x * 2 = x * 2 + 2 ^ 64 * (q * 2)" by (simp add: algebra_simps)
  then show ?thesis by (simp only: i64_shift)
qed

lemma exp2_loop_eq: "exp2_loop n (i64 x) = i64 (x * 2 ^ n)"
proof (induction n arbitrary: x)
  case 0
  then show ?case by simp
next
  case (Suc n)
  have "exp2_loop (Suc n) (i64 x) = exp2_loop n (i64 (x * 2))" by (simp add: i64_mult2)
  also have "\<dots> = i64 (x * 2 ^ Suc n)" by (simp add: Suc.IH mult.assoc)
  finally show ?case .
qed

lemma exp2_eq: "exp2 e = i64 (2 ^ unat e)"
proof (cases "e = 0")
  case True
  then show ?thesis by (simp add: exp2_def)
next
  case False
  then obtain n where n: "unat e = Suc n" by (cases "unat e") (auto simp: unat_eq_0)
  have "exp2 e = exp2_loop n (i64 2)" using False by (simp add: exp2_def n)
  then show ?thesis by (simp only: exp2_loop_eq n power_Suc)
qed

lemma exp2_small: "unat e < 63 \<Longrightarrow> exp2 e = 2 ^ unat e"
proof -
  assume "unat e < 63"
  then have "(2 :: int) ^ unat e < 2 ^ 63" by (intro power_strict_increasing) simp_all
  moreover have "- (2 ^ 63) \<le> (2 :: int) ^ unat e" by (rule order.trans [of _ 0]) simp_all
  ultimately show ?thesis by (simp only: exp2_eq i64_id)
qed

lemma exp2_large: "64 \<le> unat e \<Longrightarrow> exp2 e = 0"
proof -
  assume "64 \<le> unat e"
  then have "(2 :: int) ^ 64 dvd 2 ^ unat e" by (rule le_imp_power_dvd)
  then obtain q where q: "(2 :: int) ^ unat e = 2 ^ 64 * q" by (elim dvdE)
  have "(2 ^ 64 * q + 2 ^ 63) mod 2 ^ 64 = (2 ^ 63 :: int)" by simp
  then show ?thesis by (simp only: exp2_eq q i64_def)
qed

section \<open>Keys sort by value\<close>

lemma string_less_iff: "string_of_bytes a < string_of_bytes b \<longleftrightarrow> a < b"
proof (induction a arbitrary: b)
  case Nil
  then show ?case by (cases b) (simp_all add: string_of_bytes_def)
next
  case (Cons x xs)
  show ?case
  proof (cases b)
    case (Cons y ys)
    have "char_of (unat x) < (char_of (unat y) :: char) \<longleftrightarrow> x < y"
      by (simp add: less_char_def word_less_nat_alt)
    moreover have "(char_of (unat x) :: char) = char_of (unat y) \<longleftrightarrow> x = y"
      using string_of_bytes_inject [of "[x]" "[y]"] by (simp add: string_of_bytes_def)
    ultimately show ?thesis using Cons.IH [of ys] by (simp add: string_of_bytes_def \<open>b = y # ys\<close>)
  qed (simp add: string_of_bytes_def)
qed

lemma append_less_same: "(p @ a < p @ (b :: string)) \<longleftrightarrow> a < b"
  by (induction p) simp_all

lemma append_less_iff:
  "length (a :: bytes) = length a' \<Longrightarrow> a @ b < a' @ b' \<longleftrightarrow> a < a' \<or> a = a' \<and> b < b'"
  by (induction a a' rule: list_induct2) auto

lemma be_bytes_less_iff:
  "x < 256 ^ n \<Longrightarrow> y < 256 ^ n \<Longrightarrow> be_bytes n x < be_bytes n y \<longleftrightarrow> x < y"
  using be_val_less_iff [of "be_bytes n x" "be_bytes n y"] by simp

lemma valueKey_less_iff:
  assumes "valueKey v a = Some k" "valueKey w b = Some l" "0 \<le> v" "0 \<le> w"
  shows "k < l \<longleftrightarrow> v < w \<or> v = w \<and> a < b"
proof -
  have v: "nat v < 256 ^ 32" and w: "nat w < 256 ^ 32"
    and k: "k = valueKeyPrefix @ string_of_bytes (be_bytes 32 (nat v) @ a)"
    and l: "l = valueKeyPrefix @ string_of_bytes (be_bytes 32 (nat w) @ b)"
    using assms by (auto simp: valueKey_def string_of_bytes_def split: if_splits)
  have "k < l \<longleftrightarrow> be_bytes 32 (nat v) @ a < be_bytes 32 (nat w) @ b"
    unfolding k l append_less_same string_less_iff ..
  also have "\<dots> \<longleftrightarrow> nat v < nat w \<or> nat v = nat w \<and> a < b"
    using be_bytes_less_iff [OF v w] be_bytes_inject [OF v w] by (simp add: append_less_iff)
  finally show ?thesis using assms(3,4) by auto
qed

lemma valueKey_prefix: "valueKey v a = Some k \<Longrightarrow> prefix valueKeyPrefix k"
  by (auto simp: valueKey_def split: if_splits)

lemma valueKeyToID_valueKey:
  assumes "valueKey v a = Some k" "length a = 32"
  shows "valueKeyToID k = Some a"
proof -
  have k: "k = (valueKeyPrefix @ string_of_bytes (be_bytes 32 (nat \<bar>v\<bar>))) @ string_of_bytes a"
    using assms(1) by (auto simp: valueKey_def split: if_splits)
  have "drop (length k - 32) k = string_of_bytes a" using assms(2) unfolding k by simp
  moreover have "\<not> length k < 32" unfolding k using assms(2) by simp
  ultimately show ?thesis by (simp add: valueKeyToID_def)
qed

lemma batchKey_inject [simp]: "batchKey a = batchKey b \<longleftrightarrow> a = b"
  by (simp add: batchKey_def)

lemma batchKey_not:
  "valueKey v a = Some k \<Longrightarrow> batchKey b \<noteq> k" "batchKey b \<noteq> queueKey c" "batchKey b \<noteq> reserveStateKey"
  "batchKey b \<noteq> ureserveQueueCardinalityKey" "batchKey b \<noteq> chainStateKey"
  by (auto simp: batchKey_def batchKeyPrefix_def valueKey_def valueKeyPrefix_def queueKey_def
      unreserveQueueKey_def reserveStateKey_def ureserveQueueCardinalityKey_def chainStateKey_def
      split: if_splits)

lemma valueKey_not:
  "prefix valueKeyPrefix k \<Longrightarrow> k \<noteq> queueKey c" "prefix valueKeyPrefix k \<Longrightarrow> k \<noteq> reserveStateKey"
  "prefix valueKeyPrefix k \<Longrightarrow> k \<noteq> ureserveQueueCardinalityKey" "prefix valueKeyPrefix k \<Longrightarrow> k \<noteq> chainStateKey"
  "prefix valueKeyPrefix k \<Longrightarrow> k \<noteq> batchKey b"
  by (auto simp: batchKey_def batchKeyPrefix_def valueKeyPrefix_def queueKey_def
      unreserveQueueKey_def reserveStateKey_def ureserveQueueCardinalityKey_def chainStateKey_def
      prefix_def)

lemma queueKey_less_iff: "queueKey c < queueKey d \<longleftrightarrow> c < d"
proof -
  have "unat (w :: u64) < 256 ^ 8" for w using unsigned_less [of w] by simp
  then have "be_bytes 8 (unat c) < be_bytes 8 (unat d) \<longleftrightarrow> unat c < unat d"
    by (intro be_bytes_less_iff)
  then show ?thesis by (simp add: queueKey_def append_less_same string_less_iff word_less_nat_alt)
qed

section \<open>The capacity after an eviction\<close>

definition same_reserve :: "reserveState \<Rightarrow> reserveState \<Rightarrow> bool" where
  "same_reserve rs rs' \<longleftrightarrow> rs_Available rs' = rs_Available rs \<and> rs_Radius rs' = rs_Radius rs
     \<and> rs_StorageRadius rs' = rs_StorageRadius rs"

lemma evict_gain_zero:
  assumes "rs_StorageRadius rs < rs_Radius rs" and "unat (rs_Radius rs) \<le> 190"
  shows "exp2 (batch_radius v rs - rs_Radius rs - 1) = 0"
proof -
  define d where "d = unat (rs_Radius rs) - unat (rs_StorageRadius rs)"
  have d: "0 < d" "d \<le> 190" using assms by (auto simp: d_def word_less_nat_alt)
  have "unat (rs_StorageRadius rs - rs_Radius rs) = 256 - d"
    using assms by (simp add: unat_sub_if' word_less_nat_alt word_le_nat_alt d_def)
  then have "unat (rs_StorageRadius rs - rs_Radius rs - 1) = 255 - d"
    using d by (simp add: unat_sub_if')
  then have "64 \<le> unat (rs_StorageRadius rs - rs_Radius rs - 1)" using d by simp
  then show ?thesis using assms by (simp add: batch_radius_def exp2_large)
qed

lemma bs_put_frame: "bs_put S k v s = (r, s') \<Longrightarrow> bs_rs s' = bs_rs s \<and> bs_cs s' = bs_cs s"
  by (auto simp: bs_put_def split: sum.splits)

lemma bs_del_frame: "bs_del S k s = (r, s') \<Longrightarrow> bs_rs s' = bs_rs s \<and> bs_cs s' = bs_cs s"
  by (auto simp: bs_del_def split: sum.splits)

lemma bs_delete_frame: "bs_delete S ids s = (r, s') \<Longrightarrow> bs_rs s' = bs_rs s \<and> bs_cs s' = bs_cs s"
proof (induction ids arbitrary: s)
  case Nil
  then show ?case by simp
next
  case (Cons bid ids)
  from Cons.prems show ?case
    by (auto dest!: bs_del_frame Cons.IH split: sum.splits option.splits prod.splits)
qed

lemma evictExpired_available:
  assumes "rs_StorageRadius (bs_rs s) < rs_Radius (bs_rs s)" and "unat (rs_Radius (bs_rs s)) \<le> 190"
    and "- (2 ^ 63) \<le> rs_Available (bs_rs s)" "rs_Available (bs_rs s) < 2 ^ 63"
    and "evictExpired S evictFn s = (r, s')"
  shows "rs_Available (bs_rs s') = rs_Available (bs_rs s)"
proof -
  let ?P = "\<lambda>c :: 'a BatchStore \<times> int \<times> bytes list. same_reserve (bs_rs s) (bs_rs (fst c))"
  have step: "?P (fst (evictExpired_func S evictFn u k v c))" if "?P c" for u k v c
  proof -
    obtain s0 m del where c: "c = (s0, m, del)" by (cases c) auto
    have rs: "same_reserve (bs_rs s) (bs_rs s0)" using that by (simp add: c)
    have "exp2 (batch_radius x (bs_rs s0) - rs_Radius (bs_rs s0) - 1) = 0" for x
      using evict_gain_zero [of "bs_rs s0" x] assms(1,2) rs by (simp add: same_reserve_def)
    then have "exp2 (b_Radius b - rs_Radius (bs_rs s0) - 1) = 0" if "bs_Get S bid s0 = Inr b" for bid b
      using that by (auto simp: bs_Get_def split: sum.splits bs_val.splits)
    then show ?thesis using rs assms(3,4)
      by (auto simp: evictExpired_func_def c Let_def same_reserve_def split: sum.splits option.splits)
  qed
  obtain s1 m del ri where it: "st_Iterate S valueKeyPrefix (evictExpired_func S evictFn (evict_until s))
      (bs_store s) (s, 0, []) = ((s1, m, del), ri)" by (metis prod.exhaust)
  have "same_reserve (bs_rs s) (bs_rs s1)"
    using st_Iterate_inv [of ?P, OF step _ it] by (simp add: same_reserve_def)
  with assms(5) it show ?thesis
    by (auto simp: evictExpired_def Let_def same_reserve_def
        dest!: bs_put_frame bs_delete_frame split: option.splits prod.splits)
qed

end
