(* ===== verification/BatchStoreProps.thy ===== *)
theory BatchStoreProps
  imports BatchStore
begin

text \<open>
  The guarantees of \<open>pkg/postage/batchstore\<close>: the index by value stays consistent with the index by
  identifier, expired batches are purged, the reserve is never left over capacity, and what was put is
  what is read. The iteration relies on the key order of the store, the interface \<open>ordered_store\<close>.
\<close>

section \<open>Consistency of the two indexes\<close>

definition stored :: "('s \<Rightarrow> string \<Rightarrow> bs_val option) \<Rightarrow> 's \<Rightarrow> Batch \<Rightarrow> bool" where
  "stored look st b \<longleftrightarrow> look st (batchKey (b_ID b)) = Some (BatchV b)"

definition indexes_ok :: "('s \<Rightarrow> string \<Rightarrow> bs_val option) \<Rightarrow> 's \<Rightarrow> bool" where
  "indexes_ok look st \<longleftrightarrow>
     (\<forall>bid v. look st (batchKey bid) = Some v \<longrightarrow>
        (\<exists>b k. v = BatchV b \<and> b_ID b = bid \<and> length bid = 32 \<and> 0 \<le> b_Value b \<and>
           valueKey (b_Value b) bid = Some k \<and> look st k \<noteq> None)) \<and>
     (\<forall>k. prefix valueKeyPrefix k \<and> look st k \<noteq> None \<longrightarrow>
        (\<exists>b. stored look st b \<and> valueKey (b_Value b) (b_ID b) = Some k))"

definition index_key :: "string \<Rightarrow> bool" where
  "index_key k \<longleftrightarrow> prefix valueKeyPrefix k \<or> (\<exists>bid. k = batchKey bid)"

lemma not_value_prefix:
  "\<not> prefix valueKeyPrefix (queueKey c)" "\<not> prefix valueKeyPrefix reserveStateKey"
  "\<not> prefix valueKeyPrefix ureserveQueueCardinalityKey" "\<not> prefix valueKeyPrefix chainStateKey"
  "\<not> prefix valueKeyPrefix (batchKey bid)"
  by (simp_all add: valueKeyPrefix_def queueKey_def unreserveQueueKey_def reserveStateKey_def
      ureserveQueueCardinalityKey_def chainStateKey_def batchKey_def batchKeyPrefix_def)

lemma index_key_value: "valueKey v bid = Some k \<Longrightarrow> index_key k"
  by (simp add: index_key_def valueKey_prefix)

lemma index_key_batch [simp]: "index_key (batchKey bid)"
  by (auto simp: index_key_def)

lemma index_key_not [simp]:
  "\<not> index_key (queueKey c)" "\<not> index_key reserveStateKey" "\<not> index_key ureserveQueueCardinalityKey"
  "\<not> index_key chainStateKey"
  using not_value_prefix batchKey_not(2-5) [symmetric] by (auto simp: index_key_def)

lemma stored_ok:
  assumes "indexes_ok look st" "stored look st b"
  shows "length (b_ID b) = 32 \<and> 0 \<le> b_Value b \<and>
    (\<exists>k. valueKey (b_Value b) (b_ID b) = Some k \<and> look st k \<noteq> None)"
proof -
  have "look st (batchKey (b_ID b)) = Some (BatchV b)" using assms(2) by (simp add: stored_def)
  then obtain b' k where "BatchV b = BatchV b'" "b_ID b' = b_ID b" "length (b_ID b) = 32" "0 \<le> b_Value b'"
      "valueKey (b_Value b') (b_ID b) = Some k" "look st k \<noteq> None"
    using assms(1) unfolding indexes_ok_def by blast
  then show ?thesis by auto
qed

lemma indexes_ok_cong:
  assumes "\<And>k. index_key k \<Longrightarrow> look st' k = look st k" and "indexes_ok look st"
  shows "indexes_ok look st'"
proof -
  have b: "look st' (batchKey bid) = look st (batchKey bid)" for bid by (rule assms(1)) simp
  have v: "look st' k = look st k" if "prefix valueKeyPrefix k" for k
    using that by (intro assms(1)) (simp add: index_key_def)
  have vk: "look st' k = look st k" if "valueKey x bid = Some k" for x bid k
    using that valueKey_prefix v by blast
  show ?thesis unfolding indexes_ok_def
  proof (intro conjI allI impI)
    fix bid x assume "look st' (batchKey bid) = Some x"
    then obtain b' k where "x = BatchV b'" "b_ID b' = bid" "length bid = 32" "0 \<le> b_Value b'"
        "valueKey (b_Value b') bid = Some k" "look st k \<noteq> None"
      using assms(2) unfolding b indexes_ok_def by blast
    then show "\<exists>b k. x = BatchV b \<and> b_ID b = bid \<and> length bid = 32 \<and> 0 \<le> b_Value b \<and>
        valueKey (b_Value b) bid = Some k \<and> look st' k \<noteq> None" using vk by auto
  next
    fix k assume k: "prefix valueKeyPrefix k \<and> look st' k \<noteq> None"
    then have "look st k \<noteq> None" using v [of k] by auto
    with k assms(2) obtain b' where "stored look st b'" "valueKey (b_Value b') (b_ID b') = Some k"
      unfolding indexes_ok_def by blast
    then show "\<exists>b. stored look st' b \<and> valueKey (b_Value b) (b_ID b) = Some k" by (auto simp: stored_def b)
  qed
qed

lemma valueKey_value_inject:
  assumes "valueKey v a = Some k" "valueKey w b = Some k" "length a = 32" "length b = 32" "0 \<le> v" "0 \<le> w"
  shows "v = w \<and> a = b"
proof -
  have "a = b" using valueKeyToID_valueKey [OF assms(1,3)] valueKeyToID_valueKey [OF assms(2,4)] by simp
  moreover have "\<not> v < w" "\<not> w < v"
    using valueKey_less_iff [OF assms(1,2,5,6)] valueKey_less_iff [OF assms(2,1,6,5)] by auto
  ultimately show ?thesis by auto
qed

lemma indexes_ok_remove:
  assumes ok: "indexes_ok look st" and b: "stored look st b"
    and vk: "valueKey (b_Value b) (b_ID b) = Some k"
    and look': "look st' = (look st)(k := None, batchKey (b_ID b) := None)"
  shows "indexes_ok look st'"
  unfolding indexes_ok_def
proof (intro conjI allI impI)
  fix bid v assume l: "look st' (batchKey bid) = Some v"
  then have ne: "bid \<noteq> b_ID b" and l0: "look st (batchKey bid) = Some v"
    using batchKey_not(1) [OF vk, of bid] by (auto simp: look' split: if_splits)
  then obtain b2 k2 where b2: "v = BatchV b2" "b_ID b2 = bid" "length bid = 32" "0 \<le> b_Value b2"
      "valueKey (b_Value b2) bid = Some k2" "look st k2 \<noteq> None"
    using ok unfolding indexes_ok_def by blast
  have "length (b_ID b) = 32" "0 \<le> b_Value b" using stored_ok [OF ok b] by simp_all
  then have "k2 \<noteq> k" using valueKey_value_inject [OF b2(5)] vk b2 ne by metis
  moreover have "k2 \<noteq> batchKey (b_ID b)" using batchKey_not(1) [OF b2(5)] by metis
  ultimately show "\<exists>b k. v = BatchV b \<and> b_ID b = bid \<and> length bid = 32 \<and> 0 \<le> b_Value b \<and>
      valueKey (b_Value b) bid = Some k \<and> look st' k \<noteq> None"
    using b2 by (auto simp: look')
next
  fix key assume k: "prefix valueKeyPrefix key \<and> look st' key \<noteq> None"
  then have "key \<noteq> k" "look st key \<noteq> None" by (auto simp: look' split: if_splits)
  with k ok obtain b2 where b2: "stored look st b2" "valueKey (b_Value b2) (b_ID b2) = Some key"
    unfolding indexes_ok_def by blast
  have "b_ID b2 \<noteq> b_ID b"
  proof
    assume "b_ID b2 = b_ID b"
    with b b2(1) have "b2 = b" by (simp add: stored_def)
    with b2(2) vk \<open>key \<noteq> k\<close> show False by simp
  qed
  then have "stored look st' b2" using b2(1) batchKey_not(1) [OF vk] by (auto simp: stored_def look')
  with b2(2) show "\<exists>b. stored look st' b \<and> valueKey (b_Value b) (b_ID b) = Some key" by blast
qed

section \<open>Expired batches are purged\<close>

locale batch_store = ordered_store S look
  for S :: "('s, bs_val) StateStorer" and look :: "'s \<Rightarrow> string \<Rightarrow> bs_val option"
begin

lemma bs_put_look:
  "bs_put S k v s = (None, s') \<Longrightarrow> look (bs_store s') = (look (bs_store s))(k \<mapsto> v)"
  using put_look by (auto simp: bs_put_def split: sum.splits)

lemma bs_del_look:
  "bs_del S k s = (None, s') \<Longrightarrow> look (bs_store s') = (look (bs_store s))(k := None)"
  using delete_look by (auto simp: bs_del_def split: sum.splits)

lemma bs_Get_look:
  assumes "bs_Get S bid s = Inr b"
  shows "\<exists>b0. look (bs_store s) (batchKey bid) = Some (BatchV b0)
    \<and> b = b0\<lparr>b_Radius := batch_radius (b_Value b0) (bs_rs s)\<rparr>"
  using assms get_some [of "batchKey bid" "bs_store s"]
  by (auto simp: bs_Get_def split: sum.splits bs_val.splits)

text \<open>The entries of the value index, in order, with the batches they stand for.\<close>

lemma value_entries:
  assumes ok: "indexes_ok look st" and es: "st_Iter S valueKeyPrefix st = (es, None)"
  obtains bl where "list_all2 (\<lambda>e b. stored look st b \<and> length (b_ID b) = 32
      \<and> valueKey (b_Value b) (b_ID b) = Some (fst e)) es bl"
    "sorted (map b_Value bl)" "\<And>b. stored look st b \<Longrightarrow> b \<in> set bl"
proof -
  let ?R = "\<lambda>e b. stored look st b \<and> length (b_ID b) = 32 \<and> valueKey (b_Value b) (b_ID b) = Some (fst e)"
  have set: "set es = {(k, v). look st k = Some v \<and> prefix valueKeyPrefix k}" using iter_set [OF es] by simp
  have "\<exists>b. ?R e b" if "e \<in> set es" for e
  proof -
    obtain k v where "e = (k, v)" by fastforce
    with that set have e: "e = (k, v)" "look st k = Some v" "prefix valueKeyPrefix k" by simp_all
    then obtain b where b: "stored look st b" "valueKey (b_Value b) (b_ID b) = Some k"
      using ok unfolding indexes_ok_def by (metis option.distinct(1))
    moreover have "length (b_ID b) = 32" using stored_ok [OF ok b(1)] by simp
    ultimately show ?thesis using e by auto
  qed
  then obtain f where f: "\<And>e. e \<in> set es \<Longrightarrow> ?R e (f e)" by metis
  define bl where "bl = map f es"
  have all: "list_all2 ?R es bl" unfolding bl_def list.rel_map using f
    by (simp add: list.rel_refl_strong)
  have nonneg: "0 \<le> b_Value b" if "stored look st b" for b
    using stored_ok [OF ok that] by simp
  have "sorted_wrt (<) (map fst es)" using iter_strict_sorted [OF es] .
  then have "sorted_wrt (\<lambda>x y. fst x < fst y) es" by (simp add: sorted_wrt_map)
  then have "sorted_wrt (\<lambda>x y. b_Value (f x) \<le> b_Value (f y)) es"
  proof (rule sorted_wrt_mono_rel [rotated])
    fix x y assume xy: "x \<in> set es" "y \<in> set es" "fst x < fst y"
    have "fst x < fst y \<longleftrightarrow> b_Value (f x) < b_Value (f y)
        \<or> b_Value (f x) = b_Value (f y) \<and> b_ID (f x) < b_ID (f y)"
      using f [OF xy(1)] f [OF xy(2)] nonneg by (intro valueKey_less_iff) auto
    with xy(3) show "b_Value (f x) \<le> b_Value (f y)" by auto
  qed
  then have sorted: "sorted (map b_Value bl)" by (simp add: bl_def sorted_wrt_map comp_def)
  have "b \<in> set bl" if b: "stored look st b" for b
  proof -
    obtain k where k: "valueKey (b_Value b) (b_ID b) = Some k" "look st k \<noteq> None" "length (b_ID b) = 32"
      "0 \<le> b_Value b" using stored_ok [OF ok b] by blast
    then obtain v where "(k, v) \<in> set es" using set valueKey_prefix by auto
    note fe = f [OF this]
    have "b_ID (f (k, v)) = b_ID b"
      using valueKey_value_inject [of "b_Value (f (k, v))" "b_ID (f (k, v))" k] fe k nonneg by auto
    then have "f (k, v) = b" using fe b by (simp add: stored_def)
    then show ?thesis using \<open>(k, v) \<in> set es\<close> by (auto simp: bl_def)
  qed
  with all sorted that show ?thesis by blast
qed

lemma evict_loop:
  assumes "list_all2 (\<lambda>e b. stored look st b \<and> length (b_ID b) = 32
      \<and> valueKey (b_Value b) (b_ID b) = Some (fst e)) es bl"
    and "bs_store s = st"
    and "iterate_loop (evictExpired_func S evictFn until) es err (s, m, del) = ((s', m', del'), None)"
  shows "bs_store s' = st \<and> bs_cs s' = bs_cs s \<and> (\<exists>n \<le> length bl.
    del' = del @ map b_ID (filter (\<lambda>b. b_Value b \<le> cs_TotalAmount (bs_cs s)) (take n bl))
    \<and> (n = length bl \<or> until \<le> b_Value (bl ! n)))"
  using assms
proof (induction es bl arbitrary: s m del rule: list_all2_induct)
  case Nil
  then show ?case by auto
next
  case (Cons e es b bl)
  obtain k v where e: "e = (k, v)" by fastforce
  have b: "look st (batchKey (b_ID b)) = Some (BatchV b)" "valueKeyToID k = Some (b_ID b)"
    using Cons(1) valueKeyToID_valueKey by (auto simp: stored_def e)
  have get: "b2 = b\<lparr>b_Radius := batch_radius (b_Value b) (bs_rs s)\<rparr>" if "bs_Get S (b_ID b) s = Inr b2" for b2
    using bs_Get_look [OF that] b(1) Cons.prems(1) by auto
  obtain c' stop r where f: "evictExpired_func S evictFn until k v (s, m, del) = (c', stop, r)"
    by (cases "evictExpired_func S evictFn until k v (s, m, del)") auto
  have r: "r = None" using Cons.prems(2) by (auto simp: e f split: option.splits bool.splits)
  show ?case
  proof (cases "until \<le> b_Value b")
    case True
    with f r have "c' = (s, m, del)" "stop"
      by (auto simp: evictExpired_func_def b(2) Let_def dest!: get split: sum.splits option.splits)
    then have "s' = s" "del' = del" using Cons.prems(2) by (auto simp: e f r)
    then show ?thesis using True Cons.prems(1) by (intro conjI exI [of _ 0]) auto
  next
    case False
    define new where "new = (if b_Value b \<le> cs_TotalAmount (bs_cs s) then [b_ID b] else [])"
    have "\<exists>s1 m1. c' = (s1, m1, del @ new) \<and> bs_store s1 = st \<and> bs_cs s1 = bs_cs s \<and> \<not> stop"
      using f r False Cons.prems(1)
      by (auto simp: evictExpired_func_def b(2) Let_def new_def dest!: get split: sum.splits option.splits)
    then obtain s1 m1 where s1: "c' = (s1, m1, del @ new)" "bs_store s1 = st" "bs_cs s1 = bs_cs s" "\<not> stop"
      by blast
    have "iterate_loop (evictExpired_func S evictFn until) es err (s1, m1, del @ new) = ((s', m', del'), None)"
      using Cons.prems(2) s1 by (simp add: e f r)
    from Cons.IH [OF s1(2) this] obtain n where n: "bs_store s' = st" "bs_cs s' = bs_cs s" "n \<le> length bl"
      "del' = (del @ new) @ map b_ID (filter (\<lambda>b. b_Value b \<le> cs_TotalAmount (bs_cs s)) (take n bl))"
      "n = length bl \<or> until \<le> b_Value (bl ! n)" using s1(3) by auto
    then show ?thesis by (intro conjI exI [of _ "Suc n"]) (auto simp: new_def)
  qed
qed

lemma bs_delete_look:
  assumes "bs_delete S ids s = (None, s')" and "indexes_ok look (bs_store s)"
  shows "indexes_ok look (bs_store s') \<and>
    (\<forall>b. stored look (bs_store s') b \<longleftrightarrow> stored look (bs_store s) b \<and> b_ID b \<notin> set ids)"
  using assms
proof (induction ids arbitrary: s)
  case Nil
  then show ?case by simp
next
  case (Cons bid ids)
  obtain b0 where g: "bs_Get S bid s = Inr b0" using Cons.prems(1) by (auto split: sum.splits)
  obtain b where b: "look (bs_store s) (batchKey bid) = Some (BatchV b)" "b_Value b0 = b_Value b"
    using bs_Get_look [OF g] by auto
  have id: "b_ID b = bid" using Cons.prems(2) b(1) unfolding indexes_ok_def by blast
  then have st: "stored look (bs_store s) b" using b(1) by (simp add: stored_def)
  obtain k where k: "valueKey (b_Value b) bid = Some k"
    using Cons.prems(1) g b(2) by (auto split: option.splits)
  obtain s1 where s1: "bs_del S k s = (None, s1)"
    using Cons.prems(1) g b(2) k by (auto split: option.splits prod.splits)
  obtain s2 where s2: "bs_del S (batchKey bid) s1 = (None, s2)"
    using Cons.prems(1) g b(2) k s1 by (auto split: option.splits prod.splits)
  have rest: "bs_delete S ids s2 = (None, s')" using Cons.prems(1) g b(2) k s1 s2 by simp
  have l2: "look (bs_store s2) = (look (bs_store s))(k := None, batchKey (b_ID b) := None)"
    using bs_del_look [OF s1] bs_del_look [OF s2] id by simp
  have ok2: "indexes_ok look (bs_store s2)"
    by (rule indexes_ok_remove [OF Cons.prems(2) st _ l2]) (simp add: k id)
  have "stored look (bs_store s2) b' \<longleftrightarrow> stored look (bs_store s) b' \<and> b_ID b' \<noteq> bid" for b'
    using batchKey_not(1) [OF k] by (auto simp: stored_def l2 id)
  with Cons.IH [OF rest ok2] show ?case by auto
qed

lemma evictExpired_purges:
  assumes ok: "indexes_ok look (bs_store s)" and inner: "0 < rs_Inner (bs_rs s)"
    and iter: "snd (st_Iter S valueKeyPrefix (bs_store s)) = None"
    and ev: "evictExpired S evictFn s = (None, s')"
  shows "indexes_ok look (bs_store s') \<and> (\<forall>b. stored look (bs_store s') b \<longleftrightarrow>
    stored look (bs_store s) b \<and> cs_TotalAmount (bs_cs s) < b_Value b)"
proof -
  let ?u = "evict_until s" and ?t = "cs_TotalAmount (bs_cs s)" and ?st = "bs_store s"
  obtain es where es: "st_Iter S valueKeyPrefix ?st = (es, None)" using iter by (metis prod.collapse)
  obtain bl where bl: "list_all2 (\<lambda>e b. stored look ?st b \<and> length (b_ID b) = 32
      \<and> valueKey (b_Value b) (b_ID b) = Some (fst e)) es bl" "sorted (map b_Value bl)"
    and all: "\<And>b. stored look ?st b \<Longrightarrow> b \<in> set bl" using value_entries [OF ok es] by blast
  obtain s1 m del r where it: "iterate_loop (evictExpired_func S evictFn ?u) es None (s, 0, []) = ((s1, m, del), r)"
    by (metis prod.exhaust)
  have r: "r = None"
    using ev by (auto simp: evictExpired_def st_Iterate_def es it Let_def iter_err_def
        split: option.splits iter_error.splits)
  from evict_loop [OF bl(1) refl it [unfolded r]] obtain n where n: "bs_store s1 = ?st" "bs_cs s1 = bs_cs s"
    "del = map b_ID (filter (\<lambda>b. b_Value b \<le> ?t) (take n bl))" "n = length bl \<or> ?u \<le> b_Value (bl ! n)"
    "n \<le> length bl" by auto
  have ut: "?t < ?u" using inner by (auto simp: evict_until_def)
  have vis: "b \<in> set (take n bl)" if st: "stored look ?st b" and le: "b_Value b \<le> ?t" for b
  proof -
    obtain j where j: "j < length bl" "bl ! j = b" using all [OF st] by (auto simp: in_set_conv_nth)
    have "j < n"
    proof (rule ccontr)
      assume "\<not> j < n"
      then have "b_Value (bl ! n) \<le> b_Value (bl ! j)" "n < length bl"
        using sorted_nth_mono [OF bl(2), of n j] j by auto
      with n(4) ut le j(2) show False by auto
    qed
    with j show ?thesis by (auto simp: in_set_conv_nth intro!: exI [of _ j])
  qed
  have stored_bl: "stored look ?st b" if "b \<in> set bl" for b
    using bl(1) that by (auto simp: list_all2_conv_all_nth in_set_conv_nth)
  have del: "b_ID b \<in> set del \<longleftrightarrow> b_Value b \<le> ?t" if "stored look ?st b" for b
  proof
    assume "b_ID b \<in> set del"
    then obtain b' where b': "b' \<in> set (take n bl)" "b_Value b' \<le> ?t" "b_ID b' = b_ID b" by (auto simp: n(3))
    then have "stored look ?st b'" using stored_bl in_set_takeD by fast
    then show "b_Value b \<le> ?t" using b'(2,3) that by (simp add: stored_def)
  qed (use vis [OF that] in \<open>auto simp: n(3)\<close>)
  define s2 where "s2 = s1\<lparr>bs_rs := (bs_rs s1)\<lparr>rs_Inner := ?u,
    rs_Outer := if rs_Outer (bs_rs s1) < ?u then ?u else rs_Outer (bs_rs s1)\<rparr>\<rparr>"
  obtain r3 s3 where p: "bs_put S reserveStateKey (ReserveV (bs_rs s2)) s2 = (r3, s3)" by fastforce
  have r3: "r3 = None" and d: "bs_delete S del s3 = (None, s')"
    using ev p by (auto simp: evictExpired_def st_Iterate_def es it Let_def iter_err_def r s2_def
        split: option.splits)
  have l3: "look (bs_store s3) = (look ?st)(reserveStateKey \<mapsto> ReserveV (bs_rs s2))"
    using bs_put_look [OF p [unfolded r3]] n(1) by (simp add: s2_def)
  have "indexes_ok look (bs_store s3)"
    by (rule indexes_ok_cong [OF _ ok]) (auto simp: l3)
  moreover have "stored look (bs_store s3) b \<longleftrightarrow> stored look ?st b" for b
    using batchKey_not(3) by (auto simp: stored_def l3)
  ultimately show ?thesis using bs_delete_look [OF d] del by auto
qed

end

section \<open>Put\<close>

lemma notify_fields [simp]: "bs_store (notify_radius s) = bs_store s" "bs_rs (notify_radius s) = bs_rs s"
  by (simp_all add: notify_radius_def)

lemma indexes_ok_put:
  assumes ok: "indexes_ok look st" and len: "length (b_ID b) = 32" and nn: "0 \<le> b_Value b"
    and nn0: "0 \<le> oldv" and old: "\<And>b0. stored look st b0 \<Longrightarrow> b_ID b0 = b_ID b \<Longrightarrow> b_Value b0 = oldv"
    and ko: "valueKey oldv (b_ID b) = Some ko" and kn: "valueKey (b_Value b) (b_ID b) = Some kn"
    and st': "\<And>k. index_key k \<Longrightarrow>
      look st' k = ((look st)(ko := None, kn \<mapsto> NilV, batchKey (b_ID b) \<mapsto> BatchV b)) k"
  shows "indexes_ok look st'"
  unfolding indexes_ok_def
proof (intro conjI allI impI)
  fix bid v assume "look st' (batchKey bid) = Some v"
  then have l: "((look st)(ko := None, kn \<mapsto> NilV, batchKey (b_ID b) \<mapsto> BatchV b)) (batchKey bid) = Some v"
    using st' [of "batchKey bid"] by simp
  show "\<exists>b k. v = BatchV b \<and> b_ID b = bid \<and> length bid = 32 \<and> 0 \<le> b_Value b \<and>
      valueKey (b_Value b) bid = Some k \<and> look st' k \<noteq> None"
  proof (cases "bid = b_ID b")
    case True
    have "look st' kn \<noteq> None"
      using st' [OF index_key_value [OF kn]] by simp
    with True l len nn kn show ?thesis by auto
  next
    case False
    then have "look st (batchKey bid) = Some v"
      using l batchKey_not(1) [OF ko] batchKey_not(1) [OF kn] by auto
    then obtain b2 k2 where b2: "v = BatchV b2" "b_ID b2 = bid" "length bid = 32" "0 \<le> b_Value b2"
        "valueKey (b_Value b2) bid = Some k2" "look st k2 \<noteq> None"
      using ok unfolding indexes_ok_def by blast
    have "k2 \<noteq> ko" "k2 \<noteq> kn"
      using valueKey_value_inject [OF b2(5) _ b2(3) len b2(4)] ko kn nn nn0 False by metis+
    moreover have "k2 \<noteq> batchKey (b_ID b)" using batchKey_not(1) [OF b2(5)] by metis
    ultimately have "look st' k2 \<noteq> None"
      using st' [OF index_key_value [OF b2(5)]] b2(6) by simp
    with b2 show ?thesis by blast
  qed
next
  fix key assume key: "prefix valueKeyPrefix key \<and> look st' key \<noteq> None"
  have sb: "stored look st' b" using st' [of "batchKey (b_ID b)"] by (simp add: stored_def)
  show "\<exists>b. stored look st' b \<and> valueKey (b_Value b) (b_ID b) = Some key"
  proof (cases "key = kn")
    case True
    with sb kn show ?thesis by blast
  next
    case False
    have ik: "index_key key" using key by (simp add: index_key_def)
    have "key \<noteq> batchKey (b_ID b)" using key not_value_prefix(5) by blast
    then have ne: "key \<noteq> ko" "look st key \<noteq> None" using st' [OF ik] key False by (auto split: if_splits)
    then obtain b2 where b2: "stored look st b2" "valueKey (b_Value b2) (b_ID b2) = Some key"
      using ok key unfolding indexes_ok_def by blast
    have "b_ID b2 \<noteq> b_ID b" using old [OF b2(1)] b2(2) ko ne(1) by auto
    then have "stored look st' b2"
      using b2(1) st' [of "batchKey (b_ID b2)"] batchKey_not(1) [OF ko] batchKey_not(1) [OF kn]
      by (auto simp: stored_def)
    with b2(2) show ?thesis by blast
  qed
qed

lemma evictOuter_available:
  "evictOuter n S b s = Some (None, s') \<Longrightarrow> 0 \<le> rs_Available (bs_rs s')"
proof (induction n arbitrary: s)
  case 0
  then show ?case by simp
next
  case (Suc n)
  from Suc.prems show ?case
    by (auto simp: Let_def split: if_splits prod.splits option.splits dest: Suc.IH dest!: bs_put_frame)
qed

text \<open>More fuel gives the same result.\<close>

lemma evictOuter_fuel: "evictOuter n S b s = Some x \<Longrightarrow> n \<le> m \<Longrightarrow> evictOuter m S b s = Some x"
proof (induction n arbitrary: s m)
  case 0
  then show ?case by simp
next
  case (Suc n)
  then obtain m' where m: "m = Suc m'" "n \<le> m'" by (cases m) auto
  from Suc.prems(1) Suc.IH m show ?case
    by (auto simp: Let_def split: if_splits prod.splits option.splits)
qed

context batch_store
begin

definition index_same :: "'s BatchStore \<Rightarrow> 's BatchStore \<Rightarrow> bool" where
  "index_same s s' \<longleftrightarrow> (\<forall>k. index_key k \<longrightarrow> look (bs_store s') k = look (bs_store s) k)"

lemma bs_put_index: "bs_put S k v s = (r, s') \<Longrightarrow> \<not> index_key k \<Longrightarrow> index_same s s'"
  using bs_put_look [of k v s] by (cases r) (auto simp: index_same_def bs_put_def split: sum.splits)

lemma bs_unreserve_index: "bs_unreserve S bid rad s = (r, s') \<Longrightarrow> index_same s s'"
proof -
  assume "bs_unreserve S bid rad s = (r, s')"
  then obtain r1 s1 where p1: "bs_put S (queueKey (queueIdx s + 1))
      (ItemV (ui_MarshalBinary \<lparr>ui_BatchID = bid, ui_Radius = rad\<rparr>)) s = (r1, s1)"
    and rest: "(case r1 of Some e \<Rightarrow> (Some e, s1) | None \<Rightarrow>
      (case bs_put S ureserveQueueCardinalityKey (CardV (queueIdx s + 1)) s1 of
         (Some e, s2) \<Rightarrow> (Some e, s2) | (None, s2) \<Rightarrow> (None, s2\<lparr>queueIdx := queueIdx s + 1\<rparr>))) = (r, s')"
    by (auto simp: bs_unreserve_def Let_def split: prod.splits option.splits)
  have i1: "index_same s s1" using bs_put_index [OF p1] by simp
  show ?thesis
  proof (cases r1)
    case None
    obtain r2 s2 where p2: "bs_put S ureserveQueueCardinalityKey (CardV (queueIdx s + 1)) s1 = (r2, s2)"
      by fastforce
    have "index_same s1 s2" using bs_put_index [OF p2] by simp
    then show ?thesis using rest None p2 i1 by (cases r2) (auto simp: index_same_def)
  qed (use rest i1 in simp)
qed

lemma evictOuter_index: "evictOuter n S b s = Some (r, s') \<Longrightarrow> index_same s s'"
proof (induction n arbitrary: s)
  case 0
  then show ?case by simp
next
  case (Suc n)
  show ?case
  proof (cases "0 \<le> rs_Available (bs_rs s)")
    case True
    with Suc.prems show ?thesis by (simp add: index_same_def)
  next
    case False
    obtain s1 ri where it: "st_Iterate S valueKeyPrefix (evictOuter_func S b) (bs_store s) s = (s1, ri)" by fastforce
    have step: "index_same s (fst (evictOuter_func S b k v c))" if "index_same s c" for k v c
    proof -
      have "index_same s s2" if "bs_unreserve S x y (c\<lparr>bs_rs := z\<rparr>) = (e, s2)" for x y z e s2
        using bs_unreserve_index [OF that] \<open>index_same s c\<close> by (simp add: index_same_def)
      then show ?thesis using that
        by (auto simp: evictOuter_func_def Let_def split: option.splits sum.splits prod.splits)
    qed
    have i1: "index_same s s1"
      by (rule st_Iterate_inv [of "index_same s", OF step _ it]) (simp_all add: index_same_def)
    have ih: "index_same s s'" if "evictOuter n S b (s1\<lparr>bs_rs := z\<rparr>) = Some (r, s')" for z
      using Suc.IH [OF that] i1 by (simp add: index_same_def)
    have pt: "index_same s s'" if "bs_put S reserveStateKey x (s1\<lparr>bs_rs := z\<rparr>) = (r, s')" for x z
      using bs_put_index [OF that] i1 by (simp add: index_same_def)
    show ?thesis using Suc.prems False it i1
      by (auto simp: Let_def split: option.splits if_splits intro: ih pt)
  qed
qed

lemma bs_update_index: "bs_update fuel S b d v s = Some (r, s') \<Longrightarrow> index_same s s'"
proof -
  assume u: "bs_update fuel S b d v s = Some (r, s')"
  obtain cc rr rs1 where ch: "rs_change v (b_Value b) d (b_Depth b) (bs_rs s) = (cc, rr, rs1)"
    by (metis prod.exhaust)
  define s1 where "s1 = s\<lparr>bs_rs := rs1\<lparr>rs_Available := i64 (rs_Available rs1 + cc)\<rparr>\<rparr>"
  obtain r2 s2 where un: "bs_unreserve S (b_ID b) rr s1 = (r2, s2)" by fastforce
  have i2: "index_same s s2" using bs_unreserve_index [OF un] by (simp add: index_same_def s1_def)
  show ?thesis
  proof (cases r2)
    case None
    then have "evictOuter fuel S b s2 = Some (r, s')" using u ch un by (simp add: bs_update_def s1_def Let_def)
    from evictOuter_index [OF this] i2 show ?thesis by (simp add: index_same_def)
  next
    case (Some e)
    then show ?thesis using u ch un i2 by (simp add: bs_update_def s1_def Let_def)
  qed
qed

lemma bs_Put_steps:
  assumes "bs_Put fuel S b value depth s = Some (None, s')"
  obtains ko kn s1 s2 s3 where "valueKey (b_Value b) (b_ID b) = Some ko" "bs_del S ko s = (None, s1)"
    "valueKey value (b_ID b) = Some kn" "bs_put S kn NilV s1 = (None, s2)"
    "bs_update fuel S (b\<lparr>b_Value := value, b_Depth := depth\<rparr>) (b_Depth b) (b_Value b) s2 = Some (None, s3)"
    "bs_put S (batchKey (b_ID b)) (BatchV (b\<lparr>b_Value := value, b_Depth := depth\<rparr>)) (notify_radius s3) = (None, s')"
  using assms
  by (auto simp: bs_Put_def Let_def split: option.splits prod.splits)

lemma bs_Put_look:
  assumes "bs_Put fuel S b value depth s = Some (None, s')"
  shows "\<exists>ko kn. valueKey (b_Value b) (b_ID b) = Some ko \<and> valueKey value (b_ID b) = Some kn \<and>
    (\<forall>k. index_key k \<longrightarrow> look (bs_store s') k = ((look (bs_store s))(ko := None, kn \<mapsto> NilV,
       batchKey (b_ID b) \<mapsto> BatchV (b\<lparr>b_Value := value, b_Depth := depth\<rparr>))) k)"
proof -
  obtain ko kn s1 s2 s3 where p: "valueKey (b_Value b) (b_ID b) = Some ko" "bs_del S ko s = (None, s1)"
    "valueKey value (b_ID b) = Some kn" "bs_put S kn NilV s1 = (None, s2)"
    "bs_update fuel S (b\<lparr>b_Value := value, b_Depth := depth\<rparr>) (b_Depth b) (b_Value b) s2 = Some (None, s3)"
    "bs_put S (batchKey (b_ID b)) (BatchV (b\<lparr>b_Value := value, b_Depth := depth\<rparr>)) (notify_radius s3) = (None, s')"
    using assms by (rule bs_Put_steps)
  have "look (bs_store s3) k = ((look (bs_store s))(ko := None, kn \<mapsto> NilV)) k" if "index_key k" for k
    using bs_update_index [OF p(5)] that bs_del_look [OF p(2)] bs_put_look [OF p(4)]
    by (simp add: index_same_def)
  then have "\<forall>k. index_key k \<longrightarrow> look (bs_store s') k = ((look (bs_store s))(ko := None, kn \<mapsto> NilV,
       batchKey (b_ID b) \<mapsto> BatchV (b\<lparr>b_Value := value, b_Depth := depth\<rparr>))) k"
    using bs_put_look [OF p(6)] by simp
  with p(1,3) show ?thesis by blast
qed

lemma bs_Put_available:
  assumes "bs_Put fuel S b value depth s = Some (None, s')"
  shows "0 \<le> rs_Available (bs_rs s')"
proof -
  obtain b' d v s2 s3 x y where u: "bs_update fuel S b' d v s2 = Some (None, s3)"
    and p: "bs_put S x y (notify_radius s3) = (None, s')"
    using assms by (rule bs_Put_steps) (rule that)
  have "0 \<le> rs_Available (bs_rs s3)"
    using u by (auto simp: bs_update_def Let_def dest: evictOuter_available split: prod.splits option.splits)
  with bs_put_frame [OF p] show ?thesis by simp
qed

end

section \<open>Properties\<close>

interpretation sorted_batches: batch_store SortedMem "map_of :: bs_val mem \<Rightarrow> string \<Rightarrow> bs_val option"
  by unfold_locales

definition ex_batch :: Batch where
  "ex_batch = \<lparr>b_ID = replicate 32 1, b_Value = 0, b_Start = 0, b_Owner = replicate 20 2, b_Depth = 0,
     b_BucketDepth = 16, b_Immutable = False, b_Radius = 0\<rparr>"

definition ex_bs :: "bs_val mem BatchStore" where
  "ex_bs = \<lparr>bs_store = [], bs_cs = zeroChain 0, bs_rs = zeroReserve, queueIdx = 0,
     radiusSetter = False, bs_radii = [], bs_evicted = []\<rparr>"

lemma ex_change: "rs_change 0 500 0 20 zeroReserve =
    (- 256, 11, zeroReserve\<lparr>rs_Inner := 500, rs_Outer := 500\<rparr>)"
  by (simp add: rs_change_def rs_tier_def setLimits_def zeroReserve_def rs_size_def rs_radius_def
      DefaultDepth_def exp2_small Let_def)

lemma ex_capacity: "rs_Available zeroReserve = 4194304"
  by (simp add: zeroReserve_def Capacity_def exp2_small)

lemma ex_update:
  assumes "b_Value b = 500" "b_Depth b = 20" "bs_rs s = zeroReserve"
  shows "\<exists>s'. bs_update 1 SortedMem b 0 0 s = Some (None, s') \<and> bs_rs s' = zeroReserve\<lparr>rs_Inner := 500, rs_Outer := 500, rs_Available := 4194048\<rparr>"
  using assms
  by (simp add: bs_update_def ex_change bs_unreserve_def bs_put_def mem_defs Let_def ex_capacity)

lemma ex_put: "\<exists>s'. bs_Put 1 SortedMem ex_batch 500 20 ex_bs = Some (None, s')
    \<and> bs_rs s' = zeroReserve\<lparr>rs_Inner := 500, rs_Outer := 500, rs_Available := 4194048\<rparr>"
proof -
  obtain ko where ko: "valueKey (b_Value ex_batch) (b_ID ex_batch) = Some ko"
    by (simp add: valueKey_def ex_batch_def)
  obtain kn where kn: "valueKey 500 (b_ID ex_batch) = Some kn" by (simp add: valueKey_def)
  obtain s1 where s1: "bs_del SortedMem ko ex_bs = (None, s1)" "bs_rs s1 = zeroReserve"
    by (simp add: bs_del_def mem_defs ex_bs_def)
  obtain s2 where s2: "bs_put SortedMem kn NilV s1 = (None, s2)" "bs_rs s2 = zeroReserve"
    using s1(2) by (simp add: bs_put_def mem_defs)
  obtain s3 where s3: "bs_update 1 SortedMem (ex_batch\<lparr>b_Value := 500, b_Depth := 20\<rparr>) 0 0 s2 = Some (None, s3)"
    "bs_rs s3 = zeroReserve\<lparr>rs_Inner := 500, rs_Outer := 500, rs_Available := 4194048\<rparr>" using ex_update [of "ex_batch\<lparr>b_Value := 500, b_Depth := 20\<rparr>" s2] s2(2) by auto
  have "b_Depth ex_batch = 0" "b_Value ex_batch = 0" by (simp_all add: ex_batch_def)
  with ko kn s1 s2 s3 show ?thesis by (simp add: bs_Put_def bs_put_def mem_defs)
qed

text \<open>The index by value sorts as the values do: for values from zero to \<open>2^256 - 1\<close>, the key of one
  batch is before the key of another exactly when its value is smaller, or equal with a smaller
  identifier; and the identifier is read back from the key.\<close>

theorem value_keys_sort:
  assumes "valueKey v a = Some k" "valueKey w b = Some l" and "0 \<le> v" "0 \<le> w" and "length a = 32"
  shows "(k < l \<longleftrightarrow> v < w \<or> v = w \<and> a < b) \<and> valueKeyToID k = Some a"
  using valueKey_less_iff [OF assms(1-4)] valueKeyToID_valueKey [OF assms(1,5)] by simp

theorem value_keys_sort_witness:
  "\<exists>k l. valueKey 255 (replicate 32 9) = Some k \<and> valueKey 256 (replicate 32 1) = Some l \<and> k < l"
proof -
  obtain k l where "valueKey 255 (replicate 32 9) = Some k" "valueKey 256 (replicate 32 1) = Some l"
    by (simp add: valueKey_def)
  with value_keys_sort [of 255 "replicate 32 9" k 256 "replicate 32 1" l] show ?thesis by simp
qed

lemma indexes_ok_empty: "\<forall>k. index_key k \<longrightarrow> look st k = None \<Longrightarrow> indexes_ok look st"
  by (auto simp: indexes_ok_def index_key_def)

text \<open>Evicting expired batches never gives capacity back: in the normal state, where the storage
  radius is below the radius, the exponent of the capacity gain wraps below zero at 8 bits and the power
  of two is zero, so the available capacity after \<open>evictExpired\<close> is what it was before.\<close>

theorem eviction_frees_nothing:
  assumes "rs_StorageRadius (bs_rs s) < rs_Radius (bs_rs s)" and "unat (rs_Radius (bs_rs s)) \<le> 190"
    and "- (2 ^ 63) \<le> rs_Available (bs_rs s)" and "rs_Available (bs_rs s) < 2 ^ 63"
    and "evictExpired S evictFn s = (r, s')"
  shows "rs_Available (bs_rs s') = rs_Available (bs_rs s)"
  by (rule evictExpired_available [OF assms])

theorem eviction_frees_nothing_witness:
  "\<exists>s' r s2. bs_Put 1 SortedMem ex_batch 500 20 ex_bs = Some (None, s') \<and>
    evictExpired SortedMem (\<lambda>_. None) (s'\<lparr>bs_cs := \<lparr>cs_Block = 1, cs_TotalAmount = 600, cs_CurrentPrice = 1\<rparr>\<rparr>) = (r, s2)
    \<and> rs_Available (bs_rs s') = 4194048 \<and> rs_Available (bs_rs s2) = 4194048"
proof -
  obtain s' where p: "bs_Put 1 SortedMem ex_batch 500 20 ex_bs = Some (None, s')"
    and rs: "bs_rs s' = zeroReserve\<lparr>rs_Inner := 500, rs_Outer := 500, rs_Available := 4194048\<rparr>"
    using ex_put by blast
  let ?s = "s'\<lparr>bs_cs := \<lparr>cs_Block = 1, cs_TotalAmount = 600, cs_CurrentPrice = 1\<rparr>\<rparr>"
  obtain r s2 where ev: "evictExpired SortedMem (\<lambda>_. None) ?s = (r, s2)" by fastforce
  have "rs_Available (bs_rs s2) = rs_Available (bs_rs ?s)"
    by (rule eviction_frees_nothing [OF _ _ _ _ ev]) (simp_all add: rs zeroReserve_def DefaultDepth_def)
  with ev p rs show ?thesis by auto
qed

end
