(* ===== verification/ReserveEviction.thy ===== *)
theory ReserveEviction
  imports BatchStoreProps
begin

text \<open>
  The eviction loop of the reserve ends. \<open>evictOuter\<close> (\<open>pkg/postage/batchstore/reserve.go\<close>) raises the radius until the
  available capacity is not negative. The batch that made it negative is visited in every round but perhaps the
  first, and each visit frees half of the share it still has: as long as some capacity was available before and
  depths, radius and the number of batches are in the range of a real network, the loop ends before the radius reaches the
  depth of the batch. So \<open>Put\<close> returns, and on a store that does not fail it succeeds.
\<close>

section \<open>One round\<close>

text \<open>An entry of the index by value, with the value and depth of the batch that the callback sees for it.\<close>

definition entry_for :: "(string \<Rightarrow> bs_val option) \<Rightarrow> Batch \<Rightarrow> string \<times> bs_val \<Rightarrow> int \<times> u8 \<Rightarrow> bool" where
  "entry_for m latest e w \<longleftrightarrow>
     (\<exists>bid. valueKeyToID (fst e) = Some bid \<and>
        (if bid = b_ID latest then w = (b_Value latest, b_Depth latest)
         else \<exists>b. m (batchKey bid) = Some (BatchV b) \<and> w = (b_Value b, b_Depth b)))"

lemma gain_bounds:
  fixes d r :: u8
  assumes "d \<le> 40" "r \<le> 62"
  shows "0 \<le> exp2 (d - r - 1)" "exp2 (d - r - 1) \<le> 2 ^ 40" "r < d \<Longrightarrow> exp2 (d - r - 1) = 2 ^ (unat d - unat r - 1)"
    "\<not> r < d \<Longrightarrow> exp2 (d - r - 1) = 0"
proof -
  have d: "unat d \<le> 40" and r: "unat r \<le> 62" using assms by (simp_all add: word_le_nat_alt)
  show eq: "exp2 (d - r - 1) = 2 ^ (unat d - unat r - 1)" if "r < d"
  proof -
    have l: "unat r < unat d" using that by (simp add: word_less_nat_alt)
    have u: "unat (d - r) = unat d - unat r" using that by (simp add: unat_sub)
    then have "d - r \<noteq> 0" using l by auto
    then have "unat (d - r - 1) = unat d - unat r - 1" using u by (simp add: unat_minus_one)
    then show ?thesis using exp2_small [of "d - r - 1"] d by simp
  qed
  show zero: "exp2 (d - r - 1) = 0" if "\<not> r < d"
  proof -
    have le: "unat d \<le> unat r" using that by (simp add: word_less_nat_alt)
    have "unat (r + 1) = unat r + 1" using r by (simp add: unat_word_ariths)
    then have "unat (d - (r + 1)) = unat d + 256 - (unat r + 1)" using le by (simp add: unat_sub_if_size word_size)
    then have "64 \<le> unat (d - r - 1)" using r by (simp add: diff_diff_eq)
    then obtain k where "unat (d - r - 1) = 64 + k" using le_Suc_ex by blast
    then have "exp2 (d - r - 1) = i64 (0 + 2 ^ 64 * 2 ^ k)" by (simp add: exp2_eq power_add)
    then show ?thesis by (simp only: i64_shift) simp
  qed
  have "2 ^ (unat d - unat r - 1) \<le> (2 :: int) ^ 40" using d by (intro power_increasing) simp_all
  then show "0 \<le> exp2 (d - r - 1)" "exp2 (d - r - 1) \<le> 2 ^ 40" using eq zero by (cases "r < d"; simp)+
qed

text \<open>The range in which the reserve is shown to work: some capacity is available, the radius is at most 62, there are
  fewer than a million batches, and none of them has more than \<open>2 ^ 40\<close> chunks.\<close>

definition reserve_in_range :: "('s, bs_val) StateStorer \<Rightarrow> ('s \<Rightarrow> string \<Rightarrow> bs_val option) \<Rightarrow> 's BatchStore \<Rightarrow> bool" where
  "reserve_in_range S look s \<longleftrightarrow> (\<forall>b. stored look (bs_store s) b \<longrightarrow> b_Depth b \<le> 40) \<and>
     length (fst (st_Iter S valueKeyPrefix (bs_store s))) < 2 ^ 20 \<and>
     0 < rs_Available (bs_rs s) \<and> rs_Available (bs_rs s) < 2 ^ 60 \<and> rs_Radius (bs_rs s) \<le> 62"

locale reliable_batches = batch_store S look + reliable_store S look
  for S :: "('s, bs_val) StateStorer" and look :: "'s \<Rightarrow> string \<Rightarrow> bs_val option"
begin

lemma put_ok: "\<exists>s'. bs_put S k v s = (None, s') \<and> bs_rs s' = bs_rs s"
  using put_total [of k v "bs_store s"] by (auto simp: bs_put_def)

lemma index_same_refl: "index_same s s"
  by (simp add: index_same_def)

lemma index_same_trans: "index_same s s1 \<Longrightarrow> index_same s1 s2 \<Longrightarrow> index_same s s2"
  by (simp add: index_same_def)

lemma unreserve_ok: "\<exists>s'. bs_unreserve S bid r s = (None, s') \<and> bs_rs s' = bs_rs s \<and> index_same s s'"
proof -
  obtain s1 where s1: "bs_put S (queueKey (queueIdx s + 1)) (ItemV (ui_MarshalBinary \<lparr>ui_BatchID = bid, ui_Radius = r\<rparr>)) s = (None, s1)" "bs_rs s1 = bs_rs s"
    using put_ok by blast
  obtain s2 where s2: "bs_put S ureserveQueueCardinalityKey (CardV (queueIdx s + 1)) s1 = (None, s2)" "bs_rs s2 = bs_rs s1" using put_ok by blast
  have "bs_unreserve S bid r s = (None, s2\<lparr>queueIdx := queueIdx s + 1\<rparr>)" using s1 s2 by (simp add: bs_unreserve_def Let_def)
  then show ?thesis using bs_unreserve_index s1 s2 by fastforce
qed

lemma evict_entry:
  assumes e: "entry_for (look (bs_store s0)) latest (k, x) (v, d)" and same: "index_same s0 s"
  shows "v < rs_Outer (bs_rs s) \<Longrightarrow> evictOuter_func S latest k x s = (s, False, None)"
    "\<not> v < rs_Outer (bs_rs s) \<Longrightarrow> 0 \<le> rs_Available (bs_rs s) \<and> rs_Outer (bs_rs s) \<noteq> v \<Longrightarrow> evictOuter_func S latest k x s = (s, True, None)"
    "\<not> v < rs_Outer (bs_rs s) \<Longrightarrow> \<not> (0 \<le> rs_Available (bs_rs s) \<and> rs_Outer (bs_rs s) \<noteq> v) \<Longrightarrow>
       \<exists>s'. evictOuter_func S latest k x s = (s', False, None) \<and> index_same s s' \<and>
         bs_rs s' = (bs_rs s)\<lparr>rs_Available := i64 (rs_Available (bs_rs s) + exp2 (d - rs_Radius (bs_rs s) - 1)), rs_Outer := v\<rparr>"
proof -
  obtain bid b where b: "valueKeyToID k = Some bid" "(if b_ID latest = bid then Inr latest else bs_Get S bid s) = Inr b" "b_Value b = v" "b_Depth b = d"
    using e same by (fastforce simp: entry_for_def bs_Get_def get_total index_same_def split: if_splits)
  show "v < rs_Outer (bs_rs s) \<Longrightarrow> evictOuter_func S latest k x s = (s, False, None)"
    "\<not> v < rs_Outer (bs_rs s) \<Longrightarrow> 0 \<le> rs_Available (bs_rs s) \<and> rs_Outer (bs_rs s) \<noteq> v \<Longrightarrow> evictOuter_func S latest k x s = (s, True, None)"
    unfolding evictOuter_func_def b(1) option.case b(2) sum.case Let_def b(3,4) by simp_all
  let ?s1 = "s\<lparr>bs_rs := (bs_rs s)\<lparr>rs_Available := i64 (rs_Available (bs_rs s) + exp2 (d - rs_Radius (bs_rs s) - 1)), rs_Outer := v\<rparr>\<rparr>"
  obtain s' where s': "bs_unreserve S (b_ID b) (rs_Radius (bs_rs s)) ?s1 = (None, s')" "bs_rs s' = bs_rs ?s1" "index_same ?s1 s'" using unreserve_ok by blast
  have "index_same s s'" using s'(3) by (simp add: index_same_def)
  then show "\<exists>s'. evictOuter_func S latest k x s = (s', False, None) \<and> index_same s s' \<and>
         bs_rs s' = (bs_rs s)\<lparr>rs_Available := i64 (rs_Available (bs_rs s) + exp2 (d - rs_Radius (bs_rs s) - 1)), rs_Outer := v\<rparr>"
    if "\<not> v < rs_Outer (bs_rs s)" "\<not> (0 \<le> rs_Available (bs_rs s) \<and> rs_Outer (bs_rs s) \<noteq> v)"
    unfolding evictOuter_func_def b(1) option.case b(2) sum.case Let_def b(3,4) using that s' by simp
qed

text \<open>A round changes the capacity, the outer limit and the queue only; the capacity does not fall, and when the round
  visits \<open>latest\<close> it grows by the share of that batch or is not negative in the end.\<close>

lemma evict_round:
  assumes "list_all2 (entry_for (look (bs_store s0)) latest) es ws" and "index_same s0 s" and "sorted (map fst ws)" and "\<forall>w \<in> set ws. snd w \<le> 40"
    and "rs_Radius (bs_rs s) \<le> 62" and "- (2 ^ 62) \<le> rs_Available (bs_rs s)" and "rs_Available (bs_rs s) + int (length es) * 2 ^ 40 < 2 ^ 62"
  shows "\<exists>s'. iterate_loop (evictOuter_func S latest) es None s = (s', None) \<and> index_same s0 s' \<and>
    rs_Radius (bs_rs s') = rs_Radius (bs_rs s) \<and> rs_Inner (bs_rs s') = rs_Inner (bs_rs s) \<and>
    rs_Available (bs_rs s) \<le> rs_Available (bs_rs s') \<and> rs_Available (bs_rs s') < 2 ^ 62 \<and>
    ((b_Value latest, b_Depth latest) \<in> set ws \<and> rs_Outer (bs_rs s) \<le> b_Value latest \<longrightarrow>
       0 \<le> rs_Available (bs_rs s') \<or> rs_Available (bs_rs s) + exp2 (b_Depth latest - rs_Radius (bs_rs s) - 1) \<le> rs_Available (bs_rs s'))"
  using assms
proof (induction es ws arbitrary: s rule: list_all2_induct)
  case Nil
  then show ?case by simp
next
  case (Cons e es w ws)
  obtain k x v d where [simp]: "e = (k, x)" "w = (v, d)" by (metis prod.exhaust)
  let ?a = "rs_Available (bs_rs s)" and ?g = "exp2 (d - rs_Radius (bs_rs s) - 1)"
  note step = evict_entry [OF Cons.hyps(1) [simplified] Cons.prems(1)]
  have g: "0 \<le> ?g" "?g \<le> 2 ^ 40" using gain_bounds [of d] Cons.prems(3,4) by simp_all
  have len: "?a + int (length es) * 2 ^ 40 + 2 ^ 40 < 2 ^ 62" using Cons.prems(6) by (simp add: algebra_simps)
  have pos: "0 \<le> int (length es) * 2 ^ 40" by simp
  have p: "(0 :: int) \<le> 2 ^ 40" by simp
  have b1: "?a < 2 ^ 62" using len pos p by linarith
  have b2: "?a + int (length es) * 2 ^ 40 < 2 ^ 62" using len p by linarith
  consider (skip) "v < rs_Outer (bs_rs s)" | (stop) "\<not> v < rs_Outer (bs_rs s)" "0 \<le> ?a \<and> rs_Outer (bs_rs s) \<noteq> v"
    | (take) "\<not> v < rs_Outer (bs_rs s)" "\<not> (0 \<le> ?a \<and> rs_Outer (bs_rs s) \<noteq> v)" by blast
  then show ?case
  proof cases
    case skip
    have "w \<noteq> (b_Value latest, b_Depth latest)" if "rs_Outer (bs_rs s) \<le> b_Value latest" using skip that by auto
    then show ?thesis using Cons.IH [of s] Cons.prems b2 step(1) [OF skip] by auto
  next
    case stop
    then show ?thesis using step(2) [OF stop] b1 Cons.prems(1) by simp
  next
    case take
    obtain s1 where s1: "evictOuter_func S latest k x s = (s1, False, None)" "index_same s s1"
      "bs_rs s1 = (bs_rs s)\<lparr>rs_Available := i64 (?a + ?g), rs_Outer := v\<rparr>" using step(3) [OF take] by blast
    have a1: "i64 (?a + ?g) = ?a + ?g" using g b1 Cons.prems(5) by (intro i64_id) simp_all
    have "index_same s0 s1" using Cons.prems(1) s1(2) by (rule index_same_trans)
    moreover have "rs_Available (bs_rs s1) + int (length es) * 2 ^ 40 < 2 ^ 62" using len g(2) by (simp add: s1(3) a1)
    moreover have "- (2 ^ 62) \<le> rs_Available (bs_rs s1)" using Cons.prems(5) g(1) by (simp add: s1(3) a1)
    ultimately obtain s' where s': "iterate_loop (evictOuter_func S latest) es None s1 = (s', None)" "index_same s0 s'"
      "rs_Radius (bs_rs s') = rs_Radius (bs_rs s1)" "rs_Inner (bs_rs s') = rs_Inner (bs_rs s1)"
      "rs_Available (bs_rs s1) \<le> rs_Available (bs_rs s')" "rs_Available (bs_rs s') < 2 ^ 62"
      "(b_Value latest, b_Depth latest) \<in> set ws \<and> rs_Outer (bs_rs s1) \<le> b_Value latest \<longrightarrow>
       0 \<le> rs_Available (bs_rs s') \<or> rs_Available (bs_rs s1) + exp2 (b_Depth latest - rs_Radius (bs_rs s1) - 1) \<le> rs_Available (bs_rs s')"
      using Cons.IH [of s1] Cons.prems(2,3,4) by (auto simp: s1(3))
    have "0 \<le> rs_Available (bs_rs s') \<or> ?a + exp2 (b_Depth latest - rs_Radius (bs_rs s) - 1) \<le> rs_Available (bs_rs s')"
      if "(b_Value latest, b_Depth latest) \<in> set (w # ws)"
    proof (cases "(b_Value latest, b_Depth latest) = w")
      case True
      then show ?thesis using s'(5) by (simp add: s1(3) a1)
    next
      case False
      then have m: "(b_Value latest, b_Depth latest) \<in> set ws" using that by auto
      then have "v \<le> b_Value latest" using Cons.prems(2) by force
      then show ?thesis using s'(7) m g(1) by (auto simp: s1(3) a1)
    qed
    then show ?thesis using s' s1(1) g(1) by (auto simp: s1(3) a1)
  qed
qed

section \<open>The loop ends\<close>

definition evictable :: "Batch \<Rightarrow> 's BatchStore \<Rightarrow> bool" where
  "evictable latest s \<longleftrightarrow> (\<exists>es ws. st_Iter S valueKeyPrefix (bs_store s) = (es, None) \<and> list_all2 (entry_for (look (bs_store s)) latest) es ws \<and>
     sorted (map fst ws) \<and> (\<forall>w \<in> set ws. snd w \<le> 40) \<and> (b_Value latest, b_Depth latest) \<in> set ws \<and> length es \<le> 2 ^ 20)"

lemma entries_same:
  assumes "index_same s s'" and "st_Iter S valueKeyPrefix (bs_store s) = (es, None)"
  shows "st_Iter S valueKeyPrefix (bs_store s') = (es, None)"
proof -
  obtain es' where es': "st_Iter S valueKeyPrefix (bs_store s') = (es', None)" using iter_total by (metis prod.collapse)
  have set: "set es' = set es" using iter_set [OF es'] iter_set [OF assms(2)] assms(1) by (auto simp: index_same_def index_key_def)
  have "sorted_wrt (<) (map fst es')" "sorted_wrt (<) (map fst es)" using iter_strict_sorted es' assms(2) by blast+
  moreover have "set (map fst es') = set (map fst es)" using set by simp
  ultimately have fst: "map fst es' = map fst es" by (metis strict_sorted_equal)
  have d: "distinct (map fst es)" using iter_set [OF assms(2)] by simp
  have "map snd es' = map snd es"
  proof (rule nth_equalityI)
    show l: "length (map snd es') = length (map snd es)" using fst by (metis length_map)
    fix i assume i: "i < length (map snd es')"
    then have "fst (es' ! i) = fst (es ! i)" "es' ! i \<in> set es" "es ! i \<in> set es" using fst l set by (metis length_map nth_map nth_mem)+
    then have "es' ! i = es ! i" using d by (metis prod.collapse map_of_is_SomeI option.inject)
    then show "map snd es' ! i = map snd es ! i" using i l by simp
  qed
  then have "es' = es" using fst by (metis zip_map_fst_snd)
  then show ?thesis using es' by simp
qed

lemma evictable_same: "index_same s s' \<Longrightarrow> evictable latest s \<Longrightarrow> evictable latest s'"
proof -
  assume i: "index_same s s'" and "evictable latest s"
  then obtain es ws where e: "st_Iter S valueKeyPrefix (bs_store s) = (es, None)" "list_all2 (entry_for (look (bs_store s)) latest) es ws"
    "sorted (map fst ws)" "\<forall>w \<in> set ws. snd w \<le> 40" "(b_Value latest, b_Depth latest) \<in> set ws" "length es \<le> 2 ^ 20"
    unfolding evictable_def by blast
  have "entry_for (look (bs_store s')) latest = entry_for (look (bs_store s)) latest"
    using i by (intro ext) (simp add: entry_for_def index_same_def)
  then show ?thesis using e entries_same [OF i e(1)] unfolding evictable_def by metis
qed

lemma one_round:
  assumes ev: "evictable latest s" and r: "rs_Radius (bs_rs s) \<le> 62" and a: "- (2 ^ 62) \<le> rs_Available (bs_rs s)" "rs_Available (bs_rs s) < 0"
  obtains (finished) s' where "evictOuter (Suc n) S latest s = Some (None, s')"
    | (more) s' where "evictOuter (Suc n) S latest s = evictOuter n S latest s'" "evictable latest s'" "rs_Radius (bs_rs s') = rs_Radius (bs_rs s) + 1"
      "rs_Inner (bs_rs s') = rs_Inner (bs_rs s)" "rs_Outer (bs_rs s') = rs_Inner (bs_rs s)" "rs_Available (bs_rs s) \<le> rs_Available (bs_rs s')"
      "rs_Outer (bs_rs s) \<le> b_Value latest \<Longrightarrow> rs_Available (bs_rs s) + exp2 (b_Depth latest - rs_Radius (bs_rs s) - 1) \<le> rs_Available (bs_rs s')"
proof -
  obtain es ws where e: "st_Iter S valueKeyPrefix (bs_store s) = (es, None)" "list_all2 (entry_for (look (bs_store s)) latest) es ws"
    "sorted (map fst ws)" "\<forall>w \<in> set ws. snd w \<le> 40" "(b_Value latest, b_Depth latest) \<in> set ws" "length es \<le> 2 ^ 20"
    using ev unfolding evictable_def by blast
  have "int (length es) * 2 ^ 40 \<le> 2 ^ 20 * 2 ^ 40" using e(6) by (intro mult_right_mono) simp_all
  then have "rs_Available (bs_rs s) + int (length es) * 2 ^ 40 < 2 ^ 62" using a(2) by simp
  then obtain s1 where s1: "iterate_loop (evictOuter_func S latest) es None s = (s1, None)" "index_same s s1"
    "rs_Radius (bs_rs s1) = rs_Radius (bs_rs s)" "rs_Inner (bs_rs s1) = rs_Inner (bs_rs s)" "rs_Available (bs_rs s) \<le> rs_Available (bs_rs s1)"
    "rs_Outer (bs_rs s) \<le> b_Value latest \<Longrightarrow>
       0 \<le> rs_Available (bs_rs s1) \<or> rs_Available (bs_rs s) + exp2 (b_Depth latest - rs_Radius (bs_rs s) - 1) \<le> rs_Available (bs_rs s1)"
    using evict_round [OF e(2) index_same_refl e(3,4) r a(1)] e(5) by blast
  let ?rs = "(bs_rs s1)\<lparr>rs_Outer := rs_Outer (bs_rs s1) + 1\<rparr>"
  have it: "st_Iterate S valueKeyPrefix (evictOuter_func S latest) (bs_store s) s = (s1, None)" using e(1) s1(1) by (simp add: st_Iterate_def)
  show thesis
  proof (cases "rs_Available (bs_rs s1) < 0")
    case True
    let ?s2 = "s1\<lparr>bs_rs := ?rs\<lparr>rs_Radius := rs_Radius ?rs + 1, rs_Outer := rs_Inner ?rs\<rparr>\<rparr>"
    have "index_same s ?s2" using s1(2) by (simp add: index_same_def)
    then show ?thesis using True a(2) it s1(3-6) evictable_same [OF _ ev] by (intro more [of ?s2]) (auto simp: iter_err_def Let_def)
  next
    case False
    obtain s2 where "bs_put S reserveStateKey (ReserveV ?rs) (s1\<lparr>bs_rs := ?rs\<rparr>) = (None, s2)" using put_ok by blast
    then show ?thesis using False a(2) it by (intro finished [of s2]) (simp add: iter_err_def Let_def)
  qed
qed

text \<open>When \<open>latest\<close> is above the outer limit and the missing capacity is below its size at the current radius, each round
  halves the size and gains what it loses.\<close>

lemma evictOuter_ends:
  assumes "evictable latest s" and "rs_Inner (bs_rs s) \<le> b_Value latest" "rs_Outer (bs_rs s) \<le> b_Value latest" and "b_Depth latest \<le> 40"
    and "rs_Radius (bs_rs s) \<le> b_Depth latest" and "1 - 2 ^ (unat (b_Depth latest) - unat (rs_Radius (bs_rs s))) \<le> rs_Available (bs_rs s)"
    and "unat (b_Depth latest) - unat (rs_Radius (bs_rs s)) < n"
  shows "\<exists>s'. evictOuter n S latest s = Some (None, s')"
  using assms
proof (induction n arbitrary: s)
  case (Suc n)
  let ?d = "b_Depth latest" and ?r = "rs_Radius (bs_rs s)"
  show ?case
  proof (cases "0 \<le> rs_Available (bs_rs s)")
    case False
    have "?r \<noteq> ?d" using Suc.prems(6) False by auto
    then have l: "?r < ?d" using Suc.prems(5) by (simp add: order.strict_iff_order)
    then have l2: "unat ?r < unat ?d" by (simp add: word_less_nat_alt)
    have r: "?r \<le> 62" "unat ?d \<le> 40" using Suc.prems(4,5) by (simp_all add: word_le_nat_alt)
    have "(2 :: int) ^ (unat ?d - unat ?r) \<le> 2 ^ 40" using r(2) by (intro power_increasing) simp_all
    then have a: "- (2 ^ 62) \<le> rs_Available (bs_rs s)" "rs_Available (bs_rs s) < 0" using Suc.prems(6) False by simp_all
    show ?thesis
    proof (rule one_round [OF Suc.prems(1) r(1) a, of n])
      fix s' assume m: "evictOuter (Suc n) S latest s = evictOuter n S latest s'" "evictable latest s'" "rs_Radius (bs_rs s') = ?r + 1"
        "rs_Inner (bs_rs s') = rs_Inner (bs_rs s)" "rs_Outer (bs_rs s') = rs_Inner (bs_rs s)" "rs_Available (bs_rs s) \<le> rs_Available (bs_rs s')"
        "rs_Outer (bs_rs s) \<le> b_Value latest \<Longrightarrow> rs_Available (bs_rs s) + exp2 (?d - ?r - 1) \<le> rs_Available (bs_rs s')"
      have u: "unat (?r + 1) = unat ?r + 1" using r(2) l2 by (simp add: unat_word_ariths)
      have "rs_Available (bs_rs s) + 2 ^ (unat ?d - unat ?r - 1) \<le> rs_Available (bs_rs s')"
        using m(7) Suc.prems(3) gain_bounds(3) [OF Suc.prems(4) r(1) l] by simp
      moreover have "(2 :: int) ^ (unat ?d - unat ?r) = 2 ^ (unat ?d - unat ?r - 1) + 2 ^ (unat ?d - unat ?r - 1)"
        using l2 by (metis Suc_diff_Suc diff_Suc_1 mult_2 power_Suc diff_Suc_eq_diff_pred)
      ultimately have "1 - 2 ^ (unat ?d - unat (?r + 1)) \<le> rs_Available (bs_rs s')" using Suc.prems(6) u by simp
      moreover have "?r + 1 \<le> ?d" "unat ?d - unat (?r + 1) < n" using l2 u Suc.prems(7) by (simp_all add: word_le_nat_alt)
      ultimately show ?thesis using Suc.IH [OF m(2)] m(1,3,4,5) Suc.prems(2,4) by simp
    qed blast
  qed simp
qed simp

section \<open>Put returns\<close>

lemma change_small:
  assumes "rs_change oldv newv od nd rs = (cc, rr, rs1)" and "od \<le> 40" "nd \<le> 40" "rs_Radius rs \<le> 62"
  shows "rs_Radius rs1 = rs_Radius rs \<and> rs_Available rs1 = rs_Available rs \<and> rs_Inner rs1 \<le> newv \<and> cc \<le> 2 ^ 41 \<and>
    (if rs_Radius rs < nd then rs_Outer rs1 \<le> newv \<and> - (2 ^ (unat nd - unat (rs_Radius rs))) \<le> cc \<or> - (2 ^ (unat nd - unat (rs_Radius rs) - 1)) \<le> cc
     else 0 \<le> cc)"
proof -
  obtain t where t: "setLimits newv (rs_tier newv rs) rs = (t, rs1)" "cc = i64 (rs_size od (rs_tier oldv rs) rs1 - rs_size nd t rs1)"
    using assms(1) by (auto simp: rs_change_def Let_def split: prod.splits)
  have keep: "rs_Radius rs1 = rs_Radius rs" "rs_Available rs1 = rs_Available rs" "rs_Inner rs1 \<le> newv"
    and outer: "t = outer \<Longrightarrow> rs_Outer rs1 \<le> newv" and un: "t \<noteq> unreserved"
    using t(1) by (auto simp: setLimits_def rs_tier_def split: if_splits)
  have size: "0 \<le> rs_size d k rs1" "rs_size d k rs1 \<le> 2 * exp2 (d - rs_Radius rs - 1)" "k = inner \<Longrightarrow> rs_size d k rs1 = exp2 (d - rs_Radius rs - 1)"
    if "d \<le> 40" for d k
  proof -
    have "i64 (2 * exp2 (d - rs_Radius rs - 1)) = 2 * exp2 (d - rs_Radius rs - 1)"
      using gain_bounds(1,2) [OF that assms(4)] by (intro i64_id) simp_all
    then show "0 \<le> rs_size d k rs1" "rs_size d k rs1 \<le> 2 * exp2 (d - rs_Radius rs - 1)" "k = inner \<Longrightarrow> rs_size d k rs1 = exp2 (d - rs_Radius rs - 1)"
      using gain_bounds(1) [OF that assms(4)] by (cases k; simp add: rs_size_def keep(1) Let_def)+
  qed
  have b: "exp2 (od - rs_Radius rs - 1) \<le> 2 ^ 40" "exp2 (nd - rs_Radius rs - 1) \<le> 2 ^ 40" using gain_bounds(2) assms(2-4) by blast+
  let ?o = "rs_size od (rs_tier oldv rs) rs1" and ?n = "rs_size nd t rs1"
  have o: "0 \<le> ?o" "?o \<le> 2 ^ 41" and n: "0 \<le> ?n" "?n \<le> 2 ^ 41" 
    using size(1,2) [OF assms(2), of "rs_tier oldv rs"] size(1,2) [OF assms(3), of t] b by simp_all
  have cc: "cc = ?o - ?n" unfolding t(2) using o n by (intro i64_id) simp_all
  have "rs_Outer rs1 \<le> newv \<and> - (2 ^ (unat nd - unat (rs_Radius rs))) \<le> cc \<or> - (2 ^ (unat nd - unat (rs_Radius rs) - 1)) \<le> cc" if l: "rs_Radius rs < nd"
  proof (cases "t = outer")
    case True
    have "2 * 2 ^ (unat nd - unat (rs_Radius rs) - 1) = (2 :: int) ^ (unat nd - unat (rs_Radius rs))"
      using l by (metis Suc_diff_Suc diff_Suc_eq_diff_pred diff_Suc_1 power_Suc word_less_nat_alt)
    then show ?thesis using outer [OF True] size(2) [OF assms(3), of t] gain_bounds(3) [OF assms(3,4) l] o(1) cc by simp
  next
    case False
    then have "t = inner" using un by (cases t) simp_all
    then show ?thesis using size(3) [OF assms(3), of t] gain_bounds(3) [OF assms(3,4) l] o(1) cc by simp
  qed
  moreover have "0 \<le> cc" if "\<not> rs_Radius rs < nd" using size(2) [OF assms(3), of t] gain_bounds(4) [OF assms(3,4) that] o(1) n(1) cc by simp
  ultimately show ?thesis using keep o n cc by simp
qed

lemma update_ends:
  assumes ev: "evictable b s" and "od \<le> 40" "b_Depth b \<le> 40" and r: "rs_Radius (bs_rs s) \<le> 62"
    and a: "0 < rs_Available (bs_rs s)" "rs_Available (bs_rs s) < 2 ^ 60"
  shows "\<exists>s'. bs_update 64 S b od oldv s = Some (None, s')"
proof -
  let ?r = "rs_Radius (bs_rs s)" and ?d = "b_Depth b"
  obtain cc rr rs1 where ch: "rs_change oldv (b_Value b) od ?d (bs_rs s) = (cc, rr, rs1)" by (metis prod.exhaust)
  note c = change_small [OF ch assms(2,3) r]
  define s1 where "s1 = s\<lparr>bs_rs := rs1\<lparr>rs_Available := i64 (rs_Available rs1 + cc)\<rparr>\<rparr>"
  obtain s2 where s2: "bs_unreserve S (b_ID b) rr s1 = (None, s2)" "bs_rs s2 = bs_rs s1" "index_same s1 s2" using unreserve_ok by blast
  have up: "bs_update 64 S b od oldv s = evictOuter 64 S b s2" using ch s2(1) by (simp add: bs_update_def s1_def)
  have ev2: "evictable b s2" using s2(3) by (intro evictable_same [OF _ ev]) (simp add: index_same_def s1_def)
  have "(2 :: int) ^ (unat ?d - unat ?r) \<le> 2 ^ 40" "(2 :: int) ^ (unat ?d - unat ?r - 1) \<le> 2 ^ 40"
    using assms(3) by (intro power_increasing; simp add: word_le_nat_alt)+
  then have "- (2 ^ 41) \<le> cc" using c by (auto split: if_splits)
  then have a2: "rs_Available (bs_rs s2) = rs_Available (bs_rs s) + cc" and low: "- (2 ^ 62) \<le> rs_Available (bs_rs s2)"
    using a c by (simp_all add: s2(2) s1_def)
  have rad: "rs_Radius (bs_rs s2) = ?r" "rs_Inner (bs_rs s2) \<le> b_Value b" "rs_Outer (bs_rs s2) = rs_Outer rs1" using c by (simp_all add: s2(2) s1_def)
  show ?thesis
  proof (cases "0 \<le> rs_Available (bs_rs s2)")
    case True
    then show ?thesis unfolding up by (simp add: numeral_eq_Suc)
  next
    case False
    then have l: "?r < ?d" using a(1) a2 c by (auto split: if_splits)
    then have l2: "unat ?r < unat ?d" "unat ?d \<le> 40" using assms(3) by (simp_all add: word_less_nat_alt word_le_nat_alt)
    have "rs_Outer rs1 \<le> b_Value b \<and> - (2 ^ (unat ?d - unat ?r)) \<le> cc \<or> - (2 ^ (unat ?d - unat ?r - 1)) \<le> cc" using c l by simp
    then show ?thesis
    proof
      assume "rs_Outer rs1 \<le> b_Value b \<and> - (2 ^ (unat ?d - unat ?r)) \<le> cc"
      then show ?thesis unfolding up using a(1) a2 l l2 rad by (intro evictOuter_ends [OF ev2 rad(2) _ assms(3)]) simp_all
    next
      assume cc: "- (2 ^ (unat ?d - unat ?r - 1)) \<le> cc"
      have n: "evictOuter 64 S b s2 = evictOuter (Suc 63) S b s2" "rs_Radius (bs_rs s2) \<le> 62" "rs_Available (bs_rs s2) < 0" using False r rad(1) by simp_all
      have "\<exists>s'. evictOuter (Suc 63) S b s2 = Some (None, s')"
      proof (rule one_round [OF ev2 n(2) low n(3), of 63])
        fix s' assume m: "evictOuter (Suc 63) S b s2 = evictOuter 63 S b s'" "evictable b s'" "rs_Radius (bs_rs s') = rs_Radius (bs_rs s2) + 1"
          "rs_Inner (bs_rs s') = rs_Inner (bs_rs s2)" "rs_Outer (bs_rs s') = rs_Inner (bs_rs s2)" "rs_Available (bs_rs s2) \<le> rs_Available (bs_rs s')"
        have u: "unat (?r + 1) = unat ?r + 1" using l2 by (simp add: unat_word_ariths)
        then have "?r + 1 \<le> ?d" "unat ?d - unat (?r + 1) < 63" using l2 by (simp_all add: word_le_nat_alt)
        moreover have "1 - 2 ^ (unat ?d - unat (?r + 1)) \<le> rs_Available (bs_rs s')" using cc a(1) a2 m(6) u by simp
        ultimately show ?thesis
          unfolding m(1) using m(3,4,5) rad by (intro evictOuter_ends [OF m(2) _ _ assms(3)]) simp_all
      qed blast
      then show ?thesis by (simp only: up n(1))
    qed
  qed
qed

lemma evictable_put:
  assumes ok: "indexes_ok look (bs_store s)" and range: "reserve_in_range S look s" and id: "length (b_ID b) = 32" and v: "0 \<le> b_Value b" and d: "b_Depth b \<le> 40"
    and ko: "valueKey oldv (b_ID b) = Some ko" and kn: "valueKey (b_Value b) (b_ID b) = Some kn"
    and old: "\<And>b0. stored look (bs_store s) b0 \<Longrightarrow> b_ID b0 = b_ID b \<Longrightarrow> b_Value b0 = oldv"
    and l: "look (bs_store s2) = (look (bs_store s))(ko := None, kn \<mapsto> NilV)"
  shows "evictable b s2"
proof -
  obtain es where es: "st_Iter S valueKeyPrefix (bs_store s2) = (es, None)" using iter_total by (metis prod.collapse)
  obtain es0 where es0: "st_Iter S valueKeyPrefix (bs_store s) = (es0, None)" using iter_total by (metis prod.collapse)
  note set = iter_set [OF es, THEN conjunct1] and set0 = iter_set [OF es0, THEN conjunct1]
  let ?R = "\<lambda>e w. entry_for (look (bs_store s2)) b e w \<and> snd w \<le> 40 \<and> 0 \<le> fst w \<and> (\<exists>bid. length bid = 32 \<and> valueKey (fst w) bid = Some (fst e))"
  have "\<exists>w. ?R e w" if e: "e \<in> set es" for e
  proof (cases "fst e = kn")
    case True
    then show ?thesis using valueKeyToID_valueKey [OF kn id] kn id v d by (intro exI [of _ "(b_Value b, b_Depth b)"]) (auto simp: entry_for_def)
  next
    case False
    have f: "fst e \<noteq> ko" "look (bs_store s) (fst e) \<noteq> None" "prefix valueKeyPrefix (fst e)"
      using e False unfolding set l by (auto split: if_splits)
    then obtain b2 where b2: "stored look (bs_store s) b2" "valueKey (b_Value b2) (b_ID b2) = Some (fst e)" using ok unfolding indexes_ok_def by blast
    have ne: "b_ID b2 \<noteq> b_ID b" using old [OF b2(1)] b2(2) ko f(1) by auto
    have i2: "length (b_ID b2) = 32" "0 \<le> b_Value b2" using stored_ok [OF ok b2(1)] by simp_all
    have "look (bs_store s2) (batchKey (b_ID b2)) = Some (BatchV b2)"
      using b2(1) batchKey_not(1) [OF ko] batchKey_not(1) [OF kn] by (auto simp: l stored_def)
    then show ?thesis using valueKeyToID_valueKey [OF b2(2) i2(1)] ne i2 b2 range
      by (intro exI [of _ "(b_Value b2, b_Depth b2)"]) (auto simp: entry_for_def reserve_in_range_def)
  qed
  then obtain f where f: "\<And>e. e \<in> set es \<Longrightarrow> ?R e (f e)" by metis
  have "sorted_wrt (\<lambda>x y. fst x < fst y) es" using iter_strict_sorted [OF es] by (simp add: sorted_wrt_map)
  then have "sorted_wrt (\<lambda>x y. fst (f x) \<le> fst (f y)) es"
  proof (rule sorted_wrt_mono_rel [rotated])
    fix x y assume xy: "x \<in> set es" "y \<in> set es" "fst x < fst y"
    obtain p q where "valueKey (fst (f x)) p = Some (fst x)" "valueKey (fst (f y)) q = Some (fst y)" using f xy(1,2) by meson
    then show "fst (f x) \<le> fst (f y)" using valueKey_less_iff [of "fst (f x)" p "fst x" "fst (f y)" q "fst y"] f xy by auto
  qed
  then have sorted: "sorted (map fst (map f es))" by (simp add: sorted_wrt_map comp_def)
  have "(kn, NilV) \<in> set es" unfolding set l using valueKey_prefix [OF kn] by simp
  moreover from this have "f (kn, NilV) = (b_Value b, b_Depth b)" using f valueKeyToID_valueKey [OF kn id] by (fastforce simp: entry_for_def)
  ultimately have latest: "(b_Value b, b_Depth b) \<in> set (map f es)" by force
  have "fst ` set es \<subseteq> insert kn (fst ` set es0)" unfolding set set0 l by (auto split: if_splits)
  then have "card (fst ` set es) \<le> card (insert kn (fst ` set es0))" by (intro card_mono) simp_all
  also have "\<dots> \<le> Suc (card (fst ` set es0))" by (simp add: card_insert_if)
  finally have "card (fst ` set es) \<le> Suc (card (fst ` set es0))" .
  moreover have "card (fst ` set es) = length es" "card (fst ` set es0) = length es0"
    using distinct_card [of "map fst es"] distinct_card [of "map fst es0"] iter_set [OF es] iter_set [OF es0] by simp_all
  ultimately have "length es \<le> 2 ^ 20" using range es0 by (simp add: reserve_in_range_def)
  moreover have "list_all2 (entry_for (look (bs_store s2)) b) es (map f es)" using f by (simp add: list.rel_map list.rel_refl_strong)
  moreover have "\<forall>w \<in> set (map f es). snd w \<le> 40" using f by auto
  ultimately show ?thesis using es sorted latest unfolding evictable_def by blast
qed

lemma Put_succeeds:
  assumes ok: "indexes_ok look (bs_store s)" and range: "reserve_in_range S look s" and "length (b_ID b) = 32"
    and "0 \<le> b_Value b" "b_Value b < 2 ^ 256" "0 \<le> value" "value < 2 ^ 256" and "b_Depth b \<le> 40" "depth \<le> 40"
    and old: "\<And>b0. stored look (bs_store s) b0 \<Longrightarrow> b_ID b0 = b_ID b \<Longrightarrow> b_Value b0 = b_Value b"
  shows "\<exists>s'. bs_Put 64 S b value depth s = Some (None, s')"
proof -
  let ?b = "b\<lparr>b_Value := value, b_Depth := depth\<rparr>"
  have "valueKey x (b_ID b) \<noteq> None" if "0 \<le> x" "x < 2 ^ 256" for x
    using that by (simp add: valueKey_def nat_less_iff not_le)
  then obtain ko kn where ko: "valueKey (b_Value b) (b_ID b) = Some ko" and kn: "valueKey value (b_ID b) = Some kn" using assms(4-7) by blast
  obtain st1 where st1: "st_Delete S ko (bs_store s) = Inr st1" using delete_total by blast
  let ?s1 = "s\<lparr>bs_store := st1\<rparr>"
  obtain s2 where s2: "bs_put S kn NilV ?s1 = (None, s2)" "bs_rs s2 = bs_rs s" using put_ok [of kn NilV ?s1] by auto
  have l: "look (bs_store s2) = (look (bs_store s))(ko := None, kn \<mapsto> NilV)"
    using bs_put_look [OF s2(1)] delete_look [OF st1] by simp
  have "evictable ?b s2" using assms(3,6,9) ko kn old by (intro evictable_put [OF ok range _ _ _ _ _ _ l]) auto
  then obtain s3 where s3: "bs_update 64 S ?b (b_Depth b) (b_Value b) s2 = Some (None, s3)"
    using update_ends [of ?b s2 "b_Depth b" "b_Value b"] assms(8,9) range s2(2) by (auto simp: reserve_in_range_def)
  obtain s4 where "bs_put S (batchKey (b_ID b)) (BatchV ?b) (notify_radius s3) = (None, s4)" using put_ok by blast
  then have "bs_Put 64 S b value depth s = Some (None, s4)" using ko kn st1 s2(1) s3 by (simp add: bs_Put_def bs_del_def)
  then show ?thesis ..
qed

section \<open>Expired batches are purged\<close>

lemma evict_loop_total:
  assumes "list_all2 (\<lambda>e b. stored look st b \<and> length (b_ID b) = 32 \<and> valueKey (b_Value b) (b_ID b) = Some (fst e)) es bl"
    and "bs_store s = st" and "\<And>bid. evictFn bid = None"
  shows "\<exists>c. iterate_loop (evictExpired_func S evictFn until) es None (s, m, del) = (c, None)"
  using assms(1,2)
proof (induction es bl arbitrary: s m del rule: list_all2_induct)
  case (Cons e es b bl)
  obtain k x where e: "e = (k, x)" by fastforce
  have "look (bs_store s) (batchKey (b_ID b)) = Some (BatchV b)" "valueKeyToID k = Some (b_ID b)"
    using Cons(1) Cons.prems valueKeyToID_valueKey by (auto simp: stored_def e)
  then have "\<exists>s1 m1 del1 stop. evictExpired_func S evictFn until k x (s, m, del) = ((s1, m1, del1), stop, None) \<and> bs_store s1 = st"
    using Cons.prems assms(3) by (auto simp: evictExpired_func_def bs_Get_def get_total Let_def)
  then obtain s1 m1 del1 stop where s1: "evictExpired_func S evictFn until k x (s, m, del) = ((s1, m1, del1), stop, None)" "bs_store s1 = st" by blast
  show ?case using Cons.IH [OF s1(2), of m1 del1] by (cases stop) (auto simp: e s1(1))
qed simp

lemma delete_total_ids:
  assumes "indexes_ok look (bs_store s)" and "distinct ids" and "\<And>bid. bid \<in> set ids \<Longrightarrow> \<exists>b. stored look (bs_store s) b \<and> b_ID b = bid"
  shows "\<exists>s'. bs_delete S ids s = (None, s')"
  using assms
proof (induction ids arbitrary: s)
  case (Cons bid ids)
  obtain b where b: "stored look (bs_store s) b" "b_ID b = bid" using Cons.prems(3) [of bid] by auto
  obtain k where k: "valueKey (b_Value b) bid = Some k" using stored_ok [OF Cons.prems(1) b(1)] b(2) by auto
  have g: "bs_Get S bid s = Inr (b\<lparr>b_Radius := batch_radius (b_Value b) (bs_rs s)\<rparr>)" using b by (simp add: bs_Get_def get_total stored_def)
  obtain st1 st2 where st: "st_Delete S k (bs_store s) = Inr st1" "st_Delete S (batchKey bid) st1 = Inr st2" using delete_total by meson
  let ?s = "s\<lparr>bs_store := st2\<rparr>"
  have l: "look st2 = (look (bs_store s))(k := None, batchKey (b_ID b) := None)" using delete_look [OF st(1)] delete_look [OF st(2)] b(2) by simp
  have ok: "indexes_ok look (bs_store ?s)" using k b l by (intro indexes_ok_remove [OF Cons.prems(1) b(1)]) simp_all
  have "\<exists>b'. stored look (bs_store ?s) b' \<and> b_ID b' = i" if i: "i \<in> set ids" for i
  proof -
    obtain b' where b': "stored look (bs_store s) b'" "b_ID b' = i" using Cons.prems(3) [of i] i by auto
    have "i \<noteq> bid" using Cons.prems(2) i by auto
    then show ?thesis using b' batchKey_not(1) [OF k, of i] by (intro exI [of _ b']) (auto simp: stored_def l b(2))
  qed
  then obtain s' where "bs_delete S ids ?s = (None, s')" using Cons.IH [OF ok] Cons.prems(2) by auto
  then show ?case using g k st by (simp add: bs_del_def)
qed simp

lemma evictExpired_succeeds:
  assumes ok: "indexes_ok look (bs_store s)" and ev: "\<And>bid. evictFn bid = None"
  shows "\<exists>s'. evictExpired S evictFn s = (None, s')"
proof -
  let ?st = "bs_store s" and ?u = "evict_until s"
  obtain es where es: "st_Iter S valueKeyPrefix ?st = (es, None)" using iter_total by (metis prod.collapse)
  obtain bl where bl: "list_all2 (\<lambda>e b. stored look ?st b \<and> length (b_ID b) = 32 \<and> valueKey (b_Value b) (b_ID b) = Some (fst e)) es bl"
    using value_entries [OF ok es] by blast
  obtain s1 m del where it: "iterate_loop (evictExpired_func S evictFn ?u) es None (s, 0, []) = ((s1, m, del), None)"
  proof -
    obtain c where "iterate_loop (evictExpired_func S evictFn ?u) es None (s, 0, []) = (c, None)" using evict_loop_total [OF bl refl, where evictFn = evictFn] ev by blast
    then show thesis using that by (cases c) auto
  qed
  obtain n where n: "bs_store s1 = ?st" "del = map b_ID (filter (\<lambda>b. b_Value b \<le> cs_TotalAmount (bs_cs s)) (take n bl))"
    using evict_loop [OF bl refl it] unfolding append_Nil by blast
  let ?s2 = "s1\<lparr>bs_rs := (bs_rs s1)\<lparr>rs_Inner := ?u, rs_Outer := if rs_Outer (bs_rs s1) < ?u then ?u else rs_Outer (bs_rs s1)\<rparr>\<rparr>"
  obtain s3 where s3: "bs_put S reserveStateKey (ReserveV (bs_rs ?s2)) ?s2 = (None, s3)" using put_ok by blast
  have l3: "index_same s s3" using bs_put_index [OF s3] n(1) by (simp add: index_same_def)
  have st: "stored look (bs_store s3) b = stored look ?st b" for b using l3 by (simp add: index_same_def stored_def)
  have ok3: "indexes_ok look (bs_store s3)" using l3 ok by (intro indexes_ok_cong [OF _ ok]) (simp add: index_same_def)
  have sb: "stored look ?st b" if "b \<in> set bl" for b using bl that by (auto simp: list_all2_conv_all_nth in_set_conv_nth)
  have "distinct (map b_ID bl)"
  proof -
    have len: "length es = length bl" using bl by (rule list_all2_lengthD)
    have nth: "valueKey (b_Value (bl ! i)) (b_ID (bl ! i)) = Some (fst (es ! i))" if "i < length bl" for i
      using bl that len by (simp add: list_all2_conv_all_nth)
    have d: "distinct (map fst es)" using iter_set [OF es] by simp
    have "i = j" if ij: "i < length bl" "j < length bl" "b_ID (bl ! i) = b_ID (bl ! j)" for i j
    proof -
      have "stored look ?st (bl ! i)" "stored look ?st (bl ! j)" using sb ij by simp_all
      then have "bl ! i = bl ! j" using ij(3) by (simp add: stored_def)
      then have "map fst es ! i = map fst es ! j" using nth [OF ij(1)] nth [OF ij(2)] ij len by simp
      then show ?thesis using nth_eq_iff_index_eq [OF d] ij len by simp
    qed
    then show ?thesis unfolding distinct_conv_nth by (metis length_map nth_map)
  qed
  then have "distinct del" unfolding n(2) by (intro distinct_map_filter) (simp add: take_map [symmetric])
  moreover have "\<exists>b. stored look (bs_store s3) b \<and> b_ID b = bid" if bid: "bid \<in> set del" for bid
  proof -
    obtain b where "b \<in> set (take n bl)" "b_ID b = bid" using bid unfolding n(2) by auto
    then show ?thesis using sb [of b] st by (auto dest: in_set_takeD)
  qed
  ultimately obtain s' where "bs_delete S del s3 = (None, s')" using delete_total_ids [OF ok3] by blast
  then have "evictExpired S evictFn s = (None, s')" using s3 unfolding evictExpired_def Let_def st_Iterate_def es prod.case it by (simp add: iter_err_def)
  then show ?thesis ..
qed

end

section \<open>Properties\<close>

interpretation mem_batches: reliable_batches SortedMem "map_of :: bs_val mem \<Rightarrow> string \<Rightarrow> bs_val option"
  by unfold_locales

text \<open>C10. When the chain advances, exactly the expired batches disappear: once the inner limit of the reserve is set (it is after
  the first batch), after \<open>evictExpired\<close> succeeded a batch is stored if and only if it was stored and its value exceeds the
  total amount paid out per chunk, and the indexes by identifier and by value agree; and it does succeed when the store and the
  eviction function do not fail.\<close>

theorem expired_batches_purged:
  assumes "batch_store S look" and "indexes_ok look (bs_store s)" and "0 < rs_Inner (bs_rs s)"
  shows "(snd (st_Iter S valueKeyPrefix (bs_store s)) = None \<and> evictExpired S evictFn s = (None, s') \<longrightarrow>
      indexes_ok look (bs_store s') \<and> (\<forall>b. stored look (bs_store s') b \<longleftrightarrow> stored look (bs_store s) b \<and> cs_TotalAmount (bs_cs s) < b_Value b)) \<and>
    (reliable_store S look \<and> (\<forall>bid. evictFn bid = None) \<longrightarrow> (\<exists>s'. evictExpired S evictFn s = (None, s')))"
proof (intro conjI impI)
  show "\<exists>s'. evictExpired S evictFn s = (None, s')" if "reliable_store S look \<and> (\<forall>bid. evictFn bid = None)"
    using that assms(1) reliable_batches.evictExpired_succeeds [of S look s evictFn] assms(2) by (simp add: reliable_batches_def)
qed (use batch_store.evictExpired_purges [OF assms] in blast)+

definition two_batches :: "bs_val mem" where
  "two_batches = (let a = ex_batch\<lparr>b_Value := 500, b_Depth := 20\<rparr>; b = ex_batch\<lparr>b_ID := replicate 32 3, b_Value := 900, b_Depth := 20\<rparr> in
     [(batchKey (b_ID b), BatchV b), (the (valueKey 900 (b_ID b)), NilV), (batchKey (b_ID a), BatchV a), (the (valueKey 500 (b_ID a)), NilV)])"

lemma two_batches_ok: "indexes_ok map_of two_batches"
  "stored map_of two_batches c \<longleftrightarrow> c = ex_batch\<lparr>b_Value := 500, b_Depth := 20\<rparr> \<or> c = ex_batch\<lparr>b_ID := replicate 32 3, b_Value := 900, b_Depth := 20\<rparr>"
proof -
  let ?a = "ex_batch\<lparr>b_Value := 500, b_Depth := 20\<rparr>" and ?b = "ex_batch\<lparr>b_ID := replicate 32 3, b_Value := 900, b_Depth := 20\<rparr>"
  have i: "b_ID ?a = replicate 32 1" "length (b_ID ?a) = 32" "length (b_ID ?b) = 32" "b_ID ?b = replicate 32 3" by (simp_all add: ex_batch_def)
  obtain ka kb where k: "valueKey 500 (b_ID ?a) = Some ka" "valueKey 900 (b_ID ?b) = Some kb" by (simp add: valueKey_def)
  obtain oa ob where o: "valueKey 0 (b_ID ?a) = Some oa" "valueKey 0 (b_ID ?b) = Some ob" by (simp add: valueKey_def)
  have ne: "b_ID ?b \<noteq> b_ID ?a" by (simp add: i)
  have m: "two_batches = [(batchKey (b_ID ?b), BatchV ?b), (kb, NilV), (batchKey (b_ID ?a), BatchV ?a), (ka, NilV)]"
    using k by (simp add: two_batches_def Let_def)
  let ?m1 = "[(batchKey (b_ID ?a), BatchV ?a), (ka, NilV)]"
  have d: "ka \<noteq> ob"
  proof
    assume "ka = ob"
    then show False using valueKey_value_inject [OF k(1) o(2) [folded \<open>ka = ob\<close>] i(2,3)] ne by simp
  qed
  have "indexes_ok map_of ([] :: bs_val mem)" by (rule indexes_ok_empty) simp
  then have 1: "indexes_ok map_of ?m1" using i o k by (rule_tac indexes_ok_put [of map_of "[]" ?a 0 oa ka]) (auto simp: stored_def)
  show "indexes_ok map_of two_batches" unfolding m using i ne d o k batchKey_not(1) [OF o(2)] batchKey_not(1) [OF k(1)]
    by (rule_tac indexes_ok_put [OF 1, of ?b 0 ob kb]) (auto simp: stored_def split: if_splits)
  show "stored map_of two_batches c \<longleftrightarrow> c = ?a \<or> c = ?b"
    unfolding m using ne batchKey_not(1) [OF k(1)] batchKey_not(1) [OF k(2)] by (auto simp: stored_def)
qed

theorem expired_batches_purged_witness:
  "\<exists>s'. evictExpired SortedMem (\<lambda>_. None) (ex_bs\<lparr>bs_store := two_batches, bs_rs := zeroReserve\<lparr>rs_Inner := 5\<rparr>, bs_cs := (zeroChain 0)\<lparr>cs_TotalAmount := 700\<rparr>\<rparr>) = (None, s')
    \<and> (\<forall>b. stored map_of (bs_store s') b \<longleftrightarrow> b = ex_batch\<lparr>b_ID := replicate 32 3, b_Value := 900, b_Depth := 20\<rparr>)"
proof -
  let ?s = "ex_bs\<lparr>bs_store := two_batches, bs_rs := zeroReserve\<lparr>rs_Inner := 5\<rparr>, bs_cs := (zeroChain 0)\<lparr>cs_TotalAmount := 700\<rparr>\<rparr>"
  have ok: "indexes_ok map_of (bs_store ?s)" "0 < rs_Inner (bs_rs ?s)" using two_batches_ok(1) by simp_all
  note th = expired_batches_purged [OF sorted_batches.batch_store_axioms ok, where evictFn = "\<lambda>_. None"]
  have "reliable_store SortedMem (map_of :: bs_val mem \<Rightarrow> _) \<and> (\<forall>bid :: bytes. (\<lambda>_. None :: string option) bid = None)"
    by (simp add: sortmem.reliable_store_axioms)
  then have "\<exists>s'. evictExpired SortedMem (\<lambda>_. None) ?s = (None, s')" by (rule th [THEN conjunct2, THEN mp])
  then obtain s' where s': "evictExpired SortedMem (\<lambda>_. None) ?s = (None, s')" ..
  have "snd (st_Iter SortedMem valueKeyPrefix (bs_store ?s)) = None" by (rule sortmem.iter_total)
  then have "indexes_ok map_of (bs_store s') \<and> (\<forall>b. stored map_of (bs_store s') b \<longleftrightarrow> stored map_of (bs_store ?s) b \<and> cs_TotalAmount (bs_cs ?s) < b_Value b)"
    using s' by (intro th [THEN conjunct1, THEN mp] conjI)
  then have "\<forall>b. stored map_of (bs_store s') b \<longleftrightarrow> stored map_of two_batches b \<and> 700 < b_Value b" by simp
  then have eq: "stored map_of (bs_store s') b = (stored map_of two_batches b \<and> 700 < b_Value b)" for b by (rule spec)
  define A B where d: "A = ex_batch\<lparr>b_Value := 500, b_Depth := 20\<rparr>" "B = ex_batch\<lparr>b_ID := replicate 32 3, b_Value := 900, b_Depth := 20\<rparr>"
  have v: "b_Value A = 500" "b_Value B = 900" by (simp_all add: d)
  have "stored map_of (bs_store s') b \<longleftrightarrow> b = B" for b unfolding eq two_batches_ok(2) [folded d] using v by auto
  then have "\<forall>b. stored map_of (bs_store s') b \<longleftrightarrow> b = ex_batch\<lparr>b_ID := replicate 32 3, b_Value := 900, b_Depth := 20\<rparr>" unfolding d by blast
  then show ?thesis using s' by (intro exI [of _ s'] conjI)
qed

text \<open>C11. Putting a batch keeps the two indexes consistent and leaves the reserve within its capacity:
  after a successful \<open>Put\<close> the batch is stored with its new value and depth, no other batch changed, and
  the available capacity is not negative. On a store that does not fail and with the reserve in range, \<open>Put\<close> does return and succeed:
  64 rounds of the eviction loop are enough.\<close>

theorem put_batch_correct:
  assumes "batch_store S look" and "indexes_ok look (bs_store s)" and "length (b_ID b) = 32"
    and "0 \<le> b_Value b" and "0 \<le> value"
    and "\<forall>b0. stored look (bs_store s) b0 \<and> b_ID b0 = b_ID b \<longrightarrow> b_Value b0 = b_Value b"
  shows "(bs_Put fuel S b value depth s = Some (None, s') \<longrightarrow>
      indexes_ok look (bs_store s') \<and> 0 \<le> rs_Available (bs_rs s') \<and> stored look (bs_store s') (b\<lparr>b_Value := value, b_Depth := depth\<rparr>) \<and>
      (\<forall>b2. b_ID b2 \<noteq> b_ID b \<longrightarrow> stored look (bs_store s') b2 = stored look (bs_store s) b2)) \<and>
    (reliable_store S look \<and> reserve_in_range S look s \<and> b_Value b < 2 ^ 256 \<and> value < 2 ^ 256 \<and> b_Depth b \<le> 40 \<and> depth \<le> 40 \<longrightarrow>
      (\<exists>s'. bs_Put 64 S b value depth s = Some (None, s')))"
proof (rule conjI; intro impI)
  assume put: "bs_Put fuel S b value depth s = Some (None, s')"
  let ?b = "b\<lparr>b_Value := value, b_Depth := depth\<rparr>"
  obtain ko kn where ko: "valueKey (b_Value b) (b_ID b) = Some ko" and kn: "valueKey value (b_ID b) = Some kn"
    and l: "\<And>k. index_key k \<Longrightarrow> look (bs_store s') k = ((look (bs_store s))(ko := None, kn \<mapsto> NilV,
       batchKey (b_ID b) \<mapsto> BatchV ?b)) k"
    using batch_store.bs_Put_look [OF assms(1) put] by blast
  have "indexes_ok look (bs_store s')"
    using assms(3-6) ko kn l by (intro indexes_ok_put [OF assms(2), of ?b "b_Value b" ko kn]) auto
  moreover have "stored look (bs_store s') ?b" using l [of "batchKey (b_ID b)"] by (simp add: stored_def)
  moreover have "stored look (bs_store s') b2 = stored look (bs_store s) b2" if "b_ID b2 \<noteq> b_ID b" for b2
    using l [of "batchKey (b_ID b2)"] that batchKey_not(1) [OF ko] batchKey_not(1) [OF kn]
    by (auto simp: stored_def)
  ultimately show "indexes_ok look (bs_store s') \<and> 0 \<le> rs_Available (bs_rs s') \<and> stored look (bs_store s') ?b \<and>
      (\<forall>b2. b_ID b2 \<noteq> b_ID b \<longrightarrow> stored look (bs_store s') b2 = stored look (bs_store s) b2)"
    using batch_store.bs_Put_available [OF assms(1) put] by blast
next
  assume "reliable_store S look \<and> reserve_in_range S look s \<and> b_Value b < 2 ^ 256 \<and> value < 2 ^ 256 \<and> b_Depth b \<le> 40 \<and> depth \<le> 40"
  then show "\<exists>s'. bs_Put 64 S b value depth s = Some (None, s')"
    using assms by (intro reliable_batches.Put_succeeds) (auto simp: reliable_batches_def)
qed

text \<open>A reserve with room for 100 chunks, and a batch that needs 256: the loop evicts in two rounds.\<close>

theorem put_batch_correct_witness:
  "\<exists>s'. bs_Put 64 SortedMem ex_batch 500 20 (ex_bs\<lparr>bs_rs := zeroReserve\<lparr>rs_Available := 100\<rparr>\<rparr>) = Some (None, s') \<and> 0 \<le> rs_Available (bs_rs s') \<and>
    stored map_of (bs_store s') (ex_batch\<lparr>b_Value := 500, b_Depth := 20\<rparr>)"
proof -
  let ?s = "ex_bs\<lparr>bs_rs := zeroReserve\<lparr>rs_Available := 100\<rparr>\<rparr>"
  have st: "bs_store ?s = []" by (simp add: ex_bs_def)
  have ok: "indexes_ok map_of (bs_store ?s)" by (rule indexes_ok_empty) (simp add: st)
  have none: "\<not> stored map_of (bs_store ?s) b" for b by (simp add: st stored_def)
  have range: "reserve_in_range SortedMem map_of ?s"
    using none unfolding reserve_in_range_def st by (simp add: mem_defs zeroReserve_def DefaultDepth_def)
  have b: "length (b_ID ex_batch) = 32" "0 \<le> b_Value ex_batch" "(0 :: int) \<le> 500" "b_Value ex_batch < 2 ^ 256" "b_Depth ex_batch \<le> 40" by (simp_all add: ex_batch_def)
  have old: "\<forall>b0. stored map_of (bs_store ?s) b0 \<and> b_ID b0 = b_ID ex_batch \<longrightarrow> b_Value b0 = b_Value ex_batch" using none by blast
  note th = put_batch_correct [OF sorted_batches.batch_store_axioms ok b(1-3) old]
  have "\<exists>s'. bs_Put 64 SortedMem ex_batch 500 20 ?s = Some (None, s')"
    by (rule th [THEN conjunct2, THEN mp]) (use sortmem.reliable_store_axioms range b(4,5) in simp)
  then obtain s' where s': "bs_Put 64 SortedMem ex_batch 500 20 ?s = Some (None, s')" ..
  then show ?thesis using th [THEN conjunct1, THEN mp, OF s'] by blast
qed

end
