(* ===== verification/BatchService.thy ===== *)
theory BatchService
  imports ReserveEviction PostageService
begin

text \<open>
  \<open>pkg/postage/batchservice\<close>: the handlers that apply the events of the postage contract to the batch
  store, and the checksum over the transactions seen. The service and the batch store share one state
  store. \<open>GetChainState\<close> returns a pointer, so a handler's assignments to the chain state hold even when
  storing it fails. The hash is a parameter; the content of the running hasher is the list of bytes
  written to it since its last reset. Decoding of contract events (\<open>transaction.ParseEvent\<close>) is
  third-party ABI code: \<open>ProcessEvent\<close> starts from the decoded event.
\<close>

definition dirtyDBKey :: string where "dirtyDBKey = ''batchservice_dirty_db''"
definition checksumDBKey :: string where "checksumDBKey = ''batchservice_checksum''"

datatype bsv_error = PutErr bs_error | GetErr bs_error | ChecksumErr bs_error | ChainErr bs_error
  | StateErr store_error | HexErr hex_error | UnknownEvent | ParseErr string | ListenerPanic

record 's BatchService =
  bsv_storer :: "'s BatchStore"
  bsv_owner :: bytes
  bsv_listener :: "StampIssuer list option"
  bsv_checksum :: bytes

type_synonym 's bsv_result = "(bsv_error option \<times> 's BatchService) option"

definition updateChecksum ::
  "'s bstore \<Rightarrow> (bytes \<Rightarrow> bytes) \<Rightarrow> bytes \<Rightarrow> 's BatchService \<Rightarrow> bs_error option \<times> 's BatchService" where
  "updateChecksum S hash txHash svc =
     (let s = hash (bsv_checksum svc @ txHash) in
      case bs_put S checksumDBKey (ChecksumV (EncodeToString s)) (bsv_storer svc) of
        (r, st) \<Rightarrow> (r, svc\<lparr>bsv_storer := st, bsv_checksum := s\<rparr>))"

definition bsv_New ::
  "'s bstore \<Rightarrow> 's BatchStore \<Rightarrow> bytes \<Rightarrow> u64 \<Rightarrow> StampIssuer list option \<Rightarrow> bsv_error + 's BatchService" where
  "bsv_New S storer owner startBlock listener =
     (case (case st_Get S checksumDBKey (bs_store storer) of
              Inl store_error.ErrNotFound \<Rightarrow> Inr []
            | Inl e \<Rightarrow> Inl (StateErr e)
            | Inr (ChecksumV b) \<Rightarrow> (case DecodeString b of Inl e \<Rightarrow> Inl (HexErr e) | Inr s \<Rightarrow> Inr s)
            | Inr _ \<Rightarrow> Inl (StateErr decode_err)) of
        Inl e \<Rightarrow> Inl e
      | Inr cksum \<Rightarrow>
         (case (case st_Get S dirtyDBKey (bs_store storer) of
                  Inl store_error.ErrNotFound \<Rightarrow> Inr False
                | Inl e \<Rightarrow> Inl (StateErr e)
                | Inr (DirtyV d) \<Rightarrow> Inr d
                | Inr _ \<Rightarrow> Inl (StateErr decode_err)) of
            Inl e \<Rightarrow> Inl e
          | Inr dirty \<Rightarrow>
              if dirty then
                (case bs_Reset S startBlock storer of
                   (Some e, _) \<Rightarrow> Inl (PutErr e)
                 | (None, storer1) \<Rightarrow>
                    (case st_Delete S dirtyDBKey (bs_store storer1) of
                       Inl e \<Rightarrow> Inl (StateErr e)
                     | Inr st \<Rightarrow> Inr \<lparr>bsv_storer = storer1\<lparr>bs_store := st\<rparr>, bsv_owner = owner,
                                     bsv_listener = listener, bsv_checksum = cksum\<rparr>))
              else Inr \<lparr>bsv_storer = storer, bsv_owner = owner, bsv_listener = listener,
                        bsv_checksum = cksum\<rparr>))"

text \<open>The common end of the handlers: the checksum over the transaction is updated.\<close>

definition seal ::
  "'s bstore \<Rightarrow> (bytes \<Rightarrow> bytes) \<Rightarrow> bytes \<Rightarrow> 's BatchService \<Rightarrow> bsv_error option \<times> 's BatchService" where
  "seal S hash txHash svc =
     (case updateChecksum S hash txHash svc of
        (Some e, svc') \<Rightarrow> (Some (ChecksumErr e), svc')
      | (None, svc') \<Rightarrow> (None, svc'))"

definition bsv_Create ::
  "nat \<Rightarrow> 's bstore \<Rightarrow> (bytes \<Rightarrow> bytes) \<Rightarrow> bytes \<Rightarrow> bytes \<Rightarrow> int \<Rightarrow> u8 \<Rightarrow> u8 \<Rightarrow> bool \<Rightarrow> bytes
   \<Rightarrow> 's BatchService \<Rightarrow> 's bsv_result" where
  "bsv_Create fuel S hash bid owner normalisedBalance depth bucketDepth immutable txHash svc =
     (let b = \<lparr>b_ID = bid, b_Value = 0, b_Start = cs_Block (bs_cs (bsv_storer svc)), b_Owner = owner,
               b_Depth = depth, b_BucketDepth = bucketDepth, b_Immutable = immutable, b_Radius = 0\<rparr> in
      case bs_Put fuel S b normalisedBalance depth (bsv_storer svc) of
        None \<Rightarrow> None
      | Some (Some e, st) \<Rightarrow> Some (Some (PutErr e), svc\<lparr>bsv_storer := st\<rparr>)
      | Some (None, st) \<Rightarrow>
          let svc1 = svc\<lparr>bsv_storer := st\<rparr>;
              b' = b\<lparr>b_Value := normalisedBalance, b_Depth := depth\<rparr> in
          (case bsv_listener svc1 of
             Some issuers \<Rightarrow>
               if bsv_owner svc1 = owner then
                 (case svc_Handle b' issuers of
                    None \<Rightarrow> Some (Some ListenerPanic, svc1)
                  | Some issuers' \<Rightarrow> Some (seal S hash txHash (svc1\<lparr>bsv_listener := Some issuers'\<rparr>)))
               else Some (seal S hash txHash svc1)
           | None \<Rightarrow> Some (seal S hash txHash svc1)))"

text \<open>\<open>TopUp\<close> and \<open>UpdateDepth\<close> differ in the depth they write.\<close>

definition change_batch ::
  "nat \<Rightarrow> 's bstore \<Rightarrow> (bytes \<Rightarrow> bytes) \<Rightarrow> bytes \<Rightarrow> (Batch \<Rightarrow> u8) \<Rightarrow> int \<Rightarrow> bytes
   \<Rightarrow> 's BatchService \<Rightarrow> 's bsv_result" where
  "change_batch fuel S hash bid newDepth normalisedBalance txHash svc =
     (case bs_Get S bid (bsv_storer svc) of
        Inl e \<Rightarrow> Some (Some (GetErr e), svc)
      | Inr b \<Rightarrow>
         (case bs_Put fuel S b normalisedBalance (newDepth b) (bsv_storer svc) of
            None \<Rightarrow> None
          | Some (Some e, st) \<Rightarrow> Some (Some (PutErr e), svc\<lparr>bsv_storer := st\<rparr>)
          | Some (None, st) \<Rightarrow> Some (seal S hash txHash (svc\<lparr>bsv_storer := st\<rparr>))))"

definition bsv_TopUp ::
  "nat \<Rightarrow> 's bstore \<Rightarrow> (bytes \<Rightarrow> bytes) \<Rightarrow> bytes \<Rightarrow> int \<Rightarrow> bytes \<Rightarrow> 's BatchService \<Rightarrow> 's bsv_result" where
  "bsv_TopUp fuel S hash bid normalisedBalance txHash svc =
     change_batch fuel S hash bid b_Depth normalisedBalance txHash svc"

definition bsv_UpdateDepth ::
  "nat \<Rightarrow> 's bstore \<Rightarrow> (bytes \<Rightarrow> bytes) \<Rightarrow> bytes \<Rightarrow> u8 \<Rightarrow> int \<Rightarrow> bytes \<Rightarrow> 's BatchService \<Rightarrow> 's bsv_result" where
  "bsv_UpdateDepth fuel S hash bid depth normalisedBalance txHash svc =
     change_batch fuel S hash bid (\<lambda>_. depth) normalisedBalance txHash svc"

definition put_chain ::
  "'s bstore \<Rightarrow> (bytes \<Rightarrow> string option) \<Rightarrow> ChainState \<Rightarrow> 's BatchService \<Rightarrow> bsv_error option \<times> 's BatchService" where
  "put_chain S evictFn cs svc =
     (case PutChainState S evictFn cs (bsv_storer svc) of
        (Some e, st) \<Rightarrow> (Some (ChainErr e), svc\<lparr>bsv_storer := st\<rparr>)
      | (None, st) \<Rightarrow> (None, svc\<lparr>bsv_storer := st\<rparr>))"

definition bsv_UpdatePrice ::
  "'s bstore \<Rightarrow> (bytes \<Rightarrow> string option) \<Rightarrow> (bytes \<Rightarrow> bytes) \<Rightarrow> int \<Rightarrow> bytes \<Rightarrow> 's BatchService
   \<Rightarrow> bsv_error option \<times> 's BatchService" where
  "bsv_UpdatePrice S evictFn hash price txHash svc =
     (let cs = (bs_cs (bsv_storer svc))\<lparr>cs_CurrentPrice := price\<rparr> in
      case put_chain S evictFn cs svc of
        (Some e, svc') \<Rightarrow> (Some e, svc')
      | (None, svc') \<Rightarrow> seal S hash txHash svc')"

definition bsv_UpdateBlockNumber ::
  "'s bstore \<Rightarrow> (bytes \<Rightarrow> string option) \<Rightarrow> u64 \<Rightarrow> 's BatchService \<Rightarrow> bsv_error option \<times> 's BatchService" where
  "bsv_UpdateBlockNumber S evictFn blockNumber svc =
     (let cs = bs_cs (bsv_storer svc) in
      if blockNumber = cs_Block cs then (None, svc)
      else
        let diff = uint (blockNumber - cs_Block cs);
            cs' = cs\<lparr>cs_TotalAmount := cs_TotalAmount cs + diff * cs_CurrentPrice cs,
                     cs_Block := blockNumber\<rparr>
        in put_chain S evictFn cs' svc)"

definition TransactionStart :: "'s bstore \<Rightarrow> 's BatchService \<Rightarrow> bs_error option \<times> 's BatchService" where
  "TransactionStart S svc =
     (case bs_put S dirtyDBKey (DirtyV True) (bsv_storer svc) of (r, st) \<Rightarrow> (r, svc\<lparr>bsv_storer := st\<rparr>))"

definition TransactionEnd :: "'s bstore \<Rightarrow> 's BatchService \<Rightarrow> bs_error option \<times> 's BatchService" where
  "TransactionEnd S svc =
     (case bs_del S dirtyDBKey (bsv_storer svc) of (r, st) \<Rightarrow> (r, svc\<lparr>bsv_storer := st\<rparr>))"

datatype postage_event =
    BatchCreated bytes bytes int u8 u8 bool
  | BatchTopUp bytes int
  | BatchDepthIncrease bytes u8 int
  | PriceUpdate int
  | OtherTopic

definition ProcessEvent ::
  "nat \<Rightarrow> 's bstore \<Rightarrow> (bytes \<Rightarrow> string option) \<Rightarrow> (bytes \<Rightarrow> bytes) \<Rightarrow> string + postage_event \<Rightarrow> bytes
   \<Rightarrow> 's BatchService \<Rightarrow> 's bsv_result" where
  "ProcessEvent fuel S evictFn hash ev txHash svc =
     (case ev of
        Inl e \<Rightarrow> Some (Some (ParseErr e), svc)
      | Inr (BatchCreated bid owner bal depth bucketDepth imm) \<Rightarrow>
          bsv_Create fuel S hash bid owner bal depth bucketDepth imm txHash svc
      | Inr (BatchTopUp bid bal) \<Rightarrow> bsv_TopUp fuel S hash bid bal txHash svc
      | Inr (BatchDepthIncrease bid depth bal) \<Rightarrow> bsv_UpdateDepth fuel S hash bid depth bal txHash svc
      | Inr (PriceUpdate price) \<Rightarrow> Some (bsv_UpdatePrice S evictFn hash price txHash svc)
      | Inr OtherTopic \<Rightarrow> Some (Some UnknownEvent, svc))"

section \<open>The handlers keep the indexes consistent\<close>

lemma service_keys [simp]: "\<not> index_key dirtyDBKey" "\<not> index_key checksumDBKey"
  by (auto simp: index_key_def dirtyDBKey_def checksumDBKey_def valueKeyPrefix_def batchKey_def
      batchKeyPrefix_def prefix_def)

lemma bs_Get_radius: "bs_Get S bid s = Inr b \<Longrightarrow> b_Radius b = batch_radius (b_Value b) (bs_rs s)"
  by (auto simp: bs_Get_def split: sum.splits bs_val.splits)

context batch_store
begin

lemma seal_index:
  assumes "seal S hash tx svc = (r, svc')"
  shows "index_same (bsv_storer svc) (bsv_storer svc') \<and> bs_rs (bsv_storer svc') = bs_rs (bsv_storer svc)
    \<and> bs_cs (bsv_storer svc') = bs_cs (bsv_storer svc)"
proof -
  obtain r1 st where p: "bs_put S checksumDBKey (ChecksumV (EncodeToString (hash (bsv_checksum svc @ tx))))
      (bsv_storer svc) = (r1, st)" by fastforce
  have "index_same (bsv_storer svc) st" using bs_put_index [OF p] by simp
  with assms p bs_put_frame [OF p] show ?thesis
    by (auto simp: seal_def updateChecksum_def Let_def split: option.splits)
qed

lemma index_same_ok: "index_same s s' \<Longrightarrow> indexes_ok look (bs_store s) \<Longrightarrow> indexes_ok look (bs_store s')"
  using indexes_ok_cong [of look "bs_store s'" "bs_store s"] by (simp add: index_same_def)

lemma index_same_stored: "index_same s s' \<Longrightarrow> stored look (bs_store s') b = stored look (bs_store s) b"
  by (simp add: index_same_def stored_def)

lemma Put_indexes:
  assumes ok: "indexes_ok look (bs_store s)" and "length (b_ID b) = 32" "0 \<le> b_Value b" "0 \<le> value"
    and old: "\<And>b0. stored look (bs_store s) b0 \<Longrightarrow> b_ID b0 = b_ID b \<Longrightarrow> b_Value b0 = b_Value b"
    and put: "bs_Put fuel S b value depth s = Some (None, s')"
  shows "indexes_ok look (bs_store s') \<and> stored look (bs_store s') (b\<lparr>b_Value := value, b_Depth := depth\<rparr>)"
proof -
  let ?b = "b\<lparr>b_Value := value, b_Depth := depth\<rparr>"
  obtain ko kn where ko: "valueKey (b_Value b) (b_ID b) = Some ko" and kn: "valueKey value (b_ID b) = Some kn"
    and l: "\<And>k. index_key k \<Longrightarrow> look (bs_store s') k = ((look (bs_store s))(ko := None, kn \<mapsto> NilV,
       batchKey (b_ID b) \<mapsto> BatchV ?b)) k"
    using bs_Put_look [OF put] by blast
  have "indexes_ok look (bs_store s')"
    using assms(2-4) old ko kn l by (intro indexes_ok_put [OF ok, of ?b "b_Value b" ko kn]) auto
  moreover have "stored look (bs_store s') ?b" using l [of "batchKey (b_ID b)"] by (simp add: stored_def)
  ultimately show ?thesis by simp
qed

lemma change_batch_correct:
  assumes ok: "indexes_ok look (bs_store (bsv_storer svc))" and bal: "0 \<le> bal"
    and ch: "change_batch fuel S hash bid newDepth bal tx svc = Some (None, svc')"
  shows "\<exists>b. bs_Get S bid (bsv_storer svc) = Inr b \<and> b_ID b = bid \<and>
    stored look (bs_store (bsv_storer svc')) (b\<lparr>b_Value := bal, b_Depth := newDepth b\<rparr>) \<and>
    indexes_ok look (bs_store (bsv_storer svc')) \<and> 0 \<le> rs_Available (bs_rs (bsv_storer svc'))"
proof -
  obtain b where g: "bs_Get S bid (bsv_storer svc) = Inr b"
    using ch by (auto simp: change_batch_def split: sum.splits)
  obtain b0 where b0: "look (bs_store (bsv_storer svc)) (batchKey bid) = Some (BatchV b0)"
    "b_ID b = b_ID b0" "b_Value b = b_Value b0" using bs_Get_look [OF g] by auto
  have id0: "b_ID b0 = bid" using ok b0(1) unfolding indexes_ok_def by blast
  then have st0: "stored look (bs_store (bsv_storer svc)) b0" using b0(1) by (simp add: stored_def)
  note so = stored_ok [OF ok st0]
  obtain st where put: "bs_Put fuel S b bal (newDepth b) (bsv_storer svc) = Some (None, st)"
    and seal: "seal S hash tx (svc\<lparr>bsv_storer := st\<rparr>) = (None, svc')"
    using ch g by (auto simp: change_batch_def split: option.splits prod.splits)
  have "indexes_ok look (bs_store st) \<and> stored look (bs_store st) (b\<lparr>b_Value := bal, b_Depth := newDepth b\<rparr>)"
    using so b0 st0 by (intro Put_indexes [OF ok _ _ bal _ put]) (auto simp: stored_def)
  with seal_index [OF seal] bs_Put_available [OF put] index_same_ok index_same_stored g id0 b0(2)
  show ?thesis by auto
qed

lemma Create_correct:
  assumes ok: "indexes_ok look (bs_store (bsv_storer svc))" and bal: "0 \<le> bal" and len: "length bid = 32"
    and fresh: "look (bs_store (bsv_storer svc)) (batchKey bid) = None"
    and cr: "bsv_Create fuel S hash bid owner bal depth bd imm tx svc = Some (None, svc')"
  shows "indexes_ok look (bs_store (bsv_storer svc')) \<and> 0 \<le> rs_Available (bs_rs (bsv_storer svc')) \<and>
    (\<exists>b. stored look (bs_store (bsv_storer svc')) b \<and> b_ID b = bid \<and> b_Owner b = owner \<and> b_Value b = bal
       \<and> b_Depth b = depth \<and> b_BucketDepth b = bd \<and> b_Immutable b = imm
       \<and> b_Start b = cs_Block (bs_cs (bsv_storer svc)))"
proof -
  define b where "b = \<lparr>b_ID = bid, b_Value = 0, b_Start = cs_Block (bs_cs (bsv_storer svc)), b_Owner = owner,
               b_Depth = depth, b_BucketDepth = bd, b_Immutable = imm, b_Radius = 0\<rparr>"
  obtain st where put: "bs_Put fuel S b bal depth (bsv_storer svc) = Some (None, st)"
    using cr by (auto simp: bsv_Create_def b_def Let_def split: option.splits prod.splits)
  note cr' = cr [unfolded bsv_Create_def Let_def, folded b_def]
  obtain svc1 where s1: "bsv_storer svc1 = st" and seal: "seal S hash tx svc1 = (None, svc')"
  proof (cases "bsv_listener svc")
    case None
    then have "seal S hash tx (svc\<lparr>bsv_storer := st\<rparr>) = (None, svc')" using cr' put by simp
    then show ?thesis using that [of "svc\<lparr>bsv_storer := st\<rparr>"] by simp
  next
    case (Some issuers)
    then obtain l where "seal S hash tx (svc\<lparr>bsv_storer := st, bsv_listener := l\<rparr>) = (None, svc')"
    proof (cases "bsv_owner svc = owner")
      case False
      then have "seal S hash tx (svc\<lparr>bsv_storer := st, bsv_listener := Some issuers\<rparr>) = (None, svc')"
        using cr' put Some by (cases svc) simp
      with that show ?thesis by blast
    next
      case True
      then show ?thesis using cr' put Some that by (auto split: option.splits)
    qed
    then show ?thesis using that [of "svc\<lparr>bsv_storer := st, bsv_listener := l\<rparr>"] by simp
  qed
  have "indexes_ok look (bs_store st) \<and> stored look (bs_store st) (b\<lparr>b_Value := bal, b_Depth := depth\<rparr>)"
    using len fresh by (intro Put_indexes [OF ok _ _ bal _ put]) (auto simp: b_def stored_def)
  with seal_index [OF seal] s1 bs_Put_available [OF put] index_same_ok index_same_stored
  show ?thesis by (auto simp: b_def intro!: exI [of _ "b\<lparr>b_Value := bal, b_Depth := depth\<rparr>"])
qed

lemma evictExpired_cs:
  assumes "evictExpired S evictFn s = (r, s')"
  shows "bs_cs s' = bs_cs s"
proof -
  let ?P = "\<lambda>c :: 's BatchStore \<times> int \<times> bytes list. bs_cs (fst c) = bs_cs s"
  have step: "?P (fst (evictExpired_func S evictFn u k v c))" if "?P c" for u k v c
    using that by (cases c) (auto simp: evictExpired_func_def Let_def split: sum.splits option.splits)
  obtain s1 m del ri where it: "st_Iterate S valueKeyPrefix (evictExpired_func S evictFn (evict_until s))
      (bs_store s) (s, 0, []) = ((s1, m, del), ri)" by (metis prod.exhaust)
  have "bs_cs s1 = bs_cs s" using st_Iterate_inv [of ?P, OF step _ it] by simp
  with assms it show ?thesis
    by (auto simp: evictExpired_def Let_def dest!: bs_put_frame bs_delete_frame split: option.splits prod.splits)
qed

lemma PutChainState_purges:
  assumes ok: "indexes_ok look (bs_store s)" and inner: "0 < rs_Inner (bs_rs s)"
    and iter: "snd (st_Iter S valueKeyPrefix (bs_store s)) = None"
    and put: "PutChainState S evictFn cs s = (None, s')"
  shows "bs_cs s' = cs \<and> indexes_ok look (bs_store s') \<and> (\<forall>b. stored look (bs_store s') b \<longleftrightarrow>
    stored look (bs_store s) b \<and> cs_TotalAmount cs < b_Value b)"
proof -
  obtain s1 where ev: "evictExpired S evictFn (s\<lparr>bs_cs := cs\<rparr>) = (None, s1)"
    and p: "bs_put S chainStateKey (ChainV cs) (notify_radius s1) = (None, s')"
    using put by (auto simp: PutChainState_def split: prod.splits option.splits)
  have e: "indexes_ok look (bs_store s1) \<and> (\<forall>b. stored look (bs_store s1) b \<longleftrightarrow>
      stored look (bs_store s) b \<and> cs_TotalAmount cs < b_Value b)"
    using evictExpired_purges [OF _ _ _ ev] ok inner iter by simp
  have i: "index_same (notify_radius s1) s'" using bs_put_index [OF p] by simp
  have "bs_cs s' = cs" using bs_put_frame [OF p] evictExpired_cs [OF ev] by (simp add: notify_radius_def)
  then show ?thesis using e index_same_ok [OF i] index_same_stored [OF i] by simp
qed

lemma UpdateBlockNumber_purges:
  assumes "indexes_ok look (bs_store (bsv_storer svc))" and "0 < rs_Inner (bs_rs (bsv_storer svc))"
    and "snd (st_Iter S valueKeyPrefix (bs_store (bsv_storer svc))) = None"
    and le: "cs_Block (bs_cs (bsv_storer svc)) < block"
    and up: "bsv_UpdateBlockNumber S evictFn block svc = (None, svc')"
  shows "cs_Block (bs_cs (bsv_storer svc')) = block \<and>
    cs_TotalAmount (bs_cs (bsv_storer svc')) = cs_TotalAmount (bs_cs (bsv_storer svc))
      + (uint block - uint (cs_Block (bs_cs (bsv_storer svc)))) * cs_CurrentPrice (bs_cs (bsv_storer svc)) \<and>
    indexes_ok look (bs_store (bsv_storer svc')) \<and>
    (\<forall>b. stored look (bs_store (bsv_storer svc')) b \<longleftrightarrow> stored look (bs_store (bsv_storer svc)) b \<and>
       cs_TotalAmount (bs_cs (bsv_storer svc')) < b_Value b)"
proof -
  let ?cs = "bs_cs (bsv_storer svc)"
  define cs' where "cs' = ?cs\<lparr>cs_TotalAmount := cs_TotalAmount ?cs + uint (block - cs_Block ?cs) * cs_CurrentPrice ?cs,
                     cs_Block := block\<rparr>"
  have diff: "uint (block - cs_Block ?cs) = uint block - uint (cs_Block ?cs)"
    using le by (simp add: uint_sub_if_size word_less_def)
  obtain st where p: "PutChainState S evictFn cs' (bsv_storer svc) = (None, st)" "svc' = svc\<lparr>bsv_storer := st\<rparr>"
  proof -
    have "block \<noteq> cs_Block ?cs" using le by auto
    then have "put_chain S evictFn cs' svc = (None, svc')"
      using up by (simp add: bsv_UpdateBlockNumber_def cs'_def Let_def)
    then show ?thesis using that by (auto simp: put_chain_def split: prod.splits option.splits)
  qed
  from PutChainState_purges [OF assms(1-3) p(1)] p(2) show ?thesis
    by (simp add: cs'_def diff)
qed

end

section \<open>The handlers succeed\<close>

context reliable_batches
begin

lemma seal_ok: "\<exists>svc'. seal S hash tx svc = (None, svc')"
proof -
  obtain st where "bs_put S checksumDBKey (ChecksumV (EncodeToString (hash (bsv_checksum svc @ tx)))) (bsv_storer svc) = (None, st)" using put_ok by blast
  then show ?thesis by (simp add: seal_def updateChecksum_def Let_def)
qed

lemma valueKey_range: "valueKey v bid = Some k \<Longrightarrow> 0 \<le> v \<Longrightarrow> v < 2 ^ 256"
proof -
  assume k: "valueKey v bid = Some k" and v: "0 \<le> v"
  then have "nat v < 256 ^ 32" by (auto simp: valueKey_def split: if_splits)
  then show ?thesis using v by (simp add: nat_less_iff)
qed

lemma change_batch_succeeds:
  assumes ok: "indexes_ok look (bs_store (bsv_storer svc))" and range: "reserve_in_range S look (bsv_storer svc)"
    and st: "stored look (bs_store (bsv_storer svc)) b0" "b_ID b0 = bid" and bal: "0 \<le> bal" "bal < 2 ^ 256" and d: "\<And>b. b_Depth b = b_Depth b0 \<Longrightarrow> newDepth b \<le> 40"
  shows "\<exists>svc'. change_batch 64 S hash bid newDepth bal tx svc = Some (None, svc')"
proof -
  let ?b = "b0\<lparr>b_Radius := batch_radius (b_Value b0) (bs_rs (bsv_storer svc))\<rparr>"
  have g: "bs_Get S bid (bsv_storer svc) = Inr ?b" using st by (simp add: bs_Get_def get_total stored_def)
  have o: "length (b_ID b0) = 32" "0 \<le> b_Value b0" "b_Depth b0 \<le> 40" using stored_ok [OF ok st(1)] range st(1) by (auto simp: reserve_in_range_def)
  have "b_Value b0 < 2 ^ 256" using stored_ok [OF ok st(1)] valueKey_range by blast
  then have "\<exists>s'. bs_Put 64 S ?b bal (newDepth ?b) (bsv_storer svc) = Some (None, s')"
    using o bal st(1) d [of ?b] by (intro Put_succeeds [OF ok range]) (simp_all add: stored_def)
  then obtain s' where s': "bs_Put 64 S ?b bal (newDepth ?b) (bsv_storer svc) = Some (None, s')" ..
  obtain svc' where "seal S hash tx (svc\<lparr>bsv_storer := s'\<rparr>) = (None, svc')" using seal_ok by blast
  then show ?thesis using g s' by (simp add: change_batch_def)
qed

lemma Create_succeeds:
  assumes ok: "indexes_ok look (bs_store (bsv_storer svc))" and range: "reserve_in_range S look (bsv_storer svc)"
    and "look (bs_store (bsv_storer svc)) (batchKey bid) = None" "length bid = 32" and bal: "0 \<le> bal" "bal < 2 ^ 256" and "depth \<le> 40" and bd: "bd \<noteq> 63"
  shows "\<exists>svc'. bsv_Create 64 S hash bid owner bal depth bd imm tx svc = Some (None, svc')"
proof -
  let ?b = "\<lparr>b_ID = bid, b_Value = 0, b_Start = cs_Block (bs_cs (bsv_storer svc)), b_Owner = owner, b_Depth = depth, b_BucketDepth = bd, b_Immutable = imm, b_Radius = 0\<rparr>"
  have "\<exists>s'. bs_Put 64 S ?b bal depth (bsv_storer svc) = Some (None, s')"
    using assms(3-7) by (intro Put_succeeds [OF ok range]) (simp_all add: stored_def)
  then obtain s' where s': "bs_Put 64 S ?b bal depth (bsv_storer svc) = Some (None, s')" ..
  have h: "\<exists>ys. svc_Handle (?b\<lparr>b_Value := bal, b_Depth := depth\<rparr>) xs = Some ys" for xs
    using bd by (auto simp: svc_Handle_def NewStampIssuer_def word_unat_eq_iff)
  show ?thesis
  proof (cases "bsv_listener svc")
    case None
    then show ?thesis using s' seal_ok by (simp add: bsv_Create_def Let_def)
  next
    case (Some xs)
    then show ?thesis using s' seal_ok h [of xs] by (auto simp: bsv_Create_def Let_def)
  qed
qed

end

section \<open>Properties\<close>

definition ex_svc :: "bs_val mem BatchService" where
  "ex_svc = \<lparr>bsv_storer = ex_bs, bsv_owner = [], bsv_listener = None, bsv_checksum = []\<rparr>"

text \<open>C12. The handlers of the contract events keep the batch store consistent and do what the event says:
  after a creation of a new identifier the batch is stored with the owner, value, depths and flag of the
  event; after a top-up or dilution the batch has the new value and depth and is otherwise the one that
  was stored; the indexes agree and the reserve stays within its capacity. On a store that does not fail and with the reserve in
  range they do return and succeed (for a stored batch, or a new one whose bucket depth is not 63), with 64 rounds for the
  eviction loop.\<close>

theorem events_applied:
  assumes "batch_store S look" and "indexes_ok look (bs_store (bsv_storer svc))" and "0 \<le> bal"
  shows "(length bid = 32 \<and> look (bs_store (bsv_storer svc)) (batchKey bid) = None \<and>
      bsv_Create fuel S hash bid owner bal depth bd imm tx svc = Some (None, svc') \<longrightarrow>
      indexes_ok look (bs_store (bsv_storer svc')) \<and> 0 \<le> rs_Available (bs_rs (bsv_storer svc')) \<and>
      (\<exists>b. stored look (bs_store (bsv_storer svc')) b \<and> b_ID b = bid \<and> b_Owner b = owner \<and> b_Value b = bal
        \<and> b_Depth b = depth \<and> b_BucketDepth b = bd \<and> b_Immutable b = imm)) \<and>
    (bsv_TopUp fuel S hash bid bal tx svc = Some (None, svc') \<longrightarrow>
      indexes_ok look (bs_store (bsv_storer svc')) \<and> 0 \<le> rs_Available (bs_rs (bsv_storer svc')) \<and>
      (\<exists>b. bs_Get S bid (bsv_storer svc) = Inr b \<and>
         stored look (bs_store (bsv_storer svc')) (b\<lparr>b_Value := bal, b_Depth := b_Depth b\<rparr>))) \<and>
    (bsv_UpdateDepth fuel S hash bid depth bal tx svc = Some (None, svc') \<longrightarrow>
      indexes_ok look (bs_store (bsv_storer svc')) \<and> 0 \<le> rs_Available (bs_rs (bsv_storer svc')) \<and>
      (\<exists>b. bs_Get S bid (bsv_storer svc) = Inr b \<and>
         stored look (bs_store (bsv_storer svc')) (b\<lparr>b_Value := bal, b_Depth := depth\<rparr>))) \<and>
    (reliable_store S look \<and> reserve_in_range S look (bsv_storer svc) \<and> bal < 2 ^ 256 \<and> depth \<le> 40 \<longrightarrow>
      (length bid = 32 \<and> look (bs_store (bsv_storer svc)) (batchKey bid) = None \<and> bd \<noteq> 63 \<longrightarrow>
         (\<exists>svc'. bsv_Create 64 S hash bid owner bal depth bd imm tx svc = Some (None, svc'))) \<and>
      (\<forall>b. stored look (bs_store (bsv_storer svc)) b \<and> b_ID b = bid \<longrightarrow>
         (\<exists>svc'. bsv_TopUp 64 S hash bid bal tx svc = Some (None, svc')) \<and> (\<exists>svc'. bsv_UpdateDepth 64 S hash bid depth bal tx svc = Some (None, svc'))))"
proof -
  note create = batch_store.Create_correct [OF assms, of bid fuel hash owner depth bd imm tx svc']
  note topup = batch_store.change_batch_correct [OF assms, of fuel hash bid b_Depth tx svc',
      folded bsv_TopUp_def]
  note dilute = batch_store.change_batch_correct [OF assms, of fuel hash bid "\<lambda>_. depth" tx svc',
      folded bsv_UpdateDepth_def]
  have total: "(length bid = 32 \<and> look (bs_store (bsv_storer svc)) (batchKey bid) = None \<and> bd \<noteq> 63 \<longrightarrow>
         (\<exists>svc'. bsv_Create 64 S hash bid owner bal depth bd imm tx svc = Some (None, svc'))) \<and>
      (\<forall>b. stored look (bs_store (bsv_storer svc)) b \<and> b_ID b = bid \<longrightarrow>
         (\<exists>svc'. bsv_TopUp 64 S hash bid bal tx svc = Some (None, svc')) \<and> (\<exists>svc'. bsv_UpdateDepth 64 S hash bid depth bal tx svc = Some (None, svc')))"
    if r: "reliable_store S look \<and> reserve_in_range S look (bsv_storer svc) \<and> bal < 2 ^ 256 \<and> depth \<le> 40"
  proof -
    have rb: "reliable_batches S look" using assms(1) r by (simp add: reliable_batches_def)
    have d: "b_Depth b \<le> 40" if "stored look (bs_store (bsv_storer svc)) b" for b using that r by (simp add: reserve_in_range_def)
    show ?thesis
      using reliable_batches.Create_succeeds [OF rb assms(2), of bid bal depth bd hash owner imm tx] r assms(3) d
        reliable_batches.change_batch_succeeds [OF rb assms(2), of _ bid bal b_Depth hash tx, folded bsv_TopUp_def]
        reliable_batches.change_batch_succeeds [OF rb assms(2), of _ bid bal "\<lambda>_. depth" hash tx, folded bsv_UpdateDepth_def]
      by auto
  qed
  show ?thesis by (intro conjI [OF _ conjI [OF _ conjI]] impI) (use create topup dilute total in blast)+
qed

text \<open>A creation in a reserve with room for 100 chunks, of a batch that needs 256.\<close>

theorem events_applied_witness:
  "\<exists>svc'. bsv_Create 64 SortedMem (\<lambda>m. m) (replicate 32 1) (replicate 20 2) 500 20 16 False []
        (ex_svc\<lparr>bsv_storer := ex_bs\<lparr>bs_rs := zeroReserve\<lparr>rs_Available := 100\<rparr>\<rparr>\<rparr>) = Some (None, svc') \<and>
     0 \<le> rs_Available (bs_rs (bsv_storer svc')) \<and> (\<exists>b. stored map_of (bs_store (bsv_storer svc')) b \<and> b_Value b = 500)"
proof -
  let ?s = "ex_bs\<lparr>bs_rs := zeroReserve\<lparr>rs_Available := 100\<rparr>\<rparr>"
  let ?svc = "ex_svc\<lparr>bsv_storer := ?s\<rparr>"
  have st: "bs_store ?s = []" by (simp add: ex_bs_def)
  have ok: "indexes_ok map_of (bs_store (bsv_storer ?svc))" by (rule indexes_ok_empty) (simp add: st)
  have "reserve_in_range SortedMem map_of ?s" unfolding reserve_in_range_def st by (simp add: mem_defs zeroReserve_def DefaultDepth_def stored_def)
  then have r: "reliable_store SortedMem (map_of :: bs_val mem \<Rightarrow> _) \<and> reserve_in_range SortedMem map_of (bsv_storer ?svc) \<and> (500 :: int) < 2 ^ 256 \<and> (20 :: u8) \<le> 40"
    using sortmem.reliable_store_axioms by simp
  have c: "length (replicate 32 (1 :: byte)) = 32 \<and> map_of (bs_store (bsv_storer ?svc)) (batchKey (replicate 32 1)) = None \<and> (16 :: u8) \<noteq> 63" by (simp add: st)
  have "(0 :: int) \<le> 500" by simp
  note th = events_applied [OF sorted_batches.batch_store_axioms ok this]
  have "\<exists>svc'. bsv_Create 64 SortedMem (\<lambda>m. m) (replicate 32 1) (replicate 20 2) 500 20 16 False [] ?svc = Some (None, svc')"
    by (rule th [THEN conjunct2, THEN conjunct2, THEN conjunct2, THEN mp, OF r, THEN conjunct1, THEN mp, OF c])
  then obtain svc' where s': "bsv_Create 64 SortedMem (\<lambda>m. m) (replicate 32 1) (replicate 20 2) 500 20 16 False [] ?svc = Some (None, svc')" ..
  show ?thesis using th [THEN conjunct1, THEN mp, OF conjI [OF c [THEN conjunct1] conjI [OF c [THEN conjunct2, THEN conjunct1] s']]] s' by blast
qed



text \<open>The checksum survives a clean restart: after an update was persisted, a new service on the same
  store continues with the same hasher content, so the checksum of a sequence of transactions does not
  depend on where the node was restarted.\<close>

theorem checksum_survives_restart:
  assumes "reliable_store S look" and "updateChecksum S hash txHash svc = (None, svc')"
    and "look (bs_store (bsv_storer svc)) dirtyDBKey = None"
  shows "bsv_checksum svc' = hash (bsv_checksum svc @ txHash) \<and>
    bsv_New S (bsv_storer svc') (bsv_owner svc') startBlock (bsv_listener svc') = Inr svc'"
proof -
  define s where "s = hash (bsv_checksum svc @ txHash)"
  have st: "state_store S look" using assms(1) by (simp add: reliable_store_def)
  obtain st' where put: "bs_put S checksumDBKey (ChecksumV (EncodeToString s)) (bsv_storer svc) = (None, st')"
    and svc': "svc' = svc\<lparr>bsv_storer := st', bsv_checksum := s\<rparr>"
    using assms(2) by (auto simp: updateChecksum_def s_def [symmetric] Let_def split: prod.splits)
  have l: "look (bs_store st') = (look (bs_store (bsv_storer svc)))(checksumDBKey \<mapsto> ChecksumV (EncodeToString s))"
    using put state_store.put_look [OF st] by (auto simp: bs_put_def split: sum.splits)
  have ne: "checksumDBKey \<noteq> dirtyDBKey" by (simp add: checksumDBKey_def dirtyDBKey_def)
  have "st_Get S checksumDBKey (bs_store st') = Inr (ChecksumV (EncodeToString s))"
    "st_Get S dirtyDBKey (bs_store st') = Inl store_error.ErrNotFound"
    using reliable_store.get_total [OF assms(1)] assms(3) l ne by auto
  then have "bsv_New S (bsv_storer svc') (bsv_owner svc') startBlock (bsv_listener svc') = Inr svc'"
    by (simp add: bsv_New_def svc')
  then show ?thesis by (simp add: svc' s_def)
qed

theorem checksum_survives_restart_witness:
  "\<exists>svc'. updateChecksum SortedMem (\<lambda>m. m) [1, 2] ex_svc = (None, svc') \<and>
    bsv_New SortedMem (bsv_storer svc') [] 0 None = Inr svc'"
proof -
  obtain svc' where u: "updateChecksum SortedMem (\<lambda>m. m) [1, 2] ex_svc = (None, svc')"
    and f: "bsv_owner svc' = []" "bsv_listener svc' = None"
    by (simp add: updateChecksum_def bs_put_def mem_defs ex_svc_def Let_def)
  from checksum_survives_restart [OF sortmem.reliable_store_axioms u, of 0] u f show ?thesis
    by (auto simp: ex_svc_def ex_bs_def)
qed

end
