(* ===== verification/Pseudosettle.thy ===== *)
theory Pseudosettle
  imports AccountingSafety
begin

text \<open>
  \<open>pkg/settlement/pseudosettle/pseudosettle.go\<close>: time-based settlement. A debtor asks its creditor to
  forgive an amount; the creditor grants at most what accrues at the refresh rate since the last grant
  and at most what the debtor owes, and both sides keep the total and the time of the last grant.
  The clock readings, the stream (what is read and whether a write fails) and the stores are arguments.
  The node keeps the totals and the balances of \<open>Accounting\<close> in one store under different prefixes;
  here each component has its own, at the type it stores. \<open>Connect\<close> and \<open>Disconnect\<close> of the accounting
  are started in goroutines: \<open>init\<close> and \<open>terminate\<close> record them in \<open>se_spawned\<close> and \<open>run_spawned\<close> runs one.
\<close>

section \<open>State\<close>

definition SettlementReceivedPrefix :: string where
  "SettlementReceivedPrefix = ''pseudosettle_total_received_''"
definition SettlementSentPrefix :: string where
  "SettlementSentPrefix = ''pseudosettle_total_sent_''"

datatype settle_error =
    ErrSettlementTooSoon
  | ErrNoPseudoSettlePeer
  | ErrTimeOutOfSync
  | ErrPeerNoSettlements
  | AcceptedLarger Address
  | AcceptedLower Address
  | NoPeerInTotalKey
  | BadPeerInKey hex_error
  | StreamErr string
  | SettleStoreErr store_error
  | AccountingErr acc_error
  | SettleWrap string settle_error

record lastPayment =
  lp_Timestamp :: int
  lp_CheckTimestamp :: int
  lp_Total :: int

datatype spawned = SpawnConnect Address | SpawnDisconnect Address

record ('s, 't) Service =
  se_store :: 's
  se_accounting :: "'t Accounting"
  se_refreshRate :: int
  se_peers :: "string set"
  se_spawned :: "spawned list"

type_synonym 's pstore = "('s, lastPayment) StateStorer"
type_synonym 't astore = "('t, int) StateStorer"

definition New_Service :: "'s \<Rightarrow> 't Accounting \<Rightarrow> int \<Rightarrow> ('s, 't) Service" where
  "New_Service st acc rate =
     \<lparr>se_store = st, se_accounting = acc, se_refreshRate = rate, se_peers = {}, se_spawned = []\<rparr>"

definition SetAccounting :: "'t Accounting \<Rightarrow> ('s, 't) Service \<Rightarrow> ('s, 't) Service" where
  "SetAccounting acc s = s\<lparr>se_accounting := acc\<rparr>"

definition init_peer :: "Address \<Rightarrow> ('s, 't) Service \<Rightarrow> ('s, 't) Service" where
  "init_peer p s =
     (let s1 = (if addr_String p \<in> se_peers s then s
                else s\<lparr>se_peers := insert (addr_String p) (se_peers s)\<rparr>)
      in s1\<lparr>se_spawned := se_spawned s1 @ [SpawnConnect p]\<rparr>)"

definition terminate_peer :: "Address \<Rightarrow> ('s, 't) Service \<Rightarrow> ('s, 't) Service" where
  "terminate_peer p s =
     s\<lparr>se_peers := se_peers s - {addr_String p}, se_spawned := se_spawned s @ [SpawnDisconnect p]\<rparr>"

text \<open>A started goroutine runs to its end; \<open>None\<close> is a panic in the accounting.\<close>

definition run_spawned :: "'t astore \<Rightarrow> spawned \<Rightarrow> ('s, 't) Service \<Rightarrow> ('s, 't) Service option" where
  "run_spawned A g s =
     (case g of
        SpawnConnect p \<Rightarrow> Some (s\<lparr>se_accounting := acc_Connect A p (se_accounting s)\<rparr>)
      | SpawnDisconnect p \<Rightarrow>
         (case acc_Disconnect A p (se_accounting s) of
            None \<Rightarrow> None
          | Some acc \<Rightarrow> Some (s\<lparr>se_accounting := acc\<rparr>)))"

section \<open>Keys\<close>

definition totalKey :: "Address \<Rightarrow> string \<Rightarrow> string" where
  "totalKey peer pre = pre @ addr_String peer"

definition totalKeyPeer :: "string \<Rightarrow> string \<Rightarrow> settle_error + Address" where
  "totalKeyPeer key pre =
     (case SplitAfter key pre of
        [_, h] \<Rightarrow> (case ParseHexAddress h of Inl e \<Rightarrow> Inl (BadPeerInKey e) | Inr a \<Rightarrow> Inr a)
      | _ \<Rightarrow> Inl NoPeerInTotalKey)"

text \<open>The record of a peer as the operations read it: an absent one reads as all zero.\<close>

definition get_last ::
  "'s pstore \<Rightarrow> Address \<Rightarrow> string \<Rightarrow> ('s, 't) Service \<Rightarrow> settle_error + lastPayment" where
  "get_last S peer pre s =
     (case st_Get S (totalKey peer pre) (se_store s) of
        Inl store_error.ErrNotFound \<Rightarrow> Inr \<lparr>lp_Timestamp = 0, lp_CheckTimestamp = 0, lp_Total = 0\<rparr>
      | Inl e \<Rightarrow> Inl (SettleStoreErr e)
      | Inr l \<Rightarrow> Inr l)"

definition put_last ::
  "'s pstore \<Rightarrow> Address \<Rightarrow> string \<Rightarrow> lastPayment \<Rightarrow> ('s, 't) Service
   \<Rightarrow> settle_error option \<times> ('s, 't) Service" where
  "put_last S peer pre l s =
     (case st_Put S (totalKey peer pre) l (se_store s) of
        Inl e \<Rightarrow> (Some (SettleStoreErr e), s)
      | Inr st \<Rightarrow> (None, s\<lparr>se_store := st\<rparr>))"

section \<open>The creditor\<close>

definition peerAllowance ::
  "'s pstore \<Rightarrow> 't astore \<Rightarrow> int \<Rightarrow> Address \<Rightarrow> ('s, 't) Service
   \<Rightarrow> (settle_error + int \<times> int) \<times> ('s, 't) Service" where
  "peerAllowance S A now peer s =
     (case get_last S peer SettlementReceivedPrefix s of
        Inl e \<Rightarrow> (Inl e, s)
      | Inr lastTime \<Rightarrow>
          if now = lp_Timestamp lastTime then (Inl ErrSettlementTooSoon, s)
          else
            let maxAllowance = i64 (now - lp_Timestamp lastTime) * se_refreshRate s in
            (case PeerDebt A peer (se_accounting s) of
               (Inl e, acc) \<Rightarrow> (Inl (AccountingErr e), s\<lparr>se_accounting := acc\<rparr>)
             | (Inr peerDebt, acc) \<Rightarrow>
                 (Inr (if maxAllowance \<le> peerDebt then maxAllowance else peerDebt, now),
                  s\<lparr>se_accounting := acc\<rparr>)))"

record PaymentAck =
  ack_Amount :: bytes
  ack_Timestamp :: int

text \<open>The end of the handler: the payment is recorded and the accounting is told.\<close>

definition record_payment ::
  "'s pstore \<Rightarrow> 't astore \<Rightarrow> int \<Rightarrow> int \<Rightarrow> Address \<Rightarrow> ('s, 't) Service \<Rightarrow> settle_error option \<times> ('s, 't) Service" where
  "record_payment S A paymentAmount timestamp p s =
     (case get_last S p SettlementReceivedPrefix s of
        Inl e \<Rightarrow> (Some e, s)
      | Inr lastTime \<Rightarrow>
         (case put_last S p SettlementReceivedPrefix
                 (lastTime\<lparr>lp_Total := lp_Total lastTime + paymentAmount, lp_Timestamp := timestamp\<rparr>) s of
            (Some e, s1) \<Rightarrow> (Some e, s1)
          | (None, s1) \<Rightarrow>
             (case NotifyRefreshmentReceived A p paymentAmount (se_accounting s1) of
                (r, acc) \<Rightarrow> (map_option AccountingErr r, s1\<lparr>se_accounting := acc\<rparr>))))"

text \<open>\<open>req\<close> is what is read from the stream and \<open>werr\<close> the error of the write; the middle component of
  the result is the acknowledgement written.\<close>

definition handler ::
  "'s pstore \<Rightarrow> 't astore \<Rightarrow> int \<Rightarrow> string + bytes \<Rightarrow> string option \<Rightarrow> Address \<Rightarrow> ('s, 't) Service
   \<Rightarrow> settle_error option \<times> PaymentAck option \<times> ('s, 't) Service" where
  "handler S A now req werr p s =
     (case req of
        Inl e \<Rightarrow> (Some (SettleWrap ''read request from peer'' (StreamErr e)), None, s)
      | Inr reqAmount \<Rightarrow>
          let attemptedAmount = SetBytes reqAmount in
          if addr_String p \<notin> se_peers s then (Some ErrNoPseudoSettlePeer, None, s)
          else
           (case peerAllowance S A now p s of
              (Inl e, s1) \<Rightarrow> (Some e, None, s1)
            | (Inr (allowance, timestamp), s1) \<Rightarrow>
                let reduced = (if allowance < attemptedAmount then allowance else attemptedAmount);
                    paymentAmount = (if reduced < 0 then 0 else reduced);
                    ack = \<lparr>ack_Amount = big_Bytes paymentAmount, ack_Timestamp = timestamp\<rparr> in
                (case werr of
                   Some e \<Rightarrow> (Some (StreamErr e), None, s1)
                 | None \<Rightarrow>
                    (case record_payment S A paymentAmount timestamp p s1 of
                       (r, s2) \<Rightarrow> (r, Some ack, s2)))))"

section \<open>The debtor\<close>

text \<open>\<open>now\<close> and \<open>checkTime\<close> are the two readings of the clock, \<open>stream\<close> the error of opening the stream or
  of the write, and \<open>reply\<close> what is read. \<open>checkAllowance\<close> is capped at \<open>amount\<close> in place; no caller reads
  it again. The interval checks are on wrapping 64-bit integers.\<close>

definition se_Pay ::
  "'s pstore \<Rightarrow> int \<Rightarrow> int \<Rightarrow> string option \<Rightarrow> string + PaymentAck \<Rightarrow> Address \<Rightarrow> int \<Rightarrow> int \<Rightarrow> ('s, 't) Service
   \<Rightarrow> (settle_error + int \<times> int) \<times> ('s, 't) Service" where
  "se_Pay S now checkTime stream reply peer amount checkAllowance0 s =
     (case get_last S peer SettlementSentPrefix s of
        Inl e \<Rightarrow> (Inl e, s)
      | Inr lastTime \<Rightarrow>
          if now = lp_Timestamp lastTime then (Inl ErrSettlementTooSoon, s)
          else
           (case stream of
              Some e \<Rightarrow> (Inl (StreamErr e), s)
            | None \<Rightarrow>
               (case reply of
                  Inl e \<Rightarrow> (Inl (StreamErr e), s)
                | Inr ack \<Rightarrow>
                    let checkAllowance = (if amount < checkAllowance0 then amount else checkAllowance0);
                        acceptedAmount = SetBytes (ack_Amount ack) in
                    if amount < acceptedAmount then (Inl (AcceptedLarger peer), s)
                    else
                      let experiencedInterval = i64 (checkTime - lp_CheckTimestamp lastTime);
                          allegedInterval = i64 (ack_Timestamp ack - lp_Timestamp lastTime) in
                      if allegedInterval < 0 then (Inl ErrTimeOutOfSync, s)
                      else
                        let experienceDifferenceRecent = i64 (ack_Timestamp ack - checkTime) in
                        if experienceDifferenceRecent < - 2 \<or> 2 < experienceDifferenceRecent
                        then (Inl ErrTimeOutOfSync, s)
                        else
                          let experienceDifferenceInterval = i64 (experiencedInterval - allegedInterval) in
                          if experienceDifferenceInterval < - 3 \<or> 3 < experienceDifferenceInterval
                          then (Inl ErrTimeOutOfSync, s)
                          else
                            let expected = allegedInterval * se_refreshRate s;
                                expectedAllowance = (if checkAllowance < expected then checkAllowance
                                                     else expected) in
                            if acceptedAmount < expectedAllowance then (Inl (AcceptedLower peer), s)
                            else
                             (case put_last S peer SettlementSentPrefix
                                     \<lparr>lp_Timestamp = ack_Timestamp ack, lp_CheckTimestamp = checkTime,
                                      lp_Total = lp_Total lastTime + acceptedAmount\<rparr> s of
                                (Some e, s1) \<Rightarrow> (Inl e, s1)
                              | (None, s1) \<Rightarrow> (Inr (acceptedAmount, checkTime), s1)))))"

section \<open>Totals\<close>

definition total_of :: "'s pstore \<Rightarrow> string \<Rightarrow> Address \<Rightarrow> ('s, 't) Service \<Rightarrow> settle_error + int" where
  "total_of S pre peer s =
     (case st_Get S (totalKey peer pre) (se_store s) of
        Inl store_error.ErrNotFound \<Rightarrow> Inr 0
      | Inl e \<Rightarrow> Inl ErrPeerNoSettlements
      | Inr l \<Rightarrow> Inr (lp_Total l))"

definition TotalSent :: "'s pstore \<Rightarrow> Address \<Rightarrow> ('s, 't) Service \<Rightarrow> settle_error + int" where
  "TotalSent S = total_of S SettlementSentPrefix"

definition TotalReceived :: "'s pstore \<Rightarrow> Address \<Rightarrow> ('s, 't) Service \<Rightarrow> settle_error + int" where
  "TotalReceived S = total_of S SettlementReceivedPrefix"

definition settlements_func ::
  "'s pstore \<Rightarrow> string \<Rightarrow> 's \<Rightarrow> (lastPayment, string \<rightharpoonup> int, settle_error) StateIterFunc" where
  "settlements_func S pre st key v m =
     (case totalKeyPeer key pre of
        Inl e \<Rightarrow> (m, False, Some (SettleWrap ''parse address from key'' e))
      | Inr addr \<Rightarrow>
          if m (addr_String addr) = None then
            (case st_Get S (totalKey addr pre) st of
               Inl e \<Rightarrow> (m, False, Some (SettleWrap ''get peer settlement balance'' (SettleStoreErr e)))
             | Inr l \<Rightarrow> (m(addr_String addr \<mapsto> lp_Total l), False, None))
          else (m, False, None))"

definition settlements ::
  "'s pstore \<Rightarrow> string \<Rightarrow> ('s, 't) Service \<Rightarrow> settle_error iter_error + (string \<rightharpoonup> int)" where
  "settlements S pre s =
     (case st_Iterate S pre (settlements_func S pre (se_store s)) (se_store s) Map.empty of
        (_, Some e) \<Rightarrow> Inl e
      | (m, None) \<Rightarrow> Inr m)"

definition SettlementsSent ::
  "'s pstore \<Rightarrow> ('s, 't) Service \<Rightarrow> settle_error iter_error + (string \<rightharpoonup> int)" where
  "SettlementsSent S = settlements S SettlementSentPrefix"

definition SettlementsReceived ::
  "'s pstore \<Rightarrow> ('s, 't) Service \<Rightarrow> settle_error iter_error + (string \<rightharpoonup> int)" where
  "SettlementsReceived S = settlements S SettlementReceivedPrefix"

section \<open>The records of a peer\<close>

definition last_of :: "('s \<Rightarrow> string \<Rightarrow> lastPayment option) \<Rightarrow> string \<Rightarrow> Address \<Rightarrow> ('s, 't) Service \<Rightarrow> lastPayment" where
  "last_of look pre peer s =
     (case look (se_store s) (totalKey peer pre) of
        None \<Rightarrow> \<lparr>lp_Timestamp = 0, lp_CheckTimestamp = 0, lp_Total = 0\<rparr>
      | Some l \<Rightarrow> l)"

lemma totalKey_inject [simp]: "totalKey p pre = totalKey q pre \<longleftrightarrow> p = q"
  by (simp add: totalKey_def)

lemma totalKey_prefixes [simp]:
  "totalKey p SettlementReceivedPrefix \<noteq> totalKey q SettlementSentPrefix"
  "totalKey p SettlementSentPrefix \<noteq> totalKey q SettlementReceivedPrefix"
  by (simp_all add: totalKey_def SettlementReceivedPrefix_def SettlementSentPrefix_def)

lemma last_of_accounting [simp]: "last_of look pre peer (s\<lparr>se_accounting := acc\<rparr>) = last_of look pre peer s"
  by (simp add: last_of_def)

locale payment_store = state_store S look
  for S :: "('s, lastPayment) StateStorer" and look :: "'s \<Rightarrow> string \<Rightarrow> lastPayment option"
begin

lemma get_last_look: "get_last S peer pre s = Inr l \<Longrightarrow> l = last_of look pre peer s"
  using get_some [of "totalKey peer pre" "se_store s"] get_none [of "totalKey peer pre" "se_store s"]
  by (auto simp: get_last_def last_of_def split: sum.splits store_error.splits)

lemma put_last_look:
  assumes "put_last S peer pre l s = (None, s')"
  shows "last_of look pre q s' = (if q = peer then l else last_of look pre q s)"
    "pre' \<in> {SettlementReceivedPrefix, SettlementSentPrefix} \<Longrightarrow> pre \<in> {SettlementReceivedPrefix, SettlementSentPrefix}
     \<Longrightarrow> pre' \<noteq> pre \<Longrightarrow> last_of look pre' q s' = last_of look pre' q s"
    "se_accounting s' = se_accounting s" "se_refreshRate s' = se_refreshRate s" "se_peers s' = se_peers s"
  using assms put_look by (auto simp: put_last_def last_of_def split: sum.splits)

lemma put_last_fails: "put_last S peer pre l s = (Some e, s') \<Longrightarrow> s' = s"
  by (auto simp: put_last_def split: sum.splits)

end

section \<open>What the creditor grants\<close>

definition debt_of :: "('t \<Rightarrow> string \<Rightarrow> int option) \<Rightarrow> Address \<Rightarrow> 't Accounting \<Rightarrow> int" where
  "debt_of alook peer a =
     max 0 (l_balance (ledger_of alook (acc_store a) peer) + shadowReservedBalance (peer_of peer a))"

text \<open>The specification of a grant: no more than asked, than accrued since the last grant, than owed.\<close>

definition granted :: "int \<Rightarrow> int \<Rightarrow> int \<Rightarrow> int \<Rightarrow> int" where
  "granted attempted elapsed rate debt = max 0 (min attempted (min (elapsed * rate) debt))"

text \<open>One run of the handler that writes a grant, from \<open>s\<close> to \<open>s'\<close>.\<close>

definition one_grant :: "('s \<Rightarrow> string \<Rightarrow> lastPayment option) \<Rightarrow> ('t \<Rightarrow> string \<Rightarrow> int option) \<Rightarrow> int \<Rightarrow> bytes \<Rightarrow> Address \<Rightarrow> settle_error option \<Rightarrow> PaymentAck option
    \<Rightarrow> ('s, 't) Service \<Rightarrow> ('s, 't) Service \<Rightarrow> bool" where
  "one_grant look alook now bs p r ack s s' \<longleftrightarrow>
     (let l = last_of look SettlementReceivedPrefix p s;
          g = granted (SetBytes bs) (i64 (now - lp_Timestamp l)) (se_refreshRate s) (debt_of alook p (se_accounting s))
      in now \<noteq> lp_Timestamp l \<and> ack = Some \<lparr>ack_Amount = big_Bytes g, ack_Timestamp = now\<rparr> \<and>
         (\<forall>q. last_of look SettlementReceivedPrefix q s' = (if q = p
            then l\<lparr>lp_Total := lp_Total l + g, lp_Timestamp := now\<rparr>
            else last_of look SettlementReceivedPrefix q s)) \<and>
         (r = None \<longrightarrow> (\<forall>q. ledger_of alook (acc_store (se_accounting s')) q = (if q = p
            then l_refreshment_received g (ledger_of alook (acc_store (se_accounting s)) p)
            else ledger_of alook (acc_store (se_accounting s)) q) \<and>
            peer_of q (se_accounting s') = peer_of q (se_accounting s))))"

context balance_store
begin

lemma PeerDebt_debt_of:
  assumes "PeerDebt S peer a = (Inr d, a')"
  shows "d = debt_of look peer a"
proof -
  have "get_or_zero S peer (touch peer a) = Inr b \<Longrightarrow> b = l_balance (ledger_of look (acc_store a) peer)" for b
    using get_some [of "peerBalanceKey peer" "acc_store a"] get_none [of "peerBalanceKey peer" "acc_store a"]
    by (auto simp: get_or_zero_def ledger_of_def split: sum.splits store_error.splits)
  then show ?thesis using assms
    by (auto simp: PeerDebt_def getAccountingPeer_touch debt_of_def Let_def split: sum.splits)
qed

end

locale settlement = pay: payment_store S look + acc: balance_store A alook
  for S :: "('s, lastPayment) StateStorer" and look :: "'s \<Rightarrow> string \<Rightarrow> lastPayment option"
    and A :: "('t, int) StateStorer" and alook :: "'t \<Rightarrow> string \<Rightarrow> int option"
begin

lemma peerAllowance_grant:
  assumes "peerAllowance S A now peer s = (Inr (limit, stamp), s1)"
  shows "stamp = now \<and> now \<noteq> lp_Timestamp (last_of look SettlementReceivedPrefix peer s) \<and>
    limit = min (i64 (now - lp_Timestamp (last_of look SettlementReceivedPrefix peer s)) * se_refreshRate s)
      (debt_of alook peer (se_accounting s)) \<and>
    acc_store (se_accounting s1) = acc_store (se_accounting s) \<and>
    (\<forall>q. peer_of q (se_accounting s1) = peer_of q (se_accounting s))"
proof -
  let ?l = "last_of look SettlementReceivedPrefix peer s"
  have l: "get_last S peer SettlementReceivedPrefix s = Inr ?l"
    using assms pay.get_last_look by (cases "get_last S peer SettlementReceivedPrefix s") (auto simp: peerAllowance_def)
  obtain x acc where d: "PeerDebt A peer (se_accounting s) = (x, acc)" by (metis prod.exhaust)
  have ne: "now \<noteq> lp_Timestamp ?l" using assms l by (auto simp: peerAllowance_def)
  show ?thesis
  proof (cases x)
    case (Inl e)
    with assms l d ne show ?thesis by (simp add: peerAllowance_def)
  next
    case (Inr debt)
    with acc.PeerDebt_debt_of d have "debt = debt_of alook peer (se_accounting s)" by blast
    with PeerDebt_peer [OF d] assms l d ne Inr show ?thesis by (auto simp: peerAllowance_def Let_def min_def)
  qed
qed

lemma peerAllowance_frame:
  "peerAllowance S A now p s = (x, s1) \<Longrightarrow> se_store s1 = se_store s \<and> se_refreshRate s1 = se_refreshRate s"
  by (auto simp: peerAllowance_def Let_def split: sum.splits if_splits prod.splits)

lemma record_payment_result:
  assumes "record_payment S A g now p s = (r, s')"
  shows "se_refreshRate s' = se_refreshRate s \<and> (r \<noteq> None \<and> s' = s \<or>
    (\<forall>q. last_of look SettlementReceivedPrefix q s' = (if q = p
       then (last_of look SettlementReceivedPrefix p s)\<lparr>
          lp_Total := lp_Total (last_of look SettlementReceivedPrefix p s) + g, lp_Timestamp := now\<rparr>
       else last_of look SettlementReceivedPrefix q s)) \<and>
    (r = None \<longrightarrow> (\<forall>q. ledger_of alook (acc_store (se_accounting s')) q = (if q = p
       then l_refreshment_received g (ledger_of alook (acc_store (se_accounting s)) p)
       else ledger_of alook (acc_store (se_accounting s)) q) \<and>
       peer_of q (se_accounting s') = peer_of q (se_accounting s))))"
proof (cases "get_last S p SettlementReceivedPrefix s")
  case (Inl e)
  with assms show ?thesis by (auto simp: record_payment_def)
next
  case (Inr l)
  define l' where "l' = l\<lparr>lp_Total := lp_Total l + g, lp_Timestamp := now\<rparr>"
  obtain o1 s1 where p: "put_last S p SettlementReceivedPrefix l' s = (o1, s1)" by (metis prod.exhaust)
  show ?thesis
  proof (cases o1)
    case (Some e)
    with p pay.put_last_fails [of p _ l' s e s1] assms Inr show ?thesis by (auto simp: record_payment_def l'_def)
  next
    case None
    note pl = pay.put_last_look [OF p [unfolded None]]
    obtain r1 acc where n: "NotifyRefreshmentReceived A p g (se_accounting s1) = (r1, acc)" by (metis prod.exhaust)
    have r: "r = map_option AccountingErr r1" "s' = s1\<lparr>se_accounting := acc\<rparr>"
      using assms p None n Inr by (simp_all add: record_payment_def l'_def)
    show ?thesis
    proof (cases r1)
      case None
      from acc.NotifyRefreshmentReceived_ledger [OF n [unfolded None]] pl pay.get_last_look [OF Inr] r show ?thesis
        by (simp add: l'_def)
    qed (use pl r pay.get_last_look [OF Inr] in \<open>simp add: l'_def\<close>)
  qed
qed

lemma handler_result:
  assumes h: "handler S A now req werr p s = (r, ack, s')"
  shows "se_refreshRate s' = se_refreshRate s \<and>
    (r \<noteq> None \<and> se_store s' = se_store s \<or> (\<exists>bs. req = Inr bs \<and> one_grant look alook now bs p r ack s s'))"
proof (cases "\<exists>bs limit stamp s1. req = Inr bs \<and> addr_String p \<in> se_peers s \<and>
    peerAllowance S A now p s = (Inr (limit, stamp), s1) \<and> werr = None")
  case False
  have "r \<noteq> None \<and> se_store s' = se_store s \<and> se_refreshRate s' = se_refreshRate s"
  proof (cases req)
    case (Inl e)
    with h show ?thesis by (auto simp: handler_def)
  next
    case (Inr bs)
    obtain x s1 where pa: "peerAllowance S A now p s = (x, s1)" by (metis prod.exhaust)
    from peerAllowance_frame [OF pa] h Inr pa False show ?thesis
      by (cases x; cases werr; cases "addr_String p \<in> se_peers s") (auto simp: handler_def Let_def)
  qed
  then show ?thesis by simp
next
  case True
  then obtain bs limit stamp s1 where req: "req = Inr bs" "addr_String p \<in> se_peers s" "werr = None"
    and pa: "peerAllowance S A now p s = (Inr (limit, stamp), s1)" by blast
  note al = peerAllowance_grant [OF pa]
  define l where "l = last_of look SettlementReceivedPrefix p s"
  define g where "g = granted (SetBytes bs) (i64 (now - lp_Timestamp l)) (se_refreshRate s) (debt_of alook p (se_accounting s))"
  have g: "(if (if limit < SetBytes bs then limit else SetBytes bs) < 0 then 0
      else if limit < SetBytes bs then limit else SetBytes bs) = g"
    using al SetBytes_nonneg [of bs] by (auto simp: g_def granted_def l_def max_def min_def simp del: SetBytes_nonneg)
  have rp: "record_payment S A g now p s1 = (r, s')" and ack: "ack = Some \<lparr>ack_Amount = big_Bytes g, ack_Timestamp = now\<rparr>"
    using h req pa conjunct1 [OF al] unfolding handler_def Let_def by (simp_all only: sum.case prod.case option.case if_False simp_thms g)
      (auto split: prod.splits)
  have st: "se_store s1 = se_store s" "se_refreshRate s1 = se_refreshRate s" using peerAllowance_frame [OF pa] by auto
  then have same: "last_of look SettlementReceivedPrefix q s1 = last_of look SettlementReceivedPrefix q s" for q
    by (simp add: last_of_def)
  from record_payment_result [OF rp] al ack req(1) same st show ?thesis
    by (auto simp: one_grant_def Let_def l_def [symmetric] g_def [symmetric])
qed

end

section \<open>A creditor over time\<close>

text \<open>A sequence of requests with the clock reading, the message, the write error and the peer of each.\<close>

type_synonym request = "int \<times> (string + bytes) \<times> string option \<times> Address"

fun serve :: "'s pstore \<Rightarrow> 't astore \<Rightarrow> request list \<Rightarrow> ('s, 't) Service \<Rightarrow> ('s, 't) Service" where
  "serve S A [] s = s"
| "serve S A ((now, req, werr, p) # rs) s = serve S A rs (snd (snd (handler S A now req werr p s)))"

context settlement
begin

lemma handler_rate:
  assumes h: "handler S A now req werr p s = (r, ack, s')" and rate: "0 \<le> se_refreshRate s"
    and mono: "lp_Timestamp (last_of look SettlementReceivedPrefix q s) \<le> now"
    and range: "now - lp_Timestamp (last_of look SettlementReceivedPrefix q s) < 2 ^ 63"
  defines "l \<equiv> last_of look SettlementReceivedPrefix q s" and "l' \<equiv> last_of look SettlementReceivedPrefix q s'"
  shows "lp_Timestamp l \<le> lp_Timestamp l' \<and> lp_Timestamp l' \<le> now \<and>
    lp_Total l' - lp_Total l \<le> (lp_Timestamp l' - lp_Timestamp l) * se_refreshRate s"
proof (cases "l' = l")
  case True
  then show ?thesis using mono by (simp add: l_def)
next
  case False
  then obtain bs where g: "one_grant look alook now bs p r ack s s'"
    using handler_result [OF h] by (auto simp: l_def l'_def last_of_def)
  with False have q: "q = p" by (auto simp: one_grant_def l_def l'_def Let_def split: if_splits)
  define e where "e = now - lp_Timestamp l"
  have e: "i64 e = e" "0 \<le> e" using mono range by (auto simp: e_def l_def)
  have "granted (SetBytes bs) e (se_refreshRate s) d \<le> e * se_refreshRate s" for d
    using e rate by (auto simp: granted_def)
  moreover have "l' = l\<lparr>lp_Total := lp_Total l + granted (SetBytes bs) e (se_refreshRate s)
      (debt_of alook p (se_accounting s)), lp_Timestamp := now\<rparr>"
    using g q e by (simp add: one_grant_def Let_def l_def l'_def e_def)
  ultimately show ?thesis using e by (simp add: e_def)
qed

lemma serve_rate:
  assumes "0 \<le> se_refreshRate s" and "sorted (t0 # map fst rs)"
    and "lp_Timestamp (last_of look SettlementReceivedPrefix q s) \<le> t0"
    and "\<forall>t \<in> set (map fst rs). t - lp_Timestamp (last_of look SettlementReceivedPrefix q s) < 2 ^ 63"
  shows "lp_Timestamp (last_of look SettlementReceivedPrefix q s) \<le>
      lp_Timestamp (last_of look SettlementReceivedPrefix q (serve S A rs s)) \<and>
    lp_Timestamp (last_of look SettlementReceivedPrefix q (serve S A rs s)) \<le> last (t0 # map fst rs) \<and>
    lp_Total (last_of look SettlementReceivedPrefix q (serve S A rs s)) -
      lp_Total (last_of look SettlementReceivedPrefix q s) \<le>
    (lp_Timestamp (last_of look SettlementReceivedPrefix q (serve S A rs s)) -
      lp_Timestamp (last_of look SettlementReceivedPrefix q s)) * se_refreshRate s"
  using assms
proof (induction rs arbitrary: s t0)
  case Nil
  then show ?case by simp
next
  case (Cons x rs)
  obtain now req werr p where x: "x = (now, req, werr, p)" by (metis prod_cases4)
  obtain r ack s' where h: "handler S A now req werr p s = (r, ack, s')" by (metis prod_cases3)
  let ?l = "last_of look SettlementReceivedPrefix q s" and ?l1 = "last_of look SettlementReceivedPrefix q s'"
  let ?l2 = "last_of look SettlementReceivedPrefix q (serve S A rs s')"
  have rate: "se_refreshRate s' = se_refreshRate s" using handler_result [OF h] by simp
  have step: "lp_Timestamp ?l \<le> lp_Timestamp ?l1" "lp_Timestamp ?l1 \<le> now"
    "lp_Total ?l1 - lp_Total ?l \<le> (lp_Timestamp ?l1 - lp_Timestamp ?l) * se_refreshRate s"
    using handler_rate [OF h, of q] Cons.prems x by auto
  have "lp_Timestamp ?l1 \<le> lp_Timestamp ?l2 \<and> lp_Timestamp ?l2 \<le> last (now # map fst rs) \<and>
    lp_Total ?l2 - lp_Total ?l1 \<le> (lp_Timestamp ?l2 - lp_Timestamp ?l1) * se_refreshRate s'"
    by (rule Cons.IH) (use Cons.prems x step rate in \<open>auto intro: le_less_trans [rotated]\<close>)
  then show ?case using step rate by (simp add: x h algebra_simps)
qed

end

section \<open>Properties\<close>

interpretation inmem_payments: settlement
  InMem "map_of :: lastPayment mem \<Rightarrow> string \<Rightarrow> lastPayment option" InMem "map_of :: int mem \<Rightarrow> string \<Rightarrow> int option"
  by unfold_locales

text \<open>C23. A creditor whose handler succeeds forgives exactly the least of what it is asked for, of what the peer
  owes, and of what has accrued at the refresh rate since the last time (nothing, when the clock went back);
  the acknowledgement states exactly the amount that is added to the total received from the peer and taken off
  the peer's balance, the time of the grant is kept, and nobody else is affected.\<close>

theorem refreshment_granted:
  assumes "settlement S look A alook" and "handler S A now req werr p s = (None, ack, s')"
  shows "\<exists>bs g. req = Inr bs \<and>
    g = max 0 (min (SetBytes bs) (min (debt_of alook p (se_accounting s))
      (i64 (now - lp_Timestamp (last_of look SettlementReceivedPrefix p s)) * se_refreshRate s))) \<and>
    ack = Some \<lparr>ack_Amount = big_Bytes g, ack_Timestamp = now\<rparr> \<and> SetBytes (big_Bytes g) = g \<and>
    (\<forall>q. lp_Total (last_of look SettlementReceivedPrefix q s') =
       lp_Total (last_of look SettlementReceivedPrefix q s) + (if q = p then g else 0)) \<and>
    (\<forall>q. lp_Timestamp (last_of look SettlementReceivedPrefix q s') =
       (if q = p then now else lp_Timestamp (last_of look SettlementReceivedPrefix q s))) \<and>
    (\<forall>q. l_balance (ledger_of alook (acc_store (se_accounting s')) q) =
       l_balance (ledger_of alook (acc_store (se_accounting s)) q) - (if q = p then g else 0))"
proof -
  obtain bs where req: "req = Inr bs" and og: "one_grant look alook now bs p None ack s s'"
    using settlement.handler_result [OF assms] by auto
  define g where "g = granted (SetBytes bs) (i64 (now - lp_Timestamp (last_of look SettlementReceivedPrefix p s)))
    (se_refreshRate s) (debt_of alook p (se_accounting s))"
  have g: "g = max 0 (min (SetBytes bs) (min (debt_of alook p (se_accounting s))
      (i64 (now - lp_Timestamp (last_of look SettlementReceivedPrefix p s)) * se_refreshRate s)))" "0 \<le> g"
    by (simp_all add: g_def granted_def min.commute)
  have "ack = Some \<lparr>ack_Amount = big_Bytes g, ack_Timestamp = now\<rparr>"
    "lp_Total (last_of look SettlementReceivedPrefix q s') =
       lp_Total (last_of look SettlementReceivedPrefix q s) + (if q = p then g else 0)"
    "lp_Timestamp (last_of look SettlementReceivedPrefix q s') =
       (if q = p then now else lp_Timestamp (last_of look SettlementReceivedPrefix q s))"
    "l_balance (ledger_of alook (acc_store (se_accounting s')) q) =
       l_balance (ledger_of alook (acc_store (se_accounting s)) q) - (if q = p then g else 0)" for q
    using og by (simp_all add: one_grant_def Let_def g_def l_refreshment_received_def)
  moreover have "SetBytes (big_Bytes g) = g" using g(2) by simp
  ultimately show ?thesis using g(1) req by (intro exI [of _ bs] exI [of _ g]) simp
qed

definition ex_creditor :: "(lastPayment mem, int mem) Service" where
  "ex_creditor = \<lparr>se_store = [], se_accounting = ex_acc\<lparr>acc_store := [(peerBalanceKey ex_peer, 500)]\<rparr>,
     se_refreshRate = 10, se_peers = {addr_String ex_peer}, se_spawned = []\<rparr>"

lemma ex_creditor_handler:
  "\<exists>s'. handler InMem InMem 100 (Inr [1, 44]) None ex_peer ex_creditor =
     (None, Some \<lparr>ack_Amount = big_Bytes 300, ack_Timestamp = 100\<rparr>, s')"
proof -
  let ?a = "ex_acc\<lparr>acc_store := [(peerBalanceKey ex_peer, 500)]\<rparr>"
  have t: "SetBytes [1, 44] = 300" by (simp add: SetBytes_def be_val_def)
  have sh: "shadowReservedBalance (peer_of ex_peer ?a) = 0"
    by (simp add: ex_acc_def peer_of_def getAccountingPeer_def acc_Connect_def upd_peer_def put_int_def
        mem_defs Let_def NewAccounting_def newPeer_def)
  have "PeerDebt InMem ex_peer ?a = (Inr 500, touch ex_peer ?a)"
    using sh by (simp add: PeerDebt_def getAccountingPeer_touch get_or_zero_def mem_defs Let_def)
  then have pa: "peerAllowance InMem InMem 100 ex_peer ex_creditor =
      (Inr (500, 100), ex_creditor\<lparr>se_accounting := touch ex_peer ?a\<rparr>)"
    by (simp add: peerAllowance_def get_last_def ex_creditor_def mem_defs)
  obtain acc where n: "NotifyRefreshmentReceived InMem ex_peer 300 (touch ex_peer ?a) = (None, acc)"
    by (simp add: NotifyRefreshmentReceived_def getAccountingPeer_touch Balance_def or_zero_def put_int_def mem_defs)
  then have "\<exists>s'. record_payment InMem InMem 300 100 ex_peer (ex_creditor\<lparr>se_accounting := touch ex_peer ?a\<rparr>) = (None, s')"
    by (simp add: record_payment_def get_last_def put_last_def ex_creditor_def mem_defs)
  with pa t show ?thesis by (auto simp: handler_def ex_creditor_def)
qed

theorem refreshment_granted_witness:
  "\<exists>s'. handler InMem InMem 100 (Inr [1, 44]) None ex_peer ex_creditor =
     (None, Some \<lparr>ack_Amount = big_Bytes 300, ack_Timestamp = 100\<rparr>, s') \<and>
     lp_Total (last_of map_of SettlementReceivedPrefix ex_peer s') = 300"
proof -
  obtain s' where h: "handler InMem InMem 100 (Inr [1, 44]) None ex_peer ex_creditor =
     (None, Some \<lparr>ack_Amount = big_Bytes 300, ack_Timestamp = 100\<rparr>, s')" using ex_creditor_handler by blast
  from refreshment_granted [OF inmem_payments.settlement_axioms h] obtain g where
    "big_Bytes 300 = big_Bytes g" "SetBytes (big_Bytes g) = g"
    "lp_Total (last_of map_of SettlementReceivedPrefix ex_peer s') = g"
    by (auto simp: last_of_def ex_creditor_def)
  moreover from this have "g = 300" by (metis SetBytes_big_Bytes abs_numeral)
  ultimately show ?thesis using h by blast
qed

text \<open>C24. Over any sequence of requests, successful or not, with a clock that does not run backwards, the
  total a peer is forgiven grows by at most the refresh rate times the time between its first and last
  recorded grant.\<close>

theorem refreshments_rate_limited:
  assumes "settlement S look A alook" and "0 \<le> se_refreshRate s" and "sorted (t0 # map fst rs)"
    and "lp_Timestamp (last_of look SettlementReceivedPrefix q s) \<le> t0"
    and "\<forall>t \<in> set (map fst rs). t - lp_Timestamp (last_of look SettlementReceivedPrefix q s) < 2 ^ 63"
  shows "lp_Total (last_of look SettlementReceivedPrefix q (serve S A rs s)) -
      lp_Total (last_of look SettlementReceivedPrefix q s) \<le>
    (last (t0 # map fst rs) - lp_Timestamp (last_of look SettlementReceivedPrefix q s)) * se_refreshRate s"
proof -
  note r = settlement.serve_rate [OF assms]
  let ?t = "lp_Timestamp (last_of look SettlementReceivedPrefix q s)"
  have "(lp_Timestamp (last_of look SettlementReceivedPrefix q (serve S A rs s)) - ?t) * se_refreshRate s
      \<le> (last (t0 # map fst rs) - ?t) * se_refreshRate s"
    using r assms(2) by (intro mult_right_mono) auto
  with r show ?thesis by linarith
qed

theorem refreshments_rate_limited_witness:
  "lp_Total (last_of map_of SettlementReceivedPrefix ex_peer (serve InMem InMem [(100, Inr [1, 44], None, ex_peer)] ex_creditor))
     \<le> 1000"
  using refreshments_rate_limited [OF inmem_payments.settlement_axioms, of ex_creditor 0
      "[(100, Inr [1, 44], None, ex_peer)]" ex_peer]
  by (simp add: last_of_def ex_creditor_def)

text \<open>C25. Two honest nodes agree: when the debtor asks a creditor whose record of the last settlement has
  the same time, the clocks are within the tolerances and the creditor counts at least the enforced
  amount as debt, then the debtor accepts the creditor's acknowledgement, both add the same amount to
  their totals, and the records agree again for the next time.\<close>

theorem honest_settlement_accepted:
  assumes store: "reliable_store S look" and creditor: "settlement C clook A alook"
    and granted: "handler C A stamp (Inr (big_Bytes amount)) None debtor c = (None, Some ack, c')"
    and agree: "lp_Timestamp (last_of look SettlementSentPrefix creditor d) =
      lp_Timestamp (last_of clook SettlementReceivedPrefix debtor c)" "se_refreshRate d = se_refreshRate c"
    and amounts: "0 \<le> amount" "check \<le> debt_of alook debtor (se_accounting c)"
    and clocks: "now \<noteq> lp_Timestamp (last_of look SettlementSentPrefix creditor d)"
      "0 \<le> lp_Timestamp (last_of look SettlementSentPrefix creditor d)"
      "lp_Timestamp (last_of look SettlementSentPrefix creditor d) < stamp" "stamp < 2 ^ 62"
      "0 \<le> lp_CheckTimestamp (last_of look SettlementSentPrefix creditor d)" "0 \<le> checkTime" "checkTime < 2 ^ 62"
      "\<bar>stamp - checkTime\<bar> \<le> 2" "lp_CheckTimestamp (last_of look SettlementSentPrefix creditor d) < 2 ^ 62"
      "\<bar>(checkTime - lp_CheckTimestamp (last_of look SettlementSentPrefix creditor d)) -
         (stamp - lp_Timestamp (last_of look SettlementSentPrefix creditor d))\<bar> \<le> 3"
  shows "\<exists>g d'. se_Pay S now checkTime None (Inr ack) creditor amount check d = (Inr (g, checkTime), d') \<and>
    lp_Total (last_of look SettlementSentPrefix creditor d') =
      lp_Total (last_of look SettlementSentPrefix creditor d) + g \<and>
    lp_Total (last_of clook SettlementReceivedPrefix debtor c') =
      lp_Total (last_of clook SettlementReceivedPrefix debtor c) + g \<and>
    lp_Timestamp (last_of look SettlementSentPrefix creditor d') =
      lp_Timestamp (last_of clook SettlementReceivedPrefix debtor c')"
proof -
  define l where "l = last_of look SettlementSentPrefix creditor d"
  define lc where "lc = last_of clook SettlementReceivedPrefix debtor c"
  have og: "one_grant clook alook stamp (big_Bytes amount) debtor None (Some ack) c c'"
    using settlement.handler_result [OF creditor granted] by auto
  have e: "i64 (stamp - lp_Timestamp lc) = stamp - lp_Timestamp lc"
    using clocks agree(1) by (intro i64_id) (auto simp: lc_def)
  define g where "g = granted amount (stamp - lp_Timestamp lc) (se_refreshRate c) (debt_of alook debtor (se_accounting c))"
  have ack: "ack = \<lparr>ack_Amount = big_Bytes g, ack_Timestamp = stamp\<rparr>"
    and rec: "last_of clook SettlementReceivedPrefix debtor c' = lc\<lparr>lp_Total := lp_Total lc + g, lp_Timestamp := stamp\<rparr>"
    using og e amounts(1) by (simp_all add: one_grant_def Let_def lc_def g_def)
  define x where "x = (stamp - lp_Timestamp lc) * se_refreshRate c"
  have g: "0 \<le> g" "g \<le> amount" "min (min amount check) x \<le> g"
    using amounts by (auto simp: g_def granted_def x_def)
  then have enough: "\<not> g < (if (if amount < check then amount else check) < x
      then if amount < check then amount else check else x)"
    by (auto simp: min_def split: if_splits)
  have ps: "payment_store S look" using store by (simp add: payment_store_def reliable_store_def)
  have "get_last S creditor SettlementSentPrefix d = Inr l"
    using reliable_store.get_total [OF store] by (simp add: get_last_def l_def last_of_def split: option.splits)
  moreover obtain st where "st_Put S (totalKey creditor SettlementSentPrefix)
      \<lparr>lp_Timestamp = stamp, lp_CheckTimestamp = checkTime, lp_Total = lp_Total l + g\<rparr> (se_store d) = Inr st"
    using reliable_store.put_total [OF store] by blast
  then obtain d' where put: "put_last S creditor SettlementSentPrefix
      \<lparr>lp_Timestamp = stamp, lp_CheckTimestamp = checkTime, lp_Total = lp_Total l + g\<rparr> d = (None, d')"
    by (simp add: put_last_def)
  moreover have "i64 (checkTime - lp_CheckTimestamp l) = checkTime - lp_CheckTimestamp l"
    "i64 (stamp - lp_Timestamp l) = stamp - lp_Timestamp l" "i64 (stamp - checkTime) = stamp - checkTime"
    "i64 ((checkTime - lp_CheckTimestamp l) - (stamp - lp_Timestamp l)) = (checkTime - lp_CheckTimestamp l) - (stamp - lp_Timestamp l)"
    using clocks by (auto simp: l_def intro!: i64_id)
  ultimately have "se_Pay S now checkTime None (Inr ack) creditor amount check d = (Inr (g, checkTime), d')"
    using g(1,2) clocks agree enough [unfolded x_def lc_def]
    by (simp add: se_Pay_def l_def lc_def ack Let_def abs_le_iff split: if_splits)
  with payment_store.put_last_look(1) [OF ps put, of creditor] rec show ?thesis
    by (intro exI [of _ g] exI [of _ d']) (simp add: l_def lc_def)
qed

definition ex_debtor :: "(lastPayment mem, int mem) Service" where
  "ex_debtor = \<lparr>se_store = [], se_accounting = ex_acc, se_refreshRate = 10, se_peers = {}, se_spawned = []\<rparr>"

theorem honest_settlement_accepted_witness:
  "\<exists>g d'. se_Pay InMem 99 101 None (Inr \<lparr>ack_Amount = big_Bytes 300, ack_Timestamp = 100\<rparr>) [2] 300 200 ex_debtor
    = (Inr (g, 101), d') \<and> lp_Total (last_of map_of SettlementSentPrefix [2] d') = g"
proof -
  have "nat_bytes 300 = [1, 44]" by (simp add: nat_bytes.simps)
  then have b: "big_Bytes 300 = [1, 44]" by (simp add: big_Bytes_def)
  obtain c' where h: "handler InMem InMem 100 (Inr (big_Bytes 300)) None ex_peer ex_creditor =
     (None, Some \<lparr>ack_Amount = big_Bytes 300, ack_Timestamp = 100\<rparr>, c')" using ex_creditor_handler b by auto
  have "shadowReservedBalance (peer_of ex_peer (ex_acc\<lparr>acc_store := [(peerBalanceKey ex_peer, 500)]\<rparr>)) = 0"
    by (simp add: ex_acc_def peer_of_def getAccountingPeer_def acc_Connect_def upd_peer_def put_int_def
        mem_defs Let_def NewAccounting_def newPeer_def)
  then have debt: "200 \<le> debt_of map_of ex_peer (se_accounting ex_creditor)"
    by (simp add: debt_of_def ex_creditor_def ledger_of_def)
  have l: "last_of map_of SettlementSentPrefix [2] ex_debtor = \<lparr>lp_Timestamp = 0, lp_CheckTimestamp = 0, lp_Total = 0\<rparr>"
    "last_of map_of SettlementReceivedPrefix ex_peer ex_creditor = \<lparr>lp_Timestamp = 0, lp_CheckTimestamp = 0, lp_Total = 0\<rparr>"
    by (simp_all add: last_of_def ex_debtor_def ex_creditor_def)
  from honest_settlement_accepted [OF inmem.reliable_store_axioms inmem_payments.settlement_axioms h,
      of "[2]" ex_debtor 200 99 101] debt l show ?thesis
    by (auto simp: ex_debtor_def ex_creditor_def)
qed

end
