(* ===== verification/Mantaray.thy ===== *)
theory Mantaray
  imports Encodings "HOL-Library.AList"
begin

text \<open>
  \<open>pkg/manifest/mantaray\<close>: the trie that maps paths to entries in a manifest (\<open>node.go\<close>), its
  serialisation (\<open>marshal.go\<close>) and its persistence (\<open>persist.go\<close>). A node is its fields and, once loaded,
  its forks; \<open>None\<close> stands for the nil map of a node that is only a reference. The operations take and
  return nodes, because they load and change the nodes they visit even when they fail. The map of forks
  is an association list with one entry per byte. A panic of the code is the error \<open>MtPanic\<close>.

  The loader and the saver are the interfaces of \<open>persist.go\<close>; the text of \<open>encoding/json\<close> for metadata and
  the source of random keys are parameters. Cancellation of the context is left out, and the children
  of a node are saved one after the other; after the first error the context of the others is cancelled
  and they are not saved.
\<close>

section \<open>Nodes\<close>

type_synonym metadata = "(string \<times> string) list"

datatype mt_error =
    ErrNotFound | ErrEmptyPath | ErrMetadataTooLarge | ErrNoSaver | ErrNoLoader | ErrTooShort
  | ErrInvalidInput | ErrInvalidVersionHash | EntryTooLarge nat | InvalidEntrySize nat nat
  | NotEnoughBytes nat nat | InvalidPrefixLength nat | RefTooLarge nat | JsonErr string
  | LoadErr string | SaveErr string | MtPanic

record node_data =
  nodeType :: u8
  refBytesSize :: nat
  obfuscationKey :: bytes
  n_ref :: "bytes option"
  n_entry :: bytes
  n_metadata :: metadata

datatype Node = Node (data: node_data) (forks: "(byte \<times> bytes \<times> Node) list option")

definition PathSeparator :: byte where "PathSeparator = 47"

definition nodeTypeValue :: u8 where "nodeTypeValue = 2"
definition nodeTypeEdge :: u8 where "nodeTypeEdge = 4"
definition nodeTypeWithPathSeparator :: u8 where "nodeTypeWithPathSeparator = 8"
definition nodeTypeWithMetadata :: u8 where "nodeTypeWithMetadata = 16"
definition nodeTypeMask :: u8 where "nodeTypeMask = 255"

unbundle bit_operations_syntax

definition nodeTypeIsWithMetadataType :: "u8 \<Rightarrow> bool" where
  "nodeTypeIsWithMetadataType t \<longleftrightarrow> t AND nodeTypeWithMetadata = nodeTypeWithMetadata"

definition zero_data :: node_data where
  "zero_data = \<lparr>nodeType = 0, refBytesSize = 0, obfuscationKey = [], n_ref = None, n_entry = [], n_metadata = []\<rparr>"

definition NewNodeRef :: "bytes \<Rightarrow> Node" where
  "NewNodeRef r = Node (zero_data\<lparr>n_ref := Some r\<rparr>) None"

definition New :: Node where
  "New = Node zero_data (Some [])"

definition upd :: "(node_data \<Rightarrow> node_data) \<Rightarrow> Node \<Rightarrow> Node" where
  "upd f n = Node (f (data n)) (forks n)"

definition IsValueType :: "Node \<Rightarrow> bool" where
  "IsValueType n \<longleftrightarrow> nodeType (data n) AND nodeTypeValue = nodeTypeValue"

definition IsEdgeType :: "Node \<Rightarrow> bool" where
  "IsEdgeType n \<longleftrightarrow> nodeType (data n) AND nodeTypeEdge = nodeTypeEdge"

definition IsWithPathSeparatorType :: "Node \<Rightarrow> bool" where
  "IsWithPathSeparatorType n \<longleftrightarrow> nodeType (data n) AND nodeTypeWithPathSeparator = nodeTypeWithPathSeparator"

definition IsWithMetadataType :: "Node \<Rightarrow> bool" where
  "IsWithMetadataType n \<longleftrightarrow> nodeType (data n) AND nodeTypeWithMetadata = nodeTypeWithMetadata"

definition makeValue :: "Node \<Rightarrow> Node" where
  "makeValue = upd (\<lambda>d. d\<lparr>nodeType := nodeType d OR nodeTypeValue\<rparr>)"

definition makeEdge :: "Node \<Rightarrow> Node" where
  "makeEdge = upd (\<lambda>d. d\<lparr>nodeType := nodeType d OR nodeTypeEdge\<rparr>)"

definition makeWithPathSeparator :: "Node \<Rightarrow> Node" where
  "makeWithPathSeparator = upd (\<lambda>d. d\<lparr>nodeType := nodeType d OR nodeTypeWithPathSeparator\<rparr>)"

definition makeWithMetadata :: "Node \<Rightarrow> Node" where
  "makeWithMetadata = upd (\<lambda>d. d\<lparr>nodeType := nodeType d OR nodeTypeWithMetadata\<rparr>)"

definition makeNotWithPathSeparator :: "Node \<Rightarrow> Node" where
  "makeNotWithPathSeparator =
     upd (\<lambda>d. d\<lparr>nodeType := (nodeTypeMask XOR nodeTypeWithPathSeparator) AND nodeType d\<rparr>)"

text \<open>\<open>make([]byte, n)\<close> followed by \<open>copy\<close>.\<close>

definition fill :: "nat \<Rightarrow> bytes \<Rightarrow> bytes" where
  "fill n src = take n src @ replicate (n - length src) 0"

definition SetObfuscationKey :: "bytes \<Rightarrow> Node \<Rightarrow> Node" where
  "SetObfuscationKey k = upd (\<lambda>d. d\<lparr>obfuscationKey := fill 32 k\<rparr>)"

text \<open>\<open>bytes.IndexRune(path, sep) > 0\<close>: the separator occurs, and not at the first position.\<close>

definition updateIsWithPathSeparator :: "bytes \<Rightarrow> Node \<Rightarrow> Node" where
  "updateIsWithPathSeparator path n =
     (if PathSeparator \<in> set path \<and> hd path \<noteq> PathSeparator then makeWithPathSeparator n
      else makeNotWithPathSeparator n)"

section \<open>Serialisation\<close>

definition nodeObfuscationKeySize :: nat where "nodeObfuscationKeySize = 32"
definition versionHashSize :: nat where "versionHashSize = 31"
definition nodeHeaderSize :: nat where "nodeHeaderSize = 64"
definition nodeForkHeaderSize :: nat where "nodeForkHeaderSize = 2"
definition nodeForkPreReferenceSize :: nat where "nodeForkPreReferenceSize = 32"
definition nodePrefixMaxSize :: nat where "nodePrefixMaxSize = 30"
definition nodeForkMetadataBytesSize :: nat where "nodeForkMetadataBytesSize = 2"

definition version01HashBytes :: bytes where
  "version01HashBytes = take 31
     [0x02, 0x51, 0x84, 0x78, 0x9d, 0x63, 0x63, 0x57, 0x66, 0xd7, 0x8c, 0x41, 0x90, 0x01, 0x96, 0xb5,
      0x7d, 0x74, 0x00, 0x87, 0x5e, 0xbe, 0x4d, 0x9b, 0x5d, 0x1e, 0x76, 0xbd, 0x96, 0x52, 0xa9, 0xb7]"

definition version02HashBytes :: bytes where
  "version02HashBytes = take 31
     [0x57, 0x68, 0xb3, 0xb6, 0xa7, 0xdb, 0x56, 0xd2, 0x1d, 0x1a, 0xbf, 0xf4, 0x0d, 0x41, 0xce, 0xbf,
      0xc8, 0x34, 0x48, 0xfe, 0xd8, 0xd7, 0xe9, 0xb0, 0x6e, 0xc0, 0xd3, 0xb0, 0x73, 0xf2, 0x8f, 0x7b]"

text \<open>A set of bytes as a 256-bit vector.\<close>

definition bb_set :: "byte \<Rightarrow> bytes \<Rightarrow> bytes" where
  "bb_set b bits = bits[unat b div 8 := bits ! (unat b div 8) OR push_bit (unat b mod 8) 1]"

definition bb_get :: "bytes \<Rightarrow> byte \<Rightarrow> bool" where
  "bb_get bits b \<longleftrightarrow> drop_bit (unat b mod 8) (bits ! (unat b div 8)) AND 1 > 0"

definition all_bytes :: bytes where "all_bytes = map word_of_nat [0..<256]"

text \<open>The bytes \<open>iter\<close> visits, in its order.\<close>

definition bb_members :: "bytes \<Rightarrow> bytes" where
  "bb_members bits = filter (bb_get bits) all_bytes"

definition encryptDecrypt :: "bytes \<Rightarrow> bytes \<Rightarrow> bytes" where
  "encryptDecrypt input key = map (\<lambda>i. input ! i XOR key ! (i mod length key)) [0..<length input]"

text \<open>The loop over the blocks after the key; the first block is copied.\<close>

function xor_blocks :: "bytes \<Rightarrow> bytes \<Rightarrow> bytes" where
  "xor_blocks key [] = []"
| "xor_blocks key (b # bs) =
     encryptDecrypt (take nodeObfuscationKeySize (b # bs)) key
       @ xor_blocks key (drop nodeObfuscationKeySize (b # bs))"
  by pat_completeness auto
termination
  by (relation "measure (\<lambda>(key, bs). length bs)") (auto simp: nodeObfuscationKeySize_def)

definition obfuscate :: "bytes \<Rightarrow> bytes \<Rightarrow> bytes" where
  "obfuscate key bs = take nodeObfuscationKeySize bs @ xor_blocks key (drop nodeObfuscationKeySize bs)"

record json =
  json_Marshal :: "metadata \<Rightarrow> string + bytes"
  json_Unmarshal :: "bytes \<Rightarrow> string + metadata"

text \<open>Padding of the metadata with newlines to a multiple of the block size, the two length bytes included.\<close>

definition pad_metadata :: "bytes \<Rightarrow> bytes" where
  "pad_metadata j =
     (let n = length j + nodeForkMetadataBytesSize in
      if n < nodeObfuscationKeySize then j @ replicate (nodeObfuscationKeySize - n) 10
      else if nodeObfuscationKeySize < n
      then j @ replicate (nodeObfuscationKeySize - n mod nodeObfuscationKeySize) 10
      else j)"

definition fork_bytes :: "json \<Rightarrow> bytes \<times> Node \<Rightarrow> mt_error + bytes" where
  "fork_bytes J f =
     (case f of (pre, n) \<Rightarrow>
      let r = (case n_ref (data n) of None \<Rightarrow> [] | Some r \<Rightarrow> r) in
      if 256 < length r then Inl (RefTooLarge (length r))
      else
        let b = nodeType (data n) # word_of_nat (length pre) # fill nodePrefixMaxSize pre @ r in
        if IsWithMetadataType n then
          (case json_Marshal J (n_metadata (data n)) of
             Inl e \<Rightarrow> Inl (JsonErr e)
           | Inr j \<Rightarrow>
               let m = pad_metadata j in
               if 65535 < length m then Inl ErrMetadataTooLarge
               else Inr (b @ be_bytes 2 (length m) @ m))
        else Inr b)"

primrec forks_bytes :: "json \<Rightarrow> (byte \<rightharpoonup> bytes \<times> Node) \<Rightarrow> bytes \<Rightarrow> mt_error + bytes" where
  "forks_bytes J fs [] = Inr []"
| "forks_bytes J fs (b # bs) =
     (case fs b of
        None \<Rightarrow> Inl MtPanic
      | Some f \<Rightarrow>
         (case fork_bytes J f of
            Inl e \<Rightarrow> Inl e
          | Inr x \<Rightarrow> (case forks_bytes J fs bs of Inl e \<Rightarrow> Inl e | Inr y \<Rightarrow> Inr (x @ y))))"

text \<open>\<open>key\<close> is the obfuscation key the source of randomness would supply.\<close>

definition MarshalBinary :: "json \<Rightarrow> bytes \<Rightarrow> Node \<Rightarrow> (mt_error + bytes) \<times> Node" where
  "MarshalBinary J key n =
     (case forks n of
        None \<Rightarrow> (Inl ErrInvalidInput, n)
      | Some fs \<Rightarrow>
          let n1 = (if obfuscationKey (data n) = [] then upd (\<lambda>d. d\<lparr>obfuscationKey := key\<rparr>) n else n);
              d = data n1;
              header = fill nodeObfuscationKeySize (obfuscationKey d) @ version02HashBytes
                         @ [word_of_nat (refBytesSize d)];
              entryBytes = fill (refBytesSize d) (n_entry d);
              index = fold bb_set (map fst fs) (replicate 32 0) in
          (case forks_bytes J (map_of fs) (bb_members index) of
             Inl e \<Rightarrow> (Inl e, n1)
           | Inr fb \<Rightarrow> (Inr (obfuscate (obfuscationKey d) (header @ entryBytes @ index @ fb)), n1)))"

section \<open>Deserialisation\<close>

definition mk_fork :: "bytes \<Rightarrow> bytes \<Rightarrow> metadata \<Rightarrow> mt_error + bytes \<times> Node" where
  "mk_fork b r m =
     (let prefixLen = unat (b ! 1) in
      if prefixLen = 0 \<or> nodePrefixMaxSize < prefixLen then Inl (InvalidPrefixLength prefixLen)
      else Inr (take prefixLen (drop nodeForkHeaderSize b),
                Node (zero_data\<lparr>n_ref := Some r, nodeType := b ! 0, n_metadata := m\<rparr>) None))"

definition fork_fromBytes :: "bytes \<Rightarrow> mt_error + bytes \<times> Node" where
  "fork_fromBytes b = mk_fork b (drop nodeForkPreReferenceSize b) []"

definition fork_fromBytes02 :: "json \<Rightarrow> bytes \<Rightarrow> nat \<Rightarrow> nat \<Rightarrow> mt_error + bytes \<times> Node" where
  "fork_fromBytes02 J b refSize metadataBytesSize =
     (let r = take refSize (drop nodeForkPreReferenceSize b) in
      if 0 < metadataBytesSize then
        (case mk_fork b r [] of
           Inl e \<Rightarrow> Inl e
         | Inr _ \<Rightarrow>
            (case json_Unmarshal J (drop (nodeForkPreReferenceSize + refSize + nodeForkMetadataBytesSize) b) of
               Inl e \<Rightarrow> Inl (JsonErr e)
             | Inr m \<Rightarrow> mk_fork b r m))
      else mk_fork b r [])"

text \<open>The callbacks of \<open>iter\<close> for the two versions: the fork at an offset, and its size.\<close>

definition read_fork01 :: "bytes \<Rightarrow> nat \<Rightarrow> nat \<Rightarrow> mt_error + (bytes \<times> Node) \<times> nat" where
  "read_fork01 bytes refSize off =
     (let sz = nodeForkPreReferenceSize + refSize in
      if length bytes < off + sz then Inl (NotEnoughBytes (length bytes - off) sz)
      else
       (case fork_fromBytes (take sz (drop off bytes)) of
          Inl e \<Rightarrow> Inl e
        | Inr f \<Rightarrow> Inr (f, sz)))"

definition read_fork02 :: "json \<Rightarrow> bytes \<Rightarrow> nat \<Rightarrow> nat \<Rightarrow> mt_error + (bytes \<times> Node) \<times> nat" where
  "read_fork02 J bytes refSize off =
     (if length bytes < off + 1 then Inl (NotEnoughBytes (length bytes - off) 1)
      else
        let sz = nodeForkPreReferenceSize + refSize in
        if nodeTypeIsWithMetadataType (bytes ! off) then
          if length bytes < off + sz + nodeForkMetadataBytesSize
          then Inl (NotEnoughBytes (length bytes - off) (sz + nodeForkMetadataBytesSize))
          else
            let msize = be_val (take nodeForkMetadataBytesSize (drop (off + sz) bytes));
                total = sz + nodeForkMetadataBytesSize + msize in
            if length bytes < off + total then Inl MtPanic
            else
             (case fork_fromBytes02 J (take total (drop off bytes)) refSize msize of
                Inl e \<Rightarrow> Inl e
              | Inr f \<Rightarrow> Inr (f, total))
        else read_fork01 bytes refSize off)"

primrec read_forks :: "(nat \<Rightarrow> mt_error + (bytes \<times> Node) \<times> nat) \<Rightarrow> bytes \<Rightarrow> nat \<Rightarrow> (byte \<times> bytes \<times> Node) list
    \<Rightarrow> mt_error option \<times> (byte \<times> bytes \<times> Node) list" where
  "read_forks rd [] off fs = (None, fs)"
| "read_forks rd (b # bs) off fs =
     (case rd off of
        Inl e \<Rightarrow> (Some e, fs)
      | Inr (f, sz) \<Rightarrow> read_forks rd bs (off + sz) (AList.update b f fs))"

definition UnmarshalBinary :: "json \<Rightarrow> bytes \<Rightarrow> Node \<Rightarrow> mt_error option \<times> Node" where
  "UnmarshalBinary J data0 n =
     (if length data0 < nodeHeaderSize then (Some ErrTooShort, n)
      else
        let key = take nodeObfuscationKeySize data0;
            n1 = upd (\<lambda>d. d\<lparr>obfuscationKey := key\<rparr>) n;
            bytes = obfuscate key data0;
            versionHash = take versionHashSize (drop nodeObfuscationKeySize bytes);
            refSize = unat (bytes ! (nodeHeaderSize - 1));
            off = nodeHeaderSize + refSize in
        if versionHash = version01HashBytes then
          if length bytes < off then (Some MtPanic, n1)
          else
            let n2 = upd (\<lambda>d. d\<lparr>n_entry := take refSize (drop nodeHeaderSize bytes)\<rparr>) n1;
                index = fill 32 (drop off bytes) in
            (case read_forks (read_fork01 bytes refSize) (bb_members index) (off + 32) [] of
               (r, fs) \<Rightarrow> (r, Node (data n2) (Some fs)))
        else if versionHash = version02HashBytes then
          if length bytes < off then (Some MtPanic, n1)
          else
            let n2 = upd (\<lambda>d. d\<lparr>n_entry := take refSize (drop nodeHeaderSize bytes)\<rparr>) n1 in
            if length bytes < off + 32 then (Some MtPanic, n2)
            else
              let index = take 32 (drop off bytes);
                  n3 = (if index \<noteq> replicate 32 0 \<and> \<not> IsEdgeType n2 then makeEdge n2 else n2) in
              (case read_forks (read_fork02 J bytes refSize) (bb_members index) (off + 32) [] of
                 (r, fs) \<Rightarrow> (r, Node (data n3) (Some fs)))
        else (Some ErrInvalidVersionHash, n1))"

section \<open>Loading\<close>

type_synonym Loader = "(bytes \<Rightarrow> string + bytes) option"

definition load :: "json \<Rightarrow> Loader \<Rightarrow> Node \<Rightarrow> mt_error option \<times> Node" where
  "load J l n =
     (case n_ref (data n) of
        None \<Rightarrow> (None, n)
      | Some r \<Rightarrow>
         (case l of
            None \<Rightarrow> (Some ErrNoLoader, n)
          | Some ld \<Rightarrow>
             (case ld r of
                Inl e \<Rightarrow> (Some (LoadErr e), n)
              | Inr b \<Rightarrow> UnmarshalBinary J b n)))"

definition ensure_loaded :: "json \<Rightarrow> Loader \<Rightarrow> Node \<Rightarrow> mt_error option \<times> Node" where
  "ensure_loaded J l n = (if forks n = None then load J l n else (None, n))"

text \<open>Reading and writing the map of forks; a nil map reads as empty.\<close>

definition fork_at :: "Node \<Rightarrow> byte \<Rightarrow> (bytes \<times> Node) option" where
  "fork_at n b = (case forks n of None \<Rightarrow> None | Some fs \<Rightarrow> map_of fs b)"

definition set_fork :: "byte \<Rightarrow> bytes \<times> Node \<Rightarrow> Node \<Rightarrow> Node" where
  "set_fork b f n = Node (data n) (map_option (AList.update b f) (forks n))"

text \<open>Nodes in memory, and the loaded prefixes: what the termination of the descent rests on.\<close>

fun nodes :: "Node \<Rightarrow> nat" where
  "nodes (Node d None) = 1"
| "nodes (Node d (Some fs)) = 1 + sum_list (map (\<lambda>(b, p, c). nodes c) fs)"

lemma nodes_fork_at: "fork_at n b = Some (p, c) \<Longrightarrow> nodes c < nodes n"
proof (cases n)
  case (Node d fo)
  assume "fork_at n b = Some (p, c)"
  then obtain fs where fs: "fo = Some fs" "(b, p, c) \<in> set fs"
    by (auto simp: Node fork_at_def split: option.splits dest: map_of_SomeD)
  then have "nodes c \<le> sum_list (map (\<lambda>(b, p, c). nodes c) fs)" by (intro member_le_sum_list) (force, simp)
  then show ?thesis by (simp add: Node fs)
qed

definition prefixes_ok :: "(byte \<times> bytes \<times> Node) list \<Rightarrow> bool" where
  "prefixes_ok fs \<longleftrightarrow> (\<forall>(b, p, c) \<in> set fs. p \<noteq> [] \<and> length p \<le> nodePrefixMaxSize)"

lemma prefixes_ok_update:
  "prefixes_ok fs \<Longrightarrow> p \<noteq> [] \<and> length p \<le> nodePrefixMaxSize \<Longrightarrow> prefixes_ok (AList.update b (p, c) fs)"
  by (induction fs) (auto simp: prefixes_ok_def)

lemma mk_fork_prefix:
  "mk_fork b r m = Inr (p, c) \<Longrightarrow> nodeForkPreReferenceSize \<le> length b \<Longrightarrow> p \<noteq> [] \<and> length p \<le> nodePrefixMaxSize"
  by (auto simp: mk_fork_def Let_def nodeForkPreReferenceSize_def nodeForkHeaderSize_def split: if_splits)

lemma fork_fromBytes02_prefix:
  "fork_fromBytes02 J b k m = Inr (p, c) \<Longrightarrow> nodeForkPreReferenceSize \<le> length b \<Longrightarrow> p \<noteq> [] \<and> length p \<le> nodePrefixMaxSize"
  by (auto simp: fork_fromBytes02_def Let_def dest: mk_fork_prefix split: if_splits sum.splits)

lemma read_fork01_prefix:
  "read_fork01 bytes k off = Inr ((p, c), sz) \<Longrightarrow> p \<noteq> [] \<and> length p \<le> nodePrefixMaxSize"
  by (rule mk_fork_prefix [of "take (nodeForkPreReferenceSize + k) (drop off bytes)"])
    (auto simp: read_fork01_def fork_fromBytes_def Let_def split: if_splits sum.splits)

lemma read_fork02_prefix:
  assumes "read_fork02 J bytes k off = Inr ((p, c), sz)"
  shows "p \<noteq> [] \<and> length p \<le> nodePrefixMaxSize"
proof (cases "nodeTypeIsWithMetadataType (bytes ! off)")
  case True
  then obtain total m where "fork_fromBytes02 J (take total (drop off bytes)) k m = Inr (p, c)"
    "off + total \<le> length bytes" "nodeForkPreReferenceSize \<le> total"
    using assms by (auto simp: read_fork02_def Let_def split: if_splits sum.splits)
  then show ?thesis by (intro fork_fromBytes02_prefix [of J _ k m p c]) auto
qed (use assms in \<open>auto simp: read_fork02_def dest: read_fork01_prefix split: if_splits\<close>)

lemma read_forks_prefixes:
  assumes "\<And>off p c sz. rd off = Inr ((p, c), sz) \<Longrightarrow> p \<noteq> [] \<and> length p \<le> nodePrefixMaxSize"
  shows "read_forks rd bs off fs = (r, fs') \<Longrightarrow> prefixes_ok fs \<Longrightarrow> prefixes_ok fs'"
proof (induction bs arbitrary: off fs)
  case Nil
  then show ?case by simp
next
  case (Cons b bs)
  show ?case
  proof (cases "rd off")
    case (Inr x)
    obtain p c sz where x: "x = ((p, c), sz)" by (metis prod.exhaust)
    have "prefixes_ok (AList.update b (p, c) fs)" using assms Inr x Cons.prems(2) by (intro prefixes_ok_update) auto
    with Cons.IH Cons.prems(1) Inr x show ?thesis by simp
  qed (use Cons.prems in simp)
qed

lemma read_forks_Nil_prefixes:
  "read_forks (read_fork01 bytes k) bs off [] = (r, fs) \<Longrightarrow> prefixes_ok fs"
  "read_forks (read_fork02 J bytes k) bs off [] = (r, fs) \<Longrightarrow> prefixes_ok fs"
  using read_forks_prefixes [of "read_fork01 bytes k" bs off "[]" r fs]
    read_forks_prefixes [of "read_fork02 J bytes k" bs off "[]" r fs]
    read_fork01_prefix read_fork02_prefix by (auto simp: prefixes_ok_def)

lemma UnmarshalBinary_prefixes:
  "UnmarshalBinary J b n = (r, n') \<Longrightarrow> forks n = None \<Longrightarrow> forks n' = Some fs \<Longrightarrow> prefixes_ok fs"
  by (auto simp: UnmarshalBinary_def Let_def upd_def makeEdge_def split: if_splits prod.splits
      intro: read_forks_Nil_prefixes)

lemma ensure_loaded_prefix:
  assumes "ensure_loaded J l n = (None, n1)" and "fork_at n1 b = Some (p, c)" and "forks n = None"
  shows "p \<noteq> []"
proof -
  obtain fs where fs: "forks n1 = Some fs" "map_of fs b = Some (p, c)"
    using assms by (auto simp: fork_at_def split: option.splits)
  with assms obtain d where "UnmarshalBinary J d n = (None, n1)"
    by (auto simp: ensure_loaded_def load_def split: option.splits sum.splits)
  from UnmarshalBinary_prefixes [OF this assms(3) fs(1)] map_of_SomeD [OF fs(2)] show ?thesis
    by (auto simp: prefixes_ok_def)
qed

section \<open>Lookup\<close>

fun common :: "bytes \<Rightarrow> bytes \<Rightarrow> bytes" where
  "common (a # as) (b # bs) = (if a = b then a # common as bs else [])"
| "common _ _ = []"

lemma common_prefix1: "prefix (common a b) a"
  by (induction a b rule: common.induct) auto

lemma common_prefix2: "prefix (common a b) b"
  by (induction a b rule: common.induct) auto

lemma length_common: "length (common a b) \<le> length a" "length (common a b) \<le> length b"
  using common_prefix1 common_prefix2 prefix_length_le by blast+

function LookupNode :: "json \<Rightarrow> Loader \<Rightarrow> Node \<Rightarrow> bytes \<Rightarrow> (mt_error + Node) \<times> Node" where
  "LookupNode J l n path =
     (case ensure_loaded J l n of
        (Some e, n1) \<Rightarrow> (Inl e, n1)
      | (None, n1) \<Rightarrow>
          if path = [] then (Inr n1, n1)
          else
           (case fork_at n1 (hd path) of
              None \<Rightarrow> (Inl ErrNotFound, n1)
            | Some (pre, c) \<Rightarrow>
                if length (common pre path) = length pre then
                  (case LookupNode J l c (drop (length pre) path) of
                     (r, c') \<Rightarrow> (r, set_fork (hd path) (pre, c') n1))
                else (Inl ErrNotFound, n1)))"
  by pat_completeness auto

lemma descent:
  assumes "ensure_loaded J l n = (None, n1)" and "fork_at n1 b = Some (pre, c)" and "path \<noteq> []"
  shows "((c, drop (length pre) path), (n, path)) \<in> measures [\<lambda>(n, path). length path, \<lambda>(n, path). nodes n]"
proof (cases "pre = []")
  case True
  then have "n1 = n" using ensure_loaded_prefix [OF assms(1,2)] assms(1) by (auto simp: ensure_loaded_def split: if_splits)
  with True nodes_fork_at [OF assms(2)] show ?thesis by simp
qed (use assms(3) in auto)

termination LookupNode
proof (relation "inv_image (measures [\<lambda>(n, path). length path, \<lambda>(n, path). nodes n]) (\<lambda>(J, l, n, path). (n, path))")
qed (auto intro!: descent [OF sym] simp del: in_measures)

declare LookupNode.simps [simp del]

definition Lookup :: "json \<Rightarrow> Loader \<Rightarrow> Node \<Rightarrow> bytes \<Rightarrow> (mt_error + bytes) \<times> Node" where
  "Lookup J l n path =
     (case LookupNode J l n path of
        (Inl e, n') \<Rightarrow> (Inl e, n')
      | (Inr node, n') \<Rightarrow>
          if \<not> IsValueType node \<and> path \<noteq> [] then (Inl ErrNotFound, n')
          else (Inr (n_entry (data node)), n'))"

function HasPrefix :: "json \<Rightarrow> Loader \<Rightarrow> Node \<Rightarrow> bytes \<Rightarrow> (mt_error + bool) \<times> Node" where
  "HasPrefix J l n path =
     (case ensure_loaded J l n of
        (Some e, n1) \<Rightarrow> (Inl e, n1)
      | (None, n1) \<Rightarrow>
          if path = [] then (Inr True, n1)
          else
           (case fork_at n1 (hd path) of
              None \<Rightarrow> (Inr False, n1)
            | Some (pre, c) \<Rightarrow>
                if length (common pre path) = length pre then
                  (case HasPrefix J l c (drop (length pre) path) of
                     (r, c') \<Rightarrow> (r, set_fork (hd path) (pre, c') n1))
                else (Inr (prefix path pre), n1)))"
  by pat_completeness auto
termination
proof (relation "inv_image (measures [\<lambda>(n, path). length path, \<lambda>(n, path). nodes n]) (\<lambda>(J, l, n, path). (n, path))")
qed (auto intro!: descent [OF sym] simp del: in_measures)

declare HasPrefix.simps [simp del]

section \<open>Remove\<close>

function Remove :: "json \<Rightarrow> Loader \<Rightarrow> Node \<Rightarrow> bytes \<Rightarrow> mt_error option \<times> Node" where
  "Remove J l n path =
     (if path = [] then (Some ErrEmptyPath, n)
      else
       (case ensure_loaded J l n of
          (Some e, n1) \<Rightarrow> (Some e, n1)
        | (None, n1) \<Rightarrow>
           (case fork_at n1 (hd path) of
              None \<Rightarrow> (Some ErrNotFound, n1)
            | Some (pre, c) \<Rightarrow>
                if \<not> prefix pre path then (Some ErrNotFound, n1)
                else if drop (length pre) path = []
                then (None, Node (data n1) (map_option (AList.delete (hd path)) (forks n1)))
                else
                 (case Remove J l c (drop (length pre) path) of
                    (r, c') \<Rightarrow> (r, set_fork (hd path) (pre, c') n1)))))"
  by pat_completeness auto
termination
proof (relation "inv_image (measures [\<lambda>(n, path). length path, \<lambda>(n, path). nodes n]) (\<lambda>(J, l, n, path). (n, path))")
qed (auto intro!: descent [OF sym] simp del: in_measures)

declare Remove.simps [simp del]

section \<open>Add\<close>

definition check_entry :: "bytes \<Rightarrow> Node \<Rightarrow> mt_error + Node" where
  "check_entry entry n =
     (if refBytesSize (data n) = 0 then
        if 256 < length entry then Inl (EntryTooLarge (length entry))
        else Inr (if entry \<noteq> [] then upd (\<lambda>d. d\<lparr>refBytesSize := length entry\<rparr>) n else n)
      else if entry \<noteq> [] \<and> refBytesSize (data n) \<noteq> length entry
      then Inl (InvalidEntrySize (length entry) (refBytesSize (data n)))
      else Inr n)"

definition set_value :: "bytes \<Rightarrow> metadata \<Rightarrow> Node \<Rightarrow> Node" where
  "set_value entry metadata n =
     (let n1 = makeValue (upd (\<lambda>d. d\<lparr>n_entry := entry\<rparr>) n) in
      if metadata \<noteq> [] then makeWithMetadata (upd (\<lambda>d. d\<lparr>n_metadata := metadata\<rparr>) n1) else n1)"

text \<open>A new node below \<open>n\<close>.\<close>

definition child_of :: "Node \<Rightarrow> Node" where
  "child_of n =
     upd (\<lambda>d. d\<lparr>refBytesSize := refBytesSize (data n)\<rparr>)
       (if obfuscationKey (data n) \<noteq> [] then SetObfuscationKey (obfuscationKey (data n)) New else New)"

text \<open>\<open>n.forks[b] = f\<close> and \<open>makeEdge\<close>; an assignment to a nil map panics.\<close>

definition put_fork :: "byte \<Rightarrow> bytes \<times> Node \<Rightarrow> Node \<Rightarrow> mt_error option \<times> Node" where
  "put_fork b f n = (if forks n = None then (Some MtPanic, n) else (None, makeEdge (set_fork b f n)))"

text \<open>The node that replaces a fork whose prefix \<open>com @ rest\<close> is left at \<open>rest\<close>.\<close>

definition split_node :: "Node \<Rightarrow> bytes \<Rightarrow> Node \<Rightarrow> bool \<Rightarrow> Node" where
  "split_node n rest c whole =
     (let nn = makeEdge (set_fork (hd rest) (rest, c) (child_of n)) in
      if whole then makeValue nn else nn)"

function (sequential) Add ::
  "json \<Rightarrow> Loader \<Rightarrow> bytes \<Rightarrow> bytes \<Rightarrow> metadata \<Rightarrow> Node \<Rightarrow> mt_error option \<times> Node" where
  "Add J l path entry metadata n0 =
     (case check_entry entry n0 of
        Inl e \<Rightarrow> (Some e, n0)
      | Inr n \<Rightarrow>
          if path = [] then (None, upd (\<lambda>d. d\<lparr>n_ref := None\<rparr>) (set_value entry metadata n))
          else
           (case ensure_loaded J l n of
              (Some e, n1) \<Rightarrow> (Some e, n1)
            | (None, n1') \<Rightarrow>
                let n1 = (if forks n = None then upd (\<lambda>d. d\<lparr>n_ref := None\<rparr>) n1' else n1') in
               (case fork_at n1' (hd path) of
                  None \<Rightarrow>
                    if nodePrefixMaxSize < length path then
                      let pre = take nodePrefixMaxSize path in
                      (case Add J l (drop nodePrefixMaxSize path) entry metadata (child_of n1) of
                         (Some e, _) \<Rightarrow> (Some e, n1)
                       | (None, nn) \<Rightarrow> put_fork (hd path) (pre, updateIsWithPathSeparator pre nn) n1)
                    else
                      put_fork (hd path)
                        (path, updateIsWithPathSeparator path (set_value entry metadata (child_of n1))) n1
                | Some (pre, c) \<Rightarrow>
                    let com = common pre path;
                        rest = drop (length com) pre;
                        c1 = (if rest \<noteq> [] then updateIsWithPathSeparator rest c else c);
                        nn = (if rest \<noteq> [] then split_node n1 rest c1 (length path = length com) else c1) in
                    (case Add J l (drop (length com) path) entry metadata (updateIsWithPathSeparator path nn) of
                       (Some e, nn') \<Rightarrow>
                         (Some e, set_fork (hd path) (pre, if rest \<noteq> [] then c1 else nn') n1)
                     | (None, nn') \<Rightarrow> put_fork (hd path) (com, nn') n1))))"
  by pat_completeness auto

text \<open>Either the path gets shorter, or the node in memory smaller, or the next step finds no fork.\<close>

definition add_rank :: "Node \<Rightarrow> bytes \<Rightarrow> nat" where
  "add_rank n path = (if forks n \<noteq> None \<and> path \<noteq> [] \<and> fork_at n (hd path) = None then 0 else Suc (nodes n))"

lemma upd_simps [simp]:
  "data (upd f n) = f (data n)" "forks (upd f n) = forks n" "nodes (upd f n) = nodes n"
  "fork_at (upd f n) b = fork_at n b"
  by (cases n; cases "forks n"; simp add: upd_def fork_at_def)+

lemma make_simps [simp]:
  "forks (makeValue n) = forks n" "forks (makeEdge n) = forks n" "forks (makeWithMetadata n) = forks n"
  "forks (makeWithPathSeparator n) = forks n" "forks (makeNotWithPathSeparator n) = forks n"
  "forks (updateIsWithPathSeparator p n) = forks n" "forks (set_value e m n) = forks n"
  by (simp_all add: makeValue_def makeEdge_def makeWithMetadata_def makeWithPathSeparator_def
      makeNotWithPathSeparator_def updateIsWithPathSeparator_def set_value_def Let_def)

lemma nodes_forks: "forks m = forks n \<Longrightarrow> nodes m = nodes n \<and> fork_at m b = fork_at n b"
  by (cases m; cases n; cases "forks n"; simp add: fork_at_def)

lemma check_entry_forks [simp]: "check_entry e n = Inr n' \<Longrightarrow> forks n' = forks n"
  by (auto simp: check_entry_def split: if_splits)

lemma forks_child_of [simp]: "forks (child_of n) = Some []"
  by (simp add: child_of_def SetObfuscationKey_def New_def)

lemma forks_split_node [simp]: "forks (split_node n rest c whole) = Some [(hd rest, rest, c)]"
  by (simp add: split_node_def Let_def set_fork_def)

lemma common_next:
  "rest = drop (length (common pre path)) pre \<Longrightarrow> rest \<noteq> [] \<Longrightarrow> drop (length (common pre path)) path \<noteq> [] \<Longrightarrow>
   hd rest \<noteq> hd (drop (length (common pre path)) path)"
  by (induction pre path arbitrary: rest rule: common.induct) auto

lemma add_descent:
  assumes "ensure_loaded J l n = (None, n1)" and "fork_at n1 (hd path) = Some (pre, c)" and "path \<noteq> []"
    and rest: "rest = drop (length (common pre path)) pre"
    and nn: "forks nn = (if rest \<noteq> [] then Some [(hd rest, rest, c1)] else forks c)" and n0: "forks n0 = forks n"
  shows "((nn, drop (length (common pre path)) path), (n0, path))
    \<in> measures [\<lambda>(n, path). length path, \<lambda>(n, path). add_rank n path]"
proof (cases "common pre path = []")
  case False
  then show ?thesis using assms(3) by auto
next
  case True
  show ?thesis
  proof (cases "rest = []")
    case False
    have "hd rest \<noteq> hd path" using common_next [OF rest False] True assms(3) by simp
    then have "add_rank nn path = 0" using nn False assms(3) by (auto simp: add_rank_def fork_at_def)
    moreover have "0 < add_rank n0 path"
    proof (cases "forks n")
      case (Some fs)
      then have "n1 = n" using assms(1) by (simp add: ensure_loaded_def)
      with assms(2) n0 Some show ?thesis by (auto simp: add_rank_def fork_at_def)
    qed (simp add: add_rank_def n0)
    ultimately show ?thesis using True by simp
  next
    case pre: True
    then have "pre = []" using rest True by simp
    then have "n1 = n" using ensure_loaded_prefix [OF assms(1,2)] assms(1)
      by (auto simp: ensure_loaded_def split: if_splits)
    then have "nodes c < nodes n" "forks n \<noteq> None" "fork_at n (hd path) \<noteq> None"
      using nodes_fork_at [OF assms(2)] assms(2) by (auto simp: fork_at_def split: option.splits)
    moreover have "add_rank nn path \<le> Suc (nodes c)" using nn pre nodes_forks [of nn c] by (simp add: add_rank_def)
    moreover have "add_rank n0 path = Suc (nodes n)"
      using calculation nodes_forks [OF n0, of "hd path"] by (simp add: add_rank_def)
    ultimately show ?thesis using True by simp
  qed
qed

termination Add
proof (relation "inv_image (measures [\<lambda>(n, path). length path, \<lambda>(n, path). add_rank n path])
    (\<lambda>(J, l, path, entry, metadata, n). (n, path))", goal_cases)
  case 1
  then show ?case by simp
next
  case (2 J l path entry metadata n0 n r n1' n1 pre)
  then show ?case by (auto simp: nodePrefixMaxSize_def)
next
  case (3 J l path entry metadata n0 n r n1' n1 f pre c com rest c1 nn)
  then show ?case by (auto intro!: add_descent [OF sym] simp del: in_measures split: if_splits)
qed

declare Add.simps [simp del]

section \<open>Save\<close>

text \<open>The saver and the source of random keys act on a state \<open>'w\<close>.\<close>

record 'w Saver =
  sv_Save :: "bytes \<Rightarrow> 'w \<Rightarrow> string + bytes \<times> 'w"
  sv_rand :: "'w \<Rightarrow> bytes \<times> 'w"

text \<open>Writing a node whose children are saved.\<close>

definition save_node :: "json \<Rightarrow> 'w Saver \<Rightarrow> Node \<Rightarrow> 'w \<Rightarrow> mt_error option \<times> Node \<times> 'w" where
  "save_node J S n w =
     (case (if forks n \<noteq> None \<and> obfuscationKey (data n) = [] then sv_rand S w else ([], w)) of
        (key, w1) \<Rightarrow>
         (case MarshalBinary J key n of
            (Inl e, n1) \<Rightarrow> (Some e, n1, w1)
          | (Inr bytes, n1) \<Rightarrow>
             (case sv_Save S bytes w1 of
                Inl e \<Rightarrow> (Some (SaveErr e), n1, w1)
              | Inr (r, w2) \<Rightarrow> (None, Node ((data n1)\<lparr>n_ref := Some r\<rparr>) None, w2))))"

fun save :: "json \<Rightarrow> 'w Saver \<Rightarrow> Node \<Rightarrow> 'w \<Rightarrow> mt_error option \<times> Node \<times> 'w"
  and save_forks :: "json \<Rightarrow> 'w Saver \<Rightarrow> (byte \<times> bytes \<times> Node) list \<Rightarrow> 'w
    \<Rightarrow> mt_error option \<times> (byte \<times> bytes \<times> Node) list \<times> 'w" where
  "save J S (Node d fo) w =
     (if n_ref d \<noteq> None then (None, Node d fo, w)
      else
       (case fo of
          None \<Rightarrow> save_node J S (Node d None) w
        | Some fs \<Rightarrow>
           (case save_forks J S fs w of
              (Some e, fs', w1) \<Rightarrow> (Some e, Node d (Some fs'), w1)
            | (None, fs', w1) \<Rightarrow> save_node J S (Node d (Some fs')) w1)))"
| "save_forks J S [] w = (None, [], w)"
| "save_forks J S ((b, p, c) # fs) w =
     (case save J S c w of
        (Some e, c', w1) \<Rightarrow> (Some e, (b, p, c') # fs, w1)
      | (None, c', w1) \<Rightarrow>
         (case save_forks J S fs w1 of (r, fs', w2) \<Rightarrow> (r, (b, p, c') # fs', w2)))"

definition Save :: "json \<Rightarrow> 'w Saver option \<Rightarrow> Node \<Rightarrow> 'w \<Rightarrow> mt_error option \<times> Node \<times> 'w" where
  "Save J So n w = (case So of None \<Rightarrow> (Some ErrNoSaver, n, w) | Some S \<Rightarrow> save J S n w)"

section \<open>The manifest\<close>

text \<open>\<open>pkg/manifest/mantaray.go\<close>: a trie and the load-saver of the manifest. \<open>ErrNotFound\<close> of the trie
  becomes the one of the manifest.\<close>

record 'w LoadSaver = "'w Saver" +
  sv_Load :: "'w \<Rightarrow> bytes \<Rightarrow> string + bytes"

definition loader :: "'w LoadSaver \<Rightarrow> 'w \<Rightarrow> Loader" where
  "loader L w = Some (sv_Load L w)"

definition saver :: "'w LoadSaver \<Rightarrow> 'w Saver" where
  "saver L = \<lparr>sv_Save = sv_Save L, sv_rand = sv_rand L\<rparr>"

definition NewMantarayManifest :: "bool \<Rightarrow> Node" where
  "NewMantarayManifest encrypted = (if encrypted then New else SetObfuscationKey (replicate 32 0) New)"

definition NewMantarayManifestReference :: "bytes \<Rightarrow> Node" where
  "NewMantarayManifestReference reference = NewNodeRef reference"

definition mm_Add :: "json \<Rightarrow> 'w LoadSaver \<Rightarrow> 'w \<Rightarrow> bytes \<Rightarrow> bytes \<Rightarrow> metadata \<Rightarrow> Node \<Rightarrow> mt_error option \<times> Node" where
  "mm_Add J L w path reference metadata n = Add J (loader L w) path reference metadata n"

definition mm_Remove :: "json \<Rightarrow> 'w LoadSaver \<Rightarrow> 'w \<Rightarrow> bytes \<Rightarrow> Node \<Rightarrow> mt_error option \<times> Node" where
  "mm_Remove J L w path n = Remove J (loader L w) n path"

definition mm_Lookup :: "json \<Rightarrow> 'w LoadSaver \<Rightarrow> 'w \<Rightarrow> bytes \<Rightarrow> Node \<Rightarrow> (mt_error + bytes \<times> metadata) \<times> Node" where
  "mm_Lookup J L w path n =
     (case LookupNode J (loader L w) n path of
        (Inl e, n') \<Rightarrow> (Inl e, n')
      | (Inr node, n') \<Rightarrow>
          if \<not> IsValueType node then (Inl ErrNotFound, n')
          else (Inr (n_entry (data node), n_metadata (data node)), n'))"

definition mm_HasPrefix :: "json \<Rightarrow> 'w LoadSaver \<Rightarrow> 'w \<Rightarrow> bytes \<Rightarrow> Node \<Rightarrow> (mt_error + bool) \<times> Node" where
  "mm_HasPrefix J L w path n = HasPrefix J (loader L w) n path"

text \<open>\<open>mantarayLoadSaver.Save\<close>: every size function may refuse.\<close>

fun size_checks :: "(int \<Rightarrow> string option) list \<Rightarrow> int \<Rightarrow> string option" where
  "size_checks [] n = None"
| "size_checks (f # fs) n = (case f n of Some e \<Rightarrow> Some e | None \<Rightarrow> size_checks fs n)"

definition sized_saver :: "(int \<Rightarrow> string option) list \<Rightarrow> 'w Saver \<Rightarrow> 'w Saver" where
  "sized_saver fs S =
     S\<lparr>sv_Save := \<lambda>bytes w. case size_checks fs (int (length bytes)) of
                    Some e \<Rightarrow> Inl e | None \<Rightarrow> sv_Save S bytes w\<rparr>"

definition mm_Store ::
  "json \<Rightarrow> 'w LoadSaver \<Rightarrow> (int \<Rightarrow> string option) list \<Rightarrow> Node \<Rightarrow> 'w \<Rightarrow> (mt_error + bytes) \<times> Node \<times> 'w" where
  "mm_Store J L storeSizeFn n w =
     (case Save J (Some (if storeSizeFn \<noteq> [] then sized_saver storeSizeFn (saver L) else saver L)) n w of
        (Some e, n', w') \<Rightarrow> (Inl e, n', w')
      | (None, n', w') \<Rightarrow> (Inr (case n_ref (data n') of None \<Rightarrow> [] | Some r \<Rightarrow> r), n', w'))"

end
