(* ===== verification/MantarayTrie.thy ===== *)
theory MantarayTrie
  imports Mantaray
begin

text \<open>
  The trie in memory. A manifest that is being built has all its nodes loaded; on such a trie the
  operations of \<open>Mantaray\<close> implement a finite map from paths to entries: \<open>value_at\<close> is the map, \<open>wf_node\<close>
  the invariant, and the lemmas give the map after \<open>Add\<close> and \<open>Remove\<close> and the meaning of \<open>HasPrefix\<close>.
\<close>

section \<open>The invariant\<close>

fun wf_node :: "Node \<Rightarrow> bool" where
  "wf_node (Node d None) = False"
| "wf_node (Node d (Some fs)) = (distinct (map fst fs) \<and>
     (\<forall>(b, p, c) \<in> set fs. p \<noteq> [] \<and> hd p = b \<and> length p \<le> nodePrefixMaxSize \<and> wf_node c))"

text \<open>The sizes of the entries below a node are \<open>k\<close> or not fixed yet.\<close>

fun sizes_ok :: "nat \<Rightarrow> Node \<Rightarrow> bool" where
  "sizes_ok k (Node d fo) = (refBytesSize d \<in> {0, k} \<and>
     (case fo of None \<Rightarrow> True | Some fs \<Rightarrow> \<forall>(b, p, c) \<in> set fs. sizes_ok k c))"

lemma wf_node_forks: "wf_node n \<Longrightarrow> \<exists>fs. forks n = Some fs"
  by (cases n rule: wf_node.cases) auto

lemma wf_node_fork_at:
  "wf_node n \<Longrightarrow> fork_at n b = Some (p, c) \<Longrightarrow> p \<noteq> [] \<and> hd p = b \<and> length p \<le> nodePrefixMaxSize \<and> wf_node c"
  by (cases n rule: wf_node.cases) (fastforce simp: fork_at_def dest: map_of_SomeD)+

lemma sizes_ok_fork_at: "sizes_ok k n \<Longrightarrow> fork_at n b = Some (p, c) \<Longrightarrow> sizes_ok k c"
  by (cases n) (fastforce simp: fork_at_def split: option.splits dest: map_of_SomeD)

lemma wf_node_same_forks: "forks m = forks n \<Longrightarrow> wf_node m = wf_node n"
  by (cases m; cases n; cases "forks n") auto

lemma sizes_ok_data: "sizes_ok k n \<Longrightarrow> refBytesSize (data n) \<in> {0, k}"
  by (cases n) simp

lemma sizes_ok_same_forks:
  "forks m = forks n \<Longrightarrow> refBytesSize (data m) \<in> {0, k} \<Longrightarrow> sizes_ok k n \<Longrightarrow> sizes_ok k m"
  by (cases m; cases n) auto

lemma refBytesSize_simps [simp]:
  "refBytesSize (data (makeValue n)) = refBytesSize (data n)"
  "refBytesSize (data (makeEdge n)) = refBytesSize (data n)"
  "refBytesSize (data (updateIsWithPathSeparator p n)) = refBytesSize (data n)"
  "refBytesSize (data (set_value e m n)) = refBytesSize (data n)"
  "refBytesSize (data (child_of n)) = refBytesSize (data n)"
  "refBytesSize (data (set_fork b f n)) = refBytesSize (data n)"
  "refBytesSize (data (split_node n r c w)) = refBytesSize (data n)"
  by (simp_all add: makeValue_def makeEdge_def makeWithMetadata_def makeWithPathSeparator_def child_of_def
      makeNotWithPathSeparator_def updateIsWithPathSeparator_def set_value_def set_fork_def split_node_def Let_def)

lemma distinct_update: "distinct (map fst fs) \<Longrightarrow> distinct (map fst (AList.update b f fs))"
  by (simp add: distinct_update)

lemma set_update_cases: "distinct (map fst fs) \<Longrightarrow> x \<in> set (AList.update b f fs) \<longleftrightarrow> x = (b, f) \<or> fst x \<noteq> b \<and> x \<in> set fs"
  by (induction fs) (auto simp: image_iff)

lemma wf_put_fork:
  assumes "wf_node n" and "p \<noteq> []" and "length p \<le> nodePrefixMaxSize" and "wf_node c" and "b = hd p"
  shows "put_fork b (p, c) n = (None, makeEdge (set_fork b (p, c) n)) \<and> wf_node (makeEdge (set_fork b (p, c) n))"
proof -
  obtain d fs where n: "n = Node d (Some fs)" using assms(1) by (cases n rule: wf_node.cases) auto
  have "wf_node (set_fork b (p, c) n)"
    using assms by (auto simp: n set_fork_def distinct_update set_update_cases)
  then show ?thesis using wf_node_same_forks [of "makeEdge (set_fork b (p, c) n)"]
    by (simp add: put_fork_def n)
qed

lemma sizes_put_fork:
  assumes "sizes_ok k n" and "sizes_ok k c" and "wf_node n"
  shows "sizes_ok k (makeEdge (set_fork b (p, c) n))"
proof -
  obtain d fs where n: "n = Node d (Some fs)" "distinct (map fst fs)"
    using assms(3) by (cases n rule: wf_node.cases) auto
  have "sizes_ok k (set_fork b (p, c) n)" using assms n(2) by (auto simp: n(1) set_fork_def set_update_cases)
  then show ?thesis by (rule sizes_ok_same_forks [rotated 2]) (use assms(1) sizes_ok_data in auto)
qed

section \<open>The map\<close>

function find_node :: "Node \<Rightarrow> bytes \<Rightarrow> Node option" where
  "find_node n path =
     (if path = [] then Some n
      else
       (case fork_at n (hd path) of
          None \<Rightarrow> None
        | Some (pre, c) \<Rightarrow> if prefix pre path then find_node c (drop (length pre) path) else None))"
  by pat_completeness auto
termination
  by (relation "measure (\<lambda>(n, path). nodes n)") (auto dest: nodes_fork_at)

declare find_node.simps [simp del]

definition node_value :: "Node \<Rightarrow> (bytes \<times> metadata) option" where
  "node_value n = (if IsValueType n then Some (n_entry (data n), n_metadata (data n)) else None)"

definition value_at :: "Node \<Rightarrow> bytes \<Rightarrow> (bytes \<times> metadata) option" where
  "value_at n path = Option.bind (find_node n path) node_value"

definition meta_at :: "Node \<Rightarrow> bytes \<Rightarrow> metadata" where
  "meta_at n path = (case find_node n path of None \<Rightarrow> [] | Some m \<Rightarrow> n_metadata (data m))"

lemma find_node_Nil [simp]: "find_node n [] = Some n"
  by (simp add: find_node.simps)

lemma find_node_Cons:
  "path \<noteq> [] \<Longrightarrow> find_node n path = (case fork_at n (hd path) of None \<Rightarrow> None
     | Some (pre, c) \<Rightarrow> if prefix pre path then find_node c (drop (length pre) path) else None)"
  by (simp add: find_node.simps)

lemma find_node_same_forks: "forks m = forks n \<Longrightarrow> path \<noteq> [] \<Longrightarrow> find_node m path = find_node n path"
  using nodes_forks [of m n "hd path"] by (simp add: find_node_Cons)

text \<open>The bits of the node type do not interfere.\<close>

lemma node_value_simps [simp]:
  "node_value (makeEdge n) = node_value n" "node_value (updateIsWithPathSeparator p n) = node_value n"
  "node_value (set_fork b f n) = node_value n" "node_value (child_of n) = None"
  "node_value (upd (\<lambda>d. d\<lparr>n_ref := r\<rparr>) n) = node_value n"
  "node_value (set_value e m n) = Some (e, if m = [] then n_metadata (data n) else m)"
  "n_metadata (data (updateIsWithPathSeparator p n)) = n_metadata (data n)"
  "n_metadata (data (split_node n rest c w)) = []"
proof -
  note defs = node_value_def IsValueType_def makeValue_def makeEdge_def makeWithMetadata_def
    makeWithPathSeparator_def makeNotWithPathSeparator_def updateIsWithPathSeparator_def nodeTypeValue_def
    nodeTypeEdge_def nodeTypeWithMetadata_def nodeTypeWithPathSeparator_def nodeTypeMask_def
    set_value_def set_fork_def split_node_def child_of_def SetObfuscationKey_def New_def zero_data_def Let_def
  have bits: "(x OR 4) AND 2 = x AND 2" "(x OR 8) AND 2 = x AND 2" "(247 AND x) AND 2 = x AND 2"
    "(x OR 16) AND 2 = x AND 2" "(x OR 2) AND 2 = 2" for x :: u8
    by (rule bit_eqI; auto simp: bit_simps; presburger?)+
  show "node_value (makeEdge n) = node_value n" "node_value (updateIsWithPathSeparator p n) = node_value n"
    "node_value (set_fork b f n) = node_value n" "node_value (child_of n) = None"
    "node_value (upd (\<lambda>d. d\<lparr>n_ref := r\<rparr>) n) = node_value n"
    "node_value (set_value e m n) = Some (e, if m = [] then n_metadata (data n) else m)"
    "n_metadata (data (updateIsWithPathSeparator p n)) = n_metadata (data n)"
    "n_metadata (data (split_node n rest c w)) = []"
    by (simp_all add: defs bits)
qed

lemma value_at_Nil [simp]: "value_at n [] = node_value n"
  by (simp add: value_at_def)

lemma value_at_same_forks: "forks m = forks n \<Longrightarrow> path \<noteq> [] \<Longrightarrow> value_at m path = value_at n path"
  using find_node_same_forks [of m n path] by (simp add: value_at_def)

lemma value_at_fork:
  "path \<noteq> [] \<Longrightarrow> value_at n path = (case fork_at n (hd path) of None \<Rightarrow> None
     | Some (pre, c) \<Rightarrow> if prefix pre path then value_at c (drop (length pre) path) else None)"
  by (auto simp: value_at_def find_node_Cons split: option.splits)

lemma value_at_separator [simp]: "value_at (updateIsWithPathSeparator p n) path = value_at n path"
  by (cases "path = []") (simp, rule value_at_same_forks, simp_all)

lemma value_at_child_of [simp]: "value_at (child_of n) path = None"
  by (cases "path = []") (auto simp: value_at_fork fork_at_def)

lemma fork_at_set_fork:
  "forks n \<noteq> None \<Longrightarrow> fork_at (makeEdge (set_fork b f n)) b' = (if b' = b then Some f else fork_at n b')"
  by (auto simp: fork_at_def set_fork_def update_conv' makeEdge_def upd_def split: option.splits)

lemma value_at_set_fork:
  assumes "forks n \<noteq> None"
  shows "value_at (makeEdge (set_fork b (p, c) n)) path = (if path = [] then node_value n
     else if hd path = b then if prefix p path then value_at c (drop (length p) path) else None
     else value_at n path)"
  using assms by (auto simp: value_at_fork fork_at_set_fork)

text \<open>On a loaded trie a lookup changes nothing and is the descent.\<close>

lemma length_common_prefix: "length (common pre path) = length pre \<longleftrightarrow> prefix pre path"
  by (induction pre path rule: common.induct) auto

lemma wf_ensure_loaded: "wf_node n \<Longrightarrow> ensure_loaded J l n = (None, n)"
  using wf_node_forks [of n] by (auto simp: ensure_loaded_def)

lemma set_fork_same: "fork_at n b = Some f \<Longrightarrow> set_fork b f n = n"
proof -
  have "map_of fs b = Some f \<Longrightarrow> AList.update b f fs = fs" for fs by (induction fs) auto
  then show "fork_at n b = Some f \<Longrightarrow> set_fork b f n = n"
    by (cases n) (auto simp: fork_at_def set_fork_def split: option.splits)
qed

lemma LookupNode_find:
  "wf_node n \<Longrightarrow> LookupNode J l n path = (case find_node n path of None \<Rightarrow> Inl ErrNotFound | Some m \<Rightarrow> Inr m, n)"
proof (induction n path rule: find_node.induct)
  case (1 n path)
  show ?case
  proof (cases "path = [] \<or> fork_at n (hd path) = None")
    case True
    then show ?thesis using wf_ensure_loaded [OF "1.prems"]
      by (subst LookupNode.simps) (auto simp: find_node_Cons)
  next
    case False
    then obtain pre c where f: "fork_at n (hd path) = Some (pre, c)" "path \<noteq> []" by auto
    have "wf_node c" using wf_node_fork_at [OF "1.prems" f(1)] by simp
    then show ?thesis using wf_ensure_loaded [OF "1.prems"] f "1.IH" [OF f(2) f(1) refl]
      by (subst LookupNode.simps) (simp add: find_node_Cons length_common_prefix set_fork_same)
  qed
qed

section \<open>Add\<close>

text \<open>The cases of a successful step of \<open>Add\<close> on a loaded trie.\<close>

lemma check_entry_ok:
  assumes "sizes_ok k n" and "entry = [] \<or> length entry = k" and "k \<le> 256"
  shows "\<exists>n1. check_entry entry n = Inr n1 \<and> forks n1 = forks n \<and> sizes_ok k n1 \<and> node_value n1 = node_value n \<and>
    n_metadata (data n1) = n_metadata (data n)"
proof -
  have "node_value (upd (\<lambda>d. d\<lparr>refBytesSize := x\<rparr>) n) = node_value n" for x
    by (simp add: node_value_def IsValueType_def)
  moreover have "sizes_ok k (upd (\<lambda>d. d\<lparr>refBytesSize := k\<rparr>) n)"
    by (rule sizes_ok_same_forks [OF _ _ assms(1)]) auto
  ultimately show ?thesis using assms sizes_ok_data [OF assms(1)]
    by (auto simp: check_entry_def)
qed

definition added :: "nat \<Rightarrow> bytes \<Rightarrow> bytes \<Rightarrow> metadata \<Rightarrow> Node \<Rightarrow> Node \<Rightarrow> bool" where
  "added k path entry m n n' \<longleftrightarrow> wf_node n' \<and> sizes_ok k n' \<and>
     (\<forall>q. value_at n' q =
        (if q = path then Some (entry, if m = [] then meta_at n path else m) else value_at n q))"

lemma meta_at_Nil [simp]: "meta_at n [] = n_metadata (data n)"
  by (simp add: meta_at_def)

lemma meta_at_fork:
  "path \<noteq> [] \<Longrightarrow> meta_at n path = (case fork_at n (hd path) of None \<Rightarrow> []
     | Some (pre, c) \<Rightarrow> if prefix pre path then meta_at c (drop (length pre) path) else [])"
  by (auto simp: meta_at_def find_node_Cons split: option.splits)

lemma meta_at_separator [simp]: "meta_at (updateIsWithPathSeparator p n) path = meta_at n path"
proof (cases "path = []")
  case False
  then have "find_node (updateIsWithPathSeparator p n) path = find_node n path"
    by (rule find_node_same_forks [rotated]) simp
  then show ?thesis by (simp add: meta_at_def)
qed simp

text \<open>The result of putting a changed child back.\<close>

lemma added_put_fork:
  assumes wf: "wf_node n" and sz: "sizes_ok k n" and p: "p \<noteq> []" "length p \<le> nodePrefixMaxSize" "prefix p path"
    and c: "added k (drop (length p) path) entry m nn c"
    and old: "\<And>q. prefix p q \<Longrightarrow> q \<noteq> path \<Longrightarrow> value_at nn (drop (length p) q) = value_at n q"
      "\<And>q. q \<noteq> [] \<Longrightarrow> hd q = hd path \<Longrightarrow> \<not> prefix p q \<Longrightarrow> value_at n q = None"
    and meta: "meta_at nn (drop (length p) path) = meta_at n path"
  shows "\<exists>n'. put_fork (hd path) (p, c) n = (None, n') \<and> added k path entry m n n'"
proof -
  have hd: "hd path = hd p" "path \<noteq> []" using p(1,3) by (cases p; cases path; auto)+
  let ?n' = "makeEdge (set_fork (hd path) (p, c) n)"
  have cw: "wf_node c" "sizes_ok k c" using c by (simp_all add: added_def)
  note w = wf_put_fork [OF wf p(1,2) cw(1), of "hd path"]
  have f: "forks n \<noteq> None" using wf_node_forks [OF wf] by auto
  have "value_at ?n' q = (if q = path then Some (entry, if m = [] then meta_at n path else m) else value_at n q)" for q
  proof (cases "q \<noteq> [] \<and> hd q = hd path")
    case False
    then show ?thesis using hd(2) f by (auto simp: value_at_set_fork)
  next
    case True
    show ?thesis
    proof (cases "prefix p q")
      case pq: True
      have "drop (length p) q = drop (length p) path \<longleftrightarrow> q = path"
        using pq p(3) by (auto simp: prefix_def)
      then show ?thesis using True pq f c old(1) [OF pq] meta by (auto simp: value_at_set_fork added_def)
    next
      case False
      then have "q \<noteq> path" using p(3) by auto
      then show ?thesis using True False f old(2) by (simp add: value_at_set_fork)
    qed
  qed
  then show ?thesis using w hd sizes_put_fork [OF sz cw(2) wf] by (auto simp: added_def)
qed

lemma added_same:
  assumes "added k path entry m n n1" and "forks n2 = forks n1" and "node_value n2 = node_value n1"
    and "refBytesSize (data n2) = refBytesSize (data n1)"
  shows "added k path entry m n n2"
proof -
  have "value_at n2 q = value_at n1 q" for q
    using assms(3) value_at_same_forks [OF assms(2)] by (cases "q = []") auto
  moreover have "wf_node n2 = wf_node n1" by (rule wf_node_same_forks [OF assms(2)])
  moreover have "sizes_ok k n2" using assms sizes_ok_data [of k n1]
    by (intro sizes_ok_same_forks [OF assms(2)]) (auto simp: added_def)
  ultimately show ?thesis using assms(1) by (simp add: added_def)
qed

lemma added_value:
  assumes "wf_node n" and "sizes_ok k n"
  shows "added k [] entry m n (set_value entry m n)"
proof -
  let ?n' = "set_value entry m n"
  have "value_at ?n' q = value_at n q" if "q \<noteq> []" for q using that by (intro value_at_same_forks) auto
  moreover have "sizes_ok k ?n'" by (rule sizes_ok_same_forks [OF _ _ assms(2)]) (use sizes_ok_data assms in auto)
  ultimately show ?thesis using wf_node_same_forks [of ?n' n] assms(1) by (auto simp: added_def)
qed

lemma wf_child_of [simp]: "wf_node (child_of n)"
  by (rule wf_node_same_forks [of "child_of n" New, THEN iffD2]) (simp_all add: New_def)

lemma sizes_child_of: "sizes_ok k n \<Longrightarrow> sizes_ok k (child_of n)"
  by (rule sizes_ok_same_forks [of _ "Node zero_data (Some [])"]) (use sizes_ok_data in \<open>auto simp: zero_data_def\<close>)

lemma added_new_fork:
  assumes wf: "wf_node n" and sz: "sizes_ok k n" and none: "fork_at n (hd path) = None"
    and p: "p \<noteq> []" "length p \<le> nodePrefixMaxSize" "prefix p path" and c: "added k (drop (length p) path) entry m (child_of n) c"
  shows "\<exists>n'. put_fork (hd path) (p, c) n = (None, n') \<and> added k path entry m n n'"
proof -
  have noval: "value_at n q = None" if "q \<noteq> []" "hd q = hd path" for q using that none by (simp add: value_at_fork)
  have "path \<noteq> []" using p by auto
  then have nometa: "meta_at n path = []" using none by (simp add: meta_at_fork)
  show ?thesis
  proof (rule added_put_fork [OF wf sz p c])
    show "value_at (child_of n) (drop (length p) q) = value_at n q" if pq: "prefix p q" for q
      using noval [of q] pq p(1,3) by (auto simp: prefix_def)
    show "meta_at (child_of n) (drop (length p) path) = meta_at n path"
      using nometa by (cases "drop (length p) path = []") (auto simp: meta_at_fork fork_at_def child_of_def
          SetObfuscationKey_def New_def zero_data_def)
  qed (use noval in auto)
qed

text \<open>The node that splits a fork holds what the fork held.\<close>

lemma split_node_ok:
  assumes "sizes_ok k n" and "sizes_ok k c" and "wf_node c" and "rest \<noteq> []" "length rest \<le> nodePrefixMaxSize"
  shows "wf_node (split_node n rest c whole)" "sizes_ok k (split_node n rest c whole)"
    "x \<noteq> [] \<or> \<not> whole \<Longrightarrow> value_at (split_node n rest c whole) x =
       (if prefix rest x then value_at c (drop (length rest) x) else None)"
    "x = [] \<or> hd x \<noteq> hd rest \<Longrightarrow> meta_at (split_node n rest c whole) x = []"
proof -
  let ?s = "split_node n rest c whole"
  have f: "forks ?s = Some [(hd rest, rest, c)]" by simp
  obtain d where s: "?s = Node d (Some [(hd rest, rest, c)])" by (metis f Node.collapse)
  then have "refBytesSize d = refBytesSize (data n)" by (metis Node.sel(1) refBytesSize_simps(7))
  then show "wf_node ?s" "sizes_ok k ?s" using assms sizes_ok_data [OF assms(1)] by (simp_all add: s)
  have fa: "fork_at ?s b = (if b = hd rest then Some (rest, c) else None)" for b by (simp add: fork_at_def f)
  have nv: "node_value ?s = None" if "\<not> whole" using that by (simp add: split_node_def Let_def)
  show "value_at ?s x = (if prefix rest x then value_at c (drop (length rest) x) else None)"
    if x: "x \<noteq> [] \<or> \<not> whole"
  proof (cases "x = []")
    case True
    with nv x assms(4) show ?thesis by simp
  next
    case False
    have "hd x = hd rest" if "prefix rest x" using that assms(4) by (auto simp: prefix_def)
    with False show ?thesis by (auto simp: value_at_fork fa)
  qed
  show "meta_at ?s x = []" if "x = [] \<or> hd x \<noteq> hd rest"
    using that by (cases "x = []") (auto simp: meta_at_fork fa)
qed

lemma prefix_split: "prefix (com @ rest) q \<longleftrightarrow> prefix com q \<and> prefix rest (drop (length com) q)"
  by (auto simp: prefix_def)

lemma common_split:
  "pre = common pre path @ drop (length (common pre path)) pre" "prefix (common pre path) path"
proof -
  obtain zs where "pre = common pre path @ zs" using common_prefix1 [of pre path] by (auto simp: prefix_def)
  then show "pre = common pre path @ drop (length (common pre path)) pre" by (metis append_eq_conv_conj)
qed (rule common_prefix2)

text \<open>The node \<open>Add\<close> descends into holds what the fork held below the common prefix.\<close>

lemma fork_node_ok:
  assumes wf: "wf_node n1" and sz: "sizes_ok k n1" and f: "fork_at n1 (hd path) = Some (pre, c)" and ne: "path \<noteq> []"
  defines "com \<equiv> common pre path" and "rest \<equiv> drop (length (common pre path)) pre"
  defines "c1 \<equiv> (if rest \<noteq> [] then updateIsWithPathSeparator rest c else c)"
  defines "nn \<equiv> updateIsWithPathSeparator path
    (if rest \<noteq> [] then split_node n1 rest c1 (length path = length com) else c1)"
  shows "wf_node nn \<and> sizes_ok k nn \<and>
    (\<forall>q. prefix com q \<longrightarrow> q \<noteq> path \<longrightarrow> value_at nn (drop (length com) q) = value_at n1 q) \<and>
    meta_at nn (drop (length com) path) = meta_at n1 path"
proof -
  note fk = wf_node_fork_at [OF wf f] sizes_ok_fork_at [OF sz f]
  have pre: "pre = com @ rest" and com: "prefix com path" "com \<noteq> []"
    using common_split [of pre path] fk ne by (auto simp: com_def rest_def neq_Nil_conv)
  have q1: "value_at n1 q = (if prefix rest (drop (length com) q) then value_at c (drop (length rest) (drop (length com) q)) else None)"
    if "prefix com q" for q
  proof -
    have "q \<noteq> []" "hd q = hd path" using that com by (auto simp: prefix_def)
    then show ?thesis using f that by (simp add: value_at_fork pre prefix_split add.commute)
  qed
  have m1: "meta_at n1 path = (if prefix rest (drop (length com) path)
      then meta_at c (drop (length rest) (drop (length com) path)) else [])"
    using f ne com(1) by (simp add: meta_at_fork pre prefix_split add.commute)
  show ?thesis
  proof (cases "rest = []")
    case True
    then have nn: "nn = updateIsWithPathSeparator path c" by (simp add: nn_def c1_def)
    have "wf_node nn" "sizes_ok k nn"
      using fk wf_node_same_forks [of nn c] sizes_ok_same_forks [of nn c k] sizes_ok_data [of k c] by (simp_all add: nn)
    then show ?thesis using True by (simp add: nn q1 m1)
  next
    case False
    let ?s = "split_node n1 rest c1 (length path = length com)"
    have nn: "nn = updateIsWithPathSeparator path ?s" and c1: "c1 = updateIsWithPathSeparator rest c"
      using False by (simp_all add: nn_def c1_def)
    have "wf_node c1" "sizes_ok k c1"
      using fk wf_node_same_forks [of c1 c] sizes_ok_same_forks [of c1 c k] sizes_ok_data [of k c] by (simp_all add: c1)
    moreover have "length rest \<le> nodePrefixMaxSize" using fk pre by simp
    ultimately have s: "wf_node ?s" "sizes_ok k ?s"
      "x \<noteq> [] \<or> length path \<noteq> length com \<Longrightarrow> value_at ?s x = (if prefix rest x then value_at c1 (drop (length rest) x) else None)"
      "x = [] \<or> hd x \<noteq> hd rest \<Longrightarrow> meta_at ?s x = []" for x
      using split_node_ok [OF sz, of c1 rest] False by auto
    have "wf_node nn" "sizes_ok k nn"
      using s(1,2) wf_node_same_forks [of nn ?s] sizes_ok_same_forks [of nn ?s k] sizes_ok_data [of k ?s] by (simp_all add: nn)
    moreover have "value_at nn (drop (length com) q) = value_at n1 q" if q: "prefix com q" "q \<noteq> path" for q
    proof -
      have "drop (length com) q \<noteq> [] \<or> length path \<noteq> length com" using q com(1) by (auto simp: prefix_def)
      from s(3) [OF this] q1 [OF q(1)] show ?thesis by (simp add: nn c1)
    qed
    moreover have "meta_at nn (drop (length com) path) = []" and "\<not> prefix rest (drop (length com) path)"
    proof -
      have h: "drop (length com) path = [] \<or> hd (drop (length com) path) \<noteq> hd rest"
        using common_next [of rest pre path] False by (auto simp: rest_def com_def)
      from s(4) [OF h] show "meta_at nn (drop (length com) path) = []" by (simp add: nn)
      show "\<not> prefix rest (drop (length com) path)" using h False by (cases rest) (auto simp: prefix_def)
    qed
    ultimately show ?thesis by (simp add: m1)
  qed
qed

lemma Add_correct:
  "wf_node n \<Longrightarrow> sizes_ok k n \<Longrightarrow> entry = [] \<or> length entry = k \<Longrightarrow> k \<le> 256 \<Longrightarrow>
   \<exists>n'. Add J l path entry m n = (None, n') \<and> added k path entry m n n'"
proof (induction "length path" arbitrary: path n rule: less_induct)
  case less
  obtain n1 where ce: "check_entry entry n = Inr n1" "forks n1 = forks n" and sz: "sizes_ok k n1"
    and same: "node_value n1 = node_value n" "n_metadata (data n1) = n_metadata (data n)"
    using check_entry_ok [OF less.prems(2-4)] by blast
  have wf: "wf_node n1" using less.prems(1) wf_node_same_forks [OF ce(2)] by simp
  note el = wf_ensure_loaded [OF wf]
  obtain fs where fo: "forks n1 = Some fs" "forks n = Some fs" using wf_node_forks [OF wf] ce(2) by auto
  have val: "value_at n1 q = value_at n q" for q
    using same(1) value_at_same_forks [OF ce(2)] by (cases "q = []") auto
  have met: "meta_at n1 q = meta_at n q" for q
    using same(2) find_node_same_forks [OF ce(2)] by (cases "q = []") (auto simp: meta_at_def)
  have iff: "added k path entry m n1 n' = added k path entry m n n'" for n' by (simp add: added_def val met)
  have "\<exists>n'. Add J l path entry m n = (None, n') \<and> added k path entry m n1 n'"
  proof (cases "path = []")
    case True
    have "added k path entry m n1 (upd (\<lambda>d. d\<lparr>n_ref := None\<rparr>) (set_value entry m n1))"
      using added_value [OF wf sz, of entry m] True by (auto intro: added_same)
    with ce True show ?thesis by (simp add: Add.simps)
  next
    case ne: False
    show ?thesis
    proof (cases "fork_at n1 (hd path)")
      case None
      note new = added_new_fork [OF wf sz None]
      show ?thesis
      proof (cases "nodePrefixMaxSize < length path")
        case True
        define p where "p = take nodePrefixMaxSize path"
        have lp: "length p = nodePrefixMaxSize" "p \<noteq> []" "prefix p path"
          using True by (auto simp: p_def nodePrefixMaxSize_def take_is_prefix)
        have "length (drop nodePrefixMaxSize path) < length path" using True by (simp add: nodePrefixMaxSize_def)
        from less.hyps [OF this wf_child_of sizes_child_of [OF sz] less.prems(3,4)] obtain nn where
          add: "Add J l (drop nodePrefixMaxSize path) entry m (child_of n1) = (None, nn)"
          and nn: "added k (drop nodePrefixMaxSize path) entry m (child_of n1) nn" by blast
        have "added k (drop (length p) path) entry m (child_of n1) (updateIsWithPathSeparator p nn)"
          using nn by (auto simp: lp(1) intro: added_same)
        from new [OF lp(2) _ lp(3) this] lp(1) ce el fo ne None True add show ?thesis
          by (subst Add.simps) (simp add: Let_def p_def)
      next
        case False
        have "added k (drop (length path) path) entry m (child_of n1)
            (updateIsWithPathSeparator path (set_value entry m (child_of n1)))"
          using added_value [OF wf_child_of sizes_child_of [OF sz], of entry m] by (auto intro: added_same)
        from new [OF ne _ _ this] ce el fo ne None False show ?thesis by (subst Add.simps) (simp add: Let_def)
      qed
    next
      case (Some f)
      then obtain pre c where f: "fork_at n1 (hd path) = Some (pre, c)" by (cases f) auto
      define com where "com = common pre path"
      define rest where "rest = drop (length com) pre"
      define c1 where "c1 = (if rest \<noteq> [] then updateIsWithPathSeparator rest c else c)"
      define nn where "nn = updateIsWithPathSeparator path
        (if rest \<noteq> [] then split_node n1 rest c1 (length path = length com) else c1)"
      note fk = wf_node_fork_at [OF wf f] sizes_ok_fork_at [OF sz f]
      have pre: "pre = com @ rest" and com: "prefix com path" "com \<noteq> []"
        using common_split [of pre path] fk ne by (auto simp: com_def rest_def neq_Nil_conv)
      have nnok: "wf_node nn \<and> sizes_ok k nn \<and>
        (\<forall>q. prefix com q \<longrightarrow> q \<noteq> path \<longrightarrow> value_at nn (drop (length com) q) = value_at n1 q) \<and>
        meta_at nn (drop (length com) path) = meta_at n1 path"
        unfolding nn_def c1_def rest_def com_def by (rule fork_node_ok [OF wf sz f ne])
      have "length (drop (length com) path) < length path" using com ne by (simp add: prefix_def)
      from less.hyps [OF this _ _ less.prems(3,4), of nn] nnok obtain nn' where
        add: "Add J l (drop (length com) path) entry m nn = (None, nn')"
        and nn': "added k (drop (length com) path) entry m nn nn'" by blast
      have none: "value_at n1 q = None" if "q \<noteq> []" "hd q = hd path" "\<not> prefix com q" for q
        using that f pre by (auto simp: value_at_fork prefix_split)
      have "length com \<le> nodePrefixMaxSize" using fk pre by simp
      from added_put_fork [OF wf sz com(2) this com(1) nn' _ none] nnok
      have "\<exists>n'. put_fork (hd path) (com, nn') n1 = (None, n') \<and> added k path entry m n1 n'" by blast
      moreover have "Add J l path entry m n = put_fork (hd path) (com, nn') n1"
        using ce el fo ne f add unfolding nn_def c1_def rest_def com_def
        by (cases "drop (length (common pre path)) pre = []"; subst Add.simps) (simp_all add: Let_def)
      ultimately show ?thesis by simp
    qed
  qed
  then show ?case by (simp add: iff)
qed

section \<open>Remove\<close>

definition removed :: "bytes \<Rightarrow> Node \<Rightarrow> Node \<Rightarrow> bool" where
  "removed path n n' \<longleftrightarrow> wf_node n' \<and> data n' = data n \<and> (\<forall>k. sizes_ok k n \<longrightarrow> sizes_ok k n') \<and>
     (\<forall>q. value_at n' q = (if prefix path q then None else value_at n q))"

lemma value_at_delete:
  assumes "wf_node n" and "path \<noteq> []" and "fork_at n (hd path) = Some (path, c)"
  shows "removed path n (Node (data n) (map_option (AList.delete (hd path)) (forks n)))"
proof -
  obtain d fs where n: "n = Node d (Some fs)" using assms(1) by (cases n rule: wf_node.cases) auto
  let ?n' = "Node d (Some (AList.delete (hd path) fs))"
  have fa: "fork_at ?n' b = (if b = hd path then None else fork_at n b)" for b
    by (simp add: fork_at_def n delete_conv')
  have "value_at ?n' q = (if prefix path q then None else value_at n q)" for q
  proof (cases "q = []")
    case True
    with assms(2) show ?thesis by (simp add: n node_value_def IsValueType_def)
  next
    case False
    have "hd q = hd path" if "prefix path q" using that assms(2) by (auto simp: prefix_def)
    with False assms(3) show ?thesis by (auto simp: value_at_fork fa)
  qed
  moreover have "wf_node ?n'" using assms(1) by (auto simp: n AList.delete_eq distinct_map_filter)
  moreover have "sizes_ok k n \<longrightarrow> sizes_ok k ?n'" for k by (auto simp: n AList.delete_eq)
  ultimately show ?thesis by (simp add: removed_def n)
qed

lemma removed_set_fork:
  assumes wf: "wf_node n" and f: "fork_at n (hd path) = Some (pre, c)" and p: "prefix pre path" "path \<noteq> []"
    and c: "removed (drop (length pre) path) c c'"
  shows "removed path n (set_fork (hd path) (pre, c') n)"
proof -
  let ?n' = "set_fork (hd path) (pre, c') n"
  note fk = wf_node_fork_at [OF wf f]
  obtain d fs where n: "n = Node d (Some fs)" using wf by (cases n rule: wf_node.cases) auto
  have fa: "fork_at ?n' b = (if b = hd path then Some (pre, c') else fork_at n b)" for b
    by (simp add: fork_at_def n set_fork_def update_conv')
  have w: "wf_node ?n'" "data ?n' = data n"
    using wf c fk by (auto simp: n set_fork_def set_update_cases distinct_update removed_def)
  have "value_at ?n' q = (if prefix path q then None else value_at n q)" for q
  proof (cases "q = []")
    case True
    with p show ?thesis by (simp add: w(2) node_value_def IsValueType_def)
  next
    case False
    have "prefix path q \<longleftrightarrow> prefix pre q \<and> prefix (drop (length pre) path) (drop (length pre) q)"
      using p(1) by (auto simp: prefix_def)
    moreover have "hd q = hd path" if "prefix path q" using that p(2) by (auto simp: prefix_def)
    ultimately show ?thesis using False f c by (auto simp: value_at_fork fa removed_def)
  qed
  moreover have "sizes_ok k n \<longrightarrow> sizes_ok k ?n'" for k
    using c sizes_ok_fork_at [OF _ f] wf by (auto simp: n set_fork_def set_update_cases removed_def)
  ultimately show ?thesis using w by (simp add: removed_def)
qed

text \<open>\<open>Remove\<close> succeeds exactly when the trie has a node at the path, and takes the whole subtree away.\<close>

lemma Remove_correct:
  "wf_node n \<Longrightarrow> path \<noteq> [] \<Longrightarrow>
   (if find_node n path = None then Remove J l n path = (Some ErrNotFound, n)
    else \<exists>n'. Remove J l n path = (None, n') \<and> removed path n n')"
proof (induction "length path" arbitrary: path n rule: less_induct)
  case less
  note el = wf_ensure_loaded [OF less.prems(1)]
  show ?case
  proof (cases "fork_at n (hd path)")
    case None
    with el less.prems(2) show ?thesis by (subst Remove.simps) (simp add: find_node_Cons)
  next
    case (Some f)
    then obtain pre c where f: "fork_at n (hd path) = Some (pre, c)" by (cases f) auto
    note fk = wf_node_fork_at [OF less.prems(1) f]
    show ?thesis
    proof (cases "prefix pre path")
      case False
      with el less.prems(2) f show ?thesis by (subst Remove.simps) (simp add: find_node_Cons)
    next
      case pre: True
      show ?thesis
      proof (cases "drop (length pre) path = []")
        case True
        then have "pre = path" using pre by (auto simp: prefix_def)
        with value_at_delete [OF less.prems] f el less.prems(2) show ?thesis
          by (subst Remove.simps) (auto simp: find_node_Cons)
      next
        case False
        let ?rest = "drop (length pre) path"
        have eq: "find_node n path = find_node c ?rest" using f less.prems(2) pre by (simp add: find_node_Cons)
        have rem: "Remove J l n path = (case Remove J l c ?rest of (r, c') \<Rightarrow> (r, set_fork (hd path) (pre, c') n))"
          using el less.prems(2) f pre False by (subst Remove.simps) simp
        have "length ?rest < length path" using fk less.prems(2) by simp
        from less.hyps [OF this _ False, of c] fk
        have ih: "if find_node c ?rest = None then Remove J l c ?rest = (Some ErrNotFound, c)
            else \<exists>c'. Remove J l c ?rest = (None, c') \<and> removed ?rest c c'" by simp
        then show ?thesis using rem eq set_fork_same [OF f] removed_set_fork [OF less.prems(1) f pre less.prems(2)]
          by (auto split: if_splits)
      qed
    qed
  qed
qed

section \<open>HasPrefix\<close>

lemma HasPrefix_find:
  "wf_node n \<Longrightarrow> HasPrefix J l n path = (Inr (\<exists>q. find_node n (path @ q) \<noteq> None), n)"
proof (induction "length path" arbitrary: path n rule: less_induct)
  case less
  note el = wf_ensure_loaded [OF less.prems(1)]
  show ?case
  proof (cases "path = [] \<or> fork_at n (hd path) = None")
    case True
    with el show ?thesis by (subst HasPrefix.simps) (auto simp: find_node_Cons intro!: exI [of _ "[]"])
  next
    case False
    then obtain pre c where f: "fork_at n (hd path) = Some (pre, c)" "path \<noteq> []" by auto
    note fk = wf_node_fork_at [OF less.prems(1) f(1)]
    have eq: "find_node n (path @ q) = (if prefix pre (path @ q) then find_node c (drop (length pre) (path @ q)) else None)" for q
      using f by (simp add: find_node_Cons)
    show ?thesis
    proof (cases "prefix pre path")
      case True
      have "length (drop (length pre) path) < length path" using fk f by simp
      moreover have "length pre - length path = 0" using True by (simp add: prefix_length_le)
      ultimately show ?thesis using less.hyps [of "drop (length pre) path" c] fk el f True eq
        by (subst HasPrefix.simps) (simp add: length_common_prefix set_fork_same)
    next
      case False
      have "(\<exists>q. find_node n (path @ q) \<noteq> None) \<longleftrightarrow> prefix path pre"
      proof
        assume "\<exists>q. find_node n (path @ q) \<noteq> None"
        then obtain q where "prefix pre (path @ q)" by (auto simp: eq split: if_splits)
        with False show "prefix path pre" by (metis prefix_append prefix_same_cases prefixI)
      next
        assume "prefix path pre"
        then obtain q where "pre = path @ q" by (auto simp: prefix_def)
        then have "find_node n (path @ q) = Some c" by (simp add: eq)
        then show "\<exists>q. find_node n (path @ q) \<noteq> None" by blast
      qed
      with False f el show ?thesis by (subst HasPrefix.simps) (simp add: length_common_prefix)
    qed
  qed
qed

section \<open>The contract of a manifest\<close>

text \<open>What a client of a manifest relies on: an update at a path changes the value there and nowhere else,
  a removal clears a path and what lies below it.\<close>

locale path_map =
  fixes val :: "'t \<Rightarrow> bytes \<Rightarrow> 'v option" and put :: "bytes \<Rightarrow> 'v \<Rightarrow> 't \<Rightarrow> 't" and drop_at :: "bytes \<Rightarrow> 't \<Rightarrow> 't"
    and inv :: "'t \<Rightarrow> bool" and ok :: "'v \<Rightarrow> bool"
  assumes put_inv: "inv t \<Longrightarrow> ok v \<Longrightarrow> inv (put p v t)"
    and put_val: "inv t \<Longrightarrow> ok v \<Longrightarrow> val (put p v t) q = (if q = p then Some v else val t q)"
    and drop_val: "inv t \<Longrightarrow> p \<noteq> [] \<Longrightarrow> val t p \<noteq> None \<Longrightarrow>
      inv (drop_at p t) \<and> val (drop_at p t) q = (if prefix p q then None else val t q)"
begin

lemma put_commute:
  "inv t \<Longrightarrow> ok v \<Longrightarrow> ok w \<Longrightarrow> p \<noteq> q \<Longrightarrow> val (put p v (put q w t)) = val (put q w (put p v t))"
  by (auto simp: fun_eq_iff put_val put_inv)

lemma puts_val:
  "inv t \<Longrightarrow> \<forall>(p, v) \<in> set pvs. ok v \<Longrightarrow>
   inv (fold (\<lambda>(p, v). put p v) pvs t) \<and>
   val (fold (\<lambda>(p, v). put p v) pvs t) q = (case map_of (rev pvs) q of Some v \<Rightarrow> Some v | None \<Rightarrow> val t q)"
proof (induction pvs arbitrary: t)
  case Nil
  then show ?case by simp
next
  case (Cons pv pvs)
  obtain p v where pv: "pv = (p, v)" by fastforce
  from Cons.IH [of "put p v t"] Cons.prems pv show ?case
    by (auto simp: put_inv put_val map_add_def split: option.splits)
qed

end

definition entry_at :: "Node \<Rightarrow> bytes \<Rightarrow> bytes option" where
  "entry_at n q = map_option fst (value_at n q)"

definition entry_ok :: "nat \<Rightarrow> bytes \<Rightarrow> bool" where
  "entry_ok k e \<longleftrightarrow> e = [] \<or> length e = k"

lemma find_of_entry: "entry_at n q \<noteq> None \<Longrightarrow> find_node n q \<noteq> None"
  by (cases "find_node n q") (auto simp: entry_at_def value_at_def)

text \<open>The trie keeps the contract, whatever the loader is: nothing is loaded.\<close>

interpretation trie: path_map entry_at "\<lambda>p e n. snd (Add J l p e m n)" "\<lambda>p n. snd (Remove J l n p)"
  "\<lambda>n. wf_node n \<and> sizes_ok k n \<and> k \<le> 256" "entry_ok k"
proof
  fix t v p q
  assume "wf_node t \<and> sizes_ok k t \<and> k \<le> 256" and "entry_ok k v"
  then obtain n' where "Add J l p v m t = (None, n')" "added k p v m t n'"
    using Add_correct [of t k v J l p m] by (auto simp: entry_ok_def)
  then show "wf_node (snd (Add J l p v m t)) \<and> sizes_ok k (snd (Add J l p v m t)) \<and> k \<le> 256"
    "entry_at (snd (Add J l p v m t)) q = (if q = p then Some v else entry_at t q)"
    using \<open>wf_node t \<and> sizes_ok k t \<and> k \<le> 256\<close> by (auto simp: added_def entry_at_def)
next
  fix t p q
  assume t: "wf_node t \<and> sizes_ok k t \<and> k \<le> 256" and "p \<noteq> []" "entry_at t p \<noteq> None"
  then obtain n' where "Remove J l t p = (None, n')" "removed p t n'"
    using Remove_correct [of t p J l] find_of_entry [of t p] by auto
  then show "(wf_node (snd (Remove J l t p)) \<and> sizes_ok k (snd (Remove J l t p)) \<and> k \<le> 256) \<and>
    entry_at (snd (Remove J l t p)) q = (if prefix p q then None else entry_at t q)"
    using t by (auto simp: removed_def entry_at_def)
qed

section \<open>Properties\<close>

lemma mm_Lookup_value:
  "wf_node n \<Longrightarrow> mm_Lookup J L w q n = (case value_at n q of None \<Rightarrow> Inl ErrNotFound | Some v \<Rightarrow> Inr v, n)"
  by (auto simp: mm_Lookup_def LookupNode_find value_at_def node_value_def split: option.splits)

lemma wf_new [simp]: "wf_node (NewMantarayManifest enc)" "sizes_ok k (NewMantarayManifest enc)"
  "value_at (NewMantarayManifest enc) q = None"
proof -
  show "wf_node (NewMantarayManifest enc)" "sizes_ok k (NewMantarayManifest enc)"
    by (simp_all add: NewMantarayManifest_def New_def SetObfuscationKey_def upd_def zero_data_def)
  show "value_at (NewMantarayManifest enc) q = None"
    by (cases "q = []") (simp_all add: value_at_fork fork_at_def NewMantarayManifest_def New_def
        SetObfuscationKey_def upd_def zero_data_def node_value_def IsValueType_def nodeTypeValue_def)
qed

fun mm_Adds :: "json \<Rightarrow> 'w LoadSaver \<Rightarrow> 'w \<Rightarrow> (bytes \<times> bytes \<times> metadata) list \<Rightarrow> Node \<Rightarrow> mt_error option \<times> Node" where
  "mm_Adds J L w [] n = (None, n)"
| "mm_Adds J L w ((p, e, m) # xs) n =
     (case mm_Add J L w p e m n of (Some err, n') \<Rightarrow> (Some err, n') | (None, n') \<Rightarrow> mm_Adds J L w xs n')"

lemma mm_Adds_correct:
  assumes "wf_node n" and "sizes_ok k n" and "k \<le> 256" and "\<forall>(p, e, m) \<in> set xs. entry_ok k e \<and> m \<noteq> []"
  shows "\<exists>n'. mm_Adds J L w xs n = (None, n') \<and> wf_node n' \<and> sizes_ok k n' \<and>
    value_at n' = value_at n ++ map_of (rev xs)"
  using assms(1,2,4)
proof (induction xs arbitrary: n)
  case Nil
  then show ?case by simp
next
  case (Cons x xs)
  obtain p e m where x: "x = (p, e, m)" by (metis prod.exhaust)
  obtain n1 where n1: "mm_Add J L w p e m n = (None, n1)" "added k p e m n n1"
    using Add_correct [of n k e J "loader L w" p m] Cons.prems assms(3) by (auto simp: x mm_Add_def entry_ok_def)
  then have "value_at n1 = (value_at n)(p \<mapsto> (e, m))" using Cons.prems by (auto simp: x added_def)
  moreover obtain n' where "mm_Adds J L w xs n1 = (None, n')" "wf_node n'" "sizes_ok k n'"
    "value_at n' = value_at n1 ++ map_of (rev xs)"
    using Cons.IH [of n1] Cons.prems n1(2) by (auto simp: added_def)
  ultimately show ?case using n1(1) by (simp add: x)
qed

section \<open>Instances\<close>

definition demo_json :: json where
  "demo_json = \<lparr>json_Marshal = \<lambda>m. if m = [(''a'', ''b'')] then Inr [1] else Inl ''refused'',
     json_Unmarshal = \<lambda>bs. if takeWhile (\<lambda>b. b \<noteq> 10) bs = [1] then Inr [(''a'', ''b'')] else Inl ''syntax''\<rparr>"

definition demo_store :: "bytes list LoadSaver" where
  "demo_store = \<lparr>sv_Save = \<lambda>bs w. if length w < 256 then Inr ([word_of_nat (length w)], w @ [bs]) else Inl ''full'',
     sv_rand = \<lambda>w. (replicate 32 7, w),
     sv_Load = \<lambda>w r. if length r = 1 \<and> unat (hd r) < length w then Inr (w ! unat (hd r)) else Inl ''missing''\<rparr>"

definition demo_adds :: "(bytes \<times> bytes \<times> metadata) list" where
  "demo_adds = [([47, 97], [1], [(''a'', ''b'')]), ([47, 98], [2], [(''a'', ''b'')])]"

lemma demo_map: "map_of (rev demo_adds) q =
    (if q = [47, 98] then Some ([2], [(''a'', ''b'')]) else if q = [47, 97] then Some ([1], [(''a'', ''b'')]) else None)"
  by (simp add: demo_adds_def)

text \<open>C38. Building a manifest is building a map: after any sequence of additions with metadata and entries
  of one size to a new manifest, every addition succeeded and a lookup returns what was added last at
  the path, and not found at any other path.\<close>

theorem manifest_is_map:
  assumes "k \<le> 256" and "\<forall>(p, e, m) \<in> set xs. (e = [] \<or> length e = k) \<and> m \<noteq> []"
  shows "\<exists>n. mm_Adds J L w xs (NewMantarayManifest enc) = (None, n) \<and>
    (\<forall>q. fst (mm_Lookup J L w q n) = (case map_of (rev xs) q of None \<Rightarrow> Inl ErrNotFound | Some v \<Rightarrow> Inr v))"
proof -
  obtain n where "mm_Adds J L w xs (NewMantarayManifest enc) = (None, n)" "wf_node n"
    "value_at n = value_at (NewMantarayManifest enc) ++ map_of (rev xs)"
    using mm_Adds_correct [of "NewMantarayManifest enc" k xs J L w] assms by (auto simp: entry_ok_def)
  moreover have "value_at (NewMantarayManifest enc) = Map.empty" by (simp add: fun_eq_iff)
  ultimately show ?thesis by (auto simp: mm_Lookup_value)
qed

theorem manifest_is_map_witness:
  "\<exists>n. mm_Adds demo_json demo_store [] demo_adds (NewMantarayManifest False) = (None, n) \<and>
    fst (mm_Lookup demo_json demo_store [] [47, 98] n) = Inr ([2], [(''a'', ''b'')]) \<and>
    fst (mm_Lookup demo_json demo_store [] [47] n) = Inl ErrNotFound"
proof -
  have "\<forall>(p, e, m) \<in> set demo_adds. (e = [] \<or> length e = 1) \<and> m \<noteq> []" by (simp add: demo_adds_def)
  from manifest_is_map [OF _ this, of demo_json demo_store "[]" False] show ?thesis by (auto simp: demo_map)
qed

text \<open>C39. Removing a path takes away exactly the entries at and below it: the removal succeeds when the
  manifest has an entry at the path, afterwards no path that extends it is found, and every other
  lookup is as before.\<close>

theorem manifest_remove:
  assumes "wf_node n" and "path \<noteq> []" and "fst (mm_Lookup J L w path n) = Inr v"
  shows "\<exists>n'. mm_Remove J L w path n = (None, n') \<and> wf_node n' \<and>
    (\<forall>q. fst (mm_Lookup J L w q n') = (if prefix path q then Inl ErrNotFound else fst (mm_Lookup J L w q n)))"
proof -
  have "find_node n path \<noteq> None"
    using assms(3) by (cases "find_node n path") (auto simp: mm_Lookup_value [OF assms(1)] value_at_def)
  then obtain n' where "mm_Remove J L w path n = (None, n')" "removed path n n'"
    using Remove_correct [OF assms(1,2), of J "loader L w"] by (auto simp: mm_Remove_def)
  then show ?thesis using assms(1) by (auto simp: mm_Lookup_value removed_def)
qed

theorem manifest_remove_witness:
  "\<exists>n n'. mm_Remove demo_json demo_store [] [47, 97] n = (None, n') \<and>
    fst (mm_Lookup demo_json demo_store [] [47, 97] n) = Inr ([1], [(''a'', ''b'')]) \<and>
    fst (mm_Lookup demo_json demo_store [] [47, 97] n') = Inl ErrNotFound \<and>
    fst (mm_Lookup demo_json demo_store [] [47, 98] n') = Inr ([2], [(''a'', ''b'')])"
proof -
  have "\<forall>(p, e, m) \<in> set demo_adds. entry_ok 1 e \<and> m \<noteq> []" by (simp add: demo_adds_def entry_ok_def)
  then obtain n where n: "wf_node n" "value_at n = value_at (NewMantarayManifest False) ++ map_of (rev demo_adds)"
    using mm_Adds_correct [of "NewMantarayManifest False" 1 demo_adds demo_json demo_store "[]"] by auto
  then have l: "fst (mm_Lookup demo_json demo_store [] q n) =
      (case map_of (rev demo_adds) q of None \<Rightarrow> Inl ErrNotFound | Some v \<Rightarrow> Inr v)" for q
    by (simp add: mm_Lookup_value map_add_def split: option.splits)
  then have "fst (mm_Lookup demo_json demo_store [] [47, 97] n) = Inr ([1], [(''a'', ''b'')])" by (simp add: demo_map)
  from manifest_remove [OF n(1) _ this] l this show ?thesis by (fastforce simp: demo_map)
qed

end
