(* ===== verification/MantarayCodec.thy ===== *)
theory MantarayCodec
  imports MantarayTrie
begin

text \<open>
  The serialisation of a trie node: what \<open>MarshalBinary\<close> writes, \<open>UnmarshalBinary\<close> reads back. The XOR
  with the key is its own inverse, the index lists exactly the bytes that have a fork, and each fork is
  read back as a reference to its child with the child's type and metadata.
\<close>

section \<open>Obfuscation\<close>

lemma length_encryptDecrypt [simp]: "length (encryptDecrypt bs key) = length bs"
  by (simp add: encryptDecrypt_def)

lemma encryptDecrypt_twice [simp]: "encryptDecrypt (encryptDecrypt bs key) key = bs"
  by (rule nth_equalityI) (auto simp: encryptDecrypt_def xor.assoc)

lemma length_xor_blocks [simp]: "length (xor_blocks key bs) = length bs"
  by (induction key bs rule: xor_blocks.induct) auto

lemma xor_blocks_block:
  "bs \<noteq> [] \<Longrightarrow> xor_blocks key bs = encryptDecrypt (take 32 bs) key @ xor_blocks key (drop 32 bs)"
  by (cases bs) (simp_all add: nodeObfuscationKeySize_def)

lemma xor_blocks_twice [simp]: "xor_blocks key (xor_blocks key bs) = bs"
proof (induction "length bs" arbitrary: bs rule: less_induct)
  case less
  show ?case
  proof (cases "bs = []")
    case False
    let ?ys = "xor_blocks key bs"
    have ys: "?ys = encryptDecrypt (take 32 bs) key @ xor_blocks key (drop 32 bs)"
      using False by (rule xor_blocks_block)
    have ne: "?ys \<noteq> []" using False by (metis length_xor_blocks length_0_conv)
    have "take 32 ?ys = encryptDecrypt (take 32 bs) key"
    proof (cases "32 \<le> length bs")
      case False
      then have "drop 32 bs = []" by simp
      with False show ?thesis by (simp add: ys)
    qed (simp add: ys)
    moreover have "drop 32 ?ys = xor_blocks key (drop 32 bs)"
    proof (cases "32 \<le> length bs")
      case False
      then have "drop 32 bs = []" by simp
      with False show ?thesis by (simp add: ys)
    qed (simp add: ys)
    moreover have "xor_blocks key (xor_blocks key (drop 32 bs)) = drop 32 bs"
      using False by (intro less) simp
    ultimately show ?thesis using xor_blocks_block [OF ne, of key] by simp
  qed simp
qed

lemma obfuscate_key [simp]: "take 32 (obfuscate key bs) = take 32 bs"
  by (simp add: obfuscate_def nodeObfuscationKeySize_def min_def)

lemma length_obfuscate [simp]: "length (obfuscate key bs) = length bs"
  by (simp add: obfuscate_def nodeObfuscationKeySize_def min_def)

lemma obfuscate_twice [simp]: "obfuscate key (obfuscate key bs) = bs"
proof (cases "32 \<le> length bs")
  case True
  then show ?thesis by (simp add: obfuscate_def nodeObfuscationKeySize_def min_def)
next
  case False
  then have "drop 32 bs = []" by simp
  with False show ?thesis by (simp add: obfuscate_def nodeObfuscationKeySize_def)
qed

section \<open>The index\<close>

lemma byte_index: "unat (b :: byte) div 8 < 32"
  using unat_byte_less [of b] by (intro less_mult_imp_div_less) simp

lemma bb_get_bit: "bb_get bits b \<longleftrightarrow> bit (bits ! (unat b div 8)) (unat b mod 8)"
proof -
  have "x AND 1 > 0 \<longleftrightarrow> odd x" for x :: byte
    by (simp add: and_one_eq odd_iff_mod_2_eq_one word_greater_zero_iff)
  then show ?thesis by (simp add: bb_get_def bit_iff_odd_drop_bit)
qed

lemma bb_get_set:
  assumes "length bits = 32"
  shows "bb_get (bb_set a bits) b \<longleftrightarrow> b = a \<or> bb_get bits b"
proof -
  have "unat b div 8 = unat a div 8 \<and> unat b mod 8 = unat a mod 8 \<longleftrightarrow> b = a"
    by (metis div_mult_mod_eq word_unat_eq_iff)
  moreover have "bit (push_bit (unat a mod 8) (1 :: byte)) n \<longleftrightarrow> n = unat a mod 8" if "n < 8" for n
    using that by (auto simp: bit_simps)
  moreover have "unat b mod 8 < 8" by simp
  ultimately show ?thesis using assms byte_index [of a]
    by (auto simp: bb_get_bit bb_set_def bit_or_iff nth_list_update)
qed

lemma length_bb_set [simp]: "length (bb_set b bits) = length bits"
  by (simp add: bb_set_def)

lemma bb_get_fold: "length bits = 32 \<Longrightarrow> bb_get (fold bb_set ks bits) b \<longleftrightarrow> b \<in> set ks \<or> bb_get bits b"
  by (induction ks arbitrary: bits) (auto simp: bb_get_set)

lemma length_fold_bb_set [simp]: "length (fold bb_set ks bits) = length bits"
  by (induction ks arbitrary: bits) auto

lemma bb_members_fold:
  "bb_members (fold bb_set ks (replicate 32 0)) = filter (\<lambda>b. b \<in> set ks) all_bytes"
proof -
  have "bb_get (fold bb_set ks (replicate 32 0)) b \<longleftrightarrow> b \<in> set ks" for b
    using byte_index [of b] by (subst bb_get_fold) (auto simp: bb_get_bit)
  then show ?thesis by (simp add: bb_members_def cong: filter_cong)
qed

lemma all_bytes: "distinct all_bytes" "set all_bytes = UNIV"
proof -
  have "unat (word_of_nat x :: byte) = x" if "x < 256" for x using unat_byte_of_mod [of x] that by simp
  then have "inj_on (word_of_nat :: nat \<Rightarrow> byte) (set [0..<256])" by (intro inj_on_inverseI [of _ unat]) auto
  then show "distinct all_bytes" by (simp add: all_bytes_def distinct_map)
  have "b \<in> set all_bytes" for b :: byte
    unfolding all_bytes_def using unat_byte_less [of b] by (auto intro!: image_eqI [of _ _ "unat b"])
  then show "set all_bytes = UNIV" by auto
qed

section \<open>Forks\<close>

text \<open>How a child is read back: a reference with the child's type, and its metadata when the type says so.\<close>

definition ref_node :: "bytes \<Rightarrow> Node \<Rightarrow> Node" where
  "ref_node r c = Node (zero_data\<lparr>n_ref := Some r, nodeType := nodeType (data c),
     n_metadata := if IsWithMetadataType c then n_metadata (data c) else []\<rparr>) None"

text \<open>What the encoding relies on of \<open>encoding/json\<close>: decoding inverts encoding, and trailing newlines
  are ignored.\<close>

definition json_ok :: "json \<Rightarrow> bool" where
  "json_ok J \<longleftrightarrow> (\<forall>m j n. json_Marshal J m = Inr j \<longrightarrow> j \<noteq> [] \<and> json_Unmarshal J (j @ replicate n 10) = Inr m)"

text \<open>A fork that is ready to be written: the child is saved under a reference of the node's size.\<close>

definition fork_ready :: "nat \<Rightarrow> bytes \<times> Node \<Rightarrow> bool" where
  "fork_ready k f \<longleftrightarrow> fst f \<noteq> [] \<and> length (fst f) \<le> nodePrefixMaxSize \<and>
     (\<exists>r. n_ref (data (snd f)) = Some r \<and> length r = k)"

definition fork_ref :: "bytes \<times> Node \<Rightarrow> bytes \<times> Node" where
  "fork_ref f = (fst f, ref_node (the (n_ref (data (snd f)))) (snd f))"

lemma pad_metadata_shape: "\<exists>n. pad_metadata j = j @ replicate n 10"
  by (auto simp: pad_metadata_def Let_def intro: exI [of _ 0])

lemma length_fill [simp]: "length (fill n bs) = n"
  by (simp add: fill_def min_def)

lemma fill_prefix: "length p \<le> n \<Longrightarrow> take (length p) (fill n p) = p"
  by (simp add: fill_def)

lemma mk_fork_head:
  assumes "p \<noteq> []" and "length p \<le> nodePrefixMaxSize"
  shows "mk_fork (t # word_of_nat (length p) # fill nodePrefixMaxSize p @ rest) r m =
    Inr (p, Node (zero_data\<lparr>n_ref := Some r, nodeType := t, n_metadata := m\<rparr>) None)"
proof -
  have "length p mod 256 = length p" using assms(2) by (simp add: nodePrefixMaxSize_def)
  then have "unat (word_of_nat (length p) :: byte) = length p"
    using unat_byte_of_mod [of "length p"] by simp
  then show ?thesis using assms
    by (simp add: mk_fork_def Let_def nodeForkHeaderSize_def fill_prefix)
qed

lemma read_fork02_fork_bytes:
  assumes J: "json_ok J" and f: "fork_ready k f" and x: "fork_bytes J f = Inr x" and off: "off = length pre"
  shows "read_fork02 J (pre @ x @ post) k off = Inr (fork_ref f, length x)"
proof -
  obtain p c where fp: "f = (p, c)" by fastforce
  obtain r where r: "n_ref (data c) = Some r" "length r = k" and p: "p \<noteq> []" "length p \<le> nodePrefixMaxSize"
    using f by (auto simp: fork_ready_def fp)
  define h where "h = nodeType (data c) # word_of_nat (length p) # fill nodePrefixMaxSize p"
  have lh: "length h = nodeForkPreReferenceSize" by (simp add: h_def nodePrefixMaxSize_def nodeForkPreReferenceSize_def)
  have h0: "(pre @ h @ z) ! off = nodeType (data c)" for z by (simp add: off h_def)
  note mk = mk_fork_head [OF p, of "nodeType (data c)", folded append_Cons, folded h_def]
  show ?thesis
  proof (cases "IsWithMetadataType c")
    case False
    then have xe: "x = h @ r" using x r by (auto simp: fork_bytes_def fp Let_def h_def split: if_splits)
    have "take (nodeForkPreReferenceSize + k) (drop off (pre @ x @ post)) = x"
      using lh r by (simp add: off xe)
    moreover have "drop nodeForkPreReferenceSize x = r" unfolding xe using lh by (metis append_eq_conv_conj)
    ultimately have "fork_fromBytes (take (nodeForkPreReferenceSize + k) (drop off (pre @ x @ post))) = Inr (fork_ref f)"
      using mk [of r r "[]"] False r
      by (simp add: fork_fromBytes_def fork_ref_def ref_node_def fp xe)
    moreover have "(pre @ x @ post) ! off = nodeType (data c)" using h0 by (simp add: xe)
    moreover have "length x = nodeForkPreReferenceSize + k" using lh r by (simp add: xe)
    ultimately show ?thesis using False
      by (simp add: read_fork02_def read_fork01_def Let_def off nodeTypeIsWithMetadataType_def IsWithMetadataType_def
          nodeForkPreReferenceSize_def)
  next
    case True
    then obtain j where j: "json_Marshal J (n_metadata (data c)) = Inr j"
      and m: "length (pad_metadata j) \<le> 65535" and xe: "x = h @ r @ be_bytes 2 (length (pad_metadata j)) @ pad_metadata j"
      using x r by (auto simp: fork_bytes_def fp Let_def h_def split: if_splits sum.splits)
    let ?m = "pad_metadata j" and ?d = "pre @ x @ post"
    have um: "json_Unmarshal J ?m = Inr (n_metadata (data c))" and ne: "0 < length ?m"
      using J j pad_metadata_shape [of j] by (auto simp: json_ok_def)
    have lx: "length x = nodeForkPreReferenceSize + k + 2 + length ?m" using lh r by (simp add: xe)
    have t: "?d ! off = nodeType (data c)" using h0 by (simp add: xe)
    have dropx: "drop (nodeForkPreReferenceSize + k) x = be_bytes 2 (length ?m) @ ?m"
      using lh r by (simp add: xe)
    then have "drop (off + (nodeForkPreReferenceSize + k)) ?d = be_bytes 2 (length ?m) @ ?m @ post"
      using lx by (simp add: off)
    then have msize: "be_val (take 2 (drop (off + (nodeForkPreReferenceSize + k)) ?d)) = length ?m"
      using m by simp
    have tk: "take (nodeForkPreReferenceSize + k + 2 + length ?m) (drop off ?d) = x" using lx by (simp add: off)
    have "take k (drop nodeForkPreReferenceSize x) = r" using lh r by (simp add: xe)
    moreover have "drop (nodeForkPreReferenceSize + k + 2) x = ?m"
      using dropx by (metis append_eq_conv_conj drop_drop add.commute length_be_bytes)
    ultimately have "fork_fromBytes02 J x k (length ?m) = Inr (fork_ref f)"
      using mk True r um ne
      by (simp add: fork_fromBytes02_def Let_def fork_ref_def ref_node_def fp nodeForkMetadataBytesSize_def xe)
    then show ?thesis using True t msize tk lx
      by (simp add: read_fork02_def Let_def off nodeTypeIsWithMetadataType_def IsWithMetadataType_def
          nodeForkMetadataBytesSize_def)
  qed
qed

lemma read_forks_forks_bytes:
  assumes J: "json_ok J" and ready: "\<forall>b \<in> set bs. \<exists>f. fs b = Some f \<and> fork_ready k f"
    and y: "forks_bytes J fs bs = Inr y"
  shows "\<exists>acc'. read_forks (read_fork02 J (pre @ y) k) bs (length pre) acc = (None, acc') \<and>
    (\<forall>b. map_of acc' b = (if b \<in> set bs then map_option fork_ref (fs b) else map_of acc b))"
  using ready y
proof (induction bs arbitrary: pre acc y)
  case Nil
  then show ?case by simp
next
  case (Cons b bs)
  then obtain f where f: "fs b = Some f" "fork_ready k f" by auto
  obtain x y' where x: "fork_bytes J f = Inr x" and y': "forks_bytes J fs bs = Inr y'" and y: "y = x @ y'"
    using Cons.prems f by (auto split: sum.splits)
  have r: "read_fork02 J (pre @ y) k (length pre) = Inr (fork_ref f, length x)"
    unfolding y by (rule read_fork02_fork_bytes [OF J f(2) x refl])
  have "\<exists>acc'. read_forks (read_fork02 J ((pre @ x) @ y') k) bs (length (pre @ x)) (AList.update b (fork_ref f) acc)
      = (None, acc') \<and> (\<forall>b'. map_of acc' b' = (if b' \<in> set bs then map_option fork_ref (fs b')
        else map_of (AList.update b (fork_ref f) acc) b'))"
    using Cons.prems(1) y' by (intro Cons.IH) auto
  then show ?case using r f by (auto simp: y update_conv')
qed

section \<open>Nodes\<close>

lemma version_hashes: "length version02HashBytes = 31" "version02HashBytes \<noteq> version01HashBytes"
  by (simp_all add: version01HashBytes_def version02HashBytes_def)

text \<open>The parts of the encoding, at the offsets \<open>UnmarshalBinary\<close> reads.\<close>

lemma encoding_parts:
  assumes "length key = 32" and "raw = (key @ version02HashBytes @ [word_of_nat k]) @ e @ index @ fb"
    and "length e = k" and "k < 256" and "length index = 32"
  shows "take 32 raw = key" "take 31 (drop 32 raw) = version02HashBytes" "unat (raw ! 63) = k"
    "take k (drop 64 raw) = e" "take 32 (drop (64 + k) raw) = index" "64 + k + 32 \<le> length raw"
    "raw = (((key @ version02HashBytes @ [word_of_nat k]) @ e) @ index) @ fb"
proof -
  have k: "unat (word_of_nat k :: byte) = k" using unat_byte_of_mod [of k] assms(4) by simp
  have l: "length (key @ version02HashBytes @ [word_of_nat k]) = 64" using assms(1) by (simp add: version_hashes)
  show "take 32 raw = key" "take 31 (drop 32 raw) = version02HashBytes"
    using assms(1) by (simp_all add: assms(2) version_hashes)
  have "raw ! 63 = (key @ version02HashBytes @ [word_of_nat k]) ! 63" using l by (simp only: assms(2) nth_append) simp
  also have "\<dots> = word_of_nat k" using assms(1) by (simp add: nth_append version_hashes)
  finally show "unat (raw ! 63) = k" using k by simp
  show "take k (drop 64 raw) = e" "take 32 (drop (64 + k) raw) = index" "64 + k + 32 \<le> length raw"
    using l assms(3,5) unfolding assms(2) by (simp_all del: append_assoc)
qed (simp add: assms(2))

lemma Unmarshal_Marshal:
  assumes J: "json_ok J" and m: "MarshalBinary J key0 (Node d (Some fs)) = (Inr bytes, n1)"
    and key: "length (obfuscationKey (data n1)) = 32"
    and k: "refBytesSize d < 256" and ready: "\<forall>(b, f) \<in> set fs. fork_ready (refBytesSize d) f"
  shows "\<exists>d1 fs'. UnmarshalBinary J bytes (Node d0 None) = (None, Node d1 (Some fs')) \<and>
    (\<forall>b. map_of fs' b = map_option fork_ref (map_of fs b)) \<and> n_entry d1 = fill (refBytesSize d) (n_entry d) \<and>
    n_metadata d1 = n_metadata d0 \<and> n_ref d1 = n_ref d0 \<and> nodeType d1 \<in> {nodeType d0, nodeType d0 OR nodeTypeEdge}"
proof -
  define ky where "ky = obfuscationKey (data n1)"
  define index where "index = fold bb_set (map fst fs) (replicate 32 0)"
  define raw where "raw = (ky @ version02HashBytes @ [word_of_nat (refBytesSize d)])
    @ fill (refBytesSize d) (n_entry d) @ index @ (case forks_bytes J (map_of fs) (bb_members index) of Inr fb \<Rightarrow> fb)"
  have n1: "n1 = (if obfuscationKey d = [] then Node (d\<lparr>obfuscationKey := key0\<rparr>) (Some fs) else Node d (Some fs))"
    using m by (auto simp: MarshalBinary_def Let_def upd_def split: sum.splits if_splits)
  obtain fb where fb: "forks_bytes J (map_of fs) (bb_members index) = Inr fb"
    using m by (auto simp: MarshalBinary_def Let_def index_def split: sum.splits)
  have fl: "fill nodeObfuscationKeySize ky = ky" using key by (simp add: ky_def fill_def nodeObfuscationKeySize_def)
  have bytes: "bytes = obfuscate ky raw"
    using m fb fl by (auto simp: MarshalBinary_def Let_def index_def raw_def ky_def n1 upd_def split: sum.splits if_splits)
  have li: "length index = 32" by (simp add: index_def)
  have lk: "length ky = 32" using key by (simp add: ky_def)
  note parts = encoding_parts [OF lk raw_def _ k li, unfolded fb sum.case, simplified]
  have mem: "bb_members index = filter (\<lambda>b. b \<in> fst ` set fs) all_bytes" by (simp add: index_def bb_members_fold)
  have r: "\<forall>b \<in> set (bb_members index). \<exists>f. map_of fs b = Some f \<and> fork_ready (refBytesSize d) f"
  proof
    fix b assume "b \<in> set (bb_members index)"
    then obtain f where f: "map_of fs b = Some f" by (auto simp: mem dom_map_of_conv_image_fst [symmetric])
    with ready map_of_SomeD [OF f] show "\<exists>f. map_of fs b = Some f \<and> fork_ready (refBytesSize d) f" by auto
  qed
  obtain fs' where fs': "read_forks (read_fork02 J raw (refBytesSize d)) (bb_members index) (64 + refBytesSize d + 32) [] = (None, fs')"
    "\<And>b. map_of fs' b = (if b \<in> set (bb_members index) then map_option fork_ref (map_of fs b) else None)"
    using read_forks_forks_bytes [OF J r fb, of "ky @ version02HashBytes @ word_of_nat (refBytesSize d) #
       fill (refBytesSize d) (n_entry d) @ index" "[]"] lk li by (auto simp: raw_def fb version_hashes)
  have "map_of fs' b = map_option fork_ref (map_of fs b)" for b
    using fs'(2) [of b] all_bytes(2) by (auto simp: mem dom_map_of_conv_image_fst [symmetric])
  then show ?thesis
    using parts version_hashes fs'(1) lk by (auto simp: UnmarshalBinary_def bytes Let_def nodeHeaderSize_def
        nodeObfuscationKeySize_def versionHashSize_def upd_def makeEdge_def)
qed

end
