(* ===== verification/MantarayPersist.thy ===== *)
theory MantarayPersist
  imports MantarayCodec
begin

text \<open>
  Saving a trie and reading it back through references: \<open>Save\<close> writes every node below the root, and a
  lookup that starts from the root's reference loads the nodes on its way and finds what the trie in
  memory held. The last section states where an update of a persisted trie is lost.
\<close>

section \<open>Tries that are ready to be saved\<close>

fun all_nodes :: "(node_data \<Rightarrow> bool) \<Rightarrow> Node \<Rightarrow> bool" where
  "all_nodes P (Node d fo) = (P d \<and> (case fo of None \<Rightarrow> True | Some fs \<Rightarrow> \<forall>(b, p, c) \<in> set fs. all_nodes P c))"

text \<open>\<open>M\<close> is what is known of the metadata of the trie.\<close>

definition ready_data :: "nat \<Rightarrow> (metadata \<Rightarrow> bool) \<Rightarrow> node_data \<Rightarrow> bool" where
  "ready_data k M d \<longleftrightarrow> refBytesSize d = k \<and> n_ref d = None \<and> length (obfuscationKey d) \<in> {0, 32} \<and>
     (nodeType d AND nodeTypeWithMetadata = nodeTypeWithMetadata \<longleftrightarrow> n_metadata d \<noteq> []) \<and>
     (n_metadata d \<noteq> [] \<longrightarrow> M (n_metadata d))"

abbreviation ready :: "nat \<Rightarrow> (metadata \<Rightarrow> bool) \<Rightarrow> Node \<Rightarrow> bool" where
  "ready k M \<equiv> all_nodes (ready_data k M)"

lemma all_nodes_data: "all_nodes P n \<Longrightarrow> P (data n)"
  by (cases n) simp

lemma all_nodes_fork_at: "all_nodes P n \<Longrightarrow> fork_at n b = Some (p, c) \<Longrightarrow> all_nodes P c"
  by (cases n) (fastforce simp: fork_at_def split: option.splits dest: map_of_SomeD)

lemma all_nodes_same_forks: "all_nodes P n \<Longrightarrow> forks m = forks n \<Longrightarrow> P (data m) \<Longrightarrow> all_nodes P m"
  by (cases m; cases n) simp

lemma all_nodes_put:
  assumes "all_nodes P n" and "all_nodes P c" and "wf_node n" and "put_fork b (p, c) n = (None, n')"
    and "P (data n) \<Longrightarrow> P (data (makeEdge n))"
  shows "all_nodes P n'"
proof -
  obtain d fs where n: "n = Node d (Some fs)" "distinct (map fst fs)" using assms(3) by (cases n rule: wf_node.cases) auto
  have "all_nodes P (set_fork b (p, c) n)" using assms(1,2) n(2) by (auto simp: n(1) set_fork_def set_update_cases)
  moreover have "n' = makeEdge (set_fork b (p, c) n)" using assms(4) by (simp add: put_fork_def n split: if_splits)
  moreover have "P (data (makeEdge (set_fork b (p, c) n)))"
    using assms(5) all_nodes_data [OF assms(1)] by (simp add: makeEdge_def set_fork_def)
  ultimately show ?thesis using all_nodes_same_forks [of P "set_fork b (p, c) n" n'] by simp
qed

lemma ready_simps:
  "ready_data k M (data n) \<Longrightarrow> ready_data k M (data (makeEdge n))"
  "ready_data k M (data n) \<Longrightarrow> ready_data k M (data (makeValue n))"
  "ready_data k M (data n) \<Longrightarrow> ready_data k M (data (updateIsWithPathSeparator p n))"
  "ready_data k M (data n) \<Longrightarrow> (m \<noteq> [] \<Longrightarrow> M m) \<Longrightarrow> ready_data k M (data (set_value e m n))"
  "ready_data k M (data n) \<Longrightarrow> ready_data k M (data (child_of n))"
  "ready_data k M (data n) \<Longrightarrow> ready_data k M (data (split_node n rest c whole))"
proof -
  note defs = ready_data_def makeValue_def makeEdge_def makeWithMetadata_def split_node_def set_fork_def
    makeWithPathSeparator_def makeNotWithPathSeparator_def updateIsWithPathSeparator_def nodeTypeValue_def
    nodeTypeEdge_def nodeTypeWithMetadata_def nodeTypeWithPathSeparator_def nodeTypeMask_def
    set_value_def child_of_def SetObfuscationKey_def New_def zero_data_def Let_def
  have bits: "(x OR 4) AND 16 = x AND 16" "(x OR 8) AND 16 = x AND 16" "(247 AND x) AND 16 = x AND 16"
    "(x OR 2) AND 16 = x AND 16" "(x OR 16) AND 16 = 16" for x :: u8
    by (simp_all add: bit.conj_disj_distrib2) (simp add: and.commute [of 247] and.assoc)
  show "ready_data k M (data n) \<Longrightarrow> ready_data k M (data (makeEdge n))"
    "ready_data k M (data n) \<Longrightarrow> ready_data k M (data (makeValue n))"
    "ready_data k M (data n) \<Longrightarrow> ready_data k M (data (updateIsWithPathSeparator p n))"
    "ready_data k M (data n) \<Longrightarrow> (m \<noteq> [] \<Longrightarrow> M m) \<Longrightarrow> ready_data k M (data (set_value e m n))"
    "ready_data k M (data n) \<Longrightarrow> ready_data k M (data (child_of n))"
    "ready_data k M (data n) \<Longrightarrow> ready_data k M (data (split_node n rest c whole))"
    by (auto simp: defs bits)
qed

lemma ready_child_of: "ready_data k M (data n) \<Longrightarrow> ready k M (child_of n)"
  by (rule all_nodes_same_forks [of _ "Node (data (child_of n)) (Some [])"]) (auto intro: ready_simps)

text \<open>A step of \<open>Add\<close> on a loaded trie, without the loading.\<close>

lemma Add_loaded:
  assumes "wf_node n" and "check_entry entry n = Inr n1" and "path \<noteq> []"
  shows "Add J l path entry m n =
    (case fork_at n1 (hd path) of
       None \<Rightarrow>
         if nodePrefixMaxSize < length path then
           (case Add J l (drop nodePrefixMaxSize path) entry m (child_of n1) of
              (Some e, _) \<Rightarrow> (Some e, n1)
            | (None, nn) \<Rightarrow> put_fork (hd path) (take nodePrefixMaxSize path,
                updateIsWithPathSeparator (take nodePrefixMaxSize path) nn) n1)
         else put_fork (hd path) (path, updateIsWithPathSeparator path (set_value entry m (child_of n1))) n1
     | Some (pre, c) \<Rightarrow>
         let com = common pre path;
             rest = drop (length com) pre;
             c1 = (if rest \<noteq> [] then updateIsWithPathSeparator rest c else c);
             nn = (if rest \<noteq> [] then split_node n1 rest c1 (length path = length com) else c1) in
         (case Add J l (drop (length com) path) entry m (updateIsWithPathSeparator path nn) of
            (Some e, nn') \<Rightarrow> (Some e, set_fork (hd path) (pre, if rest \<noteq> [] then c1 else nn') n1)
          | (None, nn') \<Rightarrow> put_fork (hd path) (com, nn') n1))"
proof -
  obtain fs where fs: "forks n = Some fs" using wf_node_forks [OF assms(1)] by blast
  then have n1: "ensure_loaded J l n1 = (None, n1)" "forks n1 \<noteq> None"
    using check_entry_forks [OF assms(2)] by (auto simp: ensure_loaded_def)
  show ?thesis by (subst Add.simps) (simp add: assms(2,3) n1 Let_def cong: option.case_cong)
qed

text \<open>\<open>Add\<close> with entries of the size of the trie keeps it ready.\<close>

lemma ready_separator: "ready k M c \<Longrightarrow> ready k M (updateIsWithPathSeparator p c)"
  using all_nodes_same_forks [of "ready_data k M" c "updateIsWithPathSeparator p c"]
    ready_simps(3) [OF all_nodes_data [of "ready_data k M" c], of p] by simp

lemma ready_fork_node:
  assumes "ready k M n" and "ready k M c" and "rest \<noteq> []"
  shows "ready k M (split_node n rest c whole)"
proof (rule all_nodes_same_forks)
  have d: "ready_data k M (data (split_node n rest c whole))" by (rule ready_simps(6) [OF all_nodes_data [OF assms(1)]])
  then show "ready k M (Node (data (split_node n rest c whole)) (Some [(hd rest, rest, c)]))" using assms(2) by simp
  show "ready_data k M (data (split_node n rest c whole))" by (rule d)
qed simp

lemma check_entry_ready: "ready k M c \<Longrightarrow> entry = [] \<or> length entry = k \<Longrightarrow> check_entry entry c = Inr c"
  by (drule all_nodes_data) (auto simp: check_entry_def ready_data_def)

lemma Add_ready:
  assumes mM: "m \<noteq> [] \<Longrightarrow> M m"
  shows "wf_node n \<Longrightarrow> check_entry entry n = Inr n1 \<Longrightarrow> ready k M n1 \<Longrightarrow> entry = [] \<or> length entry = k \<Longrightarrow> k \<le> 256 \<Longrightarrow>
   sizes_ok k n \<Longrightarrow> Add J l path entry m n = (None, n') \<Longrightarrow> ready k M n'"
proof (induction "length path" arbitrary: path n n1 n' rule: less_induct)
  case less
  have wf: "wf_node n1" using wf_node_same_forks [of n1 n] less.prems(1) check_entry_forks [OF less.prems(2)] by simp
  have rd: "ready_data k M (data n1)" by (rule all_nodes_data [OF less.prems(3)])
  have sz: "sizes_ok k n1" using check_entry_ok [OF less.prems(6), of entry] less.prems(2,4,5) by auto
  note put = all_nodes_put [OF less.prems(3) _ wf _ ready_simps(1)]
  show ?case
  proof (cases "path = []")
    case True
    then have "n' = upd (\<lambda>d. d\<lparr>n_ref := None\<rparr>) (set_value entry m n1)"
      using less.prems(2,7) by (simp add: Add.simps)
    moreover have "ready_data k M (data (upd (\<lambda>d. d\<lparr>n_ref := None\<rparr>) (set_value entry m n1)))"
      using ready_simps(4) [OF rd mM, of entry] by (simp add: ready_data_def)
    ultimately show ?thesis using all_nodes_same_forks [OF less.prems(3), of n'] by simp
  next
    case ne: False
    note add = less.prems(7) [unfolded Add_loaded [OF less.prems(1,2) ne]]
    show ?thesis
    proof (cases "fork_at n1 (hd path)")
      case None
      have ch: "ready k M (child_of n1)" by (rule ready_child_of [OF rd])
      show ?thesis
      proof (cases "nodePrefixMaxSize < length path")
        case True
        let ?rest = "drop nodePrefixMaxSize path" and ?p = "take nodePrefixMaxSize path"
        obtain nn where a: "Add J l ?rest entry m (child_of n1) = (None, nn)"
          and p: "put_fork (hd path) (?p, updateIsWithPathSeparator ?p nn) n1 = (None, n')"
          using add None True by (auto split: prod.splits option.splits)
        have "length ?rest < length path" using True by (simp add: nodePrefixMaxSize_def)
        then have "ready k M nn"
          by (rule less.hyps [OF _ wf_child_of check_entry_ready [OF ch less.prems(4)] ch less.prems(4,5) sizes_child_of [OF sz] a])
        from put [OF ready_separator [OF this] p] show ?thesis .
      next
        case False
        then have p: "put_fork (hd path) (path, updateIsWithPathSeparator path (set_value entry m (child_of n1))) n1 = (None, n')"
          using add None by simp
        have "ready k M (set_value entry m (child_of n1))"
          using ready_simps(4) [OF all_nodes_data [OF ch] mM] all_nodes_same_forks [OF ch] by simp
        from put [OF ready_separator [OF this] p] show ?thesis .
      qed
    next
      case (Some f)
      then obtain pre c where f: "fork_at n1 (hd path) = Some (pre, c)" by (cases f) auto
      define com where "com = common pre path"
      define rest where "rest = drop (length (common pre path)) pre"
      define c1 where "c1 = (if rest \<noteq> [] then updateIsWithPathSeparator rest c else c)"
      define nn where "nn = updateIsWithPathSeparator path
        (if rest \<noteq> [] then split_node n1 rest c1 (length path = length com) else c1)"
      obtain nn' where a: "Add J l (drop (length com) path) entry m nn = (None, nn')"
        and p: "put_fork (hd path) (com, nn') n1 = (None, n')"
        using add f unfolding nn_def c1_def rest_def com_def by (auto simp: Let_def split: prod.splits option.splits)
      have ok: "wf_node nn \<and> sizes_ok k nn \<and>
          (\<forall>q. prefix com q \<longrightarrow> q \<noteq> path \<longrightarrow> value_at nn (drop (length com) q) = value_at n1 q) \<and>
          meta_at nn (drop (length com) path) = meta_at n1 path"
        unfolding nn_def c1_def rest_def com_def by (rule fork_node_ok [OF wf sz f ne])
      have c: "ready k M c1"
        using all_nodes_fork_at [OF less.prems(3) f] ready_separator by (simp add: c1_def)
      have r: "ready k M nn"
        using ready_separator [OF c] ready_separator [OF ready_fork_node [OF less.prems(3) c]] by (simp add: nn_def)
      have "com \<noteq> []" using wf_node_fork_at [OF wf f] ne by (cases pre; cases path) (auto simp: com_def)
      then have "length (drop (length com) path) < length path" using ne by simp
      then have "ready k M nn'"
        by (rule less.hyps [OF _ conjunct1 [OF ok] check_entry_ready [OF r less.prems(4)] r less.prems(4,5)
              conjunct1 [OF conjunct2 [OF ok]] a])
      from put [OF this p] show ?thesis .
    qed
  qed
qed

section \<open>Stored tries\<close>

text \<open>What the load-saver promises: a saved blob is loaded under its reference, of the size \<open>k\<close>, and stays;
  a random key has 32 bytes and drawing one does not touch the store.\<close>

definition saver_ok :: "nat \<Rightarrow> 'w Saver \<Rightarrow> ('w \<Rightarrow> bytes \<Rightarrow> string + bytes) \<Rightarrow> bool" where
  "saver_ok k S ld \<longleftrightarrow>
     (\<forall>bs w r w'. sv_Save S bs w = Inr (r, w') \<longrightarrow> length r = k \<and> ld w' r = Inr bs \<and>
        (\<forall>r' b. ld w r' = Inr b \<longrightarrow> ld w' r' = Inr b)) \<and>
     (\<forall>w key w'. sv_rand S w = (key, w') \<longrightarrow> length key = 32 \<and> ld w' = ld w)"

definition grows :: "(bytes \<Rightarrow> string + bytes) \<Rightarrow> (bytes \<Rightarrow> string + bytes) \<Rightarrow> bool" where
  "grows l l' \<longleftrightarrow> (\<forall>r b. l r = Inr b \<longrightarrow> l' r = Inr b)"

lemma grows_trans: "grows a b \<Longrightarrow> grows b c \<Longrightarrow> grows a c"
  by (simp add: grows_def)

lemma grows_refl [simp]: "grows a a"
  by (simp add: grows_def)

definition decodes :: "json \<Rightarrow> nat \<Rightarrow> bytes \<Rightarrow> node_data \<Rightarrow> (byte \<rightharpoonup> bytes \<times> Node) \<Rightarrow> bool" where
  "decodes J k b d refs \<longleftrightarrow> (\<forall>d0. \<exists>d1 fs'. UnmarshalBinary J b (Node d0 None) = (None, Node d1 (Some fs')) \<and>
     map_of fs' = refs \<and> n_entry d1 = fill k (n_entry d) \<and> n_metadata d1 = n_metadata d0 \<and>
     nodeType d1 \<in> {nodeType d0, nodeType d0 OR nodeTypeEdge})"

text \<open>The trie \<open>n\<close> can be loaded from the reference \<open>r\<close>; \<open>rs\<close> gives the references of its children.\<close>

inductive stored :: "json \<Rightarrow> nat \<Rightarrow> (bytes \<Rightarrow> string + bytes) \<Rightarrow> Node \<Rightarrow> bytes \<Rightarrow> bool" for J k ld where
  stored: "ld r = Inr b \<Longrightarrow>
     decodes J k b d (\<lambda>x. map_option (\<lambda>(p, c). (p, ref_node (rs x) c)) (map_of fs x)) \<Longrightarrow>
     (\<forall>x p c. map_of fs x = Some (p, c) \<longrightarrow> stored J k ld c (rs x)) \<Longrightarrow>
     stored J k ld (Node d (Some fs)) r"

lemma stored_grows: "stored J k ld n r \<Longrightarrow> grows ld ld' \<Longrightarrow> stored J k ld' n r"
proof (induction rule: stored.induct)
  case (stored r b d rs fs)
  show ?case
  proof (rule stored.stored)
    show "ld' r = Inr b" using stored by (simp add: grows_def)
  qed (use stored in auto)
qed

text \<open>A saved node: its reference, with its type and metadata unchanged.\<close>

definition saved_as :: "json \<Rightarrow> nat \<Rightarrow> (bytes \<Rightarrow> string + bytes) \<Rightarrow> Node \<Rightarrow> Node \<Rightarrow> bool" where
  "saved_as J k ld n n' \<longleftrightarrow> (\<exists>r. n_ref (data n') = Some r \<and> length r = k \<and> stored J k ld n r) \<and>
     nodeType (data n') = nodeType (data n) \<and> n_metadata (data n') = n_metadata (data n)"

lemma saved_as_grows: "saved_as J k ld n n' \<Longrightarrow> grows ld ld' \<Longrightarrow> saved_as J k ld' n n'"
  by (auto simp: saved_as_def dest: stored_grows)

definition forks_saved :: "json \<Rightarrow> nat \<Rightarrow> (bytes \<Rightarrow> string + bytes)
    \<Rightarrow> (byte \<times> bytes \<times> Node) list \<Rightarrow> (byte \<times> bytes \<times> Node) list \<Rightarrow> bool" where
  "forks_saved J k ld = list_all2 (\<lambda>(b, p, c) (b', p', c'). b' = b \<and> p' = p \<and> saved_as J k ld c c')"

lemma forks_saved_map_of:
  "forks_saved J k ld fs fs' \<Longrightarrow> (map_of fs x = None \<longleftrightarrow> map_of fs' x = None) \<and>
   (\<forall>p c. map_of fs x = Some (p, c) \<longrightarrow> (\<exists>c'. map_of fs' x = Some (p, c') \<and> saved_as J k ld c c'))"
  unfolding forks_saved_def by (induction rule: list_all2_induct) (auto split: if_splits)

lemma save_node_stored:
  assumes J: "json_ok J" and S: "saver_ok k S ld" and k: "k < 256" and rd: "ready_data k M d"
    and fs: "forks_saved J k (ld w) fs fs'"
    and pre: "\<forall>(b, p, c) \<in> set fs. p \<noteq> [] \<and> length p \<le> nodePrefixMaxSize"
    and save: "save_node J S (Node d (Some fs')) w = (None, n', w')"
  shows "saved_as J k (ld w') (Node d (Some fs)) n' \<and> grows (ld w) (ld w')"
proof -
  obtain key w1 where key: "(if obfuscationKey d = [] then sv_rand S w else ([], w)) = (key, w1)" by (metis prod.exhaust)
  obtain bytes n1 where m: "MarshalBinary J key (Node d (Some fs')) = (Inr bytes, n1)"
    using save key by (auto simp: save_node_def split: prod.splits sum.splits)
  obtain r where sv: "sv_Save S bytes w1 = Inr (r, w')" and n': "n' = Node ((data n1)\<lparr>n_ref := Some r\<rparr>) None"
    using save key m by (auto simp: save_node_def split: prod.splits sum.splits)
  have ld1: "ld w1 = ld w" "obfuscationKey d = [] \<Longrightarrow> length key = 32"
    using key S by (auto simp: saver_ok_def split: if_splits)
  have n1: "n1 = (if obfuscationKey d = [] then Node (d\<lparr>obfuscationKey := key\<rparr>) (Some fs') else Node d (Some fs'))"
    using m by (auto simp: MarshalBinary_def Let_def upd_def split: sum.splits if_splits)
  have r: "length r = k" "ld w' r = Inr bytes" "grows (ld w) (ld w')"
    using S sv ld1(1) by (auto simp: saver_ok_def grows_def)
  have kk: "length (obfuscationKey (data n1)) = 32" "refBytesSize d = k"
    using rd ld1(2) by (auto simp: n1 ready_data_def)
  have ready: "fork_ready (refBytesSize d) (p, c')" if "(b, p, c') \<in> set fs'" for b p c'
  proof -
    obtain i where i: "i < length fs'" "fs' ! i = (b, p, c')" using \<open>(b, p, c') \<in> set fs'\<close> by (auto simp: in_set_conv_nth)
    then obtain c where "fs ! i = (b, p, c)" "i < length fs" "saved_as J k (ld w) c c'"
      using fs by (cases "fs ! i") (auto simp: forks_saved_def list_all2_conv_all_nth)
    moreover from this have "p \<noteq> []" "length p \<le> nodePrefixMaxSize" using pre nth_mem by fastforce+
    ultimately show ?thesis by (auto simp: fork_ready_def saved_as_def kk)
  qed
  define rs where "rs x = the (n_ref (data (snd (the (map_of fs' x)))))" for x
  have ref: "map_option fork_ref (map_of fs' x) = map_option (\<lambda>(p, c). (p, ref_node (rs x) c)) (map_of fs x)"
    "map_of fs x = Some (p, c) \<Longrightarrow> stored J k (ld w) c (rs x)" for x p c
  proof -
    note f = forks_saved_map_of [OF fs, of x]
    show "map_option fork_ref (map_of fs' x) = map_option (\<lambda>(p, c). (p, ref_node (rs x) c)) (map_of fs x)"
    proof (cases "map_of fs x")
      case (Some f0)
      then obtain p0 c0 c' where "f0 = (p0, c0)" "map_of fs' x = Some (p0, c')" "saved_as J k (ld w) c0 c'"
        using f by (cases f0) auto
      with Some show ?thesis by (simp add: fork_ref_def ref_node_def rs_def saved_as_def IsWithMetadataType_def)
    qed (use f in simp)
    show "stored J k (ld w) c (rs x)" if "map_of fs x = Some (p, c)"
      using f that by (auto simp: rs_def saved_as_def)
  qed
  have "decodes J k bytes d (\<lambda>x. map_option (\<lambda>(p, c). (p, ref_node (rs x) c)) (map_of fs x))"
    unfolding decodes_def
  proof
    fix d0
    have "\<forall>(b, f) \<in> set fs'. fork_ready (refBytesSize d) f" using ready by auto
    from Unmarshal_Marshal [OF J m kk(1) _ this, of d0] k kk(2) ref(1)
    show "\<exists>d1 fs'. UnmarshalBinary J bytes (Node d0 None) = (None, Node d1 (Some fs')) \<and>
      map_of fs' = (\<lambda>x. map_option (\<lambda>(p, c). (p, ref_node (rs x) c)) (map_of fs x)) \<and>
      n_entry d1 = fill k (n_entry d) \<and> n_metadata d1 = n_metadata d0 \<and>
      nodeType d1 \<in> {nodeType d0, nodeType d0 OR nodeTypeEdge}" by (simp add: fun_eq_iff) blast
  qed
  then have "stored J k (ld w') (Node d (Some fs)) r"
    using r ref(2) by (intro stored.stored [where rs = rs]) (auto intro: stored_grows)
  then show ?thesis using r by (simp add: saved_as_def n' n1)
qed

lemma save_stored:
  assumes k: "k < 256"
  shows "json_ok J \<Longrightarrow> saver_ok k S ld \<Longrightarrow> wf_node n \<Longrightarrow> ready k M n \<Longrightarrow> save J S n w = (None, n', w') \<Longrightarrow>
      saved_as J k (ld w') n n' \<and> grows (ld w) (ld w')"
    and "json_ok J \<Longrightarrow> saver_ok k S ld \<Longrightarrow> \<forall>(b, p, c) \<in> set fs. wf_node c \<and> ready k M c \<Longrightarrow>
      save_forks J S fs w = (None, fs', w') \<Longrightarrow> forks_saved J k (ld w') fs fs' \<and> grows (ld w) (ld w')"
proof (induction J S n w and J S fs w arbitrary: n' w' and fs' w' rule: save_save_forks.induct)
  case (1 J S d fo w)
  obtain fs where fs: "fo = Some fs" using "1.prems"(3) by (cases fo) auto
  have rd: "ready_data k M d" using "1.prems"(4) by simp
  then have ref: "n_ref d = None" by (simp add: ready_data_def)
  obtain e fs1 w1 where sf: "save_forks J S fs w = (e, fs1, w1)" by (metis prod.exhaust)
  with "1.prems"(5) ref fs have e: "e = None" by (cases e) auto
  have "\<forall>(b, p, c) \<in> set fs. wf_node c \<and> ready k M c" using "1.prems"(3,4) fs by auto
  from "1.IH" [OF _ fs "1.prems"(1,2) this] ref sf e
  have ih: "forks_saved J k (ld w1) fs fs1" "grows (ld w) (ld w1)" by auto
  have "save_node J S (Node d (Some fs1)) w1 = (None, n', w')" using "1.prems"(5) ref fs sf e by simp
  moreover have "\<forall>(b, p, c) \<in> set fs. p \<noteq> [] \<and> length p \<le> nodePrefixMaxSize" using "1.prems"(3) fs by auto
  ultimately show ?case using save_node_stored [OF "1.prems"(1,2) k rd ih(1)] ih(2) fs grows_trans by blast
next
  case (2 J S w)
  then show ?case by (simp add: forks_saved_def)
next
  case (3 J S b p c fs w)
  obtain e c' w1 where s: "save J S c w = (e, c', w1)" by (metis prod.exhaust)
  with "3.prems"(4) have e: "e = None" by (cases e) auto
  obtain fs2 where f: "save_forks J S fs w1 = (None, fs2, w')" "fs' = (b, p, c') # fs2"
    using "3.prems"(4) s e by (auto split: prod.splits)
  have "saved_as J k (ld w1) c c'" "grows (ld w) (ld w1)"
    using "3.IH"(1) [OF "3.prems"(1,2)] "3.prems"(3) s e by auto
  moreover have "forks_saved J k (ld w') fs fs2" "grows (ld w1) (ld w')"
    using "3.IH"(2) [OF s [symmetric] e refl "3.prems"(1,2)] "3.prems"(3) f(1) by auto
  ultimately show ?case using f(2) saved_as_grows grows_trans by (auto simp: forks_saved_def)
qed

text \<open>Saving succeeds when the saver has room for as many blobs as the trie has nodes and the encoded metadata
  is never too large.\<close>

definition accepts :: "'w Saver \<Rightarrow> ('w \<Rightarrow> nat) \<Rightarrow> bool" where
  "accepts S room \<longleftrightarrow>
     (\<forall>bs w. 0 < room w \<longrightarrow> (\<exists>r w'. sv_Save S bs w = Inr (r, w') \<and> room w \<le> Suc (room w'))) \<and>
     (\<forall>w key w'. sv_rand S w = (key, w') \<longrightarrow> room w' = room w)"

definition writable :: "json \<Rightarrow> metadata \<Rightarrow> bool" where
  "writable J m \<longleftrightarrow> (case json_Marshal J m of Inl _ \<Rightarrow> False | Inr j \<Rightarrow> length (pad_metadata j) \<le> 65535)"

abbreviation fork_writable :: "json \<Rightarrow> nat \<Rightarrow> bytes \<times> Node \<Rightarrow> bool" where
  "fork_writable J k f \<equiv> fork_ready k f \<and> (IsWithMetadataType (snd f) \<longrightarrow> writable J (n_metadata (data (snd f))))"

lemma forks_bytes_total:
  assumes "\<forall>b \<in> set bs. \<exists>f. fs b = Some f \<and> fork_writable J k f" and "k \<le> 256"
  shows "\<exists>y. forks_bytes J fs bs = Inr y"
  using assms(1)
proof (induction bs)
  case Nil
  then show ?case by simp
next
  case (Cons b bs)
  then obtain f y where f: "fs b = Some f" "fork_writable J k f" "forks_bytes J fs bs = Inr y" by auto
  then have "\<exists>x. fork_bytes J f = Inr x"
    using assms(2) by (cases f) (auto simp: fork_bytes_def fork_ready_def writable_def Let_def split: sum.splits)
  with f show ?case by auto
qed

lemma save_node_total:
  assumes acc: "accepts S room" and "\<forall>(b, f) \<in> set fs. fork_writable J k f" and "k \<le> 256" and "0 < room w"
  shows "\<exists>n' w'. save_node J S (Node d (Some fs)) w = (None, n', w') \<and> room w \<le> Suc (room w')"
proof -
  obtain key w1 where key: "(if obfuscationKey d = [] then sv_rand S w else ([], w)) = (key, w1)" by (metis prod.exhaust)
  then have room: "room w1 = room w" using acc by (auto simp: accepts_def split: if_splits)
  have "\<exists>y. forks_bytes J (map_of fs) (bb_members (fold bb_set (map fst fs) (replicate 32 0))) = Inr y"
  proof (rule forks_bytes_total [OF ballI assms(3)])
    fix b assume "b \<in> set (bb_members (fold bb_set (map fst fs) (replicate 32 0)))"
    then obtain f where f: "map_of fs b = Some f"
      by (auto simp: bb_members_fold dom_map_of_conv_image_fst [symmetric])
    with map_of_SomeD [OF f] assms(2) show "\<exists>f. map_of fs b = Some f \<and> fork_writable J k f" by auto
  qed
  then obtain bytes n1 where "MarshalBinary J key (Node d (Some fs)) = (Inr bytes, n1)"
    by (auto simp: MarshalBinary_def Let_def)
  moreover obtain r w2 where "sv_Save S bytes w1 = Inr (r, w2)" "room w1 \<le> Suc (room w2)"
    using acc assms(4) room unfolding accepts_def by metis
  ultimately show ?thesis using key room by (simp add: save_node_def)
qed

lemma forks_saved_ready:
  assumes "forks_saved J k ld fs fs'"
    and "\<forall>(b, p, c) \<in> set fs. p \<noteq> [] \<and> length p \<le> nodePrefixMaxSize \<and> ready_data k (writable J) (data c)"
  shows "\<forall>(b, f) \<in> set fs'. fork_writable J k f"
  using assms unfolding forks_saved_def
  by (induction rule: list_all2_induct) (auto simp: fork_ready_def saved_as_def ready_data_def IsWithMetadataType_def)

lemma save_total:
  assumes k: "k < 256"
  shows "json_ok J \<Longrightarrow> saver_ok k S ld \<Longrightarrow> accepts S room \<Longrightarrow> wf_node n \<Longrightarrow> ready k (writable J) n \<Longrightarrow> nodes n \<le> room w \<Longrightarrow>
      \<exists>n' w'. save J S n w = (None, n', w') \<and> room w \<le> room w' + nodes n"
    and "json_ok J \<Longrightarrow> saver_ok k S ld \<Longrightarrow> accepts S room \<Longrightarrow> \<forall>(b, p, c) \<in> set fs. wf_node c \<and> ready k (writable J) c \<Longrightarrow>
      sum_list (map (\<lambda>(b, p, c). nodes c) fs) \<le> room w \<Longrightarrow>
      \<exists>fs' w'. save_forks J S fs w = (None, fs', w') \<and> room w \<le> room w' + sum_list (map (\<lambda>(b, p, c). nodes c) fs)"
proof (induction J S n w and J S fs w rule: save_save_forks.induct)
  case (1 J S d fo w)
  obtain fs where fs: "fo = Some fs" using "1.prems"(4) by (cases fo) auto
  have ref: "n_ref d = None" using "1.prems"(5) by (simp add: ready_data_def)
  have ok: "\<forall>(b, p, c) \<in> set fs. wf_node c \<and> ready k (writable J) c" using "1.prems"(4,5) fs by auto
  obtain fs1 w1 where sf: "save_forks J S fs w = (None, fs1, w1)"
    and room: "room w \<le> room w1 + sum_list (map (\<lambda>(b, p, c). nodes c) fs)"
    using "1.IH" [OF _ fs "1.prems"(1-3) ok] ref "1.prems"(6) fs by auto
  have "forks_saved J k (ld w1) fs fs1" using save_stored(2) [OF k "1.prems"(1,2) ok sf] by simp
  moreover have "p \<noteq> [] \<and> length p \<le> nodePrefixMaxSize \<and> ready_data k (writable J) (data c)"
    if "(b, p, c) \<in> set fs" for b p c
    using that "1.prems"(4) ok fs all_nodes_data [of "ready_data k (writable J)" c] by auto
  ultimately have wr: "\<forall>(b, f) \<in> set fs1. fork_writable J k f" by (intro forks_saved_ready) auto
  have "0 < room w1" using room "1.prems"(6) fs by simp
  from save_node_total [OF "1.prems"(3) wr less_imp_le_nat [OF k] this, of d]
  obtain n' w' where "save_node J S (Node d (Some fs1)) w1 = (None, n', w')" "room w1 \<le> Suc (room w')" by blast
  then show ?case using fs sf ref room by simp
next
  case (2 J S w)
  then show ?case by simp
next
  case (3 J S b p c fs w)
  obtain c' w1 where s: "save J S c w = (None, c', w1)" "room w \<le> room w1 + nodes c"
    using "3.IH"(1) [OF "3.prems"(1-3)] "3.prems"(4,5) by auto
  moreover obtain fs2 w' where "save_forks J S fs w1 = (None, fs2, w')"
    "room w1 \<le> room w' + sum_list (map (\<lambda>(b, p, c). nodes c) fs)"
    using "3.IH"(2) [OF s(1) [symmetric] refl refl "3.prems"(1-3)] "3.prems"(4,5) s(2) by auto
  ultimately show ?case by simp
qed

section \<open>Lookup through references\<close>

text \<open>What a lookup from a reference returns for a node \<open>x\<close> of the stored trie: at the root the type and
  metadata are those of the reference.\<close>

definition seen_as :: "nat \<Rightarrow> node_data \<Rightarrow> bytes \<Rightarrow> Node \<Rightarrow> Node \<Rightarrow> bool" where
  "seen_as k d0 q x y \<longleftrightarrow> n_entry (data y) = fill k (n_entry (data x)) \<and>
     (if q = [] then (IsValueType y \<longleftrightarrow> nodeType d0 AND nodeTypeValue = nodeTypeValue) \<and> n_metadata (data y) = n_metadata d0
      else (IsValueType y \<longleftrightarrow> IsValueType x) \<and>
        n_metadata (data y) = (if IsWithMetadataType x then n_metadata (data x) else []))"

lemma LookupNode_stored:
  "stored J k ld n r \<Longrightarrow> wf_node n \<Longrightarrow> n_ref d0 = Some r \<Longrightarrow>
   (case find_node n q of
      None \<Rightarrow> fst (LookupNode J (Some ld) (Node d0 None) q) = Inl ErrNotFound
    | Some x \<Rightarrow> \<exists>y. fst (LookupNode J (Some ld) (Node d0 None) q) = Inr y \<and> seen_as k d0 q x y)"
proof (induction arbitrary: q d0 rule: stored.induct)
  case (stored r b d rs fs)
  obtain d1 fs' where u: "UnmarshalBinary J b (Node d0 None) = (None, Node d1 (Some fs'))"
    and fs': "map_of fs' = (\<lambda>x. map_option (\<lambda>(p, c). (p, ref_node (rs x) c)) (map_of fs x))"
    and d1: "n_entry d1 = fill k (n_entry d)" "n_metadata d1 = n_metadata d0"
      "nodeType d1 \<in> {nodeType d0, nodeType d0 OR nodeTypeEdge}"
    using stored.hyps(2) unfolding decodes_def by blast
  have el: "ensure_loaded J (Some ld) (Node d0 None) = (None, Node d1 (Some fs'))"
    using stored.hyps(1) stored.prems(2) u by (simp add: ensure_loaded_def load_def)
  have fa: "fork_at (Node d1 (Some fs')) x = map_option (\<lambda>(p, c). (p, ref_node (rs x) c)) (fork_at (Node d (Some fs)) x)" for x
    by (simp add: fork_at_def fs')
  have edge: "(x OR 4) AND 2 = x AND 2" for x :: u8 by (simp add: bit.conj_disj_distrib2)
  show ?case
  proof (cases "q = []")
    case True
    then show ?thesis using el d1 by (subst LookupNode.simps)
        (auto simp: seen_as_def IsValueType_def nodeTypeEdge_def nodeTypeValue_def edge)
  next
    case ne: False
    show ?thesis
    proof (cases "fork_at (Node d (Some fs)) (hd q)")
      case None
      then show ?thesis using el ne fa by (subst LookupNode.simps) (simp add: find_node_Cons)
    next
      case (Some f)
      then obtain p c where f: "fork_at (Node d (Some fs)) (hd q) = Some (p, c)" by (cases f) auto
      note fk = wf_node_fork_at [OF stored.prems(1) f]
      have look: "fst (LookupNode J (Some ld) (Node d0 None) q) = (if prefix p q
          then fst (LookupNode J (Some ld) (ref_node (rs (hd q)) c) (drop (length p) q)) else Inl ErrNotFound)"
        using el ne fa f by (subst LookupNode.simps) (simp add: length_common_prefix split: prod.splits)
      show ?thesis
      proof (cases "prefix p q")
        case False
        with look f ne show ?thesis by (simp add: find_node_Cons)
      next
        case pq: True
        define e0 where "e0 = data (ref_node (rs (hd q)) c)"
        have e0: "ref_node (rs (hd q)) c = Node e0 None" "n_ref e0 = Some (rs (hd q))" by (simp_all add: e0_def ref_node_def)
        have "map_of fs (hd q) = Some (p, c)" using f by (simp add: fork_at_def)
        with stored.IH fk e0(2) have ih: "case find_node c (drop (length p) q) of
            None \<Rightarrow> fst (LookupNode J (Some ld) (Node e0 None) (drop (length p) q)) = Inl ErrNotFound
          | Some x \<Rightarrow> \<exists>y. fst (LookupNode J (Some ld) (Node e0 None) (drop (length p) q)) = Inr y \<and>
              seen_as k e0 (drop (length p) q) x y" by blast
        have seen: "seen_as k d0 q x y" if "seen_as k e0 (drop (length p) q) x y" "find_node c (drop (length p) q) = Some x" for x y
          using that ne by (cases "drop (length p) q = []")
            (auto simp: seen_as_def e0_def ref_node_def IsValueType_def)
        show ?thesis
        proof (cases "find_node c (drop (length p) q)")
          case None
          then show ?thesis using ih look pq f ne e0 by (simp add: find_node_Cons)
        next
          case (Some x)
          with ih obtain y where "fst (LookupNode J (Some ld) (Node e0 None) (drop (length p) q)) = Inr y"
            "seen_as k e0 (drop (length p) q) x y" by auto
          then show ?thesis using seen Some look pq f ne e0 by (simp add: find_node_Cons)
        qed
      qed
    qed
  qed
qed

section \<open>Properties\<close>

lemma mm_Adds_ready:
  assumes "k \<le> 256" and "\<forall>(p, e, m) \<in> set xs. (e = [] \<or> length e = k) \<and> M m"
  shows "wf_node n \<Longrightarrow> sizes_ok k n \<Longrightarrow> ready k M n \<or> xs \<noteq> [] \<and> length (fst (snd (hd xs))) = k \<and> (\<forall>e. length e = k \<longrightarrow> (\<exists>n1. check_entry e n = Inr n1 \<and> ready k M n1)) \<Longrightarrow>
    mm_Adds J L w xs n = (None, n') \<Longrightarrow> wf_node n' \<and> ready k M n'"
  using assms(2)
proof (induction xs arbitrary: n)
  case Nil
  then show ?case by simp
next
  case (Cons x xs)
  obtain p e m where x: "x = (p, e, m)" by (metis prod.exhaust)
  have e: "e = [] \<or> length e = k" "M m" using Cons.prems x by simp_all
  obtain n1 where a: "Add J (loader L w) p e m n = (None, n1)" and n1: "added k p e m n n1"
    using Add_correct [OF Cons.prems(1,2) e(1) assms(1)] by blast
  obtain n0 where n0: "check_entry e n = Inr n0" "ready k M n0"
    using Cons.prems(3) e check_entry_ready by (auto simp: x)
  have "ready k M n1" by (rule Add_ready [OF e(2) Cons.prems(1) n0 e(1) assms(1) Cons.prems(2) a])
  moreover have "mm_Adds J L w xs n1 = (None, n')" using Cons.prems(4) a by (simp add: x mm_Add_def)
  ultimately show ?case using Cons.IH [of n1] Cons.prems(5) n1 by (auto simp: added_def)
qed

lemma new_becomes_ready:
  assumes "length e = k" and "k \<le> 256" and "k \<noteq> 0"
  shows "\<exists>n1. check_entry e (NewMantarayManifest enc) = Inr n1 \<and> ready k M n1"
proof -
  let ?new = "NewMantarayManifest enc"
  let ?n1 = "upd (\<lambda>d. d\<lparr>refBytesSize := length e\<rparr>) ?new"
  have d: "refBytesSize (data ?new) = 0" "n_ref (data ?new) = None" "length (obfuscationKey (data ?new)) \<in> {0, 32}"
    "nodeType (data ?new) = 0" "n_metadata (data ?new) = []" and f: "forks ?new = Some []"
    by (cases enc; simp add: NewMantarayManifest_def New_def SetObfuscationKey_def zero_data_def)+
  have "check_entry e ?new = Inr ?n1" using assms d(1) by (auto simp: check_entry_def)
  moreover have rd: "ready_data k M (data ?n1)"
    using d assms(1) by (simp add: ready_data_def nodeTypeWithMetadata_def)
  have "ready k M ?n1"
  proof (rule all_nodes_same_forks)
    show "ready k M (Node (data ?n1) (Some []))" using rd by simp
  qed (use f rd in auto)
  ultimately show ?thesis by blast
qed

lemma all_nodes_find: "all_nodes P n \<Longrightarrow> find_node n q = Some x \<Longrightarrow> all_nodes P x"
proof (induction n q rule: find_node.induct)
  case (1 n q)
  then show ?case
    by (cases "q = []") (auto simp: find_node_Cons dest: all_nodes_fork_at split: option.splits if_splits)
qed

lemma manifest_survives:
  assumes J: "json_ok J" and L: "saver_ok k (saver L) (sv_Load L)" and k: "0 < k" "k < 256"
    and xs: "xs \<noteq> []" "length (fst (snd (hd xs))) = k" "\<forall>(p, e, m) \<in> set xs. (e = [] \<or> length e = k) \<and> m \<noteq> []"
    and built: "mm_Adds J L w xs (NewMantarayManifest enc) = (None, n)"
    and store: "mm_Store J L [] n w = (Inr r, n', w')"
  shows "fst (mm_Lookup J L w' q (NewMantarayManifestReference r)) =
    (if q = [] then Inl ErrNotFound
     else case map_of (rev xs) q of None \<Rightarrow> Inl ErrNotFound | Some (e, m) \<Rightarrow> Inr (if e = [] then replicate k 0 else e, m))"
proof -
  let ?new = "NewMantarayManifest enc"
  have rd: "wf_node n \<and> ready k (\<lambda>m. True) n"
    by (rule mm_Adds_ready [OF _ _ wf_new(1,2) _ built]) (use k xs new_becomes_ready in auto)
  have xs': "\<forall>(p, e, m) \<in> set xs. entry_ok k e \<and> m \<noteq> []" using xs(3) by (auto simp: entry_ok_def)
  obtain n2 where "mm_Adds J L w xs ?new = (None, n2)" "value_at n2 = value_at ?new ++ map_of (rev xs)"
    using mm_Adds_correct [of ?new k xs J L w] k xs' by auto
  then have val: "value_at n q = map_of (rev xs) q" using built by (simp add: map_add_def split: option.splits)
  have sv: "save J (saver L) n w = (None, n', w')" and r: "n_ref (data n') = Some r \<or> n_ref (data n') = None \<and> r = []"
    using store by (auto simp: mm_Store_def Save_def split: prod.splits option.splits)
  have "saved_as J k (sv_Load L w') n n'" using save_stored(1) [OF k(2) J L] rd sv by blast
  then have st: "stored J k (sv_Load L w') n r" using r by (auto simp: saved_as_def)
  define d0 where "d0 = data (NewMantarayManifestReference r)"
  have d0: "NewMantarayManifestReference r = Node d0 None" "n_ref d0 = Some r" "nodeType d0 = 0"
    by (simp_all add: d0_def NewMantarayManifestReference_def NewNodeRef_def zero_data_def)
  note look = LookupNode_stored [OF st conjunct1 [OF rd] d0(2), of q]
  show ?thesis
  proof (cases "find_node n q")
    case None
    with look val show ?thesis by (auto simp: mm_Lookup_def loader_def d0 value_at_def split: prod.splits)
  next
    case (Some x)
    with look obtain y where y: "fst (LookupNode J (Some (sv_Load L w')) (Node d0 None) q) = Inr y" "seen_as k d0 q x y"
      by auto
    have x: "node_value x = map_of (rev xs) q" using val Some by (simp add: value_at_def)
    show ?thesis
    proof (cases "q = []")
      case True
      with y show ?thesis by (auto simp: mm_Lookup_def loader_def d0 seen_as_def nodeTypeValue_def split: prod.splits)
    next
      case q: False
      show ?thesis
      proof (cases "IsValueType x")
        case False
        with y q x show ?thesis by (auto simp: mm_Lookup_def loader_def d0 seen_as_def node_value_def split: prod.splits)
      next
        case True
        then obtain e m where em: "map_of (rev xs) q = Some (e, m)" "e = n_entry (data x)" "m = n_metadata (data x)"
          using x by (auto simp: node_value_def)
        then have "(q, e, m) \<in> set xs" using map_of_SomeD by fastforce
        then have "e = [] \<or> length e = k" "m \<noteq> []" using xs(3) by auto
        moreover have "IsWithMetadataType x"
          using all_nodes_data [OF all_nodes_find [OF conjunct2 [OF rd] Some]] \<open>m \<noteq> []\<close> em(3)
          by (simp add: ready_data_def IsWithMetadataType_def)
        ultimately show ?thesis using y q em True
          by (auto simp: mm_Lookup_def loader_def d0 seen_as_def fill_def split: prod.splits)
      qed
    qed
  qed
qed

text \<open>C40. A manifest after being stored: after any non-empty sequence of additions with entries that are empty or
  of the size of the references (the first one not empty) and with metadata that is not empty and can be
  written, storing succeeds when the saver has room for the nodes of the trie. A manifest opened from the
  returned reference finds at every path that is not empty what was added last there, and nothing else, but an
  empty entry reads back as zero bytes of the size of a reference; at the empty path it finds nothing, also
  when something was added there.\<close>

theorem manifest_survives_store:
  assumes "json_ok J" and "saver_ok k (saver L) (sv_Load L)" and "accepts (saver L) room" and "0 < k" and "k < 256"
    and "xs \<noteq> []" and "length (fst (snd (hd xs))) = k"
    and xs: "\<forall>(p, e, m) \<in> set xs. (e = [] \<or> length e = k) \<and> m \<noteq> [] \<and> writable J m"
    and built: "mm_Adds J L w xs (NewMantarayManifest enc) = (None, n)" and "nodes n \<le> room w"
  shows "\<exists>r n' w'. mm_Store J L [] n w = (Inr r, n', w') \<and>
    (\<forall>q. fst (mm_Lookup J L w' q (NewMantarayManifestReference r)) =
       (if q = [] then Inl ErrNotFound
        else case map_of (rev xs) q of None \<Rightarrow> Inl ErrNotFound | Some (e, m) \<Rightarrow> Inr (if e = [] then replicate k 0 else e, m)))"
proof -
  have "wf_node n \<and> ready k (writable J) n"
    by (rule mm_Adds_ready [OF _ _ wf_new(1,2) _ built]) (use assms new_becomes_ready in auto)
  then obtain n' w' where "save J (saver L) n w = (None, n', w')"
    using save_total(1) [OF assms(5,1-3), of n w] assms(10) by blast
  then obtain r where "mm_Store J L [] n w = (Inr r, n', w')" by (simp add: mm_Store_def Save_def)
  moreover have "\<forall>(p, e, m) \<in> set xs. (e = [] \<or> length e = k) \<and> m \<noteq> []" using xs by auto
  ultimately show ?thesis using manifest_survives [OF assms(1,2,4-7) _ built] by blast
qed

lemma demo_json_ok: "json_ok demo_json"
  by (auto simp: json_ok_def demo_json_def)

lemma demo_store_ok:
  "saver_ok 1 (saver demo_store) (sv_Load demo_store)" "accepts (saver demo_store) (\<lambda>w. 256 - length w)"
  by (auto simp: saver_ok_def accepts_def saver_def demo_store_def nth_append unat_of_nat split: if_splits)

text \<open>Files, a directory with an empty entry, as the upload of a directory adds it, and an entry at the empty path.\<close>

definition dir_adds :: "(bytes \<times> bytes \<times> metadata) list" where
  "dir_adds = demo_adds @ [([47], [], [(''a'', ''b'')]), ([], [3], [(''a'', ''b'')])]"

lemma dir_built:
  "\<exists>n. mm_Adds demo_json demo_store [] dir_adds (NewMantarayManifest False) = (None, n) \<and> nodes n = 4"
proof -
  have "(\<lambda>(e, n). (e, nodes n)) (mm_Adds demo_json demo_store [] dir_adds (NewMantarayManifest False)) = (None, 4)"
    by code_simp
  then show ?thesis by (auto split: prod.splits)
qed

theorem manifest_survives_store_witness:
  "\<exists>n r n' w'. mm_Adds demo_json demo_store [] dir_adds (NewMantarayManifest False) = (None, n) \<and>
    mm_Store demo_json demo_store [] n [] = (Inr r, n', w') \<and>
    fst (mm_Lookup demo_json demo_store w' [47, 98] (NewMantarayManifestReference r)) = Inr ([2], [(''a'', ''b'')]) \<and>
    fst (mm_Lookup demo_json demo_store w' [47] (NewMantarayManifestReference r)) = Inr ([0], [(''a'', ''b'')]) \<and>
    fst (mm_Lookup demo_json demo_store w' [] (NewMantarayManifestReference r)) = Inl ErrNotFound"
proof -
  obtain n where n: "mm_Adds demo_json demo_store [] dir_adds (NewMantarayManifest False) = (None, n)" "nodes n = 4"
    using dir_built by blast
  have "\<exists>r n' w'. mm_Store demo_json demo_store [] n [] = (Inr r, n', w') \<and>
    (\<forall>q. fst (mm_Lookup demo_json demo_store w' q (NewMantarayManifestReference r)) =
       (if q = [] then Inl ErrNotFound
        else case map_of (rev dir_adds) q of None \<Rightarrow> Inl ErrNotFound | Some (e, m) \<Rightarrow> Inr (if e = [] then replicate 1 0 else e, m)))"
    by (rule manifest_survives_store [OF demo_json_ok demo_store_ok _ _ _ _ _ n(1)])
      (use n(2) in \<open>auto simp: dir_adds_def demo_adds_def writable_def demo_json_def pad_metadata_def Let_def
        nodeForkMetadataBytesSize_def nodeObfuscationKeySize_def\<close>)
  then obtain r n' w' where "mm_Store demo_json demo_store [] n [] = (Inr r, n', w')"
    "\<And>q. fst (mm_Lookup demo_json demo_store w' q (NewMantarayManifestReference r)) =
       (if q = [] then Inl ErrNotFound
        else case map_of (rev dir_adds) q of None \<Rightarrow> Inl ErrNotFound | Some (e, m) \<Rightarrow> Inr (if e = [] then replicate 1 0 else e, m))" by blast
  with n(1) show ?thesis by (intro exI conjI) (auto simp: dir_adds_def demo_adds_def)
qed

section \<open>Updates of a persisted manifest\<close>

text \<open>Loading never clears the reference of a node, \<open>Remove\<close> does not either, and \<open>Add\<close> clears it only when it
  loads the node itself.\<close>

lemma UnmarshalBinary_ref: "n_ref (data (snd (UnmarshalBinary J b n))) = n_ref (data n)"
  by (simp add: UnmarshalBinary_def Let_def makeEdge_def split: prod.splits)

lemma ensure_loaded_ref: "ensure_loaded J l n = (x, n1) \<Longrightarrow> n_ref (data n1) = n_ref (data n)"
  using UnmarshalBinary_ref [of J _ n]
  by (auto simp: ensure_loaded_def load_def split: if_splits option.splits sum.splits) (metis snd_conv)+

lemma set_fork_data [simp]: "data (set_fork b f n) = data n"
  by (simp add: set_fork_def)

lemma LookupNode_ref: "n_ref (data (snd (LookupNode J l n q))) = n_ref (data n)"
  by (subst LookupNode.simps) (auto dest: ensure_loaded_ref split: prod.splits option.splits)

lemma Remove_ref: "n_ref (data (snd (Remove J l n q))) = n_ref (data n)"
  by (subst Remove.simps) (auto dest: ensure_loaded_ref split: prod.splits option.splits)

lemma put_fork_ref: "n_ref (data (snd (put_fork b f n))) = n_ref (data n)"
  by (simp add: put_fork_def makeEdge_def)

lemma check_entry_ref: "check_entry e n = Inr n' \<Longrightarrow> n_ref (data n') = n_ref (data n)"
  by (auto simp: check_entry_def split: if_splits)

lemma Add_ref:
  assumes "forks n \<noteq> None" and "path \<noteq> []"
  shows "n_ref (data (snd (Add J l path e m n))) = n_ref (data n)"
proof (cases "check_entry e n")
  case (Inl a)
  then show ?thesis by (subst Add.simps) simp
next
  case (Inr n1)
  then have n1: "ensure_loaded J l n1 = (None, n1)" "forks n1 \<noteq> None" "n_ref (data n1) = n_ref (data n)"
    using assms(1) check_entry_forks check_entry_ref [OF Inr] by (auto simp: ensure_loaded_def)
  show ?thesis by (subst Add.simps)
      (simp add: Inr n1 assms(2) Let_def put_fork_ref split: prod.splits option.splits)
qed

lemma mm_Store_ref: "n_ref (data n) = Some r \<Longrightarrow> mm_Store J L fs n w = (Inr r, n, w)"
  by (cases n) (simp add: mm_Store_def Save_def)

text \<open>An update of a manifest that was read is not stored: after a manifest is opened from a reference and a
  lookup has loaded its root, additions and removals succeed in memory, but storing writes nothing and
  returns the old reference. A removal from a persisted manifest is lost even without the lookup.\<close>

theorem update_after_lookup_not_stored:
  assumes "mm_Lookup J L w q (NewMantarayManifestReference r) = (res, n1)" and "forks n1 \<noteq> None" and "path \<noteq> []"
    and "mm_Add J L w path e m n1 = (None, n2) \<or> mm_Remove J L w path n1 = (None, n2) \<or>
      mm_Remove J L w path (NewMantarayManifestReference r) = (None, n2)"
  shows "mm_Store J L fs n2 w' = (Inr r, n2, w')"
proof (rule mm_Store_ref)
  have r: "n_ref (data (NewMantarayManifestReference r)) = Some r"
    by (simp add: NewMantarayManifestReference_def NewNodeRef_def)
  have "n_ref (data n1) = Some r"
    using assms(1) LookupNode_ref [of J "loader L w" "NewMantarayManifestReference r" q] r
    by (auto simp: mm_Lookup_def split: prod.splits sum.splits if_splits)
  with r assms(4) show "n_ref (data n2) = Some r"
    using Add_ref [OF assms(2,3), of J "loader L w" e m] Remove_ref [of J "loader L w" _ path]
    by (auto simp: mm_Add_def mm_Remove_def) (metis snd_conv)+
qed

definition empty_blob :: bytes where
  "empty_blob = replicate 32 0 @ version02HashBytes @ [0] @ replicate 32 0"

theorem update_after_lookup_not_stored_witness:
  "\<exists>n1 n2. mm_Lookup demo_json demo_store [empty_blob] [47] (NewMantarayManifestReference [0]) = (Inl ErrNotFound, n1) \<and>
    mm_Add demo_json demo_store [empty_blob] [47] [5] [] n1 = (None, n2) \<and>
    mm_Store demo_json demo_store [] n2 [empty_blob] = (Inr [0], n2, [empty_blob])"
proof -
  let ?n1 = "Node (zero_data\<lparr>n_ref := Some [0], obfuscationKey := replicate 32 0\<rparr>) (Some [])"
  have l: "mm_Lookup demo_json demo_store [empty_blob] [47] (NewMantarayManifestReference [0]) = (Inl ErrNotFound, ?n1)"
    by code_simp
  have "fst (mm_Add demo_json demo_store [empty_blob] [47] [5] [] ?n1) = None" by code_simp
  then obtain n2 where a: "mm_Add demo_json demo_store [empty_blob] [47] [5] [] ?n1 = (None, n2)" by (metis prod.collapse)
  with l update_after_lookup_not_stored [OF l _ _ disjI1 [OF a], of "[]" "[empty_blob]"] show ?thesis by auto
qed

text \<open>The children of a node that was just loaded are references.\<close>

definition only_ref :: "bytes \<times> Node \<Rightarrow> bool" where
  "only_ref f \<longleftrightarrow> forks (snd f) = None \<and> refBytesSize (data (snd f)) = 0"

lemma update_subset: "set (AList.update b f fs) \<subseteq> insert (b, f) (set fs)"
  by (induction fs) auto

lemma read_forks_only_ref:
  "(\<And>off f sz. rd off = Inr (f, sz) \<Longrightarrow> only_ref f) \<Longrightarrow> read_forks rd bs off fs = (r, fs') \<Longrightarrow>
   \<forall>(b, f) \<in> set fs. only_ref f \<Longrightarrow> \<forall>(b, f) \<in> set fs'. only_ref f"
proof (induction bs arbitrary: off fs)
  case (Cons b bs)
  show ?case
  proof (cases "rd off")
    case (Inr x)
    obtain f sz where x: "x = (f, sz)" by fastforce
    have "\<forall>(b, f) \<in> set (AList.update b f fs). only_ref f"
      using Cons.prems(3) Cons.prems(1) [of off f sz] Inr x update_subset [of b f fs] by auto
    then show ?thesis using Cons.IH [of "off + sz"] Cons.prems Inr x by auto
  qed (use Cons.prems in auto)
qed auto

lemma read_fork_only_ref:
  "read_fork01 bytes k off = Inr (f, sz) \<Longrightarrow> only_ref f" "read_fork02 J bytes k off = Inr (f, sz) \<Longrightarrow> only_ref f"
proof -
  have m: "mk_fork b r m = Inr f \<Longrightarrow> only_ref f" for b r m
    by (auto simp: mk_fork_def only_ref_def zero_data_def Let_def split: if_splits)
  show one: "read_fork01 bytes k off = Inr (f, sz) \<Longrightarrow> only_ref f"
    by (auto simp: read_fork01_def fork_fromBytes_def Let_def split: if_splits sum.splits intro: m)
  then show "read_fork02 J bytes k off = Inr (f, sz) \<Longrightarrow> only_ref f"
    by (auto simp: read_fork02_def fork_fromBytes02_def Let_def split: if_splits sum.splits intro: m)
qed

lemma ensure_loaded_only_ref:
  assumes "ensure_loaded J l n = (None, n1)" and "forks n = None" and "fork_at n1 b = Some f"
  shows "only_ref f"
proof -
  obtain fs where fs: "forks n1 = Some fs" "map_of fs b = Some f" using assms(3) by (auto simp: fork_at_def split: option.splits)
  then obtain blob where u: "UnmarshalBinary J blob n = (None, n1)"
    using assms(1,2) by (auto simp: ensure_loaded_def load_def split: option.splits sum.splits)
  have "\<forall>(b, f) \<in> set fs. only_ref f"
    using u fs(1) read_fork_only_ref read_forks_only_ref [of "read_fork01 _ _" _ _ "[]"] read_forks_only_ref [of "read_fork02 J _ _" _ _ "[]"]
    by (fastforce simp: UnmarshalBinary_def Let_def split: if_splits prod.splits)
  with map_of_SomeD [OF fs(2)] show ?thesis by auto
qed

text \<open>A node without reference whose forks are nil cannot be written, and a failing child fails its parent.\<close>

lemma save_unloaded: "n_ref d = None \<Longrightarrow> fst (save J S (Node d None) w) = Some ErrInvalidInput"
  by (simp add: save_node_def MarshalBinary_def)

lemma save_forks_fails:
  "(b, p, c) \<in> set fs \<Longrightarrow> (\<And>w. fst (save J S c w) \<noteq> None) \<Longrightarrow> fst (save_forks J S fs w) \<noteq> None"
proof (induction fs arbitrary: w)
  case (Cons x fs)
  obtain b' p' c' where x: "x = (b', p', c')" by (metis prod.exhaust)
  obtain r c1 w1 where s: "save J S c' w = (r, c1, w1)" by (metis prod.exhaust)
  show ?case
  proof (cases r)
    case None
    with Cons.prems(2) [of w] s have "c' \<noteq> c" by auto
    then have "(b, p, c) \<in> set fs" using Cons.prems(1) x by auto
    from Cons.IH [OF this Cons.prems(2), of w1] show ?thesis by (auto simp: x s None split: prod.splits)
  qed (simp add: x s)
qed simp

lemma save_fails:
  assumes "n_ref (data n) = None" and "fork_at n b = Some (p, c)" and "\<And>w. fst (save J S c w) \<noteq> None"
  shows "fst (save J S n w) \<noteq> None"
proof (cases n)
  case (Node d fo)
  then obtain fs where fs: "fo = Some fs" "(b, p, c) \<in> set fs"
    using assms(2) by (auto simp: fork_at_def split: option.splits dest: map_of_SomeD)
  from save_forks_fails [OF this(2) assms(3), of w] assms(1) show ?thesis
    by (auto simp: Node fs split: prod.splits option.splits)
qed

lemma mm_Store_fails:
  assumes "\<And>S. fst (save J S n w) \<noteq> None"
  shows "\<exists>err. fst (mm_Store J L fs n w) = Inl err"
proof -
  define S where "S = (if fs \<noteq> [] then sized_saver fs (saver L) else saver L)"
  obtain err n' w' where "save J S n w = (Some err, n', w')" using assms [of S] by (cases "save J S n w") auto
  then show ?thesis by (simp add: mm_Store_def Save_def S_def [symmetric])
qed

lemma common_same [simp]: "common p p = p"
  by (induction p) auto

lemma UnmarshalBinary_size:
  "UnmarshalBinary J b (upd (\<lambda>d. d\<lparr>refBytesSize := k\<rparr>) n) =
   apsnd (upd (\<lambda>d. d\<lparr>refBytesSize := k\<rparr>)) (UnmarshalBinary J b n)"
  by (simp add: UnmarshalBinary_def upd_def makeEdge_def IsEdgeType_def Let_def split: prod.splits)

lemma ensure_loaded_size:
  "ensure_loaded J l n = (None, n1) \<Longrightarrow> ensure_loaded J l (upd (\<lambda>d. d\<lparr>refBytesSize := k\<rparr>) n) = (None, upd (\<lambda>d. d\<lparr>refBytesSize := k\<rparr>) n1)"
  by (auto simp: ensure_loaded_def load_def UnmarshalBinary_size split: if_splits option.splits sum.splits)

text \<open>Overwriting an entry of a persisted manifest makes it unsavable: when the root of a manifest opened
  from a reference has a fork with exactly the given path, adding an entry there succeeds, and then
  storing the manifest fails, whatever the load-saver does.\<close>

theorem overwritten_entry_unsavable:
  assumes load: "ensure_loaded J (loader L w) (NewMantarayManifestReference r) = (None, n1)"
    and f: "fork_at n1 (hd path) = Some (path, c)" and "path \<noteq> []" and "length e \<le> 256"
  shows "\<exists>n2. mm_Add J L w path e m (NewMantarayManifestReference r) = (None, n2) \<and>
    (\<exists>err. fst (mm_Store J L fs n2 w') = Inl err)"
proof -
  let ?n = "NewMantarayManifestReference r"
  define sz where "sz n = (if e = [] then n else upd (\<lambda>d. d\<lparr>refBytesSize := length e\<rparr>) n)" for n
  have check: "check_entry e n = Inr (sz n)" if "refBytesSize (data n) = 0" for n
    using that assms(4) by (auto simp: check_entry_def sz_def)
  have n: "forks ?n = None" "refBytesSize (data ?n) = 0"
    by (simp_all add: NewMantarayManifestReference_def NewNodeRef_def zero_data_def)
  have "ensure_loaded J (loader L w) (sz ?n) = (None, sz n1)"
    using load ensure_loaded_size [OF load] by (simp add: sz_def)
  moreover define n3 where "n3 = upd (\<lambda>d. d\<lparr>n_ref := None\<rparr>) (sz n1)"
  have c: "forks c = None" "refBytesSize (data c) = 0"
    using ensure_loaded_only_ref [OF load n(1) f] by (simp_all add: only_ref_def)
  define c' where "c' = upd (\<lambda>d. d\<lparr>n_ref := None\<rparr>) (set_value e m (sz (updateIsWithPathSeparator path c)))"
  have sz: "forks (sz x) = forks x" "fork_at (sz x) b = fork_at x b" for x b by (simp_all add: sz_def)
  have "refBytesSize (data (updateIsWithPathSeparator path c)) = 0"
    using c(2) by (simp add: updateIsWithPathSeparator_def makeWithPathSeparator_def makeNotWithPathSeparator_def)
  then have "Add J (loader L w) [] e m (updateIsWithPathSeparator path c) = (None, c')"
    by (subst Add.simps) (simp add: check c'_def)
  moreover have "forks n3 \<noteq> None" using f by (auto simp: n3_def sz fork_at_def split: option.splits)
  ultimately have add: "mm_Add J L w path e m ?n = (None, makeEdge (set_fork (hd path) (path, c') n3))"
    unfolding mm_Add_def using assms(3) f
    by (subst Add.simps) (auto simp: check n sz n3_def put_fork_def Let_def)
  have c': "n_ref (data c') = None" "forks c' = None" by (simp_all add: c'_def sz c)
  have "fst (save J S c' w) \<noteq> None" for S :: "'a Saver" and w
    using save_unloaded [OF c'(1), of J S w] c'(2) by (metis Node.collapse option.distinct(1))
  then have "fst (save J S (makeEdge (set_fork (hd path) (path, c') n3)) w') \<noteq> None" for S :: "'a Saver"
    using save_fails [of "makeEdge (set_fork (hd path) (path, c') n3)" "hd path" path c' J S w'] \<open>forks n3 \<noteq> None\<close>
    by (auto simp: makeEdge_def n3_def set_fork_def fork_at_def update_conv')
  then have "\<exists>err. fst (mm_Store J L fs (makeEdge (set_fork (hd path) (path, c') n3)) w') = Inl err"
    by (rule mm_Store_fails)
  with add show ?thesis by blast
qed

text \<open>The blob of a node with one fork, at the path \<open>a\<close>, that refers to the blob 0.\<close>

definition fork_blob :: bytes where
  "fork_blob = replicate 32 0 @ version02HashBytes @ [1, 0] @ fold bb_set [97] (replicate 32 0)
     @ [2, 1] @ fill nodePrefixMaxSize [97] @ [0]"

lemma fork_blob_loads:
  "ensure_loaded demo_json (loader demo_store [empty_blob, fork_blob]) (NewMantarayManifestReference [1]) =
   (None, Node (zero_data\<lparr>nodeType := 4, n_ref := Some [1], obfuscationKey := replicate 32 0, n_entry := [0]\<rparr>)
      (Some [(97, [97], Node (zero_data\<lparr>nodeType := 2, n_ref := Some [0]\<rparr>) None)]))"
  by code_simp

theorem overwritten_entry_unsavable_witness:
  "\<exists>n2. mm_Add demo_json demo_store [empty_blob, fork_blob] [97] [5] [] (NewMantarayManifestReference [1]) = (None, n2) \<and>
    (\<exists>err. fst (mm_Store demo_json demo_store [] n2 []) = Inl err)"
  by (rule overwritten_entry_unsavable [OF fork_blob_loads]) (simp_all add: fork_at_def)

section \<open>Malformed blobs\<close>

text \<open>A truncated node crashes the reader: data with a valid header that is too short for the entry and the
  index of the forks is not reported as an error, the slice expression panics.\<close>

theorem truncated_node_panics:
  assumes "nodeHeaderSize \<le> length b"
    and "take versionHashSize (drop nodeObfuscationKeySize (obfuscate (take nodeObfuscationKeySize b) b)) = version02HashBytes"
    and "length b < nodeHeaderSize + unat (obfuscate (take nodeObfuscationKeySize b) b ! (nodeHeaderSize - 1)) + 32"
  shows "fst (UnmarshalBinary J b n) = Some MtPanic"
proof -
  have "version02HashBytes \<noteq> version01HashBytes" by (simp add: version01HashBytes_def version02HashBytes_def)
  then show ?thesis using assms by (simp add: UnmarshalBinary_def Let_def)
qed

theorem truncated_node_panics_witness:
  "fst (UnmarshalBinary demo_json (replicate 32 0 @ version02HashBytes @ [32]) New) = Some MtPanic"
proof (rule truncated_node_panics)
  show "nodeHeaderSize \<le> length (replicate 32 0 @ version02HashBytes @ [32])" by code_simp
  show "take versionHashSize (drop nodeObfuscationKeySize (obfuscate (take nodeObfuscationKeySize
      (replicate 32 0 @ version02HashBytes @ [32])) (replicate 32 0 @ version02HashBytes @ [32]))) = version02HashBytes"
    by code_simp
  show "length (replicate 32 0 @ version02HashBytes @ [32]) < nodeHeaderSize + unat (obfuscate (take nodeObfuscationKeySize
      (replicate 32 0 @ version02HashBytes @ [32])) (replicate 32 0 @ version02HashBytes @ [32]) ! (nodeHeaderSize - 1)) + 32"
    by code_simp
qed

end
