(* ===== verification/Chequebook.thy ===== *)
theory Chequebook
  imports Statestore Swarm
begin

text \<open>
  \<open>pkg/settlement/swap/chequebook\<close>: cheques, the store of received cheques (\<open>chequestore.go\<close>), the
  chequebook that issues them (\<open>chequebook.go\<close>), the contract calls (\<open>contract.go\<close>, \<open>factory.go\<close>,
  \<open>erc20.go\<close>) and the cashing of cheques (\<open>cashout.go\<close>).

  The chain is the record \<open>Chain\<close>: ABI packing, calls, transactions and receipts are go-ethereum and the
  network, given as functions on a chain state \<open>'c\<close>. The store of the node holds the values of this
  subsystem as \<open>swap_value\<close>, kept decoded. A panic is the error \<open>ErrPanic\<close>.
\<close>

section \<open>Cheques\<close>

type_synonym EthAddress = bytes
type_synonym EthHash = bytes

record Cheque =
  cq_Chequebook :: EthAddress
  cq_Beneficiary :: EthAddress
  cq_CumulativePayout :: int

record SignedCheque = Cheque +
  cq_Signature :: bytes

definition cheque_of :: "SignedCheque \<Rightarrow> Cheque" where
  "cheque_of c = \<lparr>cq_Chequebook = cq_Chequebook c, cq_Beneficiary = cq_Beneficiary c,
     cq_CumulativePayout = cq_CumulativePayout c\<rparr>"

definition cheque_Equal :: "Cheque \<Rightarrow> Cheque \<Rightarrow> bool" where
  "cheque_Equal c d \<longleftrightarrow>
     (if cq_Beneficiary c \<noteq> cq_Beneficiary d then False
      else if cq_CumulativePayout c \<noteq> cq_CumulativePayout d then False
      else cq_Chequebook c = cq_Chequebook d)"

definition signed_Equal :: "SignedCheque \<Rightarrow> SignedCheque \<Rightarrow> bool" where
  "signed_Equal c d \<longleftrightarrow>
     (if cq_Signature c \<noteq> cq_Signature d then False else cheque_Equal (cheque_of c) (cheque_of d))"

lemma cheque_Equal_iff: "cheque_Equal c d \<longleftrightarrow> c = d"
  by (auto simp: cheque_Equal_def)

lemma signed_Equal_iff: "signed_Equal c d \<longleftrightarrow> c = d"
  by (cases c; cases d) (auto simp: signed_Equal_def cheque_Equal_iff cheque_of_def)

text \<open>The typed data that is signed; the domain name, the version and the types are constant.\<close>

record TypedData =
  td_ChainId :: int
  td_chequebook :: string
  td_beneficiary :: string
  td_cumulativePayout :: string

definition big_String :: "int \<Rightarrow> string" where
  "big_String x = (if x < 0 then CHR ''-'' # FormatUint 10 (nat (- x)) else FormatUint 10 (nat x))"

text \<open>\<open>hx\<close> is \<open>Address.Hex\<close> of go-ethereum, the checksummed text of an address.\<close>

definition eip712DataForCheque :: "(EthAddress \<Rightarrow> string) \<Rightarrow> Cheque \<Rightarrow> int \<Rightarrow> TypedData" where
  "eip712DataForCheque hx cheque chainID =
     \<lparr>td_ChainId = chainID, td_chequebook = hx (cq_Chequebook cheque),
      td_beneficiary = hx (cq_Beneficiary cheque),
      td_cumulativePayout = big_String (cq_CumulativePayout cheque)\<rparr>"

definition chequeSigner_Sign ::
  "(EthAddress \<Rightarrow> string) \<Rightarrow> (TypedData \<Rightarrow> string + bytes) \<Rightarrow> int \<Rightarrow> Cheque \<Rightarrow> string + bytes" where
  "chequeSigner_Sign hx signTypedData chainID cheque = signTypedData (eip712DataForCheque hx cheque chainID)"

text \<open>\<open>rec\<close> is \<open>crypto.RecoverEIP712\<close> and \<open>ethAddr\<close> is \<open>crypto.NewEthereumAddress\<close>.\<close>

definition RecoverCheque ::
  "(EthAddress \<Rightarrow> string) \<Rightarrow> (bytes \<Rightarrow> TypedData \<Rightarrow> string + 'pk) \<Rightarrow> ('pk \<Rightarrow> string + bytes)
   \<Rightarrow> SignedCheque \<Rightarrow> int \<Rightarrow> string + EthAddress" where
  "RecoverCheque hx rec ethAddr cheque chainID =
     (case rec (cq_Signature cheque) (eip712DataForCheque hx (cheque_of cheque) chainID) of
        Inl e \<Rightarrow> Inl e
      | Inr pubkey \<Rightarrow>
         (case ethAddr pubkey of
            Inl e \<Rightarrow> Inl e
          | Inr a \<Rightarrow> Inr (take 20 a @ replicate (20 - length a) 0)))"

section \<open>Errors and the chain\<close>

datatype swap_error =
    ErrNoCheque | ErrChequeNotIncreasing | ErrChequeInvalid | ErrWrongBeneficiary | ErrBouncingCheque
  | ErrChequeValueTooLow | ErrOutOfFunds | ErrInsufficientFunds
  | ErrInvalidFactory | ErrNotDeployedByFactory | ErrDecodeABI | ErrTransactionReverted | ErrEventNotFound
  | NoPeerInKey | NoBeneficiaryInKey | ChainErr string | SignErr string | SendErr string
  | SwapStoreErr store_error | SwapWrap string swap_error | ErrPanic

datatype abi_value = AbiAddress EthAddress | AbiUint int | AbiBool bool | AbiBytes bytes

record Ctx =
  ctx_GasPrice :: "int option"
  ctx_GasLimit :: nat

record TxRequest =
  tx_To :: EthAddress
  tx_Data :: bytes
  tx_GasPrice :: "int option"
  tx_GasLimit :: nat
  tx_Value :: int

record Log =
  lg_Address :: EthAddress
  lg_Topics :: "EthHash list"
  lg_Data :: bytes

record Receipt =
  rc_Status :: nat
  rc_Logs :: "Log list"

text \<open>\<open>ch_Tx\<close> is \<open>TransactionByHash\<close>: \<open>Inl None\<close> is \<open>ethereum.NotFound\<close>, the result tells whether the
  transaction is pending. \<open>abi_Event\<close> is the decoding of the data and topics of an event of a kind.\<close>

record 'c Chain =
  abi_Pack :: "string \<Rightarrow> abi_value list \<Rightarrow> string + bytes"
  abi_Unpack :: "string \<Rightarrow> bytes \<Rightarrow> string + abi_value list"
  abi_EventID :: "string \<Rightarrow> EthHash"
  abi_Event :: "string \<Rightarrow> bytes \<Rightarrow> EthHash list \<Rightarrow> string + abi_value list"
  ch_Call :: "EthAddress \<Rightarrow> bytes \<Rightarrow> 'c \<Rightarrow> string + bytes"
  ch_Send :: "TxRequest \<Rightarrow> 'c \<Rightarrow> (string + EthHash) \<times> 'c"
  ch_WaitForReceipt :: "EthHash \<Rightarrow> 'c \<Rightarrow> string + Receipt"
  ch_Tx :: "EthHash \<Rightarrow> 'c \<Rightarrow> string option + bool"
  ch_Receipt :: "EthHash \<Rightarrow> 'c \<Rightarrow> string + Receipt"
  ch_CodeAt :: "EthAddress \<Rightarrow> 'c \<Rightarrow> string + bytes"

section \<open>Contract calls\<close>

text \<open>Packing, calling and unpacking, as every read-only contract method does it.\<close>

definition contract_call ::
  "'c Chain \<Rightarrow> EthAddress \<Rightarrow> string \<Rightarrow> abi_value list \<Rightarrow> 'c \<Rightarrow> swap_error + abi_value list" where
  "contract_call C a method args c =
     (case abi_Pack C method args of
        Inl e \<Rightarrow> Inl (ChainErr e)
      | Inr callData \<Rightarrow>
         (case ch_Call C a callData c of
            Inl e \<Rightarrow> Inl (ChainErr e)
          | Inr output \<Rightarrow>
             (case abi_Unpack C method output of Inl e \<Rightarrow> Inl (ChainErr e) | Inr results \<Rightarrow> Inr results)))"

text \<open>\<open>contract.go\<close> takes the first result and panics when there is none of the type.\<close>

definition first_uint :: "swap_error + abi_value list \<Rightarrow> swap_error + int" where
  "first_uint r = (case r of Inl e \<Rightarrow> Inl e | Inr (AbiUint x # _) \<Rightarrow> Inr x | Inr _ \<Rightarrow> Inl ErrPanic)"

definition Issuer :: "'c Chain \<Rightarrow> EthAddress \<Rightarrow> 'c \<Rightarrow> swap_error + EthAddress" where
  "Issuer C a c =
     (case contract_call C a ''issuer'' [] c of
        Inl e \<Rightarrow> Inl e | Inr (AbiAddress x # _) \<Rightarrow> Inr x | Inr _ \<Rightarrow> Inl ErrPanic)"

definition Balance :: "'c Chain \<Rightarrow> EthAddress \<Rightarrow> 'c \<Rightarrow> swap_error + int" where
  "Balance C a c = first_uint (contract_call C a ''balance'' [] c)"

definition PaidOut :: "'c Chain \<Rightarrow> EthAddress \<Rightarrow> EthAddress \<Rightarrow> 'c \<Rightarrow> swap_error + int" where
  "PaidOut C a beneficiary c = first_uint (contract_call C a ''paidOut'' [AbiAddress beneficiary] c)"

definition TotalPaidOut :: "'c Chain \<Rightarrow> EthAddress \<Rightarrow> 'c \<Rightarrow> swap_error + int" where
  "TotalPaidOut C a c = first_uint (contract_call C a ''totalPaidOut'' [] c)"

text \<open>The other callers want exactly one result, of the right type.\<close>

definition single_uint :: "swap_error + abi_value list \<Rightarrow> swap_error + int" where
  "single_uint r = (case r of Inl e \<Rightarrow> Inl e | Inr [AbiUint x] \<Rightarrow> Inr x | Inr _ \<Rightarrow> Inl ErrDecodeABI)"

definition BalanceOf :: "'c Chain \<Rightarrow> EthAddress \<Rightarrow> EthAddress \<Rightarrow> 'c \<Rightarrow> swap_error + int" where
  "BalanceOf C token a c = single_uint (contract_call C token ''balanceOf'' [AbiAddress a] c)"

definition Allowance :: "'c Chain \<Rightarrow> EthAddress \<Rightarrow> EthAddress \<Rightarrow> EthAddress \<Rightarrow> 'c \<Rightarrow> swap_error + int" where
  "Allowance C token owner spender c =
     single_uint (contract_call C token ''allowance'' [AbiAddress owner, AbiAddress spender] c)"

definition erc20_send ::
  "'c Chain \<Rightarrow> Ctx \<Rightarrow> EthAddress \<Rightarrow> string \<Rightarrow> EthAddress \<Rightarrow> int \<Rightarrow> 'c \<Rightarrow> (swap_error + EthHash) \<times> 'c" where
  "erc20_send C ctx token method a v c =
     (case abi_Pack C method [AbiAddress a, AbiUint v] of
        Inl e \<Rightarrow> (Inl (ChainErr e), c)
      | Inr callData \<Rightarrow>
         (case ch_Send C \<lparr>tx_To = token, tx_Data = callData, tx_GasPrice = ctx_GasPrice ctx,
                          tx_GasLimit = 90000, tx_Value = 0\<rparr> c of
            (Inl e, c1) \<Rightarrow> (Inl (ChainErr e), c1)
          | (Inr h, c1) \<Rightarrow> (Inr h, c1)))"

definition Transfer :: "'c Chain \<Rightarrow> Ctx \<Rightarrow> EthAddress \<Rightarrow> EthAddress \<Rightarrow> int \<Rightarrow> 'c \<Rightarrow> (swap_error + EthHash) \<times> 'c" where
  "Transfer C ctx token = erc20_send C ctx token ''transfer''"

definition Approve :: "'c Chain \<Rightarrow> Ctx \<Rightarrow> EthAddress \<Rightarrow> EthAddress \<Rightarrow> int \<Rightarrow> 'c \<Rightarrow> (swap_error + EthHash) \<times> 'c" where
  "Approve C ctx token = erc20_send C ctx token ''approve''"

definition WaitForApprove :: "'c Chain \<Rightarrow> EthHash \<Rightarrow> 'c \<Rightarrow> swap_error option" where
  "WaitForApprove C txHash c =
     (case ch_WaitForReceipt C txHash c of
        Inl e \<Rightarrow> Some (ChainErr e)
      | Inr receipt \<Rightarrow> if rc_Status receipt \<noteq> 1 then Some (ChainErr ''token approve failed'') else None)"

subsection \<open>The factory\<close>

record factory =
  fa_address :: EthAddress
  fa_legacy :: "EthAddress list"

definition verifyChequebookAgainstFactory ::
  "'c Chain \<Rightarrow> EthAddress \<Rightarrow> EthAddress \<Rightarrow> 'c \<Rightarrow> swap_error + bool" where
  "verifyChequebookAgainstFactory C fa cb c =
     (case contract_call C fa ''deployedContracts'' [AbiAddress cb] c of
        Inl e \<Rightarrow> Inl e | Inr [AbiBool b] \<Rightarrow> Inr b | Inr _ \<Rightarrow> Inl ErrDecodeABI)"

fun verify_loop :: "'c Chain \<Rightarrow> EthAddress list \<Rightarrow> EthAddress \<Rightarrow> 'c \<Rightarrow> swap_error option" where
  "verify_loop C [] cb c = Some ErrNotDeployedByFactory"
| "verify_loop C (fa # fas) cb c =
     (case verifyChequebookAgainstFactory C fa cb c of
        Inl e \<Rightarrow> Some e
      | Inr True \<Rightarrow> None
      | Inr False \<Rightarrow> verify_loop C fas cb c)"

definition VerifyChequebook :: "'c Chain \<Rightarrow> factory \<Rightarrow> EthAddress \<Rightarrow> 'c \<Rightarrow> swap_error option" where
  "VerifyChequebook C f cb c =
     (case verifyChequebookAgainstFactory C (fa_address f) cb c of
        Inl e \<Rightarrow> Some e
      | Inr True \<Rightarrow> None
      | Inr False \<Rightarrow> verify_loop C (fa_legacy f) cb c)"

fun bytecode_loop :: "'c Chain \<Rightarrow> bytes list \<Rightarrow> EthAddress list \<Rightarrow> 'c \<Rightarrow> swap_error option" where
  "bytecode_loop C supported [] c = None"
| "bytecode_loop C supported (fa # fas) c =
     (case ch_CodeAt C fa c of
        Inl e \<Rightarrow> Some (ChainErr e)
      | Inr code \<Rightarrow>
          if code \<in> set supported then bytecode_loop C supported fas c
          else Some (SwapWrap ''failed to find matching bytecode for factory'' ErrInvalidFactory))"

text \<open>\<open>current\<close> and \<open>older\<close> are the bytecodes of the factories, generated constants.\<close>

definition VerifyBytecode :: "'c Chain \<Rightarrow> bytes \<Rightarrow> bytes \<Rightarrow> factory \<Rightarrow> 'c \<Rightarrow> swap_error option" where
  "VerifyBytecode C current older f c =
     (case ch_CodeAt C (fa_address f) c of
        Inl e \<Rightarrow> Some (ChainErr e)
      | Inr code \<Rightarrow>
          if code \<noteq> current then Some ErrInvalidFactory
          else bytecode_loop C [current, older] (fa_legacy f) c)"

definition ERC20Address :: "'c Chain \<Rightarrow> factory \<Rightarrow> 'c \<Rightarrow> swap_error + EthAddress" where
  "ERC20Address C f c =
     (case contract_call C (fa_address f) ''ERC20Address'' [] c of
        Inl e \<Rightarrow> Inl e | Inr [AbiAddress a] \<Rightarrow> Inr a | Inr _ \<Rightarrow> Inl ErrDecodeABI)"

subsection \<open>Events\<close>

fun find_log :: "'c Chain \<Rightarrow> EthAddress \<Rightarrow> string \<Rightarrow> Log list \<Rightarrow> swap_error + abi_value list" where
  "find_log C a ev [] = Inl ErrEventNotFound"
| "find_log C a ev (l # ls) =
     (if lg_Address l \<noteq> a then find_log C a ev ls
      else if lg_Topics l = [] then find_log C a ev ls
      else if hd (lg_Topics l) \<noteq> abi_EventID C ev then find_log C a ev ls
      else (case abi_Event C ev (lg_Data l) (tl (lg_Topics l)) of Inl e \<Rightarrow> Inl (ChainErr e) | Inr vs \<Rightarrow> Inr vs))"

definition FindSingleEvent :: "'c Chain \<Rightarrow> Receipt \<Rightarrow> EthAddress \<Rightarrow> string \<Rightarrow> swap_error + abi_value list" where
  "FindSingleEvent C receipt a ev =
     (if rc_Status receipt \<noteq> 1 then Inl ErrTransactionReverted else find_log C a ev (rc_Logs receipt))"

definition Deploy ::
  "'c Chain \<Rightarrow> Ctx \<Rightarrow> factory \<Rightarrow> EthAddress \<Rightarrow> int \<Rightarrow> EthHash \<Rightarrow> 'c \<Rightarrow> (swap_error + EthHash) \<times> 'c" where
  "Deploy C ctx f issuer timeout nonce c =
     (case abi_Pack C ''deploySimpleSwap'' [AbiAddress issuer, AbiUint timeout, AbiBytes nonce] of
        Inl e \<Rightarrow> (Inl (ChainErr e), c)
      | Inr callData \<Rightarrow>
         (case ch_Send C \<lparr>tx_To = fa_address f, tx_Data = callData, tx_GasPrice = ctx_GasPrice ctx,
                          tx_GasLimit = 175000, tx_Value = 0\<rparr> c of
            (Inl e, c1) \<Rightarrow> (Inl (ChainErr e), c1)
          | (Inr h, c1) \<Rightarrow> (Inr h, c1)))"

definition WaitDeployed :: "'c Chain \<Rightarrow> factory \<Rightarrow> EthHash \<Rightarrow> 'c \<Rightarrow> swap_error + EthAddress" where
  "WaitDeployed C f txHash c =
     (case ch_WaitForReceipt C txHash c of
        Inl e \<Rightarrow> Inl (ChainErr e)
      | Inr receipt \<Rightarrow>
         (case FindSingleEvent C receipt (fa_address f) ''SimpleSwapDeployed'' of
            Inl e \<Rightarrow> Inl (SwapWrap ''contract deployment failed'' e)
          | Inr [AbiAddress a] \<Rightarrow> Inr a
          | Inr _ \<Rightarrow> Inl ErrDecodeABI))"

section \<open>Values in the store\<close>

record cashoutAction =
  ca_TxHash :: EthHash
  ca_Cheque :: SignedCheque

datatype swap_value =
    VCheque SignedCheque | VAmount int | VEth EthAddress | VPeer Address | VMark | VCashout cashoutAction

type_synonym 's sstore = "('s, swap_value) StateStorer"

text \<open>Reading a value into a variable of a type; a value of another type does not decode.\<close>

definition wrong_type :: store_error where
  "wrong_type = ErrStore ''cannot unmarshal''"

definition get_cheque :: "'s sstore \<Rightarrow> string \<Rightarrow> 's \<Rightarrow> store_error + SignedCheque" where
  "get_cheque S k st =
     (case st_Get S k st of Inl e \<Rightarrow> Inl e | Inr (VCheque v) \<Rightarrow> Inr v | Inr _ \<Rightarrow> Inl wrong_type)"

definition get_amount :: "'s sstore \<Rightarrow> string \<Rightarrow> 's \<Rightarrow> store_error + int" where
  "get_amount S k st =
     (case st_Get S k st of Inl e \<Rightarrow> Inl e | Inr (VAmount v) \<Rightarrow> Inr v | Inr _ \<Rightarrow> Inl wrong_type)"

definition get_eth :: "'s sstore \<Rightarrow> string \<Rightarrow> 's \<Rightarrow> store_error + EthAddress" where
  "get_eth S k st =
     (case st_Get S k st of Inl e \<Rightarrow> Inl e | Inr (VEth v) \<Rightarrow> Inr v | Inr _ \<Rightarrow> Inl wrong_type)"

definition get_peer :: "'s sstore \<Rightarrow> string \<Rightarrow> 's \<Rightarrow> store_error + Address" where
  "get_peer S k st =
     (case st_Get S k st of Inl e \<Rightarrow> Inl e | Inr (VPeer v) \<Rightarrow> Inr v | Inr _ \<Rightarrow> Inl wrong_type)"

definition get_cashout :: "'s sstore \<Rightarrow> string \<Rightarrow> 's \<Rightarrow> store_error + cashoutAction" where
  "get_cashout S k st =
     (case st_Get S k st of Inl e \<Rightarrow> Inl e | Inr (VCashout v) \<Rightarrow> Inr v | Inr _ \<Rightarrow> Inl wrong_type)"

text \<open>\<open>common.HexToAddress\<close>: what decodes of the text, cropped or padded on the left to 20 bytes.\<close>

fun Hex2Bytes :: "string \<Rightarrow> bytes" where
  "Hex2Bytes (p # q # s) =
     (case fromHexChar p of
        None \<Rightarrow> []
      | Some a \<Rightarrow> (case fromHexChar q of None \<Rightarrow> [] | Some b \<Rightarrow> word_of_nat (a * 16 + b) # Hex2Bytes s))"
| "Hex2Bytes _ = []"

definition FromHex :: "string \<Rightarrow> bytes" where
  "FromHex s =
     (let t = (if take 2 s \<in> {''0x'', ''0X''} then drop 2 s else s) in
      Hex2Bytes (if odd (length t) then CHR ''0'' # t else t))"

definition BytesToAddress :: "bytes \<Rightarrow> EthAddress" where
  "BytesToAddress b = (let t = drop (length b - 20) b in replicate (20 - length t) 0 @ t)"

definition HexToAddress :: "string \<Rightarrow> EthAddress" where
  "HexToAddress s = BytesToAddress (FromHex s)"

section \<open>The store of received cheques\<close>

definition lastReceivedChequePrefix :: string where
  "lastReceivedChequePrefix = ''swap_chequebook_last_received_cheque_''"

record chequeStore =
  cs_factory :: factory
  cs_chainID :: int
  cs_beneficiary :: EthAddress

definition NewChequeStore :: "factory \<Rightarrow> int \<Rightarrow> EthAddress \<Rightarrow> chequeStore" where
  "NewChequeStore f chainID beneficiary = \<lparr>cs_factory = f, cs_chainID = chainID, cs_beneficiary = beneficiary\<rparr>"

definition lastReceivedChequeKey :: "EthAddress \<Rightarrow> string" where
  "lastReceivedChequeKey cb = lastReceivedChequePrefix @ ''_'' @ EncodeToString cb"

definition cs_LastCheque :: "'s sstore \<Rightarrow> EthAddress \<Rightarrow> 's \<Rightarrow> swap_error + SignedCheque" where
  "cs_LastCheque S cb st =
     (case get_cheque S (lastReceivedChequeKey cb) st of
        Inl ErrNotFound \<Rightarrow> Inl ErrNoCheque
      | Inl e \<Rightarrow> Inl (SwapStoreErr e)
      | Inr cheque \<Rightarrow> Inr cheque)"

text \<open>The cumulative payout of the last cheque; the chequebook of a first cheque is verified.\<close>

definition last_payout ::
  "'c Chain \<Rightarrow> 's sstore \<Rightarrow> chequeStore \<Rightarrow> EthAddress \<Rightarrow> 'c \<Rightarrow> 's \<Rightarrow> swap_error + int" where
  "last_payout C S cs cb c st =
     (case get_cheque S (lastReceivedChequeKey cb) st of
        Inl ErrNotFound \<Rightarrow>
         (case VerifyChequebook C (cs_factory cs) cb c of Some e \<Rightarrow> Inl e | None \<Rightarrow> Inr 0)
      | Inl e \<Rightarrow> Inl (SwapStoreErr e)
      | Inr lastReceivedCheque \<Rightarrow> Inr (cq_CumulativePayout lastReceivedCheque))"

text \<open>The checks on the chain: the signature of the issuer and the liquidity of the chequebook. \<open>rec\<close> is the
  \<open>recoverChequeFunc\<close> of the store.\<close>

definition chain_checks ::
  "'c Chain \<Rightarrow> (SignedCheque \<Rightarrow> int \<Rightarrow> string + EthAddress) \<Rightarrow> chequeStore \<Rightarrow> SignedCheque \<Rightarrow> 'c \<Rightarrow> swap_error option" where
  "chain_checks C rec cs cheque c =
     (case Issuer C (cq_Chequebook cheque) c of
        Inl e \<Rightarrow> Some e
      | Inr expectedIssuer \<Rightarrow>
         (case rec cheque (cs_chainID cs) of
            Inl e \<Rightarrow> Some (ChainErr e)
          | Inr issuer \<Rightarrow>
              if issuer \<noteq> expectedIssuer then Some ErrChequeInvalid
              else
               (case Balance C (cq_Chequebook cheque) c of
                  Inl e \<Rightarrow> Some e
                | Inr balance \<Rightarrow>
                   (case PaidOut C (cq_Chequebook cheque) (cs_beneficiary cs) c of
                      Inl e \<Rightarrow> Some e
                    | Inr alreadyPaidOut \<Rightarrow>
                        if balance < cq_CumulativePayout cheque - alreadyPaidOut then Some ErrBouncingCheque
                        else None))))"

definition cs_ReceiveCheque ::
  "'c Chain \<Rightarrow> (SignedCheque \<Rightarrow> int \<Rightarrow> string + EthAddress) \<Rightarrow> 's sstore \<Rightarrow> chequeStore \<Rightarrow> SignedCheque \<Rightarrow> int \<Rightarrow> int
   \<Rightarrow> 'c \<Rightarrow> 's \<Rightarrow> (swap_error + int) \<times> 's" where
  "cs_ReceiveCheque C rec S cs cheque exchangeRate deduction c st =
     (if cq_Beneficiary cheque \<noteq> cs_beneficiary cs then (Inl ErrWrongBeneficiary, st)
      else
       (case last_payout C S cs (cq_Chequebook cheque) c st of
          Inl e \<Rightarrow> (Inl e, st)
        | Inr lastCumulativePayout \<Rightarrow>
            let amount = cq_CumulativePayout cheque - lastCumulativePayout in
            if amount \<le> 0 then (Inl ErrChequeNotIncreasing, st)
            else
              let deducedAmount = amount - deduction in
              if deducedAmount < exchangeRate then (Inl ErrChequeValueTooLow, st)
              else
               (case chain_checks C rec cs cheque c of
                  Some e \<Rightarrow> (Inl e, st)
                | None \<Rightarrow>
                   (case st_Put S (lastReceivedChequeKey (cq_Chequebook cheque)) (VCheque cheque) st of
                      Inl e \<Rightarrow> (Inl (SwapStoreErr e), st)
                    | Inr st1 \<Rightarrow> (Inr amount, st1)))))"

definition keyChequebook :: "string \<Rightarrow> string \<Rightarrow> swap_error + EthAddress" where
  "keyChequebook key pre =
     (case SplitAfter key pre of [_, h] \<Rightarrow> Inr (HexToAddress h) | _ \<Rightarrow> Inl NoPeerInKey)"

definition cs_LastCheques_func ::
  "'s sstore \<Rightarrow> 's \<Rightarrow> (swap_value, EthAddress \<rightharpoonup> SignedCheque, swap_error) StateIterFunc" where
  "cs_LastCheques_func S st key v m =
     (case keyChequebook key (lastReceivedChequePrefix @ ''_'') of
        Inl e \<Rightarrow> (m, False, Some (SwapWrap ''parse address from key'' e))
      | Inr addr \<Rightarrow>
          if m addr = None then
            (case cs_LastCheque S addr st of
               Inl ErrNoCheque \<Rightarrow> (m, False, None)
             | Inl e \<Rightarrow> (m, False, Some e)
             | Inr lastCheque \<Rightarrow> (m(addr \<mapsto> lastCheque), False, None))
          else (m, False, None))"

definition cs_LastCheques :: "'s sstore \<Rightarrow> 's \<Rightarrow> swap_error iter_error + (EthAddress \<rightharpoonup> SignedCheque)" where
  "cs_LastCheques S st =
     (case st_Iterate S lastReceivedChequePrefix (cs_LastCheques_func S st) st Map.empty of
        (_, Some e) \<Rightarrow> Inl e
      | (m, None) \<Rightarrow> Inr m)"

section \<open>The chequebook\<close>

definition lastIssuedChequeKeyPrefix :: string where
  "lastIssuedChequeKeyPrefix = ''swap_chequebook_last_issued_cheque_''"
definition totalIssuedKey :: string where
  "totalIssuedKey = ''swap_chequebook_total_issued_''"

record chequebook =
  cb_address :: EthAddress
  cb_ownerAddress :: EthAddress
  cb_token :: EthAddress
  cb_totalIssuedReserved :: int

definition New_chequebook :: "EthAddress \<Rightarrow> EthAddress \<Rightarrow> EthAddress \<Rightarrow> chequebook" where
  "New_chequebook address ownerAddress token =
     \<lparr>cb_address = address, cb_ownerAddress = ownerAddress, cb_token = token, cb_totalIssuedReserved = 0\<rparr>"

definition Deposit :: "'c Chain \<Rightarrow> Ctx \<Rightarrow> int \<Rightarrow> chequebook \<Rightarrow> 'c \<Rightarrow> (swap_error + EthHash) \<times> 'c" where
  "Deposit C ctx amount cb c =
     (case BalanceOf C (cb_token cb) (cb_ownerAddress cb) c of
        Inl e \<Rightarrow> (Inl e, c)
      | Inr balance \<Rightarrow>
          if balance < amount then (Inl ErrInsufficientFunds, c)
          else Transfer C ctx (cb_token cb) (cb_address cb) amount c)"

definition totalIssued :: "'s sstore \<Rightarrow> 's \<Rightarrow> swap_error + int" where
  "totalIssued S st =
     (case get_amount S totalIssuedKey st of
        Inl ErrNotFound \<Rightarrow> Inr 0 | Inl e \<Rightarrow> Inl (SwapStoreErr e) | Inr x \<Rightarrow> Inr x)"

definition AvailableBalance :: "'c Chain \<Rightarrow> 's sstore \<Rightarrow> chequebook \<Rightarrow> 'c \<Rightarrow> 's \<Rightarrow> swap_error + int" where
  "AvailableBalance C S cb c st =
     (case totalIssued S st of
        Inl e \<Rightarrow> Inl e
      | Inr issued \<Rightarrow>
         (case Balance C (cb_address cb) c of
            Inl e \<Rightarrow> Inl e
          | Inr balance \<Rightarrow>
             (case TotalPaidOut C (cb_address cb) c of
                Inl e \<Rightarrow> Inl e
              | Inr totalPaidOut \<Rightarrow> Inr (balance + totalPaidOut - issued))))"

definition WaitForDeposit :: "'c Chain \<Rightarrow> EthHash \<Rightarrow> 'c \<Rightarrow> swap_error option" where
  "WaitForDeposit C txHash c =
     (case ch_WaitForReceipt C txHash c of
        Inl e \<Rightarrow> Some (ChainErr e)
      | Inr receipt \<Rightarrow> if rc_Status receipt \<noteq> 1 then Some ErrTransactionReverted else None)"

definition lastIssuedChequeKey :: "EthAddress \<Rightarrow> string" where
  "lastIssuedChequeKey beneficiary = lastIssuedChequeKeyPrefix @ EncodeToString beneficiary"

definition cb_LastCheque :: "'s sstore \<Rightarrow> EthAddress \<Rightarrow> 's \<Rightarrow> swap_error + SignedCheque" where
  "cb_LastCheque S beneficiary st =
     (case get_cheque S (lastIssuedChequeKey beneficiary) st of
        Inl ErrNotFound \<Rightarrow> Inl ErrNoCheque
      | Inl e \<Rightarrow> Inl (SwapStoreErr e)
      | Inr cheque \<Rightarrow> Inr cheque)"

definition reserveTotalIssued ::
  "'c Chain \<Rightarrow> 's sstore \<Rightarrow> int \<Rightarrow> 'c \<Rightarrow> chequebook \<times> 's \<Rightarrow> (swap_error + int) \<times> chequebook \<times> 's" where
  "reserveTotalIssued C S amount c cs =
     (case cs of (cb, st) \<Rightarrow>
      (case AvailableBalance C S cb c st of
         Inl e \<Rightarrow> (Inl e, cb, st)
       | Inr availableBalance \<Rightarrow>
           if availableBalance - cb_totalIssuedReserved cb < amount then (Inl ErrOutOfFunds, cb, st)
           else (Inr (availableBalance - amount),
                 cb\<lparr>cb_totalIssuedReserved := cb_totalIssuedReserved cb + amount\<rparr>, st)))"

definition unreserveTotalIssued :: "int \<Rightarrow> chequebook \<Rightarrow> chequebook" where
  "unreserveTotalIssued amount cb = cb\<lparr>cb_totalIssuedReserved := cb_totalIssuedReserved cb - amount\<rparr>"

text \<open>The new cheque: the last cumulative payout plus the amount, signed.\<close>

definition next_cheque ::
  "(Cheque \<Rightarrow> string + bytes) \<Rightarrow> 's sstore \<Rightarrow> EthAddress \<Rightarrow> int \<Rightarrow> chequebook \<Rightarrow> 's \<Rightarrow> swap_error + SignedCheque" where
  "next_cheque sign S beneficiary amount cb st =
     (case (case cb_LastCheque S beneficiary st of
              Inl ErrNoCheque \<Rightarrow> Inr 0 | Inl e \<Rightarrow> Inl e | Inr l \<Rightarrow> Inr (cq_CumulativePayout l)) of
        Inl e \<Rightarrow> Inl e
      | Inr cumulativePayout \<Rightarrow>
          let cheque = \<lparr>cq_Chequebook = cb_address cb, cq_Beneficiary = beneficiary,
                        cq_CumulativePayout = cumulativePayout + amount\<rparr> in
          (case sign cheque of
             Inl e \<Rightarrow> Inl (SignErr e)
           | Inr sig \<Rightarrow> Inr \<lparr>cq_Chequebook = cb_address cb, cq_Beneficiary = beneficiary,
                             cq_CumulativePayout = cumulativePayout + amount, cq_Signature = sig\<rparr>))"

text \<open>The stored value is the cheque without its signature, which decodes to an empty one.\<close>

definition save_cheque :: "'s sstore \<Rightarrow> EthAddress \<Rightarrow> SignedCheque \<Rightarrow> 's \<Rightarrow> swap_error + 's" where
  "save_cheque S beneficiary cheque st =
     (case st_Put S (lastIssuedChequeKey beneficiary) (VCheque (cheque\<lparr>cq_Signature := []\<rparr>)) st of
        Inl e \<Rightarrow> Inl (SwapStoreErr e) | Inr st1 \<Rightarrow> Inr st1)"

definition count_issued :: "'s sstore \<Rightarrow> int \<Rightarrow> 's \<Rightarrow> swap_error + 's" where
  "count_issued S amount st =
     (case totalIssued S st of
        Inl e \<Rightarrow> Inl e
      | Inr issued \<Rightarrow>
         (case st_Put S totalIssuedKey (VAmount (issued + amount)) st of
            Inl e \<Rightarrow> Inl (SwapStoreErr e) | Inr st1 \<Rightarrow> Inr st1))"

text \<open>\<open>send\<close> is the callback: the error of sending the cheque, and what sending did to the world \<open>'w\<close>.\<close>

definition issue_reserved ::
  "(Cheque \<Rightarrow> string + bytes) \<Rightarrow> 's sstore \<Rightarrow> EthAddress \<Rightarrow> int \<Rightarrow> (SignedCheque \<Rightarrow> 'w \<Rightarrow> swap_error option \<times> 'w)
   \<Rightarrow> chequebook \<Rightarrow> 's \<Rightarrow> 'w \<Rightarrow> swap_error option \<times> 's \<times> 'w" where
  "issue_reserved sign S beneficiary amount send cb st w =
     (case next_cheque sign S beneficiary amount cb st of
        Inl e \<Rightarrow> (Some e, st, w)
      | Inr cheque \<Rightarrow>
         (case send cheque w of
            (Some e, w1) \<Rightarrow> (Some e, st, w1)
          | (None, w1) \<Rightarrow>
             (case save_cheque S beneficiary cheque st of
                Inl e \<Rightarrow> (Some e, st, w1)
              | Inr st1 \<Rightarrow>
                 (case count_issued S amount st1 of
                    Inl e \<Rightarrow> (Some e, st1, w1)
                  | Inr st2 \<Rightarrow> (None, st2, w1)))))"

definition Issue ::
  "'c Chain \<Rightarrow> (Cheque \<Rightarrow> string + bytes) \<Rightarrow> 's sstore \<Rightarrow> EthAddress \<Rightarrow> int \<Rightarrow> (SignedCheque \<Rightarrow> 'w \<Rightarrow> swap_error option \<times> 'w)
   \<Rightarrow> 'c \<Rightarrow> chequebook \<times> 's \<Rightarrow> 'w \<Rightarrow> (swap_error + int) \<times> (chequebook \<times> 's) \<times> 'w" where
  "Issue C sign S beneficiary amount send c cs w =
     (case reserveTotalIssued C S amount c cs of
        (Inl e, cs1) \<Rightarrow> (Inl e, cs1, w)
      | (Inr availableBalance, cb, st) \<Rightarrow>
         (case issue_reserved sign S beneficiary amount send cb st w of
            (r, st1, w1) \<Rightarrow>
              (case r of Some e \<Rightarrow> Inl e | None \<Rightarrow> Inr availableBalance, (unreserveTotalIssued amount cb, st1), w1)))"

definition keyBeneficiary :: "string \<Rightarrow> string \<Rightarrow> swap_error + EthAddress" where
  "keyBeneficiary key pre =
     (case SplitAfter key pre of [_, h] \<Rightarrow> Inr (HexToAddress h) | _ \<Rightarrow> Inl NoBeneficiaryInKey)"

definition cb_LastCheques_func ::
  "'s sstore \<Rightarrow> 's \<Rightarrow> (swap_value, EthAddress \<rightharpoonup> SignedCheque, swap_error) StateIterFunc" where
  "cb_LastCheques_func S st key v m =
     (case keyBeneficiary key lastIssuedChequeKeyPrefix of
        Inl e \<Rightarrow> (m, False, Some (SwapWrap ''parse address from key'' e))
      | Inr addr \<Rightarrow>
          if m addr = None then
            (case cb_LastCheque S addr st of
               Inl e \<Rightarrow> (m, False, Some e)
             | Inr lastCheque \<Rightarrow> (m(addr \<mapsto> lastCheque), False, None))
          else (m, False, None))"

definition cb_LastCheques :: "'s sstore \<Rightarrow> 's \<Rightarrow> swap_error iter_error + (EthAddress \<rightharpoonup> SignedCheque)" where
  "cb_LastCheques S st =
     (case st_Iterate S lastIssuedChequeKeyPrefix (cb_LastCheques_func S st) st Map.empty of
        (_, Some e) \<Rightarrow> Inl e
      | (m, None) \<Rightarrow> Inr m)"

definition Withdraw ::
  "'c Chain \<Rightarrow> 's sstore \<Rightarrow> Ctx \<Rightarrow> int \<Rightarrow> chequebook \<Rightarrow> 's \<Rightarrow> 'c \<Rightarrow> (swap_error + EthHash) \<times> 'c" where
  "Withdraw C S ctx amount cb st c =
     (case AvailableBalance C S cb c st of
        Inl e \<Rightarrow> (Inl e, c)
      | Inr availableBalance \<Rightarrow>
          if availableBalance < amount then (Inl ErrInsufficientFunds, c)
          else
           (case abi_Pack C ''withdraw'' [AbiUint amount] of
              Inl e \<Rightarrow> (Inl (ChainErr e), c)
            | Inr callData \<Rightarrow>
               (case ch_Send C \<lparr>tx_To = cb_address cb, tx_Data = callData, tx_GasPrice = ctx_GasPrice ctx,
                                tx_GasLimit = 95000, tx_Value = 0\<rparr> c of
                  (Inl e, c1) \<Rightarrow> (Inl (ChainErr e), c1)
                | (Inr h, c1) \<Rightarrow> (Inr h, c1))))"

section \<open>Cashing cheques\<close>

record CashChequeResult =
  cr_Beneficiary :: EthAddress
  cr_Recipient :: EthAddress
  cr_Caller :: EthAddress
  cr_TotalPayout :: int
  cr_CumulativePayout :: int
  cr_CallerPayout :: int
  cr_Bounced :: bool

record LastCashout =
  lo_TxHash :: EthHash
  lo_Cheque :: SignedCheque
  lo_Result :: "CashChequeResult option"
  lo_Reverted :: bool

record CashoutStatus =
  co_Last :: "LastCashout option"
  co_UncashedAmount :: int

definition cashoutActionKey :: "EthAddress \<Rightarrow> string" where
  "cashoutActionKey cb = ''swap_cashout_'' @ EncodeToString cb"

definition cashout_paidOut :: "'c Chain \<Rightarrow> EthAddress \<Rightarrow> EthAddress \<Rightarrow> 'c \<Rightarrow> swap_error + int" where
  "cashout_paidOut C cb beneficiary c = single_uint (contract_call C cb ''paidOut'' [AbiAddress beneficiary] c)"

definition CashCheque ::
  "'c Chain \<Rightarrow> 's sstore \<Rightarrow> Ctx \<Rightarrow> EthAddress \<Rightarrow> EthAddress \<Rightarrow> 'c \<times> 's \<Rightarrow> (swap_error + EthHash) \<times> 'c \<times> 's" where
  "CashCheque C S ctx cb recipient w =
     (case w of (c, st) \<Rightarrow>
      (case cs_LastCheque S cb st of
         Inl e \<Rightarrow> (Inl e, c, st)
       | Inr cheque \<Rightarrow>
          (case abi_Pack C ''cashChequeBeneficiary''
                  [AbiAddress recipient, AbiUint (cq_CumulativePayout cheque), AbiBytes (cq_Signature cheque)] of
             Inl e \<Rightarrow> (Inl (ChainErr e), c, st)
           | Inr callData \<Rightarrow>
               let lim = (if ctx_GasLimit ctx = 0 then 300000 else ctx_GasLimit ctx) in
               (case ch_Send C \<lparr>tx_To = cb, tx_Data = callData, tx_GasPrice = ctx_GasPrice ctx,
                                tx_GasLimit = lim, tx_Value = 0\<rparr> c of
                  (Inl e, c1) \<Rightarrow> (Inl (ChainErr e), c1, st)
                | (Inr txHash, c1) \<Rightarrow>
                   (case st_Put S (cashoutActionKey cb) (VCashout \<lparr>ca_TxHash = txHash, ca_Cheque = cheque\<rparr>) st of
                      Inl e \<Rightarrow> (Inl (SwapStoreErr e), c1, st)
                    | Inr st1 \<Rightarrow> (Inr txHash, c1, st1))))))"

text \<open>The values of a \<open>ChequeCashed\<close> event, in the order of the contract.\<close>

definition parseCashChequeBeneficiaryReceipt ::
  "'c Chain \<Rightarrow> EthAddress \<Rightarrow> Receipt \<Rightarrow> swap_error + CashChequeResult" where
  "parseCashChequeBeneficiaryReceipt C cb receipt =
     (case FindSingleEvent C receipt cb ''ChequeCashed'' of
        Inl e \<Rightarrow> Inl e
      | Inr [AbiAddress beneficiary, AbiAddress recipient, AbiAddress caller,
             AbiUint totalPayout, AbiUint cumulativePayout, AbiUint callerPayout] \<Rightarrow>
          let result = \<lparr>cr_Beneficiary = beneficiary, cr_Recipient = recipient, cr_Caller = caller,
                        cr_TotalPayout = totalPayout, cr_CumulativePayout = cumulativePayout,
                        cr_CallerPayout = callerPayout, cr_Bounced = False\<rparr> in
          (case FindSingleEvent C receipt cb ''ChequeBounced'' of
             Inr _ \<Rightarrow> Inr (result\<lparr>cr_Bounced := True\<rparr>)
           | Inl ErrEventNotFound \<Rightarrow> Inr result
           | Inl e \<Rightarrow> Inl e)
      | Inr _ \<Rightarrow> Inl ErrDecodeABI)"

definition cashout_pending :: "'c Chain \<Rightarrow> EthHash \<Rightarrow> 'c \<Rightarrow> swap_error + bool" where
  "cashout_pending C h c =
     (case ch_Tx C h c of
        Inl None \<Rightarrow> Inr True | Inl (Some e) \<Rightarrow> Inl (ChainErr e) | Inr pending \<Rightarrow> Inr pending)"

definition CashoutStatus_of :: "'c Chain \<Rightarrow> 's sstore \<Rightarrow> EthAddress \<Rightarrow> 'c \<Rightarrow> 's \<Rightarrow> swap_error + CashoutStatus" where
  "CashoutStatus_of C S cb c st =
     (case cs_LastCheque S cb st of
        Inl e \<Rightarrow> Inl e
      | Inr cheque \<Rightarrow>
         (case get_cashout S (cashoutActionKey cb) st of
            Inl ErrNotFound \<Rightarrow> Inr \<lparr>co_Last = None, co_UncashedAmount = cq_CumulativePayout cheque\<rparr>
          | Inl e \<Rightarrow> Inl (SwapStoreErr e)
          | Inr action \<Rightarrow>
              let status = (\<lambda>result reverted paid.
                    \<lparr>co_Last = Some \<lparr>lo_TxHash = ca_TxHash action, lo_Cheque = ca_Cheque action,
                                     lo_Result = result, lo_Reverted = reverted\<rparr>,
                     co_UncashedAmount = cq_CumulativePayout cheque - paid\<rparr>) in
              (case cashout_pending C (ca_TxHash action) c of
                 Inl e \<Rightarrow> Inl e
               | Inr True \<Rightarrow> Inr (status None False (cq_CumulativePayout (ca_Cheque action)))
               | Inr False \<Rightarrow>
                  (case ch_Receipt C (ca_TxHash action) c of
                     Inl e \<Rightarrow> Inl (ChainErr e)
                   | Inr receipt \<Rightarrow>
                       if rc_Status receipt = 0 then
                         (case cashout_paidOut C cb (cq_Beneficiary cheque) c of
                            Inl e \<Rightarrow> Inl e
                          | Inr paidOut \<Rightarrow> Inr (status None True paidOut))
                       else
                         (case parseCashChequeBeneficiaryReceipt C cb receipt of
                            Inl e \<Rightarrow> Inl e
                          | Inr result \<Rightarrow> Inr (status (Some result) False (cr_CumulativePayout result)))))))"

definition result_Equal :: "CashChequeResult \<Rightarrow> CashChequeResult \<Rightarrow> bool" where
  "result_Equal r o' \<longleftrightarrow>
     (if cr_Beneficiary r \<noteq> cr_Beneficiary o' then False
      else if cr_Bounced r \<noteq> cr_Bounced o' then False
      else if cr_Caller r \<noteq> cr_Caller o' then False
      else if cr_CallerPayout r \<noteq> cr_CallerPayout o' then False
      else if cr_CumulativePayout r \<noteq> cr_CumulativePayout o' then False
      else if cr_Recipient r \<noteq> cr_Recipient o' then False
      else if cr_TotalPayout r \<noteq> cr_TotalPayout o' then False
      else True)"

lemma result_Equal_iff: "result_Equal a b \<longleftrightarrow> a = b"
  by (auto simp: result_Equal_def intro: CashChequeResult.equality)

end
