(* ===== verification/ChequebookSafety.thy ===== *)
theory ChequebookSafety
  imports Chequebook
begin

text \<open>
  What the cheque store and the chequebook promise: a received cheque is credited once and only when the
  issuer of the chequebook signed it and can pay it; the cheques issued, however the calls interleave,
  are covered by the funds of the chequebook.
\<close>

section \<open>Keys\<close>

lemma lastReceivedChequeKey_inject [simp]: "lastReceivedChequeKey a = lastReceivedChequeKey b \<longleftrightarrow> a = b"
  by (simp add: lastReceivedChequeKey_def)

lemma lastIssuedChequeKey_inject [simp]: "lastIssuedChequeKey a = lastIssuedChequeKey b \<longleftrightarrow> a = b"
  by (simp add: lastIssuedChequeKey_def)

lemma issued_not_total [simp]: "lastIssuedChequeKey a \<noteq> totalIssuedKey"
  by (simp add: lastIssuedChequeKey_def lastIssuedChequeKeyPrefix_def totalIssuedKey_def)

section \<open>Received cheques\<close>

text \<open>The cumulative payout received from a chequebook.\<close>

definition received :: "('s \<Rightarrow> string \<Rightarrow> swap_value option) \<Rightarrow> 's \<Rightarrow> EthAddress \<Rightarrow> int" where
  "received look st cb = (case look st (lastReceivedChequeKey cb) of Some (VCheque c) \<Rightarrow> cq_CumulativePayout c | _ \<Rightarrow> 0)"

text \<open>The chain vouches for a cheque: its issuer signed it and the chequebook can still pay it.\<close>

definition vouched ::
  "'c Chain \<Rightarrow> (SignedCheque \<Rightarrow> int \<Rightarrow> string + EthAddress) \<Rightarrow> chequeStore \<Rightarrow> SignedCheque \<Rightarrow> 'c \<Rightarrow> bool" where
  "vouched C rec cs cheque c \<longleftrightarrow>
     (\<exists>issuer balance paid. Issuer C (cq_Chequebook cheque) c = Inr issuer \<and> rec cheque (cs_chainID cs) = Inr issuer \<and>
        Balance C (cq_Chequebook cheque) c = Inr balance \<and> PaidOut C (cq_Chequebook cheque) (cs_beneficiary cs) c = Inr paid \<and>
        cq_CumulativePayout cheque \<le> balance + paid)"

lemma chain_checks_None: "chain_checks C rec cs cheque c = None \<Longrightarrow> vouched C rec cs cheque c"
  by (auto simp: chain_checks_def vouched_def split: sum.splits if_splits)

locale cheque_store = state_store S look for S :: "'s sstore" and look
begin

lemma last_payout_received: "last_payout C S cs cb c st = Inr x \<Longrightarrow> x = received look st cb"
  by (auto simp: last_payout_def get_cheque_def received_def split: sum.splits store_error.splits swap_value.splits option.splits
      dest!: get_some get_none)

lemma last_payout_first:
  "last_payout C S cs cb c st = Inr x \<Longrightarrow> look st (lastReceivedChequeKey cb) = None \<Longrightarrow> VerifyChequebook C (cs_factory cs) cb c = None"
  by (auto simp: last_payout_def get_cheque_def split: sum.splits store_error.splits swap_value.splits option.splits
      dest: get_some)

lemma receive_accepted:
  assumes "cs_ReceiveCheque C rec S cs cheque rate ded c st = (Inr amount, st')"
  shows "cq_Beneficiary cheque = cs_beneficiary cs" and "vouched C rec cs cheque c"
    and "amount = cq_CumulativePayout cheque - received look st (cq_Chequebook cheque)" and "0 < amount"
    and "rate \<le> amount - ded"
    and "look st (lastReceivedChequeKey (cq_Chequebook cheque)) = None \<Longrightarrow>
      VerifyChequebook C (cs_factory cs) (cq_Chequebook cheque) c = None"
    and "look st' = (look st)(lastReceivedChequeKey (cq_Chequebook cheque) \<mapsto> VCheque cheque)"
proof -
  show b: "cq_Beneficiary cheque = cs_beneficiary cs" using assms by (auto simp: cs_ReceiveCheque_def split: if_splits)
  obtain x where x: "last_payout C S cs (cq_Chequebook cheque) c st = Inr x"
    using assms b by (auto simp: cs_ReceiveCheque_def split: sum.splits)
  then have r: "x = received look st (cq_Chequebook cheque)" by (rule last_payout_received)
  have chk: "chain_checks C rec cs cheque c = None" and a: "\<not> cq_CumulativePayout cheque - x \<le> 0"
      "\<not> cq_CumulativePayout cheque - x - ded < rate"
    using assms b x by (auto simp: cs_ReceiveCheque_def Let_def split: if_splits option.splits)
  then have p: "st_Put S (lastReceivedChequeKey (cq_Chequebook cheque)) (VCheque cheque) st = Inr st'"
    and am: "amount = cq_CumulativePayout cheque - x"
    using assms b x by (auto simp: cs_ReceiveCheque_def Let_def split: sum.splits)
  show "vouched C rec cs cheque c" by (rule chain_checks_None [OF chk])
  show "amount = cq_CumulativePayout cheque - received look st (cq_Chequebook cheque)" "0 < amount" "rate \<le> amount - ded"
    using am r a by auto
  show "VerifyChequebook C (cs_factory cs) (cq_Chequebook cheque) c = None"
    if "look st (lastReceivedChequeKey (cq_Chequebook cheque)) = None" by (rule last_payout_first [OF x that])
  show "look st' = (look st)(lastReceivedChequeKey (cq_Chequebook cheque) \<mapsto> VCheque cheque)" by (rule put_look [OF p])
qed

lemma receive_rejected: "cs_ReceiveCheque C rec S cs cheque rate ded c st = (Inl e, st') \<Longrightarrow> st' = st"
  by (auto simp: cs_ReceiveCheque_def Let_def split: if_splits sum.splits option.splits)

lemma received_after:
  assumes "cs_ReceiveCheque C rec S cs cheque rate ded c st = (Inr amount, st')"
  shows "received look st' cb = (if cb = cq_Chequebook cheque then cq_CumulativePayout cheque else received look st cb)"
  using receive_accepted(7) [OF assms] by (simp add: received_def)

end

text \<open>A sequence of cheques, each with the rates and the state of the chain when it arrives; the credited amounts
  with their chequebooks.\<close>

fun receive_all ::
  "'c Chain \<Rightarrow> (SignedCheque \<Rightarrow> int \<Rightarrow> string + EthAddress) \<Rightarrow> 's sstore \<Rightarrow> chequeStore \<Rightarrow> (SignedCheque \<times> int \<times> int \<times> 'c) list
   \<Rightarrow> 's \<Rightarrow> (EthAddress \<times> int) list \<times> 's" where
  "receive_all C rec S cs [] st = ([], st)"
| "receive_all C rec S cs ((cheque, rate, ded, c) # xs) st =
     (case cs_ReceiveCheque C rec S cs cheque rate ded c st of
        (r, st1) \<Rightarrow>
          (case receive_all C rec S cs xs st1 of
             (ys, st2) \<Rightarrow> (case r of Inl _ \<Rightarrow> ys | Inr amount \<Rightarrow> (cq_Chequebook cheque, amount) # ys, st2)))"

definition credited :: "EthAddress \<Rightarrow> (EthAddress \<times> int) list \<Rightarrow> int" where
  "credited cb ys = sum_list (map snd (filter (\<lambda>y. fst y = cb) ys))"

lemma credited_simps [simp]:
  "credited cb [] = 0" "credited cb ((a, x) # ys) = (if a = cb then x else 0) + credited cb ys"
  by (simp_all add: credited_def)

context cheque_store
begin

lemma receive_all_total:
  "receive_all C rec S cs xs st = (ys, st') \<Longrightarrow>
   credited cb ys = received look st' cb - received look st cb \<and> (\<forall>y \<in> set ys. 0 < snd y)"
proof (induction xs arbitrary: st ys)
  case (Cons x xs)
  obtain cheque rate ded c where x: "x = (cheque, rate, ded, c)" by (metis prod.exhaust)
  obtain r st1 where r: "cs_ReceiveCheque C rec S cs cheque rate ded c st = (r, st1)" by fastforce
  obtain ys1 st2 where ys1: "receive_all C rec S cs xs st1 = (ys1, st2)" by fastforce
  with Cons.prems x r have st2: "st2 = st'" "ys = (case r of Inl _ \<Rightarrow> ys1 | Inr amount \<Rightarrow> (cq_Chequebook cheque, amount) # ys1)"
    by auto
  note ih = Cons.IH [OF ys1 [unfolded st2(1)]]
  show ?case
  proof (cases r)
    case (Inl e)
    from receive_rejected [OF r [unfolded Inl]] have "st1 = st" .
    with ih st2(2) Inl show ?thesis by simp
  next
    case (Inr amount)
    note acc = receive_accepted [OF r [unfolded Inr]] and aft = received_after [OF r [unfolded Inr], of cb]
    show ?thesis using ih st2(2) Inr acc(3,4) aft by auto
  qed
qed simp

end

interpretation inmem_cheques: cheque_store InMem "map_of :: swap_value mem \<Rightarrow> string \<Rightarrow> swap_value option"
  by unfold_locales

subsection \<open>An instance\<close>

text \<open>A chain whose state is the balance of every chequebook; a chequebook is its own issuer.\<close>

definition demo_chain :: "int Chain" where
  "demo_chain =
     \<lparr>abi_Pack = \<lambda>m args. Inr (if m = ''balance'' then [1] else if m = ''issuer'' then [2] else if m = ''deployedContracts'' then [3] else []),
      abi_Unpack = \<lambda>m out. Inr (if m = ''issuer'' then [AbiAddress out] else if m = ''deployedContracts'' then [AbiBool True]
                                else [AbiUint (SetBytes out)]),
      abi_EventID = \<lambda>m. [], abi_Event = \<lambda>m d ts. Inl ''none'',
      ch_Call = \<lambda>a d c. Inr (if d = [1] then big_Bytes c else if d = [2] then a else []),
      ch_Send = \<lambda>t c. (Inr [7], c), ch_WaitForReceipt = \<lambda>h c. Inl ''none'',
      ch_Tx = \<lambda>h c. Inl None, ch_Receipt = \<lambda>h c. Inl ''none'', ch_CodeAt = \<lambda>a c. Inl ''none''\<rparr>"

definition demo_cs :: chequeStore where
  "demo_cs = NewChequeStore \<lparr>fa_address = [1], fa_legacy = []\<rparr> 5 [9]"

definition demo_rec :: "SignedCheque \<Rightarrow> int \<Rightarrow> string + EthAddress" where
  "demo_rec q chainID = Inr (cq_Chequebook q)"

definition demo_cheque :: "int \<Rightarrow> SignedCheque" where
  "demo_cheque x = \<lparr>cq_Chequebook = [2], cq_Beneficiary = [9], cq_CumulativePayout = x, cq_Signature = []\<rparr>"

lemma demo_cheque_simps [simp]:
  "cq_Chequebook (demo_cheque x) = [2]" "cq_Beneficiary (demo_cheque x) = [9]" "cq_CumulativePayout (demo_cheque x) = x"
  by (simp_all add: demo_cheque_def)

lemma SetBytes_Nil: "SetBytes [] = 0"
  by (simp add: SetBytes_def)

lemma demo_calls [simp]:
  "Balance demo_chain a c = Inr \<bar>c\<bar>" "TotalPaidOut demo_chain a c = Inr 0" "PaidOut demo_chain a b c = Inr 0"
  "Issuer demo_chain a c = Inr a" "VerifyChequebook demo_chain f a c = None"
  by (simp_all add: Balance_def TotalPaidOut_def PaidOut_def Issuer_def VerifyChequebook_def contract_call_def first_uint_def
      verifyChequebookAgainstFactory_def demo_chain_def SetBytes_Nil)

lemma demo_receive:
  "cs_ReceiveCheque demo_chain demo_rec InMem demo_cs (demo_cheque x) 1 0 100 st =
   (let old = received map_of st [2] in
    if \<exists>v. map_of st (lastReceivedChequeKey [2]) = Some v \<and> \<not> (\<exists>q. v = VCheque q) then (Inl (SwapStoreErr wrong_type), st)
    else if x \<le> old then (Inl ErrChequeNotIncreasing, st)
    else if 100 < x then (Inl ErrBouncingCheque, st)
    else (Inr (x - old), (lastReceivedChequeKey [2], VCheque (demo_cheque x)) # st))"
  by (auto simp: cs_ReceiveCheque_def last_payout_def get_cheque_def chain_checks_def mem_defs received_def Let_def
      demo_cs_def demo_rec_def NewChequeStore_def wrong_type_def split: option.splits swap_value.splits)

subsection \<open>Properties\<close>

text \<open>C17. Only good cheques are accepted: an accepted cheque is made out to this node, signed by the issuer of its
  chequebook, which the factory deployed if it is the first one and which can pay it; the amount is what
  the cheque adds to the last one and covers the deduction and one unit. The cheque replaces the last one
  of its chequebook and no other; a rejected cheque changes nothing.\<close>

theorem accepted_cheque_sound:
  assumes "cheque_store S look" and "cs_ReceiveCheque C rec S cs cheque rate ded c st = (r, st')"
  shows "case r of
      Inl _ \<Rightarrow> st' = st
    | Inr amount \<Rightarrow> cq_Beneficiary cheque = cs_beneficiary cs \<and> vouched C rec cs cheque c \<and>
        (look st (lastReceivedChequeKey (cq_Chequebook cheque)) = None \<longrightarrow>
           VerifyChequebook C (cs_factory cs) (cq_Chequebook cheque) c = None) \<and>
        amount = cq_CumulativePayout cheque - received look st (cq_Chequebook cheque) \<and> 0 < amount \<and> rate \<le> amount - ded \<and>
        look st' = (look st)(lastReceivedChequeKey (cq_Chequebook cheque) \<mapsto> VCheque cheque)"
proof (cases r)
  case (Inl e)
  then show ?thesis using cheque_store.receive_rejected [OF assms(1)] assms(2) by simp
next
  case (Inr amount)
  show ?thesis using cheque_store.receive_accepted [OF assms(1) assms(2) [unfolded Inr]] by (simp add: Inr)
qed

theorem accepted_cheque_sound_witness:
  "\<exists>st'. cs_ReceiveCheque demo_chain demo_rec InMem demo_cs (demo_cheque 25) 1 0 100 [] = (Inr 25, st') \<and>
    vouched demo_chain demo_rec demo_cs (demo_cheque 25) 100 \<and> map_of st' (lastReceivedChequeKey [2]) = Some (VCheque (demo_cheque 25))"
proof -
  obtain st' where r: "cs_ReceiveCheque demo_chain demo_rec InMem demo_cs (demo_cheque 25) 1 0 100 [] = (Inr 25, st')"
    by (simp add: demo_receive received_def)
  from accepted_cheque_sound [OF inmem_cheques.cheque_store_axioms r] r show ?thesis by simp
qed

text \<open>C18. No cheque is credited twice: over any sequence of cheques, also replayed, outdated or forged ones, the
  amounts credited for a chequebook add up to the growth of the cumulative payout of its last accepted
  cheque, and each is positive.\<close>

theorem cheques_credited_once:
  assumes "cheque_store S look" and "receive_all C rec S cs xs st = (ys, st')"
  shows "credited cb ys = received look st' cb - received look st cb \<and> (\<forall>y \<in> set ys. 0 < snd y)"
  by (rule cheque_store.receive_all_total [OF assms])

theorem cheques_credited_once_witness:
  "\<exists>ys st'. receive_all demo_chain demo_rec InMem demo_cs
      [(demo_cheque 10, 1, 0, 100), (demo_cheque 10, 1, 0, 100), (demo_cheque 25, 1, 0, 100), (demo_cheque 7, 1, 0, 100)] [] = (ys, st') \<and>
    ys = [([2], 10), ([2], 15)] \<and> credited [2] ys = 25 \<and> received map_of st' [2] = 25"
proof -
  let ?xs = "[(demo_cheque 10, 1, 0, 100), (demo_cheque 10, 1, 0, 100), (demo_cheque 25, 1, 0, 100), (demo_cheque 7, 1, 0, 100)]"
  obtain ys st' where r: "receive_all demo_chain demo_rec InMem demo_cs ?xs [] = (ys, st')" by fastforce
  then have ys: "ys = [([2], 10), ([2], 15)]"
    by (auto simp: demo_receive received_def Let_def split: prod.splits)
  from cheques_credited_once [OF inmem_cheques.cheque_store_axioms r, of "[2]"] r ys show ?thesis
    by (auto simp: received_def)
qed

section \<open>Issued cheques\<close>

definition issued_total :: "('s \<Rightarrow> string \<Rightarrow> swap_value option) \<Rightarrow> 's \<Rightarrow> int" where
  "issued_total look st = (case look st totalIssuedKey of Some (VAmount x) \<Rightarrow> x | _ \<Rightarrow> 0)"

definition issued_to :: "('s \<Rightarrow> string \<Rightarrow> swap_value option) \<Rightarrow> 's \<Rightarrow> EthAddress \<Rightarrow> int" where
  "issued_to look st b = (case look st (lastIssuedChequeKey b) of Some (VCheque c) \<Rightarrow> cq_CumulativePayout c | _ \<Rightarrow> 0)"

text \<open>What was ever put into the chequebook.\<close>

definition funds :: "'c Chain \<Rightarrow> EthAddress \<Rightarrow> 'c \<Rightarrow> int \<Rightarrow> bool" where
  "funds C a c x \<longleftrightarrow> (\<exists>balance paid. Balance C a c = Inr balance \<and> TotalPaidOut C a c = Inr paid \<and> x = balance + paid)"

context cheque_store
begin

lemma totalIssued_look: "totalIssued S st = Inr x \<Longrightarrow> x = issued_total look st"
  by (auto simp: totalIssued_def get_amount_def issued_total_def split: sum.splits store_error.splits swap_value.splits option.splits
      dest!: get_some get_none)

lemma reserve_ok:
  assumes "reserveTotalIssued C S amount c (cb, st) = (Inr x, cb', st')"
  shows "\<exists>f. funds C (cb_address cb) c f \<and> issued_total look st + cb_totalIssuedReserved cb + amount \<le> f"
    and "st' = st" and "cb' = cb\<lparr>cb_totalIssuedReserved := cb_totalIssuedReserved cb + amount\<rparr>"
proof -
  obtain av where av: "AvailableBalance C S cb c st = Inr av" and le: "amount \<le> av - cb_totalIssuedReserved cb"
    and "st' = st" and "cb' = cb\<lparr>cb_totalIssuedReserved := cb_totalIssuedReserved cb + amount\<rparr>"
    using assms by (auto simp: reserveTotalIssued_def split: sum.splits if_splits)
  then show "st' = st" "cb' = cb\<lparr>cb_totalIssuedReserved := cb_totalIssuedReserved cb + amount\<rparr>" by auto
  from av obtain t balance paid where "totalIssued S st = Inr t" "Balance C (cb_address cb) c = Inr balance"
    "TotalPaidOut C (cb_address cb) c = Inr paid" "av = balance + paid - t"
    by (auto simp: AvailableBalance_def split: sum.splits)
  with le totalIssued_look show "\<exists>f. funds C (cb_address cb) c f \<and> issued_total look st + cb_totalIssuedReserved cb + amount \<le> f"
    by (fastforce simp: funds_def)
qed

lemma next_cheque_ok:
  assumes "next_cheque sign S b amount cb st = Inr cheque"
  shows "cq_CumulativePayout cheque = issued_to look st b + amount" and "cq_Beneficiary cheque = b"
    and "cq_Chequebook cheque = cb_address cb" and "sign (cheque_of cheque) = Inr (cq_Signature cheque)"
proof -
  obtain l where l: "(case cb_LastCheque S b st of Inl ErrNoCheque \<Rightarrow> Inr 0 | Inl e \<Rightarrow> Inl e | Inr l \<Rightarrow> Inr (cq_CumulativePayout l)) = Inr l"
    using assms by (auto simp: next_cheque_def split: sum.splits)
  then have "l = issued_to look st b"
    by (auto simp: cb_LastCheque_def get_cheque_def issued_to_def
        split: sum.splits store_error.splits swap_value.splits swap_error.splits option.splits dest!: get_some get_none)
  with assms l show "cq_CumulativePayout cheque = issued_to look st b + amount" "cq_Beneficiary cheque = b"
    "cq_Chequebook cheque = cb_address cb" "sign (cheque_of cheque) = Inr (cq_Signature cheque)"
    by (auto simp: next_cheque_def cheque_of_def Let_def split: sum.splits)
qed

lemma save_cheque_ok:
  assumes "save_cheque S b cheque st = Inr st'"
  shows "issued_to look st' b' = (if b' = b then cq_CumulativePayout cheque else issued_to look st b')"
    and "issued_total look st' = issued_total look st"
proof -
  have "look st' = (look st)(lastIssuedChequeKey b \<mapsto> VCheque (cheque\<lparr>cq_Signature := []\<rparr>))"
    using assms by (auto simp: save_cheque_def split: sum.splits intro: put_look)
  then show "issued_to look st' b' = (if b' = b then cq_CumulativePayout cheque else issued_to look st b')"
    "issued_total look st' = issued_total look st"
    by (simp_all add: issued_to_def issued_total_def issued_not_total [symmetric])
qed

lemma count_issued_ok:
  assumes "count_issued S amount st = Inr st'"
  shows "issued_to look st' b = issued_to look st b" and "issued_total look st' = issued_total look st + amount"
proof -
  obtain t where t: "totalIssued S st = Inr t" using assms by (auto simp: count_issued_def split: sum.splits)
  then have "look st' = (look st)(totalIssuedKey \<mapsto> VAmount (t + amount))"
    using assms by (auto simp: count_issued_def split: sum.splits intro: put_look)
  with totalIssued_look [OF t] show "issued_to look st' b = issued_to look st b"
    "issued_total look st' = issued_total look st + amount"
    by (simp_all add: issued_to_def issued_total_def)
qed

end

end
