(* ===== verification/Swap.thy ===== *)
theory Swap
  imports AccountingSafety ChequebookSafety
begin

text \<open>
  The settlement by cheques: the book of the peers' addresses (\<open>addressbook.go\<close>), the settlement service
  (\<open>swap.go\<close>), the headers that carry the rates (\<open>headers/utilities.go\<close>), the price oracle
  (\<open>priceoracle.go\<close>) and the protocol between debtor and creditor (\<open>swapprotocol.go\<close>), under
  \<open>pkg/settlement/swap\<close>. \<open>hx\<close> is the checksummed text of an Ethereum address (go-ethereum); the streams
  (what is read, the error of a write), the JSON text of a cheque and the chain are parameters. The
  store of the subsystem and the one of \<open>Accounting\<close> are kept apart at their types; metrics are left out.
\<close>

section \<open>Errors\<close>

datatype sw_error =
    Cheque swap_error | ErrWrongChequebook | ErrUnknownBeneficary | ErrPeerNoSettlements
  | OldBeneficiaryNotKnown | AccErr acc_error | RejectingCheque swap_error
  | ErrNegotiateRate | ErrNegotiateDeduction | ErrHaveDeduction | ErrNoExchangeHeader | ErrNoDeductionHeader
  | RateNotAvailable | DeductionNotAvailable | StreamError string | JsonError string | Panic

abbreviation StoreErr :: "store_error \<Rightarrow> sw_error" where
  "StoreErr e \<equiv> Cheque (SwapStoreErr e)"

section \<open>The address book\<close>

type_synonym hexer = "EthAddress \<Rightarrow> string"

definition peerPrefix :: string where "peerPrefix = ''swap_chequebook_peer_''"
definition peerChequebookPrefix :: string where "peerChequebookPrefix = ''swap_peer_chequebook_''"
definition beneficiaryPeerPrefix :: string where "beneficiaryPeerPrefix = ''swap_beneficiary_peer_''"
definition peerBeneficiaryPrefix :: string where "peerBeneficiaryPrefix = ''swap_peer_beneficiary_''"
definition deductedForPeerPrefix :: string where "deductedForPeerPrefix = ''swap_deducted_for_peer_''"
definition deductedByPeerPrefix :: string where "deductedByPeerPrefix = ''swap_deducted_by_peer_''"

definition peerKey :: "Address \<Rightarrow> string" where
  "peerKey peer = peerPrefix @ addr_String peer"

definition chequebookPeerKey :: "hexer \<Rightarrow> EthAddress \<Rightarrow> string" where
  "chequebookPeerKey hx cb = peerChequebookPrefix @ hx cb"

definition peerBeneficiaryKey :: "Address \<Rightarrow> string" where
  "peerBeneficiaryKey peer = peerBeneficiaryPrefix @ addr_String peer"

definition beneficiaryPeerKey :: "hexer \<Rightarrow> EthAddress \<Rightarrow> string" where
  "beneficiaryPeerKey hx b = beneficiaryPeerPrefix @ hx b"

definition peerDeductedByKey :: "Address \<Rightarrow> string" where
  "peerDeductedByKey peer = deductedByPeerPrefix @ addr_String peer"

definition peerDeductedForKey :: "Address \<Rightarrow> string" where
  "peerDeductedForKey peer = deductedForPeerPrefix @ addr_String peer"

text \<open>A lookup: \<open>Inr None\<close> is not known.\<close>

definition known :: "store_error + 'a \<Rightarrow> sw_error + 'a option" where
  "known r = (case r of Inl ErrNotFound \<Rightarrow> Inr None | Inl e \<Rightarrow> Inl (StoreErr e) | Inr v \<Rightarrow> Inr (Some v))"

definition Beneficiary :: "'s sstore \<Rightarrow> Address \<Rightarrow> 's \<Rightarrow> sw_error + EthAddress option" where
  "Beneficiary S peer st = known (get_eth S (peerBeneficiaryKey peer) st)"

definition BeneficiaryPeer :: "'s sstore \<Rightarrow> hexer \<Rightarrow> EthAddress \<Rightarrow> 's \<Rightarrow> sw_error + Address option" where
  "BeneficiaryPeer S hx b st = known (get_peer S (beneficiaryPeerKey hx b) st)"

definition Chequebook :: "'s sstore \<Rightarrow> Address \<Rightarrow> 's \<Rightarrow> sw_error + EthAddress option" where
  "Chequebook S peer st = known (get_eth S (peerKey peer) st)"

definition ChequebookPeer :: "'s sstore \<Rightarrow> hexer \<Rightarrow> EthAddress \<Rightarrow> 's \<Rightarrow> sw_error + Address option" where
  "ChequebookPeer S hx cb st = known (get_peer S (chequebookPeerKey hx cb) st)"

text \<open>Writing: the error and the store, which a failing second write leaves half changed.\<close>

definition put_value :: "'s sstore \<Rightarrow> string \<Rightarrow> swap_value \<Rightarrow> 's \<Rightarrow> sw_error option \<times> 's" where
  "put_value S k v st = (case st_Put S k v st of Inl e \<Rightarrow> (Some (StoreErr e), st) | Inr st1 \<Rightarrow> (None, st1))"

definition del_value :: "'s sstore \<Rightarrow> string \<Rightarrow> 's \<Rightarrow> sw_error option \<times> 's" where
  "del_value S k st = (case st_Delete S k st of Inl e \<Rightarrow> (Some (StoreErr e), st) | Inr st1 \<Rightarrow> (None, st1))"

definition and_then :: "sw_error option \<times> 's \<Rightarrow> ('s \<Rightarrow> sw_error option \<times> 's) \<Rightarrow> sw_error option \<times> 's" where
  "and_then r f = (case r of (Some e, st) \<Rightarrow> (Some e, st) | (None, st) \<Rightarrow> f st)"

definition PutBeneficiary :: "'s sstore \<Rightarrow> hexer \<Rightarrow> Address \<Rightarrow> EthAddress \<Rightarrow> 's \<Rightarrow> sw_error option \<times> 's" where
  "PutBeneficiary S hx peer b st =
     and_then (put_value S (peerBeneficiaryKey peer) (VEth b) st) (put_value S (beneficiaryPeerKey hx b) (VPeer peer))"

definition PutChequebook :: "'s sstore \<Rightarrow> hexer \<Rightarrow> Address \<Rightarrow> EthAddress \<Rightarrow> 's \<Rightarrow> sw_error option \<times> 's" where
  "PutChequebook S hx peer cb st =
     and_then (put_value S (peerKey peer) (VEth cb) st) (put_value S (chequebookPeerKey hx cb) (VPeer peer))"

definition AddDeductionFor :: "'s sstore \<Rightarrow> Address \<Rightarrow> 's \<Rightarrow> sw_error option \<times> 's" where
  "AddDeductionFor S peer = put_value S (peerDeductedForKey peer) VMark"

definition AddDeductionBy :: "'s sstore \<Rightarrow> Address \<Rightarrow> 's \<Rightarrow> sw_error option \<times> 's" where
  "AddDeductionBy S peer = put_value S (peerDeductedByKey peer) VMark"

definition has_mark :: "'s sstore \<Rightarrow> string \<Rightarrow> 's \<Rightarrow> sw_error + bool" where
  "has_mark S k st =
     (case st_Get S k st of Inl ErrNotFound \<Rightarrow> Inr False | Inl e \<Rightarrow> Inl (StoreErr e) | Inr _ \<Rightarrow> Inr True)"

definition GetDeductionFor :: "'s sstore \<Rightarrow> Address \<Rightarrow> 's \<Rightarrow> sw_error + bool" where
  "GetDeductionFor S peer = has_mark S (peerDeductedForKey peer)"

definition GetDeductionBy :: "'s sstore \<Rightarrow> Address \<Rightarrow> 's \<Rightarrow> sw_error + bool" where
  "GetDeductionBy S peer = has_mark S (peerDeductedByKey peer)"

definition MigratePeer :: "'s sstore \<Rightarrow> hexer \<Rightarrow> Address \<Rightarrow> Address \<Rightarrow> 's \<Rightarrow> sw_error option \<times> 's" where
  "MigratePeer S hx oldPeer freshPeer st =
     (case Beneficiary S oldPeer st of
        Inl e \<Rightarrow> (Some e, st)
      | Inr None \<Rightarrow> (Some OldBeneficiaryNotKnown, st)
      | Inr (Some ba) \<Rightarrow>
         (case Chequebook S oldPeer st of
            Inl e \<Rightarrow> (Some e, st)
          | Inr cb \<Rightarrow>
              and_then (PutBeneficiary S hx freshPeer ba st) (\<lambda>st1.
              and_then (del_value S (peerBeneficiaryKey oldPeer) st1) (\<lambda>st2.
                case cb of
                  None \<Rightarrow> (None, st2)
                | Some cb \<Rightarrow> and_then (PutChequebook S hx freshPeer cb st2) (del_value S (peerKey oldPeer))))))"

section \<open>The settlement service\<close>

record ('s, 't) Swap =
  sw_store :: 's
  sw_accounting :: "'t Accounting"
  sw_chequebook :: chequebook
  sw_chequeStore :: chequeStore

definition New_Swap :: "'s \<Rightarrow> chequebook \<Rightarrow> chequeStore \<Rightarrow> 't Accounting \<Rightarrow> ('s, 't) Swap" where
  "New_Swap st cb cs acc = \<lparr>sw_store = st, sw_accounting = acc, sw_chequebook = cb, sw_chequeStore = cs\<rparr>"

definition sw_SetAccounting :: "'t Accounting \<Rightarrow> ('s, 't) Swap \<Rightarrow> ('s, 't) Swap" where
  "sw_SetAccounting acc s = s\<lparr>sw_accounting := acc\<rparr>"

text \<open>Running a write on the store of the service.\<close>

definition on_store :: "('s \<Rightarrow> sw_error option \<times> 's) \<Rightarrow> ('s, 't) Swap \<Rightarrow> sw_error option \<times> ('s, 't) Swap" where
  "on_store f s = (case f (sw_store s) of (r, st) \<Rightarrow> (r, s\<lparr>sw_store := st\<rparr>))"

text \<open>\<open>big.Int.Div\<close> is Euclidean and panics on zero.\<close>

definition checked_Div :: "int \<Rightarrow> int \<Rightarrow> int option" where
  "checked_Div x y = (if y = 0 then None else Some (big_Div x y))"

definition sw_ReceiveCheque ::
  "'c Chain \<Rightarrow> (SignedCheque \<Rightarrow> int \<Rightarrow> string + EthAddress) \<Rightarrow> 's sstore \<Rightarrow> ('t, int) StateStorer \<Rightarrow> hexer \<Rightarrow> Address
   \<Rightarrow> SignedCheque option \<Rightarrow> int \<Rightarrow> int \<Rightarrow> 'c \<Rightarrow> ('s, 't) Swap \<Rightarrow> sw_error option \<times> ('s, 't) Swap" where
  "sw_ReceiveCheque C rec S A hx peer chequePtr exchangeRate deduction c s =
     (case Chequebook S peer (sw_store s) of
        Inl e \<Rightarrow> (Some e, s)
      | Inr expected \<Rightarrow>
         (case chequePtr of
            None \<Rightarrow> (Some Panic, s)
          | Some cheque \<Rightarrow>
              if expected \<noteq> None \<and> expected \<noteq> Some (cq_Chequebook cheque) then (Some ErrWrongChequebook, s)
              else
               (case cs_ReceiveCheque C rec S (sw_chequeStore s) cheque exchangeRate deduction c (sw_store s) of
                  (Inl e, st) \<Rightarrow> (Some (RejectingCheque e), s\<lparr>sw_store := st\<rparr>)
                | (Inr receivedAmount, st) \<Rightarrow>
                    (case (if 0 < deduction then AddDeductionFor S peer st else (None, st)) of
                       (Some e, st1) \<Rightarrow> (Some e, s\<lparr>sw_store := st1\<rparr>)
                     | (None, st1) \<Rightarrow>
                        (case checked_Div (receivedAmount - deduction) exchangeRate of
                           None \<Rightarrow> (Some Panic, s\<lparr>sw_store := st1\<rparr>)
                         | Some amount \<Rightarrow>
                            (case (if expected = None then PutChequebook S hx peer (cq_Chequebook cheque) st1 else (None, st1)) of
                               (Some e, st2) \<Rightarrow> (Some e, s\<lparr>sw_store := st2\<rparr>)
                             | (None, st2) \<Rightarrow>
                                (case NotifyPaymentReceived A peer amount (sw_accounting s) of
                                   (r, acc) \<Rightarrow> (map_option AccErr r, s\<lparr>sw_store := st2, sw_accounting := acc\<rparr>))))))))"

text \<open>\<open>emitCheque\<close> is \<open>EmitCheque\<close> of the protocol with \<open>Issue\<close> of the chequebook as its callback; \<open>None\<close> is a panic of
  the accounting.\<close>

definition sw_Pay ::
  "'s sstore \<Rightarrow> ('t, int) StateStorer \<Rightarrow> int \<Rightarrow> (Address \<Rightarrow> EthAddress \<Rightarrow> int \<Rightarrow> ('s, 't) Swap \<Rightarrow> (sw_error + int) \<times> ('s, 't) Swap)
   \<Rightarrow> Address \<Rightarrow> int \<Rightarrow> ('s, 't) Swap \<Rightarrow> ('s, 't) Swap option" where
  "sw_Pay S A now emitCheque peer amount s =
     (case (case Beneficiary S peer (sw_store s) of
              Inl e \<Rightarrow> (Inl e, s)
            | Inr None \<Rightarrow> (Inl ErrUnknownBeneficary, s)
            | Inr (Some beneficiary) \<Rightarrow> emitCheque peer beneficiary amount s) of
        (r, s1) \<Rightarrow>
         (case NotifyPaymentSent A now peer amount (case r of Inl _ \<Rightarrow> True | Inr _ \<Rightarrow> False) (sw_accounting s1) of
            None \<Rightarrow> None
          | Some acc \<Rightarrow> Some (s1\<lparr>sw_accounting := acc\<rparr>)))"

definition payout_or :: "swap_error + SignedCheque \<Rightarrow> sw_error + int" where
  "payout_or r =
     (case r of Inl ErrNoCheque \<Rightarrow> Inl ErrPeerNoSettlements | Inl e \<Rightarrow> Inl (Cheque e) | Inr q \<Rightarrow> Inr (cq_CumulativePayout q))"

definition sw_TotalSent :: "'s sstore \<Rightarrow> Address \<Rightarrow> ('s, 't) Swap \<Rightarrow> sw_error + int" where
  "sw_TotalSent S peer s =
     (case Beneficiary S peer (sw_store s) of
        Inl e \<Rightarrow> Inl e
      | Inr None \<Rightarrow> Inl ErrPeerNoSettlements
      | Inr (Some b) \<Rightarrow> payout_or (cb_LastCheque S b (sw_store s)))"

definition sw_TotalReceived :: "'s sstore \<Rightarrow> Address \<Rightarrow> ('s, 't) Swap \<Rightarrow> sw_error + int" where
  "sw_TotalReceived S peer s =
     (case Chequebook S peer (sw_store s) of
        Inl e \<Rightarrow> Inl e
      | Inr None \<Rightarrow> Inl ErrPeerNoSettlements
      | Inr (Some cb) \<Rightarrow> payout_or (cs_LastCheque S cb (sw_store s)))"

definition Handshake :: "'s sstore \<Rightarrow> hexer \<Rightarrow> Address \<Rightarrow> EthAddress \<Rightarrow> 's \<Rightarrow> sw_error option \<times> 's" where
  "Handshake S hx peer beneficiary st =
     (case BeneficiaryPeer S hx beneficiary st of
        Inl e \<Rightarrow> (Some e, st)
      | Inr oldPeer \<Rightarrow>
         (case oldPeer of
            Some old \<Rightarrow>
              if \<not> addr_Equal peer old then MigratePeer S hx old peer st
              else (case Beneficiary S peer st of
                      Inl e \<Rightarrow> (Some e, st)
                    | Inr None \<Rightarrow> PutBeneficiary S hx peer beneficiary st
                    | Inr (Some _) \<Rightarrow> (None, st))
          | None \<Rightarrow>
             (case Beneficiary S peer st of
                Inl e \<Rightarrow> (Some e, st)
              | Inr None \<Rightarrow> PutBeneficiary S hx peer beneficiary st
              | Inr (Some _) \<Rightarrow> (None, st))))"

definition LastSentCheque :: "'s sstore \<Rightarrow> Address \<Rightarrow> ('s, 't) Swap \<Rightarrow> sw_error + SignedCheque" where
  "LastSentCheque S peer s =
     (case Beneficiary S peer (sw_store s) of
        Inl e \<Rightarrow> Inl e
      | Inr None \<Rightarrow> Inl (Cheque ErrNoCheque)
      | Inr (Some b) \<Rightarrow> (case cb_LastCheque S b (sw_store s) of Inl e \<Rightarrow> Inl (Cheque e) | Inr q \<Rightarrow> Inr q))"

definition LastReceivedCheque :: "'s sstore \<Rightarrow> Address \<Rightarrow> ('s, 't) Swap \<Rightarrow> sw_error + SignedCheque" where
  "LastReceivedCheque S peer s =
     (case Chequebook S peer (sw_store s) of
        Inl e \<Rightarrow> Inl e
      | Inr None \<Rightarrow> Inl (Cheque ErrNoCheque)
      | Inr (Some cb) \<Rightarrow> (case cs_LastCheque S cb (sw_store s) of Inl e \<Rightarrow> Inl (Cheque e) | Inr q \<Rightarrow> Inr q))"

definition sw_CashCheque ::
  "'c Chain \<Rightarrow> 's sstore \<Rightarrow> Ctx \<Rightarrow> Address \<Rightarrow> 'c \<Rightarrow> ('s, 't) Swap \<Rightarrow> (sw_error + EthHash) \<times> 'c \<times> ('s, 't) Swap" where
  "sw_CashCheque C S ctx peer c s =
     (case Chequebook S peer (sw_store s) of
        Inl e \<Rightarrow> (Inl e, c, s)
      | Inr None \<Rightarrow> (Inl (Cheque ErrNoCheque), c, s)
      | Inr (Some cb) \<Rightarrow>
         (case CashCheque C S ctx cb (cb_address (sw_chequebook s)) (c, sw_store s) of
            (r, c1, st) \<Rightarrow> (case r of Inl e \<Rightarrow> Inl (Cheque e) | Inr h \<Rightarrow> Inr h, c1, s\<lparr>sw_store := st\<rparr>)))"

definition sw_CashoutStatus :: "'c Chain \<Rightarrow> 's sstore \<Rightarrow> Address \<Rightarrow> 'c \<Rightarrow> ('s, 't) Swap \<Rightarrow> sw_error + CashoutStatus" where
  "sw_CashoutStatus C S peer c s =
     (case Chequebook S peer (sw_store s) of
        Inl e \<Rightarrow> Inl e
      | Inr None \<Rightarrow> Inl (Cheque ErrNoCheque)
      | Inr (Some cb) \<Rightarrow> (case CashoutStatus_of C S cb c (sw_store s) of Inl e \<Rightarrow> Inl (Cheque e) | Inr x \<Rightarrow> Inr x))"

text \<open>The loops over the map of last cheques, in the order \<open>ks\<close> in which the runtime visits its keys.\<close>

fun settlements_loop ::
  "('a \<Rightarrow> sw_error + Address option) \<Rightarrow> ('a \<rightharpoonup> SignedCheque) \<Rightarrow> 'a list \<Rightarrow> (string \<rightharpoonup> int) \<Rightarrow> sw_error + (string \<rightharpoonup> int)" where
  "settlements_loop peerOf m [] result = Inr result"
| "settlements_loop peerOf m (k # ks) result =
     (case peerOf k of
        Inl e \<Rightarrow> Inl e
      | Inr None \<Rightarrow> settlements_loop peerOf m ks result
      | Inr (Some peer) \<Rightarrow>
          settlements_loop peerOf m ks
            (case m k of None \<Rightarrow> result | Some q \<Rightarrow> result(addr_String peer \<mapsto> cq_CumulativePayout q)))"

definition sw_SettlementsSent ::
  "'s sstore \<Rightarrow> hexer \<Rightarrow> EthAddress list \<Rightarrow> ('s, 't) Swap \<Rightarrow> sw_error iter_error + (sw_error + (string \<rightharpoonup> int))" where
  "sw_SettlementsSent S hx ks s =
     (case cb_LastCheques S (sw_store s) of
        Inl (IterErr e) \<Rightarrow> Inl (IterErr e)
      | Inl (FuncErr e) \<Rightarrow> Inl (FuncErr (Cheque e))
      | Inr m \<Rightarrow> Inr (settlements_loop (\<lambda>b. BeneficiaryPeer S hx b (sw_store s)) m ks Map.empty))"

definition sw_SettlementsReceived ::
  "'s sstore \<Rightarrow> hexer \<Rightarrow> EthAddress list \<Rightarrow> ('s, 't) Swap \<Rightarrow> sw_error iter_error + (sw_error + (string \<rightharpoonup> int))" where
  "sw_SettlementsReceived S hx ks s =
     (case cs_LastCheques S (sw_store s) of
        Inl (IterErr e) \<Rightarrow> Inl (IterErr e)
      | Inl (FuncErr e) \<Rightarrow> Inl (FuncErr (Cheque e))
      | Inr m \<Rightarrow> Inr (settlements_loop (\<lambda>cb. ChequebookPeer S hx cb (sw_store s)) m ks Map.empty))"

fun cheques_loop ::
  "('a \<Rightarrow> sw_error + Address option) \<Rightarrow> ('a \<rightharpoonup> SignedCheque) \<Rightarrow> 'a list \<Rightarrow> (string \<rightharpoonup> SignedCheque) \<Rightarrow> (string \<rightharpoonup> SignedCheque)" where
  "cheques_loop peerOf m [] result = result"
| "cheques_loop peerOf m (k # ks) result =
     cheques_loop peerOf m ks
       (case (peerOf k, m k) of (Inr (Some peer), Some q) \<Rightarrow> result(addr_String peer \<mapsto> q) | _ \<Rightarrow> result)"

definition LastSentCheques ::
  "'s sstore \<Rightarrow> hexer \<Rightarrow> EthAddress list \<Rightarrow> ('s, 't) Swap \<Rightarrow> swap_error iter_error + (string \<rightharpoonup> SignedCheque)" where
  "LastSentCheques S hx ks s =
     (case cb_LastCheques S (sw_store s) of
        Inl e \<Rightarrow> Inl e
      | Inr m \<Rightarrow> Inr (cheques_loop (\<lambda>b. BeneficiaryPeer S hx b (sw_store s)) m ks Map.empty))"

definition LastReceivedCheques ::
  "'s sstore \<Rightarrow> hexer \<Rightarrow> EthAddress list \<Rightarrow> ('s, 't) Swap \<Rightarrow> swap_error iter_error + (string \<rightharpoonup> SignedCheque)" where
  "LastReceivedCheques S hx ks s =
     (case cs_LastCheques S (sw_store s) of
        Inl e \<Rightarrow> Inl e
      | Inr m \<Rightarrow> Inr (cheques_loop (\<lambda>cb. ChequebookPeer S hx cb (sw_store s)) m ks Map.empty))"

definition GetDeductionForPeer :: "'s sstore \<Rightarrow> Address \<Rightarrow> ('s, 't) Swap \<Rightarrow> sw_error + bool" where
  "GetDeductionForPeer S peer s = GetDeductionFor S peer (sw_store s)"

definition GetDeductionByPeer :: "'s sstore \<Rightarrow> Address \<Rightarrow> ('s, 't) Swap \<Rightarrow> sw_error + bool" where
  "GetDeductionByPeer S peer s = GetDeductionBy S peer (sw_store s)"

definition AddDeductionByPeer :: "'s sstore \<Rightarrow> Address \<Rightarrow> ('s, 't) Swap \<Rightarrow> sw_error option \<times> ('s, 't) Swap" where
  "AddDeductionByPeer S peer = on_store (AddDeductionBy S peer)"

section \<open>Headers and rates\<close>

type_synonym Headers = "string \<rightharpoonup> bytes"

definition exchangeRateFieldName :: string where "exchangeRateFieldName = ''exchange''"
definition deductionFieldName :: string where "deductionFieldName = ''deduction''"

definition MakeSettlementHeaders :: "int \<Rightarrow> int \<Rightarrow> Headers" where
  "MakeSettlementHeaders exchangeRate deduction =
     [exchangeRateFieldName \<mapsto> big_Bytes exchangeRate, deductionFieldName \<mapsto> big_Bytes deduction]"

definition ParseExchangeHeader :: "Headers \<Rightarrow> sw_error + int" where
  "ParseExchangeHeader h = (case h exchangeRateFieldName of None \<Rightarrow> Inl ErrNoExchangeHeader | Some b \<Rightarrow> Inr (SetBytes b))"

definition ParseDeductionHeader :: "Headers \<Rightarrow> sw_error + int" where
  "ParseDeductionHeader h = (case h deductionFieldName of None \<Rightarrow> Inl ErrNoDeductionHeader | Some b \<Rightarrow> Inr (SetBytes b))"

text \<open>The exchange rate is returned beside the error of the deduction.\<close>

definition ParseSettlementResponseHeaders :: "Headers \<Rightarrow> sw_error + int \<times> (sw_error + int)" where
  "ParseSettlementResponseHeaders h =
     (case ParseExchangeHeader h of Inl e \<Rightarrow> Inl e | Inr exchangeRate \<Rightarrow> Inr (exchangeRate, ParseDeductionHeader h))"

text \<open>Both users of the headers take a missing deduction as zero.\<close>

definition settlement_rates :: "Headers \<Rightarrow> sw_error + int \<times> int" where
  "settlement_rates h =
     (case ParseSettlementResponseHeaders h of
        Inl e \<Rightarrow> Inl e
      | Inr (exchangeRate, Inr deduction) \<Rightarrow> Inr (exchangeRate, deduction)
      | Inr (exchangeRate, Inl ErrNoDeductionHeader) \<Rightarrow> Inr (exchangeRate, 0)
      | Inr (_, Inl e) \<Rightarrow> Inl e)"

record priceoracle =
  po_address :: EthAddress
  po_exchangeRate :: int
  po_deduction :: "int option"

definition New_oracle :: "EthAddress \<Rightarrow> priceoracle" where
  "New_oracle a = \<lparr>po_address = a, po_exchangeRate = 0, po_deduction = None\<rparr>"

definition CurrentRates :: "priceoracle \<Rightarrow> sw_error + int \<times> int" where
  "CurrentRates o' =
     (if po_exchangeRate o' = 0 then Inl RateNotAvailable
      else (case po_deduction o' of None \<Rightarrow> Inl DeductionNotAvailable | Some d \<Rightarrow> Inr (po_exchangeRate o', d)))"

definition GetPrice :: "'c Chain \<Rightarrow> priceoracle \<Rightarrow> 'c \<Rightarrow> swap_error + int \<times> int" where
  "GetPrice C o' c =
     (case contract_call C (po_address o') ''getPrice'' [] c of
        Inl e \<Rightarrow> Inl e
      | Inr [AbiUint exchangeRate, AbiUint deduction] \<Rightarrow> Inr (exchangeRate, deduction)
      | Inr _ \<Rightarrow> Inl ErrDecodeABI)"

text \<open>One round of the polling loop, and the seconds until the next.\<close>

definition oracle_poll :: "'c Chain \<Rightarrow> 'c \<Rightarrow> priceoracle \<Rightarrow> priceoracle" where
  "oracle_poll C c o' =
     (case GetPrice C o' c of
        Inl _ \<Rightarrow> o'
      | Inr (exchangeRate, deduction) \<Rightarrow> o'\<lparr>po_exchangeRate := exchangeRate, po_deduction := Some deduction\<rparr>)"

definition timeUntilNextPoll :: "int \<Rightarrow> int \<Rightarrow> int" where
  "timeUntilNextPoll timeDivisor ts = timeDivisor - ts mod timeDivisor"

section \<open>The protocol\<close>

definition swap_init :: "'s sstore \<Rightarrow> hexer \<Rightarrow> Address \<Rightarrow> bytes \<Rightarrow> ('s, 't) Swap \<Rightarrow> sw_error option \<times> ('s, 't) Swap" where
  "swap_init S hx peer ethereumAddress = on_store (Handshake S hx peer (BytesToAddress ethereumAddress))"

definition headler :: "'s sstore \<Rightarrow> priceoracle \<Rightarrow> Address \<Rightarrow> ('s, 't) Swap \<Rightarrow> Headers" where
  "headler S o' peer s =
     (case CurrentRates o' of
        Inl _ \<Rightarrow> Map.empty
      | Inr (exchangeRate, deduction) \<Rightarrow>
         (case GetDeductionForPeer S peer s of
            Inl _ \<Rightarrow> Map.empty
          | Inr checkPeer \<Rightarrow> MakeSettlementHeaders exchangeRate (if checkPeer then 0 else deduction)))"

text \<open>\<open>json\<close> decodes a cheque; the JSON text \<open>null\<close> gives a nil pointer. \<open>req\<close> is what is read from the stream.\<close>

definition swap_handler ::
  "'c Chain \<Rightarrow> (SignedCheque \<Rightarrow> int \<Rightarrow> string + EthAddress) \<Rightarrow> 's sstore \<Rightarrow> ('t, int) StateStorer \<Rightarrow> hexer
   \<Rightarrow> (bytes \<Rightarrow> string + SignedCheque option) \<Rightarrow> string + bytes \<Rightarrow> Headers \<Rightarrow> Address \<Rightarrow> 'c \<Rightarrow> ('s, 't) Swap
   \<Rightarrow> sw_error option \<times> ('s, 't) Swap" where
  "swap_handler C rec S A hx json req responseHeaders p c s =
     (case req of
        Inl e \<Rightarrow> (Some (StreamError e), s)
      | Inr msg \<Rightarrow>
         (case settlement_rates responseHeaders of
            Inl e \<Rightarrow> (Some e, s)
          | Inr (exchangeRate, deduction) \<Rightarrow>
             (case json msg of
                Inl e \<Rightarrow> (Some (JsonError e), s)
              | Inr signedCheque \<Rightarrow> sw_ReceiveCheque C rec S A hx p signedCheque exchangeRate deduction c s)))"

text \<open>\<open>stream\<close> is the result of opening the stream: the headers the creditor returned. \<open>encode\<close> is the JSON text of
  a cheque and \<open>write\<close> sends it, on the state \<open>'w\<close> of the stream.\<close>

definition send_cheque ::
  "(SignedCheque \<Rightarrow> string + bytes) \<Rightarrow> (bytes \<Rightarrow> 'w \<Rightarrow> string option \<times> 'w) \<Rightarrow> SignedCheque \<Rightarrow> 'w \<Rightarrow> swap_error option \<times> 'w" where
  "send_cheque encode write cheque w =
     (case encode cheque of
        Inl e \<Rightarrow> (Some (SendErr e), w)
      | Inr msg \<Rightarrow> (case write msg w of (Some e, w1) \<Rightarrow> (Some (SendErr e), w1) | (None, w1) \<Rightarrow> (None, w1)))"

definition EmitCheque ::
  "'c Chain \<Rightarrow> (Cheque \<Rightarrow> string + bytes) \<Rightarrow> 's sstore \<Rightarrow> priceoracle \<Rightarrow> (SignedCheque \<Rightarrow> string + bytes)
   \<Rightarrow> (bytes \<Rightarrow> 'w \<Rightarrow> string option \<times> 'w) \<Rightarrow> string + Headers \<Rightarrow> Address \<Rightarrow> EthAddress \<Rightarrow> int \<Rightarrow> 'c \<Rightarrow> ('s, 't) Swap \<Rightarrow> 'w
   \<Rightarrow> (sw_error + int) \<times> ('s, 't) Swap \<times> 'w" where
  "EmitCheque C sign S o' encode write stream peer beneficiary amount c s w =
     (case stream of
        Inl e \<Rightarrow> (Inl (StreamError e), s, w)
      | Inr returnedHeaders \<Rightarrow>
         (case settlement_rates returnedHeaders of
            Inl e \<Rightarrow> (Inl e, s, w)
          | Inr (exchangeRate, deduction) \<Rightarrow>
             (case GetDeductionByPeer S peer s of
                Inl e \<Rightarrow> (Inl e, s, w)
              | Inr checkPeer \<Rightarrow>
                  if checkPeer \<and> deduction \<noteq> 0 then (Inl ErrHaveDeduction, s, w)
                  else
                   (case CurrentRates o' of
                      Inl e \<Rightarrow> (Inl e, s, w)
                    | Inr (checkExchangeRate, checkDeduction) \<Rightarrow>
                        if exchangeRate \<noteq> checkExchangeRate then (Inl ErrNegotiateRate, s, w)
                        else if deduction \<noteq> checkDeduction \<and> deduction \<noteq> 0 then (Inl ErrNegotiateDeduction, s, w)
                        else
                         (case Issue C sign S beneficiary (amount * exchangeRate + deduction) (send_cheque encode write) c
                                 (sw_chequebook s, sw_store s) w of
                            (Inl e, (cb, st), w1) \<Rightarrow> (Inl (Cheque e), s\<lparr>sw_chequebook := cb, sw_store := st\<rparr>, w1)
                          | (Inr balance, (cb, st), w1) \<Rightarrow>
                              (case (if deduction \<noteq> 0 then AddDeductionByPeer S peer (s\<lparr>sw_chequebook := cb, sw_store := st\<rparr>)
                                     else (None, s\<lparr>sw_chequebook := cb, sw_store := st\<rparr>)) of
                                 (Some e, s1) \<Rightarrow> (Inl e, s1, w1)
                               | (None, s1) \<Rightarrow> (Inr balance, s1, w1)))))))"

end
