(* ===== verification/ChequebookIssue.thy ===== *)
theory ChequebookIssue
  imports ChequebookSafety
begin

text \<open>
  Concurrent calls of \<open>Issue\<close> (\<open>chequebook.go\<close>). The lock of the chequebook is held only while an amount is
  reserved, counted or released; between these the calls interleave freely. Each call is a small state
  machine built from the parts of \<open>Issue\<close>, and the step relation runs any number of them in any order,
  while the chain moves on. Every part of a call may fail; then the deferred release of the reservation is
  all that is left of it. A call that fails after its cheque was sent leaves a cheque that is never counted:
  the history \<open>y_lost\<close> adds these up.
\<close>

section \<open>The system\<close>

datatype phase = Reserved | Prepared SignedCheque | Sent SignedCheque | Saved | Counted | Failed

record issuing =
  is_to :: EthAddress
  is_amount :: int
  is_phase :: phase

text \<open>\<open>y_sent\<close>, \<open>y_counted\<close> and \<open>y_lost\<close> are history: the highest cheque sent to a beneficiary, the amounts counted
  for it and the amounts of the cheques to it whose call failed after sending.\<close>

record ('s, 'c) isys =
  y_chain :: 'c
  y_cb :: chequebook
  y_store :: 's
  y_calls :: "issuing list"
  y_sent :: "EthAddress \<Rightarrow> int"
  y_counted :: "EthAddress \<Rightarrow> int"
  y_lost :: "EthAddress \<Rightarrow> int"

definition set_phase :: "nat \<Rightarrow> phase \<Rightarrow> ('s, 'c) isys \<Rightarrow> ('s, 'c) isys" where
  "set_phase i ph y = y\<lparr>y_calls := (y_calls y)[i := (y_calls y ! i)\<lparr>is_phase := ph\<rparr>]\<rparr>"

definition unsent :: "issuing \<Rightarrow> bool" where
  "unsent t = (case is_phase t of Reserved \<Rightarrow> True | Prepared _ \<Rightarrow> True | _ \<Rightarrow> False)"

definition sent_uncounted :: "issuing \<Rightarrow> bool" where
  "sent_uncounted t = (case is_phase t of Sent _ \<Rightarrow> True | Saved \<Rightarrow> True | _ \<Rightarrow> False)"

text \<open>\<open>fail_before\<close> is any error up to the call of \<open>sendChequeFunc\<close>: reading the last cheque, signing, sending.
  \<open>fail_after\<close> is any error behind it: storing the cheque, reading or writing the total. A send that reports an
  error although the cheque arrived is a \<open>send\<close> followed by \<open>fail_after\<close>. A failed write changes nothing.\<close>

inductive issue_step ::
  "'c Chain \<Rightarrow> (Cheque \<Rightarrow> string + bytes) \<Rightarrow> 's sstore \<Rightarrow> ('s, 'c) isys \<Rightarrow> ('s, 'c) isys \<Rightarrow> bool" for C sign S where
  reserve: "0 \<le> amount \<Longrightarrow> reserveTotalIssued C S amount (y_chain y) (y_cb y, y_store y) = (Inr x, cb, st) \<Longrightarrow>
    issue_step C sign S y (y\<lparr>y_cb := cb, y_store := st,
      y_calls := y_calls y @ [\<lparr>is_to = b, is_amount = amount, is_phase = Reserved\<rparr>]\<rparr>)"
| prepare: "i < length (y_calls y) \<Longrightarrow> y_calls y ! i = t \<Longrightarrow> is_phase t = Reserved \<Longrightarrow>
    next_cheque sign S (is_to t) (is_amount t) (y_cb y) (y_store y) = Inr cheque \<Longrightarrow>
    issue_step C sign S y (set_phase i (Prepared cheque) y)"
| send: "i < length (y_calls y) \<Longrightarrow> y_calls y ! i = t \<Longrightarrow> is_phase t = Prepared cheque \<Longrightarrow>
    issue_step C sign S y (set_phase i (Sent cheque)
      (y\<lparr>y_sent := (y_sent y)(is_to t := max (y_sent y (is_to t)) (cq_CumulativePayout cheque))\<rparr>))"
| fail_before: "i < length (y_calls y) \<Longrightarrow> y_calls y ! i = t \<Longrightarrow> unsent t \<Longrightarrow>
    issue_step C sign S y (set_phase i Failed y)"
| save: "i < length (y_calls y) \<Longrightarrow> y_calls y ! i = t \<Longrightarrow> is_phase t = Sent cheque \<Longrightarrow>
    save_cheque S (is_to t) cheque (y_store y) = Inr st \<Longrightarrow>
    issue_step C sign S y (set_phase i Saved (y\<lparr>y_store := st\<rparr>))"
| count: "i < length (y_calls y) \<Longrightarrow> y_calls y ! i = t \<Longrightarrow> is_phase t = Saved \<Longrightarrow>
    count_issued S (is_amount t) (y_store y) = Inr st \<Longrightarrow>
    issue_step C sign S y (set_phase i Counted
      (y\<lparr>y_store := st, y_counted := (y_counted y)(is_to t := y_counted y (is_to t) + is_amount t)\<rparr>))"
| fail_after: "i < length (y_calls y) \<Longrightarrow> y_calls y ! i = t \<Longrightarrow> sent_uncounted t \<Longrightarrow>
    issue_step C sign S y (set_phase i Failed
      (y\<lparr>y_lost := (y_lost y)(is_to t := y_lost y (is_to t) + is_amount t)\<rparr>))"
| finish: "i < length (y_calls y) \<Longrightarrow> y_calls y ! i = t \<Longrightarrow> is_phase t \<in> {Counted, Failed} \<Longrightarrow>
    issue_step C sign S y (y\<lparr>y_cb := unreserveTotalIssued (is_amount t) (y_cb y),
      y_calls := take i (y_calls y) @ drop (Suc i) (y_calls y)\<rparr>)"
| chain: "funds C (cb_address (y_cb y)) (y_chain y) f \<Longrightarrow> funds C (cb_address (y_cb y)) c f' \<Longrightarrow> f \<le> f' \<Longrightarrow>
    issue_step C sign S y (y\<lparr>y_chain := c\<rparr>)"

definition sum_calls :: "(issuing \<Rightarrow> int) \<Rightarrow> ('s, 'c) isys \<Rightarrow> int" where
  "sum_calls g y = sum_list (map g (y_calls y))"

text \<open>The amounts that are counted already and still reserved: \<open>Issue\<close> gives up the lock after counting and takes it
  again to release the reservation.\<close>

definition counted_twice :: "('s, 'c) isys \<Rightarrow> int" where
  "counted_twice = sum_calls (\<lambda>t. if is_phase t = Counted then is_amount t else 0)"

text \<open>The state after a start: no call is running and the stored totals cover what was issued.\<close>

definition idle :: "'c Chain \<Rightarrow> ('s \<Rightarrow> string \<Rightarrow> swap_value option) \<Rightarrow> ('s, 'c) isys \<Rightarrow> bool" where
  "idle C look y \<longleftrightarrow> y_calls y = [] \<and> cb_totalIssuedReserved (y_cb y) = 0 \<and>
     y_sent y = issued_to look (y_store y) \<and> y_counted y = issued_to look (y_store y) \<and> y_lost y = (\<lambda>b. 0) \<and>
     (\<forall>B. finite B \<longrightarrow> (\<Sum>b\<in>B. issued_to look (y_store y) b) \<le> issued_total look (y_store y)) \<and>
     (\<exists>f. funds C (cb_address (y_cb y)) (y_chain y) f \<and> issued_total look (y_store y) \<le> f)"

section \<open>The invariant\<close>

text \<open>The amount a call has reserved and not counted, and the amount it sent and has not counted.\<close>

definition held :: "issuing \<Rightarrow> int" where
  "held t = (if is_phase t = Counted then 0 else is_amount t)"

definition uncounted :: "issuing \<Rightarrow> int" where
  "uncounted t = (if sent_uncounted t then is_amount t else 0)"

definition due :: "('s, 'c) isys \<Rightarrow> EthAddress \<Rightarrow> int" where
  "due y b = y_counted y b + y_lost y b + sum_calls (\<lambda>t. if is_to t = b then uncounted t else 0) y"

text \<open>A cheque in the hands of a call does not exceed what is due once it is sent.\<close>

definition call_ok :: "('s, 'c) isys \<Rightarrow> issuing \<Rightarrow> bool" where
  "call_ok y t \<longleftrightarrow> 0 \<le> is_amount t \<and>
     (case is_phase t of
        Prepared q \<Rightarrow> cq_CumulativePayout q \<le> due y (is_to t) + is_amount t
      | Sent q \<Rightarrow> cq_CumulativePayout q \<le> due y (is_to t)
      | _ \<Rightarrow> True)"

definition issue_inv :: "'c Chain \<Rightarrow> ('s \<Rightarrow> string \<Rightarrow> swap_value option) \<Rightarrow> ('s, 'c) isys \<Rightarrow> bool" where
  "issue_inv C look y \<longleftrightarrow>
     cb_totalIssuedReserved (y_cb y) = sum_calls is_amount y \<and>
     (\<exists>f. funds C (cb_address (y_cb y)) (y_chain y) f \<and> issued_total look (y_store y) + sum_calls held y \<le> f) \<and>
     (\<forall>t \<in> set (y_calls y). call_ok y t) \<and>
     (\<forall>b. issued_to look (y_store y) b \<le> due y b \<and> y_sent y b \<le> due y b) \<and>
     (\<forall>B. finite B \<longrightarrow> (\<Sum>b\<in>B. y_counted y b) \<le> issued_total look (y_store y))"

lemma sum_calls_simps [simp]:
  "sum_calls g (y\<lparr>y_sent := s\<rparr>) = sum_calls g y" "sum_calls g (y\<lparr>y_store := st\<rparr>) = sum_calls g y"
  "sum_calls g (y\<lparr>y_counted := s\<rparr>) = sum_calls g y" "sum_calls g (y\<lparr>y_lost := s\<rparr>) = sum_calls g y" "sum_calls g (y\<lparr>y_chain := c\<rparr>) = sum_calls g y"
  by (simp_all add: sum_calls_def)

lemma due_simps [simp]:
  "due (y\<lparr>y_sent := s\<rparr>) = due y" "due (y\<lparr>y_store := st\<rparr>) = due y" "due (y\<lparr>y_chain := c\<rparr>) = due y"
  by (simp_all add: due_def fun_eq_iff)

lemma sum_list_remove: "i < length xs \<Longrightarrow>
    sum_list (map g (take i xs @ drop (Suc i) xs)) = sum_list (map g xs) - (g (xs ! i) :: int)"
proof -
  assume "i < length xs"
  then have "xs = take i xs @ xs ! i # drop (Suc i) xs" by (rule id_take_nth_drop)
  then have "sum_list (map g xs) = sum_list (map g (take i xs @ xs ! i # drop (Suc i) xs))" by simp
  then show ?thesis by simp
qed

lemma sum_list_upd: "i < length xs \<Longrightarrow>
    sum_list (map g (xs[i := t])) = sum_list (map g xs) - g (xs ! i) + (g t :: int)"
  using sum_list_remove [of i xs g] by (simp add: upd_conv_take_nth_drop)

lemma sum_calls_phase:
  "i < length (y_calls y) \<Longrightarrow> sum_calls g (set_phase i ph y) =
     sum_calls g y - g (y_calls y ! i) + g ((y_calls y ! i)\<lparr>is_phase := ph\<rparr>)"
  by (simp add: sum_calls_def set_phase_def sum_list_upd)

lemma due_phase:
  assumes "i < length (y_calls y)" and "y_calls y ! i = t"
  shows "due (set_phase i ph y) b =
    due y b + (if is_to t = b then uncounted (t\<lparr>is_phase := ph\<rparr>) - uncounted t else 0)"
proof -
  have "y_counted (set_phase i ph y) = y_counted y" "y_lost (set_phase i ph y) = y_lost y" by (simp_all add: set_phase_def)
  then show ?thesis using sum_calls_phase [OF assms(1), of "\<lambda>t. if is_to t = b then uncounted t else 0" ph] assms(2)
    by (simp add: due_def)
qed

lemma held_bounds:
  assumes "\<forall>t \<in> set (y_calls y). 0 \<le> is_amount t"
  shows "sum_calls uncounted y \<le> sum_calls held y" and "sum_calls held y \<le> sum_calls is_amount y"
    and "finite B \<Longrightarrow> (\<Sum>b\<in>B. sum_calls (\<lambda>t. if is_to t = b then uncounted t else 0) y) \<le> sum_calls uncounted y"
proof -
  have nn: "0 \<le> uncounted t" "uncounted t \<le> held t" "held t \<le> is_amount t" if "t \<in> set (y_calls y)" for t
    using assms that by (auto simp: uncounted_def held_def sent_uncounted_def)
  show "sum_calls uncounted y \<le> sum_calls held y" "sum_calls held y \<le> sum_calls is_amount y"
    using nn by (auto simp: sum_calls_def intro: sum_list_mono)
  show "(\<Sum>b\<in>B. sum_calls (\<lambda>t. if is_to t = b then uncounted t else 0) y) \<le> sum_calls uncounted y" if "finite B"
    using nn(1) unfolding sum_calls_def
  proof (induction "y_calls y" arbitrary: y)
    case Nil
    then show ?case by (metis (no_types, lifting) list.simps(8) sum.neutral sum_list.Nil order_refl)
  next
    case (Cons t ts)
    have "(\<Sum>b\<in>B. sum_list (map (\<lambda>t. if is_to t = b then uncounted t else 0) ts)) \<le> sum_list (map uncounted ts)"
      using Cons.hyps(1) [of "y\<lparr>y_calls := ts\<rparr>"] Cons.prems Cons.hyps(2) [symmetric] by auto
    moreover have "(\<Sum>b\<in>B. if is_to t = b then uncounted t else 0) \<le> uncounted t"
      using \<open>finite B\<close> Cons.prems [of t] Cons.hyps(2) [symmetric] by (simp add: sum.delta')
    ultimately show ?case unfolding Cons.hyps(2) [symmetric] by (simp add: sum.distrib)
  qed
qed

text \<open>What the invariant is for.\<close>

lemma issue_inv_covered:
  assumes "issue_inv C look y" and "finite B"
  shows "\<exists>f. funds C (cb_address (y_cb y)) (y_chain y) f \<and>
    issued_total look (y_store y) + cb_totalIssuedReserved (y_cb y) - counted_twice y \<le> f \<and>
    (\<Sum>b\<in>B. y_sent y b) \<le> issued_total look (y_store y) + cb_totalIssuedReserved (y_cb y) - counted_twice y + (\<Sum>b\<in>B. y_lost y b)"
proof -
  obtain f where f: "funds C (cb_address (y_cb y)) (y_chain y) f" "issued_total look (y_store y) + sum_calls held y \<le> f"
    using assms(1) by (auto simp: issue_inv_def)
  have nn: "\<forall>t \<in> set (y_calls y). 0 \<le> is_amount t" using assms(1) by (auto simp: issue_inv_def call_ok_def)
  have "sum_list (map held ts) = sum_list (map is_amount ts) - sum_list (map (\<lambda>t. if is_phase t = Counted then is_amount t else 0) ts)" for ts
    by (induction ts) (simp_all add: held_def)
  then have held: "sum_calls held y = cb_totalIssuedReserved (y_cb y) - counted_twice y"
    using assms(1) by (simp add: issue_inv_def counted_twice_def sum_calls_def)
  have "(\<Sum>b\<in>B. y_sent y b) \<le> (\<Sum>b\<in>B. due y b)" using assms(1) by (intro sum_mono) (simp add: issue_inv_def)
  also have "\<dots> = (\<Sum>b\<in>B. y_counted y b) + (\<Sum>b\<in>B. y_lost y b) + (\<Sum>b\<in>B. sum_calls (\<lambda>t. if is_to t = b then uncounted t else 0) y)"
    by (simp add: due_def sum.distrib)
  also have "\<dots> \<le> issued_total look (y_store y) + (\<Sum>b\<in>B. y_lost y b) + sum_calls held y"
    using assms held_bounds(1) [OF nn] held_bounds(3) [OF nn assms(2)] by (fastforce simp: issue_inv_def)
  finally show ?thesis using f held by (intro exI [of _ f]) (simp add: algebra_simps)
qed

section \<open>Every step keeps the invariant\<close>

lemma call_ok_mono: "call_ok y t \<Longrightarrow> (\<And>b. due y b \<le> due y' b) \<Longrightarrow> call_ok y' t"
  by (auto simp: call_ok_def split: phase.splits) (meson add_right_mono order_trans)+

lemma calls_ok_phase:
  assumes "\<forall>t \<in> set (y_calls y). call_ok y t" and "\<And>b. due y b \<le> due y' b"
    and "y_calls y' = (y_calls y)[i := t']" and "call_ok y' t'"
  shows "\<forall>t \<in> set (y_calls y'). call_ok y' t"
  using assms set_update_subset_insert [of "y_calls y" i t'] call_ok_mono [OF _ assms(2)] by auto

lemma set_phase_simps [simp]:
  "y_chain (set_phase i ph y) = y_chain y" "y_cb (set_phase i ph y) = y_cb y" "y_store (set_phase i ph y) = y_store y"
  "y_sent (set_phase i ph y) = y_sent y" "y_counted (set_phase i ph y) = y_counted y"
  "y_lost (set_phase i ph y) = y_lost y" "y_calls (set_phase i ph y) = (y_calls y)[i := (y_calls y ! i)\<lparr>is_phase := ph\<rparr>]"
  by (simp_all add: set_phase_def)

text \<open>A step that only changes the phase of a call.\<close>

lemma inv_phase:
  assumes inv: "issue_inv C look y" and i: "i < length (y_calls y)" "y_calls y ! i = t"
    and same: "uncounted (t\<lparr>is_phase := ph\<rparr>) = uncounted t" "held (t\<lparr>is_phase := ph\<rparr>) \<le> held t"
    and ok: "call_ok y (t\<lparr>is_phase := ph\<rparr>)"
  shows "issue_inv C look (set_phase i ph y)"
proof -
  let ?y = "set_phase i ph y"
  have due: "due ?y = due y" using due_phase [OF i] same(1) by (auto simp: fun_eq_iff)
  have "call_ok ?y (t\<lparr>is_phase := ph\<rparr>)" by (rule call_ok_mono [OF ok]) (simp add: due)
  then have "\<forall>t \<in> set (y_calls ?y). call_ok ?y t"
    using inv i by (intro calls_ok_phase [of y ?y i "t\<lparr>is_phase := ph\<rparr>"]) (auto simp: issue_inv_def due)
  moreover have "sum_calls is_amount ?y = sum_calls is_amount y" "sum_calls held ?y \<le> sum_calls held y"
    using sum_calls_phase [OF i(1)] i(2) same(2) by simp_all
  ultimately show ?thesis using inv by (fastforce simp: issue_inv_def due)
qed

context cheque_store
begin

lemma inv_reserve:
  assumes inv: "issue_inv C look y" and nn: "0 \<le> amount"
    and r: "reserveTotalIssued C S amount (y_chain y) (y_cb y, y_store y) = (Inr x, cb, st)"
  shows "issue_inv C look (y\<lparr>y_cb := cb, y_store := st,
      y_calls := y_calls y @ [\<lparr>is_to = b, is_amount = amount, is_phase = Reserved\<rparr>]\<rparr>)"
proof -
  let ?y = "y\<lparr>y_cb := cb, y_store := st, y_calls := y_calls y @ [\<lparr>is_to = b, is_amount = amount, is_phase = Reserved\<rparr>]\<rparr>"
  note ok = reserve_ok [OF r]
  have due: "due ?y = due y" by (simp add: fun_eq_iff due_def sum_calls_def uncounted_def sent_uncounted_def)
  have "sum_calls held y \<le> sum_calls is_amount y"
    using inv by (intro held_bounds) (auto simp: issue_inv_def call_ok_def)
  moreover have "sum_calls held ?y = sum_calls held y + amount" "sum_calls is_amount ?y = sum_calls is_amount y + amount"
    by (simp_all add: sum_calls_def held_def)
  moreover have "\<forall>t \<in> set (y_calls ?y). call_ok ?y t"
    using inv nn call_ok_mono [of y _ ?y] by (auto simp: issue_inv_def due call_ok_def)
  ultimately show ?thesis using inv ok unfolding issue_inv_def due by fastforce
qed

lemma inv_send:
  assumes inv: "issue_inv C look y" and i: "i < length (y_calls y)" "y_calls y ! i = t" and ph: "is_phase t = Prepared cheque"
  shows "issue_inv C look (set_phase i (Sent cheque)
      (y\<lparr>y_sent := (y_sent y)(is_to t := max (y_sent y (is_to t)) (cq_CumulativePayout cheque))\<rparr>))" (is "issue_inv C look ?y")
proof -
  let ?u = "y\<lparr>y_sent := (y_sent y)(is_to t := max (y_sent y (is_to t)) (cq_CumulativePayout cheque))\<rparr>"
  have i0: "i < length (y_calls ?u)" "y_calls ?u ! i = t" using i by simp_all
  have due: "due ?y b = due y b + (if is_to t = b then is_amount t else 0)" for b
    unfolding due_phase [OF i0] using ph by (simp add: uncounted_def sent_uncounted_def)
  have t: "0 \<le> is_amount t" "cq_CumulativePayout cheque \<le> due y (is_to t) + is_amount t"
    using inv i ph nth_mem [OF i(1)] by (auto simp: issue_inv_def call_ok_def)
  have "\<forall>t \<in> set (y_calls ?y). call_ok ?y t"
    by (rule calls_ok_phase [of y _ i "t\<lparr>is_phase := Sent cheque\<rparr>"])
      (use inv i t in \<open>auto simp: issue_inv_def due call_ok_def\<close>)
  moreover have "sum_calls is_amount ?y = sum_calls is_amount y" "sum_calls held ?y = sum_calls held y"
    using sum_calls_phase [OF i0(1)] i0(2) ph by (simp_all add: held_def)
  moreover have "issued_to look (y_store y) b \<le> due ?y b" "y_sent ?y b \<le> due ?y b" for b
  proof -
    have "issued_to look (y_store y) b \<le> due y b" "y_sent y b \<le> due y b" using inv by (auto simp: issue_inv_def)
    then show "issued_to look (y_store y) b \<le> due ?y b" "y_sent ?y b \<le> due ?y b"
      using t by (auto simp: due)
  qed
  ultimately show ?thesis using inv by (simp add: issue_inv_def)
qed

lemma inv_save:
  assumes inv: "issue_inv C look y" and i: "i < length (y_calls y)" "y_calls y ! i = t" and ph: "is_phase t = Sent cheque"
    and s: "save_cheque S (is_to t) cheque (y_store y) = Inr st"
  shows "issue_inv C look (set_phase i Saved (y\<lparr>y_store := st\<rparr>))"
proof (rule inv_phase)
  have t: "cq_CumulativePayout cheque \<le> due y (is_to t)" "0 \<le> is_amount t"
    using inv i ph nth_mem [OF i(1)] by (auto simp: issue_inv_def call_ok_def)
  have "call_ok (y\<lparr>y_store := st\<rparr>) x" if "call_ok y x" for x
    by (rule call_ok_mono [OF that]) simp
  then show "issue_inv C look (y\<lparr>y_store := st\<rparr>)"
    using inv save_cheque_ok [OF s] t by (auto simp: issue_inv_def)
  show "uncounted (t\<lparr>is_phase := Saved\<rparr>) = uncounted t" "held (t\<lparr>is_phase := Saved\<rparr>) \<le> held t"
    using ph by (simp_all add: uncounted_def sent_uncounted_def held_def)
  show "call_ok (y\<lparr>y_store := st\<rparr>) (t\<lparr>is_phase := Saved\<rparr>)" using t by (simp add: call_ok_def)
qed (use i in auto)

lemma inv_count:
  assumes inv: "issue_inv C look y" and i: "i < length (y_calls y)" "y_calls y ! i = t" and ph: "is_phase t = Saved"
    and c: "count_issued S (is_amount t) (y_store y) = Inr st"
  shows "issue_inv C look (set_phase i Counted
      (y\<lparr>y_store := st, y_counted := (y_counted y)(is_to t := y_counted y (is_to t) + is_amount t)\<rparr>))" (is "issue_inv C look ?y")
proof -
  let ?u = "y\<lparr>y_store := st, y_counted := (y_counted y)(is_to t := y_counted y (is_to t) + is_amount t)\<rparr>"
  note ok = count_issued_ok [OF c]
  have i0: "i < length (y_calls ?u)" "y_calls ?u ! i = t" using i by simp_all
  have "due ?y b = due y b" for b
    unfolding due_phase [OF i0] using ph by (simp add: due_def uncounted_def sent_uncounted_def)
  then have due: "due ?y = due y" by (rule ext)
  have t: "0 \<le> is_amount t" using inv i nth_mem [OF i(1)] by (auto simp: issue_inv_def call_ok_def)
  have "\<forall>t \<in> set (y_calls ?y). call_ok ?y t"
    by (rule calls_ok_phase [of y _ i "t\<lparr>is_phase := Counted\<rparr>"])
      (use inv i t in \<open>auto simp: issue_inv_def due call_ok_def\<close>)
  moreover have "sum_calls is_amount ?y = sum_calls is_amount y" "sum_calls held ?y = sum_calls held y - is_amount t"
    using sum_calls_phase [OF i0(1)] i0(2) ph by (simp_all add: held_def)
  moreover have "(\<Sum>b\<in>B. y_counted ?y b) \<le> issued_total look (y_store y) + is_amount t" if "finite B" for B
  proof -
    have "(\<Sum>b\<in>B. y_counted ?y b) \<le> (\<Sum>b\<in>B. y_counted y b) + is_amount t"
    proof (cases "is_to t \<in> B")
      case True
      with \<open>finite B\<close> show ?thesis by (simp add: sum.remove [of B "is_to t"])
    next
      case False
      then have "(\<Sum>b\<in>B. y_counted ?y b) = (\<Sum>b\<in>B. y_counted y b)" by (intro sum.cong) auto
      with t show ?thesis by simp
    qed
    moreover have "(\<Sum>b\<in>B. y_counted y b) \<le> issued_total look (y_store y)"
      using inv that unfolding issue_inv_def by blast
    ultimately show ?thesis by linarith
  qed
  ultimately show ?thesis using inv ok by (simp add: issue_inv_def due)
qed

lemma inv_finish:
  assumes inv: "issue_inv C look y" and i: "i < length (y_calls y)" "y_calls y ! i = t" and ph: "is_phase t \<in> {Counted, Failed}"
  shows "issue_inv C look (y\<lparr>y_cb := unreserveTotalIssued (is_amount t) (y_cb y),
      y_calls := take i (y_calls y) @ drop (Suc i) (y_calls y)\<rparr>)" (is "issue_inv C look ?y")
proof -
  have sums: "sum_calls g ?y = sum_calls g y - g t" for g
    using sum_list_remove [OF i(1), of g] i(2) by (simp add: sum_calls_def)
  have due: "due ?y = due y" using ph by (auto simp: fun_eq_iff due_def sums uncounted_def sent_uncounted_def)
  have "\<forall>t \<in> set (y_calls ?y). call_ok ?y t"
    using inv call_ok_mono [of y _ ?y] by (auto simp: issue_inv_def due dest: in_set_takeD in_set_dropD)
  moreover have "0 \<le> held t" using inv i nth_mem [OF i(1)] by (auto simp: held_def issue_inv_def call_ok_def)
  moreover have "cb_totalIssuedReserved (y_cb ?y) = cb_totalIssuedReserved (y_cb y) - is_amount t"
    "cb_address (y_cb ?y) = cb_address (y_cb y)" by (simp_all add: unreserveTotalIssued_def)
  ultimately show ?thesis using inv unfolding issue_inv_def due sums by fastforce
qed

text \<open>A call that fails behind its send: what it sent stays due, as lost.\<close>

lemma inv_fail_after:
  assumes inv: "issue_inv C look y" and i: "i < length (y_calls y)" "y_calls y ! i = t" and ph: "sent_uncounted t"
  shows "issue_inv C look (set_phase i Failed
      (y\<lparr>y_lost := (y_lost y)(is_to t := y_lost y (is_to t) + is_amount t)\<rparr>))" (is "issue_inv C look ?y")
proof -
  let ?u = "y\<lparr>y_lost := (y_lost y)(is_to t := y_lost y (is_to t) + is_amount t)\<rparr>"
  have i0: "i < length (y_calls ?u)" "y_calls ?u ! i = t" using i by simp_all
  have "due ?y b = due y b" for b
    unfolding due_phase [OF i0] using ph by (simp add: due_def uncounted_def sent_uncounted_def)
  then have due: "due ?y = due y" by (rule ext)
  have t: "0 \<le> is_amount t" using inv i nth_mem [OF i(1)] by (auto simp: issue_inv_def call_ok_def)
  have "\<forall>t \<in> set (y_calls ?y). call_ok ?y t"
    by (rule calls_ok_phase [of y _ i "t\<lparr>is_phase := Failed\<rparr>"])
      (use inv i t in \<open>auto simp: issue_inv_def due call_ok_def\<close>)
  moreover have "sum_calls is_amount ?y = sum_calls is_amount y" "sum_calls held ?y = sum_calls held y"
    using sum_calls_phase [OF i0(1)] i0(2) ph by (auto simp: held_def sent_uncounted_def)
  ultimately show ?thesis using inv by (simp add: issue_inv_def due)
qed

lemma issue_step_inv: "issue_step C sign S y y' \<Longrightarrow> issue_inv C look y \<Longrightarrow> issue_inv C look y'"
proof (induction rule: issue_step.induct)
  case (reserve amount y x cb st b)
  then show ?case by (intro inv_reserve)
next
  case (prepare i y t cheque)
  show ?case
  proof (rule inv_phase [OF prepare.prems prepare.hyps(1,2)])
    have t: "call_ok y t" "issued_to look (y_store y) (is_to t) \<le> due y (is_to t)"
      using prepare.prems prepare.hyps nth_mem [OF prepare.hyps(1)] by (auto simp: issue_inv_def)
    then show "call_ok y (t\<lparr>is_phase := Prepared cheque\<rparr>)"
      using next_cheque_ok(1) [OF prepare.hyps(4)] by (auto simp: call_ok_def)
    show "uncounted (t\<lparr>is_phase := Prepared cheque\<rparr>) = uncounted t" "held (t\<lparr>is_phase := Prepared cheque\<rparr>) \<le> held t"
      using prepare.hyps(3) by (simp_all add: uncounted_def sent_uncounted_def held_def)
  qed
next
  case (send i y t cheque)
  then show ?case by (intro inv_send)
next
  case (fail_before i y t)
  have ok: "call_ok y t" using fail_before nth_mem [OF fail_before.hyps(1)] by (auto simp: issue_inv_def)
  show ?case by (rule inv_phase [OF fail_before.prems fail_before.hyps(1,2)])
      (use ok fail_before.hyps(3) in \<open>auto simp: uncounted_def sent_uncounted_def unsent_def held_def call_ok_def split: phase.splits\<close>)
next
  case (save i y t cheque st)
  then show ?case by (intro inv_save)
next
  case (count i y t st)
  then show ?case by (intro inv_count)
next
  case (fail_after i y t)
  then show ?case by (intro inv_fail_after)
next
  case (finish i y t)
  then show ?case by (intro inv_finish)
next
  case (chain y f c f')
  have "call_ok (y\<lparr>y_chain := c\<rparr>) x" if "call_ok y x" for x
    by (rule call_ok_mono [OF that]) simp
  moreover have "f2 = f" if "funds C (cb_address (y_cb y)) (y_chain y) f2" for f2
    using that chain.hyps(1) by (auto simp: funds_def)
  ultimately show ?case using chain unfolding issue_inv_def by force
qed

lemma idle_inv: "idle C look y \<Longrightarrow> issue_inv C look y"
  by (auto simp: idle_def issue_inv_def due_def sum_calls_def)

lemma issued_covered:
  "(issue_step C sign S)\<^sup>*\<^sup>* y y' \<Longrightarrow> idle C look y \<Longrightarrow> finite B \<Longrightarrow>
   \<exists>f. funds C (cb_address (y_cb y')) (y_chain y') f \<and>
    issued_total look (y_store y') + cb_totalIssuedReserved (y_cb y') - counted_twice y' \<le> f \<and>
    (\<Sum>b\<in>B. y_sent y' b) \<le> issued_total look (y_store y') + cb_totalIssuedReserved (y_cb y') - counted_twice y' + (\<Sum>b\<in>B. y_lost y' b)"
proof -
  assume "(issue_step C sign S)\<^sup>*\<^sup>* y y'" and "idle C look y" and B: "finite B"
  then have "issue_inv C look y'" by (induction rule: rtranclp_induct) (auto intro: idle_inv issue_step_inv)
  from issue_inv_covered [OF this B] show ?thesis .
qed

end

section \<open>A call of Issue is a run of steps\<close>

lemma issue_reserved_ok:
  assumes "issue_reserved sign S b amount send cb st w = (None, st', w')"
  obtains cheque st1 where "next_cheque sign S b amount cb st = Inr cheque" "send cheque w = (None, w')"
    "save_cheque S b cheque st = Inr st1" "count_issued S amount st1 = Inr st'"
  using assms by (auto simp: issue_reserved_def split: sum.splits prod.splits option.splits)

lemma Issue_ok:
  assumes "Issue C sign S b amount send c (cb, st) w = (Inr x, (cb', st'), w')"
  obtains cb1 where "reserveTotalIssued C S amount c (cb, st) = (Inr x, cb1, st)"
    "issue_reserved sign S b amount send cb1 st w = (None, st', w')" "cb' = unreserveTotalIssued amount cb1"
proof -
  obtain cb1 st1 where r: "reserveTotalIssued C S amount c (cb, st) = (Inr x, cb1, st1)"
    using assms by (auto simp: Issue_def split: prod.splits sum.splits option.splits)
  then have "st1 = st" by (auto simp: reserveTotalIssued_def split: sum.splits if_splits)
  with assms r that show thesis by (auto simp: Issue_def split: prod.splits option.splits)
qed

lemma nth_snoc: "n = length xs \<Longrightarrow> (xs @ [x]) ! n = x" "n = length xs \<Longrightarrow> (xs @ [x])[n := z] = xs @ [z]"
  by simp_all

lemma Issue_steps:
  assumes "Issue C sign S b amount send (y_chain y) (y_cb y, y_store y) w = (Inr x, (cb', st'), w')" and "0 \<le> amount"
  shows "\<exists>y' cheque. (issue_step C sign S)\<^sup>*\<^sup>* y y' \<and> y_cb y' = cb' \<and> y_store y' = st' \<and> y_calls y' = y_calls y \<and>
    send cheque w = (None, w') \<and> y_sent y' = (y_sent y)(b := max (y_sent y b) (cq_CumulativePayout cheque))"
proof -
  obtain cb1 where r: "reserveTotalIssued C S amount (y_chain y) (y_cb y, y_store y) = (Inr x, cb1, y_store y)"
    and i: "issue_reserved sign S b amount send cb1 (y_store y) w = (None, st', w')" and cb': "cb' = unreserveTotalIssued amount cb1"
    by (rule Issue_ok [OF assms(1)])
  obtain cheque st1 where q: "next_cheque sign S b amount cb1 (y_store y) = Inr cheque" "send cheque w = (None, w')"
    "save_cheque S b cheque (y_store y) = Inr st1" "count_issued S amount st1 = Inr st'"
    by (rule issue_reserved_ok [OF i])
  let ?n = "length (y_calls y)" and ?R = "issue_step C sign S"
  let ?call = "\<lambda>ph. \<lparr>is_to = b, is_amount = amount, is_phase = ph\<rparr>"
  define ya where "ya = y\<lparr>y_cb := cb1, y_calls := y_calls y @ [?call Reserved]\<rparr>"
  define yb where "yb = ya\<lparr>y_calls := y_calls y @ [?call (Prepared cheque)]\<rparr>"
  define yc where "yc = yb\<lparr>y_sent := (y_sent y)(b := max (y_sent y b) (cq_CumulativePayout cheque)),
    y_calls := y_calls y @ [?call (Sent cheque)]\<rparr>"
  define yd where "yd = yc\<lparr>y_store := st1, y_calls := y_calls y @ [?call Saved]\<rparr>"
  define ye where "ye = yd\<lparr>y_store := st',
    y_counted := (y_counted y)(b := y_counted y b + amount), y_calls := y_calls y @ [?call Counted]\<rparr>"
  define yf where "yf = ye\<lparr>y_cb := cb', y_calls := y_calls y\<rparr>"
  have "?R y ya" using issue_step.reserve [OF assms(2) r, of sign b] by (simp add: ya_def)
  moreover have "?R ya yb"
    using issue_step.prepare [of ?n ya "?call Reserved" sign S cheque C] q(1) by (simp add: ya_def yb_def set_phase_def)
  moreover have "?R yb yc"
    using issue_step.send [of ?n yb "?call (Prepared cheque)" cheque C sign S] by (simp add: ya_def yb_def yc_def set_phase_def)
  moreover have "?R yc yd"
    using issue_step.save [of ?n yc "?call (Sent cheque)" cheque S st1 C sign] q(3)
    by (simp add: ya_def yb_def yc_def yd_def set_phase_def)
  moreover have "?R yd ye"
    using issue_step.count [of ?n yd "?call Saved" S st' C sign] q(4)
    by (simp add: ya_def yb_def yc_def yd_def ye_def set_phase_def)
  moreover have "?R ye yf"
    using issue_step.finish [of ?n ye "?call Counted" C sign S] cb'
    by (simp add: ya_def yb_def yc_def yd_def ye_def yf_def)
  ultimately have "?R\<^sup>*\<^sup>* y yf" by (meson converse_rtranclp_into_rtranclp rtranclp.rtrancl_refl)
  then show ?thesis using q(2) by (intro exI [of _ yf] exI [of _ cheque]) (simp add: ya_def yb_def yc_def yd_def ye_def yf_def)
qed

section \<open>Properties\<close>


definition demo_isys :: "(swap_value mem, int) isys" where
  "demo_isys = \<lparr>y_chain = 100, y_cb = New_chequebook [2] [3] [4], y_store = [], y_calls = [],
     y_sent = \<lambda>b. 0, y_counted = \<lambda>b. 0, y_lost = \<lambda>b. 0\<rparr>"

text \<open>A run: a cheque of 20 is sent and then the store fails; while its reservation is still held a call
  issues 30 to another beneficiary.\<close>

definition demo_call :: "phase \<Rightarrow> issuing" where
  "demo_call ph = \<lparr>is_to = [8], is_amount = 20, is_phase = ph\<rparr>"

definition demo_lost :: "(swap_value mem, int) isys" where
  "demo_lost = demo_isys\<lparr>y_cb := (New_chequebook [2] [3] [4])\<lparr>cb_totalIssuedReserved := 20\<rparr>, y_calls := [demo_call Failed],
     y_sent := (\<lambda>b. 0)([8] := 20), y_lost := (\<lambda>b. 0)([8] := 20)\<rparr>"

lemma demo_run: "(issue_step demo_chain (\<lambda>q. Inr []) InMem)\<^sup>*\<^sup>* demo_isys demo_lost"
proof -
  let ?R = "issue_step demo_chain (\<lambda>q. Inr []) InMem"
  let ?q = "\<lparr>cq_Chequebook = [2], cq_Beneficiary = [8], cq_CumulativePayout = 20, cq_Signature = []\<rparr>"
  let ?cb = "(New_chequebook [2] [3] [4])\<lparr>cb_totalIssuedReserved := 20\<rparr>"
  define y1 where "y1 = demo_isys\<lparr>y_cb := ?cb, y_calls := [demo_call Reserved]\<rparr>"
  define y2 where "y2 = y1\<lparr>y_calls := [demo_call (Prepared ?q)]\<rparr>"
  define y3 where "y3 = y1\<lparr>y_calls := [demo_call (Sent ?q)], y_sent := (\<lambda>b. 0)([8] := 20)\<rparr>"
  have "?R demo_isys y1"
    using issue_step.reserve [of 20 demo_chain InMem demo_isys 80 ?cb "[]" "\<lambda>q. Inr []" "[8]"]
    by (simp add: y1_def demo_isys_def demo_call_def reserveTotalIssued_def AvailableBalance_def totalIssued_def get_amount_def
        New_chequebook_def mem_defs)
  moreover have "?R y1 y2"
    using issue_step.prepare [of 0 y1 "demo_call Reserved" "\<lambda>q. Inr []" InMem ?q demo_chain]
    by (simp add: y1_def y2_def demo_isys_def demo_call_def set_phase_def next_cheque_def cb_LastCheque_def get_cheque_def
        New_chequebook_def mem_defs)
  moreover have "?R y2 y3"
    using issue_step.send [of 0 y2 "demo_call (Prepared ?q)" ?q demo_chain "\<lambda>q. Inr []" InMem]
    by (simp add: y1_def y2_def y3_def demo_isys_def demo_call_def set_phase_def)
  moreover have "?R y3 demo_lost"
    using issue_step.fail_after [of 0 y3 "demo_call (Sent ?q)" demo_chain "\<lambda>q. Inr []" InMem]
    by (simp add: y1_def y3_def demo_lost_def demo_isys_def demo_call_def set_phase_def sent_uncounted_def)
  ultimately show ?thesis by (meson converse_rtranclp_into_rtranclp rtranclp.rtrancl_refl)
qed

lemma demo_issue:
  "\<exists>st'. Issue demo_chain (\<lambda>q. Inr []) InMem [9] 30 (\<lambda>q w. (None, q)) (y_chain demo_lost) (y_cb demo_lost, y_store demo_lost) (demo_cheque 0) =
     (Inr 70, (y_cb demo_lost, st'), \<lparr>cq_Chequebook = [2], cq_Beneficiary = [9], cq_CumulativePayout = 30, cq_Signature = []\<rparr>) \<and>
     issued_total map_of st' = 30"
  by (simp add: Issue_def reserveTotalIssued_def AvailableBalance_def totalIssued_def get_amount_def issue_reserved_def next_cheque_def
      cb_LastCheque_def get_cheque_def save_cheque_def count_issued_def unreserveTotalIssued_def New_chequebook_def demo_isys_def
      demo_lost_def issued_total_def mem_defs issued_not_total [symmetric])


lemma demo_sends: "abi_Pack demo_chain ''withdraw'' args = Inr []" "ch_Send demo_chain t c = (Inr [7], c)"
  by (simp_all add: demo_chain_def)

text \<open>C20. A withdrawal takes funds that are reserved: when running calls of \<open>Issue\<close> have reserved everything that is
  available, a new cheque is refused for want of funds, but a withdrawal of the same amount is sent.\<close>

theorem withdraw_ignores_reservations:
  assumes "AvailableBalance C S cb c st = Inr available" and "cb_totalIssuedReserved cb = available"
    and "0 < amount" and "amount \<le> available" and "abi_Pack C ''withdraw'' [AbiUint amount] = Inr callData"
    and "ch_Send C \<lparr>tx_To = cb_address cb, tx_Data = callData, tx_GasPrice = ctx_GasPrice ctx, tx_GasLimit = 95000, tx_Value = 0\<rparr> c = (Inr h, c')"
  shows "reserveTotalIssued C S amount c (cb, st) = (Inl ErrOutOfFunds, cb, st) \<and>
    Withdraw C S ctx amount cb st c = (Inr h, c')"
  using assms by (simp add: reserveTotalIssued_def Withdraw_def)

theorem withdraw_ignores_reservations_witness:
  "reserveTotalIssued demo_chain InMem 30 100 ((New_chequebook [2] [3] [4])\<lparr>cb_totalIssuedReserved := 100\<rparr>, []) =
     (Inl ErrOutOfFunds, (New_chequebook [2] [3] [4])\<lparr>cb_totalIssuedReserved := 100\<rparr>, []) \<and>
   Withdraw demo_chain InMem \<lparr>ctx_GasPrice = None, ctx_GasLimit = 0\<rparr> 30 ((New_chequebook [2] [3] [4])\<lparr>cb_totalIssuedReserved := 100\<rparr>) [] 100 =
     (Inr [7], 100)"
  by (rule withdraw_ignores_reservations [where available = 100 and callData = "[]"])
    (simp_all add: AvailableBalance_def totalIssued_def get_amount_def mem_defs New_chequebook_def demo_sends)

end
