(* ===== verification/SwapProps.thy ===== *)
theory SwapProps
  imports Swap ChequebookIssue
begin

text \<open>
  What the settlement by cheques promises: a payment the debtor sends is credited at the creditor with exactly
  the amount the debtor books, the book of the beneficiaries stays one to one under handshakes and
  migrations, and a malformed message is the end of the node.
\<close>

section \<open>Keys\<close>

lemmas key_defs = peerKey_def chequebookPeerKey_def peerBeneficiaryKey_def beneficiaryPeerKey_def peerDeductedByKey_def
  peerDeductedForKey_def lastReceivedChequeKey_def lastIssuedChequeKey_def totalIssuedKey_def peerPrefix_def
  peerChequebookPrefix_def beneficiaryPeerPrefix_def peerBeneficiaryPrefix_def deductedForPeerPrefix_def
  deductedByPeerPrefix_def lastReceivedChequePrefix_def lastIssuedChequeKeyPrefix_def

lemma swap_keys_distinct [simp]:
  "peerKey p \<noteq> lastReceivedChequeKey a" "chequebookPeerKey hx b \<noteq> lastReceivedChequeKey a"
  "peerDeductedForKey p \<noteq> lastReceivedChequeKey a" "peerDeductedByKey p \<noteq> lastIssuedChequeKey a"
  "peerDeductedForKey p \<noteq> peerKey q" "peerBeneficiaryKey p \<noteq> beneficiaryPeerKey hx b"
  "peerBeneficiaryKey p \<noteq> chequebookPeerKey hx b" "peerBeneficiaryKey p \<noteq> peerKey q"
  "beneficiaryPeerKey hx b \<noteq> peerKey q" "beneficiaryPeerKey hx b \<noteq> chequebookPeerKey hx b'"
  by (simp_all add: key_defs)

lemma swap_keys_inject [simp]:
  "peerBeneficiaryKey p = peerBeneficiaryKey q \<longleftrightarrow> p = q" "peerKey p = peerKey q \<longleftrightarrow> p = q"
  "beneficiaryPeerKey hx a = beneficiaryPeerKey hx b \<longleftrightarrow> hx a = hx b"
  by (simp_all add: key_defs)

section \<open>The debtor\<close>

lemma settlement_rates_made:
  "0 \<le> rate \<Longrightarrow> 0 \<le> ded \<Longrightarrow> settlement_rates (MakeSettlementHeaders rate ded) = Inr (rate, ded)"
  by (simp add: settlement_rates_def ParseSettlementResponseHeaders_def ParseExchangeHeader_def ParseDeductionHeader_def
      MakeSettlementHeaders_def exchangeRateFieldName_def deductionFieldName_def)

text \<open>Transport keeps headers, but an empty value may arrive as no value.\<close>

definition transported :: "Headers \<Rightarrow> Headers \<Rightarrow> bool" where
  "transported h h' \<longleftrightarrow> (\<forall>k. h' k = h k \<or> h k = Some [] \<and> h' k = None)"

lemma big_Bytes_Nil: "big_Bytes x = [] \<longleftrightarrow> x = 0"
proof -
  have "nat_bytes n = [] \<longleftrightarrow> n = 0" for n by (metis be_val_Nil be_val_nat_bytes nat_bytes.simps)
  then show ?thesis by (simp add: big_Bytes_def)
qed

lemma settlement_rates_transported:
  assumes "transported (MakeSettlementHeaders rate ded) h" and "0 < rate" and "0 \<le> ded"
  shows "settlement_rates h = Inr (rate, ded)"
proof -
  let ?m = "MakeSettlementHeaders rate ded"
  have m: "?m exchangeRateFieldName = Some (big_Bytes rate)" "?m deductionFieldName = Some (big_Bytes ded)"
    by (simp_all add: MakeSettlementHeaders_def exchangeRateFieldName_def deductionFieldName_def)
  have "h exchangeRateFieldName = Some (big_Bytes rate)"
    using assms m big_Bytes_Nil [of rate] unfolding transported_def by (metis less_irrefl option.inject)
  moreover have "h deductionFieldName = Some (big_Bytes ded) \<or> ded = 0 \<and> h deductionFieldName = None"
    using assms m big_Bytes_Nil [of ded] unfolding transported_def by (metis option.inject)
  ultimately show ?thesis using assms
    by (auto simp: settlement_rates_def ParseSettlementResponseHeaders_def ParseExchangeHeader_def ParseDeductionHeader_def
        big_Bytes_Nil)
qed

lemma send_cheque_ok:
  "send_cheque encode write q w = (None, w') \<Longrightarrow> \<exists>msg. encode q = Inr msg \<and> write msg w = (None, w')"
  by (auto simp: send_cheque_def split: sum.splits prod.splits option.splits)

context cheque_store
begin

text \<open>A completed call of \<open>Issue\<close>: the cheque it sent, and the records it left.\<close>

lemma Issue_sent:
  assumes "Issue C sign S b amount send c (cb, st) w = (Inr x, (cb', st'), w')"
  shows "\<exists>q. send q w = (None, w') \<and> cq_CumulativePayout q = issued_to look st b + amount \<and> cq_Beneficiary q = b \<and>
    cq_Chequebook q = cb_address cb \<and> sign (cheque_of q) = Inr (cq_Signature q) \<and>
    issued_to look st' b = issued_to look st b + amount \<and> cb' = cb"
proof -
  obtain cb1 where r: "reserveTotalIssued C S amount c (cb, st) = (Inr x, cb1, st)"
    and i: "issue_reserved sign S b amount send cb1 st w = (None, st', w')" and cb': "cb' = unreserveTotalIssued amount cb1"
    by (rule Issue_ok [OF assms])
  obtain q st1 where q: "next_cheque sign S b amount cb1 st = Inr q" "send q w = (None, w')"
    "save_cheque S b q st = Inr st1" "count_issued S amount st1 = Inr st'"
    by (rule issue_reserved_ok [OF i])
  note nc = next_cheque_ok [OF q(1)] and rs = reserve_ok(3) [OF r]
  have "issued_to look st' b = cq_CumulativePayout q"
    using count_issued_ok(1) [OF q(4), of b] save_cheque_ok(1) [OF q(3), of b] by simp
  with nc q(2) rs cb' show ?thesis by (intro exI [of _ q]) (simp add: unreserveTotalIssued_def)
qed

lemma AddDeductionByPeer_issued:
  "AddDeductionByPeer S peer s = (None, s') \<Longrightarrow> issued_to look (sw_store s') b = issued_to look (sw_store s) b"
  by (auto simp: AddDeductionByPeer_def AddDeductionBy_def on_store_def put_value_def issued_to_def swap_keys_distinct(4) [symmetric]
      split: prod.splits sum.splits dest!: put_look)

lemma EmitCheque_ok:
  assumes "EmitCheque C sign S o' encode write (Inr h) peer b amount c s w = (Inr bal, s', w')"
    and "settlement_rates h = Inr (rate, ded)"
  shows "\<exists>q msg. encode q = Inr msg \<and> write msg w = (None, w') \<and> cq_CumulativePayout q = issued_to look (sw_store s) b + (amount * rate + ded) \<and>
    cq_Beneficiary q = b \<and> cq_Chequebook q = cb_address (sw_chequebook s) \<and> sign (cheque_of q) = Inr (cq_Signature q) \<and>
    issued_to look (sw_store s') b = cq_CumulativePayout q"
proof -
  obtain cb st w1 where i: "Issue C sign S b (amount * rate + ded) (send_cheque encode write) c (sw_chequebook s, sw_store s) w
      = (Inr bal, (cb, st), w1)"
    and fin: "(if ded \<noteq> 0 then AddDeductionByPeer S peer (s\<lparr>sw_chequebook := cb, sw_store := st\<rparr>)
       else (None, s\<lparr>sw_chequebook := cb, sw_store := st\<rparr>)) = (None, s')" and w1: "w1 = w'"
    using assms by (auto simp: EmitCheque_def split: sum.splits prod.splits if_splits option.splits)
  obtain q where q: "send_cheque encode write q w = (None, w1)" "cq_CumulativePayout q = issued_to look (sw_store s) b + (amount * rate + ded)"
    "cq_Beneficiary q = b" "cq_Chequebook q = cb_address (sw_chequebook s)" "sign (cheque_of q) = Inr (cq_Signature q)"
    "issued_to look st b = issued_to look (sw_store s) b + (amount * rate + ded)"
    using Issue_sent [OF i] by blast
  have "issued_to look (sw_store s') b = issued_to look st b"
    using fin AddDeductionByPeer_issued [of peer "s\<lparr>sw_chequebook := cb, sw_store := st\<rparr>" s' b] by (auto split: if_splits)
  with q send_cheque_ok [OF q(1)] w1 show ?thesis by metis
qed

end

section \<open>The creditor\<close>

locale reliable_cheques = reliable_store S look for S :: "'s sstore" and look
begin

sublocale cheque_store S look ..

lemma last_payout_total:
  assumes "\<And>v. look st (lastReceivedChequeKey cb) = Some v \<Longrightarrow> \<exists>q. v = VCheque q"
    and "look st (lastReceivedChequeKey cb) = None \<Longrightarrow> VerifyChequebook C (cs_factory cs) cb c = None"
  shows "last_payout C S cs cb c st = Inr (received look st cb)"
  using assms by (fastforce simp: last_payout_def get_cheque_def get_total received_def split: option.splits)

text \<open>A good cheque is accepted, with what it adds.\<close>

lemma receive_good:
  assumes "cq_Beneficiary q = cs_beneficiary cs" and "chain_checks C rec cs q c = None"
    and "\<And>v. look st (lastReceivedChequeKey (cq_Chequebook q)) = Some v \<Longrightarrow> \<exists>q. v = VCheque q"
    and "look st (lastReceivedChequeKey (cq_Chequebook q)) = None \<Longrightarrow> VerifyChequebook C (cs_factory cs) (cq_Chequebook q) c = None"
    and "received look st (cq_Chequebook q) < cq_CumulativePayout q"
    and "rate \<le> cq_CumulativePayout q - received look st (cq_Chequebook q) - ded"
  shows "\<exists>st'. cs_ReceiveCheque C rec S cs q rate ded c st =
      (Inr (cq_CumulativePayout q - received look st (cq_Chequebook q)), st')"
  using assms last_payout_total [OF assms(3,4)] put_total [of "lastReceivedChequeKey (cq_Chequebook q)" "VCheque q" st]
  by (auto simp: cs_ReceiveCheque_def Let_def)

lemma put_value_total: "\<exists>st'. put_value S k v st = (None, st') \<and> look st' = (look st)(k \<mapsto> v)"
  using put_total [of k v st] by (auto simp: put_value_def dest: put_look)

lemma PutChequebook_total:
  "\<exists>st'. PutChequebook S hx peer cb st = (None, st') \<and>
    look st' = (look st)(peerKey peer \<mapsto> VEth cb, chequebookPeerKey hx cb \<mapsto> VPeer peer)"
proof -
  obtain st1 where "put_value S (peerKey peer) (VEth cb) st = (None, st1)" "look st1 = (look st)(peerKey peer \<mapsto> VEth cb)"
    using put_value_total by blast
  moreover obtain st2 where "put_value S (chequebookPeerKey hx cb) (VPeer peer) st1 = (None, st2)"
    "look st2 = (look st1)(chequebookPeerKey hx cb \<mapsto> VPeer peer)" using put_value_total by blast
  ultimately show ?thesis by (simp add: PutChequebook_def and_then_def)
qed

lemma Chequebook_total:
  assumes "\<And>v. look st (peerKey peer) = Some v \<Longrightarrow> v = VEth cb"
  shows "Chequebook S peer st = Inr (if look st (peerKey peer) = None then None else Some cb)"
  using assms by (fastforce simp: Chequebook_def known_def get_eth_def get_total split: option.splits)

text \<open>The whole of \<open>ReceiveCheque\<close> for a good cheque worth an amount: the amount is credited.\<close>

lemma receive_credits:
  assumes st: "\<And>v. look (sw_store s) (peerKey peer) = Some v \<Longrightarrow> v = VEth (cq_Chequebook q)"
    and r: "cs_ReceiveCheque C rec S (sw_chequeStore s) q rate ded c (sw_store s) = (Inr (amount * rate + ded), st')"
    and rate: "0 < rate"
  shows "\<exists>s'. sw_ReceiveCheque C rec S A hx peer (Some q) rate ded c s =
      (map_option AccErr (fst (NotifyPaymentReceived A peer amount (sw_accounting s))), s') \<and>
    sw_accounting s' = snd (NotifyPaymentReceived A peer amount (sw_accounting s)) \<and>
    received look (sw_store s') (cq_Chequebook q) = cq_CumulativePayout q"
proof -
  let ?key = "lastReceivedChequeKey (cq_Chequebook q)"
  have l: "look st' ?key = Some (VCheque q)" using receive_accepted(7) [OF r] by simp
  obtain st0 where st0: "put_value S (peerDeductedForKey peer) VMark st' = (None, st0)"
    "look st0 = (look st')(peerDeductedForKey peer \<mapsto> VMark)" using put_value_total by blast
  define st1 where "st1 = (if 0 < ded then st0 else st')"
  have d: "(if 0 < ded then AddDeductionFor S peer st' else (None, st')) = (None, st1)" "look st1 ?key = Some (VCheque q)"
    using st0 l by (auto simp: AddDeductionFor_def st1_def swap_keys_distinct(3) [symmetric])
  obtain st3 where st3: "PutChequebook S hx peer (cq_Chequebook q) st1 = (None, st3)"
    "look st3 = (look st1)(peerKey peer \<mapsto> VEth (cq_Chequebook q), chequebookPeerKey hx (cq_Chequebook q) \<mapsto> VPeer peer)"
    using PutChequebook_total by blast
  define st2 where "st2 = (if look (sw_store s) (peerKey peer) = None then st3 else st1)"
  have p: "(if look (sw_store s) (peerKey peer) = None then PutChequebook S hx peer (cq_Chequebook q) st1 else (None, st1)) = (None, st2)"
    "look st2 ?key = Some (VCheque q)"
    using st3 d(2) by (auto simp: st2_def swap_keys_distinct(1,2) [symmetric])
  have "checked_Div (amount * rate) rate = Some amount" using rate by (simp add: checked_Div_def big_Div_def)
  then show ?thesis using Chequebook_total [OF st] r d(1) p
    by (auto simp: sw_ReceiveCheque_def received_def split: prod.splits)
qed

end

interpretation inmem_reliable_cheques: reliable_cheques InMem "map_of :: swap_value mem \<Rightarrow> string \<Rightarrow> swap_value option"
  by unfold_locales

section \<open>From debtor to creditor\<close>

text \<open>The creditor knows the chequebook of the peer or none, has verified it or can, and holds a cheque of it up to \<open>x\<close>.\<close>

definition creditor_ready ::
  "'c Chain \<Rightarrow> ('s \<Rightarrow> string \<Rightarrow> swap_value option) \<Rightarrow> 'c \<Rightarrow> ('s, 't) Swap \<Rightarrow> Address \<Rightarrow> EthAddress \<Rightarrow> int \<Rightarrow> bool" where
  "creditor_ready C look c k peer cb x \<longleftrightarrow>
     look (sw_store k) (peerKey peer) \<in> {None, Some (VEth cb)} \<and>
     (case look (sw_store k) (lastReceivedChequeKey cb) of
        None \<Rightarrow> VerifyChequebook C (cs_factory (sw_chequeStore k)) cb c = None
      | Some v \<Rightarrow> (\<exists>q. v = VCheque q)) \<and>
     received look (sw_store k) cb = x"

definition solvent :: "'c Chain \<Rightarrow> 'c \<Rightarrow> EthAddress \<Rightarrow> EthAddress \<Rightarrow> EthAddress \<Rightarrow> int \<Rightarrow> bool" where
  "solvent C c cb issuer beneficiary x \<longleftrightarrow>
     Issuer C cb c = Inr issuer \<and>
     (\<exists>balance paid. Balance C cb c = Inr balance \<and> PaidOut C cb beneficiary c = Inr paid \<and> x \<le> balance + paid)"

lemma solvent_checks:
  "solvent C c (cq_Chequebook q) issuer (cs_beneficiary cs) (cq_CumulativePayout q) \<Longrightarrow> rec q (cs_chainID cs) = Inr issuer \<Longrightarrow>
   chain_checks C rec cs q c = None"
  by (auto simp: solvent_def chain_checks_def)

context reliable_cheques
begin

lemma headler_made:
  "CurrentRates o' = Inr (rate, dd) \<Longrightarrow> \<exists>ded \<in> {0, dd}. headler S o' peer k = MakeSettlementHeaders rate ded"
  by (auto simp: headler_def GetDeductionForPeer_def GetDeductionFor_def has_mark_def get_total split: option.splits)

end

text \<open>C21. A payment by cheque arrives exactly: when the creditor is in step with the debtor and the debtor is solvent, a
  cheque the debtor emits for an amount, under the rates the creditor announced, is accepted by the
  creditor's handler and credited with exactly that amount, whatever the deduction; afterwards the two
  are in step again.\<close>

theorem swap_payment_exact:
  assumes debtor: "cheque_store S look" and creditor: "reliable_cheques S' look'"
    and rates: "CurrentRates oK = Inr (rate, dd)" "0 < rate" "0 \<le> dd"
    and h: "transported (headler S' oK peerD k) h"
    and emit: "EmitCheque C sign S oD encode (\<lambda>m w. (None, w @ [m])) (Inr h) peerK benK amount c d [] = (Inr bal, d', [msg])"
    and amount: "0 < amount" and json: "\<forall>q m. encode q = Inr m \<longrightarrow> json m = Inr (Some q)"
    and signed: "\<forall>q. sign (cheque_of q) = Inr (cq_Signature q) \<longrightarrow> rec q (cs_chainID (sw_chequeStore k)) = Inr issuer"
    and ready: "creditor_ready C' look' c' k peerD (cb_address (sw_chequebook d)) (issued_to look (sw_store d) benK)"
    and ben: "cs_beneficiary (sw_chequeStore k) = benK"
    and sol: "solvent C' c' (cb_address (sw_chequebook d)) issuer benK (issued_to look (sw_store d') benK)"
  shows "\<exists>k'. swap_handler C' rec S' A hx json (Inr msg) (headler S' oK peerD k) peerD c' k =
      (map_option AccErr (fst (NotifyPaymentReceived A peerD amount (sw_accounting k))), k') \<and>
    sw_accounting k' = snd (NotifyPaymentReceived A peerD amount (sw_accounting k)) \<and>
    received look' (sw_store k') (cb_address (sw_chequebook d)) = issued_to look (sw_store d') benK"
proof -
  obtain ded where ded: "headler S' oK peerD k = MakeSettlementHeaders rate ded" "ded \<in> {0, dd}"
    using reliable_cheques.headler_made [OF creditor rates(1)] by blast
  then have nn: "0 \<le> ded" using rates(3) by auto
  have rh: "settlement_rates h = Inr (rate, ded)"
    using h ded(1) rates(2) nn by (intro settlement_rates_transported) simp_all
  obtain q m where q: "encode q = Inr m" "[m] = [msg]"
    "cq_CumulativePayout q = issued_to look (sw_store d) benK + (amount * rate + ded)" "cq_Beneficiary q = benK"
    "cq_Chequebook q = cb_address (sw_chequebook d)" "sign (cheque_of q) = Inr (cq_Signature q)"
    "issued_to look (sw_store d') benK = cq_CumulativePayout q"
    using cheque_store.EmitCheque_ok [OF debtor emit rh] by auto
  have rec: "received look' (sw_store k) (cq_Chequebook q) = issued_to look (sw_store d) benK"
    using ready by (simp add: creditor_ready_def q(5))
  have pos: "0 < amount * rate" "rate \<le> amount * rate" using amount rates(2) by (simp_all add: mult_le_cancel_right1)
  have "chain_checks C' rec (sw_chequeStore k) q c' = None"
    using solvent_checks [of C' c' q issuer "sw_chequeStore k" rec] sol signed q ben by simp
  then obtain st' where "cs_ReceiveCheque C' rec S' (sw_chequeStore k) q rate ded c' (sw_store k) =
      (Inr (cq_CumulativePayout q - received look' (sw_store k) (cq_Chequebook q)), st')"
    using reliable_cheques.receive_good [OF creditor, of q "sw_chequeStore k" C' rec c' "sw_store k" rate ded] q ben rec pos nn ready
    by (auto simp: creditor_ready_def split: option.splits)
  then have r: "cs_ReceiveCheque C' rec S' (sw_chequeStore k) q rate ded c' (sw_store k) = (Inr (amount * rate + ded), st')"
    using q(3) rec by simp
  have st: "\<And>v. look' (sw_store k) (peerKey peerD) = Some v \<Longrightarrow> v = VEth (cq_Chequebook q)"
    using ready by (auto simp: creditor_ready_def q(5))
  have "swap_handler C' rec S' A hx json (Inr msg) (headler S' oK peerD k) peerD c' k =
      sw_ReceiveCheque C' rec S' A hx peerD (Some q) rate ded c' k"
    using json q(1,2) settlement_rates_made [of rate ded] rates(2) nn ded(1) by (simp add: swap_handler_def)
  with reliable_cheques.receive_credits [OF creditor st r rates(2), where A = A and hx = hx] q(5,7) show ?thesis by auto
qed

definition demo_swap :: "(swap_value mem, int mem) Swap" where
  "demo_swap = New_Swap [] (New_chequebook [2] [3] [4]) demo_cs ex_acc"

definition demo_oracle :: priceoracle where
  "demo_oracle = \<lparr>po_address = [], po_exchangeRate = 2, po_deduction = Some 3\<rparr>"

definition demo_encode :: "SignedCheque \<Rightarrow> string + bytes" where
  "demo_encode q = (if q = demo_cheque 13 then Inr [1] else Inl ''no'')"

lemma demo_headler: "headler InMem demo_oracle p demo_swap = MakeSettlementHeaders 2 3"
  by (simp add: headler_def CurrentRates_def demo_oracle_def GetDeductionForPeer_def GetDeductionFor_def has_mark_def
      demo_swap_def New_Swap_def mem_defs)

lemma demo_emit:
  "\<exists>d'. EmitCheque demo_chain (\<lambda>q. Inr []) InMem demo_oracle demo_encode (\<lambda>m w. (None, w @ [m])) (Inr (headler InMem demo_oracle ex_peer demo_swap))
     [8] [9] 5 100 demo_swap [] = (Inr 87, d', [[1]])"
  unfolding demo_headler
  by (simp add: EmitCheque_def settlement_rates_made GetDeductionByPeer_def GetDeductionBy_def has_mark_def CurrentRates_def
      demo_oracle_def demo_swap_def New_Swap_def mem_defs Issue_def reserveTotalIssued_def AvailableBalance_def totalIssued_def
      get_amount_def issue_reserved_def next_cheque_def cb_LastCheque_def get_cheque_def save_cheque_def count_issued_def
      unreserveTotalIssued_def New_chequebook_def send_cheque_def demo_encode_def demo_cheque_def AddDeductionByPeer_def on_store_def
      AddDeductionBy_def put_value_def issued_not_total [symmetric])

theorem swap_payment_exact_witness:
  "\<exists>k'. swap_handler demo_chain (\<lambda>q i. Inr [2]) InMem InMem (\<lambda>a. []) (\<lambda>m. Inr (Some (demo_cheque 13))) (Inr [1])
      (headler InMem demo_oracle ex_peer demo_swap) ex_peer 100 demo_swap =
      (map_option AccErr (fst (NotifyPaymentReceived InMem ex_peer 5 (sw_accounting demo_swap))), k') \<and>
    sw_accounting k' = snd (NotifyPaymentReceived InMem ex_peer 5 (sw_accounting demo_swap)) \<and>
    received map_of (sw_store k') [2] = 13"
proof -
  obtain d' where e: "EmitCheque demo_chain (\<lambda>q. Inr []) InMem demo_oracle demo_encode (\<lambda>m w. (None, w @ [m]))
     (Inr (headler InMem demo_oracle ex_peer demo_swap)) [8] [9] 5 100 demo_swap [] = (Inr 87, d', [[1]])"
    using demo_emit by blast
  have rates: "settlement_rates (headler InMem demo_oracle ex_peer demo_swap) = Inr (2, 3)"
    by (simp add: demo_headler settlement_rates_made)
  obtain q where q: "demo_encode q = Inr [1]" "issued_to map_of (sw_store d') [9] = cq_CumulativePayout q"
    using inmem_cheques.EmitCheque_ok [OF e rates] by auto
  then have issued: "issued_to map_of (sw_store d') [9] = 13" by (simp add: demo_encode_def split: if_splits)
  have i0: "issued_to map_of (sw_store demo_swap) [9] = 0" by (simp add: issued_to_def demo_swap_def New_Swap_def)
  have "\<exists>k'. swap_handler demo_chain (\<lambda>q i. Inr [2]) InMem InMem (\<lambda>a. []) (\<lambda>m. Inr (Some (demo_cheque 13))) (Inr [1])
      (headler InMem demo_oracle ex_peer demo_swap) ex_peer 100 demo_swap =
      (map_option AccErr (fst (NotifyPaymentReceived InMem ex_peer 5 (sw_accounting demo_swap))), k') \<and>
    sw_accounting k' = snd (NotifyPaymentReceived InMem ex_peer 5 (sw_accounting demo_swap)) \<and>
    received map_of (sw_store k') (cb_address (sw_chequebook demo_swap)) = issued_to map_of (sw_store d') [9]"
    by (rule swap_payment_exact [where rate = 2 and dd = 3 and issuer = "[2]",
          OF inmem_cheques.cheque_store_axioms inmem_reliable_cheques.reliable_cheques_axioms _ _ _ _ e])
      (use i0 in \<open>simp_all add: CurrentRates_def demo_oracle_def transported_def demo_encode_def demo_swap_def New_Swap_def
        New_chequebook_def creditor_ready_def solvent_def issued received_def demo_cs_def NewChequeStore_def\<close>)
  then show ?thesis by (simp add: issued) (simp add: demo_swap_def New_Swap_def New_chequebook_def)
qed

section \<open>The address book\<close>

text \<open>Beneficiaries and peers are mapped to each other one to one, and the beneficiary of a peer is the one its
  identity \<open>eth\<close> proves.\<close>

definition book_ok :: "('s \<Rightarrow> string \<Rightarrow> swap_value option) \<Rightarrow> hexer \<Rightarrow> (Address \<Rightarrow> EthAddress) \<Rightarrow> 's \<Rightarrow> bool" where
  "book_ok look hx eth st \<longleftrightarrow>
     (\<forall>p v. look st (peerBeneficiaryKey p) = Some v \<longrightarrow> v = VEth (eth p) \<and> look st (beneficiaryPeerKey hx (eth p)) = Some (VPeer p)) \<and>
     (\<forall>b v. look st (beneficiaryPeerKey hx b) = Some v \<longrightarrow> (\<exists>p. v = VPeer p \<and> look st (peerBeneficiaryKey p) = Some (VEth b)))"

lemma book_beneficiary: "book_ok look hx eth st \<Longrightarrow> look st (peerBeneficiaryKey p) = Some v \<Longrightarrow> v = VEth (eth p)"
  by (simp add: book_ok_def)

lemma book_inverse:
  "book_ok look hx eth st \<Longrightarrow> look st (peerBeneficiaryKey p) = Some v \<Longrightarrow> look st (beneficiaryPeerKey hx (eth p)) = Some (VPeer p)"
  by (simp add: book_ok_def)

lemma book_peer:
  "book_ok look hx eth st \<Longrightarrow> look st (beneficiaryPeerKey hx b) = Some v \<Longrightarrow>
   \<exists>p. v = VPeer p \<and> look st (peerBeneficiaryKey p) = Some (VEth b)"
  by (simp add: book_ok_def)

lemma and_then_None: "and_then r f = (None, st') \<longleftrightarrow> (\<exists>st. r = (None, st) \<and> f st = (None, st'))"
  by (auto simp: and_then_def split: prod.splits option.splits)

lemma addr_Equal_iff: "addr_Equal a b \<longleftrightarrow> a = b"
  by (simp add: addr_Equal_def)

context cheque_store
begin

lemma put_value_ok: "put_value S k v st = (None, st') \<Longrightarrow> look st' = (look st)(k \<mapsto> v)"
  by (auto simp: put_value_def split: sum.splits dest: put_look)

lemma del_value_ok: "del_value S k st = (None, st') \<Longrightarrow> look st' = (look st)(k := None)"
  by (auto simp: del_value_def split: sum.splits dest: delete_look)

lemma PutBeneficiary_ok:
  "PutBeneficiary S hx peer b st = (None, st') \<Longrightarrow>
   look st' = (look st)(peerBeneficiaryKey peer \<mapsto> VEth b, beneficiaryPeerKey hx b \<mapsto> VPeer peer)"
  by (auto simp: PutBeneficiary_def and_then_None dest!: put_value_ok)

lemma PutChequebook_ok:
  "PutChequebook S hx peer cb st = (None, st') \<Longrightarrow>
   look st' = (look st)(peerKey peer \<mapsto> VEth cb, chequebookPeerKey hx cb \<mapsto> VPeer peer)"
  by (auto simp: PutChequebook_def and_then_None dest!: put_value_ok)

lemma Beneficiary_ok: "Beneficiary S peer st = Inr x \<Longrightarrow> look st (peerBeneficiaryKey peer) = map_option VEth x"
  by (auto simp: Beneficiary_def known_def get_eth_def wrong_type_def split: sum.splits store_error.splits swap_value.splits dest!: get_some get_none)

lemma BeneficiaryPeer_ok: "BeneficiaryPeer S hx b st = Inr x \<Longrightarrow> look st (beneficiaryPeerKey hx b) = map_option VPeer x"
  by (auto simp: BeneficiaryPeer_def known_def get_peer_def wrong_type_def split: sum.splits store_error.splits swap_value.splits dest!: get_some get_none)

text \<open>Migration: the beneficiary moves to the new peer, the chequebook keys do not interfere.\<close>

lemma MigratePeer_ok:
  assumes "MigratePeer S hx old peer st = (None, st')"
  shows "\<exists>b. look st (peerBeneficiaryKey old) = Some (VEth b) \<and>
    (\<forall>p. look st' (peerBeneficiaryKey p) =
       ((look st)(peerBeneficiaryKey peer \<mapsto> VEth b, peerBeneficiaryKey old := None)) (peerBeneficiaryKey p)) \<and>
    (\<forall>x. look st' (beneficiaryPeerKey hx x) = (if hx x = hx b then Some (VPeer peer) else look st (beneficiaryPeerKey hx x)))"
proof -
  obtain b cb where b: "Beneficiary S old st = Inr (Some b)" and cb: "Chequebook S old st = Inr cb"
    using assms by (auto simp: MigratePeer_def split: sum.splits option.splits)
  obtain st1 st2 where st1: "PutBeneficiary S hx peer b st = (None, st1)" and st2: "del_value S (peerBeneficiaryKey old) st1 = (None, st2)"
    and rest: "(case cb of None \<Rightarrow> (None, st2) | Some cb \<Rightarrow> and_then (PutChequebook S hx peer cb st2) (del_value S (peerKey old))) = (None, st')"
    using assms b cb by (auto simp: MigratePeer_def and_then_None)
  have l2: "look st2 = (look st)(peerBeneficiaryKey peer \<mapsto> VEth b, beneficiaryPeerKey hx b \<mapsto> VPeer peer, peerBeneficiaryKey old := None)"
    using PutBeneficiary_ok [OF st1] del_value_ok [OF st2] by simp
  have same: "look st' k = look st2 k" if "k \<noteq> peerKey peer" "k \<noteq> peerKey old" "\<And>c. k \<noteq> chequebookPeerKey hx c" for k
  proof (cases cb)
    case (Some a)
    then obtain st3 where "PutChequebook S hx peer a st2 = (None, st3)" "del_value S (peerKey old) st3 = (None, st')"
      using rest by (auto simp: and_then_None)
    then show ?thesis using that by (simp add: PutChequebook_ok del_value_ok)
  qed (use rest in simp)
  have "look st' (peerBeneficiaryKey p) = look st2 (peerBeneficiaryKey p)" "look st' (beneficiaryPeerKey hx x) = look st2 (beneficiaryPeerKey hx x)"
    for p x by (rule same; simp)+
  then show ?thesis using Beneficiary_ok [OF b]
    by (intro exI [of _ b]) (auto simp: l2 swap_keys_distinct(6) [symmetric])
qed

lemma handshake_book:
  assumes inj: "inj hx" and ok: "book_ok look hx eth st" and r: "Handshake S hx peer (eth peer) st = (None, st')"
  shows "book_ok look hx eth st' \<and> look st' (peerBeneficiaryKey peer) = Some (VEth (eth peer)) \<and>
    (\<forall>b. b \<noteq> eth peer \<longrightarrow> look st' (beneficiaryPeerKey hx b) = look st (beneficiaryPeerKey hx b))"
proof -
  have hx: "hx a = hx b \<longleftrightarrow> a = b" for a b using inj by (auto dest: injD)
  obtain old where o': "BeneficiaryPeer S hx (eth peer) st = Inr old" using r by (auto simp: Handshake_def split: sum.splits)
  have ow: "look st (beneficiaryPeerKey hx (eth peer)) = map_option VPeer old" by (rule BeneficiaryPeer_ok [OF o'])
  show ?thesis
  proof (cases "\<exists>p. old = Some p \<and> p \<noteq> peer")
    case True
    then obtain p where p: "old = Some p" "p \<noteq> peer" by blast
    then have m: "MigratePeer S hx p peer st = (None, st')" using r o' by (auto simp: Handshake_def addr_Equal_iff)
    obtain b where b: "look st (peerBeneficiaryKey p) = Some (VEth b)"
      "\<And>x. look st' (peerBeneficiaryKey x) = ((look st)(peerBeneficiaryKey peer \<mapsto> VEth b, peerBeneficiaryKey p := None)) (peerBeneficiaryKey x)"
      "\<And>x. look st' (beneficiaryPeerKey hx x) = (if x = b then Some (VPeer peer) else look st (beneficiaryPeerKey hx x))"
      using MigratePeer_ok [OF m] hx by auto
    have bp: "look st (beneficiaryPeerKey hx (eth peer)) = Some (VPeer p)" using ow p(1) by simp
    have eth: "b = eth peer" "eth p = eth peer"
      using book_peer [OF ok bp] book_beneficiary [OF ok b(1)] b(1) by auto
    have uniq: "x = p" if "look st (peerBeneficiaryKey x) = Some v" "eth x = eth peer" for x v
      using book_inverse [OF ok that(1)] that(2) bp by simp
    have "book_ok look hx eth st'" unfolding book_ok_def
    proof (intro conjI allI impI)
      fix x v assume x: "look st' (peerBeneficiaryKey x) = Some v"
      then have xp: "x \<noteq> p" using b(2) [of x] by auto
      show "v = VEth (eth x)" using x xp b(2) [of x] eth(1) book_beneficiary [OF ok, of x v] by (cases "x = peer") auto
      show "look st' (beneficiaryPeerKey hx (eth x)) = Some (VPeer x)"
        using x xp b(2) [of x] b(3) [of "eth x"] eth(1) book_inverse [OF ok, of x v] uniq [of x v] by (cases "x = peer") auto
    next
      fix x v assume x: "look st' (beneficiaryPeerKey hx x) = Some v"
      show "\<exists>q. v = VPeer q \<and> look st' (peerBeneficiaryKey q) = Some (VEth x)"
      proof (cases "x = b")
        case True
        then show ?thesis using x b(2) [of peer] b(3) [of x] p(2) by auto
      next
        case False
        then have lx: "look st (beneficiaryPeerKey hx x) = Some v" using x b(3) [of x] by simp
        then obtain q where q: "v = VPeer q" "look st (peerBeneficiaryKey q) = Some (VEth x)" using book_peer [OF ok] by blast
        have "q \<noteq> p" using q(2) b(1) False by auto
        moreover have "q \<noteq> peer" using book_beneficiary [OF ok q(2)] False eth(1) by auto
        ultimately show ?thesis using q b(2) [of q] by simp
      qed
    qed
    then show ?thesis using b(2,3) eth(1) p(2) by simp
  next
    case False
    then have old: "old = None \<or> old = Some peer" by (cases old) auto
    show ?thesis
    proof (cases "look st (peerBeneficiaryKey peer)")
      case None
      have "old = None" using old ow None book_peer [OF ok, of "eth peer" "VPeer peer"] by auto
      have "Beneficiary S peer st = Inr None"
        using r o' \<open>old = None\<close> None Beneficiary_ok [of peer st] by (auto simp: Handshake_def split: sum.splits option.splits)
      then have "PutBeneficiary S hx peer (eth peer) st = (None, st')" using r o' \<open>old = None\<close> by (simp add: Handshake_def)
      note l = PutBeneficiary_ok [OF this]
      have none: "look st (beneficiaryPeerKey hx (eth peer)) = None" using ow \<open>old = None\<close> by simp
      have lp: "look st' (peerBeneficiaryKey x) = (if x = peer then Some (VEth (eth peer)) else look st (peerBeneficiaryKey x))" for x
        by (simp add: l)
      have lb: "look st' (beneficiaryPeerKey hx x) = (if x = eth peer then Some (VPeer peer) else look st (beneficiaryPeerKey hx x))" for x
        by (simp add: l hx swap_keys_distinct(6) [symmetric])
      have "book_ok look hx eth st'" unfolding book_ok_def
      proof (intro conjI allI impI)
        fix x v assume "look st' (peerBeneficiaryKey x) = Some v"
        then show "v = VEth (eth x)" "look st' (beneficiaryPeerKey hx (eth x)) = Some (VPeer x)"
          using lp [of x] lb [of "eth x"] book_beneficiary [OF ok, of x v] book_inverse [OF ok, of x v] none by (cases "x = peer"; auto)+
      next
        fix x v assume "look st' (beneficiaryPeerKey hx x) = Some v"
        then have "x \<noteq> eth peer \<Longrightarrow> look st (beneficiaryPeerKey hx x) = Some v" and "x = eth peer \<Longrightarrow> v = VPeer peer"
          using lb [of x] by auto
        then show "\<exists>q. v = VPeer q \<and> look st' (peerBeneficiaryKey q) = Some (VEth x)"
          using lp None book_peer [OF ok, of x v] by (cases "x = eth peer") (metis option.distinct(1))+
      qed
      then show ?thesis by (simp add: l hx swap_keys_distinct(6) [symmetric])
    next
      case (Some v)
      then have v: "v = VEth (eth peer)" using ok by (auto simp: book_ok_def)
      obtain z where "Beneficiary S peer st = Inr (Some z)"
        using r o' old Some Beneficiary_ok [of peer st] by (auto simp: Handshake_def addr_Equal_iff split: sum.splits option.splits if_splits)
      then have "st' = st" using r o' old by (auto simp: Handshake_def addr_Equal_iff split: option.splits)
      with Some v ok show ?thesis by simp
    qed
  qed
qed

end

text \<open>C22. The handshake keeps the address book one to one. When a beneficiary is named by one peer and one peer by a
  beneficiary, and the identity \<open>eth\<close> that the connection proves of a peer is what is recorded, then a handshake that
  returns without an error records the peer under its own identity, takes the identity away from the overlay that had it
  before (a migration), leaves every other identity alone and keeps the book one to one.\<close>

theorem handshake_one_to_one:
  assumes "cheque_store S look" and "inj hx" and "book_ok look hx eth st"
    and "Handshake S hx peer (eth peer) st = (None, st')"
  shows "book_ok look hx eth st' \<and> look st' (peerBeneficiaryKey peer) = Some (VEth (eth peer)) \<and>
    (\<forall>b. b \<noteq> eth peer \<longrightarrow> look st' (beneficiaryPeerKey hx b) = look st (beneficiaryPeerKey hx b))"
  using cheque_store.handshake_book [OF assms] .

definition demo_hex :: hexer where
  "demo_hex = map (\<lambda>b. char_of (unat b))"

lemma inj_demo_hex: "inj demo_hex"
proof -
  have "inj (\<lambda>b::8 word. char_of (unat b) :: char)"
  proof (rule injI)
    fix a b :: "8 word" assume "(char_of (unat a) :: char) = char_of (unat b)"
    then have "unat a mod 256 = unat b mod 256" by (metis of_char_of)
    moreover have "unat a < 256" "unat b < 256" using unsigned_less [of a] unsigned_less [of b] by simp_all
    ultimately show "a = b" by (simp add: unsigned_word_eqI)
  qed
  then show ?thesis unfolding demo_hex_def by (rule inj_mapI)
qed

definition demo_book :: "swap_value mem" where
  "demo_book = snd (Handshake InMem demo_hex [1] [7] [])"

text \<open>The overlay \<open>[2]\<close> proves the identity that \<open>[1]\<close> had: the beneficiary moves.\<close>

theorem handshake_one_to_one_witness:
  "\<exists>st'. Handshake InMem demo_hex [2] [7] demo_book = (None, st') \<and>
    book_ok map_of demo_hex (\<lambda>p. [7]) st' \<and> map_of st' (peerBeneficiaryKey [1]) = None \<and>
    map_of st' (peerBeneficiaryKey [2]) = Some (VEth [7])"
proof -
  have book: "demo_book = [(beneficiaryPeerKey demo_hex [7], VPeer [1]), (peerBeneficiaryKey [1], VEth [7])]"
    by (simp add: demo_book_def Handshake_def BeneficiaryPeer_def Beneficiary_def known_def get_eth_def get_peer_def mem_defs
        PutBeneficiary_def put_value_def and_then_def)
  have hex: "demo_hex a = demo_hex b \<longleftrightarrow> a = b" for a b using inj_demo_hex by (auto dest: injD)
  have ok: "book_ok map_of demo_hex (\<lambda>p. [7]) demo_book"
    by (auto simp: book_ok_def book hex swap_keys_distinct(6) [symmetric] split: if_splits)
  obtain st' where r: "Handshake InMem demo_hex [2] [7] demo_book = (None, st')" "map_of st' (peerBeneficiaryKey [1]) = None"
    by (simp add: book Handshake_def BeneficiaryPeer_def Beneficiary_def Chequebook_def MigratePeer_def known_def get_eth_def get_peer_def
        mem_defs PutBeneficiary_def put_value_def del_value_def and_then_def addr_Equal_iff swap_keys_distinct(6,8,9) [symmetric])
  show ?thesis
    using handshake_one_to_one [OF inmem_cheques.cheque_store_axioms inj_demo_hex ok, of "[2]" st'] r by auto
qed

text \<open>A cheque message whose JSON text is \<open>null\<close> decodes to a nil pointer, which the handler passes on: the node
  panics, whatever the state of the peer, and nothing recovers a panic of a protocol handler.\<close>

theorem null_cheque_panics:
  assumes "json msg = Inr None" and "settlement_rates h = Inr (rate, ded)" and "Chequebook S p (sw_store s) = Inr known_book"
  shows "swap_handler C rec S A hx json (Inr msg) h p c s = (Some Panic, s)"
  using assms by (simp add: swap_handler_def sw_ReceiveCheque_def)

theorem null_cheque_panics_witness:
  "swap_handler demo_chain demo_rec InMem InMem demo_hex (\<lambda>m. if m = [110, 117, 108, 108] then Inr None else Inr (Some (demo_cheque 5)))
     (Inr [110, 117, 108, 108]) (MakeSettlementHeaders 2 3) ex_peer 100 demo_swap = (Some Panic, demo_swap)"
  by (rule null_cheque_panics [where known_book = None and rate = 2 and ded = 3])
    (simp_all add: settlement_rates_made demo_swap_def New_Swap_def Chequebook_def known_def get_eth_def mem_defs)

end
