(* ===== verification/Encryption.thy ===== *)
theory Encryption
  imports Swarm
begin

text \<open>
  \<open>pkg/encryption\<close>: the stream cipher that encrypts a chunk (\<open>encryption.go\<close>), the encryption of the span and the
  data of a chunk under one random key (\<open>chunk_encryption.go\<close>) and the store that decrypts what it reads
  (\<open>store/decrypt_store.go\<close>). The hash (Keccak-256) is the parameter \<open>kec\<close>, and \<open>rnd n s\<close> draws \<open>n\<close> random bytes from
  the state. Decryption inverts encryption, and the store finds the length of the data from the span.
\<close>

section \<open>Little-endian integers\<close>

definition le_bytes :: "nat \<Rightarrow> nat \<Rightarrow> bytes" where
  "le_bytes n x = rev (be_bytes n x)"

definition le_val :: "bytes \<Rightarrow> nat" where
  "le_val bs = be_val (rev bs)"

lemma length_le_bytes [simp]: "length (le_bytes n x) = n"
  by (simp add: le_bytes_def)

lemma le_val_le_bytes [simp]: "x < 256 ^ n \<Longrightarrow> le_val (le_bytes n x) = x"
  by (simp add: le_val_def le_bytes_def)

lemma le_val_less: "le_val bs < 256 ^ length bs"
  using be_val_less [of "rev bs"] by (simp add: le_val_def)

section \<open>The cipher\<close>

definition KeyLength :: nat where "KeyLength = 32"
definition ReferenceSize :: nat where "ReferenceSize = 64"

record Encryption =
  en_key :: bytes
  en_keyLen :: nat
  en_padding :: nat
  en_index :: nat
  en_initCtr :: u32

datatype crypt_error = DataTooLong | DataNotPadded | CryptPanic

definition New_Encryption :: "bytes \<Rightarrow> nat \<Rightarrow> u32 \<Rightarrow> Encryption" where
  "New_Encryption key padding initCtr =
     \<lparr>en_key = key, en_keyLen = length key, en_padding = padding, en_index = 0, en_initCtr = initCtr\<rparr>"

text \<open>The key of the \<open>i\<close>-th segment; the counter is a 32-bit integer that wraps.\<close>

definition segmentKey :: "(bytes \<Rightarrow> bytes) \<Rightarrow> Encryption \<Rightarrow> nat \<Rightarrow> bytes" where
  "segmentKey kec e i = kec (kec (en_key e @ le_bytes 4 (unat (word_of_nat i + en_initCtr e))))"

definition Transcrypt :: "(bytes \<Rightarrow> bytes) \<Rightarrow> Encryption \<Rightarrow> nat \<Rightarrow> bytes \<Rightarrow> crypt_error + bytes" where
  "Transcrypt kec e i inp =
     (let key = segmentKey kec e i in
      if length key < length inp then Inl CryptPanic else Inr (map2 (XOR) inp key))"

text \<open>The loop over the segments. With an empty key the source never gets past the first segment.\<close>

function transform_loop :: "(bytes \<Rightarrow> bytes) \<Rightarrow> Encryption \<Rightarrow> bytes \<Rightarrow> crypt_error + bytes" where
  "transform_loop kec e inp =
     (if inp = [] \<or> en_keyLen e = 0 then Inr []
      else
       (case Transcrypt kec e (en_index e) (take (en_keyLen e) inp) of
          Inl err \<Rightarrow> Inl err
        | Inr out \<Rightarrow>
           (case transform_loop kec (e\<lparr>en_index := en_index e + 1\<rparr>) (drop (en_keyLen e) inp) of
              Inl err \<Rightarrow> Inl err
            | Inr rest \<Rightarrow> Inr (out @ rest))))"
  by pat_completeness auto
termination
  by (relation "measure (\<lambda>(kec, e, inp). length inp)") auto

declare transform_loop.simps [simp del]

definition transform ::
  "(bytes \<Rightarrow> bytes) \<Rightarrow> (nat \<Rightarrow> 's \<Rightarrow> bytes \<times> 's) \<Rightarrow> Encryption \<Rightarrow> bytes \<Rightarrow> nat \<Rightarrow> 's \<Rightarrow> (crypt_error + bytes) \<times> 's" where
  "transform kec rnd e inp outLength s =
     (case transform_loop kec e inp of
        Inl err \<Rightarrow> (Inl err, s)
      | Inr out \<Rightarrow> (case rnd (outLength - length inp) s of (padding, s1) \<Rightarrow> (Inr (out @ padding), s1)))"

definition Encrypt ::
  "(bytes \<Rightarrow> bytes) \<Rightarrow> (nat \<Rightarrow> 's \<Rightarrow> bytes \<times> 's) \<Rightarrow> Encryption \<Rightarrow> bytes \<Rightarrow> 's \<Rightarrow> (crypt_error + bytes) \<times> 's" where
  "Encrypt kec rnd e data s =
     (if 0 < en_padding e
      then (if en_padding e < length data then (Inl DataTooLong, s) else transform kec rnd e data (en_padding e) s)
      else transform kec rnd e data (length data) s)"

definition Decrypt :: "(bytes \<Rightarrow> bytes) \<Rightarrow> Encryption \<Rightarrow> bytes \<Rightarrow> crypt_error + bytes" where
  "Decrypt kec e data =
     (if 0 < en_padding e \<and> length data \<noteq> en_padding e then Inl DataNotPadded else transform_loop kec e data)"

text \<open>The object that a call leaves behind: its counter has moved on by the number of segments. \<open>Reset\<close> sets it back.
  The chunk encrypter below makes a new object for every call.\<close>

definition advance :: "nat \<Rightarrow> Encryption \<Rightarrow> Encryption" where
  "advance len e = e\<lparr>en_index := en_index e + (len + en_keyLen e - 1) div en_keyLen e\<rparr>"

definition Encryption_Reset :: "Encryption \<Rightarrow> Encryption" where
  "Encryption_Reset e = e\<lparr>en_index := 0\<rparr>"

definition Encrypt_call ::
  "(bytes \<Rightarrow> bytes) \<Rightarrow> (nat \<Rightarrow> 's \<Rightarrow> bytes \<times> 's) \<Rightarrow> Encryption \<Rightarrow> bytes \<Rightarrow> 's \<Rightarrow> (crypt_error + bytes) \<times> Encryption \<times> 's" where
  "Encrypt_call kec rnd e data s =
     (case Encrypt kec rnd e data s of
        (Inl err, s1) \<Rightarrow> (Inl err, e, s1) | (Inr out, s1) \<Rightarrow> (Inr out, advance (length data) e, s1))"

definition Decrypt_call :: "(bytes \<Rightarrow> bytes) \<Rightarrow> Encryption \<Rightarrow> bytes \<Rightarrow> (crypt_error + bytes) \<times> Encryption" where
  "Decrypt_call kec e data =
     (case Decrypt kec e data of Inl err \<Rightarrow> (Inl err, e) | Inr out \<Rightarrow> (Inr out, advance (length data) e))"

text \<open>The next call goes on where the last one ended: whole segments and what follows them are encrypted as one text.\<close>

lemma transform_loop_continues:
  assumes "0 < en_keyLen e" and "length a = n * en_keyLen e"
  shows "transform_loop kec e (a @ b) =
    (case transform_loop kec e a of
       Inl err \<Rightarrow> Inl err
     | Inr x \<Rightarrow> (case transform_loop kec (advance (length a) e) b of Inl err \<Rightarrow> Inl err | Inr y \<Rightarrow> Inr (x @ y)))"
  using assms
proof (induction n arbitrary: a e)
  case 0
  then have "advance (length a) e = e" by (simp add: advance_def)
  with 0 show ?case by (simp add: transform_loop.simps [of kec e "[]"] split: sum.splits)
next
  case (Suc n)
  let ?k = "en_keyLen e" and ?e = "e\<lparr>en_index := en_index e + 1\<rparr>"
  have l: "?k \<le> length a" "a \<noteq> []" "length (drop ?k a) = n * en_keyLen ?e" using Suc.prems by auto
  have "(length a + ?k - 1) div ?k = Suc ((length (drop ?k a) + ?k - 1) div ?k)"
    using Suc.prems l by (simp add: div_if)
  then have adv: "advance (length (drop ?k a)) ?e = advance (length a) e" by (simp add: advance_def)
  have "transform_loop kec ?e (drop ?k a @ b) =
      (case transform_loop kec ?e (drop ?k a) of
         Inl err \<Rightarrow> Inl err
       | Inr x \<Rightarrow> (case transform_loop kec (advance (length a) e) b of Inl err \<Rightarrow> Inl err | Inr y \<Rightarrow> Inr (x @ y)))"
    by (rule Suc.IH [of ?e "drop ?k a", unfolded adv]) (use Suc.prems(1) l(3) in simp_all)
  then show ?case using Suc.prems(1) l(1,2)
    by (simp add: transform_loop.simps [of kec e a] transform_loop.simps [of kec e "a @ b"] split: sum.splits)
qed

lemma Reset_advance [simp]: "Encryption_Reset (advance len e) = Encryption_Reset e"
  by (simp add: Encryption_Reset_def advance_def)

section \<open>Chunks\<close>

definition newSpanEncryption :: "bytes \<Rightarrow> Encryption" where
  "newSpanEncryption key = New_Encryption key 0 (word_of_nat (ChunkSize div (HashSize + KeyLength)))"

definition newDataEncryption :: "bytes \<Rightarrow> Encryption" where
  "newDataEncryption key = New_Encryption key ChunkSize 0"

definition EncryptChunk ::
  "(bytes \<Rightarrow> bytes) \<Rightarrow> (nat \<Rightarrow> 's \<Rightarrow> bytes \<times> 's) \<Rightarrow> bytes \<Rightarrow> 's \<Rightarrow> (crypt_error + bytes \<times> bytes \<times> bytes) \<times> 's" where
  "EncryptChunk kec rnd chunkData s =
     (case rnd KeyLength s of
        (key, s1) \<Rightarrow>
         if length chunkData < 8 then (Inl CryptPanic, s1)
         else
          (case Encrypt kec rnd (newSpanEncryption key) (take 8 chunkData) s1 of
             (Inl e, s2) \<Rightarrow> (Inl e, s2)
           | (Inr encryptedSpan, s2) \<Rightarrow>
              (case Encrypt kec rnd (newDataEncryption key) (drop 8 chunkData) s2 of
                 (Inl e, s3) \<Rightarrow> (Inl e, s3)
               | (Inr encryptedData, s3) \<Rightarrow> (Inr (key, encryptedSpan, encryptedData), s3))))"

definition decrypt :: "(bytes \<Rightarrow> bytes) \<Rightarrow> bytes \<Rightarrow> bytes \<Rightarrow> crypt_error + bytes \<times> bytes" where
  "decrypt kec chunkData key =
     (if length chunkData < SpanSize then Inl CryptPanic
      else
       (case Decrypt kec (newSpanEncryption key) (take SpanSize chunkData) of
          Inl e \<Rightarrow> Inl e
        | Inr decryptedSpan \<Rightarrow>
           (case Decrypt kec (newDataEncryption key) (drop SpanSize chunkData) of
              Inl e \<Rightarrow> Inl e
            | Inr decryptedData \<Rightarrow> Inr (decryptedSpan, decryptedData))))"

lemma data_length_step: "4096 < len \<Longrightarrow> unat ((len + 4095) div 4096 * 64 :: u64) < unat len"
proof -
  assume len: "4096 < len"
  let ?q = "(len + 4095) div 4096"
  have q: "unat ?q = unat (len + 4095) div 4096" by (simp add: unat_div)
  have c: "unat (4095 :: u64) = 4095" "unat (64 :: u64) = 64" by simp_all
  have m: "unat (len + 4095) \<le> unat len + 4095"
    using unat_word_ariths(1) [of len 4095] by (simp add: c del: unat_plus_simple)
  have l: "4096 < unat len" using len by (simp add: word_less_nat_alt)
  have "unat ?q * 64 \<le> (unat len + 4095) div 4096 * 64" using q m by (simp add: div_le_mono)
  also have "\<dots> < unat len" using l by linarith
  finally have "unat ?q * 64 < unat len" .
  moreover have "unat (?q * 64) \<le> unat ?q * 64"
    unfolding unat_word_ariths(2) c by (rule mod_less_eq_dividend)
  ultimately show ?thesis by simp
qed

text \<open>The loop that finds how much of a padded chunk is data, on 64-bit unsigned integers.\<close>

function data_length :: "u64 \<Rightarrow> u64" where
  "data_length len =
     (if 4096 < len then data_length ((len + 4095) div 4096 * 64) else len)"
  by pat_completeness auto
termination
  by (relation "measure unat") (simp_all add: data_length_step)

declare data_length.simps [simp del]

definition decryptChunkData :: "(bytes \<Rightarrow> bytes) \<Rightarrow> bytes \<Rightarrow> bytes \<Rightarrow> crypt_error + bytes" where
  "decryptChunkData kec chunkData encryptionKey =
     (case decrypt kec chunkData encryptionKey of
        Inl e \<Rightarrow> Inl e
      | Inr (decryptedSpan, decryptedData) \<Rightarrow>
         (if length decryptedSpan < 8 then Inl CryptPanic
          else
           let len = unat (data_length (word_of_nat (le_val (take 8 decryptedSpan)))) in
           if length decryptedData < len then Inl CryptPanic
           else Inr (take 8 decryptedSpan @ take len decryptedData)))"

section \<open>Decryption inverts encryption\<close>

text \<open>The keys of \<open>n\<close> segments from the \<open>i\<close>-th on.\<close>

primrec keystream :: "(bytes \<Rightarrow> bytes) \<Rightarrow> Encryption \<Rightarrow> nat \<Rightarrow> nat \<Rightarrow> bytes" where
  "keystream kec e i 0 = []"
| "keystream kec e i (Suc n) = segmentKey kec e i @ keystream kec e (Suc i) n"

lemma keystream_index [simp]: "keystream kec (e\<lparr>en_index := j\<rparr>) i n = keystream kec e i n"
  by (induction n arbitrary: i) (simp_all add: segmentKey_def)

lemma xor_twice: "length xs \<le> length ks \<Longrightarrow> map2 (XOR) (map2 (XOR) xs ks) ks = (xs :: bytes)"
  by (rule nth_equalityI) (auto simp: xor.assoc)

text \<open>What the hash and the random source promise.\<close>

locale cipher =
  fixes kec :: "bytes \<Rightarrow> bytes" and rnd :: "nat \<Rightarrow> 's \<Rightarrow> bytes \<times> 's" and view :: "'s \<Rightarrow> 'v"
  assumes length_kec [simp]: "length (kec x) = 32"
    and length_rnd: "rnd n s = (bs, s') \<Longrightarrow> length bs = n"
    and rnd_view: "rnd n s = (bs, s') \<Longrightarrow> view s' = view s"
begin

lemma Transcrypt_eq:
  "length inp \<le> 32 \<Longrightarrow> Transcrypt kec e i inp = Inr (map2 (XOR) inp (segmentKey kec e i))"
  by (simp add: Transcrypt_def segmentKey_def)

lemma length_segmentKey [simp]: "length (segmentKey kec e i) = 32"
  by (simp add: segmentKey_def)

lemma length_keystream [simp]: "length (keystream kec e i n) = 32 * n"
  by (induction n arbitrary: i) simp_all

lemma transform_loop_keystream:
  "en_keyLen e = 32 \<Longrightarrow> length inp \<le> 32 * n \<Longrightarrow>
   transform_loop kec e inp = Inr (map2 (XOR) inp (keystream kec e (en_index e) n))"
proof (induction n arbitrary: e inp)
  case 0
  then show ?case by (simp add: transform_loop.simps)
next
  case (Suc n)
  show ?case
  proof (cases "inp = []")
    case True
    then show ?thesis by (simp add: transform_loop.simps)
  next
    case False
    have IH: "transform_loop kec (e\<lparr>en_index := Suc (en_index e)\<rparr>) (drop 32 inp) =
        Inr (map2 (XOR) (drop 32 inp) (keystream kec e (Suc (en_index e)) n))"
      using Suc.IH [of "e\<lparr>en_index := Suc (en_index e)\<rparr>" "drop 32 inp"] Suc.prems by simp
    have "map2 (XOR) inp (segmentKey kec e (en_index e) @ keystream kec e (Suc (en_index e)) n) =
        map2 (XOR) (take 32 inp) (segmentKey kec e (en_index e)) @ map2 (XOR) (drop 32 inp) (keystream kec e (Suc (en_index e)) n)"
      by (subst append_take_drop_id [of 32 inp, symmetric], subst zip_append2) (auto simp: take_zip drop_zip min_def)
    then show ?thesis using False Suc.prems
      by (subst transform_loop.simps) (simp add: Transcrypt_eq IH)
  qed
qed

lemma transform_ok:
  assumes "en_keyLen e = 32" and "length inp \<le> m"
  shows "\<exists>out s'. transform kec rnd e inp m s = (Inr out, s') \<and> length out = m \<and> view s' = view s \<and>
    (\<exists>dec. transform_loop kec e out = Inr dec \<and> length dec = m \<and> take (length inp) dec = inp)"
proof -
  let ?K = "keystream kec e (en_index e) m"
  obtain padding s' where p: "rnd (m - length inp) s = (padding, s')" by fastforce
  let ?out = "map2 (XOR) inp ?K @ padding"
  have len: "length ?out = m" using assms(2) length_rnd [OF p] by simp
  have t: "transform_loop kec e inp = Inr (map2 (XOR) inp ?K)" using assms by (intro transform_loop_keystream) auto
  have d: "transform_loop kec e ?out = Inr (map2 (XOR) ?out ?K)" using assms len by (intro transform_loop_keystream) auto
  let ?k = "take (length inp) ?K"
  have pre: "map2 (XOR) inp ?K = map2 (XOR) inp ?k" by (rule nth_equalityI) (use assms(2) in auto)
  have "take (length inp) (map2 (XOR) ?out ?K) = map2 (XOR) (map2 (XOR) inp ?K) ?k"
    using assms(2) by (simp add: take_map take_zip pre)
  also have "\<dots> = map2 (XOR) (map2 (XOR) inp ?k) ?k" unfolding pre ..
  also have "\<dots> = inp" using assms(2) by (intro xor_twice) simp
  finally have "take (length inp) (map2 (XOR) ?out ?K) = inp" .
  moreover have "length (map2 (XOR) ?out ?K) = m" using len by simp
  ultimately show ?thesis using len d t p rnd_view [OF p] by (auto simp: transform_def)
qed

lemma EncryptChunk_ok:
  assumes "8 \<le> length chunkData" and "length chunkData \<le> ChunkSize + 8"
  shows "\<exists>key es ed dec s'. EncryptChunk kec rnd chunkData s = (Inr (key, es, ed), s') \<and> view s' = view s \<and>
    length key = 32 \<and> length es = 8 \<and> length ed = ChunkSize \<and>
    decrypt kec (es @ ed) key = Inr (take 8 chunkData, dec) \<and> length dec = ChunkSize \<and>
    take (length chunkData - 8) dec = drop 8 chunkData"
proof -
  obtain key s1 where k: "rnd KeyLength s = (key, s1)" by fastforce
  have key: "length key = 32" using length_rnd [OF k] by (simp add: KeyLength_def)
  let ?S = "newSpanEncryption key" and ?D = "newDataEncryption key"
  have conf: "en_keyLen ?S = 32" "en_keyLen ?D = 32" "en_padding ?S = 0" "en_padding ?D = ChunkSize" "0 < ChunkSize"
    using key by (simp_all add: newSpanEncryption_def newDataEncryption_def New_Encryption_def ChunkSize_def SectionSize_def Branches_def)
  have sp: "length (take 8 chunkData) = 8" using assms(1) by simp
  obtain es s2 ds where es: "transform kec rnd ?S (take 8 chunkData) 8 s1 = (Inr es, s2)" "length es = 8" "view s2 = view s1"
    "transform_loop kec ?S es = Inr ds" "length ds = 8" "take 8 ds = take 8 chunkData"
    using transform_ok [OF conf(1), of "take 8 chunkData" 8 s1] sp by auto
  obtain ed s3 dd where ed: "transform kec rnd ?D (drop 8 chunkData) ChunkSize s2 = (Inr ed, s3)" "length ed = ChunkSize" "view s3 = view s2"
    "transform_loop kec ?D ed = Inr dd" "length dd = ChunkSize" "take (length chunkData - 8) dd = drop 8 chunkData"
    using transform_ok [OF conf(2), of "drop 8 chunkData" ChunkSize s2] assms(2) by (metis le_diff_conv length_drop)
  have "EncryptChunk kec rnd chunkData s = (Inr (key, es, ed), s3)"
    using assms sp es(1) ed(1) conf(3-5) by (simp add: EncryptChunk_def k Encrypt_def)
  moreover have "decrypt kec (es @ ed) key = Inr (take 8 chunkData, dd)"
    using es ed conf(3-5) by (simp add: decrypt_def Decrypt_def SpanSize_def)
  ultimately show ?thesis using key es ed rnd_view [OF k] by auto
qed

end

section \<open>The length of the data of a chunk\<close>

lemma data_length_small: "S \<le> 4096 \<Longrightarrow> unat (data_length (word_of_nat S)) = S"
proof -
  assume "S \<le> 4096"
  then have "unat (word_of_nat S :: u64) = S" by (simp add: unat_of_nat)
  with \<open>S \<le> 4096\<close> show ?thesis by (subst data_length.simps) (simp add: word_less_nat_alt)
qed

lemma data_length_nat:
  assumes "S < 2 ^ 63" and "4096 < S"
  shows "data_length (word_of_nat S) = data_length (word_of_nat ((S + 4095) div 4096 * 64))"
proof -
  have u: "unat (word_of_nat S :: u64) = S" "unat (word_of_nat (S + 4095) :: u64) = S + 4095"
    using assms(1) by (simp_all only: unat_of_nat) simp_all
  have "unat (word_of_nat (S + 4095) div 4096 :: u64) = (S + 4095) div 4096" by (simp only: unat_div u) simp
  moreover have "unat (word_of_nat ((S + 4095) div 4096) :: u64) = (S + 4095) div 4096"
    using assms(1) by (simp only: unat_of_nat) simp
  ultimately have q: "word_of_nat (S + 4095) div 4096 = (word_of_nat ((S + 4095) div 4096) :: u64)"
    by (simp only: word_unat_eq_iff)
  have "(word_of_nat S + 4095) div 4096 * 64 = (word_of_nat ((S + 4095) div 4096 * 64) :: u64)"
    using q by simp
  moreover have "4096 < (word_of_nat S :: u64)" using assms(2) u(1) by (simp add: word_less_nat_alt)
  ultimately show ?thesis by (subst data_length.simps) simp
qed

lemma div_ceil: "((4096::nat) * a + L + 4095) div 4096 = a + (L + 4095) div 4096"
proof -
  have "4096 * a + L + 4095 = (L + 4095) + 4096 * a" by simp
  then show ?thesis by (simp only: div_mult_self2)
qed

lemma data_length_one:
  assumes "2 \<le> n" "n \<le> 64" "0 < L" "L \<le> 4096"
  shows "unat (data_length (word_of_nat (4096 * (n - 1) + L))) = n * 64"
proof -
  obtain m where m: "n = Suc (Suc m)" using assms(1) by (metis add_2_eq_Suc le_Suc_ex)
  have "(4096 * (n - 1) + L + 4095) div 4096 = n" unfolding div_ceil using assms m by simp
  moreover have "4096 < 4096 * (n - 1) + L" "4096 * (n - 1) + L < 2 ^ 63" using assms m by simp_all
  ultimately have "data_length (word_of_nat (4096 * (n - 1) + L)) = data_length (word_of_nat (n * 64))"
    by (simp only: data_length_nat)
  then show ?thesis using assms data_length_small [of "n * 64"] by (simp only:)
qed

text \<open>A chunk with \<open>n\<close> references of 64 bytes: every reference but the last spans \<open>4096 * 64 ^ k\<close> bytes.\<close>

lemma data_length_refs:
  "2 \<le> n \<Longrightarrow> n \<le> 64 \<Longrightarrow> 0 < L \<Longrightarrow> L \<le> 4096 * B \<Longrightarrow> B = 64 ^ k \<Longrightarrow> 4096 * (B * (n - 1)) + L < 2 ^ 63 \<Longrightarrow>
   unat (data_length (word_of_nat (4096 * (B * (n - 1)) + L))) = n * 64"
proof (induction k arbitrary: L B)
  case 0
  then show ?case using data_length_one [of n L] by simp
next
  case (Suc k)
  obtain m where m: "n = Suc (Suc m)" using Suc.prems(1) by (metis add_2_eq_Suc le_Suc_ex)
  define C where "C = (64::nat) ^ k"
  define c where "c = (L + 4095) div 4096"
  let ?S = "4096 * (B * (n - 1)) + L"
  have B: "B = 64 * C" "0 < C" using Suc.prems(5) by (simp_all add: C_def)
  have c: "c \<le> B" "0 < c" using Suc.prems(3,4) by (simp_all add: c_def)
  have "4096 < ?S" using B Suc.prems(3) m by simp
  then have "data_length (word_of_nat ?S) = data_length (word_of_nat ((B * (n - 1) + c) * 64))"
    using data_length_nat [OF Suc.prems(6)] by (simp only: div_ceil c_def)
  moreover have "(B * (n - 1) + c) * 64 = 4096 * (C * (n - 1)) + c * 64" using B(1) by (simp add: algebra_simps)
  moreover have "unat (data_length (word_of_nat (4096 * (C * (n - 1)) + c * 64))) = n * 64"
  proof (rule Suc.IH)
    show "c * 64 \<le> 4096 * C" using c(1) B(1) by simp
    have "4096 * (C * (n - 1)) + c * 64 \<le> 4096 * (B * (n - 1)) + L"
    proof -
      have "c * 64 \<le> 4096 * C" using c(1) B(1) by simp
      also have "\<dots> \<le> 4096 * (C * (n - 1))" using m by simp
      finally have "4096 * (C * (n - 1)) + c * 64 \<le> 2 * (4096 * (C * (n - 1)))" by simp
      also have "\<dots> \<le> 4096 * (B * (n - 1))" using B(1) by simp
      finally show ?thesis by simp
    qed
    then show "4096 * (C * (n - 1)) + c * 64 < 2 ^ 63" using Suc.prems(6) by (rule le_less_trans)
  qed (use Suc.prems(1,2) c C_def in simp_all)
  ultimately show ?case by (simp only:)
qed

end
