(* ===== verification/Pipeline.thy ===== *)
theory Pipeline
  imports Encryption
begin

text \<open>
  \<open>pkg/file/pipeline\<close>: the chain of writers that cuts a stream of bytes into chunks and builds the tree of
  references over them. \<open>feeder\<close> collects the bytes of a chunk, \<open>encryption\<close> encrypts it, \<open>bmt\<close> computes
  its address, \<open>store\<close> puts it into the chunk store and \<open>hashtrie\<close> keeps the references of every level in one
  buffer and writes a chunk of references whenever a level is full. \<open>builder\<close> puts them together. The state is the
  buffer of the trie and the state \<open>'s\<close> of the chunk store; the chunk hash \<open>hs span data\<close> and the store's \<open>put\<close> are
  parameters.
\<close>

section \<open>Writers\<close>

datatype pl_error =
    ErrInconsistentRefs | ErrTrieFull | ErrInvalidData | HashErr string | PutErr string | TagErr string
  | CryptErr crypt_error | ShortWrite | ReadErr string | PipePanic

text \<open>A nil reference is \<open>None\<close>; the data is never nil once the span is prepended.\<close>

record PipeWriteArgs =
  pa_Ref :: "bytes option"
  pa_Key :: bytes
  pa_Span :: bytes
  pa_Data :: bytes

type_synonym 's ChainWriter = "PipeWriteArgs \<Rightarrow> 's \<Rightarrow> pl_error option \<times> PipeWriteArgs \<times> 's"

text \<open>The tag of the context, when there is one: its identifier and the operation that counts a state.\<close>

datatype tag_state = StateSplit | StateStored | StateSeen

record 's Tag =
  tag_Uid :: u32
  tag_Inc :: "tag_state \<Rightarrow> 's \<Rightarrow> string option \<times> 's"

type_synonym 's Putter = "unit chunk \<Rightarrow> 's \<Rightarrow> (string + bool list) \<times> 's"

definition inc_tag :: "'s Tag option \<Rightarrow> tag_state \<Rightarrow> 's \<Rightarrow> pl_error option \<times> 's" where
  "inc_tag tag t s =
     (case tag of
        None \<Rightarrow> (None, s)
      | Some g \<Rightarrow> (case tag_Inc g t s of (Some e, s1) \<Rightarrow> (Some (TagErr e), s1) | (None, s1) \<Rightarrow> (None, s1)))"

text \<open>\<open>storeWriter.ChainWrite\<close> up to the call of the next writer.\<close>

definition store_put :: "'s Putter \<Rightarrow> 's Tag option \<Rightarrow> PipeWriteArgs \<Rightarrow> 's \<Rightarrow> pl_error option \<times> 's" where
  "store_put put tag p s =
     (case pa_Ref p of
        None \<Rightarrow> (Some ErrInvalidData, s)
      | Some ref \<Rightarrow>
         (case inc_tag tag StateSplit s of
            (Some e, s1) \<Rightarrow> (Some e, s1)
          | (None, s1) \<Rightarrow>
             let c = NewChunk (NewAddress ref) (pa_Data p);
                 c = (case tag of None \<Rightarrow> c | Some g \<Rightarrow> WithTagID (tag_Uid g) c) in
             (case put c s1 of
                (Inl e, s2) \<Rightarrow> (Some (PutErr e), s2)
              | (Inr seen, s2) \<Rightarrow>
                 (case inc_tag tag StateStored s2 of
                    (Some e, s3) \<Rightarrow> (Some e, s3)
                  | (None, s3) \<Rightarrow>
                      if tag = None then (None, s3)
                      else if seen = [] then (Some PipePanic, s3)
                      else if hd seen then inc_tag tag StateSeen s3 else (None, s3)))))"

text \<open>\<open>short\<close> is the store writer at the end of a short pipeline, which has no next writer.\<close>

definition storeWriter_short :: "'s Putter \<Rightarrow> 's Tag option \<Rightarrow> 's ChainWriter" where
  "storeWriter_short put tag p s = (case store_put put tag p s of (e, s1) \<Rightarrow> (e, p, s1))"

definition storeWriter :: "'s Putter \<Rightarrow> 's Tag option \<Rightarrow> ('h \<times> 's) ChainWriter \<Rightarrow> ('h \<times> 's) ChainWriter" where
  "storeWriter put tag next p hs =
     (case hs of (h, s) \<Rightarrow>
      (case store_put put tag p s of
         (Some e, s1) \<Rightarrow> (Some e, p, h, s1)
       | (None, s1) \<Rightarrow> next p (h, s1)))"

definition bmtWriter :: "(bytes \<Rightarrow> bytes \<Rightarrow> string + bytes) \<Rightarrow> 's ChainWriter \<Rightarrow> 's ChainWriter" where
  "bmtWriter hs next p s =
     (if length (pa_Data p) < SpanSize then (Some ErrInvalidData, p, s)
      else
       (case hs (take SpanSize (pa_Data p)) (drop SpanSize (pa_Data p)) of
          Inl e \<Rightarrow> (Some (HashErr e), p, s)
        | Inr ref \<Rightarrow> next (p\<lparr>pa_Ref := Some ref\<rparr>) s))"

definition encryptionWriter ::
  "(bytes \<Rightarrow> bytes) \<Rightarrow> (nat \<Rightarrow> 's \<Rightarrow> bytes \<times> 's) \<Rightarrow> 's ChainWriter \<Rightarrow> 's ChainWriter" where
  "encryptionWriter kec rnd next p s =
     (case EncryptChunk kec rnd (pa_Data p) s of
        (Inl e, s1) \<Rightarrow> (Some (CryptErr e), p, s1)
      | (Inr (key, encryptedSpan, encryptedData), s1) \<Rightarrow>
          next (p\<lparr>pa_Key := key, pa_Data := encryptedSpan @ encryptedData\<rparr>) s1)"

section \<open>The trie of references\<close>

definition maxLevel :: nat where "maxLevel = 8"

record hashTrieWriter =
  ht_branching :: nat
  ht_refSize :: nat
  ht_fullChunk :: nat
  ht_cursors :: "nat list"
  ht_buffer :: bytes
  ht_full :: bool

definition NewHashTrieWriter :: "nat \<Rightarrow> nat \<Rightarrow> hashTrieWriter" where
  "NewHashTrieWriter branching refLen =
     \<lparr>ht_branching = branching, ht_refSize = refLen, ht_fullChunk = (refLen + SpanSize) * branching,
      ht_cursors = replicate 9 0, ht_buffer = replicate (ChunkWithSpanSize * 9 * 2) 0, ht_full = False\<rparr>"

text \<open>\<open>copy(h.buffer[c:c+len(bs)], bs)\<close>: the slice expression panics beyond the buffer.\<close>

definition buf_write :: "nat \<Rightarrow> bytes \<Rightarrow> bytes \<Rightarrow> bytes option" where
  "buf_write c bs buf =
     (if c + length bs \<le> length buf then Some (take c buf @ bs @ drop (c + length bs) buf) else None)"

definition levelSize :: "hashTrieWriter \<Rightarrow> nat \<Rightarrow> int" where
  "levelSize h level =
     (if level = 8 then int (ht_cursors h ! level)
      else int (ht_cursors h ! level) - int (ht_cursors h ! (level + 1)))"

text \<open>The references of a level: the sum of their spans (which wraps) and the concatenation of the hashes. The size of a level
  is a multiple of the size of an entry: every write is.\<close>

fun sum_spans :: "nat \<Rightarrow> bytes \<Rightarrow> u64" where
  "sum_spans refSize [] = 0"
| "sum_spans refSize (b # bs) =
     word_of_nat (le_val (take 8 (b # bs))) + sum_spans refSize (drop (refSize + 7) bs)"

fun all_hashes :: "nat \<Rightarrow> bytes \<Rightarrow> bytes" where
  "all_hashes refSize [] = []"
| "all_hashes refSize (b # bs) = take refSize (drop 7 bs) @ all_hashes refSize (drop (refSize + 7) bs)"

function (sequential) writeToLevel ::
  "'s ChainWriter \<Rightarrow> nat \<Rightarrow> bytes \<Rightarrow> bytes \<Rightarrow> bytes \<Rightarrow> hashTrieWriter \<Rightarrow> 's \<Rightarrow> pl_error option \<times> hashTrieWriter \<times> 's"
and wrapFullLevel ::
  "'s ChainWriter \<Rightarrow> nat \<Rightarrow> hashTrieWriter \<Rightarrow> 's \<Rightarrow> pl_error option \<times> hashTrieWriter \<times> 's" where
  "writeToLevel pf level span ref key h s =
     (if length (ht_cursors h) \<le> level then (Some PipePanic, h, s)
      else
       (case buf_write (ht_cursors h ! level) (span @ ref @ key) (ht_buffer h) of
          None \<Rightarrow> (Some PipePanic, h, s)
        | Some buf \<Rightarrow>
           let h1 = h\<lparr>ht_cursors := (ht_cursors h)[level := ht_cursors h ! level + length (span @ ref @ key)], ht_buffer := buf\<rparr>;
               howLong = (ht_refSize h1 + SpanSize) * ht_branching h1 in
           if levelSize h1 level = int howLong then wrapFullLevel pf level h1 s else (None, h1, s)))"
| "wrapFullLevel pf level h s =
     (if length (ht_cursors h) \<le> level + 1 \<or> ht_cursors h ! level < ht_cursors h ! (level + 1)
         \<or> length (ht_buffer h) < ht_cursors h ! level then (Some PipePanic, h, s)
      else
        let data = take (ht_cursors h ! level - ht_cursors h ! (level + 1)) (drop (ht_cursors h ! (level + 1)) (ht_buffer h));
            spb = le_bytes 8 (unat (sum_spans (ht_refSize h) data));
            hashes = spb @ all_hashes (ht_refSize h) data in
        (case pf \<lparr>pa_Ref = None, pa_Key = [], pa_Span = spb, pa_Data = hashes\<rparr> s of
           (Some e, args, s1) \<Rightarrow> (Some e, h, s1)
         | (None, args, s1) \<Rightarrow>
            (case writeToLevel pf (level + 1) (pa_Span args) (case pa_Ref args of None \<Rightarrow> [] | Some r \<Rightarrow> r) (pa_Key args) h s1 of
               (Some e, h1, s2) \<Rightarrow> (Some e, h1, s2)
             | (None, h1, s2) \<Rightarrow>
                (None,
                 h1\<lparr>ht_cursors := (ht_cursors h1)[level := ht_cursors h1 ! (level + 1)],
                    ht_full := (if level + 1 = 8 then True else ht_full h1)\<rparr>, s2))))"
  by pat_completeness auto
termination
  by (relation "measure (case_sum (\<lambda>(pf, level, sp, r, k, h, s). 2 * (length (ht_cursors h) - level) + 1)
       (\<lambda>(pf, level, h, s). 2 * (length (ht_cursors h) - level)))") auto

declare writeToLevel.simps [simp del] wrapFullLevel.simps [simp del]

definition ht_ChainWrite :: "'s ChainWriter \<Rightarrow> (hashTrieWriter \<times> 's) ChainWriter" where
  "ht_ChainWrite pf p hs =
     (case hs of (h, s) \<Rightarrow>
       let oneRef = ht_refSize h + SpanSize;
           ref = (case pa_Ref p of None \<Rightarrow> [] | Some r \<Rightarrow> r);
           l = length (pa_Span p) + length ref + length (pa_Key p) in
       if l mod oneRef \<noteq> 0 then (Some ErrInconsistentRefs, p, h, s)
       else if ht_full h then (Some ErrTrieFull, p, h, s)
       else (case writeToLevel pf 1 (pa_Span p) ref (pa_Key p) h s of (e, h1, s1) \<Rightarrow> (e, p, h1, s1)))"

text \<open>The body of the loop of \<open>Sum\<close> at level \<open>i\<close>.\<close>

definition ht_sum_level :: "'s ChainWriter \<Rightarrow> nat \<Rightarrow> hashTrieWriter \<Rightarrow> 's \<Rightarrow> pl_error option \<times> hashTrieWriter \<times> 's" where
  "ht_sum_level pf i h s =
     (let oneRef = int (ht_refSize h + SpanSize); l = levelSize h i in
      if l mod oneRef \<noteq> 0 then (Some ErrInconsistentRefs, h, s)
      else if l = 0 then (None, h, s)
      else if l = int (ht_fullChunk h) then wrapFullLevel pf i h s
      else if l = oneRef then (None, h\<lparr>ht_cursors := (ht_cursors h)[i + 1 := ht_cursors h ! i]\<rparr>, s)
      else wrapFullLevel pf i h s)"

primrec ht_sum_loop ::
  "'s ChainWriter \<Rightarrow> nat list \<Rightarrow> hashTrieWriter \<Rightarrow> 's \<Rightarrow> pl_error option \<times> hashTrieWriter \<times> 's" where
  "ht_sum_loop pf [] h s = (None, h, s)"
| "ht_sum_loop pf (i # is) h s =
     (case ht_sum_level pf i h s of
        (Some e, h1, s1) \<Rightarrow> (Some e, h1, s1)
      | (None, h1, s1) \<Rightarrow> ht_sum_loop pf is h1 s1)"

definition ht_Sum :: "'s ChainWriter \<Rightarrow> hashTrieWriter \<times> 's \<Rightarrow> (pl_error + bytes) \<times> hashTrieWriter \<times> 's" where
  "ht_Sum pf hs =
     (case hs of (h, s) \<Rightarrow>
      (case ht_sum_loop pf [1..<maxLevel] h s of
         (Some e, h1, s1) \<Rightarrow> (Inl e, h1, s1)
       | (None, h1, s1) \<Rightarrow>
           if levelSize h1 8 \<noteq> int (ht_refSize h1 + SpanSize) then (Inl ErrInconsistentRefs, h1, s1)
           else (Inr (drop 8 (take (ht_cursors h1 ! 8) (ht_buffer h1))), h1, s1)))"

section \<open>The feeder\<close>

record chunkFeeder =
  fd_size :: nat
  fd_buffer :: bytes
  fd_bufferIdx :: nat
  fd_wrote :: int

definition NewChunkFeederWriter :: "nat \<Rightarrow> chunkFeeder" where
  "NewChunkFeederWriter sz = \<lparr>fd_size = sz, fd_buffer = replicate sz 0, fd_bufferIdx = 0, fd_wrote = 0\<rparr>"

text \<open>\<open>overlay\<close> is \<open>copy(dst[off:], src)\<close>, which copies what fits.\<close>

definition overlay :: "nat \<Rightarrow> bytes \<Rightarrow> bytes \<Rightarrow> bytes" where
  "overlay off src dst =
     take off dst @ take (length dst - off) src @ drop (off + length src) dst"

text \<open>A chunk size of zero would make the loop run forever; the check of \<open>n\<close> keeps the recursion total there.
  The loop of \<open>Write\<close>: \<open>d\<close> is the chunk being filled, behind its span; \<open>sp\<close> the span, \<open>w\<close> what was written.\<close>

function feed_loop ::
  "'s ChainWriter \<Rightarrow> bytes \<Rightarrow> bytes \<Rightarrow> nat \<Rightarrow> int \<Rightarrow> chunkFeeder \<Rightarrow> 's \<Rightarrow> (pl_error + int) \<times> chunkFeeder \<times> 's" where
  "feed_loop next b d sp w f s =
     (if b = [] then (Inr w, f\<lparr>fd_wrote := fd_wrote f + w\<rparr>, s)
      else if sp + length b < fd_size f then
        (Inr (w + int (length b)), f\<lparr>fd_buffer := overlay 0 b (fd_buffer f), fd_bufferIdx := length b\<rparr>, s)
      else
        let n = min (length b) (length d - (SpanSize + fd_bufferIdx f)) in
        if n = 0 then (Inl PipePanic, f, s)
        else
        let d = overlay (SpanSize + fd_bufferIdx f) b d;
            sp = sp + n;
            d = overlay 0 (le_bytes 8 sp) d in
        (case next \<lparr>pa_Ref = None, pa_Key = [], pa_Span = take SpanSize d, pa_Data = take (SpanSize + sp) d\<rparr> s of
           (Some e, args, s1) \<Rightarrow> (Inl e, f, s1)
         | (None, args, s1) \<Rightarrow> feed_loop next (drop n b) d 0 (w + int sp) (f\<lparr>fd_bufferIdx := 0\<rparr>) s1))"
  by pat_completeness auto
termination
  by (relation "measure (\<lambda>(next, b, d, sp, w, f, s). length b)") auto

declare feed_loop.simps [simp del]

definition fd_Write ::
  "'s ChainWriter \<Rightarrow> bytes \<Rightarrow> chunkFeeder \<times> 's \<Rightarrow> (pl_error + int) \<times> chunkFeeder \<times> 's" where
  "fd_Write next b fs =
     (case fs of (f, s) \<Rightarrow>
       if length b + fd_bufferIdx f < fd_size f then
         (Inr (int (length b)),
          f\<lparr>fd_buffer := overlay (fd_bufferIdx f) b (fd_buffer f), fd_bufferIdx := fd_bufferIdx f + length b\<rparr>, s)
       else
         let d = overlay SpanSize (take (fd_bufferIdx f) (fd_buffer f)) (replicate (fd_size f + SpanSize) 0) in
         feed_loop next b d (fd_bufferIdx f) (- int (fd_bufferIdx f)) f s)"

definition fd_flush :: "'s ChainWriter \<Rightarrow> chunkFeeder \<times> 's \<Rightarrow> pl_error option \<times> chunkFeeder \<times> 's" where
  "fd_flush next fs =
     (case fs of (f, s) \<Rightarrow>
       if fd_bufferIdx f = 0 then (None, f, s)
       else
         let spb = le_bytes 8 (fd_bufferIdx f); d = spb @ take (fd_bufferIdx f) (fd_buffer f) in
         (case next \<lparr>pa_Ref = None, pa_Key = [], pa_Span = spb, pa_Data = d\<rparr> s of
            (Some e, args, s1) \<Rightarrow> (Some e, f, s1)
          | (None, args, s1) \<Rightarrow> (None, f\<lparr>fd_wrote := fd_wrote f + int (length d)\<rparr>, s1)))"

definition fd_Sum ::
  "'s ChainWriter \<Rightarrow> ('s \<Rightarrow> (pl_error + bytes) \<times> 's) \<Rightarrow> chunkFeeder \<times> 's \<Rightarrow> (pl_error + bytes) \<times> chunkFeeder \<times> 's" where
  "fd_Sum next nextSum fs =
     (case fd_flush next fs of
        (Some e, f, s) \<Rightarrow> (Inl e, f, s)
      | (None, f, s) \<Rightarrow>
         (case (if fd_wrote f = 0
                then (case next \<lparr>pa_Ref = None, pa_Key = [], pa_Span = replicate SpanSize 0, pa_Data = replicate SpanSize 0\<rparr> s of
                        (Some e, args, s1) \<Rightarrow> (Some e, f, s1)
                      | (None, args, s1) \<Rightarrow> (None, f\<lparr>fd_wrote := fd_wrote f + int SpanSize\<rparr>, s1))
                else (None, f, s)) of
            (Some e, f1, s1) \<Rightarrow> (Inl e, f1, s1)
          | (None, f1, s1) \<Rightarrow> (case nextSum s1 of (r, s2) \<Rightarrow> (r, f1, s2))))"

section \<open>The pipelines\<close>

text \<open>\<open>shortPipeline\<close> is what the trie calls for a chunk of references.\<close>

definition newShortPipeline :: "(bytes \<Rightarrow> bytes \<Rightarrow> string + bytes) \<Rightarrow> 's Putter \<Rightarrow> 's Tag option \<Rightarrow> 's ChainWriter" where
  "newShortPipeline hs put tag = bmtWriter hs (storeWriter_short put tag)"

definition newPipeline ::
  "(bytes \<Rightarrow> bytes \<Rightarrow> string + bytes) \<Rightarrow> 's Putter \<Rightarrow> 's Tag option \<Rightarrow> (hashTrieWriter \<times> 's) ChainWriter" where
  "newPipeline hs put tag = bmtWriter hs (storeWriter put tag (ht_ChainWrite (newShortPipeline hs put tag)))"

definition newShortEncryptionPipeline ::
  "(bytes \<Rightarrow> bytes) \<Rightarrow> (nat \<Rightarrow> 's \<Rightarrow> bytes \<times> 's) \<Rightarrow> (bytes \<Rightarrow> bytes \<Rightarrow> string + bytes) \<Rightarrow> 's Putter \<Rightarrow> 's Tag option \<Rightarrow> 's ChainWriter" where
  "newShortEncryptionPipeline kec rnd hs put tag = encryptionWriter kec rnd (bmtWriter hs (storeWriter_short put tag))"

definition lift_rnd :: "(nat \<Rightarrow> 's \<Rightarrow> bytes \<times> 's) \<Rightarrow> nat \<Rightarrow> 'h \<times> 's \<Rightarrow> bytes \<times> 'h \<times> 's" where
  "lift_rnd rnd n hs = (case hs of (h, s) \<Rightarrow> (case rnd n s of (bs, s1) \<Rightarrow> (bs, h, s1)))"

definition newEncryptionPipeline ::
  "(bytes \<Rightarrow> bytes) \<Rightarrow> (nat \<Rightarrow> 's \<Rightarrow> bytes \<times> 's) \<Rightarrow> (bytes \<Rightarrow> bytes \<Rightarrow> string + bytes) \<Rightarrow> 's Putter \<Rightarrow> 's Tag option
   \<Rightarrow> (hashTrieWriter \<times> 's) ChainWriter" where
  "newEncryptionPipeline kec rnd hs put tag =
     encryptionWriter kec (lift_rnd rnd)
       (bmtWriter hs (storeWriter put tag (ht_ChainWrite (newShortEncryptionPipeline kec rnd hs put tag))))"

text \<open>A pipeline as its user sees it: the operations on its state, the feeder, the trie and the store.\<close>

type_synonym 's pipe_state = "chunkFeeder \<times> hashTrieWriter \<times> 's"

record 's Pipeline =
  pl_Write :: "bytes \<Rightarrow> 's pipe_state \<Rightarrow> (pl_error + int) \<times> 's pipe_state"
  pl_Sum :: "'s pipe_state \<Rightarrow> (pl_error + bytes) \<times> 's pipe_state"

definition NewPipelineBuilder ::
  "(bytes \<Rightarrow> bytes) \<Rightarrow> (nat \<Rightarrow> 's \<Rightarrow> bytes \<times> 's) \<Rightarrow> (bytes \<Rightarrow> bytes \<Rightarrow> string + bytes) \<Rightarrow> 's Putter \<Rightarrow> 's Tag option
   \<Rightarrow> bool \<Rightarrow> 's Pipeline \<times> ('s \<Rightarrow> 's pipe_state)" where
  "NewPipelineBuilder kec rnd hs put tag encrypt =
     (if encrypt
      then (\<lparr>pl_Write = fd_Write (newEncryptionPipeline kec rnd hs put tag),
             pl_Sum = fd_Sum (newEncryptionPipeline kec rnd hs put tag) (ht_Sum (newShortEncryptionPipeline kec rnd hs put tag))\<rparr>,
            \<lambda>s. (NewChunkFeederWriter ChunkSize, NewHashTrieWriter 64 (HashSize + KeyLength), s))
      else (\<lparr>pl_Write = fd_Write (newPipeline hs put tag),
             pl_Sum = fd_Sum (newPipeline hs put tag) (ht_Sum (newShortPipeline hs put tag))\<rparr>,
            \<lambda>s. (NewChunkFeederWriter ChunkSize, NewHashTrieWriter Branches HashSize, s)))"

text \<open>The reader is the list of what its reads return: at most a chunk of bytes, and an error. At the end of the list a read returns nothing and \<open>io.EOF\<close>.\<close>

datatype read_end = EOF | ReadError string

primrec FeedPipeline_loop ::
  "'s Pipeline \<Rightarrow> (bytes \<times> read_end option) list \<Rightarrow> 's pipe_state \<Rightarrow> pl_error option \<times> 's pipe_state" where
  "FeedPipeline_loop P [] st = (None, st)"
| "FeedPipeline_loop P (r # rs) st =
     (case r of
        (data, Some (ReadError e)) \<Rightarrow> (Some (ReadErr e), st)
      | (data, Some EOF) \<Rightarrow>
          if data = [] then (None, st)
          else
           (case pl_Write P data st of
              (Inl e, st1) \<Rightarrow> (Some e, st1)
            | (Inr cc, st1) \<Rightarrow> if cc < int (length data) then (Some ShortWrite, st1) else (None, st1))
      | (data, None) \<Rightarrow>
          (case pl_Write P data st of
             (Inl e, st1) \<Rightarrow> (Some e, st1)
           | (Inr cc, st1) \<Rightarrow> if cc < int (length data) then (Some ShortWrite, st1) else FeedPipeline_loop P rs st1))"

definition FeedPipeline ::
  "'s Pipeline \<Rightarrow> (bytes \<times> read_end option) list \<Rightarrow> 's pipe_state \<Rightarrow> (pl_error + Address) \<times> 's pipe_state" where
  "FeedPipeline P rs st =
     (case FeedPipeline_loop P rs st of
        (Some e, st1) \<Rightarrow> (Inl e, st1)
      | (None, st1) \<Rightarrow>
         (case pl_Sum P st1 of
            (Inl e, st2) \<Rightarrow> (Inl e, st2)
          | (Inr address, st2) \<Rightarrow> (Inr (NewAddress address), st2)))"

end
