(* ===== verification/Joiner.thy ===== *)
theory Joiner
  imports Encryption
begin

text \<open>
  \<open>pkg/file/joiner/joiner.go\<close>, \<open>JoinReadAll\<close> of \<open>pkg/file/io.go\<close> and the decrypting store of
  \<open>pkg/encryption/store\<close>: reading a file back from the tree of its chunks. \<open>ReadAt\<close> starts a goroutine for
  every reference it has to follow; the goroutines that have not run yet are the list \<open>js_pending\<close>, any of them may
  run next (\<open>join_run\<close>). \<open>get\<close> is the chunk store: an error or the data of a chunk, span included. Offsets and spans
  are 64-bit signed integers that wrap.
\<close>

datatype jn_error =
    GetErr string | DecryptErr crypt_error | ErrReferenceLength | ErrEOF | JoinPanic | ErrWhence | ErrOffset | ShortRead

definition decrypting_Get ::
  "(bytes \<Rightarrow> bytes) \<Rightarrow> (Address \<Rightarrow> string + bytes) \<Rightarrow> Address \<Rightarrow> jn_error + Address \<times> bytes" where
  "decrypting_Get kec get addr =
     (if length addr = HashSize then (case get addr of Inl e \<Rightarrow> Inl (GetErr e) | Inr d \<Rightarrow> Inr (addr, d))
      else if length addr = ReferenceSize then
        let address = take HashSize addr in
        (case get address of
           Inl e \<Rightarrow> Inl (GetErr e)
         | Inr c \<Rightarrow>
            (case decryptChunkData kec c (drop HashSize addr) of
               Inl e \<Rightarrow> Inl (DecryptErr e)
             | Inr d \<Rightarrow> Inr (address, d)))
      else Inl ErrReferenceLength)"

type_synonym getter = "Address \<Rightarrow> jn_error + Address \<times> bytes"

record joiner =
  jn_addr :: Address
  jn_rootData :: bytes
  jn_span :: int
  jn_off :: int
  jn_refLength :: nat

definition chunkToSpan :: "bytes \<Rightarrow> nat" where
  "chunkToSpan d = le_val (take 8 d)"

definition New_joiner :: "getter \<Rightarrow> Address \<Rightarrow> jn_error + joiner \<times> int" where
  "New_joiner get address =
     (case get address of
        Inl e \<Rightarrow> Inl e
      | Inr (addr, chunkData) \<Rightarrow>
         if length chunkData < SpanSize then Inl JoinPanic
         else
           let span = i64 (int (chunkToSpan chunkData)) in
           Inr (\<lparr>jn_addr = addr, jn_rootData = drop SpanSize chunkData, jn_span = span, jn_off = 0,
                 jn_refLength = length address\<rparr>, span))"

section \<open>The size of a subtree\<close>

text \<open>The search for the size of the branches of a chunk; \<open>None\<close> when it never ends.\<close>

partial_function (option) branch_loop :: "int \<Rightarrow> int \<Rightarrow> int \<Rightarrow> int \<Rightarrow> int option" where
  "branch_loop subtrieSize refs branching branchSize =
     (let whatsLeft = i64 (subtrieSize - i64 (branchSize * (refs - 1))) in
      if whatsLeft \<le> branchSize then Some branchSize
      else branch_loop subtrieSize refs branching (i64 (branchSize * branching)))"

definition subtrieSection :: "bytes \<Rightarrow> nat \<Rightarrow> nat \<Rightarrow> int \<Rightarrow> int option" where
  "subtrieSection data startIdx refLen subtrieSize =
     (let refs = int (length data div refLen); branching = int (4096 div refLen) in
      case branch_loop subtrieSize refs branching 4096 of
        None \<Rightarrow> None
      | Some branchSize \<Rightarrow>
          if int startIdx = (refs - 1) * int refLen
          then Some (i64 (subtrieSize - i64 ((refs - 1) * branchSize)))
          else Some branchSize)"

section \<open>Reading\<close>

text \<open>A goroutine that was started and has not run: the reference to follow and the arguments of its call.\<close>

record task =
  tk_address :: Address
  tk_cur :: int
  tk_off :: int
  tk_bufferOffset :: int
  tk_bytesToRead :: int

text \<open>\<open>data[from:to]\<close> with a panic (\<open>None\<close>) out of range; the slices of a chunk have no spare capacity.\<close>

definition slice :: "int \<Rightarrow> int \<Rightarrow> bytes \<Rightarrow> bytes option" where
  "slice a b xs =
     (if 0 \<le> a \<and> a \<le> b \<and> b \<le> int (length xs) then Some (take (nat (b - a)) (drop (nat a) xs)) else None)"

text \<open>\<open>leaf_copy\<close>: where in the buffer and what is copied from a data chunk.\<close>

definition leaf_copy :: "bytes \<Rightarrow> int \<Rightarrow> int \<Rightarrow> int \<Rightarrow> bytes option" where
  "leaf_copy data cur off bytesToRead =
     (let dataOffsetStart = i64 (off - cur);
          lenDataToCopy = i64 (int (length data) - dataOffsetStart);
          dataOffsetEnd = (if lenDataToCopy < bytesToRead then i64 (dataOffsetStart + lenDataToCopy)
                           else i64 (dataOffsetStart + bytesToRead)) in
      slice dataOffsetStart dataOffsetEnd data)"

datatype read_result = Copy int bytes | Spawn "task list" | ReadPanic

text \<open>The loop over the references of a chunk, given by their cursors: the goroutines it starts.\<close>

primrec spawn_loop ::
  "nat \<Rightarrow> bytes \<Rightarrow> int \<Rightarrow> nat list \<Rightarrow> int \<Rightarrow> int \<Rightarrow> int \<Rightarrow> int \<Rightarrow> task list option option" where
  "spawn_loop refLength data subTrieSize [] cur off bufferOffset bytesToRead = Some (Some [])"
| "spawn_loop refLength data subTrieSize (cursor # cs) cur off bufferOffset bytesToRead =
     (if bytesToRead = 0 then Some (Some [])
      else
       (case subtrieSection data cursor refLength subTrieSize of
          None \<Rightarrow> None
        | Some sec \<Rightarrow>
           if i64 (cur + sec) < off then
             spawn_loop refLength data subTrieSize cs (i64 (cur + sec)) off bufferOffset bytesToRead
           else if length data < cursor + refLength then Some None
           else
             let address = NewAddress (take refLength (drop cursor data));
                 size0 = i64 (sec - i64 (off - cur));
                 size1 = (if bytesToRead < size0 then bytesToRead else size0);
                 currentReadSize = (if sec < size1 then sec else size1);
                 t = \<lparr>tk_address = address, tk_cur = cur, tk_off = off, tk_bufferOffset = bufferOffset,
                      tk_bytesToRead = currentReadSize\<rparr>;
                 cur1 = i64 (cur + sec) in
             (case spawn_loop refLength data subTrieSize cs cur1 cur1 (i64 (bufferOffset + currentReadSize))
                     (i64 (bytesToRead - currentReadSize)) of
                None \<Rightarrow> None
              | Some None \<Rightarrow> Some None
              | Some (Some ts) \<Rightarrow> Some (Some (t # ts)))))"

text \<open>The positions \<open>0, refLength, 2 * refLength, \<dots>\<close> below the length of the data.\<close>

definition cursors :: "nat \<Rightarrow> bytes \<Rightarrow> nat list" where
  "cursors refLength data = map (\<lambda>i. i * refLength) [0..<(length data + refLength - 1) div refLength]"

definition readAtOffset ::
  "nat \<Rightarrow> bytes \<Rightarrow> int \<Rightarrow> int \<Rightarrow> int \<Rightarrow> int \<Rightarrow> int \<Rightarrow> read_result option" where
  "readAtOffset refLength data cur subTrieSize off bufferOffset bytesToRead =
     (if subTrieSize \<le> int (length data) then
        (case leaf_copy data cur off bytesToRead of
           None \<Rightarrow> Some ReadPanic
         | Some bs \<Rightarrow> Some (Copy bufferOffset bs))
      else
        (case spawn_loop refLength data subTrieSize (cursors refLength data) cur off bufferOffset bytesToRead of
           None \<Rightarrow> None
         | Some None \<Rightarrow> Some ReadPanic
         | Some (Some ts) \<Rightarrow> Some (Spawn ts)))"

text \<open>The state of a read: the goroutines to run, the buffer, the bytes read and the first error.\<close>

record join_state =
  js_pending :: "task list"
  js_buffer :: bytes
  js_read :: int
  js_err :: "jn_error option"

definition first_error :: "jn_error option \<Rightarrow> jn_error \<Rightarrow> jn_error option" where
  "first_error old e = (case old of None \<Rightarrow> Some e | Some e' \<Rightarrow> Some e')"

text \<open>The effect of \<open>readAtOffset\<close> on the state of the read; a panic ends the program, here it is an error of its own.\<close>

definition read_effect :: "read_result \<Rightarrow> join_state \<Rightarrow> join_state" where
  "read_effect r st =
     (case r of
        ReadPanic \<Rightarrow> st\<lparr>js_err := Some JoinPanic\<rparr>
      | Spawn ts \<Rightarrow> st\<lparr>js_pending := js_pending st @ ts\<rparr>
      | Copy bo bs \<Rightarrow>
          if 0 \<le> bo \<and> bo + int (length bs) \<le> int (length (js_buffer st)) then
            st\<lparr>js_buffer := take (nat bo) (js_buffer st) @ bs @ drop (nat bo + length bs) (js_buffer st),
               js_read := i64 (js_read st + int (length bs))\<rparr>
          else st\<lparr>js_err := Some JoinPanic\<rparr>)"

definition run_task :: "getter \<Rightarrow> nat \<Rightarrow> task \<Rightarrow> join_state \<Rightarrow> join_state option" where
  "run_task get refLength t st =
     (case get (tk_address t) of
        Inl e \<Rightarrow> Some (st\<lparr>js_err := first_error (js_err st) e\<rparr>)
      | Inr (addr, d) \<Rightarrow>
         if length d < 8 then Some (st\<lparr>js_err := Some JoinPanic\<rparr>)
         else
          (case readAtOffset refLength (drop 8 d) (tk_cur t) (i64 (int (chunkToSpan d))) (tk_off t) (tk_bufferOffset t)
                  (tk_bytesToRead t) of
             None \<Rightarrow> None
           | Some r \<Rightarrow> Some (read_effect r st)))"

text \<open>One of the pending goroutines runs.\<close>

definition exec_task :: "getter \<Rightarrow> nat \<Rightarrow> nat \<Rightarrow> join_state \<Rightarrow> join_state option" where
  "exec_task get refLength k st =
     run_task get refLength (js_pending st ! k)
       (st\<lparr>js_pending := take k (js_pending st) @ drop (Suc k) (js_pending st)\<rparr>)"

inductive join_run :: "getter \<Rightarrow> nat \<Rightarrow> join_state \<Rightarrow> join_state \<Rightarrow> bool" for get refLength where
  finished: "join_run get refLength st st"
| step: "k < length (js_pending st) \<Longrightarrow> exec_task get refLength k st = Some st1 \<Longrightarrow> join_run get refLength st1 st2
    \<Longrightarrow> join_run get refLength st st2"

text \<open>One schedule: the oldest goroutine first. \<open>None\<close> when the fuel does not suffice or a goroutine does not end.\<close>

primrec join_exec :: "getter \<Rightarrow> nat \<Rightarrow> nat \<Rightarrow> join_state \<Rightarrow> join_state option" where
  "join_exec get refLength 0 st = (if js_pending st = [] then Some st else None)"
| "join_exec get refLength (Suc n) st =
     (if js_pending st = [] then Some st
      else (case exec_task get refLength 0 st of None \<Rightarrow> None | Some st1 \<Rightarrow> join_exec get refLength n st1))"

text \<open>\<open>ReadAt\<close> up to \<open>eg.Wait\<close>: the goroutines that are started for a buffer \<open>b\<close>. The source reads \<open>cap(b)\<close> bytes and not
  \<open>len(b)\<close>: \<open>b\<close> stands for the buffer up to its capacity.\<close>

definition ReadAt_start :: "joiner \<Rightarrow> bytes \<Rightarrow> int \<Rightarrow> (jn_error + join_state) option" where
  "ReadAt_start j b off =
     (if jn_span j \<le> off then Some (Inl ErrEOF)
      else
        let readLen = (if i64 (jn_span j - off) < int (length b) then i64 (jn_span j - off) else int (length b)) in
        (case readAtOffset (jn_refLength j) (jn_rootData j) 0 (jn_span j) off 0 readLen of
           None \<Rightarrow> None
         | Some r \<Rightarrow> Some (Inr (read_effect r \<lparr>js_pending = [], js_buffer = b, js_read = 0, js_err = None\<rparr>))))"

definition ReadAt_result :: "join_state \<Rightarrow> jn_error + int \<times> bytes" where
  "ReadAt_result st = (case js_err st of Some e \<Rightarrow> Inl e | None \<Rightarrow> Inr (js_read st, js_buffer st))"

text \<open>\<open>ReadAt\<close> and \<open>Read\<close> under a schedule \<open>wait\<close> of the goroutines, which runs a state to its end.\<close>

type_synonym waiter = "join_state \<Rightarrow> join_state option"

definition ReadAt :: "waiter \<Rightarrow> joiner \<Rightarrow> bytes \<Rightarrow> int \<Rightarrow> (jn_error + int \<times> bytes) option" where
  "ReadAt wait j b off =
     (case ReadAt_start j b off of
        None \<Rightarrow> None
      | Some (Inl e) \<Rightarrow> Some (Inl e)
      | Some (Inr st) \<Rightarrow> map_option ReadAt_result (wait st))"

definition jn_Read :: "waiter \<Rightarrow> bytes \<Rightarrow> joiner \<Rightarrow> ((jn_error + int \<times> bytes) \<times> joiner) option" where
  "jn_Read wait b j =
     (case ReadAt wait j b (jn_off j) of
        None \<Rightarrow> None
      | Some (Inl e) \<Rightarrow> Some (Inl e, j)
      | Some (Inr (n, b1)) \<Rightarrow> Some (Inr (n, b1), j\<lparr>jn_off := i64 (jn_off j + n)\<rparr>))"

definition Seek :: "int \<Rightarrow> int \<Rightarrow> joiner \<Rightarrow> (jn_error + int) \<times> joiner" where
  "Seek offset whence j =
     (if whence \<notin> {0, 1, 2} then (Inl ErrWhence, j)
      else
        let offset = (if whence = 0 then offset else if whence = 1 then i64 (offset + jn_off j) else i64 (jn_span j - offset)) in
        if whence = 2 \<and> offset < 0 then (Inl ErrEOF, j)
        else if offset < 0 then (Inl ErrOffset, j)
        else if jn_span j < offset then (Inl ErrEOF, j)
        else (Inr offset, j\<lparr>jn_off := offset\<rparr>))"

definition jn_Size :: "joiner \<Rightarrow> int" where
  "jn_Size j = jn_span j"

section \<open>Reading all of a file\<close>

text \<open>The loop of \<open>JoinReadAll\<close>; \<open>n\<close> is the number of rounds left, \<open>data\<close> the buffer of a chunk that is reused. Writing to
  the output, a buffer in memory, does not fail.\<close>

primrec join_all_loop :: "waiter \<Rightarrow> nat \<Rightarrow> bytes \<Rightarrow> joiner \<Rightarrow> int \<Rightarrow> bytes \<Rightarrow> (jn_error + int \<times> bytes) option" where
  "join_all_loop wait 0 data j total' out = Some (Inr (total', out))"
| "join_all_loop wait (Suc n) data j total' out =
     (case jn_Read wait data j of
        None \<Rightarrow> None
      | Some (Inl e, j1) \<Rightarrow> Some (Inl e)
      | Some (Inr (cr, data1), j1) \<Rightarrow> join_all_loop wait n data1 j1 (i64 (total' + cr)) (out @ take (nat cr) data1))"

definition JoinReadAll :: "waiter \<Rightarrow> joiner \<Rightarrow> (jn_error + bytes) option" where
  "JoinReadAll wait j =
     (let l = jn_Size j in
      case join_all_loop wait (nat ((l + int ChunkSize - 1) div int ChunkSize)) (replicate ChunkSize 0) j 0 [] of
        None \<Rightarrow> None
      | Some (Inl e) \<Rightarrow> Some (Inl e)
      | Some (Inr (total', out)) \<Rightarrow> if total' \<noteq> l then Some (Inl ShortRead) else Some (Inr out))"

end
