(* ===== verification/FileTree.thy ===== *)
theory FileTree
  imports Joiner
begin

text \<open>
  The tree of chunks of a file and reading it back. \<open>subtree R r ref d\<close> says that the reference \<open>ref\<close>, of \<open>r\<close> bytes, is
  the root of a tree whose leaves hold the bytes \<open>d\<close>; \<open>R ref x\<close> relates a reference to the plain data of its chunk.
  All branches of a chunk but the last are full and of the same size. The joiner finds the sizes of the branches from
  the span alone, reads every part into its place whatever the order of the goroutines, and ends.
\<close>

section \<open>Trees of chunks\<close>

text \<open>What a chunk of the tree may hold: data of a chunk's size, or references to \<open>n\<close> branches.\<close>

definition well_sized :: "nat \<Rightarrow> nat \<Rightarrow> bytes \<Rightarrow> bool" where
  "well_sized r span payload \<longleftrightarrow>
     span = length payload \<and> span \<le> 4096 \<or>
     (\<exists>n k L. length payload = n * r \<and> 2 \<le> n \<and> n \<le> 4096 div r \<and> 0 < L \<and> L \<le> 4096 * (4096 div r) ^ k \<and>
        span = 4096 * ((4096 div r) ^ k * (n - 1)) + L \<and> span < 2 ^ 63)"

inductive subtree :: "(bytes \<Rightarrow> bytes \<Rightarrow> bool) \<Rightarrow> nat \<Rightarrow> bytes \<Rightarrow> bytes \<Rightarrow> bool" for R r where
  leaf: "length ref = r \<Longrightarrow> length d \<le> 4096 \<Longrightarrow> R ref (le_bytes 8 (length d) @ d) \<Longrightarrow> subtree R r ref d"
| node: "length ref = r \<Longrightarrow> length refs = length ds \<Longrightarrow> 2 \<le> length ds \<Longrightarrow> length ds \<le> 4096 div r
    \<Longrightarrow> (\<forall>i < length ds. subtree R r (refs ! i) (ds ! i))
    \<Longrightarrow> (\<forall>i < length ds - 1. length (ds ! i) = 4096 * (4096 div r) ^ k)
    \<Longrightarrow> 0 < length (last ds) \<Longrightarrow> length (last ds) \<le> 4096 * (4096 div r) ^ k
    \<Longrightarrow> R ref (le_bytes 8 (length (concat ds)) @ concat refs) \<Longrightarrow> subtree R r ref (concat ds)"

lemma subtree_mono:
  assumes "subtree R r ref d" and "\<And>a x. R a x \<Longrightarrow> R' a x"
  shows "subtree R' r ref d"
  using assms(1)
proof induction
  case (leaf ref d)
  then show ?case using assms(2) by (intro subtree.leaf) auto
next
  case (node ref refs ds k)
  then show ?case using assms(2) by (intro subtree.node [of ref r refs ds R' k]) auto
qed

lemma subtree_ref: "subtree R r ref d \<Longrightarrow> length ref = r"
  by (auto elim: subtree.cases)

lemma length_concat_equal: "(\<forall>x \<in> set xs. length x = m) \<Longrightarrow> length (concat xs) = length xs * m"
  by (induction xs) auto

lemma nth_concat_equal: "(\<forall>x \<in> set xs. length x = m) \<Longrightarrow> i < length xs \<Longrightarrow> take m (drop (i * m) (concat xs)) = xs ! i"
proof (induction xs arbitrary: i)
  case (Cons x xs)
  then show ?case by (cases i) auto
qed simp

lemma subtree_refs_length: "(\<forall>i < length ds. subtree R r (refs ! i) (ds ! i)) \<Longrightarrow> length refs = length ds \<Longrightarrow> \<forall>x \<in> set refs. length x = r"
  by (metis in_set_conv_nth subtree_ref)

text \<open>The sum of the sizes of the branches.\<close>

lemma length_concat_branches:
  assumes "2 \<le> length ds" and "\<forall>i < length ds - 1. length (ds ! i) = B"
  shows "length (concat ds) = B * (length ds - 1) + length (last ds)"
proof -
  have ne: "ds \<noteq> []" using assms(1) by auto
  have "length (concat (butlast ds)) = length (butlast ds) * B"
    using assms(2) by (intro length_concat_equal) (auto simp: in_set_conv_nth nth_butlast)
  then have "length (concat (butlast ds @ [last ds])) = (length ds - 1) * B + length (last ds)" by simp
  then show ?thesis using ne by (simp add: mult.commute)
qed

section \<open>The size of the branches\<close>

lemma branch_loop_step:
  assumes "0 \<le> B * (n - 1)" "B * (n - 1) \<le> S" "S < 2 ^ 63"
  shows "branch_loop S n b B = (if S - B * (n - 1) \<le> B then Some B else branch_loop S n b (i64 (B * b)))"
proof -
  have "i64 (B * (n - 1)) = B * (n - 1)" using assms by (intro i64_id) linarith+
  moreover have "i64 (S - B * (n - 1)) = S - B * (n - 1)" using assms by (intro i64_id) linarith+
  ultimately show ?thesis by (subst branch_loop.simps) (simp only: Let_def)
qed

lemma branch_loop_up:
  assumes "2 \<le> b" "2 \<le> n" "0 < L" "L \<le> 4096 * b ^ k" "4096 * b ^ k * (n - 1) + L < 2 ^ 63"
  shows "j \<le> k \<Longrightarrow> branch_loop (4096 * b ^ k * (n - 1) + L) n b (4096 * b ^ j) = Some (4096 * b ^ k :: int)"
proof (induction "k - j" arbitrary: j)
  case 0
  then have "j = k" by simp
  have "0 \<le> 4096 * b ^ k * (n - 1)" using assms by simp
  then show ?case using assms \<open>j = k\<close> by (subst branch_loop_step) simp_all
next
  case (Suc x)
  let ?S = "4096 * b ^ k * (n - 1) + L" and ?B = "4096 * b ^ j"
  have j: "j < k" using Suc by simp
  have "b ^ Suc j \<le> b ^ k" using j assms(1) by (intro power_increasing) simp_all
  then have up: "?B * b \<le> 4096 * b ^ k" by (simp add: mult.commute)
  have "?B * 2 \<le> ?B * b" using assms(1) by (intro mult_left_mono) simp_all
  then have B: "2 * ?B \<le> 4096 * b ^ k" "0 < ?B" using up assms(1) by (linarith, simp)
  have "2 * ?B * (n - 1) \<le> 4096 * b ^ k * (n - 1)" using B assms(2) by (intro mult_right_mono) simp_all
  then have m: "2 * (?B * (n - 1)) \<le> 4096 * b ^ k * (n - 1)" by simp
  have "?B * 1 \<le> ?B * (n - 1)" using B assms(2) by (intro mult_left_mono) simp_all
  then have ge: "?B \<le> ?B * (n - 1)" by simp
  have "4096 * b ^ k * 1 \<le> 4096 * b ^ k * (n - 1)" using assms(1,2) by (intro mult_left_mono) simp_all
  then have "- (2 ^ 63) \<le> ?B * b" "?B * b < 2 ^ 63" using up B \<open>?B * 2 \<le> ?B * b\<close> assms(3,5) by linarith+
  then have "i64 (?B * b) = ?B * b" by (rule i64_id)
  then have "i64 (?B * b) = 4096 * b ^ Suc j" by (simp add: mult.commute)
  moreover have "branch_loop ?S n b (4096 * b ^ Suc j) = Some (4096 * b ^ k)"
    using Suc.hyps(1) [of "Suc j"] Suc.hyps(2) j by simp
  moreover have "branch_loop ?S n b ?B = branch_loop ?S n b (i64 (?B * b))"
  proof -
    have "0 \<le> ?B * (n - 1)" "?B * (n - 1) \<le> ?S" "\<not> ?S - ?B * (n - 1) \<le> ?B" using m ge B assms(3) by linarith+
    then show ?thesis using assms(5) by (subst branch_loop_step) simp_all
  qed
  ultimately show ?case by simp
qed

lemma subtrieSection_branch:
  assumes r: "0 < r" "2 \<le> 4096 div r" and refs: "length (concat refs) = length ds * r"
    and ds: "2 \<le> length ds" "\<forall>i < length ds - 1. length (ds ! i) = 4096 * (4096 div r) ^ k"
    and last: "0 < length (last ds)" "length (last ds) \<le> 4096 * (4096 div r) ^ k" and bound: "int (length (concat ds)) < 2 ^ 63"
    and i: "i < length ds"
  shows "subtrieSection (concat refs) (i * r) r (int (length (concat ds))) = Some (int (length (ds ! i)))"
proof -
  let ?n = "length ds" and ?b = "4096 div r" and ?L = "length (last ds)"
  let ?B = "4096 * int ?b ^ k"
  have len: "length (concat ds) = 4096 * ?b ^ k * (?n - 1) + ?L" by (rule length_concat_branches [OF ds])
  have S: "int (length (concat ds)) = ?B * (int ?n - 1) + int ?L"
    unfolding len using ds(1) by (simp add: of_nat_diff)
  have bl: "branch_loop (?B * (int ?n - 1) + int ?L) (int ?n) (int ?b) (4096 * int ?b ^ 0) = Some ?B"
  proof (rule branch_loop_up)
    show "?B * (int ?n - 1) + int ?L < 2 ^ 63" using bound S by linarith
    have "int ?L \<le> int (4096 * ?b ^ k)" using last(2) by (rule zle_int [THEN iffD2])
    then show "int ?L \<le> ?B" by simp
  qed (use r ds(1) last in simp_all)
  have n: "length (concat refs) div r = ?n" using refs r(1) by simp
  have le1: "0 \<le> ?B * (int ?n - 1)" using ds(1) by (intro mult_nonneg_nonneg) auto
  then have le: "0 \<le> ?B * (int ?n - 1)" "?B * (int ?n - 1) \<le> int (length (concat ds))" using S by linarith+
  have "i64 ((int ?n - 1) * ?B) = ?B * (int ?n - 1)" using le bound by (subst mult.commute) (intro i64_id; linarith)
  moreover have "i64 (int (length (concat ds)) - ?B * (int ?n - 1)) = int ?L" using S bound le by (subst i64_id) linarith+
  moreover have "int (i * r) = (int ?n - 1) * int r \<longleftrightarrow> i = ?n - 1"
    using r(1) ds(1) by (auto simp: of_nat_diff)
  moreover have "i = ?n - 1 \<Longrightarrow> length (ds ! i) = ?L" using ds(1) by (cases ds) (auto simp: last_conv_nth)
  moreover have "i \<noteq> ?n - 1 \<Longrightarrow> int (length (ds ! i)) = ?B" using ds(2) i by simp
  ultimately show ?thesis using bl S n by (simp add: subtrieSection_def Let_def)
qed

section \<open>The goroutines of a chunk of references\<close>

text \<open>A goroutine reads \<open>c\<close>, a part of the bytes \<open>d\<close> below its reference.\<close>

definition task_ok :: "(bytes \<Rightarrow> bytes \<Rightarrow> bool) \<Rightarrow> nat \<Rightarrow> task \<Rightarrow> bytes \<times> bytes \<Rightarrow> bool" where
  "task_ok R r t dc \<longleftrightarrow>
     subtree R r (tk_address t) (fst dc) \<and> fst dc \<noteq> [] \<and> 0 \<le> tk_cur t \<and> tk_cur t \<le> tk_off t \<and> 0 \<le> tk_bytesToRead t \<and>
     tk_off t - tk_cur t + tk_bytesToRead t \<le> int (length (fst dc)) \<and> tk_cur t + int (length (fst dc)) < 2 ^ 63 \<and>
     snd dc = take (nat (tk_bytesToRead t)) (drop (nat (tk_off t - tk_cur t)) (fst dc))"

text \<open>The parts lie side by side in the buffer.\<close>

fun tiled :: "int \<Rightarrow> task list \<Rightarrow> (bytes \<times> bytes) list \<Rightarrow> bool" where
  "tiled bo [] dcs = True"
| "tiled bo (t # ts) [] = True"
| "tiled bo (t # ts) (dc # dcs) = (tk_bufferOffset t = bo \<and> tiled (bo + int (length (snd dc))) ts dcs)"

definition load_of :: "bytes list \<Rightarrow> nat" where
  "load_of ds = sum_list (map (\<lambda>d. 2 * length d - 1) ds)"

lemma load_of_simps [simp]: "load_of [] = 0" "load_of (d # ds) = 2 * length d - 1 + load_of ds" "load_of (xs @ ys) = load_of xs + load_of ys"
  by (simp_all add: load_of_def)

lemma spawn_loop_ok:
  fixes off cur bytes bo :: int
  assumes sub: "\<forall>i < length ds. subtree R r (refs ! i) (ds ! i) \<and> ds ! i \<noteq> []" and refs: "length refs = length ds" "0 < r"
    and sec: "\<forall>i < length ds. subtrieSection (concat refs) (i * r) r S = Some (int (length (ds ! i)))"
  shows "i \<le> length ds \<Longrightarrow> 0 \<le> cur \<Longrightarrow> cur \<le> off \<Longrightarrow> 0 \<le> bytes \<Longrightarrow> 0 \<le> bo \<Longrightarrow> bo + bytes < 2 ^ 63 \<Longrightarrow>
    off - cur + bytes \<le> int (length (concat (drop i ds))) \<Longrightarrow> cur + int (length (concat (drop i ds))) < 2 ^ 63 \<Longrightarrow>
    \<exists>ts dcs. spawn_loop r (concat refs) S (map (\<lambda>i. i * r) [i..<length ds]) cur off bo bytes = Some (Some ts) \<and>
      list_all2 (task_ok R r) ts dcs \<and> tiled bo ts dcs \<and>
      concat (map snd dcs) = take (nat bytes) (drop (nat (off - cur)) (concat (drop i ds))) \<and>
      load_of (map fst dcs) \<le> load_of (drop i ds)"
proof (induction "length ds - i" arbitrary: i cur off bytes bo)
  case 0
  then show ?case by (intro exI [of _ "[]"]) auto
next
  case (Suc x)
  then have i: "i < length ds" by simp
  let ?d = "ds ! i" and ?rest = "concat (drop (Suc i) ds)"
  have dr: "drop i ds = ?d # drop (Suc i) ds" using i by (simp add: Cons_nth_drop_Suc)
  have up: "[i..<length ds] = i # [Suc i..<length ds]" using i by (simp add: upt_conv_Cons)
  have s: "subtrieSection (concat refs) (i * r) r S = Some (int (length ?d))" using sec i by simp
  have len: "int (length (concat (drop i ds))) = int (length ?d) + int (length ?rest)" by (simp add: dr)
  have c64: "i64 (cur + int (length ?d)) = cur + int (length ?d)" using Suc.prems len by (intro i64_id) linarith+
  note IH = Suc.hyps(1) [of "Suc i"]
  consider "bytes = 0" | "bytes \<noteq> 0" "cur + int (length ?d) < off" | "bytes \<noteq> 0" "off \<le> cur + int (length ?d)" by linarith
  then show ?case
  proof cases
    case 1
    then show ?thesis by (intro exI [of _ "[]"]) (simp add: up)
  next
    case 2
    have "nat (off - cur) = length ?d + nat (off - (cur + int (length ?d)))" using 2 Suc.prems by simp
    then have "drop (nat (off - cur)) (concat (drop i ds)) = drop (nat (off - (cur + int (length ?d)))) ?rest" by (simp add: dr)
    moreover have "\<exists>ts dcs. spawn_loop r (concat refs) S (map (\<lambda>i. i * r) [Suc i..<length ds]) (cur + int (length ?d)) off bo bytes = Some (Some ts) \<and>
      list_all2 (task_ok R r) ts dcs \<and> tiled bo ts dcs \<and>
      concat (map snd dcs) = take (nat bytes) (drop (nat (off - (cur + int (length ?d)))) ?rest) \<and> load_of (map fst dcs) \<le> load_of (drop (Suc i) ds)"
      using 2 Suc.prems Suc.hyps(2) i len by (intro IH) simp_all
    ultimately show ?thesis using 2 s c64 by (fastforce simp: up dr)
  next
    case 3
    define size0 where "size0 = int (length ?d) - (off - cur)"
    define crs where "crs = min bytes size0"
    have crs: "0 \<le> crs" "crs \<le> bytes" "crs \<le> size0" "crs \<le> int (length ?d)" using 3 Suc.prems by (auto simp: crs_def size0_def)
    have e: "(if int (length ?d) < (if bytes < size0 then bytes else size0) then int (length ?d) else if bytes < size0 then bytes else size0) = crs"
      using crs by (auto simp: crs_def)
    have w: "i64 (off - cur) = off - cur" "i64 (int (length ?d) - (off - cur)) = size0"
      "i64 (bo + crs) = bo + crs" "i64 (bytes - crs) = bytes - crs"
      using Suc.prems len crs by (simp_all add: size0_def)
    define t where "t = \<lparr>tk_address = refs ! i, tk_cur = cur, tk_off = off, tk_bufferOffset = bo, tk_bytesToRead = crs\<rparr>"
    define c where "c = take (nat crs) (drop (nat (off - cur)) ?d)"
    have lc: "int (length c) = crs" using crs by (simp add: c_def size0_def)
    have t: "task_ok R r t (?d, c)" using sub i Suc.prems len crs by (simp add: task_ok_def t_def c_def size0_def)
    have rl: "\<forall>x \<in> set refs. length x = r" using sub refs(1) by (intro subtree_refs_length) auto
    have cat: "take r (drop (i * r) (concat refs)) = refs ! i" by (rule nth_concat_equal [OF rl]) (simp add: i refs)
    have "Suc i * r \<le> length refs * r" using i refs(1) by (intro mult_le_mono1) simp
    then have room: "i * r + r \<le> length (concat refs)" using length_concat_equal [OF rl] by simp
    have split: "take (nat bytes) (drop (nat (off - cur)) (concat (drop i ds))) = c @ take (nat (bytes - crs)) ?rest"
    proof -
      have k: "nat (off - cur) \<le> length ?d" using 3 Suc.prems by simp
      have "nat bytes - (length ?d - nat (off - cur)) = nat (bytes - crs)"
        using k Suc.prems by (auto simp: crs_def size0_def min_def)
      moreover have "take (nat bytes) (drop (nat (off - cur)) ?d) = c"
        using k Suc.prems by (auto simp: c_def crs_def size0_def min_def)
      ultimately show ?thesis using k by (simp add: dr)
    qed
    let ?cur = "cur + int (length ?d)"
    have "\<exists>ts dcs. spawn_loop r (concat refs) S (map (\<lambda>i. i * r) [Suc i..<length ds]) ?cur ?cur (bo + crs) (bytes - crs) = Some (Some ts) \<and>
      list_all2 (task_ok R r) ts dcs \<and> tiled (bo + crs) ts dcs \<and>
      concat (map snd dcs) = take (nat (bytes - crs)) (drop (nat (?cur - ?cur)) ?rest) \<and> load_of (map fst dcs) \<le> load_of (drop (Suc i) ds)"
    proof (rule IH)
      show "?cur - ?cur + (bytes - crs) \<le> int (length ?rest)" using Suc.prems(7) len by (auto simp: crs_def size0_def min_def)
    qed (use Suc.prems Suc.hyps(2) i len crs in simp_all)
    then obtain ts dcs where IH': "spawn_loop r (concat refs) S (map (\<lambda>i. i * r) [Suc i..<length ds]) ?cur ?cur (bo + crs) (bytes - crs) = Some (Some ts)"
      "list_all2 (task_ok R r) ts dcs" "tiled (bo + crs) ts dcs" "concat (map snd dcs) = take (nat (bytes - crs)) ?rest"
      "load_of (map fst dcs) \<le> load_of (drop (Suc i) ds)"
      by auto
    have "spawn_loop r (concat refs) S (map (\<lambda>i. i * r) [i..<length ds]) cur off bo bytes = Some (Some (t # ts))"
      using 3 s c64 w room IH'(1) cat e by (simp add: up Let_def NewAddress_def t_def)
    then show ?thesis using t IH' lc split by (intro exI [of _ "t # ts"] exI [of _ "(?d, c) # dcs"]) (simp add: t_def dr)
  qed
qed

section \<open>Running a goroutine\<close>

lemma leaf_copy_ok:
  assumes "0 \<le> cur" "cur \<le> off" "0 \<le> bytes" "off - cur + bytes \<le> int (length d)" "int (length d) < 2 ^ 63"
  shows "leaf_copy d cur off bytes = Some (take (nat bytes) (drop (nat (off - cur)) d))"
proof -
  have w: "i64 (off - cur) = off - cur" "i64 (int (length d) - (off - cur)) = int (length d) - (off - cur)"
    "i64 (off - cur + bytes) = off - cur + bytes"
    using assms by (simp_all)
  have "slice (off - cur) (off - cur + bytes) d = Some (take (nat bytes) (drop (nat (off - cur)) d))"
    using assms by (simp add: slice_def)
  moreover have "\<not> int (length d) - (off - cur) < bytes" using assms by simp
  ultimately show ?thesis by (simp add: leaf_copy_def Let_def w)
qed

lemma load_of_nonempty: "\<forall>d \<in> set ds. d \<noteq> [] \<Longrightarrow> load_of ds + length ds = 2 * length (concat ds)"
proof (induction ds)
  case (Cons d ds)
  then have "1 \<le> length d" by (cases d) auto
  with Cons show ?case by simp
qed simp

text \<open>The size of a reference: 32 bytes, or 64 with the key.\<close>

definition ref_size :: "nat \<Rightarrow> bool" where
  "ref_size r \<longleftrightarrow> r = 32 \<or> r = 64"

lemma ref_sizeD: "ref_size r \<Longrightarrow> 0 < r \<and> 2 \<le> 4096 div r \<and> 4096 div r * r = 4096"
  by (auto simp: ref_size_def)

lemma cursors_refs: "0 < r \<Longrightarrow> length data = n * r \<Longrightarrow> cursors r data = map (\<lambda>i. i * r) [0..<n]"
proof -
  assume r: "0 < r" and l: "length data = n * r"
  have "(r - 1 + n * r) div r = n" using r by (simp only: div_mult_self1) simp
  moreover have "n * r + r - 1 = r - 1 + n * r" using r by simp
  ultimately show ?thesis using l by (simp only: cursors_def)
qed

text \<open>What reading a part \<open>c\<close> of the bytes below a reference does: it copies them, or starts goroutines for its parts.\<close>

definition reads_part :: "(bytes \<Rightarrow> bytes \<Rightarrow> bool) \<Rightarrow> nat \<Rightarrow> int \<Rightarrow> bytes \<Rightarrow> bytes \<Rightarrow> read_result \<Rightarrow> bool" where
  "reads_part R r bo d c res \<longleftrightarrow>
     res = Copy bo c \<or>
     (\<exists>ts dcs. res = Spawn ts \<and> list_all2 (task_ok R r) ts dcs \<and> tiled bo ts dcs \<and> concat (map snd dcs) = c \<and>
        load_of (map fst dcs) < 2 * length d - 1)"

lemma readAtOffset_ok:
  assumes r: "ref_size r" and sub: "subtree R r ref d" and cur: "0 \<le> cur" "cur \<le> off" "0 \<le> bytes"
    and inside: "off - cur + bytes \<le> int (length d)" and bound: "cur + int (length d) < 2 ^ 63" and bo: "0 \<le> bo" "bo + bytes < 2 ^ 63"
  shows "\<exists>x res. R ref x \<and> 8 \<le> length x \<and> i64 (int (chunkToSpan x)) = int (length d) \<and>
    readAtOffset r (drop 8 x) cur (int (length d)) off bo bytes = Some res \<and>
    reads_part R r bo d (take (nat bytes) (drop (nat (off - cur)) d)) res"
  using sub
proof cases
  case leaf
  let ?x = "le_bytes 8 (length d) @ d"
  have "int (length d) < 2 ^ 63" using bound cur by linarith
  then have "readAtOffset r (drop 8 ?x) cur (int (length d)) off bo bytes = Some (Copy bo (take (nat bytes) (drop (nat (off - cur)) d)))"
    using leaf_copy_ok [OF cur inside] by (simp add: readAtOffset_def)
  moreover have "i64 (int (chunkToSpan ?x)) = int (length d)" using leaf(2) by (simp add: chunkToSpan_def)
  ultimately show ?thesis using leaf(3) by (intro exI [of _ ?x]) (auto simp: reads_part_def)
next
  case (node refs ds k)
  let ?x = "le_bytes 8 (length d) @ concat refs"
  have d: "int (length (concat ds)) < 2 ^ 63" using bound cur(1) unfolding node(1) by linarith
  have rl: "\<forall>x \<in> set refs. length x = r" by (rule subtree_refs_length [OF node(6,3)])
  have cr: "length (concat refs) = length ds * r" using length_concat_equal [OF rl] node(3) by simp
  have r': "0 < r" "2 \<le> 4096 div r" "4096 div r * r = 4096" using ref_sizeD [OF r] by auto
  have sec: "\<forall>i < length ds. subtrieSection (concat refs) (i * r) r (int (length (concat ds))) = Some (int (length (ds ! i)))"
    using subtrieSection_branch [OF r'(1,2) cr node(4,7,8,9) d] by blast
  have ne: "ds ! i \<noteq> []" if "i < length ds" for i
  proof (cases "i < length ds - 1")
    case True
    then have "length (ds ! i) = 4096 * (4096 div r) ^ k" using node(7) by simp
    then show ?thesis using r'(2) by auto
  next
    case False
    then have "ds ! i = last ds" using that node(4) by (cases ds) (auto simp: last_conv_nth less_Suc_eq)
    then show ?thesis using node(8) by auto
  qed
  have small: "length (concat refs) < length (concat ds)"
  proof -
    have "length ds * r \<le> 4096" using node(5) r'(3) by (metis mult_le_mono1)
    moreover have "4096 * 1 * 1 \<le> 4096 * (4096 div r) ^ k * (length ds - 1)" using node(4) r'(2) by (intro mult_le_mono) auto
    ultimately show ?thesis using length_concat_branches [OF node(4,7)] node(8) cr by linarith
  qed
  obtain ts dcs where ts: "spawn_loop r (concat refs) (int (length (concat ds))) (map (\<lambda>i. i * r) [0..<length ds]) cur off bo bytes = Some (Some ts)"
    "list_all2 (task_ok R r) ts dcs" "tiled bo ts dcs" "concat (map snd dcs) = take (nat bytes) (drop (nat (off - cur)) (concat ds))"
    "load_of (map fst dcs) \<le> load_of ds"
    using spawn_loop_ok [OF _ node(3) r'(1) sec, of R 0 cur off bytes bo] node(1,6) ne cur inside bound bo by auto
  have "readAtOffset r (drop 8 ?x) cur (int (length d)) off bo bytes = Some (Spawn ts)"
    using small ts(1) cursors_refs [OF r'(1) cr] node(1) by (simp add: readAtOffset_def)
  moreover have "i64 (int (chunkToSpan ?x)) = int (length d)"
  proof -
    have "length d < 256 ^ 8" using d node(1) by simp
    then have "chunkToSpan ?x = length d" by (simp add: chunkToSpan_def)
    moreover have "i64 (int (length d)) = int (length d)" using d node(1) by (intro i64_id) simp_all
    ultimately show ?thesis by simp
  qed
  moreover have "load_of (map fst dcs) < 2 * length d - 1"
  proof -
    have "load_of ds + length ds = 2 * length (concat ds)" using ne by (intro load_of_nonempty) (auto simp: in_set_conv_nth)
    then show ?thesis using ts(5) node(4) unfolding node(1) by linarith
  qed
  ultimately show ?thesis using node(1,10) ts(2-4) by (intro exI [of _ ?x] exI [of _ "Spawn ts"]) (auto simp: reads_part_def)
qed

section \<open>Every schedule reads the same bytes\<close>

text \<open>A pending goroutine with the bytes below its reference and the part it reads, which belongs at its place in \<open>T\<close>.\<close>

type_synonym piece = "task \<times> bytes \<times> bytes"

definition piece_ok :: "(bytes \<Rightarrow> bytes \<Rightarrow> bool) \<Rightarrow> nat \<Rightarrow> bytes \<Rightarrow> piece \<Rightarrow> bool" where
  "piece_ok R r T p \<longleftrightarrow>
     task_ok R r (fst p) (snd p) \<and> 0 \<le> tk_bufferOffset (fst p) \<and>
     tk_bufferOffset (fst p) + int (length (snd (snd p))) \<le> int (length T) \<and>
     take (length (snd (snd p))) (drop (nat (tk_bufferOffset (fst p))) T) = snd (snd p)"

definition covers :: "piece \<Rightarrow> nat \<Rightarrow> bool" where
  "covers p x \<longleftrightarrow> tk_bufferOffset (fst p) \<le> int x \<and> int x < tk_bufferOffset (fst p) + int (length (snd (snd p)))"

definition left_to_read :: "piece list \<Rightarrow> int" where
  "left_to_read ps = sum_list (map (\<lambda>p. int (length (snd (snd p)))) ps)"

lemma left_to_read_simps [simp]:
  "left_to_read [] = 0" "left_to_read (p # ps) = int (length (snd (snd p))) + left_to_read ps"
  "left_to_read (xs @ ys) = left_to_read xs + left_to_read ys"
  by (simp_all add: left_to_read_def)

lemma left_to_read_concat: "left_to_read (zip ts dcs) = int (length (concat (map snd dcs)))" if "length ts = length dcs"
  using that by (induction ts dcs rule: list_induct2) simp_all

lemma tiles_cover:
  "tiled bo ts dcs \<Longrightarrow> list_all2 (task_ok R r) ts dcs \<Longrightarrow> bo \<le> int x \<Longrightarrow> int x < bo + int (length (concat (map snd dcs))) \<Longrightarrow>
   \<exists>p \<in> set (zip ts dcs). covers p x"
proof (induction bo ts dcs rule: tiled.induct)
  case (3 bo t ts dc dcs)
  then show ?case by (cases "int x < bo + int (length (snd dc))") (auto simp: covers_def)
qed auto

lemma tiles_ok:
  "tiled bo ts dcs \<Longrightarrow> list_all2 (task_ok R r) ts dcs \<Longrightarrow> 0 \<le> bo \<Longrightarrow> bo + int (length (concat (map snd dcs))) \<le> int (length T) \<Longrightarrow>
   take (length (concat (map snd dcs))) (drop (nat bo) T) = concat (map snd dcs) \<Longrightarrow> \<forall>p \<in> set (zip ts dcs). piece_ok R r T p"
proof (induction bo ts dcs rule: tiled.induct)
  case (3 bo t ts dc dcs)
  let ?c = "snd dc" and ?cs = "concat (map snd dcs)"
  have split: "take (length ?c) (drop (nat bo) T) @ take (length ?cs) (drop (length ?c) (drop (nat bo) T)) = ?c @ ?cs"
    using 3(6) by (simp add: take_add)
  have "length (take (length ?c) (drop (nat bo) T)) = length ?c" using 3(4,5) by simp
  then have c: "take (length ?c) (drop (nat bo) T) = ?c" "take (length ?cs) (drop (length ?c) (drop (nat bo) T)) = ?cs"
    using split by (metis append_eq_append_conv)+
  have "drop (nat (bo + int (length ?c))) T = drop (length ?c) (drop (nat bo) T)"
    using 3(4) by (simp add: nat_add_distrib add.commute)
  then have "\<forall>p \<in> set (zip ts dcs). piece_ok R r T p" using 3(1) 3(2-5) c(2) by simp
  moreover have "piece_ok R r T (t, dc)" using 3(2-5) c(1) by (simp add: piece_ok_def)
  ultimately show ?case by simp
qed auto

definition join_inv :: "(bytes \<Rightarrow> bytes \<Rightarrow> bool) \<Rightarrow> nat \<Rightarrow> bytes \<Rightarrow> bytes \<Rightarrow> piece list \<Rightarrow> join_state \<Rightarrow> bool" where
  "join_inv R r T b0 ps st \<longleftrightarrow>
     js_pending st = map fst ps \<and> js_err st = None \<and> (\<forall>p \<in> set ps. piece_ok R r T p) \<and>
     length (js_buffer st) = length b0 \<and> drop (length T) (js_buffer st) = drop (length T) b0 \<and>
     (\<forall>x < length T. js_buffer st ! x = T ! x \<or> (\<exists>p \<in> set ps. covers p x)) \<and>
     js_read st = int (length T) - left_to_read ps \<and> left_to_read ps \<le> int (length T)"

definition piece_load :: "piece list \<Rightarrow> nat" where
  "piece_load ps = load_of (map (\<lambda>p. fst (snd p)) ps)"

lemma left_to_read_nonneg: "0 \<le> left_to_read ps"
  by (induction ps) simp_all

lemma effect_copy:
  assumes inv: "join_inv R r T b0 (A @ p # B) (st\<lparr>js_pending := map fst (A @ p # B)\<rparr>)" and p: "p = (t, d, c)"
    and T: "length T \<le> length b0" "int (length T) < 2 ^ 63"
  shows "join_inv R r T b0 (A @ B) (read_effect (Copy (tk_bufferOffset t) c) (st\<lparr>js_pending := map fst (A @ B)\<rparr>))"
proof -
  let ?bo = "tk_bufferOffset t" and ?buf = "js_buffer st"
  have pc: "piece_ok R r T p" and buf: "length ?buf = length b0" "drop (length T) ?buf = drop (length T) b0"
    and cov: "\<forall>x < length T. ?buf ! x = T ! x \<or> (\<exists>q \<in> set (A @ p # B). covers q x)"
    and rd: "js_read st = int (length T) - left_to_read (A @ p # B)" "left_to_read (A @ p # B) \<le> int (length T)"
    using inv by (simp_all add: join_inv_def)
  have bo: "0 \<le> ?bo" "?bo + int (length c) \<le> int (length T)" "take (length c) (drop (nat ?bo) T) = c"
    using pc by (simp_all add: piece_ok_def p)
  let ?new = "take (nat ?bo) ?buf @ c @ drop (nat ?bo + length c) ?buf"
  have lb: "nat ?bo + length c \<le> length ?buf" using bo(1,2) T(1) buf(1) by linarith
  have nth: "?new ! x = (if covers p x then T ! x else ?buf ! x)" if "x < length T" for x
  proof (cases "covers p x")
    case True
    then obtain i where i: "x = nat ?bo + i" "i < length c"
      using bo(1) by (intro that [of "x - nat ?bo"] that) (auto simp: covers_def p)
    then have "T ! x = c ! i" using bo(1,2) arg_cong [OF bo(3), of "\<lambda>l. l ! i"] by (simp add: add.commute)
    then show ?thesis using True i lb by (simp add: nth_append)
  next
    case False
    then have "int x < ?bo \<or> ?bo + int (length c) \<le> int x" by (auto simp: covers_def p)
    moreover have "x < length ?buf" using that T(1) buf(1) by simp
    ultimately show ?thesis using False lb bo(1) by (auto simp: nth_append min_def nat_less_iff)
  qed
  have "drop (length T) ?new = drop (length T) ?buf" using lb bo(1,2) by simp
  moreover have "i64 (js_read st + int (length c)) = int (length T) - left_to_read (A @ B)"
  proof -
    have "js_read st + int (length c) = int (length T) - left_to_read (A @ B)" "left_to_read (A @ B) \<le> int (length T)"
      using rd by (simp_all add: p)
    then show ?thesis using T(2) left_to_read_nonneg [of "A @ B"] by (simp only:) (intro i64_id; linarith)
  qed
  moreover have "\<forall>x < length T. ?new ! x = T ! x \<or> (\<exists>q \<in> set (A @ B). covers q x)" using cov nth by auto
  ultimately show ?thesis using inv buf bo(1,2) lb T(1) by (simp add: join_inv_def read_effect_def p)
qed

lemma effect_spawn:
  assumes inv: "join_inv R r T b0 (A @ p # B) (st\<lparr>js_pending := map fst (A @ p # B)\<rparr>)" and p: "p = (t, d, c)"
    and ts: "list_all2 (task_ok R r) ts dcs" "tiled (tk_bufferOffset t) ts dcs" "concat (map snd dcs) = c"
  shows "join_inv R r T b0 ((A @ B) @ zip ts dcs) (read_effect (Spawn ts) (st\<lparr>js_pending := map fst (A @ B)\<rparr>))"
proof -
  have len: "length ts = length dcs" using ts(1) by (rule list_all2_lengthD)
  have pc: "piece_ok R r T p" using inv by (simp add: join_inv_def)
  have new: "\<forall>q \<in> set (zip ts dcs). piece_ok R r T q"
    by (rule tiles_ok [OF ts(2,1)]) (use pc in \<open>simp_all add: piece_ok_def p ts(3)\<close>)
  have cov: "\<exists>q \<in> set (zip ts dcs). covers q x" if "covers p x" for x
    using tiles_cover [OF ts(2,1)] that by (simp add: covers_def p ts(3))
  have "left_to_read (zip ts dcs) = int (length c)" using left_to_read_concat [OF len] ts(3) by simp
  moreover have "js_buffer st ! x = T ! x \<or> (\<exists>q \<in> set ((A @ B) @ zip ts dcs). covers q x)" if "x < length T" for x
  proof -
    have "js_buffer st ! x = T ! x \<or> covers p x \<or> (\<exists>q \<in> set (A @ B). covers q x)"
      using inv that by (auto simp: join_inv_def)
    then show ?thesis using cov [of x] by auto
  qed
  ultimately show ?thesis using inv new len by (auto simp: join_inv_def read_effect_def p)
qed

lemma piece_load_simps [simp]:
  "piece_load [] = 0" "piece_load (p # ps) = 2 * length (fst (snd p)) - 1 + piece_load ps" "piece_load (xs @ ys) = piece_load xs + piece_load ys"
  by (simp_all add: piece_load_def)

lemma piece_load_zip: "length ts = length dcs \<Longrightarrow> piece_load (zip ts dcs) = load_of (map fst dcs)"
  by (induction ts dcs rule: list_induct2) simp_all

lemma reads_part_inv:
  assumes inv: "join_inv R r T b0 (A @ p # B) (st\<lparr>js_pending := map fst (A @ p # B)\<rparr>)" and p: "p = (t, d, c)"
    and T: "length T \<le> length b0" "int (length T) < 2 ^ 63" and res: "reads_part R r (tk_bufferOffset t) d c res"
  shows "\<exists>ps'. join_inv R r T b0 ps' (read_effect res (st\<lparr>js_pending := map fst (A @ B)\<rparr>)) \<and> piece_load ps' < piece_load (A @ p # B)"
proof -
  have "d \<noteq> []" using inv by (simp add: join_inv_def piece_ok_def task_ok_def p)
  then have d: "0 < 2 * length d - 1" by (cases d) simp_all
  show ?thesis
    using res unfolding reads_part_def
  proof (elim disjE exE conjE)
    assume "res = Copy (tk_bufferOffset t) c"
    then show ?thesis using effect_copy [OF inv p T] d by (intro exI [of _ "A @ B"]) (simp add: p)
  next
    fix ts dcs assume ts: "res = Spawn ts" "list_all2 (task_ok R r) ts dcs" "tiled (tk_bufferOffset t) ts dcs" "concat (map snd dcs) = c"
      "load_of (map fst dcs) < 2 * length d - 1"
    have "length ts = length dcs" using ts(2) by (rule list_all2_lengthD)
    then show ?thesis using effect_spawn [OF inv p ts(2-4)] ts(1,5)
      by (intro exI [of _ "(A @ B) @ zip ts dcs"]) (simp add: p piece_load_zip)
  qed
qed

text \<open>The getter returns the chunks that the relation \<open>R\<close> knows.\<close>

locale chunk_reader =
  fixes get :: getter and R :: "bytes \<Rightarrow> bytes \<Rightarrow> bool" and r :: nat
  assumes r: "ref_size r" and got: "R a x \<Longrightarrow> \<exists>addr. get a = Inr (addr, x)"
begin

lemma exec_ok:
  assumes inv: "join_inv R r T b0 ps st" and k: "k < length (js_pending st)" and T: "length T \<le> length b0" "int (length T) < 2 ^ 63"
  shows "\<exists>st' ps'. exec_task get r k st = Some st' \<and> join_inv R r T b0 ps' st' \<and> piece_load ps' < piece_load ps"
proof -
  define A where "A = take k ps"
  define B where "B = drop (Suc k) ps"
  have pend: "js_pending st = map fst ps" using inv by (simp add: join_inv_def)
  then have ps: "ps = A @ ps ! k # B" using k by (simp add: A_def B_def id_take_nth_drop)
  obtain t d c where p: "ps ! k = (t, d, c)" by (metis prod.collapse)
  have pc: "piece_ok R r T (t, d, c)" using inv ps p by (metis in_set_conv_decomp join_inv_def)
  note t = pc [unfolded piece_ok_def task_ok_def, simplified]
  have lc: "int (length c) = tk_bytesToRead t" using t by auto
  obtain x res where x: "R (tk_address t) x" "8 \<le> length x" "i64 (int (chunkToSpan x)) = int (length d)"
    "readAtOffset r (drop 8 x) (tk_cur t) (int (length d)) (tk_off t) (tk_bufferOffset t) (tk_bytesToRead t) = Some res"
    "reads_part R r (tk_bufferOffset t) d c res"
    using readAtOffset_ok [OF r, of R "tk_address t" d "tk_cur t" "tk_off t" "tk_bytesToRead t" "tk_bufferOffset t"] t lc T(2) by auto
  obtain addr where g: "get (tk_address t) = Inr (addr, x)" using got [OF x(1)] by blast
  have "js_pending st ! k = t" "take k (js_pending st) @ drop (Suc k) (js_pending st) = map fst (A @ B)"
    using k pend p by (simp_all add: A_def B_def take_map drop_map)
  then have "exec_task get r k st = Some (read_effect res (st\<lparr>js_pending := map fst (A @ B)\<rparr>))"
    using g x by (simp add: exec_task_def run_task_def)
  moreover have "join_inv R r T b0 (A @ (t, d, c) # B) (st\<lparr>js_pending := map fst (A @ (t, d, c) # B)\<rparr>)"
  proof -
    have "st = st\<lparr>js_pending := map fst ps\<rparr>" by (simp add: pend [symmetric])
    then show ?thesis using inv ps p by metis
  qed
  ultimately show ?thesis using reads_part_inv [OF _ refl T x(5)] ps p by metis
qed

lemma run_inv:
  assumes "join_run get r st st'" and "join_inv R r T b0 ps st" and "length T \<le> length b0" and "int (length T) < 2 ^ 63"
  shows "\<exists>ps'. join_inv R r T b0 ps' st'"
  using assms(1,2)
proof (induction arbitrary: ps)
  case (step k st st1 st2)
  then show ?case using exec_ok [OF step.prems step.hyps(1) assms(3,4)] by fastforce
qed blast

lemma no_infinite_run:
  assumes "join_inv R r T b0 ps (f 0)" and "length T \<le> length b0" and "int (length T) < 2 ^ 63"
    and step: "\<forall>i. \<exists>k < length (js_pending (f i)). exec_task get r k (f i) = Some (f (Suc i))"
  shows False
proof -
  have "\<exists>ps'. join_inv R r T b0 ps' (f i) \<and> piece_load ps' + i \<le> piece_load ps" for i
  proof (induction i)
    case (Suc i)
    then obtain ps' where ps': "join_inv R r T b0 ps' (f i)" "piece_load ps' + i \<le> piece_load ps" by blast
    obtain k where k: "k < length (js_pending (f i))" "exec_task get r k (f i) = Some (f (Suc i))" using step by blast
    then show ?case using exec_ok [OF ps'(1) k(1) assms(2,3)] k(2) ps'(2) by fastforce
  qed (use assms(1) in auto)
  from this [of "Suc (piece_load ps)"] show False by auto
qed

lemma exec_finishes:
  assumes "join_inv R r T b0 ps st" and "length T \<le> length b0" and "int (length T) < 2 ^ 63" and "piece_load ps \<le> n"
  shows "\<exists>st'. join_exec get r n st = Some st' \<and> js_pending st' = [] \<and> join_run get r st st'"
  using assms(1,4)
proof (induction n arbitrary: ps st)
  case 0
  have "js_pending st = []"
  proof (rule ccontr)
    assume "js_pending st \<noteq> []"
    then show False using exec_ok [OF 0(1) _ assms(2,3), of 0] 0(2) by auto
  qed
  then show ?case by (auto intro: join_run.finished)
next
  case (Suc n)
  show ?case
  proof (cases "js_pending st = []")
    case False
    then obtain st1 ps1 where st1: "exec_task get r 0 st = Some st1" "join_inv R r T b0 ps1 st1" "piece_load ps1 < piece_load ps"
      using exec_ok [OF Suc(2) _ assms(2,3), of 0] by auto
    then obtain st' where "join_exec get r n st1 = Some st'" "js_pending st' = []" "join_run get r st1 st'"
      using Suc.IH [of ps1 st1] Suc(3) by auto
    then show ?thesis using False st1(1) by (auto intro: join_run.step [of 0])
  qed (auto intro: join_run.finished)
qed

lemma finished_state:
  assumes "join_inv R r T b0 ps st" and "js_pending st = []" and "length T \<le> length b0"
  shows "ReadAt_result st = Inr (int (length T), T @ drop (length T) b0)"
proof -
  have ps: "ps = []" using assms(1,2) by (simp add: join_inv_def)
  have "take (length T) (js_buffer st) = T" using assms(1,3) ps by (intro nth_equalityI) (auto simp: join_inv_def)
  then have "js_buffer st = T @ drop (length T) b0" using assms(1) by (metis append_take_drop_id join_inv_def)
  then show ?thesis using assms(1) ps by (simp add: ReadAt_result_def join_inv_def)
qed

lemma joiner_of_subtree:
  assumes sub: "subtree R r ref d" and bound: "int (length d) < 2 ^ 63"
  shows "\<exists>x addr. R ref x \<and> 8 \<le> length x \<and> i64 (int (chunkToSpan x)) = int (length d) \<and>
    New_joiner get ref = Inr (\<lparr>jn_addr = addr, jn_rootData = drop 8 x, jn_span = int (length d), jn_off = 0, jn_refLength = r\<rparr>, int (length d))"
proof -
  obtain x where x: "R ref x" "8 \<le> length x" "i64 (int (chunkToSpan x)) = int (length d)"
    using readAtOffset_ok [OF r sub, of 0 0 0 0] bound by auto
  obtain addr where "get ref = Inr (addr, x)" using got [OF x(1)] by blast
  then show ?thesis using x subtree_ref [OF sub] by (auto simp: New_joiner_def SpanSize_def Let_def)
qed

lemma ReadAt_start_ok:
  assumes sub: "subtree R r ref d" and bound: "int (length d) < 2 ^ 63" and j: "New_joiner get ref = Inr (j, l)"
    and off: "0 \<le> off" "off < int (length d)" and b: "int (length b) < 2 ^ 63"
    and T: "T = take (length b) (drop (nat off) d)"
  shows "\<exists>st ps. ReadAt_start (j\<lparr>jn_off := off'\<rparr>) b off = Some (Inr st) \<and> join_inv R r T b ps st \<and> piece_load ps \<le> 2 * length d"
proof -
  obtain x addr where x: "R ref x" and jn: "j = \<lparr>jn_addr = addr, jn_rootData = drop 8 x, jn_span = int (length d), jn_off = 0, jn_refLength = r\<rparr>"
    using joiner_of_subtree [OF sub bound] j by auto
  define m where "m = min (int (length b)) (int (length d) - off)"
  have m: "0 \<le> m" "m \<le> int (length b)" "off - 0 + m \<le> int (length d)" "0 + m < 2 ^ 63" using off b by (auto simp: m_def)
  have T': "T = take (nat m) (drop (nat (off - 0)) d)" using off by (auto simp: T m_def min_def)
  obtain x' res where x': "R ref x'" and res: "readAtOffset r (drop 8 x') 0 (int (length d)) off 0 m = Some res" "reads_part R r 0 d T res"
    using readAtOffset_ok [OF r sub _ off(1) m(1,3) _ _ m(4)] bound T' by auto
  have "x' = x" using got [OF x] got [OF x'] by auto
  let ?t = "\<lparr>tk_address = ref, tk_cur = 0, tk_off = off, tk_bufferOffset = 0, tk_bytesToRead = m\<rparr>"
  let ?st = "\<lparr>js_pending = [], js_buffer = b, js_read = 0, js_err = None\<rparr>"
  have lT: "int (length T) = m" using m off by (simp add: T')
  have "d \<noteq> []" using off by auto
  then have "piece_ok R r T (?t, d, T)" using sub off m(3) bound T' by (simp add: piece_ok_def task_ok_def m(1))
  then have "join_inv R r T b ([] @ (?t, d, T) # []) (?st\<lparr>js_pending := map fst ([] @ (?t, d, T) # [])\<rparr>)"
    by (simp add: join_inv_def covers_def)
  moreover have "length T \<le> length b" "int (length T) < 2 ^ 63" using lT m by linarith+
  ultimately obtain ps where "join_inv R r T b ps (read_effect res (?st\<lparr>js_pending := map fst ([] @ [])\<rparr>))" "piece_load ps < piece_load ([] @ (?t, d, T) # [])"
    using reads_part_inv [of R r T b "[]" "(?t, d, T)" "[]" ?st ?t d T res] res(2) by auto
  moreover have "i64 (int (length d) - off) = int (length d) - off" using off bound by (intro i64_id) linarith+
  then have "ReadAt_start (j\<lparr>jn_off := off'\<rparr>) b off = Some (Inr (read_effect res ?st))"
    using off res(1) \<open>x' = x\<close> by (simp add: ReadAt_start_def jn Let_def m_def min_def not_less split: if_splits)
  ultimately show ?thesis by auto
qed

text \<open>Reading a chunk's worth from the current offset, the oldest goroutine first.\<close>

lemma Read_ok:
  assumes sub: "subtree R r ref d" and bound: "int (length d) < 2 ^ 63" and j: "New_joiner get ref = Inr (j, l)"
    and off: "off < length d" and b: "length b = ChunkSize" and fuel: "2 * length d \<le> fuel"
  shows "\<exists>b1. jn_Read (join_exec get r fuel) b (j\<lparr>jn_off := int off\<rparr>) =
      Some (Inr (int (length (take ChunkSize (drop off d))), b1), j\<lparr>jn_off := int (off + length (take ChunkSize (drop off d)))\<rparr>) \<and>
    length b1 = ChunkSize \<and> take (length (take ChunkSize (drop off d))) b1 = take ChunkSize (drop off d)"
proof -
  let ?T = "take ChunkSize (drop off d)"
  have c: "int ChunkSize < 2 ^ 63" by (simp add: ChunkSize_def SectionSize_def Branches_def)
  obtain st ps where st: "ReadAt_start (j\<lparr>jn_off := int off\<rparr>) b (int off) = Some (Inr st)" "join_inv R r ?T b ps st" "piece_load ps \<le> 2 * length d"
    using ReadAt_start_ok [OF sub bound j, of "int off" b ?T "int off"] off b c by auto
  have T: "length ?T \<le> length b" "int (length ?T) < 2 ^ 63" using b c by (simp_all add: min_def)
  obtain st' where st': "join_exec get r fuel st = Some st'" "js_pending st' = []" "join_run get r st st'"
    using exec_finishes [OF st(2) T, of fuel] st(3) fuel by auto
  obtain ps' where "join_inv R r ?T b ps' st'" using run_inv [OF st'(3) st(2) T] by blast
  then have res: "ReadAt_result st' = Inr (int (length ?T), ?T @ drop (length ?T) b)" using finished_state st'(2) T(1) by blast
  have "off + length ?T \<le> length d" using off by simp
  then have "i64 (int off + int (length ?T)) = int (off + length ?T)" using bound by (subst i64_id) linarith+
  moreover have "take (min (length d - off) ChunkSize) (drop off d) = ?T" by (simp add: min_def)
  ultimately show ?thesis using st(1) st'(1) res T(1) b by (simp add: jn_Read_def ReadAt_def)
qed

lemma join_all_loop_ok:
  assumes sub: "subtree R r ref d" and bound: "int (length d) < 2 ^ 63" and j: "New_joiner get ref = Inr (j, l)" and fuel: "2 * length d \<le> fuel"
  shows "off \<le> length d \<Longrightarrow> length b = ChunkSize \<Longrightarrow> n = (length d - off + 4095) div 4096 \<Longrightarrow>
    join_all_loop (join_exec get r fuel) n b (j\<lparr>jn_off := int off\<rparr>) (int off) (take off d) = Some (Inr (int (length d), d))"
proof (induction n arbitrary: off b)
  case 0
  then have "off = length d" by simp
  then show ?case by simp
next
  case (Suc n)
  let ?T = "take ChunkSize (drop off d)"
  have cs: "ChunkSize = 4096" by (simp add: ChunkSize_def SectionSize_def Branches_def)
  have off: "off < length d" using Suc.prems by (cases "off < length d") auto
  obtain b1 where rd: "jn_Read (join_exec get r fuel) b (j\<lparr>jn_off := int off\<rparr>) =
      Some (Inr (int (length ?T), b1), j\<lparr>jn_off := int (off + length ?T)\<rparr>)" "length b1 = ChunkSize" "take (length ?T) b1 = ?T"
    using Read_ok [OF sub bound j off Suc.prems(2) fuel] by blast
  have off': "off + length ?T \<le> length d" using off by simp
  then have w: "i64 (int off + int (length ?T)) = int (off + length ?T)" using bound by (subst i64_id) linarith+
  have n: "n = (length d - (off + length ?T) + 4095) div 4096" using Suc.prems(3) off by (auto simp: cs min_def)
  have "take off d @ ?T = take (off + length ?T) d" by (simp add: take_add min_def)
  then show ?case using Suc.IH [OF off' rd(2) n] rd w by simp
qed

lemma JoinReadAll_ok:
  assumes "subtree R r ref d" and "int (length d) < 2 ^ 63" and j: "New_joiner get ref = Inr (j, l)" and "2 * length d \<le> fuel"
  shows "JoinReadAll (join_exec get r fuel) j = Some (Inr d)"
proof -
  have jo: "j\<lparr>jn_off := 0\<rparr> = j" "jn_span j = int (length d)" using joiner_of_subtree [OF assms(1,2)] j by auto
  have "nat ((int (length d) + 4096 - 1) div 4096) = (length d + 4095) div 4096" by linarith
  then show ?thesis using join_all_loop_ok [OF assms, of 0 "replicate ChunkSize 0"] jo
    by (simp add: JoinReadAll_def jn_Size_def ChunkSize_def SectionSize_def Branches_def)
qed

end

section \<open>Reading a file\<close>

text \<open>C36. Reading a part of a file. When \<open>ref\<close> is the root of the tree of the file \<open>d\<close> and the getter returns the chunks of
  the tree, the joiner starts, and \<open>ReadAt\<close> at an offset inside the file gets the bytes from the offset on, as many as fit into
  the buffer, in whatever order the goroutines run. No run goes on forever and none gets stuck.\<close>

theorem joiner_reads_any_schedule:
  assumes "chunk_reader get R r" and "subtree R r ref d" and "int (length d) < 2 ^ 63"
    and "0 \<le> off" and "off < int (length d)" and "int (length b) < 2 ^ 63"
  shows "\<exists>j st. New_joiner get ref = Inr (j, int (length d)) \<and> ReadAt_start j b off = Some (Inr st) \<and>
    (\<forall>st'. join_run get r st st' \<longrightarrow>
       (if js_pending st' = []
        then ReadAt_result st' = Inr (int (length (take (length b) (drop (nat off) d))),
               take (length b) (drop (nat off) d) @ drop (length (take (length b) (drop (nat off) d))) b)
        else \<forall>k < length (js_pending st'). exec_task get r k st' \<noteq> None)) \<and>
    (\<nexists>f. f 0 = st \<and> (\<forall>i. \<exists>k < length (js_pending (f i)). exec_task get r k (f i) = Some (f (Suc i))))"
proof -
  let ?T = "take (length b) (drop (nat off) d)"
  obtain j where j: "New_joiner get ref = Inr (j, int (length d))" "j\<lparr>jn_off := 0\<rparr> = j"
    using chunk_reader.joiner_of_subtree [OF assms(1-3)] by auto
  obtain st ps where st: "ReadAt_start j b off = Some (Inr st)" "join_inv R r ?T b ps st"
    using chunk_reader.ReadAt_start_ok [OF assms(1-3) j(1) assms(4-6) refl, of 0] j(2) by auto
  have T: "length ?T \<le> length b" "int (length ?T) < 2 ^ 63" using assms(6) by (simp_all add: min_def)
  have "if js_pending st' = [] then ReadAt_result st' = Inr (int (length ?T), ?T @ drop (length ?T) b)
      else \<forall>k < length (js_pending st'). exec_task get r k st' \<noteq> None" if run: "join_run get r st st'" for st'
  proof -
    obtain ps' where ps': "join_inv R r ?T b ps' st'" using chunk_reader.run_inv [OF assms(1) run st(2) T] by blast
    then show ?thesis using chunk_reader.finished_state [OF assms(1) ps' _ T(1)] chunk_reader.exec_ok [OF assms(1) ps' _ T] by fastforce
  qed
  then show ?thesis using j(1) st chunk_reader.no_infinite_run [OF assms(1) _ T] by blast
qed

definition demo_getter :: getter where
  "demo_getter a = (if a = replicate 32 1 then Inr (a, le_bytes 8 3 @ [5, 6, 7]) else Inl (GetErr ''not found''))"

definition demo_chunk :: "bytes \<Rightarrow> bytes \<Rightarrow> bool" where
  "demo_chunk a x \<longleftrightarrow> a = replicate 32 1 \<and> x = le_bytes 8 3 @ [5, 6, 7]"

interpretation demo_reader: chunk_reader demo_getter demo_chunk 32
  by unfold_locales (simp_all add: ref_size_def demo_getter_def demo_chunk_def)

theorem joiner_reads_any_schedule_witness:
  "\<exists>j st. New_joiner demo_getter (replicate 32 1) = Inr (j, 3) \<and> ReadAt_start j [0, 0, 0, 0] 1 = Some (Inr st) \<and>
     js_pending st = [] \<and> ReadAt_result st = Inr (2, [6, 7, 0, 0])"
proof -
  have sub: "subtree demo_chunk 32 (replicate 32 1) [5, 6, 7]"
    by (rule subtree.leaf) (simp_all add: demo_chunk_def numeral_3_eq_3)
  obtain j st where j: "New_joiner demo_getter (replicate 32 1) = Inr (j, 3)" "ReadAt_start j [0, 0, 0, 0] 1 = Some (Inr st)"
    and run: "\<forall>st'. join_run demo_getter 32 st st' \<longrightarrow> (if js_pending st' = [] then ReadAt_result st' = Inr (2, [6, 7, 0, 0])
      else \<forall>k < length (js_pending st'). exec_task demo_getter 32 k st' \<noteq> None)"
    using joiner_reads_any_schedule [OF demo_reader.chunk_reader_axioms sub, of 1 "[0, 0, 0, 0]"] by auto
  have "jn_rootData j = [5, 6, 7]" "jn_span j = 3"
    using j(1) by (auto simp: New_joiner_def demo_getter_def Let_def SpanSize_def chunkToSpan_def)
  then have "js_pending st = []"
    using j(2) by (auto simp: ReadAt_start_def readAtOffset_def read_effect_def Let_def split: option.splits if_splits)
  then show ?thesis using j run join_run.finished by metis
qed

section \<open>A chunk that cannot be read\<close>

text \<open>Without a whole reference in the chunk, the search for the size of the branches passes through the powers
  \<open>4096 * 128 ^ j\<close>, wraps to 0 and stays there.\<close>

definition branch_sizes :: "int set" where
  "branch_sizes = {0, 2 ^ 12, 2 ^ 19, 2 ^ 26, 2 ^ 33, 2 ^ 40, 2 ^ 47, 2 ^ 54, 2 ^ 61}"

lemma branch_sizes_step: "B \<in> branch_sizes \<Longrightarrow> i64 (B * 128) \<in> branch_sizes"
  by (auto simp: branch_sizes_def i64_def)

lemma branch_loop_diverges:
  assumes "0 < S" and "S < 2 ^ 63 - 2 ^ 61"
  shows "branch_loop S 0 128 4096 = None"
proof -
  have "S = S' \<and> n = 0 \<and> b = 128 \<and> B \<in> branch_sizes \<longrightarrow> False" if "branch_loop S' n b B = Some y" for S' n b B y
  proof (rule branch_loop.raw_induct [OF _ that])
    fix f S' n b B y
    assume IH: "\<And>S' n b B y. f S' n b B = Some y \<Longrightarrow> S = S' \<and> n = 0 \<and> b = 128 \<and> B \<in> branch_sizes \<longrightarrow> False"
      and step: "(let whatsLeft = i64 (S' - i64 (B * (n - 1))) in if whatsLeft \<le> B then Some B else f S' n b (i64 (B * b))) = Some y"
    show "S = S' \<and> n = 0 \<and> b = 128 \<and> B \<in> branch_sizes \<longrightarrow> False"
    proof
      assume a: "S = S' \<and> n = 0 \<and> b = 128 \<and> B \<in> branch_sizes"
      then have B: "0 \<le> B" "B \<le> 2 ^ 61" by (auto simp: branch_sizes_def)
      then have "i64 (S' - i64 (B * (n - 1))) = S + B" using a assms by simp
      then have "f S' n b (i64 (B * b)) = Some y" using step a assms(1) by (simp add: Let_def split: if_splits)
      then show False using IH a branch_sizes_step by blast
    qed
  qed
  moreover have "4096 \<in> branch_sizes" by (simp add: branch_sizes_def)
  ultimately show ?thesis by (metis not_Some_eq)
qed

text \<open>C37. A chunk whose span exceeds its data, with less data than one reference, makes the reader hang: anyone can store such a
  chunk (its address is the hash of what it holds), and whoever reads it gets no answer and no error.\<close>

theorem short_chunk_hangs_reader:
  assumes "get ref = Inr (addr, le_bytes 8 span @ payload)" and "length ref = 32"
    and "0 < length payload" and "length payload < 32" and "length payload < span" and "int span < 2 ^ 63 - 2 ^ 61"
    and "0 \<le> off" and "off < int span" and "b \<noteq> []"
  shows "\<exists>j. New_joiner get ref = Inr (j, int span) \<and> ReadAt wait j b off = None"
proof -
  have w: "i64 (int span) = int span" "i64 (int span - off) = int span - off" using assms(6-8) by (simp_all)
  have "span < 256 ^ 8" using assms(6) by simp
  then have j: "New_joiner get ref = Inr (\<lparr>jn_addr = addr, jn_rootData = payload, jn_span = int span, jn_off = 0, jn_refLength = 32\<rparr>, int span)"
    using assms(1,2) w(1) by (simp add: New_joiner_def SpanSize_def chunkToSpan_def Let_def)
  have "subtrieSection payload 0 32 (int span) = None"
    using branch_loop_diverges [of "int span"] assms(3-6) by (simp add: subtrieSection_def Let_def)
  moreover have "(length payload + 32 - 1) div 32 = 1" using assms(3,4) by linarith
  then have "cursors 32 payload = [0]" by (simp add: cursors_def)
  ultimately have "readAtOffset 32 payload 0 (int span) off 0 (if int span - off < int (length b) then int span - off else int (length b)) = None"
    using assms(5,8,9) by (simp add: readAtOffset_def)
  then show ?thesis using j assms(8) w(2) by (simp add: ReadAt_def ReadAt_start_def Let_def split: if_splits)
qed

theorem short_chunk_hangs_reader_witness:
  "\<exists>j. New_joiner (\<lambda>a. Inr (a, le_bytes 8 1000000 @ [1, 2, 3])) (replicate 32 7) = Inr (j, 1000000) \<and>
     ReadAt (join_exec (\<lambda>a. Inr (a, le_bytes 8 1000000 @ [1, 2, 3])) 32 100) j [0, 0] 0 = None"
  using short_chunk_hangs_reader [of "\<lambda>a. Inr (a, le_bytes 8 1000000 @ [1, 2, 3])" "replicate 32 7" "replicate 32 7" 1000000 "[1, 2, 3]" 0 "[0, 0]"]
  by simp

end
