(* ===== verification/FilePipeline.thy ===== *)
theory FilePipeline
  imports Pipeline FileTree
begin

text \<open>
  The pipeline builds the tree of a file. \<open>L i\<close> is the list of the references on level \<open>i\<close> with the bytes below
  them; \<open>layout\<close> relates it to the cursors and the buffer of the \<open>hashTrieWriter\<close>, where the levels lie one behind the
  other, the highest first. Writing a chunk appends it to the file that the levels hold; \<open>Sum\<close> leaves one reference,
  the root of the tree. The chunk store is reached only through the writer \<open>pf\<close> of the locale \<open>chunk_writer\<close>,
  which the plain and the encrypting pipeline instantiate.
\<close>

section \<open>The buffer of the trie\<close>

type_synonym entry = "bytes \<times> bytes"
type_synonym levels = "nat \<Rightarrow> entry list"

definition enc :: "entry \<Rightarrow> bytes" where
  "enc e = le_bytes 8 (length (snd e)) @ fst e"

definition content :: "levels \<Rightarrow> nat \<Rightarrow> bytes" where
  "content L k = concat (map (\<lambda>i. concat (map enc (L i))) (rev [k..<9]))"

definition flat :: "levels \<Rightarrow> nat \<Rightarrow> bytes" where
  "flat L k = concat (map (\<lambda>i. concat (map snd (L i))) (rev [k..<9]))"

lemma content_step: "k < 9 \<Longrightarrow> content L k = content L (Suc k) @ concat (map enc (L k))"
  by (simp add: content_def upt_conv_Cons)

lemma flat_step: "k < 9 \<Longrightarrow> flat L k = flat L (Suc k) @ concat (map snd (L k))"
  by (simp add: flat_def upt_conv_Cons)

lemma content_end [simp]: "content L 9 = []" "flat L 9 = []"
  by (simp_all add: content_def flat_def)

lemma content_cong: "(\<And>i. k \<le> i \<Longrightarrow> L i = L' i) \<Longrightarrow> content L k = content L' k"
  unfolding content_def by (intro arg_cong [of _ _ concat] map_cong) auto

lemma flat_cong: "(\<And>i. k \<le> i \<Longrightarrow> L i = L' i) \<Longrightarrow> flat L k = flat L' k"
  unfolding flat_def by (intro arg_cong [of _ _ concat] map_cong) auto

lemma content_upd [simp]: "j < k \<Longrightarrow> content (L(j := x)) k = content L k" "j < k \<Longrightarrow> flat (L(j := x)) k = flat L k"
  by (auto intro!: content_cong flat_cong)

definition bufSize :: nat where "bufSize = ChunkWithSpanSize * 9 * 2"

definition layout :: "nat \<Rightarrow> hashTrieWriter \<Rightarrow> levels \<Rightarrow> nat \<Rightarrow> bool" where
  "layout r h L k \<longleftrightarrow>
     ht_branching h = 4096 div r \<and> ht_refSize h = r \<and> ht_fullChunk h = (r + 8) * (4096 div r) \<and>
     length (ht_cursors h) = 9 \<and> length (ht_buffer h) = bufSize \<and>
     (\<forall>i. k \<le> i \<and> i \<le> 8 \<longrightarrow> ht_cursors h ! i = length (content L i)) \<and>
     take (length (content L k)) (ht_buffer h) = content L k"

lemma layout_cursor: "layout r h L k \<Longrightarrow> k \<le> i \<Longrightarrow> i \<le> 8 \<Longrightarrow> ht_cursors h ! i = length (content L i)"
  by (simp add: layout_def)

lemma layout_room: "layout r h L k \<Longrightarrow> length (content L k) \<le> bufSize"
  by (metis layout_def length_take min.cobounded1 order_refl take_all_iff nle_le)

lemma layout_Suc: "layout r h L k \<Longrightarrow> k < 9 \<Longrightarrow> layout r h L (Suc k)"
proof -
  assume l: "layout r h L k" and k: "k < 9"
  have "take (length (content L (Suc k))) (take (length (content L k)) (ht_buffer h)) = content L (Suc k)"
    using l k by (simp add: layout_def content_step)
  then have "take (length (content L (Suc k))) (ht_buffer h) = content L (Suc k)" using k by (simp add: content_step)
  then show ?thesis using l by (simp add: layout_def)
qed

lemma layout_cong: "layout r h L k \<Longrightarrow> (\<And>i. k \<le> i \<Longrightarrow> L i = L' i) \<Longrightarrow> layout r h L' k"
proof -
  assume l: "layout r h L k" and eq: "\<And>i. k \<le> i \<Longrightarrow> L i = L' i"
  have "content L i = content L' i" if "k \<le> i" for i by (rule content_cong) (use eq that in auto)
  then show ?thesis using l by (simp add: layout_def)
qed

text \<open>The bytes of one level.\<close>

lemma layout_level:
  assumes "layout r h L k" and "k \<le> 7"
  shows "take (ht_cursors h ! k - ht_cursors h ! Suc k) (drop (ht_cursors h ! Suc k) (ht_buffer h)) = concat (map enc (L k))"
proof -
  let ?a = "length (content L (Suc k))" and ?b = "length (concat (map enc (L k)))"
  have c: "content L k = content L (Suc k) @ concat (map enc (L k))" using assms(2) by (intro content_step) simp
  have "take (?a + ?b) (ht_buffer h) = content L (Suc k) @ concat (map enc (L k))"
    using assms(1) by (simp add: layout_def c)
  then have "take ?b (drop ?a (ht_buffer h)) = concat (map enc (L k))"
    by (metis append_eq_conv_conj take_drop add.commute length_append)
  then show ?thesis using assms by (simp add: layout_cursor [OF assms(1)] c)
qed

lemma sum_spans_enc:
  "\<forall>e \<in> set xs. length (fst e) = r \<and> length (snd e) < 2 ^ 63 \<Longrightarrow>
   sum_spans r (concat (map enc xs)) = word_of_nat (length (concat (map snd xs)))"
proof (induction xs)
  case (Cons e xs)
  obtain b bs where bs: "le_bytes 8 (length (snd e)) = b # bs" by (metis length_Suc_conv length_le_bytes numeral_eq_Suc)
  have l: "length bs = 7" using length_le_bytes [of 8 "length (snd e)"] bs by simp
  have "length (snd e) < 256 ^ 8" using Cons.prems by simp
  then have v: "le_val (b # bs) = length (snd e)" by (simp flip: bs)
  have "sum_spans r (concat (map enc (e # xs))) = word_of_nat (le_val (b # bs)) + sum_spans r (concat (map enc xs))"
    using Cons.prems l by (simp add: enc_def bs)
  then show ?case using Cons v by simp
qed simp

lemma all_hashes_enc:
  "\<forall>e \<in> set xs. length (fst e) = r \<Longrightarrow> all_hashes r (concat (map enc xs)) = concat (map fst xs)"
proof (induction xs)
  case (Cons e xs)
  obtain b bs where bs: "le_bytes 8 (length (snd e)) = b # bs" by (metis length_Suc_conv length_le_bytes numeral_eq_Suc)
  have l: "length bs = 7" using length_le_bytes [of 8 "length (snd e)"] bs by simp
  then show ?case using Cons by (simp add: enc_def bs)
qed simp

lemma length_enc: "length (fst e) = r \<Longrightarrow> length (enc e) = r + 8"
  by (simp add: enc_def)

lemma length_level: "\<forall>e \<in> set xs. length (fst e) = r \<Longrightarrow> length (concat (map enc xs)) = length xs * (r + 8)"
  by (induction xs) (auto simp: length_enc)

text \<open>References of one size, and at most \<open>n\<close> of them on a level.\<close>

definition refs_ok :: "nat \<Rightarrow> levels \<Rightarrow> nat \<Rightarrow> bool" where
  "refs_ok r L k \<longleftrightarrow> (\<forall>i. k \<le> i \<and> i \<le> 8 \<longrightarrow> (\<forall>e \<in> set (L i). length (fst e) = r) \<and> length (L i) \<le> 4096 div r)"

lemma refs_okD: "refs_ok r L k \<Longrightarrow> k \<le> i \<Longrightarrow> i \<le> 8 \<Longrightarrow> (\<forall>e \<in> set (L i). length (fst e) = r) \<and> length (L i) \<le> 4096 div r"
  by (simp add: refs_ok_def)

lemma refs_ok_Suc: "refs_ok r L k \<Longrightarrow> refs_ok r L (Suc k)"
  unfolding refs_ok_def by (meson Suc_leD)

lemma refs_ok_upd:
  assumes "refs_ok r L (Suc k)" and "\<forall>e \<in> set xs. length (fst e) = r" and "length xs \<le> 4096 div r"
  shows "refs_ok r (L(k := xs)) k"
  unfolding refs_ok_def
proof (intro allI impI)
  fix i assume "k \<le> i \<and> i \<le> 8"
  then show "(\<forall>e \<in> set ((L(k := xs)) i). length (fst e) = r) \<and> length ((L(k := xs)) i) \<le> 4096 div r"
    using refs_okD [OF assms(1), of i] assms(2,3) by (cases "i = k") simp_all
qed

lemma content_bound: "refs_ok r L k \<Longrightarrow> k \<le> 9 \<Longrightarrow> length (content L k) \<le> (9 - k) * ((4096 div r) * (r + 8))"
proof (induction "9 - k" arbitrary: k)
  case (Suc n)
  then have k: "k < 9" by simp
  have "length (content L (Suc k)) \<le> (9 - Suc k) * ((4096 div r) * (r + 8))"
    using Suc k by (intro Suc.hyps(1) refs_ok_Suc) simp_all
  moreover have "length (concat (map enc (L k))) \<le> (4096 div r) * (r + 8)"
  proof -
    have lk: "\<forall>e \<in> set (L k). length (fst e) = r" "length (L k) \<le> 4096 div r" using refs_okD [OF Suc.prems(1), of k] k by auto
    show ?thesis unfolding length_level [OF lk(1)] using lk(2) by (rule mult_le_mono1)
  qed
  moreover have "9 - k = Suc (9 - Suc k)" using k by simp
  ultimately show ?case using k by (simp add: content_step)
qed simp

lemma room_left:
  assumes "ref_size r" and "refs_ok r L k" and "1 \<le> k" and "k \<le> 8"
  shows "length (content L k) + (r + 8) \<le> bufSize"
proof -
  have "(9 - k) * ((4096 div r) * (r + 8)) \<le> 8 * ((4096 div r) * (r + 8))" using assms(3) by (intro mult_le_mono1) simp
  then have "length (content L k) \<le> 8 * ((4096 div r) * (r + 8))" using content_bound [OF assms(2)] assms(4) by linarith
  moreover have "8 * ((4096 div r) * (r + 8)) + (r + 8) \<le> bufSize"
    using assms(1) by (auto simp: ref_size_def bufSize_def ChunkWithSpanSize_def ChunkSize_def SectionSize_def Branches_def SpanSize_def)
  ultimately show ?thesis by linarith
qed

lemma levelSize_layout:
  assumes "layout r h L k" and "refs_ok r L k" and "k \<le> 8"
  shows "levelSize h k = int (length (L k) * (r + 8))"
proof -
  have len: "length (content L k) = length (content L (Suc k)) + length (L k) * (r + 8)"
    using assms(3) refs_okD [OF assms(2), of k] by (simp add: content_step length_level)
  show ?thesis
  proof (cases "k = 8")
    case True
    then show ?thesis using layout_cursor [OF assms(1)] len by (simp add: levelSize_def)
  next
    case False
    then show ?thesis using layout_cursor [OF assms(1)] len assms(3) by (simp add: levelSize_def)
  qed
qed

lemma layout_write:
  assumes l: "layout r h L k" and k: "k \<le> 8" and room: "length (content L k) + length (enc e) \<le> bufSize"
  shows "\<exists>buf. buf_write (ht_cursors h ! k) (enc e) (ht_buffer h) = Some buf \<and>
    layout r (h\<lparr>ht_cursors := (ht_cursors h)[k := ht_cursors h ! k + length (enc e)], ht_buffer := buf\<rparr>) (L(k := L k @ [e])) k"
proof -
  let ?c = "length (content L k)" and ?L = "L(k := L k @ [e])"
  let ?buf = "take ?c (ht_buffer h) @ enc e @ drop (?c + length (enc e)) (ht_buffer h)"
  have c: "ht_cursors h ! k = ?c" using layout_cursor [OF l] k by simp
  have pre: "take ?c (ht_buffer h) = content L k" and lb: "length (ht_buffer h) = bufSize" using l by (simp_all add: layout_def)
  have new: "content ?L k = content L k @ enc e" using k by (simp add: content_step)
  have "content ?L i = content L i" if "k < i" for i using that by simp
  then have "layout r (h\<lparr>ht_cursors := (ht_cursors h)[k := ?c + length (enc e)], ht_buffer := ?buf\<rparr>) ?L k"
    using l new pre lb room k by (auto simp: layout_def nth_list_update)
  then show ?thesis using c room lb by (auto simp: buf_write_def)
qed

lemma layout_truncate:
  assumes "layout r h L (Suc k)" and "k \<le> 7" and "L k = []"
  shows "layout r (h\<lparr>ht_cursors := (ht_cursors h)[k := ht_cursors h ! Suc k], ht_full := f\<rparr>) L k"
proof -
  have c: "content L k = content L (Suc k)" using assms(2,3) by (simp add: content_step)
  have "ht_cursors h ! Suc k = length (content L (Suc k))" using layout_cursor [OF assms(1)] assms(2) by simp
  then show ?thesis using assms(1,2) c by (auto simp: layout_def nth_list_update)
qed

lemma length_concat_member: "x \<in> set xs \<Longrightarrow> length x \<le> length (concat xs)"
  by (induction xs) auto

section \<open>Levels of subtrees\<close>

text \<open>The most bytes a reference on level \<open>i\<close> can stand for.\<close>

definition full :: "nat \<Rightarrow> nat \<Rightarrow> nat" where
  "full r i = 4096 * (4096 div r) ^ (i - 1)"

lemma full_Suc: "1 \<le> k \<Longrightarrow> full r (Suc k) = (4096 div r) * full r k"
  by (cases k) (simp_all add: full_def)

lemma full_mono: "ref_size r \<Longrightarrow> i \<le> j \<Longrightarrow> full r i \<le> full r j"
  using ref_sizeD [of r] by (auto simp: full_def intro!: power_increasing)

lemma full_bound: "ref_size r \<Longrightarrow> i \<le> 8 \<Longrightarrow> full r i \<le> 2 ^ 61"
proof -
  assume r: "ref_size r" and i: "i \<le> 8"
  have "full r i \<le> full r 8" by (rule full_mono [OF r i])
  also have "\<dots> \<le> 2 ^ 61" using r by (auto simp: ref_size_def full_def)
  finally show ?thesis .
qed

definition entry_ok :: "(bytes \<Rightarrow> bytes \<Rightarrow> bool) \<Rightarrow> nat \<Rightarrow> nat \<Rightarrow> entry \<Rightarrow> bool" where
  "entry_ok R r i e \<longleftrightarrow> subtree R r (fst e) (snd e) \<and> 0 < length (snd e) \<and> length (snd e) \<le> full r i"

definition full_ok :: "(bytes \<Rightarrow> bytes \<Rightarrow> bool) \<Rightarrow> nat \<Rightarrow> nat \<Rightarrow> entry \<Rightarrow> bool" where
  "full_ok R r i e \<longleftrightarrow> subtree R r (fst e) (snd e) \<and> length (snd e) = full r i"

definition levels_full :: "(bytes \<Rightarrow> bytes \<Rightarrow> bool) \<Rightarrow> nat \<Rightarrow> levels \<Rightarrow> nat \<Rightarrow> bool" where
  "levels_full R r L k \<longleftrightarrow> (\<forall>i. k \<le> i \<and> i \<le> 8 \<longrightarrow> (\<forall>e \<in> set (L i). full_ok R r i e))"

text \<open>Every reference is full but the last one of the lowest level that is not empty.\<close>

definition tail_level :: "(bytes \<Rightarrow> bytes \<Rightarrow> bool) \<Rightarrow> nat \<Rightarrow> nat \<Rightarrow> entry list \<Rightarrow> bool" where
  "tail_level R r m xs \<longleftrightarrow> (\<forall>e \<in> set (butlast xs). full_ok R r m e) \<and> (xs \<noteq> [] \<longrightarrow> entry_ok R r m (last xs))"

definition levels_tail :: "(bytes \<Rightarrow> bytes \<Rightarrow> bool) \<Rightarrow> nat \<Rightarrow> levels \<Rightarrow> nat \<Rightarrow> bool" where
  "levels_tail R r L k \<longleftrightarrow>
     (\<exists>m. k \<le> m \<and> m \<le> 8 \<and> (\<forall>i. k \<le> i \<and> i < m \<longrightarrow> L i = []) \<and> tail_level R r m (L m) \<and> levels_full R r L (Suc m))"

lemma full_pos: "ref_size r \<Longrightarrow> 0 < full r i"
  using ref_sizeD [of r] by (auto simp: full_def)

lemma full_ok_entry: "ref_size r \<Longrightarrow> full_ok R r i e \<Longrightarrow> entry_ok R r i e"
  using full_pos by (simp add: full_ok_def entry_ok_def)

lemma full_ok_mono: "full_ok R r i e \<Longrightarrow> (\<And>a x. R a x \<Longrightarrow> R' a x) \<Longrightarrow> full_ok R' r i e"
  unfolding full_ok_def by (metis subtree_mono)

lemma levels_full_mono: "levels_full R r L k \<Longrightarrow> (\<And>a x. R a x \<Longrightarrow> R' a x) \<Longrightarrow> levels_full R' r L k"
  unfolding levels_full_def by (metis full_ok_mono)

lemma levels_full_cong: "levels_full R r L k \<Longrightarrow> (\<And>i. k \<le> i \<Longrightarrow> L i = L' i) \<Longrightarrow> levels_full R r L' k"
  by (simp add: levels_full_def)

lemma levels_full_upd:
  assumes "levels_full R r L (Suc k)" and "\<forall>e \<in> set xs. full_ok R r k e"
  shows "levels_full R r (L(k := xs)) k"
  unfolding levels_full_def
proof (intro allI impI)
  fix i assume "k \<le> i \<and> i \<le> 8"
  then show "\<forall>e \<in> set ((L(k := xs)) i). full_ok R r i e"
    using assms by (cases "i = k") (simp_all add: levels_full_def)
qed

lemma levels_fullD: "levels_full R r L k \<Longrightarrow> k \<le> i \<Longrightarrow> i \<le> 8 \<Longrightarrow> e \<in> set (L i) \<Longrightarrow> full_ok R r i e"
  by (simp add: levels_full_def)

lemma levels_full_Suc: "levels_full R r L k \<Longrightarrow> levels_full R r L (Suc k)"
  by (simp add: levels_full_def)

text \<open>What is known after an operation on the levels from \<open>k\<close> up; \<open>d\<close> are the bytes of the file it added.\<close>

definition grown :: "('s \<Rightarrow> bytes \<Rightarrow> bytes \<Rightarrow> bool) \<Rightarrow> nat \<Rightarrow> nat \<Rightarrow> hashTrieWriter \<Rightarrow> 's \<Rightarrow> levels \<Rightarrow> bytes
   \<Rightarrow> hashTrieWriter \<Rightarrow> 's \<Rightarrow> levels \<Rightarrow> bool" where
  "grown R r k h s L d h' s' L' \<longleftrightarrow>
     layout r h' L' k \<and> refs_ok r L' k \<and> (\<forall>i. k \<le> i \<and> i < 8 \<longrightarrow> length (L' i) < 4096 div r) \<and> length (L' 8) \<le> 1 \<and>
     levels_tail (R s') r L' k \<and> flat L' k = flat L k @ d \<and> (\<forall>a x. R s a x \<longrightarrow> R s' a x) \<and>
     (ht_full h' \<longleftrightarrow> ht_full h \<or> L' 8 \<noteq> [] \<and> k < 8)"

text \<open>The writer of a chunk of references: it stores any chunk of a tree under a reference of \<open>r\<close> bytes.\<close>

locale chunk_writer =
  fixes pf :: "'s ChainWriter" and R :: "'s \<Rightarrow> bytes \<Rightarrow> bytes \<Rightarrow> bool" and r :: nat
  assumes r: "ref_size r"
    and pf_ok: "well_sized r span payload \<Longrightarrow>
      \<exists>args' s' ref. pf \<lparr>pa_Ref = None, pa_Key = [], pa_Span = le_bytes 8 span, pa_Data = le_bytes 8 span @ payload\<rparr> s = (None, args', s') \<and>
        pa_Span args' = le_bytes 8 span \<and> pa_Ref args' = Some ref \<and> length (ref @ pa_Key args') = r \<and>
        R s' (ref @ pa_Key args') (le_bytes 8 span @ payload) \<and> (\<forall>a x. R s a x \<longrightarrow> R s' a x)"
begin

text \<open>The chunk of references of a level and the subtree it is the root of.\<close>

lemma level_node:
  assumes "1 \<le> k" "k \<le> 7" "2 \<le> length xs" "length xs \<le> 4096 div r" "tail_level (R s) r k xs"
  shows "well_sized r (length (concat (map snd xs))) (concat (map fst xs)) \<and> length (concat (map snd xs)) \<le> full r (Suc k) \<and>
    (length xs = 4096 div r \<and> length (snd (last xs)) = full r k \<longrightarrow> length (concat (map snd xs)) = full r (Suc k)) \<and>
    (R s ref (le_bytes 8 (length (concat (map snd xs))) @ concat (map fst xs)) \<longrightarrow> length ref = r \<longrightarrow>
       subtree (R s) r ref (concat (map snd xs)))"
proof -
  let ?ds = "map snd xs" and ?refs = "map fst xs" and ?b = "4096 div r"
  have ne: "xs \<noteq> []" using assms(3) by auto
  have split: "xs = butlast xs @ [last xs]" using ne by simp
  have lst: "entry_ok (R s) r k (last xs)" and bl: "\<forall>e \<in> set (butlast xs). full_ok (R s) r k e" using assms(5) ne by (auto simp: tail_level_def)
  have sub: "subtree (R s) r (fst e) (snd e)" if "e \<in> set xs" for e
    using that lst bl by (subst (asm) split) (auto simp: entry_ok_def full_ok_def)
  have len: "\<forall>i < length ?ds - 1. length (?ds ! i) = full r k"
  proof (intro allI impI)
    fix i assume "i < length ?ds - 1"
    then have "i < length (butlast xs)" "?ds ! i = snd (butlast xs ! i)" by (simp_all add: nth_butlast)
    then show "length (?ds ! i) = full r k" using bl nth_mem [of i "butlast xs"] by (auto simp: full_ok_def)
  qed
  have last: "last ?ds = snd (last xs)" using ne by (simp add: last_map)
  have cat: "length (concat ?ds) = full r k * (length xs - 1) + length (snd (last xs))"
    using length_concat_branches [of ?ds "full r k"] len assms(3) last by simp
  have le: "length (concat ?ds) \<le> full r k * length xs"
    using cat lst assms(3) by (cases "length xs") (auto simp: entry_ok_def)
  also have "\<dots> \<le> full r k * ?b" using assms(4) by (rule mult_le_mono2)
  finally have up: "length (concat ?ds) \<le> full r (Suc k)" using full_Suc [OF assms(1)] by (simp add: mult.commute)
  have "full r (Suc k) \<le> 2 ^ 61" using assms(2) by (intro full_bound [OF r]) simp
  then have "length (concat ?ds) < 2 ^ 63" using up by simp
  moreover have "length (concat ?refs) = length xs * r"
    using sub by (subst length_concat_equal [of _ r]) (auto dest: subtree_ref)
  ultimately have "well_sized r (length (concat ?ds)) (concat ?refs)"
    unfolding well_sized_def using assms(3,4) cat lst
    by (intro disjI2 exI [of _ "length xs"] exI [of _ "k - 1"] exI [of _ "length (snd (last xs))"]) (simp add: full_def entry_ok_def)
  moreover have "length (concat ?ds) = full r (Suc k)" if "length xs = ?b" "length (snd (last xs)) = full r k"
    using cat that ref_sizeD [OF r] full_Suc [OF assms(1)] by (cases "?b") auto
  moreover have "subtree (R s) r ref (concat ?ds)"
    if "R s ref (le_bytes 8 (length (concat ?ds)) @ concat ?refs)" "length ref = r"
    by (rule subtree.node [where k = "k - 1" and refs = ?refs]) (use that assms(3,4) sub len last lst in \<open>auto simp: full_def entry_ok_def\<close>)
  ultimately show ?thesis using up by blast
qed

text \<open>Writing one reference on level \<open>k\<close>, when all levels from \<open>k\<close> up hold full references and have room.\<close>

definition write_spec :: "nat \<Rightarrow> bool" where
  "write_spec k \<longleftrightarrow>
     (\<forall>h s L e span ref key.
        layout r h L k \<longrightarrow> refs_ok r L k \<longrightarrow> (\<forall>i. k \<le> i \<and> i \<le> 8 \<longrightarrow> length (L i) < 4096 div r) \<longrightarrow> L 8 = [] \<longrightarrow>
        levels_full (R s) r L k \<longrightarrow> entry_ok (R s) r k e \<longrightarrow> span @ ref @ key = enc e \<longrightarrow>
        (\<exists>h' s' L'. writeToLevel pf k span ref key h s = (None, h', s') \<and> grown R r k h s L (snd e) h' s' L' \<and>
           (length (snd e) = full r k \<longrightarrow> levels_full (R s') r L' k)))"

lemma wrap_ok:
  assumes W: "write_spec (Suc k)" and k: "1 \<le> k" "k \<le> 7" and l: "layout r h L k" and refs: "refs_ok r L k"
    and room: "\<forall>i. Suc k \<le> i \<and> i \<le> 8 \<longrightarrow> length (L i) < 4096 div r" and top: "L 8 = []"
    and lf: "levels_full (R s) r L (Suc k)" and two: "2 \<le> length (L k)" and tail: "tail_level (R s) r k (L k)"
  shows "\<exists>h' s' L'. wrapFullLevel pf k h s = (None, h', s') \<and> grown R r k h s L [] h' s' L' \<and> L' k = [] \<and>
    (length (L k) = 4096 div r \<and> length (snd (last (L k))) = full r k \<longrightarrow> levels_full (R s') r L' k)"
proof -
  let ?xs = "L k" and ?ds = "map snd (L k)" and ?b = "4096 div r"
  have xs: "\<forall>e \<in> set ?xs. length (fst e) = r" "length ?xs \<le> ?b" using refs_okD [OF refs, of k] k by auto
  note node = level_node [OF k two xs(2) tail]
  have "full r (Suc k) \<le> 2 ^ 61" using k by (intro full_bound [OF r]) simp
  then have small: "length (concat ?ds) \<le> 2 ^ 61" using node by (meson order_trans)
  have "length (snd e) \<le> length (concat ?ds)" if "e \<in> set ?xs" for e
    using that by (intro length_concat_member) auto
  then have sp: "sum_spans r (concat (map enc ?xs)) = word_of_nat (length (concat ?ds))"
    using xs small by (intro sum_spans_enc) fastforce
  have un: "unat (word_of_nat (length (concat ?ds)) :: u64) = length (concat ?ds)" using small by (simp only: unat_of_nat) simp
  let ?args = "\<lparr>pa_Ref = None, pa_Key = [], pa_Span = le_bytes 8 (length (concat ?ds)), pa_Data = le_bytes 8 (length (concat ?ds)) @ concat (map fst ?xs)\<rparr>"
  obtain args' s1 ref where pf: "pf ?args s = (None, args', s1)" "pa_Span args' = le_bytes 8 (length (concat ?ds))" "pa_Ref args' = Some ref"
    "length (ref @ pa_Key args') = r" "R s1 (ref @ pa_Key args') (le_bytes 8 (length (concat ?ds)) @ concat (map fst ?xs))"
    "\<forall>a x. R s a x \<longrightarrow> R s1 a x"
    using pf_ok [of "length (concat ?ds)" "concat (map fst ?xs)" s] node by metis
  let ?e = "(ref @ pa_Key args', concat ?ds)"
  have mono1: "\<And>a x. R s a x \<Longrightarrow> R s1 a x" using pf(6) by blast
  have tail1: "tail_level (R s1) r k ?xs"
    using tail full_ok_mono [OF _ mono1] subtree_mono [OF _ mono1] by (auto simp: tail_level_def entry_ok_def)
  have sub: "subtree (R s1) r (ref @ pa_Key args') (concat ?ds)" using level_node [OF k two xs(2) tail1] pf(4,5) by blast
  have "0 < length (snd (last ?xs))" using tail two by (auto simp: tail_level_def entry_ok_def)
  then have pos: "0 < length (concat ?ds)" using two by (cases "?xs" rule: rev_cases) auto
  have e: "entry_ok (R s1) r (Suc k) ?e" using sub pos node by (simp add: entry_ok_def)
  have encE: "pa_Span args' @ ref @ pa_Key args' = enc ?e" using pf(2) by (simp add: enc_def)
  have lS: "layout r h L (Suc k)" using layout_Suc [OF l] k by simp
  obtain h1 s2 L2 where w: "writeToLevel pf (Suc k) (pa_Span args') ref (pa_Key args') h s1 = (None, h1, s2)"
    "grown R r (Suc k) h s1 L (concat ?ds) h1 s2 L2" "length (concat ?ds) = full r (Suc k) \<longrightarrow> levels_full (R s2) r L2 (Suc k)"
    using W [unfolded write_spec_def, rule_format, OF lS refs_ok_Suc [OF refs] _ top levels_full_mono [OF lf mono1] e encE] room by auto
  note g = w(2) [unfolded grown_def]
  let ?h = "h1\<lparr>ht_cursors := (ht_cursors h1)[k := ht_cursors h1 ! Suc k], ht_full := (if Suc k = 8 then True else ht_full h1)\<rparr>"
  let ?L = "L2(k := [])"
  have cur: "\<not> length (ht_cursors h) \<le> Suc k" "\<not> ht_cursors h ! k < ht_cursors h ! Suc k" "\<not> length (ht_buffer h) < ht_cursors h ! k"
    using l k layout_room [OF l] layout_cursor [OF l] content_step [of k L] by (simp_all add: layout_def)
  have "wrapFullLevel pf k h s = (None, ?h, s2)"
    using cur layout_level [OF l k(2)] sp un all_hashes_enc [OF xs(1)] pf(1,3) w(1) l
    by (subst wrapFullLevel.simps) (simp add: Let_def layout_def)
  moreover have lay: "layout r ?h ?L k"
    by (rule layout_truncate) (use g k in \<open>auto intro: layout_cong\<close>)
  moreover have "L2 8 \<noteq> []" if "k = 7"
  proof
    assume "L2 8 = []"
    then have "flat L2 8 = []" using flat_step [of 8 L2] by simp
    then show False using g that pos by simp
  qed
  moreover have "levels_tail (R s2) r ?L k"
  proof -
    obtain m where m: "Suc k \<le> m" "m \<le> 8" "\<forall>i. Suc k \<le> i \<and> i < m \<longrightarrow> L2 i = []" "tail_level (R s2) r m (L2 m)" "levels_full (R s2) r L2 (Suc m)"
      using g by (auto simp: levels_tail_def)
    then show ?thesis unfolding levels_tail_def
      by (intro exI [of _ m]) (auto intro: levels_full_cong)
  qed
  moreover have "flat ?L k = flat L k" using g k flat_step [of k ?L] flat_step [of k L] by simp
  moreover have "refs_ok r ?L k" using g by (intro refs_ok_upd) simp_all
  moreover have "\<forall>i. k \<le> i \<and> i < 8 \<longrightarrow> length (?L i) < ?b" using g ref_sizeD [OF r] by (auto simp: Suc_le_eq)
  moreover have "\<forall>a x. R s a x \<longrightarrow> R s2 a x" using g pf(6) by blast
  moreover have "ht_full ?h \<longleftrightarrow> ht_full h \<or> ?L 8 \<noteq> [] \<and> k < 8"
    using g k \<open>k = 7 \<Longrightarrow> L2 8 \<noteq> []\<close> by (cases "k = 7") auto
  moreover have "levels_full (R s2) r ?L k" if "levels_full (R s2) r L2 (Suc k)"
    using that by (intro levels_full_upd) simp_all
  ultimately show ?thesis using w(3) node g by (intro exI [of _ ?h] exI [of _ s2] exI [of _ ?L]) (auto simp: grown_def)
qed

lemma write_ok: "1 \<le> k \<Longrightarrow> k \<le> 8 \<Longrightarrow> write_spec k"
proof (induction "8 - k" arbitrary: k rule: less_induct)
  case less
  show ?case unfolding write_spec_def
  proof (intro allI impI)
    fix h s L e span ref key
    assume l: "layout r h L k" and refs: "refs_ok r L k" and room: "\<forall>i. k \<le> i \<and> i \<le> 8 \<longrightarrow> length (L i) < 4096 div r"
      and top: "L 8 = []" and lf: "levels_full (R s) r L k" and e: "entry_ok (R s) r k e" and enc: "span @ ref @ key = enc e"
    let ?L = "L(k := L k @ [e])"
    have le: "length (fst e) = r" using e by (auto simp: entry_ok_def dest: subtree_ref)
    obtain buf where buf: "buf_write (ht_cursors h ! k) (enc e) (ht_buffer h) = Some buf"
      "layout r (h\<lparr>ht_cursors := (ht_cursors h)[k := ht_cursors h ! k + length (enc e)], ht_buffer := buf\<rparr>) ?L k" (is "layout r ?h ?L k")
      using layout_write [OF l less.prems(2), of e] room_left [OF r refs less.prems] length_enc [OF le] by auto
    have "length (L k) < 4096 div r" using room less.prems(2) by simp
    then have refs1: "refs_ok r ?L k" using refs_okD [OF refs, of k] refs_ok_Suc [OF refs] less.prems(2) le by (intro refs_ok_upd) auto
    have ls: "levelSize ?h k = int ((length (L k) + 1) * (r + 8))" using levelSize_layout [OF buf(2) refs1 less.prems(2)] by simp
    have conf: "ht_refSize ?h = r" "ht_branching ?h = 4096 div r" "\<not> length (ht_cursors h) \<le> k" using l less.prems(2) by (simp_all add: layout_def)
    have fl: "flat ?L k = flat L k @ snd e" using less.prems(2) flat_step [of k ?L] flat_step [of k L] by simp
    have tail: "tail_level (R s) r k (?L k)" using levels_fullD [OF lf] e less.prems by (simp add: tail_level_def)
    have lf1: "levels_full (R s) r ?L (Suc k)" using levels_full_Suc [OF lf] by (rule levels_full_cong) simp
    have eq: "levelSize ?h k = int ((r + SpanSize) * (4096 div r)) \<longleftrightarrow> length (L k) + 1 = 4096 div r"
    proof -
      have "levelSize ?h k = int ((r + SpanSize) * (4096 div r)) \<longleftrightarrow> (length (L k) + 1) * (r + 8) = (4096 div r) * (r + 8)"
        unfolding ls of_nat_eq_iff by (simp add: SpanSize_def mult.commute)
      also have "\<dots> \<longleftrightarrow> length (L k) + 1 = 4096 div r" unfolding mult_cancel2 by simp
      finally show ?thesis .
    qed
    show "\<exists>h' s' L'. writeToLevel pf k span ref key h s = (None, h', s') \<and> grown R r k h s L (snd e) h' s' L' \<and>
        (length (snd e) = full r k \<longrightarrow> levels_full (R s') r L' k)"
    proof (cases "length (L k) + 1 = 4096 div r")
      case False
      then have "writeToLevel pf k span ref key h s = (None, ?h, s)"
        using conf buf(1) eq enc by (subst writeToLevel.simps) (simp add: Let_def)
      moreover have "levels_tail (R s) r ?L k"
        unfolding levels_tail_def using tail lf1 less.prems by (intro exI [of _ k]) auto
      moreover have "\<forall>i. k \<le> i \<and> i < 8 \<longrightarrow> length (?L i) < 4096 div r" "length (?L 8) \<le> 1" using room False top by auto
      moreover have "levels_full (R s) r ?L k" if "length (snd e) = full r k"
        using levels_full_Suc [OF lf] levels_fullD [OF lf order_refl less.prems(2)] e that
        by (intro levels_full_upd) (auto simp: full_ok_def entry_ok_def)
      moreover have "ht_full ?h = (ht_full h \<or> ?L 8 \<noteq> [] \<and> k < 8)" using top by auto
      ultimately have "grown R r k h s L (snd e) ?h s ?L" and "length (snd e) = full r k \<Longrightarrow> levels_full (R s) r ?L k"
        using buf(2) refs1 fl by (simp_all add: grown_def)
      then show ?thesis using \<open>writeToLevel pf k span ref key h s = (None, ?h, s)\<close> by blast
    next
      case True
      have two: "2 \<le> 4096 div r" using ref_sizeD [OF r] by simp
      have k7: "k \<le> 7"
      proof (rule ccontr)
        assume "\<not> k \<le> 7"
        then have "k = 8" using less.prems by simp
        then show False using True top two by simp
      qed
      have W: "write_spec (Suc k)" using less k7 by simp
      have p: "\<forall>i. Suc k \<le> i \<and> i \<le> 8 \<longrightarrow> length (?L i) < 4096 div r" "?L 8 = []" using room top k7 by auto
      have p3: "2 \<le> length (?L k)" using True two by simp
      obtain h' s' L' where w: "wrapFullLevel pf k ?h s = (None, h', s')" "grown R r k ?h s ?L [] h' s' L'"
        "length (?L k) = 4096 div r \<and> length (snd (last (?L k))) = full r k \<longrightarrow> levels_full (R s') r L' k"
        using wrap_ok [OF W less.prems(1) k7 buf(2) refs1 p lf1 p3 tail] by blast
      then have "writeToLevel pf k span ref key h s = (None, h', s')"
        using conf buf(1) eq enc True by (subst writeToLevel.simps) (simp add: Let_def)
      moreover have "grown R r k h s L (snd e) h' s' L'" using w(2) fl by (simp add: grown_def)
      ultimately show ?thesis using w(3) True by auto
    qed
  qed
qed

text \<open>The levels while \<open>Sum\<close> runs: those below \<open>i\<close> are used up.\<close>

definition sum_inv :: "nat \<Rightarrow> hashTrieWriter \<Rightarrow> 's \<Rightarrow> levels \<Rightarrow> bytes \<Rightarrow> bool" where
  "sum_inv i h s L D \<longleftrightarrow>
     layout r h L i \<and> refs_ok r L i \<and> (\<forall>j. i < j \<and> j < 8 \<longrightarrow> length (L j) < 4096 div r) \<and> length (L 8) \<le> 1 \<and>
     levels_tail (R s) r L i \<and> flat L i = D \<and> D \<noteq> [] \<and> length D \<le> full r 8"

lemma levels_tail_Suc:
  assumes "levels_tail R' r L i" and "L i = []" and "i \<le> 7"
  shows "levels_tail R' r L (Suc i)"
proof -
  obtain m where m: "i \<le> m" "m \<le> 8" "\<forall>j. i \<le> j \<and> j < m \<longrightarrow> L j = []" "tail_level R' r m (L m)" "levels_full R' r L (Suc m)"
    using assms(1) by (auto simp: levels_tail_def)
  show ?thesis
  proof (cases "m = i")
    case True
    then have lf: "levels_full R' r L (Suc i)" using m by simp
    have "full_ok R' r (Suc i) e" if "e \<in> set (L (Suc i))" for e using levels_fullD [OF lf _ _ that] assms(3) by simp
    then have "tail_level R' r (Suc i) (L (Suc i))"
      using full_ok_entry [OF r] by (auto simp: tail_level_def dest: in_set_butlastD)
    then show ?thesis using levels_full_Suc [OF lf] assms(3) by (auto simp: levels_tail_def intro!: exI [of _ "Suc i"])
  next
    case False
    then show ?thesis using m by (auto simp: levels_tail_def intro!: exI [of _ m])
  qed
qed

lemma levels_tail_here:
  assumes "levels_tail R' r L i" and "L i \<noteq> []"
  shows "tail_level R' r i (L i) \<and> levels_full R' r L (Suc i)"
  using assms by (auto simp: levels_tail_def le_less)

lemma flat_split: "k \<le> j \<Longrightarrow> j \<le> 9 \<Longrightarrow> \<exists>rest. flat L k = flat L j @ rest \<and> (\<forall>i. k \<le> i \<and> i < j \<longrightarrow> length (concat (map snd (L i))) \<le> length rest)"
proof (induction "j - k" arbitrary: k)
  case 0
  then show ?case by auto
next
  case (Suc n)
  have kj: "n = j - Suc k" "Suc k \<le> j" using Suc.hyps(2) by linarith+
  obtain rest where rest: "flat L (Suc k) = flat L j @ rest" "\<forall>i. Suc k \<le> i \<and> i < j \<longrightarrow> length (concat (map snd (L i))) \<le> length rest"
    using Suc.hyps(1) [OF kj Suc.prems(2)] by blast
  have "length (concat (map snd (L i))) \<le> length (rest @ concat (map snd (L k)))" if "k \<le> i" "i < j" for i
    using rest(2) that by (cases "i = k") (auto simp: trans_le_add1)
  moreover have "flat L k = flat L j @ rest @ concat (map snd (L k))" using rest(1) Suc flat_step [of k L] by simp
  ultimately show ?case by blast
qed

text \<open>A reference on the top level stands for all the trie can hold.\<close>

lemma top_level_alone:
  assumes "levels_tail R' r L i" and "length (flat L i) \<le> full r 8" and "i \<le> 7" and "L i \<noteq> []"
  shows "L 8 = []"
proof (rule ccontr)
  assume top: "L 8 \<noteq> []"
  have t: "tail_level R' r i (L i)" "levels_full R' r L (Suc i)" using levels_tail_here [OF assms(1,4)] by auto
  have hd8: "hd (L 8) \<in> set (L 8)" using top by simp
  have f8: "length (snd (hd (L 8))) = full r 8" using levels_fullD [OF t(2) _ _ hd8] assms(3) by (simp add: full_ok_def)
  have "length (snd (hd (L 8))) \<le> length (concat (map snd (L 8)))" using hd8 by (intro length_concat_member) simp
  moreover have "length (flat L 8) = length (concat (map snd (L 8)))" using flat_step [of 8 L] by simp
  moreover obtain rest where rest: "flat L i = flat L 8 @ rest" "length (concat (map snd (L i))) \<le> length rest"
    using flat_split [of i 8 L] assms(3) by auto
  moreover have "0 < length (snd (last (L i)))" using t(1) assms(4) by (simp add: tail_level_def entry_ok_def)
  moreover have "length (snd (last (L i))) \<le> length (concat (map snd (L i)))" using assms(4) by (intro length_concat_member) simp
  moreover have "length (flat L i) = length (flat L 8) + length rest" using rest(1) by simp
  ultimately show False using assms(2) f8 by linarith
qed

lemma layout_carry:
  assumes l: "layout r h L i" and i: "i \<le> 7"
  shows "layout r (h\<lparr>ht_cursors := (ht_cursors h)[i + 1 := ht_cursors h ! i]\<rparr>) (L(Suc i := L (Suc i) @ L i)) (Suc i)"
proof -
  let ?L = "L(Suc i := L (Suc i) @ L i)"
  have c: "content ?L (Suc i) = content L i" using i content_step [of i L] content_step [of "Suc i" L] content_step [of "Suc i" ?L] by simp
  have "ht_cursors h ! i = length (content L i)" using layout_cursor [OF l] i by simp
  moreover have "content ?L j = content L j" if "Suc i < j" for j using that by simp
  ultimately show ?thesis using l i c by (auto simp: layout_def nth_list_update)
qed

lemma sum_level_ok:
  assumes inv: "sum_inv i h s L D" and i: "1 \<le> i" "i \<le> 7"
  shows "\<exists>h' s' L'. ht_sum_level pf i h s = (None, h', s') \<and> sum_inv (Suc i) h' s' L' D \<and> (\<forall>a x. R s a x \<longrightarrow> R s' a x)"
proof -
  note a = inv [unfolded sum_inv_def]
  have ls: "levelSize h i = int (length (L i) * (r + 8))" using levelSize_layout [of r h L i] a i by simp
  have conf: "ht_refSize h = r" "ht_fullChunk h = (r + 8) * (4096 div r)" using a by (simp_all add: layout_def)
  have b: "2 \<le> 4096 div r" using ref_sizeD [OF r] by simp
  have m0: "levelSize h i mod int (ht_refSize h + SpanSize) = 0" using ls conf(1) by (simp add: SpanSize_def)
  have z: "levelSize h i = 0 \<longleftrightarrow> L i = []" unfolding ls by simp
  have one: "levelSize h i = int (ht_refSize h + SpanSize) \<longleftrightarrow> length (L i) = 1"
  proof -
    have "levelSize h i = int (ht_refSize h + SpanSize) \<longleftrightarrow> length (L i) * (r + 8) = 1 * (r + 8)"
      unfolding ls conf of_nat_eq_iff by (simp add: SpanSize_def)
    then show ?thesis unfolding mult_cancel2 by simp
  qed
  consider "L i = []" | "length (L i) = 1" | "2 \<le> length (L i)" by (cases "L i" rule: list.exhaust; cases "tl (L i)") auto
  then show ?thesis
  proof cases
    case 1
    then have "ht_sum_level pf i h s = (None, h, s)" using m0 z by (simp add: ht_sum_level_def Let_def)
    moreover have "sum_inv (Suc i) h s L D"
      using a i 1 layout_Suc [of r h L i] refs_ok_Suc [of r L i] levels_tail_Suc [of "R s" L i] flat_step [of i L] by (simp add: sum_inv_def)
    ultimately show ?thesis by blast
  next
    case 2
    then obtain e where e: "L i = [e]" by (auto simp: length_Suc_conv)
    let ?L = "L(Suc i := L (Suc i) @ [e])" and ?h = "h\<lparr>ht_cursors := (ht_cursors h)[i + 1 := ht_cursors h ! i]\<rparr>"
    have "levelSize h i \<noteq> int (ht_fullChunk h)"
    proof
      assume "levelSize h i = int (ht_fullChunk h)"
      then have "1 * (r + 8) = (4096 div r) * (r + 8)" unfolding ls conf 2 of_nat_eq_iff by (simp add: mult.commute)
      then show False using b unfolding mult_cancel2 by simp
    qed
    then have "ht_sum_level pf i h s = (None, ?h, s)" using m0 z one e by (simp add: ht_sum_level_def Let_def)
    moreover have "sum_inv (Suc i) ?h s ?L D"
    proof -
      have t: "tail_level (R s) r i (L i)" "levels_full (R s) r L (Suc i)" using levels_tail_here [of "R s" L i] a e by auto
      have top: "L 8 = []" using top_level_alone [of "R s" L i] a i e by auto
      have lay: "layout r ?h ?L (Suc i)" using layout_carry [of h L i] a i e by simp
      have len: "length (L (Suc i)) < 4096 div r"
        using a i top b by (cases "Suc i = 8") auto
      have "refs_ok r L (Suc (Suc i))" using a by (auto intro: refs_ok_Suc)
      then have refs: "refs_ok r ?L (Suc i)"
        using refs_okD [of r L i "Suc i"] refs_okD [of r L i i] a i e len by (intro refs_ok_upd) auto
      have "length (snd e) \<le> full r (Suc i)" using t(1) e full_mono [OF r, of i "Suc i"] by (auto simp: tail_level_def entry_ok_def)
      then have "tail_level (R s) r (Suc i) (?L (Suc i))"
        using t e levels_fullD [OF t(2) order_refl] i by (simp add: tail_level_def entry_ok_def)
      moreover have "levels_full (R s) r ?L (Suc (Suc i))" using levels_full_Suc [OF t(2)] by (rule levels_full_cong) simp
      ultimately have "levels_tail (R s) r ?L (Suc i)" using i by (auto simp: levels_tail_def intro!: exI [of _ "Suc i"])
      moreover have "flat ?L (Suc i) = D" using a i e flat_step [of i L] flat_step [of "Suc i" L] flat_step [of "Suc i" ?L] by simp
      ultimately show ?thesis using lay refs a top by (auto simp: sum_inv_def)
    qed
    ultimately show ?thesis by blast
  next
    case 3
    then have ne: "L i \<noteq> []" by auto
    have t: "tail_level (R s) r i (L i)" "levels_full (R s) r L (Suc i)" using levels_tail_here [of "R s" L i] a ne by auto
    have top: "L 8 = []" using top_level_alone [of "R s" L i] a i ne by auto
    have room: "\<forall>j. Suc i \<le> j \<and> j \<le> 8 \<longrightarrow> length (L j) < 4096 div r"
    proof (intro allI impI)
      fix j assume "Suc i \<le> j \<and> j \<le> 8"
      then show "length (L j) < 4096 div r" using a top b by (cases "j = 8") auto
    qed
    obtain h' s' L' where w: "wrapFullLevel pf i h s = (None, h', s')" "grown R r i h s L [] h' s' L'" "L' i = []"
    proof -
      have "write_spec (Suc i)" using i by (intro write_ok) simp_all
      moreover have "layout r h L i" "refs_ok r L i" using a by simp_all
      ultimately show thesis using wrap_ok [OF _ i _ _ room top t(2) 3 t(1)] that by blast
    qed
    have "ht_sum_level pf i h s = (None, h', s')" using m0 z one 3 ne w(1) by (simp add: ht_sum_level_def Let_def)
    moreover have "sum_inv (Suc i) h' s' L' D"
      using a i w(2,3) layout_Suc [of r h' L' i] refs_ok_Suc [of r L' i] levels_tail_Suc [of "R s'" L' i] flat_step [of i L']
      by (simp add: sum_inv_def grown_def)
    ultimately show ?thesis using w(2) by (auto simp: grown_def)
  qed
qed

lemma sum_loop_ok:
  "sum_inv i h s L D \<Longrightarrow> 1 \<le> i \<Longrightarrow> i \<le> 8 \<Longrightarrow>
   \<exists>h' s' L'. ht_sum_loop pf [i..<8] h s = (None, h', s') \<and> sum_inv 8 h' s' L' D \<and> (\<forall>a x. R s a x \<longrightarrow> R s' a x)"
proof (induction "8 - i" arbitrary: i h s L)
  case 0
  then show ?case by auto
next
  case (Suc n)
  then have i: "i \<le> 7" by simp
  obtain h1 s1 L1 where st: "ht_sum_level pf i h s = (None, h1, s1)" "sum_inv (Suc i) h1 s1 L1 D" "\<forall>a x. R s a x \<longrightarrow> R s1 a x"
    using sum_level_ok [OF Suc.prems(1,2) i] by blast
  obtain h' s' L' where "ht_sum_loop pf [Suc i..<8] h1 s1 = (None, h', s')" "sum_inv 8 h' s' L' D" "\<forall>a x. R s1 a x \<longrightarrow> R s' a x"
  proof -
    have "n = 8 - Suc i" using Suc.hyps(2) by linarith
    then show thesis using Suc.hyps(1) [OF _ st(2)] i that by auto
  qed
  then show ?case using st i by (auto simp: upt_conv_Cons)
qed

lemma top_reference:
  assumes "layout r h L 8" and "L 8 = [e]" and "length (fst e) = r"
  shows "levelSize h 8 = int (r + SpanSize) \<and> drop 8 (take (ht_cursors h ! 8) (ht_buffer h)) = fst e"
proof -
  have c: "content L 8 = enc e" using content_step [of 8 L] assms(2) by simp
  have "ht_cursors h ! 8 = length (enc e)" using layout_cursor [OF assms(1)] c by simp
  moreover have "take (length (enc e)) (ht_buffer h) = enc e" using assms(1) c by (simp add: layout_def)
  ultimately show ?thesis using assms(3) by (simp add: levelSize_def enc_def SpanSize_def)
qed

lemma Sum_ok:
  assumes "sum_inv 1 h s L D"
  shows "\<exists>ref h' s'. ht_Sum pf (h, s) = (Inr ref, h', s') \<and> subtree (R s') r ref D \<and> (\<forall>a x. R s a x \<longrightarrow> R s' a x)"
proof -
  obtain h' s' L' where w: "ht_sum_loop pf [1..<8] h s = (None, h', s')" "sum_inv 8 h' s' L' D" "\<forall>a x. R s a x \<longrightarrow> R s' a x"
    using sum_loop_ok [OF assms] by auto
  note a = w(2) [unfolded sum_inv_def]
  have fl: "concat (map snd (L' 8)) = D" using a flat_step [of 8 L'] by simp
  then have "L' 8 \<noteq> []" using a by auto
  then obtain e where e: "L' 8 = [e]" using a by (cases "L' 8") auto
  then have "subtree (R s') r (fst e) (snd e)" using levels_tail_here [of "R s'" L' 8] a by (auto simp: tail_level_def entry_ok_def)
  moreover have "levelSize h' 8 = int (r + SpanSize)" "drop 8 (take (ht_cursors h' ! 8) (ht_buffer h')) = fst e"
    using top_reference [of h' L' e] a e subtree_ref calculation by auto
  moreover have "ht_refSize h' = r" using a by (simp add: layout_def)
  ultimately show ?thesis using w(1,3) fl e by (auto simp: ht_Sum_def maxLevel_def)
qed

text \<open>A single reference is carried to the top; this covers the empty file.\<close>

lemma carry_loop:
  "layout r h L i \<Longrightarrow> L i = [e] \<Longrightarrow> (\<forall>j. i < j \<and> j \<le> 8 \<longrightarrow> L j = []) \<Longrightarrow> length (fst e) = r \<Longrightarrow> 1 \<le> i \<Longrightarrow> i \<le> 8 \<Longrightarrow>
   \<exists>h' L'. ht_sum_loop pf [i..<8] h s = (None, h', s) \<and> layout r h' L' 8 \<and> L' 8 = [e]"
proof (induction "8 - i" arbitrary: i h L)
  case 0
  then show ?case by auto
next
  case (Suc n)
  then have i: "i \<le> 7" by simp
  let ?L = "L(Suc i := L (Suc i) @ [e])" and ?h = "h\<lparr>ht_cursors := (ht_cursors h)[i + 1 := ht_cursors h ! i]\<rparr>"
  have b: "2 \<le> 4096 div r" using ref_sizeD [OF r] by simp
  have conf: "ht_refSize h = r" "ht_fullChunk h = (r + 8) * (4096 div r)" using Suc.prems(1) by (simp_all add: layout_def)
  have c: "content L (Suc i) = []" "content L i = enc e"
  proof -
    show "content L (Suc i) = []" unfolding content_def using Suc.prems(3) by auto
    then show "content L i = enc e" using content_step [of i L] i Suc.prems(2) by simp
  qed
  have ls: "levelSize h i = int (r + 8)"
    using layout_cursor [OF Suc.prems(1), of i] layout_cursor [OF Suc.prems(1), of "Suc i"] c i Suc.prems(4) by (simp add: levelSize_def length_enc)
  have "levelSize h i \<noteq> int (ht_fullChunk h)"
  proof
    assume "levelSize h i = int (ht_fullChunk h)"
    then have "1 * (r + 8) = (4096 div r) * (r + 8)" unfolding ls conf of_nat_eq_iff by (simp add: mult.commute)
    then show False using b unfolding mult_cancel2 by simp
  qed
  then have "ht_sum_level pf i h s = (None, ?h, s)" using ls conf(1) by (simp add: ht_sum_level_def Let_def SpanSize_def)
  moreover have "layout r ?h ?L (Suc i)" using layout_carry [OF Suc.prems(1) i] Suc.prems(2) by simp
  then have "\<exists>h' L'. ht_sum_loop pf [Suc i..<8] ?h s = (None, h', s) \<and> layout r h' L' 8 \<and> L' 8 = [e]"
    using Suc.hyps(2) Suc.prems i by (intro Suc.hyps(1) [of "Suc i" ?h ?L]) auto
  ultimately show ?case using i by (auto simp: upt_conv_Cons)
qed

end

section \<open>Writing a file\<close>

text \<open>The writer \<open>lw\<close> of a data chunk: the writer of chunks, then the trie.\<close>

locale file_writer = chunk_writer pf R r for pf :: "'s ChainWriter" and R r +
  fixes lw :: "(hashTrieWriter \<times> 's) ChainWriter"
  assumes lw_eq: "lw p (h, s) =
    (case pf p s of (Some e, p1, s1) \<Rightarrow> (Some e, p1, h, s1) | (None, p1, s1) \<Rightarrow> ht_ChainWrite pf p1 (h, s1))"
begin

text \<open>The trie holds the bytes \<open>D\<close>, all in full references.\<close>

definition file_inv :: "hashTrieWriter \<Rightarrow> 's \<Rightarrow> bytes \<Rightarrow> bool" where
  "file_inv h s D \<longleftrightarrow>
     (\<exists>L. layout r h L 1 \<and> refs_ok r L 1 \<and> (\<forall>i. 1 \<le> i \<and> i < 8 \<longrightarrow> length (L i) < 4096 div r) \<and> length (L 8) \<le> 1 \<and>
        levels_full (R s) r L 1 \<and> flat L 1 = D \<and> (ht_full h \<longleftrightarrow> L 8 \<noteq> []))"

lemma file_inv_new: "file_inv (NewHashTrieWriter (4096 div r) r) s []"
proof -
  have c: "content (\<lambda>_. []) k = []" "flat (\<lambda>_. []) k = []" for k by (simp_all add: content_def flat_def)
  have "replicate 9 0 ! i = (0 :: nat)" if "i \<le> 8" for i using that by simp
  then show ?thesis using ref_sizeD [OF r] unfolding file_inv_def
    by (intro exI [of _ "\<lambda>_. []"]) (simp add: layout_def refs_ok_def levels_full_def NewHashTrieWriter_def c bufSize_def SpanSize_def)
qed

lemma file_inv_sum:
  assumes "file_inv h s D" and "D \<noteq> []" and "length D \<le> full r 8"
  shows "\<exists>L. sum_inv 1 h s L D"
proof -
  obtain L where L: "layout r h L 1" "refs_ok r L 1" "\<forall>i. 1 \<le> i \<and> i < 8 \<longrightarrow> length (L i) < 4096 div r" "length (L 8) \<le> 1"
    "levels_full (R s) r L 1" "flat L 1 = D" using assms(1) by (auto simp: file_inv_def)
  have "tail_level (R s) r 1 (L 1)"
    using levels_fullD [OF L(5), of 1] full_ok_entry [OF r] by (auto simp: tail_level_def dest: in_set_butlastD)
  then have "levels_tail (R s) r L 1" using levels_full_Suc [OF L(5)] by (auto simp: levels_tail_def intro!: exI [of _ 1])
  then show ?thesis using L assms(2,3) by (auto simp: sum_inv_def)
qed

definition chunk_args :: "bytes \<Rightarrow> PipeWriteArgs" where
  "chunk_args d = \<lparr>pa_Ref = None, pa_Key = [], pa_Span = le_bytes 8 (length d), pa_Data = le_bytes 8 (length d) @ d\<rparr>"

lemma chunk_stored:
  assumes "length d \<le> 4096"
  shows "\<exists>args' s' ref. pf (chunk_args d) s = (None, args', s') \<and> pa_Span args' = le_bytes 8 (length d) \<and> pa_Ref args' = Some ref \<and>
    subtree (R s') r (ref @ pa_Key args') d \<and> (\<forall>a x. R s a x \<longrightarrow> R s' a x)"
proof -
  have "well_sized r (length d) d" using assms by (simp add: well_sized_def)
  from pf_ok [OF this, of s] show ?thesis unfolding chunk_args_def using assms by (metis subtree.leaf)
qed

lemma lw_writes:
  assumes "pf p s = (None, args', s1)" and "length (pa_Span args') = 8" and "pa_Ref args' = Some ref" and "length (ref @ pa_Key args') = r"
    and "\<not> ht_full h" and "ht_refSize h = r" and "writeToLevel pf 1 (pa_Span args') ref (pa_Key args') h s1 = (None, h', s')"
  shows "lw p (h, s) = (None, args', h', s')"
proof -
  have "8 + length ref + length (pa_Key args') = r + 8" using assms(4) by simp
  then have "(8 + length ref + length (pa_Key args')) mod (r + 8) = 0" by (simp only: mod_self)
  then show ?thesis using assms by (simp add: lw_eq ht_ChainWrite_def Let_def SpanSize_def)
qed

lemma chunk_written:
  assumes inv: "file_inv h s D" and d: "d \<noteq> []" "length d \<le> 4096" and cap: "length (D @ d) \<le> full r 8"
  shows "\<exists>args' h' s'. lw (chunk_args d) (h, s) = (None, args', h', s') \<and> (\<forall>a x. R s a x \<longrightarrow> R s' a x) \<and>
    (length d = 4096 \<longrightarrow> file_inv h' s' (D @ d)) \<and> (\<exists>L'. sum_inv 1 h' s' L' (D @ d))"
proof -
  obtain L where L: "layout r h L 1" "refs_ok r L 1" "\<forall>i. 1 \<le> i \<and> i < 8 \<longrightarrow> length (L i) < 4096 div r" "length (L 8) \<le> 1"
    "levels_full (R s) r L 1" "flat L 1 = D" "ht_full h \<longleftrightarrow> L 8 \<noteq> []" using inv by (auto simp: file_inv_def)
  obtain args' s1 ref where p: "pf (chunk_args d) s = (None, args', s1)" "pa_Span args' = le_bytes 8 (length d)" "pa_Ref args' = Some ref"
    "subtree (R s1) r (ref @ pa_Key args') d" "\<forall>a x. R s a x \<longrightarrow> R s1 a x"
    using chunk_stored [OF d(2)] by blast
  let ?e = "(ref @ pa_Key args', d)"
  have b: "2 \<le> 4096 div r" using ref_sizeD [OF r] by simp
  have top: "L 8 = []"
  proof (rule ccontr)
    assume "L 8 \<noteq> []"
    then have h8: "hd (L 8) \<in> set (L 8)" by simp
    have "length (snd (hd (L 8))) = full r 8" using levels_fullD [OF L(5) _ _ h8] by (simp add: full_ok_def)
    moreover have "length (snd (hd (L 8))) \<le> length (concat (map snd (L 8)))" using h8 by (intro length_concat_member) simp
    moreover have "length (flat L 8) = length (concat (map snd (L 8)))" using flat_step [of 8 L] by simp
    moreover obtain rest where "flat L 1 = flat L 8 @ rest" using flat_split [of 1 8 L] by auto
    then have "length D = length (flat L 8) + length rest" unfolding L(6) by (simp only: length_append)
    moreover have "0 < length d" "length D + length d \<le> full r 8" using d(1) cap by simp_all
    ultimately show False by linarith
  qed
  have mono: "\<And>a x. R s a x \<Longrightarrow> R s1 a x" using p(5) by blast
  have e: "entry_ok (R s1) r 1 ?e" using p(4) d by (simp add: entry_ok_def full_def)
  have encE: "pa_Span args' @ ref @ pa_Key args' = enc ?e" using p(2) by (simp add: enc_def)
  have room: "\<forall>i. 1 \<le> i \<and> i \<le> 8 \<longrightarrow> length (L i) < 4096 div r"
  proof (intro allI impI)
    fix i :: nat assume "1 \<le> i \<and> i \<le> 8"
    then show "length (L i) < 4096 div r" using L(3) top b by (cases "i = 8") auto
  qed
  have W: "write_spec 1" by (rule write_ok) simp_all
  obtain h' s' L' where w: "writeToLevel pf 1 (pa_Span args') ref (pa_Key args') h s1 = (None, h', s')" "grown R r 1 h s1 L d h' s' L'"
    "length d = full r 1 \<longrightarrow> levels_full (R s') r L' 1"
    using W [unfolded write_spec_def, rule_format, OF L(1,2) _ top levels_full_mono [OF L(5) mono] e encE] room by auto
  note g = w(2) [unfolded grown_def]
  have "lw (chunk_args d) (h, s) = (None, args', h', s')"
    by (rule lw_writes [OF p(1) _ p(3) subtree_ref [OF p(4)] _ _ w(1)]) (use p(2) L(1,7) top in \<open>simp_all add: layout_def\<close>)
  moreover have "sum_inv 1 h' s' L' (D @ d)" using g L(6) d cap by (auto simp: sum_inv_def)
  moreover have "file_inv h' s' (D @ d)" if "length d = 4096"
    using g L(6,7) top w(3) that by (auto simp: file_inv_def full_def)
  ultimately show ?thesis using p(5) g by blast
qed

text \<open>A file of at most one chunk; the only chunk that is put is the file itself.\<close>

lemma single_written:
  assumes "file_inv h s []" and "length d \<le> 4096"
  shows "\<exists>args' h' s' ref h''. pf (chunk_args d) s = (None, args', s') \<and> lw (chunk_args d) (h, s) = (None, args', h', s') \<and>
    ht_Sum pf (h', s') = (Inr ref, h'', s') \<and> subtree (R s') r ref d \<and> (\<forall>a x. R s a x \<longrightarrow> R s' a x)"
proof -
  obtain L where L: "layout r h L 1" "refs_ok r L 1" "levels_full (R s) r L 1" "flat L 1 = []" "ht_full h \<longleftrightarrow> L 8 \<noteq> []"
    using assms(1) by (auto simp: file_inv_def)
  have none: "L i = []" if "1 \<le> i" "i \<le> 8" for i
  proof (rule ccontr)
    assume ne: "L i \<noteq> []"
    then have h: "hd (L i) \<in> set (L i)" by simp
    have "0 < length (snd (hd (L i)))" using levels_fullD [OF L(3) that h] full_pos [OF r] by (simp add: full_ok_def)
    moreover have "length (snd (hd (L i))) \<le> length (concat (map snd (L i)))" using h by (intro length_concat_member) simp
    moreover obtain rest where rest: "flat L 1 = flat L 9 @ rest" "\<forall>i. 1 \<le> i \<and> i < 9 \<longrightarrow> length (concat (map snd (L i))) \<le> length rest"
      using flat_split [of 1 9 L, OF _ order_refl] by (meson one_le_numeral)
    have "i < 9" using that(2) by simp
    then have "length (concat (map snd (L i))) \<le> length rest" using rest(2) that(1) by blast
    moreover have "length rest = 0" using rest(1) L(4) by simp
    ultimately show False by linarith
  qed
  obtain args' s1 ref where p: "pf (chunk_args d) s = (None, args', s1)" "pa_Span args' = le_bytes 8 (length d)" "pa_Ref args' = Some ref"
    "subtree (R s1) r (ref @ pa_Key args') d" "\<forall>a x. R s a x \<longrightarrow> R s1 a x"
    using chunk_stored [OF assms(2), of s] by blast
  let ?e = "(ref @ pa_Key args', d)" and ?L = "L(1 := L 1 @ [(ref @ pa_Key args', d)])"
  have le: "length (fst ?e) = r" using subtree_ref [OF p(4)] by simp
  have encE: "pa_Span args' @ ref @ pa_Key args' = enc ?e" using p(2) by (simp add: enc_def)
  obtain buf where buf: "buf_write (ht_cursors h ! 1) (enc ?e) (ht_buffer h) = Some buf"
    "layout r (h\<lparr>ht_cursors := (ht_cursors h)[1 := ht_cursors h ! 1 + length (enc ?e)], ht_buffer := buf\<rparr>) ?L 1" (is "layout r ?h ?L 1")
    using layout_write [OF L(1), of ?e] room_left [OF r L(2)] length_enc [OF le] by auto
  have b: "2 \<le> 4096 div r" using ref_sizeD [OF r] by simp
  have refs1: "refs_ok r ?L 1" using refs_ok_Suc [OF L(2)] le b none [of 1] by (intro refs_ok_upd) auto
  have ls: "levelSize ?h 1 = int (1 * (r + 8))" using levelSize_layout [OF buf(2) refs1] none [of 1] by simp
  have conf: "ht_refSize ?h = r" "ht_branching ?h = 4096 div r" "\<not> length (ht_cursors h) \<le> 1" using L(1) by (simp_all add: layout_def)
  have nf: "levelSize ?h 1 \<noteq> int ((r + SpanSize) * (4096 div r))"
  proof
    assume "levelSize ?h 1 = int ((r + SpanSize) * (4096 div r))"
    then have "1 * (r + 8) = (4096 div r) * (r + 8)" unfolding ls of_nat_eq_iff by (simp add: SpanSize_def mult.commute)
    then show False using b unfolding mult_cancel2 by simp
  qed
  have w: "writeToLevel pf 1 (pa_Span args') ref (pa_Key args') h s1 = (None, ?h, s1)"
    using conf buf(1) nf encE by (subst writeToLevel.simps) (simp add: Let_def)
  have "\<not> ht_full h" using L(5) none [of 8] by simp
  then have lw: "lw (chunk_args d) (h, s) = (None, args', ?h, s1)"
    by (intro lw_writes [OF p(1) _ p(3) subtree_ref [OF p(4)] _ _ w]) (use p(2) L(1) in \<open>simp_all add: layout_def\<close>)
  have one: "?L 1 = [?e]" "\<forall>j. 1 < j \<and> j \<le> 8 \<longrightarrow> ?L j = []" using none by auto
  obtain h'' L'' where sm: "ht_sum_loop pf [1..<8] ?h s1 = (None, h'', s1)" "layout r h'' L'' 8" "L'' 8 = [?e]"
    using carry_loop [OF buf(2) one le, of s1] by auto
  have "ht_Sum pf (?h, s1) = (Inr (fst ?e), h'', s1)"
    using sm(1) top_reference [OF sm(2,3) le] sm(2) by (simp add: ht_Sum_def maxLevel_def layout_def)
  then show ?thesis using lw p(1,4,5) by (intro exI conjI) auto
qed

end

end
