(* ===== verification/FileFeed.thy ===== *)
theory FileFeed
  imports FilePipeline
begin

text \<open>
  The feeder and \<open>FeedPipeline\<close> over the trie of \<^emph>\<open>FilePipeline\<close>. Whatever the sizes of the writes, the feeder passes the
  bytes on in chunks of 4096 and keeps the rest in its buffer; \<open>Sum\<close> flushes it, or writes the empty chunk for the empty
  file. \<open>FeedPipeline\<close> returns the root of the tree of exactly the bytes that the reader delivered.
\<close>

lemma overlay_chunk:
  assumes "length d = 4104" and "idx < 4096" and "4096 \<le> idx + length b"
  shows "overlay 0 (le_bytes 8 4096) (overlay (8 + idx) b d) = le_bytes 8 4096 @ take idx (drop 8 d) @ take (4096 - idx) b"
proof -
  have "overlay (8 + idx) b d = take (8 + idx) d @ take (4096 - idx) b" using assms by (simp add: overlay_def)
  moreover have "drop 8 (take (8 + idx) d) = take idx (drop 8 d)" by (simp add: drop_take)
  moreover have "overlay 0 (le_bytes 8 4096) x = le_bytes 8 4096 @ drop 8 x" if "8 \<le> length x" for x
    using that by (simp add: overlay_def)
  ultimately show ?thesis using assms by simp
qed

lemma overlay_fits: "off + length src \<le> length dst \<Longrightarrow> overlay off src dst = take off dst @ src @ drop (off + length src) dst"
  by (simp add: overlay_def)

lemma le_bytes_zero: "le_bytes n 0 = replicate n 0"
  by (simp add: le_bytes_def be_bytes_zero)

text \<open>The bytes that a reader delivers, and its error when it fails before the end.\<close>

fun delivered :: "(bytes \<times> read_end option) list \<Rightarrow> string + bytes" where
  "delivered [] = Inr []"
| "delivered ((d, Some (ReadError e)) # rs) = Inl e"
| "delivered ((d, Some EOF) # rs) = Inr d"
| "delivered ((d, None) # rs) = (case delivered rs of Inl e \<Rightarrow> Inl e | Inr ds \<Rightarrow> Inr (d @ ds))"

context file_writer
begin

definition feeder_ok :: "chunkFeeder \<Rightarrow> hashTrieWriter \<Rightarrow> 's \<Rightarrow> bytes \<Rightarrow> bool" where
  "feeder_ok f h s D \<longleftrightarrow>
     fd_size f = 4096 \<and> length (fd_buffer f) = 4096 \<and> fd_bufferIdx f < 4096 \<and>
     (\<exists>Dw. file_inv h s Dw \<and> Dw @ take (fd_bufferIdx f) (fd_buffer f) = D)"

text \<open>The counter of the feeder tells an empty file from one that ends with a full chunk.\<close>

definition feed_inv :: "chunkFeeder \<Rightarrow> hashTrieWriter \<Rightarrow> 's \<Rightarrow> bytes \<Rightarrow> bool" where
  "feed_inv f h s D \<longleftrightarrow>
     feeder_ok f h s D \<and> 0 \<le> fd_wrote f \<and> (fd_bufferIdx f = 0 \<and> D \<noteq> [] \<longrightarrow> 0 < fd_wrote f) \<and> (D = [] \<longrightarrow> fd_wrote f = 0)"

lemma feed_inv_new: "feed_inv (NewChunkFeederWriter 4096) (NewHashTrieWriter (4096 div r) r) s []"
  using file_inv_new by (auto simp: feed_inv_def feeder_ok_def NewChunkFeederWriter_def)

lemma feed_loop_ok:
  "fd_size f = 4096 \<Longrightarrow> length (fd_buffer f) = 4096 \<Longrightarrow> length d = 4104 \<Longrightarrow> fd_bufferIdx f = idx \<Longrightarrow> idx < 4096 \<Longrightarrow>
   idx = 0 \<or> 4096 \<le> idx + length b \<Longrightarrow> P = take idx (drop 8 d) \<Longrightarrow> file_inv h s Dw \<Longrightarrow> length (Dw @ P @ b) \<le> full r 8 \<Longrightarrow>
   \<exists>f' h' s'. feed_loop lw b d idx w f (h, s) = (Inr (w + int idx + int (length b)), f', h', s') \<and> feeder_ok f' h' s' (Dw @ P @ b) \<and>
     fd_wrote f' = fd_wrote f + (if fd_bufferIdx f' = 0 then w + int idx + int (length b) else 0) \<and> (\<forall>a x. R s a x \<longrightarrow> R s' a x)"
proof (induction "length b" arbitrary: b d idx w f h s P Dw rule: less_induct)
  case less
  consider "b = []" | "b \<noteq> []" "idx + length b < 4096" | "b \<noteq> []" "4096 \<le> idx + length b" by linarith
  then show ?case
  proof cases
    case 1
    then show ?thesis using less.prems by (subst feed_loop.simps) (auto simp: feeder_ok_def)
  next
    case 2
    then have "overlay 0 b (fd_buffer f) = b @ drop (length b) (fd_buffer f)" using less.prems by (subst overlay_fits) auto
    then show ?thesis using 2 less.prems by (subst feed_loop.simps) (auto simp: feeder_ok_def)
  next
    case 3
    let ?n = "4096 - idx" and ?c = "P @ take (4096 - idx) b"
    define dd where "dd = le_bytes 8 4096 @ take idx (drop 8 d) @ take ?n b"
    have lc: "length ?c = 4096" "?c \<noteq> []" using 3 less.prems by auto
    have cap: "length ((Dw @ ?c) @ [] @ drop ?n b) \<le> full r 8" using less.prems(9) by simp
    then have "length (Dw @ ?c) \<le> full r 8" by simp
    then obtain args' h1 s1 where cw: "lw (chunk_args ?c) (h, s) = (None, args', h1, s1)" "\<forall>a x. R s a x \<longrightarrow> R s1 a x" "file_inv h1 s1 (Dw @ ?c)"
      using chunk_written [OF less.prems(8) lc(2)] lc(1) by auto
    have ld: "length dd = 4104" using 3 less.prems by (simp add: dd_def)
    have n: "min (length b) (length d - (SpanSize + fd_bufferIdx f)) = ?n" "?n \<noteq> 0" "idx + ?n = 4096"
      using 3 less.prems by (simp_all add: SpanSize_def)
    have args: "\<lparr>pa_Ref = None, pa_Key = [], pa_Span = take SpanSize dd, pa_Data = take (SpanSize + 4096) dd\<rparr> = chunk_args ?c"
      using ld lc less.prems(5,7) by (simp add: chunk_args_def SpanSize_def dd_def)
    have ov: "overlay 0 (le_bytes 8 4096) (overlay (SpanSize + fd_bufferIdx f) b d) = dd"
      using overlay_chunk [OF less.prems(3,5) 3(2)] less.prems(4) by (simp add: SpanSize_def dd_def)
    have lt: "length (drop ?n b) < length b" using 3(1) less.prems(5) by (cases b) auto
    let ?f = "f\<lparr>fd_bufferIdx := 0\<rparr>"
    have "\<not> idx + length b < fd_size f" using 3(2) less.prems(1) by simp
    then have step: "feed_loop lw b d idx w f (h, s) = feed_loop lw (drop ?n b) dd 0 (w + 4096) ?f (h1, s1)"
      using 3(1) n(2) cw(1) by (subst feed_loop.simps) (simp only: Let_def n ov args if_False prod.case option.case of_nat_numeral)
    obtain f' h' s' where IH: "feed_loop lw (drop ?n b) dd 0 (w + 4096) ?f (h1, s1) = (Inr (w + 4096 + int 0 + int (length (drop ?n b))), f', h', s')"
      "feeder_ok f' h' s' ((Dw @ ?c) @ [] @ drop ?n b)"
      "fd_wrote f' = fd_wrote ?f + (if fd_bufferIdx f' = 0 then w + 4096 + int 0 + int (length (drop ?n b)) else 0)" "\<forall>a x. R s1 a x \<longrightarrow> R s' a x"
      using less.hyps [OF lt _ _ ld _ _ _ _ cw(3) cap, of ?f 0 "w + 4096"] less.prems(1,2) by auto
    have len: "w + 4096 + int 0 + int (length (drop ?n b)) = w + int idx + int (length b)" using 3(2) less.prems(5) by simp
    have "feeder_ok f' h' s' (Dw @ P @ b)" using IH(2) by simp
    then show ?thesis using step IH(1,3,4) cw(2) unfolding len by auto
  qed
qed

lemma Write_ok:
  assumes inv: "feed_inv f h s D" and cap: "length (D @ b) \<le> full r 8"
  shows "\<exists>f' h' s'. fd_Write lw b (f, h, s) = (Inr (int (length b)), f', h', s') \<and> feed_inv f' h' s' (D @ b) \<and> (\<forall>a x. R s a x \<longrightarrow> R s' a x)"
proof -
  obtain Dw where f: "fd_size f = 4096" "length (fd_buffer f) = 4096" "fd_bufferIdx f < 4096" "file_inv h s Dw" "Dw @ take (fd_bufferIdx f) (fd_buffer f) = D"
    using inv by (auto simp: feed_inv_def feeder_ok_def)
  let ?i = "fd_bufferIdx f"
  show ?thesis
  proof (cases "length b + ?i < 4096")
    case True
    let ?buf = "take ?i (fd_buffer f) @ b @ drop (?i + length b) (fd_buffer f)"
    have "overlay ?i b (fd_buffer f) = ?buf" using True f by (intro overlay_fits) simp
    moreover have "take (?i + length b) ?buf = take ?i (fd_buffer f) @ b" using f by simp
    ultimately show ?thesis using True f inv by (auto simp: fd_Write_def feed_inv_def feeder_ok_def)
  next
    case False
    let ?P = "take ?i (fd_buffer f)" and ?d = "overlay SpanSize (take ?i (fd_buffer f)) (replicate (4096 + SpanSize) 0)"
    have d: "?d = replicate 8 0 @ ?P @ replicate (4096 - ?i) 0" using f by (simp add: overlay_def SpanSize_def)
    have "length ?d = 4104" "?P = take ?i (drop 8 ?d)" unfolding d using f by simp_all
    moreover have "length (Dw @ ?P @ b) \<le> full r 8" using cap f(5) by auto
    ultimately obtain f' h' s' where w: "feed_loop lw b ?d ?i (- int ?i) f (h, s) = (Inr (- int ?i + int ?i + int (length b)), f', h', s')"
      "feeder_ok f' h' s' (Dw @ ?P @ b)" "fd_wrote f' = fd_wrote f + (if fd_bufferIdx f' = 0 then - int ?i + int ?i + int (length b) else 0)"
      "\<forall>a x. R s a x \<longrightarrow> R s' a x"
      using feed_loop_ok [OF f(1,2) _ refl f(3) _ _ f(4), of ?d b ?P "- int ?i"] False by auto
    have "0 < length b" using False f(3) by linarith
    moreover have "feeder_ok f' h' s' (D @ b)" using w(2) f(5) by auto
    moreover have "0 \<le> fd_wrote f" using inv by (simp add: feed_inv_def)
    ultimately have "feed_inv f' h' s' (D @ b)" using w(3) by (cases "fd_bufferIdx f' = 0") (simp_all add: feed_inv_def add_nonneg_pos)
    then show ?thesis using False f(1) w(1,4) by (auto simp: fd_Write_def)
  qed
qed

lemma feed_Sum_ok:
  assumes inv: "feed_inv f h s D" and cap: "length D \<le> full r 8"
  shows "\<exists>ref f' h' s'. fd_Sum lw (ht_Sum pf) (f, h, s) = (Inr ref, f', h', s') \<and> subtree (R s') r ref D \<and> (\<forall>a x. R s a x \<longrightarrow> R s' a x)"
proof -
  obtain Dw where f: "length (fd_buffer f) = 4096" "fd_bufferIdx f < 4096" "file_inv h s Dw" "Dw @ take (fd_bufferIdx f) (fd_buffer f) = D"
    using inv by (auto simp: feed_inv_def feeder_ok_def)
  consider "fd_bufferIdx f \<noteq> 0" | "fd_bufferIdx f = 0" "D \<noteq> []" | "fd_bufferIdx f = 0" "D = []" by blast
  then show ?thesis
  proof cases
    case 1
    let ?c = "take (fd_bufferIdx f) (fd_buffer f)"
    have c: "?c \<noteq> []" "length ?c = fd_bufferIdx f" using 1 f by auto
    obtain args' h1 s1 L1 where cw: "lw (chunk_args ?c) (h, s) = (None, args', h1, s1)" "\<forall>a x. R s a x \<longrightarrow> R s1 a x" "sum_inv 1 h1 s1 L1 (Dw @ ?c)"
      using chunk_written [OF f(3) c(1)] c(2) f cap by auto
    obtain ref h2 s2 where sm: "ht_Sum pf (h1, s1) = (Inr ref, h2, s2)" "subtree (R s2) r ref D" "\<forall>a x. R s1 a x \<longrightarrow> R s2 a x"
      using Sum_ok [OF cw(3)] f(4) by auto
    have "fd_wrote f + int (length (le_bytes 8 (fd_bufferIdx f) @ ?c)) \<noteq> 0" using inv by (simp add: feed_inv_def)
    then show ?thesis using 1 cw(1,2) sm c(2) by (auto simp: fd_Sum_def fd_flush_def Let_def chunk_args_def)
  next
    case 2
    then obtain L where "sum_inv 1 h s L D" using file_inv_sum [OF f(3)] f(4) cap by auto
    then obtain ref h2 s2 where "ht_Sum pf (h, s) = (Inr ref, h2, s2)" "subtree (R s2) r ref D" "\<forall>a x. R s a x \<longrightarrow> R s2 a x"
      using Sum_ok by blast
    then show ?thesis using 2 inv by (auto simp: fd_Sum_def fd_flush_def feed_inv_def)
  next
    case 3
    then have "file_inv h s []" using f by simp
    then obtain args' h1 s1 ref h2 where e: "lw (chunk_args []) (h, s) = (None, args', h1, s1)" "ht_Sum pf (h1, s1) = (Inr ref, h2, s1)"
      "subtree (R s1) r ref []" "\<forall>a x. R s a x \<longrightarrow> R s1 a x"
      using single_written [of h s "[]"] by auto
    have "\<lparr>pa_Ref = None, pa_Key = [], pa_Span = replicate SpanSize 0, pa_Data = replicate SpanSize 0\<rparr> = chunk_args []"
      by (simp add: chunk_args_def SpanSize_def le_bytes_zero)
    then show ?thesis using 3 e inv by (auto simp: fd_Sum_def fd_flush_def feed_inv_def)
  qed
qed

text \<open>The whole upload.\<close>

lemma feed_all:
  assumes "pl_Write P = fd_Write lw"
  shows "feed_inv f h s D \<Longrightarrow> delivered rs = Inr ds \<Longrightarrow> length (D @ ds) \<le> full r 8 \<Longrightarrow>
    \<exists>f' h' s'. FeedPipeline_loop P rs (f, h, s) = (None, f', h', s') \<and> feed_inv f' h' s' (D @ ds) \<and> (\<forall>a x. R s a x \<longrightarrow> R s' a x)"
proof (induction rs arbitrary: f h s D ds rule: delivered.induct)
  case (3 d rs)
  then show ?case using Write_ok [OF 3(1), of d] by (auto simp: assms)
next
  case (4 d rs)
  obtain ds' where ds': "delivered rs = Inr ds'" "ds = d @ ds'" using 4(3) by (auto split: sum.splits)
  have "length (D @ d) \<le> full r 8" using 4(4) ds' by simp
  then obtain f1 h1 s1 where w: "fd_Write lw d (f, h, s) = (Inr (int (length d)), f1, h1, s1)" "feed_inv f1 h1 s1 (D @ d)" "\<forall>a x. R s a x \<longrightarrow> R s1 a x"
    using Write_ok [OF 4(2)] by blast
  have "length ((D @ d) @ ds') \<le> full r 8" using 4(4) ds' by simp
  then obtain f' h' s' where "FeedPipeline_loop P rs (f1, h1, s1) = (None, f', h', s')" "feed_inv f' h' s' ((D @ d) @ ds')" "\<forall>a x. R s1 a x \<longrightarrow> R s' a x"
    using 4(1) [OF w(2) ds'(1)] by blast
  then show ?case using w ds'(2) by (auto simp: assms)
qed auto

lemma feed_fails:
  assumes "pl_Write P = fd_Write lw"
  shows "feed_inv f h s D \<Longrightarrow> delivered rs = Inl e \<Longrightarrow> length D + length (concat (map fst rs)) \<le> full r 8 \<Longrightarrow>
    \<exists>st'. FeedPipeline_loop P rs (f, h, s) = (Some (ReadErr e), st')"
proof (induction rs arbitrary: f h s D rule: delivered.induct)
  case (4 d rs)
  have "delivered rs = Inl e" using 4(3) by (auto split: sum.splits)
  moreover have "length (D @ d) \<le> full r 8" using 4(4) by simp
  then obtain f1 h1 s1 where w: "fd_Write lw d (f, h, s) = (Inr (int (length d)), f1, h1, s1)" "feed_inv f1 h1 s1 (D @ d)"
    using Write_ok [OF 4(2)] by blast
  moreover have "length (D @ d) + length (concat (map fst rs)) \<le> full r 8" using 4(4) by simp
  ultimately have "\<exists>st'. FeedPipeline_loop P rs (f1, h1, s1) = (Some (ReadErr e), st')" using 4(1) by blast
  then show ?case using w by (auto simp: assms)
qed auto

lemma FeedPipeline_ok:
  assumes P: "pl_Write P = fd_Write lw" "pl_Sum P = fd_Sum lw (ht_Sum pf)" and "delivered rs = Inr d" and "length d \<le> full r 8"
  shows "\<exists>ref f' h' s'. FeedPipeline P rs (NewChunkFeederWriter 4096, NewHashTrieWriter (4096 div r) r, s) = (Inr ref, f', h', s') \<and>
    subtree (R s') r ref d \<and> (\<forall>a x. R s a x \<longrightarrow> R s' a x)"
proof -
  obtain f' h' s' where lp: "FeedPipeline_loop P rs (NewChunkFeederWriter 4096, NewHashTrieWriter (4096 div r) r, s) = (None, f', h', s')"
    "feed_inv f' h' s' ([] @ d)" "\<forall>a x. R s a x \<longrightarrow> R s' a x"
    using feed_all [OF P(1) feed_inv_new assms(3), of s] assms(4) by auto
  then show ?thesis using feed_Sum_ok [of f' h' s' d] assms(4) P(2) by (auto simp: FeedPipeline_def NewAddress_def)
qed

text \<open>A file shorter than a chunk puts one chunk, itself.\<close>

lemma FeedPipeline_small:
  assumes P: "pl_Write P = fd_Write lw" "pl_Sum P = fd_Sum lw (ht_Sum pf)" and d: "d \<noteq> []" "length d < 4096"
  shows "\<exists>args' ref f' h' s'. pf (chunk_args d) s = (None, args', s') \<and>
    FeedPipeline P [(d, None)] (NewChunkFeederWriter 4096, NewHashTrieWriter (4096 div r) r, s) = (Inr ref, f', h', s')"
proof -
  let ?h = "NewHashTrieWriter (4096 div r) r" and ?f = "(NewChunkFeederWriter 4096)\<lparr>fd_buffer := d @ replicate (4096 - length d) 0, fd_bufferIdx := length d\<rparr>"
  have "overlay 0 d (replicate 4096 0) = d @ replicate (4096 - length d) 0" using d(2) by (subst overlay_fits) simp_all
  then have w: "fd_Write lw d (NewChunkFeederWriter 4096, ?h, s) = (Inr (int (length d)), ?f, ?h, s)"
    using d(2) by (simp add: fd_Write_def NewChunkFeederWriter_def)
  obtain args' h' s' ref h'' where c: "pf (chunk_args d) s = (None, args', s')" "lw (chunk_args d) (?h, s) = (None, args', h', s')"
    "ht_Sum pf (h', s') = (Inr ref, h'', s')"
    using single_written [OF file_inv_new, of d s] d(2) by auto
  have "fd_flush lw (?f, ?h, s) = (None, ?f\<lparr>fd_wrote := int (8 + length d)\<rparr>, h', s')"
    using c(2) d by (simp add: fd_flush_def Let_def chunk_args_def NewChunkFeederWriter_def)
  then show ?thesis using w c by (auto simp: FeedPipeline_def P fd_Sum_def)
qed

lemma FeedPipeline_read_error:
  assumes "pl_Write P = fd_Write lw" and "delivered rs = Inl e" and "length (concat (map fst rs)) \<le> full r 8"
  shows "fst (FeedPipeline P rs (NewChunkFeederWriter 4096, NewHashTrieWriter (4096 div r) r, s)) = Inl (ReadErr e)"
  using feed_fails [OF assms(1) feed_inv_new assms(2), of s] assms(3) by (auto simp: FeedPipeline_def)

end

end
