(* ===== verification/LoadSave.thy ===== *)
theory LoadSave
  imports FileFeed
begin

text \<open>
  \<open>pkg/file/loadsave\<close>: a blob is saved through the pipeline and loaded through the joiner. The chunk store is an interface
  (\<open>chunk_store\<close>): a put records a chunk, a get returns a chunk that was put under the address. \<open>puts\<close> is the history
  of the store, so that a collision of addresses can be spoken of. The plain and the encrypting pipeline write chunks that
  the (decrypting) getter of the joiner reads; together with the feeder, the trie and the joiner this gives the round trip.
\<close>

section \<open>Load and save\<close>

text \<open>\<open>bytes.NewReader\<close> read with the buffer of \<open>FeedPipeline\<close>.\<close>

function bytes_reads :: "bytes \<Rightarrow> (bytes \<times> read_end option) list" where
  "bytes_reads data = (if data = [] then [] else (take ChunkSize data, None) # bytes_reads (drop ChunkSize data))"
  by pat_completeness auto
termination
  by (relation "measure length") (simp_all add: ChunkSize_def SectionSize_def Branches_def)

declare bytes_reads.simps [simp del]

definition ls_Save ::
  "(bytes \<Rightarrow> bytes) \<Rightarrow> (nat \<Rightarrow> 's \<Rightarrow> bytes \<times> 's) \<Rightarrow> (bytes \<Rightarrow> bytes \<Rightarrow> string + bytes) \<Rightarrow> 's Putter \<Rightarrow> 's Tag option \<Rightarrow> bool
   \<Rightarrow> bytes \<Rightarrow> 's \<Rightarrow> (pl_error + bytes) \<times> 's" where
  "ls_Save kec rnd hs put tag encrypted data s =
     (case NewPipelineBuilder kec rnd hs put tag encrypted of
        (pipe, init) \<Rightarrow> (case FeedPipeline pipe (bytes_reads data) (init s) of (res, f, h, s1) \<Rightarrow> (res, s1)))"

definition ls_Load :: "(bytes \<Rightarrow> bytes) \<Rightarrow> (Address \<Rightarrow> string + bytes) \<Rightarrow> nat \<Rightarrow> bytes \<Rightarrow> (jn_error + bytes) option" where
  "ls_Load kec get fuel ref =
     (case New_joiner (decrypting_Get kec get) (NewAddress ref) of
        Inl e \<Rightarrow> Some (Inl e)
      | Inr (j, l) \<Rightarrow> JoinReadAll (join_exec (decrypting_Get kec get) (jn_refLength j) fuel) j)"

lemma delivered_bytes: "delivered (bytes_reads data) = Inr data"
proof (induction data rule: bytes_reads.induct)
  case (1 data)
  show ?case
  proof (cases "data = []")
    case False
    then show ?thesis using 1 [OF False] by (subst bytes_reads.simps) simp
  qed (simp add: bytes_reads.simps)
qed

section \<open>The chunk store\<close>

text \<open>\<open>puts\<close> is the set of the chunks that were put, with their addresses. The tag only counts.\<close>

locale chunk_store =
  fixes put :: "'s Putter" and get :: "'s \<Rightarrow> Address \<Rightarrow> string + bytes" and puts :: "'s \<Rightarrow> (Address \<times> bytes) set" and tag :: "'s Tag option"
  assumes put_ok: "\<exists>seen s'. put c s = (Inr seen, s') \<and> seen \<noteq> [] \<and> puts s' = insert (ch_addr c, ch_sdata c) (puts s)"
    and get_ok: "(a, d) \<in> puts s \<Longrightarrow> \<exists>d'. get s a = Inr d' \<and> (a, d') \<in> puts s"
    and tag_ok: "tag = Some g \<Longrightarrow> \<exists>s'. tag_Inc g t s = (None, s') \<and> puts s' = puts s"
begin

lemma inc_tag_ok: "\<exists>s'. inc_tag tag t s = (None, s') \<and> puts s' = puts s"
proof (cases tag)
  case (Some g)
  then show ?thesis using tag_ok [OF Some, of t s] by (auto simp: inc_tag_def)
qed (simp add: inc_tag_def)

lemma store_put_ok:
  assumes "pa_Ref p = Some ref"
  shows "\<exists>s'. store_put put tag p s = (None, s') \<and> puts s' = insert (ref, pa_Data p) (puts s)"
proof -
  let ?c = "case tag of None \<Rightarrow> NewChunk (NewAddress ref) (pa_Data p) | Some g \<Rightarrow> WithTagID (tag_Uid g) (NewChunk (NewAddress ref) (pa_Data p))"
  have c: "ch_addr ?c = ref" "ch_sdata ?c = pa_Data p" by (simp_all add: NewChunk_def WithTagID_def NewAddress_def split: option.splits)
  obtain s1 where s1: "inc_tag tag StateSplit s = (None, s1)" "puts s1 = puts s" using inc_tag_ok by blast
  obtain seen s2 where s2: "put ?c s1 = (Inr seen, s2)" "seen \<noteq> []" "puts s2 = insert (ref, pa_Data p) (puts s)"
    using put_ok [of ?c s1] unfolding c s1(2) by blast
  obtain s3 where s3: "inc_tag tag StateStored s2 = (None, s3)" "puts s3 = puts s2" using inc_tag_ok by blast
  obtain s4 where s4: "inc_tag tag StateSeen s3 = (None, s4)" "puts s4 = puts s3" using inc_tag_ok by blast
  show ?thesis using assms s1(1) s2 s3 s4 by (auto simp: store_put_def Let_def)
qed

end

text \<open>The hash of a chunk: 32 bytes for every chunk of an allowed size.\<close>

definition hash_ok :: "(bytes \<Rightarrow> bytes \<Rightarrow> string + bytes) \<Rightarrow> bool" where
  "hash_ok hs \<longleftrightarrow> (\<forall>span data. length span = 8 \<longrightarrow> length data \<le> 4096 \<longrightarrow> (\<exists>ref. hs span data = Inr ref \<and> length ref = 32))"

lemma well_sized_length: "ref_size r \<Longrightarrow> well_sized r span payload \<Longrightarrow> length payload \<le> 4096"
  by (auto simp: well_sized_def ref_size_def)

section \<open>Chunks as they are\<close>

definition plain_chunk :: "('s \<Rightarrow> (Address \<times> bytes) set) \<Rightarrow> 's \<Rightarrow> bytes \<Rightarrow> bytes \<Rightarrow> bool" where
  "plain_chunk puts s ref x \<longleftrightarrow> length ref = 32 \<and> (ref, x) \<in> puts s"

context chunk_store
begin

lemma bmt_store_ok:
  assumes "hash_ok hs" and "length span = 8" and "length data \<le> 4096" and "pa_Data p = span @ data"
  shows "\<exists>ref s'. bmtWriter hs (storeWriter_short put tag) p s = (None, p\<lparr>pa_Ref := Some ref\<rparr>, s') \<and> length ref = 32 \<and>
    puts s' = insert (ref, span @ data) (puts s)"
proof -
  obtain ref where ref: "hs span data = Inr ref" "length ref = 32" using assms by (auto simp: hash_ok_def)
  then show ?thesis using assms store_put_ok [of "p\<lparr>pa_Ref := Some ref\<rparr>" ref s] by (auto simp: bmtWriter_def storeWriter_short_def SpanSize_def)
qed

lemma plain_chunk_writer:
  assumes "hash_ok hs"
  shows "chunk_writer (newShortPipeline hs put tag) (plain_chunk puts) 32"
proof
  show "ref_size 32" by (simp add: ref_size_def)
  then show "\<exists>args' s' ref. newShortPipeline hs put tag \<lparr>pa_Ref = None, pa_Key = [], pa_Span = le_bytes 8 span, pa_Data = le_bytes 8 span @ payload\<rparr> s = (None, args', s') \<and>
        pa_Span args' = le_bytes 8 span \<and> pa_Ref args' = Some ref \<and> length (ref @ pa_Key args') = 32 \<and>
        plain_chunk puts s' (ref @ pa_Key args') (le_bytes 8 span @ payload) \<and> (\<forall>a x. plain_chunk puts s a x \<longrightarrow> plain_chunk puts s' a x)"
    if "well_sized 32 span payload" for span payload s
    using bmt_store_ok [OF assms, of "le_bytes 8 span" payload "\<lparr>pa_Ref = None, pa_Key = [], pa_Span = le_bytes 8 span, pa_Data = le_bytes 8 span @ payload\<rparr>" s]
      well_sized_length [OF _ that] by (auto simp: newShortPipeline_def plain_chunk_def)
qed

lemma plain_file_writer:
  assumes "hash_ok hs"
  shows "file_writer (newShortPipeline hs put tag) (plain_chunk puts) 32 (newPipeline hs put tag)"
  by (intro file_writer.intro plain_chunk_writer [OF assms] file_writer_axioms.intro)
    (simp add: newPipeline_def bmtWriter_def storeWriter_def newShortPipeline_def [of hs put tag] storeWriter_short_def split: sum.splits prod.splits option.splits)

lemma plain_chunk_reader:
  assumes "single_valued (puts s)"
  shows "chunk_reader (decrypting_Get kec (get s)) (plain_chunk puts s) 32"
proof
  show "\<exists>addr. decrypting_Get kec (get s) a = Inr (addr, x)" if "plain_chunk puts s a x" for a x
  proof -
    have a: "length a = 32" "(a, x) \<in> puts s" using that by (simp_all add: plain_chunk_def)
    then obtain d where "get s a = Inr d" "(a, d) \<in> puts s" using get_ok by blast
    moreover have "d = x" using calculation(2) a(2) assms by (meson single_valuedD)
    ultimately show ?thesis using a(1) by (simp add: decrypting_Get_def HashSize_def)
  qed
qed (simp add: ref_size_def)

end

section \<open>Encrypted chunks\<close>

text \<open>A reference is the address of the encrypted chunk and the key.\<close>

definition crypt_chunk :: "(bytes \<Rightarrow> bytes) \<Rightarrow> ('s \<Rightarrow> (Address \<times> bytes) set) \<Rightarrow> 's \<Rightarrow> bytes \<Rightarrow> bytes \<Rightarrow> bool" where
  "crypt_chunk kec puts s ref x \<longleftrightarrow>
     length ref = 64 \<and> (\<exists>c. (take 32 ref, c) \<in> puts s \<and> decryptChunkData kec c (drop 32 ref) = Inr x)"

text \<open>The data of a chunk is recovered from its padded form.\<close>

lemma data_length_sized:
  assumes "well_sized 64 span payload"
  shows "unat (data_length (word_of_nat span)) = length payload"
  using assms unfolding well_sized_def
proof (elim disjE exE conjE)
  assume "span = length payload" "span \<le> 4096"
  then show ?thesis using data_length_small by simp
next
  fix n k L
  assume a: "length payload = n * 64" "2 \<le> n" "n \<le> 4096 div 64" "0 < L" "L \<le> 4096 * (4096 div 64) ^ k"
    "span = 4096 * ((4096 div 64) ^ k * (n - 1)) + L" "span < 2 ^ 63"
  have b: "(4096 div 64 :: nat) = 64" by simp
  show ?thesis unfolding a(1) a(6) b
    by (rule data_length_refs [OF a(2) _ a(4)]) (use a(3,5,6,7) in \<open>simp_all only: b\<close>)
qed

lemma EncryptChunk_lift:
  "EncryptChunk kec (lift_rnd rnd) d (h, s) = (case EncryptChunk kec rnd d s of (x, s1) \<Rightarrow> (x, h, s1))"
  by (simp add: EncryptChunk_def Encrypt_def transform_def lift_rnd_def split: prod.splits sum.splits)

lemma decryptChunkData_ok:
  assumes "well_sized 64 span payload" and "span < 256 ^ 8"
    and "decrypt kec c key = Inr (le_bytes 8 span, dec)" and "length dec = ChunkSize" and "take (length payload) dec = payload"
  shows "decryptChunkData kec c key = Inr (le_bytes 8 span @ payload)"
proof -
  have "length payload \<le> 4096" using well_sized_length [OF _ assms(1)] by (simp add: ref_size_def)
  then show ?thesis using assms data_length_sized [OF assms(1)]
    by (simp add: decryptChunkData_def Let_def ChunkSize_def SectionSize_def Branches_def)
qed

locale crypt_store = chunk_store put get puts tag + cipher kec rnd puts
  for put :: "'s Putter" and get puts tag kec rnd
begin

lemma crypt_chunk_writer:
  assumes "hash_ok hs"
  shows "chunk_writer (newShortEncryptionPipeline kec rnd hs put tag) (crypt_chunk kec puts) 64"
proof
  show rs: "ref_size 64" by (simp add: ref_size_def)
  fix span payload s assume ws: "well_sized 64 span payload"
  let ?p = "\<lparr>pa_Ref = None, pa_Key = [], pa_Span = le_bytes 8 span, pa_Data = le_bytes 8 span @ payload\<rparr>"
  have len: "length payload \<le> 4096" by (rule well_sized_length [OF rs ws])
  have span: "span < 256 ^ 8" using ws by (auto simp: well_sized_def)
  obtain key es ed dec s1 where e: "EncryptChunk kec rnd (pa_Data ?p) s = (Inr (key, es, ed), s1)" "puts s1 = puts s"
    "length key = 32" "length es = 8" "length ed = ChunkSize" "decrypt kec (es @ ed) key = Inr (le_bytes 8 span, dec)" "length dec = ChunkSize"
    "take (length payload) dec = payload"
    using EncryptChunk_ok [of "pa_Data ?p" s] len by (auto simp: ChunkSize_def SectionSize_def Branches_def)
  let ?q = "?p\<lparr>pa_Key := key, pa_Data := es @ ed\<rparr>"
  have "length ed \<le> 4096" using e(5) by (simp add: ChunkSize_def SectionSize_def Branches_def)
  then obtain ref s2 where w: "bmtWriter hs (storeWriter_short put tag) ?q s1 = (None, ?q\<lparr>pa_Ref := Some ref\<rparr>, s2)" "length ref = 32"
    "puts s2 = insert (ref, es @ ed) (puts s1)"
    using bmt_store_ok [OF assms e(4), of ed ?q s1] by auto
  have "crypt_chunk kec puts s2 (ref @ key) (le_bytes 8 span @ payload)"
    using w(2,3) e(3) decryptChunkData_ok [OF ws span e(6-8)] by (auto simp: crypt_chunk_def)
  moreover have "\<forall>a x. crypt_chunk kec puts s a x \<longrightarrow> crypt_chunk kec puts s2 a x"
    using w(3) e(2) by (auto simp: crypt_chunk_def)
  ultimately show "\<exists>args' s' ref. newShortEncryptionPipeline kec rnd hs put tag ?p s = (None, args', s') \<and>
        pa_Span args' = le_bytes 8 span \<and> pa_Ref args' = Some ref \<and> length (ref @ pa_Key args') = 64 \<and>
        crypt_chunk kec puts s' (ref @ pa_Key args') (le_bytes 8 span @ payload) \<and> (\<forall>a x. crypt_chunk kec puts s a x \<longrightarrow> crypt_chunk kec puts s' a x)"
    using w(1,2) e(1,3) by (intro exI [of _ "?q\<lparr>pa_Ref := Some ref\<rparr>"] exI [of _ s2] exI [of _ ref]) (simp add: newShortEncryptionPipeline_def encryptionWriter_def)
qed

lemma crypt_file_writer:
  assumes "hash_ok hs"
  shows "file_writer (newShortEncryptionPipeline kec rnd hs put tag) (crypt_chunk kec puts) 64 (newEncryptionPipeline kec rnd hs put tag)"
  by (intro file_writer.intro crypt_chunk_writer [OF assms] file_writer_axioms.intro)
    (simp add: newEncryptionPipeline_def encryptionWriter_def EncryptChunk_lift bmtWriter_def storeWriter_def
       newShortEncryptionPipeline_def [of kec rnd hs put tag] storeWriter_short_def split: sum.splits prod.splits option.splits)

lemma crypt_chunk_reader:
  assumes "single_valued (puts s)"
  shows "chunk_reader (decrypting_Get kec (get s)) (crypt_chunk kec puts s) 64"
proof
  show "\<exists>addr. decrypting_Get kec (get s) a = Inr (addr, x)" if cc: "crypt_chunk kec puts s a x" for a x
  proof -
    obtain c where a: "length a = 64" "(take 32 a, c) \<in> puts s" "decryptChunkData kec c (drop 32 a) = Inr x"
      using cc by (auto simp: crypt_chunk_def)
    then obtain d where "get s (take 32 a) = Inr d" "(take 32 a, d) \<in> puts s" using get_ok by blast
    moreover have "d = c" using calculation(2) a(2) assms by (meson single_valuedD)
    ultimately show ?thesis using a(1,3) by (simp add: decrypting_Get_def HashSize_def ReferenceSize_def KeyLength_def Let_def)
  qed
qed (simp add: ref_size_def)

section \<open>The round trip\<close>

definition stored_chunk :: "bool \<Rightarrow> 's \<Rightarrow> bytes \<Rightarrow> bytes \<Rightarrow> bool" where
  "stored_chunk encrypted = (if encrypted then crypt_chunk kec puts else plain_chunk puts)"

definition stored_size :: "bool \<Rightarrow> nat" where
  "stored_size encrypted = (if encrypted then 64 else 32)"

lemma Save_ok:
  assumes "hash_ok hs" and "length data \<le> full (stored_size encrypted) 8"
  shows "\<exists>ref s'. ls_Save kec rnd hs put tag encrypted data s = (Inr ref, s') \<and> subtree (stored_chunk encrypted s') (stored_size encrypted) ref data \<and>
    (\<forall>a x. stored_chunk encrypted s a x \<longrightarrow> stored_chunk encrypted s' a x)"
proof -
  have c: "ChunkSize = 4096" "KeyLength = 32" "HashSize = 32" "Branches = 128"
    by (simp_all add: ChunkSize_def SectionSize_def Branches_def HashSize_def KeyLength_def)
  show ?thesis
  proof (cases encrypted)
    case True
    then show ?thesis
      using file_writer.FeedPipeline_ok [OF crypt_file_writer [OF assms(1)], of "fst (NewPipelineBuilder kec rnd hs put tag True)" "bytes_reads data" data s]
        assms(2) delivered_bytes by (auto simp: ls_Save_def NewPipelineBuilder_def c stored_size_def stored_chunk_def)
  next
    case False
    then show ?thesis
      using file_writer.FeedPipeline_ok [OF plain_file_writer [OF assms(1)], of "fst (NewPipelineBuilder kec rnd hs put tag False)" "bytes_reads data" data s]
        assms(2) delivered_bytes by (auto simp: ls_Save_def NewPipelineBuilder_def c stored_size_def stored_chunk_def)
  qed
qed

lemma Save_small:
  assumes "hash_ok hs" and "data \<noteq> []" and "length data < 4096"
  shows "\<exists>ref args' s'. ls_Save kec rnd hs put tag False data s = (Inr ref, s') \<and>
    newShortPipeline hs put tag \<lparr>pa_Ref = None, pa_Key = [], pa_Span = le_bytes 8 (length data), pa_Data = le_bytes 8 (length data) @ data\<rparr> s = (None, args', s')"
proof -
  have c: "ChunkSize = 4096" "HashSize = 32" "Branches = 128" by (simp_all add: ChunkSize_def SectionSize_def Branches_def HashSize_def)
  have "bytes_reads data = [(data, None)]" using assms(2,3) by (simp add: bytes_reads.simps [of data] bytes_reads.simps [of "[]"] c)
  then show ?thesis
    using file_writer.FeedPipeline_small [OF plain_file_writer [OF assms(1)], of "fst (NewPipelineBuilder kec rnd hs put tag False)" data s]
      assms(2,3) file_writer.chunk_args_def [OF plain_file_writer [OF assms(1)]]
    by (auto simp: ls_Save_def NewPipelineBuilder_def c)
qed

lemma Load_ok:
  assumes "subtree (stored_chunk encrypted s) (stored_size encrypted) ref data" and "single_valued (puts s)"
    and "int (length data) < 2 ^ 63" and "2 * length data \<le> fuel"
  shows "ls_Load kec (get s) fuel ref = Some (Inr data)"
proof -
  have cr: "chunk_reader (decrypting_Get kec (get s)) (stored_chunk encrypted s) (stored_size encrypted)"
    using crypt_chunk_reader plain_chunk_reader assms(2) by (simp add: stored_chunk_def stored_size_def)
  obtain j where j: "New_joiner (decrypting_Get kec (get s)) ref = Inr (j, int (length data))" "jn_refLength j = stored_size encrypted"
    using chunk_reader.joiner_of_subtree [OF cr assms(1,3)] by auto
  then show ?thesis using chunk_reader.JoinReadAll_ok [OF cr assms(1,3) j(1) assms(4)] by (simp add: ls_Load_def NewAddress_def)
qed

lemma stored_mono: "puts s \<subseteq> puts s' \<Longrightarrow> stored_chunk encrypted s a x \<Longrightarrow> stored_chunk encrypted s' a x"
  by (auto simp: stored_chunk_def crypt_chunk_def plain_chunk_def split: if_splits)

end

end
