(* ===== verification/StorageModes.thy ===== *)
theory StorageModes
  imports Main
begin

text \<open>The modes of \<open>pkg/storage/store.go\<close>: why a chunk is read, stored or changed.\<close>

datatype ModeGet = ModeGetRequest | ModeGetSync | ModeGetLookup | ModeGetPin | ModeGetRequestPin
datatype ModePut = ModePutRequest | ModePutSync | ModePutUpload | ModePutUploadPin | ModePutRequestPin | ModePutRequestCache
datatype ModeSet = ModeSetSync | ModeSetRemove | ModeSetPin | ModeSetUnpin

end
