(* ===== verification/MockStore.thy ===== *)
theory MockStore
  imports LoadSave StorageModes
begin

text \<open>
  \<open>pkg/storage/mock/storer.go\<close>: the chunk store in memory, with its modes, bins and pins. It implements the interface
  \<open>chunk_store\<close> of \<^emph>\<open>LoadSave\<close>, where the history of the puts is kept beside it; so a blob that is saved is loaded back.
\<close>

section \<open>The store in memory\<close>

definition MaxBins :: nat where "MaxBins = unat MaxPO + 1"

record MockStorer =
  ms_store :: "string \<rightharpoonup> unit chunk"
  ms_modePut :: "string \<rightharpoonup> ModePut"
  ms_modeSet :: "string \<rightharpoonup> ModeSet"
  ms_pinnedAddress :: "Address list"
  ms_pinnedCounter :: "u64 list"
  ms_bins :: "u64 list"
  ms_baseAddress :: bytes

definition NewStorer :: "bytes \<Rightarrow> MockStorer" where
  "NewStorer base =
     \<lparr>ms_store = Map.empty, ms_modePut = Map.empty, ms_modeSet = Map.empty, ms_pinnedAddress = [], ms_pinnedCounter = [],
      ms_bins = replicate MaxBins 0, ms_baseAddress = base\<rparr>"

definition ms_Get :: "Address \<Rightarrow> MockStorer \<Rightarrow> string + unit chunk" where
  "ms_Get addr m = (case ms_store m (addr_String addr) of None \<Rightarrow> Inl ''storage: not found'' | Some v \<Rightarrow> Inr v)"

definition ms_has :: "Address \<Rightarrow> MockStorer \<Rightarrow> bool" where
  "ms_has addr m \<longleftrightarrow> ms_store m (addr_String addr) \<noteq> None"

text \<open>Counting one more pin of an address.\<close>

definition ms_pin :: "Address \<Rightarrow> MockStorer \<Rightarrow> MockStorer" where
  "ms_pin addr m =
     (if addr \<in> set (ms_pinnedAddress m)
      then m\<lparr>ms_pinnedCounter := map2 (\<lambda>ad n. if addr_String addr = addr_String ad then n + 1 else n) (ms_pinnedAddress m) (ms_pinnedCounter m)\<rparr>
      else m\<lparr>ms_pinnedAddress := ms_pinnedAddress m @ [addr], ms_pinnedCounter := ms_pinnedCounter m @ [1]\<rparr>)"

text \<open>Putting one chunk; an index out of the range of the bins is the panic.\<close>

definition ms_put_one :: "ModePut \<Rightarrow> unit chunk \<Rightarrow> MockStorer \<Rightarrow> (string + bool) \<times> MockStorer" where
  "ms_put_one mode ch m =
     (let addr = ch_addr ch; exist = ms_has addr m; po = unat (Proximity addr (ms_baseAddress m)) in
      if \<not> exist \<and> length (ms_bins m) \<le> po then (Inl ''index out of range'', m)
      else
        let m1 = (if exist then m else m\<lparr>ms_bins := (ms_bins m)[po := ms_bins m ! po + 1]\<rparr>);
            c = (NewChunk (NewAddress addr) (ch_sdata ch))\<lparr>ch_stamp := ch_stamp ch\<rparr>;
            m2 = m1\<lparr>ms_store := (ms_store m1)(addr_String addr \<mapsto> c), ms_modePut := (ms_modePut m1)(addr_String addr \<mapsto> mode)\<rparr> in
        (Inr exist, if mode = ModePutUploadPin then ms_pin addr m2 else m2))"

primrec ms_Put :: "ModePut \<Rightarrow> unit chunk list \<Rightarrow> MockStorer \<Rightarrow> (string + bool list) \<times> MockStorer" where
  "ms_Put mode [] m = (Inr [], m)"
| "ms_Put mode (ch # chs) m =
     (case ms_put_one mode ch m of
        (Inl e, m1) \<Rightarrow> (Inl e, m1)
      | (Inr b, m1) \<Rightarrow> (case ms_Put mode chs m1 of (Inl e, m2) \<Rightarrow> (Inl e, m2) | (Inr bs, m2) \<Rightarrow> (Inr (b # bs), m2)))"

lemma ms_pin_simps [simp]: "ms_store (ms_pin a m) = ms_store m" "ms_bins (ms_pin a m) = ms_bins m"
  by (simp_all add: ms_pin_def)

section \<open>Bounds of the bins\<close>

lemma scan_bits_bound: "scan_bits b js = Some j \<Longrightarrow> j \<in> set js"
  by (induction js) (auto split: if_splits)

lemma scan_bytes_bound: "scan_bytes x y is = Some n \<Longrightarrow> \<exists>i \<in> set is. n < 8 * Suc i"
  by (induction "is") (auto split: option.splits dest!: scan_bits_bound)

lemma scan_limit_max: "unat (scan_limit MaxPO x y) \<le> 4"
  by (auto simp: scan_limit_def MaxPO_def Let_def word_less_nat_alt)

lemma Proximity_MaxPO: "unat (Proximity x y) < MaxBins"
proof (cases "scan_bytes x y [0..<unat (scan_limit MaxPO x y)]")
  case (Some n)
  then obtain i where "i < unat (scan_limit MaxPO x y)" "n < 8 * Suc i" using scan_bytes_bound [OF Some] by auto
  moreover from this(1) have "i < 4" using scan_limit_max by (rule less_le_trans)
  ultimately have "n < 32" by simp
  then show ?thesis using Some by (simp add: Proximity_def MaxBins_def MaxPO_def unat_of_nat)
qed (simp add: Proximity_def MaxBins_def)

section \<open>The store as chunk store\<close>

text \<open>The store with the history of the puts.\<close>

type_synonym mock_world = "MockStorer \<times> (Address \<times> bytes) list"

text \<open>The history: every chunk of the store is in it, every put address is in the store.\<close>

definition mock_ok :: "mock_world \<Rightarrow> bool" where
  "mock_ok w \<longleftrightarrow> length (ms_bins (fst w)) = MaxBins \<and>
     (\<forall>(a, d) \<in> set (snd w). \<exists>c. ms_store (fst w) (addr_String a) = Some c \<and> (a, ch_sdata c) \<in> set (snd w))"

definition mock_put :: "ModePut \<Rightarrow> mock_world Putter" where
  "mock_put mode c w =
     (case w of (m, log) \<Rightarrow> (case ms_Put mode [c] m of (r, m1) \<Rightarrow> (r, m1, (ch_addr c, ch_sdata c) # log)))"

definition mock_get :: "mock_world \<Rightarrow> Address \<Rightarrow> string + bytes" where
  "mock_get w addr = (case ms_Get addr (fst w) of Inl e \<Rightarrow> Inl e | Inr c \<Rightarrow> Inr (ch_sdata c))"

lemma mock_put_ok:
  assumes "mock_ok w"
  shows "\<exists>b w'. mock_put mode c w = (Inr [b], w') \<and> set (snd w') = insert (ch_addr c, ch_sdata c) (set (snd w)) \<and> mock_ok w'"
proof -
  obtain m log where w: "w = (m, log)" by fastforce
  have "\<not> length (ms_bins m) \<le> unat (Proximity (ch_addr c) (ms_baseAddress m))" using assms Proximity_MaxPO w by (simp add: mock_ok_def not_le)
  then obtain b m1 where p: "ms_put_one mode c m = (Inr b, m1)" "length (ms_bins m1) = MaxBins"
    "ms_store m1 = (ms_store m)(addr_String (ch_addr c) \<mapsto> (NewChunk (ch_addr c) (ch_sdata c))\<lparr>ch_stamp := ch_stamp c\<rparr>)"
    using assms w by (auto simp: ms_put_one_def Let_def mock_ok_def NewAddress_def)
  have "mock_ok (m1, (ch_addr c, ch_sdata c) # log)" using assms p(2,3) w by (auto simp: mock_ok_def NewChunk_def)
  then show ?thesis using p(1) w by (simp add: mock_put_def)
qed

lemma mock_get_ok: "mock_ok w \<Longrightarrow> (a, d) \<in> set (snd w) \<Longrightarrow> \<exists>d'. mock_get w a = Inr d' \<and> (a, d') \<in> set (snd w)"
  by (fastforce simp: mock_ok_def mock_get_def ms_Get_def)

text \<open>The states of the store that its operations can reach.\<close>

typedef mock_state = "{w. mock_ok w}"
  by (rule exI [of _ "(NewStorer [], [])"]) (simp add: mock_ok_def NewStorer_def)

definition state_put :: "ModePut \<Rightarrow> mock_state Putter" where
  "state_put mode c s = (case mock_put mode c (Rep_mock_state s) of (r, w) \<Rightarrow> (r, Abs_mock_state w))"

definition state_get :: "mock_state \<Rightarrow> Address \<Rightarrow> string + bytes" where
  "state_get s = mock_get (Rep_mock_state s)"

definition state_puts :: "mock_state \<Rightarrow> (Address \<times> bytes) set" where
  "state_puts s = set (snd (Rep_mock_state s))"

lemma Rep_mock_ok: "mock_ok (Rep_mock_state s)"
  using Rep_mock_state by blast

interpretation mock_store: chunk_store "state_put mode" state_get state_puts None
proof
  show "\<exists>seen s'. state_put mode c s = (Inr seen, s') \<and> seen \<noteq> [] \<and> state_puts s' = insert (ch_addr c, ch_sdata c) (state_puts s)" for c s
    using mock_put_ok [OF Rep_mock_ok, of mode c s] by (auto simp: state_put_def state_puts_def Abs_mock_state_inverse)
  show "\<exists>d'. state_get s a = Inr d' \<and> (a, d') \<in> state_puts s" if "(a, d) \<in> state_puts s" for a d s
    using mock_get_ok [OF Rep_mock_ok] that by (simp add: state_get_def state_puts_def)
qed simp

section \<open>The round trip\<close>

text \<open>C26. A blob survives the store. Saving succeeds for every blob the tree has room for, through the plain and through the
  encrypting pipeline, whatever the chunk store and the tag are that keep their contracts, and loading the reference gives
  the blob back, then and at any later time, unless the addresses of two different chunks collide.\<close>

theorem file_round_trip:
  assumes "crypt_store put get puts tag kec rnd" and "hash_ok hs" and "length data \<le> (if encrypted then 2 ^ 54 else 2 ^ 61)"
  shows "\<exists>ref s'. ls_Save kec rnd hs put tag encrypted data s = (Inr ref, s') \<and> length ref = (if encrypted then 64 else 32) \<and>
    (\<forall>s'' fuel. puts s' \<subseteq> puts s'' \<and> single_valued (puts s'') \<and> 2 * length data \<le> fuel \<longrightarrow>
       ls_Load kec (get s'') fuel ref = Some (Inr data))"
proof -
  note cs = assms(1) and size_def = crypt_store.stored_size_def [OF assms(1)]
  let ?r = "crypt_store.stored_size encrypted" and ?R = "crypt_store.stored_chunk puts kec encrypted"
  have "full ?r 8 = (if encrypted then 2 ^ 54 else 2 ^ 61)" by (simp add: size_def full_def)
  then obtain ref s' where sv: "ls_Save kec rnd hs put tag encrypted data s = (Inr ref, s')" "subtree (?R s') ?r ref data"
    using crypt_store.Save_ok [OF cs assms(2), of data encrypted s] assms(3) by auto
  have len: "int (length data) < 2 ^ 63" using assms(3) by (auto split: if_splits)
  have "ls_Load kec (get s'') fuel ref = Some (Inr data)"
    if "puts s' \<subseteq> puts s''" "single_valued (puts s'')" "2 * length data \<le> fuel" for s'' fuel
    by (rule crypt_store.Load_ok [OF cs subtree_mono [OF sv(2)] that(2) len that(3)]) (rule crypt_store.stored_mono [OF cs that(1)])
  then show ?thesis using sv subtree_ref [OF sv(2)] by (auto simp: size_def)
qed

text \<open>A hash for the demonstration: the beginning of the data.\<close>

definition demo_hash :: "bytes \<Rightarrow> bytes \<Rightarrow> string + bytes" where
  "demo_hash span data = Inr (take 32 (data @ replicate 32 0))"

definition demo_rnd :: "nat \<Rightarrow> 's \<Rightarrow> bytes \<times> 's" where
  "demo_rnd n s = (replicate n 0, s)"

definition demo_kec :: "bytes \<Rightarrow> bytes" where
  "demo_kec bs = replicate 32 7"

lemma demo_hash_ok: "hash_ok demo_hash"
  by (auto simp: hash_ok_def demo_hash_def min_def)

interpretation mock_crypt: crypt_store "state_put mode" state_get state_puts None demo_kec demo_rnd
  by unfold_locales (auto simp: demo_kec_def demo_rnd_def)

definition demo_state :: mock_state where
  "demo_state = Abs_mock_state (NewStorer [], [])"

lemma demo_state_puts: "state_puts demo_state = {}"
  by (simp add: state_puts_def demo_state_def Abs_mock_state_inverse mock_ok_def NewStorer_def)

theorem file_round_trip_witness:
  "\<exists>ref s'. ls_Save demo_kec demo_rnd demo_hash (state_put ModePutUpload) None False [1, 2, 3] demo_state = (Inr ref, s') \<and>
     ls_Load demo_kec (state_get s') 6 ref = Some (Inr [1, 2, 3])"
proof -
  let ?d = "[1, 2, 3] :: bytes" and ?put = "state_put ModePutUpload"
  let ?p = "\<lparr>pa_Ref = None, pa_Key = [], pa_Span = le_bytes 8 3, pa_Data = le_bytes 8 3 @ ?d\<rparr>"
  obtain ref args' s' where sv: "ls_Save demo_kec demo_rnd demo_hash ?put None False ?d demo_state = (Inr ref, s')"
    "newShortPipeline demo_hash ?put None ?p demo_state = (None, args', s')"
    using mock_crypt.Save_small [OF demo_hash_ok, of ?d ModePutUpload demo_state] by (auto simp: numeral_3_eq_3)
  have "\<exists>x. state_puts s' = insert x (state_puts demo_state)"
    using mock_store.bmt_store_ok [OF demo_hash_ok, of "le_bytes 8 3" ?d ?p ModePutUpload demo_state] sv(2) by (auto simp: newShortPipeline_def)
  then have "single_valued (state_puts s')" by (auto simp: demo_state_puts single_valued_def)
  then show ?thesis
    using file_round_trip [OF mock_crypt.crypt_store_axioms demo_hash_ok, of ?d False ModePutUpload demo_state] sv(1) by auto
qed

end
