(* ===== verification/Bmt.thy ===== *)
theory Bmt
  imports Swarm
begin

text \<open>
  \<open>pkg/bmt\<close>: the binary Merkle tree hash of a chunk. The hasher starts a goroutine for every section of 64 bytes that is
  complete; the goroutines climb the tree, and at a node the first of two leaves its hash behind and ends, the second hashes
  both and goes on. \<open>Hash\<close> starts a last goroutine that supplies the hashes of the empty sections on the right. Goroutines
  are the list \<open>bm_threads\<close>, any of them may run next (\<open>bmt_run\<close>); a step is one turn of the loops of \<open>writeNode\<close> and
  \<open>writeFinalNode\<close>, which touches one node: its left field is written by the left child only, its right field by the
  right one, and the counter is atomic. The base hash \<open>bh\<close>, of \<open>hsz\<close> bytes, is a parameter (its \<open>Write\<close> never
  fails, as \<open>hash.Hash\<close> documents). The reference hasher of \<open>pkg/bmt/reference\<close> is here as well.
\<close>

section \<open>Configuration\<close>

definition doHash :: "(bytes \<Rightarrow> bytes) \<Rightarrow> bytes list \<Rightarrow> bytes" where
  "doHash bh data = bh (concat data)"

record Conf =
  cf_segmentSize :: nat
  cf_segmentCount :: nat
  cf_capacity :: nat
  cf_depth :: nat
  cf_maxSize :: nat
  cf_zerohashes :: "bytes list"

text \<open>The loop of \<open>sizeToParams\<close>; \<open>c\<close> starts at 2, the guard keeps the recursion total.\<close>

function size_loop :: "nat \<Rightarrow> nat \<Rightarrow> nat \<Rightarrow> nat \<times> nat" where
  "size_loop n c d = (if 0 < c \<and> c < n then size_loop n (c * 2) (d + 1) else (c, d))"
  by pat_completeness auto
termination
  by (relation "measure (\<lambda>(n, c, d). n - c)") auto

declare size_loop.simps [simp del]

definition sizeToParams :: "nat \<Rightarrow> nat \<times> nat" where
  "sizeToParams n = (case size_loop n 2 0 of (c, d) \<Rightarrow> (c, d + 1))"

primrec zero_hashes :: "(bytes \<Rightarrow> bytes) \<Rightarrow> bytes \<Rightarrow> nat \<Rightarrow> bytes list" where
  "zero_hashes bh zeros 0 = [zeros]"
| "zero_hashes bh zeros (Suc n) = zeros # zero_hashes bh (doHash bh [zeros, zeros]) n"

definition NewConf :: "(bytes \<Rightarrow> bytes) \<Rightarrow> nat \<Rightarrow> nat \<Rightarrow> nat \<Rightarrow> Conf" where
  "NewConf bh hsz segmentCount capacity =
     (case sizeToParams segmentCount of (count, depth) \<Rightarrow>
      \<lparr>cf_segmentSize = hsz, cf_segmentCount = segmentCount, cf_capacity = capacity, cf_depth = depth,
       cf_maxSize = count * hsz, cf_zerohashes = zero_hashes bh (replicate hsz 0) depth\<rparr>)"

section \<open>Trees and their pool\<close>

text \<open>A node is found under its level, 0 for the leaves, and its index on the level. The counter is a 32-bit integer.\<close>

type_synonym addr = "nat \<times> nat"

record node =
  nd_isLeft :: bool
  nd_parent :: "addr option"
  nd_state :: int
  nd_left :: bytes
  nd_right :: bytes

definition newNode :: "nat \<Rightarrow> addr option \<Rightarrow> node" where
  "newNode index parent = \<lparr>nd_isLeft = (index mod 2 = 0), nd_parent = parent, nd_state = 0, nd_left = [], nd_right = []\<rparr>"

record tree =
  tr_leaves :: "addr list"
  tr_nodes :: "addr \<Rightarrow> node"
  tr_buffer :: bytes

primrec new_levels :: "nat \<Rightarrow> addr list \<Rightarrow> (addr \<Rightarrow> node) \<Rightarrow> addr list \<times> (addr \<Rightarrow> node)" where
  "new_levels 0 prevlevel ns = (prevlevel, ns)"
| "new_levels (Suc level) prevlevel ns =
     (let nodes = map (Pair level) [0..<2 * length prevlevel] in
      new_levels level nodes
        (\<lambda>a. if a \<in> set nodes then newNode (snd a) (Some (prevlevel ! (snd a div 2))) else ns a))"

definition newTree :: "nat \<Rightarrow> nat \<Rightarrow> tree" where
  "newTree maxsize depth =
     (case new_levels (depth - 1) [(depth - 1, 0)] (\<lambda>_. newNode 0 None) of
        (leaves, ns) \<Rightarrow> \<lparr>tr_leaves = leaves, tr_nodes = ns, tr_buffer = replicate maxsize 0\<rparr>)"

definition i32 :: "int \<Rightarrow> int" where
  "i32 x = (x + 2 ^ 31) mod 2 ^ 32 - 2 ^ 31"

text \<open>\<open>atomic.AddInt32(&n.state, 1) % 2 == 1\<close>; the remainder of a negative number is not positive.\<close>

definition toggle :: "node \<Rightarrow> bool \<times> node" where
  "toggle n =
     (let st = i32 (nd_state n + 1) in ((if st < 0 then - (- st mod 2) else st mod 2) = 1, n\<lparr>nd_state := st\<rparr>))"

section \<open>The hasher\<close>

text \<open>A goroutine: a section to hash, or the climb of a hash with the node to write it to (none above the root).\<close>

datatype thread = Section nat bool | WNode "addr option" bool bytes | FNode nat "addr option" bool "bytes option"

record Hasher =
  bm_conf :: Conf
  bm_leaves :: "addr list"
  bm_nodes :: "addr \<Rightarrow> node"
  bm_buffer :: bytes
  bm_size :: nat
  bm_pos :: nat
  bm_offset :: nat
  bm_span :: bytes
  bm_threads :: "thread list"
  bm_result :: "bytes list"

text \<open>The pool: the trees that wait in its channel. \<open>Get\<close> blocks when there is none, \<open>Put\<close> when the channel is full.\<close>

record Pool =
  pl_c :: "tree list"
  pl_conf :: Conf

definition NewPool :: "Conf \<Rightarrow> Pool" where
  "NewPool c = \<lparr>pl_c = replicate (cf_capacity c) (newTree (cf_maxSize c) (cf_depth c)), pl_conf = c\<rparr>"

definition new_hasher :: "Conf \<Rightarrow> tree \<Rightarrow> Hasher" where
  "new_hasher c t =
     \<lparr>bm_conf = c, bm_leaves = tr_leaves t, bm_nodes = tr_nodes t, bm_buffer = tr_buffer t, bm_size = 0, bm_pos = 0, bm_offset = 0,
      bm_span = replicate SpanSize 0, bm_threads = [], bm_result = []\<rparr>"

definition pool_Get :: "Pool \<Rightarrow> (Hasher \<times> Pool) option" where
  "pool_Get p = (case pl_c p of [] \<Rightarrow> None | t # ts \<Rightarrow> Some (new_hasher (pl_conf p) t, p\<lparr>pl_c := ts\<rparr>))"

definition pool_Put :: "Hasher \<Rightarrow> Pool \<Rightarrow> Pool option" where
  "pool_Put h p =
     (if length (pl_c p) < cf_capacity (pl_conf p)
      then Some (p\<lparr>pl_c := pl_c p @ [\<lparr>tr_leaves = bm_leaves h, tr_nodes = bm_nodes h, tr_buffer = bm_buffer h\<rparr>]\<rparr>) else None)"

definition copy_at :: "nat \<Rightarrow> bytes \<Rightarrow> bytes \<Rightarrow> bytes" where
  "copy_at off src dst = take off dst @ take (length dst - off) src @ drop (off + length src) dst"

definition SetHeader :: "bytes \<Rightarrow> Hasher \<Rightarrow> Hasher" where
  "SetHeader span h = h\<lparr>bm_span := copy_at 0 span (bm_span h)\<rparr>"

definition bm_Reset :: "Hasher \<Rightarrow> Hasher" where
  "bm_Reset h = h\<lparr>bm_size := 0, bm_pos := 0, bm_offset := 0, bm_span := copy_at 0 (replicate 8 0) (bm_span h)\<rparr>"

definition bm_Write :: "bytes \<Rightarrow> Hasher \<Rightarrow> nat \<times> Hasher" where
  "bm_Write b h =
     (let max' = cf_maxSize (bm_conf h) - bm_size h;
          l = (if max' < length b then max' else length b);
          secsize = 2 * cf_segmentSize (bm_conf h);
          from = bm_size h div secsize;
          size' = bm_size h + l;
          to = (if l = max' then size' div secsize - 1 else size' div secsize) in
      (l, h\<lparr>bm_buffer := copy_at (bm_size h) b (bm_buffer h), bm_offset := bm_size h mod secsize, bm_size := size', bm_pos := to,
            bm_threads := bm_threads h @ map (\<lambda>i. Section i False) [from..<to]\<rparr>))"

section \<open>The goroutines\<close>

definition upd_node :: "addr \<Rightarrow> (node \<Rightarrow> node) \<Rightarrow> Hasher \<Rightarrow> Hasher" where
  "upd_node a f h = h\<lparr>bm_nodes := (bm_nodes h)(a := f (bm_nodes h a))\<rparr>"

definition hash_node :: "(bytes \<Rightarrow> bytes) \<Rightarrow> node \<Rightarrow> bytes" where
  "hash_node bh n = doHash bh [nd_left n, nd_right n]"

text \<open>\<open>processSection\<close>: the section is hashed, then the climb starts at the parent of its leaf.\<close>

definition processSection :: "(bytes \<Rightarrow> bytes) \<Rightarrow> nat \<Rightarrow> bool \<Rightarrow> Hasher \<Rightarrow> thread option \<times> Hasher" where
  "processSection bh i final h =
     (let secsize = 2 * cf_segmentSize (bm_conf h);
          n = bm_nodes h (bm_leaves h ! i);
          section = doHash bh [take secsize (drop (i * secsize) (bm_buffer h))] in
      (Some (if final then FNode 1 (nd_parent n) (nd_isLeft n) (Some section) else WNode (nd_parent n) (nd_isLeft n) section), h))"

text \<open>One turn of the loop of \<open>writeNode\<close>.\<close>

definition writeNode :: "(bytes \<Rightarrow> bytes) \<Rightarrow> addr option \<Rightarrow> bool \<Rightarrow> bytes \<Rightarrow> Hasher \<Rightarrow> thread option \<times> Hasher" where
  "writeNode bh a isLeft s h =
     (case a of
        None \<Rightarrow> (None, h\<lparr>bm_result := bm_result h @ [s]\<rparr>)
      | Some a \<Rightarrow>
          let n1 = (if isLeft then (bm_nodes h a)\<lparr>nd_left := s\<rparr> else (bm_nodes h a)\<lparr>nd_right := s\<rparr>) in
          (case toggle n1 of (first, n2) \<Rightarrow>
             (if first then None else Some (WNode (nd_parent n2) (nd_isLeft n2) (hash_node bh n2)), upd_node a (\<lambda>_. n2) h)))"

text \<open>One turn of the loop of \<open>writeFinalNode\<close>.\<close>

definition writeFinalNode ::
  "(bytes \<Rightarrow> bytes) \<Rightarrow> nat \<Rightarrow> addr option \<Rightarrow> bool \<Rightarrow> bytes option \<Rightarrow> Hasher \<Rightarrow> thread option \<times> Hasher" where
  "writeFinalNode bh level a isLeft s h =
     (case a of
        None \<Rightarrow> (None, case s of None \<Rightarrow> h | Some s \<Rightarrow> h\<lparr>bm_result := bm_result h @ [s]\<rparr>)
      | Some a \<Rightarrow>
          let n = bm_nodes h a;
              (noHash, n2) =
                (if isLeft then
                   (let n1 = n\<lparr>nd_right := cf_zerohashes (bm_conf h) ! level\<rparr> in
                    case s of Some s \<Rightarrow> (False, n1\<lparr>nd_left := s\<rparr>) | None \<Rightarrow> toggle n1)
                 else
                   (case s of Some s \<Rightarrow> toggle (n\<lparr>nd_right := s\<rparr>) | None \<Rightarrow> (True, n))) in
          (Some (FNode (level + 1) (nd_parent n2) (nd_isLeft n2) (if noHash then None else Some (hash_node bh n2))), upd_node a (\<lambda>_. n2) h))"

definition run_thread :: "(bytes \<Rightarrow> bytes) \<Rightarrow> thread \<Rightarrow> Hasher \<Rightarrow> thread option \<times> Hasher" where
  "run_thread bh t h =
     (case t of
        Section i final \<Rightarrow> processSection bh i final h
      | WNode a isLeft s \<Rightarrow> writeNode bh a isLeft s h
      | FNode level a isLeft s \<Rightarrow> writeFinalNode bh level a isLeft s h)"

text \<open>The \<open>k\<close>-th goroutine takes a step; it is replaced by its continuation or ends.\<close>

definition bmt_step :: "(bytes \<Rightarrow> bytes) \<Rightarrow> nat \<Rightarrow> Hasher \<Rightarrow> Hasher" where
  "bmt_step bh k h =
     (case run_thread bh (bm_threads h ! k) (h\<lparr>bm_threads := take k (bm_threads h) @ drop (Suc k) (bm_threads h)\<rparr>) of
        (None, h1) \<Rightarrow> h1
      | (Some t, h1) \<Rightarrow> h1\<lparr>bm_threads := bm_threads h1 @ [t]\<rparr>)"

inductive bmt_run :: "(bytes \<Rightarrow> bytes) \<Rightarrow> Hasher \<Rightarrow> Hasher \<Rightarrow> bool" for bh where
  idle: "bmt_run bh h h"
| step: "k < length (bm_threads h) \<Longrightarrow> bmt_run bh (bmt_step bh k h) h' \<Longrightarrow> bmt_run bh h h'"

text \<open>One schedule: the oldest goroutine first, for at most \<open>n\<close> steps.\<close>

primrec bmt_exec :: "(bytes \<Rightarrow> bytes) \<Rightarrow> nat \<Rightarrow> Hasher \<Rightarrow> Hasher" where
  "bmt_exec bh 0 h = h"
| "bmt_exec bh (Suc n) h = (if bm_threads h = [] then h else bmt_exec bh n (bmt_step bh 0 h))"

text \<open>\<open>Hash\<close>: without data the result is known; otherwise the last goroutine is started and the result awaited.\<close>

definition Hash_start :: "Hasher \<Rightarrow> Hasher" where
  "Hash_start h =
     (if bm_size h = 0 then h
      else h\<lparr>bm_buffer := copy_at (bm_size h) (replicate 64 0) (bm_buffer h), bm_threads := bm_threads h @ [Section (bm_pos h) True]\<rparr>)"

text \<open>\<open>None\<close> while the result has not been sent.\<close>

definition Hash_result :: "(bytes \<Rightarrow> bytes) \<Rightarrow> Hasher \<Rightarrow> bytes option" where
  "Hash_result bh h =
     (if bm_size h = 0 then Some (doHash bh [bm_span h, cf_zerohashes (bm_conf h) ! cf_depth (bm_conf h)])
      else (case bm_result h of [] \<Rightarrow> None | r # rs \<Rightarrow> Some (doHash bh [bm_span h, r])))"

text \<open>A chunk is hashed in one go: \<open>Get\<close>, \<open>SetHeader\<close>, one \<open>Write\<close>, \<open>Hash\<close>. The fuel covers every step of every goroutine.\<close>

definition bmt_fuel :: "Conf \<Rightarrow> nat" where
  "bmt_fuel cf = (cf_depth cf + 1) * 2 ^ cf_depth cf + cf_depth cf + 2"

definition bmt_digest :: "(bytes \<Rightarrow> bytes) \<Rightarrow> Conf \<Rightarrow> tree \<Rightarrow> bytes \<Rightarrow> bytes \<Rightarrow> bytes option" where
  "bmt_digest bh cf t span data =
     Hash_result bh (bmt_exec bh (bmt_fuel cf) (Hash_start (snd (bm_Write data (SetHeader span (new_hasher cf t))))))"

section \<open>The reference hasher\<close>

record RefHasher =
  rh_maxDataLength :: nat
  rh_sectionLength :: nat

definition NewRefHasher :: "nat \<Rightarrow> nat \<Rightarrow> RefHasher" where
  "NewRefHasher hsz count = \<lparr>rh_maxDataLength = fst (size_loop count 2 0) * hsz, rh_sectionLength = 2 * hsz\<rparr>"

text \<open>The recursion over halves. A length that never meets the length of a section would not end; the check for zero keeps the
  recursion total there.\<close>

function rh_hash :: "(bytes \<Rightarrow> bytes) \<Rightarrow> nat \<Rightarrow> bytes \<Rightarrow> nat \<Rightarrow> bytes" where
  "rh_hash bh sectionLength data len =
     (if len = sectionLength \<or> len = 0 then bh data
      else let len = len div 2 in bh (rh_hash bh sectionLength (take len data) len @ rh_hash bh sectionLength (drop len data) len))"
  by pat_completeness auto
termination
  by (relation "measure (\<lambda>(bh, sec, data, len). len)") auto

declare rh_hash.simps [simp del]

text \<open>Data is padded with zeros to the full length, or cut.\<close>

definition rh_Hash :: "(bytes \<Rightarrow> bytes) \<Rightarrow> RefHasher \<Rightarrow> bytes \<Rightarrow> bytes" where
  "rh_Hash bh rh data =
     (let n = rh_maxDataLength rh in rh_hash bh (rh_sectionLength rh) (take n data @ replicate (n - length data) 0) n)"

end
