(* ===== verification/BmtTree.thy ===== *)
theory BmtTree
  imports Bmt
begin

text \<open>
  The concurrent hasher computes the reference hash. \<open>V h i\<close> is the hash of the subtree of height \<open>h\<close> and index \<open>i\<close> over the
  padded data. The state of the goroutines is described by the sections that are hashed, the nodes whose hash has arrived at their
  parent and how far the last goroutine has climbed; from these follow the counters, the fields of the nodes, the goroutines
  that are left and the result. Every step keeps this description, in any order.
\<close>

section \<open>The values of the nodes\<close>

primrec subtree_hash :: "(bytes \<Rightarrow> bytes) \<Rightarrow> nat \<Rightarrow> bytes \<Rightarrow> bytes" where
  "subtree_hash bh 0 data = bh data"
| "subtree_hash bh (Suc k) data = bh (subtree_hash bh k (take (64 * 2 ^ k) data) @ subtree_hash bh k (drop (64 * 2 ^ k) data))"

lemma rh_hash_subtree: "rh_hash bh 64 data (64 * 2 ^ k) = subtree_hash bh k data"
proof (induction k arbitrary: data)
  case (Suc k)
  have "(64 * 2 ^ Suc k) div 2 = (64 * 2 ^ k :: nat)" by simp
  then show ?case by (subst rh_hash.simps) (simp only: Let_def Suc.IH subtree_hash.simps, simp)
qed (simp add: rh_hash.simps)

lemma zero_hashes_nth: "n \<le> k \<Longrightarrow> zero_hashes bh z k ! n = ((\<lambda>x. bh (x @ x)) ^^ n) z"
proof (induction k arbitrary: z n)
  case (Suc k)
  then show ?case using funpow_swap1 [of "\<lambda>x. bh (x @ x)"] by (cases n) (simp_all add: doHash_def)
qed simp

lemma subtree_hash_zeros: "subtree_hash bh h (replicate (64 * 2 ^ h) 0) = ((\<lambda>x. bh (x @ x)) ^^ Suc h) (replicate 32 0)"
proof (induction h)
  case 0
  have "replicate 32 (0::byte) @ replicate 32 0 = replicate 64 0" by (simp flip: replicate_add)
  then show ?case by simp
next
  case (Suc h)
  have "take (64 * 2 ^ h) (replicate (64 * 2 ^ Suc h) (0::byte)) = replicate (64 * 2 ^ h) 0"
    "drop (64 * 2 ^ h) (replicate (64 * 2 ^ Suc h) (0::byte)) = replicate (64 * 2 ^ h) 0" by simp_all
  then show ?case using Suc by simp
qed

definition sub_block :: "nat \<Rightarrow> nat \<Rightarrow> bytes \<Rightarrow> bytes" where
  "sub_block h i D = take (64 * 2 ^ h) (drop (i * (64 * 2 ^ h)) D)"

lemma block_halves:
  "take B (take (2 * B) (drop (i * (2 * B)) D)) = take B (drop (2 * i * B) D)"
  "drop B (take (2 * B) (drop (i * (2 * B)) D)) = take B (drop ((2 * i + 1) * B) D)"
  by (simp_all add: drop_take algebra_simps)

lemma sub_block_halves:
  "take (64 * 2 ^ h) (sub_block (Suc h) i D) = sub_block h (2 * i) D" "drop (64 * 2 ^ h) (sub_block (Suc h) i D) = sub_block h (2 * i + 1) D"
proof -
  have "64 * 2 ^ Suc h = 2 * (64 * 2 ^ h :: nat)" by simp
  then show "take (64 * 2 ^ h) (sub_block (Suc h) i D) = sub_block h (2 * i) D" "drop (64 * 2 ^ h) (sub_block (Suc h) i D) = sub_block h (2 * i + 1) D"
    unfolding sub_block_def by (simp_all only: block_halves)
qed

section \<open>Trees as they are built\<close>

definition in_tree :: "nat \<Rightarrow> addr \<Rightarrow> bool" where
  "in_tree m v \<longleftrightarrow> fst v \<le> m \<and> snd v < 2 ^ (m - fst v)"

definition par :: "nat \<Rightarrow> addr \<Rightarrow> addr option" where
  "par m v = (if fst v = m then None else Some (Suc (fst v), snd v div 2))"

definition shaped :: "nat \<Rightarrow> addr list \<Rightarrow> (addr \<Rightarrow> node) \<Rightarrow> bool" where
  "shaped m leaves ns \<longleftrightarrow>
     leaves = map (Pair 0) [0..<2 ^ m] \<and>
     (\<forall>v. in_tree m v \<longrightarrow> nd_parent (ns v) = par m v \<and> nd_isLeft (ns v) = even (snd v))"

lemma finite_tree: "finite {v. in_tree m v}"
proof (rule finite_subset)
  show "{v. in_tree m v} \<subseteq> {..m} \<times> {..<2 ^ m}"
  proof
    fix v assume "v \<in> {v. in_tree m v}"
    then have v: "fst v \<le> m" "snd v < 2 ^ (m - fst v)" by (simp_all add: in_tree_def)
    then have "(2::nat) ^ (m - fst v) \<le> 2 ^ m" by (intro power_increasing) simp_all
    then have "snd v < 2 ^ m" using v(2) by linarith
    then show "v \<in> {..m} \<times> {..<2 ^ m}" using v(1) by (cases v) simp
  qed
qed simp

text \<open>What \<open>new_levels\<close> builds below a level.\<close>

lemma new_levels_shape:
  "l \<le> m \<Longrightarrow> prev = map (Pair l) [0..<2 ^ (m - l)] \<Longrightarrow> (\<forall>v. nd_state (ns v) = 0) \<Longrightarrow>
   (\<forall>v. in_tree m v \<longrightarrow> l \<le> fst v \<longrightarrow> nd_parent (ns v) = par m v \<and> nd_isLeft (ns v) = even (snd v)) \<Longrightarrow>
   shaped m (fst (new_levels l prev ns)) (snd (new_levels l prev ns)) \<and> (\<forall>v. nd_state (snd (new_levels l prev ns) v) = 0)"
proof (induction l arbitrary: prev ns)
  case 0
  then show ?case by (simp add: shaped_def)
next
  case (Suc l)
  let ?nodes = "map (Pair l) [0..<2 * length prev]"
  let ?ns = "\<lambda>a. if a \<in> set ?nodes then newNode (snd a) (Some (prev ! (snd a div 2))) else ns a"
  have pow: "(2::nat) ^ (m - l) = 2 * 2 ^ (m - Suc l)" using Suc.prems(1) by (simp add: Suc_diff_Suc flip: power_Suc)
  then have len: "2 * length prev = 2 ^ (m - l)" using Suc.prems(2) by simp
  have "nd_parent (?ns v) = par m v \<and> nd_isLeft (?ns v) = even (snd v)" if v: "in_tree m v" "l \<le> fst v" for v
  proof (cases "fst v = l")
    case True
    then have mem: "v \<in> set ?nodes" using v len by (cases v) (auto simp: in_tree_def)
    have "snd v div 2 < 2 ^ (m - Suc l)" using v(1) True pow by (auto simp: in_tree_def)
    then have "prev ! (snd v div 2) = (Suc l, snd v div 2)" using Suc.prems(2) by simp
    then show ?thesis using mem True Suc.prems(1) by (simp add: newNode_def par_def even_iff_mod_2_eq_zero)
  next
    case False
    then have "v \<notin> set ?nodes" by (cases v) auto
    moreover have "Suc l \<le> fst v" using v(2) False by simp
    then have "nd_parent (ns v) = par m v \<and> nd_isLeft (ns v) = even (snd v)" using Suc.prems(4) v(1) by blast
    ultimately show ?thesis by (simp only: if_False)
  qed
  then have "shaped m (fst (new_levels l ?nodes ?ns)) (snd (new_levels l ?nodes ?ns)) \<and> (\<forall>v. nd_state (snd (new_levels l ?nodes ?ns) v) = 0)"
    using Suc.prems(1,3) len by (intro Suc.IH) (auto simp: newNode_def)
  then show ?case by (simp add: Let_def)
qed

lemma newTree_shaped:
  "shaped m (tr_leaves (newTree n (Suc m))) (tr_nodes (newTree n (Suc m)))" "nd_state (tr_nodes (newTree n (Suc m)) v) = 0"
  "length (tr_buffer (newTree n (Suc m))) = n"
proof -
  have "nd_parent (newNode 0 None) = par m v \<and> nd_isLeft (newNode 0 None) = even (snd v)" if "in_tree m v" "m \<le> fst v" for v
    using that by (auto simp: in_tree_def newNode_def par_def)
  then have "shaped m (fst (new_levels m [(m, 0)] (\<lambda>_. newNode 0 None))) (snd (new_levels m [(m, 0)] (\<lambda>_. newNode 0 None))) \<and>
      (\<forall>v. nd_state (snd (new_levels m [(m, 0)] (\<lambda>_. newNode 0 None)) v) = 0)"
    by (intro new_levels_shape) (auto simp: newNode_def)
  then show "shaped m (tr_leaves (newTree n (Suc m))) (tr_nodes (newTree n (Suc m)))" "nd_state (tr_nodes (newTree n (Suc m)) v) = 0"
    "length (tr_buffer (newTree n (Suc m))) = n"
    by (cases v; simp add: newTree_def split_beta)+
qed

lemma size_loop_double: "n \<le> 2 ^ Suc k \<Longrightarrow> \<exists>e. size_loop n (2 ^ Suc d) d = (2 ^ Suc e, e)"
proof (induction "Suc k - d" arbitrary: d)
  case 0
  have "(2::nat) ^ Suc k \<le> 2 ^ Suc d" using 0 by (intro power_increasing) simp_all
  then have "\<not> 2 ^ Suc d < n" using 0 by linarith
  then show ?case by (subst size_loop.simps) simp
next
  case (Suc x)
  then show ?case using Suc.hyps(1) [of "Suc d"] by (subst size_loop.simps) (auto simp: mult.commute)
qed

end
