(* ===== verification/BmtHash.thy ===== *)
theory BmtHash
  imports BmtTree
begin

text \<open>
  The invariant of the concurrent hasher. \<open>S\<close> are the sections that are hashed, \<open>A\<close> the nodes whose hash has arrived at the
  parent, \<open>F\<close> the state of the last goroutine. A node is \<open>ready\<close> when both its children have arrived, where the last goroutine
  stands in for the missing right child; its hash is on the way until it arrives, too.
\<close>

section \<open>The state of the goroutines\<close>

definition V :: "(bytes \<Rightarrow> bytes) \<Rightarrow> bytes \<Rightarrow> addr \<Rightarrow> bytes" where
  "V bh D v = subtree_hash bh (fst v) (sub_block (fst v) (snd v) D)"

lemma V_node: "V bh D (Suc h, i) = bh (V bh D (h, 2 * i) @ V bh D (h, Suc (2 * i)))"
  using sub_block_halves(2) [of h i D] by (simp only: V_def fst_conv snd_conv subtree_hash.simps sub_block_halves(1) Suc_eq_plus1 [symmetric])

text \<open>The last goroutine: not started, started, at level \<open>k\<close> with or without a hash, ended.\<close>

datatype climb = NoF | FPend | FAt nat bool | FEnd

definition climbed :: "nat \<Rightarrow> climb \<Rightarrow> nat" where
  "climbed m F = (case F of NoF \<Rightarrow> 0 | FPend \<Rightarrow> 0 | FAt k c \<Rightarrow> k | FEnd \<Rightarrow> m)"

text \<open>The node on level \<open>k\<close> above the last section, and the nodes where zeros stand in for the right child.\<close>

definition pth :: "nat \<Rightarrow> nat \<Rightarrow> addr" where
  "pth pos k = (k, pos div 2 ^ k)"

definition zeroed :: "nat \<Rightarrow> nat \<Rightarrow> addr set" where
  "zeroed pos k = {v. \<exists>j < k. v = pth pos (Suc j) \<and> even (pos div 2 ^ j)}"

definition lefts :: "addr set \<Rightarrow> addr \<Rightarrow> bool" where
  "lefts A v \<longleftrightarrow> (fst v - 1, 2 * snd v) \<in> A"

definition rights :: "addr set \<Rightarrow> addr set \<Rightarrow> addr \<Rightarrow> bool" where
  "rights A Z v \<longleftrightarrow> (fst v - 1, Suc (2 * snd v)) \<in> A \<or> v \<in> Z"

definition ready :: "nat set \<Rightarrow> addr set \<Rightarrow> addr set \<Rightarrow> addr \<Rightarrow> bool" where
  "ready S A Z v \<longleftrightarrow> (if fst v = 0 then snd v \<in> S else lefts A v \<and> rights A Z v)"

definition carried :: "nat \<Rightarrow> climb \<Rightarrow> addr \<Rightarrow> bool" where
  "carried pos F v \<longleftrightarrow> (\<exists>k. F = FAt k True \<and> v = pth pos k)"

definition Wt :: "(bytes \<Rightarrow> bytes) \<Rightarrow> nat \<Rightarrow> bytes \<Rightarrow> addr \<Rightarrow> thread" where
  "Wt bh m D v = WNode (par m v) (even (snd v)) (V bh D v)"

definition Ft :: "(bytes \<Rightarrow> bytes) \<Rightarrow> nat \<Rightarrow> bytes \<Rightarrow> nat \<Rightarrow> climb \<Rightarrow> thread set" where
  "Ft bh m D pos F =
     (case F of
        NoF \<Rightarrow> {} | FPend \<Rightarrow> {Section pos True} | FEnd \<Rightarrow> {}
      | FAt k c \<Rightarrow> {FNode (Suc k) (par m (pth pos k)) (even (pos div 2 ^ k)) (if c then Some (V bh D (pth pos k)) else None)})"

definition waiting :: "nat \<Rightarrow> nat \<Rightarrow> nat set \<Rightarrow> addr set \<Rightarrow> climb \<Rightarrow> addr set" where
  "waiting m pos S A F = {v. in_tree m v \<and> ready S A (zeroed pos (climbed m F)) v \<and> v \<notin> A \<and> \<not> carried pos F v}"

definition threads_of :: "(bytes \<Rightarrow> bytes) \<Rightarrow> nat \<Rightarrow> bytes \<Rightarrow> nat \<Rightarrow> nat set \<Rightarrow> addr set \<Rightarrow> climb \<Rightarrow> thread set" where
  "threads_of bh m D pos S A F =
     (\<lambda>i. Section i False) ` ({..<pos} - S) \<union> Ft bh m D pos F \<union> Wt bh m D ` waiting m pos S A F"

text \<open>The counter and the fields of a node; \<open>s\<close> is the counter before the run.\<close>

definition node_ok :: "(bytes \<Rightarrow> bytes) \<Rightarrow> bytes \<Rightarrow> addr set \<Rightarrow> addr set \<Rightarrow> int \<Rightarrow> addr \<Rightarrow> node \<Rightarrow> bool" where
  "node_ok bh D A Z s v n \<longleftrightarrow>
     s \<le> nd_state n \<and> nd_state n \<le> s + of_bool (lefts A v) + of_bool (rights A Z v) \<and>
     (even (nd_state n) \<longleftrightarrow> (lefts A v \<longleftrightarrow> rights A Z v)) \<and>
     (lefts A v \<longrightarrow> nd_left n = V bh D (fst v - 1, 2 * snd v)) \<and>
     (rights A Z v \<longrightarrow> nd_right n = V bh D (fst v - 1, Suc (2 * snd v)))"

definition conf_ok :: "(bytes \<Rightarrow> bytes) \<Rightarrow> nat \<Rightarrow> Conf \<Rightarrow> bool" where
  "conf_ok bh m cf \<longleftrightarrow> cf_segmentSize cf = 32 \<and> cf_depth cf = Suc m \<and> cf_maxSize cf = 64 * 2 ^ m \<and>
     cf_zerohashes cf = zero_hashes bh (replicate 32 0) (Suc m)"

definition counters_ok :: "(addr \<Rightarrow> int) \<Rightarrow> bool" where
  "counters_ok s0 \<longleftrightarrow> (\<forall>v. 0 \<le> s0 v \<and> even (s0 v) \<and> s0 v + 2 < 2 ^ 31)"

definition state_inv ::
  "(bytes \<Rightarrow> bytes) \<Rightarrow> nat \<Rightarrow> bytes \<Rightarrow> (addr \<Rightarrow> int) \<Rightarrow> nat \<Rightarrow> nat set \<Rightarrow> addr set \<Rightarrow> climb \<Rightarrow> (addr \<Rightarrow> node) \<Rightarrow> bytes list \<Rightarrow> bool" where
  "state_inv bh m D s0 pos S A F ns res \<longleftrightarrow>
     pos < 2 ^ m \<and> S \<subseteq> {..pos} \<and> (pos \<in> S \<longleftrightarrow> F \<noteq> NoF \<and> F \<noteq> FPend) \<and>
     (\<forall>v \<in> A. in_tree m v \<and> ready S A (zeroed pos (climbed m F)) v) \<and>
     (\<forall>k c. F = FAt k c \<longrightarrow> k \<le> m \<and> (c \<longrightarrow> ready S A (zeroed pos k) (pth pos k) \<and> pth pos k \<notin> A)) \<and>
     (\<forall>v. in_tree m v \<longrightarrow> nd_parent (ns v) = par m v \<and> nd_isLeft (ns v) = even (snd v)) \<and>
     (\<forall>v. in_tree m v \<and> 0 < fst v \<longrightarrow> node_ok bh D A (zeroed pos (climbed m F)) (s0 v) v (ns v)) \<and>
     res = (if (m, 0) \<in> A then [V bh D (m, 0)] else [])"

definition bmt_inv ::
  "(bytes \<Rightarrow> bytes) \<Rightarrow> nat \<Rightarrow> bytes \<Rightarrow> (addr \<Rightarrow> int) \<Rightarrow> nat set \<Rightarrow> addr set \<Rightarrow> climb \<Rightarrow> Hasher \<Rightarrow> bool" where
  "bmt_inv bh m D s0 S A F h \<longleftrightarrow>
     conf_ok bh m (bm_conf h) \<and> counters_ok s0 \<and> length D = 64 * 2 ^ m \<and> bm_leaves h = map (Pair 0) [0..<2 ^ m] \<and>
     state_inv bh m D s0 (bm_pos h) S A F (bm_nodes h) (bm_result h) \<and>
     distinct (bm_threads h) \<and> set (bm_threads h) = threads_of bh m D (bm_pos h) S A F \<and>
     (\<forall>i. i < bm_pos h \<or> i = bm_pos h \<and> F \<noteq> NoF \<longrightarrow> sub_block 0 i (bm_buffer h) = sub_block 0 i D) \<and>
     (F \<noteq> NoF \<longrightarrow> set (drop (64 * Suc (bm_pos h)) D) \<subseteq> {0})"

section \<open>Nodes and their children\<close>

lemma in_tree_up: "in_tree m (h, i) \<Longrightarrow> h < m \<Longrightarrow> in_tree m (Suc h, i div 2)"
proof -
  assume a: "in_tree m (h, i)" "h < m"
  then have "(2::nat) ^ (m - h) = 2 * 2 ^ (m - Suc h)" by (simp add: Suc_diff_Suc flip: power_Suc)
  then show ?thesis using a by (simp add: in_tree_def less_mult_imp_div_less mult.commute)
qed

lemma in_tree_root: "in_tree m (m, i) \<longleftrightarrow> i = 0"
  by (auto simp: in_tree_def)

lemma in_tree_pth: "pos < 2 ^ m \<Longrightarrow> k \<le> m \<Longrightarrow> in_tree m (pth pos k)"
  by (simp add: in_tree_def pth_def less_mult_imp_div_less flip: power_add)

lemma pth_up: "(Suc (fst (pth pos k)), snd (pth pos k) div 2) = pth pos (Suc k)"
  by (simp add: pth_def div_mult2_eq [symmetric] mult.commute)

lemma Wt_inject:
  assumes "in_tree m v" "in_tree m w" "Wt bh m D v = Wt bh m D w"
  shows "v = w"
proof -
  obtain h i h' i' where vw: "v = (h, i)" "w = (h', i')" by fastforce
  show ?thesis
  proof (cases "h = m \<or> h' = m")
    case True
    then show ?thesis using assms vw by (auto simp: Wt_def par_def in_tree_root split: if_splits)
  next
    case False
    then have "h = h'" "i div 2 = i' div 2" "even i = even i'" using assms(3) vw by (auto simp: Wt_def par_def split: if_splits)
    then show ?thesis using vw by (metis even_two_times_div_two odd_two_times_div_two_succ)
  qed
qed

lemma toggle_eq:
  assumes "0 \<le> nd_state n" "nd_state n + 1 < 2 ^ 31"
  shows "toggle n = (even (nd_state n), n\<lparr>nd_state := nd_state n + 1\<rparr>)"
proof -
  have "i32 (nd_state n + 1) = nd_state n + 1" using assms by (simp add: i32_def)
  then show ?thesis using assms(1) by (auto simp: toggle_def Let_def even_iff_mod_2_eq_zero) presburger+
qed

text \<open>Nodes that are not the parent do not notice an arrival.\<close>

lemma lefts_other: "0 < fst w \<Longrightarrow> w \<noteq> (Suc h, i div 2) \<Longrightarrow> lefts (insert (h, i) A) w = lefts A w"
  by (cases w) (auto simp: lefts_def)

lemma rights_other: "0 < fst w \<Longrightarrow> w \<noteq> (Suc h, i div 2) \<Longrightarrow> rights (insert (h, i) A) Z w = rights A Z w"
  by (cases w) (auto simp: rights_def)

lemma lefts_parent: "lefts (insert (h, i) A) (Suc h, i div 2) \<longleftrightarrow> even i \<or> lefts A (Suc h, i div 2)"
  by (cases "even i") (auto simp: lefts_def elim!: evenE oddE)

lemma rights_parent: "rights (insert (h, i) A) Z (Suc h, i div 2) \<longleftrightarrow> odd i \<or> rights A Z (Suc h, i div 2)"
  by (cases "even i") (auto simp: rights_def elim!: evenE oddE)

lemma zeroed_Suc: "zeroed pos (Suc k) = (if even (pos div 2 ^ k) then insert (pth pos (Suc k)) (zeroed pos k) else zeroed pos k)"
  by (auto simp: zeroed_def less_Suc_eq)

lemma pth_not_zeroed: "pth pos (Suc k) \<notin> zeroed pos k"
  by (auto simp: zeroed_def pth_def)

lemma ready_mono: "ready S A Z v \<Longrightarrow> S \<subseteq> S' \<Longrightarrow> A \<subseteq> A' \<Longrightarrow> Z \<subseteq> Z' \<Longrightarrow> ready S' A' Z' v"
  by (auto simp: ready_def lefts_def rights_def split: if_splits)

lemma ready_other: "w \<noteq> (Suc h, i div 2) \<Longrightarrow> ready S (insert (h, i) A) Z w = ready S A Z w"
  by (cases "fst w = 0") (simp_all add: ready_def lefts_other rights_other)

text \<open>The other child of the parent of \<open>(h, i)\<close> has arrived.\<close>

definition sibling_in :: "addr set \<Rightarrow> addr set \<Rightarrow> nat \<Rightarrow> nat \<Rightarrow> bool" where
  "sibling_in A Z h i \<longleftrightarrow> (if even i then rights A Z (Suc h, i div 2) else lefts A (Suc h, i div 2))"

lemma ready_parent: "ready S (insert (h, i) A) Z (Suc h, i div 2) \<longleftrightarrow> sibling_in A Z h i \<or> ready S A Z (Suc h, i div 2)"
  by (auto simp: ready_def lefts_parent rights_parent sibling_in_def)

lemma own_slot:
  assumes "(h, i) \<notin> A" and "odd i \<Longrightarrow> (Suc h, i div 2) \<notin> Z"
  shows "if even i then \<not> lefts A (Suc h, i div 2) else \<not> rights A Z (Suc h, i div 2)"
  using assms by (cases "even i") (auto simp: lefts_def rights_def elim!: evenE oddE)

lemma hash_node_ok: "node_ok bh D A Z s (Suc h, j) n \<Longrightarrow> lefts A (Suc h, j) \<Longrightarrow> rights A Z (Suc h, j) \<Longrightarrow> hash_node bh n = V bh D (Suc h, j)"
  by (simp add: node_ok_def hash_node_def doHash_def V_node)

lemma node_arrive:
  fixes n :: node
  assumes ok: "node_ok bh D A Z s (Suc h, i div 2) n" and s: "0 \<le> s" "s + 2 < 2 ^ 31" "even s"
    and v: "(h, i) \<notin> A" "odd i \<Longrightarrow> (Suc h, i div 2) \<notin> Z"
    and n1: "n1 = (if even i then n\<lparr>nd_left := V bh D (h, i)\<rparr> else n\<lparr>nd_right := V bh D (h, i)\<rparr>)"
  shows "\<exists>n2. toggle n1 = (\<not> sibling_in A Z h i, n2) \<and> node_ok bh D (insert (h, i) A) Z s (Suc h, i div 2) n2 \<and>
    nd_parent n2 = nd_parent n \<and> nd_isLeft n2 = nd_isLeft n"
proof -
  note own = own_slot [OF v]
  have st: "nd_state n1 = nd_state n" by (simp add: n1)
  have le: "nd_state n \<le> s + 1" "s \<le> nd_state n" "even (nd_state n) \<longleftrightarrow> \<not> sibling_in A Z h i"
    using ok own by (auto simp: node_ok_def sibling_in_def split: if_splits)
  have "toggle n1 = (even (nd_state n), n1\<lparr>nd_state := nd_state n + 1\<rparr>)" using toggle_eq [of n1] le s st by simp
  moreover have "node_ok bh D (insert (h, i) A) Z s (Suc h, i div 2) (n1\<lparr>nd_state := nd_state n + 1\<rparr>)"
  proof (cases "even i")
    case True
    then have "2 * (i div 2) = i" by simp
    then show ?thesis using True ok own by (auto simp: node_ok_def lefts_parent rights_parent n1)
  next
    case False
    then have "Suc (2 * (i div 2)) = i" by simp
    then show ?thesis using False ok own by (auto simp: node_ok_def lefts_parent rights_parent n1)
  qed
  ultimately show ?thesis using le(3) by (simp add: n1)
qed

text \<open>The last goroutine supplies the zeros on the right, alone or together with the hash on the left.\<close>

lemma node_zero:
  assumes ok: "node_ok bh D A Z s (Suc h, j) n" and s: "0 \<le> s" "s + 2 < 2 ^ 31" and no: "\<not> rights A Z (Suc h, j)"
    and z: "z = V bh D (h, Suc (2 * j))"
  shows "toggle (n\<lparr>nd_right := z\<rparr>) = (\<not> lefts A (Suc h, j), n\<lparr>nd_right := z, nd_state := nd_state n + 1\<rparr>)"
    "node_ok bh D A (insert (Suc h, j) Z) s (Suc h, j) (n\<lparr>nd_right := z, nd_state := nd_state n + 1\<rparr>)"
proof -
  have le: "nd_state n \<le> s + 1" "s \<le> nd_state n" "even (nd_state n) \<longleftrightarrow> \<not> lefts A (Suc h, j)" using ok no by (auto simp: node_ok_def split: if_splits)
  then show "toggle (n\<lparr>nd_right := z\<rparr>) = (\<not> lefts A (Suc h, j), n\<lparr>nd_right := z, nd_state := nd_state n + 1\<rparr>)"
    using toggle_eq [of "n\<lparr>nd_right := z\<rparr>"] s by simp
  have "rights A (insert (Suc h, j) Z) (Suc h, j)" by (simp add: rights_def)
  then show "node_ok bh D A (insert (Suc h, j) Z) s (Suc h, j) (n\<lparr>nd_right := z, nd_state := nd_state n + 1\<rparr>)"
    using ok no le z by (simp add: node_ok_def)
qed

lemma node_both:
  assumes ok: "node_ok bh D A Z s (Suc h, i div 2) n" and "even i" and no: "\<not> rights A Z (Suc h, i div 2)" "(h, i) \<notin> A"
    and z: "z = V bh D (h, Suc i)"
  shows "node_ok bh D (insert (h, i) A) (insert (Suc h, i div 2) Z) s (Suc h, i div 2) (n\<lparr>nd_right := z, nd_left := V bh D (h, i)\<rparr>)"
proof -
  have e: "2 * (i div 2) = i" using assms(2) by simp
  then have nl: "\<not> lefts A (Suc h, i div 2)" using no(2) by (simp add: lefts_def)
  then have st: "nd_state n = s" "even (nd_state n)" using ok no(1) by (simp_all add: node_ok_def)
  have "lefts (insert (h, i) A) (Suc h, i div 2)" "rights (insert (h, i) A) (insert (Suc h, i div 2) Z) (Suc h, i div 2)"
    using e by (simp_all add: lefts_def rights_def)
  then show ?thesis using st z e by (simp add: node_ok_def)
qed

lemma node_ok_other:
  assumes "w \<noteq> (Suc h, i div 2)" "0 < fst w"
  shows "node_ok bh D (insert (h, i) A) Z s w n = node_ok bh D A Z s w n"
  using lefts_other [OF assms(2,1)] rights_other [OF assms(2,1)] by (simp add: node_ok_def)

lemma node_ok_zero_other: "w \<noteq> u \<Longrightarrow> node_ok bh D A (insert u Z) s w n = node_ok bh D A Z s w n"
  by (simp add: node_ok_def rights_def)

text \<open>Nothing beyond the last section arrives.\<close>

lemma arrived_le:
  assumes "\<forall>v \<in> A. ready S A Z v" and "S \<subseteq> {..pos}"
  shows "(h, i) \<in> A \<Longrightarrow> i * 2 ^ h \<le> pos"
proof (induction h arbitrary: i)
  case 0
  then have "ready S A Z (0, i)" using assms(1) by blast
  then show ?case using assms(2) by (auto simp: ready_def)
next
  case (Suc h)
  then have "(h, 2 * i) \<in> A" using assms(1) by (auto simp: ready_def lefts_def)
  then show ?case using Suc.IH [of "2 * i"] by (simp add: ac_simps)
qed

lemma beyond_not_arrived:
  assumes "\<forall>v \<in> A. ready S A Z v" and "S \<subseteq> {..pos}"
  shows "(h, Suc (pos div 2 ^ h)) \<notin> A"
proof
  assume "(h, Suc (pos div 2 ^ h)) \<in> A"
  then have "Suc (pos div 2 ^ h) * 2 ^ h \<le> pos" by (rule arrived_le [OF assms])
  then show False using dividend_less_div_times [of "2 ^ h" pos] by (simp add: mult.commute)
qed

lemma ready_le:
  assumes "\<forall>v \<in> A. ready S A Z v" and "S \<subseteq> {..pos}" and "ready S A Z (h, i)"
  shows "i * 2 ^ h \<le> pos"
proof (cases h)
  case 0
  then show ?thesis using assms(2,3) by (auto simp: ready_def)
next
  case (Suc h')
  then have "(h', 2 * i) \<in> A" using assms(3) by (simp add: ready_def lefts_def)
  then show ?thesis using arrived_le [OF assms(1,2)] Suc by (fastforce simp: ac_simps)
qed

lemma odd_not_zeroed:
  assumes "\<forall>v \<in> A. ready S A Z v" and "S \<subseteq> {..pos}" and "ready S A Z (h, i)" and "odd i"
  shows "(Suc h, i div 2) \<notin> zeroed pos k"
proof
  assume "(Suc h, i div 2) \<in> zeroed pos k"
  moreover have "pos div 2 ^ Suc h = pos div 2 ^ h div 2" by (simp add: div_mult2_eq [symmetric] mult.commute)
  ultimately have e: "even (pos div 2 ^ h)" "i div 2 = pos div 2 ^ h div 2" by (auto simp: zeroed_def pth_def)
  then have "i = Suc (pos div 2 ^ h)" using assms(4) by (metis even_two_times_div_two odd_two_times_div_two_succ Suc_eq_plus1)
  then show False using ready_le [OF assms(1-3)] dividend_less_div_times [of "2 ^ h" pos] by (simp add: mult.commute)
qed

section \<open>Steps of a goroutine that climbs\<close>

lemma state_invD:
  assumes "state_inv bh m D s0 pos S A F ns res"
  shows "pos < 2 ^ m" "S \<subseteq> {..pos}" "\<forall>v \<in> A. ready S A (zeroed pos (climbed m F)) v" "\<And>v. v \<in> A \<Longrightarrow> in_tree m v"
    "\<And>v. in_tree m v \<Longrightarrow> 0 < fst v \<Longrightarrow> node_ok bh D A (zeroed pos (climbed m F)) (s0 v) v (ns v)"
    "\<And>v. in_tree m v \<Longrightarrow> nd_parent (ns v) = par m v" "\<And>v. in_tree m v \<Longrightarrow> nd_isLeft (ns v) = even (snd v)"
    "\<And>v. carried pos F v \<Longrightarrow> ready S A (zeroed pos (climbed m F)) v \<and> v \<notin> A"
  using assms by (auto simp: state_inv_def carried_def climbed_def)

lemma state_arrive:
  assumes si: "state_inv bh m D s0 pos S A F ns res" and co: "counters_ok s0" and h: "h < m"
    and v: "in_tree m (h, i)" "ready S A (zeroed pos (climbed m F)) (h, i)" "(h, i) \<notin> A"
    and n1: "n1 = (if even i then (ns (Suc h, i div 2))\<lparr>nd_left := V bh D (h, i)\<rparr> else (ns (Suc h, i div 2))\<lparr>nd_right := V bh D (h, i)\<rparr>)"
    and sib: "sib = sibling_in A (zeroed pos (climbed m F)) h i"
  shows "\<exists>n2. toggle n1 = (\<not> sib, n2) \<and> nd_parent n2 = par m (Suc h, i div 2) \<and> nd_isLeft n2 = even (i div 2) \<and>
    (sib \<longrightarrow> hash_node bh n2 = V bh D (Suc h, i div 2)) \<and>
    (\<not> carried pos F (h, i) \<longrightarrow> state_inv bh m D s0 pos S (insert (h, i) A) F (ns((Suc h, i div 2) := n2)) res)"
proof -
  let ?u = "(Suc h, i div 2)" and ?Z = "zeroed pos (climbed m F)"
  note d = state_invD [OF si]
  have u: "in_tree m ?u" using in_tree_up v(1) h by blast
  have nu: "node_ok bh D A ?Z (s0 ?u) ?u (ns ?u)" using d(5) [OF u] by simp
  have s0: "0 \<le> s0 ?u" "s0 ?u + 2 < 2 ^ 31" "even (s0 ?u)" using co unfolding counters_ok_def by blast+
  obtain n2 where n2: "toggle n1 = (\<not> sib, n2)" "node_ok bh D (insert (h, i) A) ?Z (s0 ?u) ?u n2" "nd_parent n2 = nd_parent (ns ?u)" "nd_isLeft n2 = nd_isLeft (ns ?u)"
    using node_arrive [OF nu s0 v(3) odd_not_zeroed [OF d(3,2) v(2)] n1] unfolding sib by blast
  have mono: "ready S A Y w \<Longrightarrow> ready S (insert (h, i) A) Y w" for Y w by (rule ready_mono) auto
  have static: "nd_parent n2 = par m ?u" "nd_isLeft n2 = even (i div 2)" using n2(3,4) d(6,7) [OF u] by simp_all
  have "hash_node bh n2 = V bh D ?u" if sib
    using hash_node_ok [OF n2(2)] that by (auto simp: sib sibling_in_def lefts_parent rights_parent split: if_splits)
  moreover have "state_inv bh m D s0 pos S (insert (h, i) A) F (ns(?u := n2)) res" if nc: "\<not> carried pos F (h, i)"
    unfolding state_inv_def
  proof (intro conjI)
    show "\<forall>w \<in> insert (h, i) A. in_tree m w \<and> ready S (insert (h, i) A) ?Z w"
      using d(3,4) v mono by blast
    show "\<forall>k c. F = FAt k c \<longrightarrow> k \<le> m \<and> (c \<longrightarrow> ready S (insert (h, i) A) (zeroed pos k) (pth pos k) \<and> pth pos k \<notin> insert (h, i) A)"
    proof (intro allI impI)
      fix k c assume F: "F = FAt k c"
      then have "k \<le> m" "c \<longrightarrow> ready S A (zeroed pos k) (pth pos k) \<and> pth pos k \<notin> A" using si unfolding state_inv_def by blast+
      then show "k \<le> m \<and> (c \<longrightarrow> ready S (insert (h, i) A) (zeroed pos k) (pth pos k) \<and> pth pos k \<notin> insert (h, i) A)"
        using nc F mono by (auto simp: carried_def)
    qed
    show "\<forall>w. in_tree m w \<longrightarrow> nd_parent ((ns(?u := n2)) w) = par m w \<and> nd_isLeft ((ns(?u := n2)) w) = even (snd w)"
      using d(6,7) static by simp
    show "\<forall>w. in_tree m w \<and> 0 < fst w \<longrightarrow> node_ok bh D (insert (h, i) A) ?Z (s0 w) w ((ns(?u := n2)) w)"
      using d(5) n2(2) node_ok_other by simp
    show "res = (if (m, 0) \<in> insert (h, i) A then [V bh D (m, 0)] else [])" using si h by (auto simp: state_inv_def)
  qed (use si in \<open>simp_all add: state_inv_def\<close>)
  ultimately show ?thesis using n2(1) static by blast
qed

lemma waiting_arrive:
  assumes si: "state_inv bh m D s0 pos S A F ns res" and h: "h < m" and v: "(h, i) \<in> waiting m pos S A F"
  shows "waiting m pos S (insert (h, i) A) F =
    waiting m pos S A F - {(h, i)} \<union> (if sibling_in A (zeroed pos (climbed m F)) h i then {(Suc h, i div 2)} else {})"
    and "(Suc h, i div 2) \<notin> waiting m pos S A F"
proof -
  let ?u = "(Suc h, i div 2)" and ?Z = "zeroed pos (climbed m F)"
  note d = state_invD [OF si]
  have vv: "in_tree m (h, i)" "ready S A ?Z (h, i)" "(h, i) \<notin> A" using v by (auto simp: waiting_def)
  have u: "in_tree m ?u" using in_tree_up vv(1) h by blast
  have nr: "\<not> ready S A ?Z ?u"
    using own_slot [OF vv(3) odd_not_zeroed [OF d(3,2) vv(2)], of "climbed m F"] by (auto simp: ready_def split: if_splits)
  then have uA: "?u \<notin> A" "\<not> carried pos F ?u" using d(3,8) by blast+
  show "?u \<notin> waiting m pos S A F" using nr by (simp add: waiting_def)
  have "w \<in> waiting m pos S (insert (h, i) A) F \<longleftrightarrow> w \<in> waiting m pos S A F - {(h, i)} \<union> (if sibling_in A ?Z h i then {?u} else {})" for w
  proof (cases "w = ?u")
    case True
    then show ?thesis using u nr uA ready_parent [of S h i A ?Z] by (auto simp: waiting_def)
  next
    case False
    then show ?thesis using ready_other [OF False, of S A ?Z] by (auto simp: waiting_def)
  qed
  then show "waiting m pos S (insert (h, i) A) F = waiting m pos S A F - {(h, i)} \<union> (if sibling_in A ?Z h i then {?u} else {})" by blast
qed

lemma state_root:
  assumes si: "state_inv bh m D s0 pos S A F ns res" and v: "ready S A (zeroed pos (climbed m F)) (m, 0)" "(m, 0) \<notin> A"
  shows "\<not> carried pos F (m, 0) \<Longrightarrow> state_inv bh m D s0 pos S (insert (m, 0) A) F ns (res @ [V bh D (m, 0)])"
    and "F = FAt m True \<Longrightarrow> state_inv bh m D s0 pos S (insert (m, 0) A) FEnd ns (res @ [V bh D (m, 0)])"
    and "waiting m pos S (insert (m, 0) A) F = waiting m pos S A F - {(m, 0)}"
    and "F = FAt m True \<Longrightarrow> waiting m pos S (insert (m, 0) A) FEnd = waiting m pos S A F"
proof -
  let ?Z = "zeroed pos (climbed m F)"
  note d = state_invD [OF si]
  have mono: "ready S A Y w \<Longrightarrow> ready S (insert (m, 0) A) Y w" for Y w by (rule ready_mono) auto
  have ne: "w \<noteq> (Suc m, 0 div 2)" if "in_tree m w" for w using that by (auto simp: in_tree_def)
  have same: "ready S (insert (m, 0) A) Z w = ready S A Z w" if "in_tree m w" for w Z using ready_other [OF ne [OF that]] by simp
  have nodes: "\<forall>w. in_tree m w \<and> 0 < fst w \<longrightarrow> node_ok bh D (insert (m, 0) A) ?Z (s0 w) w (ns w)"
    using d(5) node_ok_other [OF ne] by simp
  have ins: "\<forall>w \<in> insert (m, 0) A. in_tree m w \<and> ready S (insert (m, 0) A) ?Z w" using d(3,4) v mono in_tree_root [of m 0] by blast
  have res: "res @ [V bh D (m, 0)] = [V bh D (m, 0)]" using si v(2) by (simp add: state_inv_def)
  have p0: "pth pos m = (m, 0)" using d(1) by (simp add: pth_def)
  show "state_inv bh m D s0 pos S (insert (m, 0) A) F ns (res @ [V bh D (m, 0)])" if nc: "\<not> carried pos F (m, 0)"
  proof -
    have "k \<le> m \<and> (c \<longrightarrow> ready S (insert (m, 0) A) (zeroed pos k) (pth pos k) \<and> pth pos k \<notin> insert (m, 0) A)" if F: "F = FAt k c" for k c
    proof -
      have "k \<le> m" "c \<longrightarrow> ready S A (zeroed pos k) (pth pos k) \<and> pth pos k \<notin> A" using si F unfolding state_inv_def by blast+
      then show ?thesis using nc F mono by (auto simp: carried_def)
    qed
    then show ?thesis using si ins nodes res unfolding state_inv_def by simp
  qed
  show "state_inv bh m D s0 pos S (insert (m, 0) A) FEnd ns (res @ [V bh D (m, 0)])" if "F = FAt m True"
    using si ins nodes res that unfolding state_inv_def by (simp add: climbed_def)
  show "waiting m pos S (insert (m, 0) A) F = waiting m pos S A F - {(m, 0)}" using same by (auto simp: waiting_def)
  show "waiting m pos S (insert (m, 0) A) FEnd = waiting m pos S A F" if "F = FAt m True"
    using same that p0 by (auto simp: waiting_def climbed_def carried_def)
qed

section \<open>Steps of the last goroutine\<close>

lemma zeroed_mono: "zeroed pos k \<subseteq> zeroed pos (Suc k)"
  by (auto simp: zeroed_Suc)

lemma climb_other:
  assumes v: "pth pos k = (k, i)" and A': "A' = A \<or> A' = insert (k, i) A" and w: "w \<noteq> pth pos (Suc k)"
  shows "ready S A' (zeroed pos (Suc k)) w = ready S A (zeroed pos k) w"
    and "0 < fst w \<Longrightarrow> node_ok bh D A' (zeroed pos (Suc k)) s w n = node_ok bh D A (zeroed pos k) s w n"
proof -
  have u: "pth pos (Suc k) = (Suc k, i div 2)" using pth_up [of pos k] v by simp
  have "ready S A' (zeroed pos (Suc k)) w = ready S A' (zeroed pos k) w" using w by (auto simp: zeroed_Suc ready_def rights_def)
  also have "\<dots> = ready S A (zeroed pos k) w" using A' ready_other [of w k i] w u by auto
  finally show "ready S A' (zeroed pos (Suc k)) w = ready S A (zeroed pos k) w" .
  assume "0 < fst w"
  have "node_ok bh D A' (zeroed pos (Suc k)) s w n = node_ok bh D A' (zeroed pos k) s w n"
    using node_ok_zero_other [OF w] by (simp add: zeroed_Suc)
  also have "\<dots> = node_ok bh D A (zeroed pos k) s w n" using A' node_ok_other [of w k i] w u \<open>0 < fst w\<close> by auto
  finally show "node_ok bh D A' (zeroed pos (Suc k)) s w n = node_ok bh D A (zeroed pos k) s w n" .
qed

lemma climb_step:
  assumes si: "state_inv bh m D s0 pos S A (FAt k c) ns res" and k: "k < m"
    and A': "A' = (if c then insert (pth pos k) A else A)"
    and n2: "node_ok bh D A' (zeroed pos (Suc k)) (s0 (pth pos (Suc k))) (pth pos (Suc k)) n2"
    and static: "nd_parent n2 = nd_parent (ns (pth pos (Suc k)))" "nd_isLeft n2 = nd_isLeft (ns (pth pos (Suc k)))"
    and c': "c' \<Longrightarrow> ready S A' (zeroed pos (Suc k)) (pth pos (Suc k)) \<and> pth pos (Suc k) \<notin> A"
    and rd: "pth pos (Suc k) \<notin> A \<Longrightarrow> (ready S A' (zeroed pos (Suc k)) (pth pos (Suc k)) \<and> \<not> c') = ready S A (zeroed pos k) (pth pos (Suc k))"
  shows "state_inv bh m D s0 pos S A' (FAt (Suc k) c') (ns(pth pos (Suc k) := n2)) res"
    and "waiting m pos S A' (FAt (Suc k) c') = waiting m pos S A (FAt k c)"
    and "c' \<Longrightarrow> hash_node bh n2 = V bh D (pth pos (Suc k))"
proof -
  let ?v = "pth pos k" and ?u = "pth pos (Suc k)"
  note d = state_invD [OF si, unfolded climbed_def, simplified]
  obtain i where v: "?v = (k, i)" by (simp add: pth_def)
  have A2: "A' = A \<or> A' = insert (k, i) A" using A' v by simp
  have uv: "?u \<noteq> ?v" "?u \<in> A' \<longleftrightarrow> ?u \<in> A" using A' by (auto simp: pth_def)
  note other = climb_other [OF v A2]
  have vr: "c \<Longrightarrow> ready S A (zeroed pos k) ?v \<and> ?v \<notin> A" using d(8) [of ?v] by (simp add: carried_def)
  have vt: "in_tree m ?v" "in_tree m ?u" using in_tree_pth [OF d(1)] k by auto
  have sub: "A \<subseteq> A'" using A' by auto
  have rdy: "ready S A' (zeroed pos (Suc k)) w" if "ready S A (zeroed pos k) w" for w
    using ready_mono [OF that order_refl sub zeroed_mono] .
  show "state_inv bh m D s0 pos S A' (FAt (Suc k) c') (ns(?u := n2)) res"
    unfolding state_inv_def climbed_def climb.case
  proof (intro conjI)
    show "\<forall>w \<in> A'. in_tree m w \<and> ready S A' (zeroed pos (Suc k)) w"
    proof
      fix w assume "w \<in> A'"
      then have "w \<in> A \<or> c \<and> w = ?v" using A' by (auto split: if_splits)
      then have "ready S A (zeroed pos k) w" "in_tree m w" using d(3,4) vr vt(1) by blast+
      then show "in_tree m w \<and> ready S A' (zeroed pos (Suc k)) w" using rdy by blast
    qed
    show "\<forall>ka ca. FAt (Suc k) c' = FAt ka ca \<longrightarrow> ka \<le> m \<and> (ca \<longrightarrow> ready S A' (zeroed pos ka) (pth pos ka) \<and> pth pos ka \<notin> A')"
      using c' uv(2) k by auto
    show "\<forall>w. in_tree m w \<longrightarrow> nd_parent ((ns(?u := n2)) w) = par m w \<and> nd_isLeft ((ns(?u := n2)) w) = even (snd w)"
    proof (intro allI impI)
      fix w assume "in_tree m w"
      then show "nd_parent ((ns(?u := n2)) w) = par m w \<and> nd_isLeft ((ns(?u := n2)) w) = even (snd w)"
        using d(6,7) static vt(2) by (cases "w = ?u") simp_all
    qed
    show "\<forall>w. in_tree m w \<and> 0 < fst w \<longrightarrow> node_ok bh D A' (zeroed pos (Suc k)) (s0 w) w ((ns(?u := n2)) w)"
      using d(5) n2 other(2) by simp
    show "res = (if (m, 0) \<in> A' then [V bh D (m, 0)] else [])" using si A' k by (auto simp: state_inv_def pth_def)
  qed (use si in \<open>simp_all add: state_inv_def\<close>)
  have "w \<in> waiting m pos S A' (FAt (Suc k) c') \<longleftrightarrow> w \<in> waiting m pos S A (FAt k c)" for w
  proof (cases "w = ?u")
    case True
    have "carried pos (FAt (Suc k) c') ?u \<longleftrightarrow> c'" "\<not> carried pos (FAt k c) ?u" using uv(1) by (auto simp: carried_def)
    then show ?thesis using True vt(2) uv(2) rd by (auto simp: waiting_def climbed_def)
  next
    case False
    then have "carried pos (FAt (Suc k) c') w \<longleftrightarrow> False" "carried pos (FAt k c) w \<longleftrightarrow> c \<and> w = ?v" by (auto simp: carried_def)
    then show ?thesis using other(1) [OF False] A' by (auto simp: waiting_def climbed_def)
  qed
  then show "waiting m pos S A' (FAt (Suc k) c') = waiting m pos S A (FAt k c)" by blast
  obtain j where u: "?u = (Suc k, j)" by (simp add: pth_def)
  show "hash_node bh n2 = V bh D ?u" if "c'"
    using hash_node_ok [of bh D A' "zeroed pos (Suc k)" "s0 ?u" k j n2] n2 c' [OF that] u by (simp add: ready_def)
qed

text \<open>The hash of the sections to the right of the last one.\<close>

lemma zero_value:
  assumes "conf_ok bh m cf" and "length D = 64 * 2 ^ m" and "set (drop (64 * Suc pos) D) \<subseteq> {0}"
    and "pos < 2 ^ m" and "k < m" and e: "even (pos div 2 ^ k)"
  shows "V bh D (k, Suc (pos div 2 ^ k)) = cf_zerohashes cf ! Suc k"
proof -
  let ?i = "Suc (pos div 2 ^ k)" and ?B = "64 * 2 ^ k :: nat"
  have "in_tree m (pth pos (Suc k))" using assms(4,5) by (intro in_tree_pth) simp_all
  moreover have "snd (pth pos (Suc k)) = pos div 2 ^ k div 2" by (simp add: pth_def div_mult2_eq [symmetric] mult.commute)
  ultimately have "pos div 2 ^ k div 2 < 2 ^ (m - Suc k)" by (simp add: in_tree_def pth_def)
  then have "?i < 2 * 2 ^ (m - Suc k)" using e by auto
  also have "2 * 2 ^ (m - Suc k) = (2::nat) ^ (m - k)" using assms(5) by (simp add: Suc_diff_Suc flip: power_Suc)
  finally have "Suc ?i * 2 ^ k \<le> 2 ^ (m - k) * 2 ^ k" by (intro mult_le_mono1) simp
  also have "\<dots> = 2 ^ m" using assms(5) by (simp flip: power_add)
  finally have fits: "?i * ?B + ?B \<le> length D" using assms(2) by simp
  have "pos < ?i * 2 ^ k" using dividend_less_div_times [of "2 ^ k" pos] by (simp add: mult.commute)
  then have ge: "64 * Suc pos \<le> ?i * ?B" by simp
  have "set (sub_block k ?i D) \<subseteq> set (drop (?i * ?B) D)" unfolding sub_block_def by (rule set_take_subset)
  also have "\<dots> \<subseteq> set (drop (64 * Suc pos) D)" using ge by (rule set_drop_subset_set_drop)
  finally have "\<forall>x \<in> set (sub_block k ?i D). x = 0" using assms(3) by blast
  moreover have "length (sub_block k ?i D) = ?B" using fits by (simp add: sub_block_def)
  ultimately have "sub_block k ?i D = replicate ?B 0" by (metis replicate_eqI)
  then have "V bh D (k, ?i) = ((\<lambda>x. bh (x @ x)) ^^ Suc k) (replicate 32 0)" using subtree_hash_zeros by (simp only: V_def fst_conv snd_conv)
  also have "\<dots> = cf_zerohashes cf ! Suc k" using zero_hashes_nth [of "Suc k" "Suc m" bh "replicate 32 0"] assms(1,5) by (simp only: conf_ok_def)
  finally show ?thesis .
qed

section \<open>Steps of the hasher\<close>

lemma remove_nth:
  assumes "distinct xs" and "k < length xs"
  shows "distinct (take k xs @ drop (Suc k) xs) \<and> set (take k xs @ drop (Suc k) xs) = set xs - {xs ! k}"
proof -
  have "distinct (a @ b) \<and> set (a @ b) = set (a @ x # b) - {x}" if "distinct (a @ x # b)" for a b and x :: 'a using that by auto
  from this [of "take k xs" "xs ! k" "drop (Suc k) xs"] show ?thesis using assms id_take_nth_drop [OF assms(2)] by auto
qed

definition load :: "nat \<Rightarrow> nat \<Rightarrow> nat set \<Rightarrow> addr set \<Rightarrow> climb \<Rightarrow> nat" where
  "load m pos S A F = (card {v. in_tree m v} - card A) + (Suc pos - card S) +
     (case F of NoF \<Rightarrow> m + 2 | FPend \<Rightarrow> m + 2 | FAt k c \<Rightarrow> m + 1 - k | FEnd \<Rightarrow> 0)"

lemma arrived_finite: "state_inv bh m D s0 pos S A F ns res \<Longrightarrow> A \<subseteq> {v. in_tree m v} \<and> finite A"
  using finite_tree by (auto simp: state_inv_def intro: finite_subset [of A "{v. in_tree m v}"])

lemma arrived_card:
  assumes "state_inv bh m D s0 pos S A F ns res" and "v \<notin> A" and "in_tree m v"
  shows "card {v. in_tree m v} - card (insert v A) < card {v. in_tree m v} - card A"
proof -
  have "card (insert v A) \<le> card {v. in_tree m v}" using arrived_finite [OF assms(1)] assms(3) by (intro card_mono finite_tree) auto
  then show ?thesis using arrived_finite [OF assms(1)] assms(2) by simp
qed

lemma hashed_card:
  assumes "S \<subseteq> {..pos}" and "i \<notin> S" and "i \<le> pos"
  shows "Suc pos - card (insert i S) < Suc pos - card S"
proof -
  have "card (insert i S) \<le> card {..pos}" using assms by (intro card_mono) auto
  then show ?thesis using assms finite_subset [OF assms(1)] by simp
qed

text \<open>A step changes one goroutine, and with it the nodes and the result.\<close>

lemma inv_step:
  assumes inv: "bmt_inv bh m D s0 S A F h" and k: "k < length (bm_threads h)" and t: "bm_threads h ! k = t"
    and run: "run_thread bh t (h\<lparr>bm_threads := take k (bm_threads h) @ drop (Suc k) (bm_threads h)\<rparr>) =
      (t', h\<lparr>bm_threads := take k (bm_threads h) @ drop (Suc k) (bm_threads h), bm_nodes := ns, bm_result := res\<rparr>)"
    and si: "state_inv bh m D s0 (bm_pos h) S' A' F' ns res"
    and th: "threads_of bh m D (bm_pos h) S' A' F' = threads_of bh m D (bm_pos h) S A F - {t} \<union> set_option t'"
    and new: "\<And>x. t' = Some x \<Longrightarrow> x \<notin> threads_of bh m D (bm_pos h) S A F - {t}"
    and F: "F' = NoF \<longleftrightarrow> F = NoF"
  shows "bmt_inv bh m D s0 S' A' F' (bmt_step bh k h)"
proof -
  have d: "distinct (bm_threads h)" "set (bm_threads h) = threads_of bh m D (bm_pos h) S A F" using inv by (simp_all add: bmt_inv_def)
  note rm = remove_nth [OF d(1) k, unfolded t d(2)]
  show ?thesis
  proof (cases t')
    case None
    then have "bmt_step bh k h = h\<lparr>bm_threads := take k (bm_threads h) @ drop (Suc k) (bm_threads h), bm_nodes := ns, bm_result := res\<rparr>"
      using run t by (simp add: bmt_step_def)
    then show ?thesis using inv si th rm F None by (simp add: bmt_inv_def)
  next
    case (Some x)
    then have "bmt_step bh k h = h\<lparr>bm_threads := (take k (bm_threads h) @ drop (Suc k) (bm_threads h)) @ [x], bm_nodes := ns, bm_result := res\<rparr>"
      using run t by (simp add: bmt_step_def)
    moreover have "distinct ((take k (bm_threads h) @ drop (Suc k) (bm_threads h)) @ [x]) \<and>
        set ((take k (bm_threads h) @ drop (Suc k) (bm_threads h)) @ [x]) = threads_of bh m D (bm_pos h) S' A' F'"
      using rm new [OF Some] th Some by (simp only: distinct_append set_append) auto
    ultimately show ?thesis using inv si F by (simp add: bmt_inv_def)
  qed
qed

lemma Wt_waiting: "in_tree m v \<Longrightarrow> v \<notin> waiting m pos S A F \<Longrightarrow> Wt bh m D v \<notin> threads_of bh m D pos S A F"
proof -
  assume v: "in_tree m v" "v \<notin> waiting m pos S A F"
  have "in_tree m w" if "w \<in> waiting m pos S A F" for w using that by (simp add: waiting_def)
  then have "Wt bh m D v \<notin> Wt bh m D ` waiting m pos S A F" using v(2) Wt_inject [OF v(1)] by blast
  then show ?thesis by (auto simp: threads_of_def Ft_def Wt_def split: climb.splits)
qed

lemma section_step:
  assumes inv: "bmt_inv bh m D s0 S A F h" and k: "k < length (bm_threads h)" and t: "bm_threads h ! k = Section i False"
    and i: "i < bm_pos h" "i \<notin> S"
  shows "bmt_inv bh m D s0 (insert i S) A F (bmt_step bh k h) \<and> load m (bm_pos h) (insert i S) A F < load m (bm_pos h) S A F"
proof
  let ?pos = "bm_pos h" and ?Z = "zeroed (bm_pos h) (climbed m F)"
  have si: "state_inv bh m D s0 ?pos S A F (bm_nodes h) (bm_result h)" using inv by (simp add: bmt_inv_def)
  note d = state_invD [OF si]
  have v: "in_tree m (0, i)" using i d(1) by (simp add: in_tree_def)
  have "bm_leaves h ! i = (0, i)" "cf_segmentSize (bm_conf h) = 32" "sub_block 0 i (bm_buffer h) = sub_block 0 i D"
    using inv i d(1) by (auto simp: bmt_inv_def conf_ok_def)
  then have run: "run_thread bh (Section i False) h' = (Some (Wt bh m D (0, i)), h')" if "h' = h\<lparr>bm_threads := x\<rparr>" for h' x
    using d(6,7) [OF v] that by (simp add: run_thread_def processSection_def Let_def Wt_def doHash_def V_def sub_block_def)
  have nr: "\<not> ready S A ?Z (0, i)" using i by (simp add: ready_def)
  then have no: "(0, i) \<notin> A" "\<not> carried ?pos F (0, i)" using d(3,8) by blast+
  have rS: "ready (insert i S) A Z w \<longleftrightarrow> w = (0, i) \<or> ready S A Z w" for Z w by (cases w) (auto simp: ready_def)
  have W: "waiting m ?pos (insert i S) A F = insert (0, i) (waiting m ?pos S A F)" using rS v no by (auto simp: waiting_def)
  have "state_inv bh m D s0 ?pos (insert i S) A F (bm_nodes h) (bm_result h)"
    using si i unfolding state_inv_def by (auto simp: rS)
  moreover have "threads_of bh m D ?pos (insert i S) A F = threads_of bh m D ?pos S A F - {Section i False} \<union> set_option (Some (Wt bh m D (0, i)))"
    using i unfolding threads_of_def W by (auto simp: Ft_def Wt_def split: climb.splits)
  moreover have "Wt bh m D (0, i) \<notin> threads_of bh m D ?pos S A F" using v nr by (intro Wt_waiting) (simp_all add: waiting_def)
  ultimately show "bmt_inv bh m D s0 (insert i S) A F (bmt_step bh k h)"
    using run by (intro inv_step [OF inv k t]) auto
  show "load m ?pos (insert i S) A F < load m ?pos S A F" using hashed_card [OF d(2), of i] i by (simp add: load_def)
qed

lemma last_section_step:
  assumes inv: "bmt_inv bh m D s0 S A FPend h" and k: "k < length (bm_threads h)" and t: "bm_threads h ! k = Section (bm_pos h) True"
  shows "bmt_inv bh m D s0 (insert (bm_pos h) S) A (FAt 0 True) (bmt_step bh k h) \<and>
    load m (bm_pos h) (insert (bm_pos h) S) A (FAt 0 True) < load m (bm_pos h) S A FPend"
proof
  let ?pos = "bm_pos h"
  have si: "state_inv bh m D s0 ?pos S A FPend (bm_nodes h) (bm_result h)" using inv by (simp add: bmt_inv_def)
  note d = state_invD [OF si]
  have pS: "?pos \<notin> S" using si by (simp add: state_inv_def)
  have v: "in_tree m (0, ?pos)" and p0: "pth ?pos 0 = (0, ?pos)" using d(1) by (simp_all add: in_tree_def pth_def)
  have z: "zeroed ?pos (climbed m FPend) = {}" "zeroed ?pos (climbed m (FAt 0 True)) = {}" "zeroed ?pos 0 = {}" by (simp_all add: zeroed_def climbed_def)
  let ?t = "FNode 1 (par m (0, ?pos)) (even ?pos) (Some (V bh D (0, ?pos)))"
  have "bm_leaves h ! ?pos = (0, ?pos)" "cf_segmentSize (bm_conf h) = 32" "sub_block 0 ?pos (bm_buffer h) = sub_block 0 ?pos D"
    using inv d(1) by (auto simp: bmt_inv_def conf_ok_def)
  then have run: "run_thread bh (Section ?pos True) h' = (Some ?t, h')" if "h' = h\<lparr>bm_threads := x\<rparr>" for h' x
    using d(6,7) [OF v] that by (simp add: run_thread_def processSection_def Let_def doHash_def V_def sub_block_def)
  have nr: "\<not> ready S A {} (0, ?pos)" using pS by (simp add: ready_def)
  then have no: "(0, ?pos) \<notin> A" using d(3) z by metis
  have rS: "ready (insert ?pos S) A Z w \<longleftrightarrow> w = (0, ?pos) \<or> ready S A Z w" for Z w by (cases w) (auto simp: ready_def)
  have W: "waiting m ?pos (insert ?pos S) A (FAt 0 True) = waiting m ?pos S A FPend"
    using nr p0 unfolding waiting_def z by (auto simp: rS carried_def)
  have "state_inv bh m D s0 ?pos (insert ?pos S) A (FAt 0 True) (bm_nodes h) (bm_result h)"
    using si no p0 unfolding state_inv_def z by (auto simp: rS z)
  moreover have "threads_of bh m D ?pos (insert ?pos S) A (FAt 0 True) = threads_of bh m D ?pos S A FPend - {Section ?pos True} \<union> set_option (Some ?t)"
    unfolding threads_of_def W by (auto simp: Ft_def Wt_def p0)
  moreover have "?t \<notin> threads_of bh m D ?pos S A FPend" by (auto simp: threads_of_def Ft_def Wt_def)
  ultimately show "bmt_inv bh m D s0 (insert ?pos S) A (FAt 0 True) (bmt_step bh k h)"
    using run by (intro inv_step [OF inv k t]) auto
  show "load m ?pos (insert ?pos S) A (FAt 0 True) < load m ?pos S A FPend" using hashed_card [OF d(2) pS] by (simp add: load_def)
qed

lemma Wt_removed:
  assumes "W' = waiting m pos S A F - {v} \<union> X" and "v \<in> waiting m pos S A F" and "W' = waiting m pos S A' F"
  shows "threads_of bh m D pos S A' F = threads_of bh m D pos S A F - {Wt bh m D v} \<union> Wt bh m D ` X"
proof -
  have tr: "in_tree m w" if "w \<in> waiting m pos S A F" for w using that by (simp add: waiting_def)
  have "Wt bh m D ` (waiting m pos S A F - {v}) = Wt bh m D ` waiting m pos S A F - {Wt bh m D v}"
    using Wt_inject [of m v] tr assms(2) by blast
  moreover have "Wt bh m D v \<notin> (\<lambda>i. Section i False) ` ({..<pos} - S) \<union> Ft bh m D pos F" by (auto simp: Ft_def Wt_def split: climb.splits)
  ultimately show ?thesis using assms(1,3) unfolding threads_of_def by (simp only: image_Un) blast
qed

lemma climber_step:
  assumes inv: "bmt_inv bh m D s0 S A F h" and k: "k < length (bm_threads h)" and t: "bm_threads h ! k = Wt bh m D v"
    and v: "v \<in> waiting m (bm_pos h) S A F"
  shows "bmt_inv bh m D s0 S (insert v A) F (bmt_step bh k h) \<and> load m (bm_pos h) S (insert v A) F < load m (bm_pos h) S A F"
proof
  let ?pos = "bm_pos h" and ?Z = "zeroed (bm_pos h) (climbed m F)"
  have si: "state_inv bh m D s0 ?pos S A F (bm_nodes h) (bm_result h)" and co: "counters_ok s0" using inv by (simp_all add: bmt_inv_def)
  have vv: "in_tree m v" "ready S A ?Z v" "v \<notin> A" "\<not> carried ?pos F v" using v by (simp_all add: waiting_def)
  obtain l i where li: "v = (l, i)" by fastforce
  show "bmt_inv bh m D s0 S (insert v A) F (bmt_step bh k h)"
  proof (cases "l = m")
    case True
    then have v0: "v = (m, 0)" using vv(1) li in_tree_root by simp
    have r: "ready S A ?Z (m, 0)" "(m, 0) \<notin> A" "\<not> carried ?pos F (m, 0)" using vv v0 by simp_all
    note root = state_root [OF si r(1,2)]
    have "threads_of bh m D ?pos S (insert v A) F = threads_of bh m D ?pos S A F - {Wt bh m D v} \<union> set_option None"
      using Wt_removed [of _ m ?pos S A F v "{}" "insert v A" bh D] root(3) v v0 by simp
    moreover have "run_thread bh (Wt bh m D v) (h\<lparr>bm_threads := x\<rparr>) =
        (None, h\<lparr>bm_threads := x, bm_nodes := bm_nodes h, bm_result := bm_result h @ [V bh D (m, 0)]\<rparr>)" for x
      using v0 by (simp add: run_thread_def writeNode_def Wt_def par_def)
    ultimately show ?thesis using root(1) [OF r(3)] v0 by (intro inv_step [OF inv k t]) auto
  next
    case False
    then have l: "l < m" using vv(1) li by (simp add: in_tree_def)
    let ?u = "(Suc l, i div 2)" and ?sib = "sibling_in A ?Z l i"
    let ?n1 = "if even i then (bm_nodes h ?u)\<lparr>nd_left := V bh D (l, i)\<rparr> else (bm_nodes h ?u)\<lparr>nd_right := V bh D (l, i)\<rparr>"
    obtain n2 where n2: "toggle ?n1 = (\<not> ?sib, n2)" "nd_parent n2 = par m ?u" "nd_isLeft n2 = even (i div 2)"
      "?sib \<longrightarrow> hash_node bh n2 = V bh D ?u" "state_inv bh m D s0 ?pos S (insert v A) F ((bm_nodes h)(?u := n2)) (bm_result h)"
      using state_arrive [OF si co l, of i ?n1 ?sib] vv li by auto
    note w = waiting_arrive [OF si l v [unfolded li]]
    let ?t = "if ?sib then Some (Wt bh m D ?u) else None"
    have "run_thread bh (Wt bh m D v) (h\<lparr>bm_threads := x\<rparr>) =
        (?t, h\<lparr>bm_threads := x, bm_nodes := (bm_nodes h)(?u := n2), bm_result := bm_result h\<rparr>)" for x
      using n2 l li by (auto simp: run_thread_def writeNode_def Wt_def par_def Let_def upd_node_def)
    moreover have "threads_of bh m D ?pos S (insert v A) F = threads_of bh m D ?pos S A F - {Wt bh m D v} \<union> set_option ?t"
      using Wt_removed [OF w(1) v [unfolded li] refl, of bh D] li by (cases ?sib) simp_all
    moreover have "Wt bh m D ?u \<notin> threads_of bh m D ?pos S A F"
      using w(2) in_tree_up [OF _ l] vv(1) li by (intro Wt_waiting) simp_all
    ultimately show ?thesis using n2(5) by (intro inv_step [OF inv k t]) (auto split: if_splits)
  qed
  show "load m ?pos S (insert v A) F < load m ?pos S A F" using arrived_card [OF si vv(3,1)] by (simp add: load_def)
qed

lemma final_up:
  fixes n2 :: node
  assumes inv: "bmt_inv bh m D s0 S A (FAt j c) h" and k: "k < length (bm_threads h)" and j: "j < m"
    and t: "bm_threads h ! k = FNode (Suc j) (par m (pth (bm_pos h) j)) (even (bm_pos h div 2 ^ j)) (if c then Some (V bh D (pth (bm_pos h) j)) else None)"
    and A': "A' = (if c then insert (pth (bm_pos h) j) A else A)" and u: "u = pth (bm_pos h) (Suc j)"
    and run: "\<And>x. run_thread bh (bm_threads h ! k) (h\<lparr>bm_threads := x\<rparr>) =
      (Some (FNode (Suc (Suc j)) (nd_parent n2) (nd_isLeft n2) (if c' then Some (hash_node bh n2) else None)), upd_node u (\<lambda>_. n2) (h\<lparr>bm_threads := x\<rparr>))"
    and n2: "node_ok bh D A' (zeroed (bm_pos h) (Suc j)) (s0 u) u n2"
    and static: "nd_parent n2 = nd_parent (bm_nodes h u)" "nd_isLeft n2 = nd_isLeft (bm_nodes h u)"
    and c': "c' \<Longrightarrow> ready S A' (zeroed (bm_pos h) (Suc j)) u \<and> u \<notin> A"
    and rd: "u \<notin> A \<Longrightarrow> (ready S A' (zeroed (bm_pos h) (Suc j)) u \<and> \<not> c') = ready S A (zeroed (bm_pos h) j) u"
  shows "bmt_inv bh m D s0 S A' (FAt (Suc j) c') (bmt_step bh k h) \<and> load m (bm_pos h) S A' (FAt (Suc j) c') < load m (bm_pos h) S A (FAt j c)"
proof
  let ?pos = "bm_pos h"
  have si: "state_inv bh m D s0 ?pos S A (FAt j c) (bm_nodes h) (bm_result h)" using inv by (simp add: bmt_inv_def)
  note st = climb_step [OF si j A', folded u, OF n2 static c' rd]
  have ut: "in_tree m u" using in_tree_pth [OF state_invD(1) [OF si]] j u by simp
  let ?t = "FNode (Suc (Suc j)) (par m u) (even (?pos div 2 ^ Suc j)) (if c' then Some (V bh D u) else None)"
  have "snd u = ?pos div 2 ^ Suc j" by (simp add: u pth_def)
  then have run': "run_thread bh (bm_threads h ! k) (h\<lparr>bm_threads := x\<rparr>) =
      (Some ?t, h\<lparr>bm_threads := x, bm_nodes := (bm_nodes h)(u := n2), bm_result := bm_result h\<rparr>)" for x
    unfolding run using st(3) static state_invD(6,7) [OF si ut] by (cases c') (simp_all add: upd_node_def)
  have "threads_of bh m D ?pos S A' (FAt (Suc j) c') = threads_of bh m D ?pos S A (FAt j c) - {bm_threads h ! k} \<union> set_option (Some ?t)"
  proof -
    define W where "W = waiting m ?pos S A (FAt j c)"
    have "waiting m ?pos S A' (FAt (Suc j) c') = W" unfolding W_def by (rule st(2))
    then show ?thesis unfolding threads_of_def t W_def [symmetric] by (auto simp: Ft_def Wt_def u)
  qed
  moreover have "?t \<notin> threads_of bh m D ?pos S A (FAt j c) - {bm_threads h ! k}"
    unfolding t by (auto simp: threads_of_def Ft_def Wt_def)
  ultimately show "bmt_inv bh m D s0 S A' (FAt (Suc j) c') (bmt_step bh k h)"
    using st(1) run' by (intro inv_step [OF inv k refl]) auto
  have "card A \<le> card A'" using A' arrived_finite [OF si] by (auto intro: card_mono)
  then show "load m ?pos S A' (FAt (Suc j) c') < load m ?pos S A (FAt j c)" using j by (simp add: load_def)
qed

lemma final_end:
  assumes inv: "bmt_inv bh m D s0 S A (FAt m c) h" and k: "k < length (bm_threads h)"
    and t: "bm_threads h ! k = FNode (Suc m) None b (if c then Some (V bh D (m, 0)) else None)" and p: "pth (bm_pos h) m = (m, 0)"
    and b: "b = even (bm_pos h div 2 ^ m)"
  shows "\<exists>A'. bmt_inv bh m D s0 S A' FEnd (bmt_step bh k h) \<and> load m (bm_pos h) S A' FEnd < load m (bm_pos h) S A (FAt m c)"
proof -
  let ?pos = "bm_pos h" and ?F = "FAt m c"
  have si: "state_inv bh m D s0 ?pos S A ?F (bm_nodes h) (bm_result h)" using inv by (simp add: bmt_inv_def)
  have t': "threads_of bh m D ?pos S A ?F - {bm_threads h ! k} = (\<lambda>i. Section i False) ` ({..<?pos} - S) \<union> Wt bh m D ` waiting m ?pos S A ?F"
    unfolding t threads_of_def b using p by (auto simp: Ft_def Wt_def par_def)
  show ?thesis
  proof (cases c)
    case True
    have r: "ready S A (zeroed ?pos (climbed m ?F)) (m, 0)" "(m, 0) \<notin> A"
      using state_invD(8) [OF si, of "(m, 0)"] True p by (auto simp: carried_def)
    note root = state_root [OF si r]
    have "threads_of bh m D ?pos S (insert (m, 0) A) FEnd = threads_of bh m D ?pos S A ?F - {bm_threads h ! k} \<union> set_option None"
      unfolding t' using root(4) True by (simp add: threads_of_def Ft_def)
    moreover have "run_thread bh (bm_threads h ! k) (h\<lparr>bm_threads := x\<rparr>) =
        (None, h\<lparr>bm_threads := x, bm_nodes := bm_nodes h, bm_result := bm_result h @ [V bh D (m, 0)]\<rparr>)" for x
      using True unfolding t by (simp add: run_thread_def writeFinalNode_def)
    ultimately have "bmt_inv bh m D s0 S (insert (m, 0) A) FEnd (bmt_step bh k h)"
      using root(2) True by (intro inv_step [OF inv k refl]) auto
    moreover have "card {v. in_tree m v} - card (insert (m, 0) A) < card {v. in_tree m v} - card A"
      by (rule arrived_card [OF si r(2)]) (simp add: in_tree_root)
    ultimately show ?thesis using True by (intro exI [of _ "insert (m, 0) A"]) (simp add: load_def)
  next
    case False
    have "state_inv bh m D s0 ?pos S A FEnd (bm_nodes h) (bm_result h)" using si False by (auto simp: state_inv_def climbed_def)
    moreover have "waiting m ?pos S A FEnd = waiting m ?pos S A ?F" using False by (auto simp: waiting_def climbed_def carried_def)
    then have "threads_of bh m D ?pos S A FEnd = threads_of bh m D ?pos S A ?F - {bm_threads h ! k} \<union> set_option None"
      unfolding t' by (simp add: threads_of_def Ft_def)
    moreover have "run_thread bh (bm_threads h ! k) (h\<lparr>bm_threads := x\<rparr>) =
        (None, h\<lparr>bm_threads := x, bm_nodes := bm_nodes h, bm_result := bm_result h\<rparr>)" for x
      using False unfolding t by (simp add: run_thread_def writeFinalNode_def)
    ultimately have "bmt_inv bh m D s0 S A FEnd (bmt_step bh k h)" by (intro inv_step [OF inv k refl]) auto
    then show ?thesis by (intro exI [of _ A]) (simp add: load_def)
  qed
qed

lemma final_step:
  assumes inv: "bmt_inv bh m D s0 S A (FAt j c) h" and k: "k < length (bm_threads h)" and j: "j < m"
    and t: "bm_threads h ! k = FNode (Suc j) (par m (pth (bm_pos h) j)) (even (bm_pos h div 2 ^ j)) (if c then Some (V bh D (pth (bm_pos h) j)) else None)"
  shows "\<exists>A' c'. bmt_inv bh m D s0 S A' (FAt (Suc j) c') (bmt_step bh k h) \<and> load m (bm_pos h) S A' (FAt (Suc j) c') < load m (bm_pos h) S A (FAt j c)"
proof -
  let ?pos = "bm_pos h" and ?i = "bm_pos h div 2 ^ j" and ?Z = "zeroed (bm_pos h) j"
  have si: "state_inv bh m D s0 ?pos S A (FAt j c) (bm_nodes h) (bm_result h)" and co: "counters_ok s0" using inv by (simp_all add: bmt_inv_def)
  note d = state_invD [OF si, unfolded climbed_def, simplified]
  define u where "u = pth ?pos (Suc j)"
  have u: "u = (Suc j, ?i div 2)" "par m (j, ?i) = Some u" using pth_up [of ?pos j] j by (simp_all add: u_def pth_def par_def)
  have v: "pth ?pos j = (j, ?i)" by (simp add: pth_def)
  have ut: "in_tree m u" using in_tree_pth [OF d(1)] j by (simp add: u_def)
  have nu: "node_ok bh D A ?Z (s0 u) u (bm_nodes h u)" using d(5) [OF ut] u by simp
  have s0: "0 \<le> s0 u" "s0 u + 2 < 2 ^ 31" "even (s0 u)" using co unfolding counters_ok_def by blast+
  have vA: "c \<Longrightarrow> (j, ?i) \<notin> A" using d(8) [of "pth ?pos j"] v by (simp add: carried_def)
  have uZ: "u \<notin> ?Z" using pth_not_zeroed by (simp add: u_def)
  have uA: "ready S A ?Z u" if "u \<in> A" using d(3) that by blast
  let ?z = "cf_zerohashes (bm_conf h) ! Suc j" and ?n = "bm_nodes h u"
  note up = final_up [OF inv k j t refl u_def]
  show ?thesis
  proof (cases "even ?i")
    case True
    have z: "?z = V bh D (j, Suc ?i)" using zero_value [OF _ _ _ d(1) j True] inv by (auto simp: bmt_inv_def)
    have e: "2 * (?i div 2) = ?i" using True by simp
    have nr: "\<not> rights A ?Z u" using beyond_not_arrived [OF d(3,2), of j] uZ e u(1) by (simp add: rights_def)
    have Z': "zeroed ?pos (Suc j) = insert u ?Z" using True by (simp add: zeroed_Suc u_def)
    have notu: "u \<notin> A" "\<not> ready S A ?Z u" using uA nr u(1) by (auto simp: ready_def)
    show ?thesis
    proof (cases c)
      case c: True
      let ?n2 = "?n\<lparr>nd_right := ?z, nd_left := V bh D (j, ?i)\<rparr>"
      have "node_ok bh D (insert (j, ?i) A) (insert u ?Z) (s0 u) u ?n2" using node_both [OF _ True _ vA [OF c] z] nu nr u(1) by simp
      moreover have "ready S (insert (j, ?i) A) (insert u ?Z) u" using u(1) e by (simp add: ready_def lefts_def rights_def)
      moreover have "run_thread bh (bm_threads h ! k) (h\<lparr>bm_threads := x\<rparr>) =
          (Some (FNode (Suc (Suc j)) (nd_parent ?n2) (nd_isLeft ?n2) (if True then Some (hash_node bh ?n2) else None)), upd_node u (\<lambda>_. ?n2) (h\<lparr>bm_threads := x\<rparr>))" for x
        unfolding t v u(2) using True c by (simp add: run_thread_def writeFinalNode_def Let_def)
      ultimately show ?thesis using up [of ?n2 True] notu c v Z' by auto
    next
      case c: False
      let ?n2 = "?n\<lparr>nd_right := ?z, nd_state := nd_state ?n + 1\<rparr>"
      have nz: "toggle (?n\<lparr>nd_right := ?z\<rparr>) = (\<not> lefts A u, ?n2)" "node_ok bh D A (insert u ?Z) (s0 u) u ?n2"
        using node_zero [of bh D A ?Z "s0 u" j "?i div 2" ?n ?z] nu s0 nr z e u(1) by simp_all
      have rd: "ready S A (insert u ?Z) u \<longleftrightarrow> lefts A u" using u(1) by (simp add: ready_def rights_def)
      have "run_thread bh (bm_threads h ! k) (h\<lparr>bm_threads := x\<rparr>) =
          (Some (FNode (Suc (Suc j)) (nd_parent ?n2) (nd_isLeft ?n2) (if lefts A u then Some (hash_node bh ?n2) else None)), upd_node u (\<lambda>_. ?n2) (h\<lparr>bm_threads := x\<rparr>))" for x
        unfolding t v u(2) using True c nz(1) by (simp add: run_thread_def writeFinalNode_def Let_def)
      then show ?thesis using up [of ?n2 "lefts A u"] notu c nz(2) rd Z' by auto
    qed
  next
    case False
    have e: "Suc (2 * (?i div 2)) = ?i" using False by simp
    have Z': "zeroed ?pos (Suc j) = ?Z" using False by (simp add: zeroed_Suc)
    show ?thesis
    proof (cases c)
      case c: True
      obtain n2 where n2: "toggle (?n\<lparr>nd_right := V bh D (j, ?i)\<rparr>) = (\<not> lefts A u, n2)" "node_ok bh D (insert (j, ?i) A) ?Z (s0 u) u n2"
        "nd_parent n2 = nd_parent ?n" "nd_isLeft n2 = nd_isLeft ?n"
        using node_arrive [of bh D A ?Z "s0 u" j ?i ?n, OF _ s0 vA [OF c] _ refl] nu uZ False u(1) by (auto simp: sibling_in_def)
      have nr: "\<not> rights A ?Z u" using vA [OF c] uZ e u(1) by (simp add: rights_def)
      then have notu: "u \<notin> A" "\<not> ready S A ?Z u" using uA u(1) by (auto simp: ready_def)
      have rd: "ready S (insert (j, ?i) A) ?Z u \<longleftrightarrow> lefts A u"
        using u(1) False lefts_parent [of j ?i A] rights_parent [of j ?i A ?Z] by (simp add: ready_def)
      have "run_thread bh (bm_threads h ! k) (h\<lparr>bm_threads := x\<rparr>) =
          (Some (FNode (Suc (Suc j)) (nd_parent n2) (nd_isLeft n2) (if lefts A u then Some (hash_node bh n2) else None)), upd_node u (\<lambda>_. n2) (h\<lparr>bm_threads := x\<rparr>))" for x
        unfolding t v u(2) using False c n2(1) by (simp add: run_thread_def writeFinalNode_def Let_def)
      then show ?thesis using up [of n2 "lefts A u"] notu c n2(2-4) rd Z' v by auto
    next
      case c: False
      have "run_thread bh (bm_threads h ! k) (h\<lparr>bm_threads := x\<rparr>) =
          (Some (FNode (Suc (Suc j)) (nd_parent ?n) (nd_isLeft ?n) (if False then Some (hash_node bh ?n) else None)), upd_node u (\<lambda>_. ?n) (h\<lparr>bm_threads := x\<rparr>))" for x
        unfolding t v u(2) using False c by (simp add: run_thread_def writeFinalNode_def Let_def)
      then show ?thesis using up [of ?n False] nu c Z' by auto
    qed
  qed
qed

text \<open>Any goroutine may take the next step.\<close>

lemma step_ok:
  assumes inv: "bmt_inv bh m D s0 S A F h" and k: "k < length (bm_threads h)"
  shows "\<exists>S' A' F'. bmt_inv bh m D s0 S' A' F' (bmt_step bh k h) \<and> load m (bm_pos h) S' A' F' < load m (bm_pos h) S A F \<and> (F' = NoF \<longleftrightarrow> F = NoF)"
proof -
  have "bm_threads h ! k \<in> threads_of bh m D (bm_pos h) S A F" using inv k by (auto simp: bmt_inv_def)
  then consider i where "bm_threads h ! k = Section i False" "i < bm_pos h" "i \<notin> S" | "bm_threads h ! k \<in> Ft bh m D (bm_pos h) F"
    | v where "bm_threads h ! k = Wt bh m D v" "v \<in> waiting m (bm_pos h) S A F" by (auto simp: threads_of_def)
  then show ?thesis
  proof cases
    case (1 i)
    then show ?thesis using section_step [OF inv k] by blast
  next
    case 2
    show ?thesis
    proof (cases F)
      case FPend
      then show ?thesis using last_section_step [of bh m D s0 S A h k] inv k 2 by (auto simp: Ft_def)
    next
      case (FAt j c)
      have j: "j \<le> m" "bm_pos h < 2 ^ m" using inv FAt by (auto simp: bmt_inv_def state_inv_def)
      then have p: "pth (bm_pos h) m = (m, 0)" by (simp add: pth_def)
      show ?thesis
      proof (cases "j = m")
        case True
        then have "bm_threads h ! k = FNode (Suc m) None (even (bm_pos h div 2 ^ m)) (if c then Some (V bh D (m, 0)) else None)"
          using 2 FAt p by (simp add: Ft_def par_def)
        moreover have "bmt_inv bh m D s0 S A (FAt m c) h" using inv FAt True by simp
        ultimately obtain A' where "bmt_inv bh m D s0 S A' FEnd (bmt_step bh k h)" "load m (bm_pos h) S A' FEnd < load m (bm_pos h) S A (FAt m c)"
          using final_end [OF _ k _ p refl] by blast
        then show ?thesis using FAt True by blast
      next
        case False
        then show ?thesis using final_step [of bh m D s0 S A j c h k] inv k 2 FAt j by (auto simp: Ft_def)
      qed
    qed (use 2 in \<open>simp_all add: Ft_def\<close>)
  next
    case (3 v)
    then show ?thesis using climber_step [OF inv k] by blast
  qed
qed

end
