(* ===== verification/BmtCorrect.thy ===== *)
theory BmtCorrect
  imports BmtHash
begin

text \<open>
  The hasher from \<open>Get\<close> to the result: writes of any sizes, goroutines that run at any time between and after them, the result,
  and the tree that goes back to the pool. The result is the one of the reference hasher; a tree can be used again about a thousand
  million times, then the counters of its nodes turn negative.
\<close>

section \<open>Writing\<close>

text \<open>A chunk is written in parts; the goroutines run in between.\<close>

inductive hashing :: "(bytes \<Rightarrow> bytes) \<Rightarrow> Hasher \<Rightarrow> bytes \<Rightarrow> Hasher \<Rightarrow> bool" for bh h0 where
  started: "hashing bh h0 [] h0"
| wrote: "hashing bh h0 d h \<Longrightarrow> hashing bh h0 (d @ b) (snd (bm_Write b h))"
| ran: "hashing bh h0 d h \<Longrightarrow> k < length (bm_threads h) \<Longrightarrow> hashing bh h0 d (bmt_step bh k h)"

lemma step_frame:
  "bm_pos (bmt_step bh k h) = bm_pos h" "bm_size (bmt_step bh k h) = bm_size h" "bm_span (bmt_step bh k h) = bm_span h"
  "bm_buffer (bmt_step bh k h) = bm_buffer h" "bm_conf (bmt_step bh k h) = bm_conf h" "bm_leaves (bmt_step bh k h) = bm_leaves h"
proof -
  have *: "\<exists>ns res. snd (run_thread bh t g) = g\<lparr>bm_nodes := ns, bm_result := res\<rparr>" for t g
  proof -
    have id: "\<exists>ns res. g = g\<lparr>bm_nodes := ns, bm_result := res\<rparr>" by (intro exI [of _ "bm_nodes g"] exI [of _ "bm_result g"]) simp
    have up: "\<exists>ns res. upd_node a f g = g\<lparr>bm_nodes := ns, bm_result := res\<rparr>" for a f
      by (intro exI [of _ "(bm_nodes g)(a := f (bm_nodes g a))"] exI [of _ "bm_result g"]) (simp add: upd_node_def)
    have rs: "\<exists>ns res. g\<lparr>bm_result := x\<rparr> = g\<lparr>bm_nodes := ns, bm_result := res\<rparr>" for x
      by (intro exI [of _ "bm_nodes g"] exI [of _ x]) simp
    show ?thesis
      using id up rs by (cases t) (auto simp: run_thread_def processSection_def writeNode_def writeFinalNode_def Let_def split: option.splits prod.splits)
  qed
  obtain t' ns res where "run_thread bh (bm_threads h ! k) (h\<lparr>bm_threads := take k (bm_threads h) @ drop (Suc k) (bm_threads h)\<rparr>) =
      (t', h\<lparr>bm_threads := take k (bm_threads h) @ drop (Suc k) (bm_threads h), bm_nodes := ns, bm_result := res\<rparr>)"
    using * [of "bm_threads h ! k" "h\<lparr>bm_threads := take k (bm_threads h) @ drop (Suc k) (bm_threads h)\<rparr>"] by (metis prod.collapse)
  then show "bm_pos (bmt_step bh k h) = bm_pos h" "bm_size (bmt_step bh k h) = bm_size h" "bm_span (bmt_step bh k h) = bm_span h"
    "bm_buffer (bmt_step bh k h) = bm_buffer h" "bm_conf (bmt_step bh k h) = bm_conf h" "bm_leaves (bmt_step bh k h) = bm_leaves h"
    by (simp_all add: bmt_step_def split: option.splits)
qed

definition writing :: "(bytes \<Rightarrow> bytes) \<Rightarrow> nat \<Rightarrow> (addr \<Rightarrow> int) \<Rightarrow> bytes \<Rightarrow> bytes \<Rightarrow> Hasher \<Rightarrow> bool" where
  "writing bh m s0 D d h \<longleftrightarrow>
     (\<exists>S A. bmt_inv bh m D s0 S A NoF h) \<and> bm_size h = min (length d) (64 * 2 ^ m) \<and>
     bm_pos h = (if bm_size h = 64 * 2 ^ m then 2 ^ m - 1 else bm_size h div 64) \<and>
     take (bm_size h) (bm_buffer h) = take (bm_size h) d \<and> length (bm_buffer h) = 64 * 2 ^ m"

lemma sub_block_take: "64 * Suc i \<le> n \<Longrightarrow> take n xs = take n ys \<Longrightarrow> sub_block 0 i xs = sub_block 0 i ys"
proof -
  assume n: "64 * Suc i \<le> n" and eq: "take n xs = take n ys"
  have "take (64 * Suc i) xs = take (64 * Suc i) ys" using eq n by (metis min.absorb1 take_take)
  moreover have "sub_block 0 i zs = drop (64 * i) (take (64 * Suc i) zs)" for zs by (simp add: sub_block_def drop_take mult.commute)
  ultimately show ?thesis by simp
qed

text \<open>The new part of the data starts the goroutines of the sections it completes.\<close>

lemma Write_fields:
  assumes w: "writing bh m s0 D d h" and h': "h' = snd (bm_Write b h)"
  shows "bm_size h' = min (length (d @ b)) (64 * 2 ^ m)"
    and "bm_pos h' = (if bm_size h' = 64 * 2 ^ m then 2 ^ m - 1 else bm_size h' div 64)"
    and "take (bm_size h') (bm_buffer h') = take (bm_size h') (d @ b)" and "length (bm_buffer h') = 64 * 2 ^ m"
    and "bm_threads h' = bm_threads h @ map (\<lambda>i. Section i False) [bm_pos h..<bm_pos h']" and "bm_pos h \<le> bm_pos h'"
proof -
  define N where "N = (64 * 2 ^ m :: nat)"
  have c: "cf_segmentSize (bm_conf h) = 32" "cf_maxSize (bm_conf h) = N"
    using w by (auto simp: writing_def bmt_inv_def conf_ok_def N_def)
  have sz: "bm_size h = min (length d) N" "bm_pos h = (if bm_size h = N then 2 ^ m - 1 else bm_size h div 64)"
    "take (bm_size h) (bm_buffer h) = take (bm_size h) d" "length (bm_buffer h) = N" unfolding N_def using w unfolding writing_def by blast+
  define l where "l = min (length b) (N - bm_size h)"
  have l: "(if N - bm_size h < length b then N - bm_size h else length b) = l" by (simp add: l_def)
  have N64: "N div 64 = 2 ^ m" by (simp add: N_def)
  have s': "bm_size h' = bm_size h + l" by (simp add: h' bm_Write_def Let_def c l)
  show sz': "bm_size h' = min (length (d @ b)) (64 * 2 ^ m)" using s' sz(1) by (auto simp: l_def min_def N_def)
  have full: "l = N - bm_size h \<longleftrightarrow> bm_size h' = N" using s' sz(1) by auto
  have hp: "bm_pos h' = (if l = N - bm_size h then (bm_size h + l) div 64 - 1 else (bm_size h + l) div 64)"
    by (simp add: h' bm_Write_def Let_def c l)
  have p': "bm_pos h' = (if bm_size h' = N then 2 ^ m - 1 else bm_size h' div 64)"
  proof (cases "bm_size h' = N")
    case True
    then have "bm_pos h' = bm_size h' div 64 - 1" unfolding hp using full s' by simp
    then show ?thesis using True N64 by simp
  next
    case False
    then show ?thesis unfolding hp using full s' by simp
  qed
  then show "bm_pos h' = (if bm_size h' = 64 * 2 ^ m then 2 ^ m - 1 else bm_size h' div 64)" by (simp add: N_def)
  have lt: "bm_size h div 64 < 2 ^ m" if "bm_size h < N" using that by (simp add: N_def)
  have le: "bm_size h \<le> N" "bm_size h \<le> bm_size h'" "bm_size h' \<le> N" using s' sz(1) by (simp_all add: l_def)
  have d64: "bm_size h div 64 \<le> bm_size h' div 64" using le(2) by (rule div_le_mono)
  show mono: "bm_pos h \<le> bm_pos h'"
  proof (cases "bm_size h = N")
    case True
    then have "bm_size h' = N" using le by simp
    then show ?thesis using True p' sz(2) by simp
  next
    case False
    then have "bm_pos h = bm_size h div 64" "bm_size h div 64 < 2 ^ m" using sz(2) lt le(1) by simp_all
    then show ?thesis using p' d64 by (cases "bm_size h' = N") simp_all
  qed
  have "[bm_size h div 64..<bm_pos h'] = [bm_pos h..<bm_pos h']"
  proof (cases "bm_size h = N")
    case True
    then have "bm_size h' = N" using le by simp
    then show ?thesis using True p' sz(2) N64 by simp
  qed (use sz(2) in simp)
  moreover have "bm_threads h' = bm_threads h @ map (\<lambda>i. Section i False) [bm_size h div 64..<bm_pos h']"
    by (simp add: h' bm_Write_def Let_def c)
  ultimately show "bm_threads h' = bm_threads h @ map (\<lambda>i. Section i False) [bm_pos h..<bm_pos h']" by (simp only:)
  have buf: "bm_buffer h' = take (bm_size h) d @ take (N - bm_size h) b @ drop (bm_size h + length b) (bm_buffer h)"
    using sz(3,4) by (simp add: h' bm_Write_def Let_def copy_at_def)
  have ld: "length (take (bm_size h) d) = bm_size h" using sz(1) by simp
  show "length (bm_buffer h') = 64 * 2 ^ m" unfolding buf using ld sz(1,4) by (auto simp: N_def min_def)
  have "take (bm_size h') (bm_buffer h') = take (bm_size h) d @ take l b"
    unfolding buf s' using ld by (simp add: l_def min_def)
  also have "\<dots> = take (bm_size h') (d @ b)"
  proof (cases "length d \<le> N")
    case True
    then show ?thesis using sz(1) s' by (simp add: l_def min_def)
  next
    case False
    then show ?thesis using sz(1) s' by (simp add: l_def)
  qed
  finally show "take (bm_size h') (bm_buffer h') = take (bm_size h') (d @ b)" .
qed

lemma writing_Write:
  assumes w: "writing bh m s0 D d h" and h': "h' = snd (bm_Write b h)" and D: "take (bm_size h') D = take (bm_size h') (d @ b)"
  shows "writing bh m s0 D (d @ b) h'"
proof -
  note f = Write_fields [OF w h']
  obtain S A where inv: "bmt_inv bh m D s0 S A NoF h" using w by (auto simp: writing_def)
  have same: "bm_conf h' = bm_conf h" "bm_nodes h' = bm_nodes h" "bm_result h' = bm_result h" "bm_leaves h' = bm_leaves h"
    by (simp_all add: h' bm_Write_def Let_def)
  have si: "state_inv bh m D s0 (bm_pos h) S A NoF (bm_nodes h) (bm_result h)" using inv by (simp add: bmt_inv_def)
  have z: "zeroed p (climbed m NoF) = {}" for p by (simp add: zeroed_def climbed_def)
  have S: "S \<subseteq> {..<bm_pos h}" using si by (auto simp: state_inv_def order_le_less)
  have p': "bm_pos h' < 2 ^ m" using f(1,2) by auto
  have si': "state_inv bh m D s0 (bm_pos h') S A NoF (bm_nodes h') (bm_result h')"
    using si S p' f(6) unfolding state_inv_def z same by auto
  have "waiting m (bm_pos h') S A NoF = waiting m (bm_pos h) S A NoF" unfolding waiting_def z by (simp add: carried_def)
  then have th: "threads_of bh m D (bm_pos h') S A NoF = threads_of bh m D (bm_pos h) S A NoF \<union> (\<lambda>i. Section i False) ` {bm_pos h..<bm_pos h'}"
  proof -
    have "{..<bm_pos h'} - S = ({..<bm_pos h} - S) \<union> {bm_pos h..<bm_pos h'}" using f(6) S by auto
    then show ?thesis using \<open>waiting m (bm_pos h') S A NoF = _\<close> by (simp add: threads_of_def Ft_def image_Un Un_ac)
  qed
  have "distinct (bm_threads h')" "set (bm_threads h') = threads_of bh m D (bm_pos h') S A NoF"
  proof -
    have "Section i False \<notin> set (bm_threads h)" if "bm_pos h \<le> i" for i
      using inv that by (auto simp: bmt_inv_def threads_of_def Ft_def Wt_def)
    then show "distinct (bm_threads h')" using inv unfolding f(5) by (auto simp: bmt_inv_def distinct_map inj_on_def)
    show "set (bm_threads h') = threads_of bh m D (bm_pos h') S A NoF" using inv unfolding f(5) th by (simp add: bmt_inv_def)
  qed
  moreover have "\<forall>i. i < bm_pos h' \<longrightarrow> sub_block 0 i (bm_buffer h') = sub_block 0 i D"
  proof (intro allI impI)
    fix i assume i: "i < bm_pos h'"
    have "64 * bm_pos h' \<le> bm_size h'" using f(2) by (auto split: if_splits)
    moreover have "64 * Suc i \<le> 64 * bm_pos h'" using i by simp
    ultimately have "64 * Suc i \<le> bm_size h'" by (rule order_trans [rotated])
    then show "sub_block 0 i (bm_buffer h') = sub_block 0 i D" by (rule sub_block_take) (use f(3) D in simp)
  qed
  ultimately have "bmt_inv bh m D s0 S A NoF h'" using inv si' unfolding bmt_inv_def same by simp
  then show ?thesis using f unfolding writing_def by blast
qed

section \<open>From the pool\<close>

text \<open>A tree that was used \<open>n\<close> times.\<close>

definition usable :: "nat \<Rightarrow> nat \<Rightarrow> tree \<Rightarrow> bool" where
  "usable m n t \<longleftrightarrow>
     shaped m (tr_leaves t) (tr_nodes t) \<and> length (tr_buffer t) = 64 * 2 ^ m \<and>
     (\<forall>v. in_tree m v \<and> 0 < fst v \<longrightarrow> 0 \<le> nd_state (tr_nodes t v) \<and> even (nd_state (tr_nodes t v)) \<and> nd_state (tr_nodes t v) \<le> 2 * int n)"

lemma usable_new: "usable m 0 (newTree (64 * 2 ^ m) (Suc m))"
  using newTree_shaped by (simp add: usable_def)

definition counters :: "nat \<Rightarrow> tree \<Rightarrow> addr \<Rightarrow> int" where
  "counters m t v = (if in_tree m v \<and> 0 < fst v then nd_state (tr_nodes t v) else 0)"

lemma counters_fine: "usable m n t \<Longrightarrow> 2 * int n + 2 < 2 ^ 31 \<Longrightarrow> counters_ok (counters m t)"
proof -
  assume t: "usable m n t" and n: "2 * int n + 2 < 2 ^ 31"
  have "0 \<le> counters m t v \<and> even (counters m t v) \<and> counters m t v + 2 < 2 ^ 31" for v
  proof (cases "in_tree m v \<and> 0 < fst v")
    case True
    then have "0 \<le> nd_state (tr_nodes t v)" "even (nd_state (tr_nodes t v))" "nd_state (tr_nodes t v) \<le> 2 * int n"
      using t unfolding usable_def by blast+
    moreover from this(3) have "nd_state (tr_nodes t v) + 2 < 2 ^ 31" using n by linarith
    ultimately show ?thesis using True by (simp add: counters_def)
  qed (auto simp: counters_def)
  then show ?thesis by (simp add: counters_ok_def)
qed

definition fresh :: "Conf \<Rightarrow> tree \<Rightarrow> bytes \<Rightarrow> Hasher" where
  "fresh cf t span = SetHeader span (new_hasher cf t)"

lemma writing_fresh:
  assumes "conf_ok bh m cf" and t: "usable m n t" and n: "2 * int n + 2 < 2 ^ 31" and "length D = 64 * 2 ^ m"
  shows "writing bh m (counters m t) D [] (fresh cf t span)"
proof -
  have no: "\<not> ready {} {} Z v" for Z v by (simp add: ready_def lefts_def)
  have z: "zeroed p 0 = {}" for p by (simp add: zeroed_def)
  have "state_inv bh m D (counters m t) 0 {} {} NoF (tr_nodes t) []"
    using t by (auto simp: state_inv_def usable_def shaped_def node_ok_def lefts_def rights_def counters_def climbed_def z)
  moreover have "threads_of bh m D 0 {} {} NoF = {}" using no by (simp add: threads_of_def Ft_def waiting_def)
  ultimately have "bmt_inv bh m D (counters m t) {} {} NoF (fresh cf t span)"
    using assms(1,4) counters_fine [OF t n] t by (simp add: bmt_inv_def fresh_def SetHeader_def new_hasher_def usable_def shaped_def)
  then show ?thesis using t unfolding writing_def by (auto simp: fresh_def SetHeader_def new_hasher_def usable_def)
qed

lemma hashing_frame:
  assumes "hashing bh h0 d h" and "cf_maxSize (bm_conf h0) = N" and "bm_size h0 = 0"
  shows "bm_size h = min (length d) N \<and> bm_span h = bm_span h0 \<and> bm_conf h = bm_conf h0"
  using assms
proof (induction rule: hashing.induct)
  case (wrote d h b)
  then show ?case by (auto simp: bm_Write_def Let_def min_def)
qed (simp_all add: step_frame)

lemma hashing_writing:
  assumes "hashing bh h0 d h" and w0: "\<And>D. length D = 64 * 2 ^ m \<Longrightarrow> writing bh m s0 D [] h0"
    and N: "cf_maxSize (bm_conf h0) = 64 * 2 ^ m" "bm_size h0 = 0"
  shows "length D = 64 * 2 ^ m \<Longrightarrow> take (bm_size h) D = take (bm_size h) d \<Longrightarrow> writing bh m s0 D d h"
  using assms(1)
proof (induction arbitrary: D rule: hashing.induct)
  case started
  then show ?case using w0 by simp
next
  case (wrote d h b)
  let ?h = "snd (bm_Write b h)"
  have sz: "bm_size h = min (length d) (64 * 2 ^ m)" "bm_size ?h = min (length (d @ b)) (64 * 2 ^ m)"
    using hashing_frame [OF wrote(1) N] hashing_frame [OF hashing.wrote [OF wrote(1)] N] by auto
  have "take (bm_size h) D = take (bm_size h) (take (bm_size ?h) D)" unfolding sz by (simp add: min_def)
  also have "\<dots> = take (bm_size h) (d @ b)" unfolding wrote(4) unfolding sz by (simp add: min_def)
  also have "\<dots> = take (bm_size h) d" using sz(1) by simp
  finally show ?case using wrote(2) [OF wrote(3)] wrote(4) by (intro writing_Write) auto
next
  case (ran d h k)
  then have w: "writing bh m s0 D d h" by (simp add: step_frame)
  then obtain S A where "bmt_inv bh m D s0 S A NoF h" by (auto simp: writing_def)
  then obtain S' A' where "bmt_inv bh m D s0 S' A' NoF (bmt_step bh k h)" using step_ok [OF _ ran(2)] by metis
  then show ?case using w unfolding writing_def step_frame by blast
qed

text \<open>The data as the reference hasher pads it.\<close>

definition padded :: "nat \<Rightarrow> bytes \<Rightarrow> bytes" where
  "padded N d = take N d @ replicate (N - length d) 0"

lemma Hash_start_inv:
  assumes w: "writing bh m s0 (padded (64 * 2 ^ m) d) d h" and "bm_size h \<noteq> 0"
  shows "\<exists>S A. bmt_inv bh m (padded (64 * 2 ^ m) d) s0 S A FPend (Hash_start h)"
proof -
  define N where "N = (64 * 2 ^ m :: nat)"
  let ?D = "padded N d" and ?h = "Hash_start h" and ?E = "64 * Suc (bm_pos h)"
  obtain S A where inv: "bmt_inv bh m ?D s0 S A NoF h" using w by (auto simp: writing_def N_def)
  have sz: "bm_size h = min (length d) N" "bm_pos h = (if bm_size h = N then 2 ^ m - 1 else bm_size h div 64)"
    "take (bm_size h) (bm_buffer h) = take (bm_size h) d" "length (bm_buffer h) = N" unfolding N_def using w unfolding writing_def by blast+
  have E: "bm_size h \<le> ?E" "?E \<le> bm_size h + 64" "?E \<le> N"
  proof -
    have N0: "?E = N" if "bm_size h = N" using that sz(2) by (simp add: N_def algebra_simps)
    have "bm_size h < N" if "bm_size h \<noteq> N" using that sz(1) by auto
    then have lt: "bm_size h div 64 < 2 ^ m" if "bm_size h \<noteq> N" using that by (simp add: N_def)
    have p: "bm_pos h = bm_size h div 64" if "bm_size h \<noteq> N" using that sz(2) by simp
    show "bm_size h \<le> ?E" "?E \<le> bm_size h + 64" using N0 p by (cases "bm_size h = N"; simp)+
    show "?E \<le> N" using N0 p lt by (cases "bm_size h = N") (simp_all add: N_def)
  qed
  have same: "bm_conf ?h = bm_conf h" "bm_nodes ?h = bm_nodes h" "bm_result ?h = bm_result h" "bm_leaves ?h = bm_leaves h" "bm_pos ?h = bm_pos h"
    "bm_threads ?h = bm_threads h @ [Section (bm_pos h) True]" "bm_buffer ?h = copy_at (bm_size h) (replicate 64 0) (bm_buffer h)"
    using assms(2) by (simp_all add: Hash_start_def)
  have ld: "length (take (bm_size h) d) = bm_size h" using sz(1) by simp
  have dD: "?D = take (bm_size h) d @ replicate (N - bm_size h) 0" using sz(1) by (auto simp: padded_def min_def)
  have buf: "take ?E (bm_buffer ?h) = take ?E ?D"
    unfolding same dD copy_at_def sz(3,4) using E ld by (simp add: min_def) linarith
  have tail: "set (drop ?E ?D) \<subseteq> {0}" unfolding dD using E(1) ld by (auto dest: in_set_dropD)
  have z: "zeroed p (climbed m NoF) = {}" "zeroed p (climbed m FPend) = {}" for p by (simp_all add: zeroed_def climbed_def)
  have si: "state_inv bh m ?D s0 (bm_pos h) S A NoF (bm_nodes h) (bm_result h)" using inv by (simp add: bmt_inv_def)
  then have "state_inv bh m ?D s0 (bm_pos h) S A FPend (bm_nodes h) (bm_result h)" unfolding state_inv_def z by simp
  moreover have "waiting m (bm_pos h) S A FPend = waiting m (bm_pos h) S A NoF" unfolding waiting_def z by (simp add: carried_def)
  then have th: "threads_of bh m ?D (bm_pos h) S A FPend = insert (Section (bm_pos h) True) (threads_of bh m ?D (bm_pos h) S A NoF)"
    by (auto simp: threads_of_def Ft_def)
  moreover have "Section (bm_pos h) True \<notin> set (bm_threads h)" using inv by (auto simp: bmt_inv_def threads_of_def Ft_def Wt_def)
  moreover have "\<forall>i. i < bm_pos h \<or> i = bm_pos h \<and> FPend \<noteq> NoF \<longrightarrow> sub_block 0 i (bm_buffer ?h) = sub_block 0 i ?D"
    using sub_block_take [OF _ buf] by (simp add: Suc_le_eq)
  ultimately have "bmt_inv bh m ?D s0 S A FPend ?h"
    using inv tail unfolding bmt_inv_def same(1-5) same(6) by (simp add: same)
  then show ?thesis unfolding N_def by blast
qed

section \<open>The end of a run\<close>

lemma all_arrived:
  assumes inv: "bmt_inv bh m D s0 S A F h" and F: "F \<noteq> NoF" and idle: "bm_threads h = []"
  shows "F = FEnd \<and> (\<forall>l i. in_tree m (l, i) \<longrightarrow> i * 2 ^ l \<le> bm_pos h \<longrightarrow> (l, i) \<in> A)"
proof -
  let ?pos = "bm_pos h"
  have none: "threads_of bh m D ?pos S A F = {}" using inv idle by (simp add: bmt_inv_def)
  then have FE: "F = FEnd" using F by (cases F) (auto simp: threads_of_def Ft_def)
  have si: "state_inv bh m D s0 ?pos S A F (bm_nodes h) (bm_result h)" using inv by (simp add: bmt_inv_def)
  have S: "i \<in> S" if "i \<le> ?pos" for i
    using none si FE that by (cases "i = ?pos") (auto simp: threads_of_def state_inv_def)
  have arr: "v \<in> A" if "in_tree m v" "ready S A (zeroed ?pos m) v" for v
    using none that FE by (cases v) (auto simp: threads_of_def waiting_def climbed_def carried_def)
  have "(l, i) \<in> A" if "in_tree m (l, i)" "i * 2 ^ l \<le> ?pos" for l i
    using that
  proof (induction l arbitrary: i)
    case 0
    then show ?case using S arr by (simp add: ready_def)
  next
    case (Suc l)
    have l: "l < m" and i: "i < 2 ^ (m - Suc l)" using Suc.prems(1) by (auto simp: in_tree_def)
    have "(2::nat) ^ (m - l) = 2 * 2 ^ (m - Suc l)" using l by (simp add: Suc_diff_Suc flip: power_Suc)
    then have tr: "in_tree m (l, 2 * i)" "in_tree m (l, Suc (2 * i))" using i l by (simp_all add: in_tree_def)
    have le: "2 * i * 2 ^ l \<le> ?pos" using Suc.prems(2) by (simp add: ac_simps)
    then have left: "(l, 2 * i) \<in> A" using Suc.IH tr(1) by blast
    have "(l, Suc (2 * i)) \<in> A \<or> (Suc l, i) \<in> zeroed ?pos m"
    proof (cases "Suc (2 * i) * 2 ^ l \<le> ?pos")
      case True
      then show ?thesis using Suc.IH tr(2) by blast
    next
      case False
      then have "?pos div 2 ^ l = 2 * i" using le by (intro div_nat_eqI) (simp_all add: ac_simps)
      moreover have "?pos div 2 ^ Suc l = ?pos div 2 ^ l div 2" by (simp add: div_mult2_eq [symmetric] mult.commute)
      ultimately show ?thesis using l by (auto simp: zeroed_def pth_def)
    qed
    then show ?case using left by (intro arr [OF Suc.prems(1)]) (simp add: ready_def lefts_def rights_def)
  qed
  then show ?thesis using FE by blast
qed

text \<open>When the root has sent its hash, everything below has arrived; only the last goroutine may still be on its way, and it changes
  no node. So the tree may go back to the pool as soon as the result is there.\<close>

lemma arrived_below:
  assumes si: "state_inv bh m D s0 pos S A F ns res" and root: "(m, 0) \<in> A"
  shows "in_tree m (l, i) \<Longrightarrow> i * 2 ^ l \<le> pos \<Longrightarrow> (l, i) \<in> A"
proof (induction "m - l" arbitrary: l i)
  case 0
  then have "l = m" by (simp add: in_tree_def)
  then show ?case using 0 root by (simp add: in_tree_root)
next
  case (Suc k)
  let ?u = "(Suc l, i div 2)"
  have l: "l < m" "k = m - Suc l" using Suc.hyps(2) by simp_all
  have "i div 2 * 2 ^ Suc l = 2 * (i div 2) * 2 ^ l" by simp
  also have "\<dots> \<le> i * 2 ^ l" by (intro mult_le_mono1) simp
  finally have "?u \<in> A" using Suc.hyps(1) [OF l(2) in_tree_up [OF Suc.prems(1) l(1)]] Suc.prems(2) by linarith
  then have r: "ready S A (zeroed pos (climbed m F)) ?u" using state_invD(3) [OF si] by blast
  show ?case
  proof (cases "even i")
    case True
    then show ?thesis using r by (simp add: ready_def lefts_def)
  next
    case False
    have "?u \<notin> zeroed pos (climbed m F)"
    proof
      assume "?u \<in> zeroed pos (climbed m F)"
      moreover have "pos div 2 ^ Suc l = pos div 2 ^ l div 2" by (simp add: div_mult2_eq [symmetric] mult.commute)
      ultimately have e: "even (pos div 2 ^ l)" "i div 2 = pos div 2 ^ l div 2" by (auto simp: zeroed_def pth_def)
      then have "i = Suc (pos div 2 ^ l)" using False by (metis even_two_times_div_two odd_two_times_div_two_succ Suc_eq_plus1)
      then show False using Suc.prems(2) dividend_less_div_times [of "2 ^ l" pos] by (simp add: mult.commute)
    qed
    then show ?thesis using r False by (simp add: ready_def rights_def)
  qed
qed

lemma sent_quiet:
  assumes inv: "bmt_inv bh m D s0 S A F h" and root: "(m, 0) \<in> A" and k: "k < length (bm_threads h)"
  shows "bm_nodes (bmt_step bh k h) = bm_nodes h"
proof -
  let ?pos = "bm_pos h"
  have si: "state_inv bh m D s0 ?pos S A F (bm_nodes h) (bm_result h)" using inv by (simp add: bmt_inv_def)
  note d = state_invD [OF si] and below = arrived_below [OF si root]
  have S: "i \<in> S" if "i \<le> ?pos" for i
  proof -
    have "(0, i) \<in> A" using below [of 0 i] that d(1) by (simp add: in_tree_def)
    then show ?thesis using d(3) by (auto simp: ready_def)
  qed
  have w: "waiting m ?pos S A F = {}"
    using below ready_le [OF d(3,2)] by (auto simp: waiting_def)
  have "?pos \<in> S" using S by simp
  then have F: "F \<noteq> NoF" "F \<noteq> FPend" using si by (simp_all add: state_inv_def)
  have no: "\<not> carried ?pos F v" for v
  proof
    assume v: "carried ?pos F v"
    then obtain j where j: "F = FAt j True" "v = pth ?pos j" by (auto simp: carried_def)
    then have "j \<le> m" using si unfolding state_inv_def by blast
    then have "v \<in> A" using below [of j "?pos div 2 ^ j"] in_tree_pth [OF d(1), of j] j(2) by (simp add: pth_def)
    then show False using d(8) [OF v] by blast
  qed
  have "bm_threads h ! k \<in> threads_of bh m D ?pos S A F" using inv k by (auto simp: bmt_inv_def)
  then have "bm_threads h ! k \<in> Ft bh m D ?pos F" using S w by (auto simp: threads_of_def)
  then obtain j where j: "F = FAt j False" "bm_threads h ! k = FNode (Suc j) (par m (pth ?pos j)) (even (?pos div 2 ^ j)) None"
    using F no [of "pth ?pos j" for j] by (cases F) (auto simp: Ft_def carried_def pth_def split: if_splits)
  have jm: "j \<le> m" using si j(1) unfolding state_inv_def by blast
  have "par m (pth ?pos j) = None \<or> odd (?pos div 2 ^ j)"
  proof (rule ccontr)
    assume neg: "\<not> ?thesis"
    then have j': "j < m" and ev: "even (?pos div 2 ^ j)" using jm by (auto simp: par_def pth_def split: if_splits)
    have "pth ?pos (Suc j) \<in> A" using below [of "Suc j" "?pos div 2 ^ Suc j"] in_tree_pth [OF d(1), of "Suc j"] j' by (simp add: pth_def)
    then have "ready S A (zeroed ?pos j) (pth ?pos (Suc j))" using d(3) j(1) by (auto simp: climbed_def)
    moreover have "pth ?pos (Suc j) \<notin> zeroed ?pos j" by (auto simp: zeroed_def pth_def)
    moreover have "?pos div 2 ^ Suc j = ?pos div 2 ^ j div 2" by (simp add: div_mult2_eq [symmetric] mult.commute)
    ultimately have "(j, Suc (?pos div 2 ^ j)) \<in> A" using ev by (simp add: ready_def rights_def pth_def)
    then show False using beyond_not_arrived [OF d(3,2)] by blast
  qed
  then show ?thesis
    unfolding bmt_step_def j(2) run_thread_def thread.case writeFinalNode_def by (auto simp: upd_node_def Let_def split: option.splits)
qed

lemma sent_hasher:
  assumes inv: "bmt_inv bh m D (counters m t) S A F h" and root: "(m, 0) \<in> A"
    and t: "usable m n t" and buf: "length (bm_buffer h) = 64 * 2 ^ m"
  shows "usable m (Suc n) \<lparr>tr_leaves = bm_leaves h, tr_nodes = bm_nodes h, tr_buffer = bm_buffer h\<rparr>"
proof -
  let ?pos = "bm_pos h" and ?Z = "zeroed (bm_pos h) (climbed m F)"
  have si: "state_inv bh m D (counters m t) ?pos S A F (bm_nodes h) (bm_result h)" using inv by (simp add: bmt_inv_def)
  note d = state_invD [OF si] and below = arrived_below [OF si root]
  have "0 \<le> nd_state (bm_nodes h v) \<and> even (nd_state (bm_nodes h v)) \<and> nd_state (bm_nodes h v) \<le> 2 * int (Suc n)" if v: "in_tree m v" "0 < fst v" for v
  proof -
    obtain l i where li: "v = (Suc l, i)" using v(2) by (metis gr0_conv_Suc prod.collapse)
    have ct: "0 \<le> counters m t v" "counters m t v \<le> 2 * int n" using t v li unfolding usable_def by (auto simp: counters_def)
    have "lefts A v \<longleftrightarrow> rights A ?Z v"
    proof (cases "i * 2 ^ Suc l \<le> ?pos")
      case True
      then have "v \<in> A" using below v(1) li by blast
      then show ?thesis using d(3) li by (auto simp: ready_def)
    next
      case False
      have nl: "(l, j) \<notin> A" if "2 * i \<le> j" for j
      proof
        assume "(l, j) \<in> A"
        then have "j * 2 ^ l \<le> ?pos" by (rule arrived_le [OF d(3,2)])
        moreover have "2 * i * 2 ^ l \<le> j * 2 ^ l" using that by (rule mult_le_mono1)
        ultimately have "2 * i * 2 ^ l \<le> ?pos" by linarith
        then show False using False by (simp add: ac_simps)
      qed
      have "v \<notin> ?Z"
      proof
        assume "v \<in> ?Z"
        then have "i = ?pos div 2 ^ Suc l" using li by (auto simp: zeroed_def pth_def)
        then show False using False div_times_less_eq_dividend [of ?pos "2 ^ Suc l"] by simp
      qed
      then show ?thesis using nl li by (simp add: lefts_def rights_def)
    qed
    then show ?thesis using d(5) [OF v] ct by (auto simp: node_ok_def split: if_splits)
  qed
  then show ?thesis
    using d(6,7) buf inv t by (auto simp: usable_def shaped_def bmt_inv_def)
qed

lemma bmt_run_inv:
  assumes "bmt_run bh h h'" and "bmt_inv bh m D s0 S A F h" and "F \<noteq> NoF"
  shows "(\<exists>S' A' F'. bmt_inv bh m D s0 S' A' F' h' \<and> F' \<noteq> NoF) \<and> bm_size h' = bm_size h \<and> bm_span h' = bm_span h \<and> bm_buffer h' = bm_buffer h"
  using assms
proof (induction arbitrary: S A F rule: bmt_run.induct)
  case (step k h h')
  obtain S' A' F' where "bmt_inv bh m D s0 S' A' F' (bmt_step bh k h)" "F' \<noteq> NoF" using step_ok [OF step.prems(1) step.hyps(1)] step.prems(2) by blast
  then show ?case using step.IH by (simp add: step_frame)
qed blast

lemma no_endless_run:
  assumes "bmt_inv bh m D s0 S A F (f 0)" and step: "\<forall>i. \<exists>k < length (bm_threads (f i)). f (Suc i) = bmt_step bh k (f i)"
  shows False
proof -
  have pos: "bm_pos (f i) = bm_pos (f 0)" for i
  proof (induction i)
    case (Suc i)
    obtain k where "f (Suc i) = bmt_step bh k (f i)" using step by blast
    then show ?case using Suc by (simp only: step_frame)
  qed (rule refl)
  have "\<exists>S' A' F'. bmt_inv bh m D s0 S' A' F' (f i) \<and> load m (bm_pos (f 0)) S' A' F' + i \<le> load m (bm_pos (f 0)) S A F" for i
  proof (induction i)
    case 0
    show ?case using assms(1) by auto
  next
    case (Suc i)
    then obtain S' A' F' where IH: "bmt_inv bh m D s0 S' A' F' (f i)" "load m (bm_pos (f 0)) S' A' F' + i \<le> load m (bm_pos (f 0)) S A F" by blast
    obtain k where k: "k < length (bm_threads (f i))" "f (Suc i) = bmt_step bh k (f i)" using step by blast
    then obtain S2 A2 F2 where "bmt_inv bh m D s0 S2 A2 F2 (f (Suc i))" "load m (bm_pos (f 0)) S2 A2 F2 < load m (bm_pos (f 0)) S' A' F'"
      using step_ok [OF IH(1) k(1)] pos [of i] by auto
    then show ?case using IH(2) by (intro exI [of _ S2] exI [of _ A2] exI [of _ F2]) simp
  qed
  from this [of "Suc (load m (bm_pos (f 0)) S A F)"] show False by auto
qed

section \<open>The hasher and the reference hasher\<close>

lemma conf_params:
  obtains m where "cf_depth (NewConf bh 32 count capacity) = Suc m" and "conf_ok bh m (NewConf bh 32 count capacity)"
    and "rh_maxDataLength (NewRefHasher 32 count) = 64 * 2 ^ m"
proof -
  obtain k where "count \<le> 2 ^ Suc k" using less_exp [of count] by (metis less_imp_le_nat nat_le_linear power_Suc order_trans mult_le_mono1 one_le_numeral mult_1)
  then obtain m where "size_loop count 2 0 = (2 ^ Suc m, m)" using size_loop_double [of count k 0] by auto
  then show thesis by (intro that [of m]) (simp_all add: NewConf_def sizeToParams_def conf_ok_def NewRefHasher_def)
qed

lemma rh_Hash_padded: "rh_maxDataLength (NewRefHasher 32 count) = 64 * 2 ^ m \<Longrightarrow> rh_Hash bh (NewRefHasher 32 count) data = V bh (padded (64 * 2 ^ m) data) (m, 0)"
proof -
  assume n: "rh_maxDataLength (NewRefHasher 32 count) = 64 * 2 ^ m"
  have l: "length (padded (64 * 2 ^ m) data) = 64 * 2 ^ m" by (simp add: padded_def)
  have "rh_sectionLength (NewRefHasher 32 count) = 64" by (simp add: NewRefHasher_def)
  then have "rh_Hash bh (NewRefHasher 32 count) data = rh_hash bh 64 (padded (64 * 2 ^ m) data) (64 * 2 ^ m)" using n by (simp only: rh_Hash_def Let_def padded_def)
  also have "\<dots> = V bh (padded (64 * 2 ^ m) data) (m, 0)" unfolding rh_hash_subtree V_def sub_block_def using l by simp
  finally show ?thesis .
qed

lemma bmt_exec_ends:
  assumes "bmt_inv bh m D s0 S A F h" and "load m (bm_pos h) S A F \<le> n"
  shows "bmt_run bh h (bmt_exec bh n h) \<and> bm_threads (bmt_exec bh n h) = []"
  using assms
proof (induction n arbitrary: S A F h)
  case 0
  have "bm_threads h = []"
  proof (rule ccontr)
    assume "bm_threads h \<noteq> []"
    then show False using step_ok [OF 0(1), of 0] 0(2) by auto
  qed
  then show ?case by (simp add: bmt_run.idle)
next
  case (Suc n)
  show ?case
  proof (cases "bm_threads h = []")
    case False
    then obtain S' A' F' where "bmt_inv bh m D s0 S' A' F' (bmt_step bh 0 h)" "load m (bm_pos (bmt_step bh 0 h)) S' A' F' \<le> n"
      using step_ok [OF Suc(2), of 0] Suc(3) unfolding step_frame by fastforce
    then show ?thesis using Suc(1) False by (auto intro: bmt_run.step [of 0])
  qed (simp add: bmt_run.idle)
qed

lemma load_bound:
  assumes "pos < 2 ^ m"
  shows "load m pos S A F \<le> (m + 2) * 2 ^ Suc m + Suc m + 2"
proof -
  have "{v. in_tree m v} \<subseteq> {..m} \<times> {..<2 ^ m}"
  proof
    fix v assume "v \<in> {v. in_tree m v}"
    then have v: "fst v \<le> m" "snd v < 2 ^ (m - fst v)" by (simp_all add: in_tree_def)
    then have "(2::nat) ^ (m - fst v) \<le> 2 ^ m" by (intro power_increasing) simp_all
    then have "snd v < 2 ^ m" using v(2) by linarith
    then show "v \<in> {..m} \<times> {..<2 ^ m}" using v(1) by (cases v) simp
  qed
  then have "card {v. in_tree m v} \<le> card ({..m} \<times> {..<(2::nat) ^ m})" by (intro card_mono) simp_all
  then have "card {v. in_tree m v} \<le> Suc m * 2 ^ m" by simp
  then have "load m pos S A F \<le> Suc m * 2 ^ m + 2 ^ m + (m + 2)" using assms by (auto simp: load_def split: climb.splits)
  then show ?thesis by simp
qed

lemma hashing_nothing:
  assumes "hashing bh h0 d h" and "d = []" and "bm_threads h0 = []" "bm_size h0 = 0" "bm_pos h0 = 0" "bm_offset h0 = 0"
    and "cf_maxSize (bm_conf h0) \<noteq> 0"
  shows "h = h0"
  using assms
proof (induction rule: hashing.induct)
  case (wrote d h b)
  then have "h = h0" "b = []" by simp_all
  then show ?case using wrote.prems by (simp add: bm_Write_def Let_def copy_at_def)
qed simp_all

text \<open>What the hasher may do after \<open>Hash\<close> has started its goroutine.\<close>

definition hash_outcome :: "(bytes \<Rightarrow> bytes) \<Rightarrow> RefHasher \<Rightarrow> nat \<Rightarrow> nat \<Rightarrow> bytes \<Rightarrow> bytes \<Rightarrow> Hasher \<Rightarrow> bool" where
  "hash_outcome bh rh m n span data h \<longleftrightarrow>
     (Hash_result bh h = None \<or> Hash_result bh h = Some (bh (span @ rh_Hash bh rh data))) \<and>
     (bm_threads h = [] \<longrightarrow> Hash_result bh h \<noteq> None) \<and>
     (Hash_result bh h \<noteq> None \<longrightarrow> usable m (Suc n) \<lparr>tr_leaves = bm_leaves h, tr_nodes = bm_nodes h, tr_buffer = bm_buffer h\<rparr> \<and>
        (\<forall>k < length (bm_threads h). bm_nodes (bmt_step bh k h) = bm_nodes h))"

lemma hasher_correct:
  assumes cf: "cf = NewConf bh 32 count capacity" and t: "usable (cf_depth cf - 1) n t" and n: "n + 1 < 2 ^ 30" and span: "length span = 8"
    and hs: "hashing bh (SetHeader span (new_hasher cf t)) data h"
  shows "bmt_run bh (Hash_start h) h' \<Longrightarrow> hash_outcome bh (NewRefHasher 32 count) (cf_depth cf - 1) n span data h'"
    and "bmt_run bh (Hash_start h) (bmt_exec bh (bmt_fuel cf) (Hash_start h))" and "bm_threads (bmt_exec bh (bmt_fuel cf) (Hash_start h)) = []"
    and "\<lbrakk>f 0 = Hash_start h; \<forall>i. \<exists>k < length (bm_threads (f i)). f (Suc i) = bmt_step bh k (f i)\<rbrakk> \<Longrightarrow> False"
proof -
  obtain m where m: "cf_depth cf = Suc m" "conf_ok bh m cf" "rh_maxDataLength (NewRefHasher 32 count) = 64 * 2 ^ m"
    unfolding cf by (rule conf_params)
  let ?D = "padded (64 * 2 ^ m) data" and ?h0 = "SetHeader span (new_hasher cf t)"
  have t: "usable m n t" using t m(1) by simp
  have n: "2 * int n + 2 < 2 ^ 31" using n by simp
  have lD: "length ?D = 64 * 2 ^ m" by (simp add: padded_def)
  have max: "cf_maxSize cf = 64 * 2 ^ m" using m(2) by (simp add: conf_ok_def)
  have h0: "bm_conf ?h0 = cf" "bm_size ?h0 = 0" "bm_span ?h0 = span" using span by (simp_all add: SetHeader_def new_hasher_def copy_at_def SpanSize_def)
  have fr: "bm_size h = min (length data) (64 * 2 ^ m)" "bm_span h = span" using hashing_frame [OF hs] h0 max by simp_all
  note ref = rh_Hash_padded [OF m(3), of bh data]
  have fuel: "bmt_fuel cf = (m + 2) * 2 ^ Suc m + Suc m + 2" using m(1) by (simp add: bmt_fuel_def)
  have "(\<forall>h'. bmt_run bh (Hash_start h) h' \<longrightarrow> hash_outcome bh (NewRefHasher 32 count) m n span data h') \<and>
    (let h' = bmt_exec bh (bmt_fuel cf) (Hash_start h) in bmt_run bh (Hash_start h) h' \<and> bm_threads h' = []) \<and>
    (\<nexists>f. f 0 = Hash_start h \<and> (\<forall>i. \<exists>k < length (bm_threads (f i)). f (Suc i) = bmt_step bh k (f i)))"
  proof (cases "bm_size h = 0")
    case True
    then have "min (length data) (64 * 2 ^ m) = 0" using fr(1) by simp
    then have "data = []" by (auto simp: min_def split: if_splits)
    then have h: "h = ?h0" using hashing_nothing [OF hs] max by (simp add: SetHeader_def new_hasher_def)
    have idle: "bm_threads ?h0 = []" "Hash_start ?h0 = ?h0" by (simp_all add: SetHeader_def new_hasher_def Hash_start_def)
    have "V bh ?D (m, 0) = ((\<lambda>x. bh (x @ x)) ^^ Suc m) (replicate 32 0)"
      using \<open>data = []\<close> subtree_hash_zeros by (simp add: V_def sub_block_def padded_def)
    also have "\<dots> = cf_zerohashes cf ! Suc m" using m(2) zero_hashes_nth [of "Suc m" "Suc m" bh "replicate 32 0"] by (simp only: conf_ok_def)
    finally have "Hash_result bh ?h0 = Some (bh (span @ rh_Hash bh (NewRefHasher 32 count) data))"
      using m(1) h0 ref by (simp add: Hash_result_def doHash_def)
    moreover have same: "h' = ?h0" if "bmt_run bh ?h0 h'" for h' using that idle(1) by (cases rule: bmt_run.cases) simp_all
    moreover have "usable m (Suc n) \<lparr>tr_leaves = bm_leaves ?h0, tr_nodes = bm_nodes ?h0, tr_buffer = bm_buffer ?h0\<rparr>"
      using t by (fastforce simp: usable_def SetHeader_def new_hasher_def)
    moreover have ends: "\<nexists>f. f 0 = ?h0 \<and> (\<forall>i. \<exists>k < length (bm_threads (f i)). f (Suc i) = bmt_step bh k (f i))"
      using idle(1) by (metis length_0_conv not_less_zero)
    moreover have ex: "bmt_exec bh k ?h0 = ?h0" for k using idle(1) by (cases k) simp_all
    ultimately have "hash_outcome bh (NewRefHasher 32 count) m n span data ?h0" using idle(1) by (simp add: hash_outcome_def)
    then show ?thesis using h idle same ends ex by (auto simp: bmt_run.idle)
  next
    case False
    have w0: "writing bh m (counters m t) D [] ?h0" if "length D = 64 * 2 ^ m" for D
      using writing_fresh [OF m(2) t n that, of span] by (simp add: fresh_def)
    have "writing bh m (counters m t) ?D data h"
      using hashing_writing [OF hs w0 _ _ lD] h0 max fr(1) by (auto simp: padded_def min_def)
    then obtain S A where inv: "bmt_inv bh m ?D (counters m t) S A FPend (Hash_start h)" and buf: "length (bm_buffer h) = 64 * 2 ^ m"
      using Hash_start_inv [of bh m "counters m t" data h] False by (auto simp: writing_def)
    have start: "bm_size (Hash_start h) = bm_size h" "bm_span (Hash_start h) = span" "length (bm_buffer (Hash_start h)) = 64 * 2 ^ m"
      using False fr buf by (auto simp: Hash_start_def copy_at_def)
    have "hash_outcome bh (NewRefHasher 32 count) m n span data h'"
      if run: "bmt_run bh (Hash_start h) h'" for h'
    proof -
      obtain S' A' F' where r: "bmt_inv bh m ?D (counters m t) S' A' F' h'" "F' \<noteq> NoF"
        and eq: "bm_size h' = bm_size h" "bm_span h' = span" "length (bm_buffer h') = 64 * 2 ^ m"
        using bmt_run_inv [OF run inv] start by auto
      have res: "bm_result h' = (if (m, 0) \<in> A' then [V bh ?D (m, 0)] else [])" using r(1) by (simp add: bmt_inv_def state_inv_def)
      have "(m, 0) \<in> A'" if "bm_threads h' = []" using all_arrived [OF r that] by (auto simp: in_tree_root)
      then show ?thesis using res sent_hasher [OF r(1) _ t eq(3)] sent_quiet [OF r(1)] False eq ref
        by (simp add: hash_outcome_def Hash_result_def doHash_def)
    qed
    moreover have "load m (bm_pos (Hash_start h)) S A FPend \<le> bmt_fuel cf"
      unfolding fuel using inv by (intro load_bound) (simp add: bmt_inv_def state_inv_def)
    ultimately show ?thesis using bmt_exec_ends [OF inv] no_endless_run [of bh m _ _ S A FPend] inv unfolding Let_def by metis
  qed
  then show "bmt_run bh (Hash_start h) h' \<Longrightarrow> hash_outcome bh (NewRefHasher 32 count) (cf_depth cf - 1) n span data h'"
    and "bmt_run bh (Hash_start h) (bmt_exec bh (bmt_fuel cf) (Hash_start h))" and "bm_threads (bmt_exec bh (bmt_fuel cf) (Hash_start h)) = []"
    and "\<lbrakk>f 0 = Hash_start h; \<forall>i. \<exists>k < length (bm_threads (f i)). f (Suc i) = bmt_step bh k (f i)\<rbrakk> \<Longrightarrow> False"
    unfolding Let_def by (simp_all add: m(1)) blast
qed

text \<open>One schedule is enough to know the digest.\<close>

lemma bmt_digest_eq:
  assumes "usable (cf_depth (NewConf bh 32 count capacity) - 1) n t" "n + 1 < 2 ^ 30" "length span = 8"
  shows "bmt_digest bh (NewConf bh 32 count capacity) t span data = Some (bh (span @ rh_Hash bh (NewRefHasher 32 count) data))"
proof -
  let ?cf = "NewConf bh 32 count capacity"
  let ?h = "snd (bm_Write data (SetHeader span (new_hasher ?cf t)))"
  have hs: "hashing bh (SetHeader span (new_hasher ?cf t)) data ?h" using hashing.wrote [OF hashing.started, of bh _ data] by simp
  note c = hasher_correct [OF refl assms hs]
  show ?thesis using c(1) [OF c(2)] c(3) unfolding hash_outcome_def bmt_digest_def by auto
qed

text \<open>C27. The concurrent hasher computes the reference hash. Whatever parts the data is written in, however the goroutines
  interleave with the writes and with each other: a result that is sent is the hash of the span and of the reference hash of the
  data, no run goes on forever, when no goroutine is left the result has been sent, and as soon as it has been sent the tree can be
  used again: a goroutine that is still on its way changes no node.\<close>

theorem bmt_equals_reference:
  assumes "cf = NewConf bh 32 count capacity" and "usable (cf_depth cf - 1) n t" and "n + 1 < 2 ^ 30" and "length span = 8"
    and "hashing bh (SetHeader span (new_hasher cf t)) data h"
  shows "(\<forall>h'. bmt_run bh (Hash_start h) h' \<longrightarrow>
      (Hash_result bh h' = None \<or> Hash_result bh h' = Some (bh (span @ rh_Hash bh (NewRefHasher 32 count) data))) \<and>
      (bm_threads h' = [] \<longrightarrow> Hash_result bh h' \<noteq> None) \<and>
      (Hash_result bh h' \<noteq> None \<longrightarrow>
         usable (cf_depth cf - 1) (Suc n) \<lparr>tr_leaves = bm_leaves h', tr_nodes = bm_nodes h', tr_buffer = bm_buffer h'\<rparr> \<and>
         (\<forall>k < length (bm_threads h'). bm_nodes (bmt_step bh k h') = bm_nodes h'))) \<and>
    (\<exists>h'. bmt_run bh (Hash_start h) h' \<and> bm_threads h' = []) \<and>
    (\<nexists>f. f 0 = Hash_start h \<and> (\<forall>i. \<exists>k < length (bm_threads (f i)). f (Suc i) = bmt_step bh k (f i)))"
  using hasher_correct [OF assms] unfolding hash_outcome_def by blast

theorem bmt_equals_reference_witness:
  "\<exists>h'. bmt_run (\<lambda>x. take 32 (x @ replicate 32 0))
        (Hash_start (snd (bm_Write [1, 2, 3] (SetHeader [3, 0, 0, 0, 0, 0, 0, 0]
          (new_hasher (NewConf (\<lambda>x. take 32 (x @ replicate 32 0)) 32 4 1) (newTree 128 2)))))) h' \<and>
     Hash_result (\<lambda>x. take 32 (x @ replicate 32 0)) h' = Some ([3, 0, 0, 0, 0, 0, 0, 0, 1, 2, 3] @ replicate 21 0)"
proof -
  let ?bh = "\<lambda>x :: bytes. take 32 (x @ replicate 32 0)"
  let ?cf = "NewConf ?bh 32 4 1"
  let ?h0 = "SetHeader [3, 0, 0, 0, 0, 0, 0, 0] (new_hasher ?cf (newTree 128 2))"
  have sl: "size_loop 4 2 0 = (4, 1)" by (simp add: size_loop.simps)
  then have d: "cf_depth ?cf = 2" by (simp add: NewConf_def sizeToParams_def)
  have u: "usable (cf_depth ?cf - 1) 0 (newTree 128 2)" using usable_new [of 1] unfolding d by (simp del: One_nat_def flip: One_nat_def)
  have hs: "hashing ?bh ?h0 [1, 2, 3] (snd (bm_Write [1, 2, 3] ?h0))" using hashing.wrote [OF hashing.started, of ?bh ?h0 "[1, 2, 3]"] by simp
  have "rh_hash bh 64 D 128 = bh (bh (take 64 D) @ bh (drop 64 D))" for bh D
    by (subst rh_hash.simps) (simp add: Let_def rh_hash.simps [of bh 64 _ 64])
  then have "rh_Hash ?bh (NewRefHasher 32 4) [1, 2, 3] = [1, 2, 3] @ replicate 29 0"
    unfolding rh_Hash_def NewRefHasher_def sl Let_def by simp
  then have "take 32 ([3, 0, 0, 0, 0, 0, 0, 0] @ rh_Hash ?bh (NewRefHasher 32 4) [1, 2, 3] @ replicate 32 0) = [3, 0, 0, 0, 0, 0, 0, 0, 1, 2, 3] @ replicate 21 0"
    by simp
  then have dg: "?bh ([3, 0, 0, 0, 0, 0, 0, 0] @ rh_Hash ?bh (NewRefHasher 32 4) [1, 2, 3]) = [3, 0, 0, 0, 0, 0, 0, 0, 1, 2, 3] @ replicate 21 0"
    by (simp only: append_assoc)
  have "(0::nat) + 1 < 2 ^ 30" "length [3, 0, 0, 0, 0, 0, 0, 0 :: 8 word] = 8" by simp_all
  from bmt_equals_reference [OF refl u this hs, unfolded dg] show ?thesis by blast
qed

text \<open>When the counter of a node has become negative no goroutine is ever the first: a hash that arrives goes on at once, with what
  the other side held before. A counter gets there after \<open>2 ^ 31 - 1\<close> steps of a node that starts at zero.\<close>

lemma toggle_negative: "- (2 ^ 31) \<le> nd_state n \<Longrightarrow> nd_state n < 0 \<Longrightarrow> \<not> fst (toggle n)"
proof -
  assume n: "- (2 ^ 31) \<le> nd_state n" "nd_state n < 0"
  then have "i32 (nd_state n + 1) = nd_state n + 1" by (simp add: i32_def)
  then show ?thesis using n by (simp add: toggle_def Let_def) presburger
qed

lemma toggle_wraps: "nd_state n = 2 ^ 31 - 1 \<Longrightarrow> nd_state (snd (toggle n)) = - (2 ^ 31)"
  by (simp add: toggle_def Let_def i32_def)

end
