(* ===== verification/Chunks.thy ===== *)
theory Chunks
  imports BmtCorrect LoadSave
begin

text \<open>
  Content-addressed chunks (\<open>pkg/cac\<close>), single-owner chunks (\<open>pkg/soc\<close>) and the pool of hashers they share
  (\<open>pkg/bmtpool\<close>). The pool is passed along; \<open>None\<close> means that the caller waits for a hasher or for a result forever. The
  goroutines of a hasher run in one order, which by the correctness of the hasher does not matter. The base hash \<open>bh\<close>, the
  signer, \<open>crypto.Recover\<close> and \<open>crypto.NewEthereumAddress\<close> are parameters.
\<close>

section \<open>The pool of hashers\<close>

definition BmtBranches :: nat where "BmtBranches = 128"

definition pool_Capacity :: nat where "pool_Capacity = 32"

definition pool_instance :: "(bytes \<Rightarrow> bytes) \<Rightarrow> Pool" where
  "pool_instance bh = NewPool (NewConf bh HashSize BmtBranches pool_Capacity)"

definition hasher :: "(bytes \<Rightarrow> bytes) \<Rightarrow> bytes \<Rightarrow> bytes \<Rightarrow> Pool \<Rightarrow> (bytes \<times> Pool) option" where
  "hasher bh data span p =
     (case pool_Get p of
        None \<Rightarrow> None
      | Some (h, p1) \<Rightarrow>
          let h1 = bmt_exec bh (bmt_fuel (bm_conf h)) (Hash_start (snd (bm_Write data (SetHeader span h)))) in
          (case Hash_result bh h1 of
             None \<Rightarrow> None
           | Some hash \<Rightarrow> (case pool_Put h1 p1 of None \<Rightarrow> None | Some p2 \<Rightarrow> Some (hash, p2))))"

section \<open>Content-addressed chunks\<close>

datatype cac_error = errTooShortChunkData | errTooLargeChunkData

definition newWithSpan :: "(bytes \<Rightarrow> bytes) \<Rightarrow> bytes \<Rightarrow> bytes \<Rightarrow> Pool \<Rightarrow> ((cac_error + 'stamp chunk) \<times> Pool) option" where
  "newWithSpan bh data span p =
     (case hasher bh data span p of
        None \<Rightarrow> None
      | Some (hash, p1) \<Rightarrow>
          let cdata = replicate (length data + length span) 0;
              cdata1 = copy_at 0 span (take SpanSize cdata) @ drop SpanSize cdata in
          Some (Inr (NewChunk (NewAddress hash) (copy_at SpanSize data cdata1)), p1))"

definition cac_New :: "(bytes \<Rightarrow> bytes) \<Rightarrow> bytes \<Rightarrow> Pool \<Rightarrow> ((cac_error + 'stamp chunk) \<times> Pool) option" where
  "cac_New bh data p =
     (let dataLength = length data in
      if ChunkSize < dataLength then Some (Inl errTooLargeChunkData, p)
      else if dataLength = 0 then Some (Inl errTooShortChunkData, p)
      else newWithSpan bh data (le_bytes SpanSize dataLength) p)"

definition NewWithDataSpan :: "(bytes \<Rightarrow> bytes) \<Rightarrow> bytes \<Rightarrow> Pool \<Rightarrow> ((cac_error + 'stamp chunk) \<times> Pool) option" where
  "NewWithDataSpan bh data p =
     (let dataLength = length data in
      if ChunkSize + SpanSize < dataLength then Some (Inl errTooLargeChunkData, p)
      else if dataLength < SpanSize then Some (Inl errTooShortChunkData, p)
      else newWithSpan bh (drop SpanSize data) (take SpanSize data) p)"

definition cac_Valid :: "(bytes \<Rightarrow> bytes) \<Rightarrow> 'stamp chunk \<Rightarrow> Pool \<Rightarrow> (bool \<times> Pool) option" where
  "cac_Valid bh c p =
     (let data = ch_sdata c in
      if length data < SpanSize then Some (False, p)
      else if ChunkSize + SpanSize < length data then Some (False, p)
      else (case hasher bh (drop SpanSize data) (take SpanSize data) p of
              None \<Rightarrow> None
            | Some (hash, p1) \<Rightarrow> Some (hash = ch_addr c, p1)))"

section \<open>Single-owner chunks\<close>

definition IdSize :: nat where "IdSize = 32"
definition soc_SignatureSize :: nat where "soc_SignatureSize = 65"
definition minChunkSize :: nat where "minChunkSize = IdSize + soc_SignatureSize + SpanSize"
definition AddressSize :: nat where "AddressSize = 20"

datatype 'e soc_error = errInvalidAddress | errWrongChunkSize | CacError cac_error | SocCryptoErr 'e

record 'stamp SOC =
  so_id :: bytes
  so_owner :: bytes
  so_signature :: bytes
  so_chunk :: "'stamp chunk"

record ('pk, 'e) Signer =
  sg_PublicKey :: "'e + 'pk"
  sg_Sign :: "bytes \<Rightarrow> 'e + bytes"

definition soc_New :: "bytes \<Rightarrow> 'stamp chunk \<Rightarrow> 'stamp SOC" where
  "soc_New i ch = \<lparr>so_id = i, so_owner = [], so_signature = [], so_chunk = ch\<rparr>"

definition NewSigned :: "bytes \<Rightarrow> 'stamp chunk \<Rightarrow> bytes \<Rightarrow> bytes \<Rightarrow> 'e soc_error + 'stamp SOC" where
  "NewSigned i ch owner sig =
     (let s = soc_New i ch in
      if length owner \<noteq> AddressSize then Inl errInvalidAddress else Inr (s\<lparr>so_owner := owner, so_signature := sig\<rparr>))"

definition soc_hash :: "(bytes \<Rightarrow> bytes) \<Rightarrow> bytes list \<Rightarrow> bytes" where
  "soc_hash bh values = bh (concat values)"

definition CreateAddress :: "(bytes \<Rightarrow> bytes) \<Rightarrow> bytes \<Rightarrow> bytes \<Rightarrow> Address" where
  "CreateAddress bh i owner = NewAddress (soc_hash bh [i, owner])"

definition soc_address :: "(bytes \<Rightarrow> bytes) \<Rightarrow> 'stamp SOC \<Rightarrow> 'e soc_error + Address" where
  "soc_address bh s =
     (if length (so_owner s) \<noteq> AddressSize then Inl errInvalidAddress else Inr (CreateAddress bh (so_id s) (so_owner s)))"

definition soc_toBytes :: "'stamp SOC \<Rightarrow> bytes" where
  "soc_toBytes s = so_id s @ so_signature s @ ch_sdata (so_chunk s)"

definition soc_Chunk :: "(bytes \<Rightarrow> bytes) \<Rightarrow> 'stamp SOC \<Rightarrow> 'e soc_error + 'stamp chunk" where
  "soc_Chunk bh s = (case soc_address bh s of Inl e \<Rightarrow> Inl e | Inr a \<Rightarrow> Inr (NewChunk a (soc_toBytes s)))"

text \<open>\<open>Sign\<close> sets the owner and the signature of the receiver, also when it fails later.\<close>

definition soc_Sign ::
  "(bytes \<Rightarrow> bytes) \<Rightarrow> ('pk \<Rightarrow> 'e + bytes) \<Rightarrow> ('pk, 'e) Signer \<Rightarrow> 'stamp SOC \<Rightarrow> ('e soc_error + 'stamp chunk) \<times> 'stamp SOC" where
  "soc_Sign bh ethAddr signer s =
     (case sg_PublicKey signer of
        Inl e \<Rightarrow> (Inl (SocCryptoErr e), s)
      | Inr publicKey \<Rightarrow>
         (case ethAddr publicKey of
            Inl e \<Rightarrow> (Inl (SocCryptoErr e), s)
          | Inr ownerAddressBytes \<Rightarrow>
              if length ownerAddressBytes \<noteq> AddressSize then (Inl errInvalidAddress, s)
              else
                let s1 = s\<lparr>so_owner := ownerAddressBytes\<rparr>;
                    toSignBytes = soc_hash bh [so_id s1, ch_addr (so_chunk s1)] in
                (case sg_Sign signer toSignBytes of
                   Inl e \<Rightarrow> (Inl (SocCryptoErr e), s1)
                 | Inr signature \<Rightarrow> let s2 = s1\<lparr>so_signature := signature\<rparr> in (soc_Chunk bh s2, s2))))"

definition recoverAddress ::
  "(bytes \<Rightarrow> bytes \<Rightarrow> 'e + 'pk) \<Rightarrow> ('pk \<Rightarrow> 'e + bytes) \<Rightarrow> bytes \<Rightarrow> bytes \<Rightarrow> 'e + bytes" where
  "recoverAddress recover ethAddr signature digest =
     (case recover signature digest of Inl e \<Rightarrow> Inl e | Inr recoveredPublicKey \<Rightarrow> ethAddr recoveredPublicKey)"

definition FromChunk ::
  "(bytes \<Rightarrow> bytes) \<Rightarrow> (bytes \<Rightarrow> bytes \<Rightarrow> 'e + 'pk) \<Rightarrow> ('pk \<Rightarrow> 'e + bytes) \<Rightarrow> 'stamp chunk \<Rightarrow> Pool \<Rightarrow>
     (('e soc_error + 'stamp SOC) \<times> Pool) option" where
  "FromChunk bh recover ethAddr sch p =
     (let chunkData = ch_sdata sch in
      if length chunkData < minChunkSize then Some (Inl errWrongChunkSize, p)
      else
        let i = take IdSize chunkData;
            signature = take soc_SignatureSize (drop IdSize chunkData) in
        (case NewWithDataSpan bh (drop (IdSize + soc_SignatureSize) chunkData) p of
           None \<Rightarrow> None
         | Some (Inl e, p1) \<Rightarrow> Some (Inl (CacError e), p1)
         | Some (Inr ch, p1) \<Rightarrow>
            (case recoverAddress recover ethAddr signature (soc_hash bh [i, ch_addr ch]) of
               Inl e \<Rightarrow> Some (Inl (SocCryptoErr e), p1)
             | Inr recoveredOwnerAddress \<Rightarrow>
                 if length recoveredOwnerAddress \<noteq> AddressSize then Some (Inl errInvalidAddress, p1)
                 else Some (Inr \<lparr>so_id = i, so_owner = recoveredOwnerAddress, so_signature = signature, so_chunk = ch\<rparr>, p1))))"

definition soc_Valid ::
  "(bytes \<Rightarrow> bytes) \<Rightarrow> (bytes \<Rightarrow> bytes \<Rightarrow> 'e + 'pk) \<Rightarrow> ('pk \<Rightarrow> 'e + bytes) \<Rightarrow> 'stamp chunk \<Rightarrow> Pool \<Rightarrow> (bool \<times> Pool) option" where
  "soc_Valid bh recover ethAddr ch p =
     (case FromChunk bh recover ethAddr ch p of
        None \<Rightarrow> None
      | Some (Inl e, p1) \<Rightarrow> Some (False, p1)
      | Some (Inr s, p1) \<Rightarrow>
         (case (soc_address bh s :: 'e soc_error + Address) of
            Inl e \<Rightarrow> Some (False, p1)
          | Inr address \<Rightarrow> Some (addr_Equal (ch_addr ch) address, p1)))"

section \<open>Hashing with the pool\<close>

definition bmt_hash :: "(bytes \<Rightarrow> bytes) \<Rightarrow> bytes \<Rightarrow> bytes \<Rightarrow> bytes" where
  "bmt_hash bh span data = bh (span @ rh_Hash bh (NewRefHasher 32 128) data)"

text \<open>A pool with trees that were used at most \<open>n\<close> times.\<close>

definition pool_ok :: "(bytes \<Rightarrow> bytes) \<Rightarrow> nat \<Rightarrow> Pool \<Rightarrow> bool" where
  "pool_ok bh n p \<longleftrightarrow>
     pl_conf p = NewConf bh 32 128 32 \<and> pl_c p \<noteq> [] \<and> length (pl_c p) \<le> 32 \<and> (\<forall>t \<in> set (pl_c p). usable (cf_depth (pl_conf p) - 1) n t)"

lemma usable_mono: "usable m n t \<Longrightarrow> n \<le> k \<Longrightarrow> usable m k t"
  unfolding usable_def by fastforce

lemma pool_instance_ok: "pool_ok bh 0 (pool_instance bh)"
proof -
  obtain m where "cf_depth (NewConf bh 32 128 32) = Suc m" "conf_ok bh m (NewConf bh 32 128 32)" by (rule conf_params)
  then show ?thesis using usable_new [of m]
    by (simp add: pool_ok_def pool_instance_def NewPool_def HashSize_def BmtBranches_def pool_Capacity_def conf_ok_def)
      (simp add: NewConf_def split: prod.splits)
qed

lemma hasher_ok:
  assumes p: "pool_ok bh n p" and n: "n + 1 < 2 ^ 30" and span: "length span = 8"
  obtains p' where "hasher bh data span p = Some (bmt_hash bh span data, p')" and "pool_ok bh (Suc n) p'"
proof -
  obtain t ts where ts: "pl_c p = t # ts" using p by (cases "pl_c p") (auto simp: pool_ok_def)
  let ?cf = "NewConf bh 32 128 32"
  let ?h = "snd (bm_Write data (SetHeader span (new_hasher ?cf t)))"
  let ?h1 = "bmt_exec bh (bmt_fuel ?cf) (Hash_start ?h)"
  have t: "usable (cf_depth ?cf - 1) n t" "\<forall>u \<in> set ts. usable (cf_depth ?cf - 1) n u" and cf: "pl_conf p = ?cf" and len: "Suc (length ts) \<le> 32"
    using p ts by (auto simp: pool_ok_def)
  have hs: "hashing bh (SetHeader span (new_hasher ?cf t)) data ?h" using hashing.wrote [OF hashing.started, of bh _ data] by simp
  note c = hasher_correct [OF refl t(1) n span hs]
  have o: "Hash_result bh ?h1 = Some (bmt_hash bh span data)"
    "usable (cf_depth ?cf - 1) (Suc n) \<lparr>tr_leaves = bm_leaves ?h1, tr_nodes = bm_nodes ?h1, tr_buffer = bm_buffer ?h1\<rparr>"
    using c(1) [OF c(2)] c(3) unfolding hash_outcome_def bmt_hash_def by auto
  have cap: "cf_capacity ?cf = 32" by (simp add: NewConf_def split: prod.splits)
  let ?p' = "p\<lparr>pl_c := ts @ [\<lparr>tr_leaves = bm_leaves ?h1, tr_nodes = bm_nodes ?h1, tr_buffer = bm_buffer ?h1\<rparr>]\<rparr>"
  have bc: "bm_conf (new_hasher ?cf t) = ?cf" by (simp add: new_hasher_def)
  have "hasher bh data span p = Some (bmt_hash bh span data, ?p')"
    using len by (simp add: hasher_def pool_Get_def ts cf o(1) pool_Put_def cap Let_def bc)
  moreover have "pool_ok bh (Suc n) ?p'" using o(2) t(2) len cf usable_mono [of _ n _ "Suc n"] by (auto simp: pool_ok_def)
  ultimately show thesis by (rule that)
qed

lemma newWithSpan_ok:
  assumes p: "pool_ok bh n p" and n: "n + 1 < 2 ^ 30" and span: "length span = 8"
  obtains p' where "newWithSpan bh data span p = Some (Inr (NewChunk (bmt_hash bh span data) (span @ data)), p')" and "pool_ok bh (Suc n) p'"
proof -
  obtain p' where p': "hasher bh data span p = Some (bmt_hash bh span data, p')" "pool_ok bh (Suc n) p'" by (rule hasher_ok [OF assms])
  have "newWithSpan bh data span p = Some (Inr (NewChunk (bmt_hash bh span data) (span @ data)), p')"
    using span p'(1) by (simp add: newWithSpan_def copy_at_def SpanSize_def NewAddress_def Let_def)
  then show thesis using p'(2) by (rule that)
qed

section \<open>Chunks by content\<close>

lemma pool_ok_mono: "pool_ok bh n p \<Longrightarrow> n \<le> k \<Longrightarrow> pool_ok bh k p"
  using usable_mono by (auto simp: pool_ok_def)

definition content_chunk :: "(bytes \<Rightarrow> bytes) \<Rightarrow> 'stamp chunk \<Rightarrow> bool" where
  "content_chunk bh c \<longleftrightarrow> (\<exists>span data. ch_sdata c = span @ data \<and> length span = 8 \<and> length data \<le> 4096 \<and> ch_addr c = bmt_hash bh span data)"

lemma content_chunk_iff:
  "content_chunk bh c \<longleftrightarrow> 8 \<le> length (ch_sdata c) \<and> length (ch_sdata c) \<le> 4104 \<and> ch_addr c = bmt_hash bh (take 8 (ch_sdata c)) (drop 8 (ch_sdata c))"
proof
  assume "8 \<le> length (ch_sdata c) \<and> length (ch_sdata c) \<le> 4104 \<and> ch_addr c = bmt_hash bh (take 8 (ch_sdata c)) (drop 8 (ch_sdata c))"
  then show "content_chunk bh c"
    unfolding content_chunk_def by (rule_tac x = "take 8 (ch_sdata c)" in exI, rule_tac x = "drop 8 (ch_sdata c)" in exI)
      (simp, linarith)
qed (auto simp: content_chunk_def)

lemma NewWithDataSpan_ok:
  assumes p: "pool_ok bh n p" and n: "n + 1 < 2 ^ 30"
  obtains p' where "pool_ok bh (Suc n) p'" and "NewWithDataSpan bh data p =
    Some (if 4104 < length data then Inl errTooLargeChunkData else if length data < 8 then Inl errTooShortChunkData
          else Inr (NewChunk (bmt_hash bh (take 8 data) (drop 8 data)) data :: 'stamp chunk), p')"
proof (cases "8 \<le> length data \<and> length data \<le> 4104")
  case True
  then have l: "length (take 8 data) = 8" by simp
  obtain p' where "newWithSpan bh (drop 8 data) (take 8 data) p =
      Some (Inr (NewChunk (bmt_hash bh (take 8 data) (drop 8 data)) (take 8 data @ drop 8 data) :: 'stamp chunk), p')"
    "pool_ok bh (Suc n) p'" by (rule newWithSpan_ok [OF p n l])
  then show thesis using True that by (simp add: NewWithDataSpan_def ChunkSize_def SectionSize_def Branches_def SpanSize_def)
next
  case False
  then show thesis using that [OF pool_ok_mono [OF p]]
    by (auto simp: NewWithDataSpan_def ChunkSize_def SectionSize_def Branches_def SpanSize_def)
qed

text \<open>C28. A chunk passes \<open>Valid\<close> exactly when its data is a span and at most 4096 bytes and its address is the reference hash of
  them. \<open>New\<close> refuses data that is empty or too large and otherwise makes such a chunk. A pool of hashers is as good afterwards.\<close>

theorem content_chunks_valid:
  fixes c :: "'stamp chunk"
  assumes "pool_ok bh n p" and "n + 1 < 2 ^ 30"
  shows "(\<exists>p'. cac_Valid bh c p = Some (content_chunk bh c, p') \<and> pool_ok bh (Suc n) p') \<and>
    (\<exists>p'. pool_ok bh (Suc n) p' \<and> cac_New bh data p =
       Some (if 4096 < length data then Inl errTooLargeChunkData else if data = [] then Inl errTooShortChunkData
             else Inr (NewChunk (bmt_hash bh (le_bytes 8 (length data)) data) (le_bytes 8 (length data) @ data) :: 'stamp chunk), p')) \<and>
    (data \<noteq> [] \<longrightarrow> length data \<le> 4096 \<longrightarrow>
       content_chunk bh (NewChunk (bmt_hash bh (le_bytes 8 (length data)) data) (le_bytes 8 (length data) @ data) :: 'stamp chunk))"
proof (intro conjI impI)
  let ?d = "ch_sdata c"
  show "\<exists>p'. cac_Valid bh c p = Some (content_chunk bh c, p') \<and> pool_ok bh (Suc n) p'"
  proof (cases "8 \<le> length ?d \<and> length ?d \<le> 4104")
    case True
    then have l: "length (take 8 ?d) = 8" by simp
    obtain p' where "hasher bh (drop 8 ?d) (take 8 ?d) p = Some (bmt_hash bh (take 8 ?d) (drop 8 ?d), p')" "pool_ok bh (Suc n) p'"
      by (rule hasher_ok [OF assms l])
    then show ?thesis using True by (auto simp: cac_Valid_def content_chunk_iff ChunkSize_def SectionSize_def Branches_def SpanSize_def Let_def)
  next
    case False
    then show ?thesis using pool_ok_mono [OF assms(1), of "Suc n"]
      by (auto simp: cac_Valid_def content_chunk_iff ChunkSize_def SectionSize_def Branches_def SpanSize_def)
  qed
  obtain p' where "newWithSpan bh data (le_bytes 8 (length data)) p =
    Some (Inr (NewChunk (bmt_hash bh (le_bytes 8 (length data)) data) (le_bytes 8 (length data) @ data)) :: _ + 'stamp chunk, p')" "pool_ok bh (Suc n) p'"
    by (rule newWithSpan_ok [OF assms length_le_bytes])
  then show "\<exists>p'. pool_ok bh (Suc n) p' \<and> cac_New bh data p =
       Some (if 4096 < length data then Inl errTooLargeChunkData else if data = [] then Inl errTooShortChunkData
             else Inr (NewChunk (bmt_hash bh (le_bytes 8 (length data)) data) (le_bytes 8 (length data) @ data) :: 'stamp chunk), p')"
    using pool_ok_mono [OF assms(1), of "Suc n"] by (auto simp: cac_New_def ChunkSize_def SectionSize_def Branches_def SpanSize_def)
next
  assume "data \<noteq> []" "length data \<le> 4096"
  then show "content_chunk bh (NewChunk (bmt_hash bh (le_bytes 8 (length data)) data) (le_bytes 8 (length data) @ data) :: 'stamp chunk)"
    unfolding content_chunk_def by (intro exI [of _ "le_bytes 8 (length data)"] exI [of _ data]) (simp add: NewChunk_def)
qed

section \<open>Chunks with an owner\<close>

lemma FromChunk_split:
  fixes ch :: "'stamp chunk"
  assumes p: "pool_ok bh n p" and n: "n + 1 < 2 ^ 30"
    and d: "ch_sdata ch = i @ sig @ span @ data" "length i = 32" "length sig = 65" "length span = 8" "length data \<le> 4096"
  obtains p' where "pool_ok bh (Suc n) p'" and "FromChunk bh recover ethAddr ch p =
    Some (case recoverAddress recover ethAddr sig (bh (i @ bmt_hash bh span data)) of
            Inl e \<Rightarrow> Inl (SocCryptoErr e)
          | Inr owner \<Rightarrow> if length owner = 20
              then Inr \<lparr>so_id = i, so_owner = owner, so_signature = sig, so_chunk = NewChunk (bmt_hash bh span data) (span @ data)\<rparr>
              else Inl errInvalidAddress, p')"
proof -
  obtain p' where p': "pool_ok bh (Suc n) p'" "NewWithDataSpan bh (span @ data) p = Some (Inr (NewChunk (bmt_hash bh span data) (span @ data) :: 'stamp chunk), p')"
    using d by (rule_tac NewWithDataSpan_ok [OF p n, of "span @ data"]) simp
  have split: "take 32 (ch_sdata ch) = i" "take 65 (drop 32 (ch_sdata ch)) = sig" "drop 97 (ch_sdata ch) = span @ data" "\<not> length (ch_sdata ch) < 105"
    using d by simp_all
  show thesis
    by (rule that [OF p'(1)])
      (use split p'(2) in \<open>simp add: FromChunk_def minChunkSize_def IdSize_def soc_SignatureSize_def SpanSize_def AddressSize_def
        soc_hash_def NewChunk_def Let_def split: sum.splits\<close>)
qed

lemma FromChunk_sizes:
  assumes "FromChunk bh recover ethAddr ch p = Some (Inr s, p')"
  obtains i sig span data where "ch_sdata ch = i @ sig @ span @ data" "length i = 32" "length sig = 65" "length span = 8" "length data \<le> 4096"
proof -
  let ?d = "ch_sdata ch"
  have "minChunkSize = 105" by (simp add: minChunkSize_def IdSize_def soc_SignatureSize_def SpanSize_def)
  then have "105 \<le> length ?d" "length ?d \<le> 97 + 4104"
    using assms by (auto simp: FromChunk_def NewWithDataSpan_def IdSize_def soc_SignatureSize_def SpanSize_def
        ChunkSize_def SectionSize_def Branches_def Let_def split: if_splits option.splits prod.splits sum.splits)
  then have "length (take 32 ?d) = 32" "length (take 65 (drop 32 ?d)) = 65" "length (take 8 (drop 97 ?d)) = 8" "length (drop 105 ?d) \<le> 4096"
    by (simp_all add: min_def) linarith+
  moreover have "?d = take 32 ?d @ take 65 (drop 32 ?d) @ take 8 (drop 97 ?d) @ drop 105 ?d"
  proof -
    have "drop 97 ?d = take 8 (drop 97 ?d) @ drop 105 ?d" using append_take_drop_id [of 8 "drop 97 ?d"] by simp
    moreover have "drop 32 ?d = take 65 (drop 32 ?d) @ drop 97 ?d" using append_take_drop_id [of 65 "drop 32 ?d"] by simp
    ultimately show ?thesis using append_take_drop_id [of 32 ?d] by metis
  qed
  ultimately show thesis by (intro that)
qed

text \<open>What a single-owner chunk promises: the address is made of the identifier and the owner, and the owner has signed the identifier
  together with the address of the wrapped chunk.\<close>

definition owned_chunk :: "(bytes \<Rightarrow> bytes) \<Rightarrow> (bytes \<Rightarrow> bytes \<Rightarrow> 'e + 'pk) \<Rightarrow> ('pk \<Rightarrow> 'e + bytes) \<Rightarrow> 'stamp chunk \<Rightarrow> bool" where
  "owned_chunk bh recover ethAddr ch \<longleftrightarrow>
     (\<exists>i sig span data pk owner. ch_sdata ch = i @ sig @ span @ data \<and> length i = 32 \<and> length sig = 65 \<and> length span = 8 \<and>
        length data \<le> 4096 \<and> recover sig (bh (i @ bmt_hash bh span data)) = Inr pk \<and> ethAddr pk = Inr owner \<and> length owner = 20 \<and>
        ch_addr ch = bh (i @ owner))"

text \<open>C29. A chunk passes \<open>Valid\<close> exactly when its owner, recovered from the signature over the identifier and the wrapped chunk,
  and its identifier give its address; nobody else can make a chunk for that address without a signature of the owner.\<close>

theorem owned_chunks_valid:
  fixes recover :: "bytes \<Rightarrow> bytes \<Rightarrow> 'e + 'pk" and ch :: "'stamp chunk"
  assumes "pool_ok bh n p" and "n + 1 < 2 ^ 30"
  shows "\<exists>p'. soc_Valid bh recover ethAddr ch p = Some (owned_chunk bh recover ethAddr ch, p') \<and> pool_ok bh (Suc n) p'"
proof (cases "\<exists>i sig span data. ch_sdata ch = i @ sig @ span @ data \<and> length i = 32 \<and> length sig = 65 \<and> length span = 8 \<and> length data \<le> 4096")
  case True
  then obtain i sig span data where d: "ch_sdata ch = i @ sig @ span @ data" "length i = 32" "length sig = 65" "length span = 8" "length data \<le> 4096"
    by blast
  obtain p' where p': "pool_ok bh (Suc n) p'" and fc: "FromChunk bh recover ethAddr ch p =
    Some (case recoverAddress recover ethAddr sig (bh (i @ bmt_hash bh span data)) of
            Inl e \<Rightarrow> Inl (SocCryptoErr e)
          | Inr owner \<Rightarrow> if length owner = 20
              then Inr \<lparr>so_id = i, so_owner = owner, so_signature = sig, so_chunk = NewChunk (bmt_hash bh span data) (span @ data)\<rparr>
              else Inl errInvalidAddress, p')"
    by (rule FromChunk_split [OF assms d])
  have "i' = i \<and> sig' = sig \<and> span' = span \<and> data' = data"
    if "ch_sdata ch = i' @ sig' @ span' @ data'" "length i' = 32" "length sig' = 65" "length span' = 8" for i' sig' span' data'
    using that d by simp
  then have "owned_chunk bh recover ethAddr ch \<longleftrightarrow>
      (\<exists>pk owner. recover sig (bh (i @ bmt_hash bh span data)) = Inr pk \<and> ethAddr pk = Inr owner \<and> length owner = 20 \<and> ch_addr ch = bh (i @ owner))"
    unfolding owned_chunk_def using d by blast
  then show ?thesis using p' fc
    by (auto simp: soc_Valid_def recoverAddress_def soc_address_def CreateAddress_def soc_hash_def NewAddress_def addr_Equal_def AddressSize_def
        split: sum.splits)
next
  case False
  then have no: "\<not> owned_chunk bh recover ethAddr ch" by (auto simp: owned_chunk_def)
  have "FromChunk bh recover ethAddr ch p \<noteq> Some (Inr s, p')" for s p' using FromChunk_sizes False by metis
  moreover obtain r p' where "FromChunk bh recover ethAddr ch p = Some (r, p')" "pool_ok bh (Suc n) p'"
  proof -
    obtain p' where p': "pool_ok bh (Suc n) p'" "NewWithDataSpan bh (drop 97 (ch_sdata ch)) p =
      Some (if 4104 < length (drop 97 (ch_sdata ch)) then Inl errTooLargeChunkData else if length (drop 97 (ch_sdata ch)) < 8 then Inl errTooShortChunkData
          else Inr (NewChunk (bmt_hash bh (take 8 (drop 97 (ch_sdata ch))) (drop 8 (drop 97 (ch_sdata ch)))) (drop 97 (ch_sdata ch))) :: _ + 'stamp chunk, p')"
      by (rule NewWithDataSpan_ok [OF assms])
    show thesis
    proof (cases "length (ch_sdata ch) < minChunkSize")
      case True
      then show thesis using that [OF _ pool_ok_mono [OF assms(1)]] by (simp add: FromChunk_def)
    next
      case F: False
      have "\<exists>r. FromChunk bh recover ethAddr ch p = Some (r, p')"
        using F p'(2) by (auto simp: FromChunk_def Let_def IdSize_def soc_SignatureSize_def split: option.splits sum.splits)
      then show thesis using that p'(1) by blast
    qed
  qed
  ultimately show ?thesis using no by (cases r) (auto simp: soc_Valid_def)
qed

text \<open>C30. A signed chunk reads back: the chunk that \<open>Sign\<close> makes has the owner's address, passes \<open>Valid\<close>, and \<open>FromChunk\<close> recovers
  from it the identifier, the owner, the signature and the wrapped chunk.\<close>

theorem signed_chunk_reads_back:
  fixes w :: "'stamp chunk" and recover :: "bytes \<Rightarrow> bytes \<Rightarrow> 'e + 'pk"
  assumes p: "pool_ok bh n p" and n: "n + 1 < 2 ^ 30" and i: "length i = 32"
    and w: "w = NewChunk (bmt_hash bh span data) (span @ data)" "length span = 8" "length data \<le> 4096"
    and signer: "sg_PublicKey signer = Inr pk" "ethAddr pk = Inr owner" "length owner = 20"
    and sign: "\<And>digest. \<exists>sig. sg_Sign signer digest = Inr sig \<and> length sig = 65 \<and> recover sig digest = Inr pk"
  shows "\<exists>ch s p'. soc_Sign bh ethAddr signer (soc_New i w) = (Inr ch, s) \<and> so_id s = i \<and> so_owner s = owner \<and> so_chunk s = w \<and>
    ch_addr ch = CreateAddress bh i owner \<and> FromChunk bh recover ethAddr ch p = Some (Inr s, p') \<and>
    soc_Valid bh recover ethAddr ch p = Some (True, p') \<and> pool_ok bh (Suc n) p'"
proof -
  obtain sig where sig: "sg_Sign signer (bh (i @ bmt_hash bh span data)) = Inr sig" "length sig = 65" "recover sig (bh (i @ bmt_hash bh span data)) = Inr pk"
    using sign by blast
  let ?s = "\<lparr>so_id = i, so_owner = owner, so_signature = sig, so_chunk = w\<rparr>"
  let ?ch = "NewChunk (CreateAddress bh i owner) (i @ sig @ span @ data) :: 'stamp chunk"
  have signed: "soc_Sign bh ethAddr signer (soc_New i w) = (Inr ?ch, ?s)"
    using signer sig(1) by (simp add: soc_Sign_def soc_New_def AddressSize_def soc_hash_def w(1) NewChunk_def soc_Chunk_def soc_address_def soc_toBytes_def)
  have d: "ch_sdata ?ch = i @ sig @ span @ data" by (simp add: NewChunk_def)
  obtain p' where p': "pool_ok bh (Suc n) p'" and fc: "FromChunk bh recover ethAddr ?ch p =
    Some (case recoverAddress recover ethAddr sig (bh (i @ bmt_hash bh span data)) of
            Inl e \<Rightarrow> Inl (SocCryptoErr e)
          | Inr owner \<Rightarrow> if length owner = 20
              then Inr \<lparr>so_id = i, so_owner = owner, so_signature = sig, so_chunk = NewChunk (bmt_hash bh span data) (span @ data)\<rparr>
              else Inl errInvalidAddress, p')"
    by (rule FromChunk_split [OF p n d i sig(2) w(2,3)])
  have "FromChunk bh recover ethAddr ?ch p = Some (Inr ?s, p')" using fc sig(3) signer(2,3) w(1) by (simp add: recoverAddress_def)
  moreover from this have "soc_Valid bh recover ethAddr ?ch p = Some (True, p')"
    using signer(3) by (simp add: soc_Valid_def soc_address_def AddressSize_def addr_Equal_def NewChunk_def)
  ultimately show ?thesis using signed p' by (intro exI [of _ ?ch] exI [of _ ?s] exI [of _ p']) (simp add: NewChunk_def)
qed

section \<open>The hash of the pipeline\<close>

text \<open>The hash that the writers of a pipeline are given: the one of the hashers.\<close>

lemma bmt_hash_ok: "(\<And>x. length (bh x) = 32) \<Longrightarrow> hash_ok (\<lambda>span data. Inr (bmt_hash bh span data))"
  by (simp add: hash_ok_def bmt_hash_def)

section \<open>Examples\<close>

text \<open>A hash that cuts its argument; a signature repeats the digest.\<close>

definition cut_hash :: "bytes \<Rightarrow> bytes" where
  "cut_hash x = take 32 (x @ replicate 32 0)"

definition echo_signer :: "(unit, unit) Signer" where
  "echo_signer = \<lparr>sg_PublicKey = Inr (), sg_Sign = \<lambda>digest. Inr (take 65 (digest @ replicate 65 0))\<rparr>"

definition echo_ethAddr :: "unit \<Rightarrow> unit + bytes" where
  "echo_ethAddr _ = Inr (replicate 20 7)"

lemma first_use: "(0::nat) + 1 < 2 ^ 30"
  by simp

theorem content_chunks_valid_witness:
  "\<exists>p'. cac_New cut_hash [1, 2] (pool_instance cut_hash) =
     Some (Inr (NewChunk (bmt_hash cut_hash (le_bytes 8 2) [1, 2]) (le_bytes 8 2 @ [1, 2]) :: unit chunk), p')"
proof -
  have "length [1, 2 :: 8 word] = 2" "\<not> 4096 < (2::nat)" "[1, 2 :: 8 word] \<noteq> []" by simp_all
  then show ?thesis using content_chunks_valid [OF pool_instance_ok first_use, of cut_hash "NewChunk [] [] :: unit chunk" "[1, 2]"] by (simp only: if_False) blast
qed

theorem owned_chunks_valid_witness:
  "\<exists>p'. soc_Valid cut_hash (\<lambda>_ _. Inr ()) echo_ethAddr
      (NewChunk (cut_hash (replicate 32 5 @ replicate 20 7)) (replicate 32 5 @ replicate 65 0 @ replicate 8 0) :: unit chunk) (pool_instance cut_hash) = Some (True, p')"
proof -
  have "owned_chunk cut_hash (\<lambda>_ _. Inr ()) echo_ethAddr
      (NewChunk (cut_hash (replicate 32 5 @ replicate 20 7)) (replicate 32 5 @ replicate 65 0 @ replicate 8 0) :: unit chunk)"
    unfolding owned_chunk_def
    by (intro exI [of _ "replicate 32 5"] exI [of _ "replicate 65 0"] exI [of _ "replicate 8 0"] exI [of _ "[]"] exI [of _ "()"] exI [of _ "replicate 20 7"])
      (simp add: NewChunk_def echo_ethAddr_def)
  then show ?thesis using owned_chunks_valid [OF pool_instance_ok first_use, of cut_hash "\<lambda>_ _. Inr ()" echo_ethAddr
        "NewChunk (cut_hash (replicate 32 5 @ replicate 20 7)) (replicate 32 5 @ replicate 65 0 @ replicate 8 0) :: unit chunk"] by auto
qed

theorem signed_chunk_reads_back_witness:
  "\<exists>ch s p'. soc_Sign cut_hash echo_ethAddr echo_signer (soc_New (replicate 32 5) (NewChunk (bmt_hash cut_hash (replicate 8 0) [1]) (replicate 8 0 @ [1]) :: unit chunk)) = (Inr ch, s) \<and>
     FromChunk cut_hash (\<lambda>_ _. Inr ()) echo_ethAddr ch (pool_instance cut_hash) = Some (Inr s, p')"
proof -
  have sg: "\<exists>sig. sg_Sign echo_signer digest = Inr sig \<and> length sig = 65 \<and> (\<lambda>_ _. Inr ()) sig digest = (Inr () :: unit + unit)" for digest
    by (simp add: echo_signer_def)
  show ?thesis
    using signed_chunk_reads_back [OF pool_instance_ok first_use, where bh = cut_hash and i = "replicate 32 5" and span = "replicate 8 0" and data = "[1]"
        and signer = echo_signer and ethAddr = echo_ethAddr and owner = "replicate 20 7" and recover = "\<lambda>_ _. Inr ()"
        and w = "NewChunk (bmt_hash cut_hash (replicate 8 0) [1]) (replicate 8 0 @ [1]) :: unit chunk"] sg
    by (fastforce simp: echo_signer_def echo_ethAddr_def)
qed

end
