(* ===== verification/Shed.thy ===== *)
theory Shed
  imports Postage "HOL-Library.AList"
begin

text \<open>
  \<open>pkg/shed\<close>: fields and indexes over LevelDB. LevelDB is third-party code: a value of the type \<open>LevelDB\<close>, with its documented
  behaviour as the laws of the locale \<open>level_db\<close> (a batch is written as a whole, in order; an iterator walks a snapshot in the
  order of the keys). Wrapping an error with \<open>%w\<close> keeps what \<open>errors.Is\<close> sees, so errors are passed on as they are. \<open>sh_Panic\<close> is
  a slice expression out of range: it ends the operation as an error does. Metrics are left out.
\<close>

section \<open>LevelDB\<close>

datatype sh_error = sh_NotFound | sh_Err string | sh_Panic

datatype bop = BPut bytes bytes | BDel bytes

type_synonym LBatch = "bop list"

text \<open>\<open>ld_Entries\<close> is what an iterator without a range yields: the entries and the error it ends with.\<close>

record 's LevelDB =
  ld_Get :: "bytes \<Rightarrow> 's \<Rightarrow> sh_error + bytes"
  ld_Has :: "bytes \<Rightarrow> 's \<Rightarrow> sh_error + bool"
  ld_Put :: "bytes \<Rightarrow> bytes \<Rightarrow> 's \<Rightarrow> sh_error + 's"
  ld_Delete :: "bytes \<Rightarrow> 's \<Rightarrow> sh_error + 's"
  ld_Write :: "LBatch \<Rightarrow> 's \<Rightarrow> sh_error + 's"
  ld_Snapshot :: "'s \<Rightarrow> sh_error option"
  ld_Entries :: "'s \<Rightarrow> (bytes \<times> bytes) list \<times> sh_error option"

section \<open>Items\<close>

text \<open>A nil slice and an empty one differ for \<open>Merge\<close> in the address and the data. Signed timestamps are kept as their bits.\<close>

record Item =
  it_Address :: "bytes option"
  it_Data :: "bytes option"
  it_AccessTimestamp :: u64
  it_StoreTimestamp :: u64
  it_BinID :: u64
  it_PinCounter :: u64
  it_Tag :: u32
  it_BatchID :: bytes
  it_Index :: bytes
  it_Timestamp :: bytes
  it_Sig :: bytes
  it_BucketDepth :: u8
  it_Depth :: u8
  it_Radius :: u8
  it_Immutable :: bool

definition zero_item :: Item where
  "zero_item = \<lparr>it_Address = None, it_Data = None, it_AccessTimestamp = 0, it_StoreTimestamp = 0, it_BinID = 0, it_PinCounter = 0,
     it_Tag = 0, it_BatchID = [], it_Index = [], it_Timestamp = [], it_Sig = [], it_BucketDepth = 0, it_Depth = 0, it_Radius = 0,
     it_Immutable = False\<rparr>"

definition slice_of :: "bytes option \<Rightarrow> bytes" where
  "slice_of x = (case x of None \<Rightarrow> [] | Some b \<Rightarrow> b)"

lemma slice_of_simps [simp]: "slice_of None = []" "slice_of (Some b) = b"
  by (simp_all add: slice_of_def)

definition it_Merge :: "Item \<Rightarrow> Item \<Rightarrow> Item" where
  "it_Merge i i2 =
     \<lparr>it_Address = (if it_Address i = None then it_Address i2 else it_Address i),
      it_Data = (if it_Data i = None then it_Data i2 else it_Data i),
      it_AccessTimestamp = (if it_AccessTimestamp i = 0 then it_AccessTimestamp i2 else it_AccessTimestamp i),
      it_StoreTimestamp = (if it_StoreTimestamp i = 0 then it_StoreTimestamp i2 else it_StoreTimestamp i),
      it_BinID = (if it_BinID i = 0 then it_BinID i2 else it_BinID i),
      it_PinCounter = (if it_PinCounter i = 0 then it_PinCounter i2 else it_PinCounter i),
      it_Tag = (if it_Tag i = 0 then it_Tag i2 else it_Tag i),
      it_BatchID = (if length (it_BatchID i) = 0 then it_BatchID i2 else it_BatchID i),
      it_Index = (if length (it_Index i) = 0 then it_Index i2 else it_Index i),
      it_Timestamp = (if length (it_Timestamp i) = 0 then it_Timestamp i2 else it_Timestamp i),
      it_Sig = (if length (it_Sig i) = 0 then it_Sig i2 else it_Sig i),
      it_BucketDepth = (if it_BucketDepth i = 0 then it_BucketDepth i2 else it_BucketDepth i),
      it_Depth = (if it_Depth i = 0 then it_Depth i2 else it_Depth i),
      it_Radius = (if it_Radius i = 0 then it_Radius i2 else it_Radius i),
      it_Immutable = (if \<not> it_Immutable i then it_Immutable i2 else it_Immutable i)\<rparr>"

section \<open>Indexes\<close>

record Index =
  ix_prefix :: bytes
  ix_EncodeKey :: "Item \<Rightarrow> sh_error + bytes"
  ix_DecodeKey :: "bytes \<Rightarrow> sh_error + Item"
  ix_EncodeValue :: "Item \<Rightarrow> sh_error + bytes"
  ix_DecodeValue :: "Item \<Rightarrow> bytes \<Rightarrow> sh_error + Item"

definition ItemKey :: "Index \<Rightarrow> Item \<Rightarrow> sh_error + bytes" where
  "ItemKey f i = (case ix_EncodeKey f i of Inl e \<Rightarrow> Inl e | Inr key \<Rightarrow> Inr (ix_prefix f @ key))"

definition ix_Get :: "'s LevelDB \<Rightarrow> Index \<Rightarrow> Item \<Rightarrow> 's \<Rightarrow> sh_error + Item" where
  "ix_Get L f keyFields s =
     (case ItemKey f keyFields of
        Inl e \<Rightarrow> Inl e
      | Inr key \<Rightarrow>
         (case ld_Get L key s of
            Inl e \<Rightarrow> Inl e
          | Inr value \<Rightarrow>
             (case ix_DecodeValue f keyFields value of Inl e \<Rightarrow> Inl e | Inr out \<Rightarrow> Inr (it_Merge out keyFields))))"

fun fill_loop :: "'s LevelDB \<Rightarrow> Index \<Rightarrow> 's \<Rightarrow> Item list \<Rightarrow> sh_error + Item list" where
  "fill_loop L f s [] = Inr []"
| "fill_loop L f s (i # is) =
     (case ix_Get L f i s of
        Inl e \<Rightarrow> Inl e
      | Inr v \<Rightarrow> (case fill_loop L f s is of Inl e \<Rightarrow> Inl e | Inr vs \<Rightarrow> Inr (v # vs)))"

definition ix_Fill :: "'s LevelDB \<Rightarrow> Index \<Rightarrow> Item list \<Rightarrow> 's \<Rightarrow> sh_error + Item list" where
  "ix_Fill L f items s = (case ld_Snapshot L s of Some e \<Rightarrow> Inl e | None \<Rightarrow> fill_loop L f s items)"

definition ix_Has :: "'s LevelDB \<Rightarrow> Index \<Rightarrow> Item \<Rightarrow> 's \<Rightarrow> sh_error + bool" where
  "ix_Has L f keyFields s = (case ItemKey f keyFields of Inl e \<Rightarrow> Inl e | Inr key \<Rightarrow> ld_Has L key s)"

fun has_loop :: "'s LevelDB \<Rightarrow> Index \<Rightarrow> 's \<Rightarrow> Item list \<Rightarrow> sh_error + bool list" where
  "has_loop L f s [] = Inr []"
| "has_loop L f s (i # is) =
     (case ix_Has L f i s of
        Inl e \<Rightarrow> Inl e
      | Inr h \<Rightarrow> (case has_loop L f s is of Inl e \<Rightarrow> Inl e | Inr hs \<Rightarrow> Inr (h # hs)))"

definition ix_HasMulti :: "'s LevelDB \<Rightarrow> Index \<Rightarrow> Item list \<Rightarrow> 's \<Rightarrow> sh_error + bool list" where
  "ix_HasMulti L f items s = (case ld_Snapshot L s of Some e \<Rightarrow> Inl e | None \<Rightarrow> has_loop L f s items)"

definition ix_Put :: "'s LevelDB \<Rightarrow> Index \<Rightarrow> Item \<Rightarrow> 's \<Rightarrow> sh_error + 's" where
  "ix_Put L f i s =
     (case ItemKey f i of
        Inl e \<Rightarrow> Inl e
      | Inr key \<Rightarrow> (case ix_EncodeValue f i of Inl e \<Rightarrow> Inl e | Inr value \<Rightarrow> ld_Put L key value s))"

definition ix_PutInBatch :: "Index \<Rightarrow> Item \<Rightarrow> LBatch \<Rightarrow> sh_error + LBatch" where
  "ix_PutInBatch f i batch =
     (case ItemKey f i of
        Inl e \<Rightarrow> Inl e
      | Inr key \<Rightarrow> (case ix_EncodeValue f i of Inl e \<Rightarrow> Inl e | Inr value \<Rightarrow> Inr (batch @ [BPut key value])))"

definition ix_Delete :: "'s LevelDB \<Rightarrow> Index \<Rightarrow> Item \<Rightarrow> 's \<Rightarrow> sh_error + 's" where
  "ix_Delete L f keyFields s = (case ItemKey f keyFields of Inl e \<Rightarrow> Inl e | Inr key \<Rightarrow> ld_Delete L key s)"

definition ix_DeleteInBatch :: "Index \<Rightarrow> Item \<Rightarrow> LBatch \<Rightarrow> sh_error + LBatch" where
  "ix_DeleteInBatch f keyFields batch = (case ItemKey f keyFields of Inl e \<Rightarrow> Inl e | Inr key \<Rightarrow> Inr (batch @ [BDel key]))"

section \<open>Iteration\<close>

text \<open>The iterator stands before the first, on one, or behind the last entry; \<open>Seek\<close> moves it to the first key that is not
  smaller.\<close>

definition it_Seek :: "bytes \<Rightarrow> (bytes \<times> bytes) list \<Rightarrow> nat" where
  "it_Seek key es = length (takeWhile (\<lambda>e. fst e < key) es)"

text \<open>\<open>itemFromIterator\<close> at an entry.\<close>

definition itemFromIterator :: "Index \<Rightarrow> bytes \<Rightarrow> bytes \<times> bytes \<Rightarrow> sh_error + Item" where
  "itemFromIterator f totalPrefix kv =
     (if \<not> prefix totalPrefix (fst kv) then Inl sh_NotFound
      else (case ix_DecodeKey f (drop 1 (fst kv)) of
              Inl e \<Rightarrow> Inl e
            | Inr keyItem \<Rightarrow>
               (case ix_DecodeValue f keyItem (snd kv) of Inl e \<Rightarrow> Inl e | Inr valueItem \<Rightarrow> Inr (it_Merge keyItem valueItem))))"

text \<open>The callback changes what it captures and tells whether to stop, or fails.\<close>

type_synonym 'c IndexIterFunc = "Item \<Rightarrow> 'c \<Rightarrow> (sh_error + bool) \<times> 'c"

fun ix_walk :: "Index \<Rightarrow> 'c IndexIterFunc \<Rightarrow> bytes \<Rightarrow> sh_error option \<Rightarrow> (bytes \<times> bytes) list \<Rightarrow> 'c \<Rightarrow> sh_error option \<times> 'c" where
  "ix_walk f fn p err [] c = (err, c)"
| "ix_walk f fn p err (kv # es) c =
     (case itemFromIterator f p kv of
        Inl e \<Rightarrow> if e = sh_NotFound then (err, c) else (Some e, c)
      | Inr item \<Rightarrow>
         (case fn item c of
            (Inl e, c1) \<Rightarrow> (Some e, c1)
          | (Inr stop, c1) \<Rightarrow> if stop then (err, c1) else ix_walk f fn p err es c1))"

record IterateOptions =
  io_StartFrom :: "Item option"
  io_SkipStartFromItem :: bool
  io_Prefix :: bytes
  io_Reverse :: bool

definition default_options :: IterateOptions where
  "default_options = \<lparr>io_StartFrom = None, io_SkipStartFromItem = False, io_Prefix = [], io_Reverse = False\<rparr>"

fun inc_rev :: "bytes \<Rightarrow> bytes option" where
  "inc_rev [] = None"
| "inc_rev (b # bs) = (if b = 255 then inc_rev bs else Some ((b + 1) # bs))"

definition bytesIncrement :: "bytes \<Rightarrow> bytes option" where
  "bytesIncrement b = map_option rev (inc_rev (rev b))"

text \<open>The entries from the start on, in the direction of the iteration; an error when there is no such entry.\<close>

definition iterate_from :: "(bytes \<times> bytes) list \<Rightarrow> sh_error option \<Rightarrow> bytes \<Rightarrow> bytes \<Rightarrow> bool \<Rightarrow> bool \<Rightarrow> sh_error option + (bytes \<times> bytes) list" where
  "iterate_from es err startKey p hasStart reverse =
     (let pos = it_Seek startKey es in
      if \<not> reverse then (if pos < length es then Inr (drop pos es) else Inl err)
      else if hasStart then (if pos < length es then Inr (rev (take (Suc pos) es)) else Inl err)
      else if es = [] then Inl err
      else if prefix p (fst (last es)) then Inr (rev es)
      else (case bytesIncrement p of
              None \<Rightarrow> Inl (Some (sh_Err ''index iterator invalid prefix''))
            | Some q \<Rightarrow>
                let pos = it_Seek q es in
                if pos \<ge> length es then Inl err else if pos = 0 then Inl err else Inr (rev (take pos es))))"

definition ix_Iterate :: "'s LevelDB \<Rightarrow> Index \<Rightarrow> 'c IndexIterFunc \<Rightarrow> IterateOptions \<Rightarrow> 's \<Rightarrow> 'c \<Rightarrow> sh_error option \<times> 'c" where
  "ix_Iterate L f fn opts s c =
     (let p = ix_prefix f @ io_Prefix opts in
      case (case io_StartFrom opts of None \<Rightarrow> Inr p | Some i \<Rightarrow> ItemKey f i) of
        Inl e \<Rightarrow> (Some e, c)
      | Inr startKey \<Rightarrow>
         (case ld_Entries L s of (es, err) \<Rightarrow>
          case iterate_from es err startKey p (io_StartFrom opts \<noteq> None) (io_Reverse opts) of
            Inl e \<Rightarrow> (e, c)
          | Inr kvs \<Rightarrow>
              ix_walk f fn p err (if io_SkipStartFromItem opts \<and> startKey = fst (hd kvs) then tl kvs else kvs) c))"

definition ix_First :: "'s LevelDB \<Rightarrow> Index \<Rightarrow> bytes \<Rightarrow> 's \<Rightarrow> sh_error + Item" where
  "ix_First L f p s =
     (case ld_Entries L s of (es, err) \<Rightarrow>
      let totalPrefix = ix_prefix f @ p;
          pos = it_Seek totalPrefix es in
      if pos < length es then itemFromIterator f totalPrefix (es ! pos) else Inl sh_NotFound)"

fun inc_slice_rev :: "bytes \<Rightarrow> bytes option" where
  "inc_slice_rev [] = None"
| "inc_slice_rev (b # bs) = (if b = 255 then map_option (Cons 0) (inc_slice_rev bs) else Some ((b + 1) # bs))"

definition incByteSlice :: "bytes \<Rightarrow> bytes option" where
  "incByteSlice b = map_option rev (inc_slice_rev (rev b))"

definition ix_Last :: "'s LevelDB \<Rightarrow> Index \<Rightarrow> bytes \<Rightarrow> 's \<Rightarrow> sh_error + Item" where
  "ix_Last L f p s =
     (case ld_Entries L s of (es, err) \<Rightarrow>
      let totalPrefix = ix_prefix f @ p;
          before = (case (if 0 < length p then incByteSlice p else None) of
                      Some nextPrefix \<Rightarrow> take (it_Seek (ix_prefix f @ nextPrefix) es) es
                    | None \<Rightarrow> es) in
      if before = [] then Inl sh_NotFound else itemFromIterator f totalPrefix (last before))"

definition count_from :: "'s LevelDB \<Rightarrow> Index \<Rightarrow> bytes \<Rightarrow> 's \<Rightarrow> nat \<times> sh_error option" where
  "count_from L f startKey s =
     (case ld_Entries L s of (es, err) \<Rightarrow>
      (length (takeWhile (\<lambda>e. hd (fst e) = hd (ix_prefix f)) (drop (it_Seek startKey es) es)), err))"

definition ix_Count :: "'s LevelDB \<Rightarrow> Index \<Rightarrow> 's \<Rightarrow> nat \<times> sh_error option" where
  "ix_Count L f s = count_from L f (ix_prefix f) s"

definition ix_CountFrom :: "'s LevelDB \<Rightarrow> Index \<Rightarrow> Item \<Rightarrow> 's \<Rightarrow> nat \<times> sh_error option" where
  "ix_CountFrom L f start s = (case ItemKey f start of Inl e \<Rightarrow> (0, Some e) | Inr startKey \<Rightarrow> count_from L f startKey s)"

section \<open>Fields\<close>

definition encodeUint64 :: "u64 \<Rightarrow> bytes" where
  "encodeUint64 val = be_bytes 8 (unat val)"

text \<open>\<open>binary.BigEndian.Uint64\<close> reads eight bytes and panics on fewer.\<close>

definition go_Uint64 :: "bytes \<Rightarrow> sh_error + u64" where
  "go_Uint64 b = (if length b < 8 then Inl sh_Panic else Inr (word_of_nat (be_val (take 8 b))))"

definition u64_Get :: "'s LevelDB \<Rightarrow> bytes \<Rightarrow> 's \<Rightarrow> sh_error + u64" where
  "u64_Get L key s =
     (case ld_Get L key s of
        Inl e \<Rightarrow> if e = sh_NotFound then Inr 0 else Inl e
      | Inr b \<Rightarrow> go_Uint64 b)"

definition u64_Put :: "'s LevelDB \<Rightarrow> bytes \<Rightarrow> u64 \<Rightarrow> 's \<Rightarrow> sh_error + 's" where
  "u64_Put L key val s = ld_Put L key (encodeUint64 val) s"

definition u64_PutInBatch :: "bytes \<Rightarrow> u64 \<Rightarrow> LBatch \<Rightarrow> LBatch" where
  "u64_PutInBatch key val batch = batch @ [BPut key (encodeUint64 val)]"

definition u64_Inc :: "'s LevelDB \<Rightarrow> bytes \<Rightarrow> 's \<Rightarrow> sh_error + (u64 \<times> 's)" where
  "u64_Inc L key s =
     (case u64_Get L key s of
        Inl e \<Rightarrow> if e = sh_NotFound then map_sum id (Pair 1) (u64_Put L key 1 s) else Inl e
      | Inr val \<Rightarrow> map_sum id (Pair (val + 1)) (u64_Put L key (val + 1) s))"

definition u64_IncInBatch :: "'s LevelDB \<Rightarrow> bytes \<Rightarrow> LBatch \<Rightarrow> 's \<Rightarrow> sh_error + (u64 \<times> LBatch)" where
  "u64_IncInBatch L key batch s =
     (case u64_Get L key s of
        Inl e \<Rightarrow> if e = sh_NotFound then Inr (1, u64_PutInBatch key 1 batch) else Inl e
      | Inr val \<Rightarrow> Inr (val + 1, u64_PutInBatch key (val + 1) batch))"

definition dec_floor :: "u64 \<Rightarrow> u64" where
  "dec_floor val = (if val \<noteq> 0 then val - 1 else val)"

definition u64_Dec :: "'s LevelDB \<Rightarrow> bytes \<Rightarrow> 's \<Rightarrow> sh_error + (u64 \<times> 's)" where
  "u64_Dec L key s =
     (case u64_Get L key s of
        Inl e \<Rightarrow> if e = sh_NotFound then map_sum id (Pair 0) (u64_Put L key 0 s) else Inl e
      | Inr val \<Rightarrow> map_sum id (Pair (dec_floor val)) (u64_Put L key (dec_floor val) s))"

definition u64_DecInBatch :: "'s LevelDB \<Rightarrow> bytes \<Rightarrow> LBatch \<Rightarrow> 's \<Rightarrow> sh_error + (u64 \<times> LBatch)" where
  "u64_DecInBatch L key batch s =
     (case u64_Get L key s of
        Inl e \<Rightarrow> if e = sh_NotFound then Inr (0, u64_PutInBatch key 0 batch) else Inl e
      | Inr val \<Rightarrow> Inr (dec_floor val, u64_PutInBatch key (dec_floor val) batch))"

text \<open>A vector keeps its elements under the key of the field and their index; its operations are the ones of a field there.\<close>

definition indexKey :: "bytes \<Rightarrow> u64 \<Rightarrow> bytes" where
  "indexKey key i = key @ be_bytes 8 (unat i)"

definition vec_Get :: "'s LevelDB \<Rightarrow> bytes \<Rightarrow> u64 \<Rightarrow> 's \<Rightarrow> sh_error + u64" where
  "vec_Get L key i s = u64_Get L (indexKey key i) s"

definition vec_PutInBatch :: "bytes \<Rightarrow> u64 \<Rightarrow> u64 \<Rightarrow> LBatch \<Rightarrow> LBatch" where
  "vec_PutInBatch key i val batch = u64_PutInBatch (indexKey key i) val batch"

definition str_Get :: "'s LevelDB \<Rightarrow> bytes \<Rightarrow> 's \<Rightarrow> sh_error + string" where
  "str_Get L key s =
     (case ld_Get L key s of
        Inl e \<Rightarrow> if e = sh_NotFound then Inr '''' else Inl e
      | Inr b \<Rightarrow> Inr (string_of_bytes b))"

definition str_Put :: "'s LevelDB \<Rightarrow> bytes \<Rightarrow> string \<Rightarrow> 's \<Rightarrow> sh_error + 's" where
  "str_Put L key val s = ld_Put L key (bytes_of_string val) s"

section \<open>The schema\<close>

text \<open>The names of the fields with their types and the names of the indexes with their prefixes, stored as JSON: \<open>je\<close> and \<open>jd\<close> are
  \<open>json.Marshal\<close> and \<open>json.Unmarshal\<close>. The maps are lists in the order a loop visits them.\<close>

record schema =
  sc_Fields :: "(string \<times> string) list"
  sc_Indexes :: "(u8 \<times> string) list"

definition keySchema :: bytes where "keySchema = [0]"
definition keyPrefixFields :: u8 where "keyPrefixFields = 1"
definition keyPrefixIndexStart :: u8 where "keyPrefixIndexStart = 2"

definition getSchema :: "'s LevelDB \<Rightarrow> (bytes \<Rightarrow> sh_error + schema) \<Rightarrow> 's \<Rightarrow> sh_error + schema" where
  "getSchema L jd s = (case ld_Get L keySchema s of Inl e \<Rightarrow> Inl e | Inr b \<Rightarrow> jd b)"

definition putSchema :: "'s LevelDB \<Rightarrow> (schema \<Rightarrow> sh_error + bytes) \<Rightarrow> schema \<Rightarrow> 's \<Rightarrow> sh_error + 's" where
  "putSchema L je sc s = (case je sc of Inl e \<Rightarrow> Inl e | Inr b \<Rightarrow> ld_Put L keySchema b s)"

definition NewDBWrap :: "'s LevelDB \<Rightarrow> (schema \<Rightarrow> sh_error + bytes) \<Rightarrow> (bytes \<Rightarrow> sh_error + schema) \<Rightarrow> 's \<Rightarrow> sh_error + 's" where
  "NewDBWrap L je jd s =
     (case getSchema L jd s of
        Inl e \<Rightarrow> if e = sh_NotFound then putSchema L je \<lparr>sc_Fields = [], sc_Indexes = []\<rparr> s else Inl e
      | Inr sc \<Rightarrow> Inr s)"

text \<open>A field that is known already is written again: the flag for a hit is never set.\<close>

definition schemaFieldKey ::
  "'s LevelDB \<Rightarrow> (schema \<Rightarrow> sh_error + bytes) \<Rightarrow> (bytes \<Rightarrow> sh_error + schema) \<Rightarrow> string \<Rightarrow> string \<Rightarrow> 's \<Rightarrow> sh_error + (bytes \<times> 's)" where
  "schemaFieldKey L je jd name fieldType s =
     (if name = '''' then Inl (sh_Err ''field name cannot be blank'')
      else if fieldType = '''' then Inl (sh_Err ''field type cannot be blank'')
      else (case getSchema L jd s of
              Inl e \<Rightarrow> Inl e
            | Inr sc \<Rightarrow>
               if map_of (sc_Fields sc) name \<noteq> None \<and> map_of (sc_Fields sc) name \<noteq> Some fieldType
               then Inl (sh_Err ''field stored with another type in db'')
               else (case putSchema L je (sc\<lparr>sc_Fields := AList.update name fieldType (sc_Fields sc)\<rparr>) s of
                       Inl e \<Rightarrow> Inl e
                     | Inr s1 \<Rightarrow> Inr (keyPrefixFields # bytes_of_string name, s1))))"

text \<open>The loop of \<open>schemaIndexPrefix\<close>: the prefix of the index, or the next one that is free.\<close>

fun prefix_loop :: "string \<Rightarrow> u8 \<Rightarrow> (u8 \<times> string) list \<Rightarrow> u8 + u8" where
  "prefix_loop name nextID [] = Inr nextID"
| "prefix_loop name nextID ((i, n) # is) =
     (let nextID1 = (if nextID \<le> i then i + 1 else nextID) in if n = name then Inl i else prefix_loop name nextID1 is)"

definition schemaIndexPrefix ::
  "'s LevelDB \<Rightarrow> (schema \<Rightarrow> sh_error + bytes) \<Rightarrow> (bytes \<Rightarrow> sh_error + schema) \<Rightarrow> string \<Rightarrow> 's \<Rightarrow> sh_error + (u8 \<times> 's)" where
  "schemaIndexPrefix L je jd name s =
     (if name = '''' then Inl (sh_Err ''index name cannot be blank'')
      else (case getSchema L jd s of
              Inl e \<Rightarrow> Inl e
            | Inr sc \<Rightarrow>
               (case prefix_loop name keyPrefixIndexStart (sc_Indexes sc) of
                  Inl i \<Rightarrow> Inr (i, s)
                | Inr i \<Rightarrow>
                   (case putSchema L je (sc\<lparr>sc_Indexes := AList.update i name (sc_Indexes sc)\<rparr>) s of
                      Inl e \<Rightarrow> Inl e
                    | Inr s1 \<Rightarrow> Inr (i, s1)))))"

fun rename_loop :: "string \<Rightarrow> string \<Rightarrow> (u8 \<times> string) list \<Rightarrow> (u8 + unit) option" where
  "rename_loop name newName [] = None"
| "rename_loop name newName ((i, n) # is) =
     (if n = name then Some (Inl i) else if n = newName then Some (Inr ()) else rename_loop name newName is)"

definition RenameIndex ::
  "'s LevelDB \<Rightarrow> (schema \<Rightarrow> sh_error + bytes) \<Rightarrow> (bytes \<Rightarrow> sh_error + schema) \<Rightarrow> string \<Rightarrow> string \<Rightarrow> 's \<Rightarrow> sh_error + (bool \<times> 's)" where
  "RenameIndex L je jd name newName s =
     (if name = '''' then Inl (sh_Err ''index name cannot be blank'')
      else if newName = '''' then Inl (sh_Err ''new index name cannot be blank'')
      else if newName = name then Inr (False, s)
      else (case getSchema L jd s of
              Inl e \<Rightarrow> Inl e
            | Inr sc \<Rightarrow>
               (case rename_loop name newName (sc_Indexes sc) of
                  None \<Rightarrow> Inr (False, s)
                | Some (Inr _) \<Rightarrow> Inr (True, s)
                | Some (Inl i) \<Rightarrow>
                   (case putSchema L je (sc\<lparr>sc_Indexes := AList.update i newName (sc_Indexes sc)\<rparr>) s of
                      Inl e \<Rightarrow> Inl e
                    | Inr s1 \<Rightarrow> Inr (True, s1)))))"

record IndexFuncs =
  if_EncodeKey :: "Item \<Rightarrow> sh_error + bytes"
  if_DecodeKey :: "bytes \<Rightarrow> sh_error + Item"
  if_EncodeValue :: "Item \<Rightarrow> sh_error + bytes"
  if_DecodeValue :: "Item \<Rightarrow> bytes \<Rightarrow> sh_error + Item"

definition index_of :: "u8 \<Rightarrow> IndexFuncs \<Rightarrow> Index" where
  "index_of i funcs =
     \<lparr>ix_prefix = [i], ix_EncodeKey = if_EncodeKey funcs, ix_DecodeKey = if_DecodeKey funcs,
      ix_EncodeValue = if_EncodeValue funcs, ix_DecodeValue = if_DecodeValue funcs\<rparr>"

definition NewIndex ::
  "'s LevelDB \<Rightarrow> (schema \<Rightarrow> sh_error + bytes) \<Rightarrow> (bytes \<Rightarrow> sh_error + schema) \<Rightarrow> string \<Rightarrow> IndexFuncs \<Rightarrow> 's \<Rightarrow> sh_error + (Index \<times> 's)" where
  "NewIndex L je jd name funcs s =
     (case schemaIndexPrefix L je jd name s of Inl e \<Rightarrow> Inl e | Inr (i, s1) \<Rightarrow> Inr (index_of i funcs, s1))"

section \<open>The contract of LevelDB\<close>

definition apply_bop :: "bop \<Rightarrow> (bytes \<Rightarrow> bytes option) \<Rightarrow> bytes \<Rightarrow> bytes option" where
  "apply_bop b m = (case b of BPut k v \<Rightarrow> m(k \<mapsto> v) | BDel k \<Rightarrow> m(k := None))"

definition apply_batch :: "LBatch \<Rightarrow> (bytes \<Rightarrow> bytes option) \<Rightarrow> bytes \<Rightarrow> bytes option" where
  "apply_batch bs m = fold apply_bop bs m"

lemma apply_batch_simps [simp]:
  "apply_batch [] m = m" "apply_batch (b # bs) m = apply_batch bs (apply_bop b m)" "apply_batch (bs @ cs) m = apply_batch cs (apply_batch bs m)"
  "apply_bop (BPut k v) m = m(k \<mapsto> v)" "apply_bop (BDel k) m = m(k := None)"
  by (simp_all add: apply_batch_def apply_bop_def)

text \<open>What is asked of LevelDB: reads return what was written last, a batch is applied at once, iteration is in the order of the
  keys, and no call fails. The operations of the database are modelled with their error paths; the properties over this locale do
  not exercise those that only a failing LevelDB takes.\<close>

locale level_db =
  fixes L :: "'s LevelDB" and look :: "'s \<Rightarrow> bytes \<Rightarrow> bytes option"
  assumes ld_get: "ld_Get L k s = (case look s k of None \<Rightarrow> Inl sh_NotFound | Some v \<Rightarrow> Inr v)"
    and ld_has: "ld_Has L k s = Inr (look s k \<noteq> None)"
    and ld_put: "\<exists>s'. ld_Put L k v s = Inr s' \<and> look s' = (look s)(k \<mapsto> v)"
    and ld_delete: "\<exists>s'. ld_Delete L k s = Inr s' \<and> look s' = (look s)(k := None)"
    and ld_write: "\<exists>s'. ld_Write L b s = Inr s' \<and> look s' = apply_batch b (look s)"
    and ld_snapshot: "ld_Snapshot L s = None"
    and ld_entries: "\<exists>es. ld_Entries L s = (es, None) \<and> sorted_wrt (<) (map fst es) \<and> map_of es = look s"
begin

lemma write_look: "ld_Write L b s = Inr s' \<Longrightarrow> look s' = apply_batch b (look s)"
  using ld_write [of b s] by auto

lemma ldb_put_look: "ld_Put L k v s = Inr s' \<Longrightarrow> look s' = (look s)(k \<mapsto> v)"
  using ld_put [of k v s] by auto

lemma u64_Get_look:
  "u64_Get L key s = (case look s key of None \<Rightarrow> Inr 0 | Some b \<Rightarrow> go_Uint64 b)"
  by (simp add: u64_Get_def ld_get split: option.splits)

lemma ix_Get_look:
  "ItemKey f i = Inr k \<Longrightarrow> ix_Get L f i s = (case look s k of None \<Rightarrow> Inl sh_NotFound | Some v \<Rightarrow> map_sum id (\<lambda>out. it_Merge out i) (ix_DecodeValue f i v))"
  by (auto simp: ix_Get_def ld_get split: option.splits sum.splits)

lemma ix_Has_look: "ItemKey f i = Inr k \<Longrightarrow> ix_Has L f i s = Inr (look s k \<noteq> None)"
  by (simp add: ix_Has_def ld_has)

end

text \<open>A database in memory, as \<open>NewDB\<close> opens it without a path.\<close>

type_synonym memdb = "(bytes \<times> bytes) list"

definition memdb_apply :: "bop \<Rightarrow> memdb \<Rightarrow> memdb" where
  "memdb_apply b s = (case b of BPut k v \<Rightarrow> (k, v) # s | BDel k \<Rightarrow> filter (\<lambda>e. fst e \<noteq> k) s)"

definition memdb :: "memdb LevelDB" where
  "memdb =
     \<lparr>ld_Get = \<lambda>k s. (case map_of s k of None \<Rightarrow> Inl sh_NotFound | Some v \<Rightarrow> Inr v),
      ld_Has = \<lambda>k s. Inr (map_of s k \<noteq> None),
      ld_Put = \<lambda>k v s. Inr (memdb_apply (BPut k v) s),
      ld_Delete = \<lambda>k s. Inr (memdb_apply (BDel k) s),
      ld_Write = \<lambda>b s. Inr (fold memdb_apply b s),
      ld_Snapshot = \<lambda>s. None,
      ld_Entries = \<lambda>s. (map (\<lambda>k. (k, the (map_of s k))) (sort (remdups (map fst s))), None)\<rparr>"

lemma memdb_apply_look: "map_of (memdb_apply b s) = apply_bop b (map_of s)"
proof (cases b)
  case (BDel k)
  have "map_of (filter (\<lambda>e. fst e \<noteq> k) s) = (map_of s)(k := None)" by (induction s) (auto simp: fun_eq_iff)
  then show ?thesis using BDel by (simp add: memdb_apply_def)
qed (simp add: memdb_apply_def)

lemma memdb_write_look: "map_of (fold memdb_apply b s) = apply_batch b (map_of s)"
  by (induction b arbitrary: s) (simp_all add: memdb_apply_look)

lemma memdb_entries_look: "map_of (map (\<lambda>k. (k, the (map_of s k))) (sort (remdups (map fst s)))) = map_of s"
proof
  fix k
  have "map_of (map (\<lambda>k. (k, the (map_of s k))) ks) k = (if k \<in> set ks then Some (the (map_of s k)) else None)" for ks
    by (induction ks) auto
  moreover have "k \<in> set (map fst s) \<longleftrightarrow> map_of s k \<noteq> None" by (metis list.set_map map_of_eq_None_iff)
  ultimately show "map_of (map (\<lambda>k. (k, the (map_of s k))) (sort (remdups (map fst s)))) k = map_of s k" by auto
qed

interpretation mdb: level_db memdb map_of
proof (unfold_locales, goal_cases)
  case (7 s)
  show ?case using memdb_entries_look [of s] by (simp add: memdb_def comp_def strict_sorted_iff)
qed (simp_all add: memdb_def memdb_apply_look memdb_write_look split: option.splits)

end
