(* ===== verification/Localstore.thy ===== *)
theory Localstore
  imports Shed StorageModes
begin

text \<open>
  \<open>pkg/localstore\<close>: the database of the chunks of a node. Nine indexes over LevelDB, the counters of the cache and of the reserve,
  the operations that put, set and get chunks, garbage collection of the cache and eviction from the reserve. Every operation reads
  the database as it is and collects its changes in a batch that is written at the end, under the lock \<open>batchMu\<close>: an operation is one
  step. Garbage collection releases the lock while it looks for candidates, so its parts are steps of their own.

  Parameters: LevelDB; the tags service (\<open>lc_tags\<close>, absent when \<open>db.tags\<close> is nil); the clock, whose \<open>n\<close>-th reading is \<open>lc_now n\<close>;
  the three products with a float (\<open>lc_gcTarget\<close>, \<open>lc_cacheShare\<close>, \<open>lc_reserveShare\<close>). The signals to subscribers, metrics and
  logging are left out. The modes are the named ones, so the branch for an unknown mode remains only in \<open>get\<close>.
\<close>

section \<open>The indexes\<close>

definition headerSize :: nat where "headerSize = 16 + StampSize"

definition po :: "bytes \<Rightarrow> bytes \<Rightarrow> u8" where
  "po baseKey addr = Proximity baseKey addr"

definition address_item :: "bytes \<Rightarrow> Item" where
  "address_item a = zero_item\<lparr>it_Address := Some a\<rparr>"

definition retrievalData_funcs :: IndexFuncs where
  "retrievalData_funcs =
     \<lparr>if_EncodeKey = \<lambda>i. Inr (slice_of (it_Address i)),
      if_DecodeKey = \<lambda>key. Inr (address_item key),
      if_EncodeValue = \<lambda>i.
        let b = be_bytes 8 (unat (it_BinID i)) @ be_bytes 8 (unat (it_StoreTimestamp i));
            stamp = sp_MarshalBinary (NewStamp (it_BatchID i) (it_Index i) (it_Timestamp i) (it_Sig i)) in
        Inr (b @ stamp @ slice_of (it_Data i)),
      if_DecodeValue = \<lambda>keyItem value.
        if length value < headerSize then Inl sh_Panic
        else (case (sp_UnmarshalBinary (take StampSize (drop 16 value)) :: unit postage_error + Stamp) of
                Inl e \<Rightarrow> Inl (sh_Err ''invalid stamp'')
              | Inr stamp \<Rightarrow>
                  Inr (zero_item\<lparr>it_StoreTimestamp := word_of_nat (be_val (take 8 (drop 8 value))),
                                 it_BinID := word_of_nat (be_val (take 8 value)),
                                 it_BatchID := sp_batchID stamp, it_Index := sp_index stamp,
                                 it_Timestamp := sp_timestamp stamp, it_Sig := sp_sig stamp,
                                 it_Data := Some (drop headerSize value)\<rparr>))\<rparr>"

definition retrievalAccess_funcs :: IndexFuncs where
  "retrievalAccess_funcs =
     \<lparr>if_EncodeKey = \<lambda>i. Inr (slice_of (it_Address i)),
      if_DecodeKey = \<lambda>key. Inr (address_item key),
      if_EncodeValue = \<lambda>i. Inr (be_bytes 8 (unat (it_AccessTimestamp i))),
      if_DecodeValue = \<lambda>keyItem value.
        (case go_Uint64 value of Inl e \<Rightarrow> Inl e | Inr t \<Rightarrow> Inr (zero_item\<lparr>it_AccessTimestamp := t\<rparr>))\<rparr>"

definition pull_funcs :: "bytes \<Rightarrow> IndexFuncs" where
  "pull_funcs baseKey =
     \<lparr>if_EncodeKey = \<lambda>i. Inr (po baseKey (slice_of (it_Address i)) # be_bytes 8 (unat (it_BinID i))),
      if_DecodeKey = \<lambda>key. if length key < 9 then Inl sh_Panic else Inr (zero_item\<lparr>it_BinID := word_of_nat (be_val (take 8 (drop 1 key)))\<rparr>),
      if_EncodeValue = \<lambda>i. Inr (go_copy 32 64 (it_BatchID i) (go_copy 0 64 (slice_of (it_Address i)) (replicate 64 0))),
      if_DecodeValue = \<lambda>keyItem value.
        if length value < 64 then Inl sh_Panic
        else Inr (zero_item\<lparr>it_Address := Some (take 32 value), it_BatchID := take 32 (drop 32 value)\<rparr>)\<rparr>"

definition push_funcs :: IndexFuncs where
  "push_funcs =
     \<lparr>if_EncodeKey = \<lambda>i. Inr (go_copy 8 40 (slice_of (it_Address i)) (be_bytes 8 (unat (it_StoreTimestamp i)) @ replicate 32 0)),
      if_DecodeKey = \<lambda>key. if length key < 8 then Inl sh_Panic
        else Inr (zero_item\<lparr>it_Address := Some (drop 8 key), it_StoreTimestamp := word_of_nat (be_val (take 8 key))\<rparr>),
      if_EncodeValue = \<lambda>i. Inr (be_bytes 4 (unat (it_Tag i))),
      if_DecodeValue = \<lambda>keyItem value.
        Inr (if length value = 4 then zero_item\<lparr>it_Tag := word_of_nat (be_val value)\<rparr> else zero_item)\<rparr>"

definition gc_funcs :: IndexFuncs where
  "gc_funcs =
     \<lparr>if_EncodeKey = \<lambda>i. Inr (be_bytes 8 (unat (it_AccessTimestamp i)) @ be_bytes 8 (unat (it_BinID i)) @ slice_of (it_Address i)),
      if_DecodeKey = \<lambda>key. if length key < 16 then Inl sh_Panic
        else Inr (zero_item\<lparr>it_AccessTimestamp := word_of_nat (be_val (take 8 key)), it_BinID := word_of_nat (be_val (take 8 (drop 8 key))),
                            it_Address := Some (drop 16 key)\<rparr>),
      if_EncodeValue = \<lambda>i. Inr (go_copy 32 40 (it_Index i) (go_copy 0 40 (it_BatchID i) (replicate 40 0))),
      if_DecodeValue = \<lambda>keyItem value. if length value < 32 then Inl sh_Panic
        else Inr (zero_item\<lparr>it_BatchID := take 32 value, it_Index := go_copy 0 8 (drop 32 value) (replicate 8 0)\<rparr>)\<rparr>"

definition pin_funcs :: IndexFuncs where
  "pin_funcs =
     \<lparr>if_EncodeKey = \<lambda>i. Inr (slice_of (it_Address i)),
      if_DecodeKey = \<lambda>key. Inr (address_item key),
      if_EncodeValue = \<lambda>i. Inr (be_bytes 8 (unat (it_PinCounter i))),
      if_DecodeValue = \<lambda>keyItem value.
        (case go_Uint64 value of Inl e \<Rightarrow> Inl e | Inr n \<Rightarrow> Inr (zero_item\<lparr>it_PinCounter := n\<rparr>))\<rparr>"

definition postageChunks_funcs :: "bytes \<Rightarrow> IndexFuncs" where
  "postageChunks_funcs baseKey =
     \<lparr>if_EncodeKey = \<lambda>i. Inr (go_copy 33 65 (slice_of (it_Address i)) ((go_copy 0 32 (it_BatchID i) (replicate 65 0))[32 := po baseKey (slice_of (it_Address i))])),
      if_DecodeKey = \<lambda>key. if length key < 65 then Inl sh_Panic
        else Inr (zero_item\<lparr>it_BatchID := take 32 key, it_Address := Some (take 32 (drop 33 key))\<rparr>),
      if_EncodeValue = \<lambda>i. Inr [],
      if_DecodeValue = \<lambda>keyItem value. Inr zero_item\<rparr>"

definition postageRadius_funcs :: IndexFuncs where
  "postageRadius_funcs =
     \<lparr>if_EncodeKey = \<lambda>i. Inr (go_copy 0 32 (it_BatchID i) (replicate 32 0)),
      if_DecodeKey = \<lambda>key. if length key < 32 then Inl sh_Panic else Inr (zero_item\<lparr>it_BatchID := take 32 key\<rparr>),
      if_EncodeValue = \<lambda>i. Inr [it_Radius i],
      if_DecodeValue = \<lambda>keyItem value. (case value of [] \<Rightarrow> Inl sh_Panic | r # _ \<Rightarrow> Inr (zero_item\<lparr>it_Radius := r\<rparr>))\<rparr>"

definition postageIndex_funcs :: IndexFuncs where
  "postageIndex_funcs =
     \<lparr>if_EncodeKey = \<lambda>i. Inr (go_copy 32 40 (it_Index i) (go_copy 0 32 (it_BatchID i) (replicate 40 0))),
      if_DecodeKey = \<lambda>key. if length key < 40 then Inl sh_Panic else Inr (zero_item\<lparr>it_BatchID := take 32 key, it_Index := take 8 (drop 32 key)\<rparr>),
      if_EncodeValue = \<lambda>i. Inr (go_copy 32 40 (it_Timestamp i) (go_copy 0 40 (slice_of (it_Address i)) (replicate 40 0))),
      if_DecodeValue = \<lambda>keyItem value. if length value < 32 then Inl sh_Panic
        else Inr (zero_item\<lparr>it_Address := Some (take 32 value), it_Timestamp := drop 32 value\<rparr>)\<rparr>"

section \<open>The database\<close>

text \<open>What the tags service does with a synced chunk: the tag is unknown, cannot be stored, or was counted.\<close>

datatype tag_result = TagMissing | TagIncErr sh_error | TagInced

text \<open>The fields of \<open>DB\<close> that do not change, and the ones that do.\<close>

record 't LSConf =
  lc_baseKey :: bytes
  lc_cacheCapacity :: u64
  lc_reserveCapacity :: u64
  lc_gcTarget :: u64
  lc_cacheShare :: u64
  lc_reserveShare :: u64
  lc_tags :: "(u32 \<Rightarrow> 't \<Rightarrow> tag_result \<times> 't) option"
  lc_now :: "nat \<Rightarrow> u64"
  retrievalDataIndex :: Index
  retrievalAccessIndex :: Index
  pushIndex :: Index
  pullIndex :: Index
  gcIndex :: Index
  pinIndex :: Index
  postageChunksIndex :: Index
  postageRadiusIndex :: Index
  postageIndexIndex :: Index
  lc_binIDs :: bytes
  lc_gcSize :: bytes
  lc_reserveSize :: bytes

record ('s, 't) LS =
  ls_shed :: 's
  ls_tags :: 't
  ls_ticks :: nat
  ls_gcRunning :: bool
  ls_dirty :: "Address list"
  ls_gcTrigger :: bool
  ls_evictTrigger :: bool

definition ErrInvalidMode :: sh_error where "ErrInvalidMode = sh_Err ''invalid mode''"
definition ErrOverwrite :: sh_error where "ErrOverwrite = sh_Err ''index already exists - double issuance on immutable batch''"

section \<open>Operations on a batch\<close>

text \<open>What an operation has under way: its batch, the bin ids it has taken, and what it changes besides the database.\<close>

record 't Tx =
  tx_batch :: LBatch
  tx_binIDs :: "(u8 \<times> u64) list"
  tx_tags :: 't
  tx_ticks :: nat
  tx_gcTrigger :: bool
  tx_evictTrigger :: bool

type_synonym ('t, 'a) act = "'t Tx \<Rightarrow> (sh_error + 'a) \<times> 't Tx"

text \<open>\<open>if err != nil { return err }\<close> between two steps.\<close>

definition thn :: "('t, 'a) act \<Rightarrow> ('a \<Rightarrow> ('t, 'b) act) \<Rightarrow> ('t, 'b) act" where
  "thn m f t = (case m t of (Inl e, t1) \<Rightarrow> (Inl e, t1) | (Inr a, t1) \<Rightarrow> f a t1)"

definition ret :: "'a \<Rightarrow> ('t, 'a) act" where
  "ret a t = (Inr a, t)"

definition lft :: "sh_error + 'a \<Rightarrow> ('t, 'a) act" where
  "lft r t = (r, t)"

text \<open>A read where \<open>ErrNotFound\<close> is not an error.\<close>

definition unlessNotFound :: "sh_error + 'a \<Rightarrow> sh_error + 'a option" where
  "unlessNotFound r = (case r of Inr a \<Rightarrow> Inr (Some a) | Inl e \<Rightarrow> if e = sh_NotFound then Inr None else Inl e)"

definition putB :: "Index \<Rightarrow> Item \<Rightarrow> ('t, unit) act" where
  "putB f i t = (case ix_PutInBatch f i (tx_batch t) of Inl e \<Rightarrow> (Inl e, t) | Inr b \<Rightarrow> (Inr (), t\<lparr>tx_batch := b\<rparr>))"

definition delB :: "Index \<Rightarrow> Item \<Rightarrow> ('t, unit) act" where
  "delB f i t = (case ix_DeleteInBatch f i (tx_batch t) of Inl e \<Rightarrow> (Inl e, t) | Inr b \<Rightarrow> (Inr (), t\<lparr>tx_batch := b\<rparr>))"

definition now :: "'t LSConf \<Rightarrow> ('t, u64) act" where
  "now db t = (Inr (lc_now db (tx_ticks t)), t\<lparr>tx_ticks := Suc (tx_ticks t)\<rparr>)"

text \<open>A counter in the database changes by a signed amount; it is not changed below zero. The capacity triggers a worker.\<close>

definition sized_change :: "u64 \<Rightarrow> int \<Rightarrow> u64 option" where
  "sized_change sz change =
     (if change > 0 then Some (sz + word_of_int change)
      else let c = word_of_int (- change) in if sz < c then None else Some (sz - c))"

definition incGCSizeInBatch :: "'s LevelDB \<Rightarrow> 't LSConf \<Rightarrow> 's \<Rightarrow> int \<Rightarrow> ('t, unit) act" where
  "incGCSizeInBatch L db s change =
     (if change = 0 then ret ()
      else thn (lft (unlessNotFound (u64_Get L (lc_gcSize db) s))) (\<lambda>g t.
        let gcSize = (case g of None \<Rightarrow> 0 | Some n \<Rightarrow> n) in
        case sized_change gcSize change of
          None \<Rightarrow> (Inr (), t)
        | Some newSize \<Rightarrow>
            (Inr (), t\<lparr>tx_batch := u64_PutInBatch (lc_gcSize db) newSize (tx_batch t),
                      tx_gcTrigger := (if lc_cacheCapacity db \<le> newSize then True else tx_gcTrigger t)\<rparr>)))"

definition incReserveSizeInBatch :: "'s LevelDB \<Rightarrow> 't LSConf \<Rightarrow> 's \<Rightarrow> int \<Rightarrow> ('t, unit) act" where
  "incReserveSizeInBatch L db s change =
     (if change = 0 then ret ()
      else thn (lft (unlessNotFound (u64_Get L (lc_reserveSize db) s))) (\<lambda>r t.
        let reserveSize = (case r of None \<Rightarrow> 0 | Some n \<Rightarrow> n) in
        case sized_change reserveSize change of
          None \<Rightarrow> (Inr (), t)
        | Some newSize \<Rightarrow>
            (Inr (), t\<lparr>tx_batch := u64_PutInBatch (lc_reserveSize db) newSize (tx_batch t),
                      tx_evictTrigger := (if lc_reserveCapacity db \<le> newSize then True else tx_evictTrigger t)\<rparr>)))"

definition incBinID :: "'s LevelDB \<Rightarrow> 't LSConf \<Rightarrow> 's \<Rightarrow> u8 \<Rightarrow> ('t, u64) act" where
  "incBinID L db s bin t =
     (case (case map_of (tx_binIDs t) bin of Some n \<Rightarrow> Inr n | None \<Rightarrow> vec_Get L (lc_binIDs db) (ucast bin) s) of
        Inl e \<Rightarrow> (Inl e, t)
      | Inr n \<Rightarrow> (Inr (n + 1), t\<lparr>tx_binIDs := AList.update bin (n + 1) (tx_binIDs t)\<rparr>))"

section \<open>Pins, removal and synchronisation\<close>

definition setPin :: "'s LevelDB \<Rightarrow> 't LSConf \<Rightarrow> 's \<Rightarrow> Item \<Rightarrow> ('t, int) act" where
  "setPin L db s item =
     thn (lft (unlessNotFound (ix_Get L (pinIndex db) item s))) (\<lambda>p.
       case p of
         Some i \<Rightarrow> thn (putB (pinIndex db) (item\<lparr>it_PinCounter := it_PinCounter i + 1\<rparr>)) (\<lambda>_. ret 0)
       | None \<Rightarrow>
           let item = item\<lparr>it_PinCounter := 0\<rparr> in
           thn (lft (unlessNotFound (ix_Get L (retrievalAccessIndex db) item s))) (\<lambda>a.
             case a of
               None \<Rightarrow> thn (putB (pinIndex db) (item\<lparr>it_PinCounter := it_PinCounter item + 1\<rparr>)) (\<lambda>_. ret 0)
             | Some i \<Rightarrow>
                 let item = item\<lparr>it_AccessTimestamp := it_AccessTimestamp i\<rparr> in
                 thn (lft (ix_Get L (retrievalDataIndex db) item s)) (\<lambda>i.
                   let item = item\<lparr>it_StoreTimestamp := it_StoreTimestamp i, it_BinID := it_BinID i\<rparr> in
                   thn (delB (gcIndex db) item) (\<lambda>_.
                   thn (putB (pinIndex db) (item\<lparr>it_PinCounter := it_PinCounter item + 1\<rparr>)) (\<lambda>_. ret (- 1))))))"

definition setUnpin :: "'s LevelDB \<Rightarrow> 't LSConf \<Rightarrow> 's \<Rightarrow> Address \<Rightarrow> ('t, int) act" where
  "setUnpin L db s addr =
     (let item = address_item addr in
      thn (lft (ix_Get L (pinIndex db) item s)) (\<lambda>i.
        let item = item\<lparr>it_PinCounter := it_PinCounter i\<rparr> in
        if 1 < it_PinCounter item then thn (putB (pinIndex db) (item\<lparr>it_PinCounter := it_PinCounter item - 1\<rparr>)) (\<lambda>_. ret 0)
        else
          thn (delB (pinIndex db) item) (\<lambda>_.
          thn (lft (ix_Get L (retrievalDataIndex db) item s)) (\<lambda>i.
            let item = item\<lparr>it_StoreTimestamp := it_StoreTimestamp i, it_BinID := it_BinID i, it_BatchID := it_BatchID i\<rparr> in
            thn (lft (unlessNotFound (ix_Get L (pushIndex db) item s))) (\<lambda>q.
              case q of
                Some _ \<Rightarrow> ret 0
              | None \<Rightarrow>
                  thn (lft (unlessNotFound (ix_Get L (retrievalAccessIndex db) item s))) (\<lambda>a.
                  thn (case a of
                         None \<Rightarrow> thn (now db) (\<lambda>n. let item = item\<lparr>it_AccessTimestamp := n\<rparr> in
                                   thn (putB (retrievalAccessIndex db) item) (\<lambda>_. ret item))
                       | Some i \<Rightarrow> ret (item\<lparr>it_AccessTimestamp := it_AccessTimestamp i\<rparr>)) (\<lambda>item.
                  thn (putB (gcIndex db) item) (\<lambda>_. ret 1))))))))"

definition setRemove :: "'s LevelDB \<Rightarrow> 't LSConf \<Rightarrow> 's \<Rightarrow> Item \<Rightarrow> bool \<Rightarrow> ('t, int) act" where
  "setRemove L db s item check =
     thn (if it_AccessTimestamp item = 0
          then thn (lft (unlessNotFound (ix_Get L (retrievalAccessIndex db) item s))) (\<lambda>a.
                 ret (case a of Some i \<Rightarrow> item\<lparr>it_AccessTimestamp := it_AccessTimestamp i\<rparr> | None \<Rightarrow> item))
          else ret item) (\<lambda>item.
     thn (if it_StoreTimestamp item = 0 then lft (ix_Get L (retrievalDataIndex db) item s) else ret item) (\<lambda>item.
     thn (delB (retrievalDataIndex db) item) (\<lambda>_.
     thn (delB (retrievalAccessIndex db) item) (\<lambda>_.
     thn (delB (pullIndex db) item) (\<lambda>_.
     thn (delB (postageChunksIndex db) item) (\<lambda>_.
     thn (if check then thn (lft (unlessNotFound (ix_Get L (gcIndex db) item s))) (\<lambda>g. ret (g \<noteq> None)) else ret True) (\<lambda>inGC.
     if \<not> inGC then thn (delB (pinIndex db) item) (\<lambda>_. ret 0)
     else thn (delB (gcIndex db) item) (\<lambda>_. ret (- 1)))))))))"

definition withinRadius :: "'t LSConf \<Rightarrow> Item \<Rightarrow> bool" where
  "withinRadius db item \<longleftrightarrow> it_Radius item \<le> po (lc_baseKey db) (slice_of (it_Address item))"

definition preserveOrCache :: "'s LevelDB \<Rightarrow> 't LSConf \<Rightarrow> 's \<Rightarrow> Item \<Rightarrow> bool \<Rightarrow> bool \<Rightarrow> ('t, int) act" where
  "preserveOrCache L db s item forcePin forceCache =
     (if \<not> forceCache \<and> (withinRadius db item \<or> forcePin)
      then thn (if \<not> forcePin then incReserveSizeInBatch L db s 1 else ret ()) (\<lambda>_. setPin L db s item)
      else
        thn (lft (ix_Has L (pinIndex db) item s)) (\<lambda>ok.
        if ok then ret 0
        else thn (lft (unlessNotFound (ix_Has L (gcIndex db) item s))) (\<lambda>exists.
             if exists = Some True then ret 0
             else thn (putB (gcIndex db) item) (\<lambda>_. ret 1))))"

definition setSync :: "'s LevelDB \<Rightarrow> 't LSConf \<Rightarrow> 's \<Rightarrow> Address \<Rightarrow> ('t, int) act" where
  "setSync L db s addr =
     (let item = address_item addr in
      thn (lft (unlessNotFound (ix_Get L (retrievalDataIndex db) item s))) (\<lambda>d.
      case d of
        None \<Rightarrow> thn (delB (pushIndex db) item) (\<lambda>_. ret 0)
      | Some i \<Rightarrow>
          let item = item\<lparr>it_StoreTimestamp := it_StoreTimestamp i, it_BinID := it_BinID i, it_BatchID := it_BatchID i,
                          it_Index := it_Index i, it_Timestamp := it_Timestamp i\<rparr> in
          thn (lft (unlessNotFound (ix_Get L (pushIndex db) item s))) (\<lambda>q.
          thn (\<lambda>t. case (q, lc_tags db) of
                 (Some i, Some inc) \<Rightarrow>
                   if it_Tag i = 0 then (Inr (), t)
                   else (case inc (it_Tag i) (tx_tags t) of
                           (TagIncErr e, tg) \<Rightarrow> (Inl e, t\<lparr>tx_tags := tg\<rparr>)
                         | (_, tg) \<Rightarrow> (Inr (), t\<lparr>tx_tags := tg\<rparr>))
               | _ \<Rightarrow> (Inr (), t)) (\<lambda>_.
          thn (delB (pushIndex db) item) (\<lambda>_.
          thn (lft (unlessNotFound (ix_Get L (retrievalAccessIndex db) item s))) (\<lambda>a.
          thn (case a of
                 None \<Rightarrow> thn (now db) (\<lambda>n. let item = item\<lparr>it_AccessTimestamp := n\<rparr> in
                           thn (putB (retrievalAccessIndex db) item) (\<lambda>_. ret item))
               | Some i1 \<Rightarrow> ret (item\<lparr>it_AccessTimestamp := it_AccessTimestamp i1\<rparr>)) (\<lambda>item.
          preserveOrCache L db s item False False)))))))"

section \<open>Putting chunks\<close>

definition chunkToItem :: "Stamp chunk \<Rightarrow> sh_error + Item" where
  "chunkToItem ch =
     (case ch_stamp ch of
        None \<Rightarrow> Inl sh_Panic
      | Some stamp \<Rightarrow>
          Inr (zero_item\<lparr>it_Address := Some (ch_addr ch), it_Data := Some (ch_sdata ch), it_Tag := ch_tagID ch,
                         it_BatchID := sp_batchID stamp, it_Index := sp_index stamp, it_Timestamp := sp_timestamp stamp,
                         it_Sig := sp_sig stamp, it_Depth := ch_depth ch, it_Radius := ch_radius ch,
                         it_BucketDepth := ch_bucketDepth ch, it_Immutable := ch_immutable ch\<rparr>))"

definition later :: "Item \<Rightarrow> Item \<Rightarrow> sh_error + bool" where
  "later previous current =
     (case go_Uint64 (it_Timestamp previous) of
        Inl e \<Rightarrow> Inl e
      | Inr pts \<Rightarrow> (case go_Uint64 (it_Timestamp current) of Inl e \<Rightarrow> Inl e | Inr cts \<Rightarrow> Inr (pts < cts)))"

fun containsChunk :: "Address \<Rightarrow> Stamp chunk list \<Rightarrow> bool" where
  "containsChunk addr [] = False"
| "containsChunk addr (c # chs) = (if addr_Equal addr (ch_addr c) then True else containsChunk addr chs)"

text \<open>The start the three put operations share: the chunk is there already, or its stamp index is taken (\<open>ErrOverwrite\<close> when the
  batch is immutable, nothing happens when the new stamp is not later, else the earlier chunk is removed). \<open>Inl\<close> ends the operation.\<close>

definition replacePrevious :: "'s LevelDB \<Rightarrow> 't LSConf \<Rightarrow> 's \<Rightarrow> Item \<Rightarrow> ('t, bool + int option) act" where
  "replacePrevious L db s item =
     thn (lft (ix_Has L (retrievalDataIndex db) item s)) (\<lambda>exists.
     if exists then ret (Inl True)
     else thn (lft (unlessNotFound (ix_Get L (postageIndexIndex db) item s))) (\<lambda>p.
          case p of
            None \<Rightarrow> ret (Inr None)
          | Some previous \<Rightarrow>
              if it_Immutable item then lft (Inl ErrOverwrite)
              else thn (lft (later previous item)) (\<lambda>l.
                   if \<not> l then ret (Inl False)
                   else thn (setRemove L db s previous True) (\<lambda>c. ret (Inr (Some c))))))"

text \<open>The reserve shrinks by the chunk that was replaced.\<close>

definition releaseReplaced :: "'s LevelDB \<Rightarrow> 't LSConf \<Rightarrow> 's \<Rightarrow> Item \<Rightarrow> ('t, unit) act" where
  "releaseReplaced L db s item =
     thn (lft (unlessNotFound (ix_Get L (postageRadiusIndex db) item s))) (\<lambda>r.
       case r of
         None \<Rightarrow> ret ()
       | Some radius \<Rightarrow>
           if it_Radius radius \<le> po (lc_baseKey db) (slice_of (it_Address item)) then incReserveSizeInBatch L db s (- 1) else ret ())"

definition putRequest :: "'s LevelDB \<Rightarrow> 't LSConf \<Rightarrow> 's \<Rightarrow> Item \<Rightarrow> bool \<Rightarrow> bool \<Rightarrow> ('t, bool \<times> int) act" where
  "putRequest L db s item forcePin forceCache =
     thn (replacePrevious L db s item) (\<lambda>r.
       case r of
         Inl exists \<Rightarrow> ret (exists, 0)
       | Inr removed \<Rightarrow>
           let gcSizeChange = (case removed of None \<Rightarrow> 0 | Some c \<Rightarrow> c) in
           thn (if removed \<noteq> None then releaseReplaced L db s item else ret ()) (\<lambda>_.
           thn (now db) (\<lambda>n. let item = item\<lparr>it_StoreTimestamp := n\<rparr> in
           thn (incBinID L db s (po (lc_baseKey db) (slice_of (it_Address item)))) (\<lambda>b. let item = item\<lparr>it_BinID := b\<rparr> in
           thn (putB (retrievalDataIndex db) item) (\<lambda>_.
           thn (putB (postageChunksIndex db) item) (\<lambda>_.
           thn (putB (postageIndexIndex db) item) (\<lambda>_.
           thn (now db) (\<lambda>n. let item = item\<lparr>it_AccessTimestamp := n\<rparr> in
           thn (putB (retrievalAccessIndex db) item) (\<lambda>_.
           thn (preserveOrCache L db s item forcePin forceCache) (\<lambda>gcSizeChangeNew.
           thn (if \<not> forceCache then putB (pullIndex db) item else ret ()) (\<lambda>_.
           ret (False, gcSizeChange + gcSizeChangeNew))))))))))))"

definition putUpload :: "'s LevelDB \<Rightarrow> 't LSConf \<Rightarrow> 's \<Rightarrow> Item \<Rightarrow> ('t, bool \<times> int) act" where
  "putUpload L db s item =
     thn (replacePrevious L db s item) (\<lambda>r.
       case r of
         Inl exists \<Rightarrow> ret (exists, 0)
       | Inr removed \<Rightarrow>
           thn (now db) (\<lambda>n. let item = item\<lparr>it_StoreTimestamp := n\<rparr> in
           thn (incBinID L db s (po (lc_baseKey db) (slice_of (it_Address item)))) (\<lambda>b. let item = item\<lparr>it_BinID := b\<rparr> in
           thn (putB (retrievalDataIndex db) item) (\<lambda>_.
           thn (putB (pullIndex db) item) (\<lambda>_.
           thn (putB (pushIndex db) item) (\<lambda>_.
           thn (putB (postageIndexIndex db) item) (\<lambda>_.
           thn (putB (postageChunksIndex db) item) (\<lambda>_.
           ret (False, 0)))))))))"

definition putSync :: "'s LevelDB \<Rightarrow> 't LSConf \<Rightarrow> 's \<Rightarrow> Item \<Rightarrow> ('t, bool \<times> int) act" where
  "putSync L db s item =
     thn (replacePrevious L db s item) (\<lambda>r.
       case r of
         Inl exists \<Rightarrow> ret (exists, 0)
       | Inr removed \<Rightarrow>
           thn (if removed \<noteq> None then releaseReplaced L db s item else ret ()) (\<lambda>_.
           thn (now db) (\<lambda>n. let item = item\<lparr>it_StoreTimestamp := n\<rparr> in
           thn (incBinID L db s (po (lc_baseKey db) (slice_of (it_Address item)))) (\<lambda>b. let item = item\<lparr>it_BinID := b\<rparr> in
           thn (putB (retrievalDataIndex db) item) (\<lambda>_.
           thn (putB (pullIndex db) item) (\<lambda>_.
           thn (putB (postageChunksIndex db) item) (\<lambda>_.
           thn (putB (postageIndexIndex db) item) (\<lambda>_.
           thn (now db) (\<lambda>n. let item = item\<lparr>it_AccessTimestamp := n\<rparr> in
           thn (putB (retrievalAccessIndex db) item) (\<lambda>_.
           thn (preserveOrCache L db s item False False) (\<lambda>gcSizeChangeNew.
           ret (False, gcSizeChangeNew))))))))))))"

text \<open>One turn of the loops of \<open>put\<close>, by mode.\<close>

definition put_one :: "'s LevelDB \<Rightarrow> 't LSConf \<Rightarrow> 's \<Rightarrow> ModePut \<Rightarrow> Stamp chunk list \<Rightarrow> Stamp chunk \<Rightarrow> ('t, bool \<times> int) act" where
  "put_one L db s mode earlier ch =
     (if containsChunk (ch_addr ch) earlier then ret (True, 0)
      else thn (lft (chunkToItem ch)) (\<lambda>item.
        case mode of
          ModePutRequest \<Rightarrow> putRequest L db s item False False
        | ModePutRequestPin \<Rightarrow> putRequest L db s item True False
        | ModePutRequestCache \<Rightarrow> putRequest L db s item False True
        | ModePutUpload \<Rightarrow> putUpload L db s item
        | ModePutUploadPin \<Rightarrow>
            thn (putUpload L db s item) (\<lambda>(exists, c). thn (setPin L db s item) (\<lambda>c1. ret (exists, c + c1)))
        | ModePutSync \<Rightarrow> putSync L db s item))"

fun put_loop :: "'s LevelDB \<Rightarrow> 't LSConf \<Rightarrow> 's \<Rightarrow> ModePut \<Rightarrow> Stamp chunk list \<Rightarrow> Stamp chunk list \<Rightarrow> ('t, bool list \<times> int) act" where
  "put_loop L db s mode earlier [] = ret ([], 0)"
| "put_loop L db s mode earlier (ch # chs) =
     thn (put_one L db s mode earlier ch) (\<lambda>(exists, c).
     thn (put_loop L db s mode (earlier @ [ch]) chs) (\<lambda>(exist, cs). ret (exists # exist, c + cs)))"

definition put_binIDs :: "'t LSConf \<Rightarrow> ('t, unit) act" where
  "put_binIDs db t = (Inr (), t\<lparr>tx_batch := fold (\<lambda>(p, i) b. vec_PutInBatch (lc_binIDs db) (ucast p) i b) (tx_binIDs t) (tx_batch t)\<rparr>)"

text \<open>An operation under the lock: it starts with an empty batch, and the batch is written when it succeeds.\<close>

definition run_act :: "'s LevelDB \<Rightarrow> ('s, 't) LS \<Rightarrow> ('t, 'a) act \<Rightarrow> (sh_error + 'a) \<times> ('s, 't) LS" where
  "run_act L st a =
     (case a \<lparr>tx_batch = [], tx_binIDs = [], tx_tags = ls_tags st, tx_ticks = ls_ticks st, tx_gcTrigger = ls_gcTrigger st,
              tx_evictTrigger = ls_evictTrigger st\<rparr> of
        (r, t) \<Rightarrow>
          let st1 = st\<lparr>ls_tags := tx_tags t, ls_ticks := tx_ticks t, ls_gcTrigger := tx_gcTrigger t, ls_evictTrigger := tx_evictTrigger t\<rparr> in
          case r of
            Inl e \<Rightarrow> (Inl e, st1)
          | Inr x \<Rightarrow> (case ld_Write L (tx_batch t) (ls_shed st1) of Inl e \<Rightarrow> (Inl e, st1) | Inr s1 \<Rightarrow> (Inr x, st1\<lparr>ls_shed := s1\<rparr>)))"

definition mark_dirty :: "Address list \<Rightarrow> ('s, 't) LS \<Rightarrow> ('s, 't) LS" where
  "mark_dirty addrs st = (if ls_gcRunning st then st\<lparr>ls_dirty := ls_dirty st @ addrs\<rparr> else st)"

definition ls_put :: "'s LevelDB \<Rightarrow> 't LSConf \<Rightarrow> ModePut \<Rightarrow> Stamp chunk list \<Rightarrow> ('s, 't) LS \<Rightarrow> (sh_error + bool list) \<times> ('s, 't) LS" where
  "ls_put L db mode chs st =
     (let locked =
        (let st1 = mark_dirty (map ch_addr chs) st; s = ls_shed st in
         run_act L st1 (thn (put_loop L db s mode [] chs) (\<lambda>(exist, gcSizeChange).
           thn (put_binIDs db) (\<lambda>_. thn (incGCSizeInBatch L db s gcSizeChange) (\<lambda>_. ret exist))))) in
      if length chs = 1 \<and> mode \<noteq> ModePutRequestPin \<and> mode \<noteq> ModePutUploadPin
      then (case chunkToItem (hd chs) of
              Inl e \<Rightarrow> (Inl e, st)
            | Inr item \<Rightarrow>
               (case ix_Has L (retrievalDataIndex db) item (ls_shed st) of
                  Inl e \<Rightarrow> (Inl e, st)
                | Inr has \<Rightarrow> if has then (Inr [True], st) else locked))
      else locked)"

section \<open>Setting\<close>

definition set_one :: "'s LevelDB \<Rightarrow> 't LSConf \<Rightarrow> 's \<Rightarrow> ModeSet \<Rightarrow> Address \<Rightarrow> ('t, int) act" where
  "set_one L db s mode addr =
     (case mode of
        ModeSetSync \<Rightarrow> setSync L db s addr
      | ModeSetRemove \<Rightarrow> setRemove L db s (address_item addr) True
      | ModeSetPin \<Rightarrow> setPin L db s (address_item addr)
      | ModeSetUnpin \<Rightarrow> setUnpin L db s addr)"

fun set_loop :: "'s LevelDB \<Rightarrow> 't LSConf \<Rightarrow> 's \<Rightarrow> ModeSet \<Rightarrow> Address list \<Rightarrow> ('t, int) act" where
  "set_loop L db s mode [] = ret 0"
| "set_loop L db s mode (a # addrs) =
     thn (set_one L db s mode a) (\<lambda>c. thn (set_loop L db s mode addrs) (\<lambda>cs. ret (c + cs)))"

definition ls_set :: "'s LevelDB \<Rightarrow> 't LSConf \<Rightarrow> ModeSet \<Rightarrow> Address list \<Rightarrow> ('s, 't) LS \<Rightarrow> (sh_error + unit) \<times> ('s, 't) LS" where
  "ls_set L db mode addrs st =
     (let st1 = mark_dirty addrs st; s = ls_shed st in
      run_act L st1 (thn (set_loop L db s mode addrs) (\<lambda>gcSizeChange. incGCSizeInBatch L db s gcSizeChange)))"

section \<open>Getting\<close>

text \<open>\<open>get\<close> returns the item and, for a request, the items whose access the goroutine of \<open>updateGCItems\<close> notes later.\<close>

definition ls_get :: "'s LevelDB \<Rightarrow> 't LSConf \<Rightarrow> ModeGet \<Rightarrow> Address \<Rightarrow> 's \<Rightarrow> (sh_error + Item) \<times> Item list" where
  "ls_get L db mode addr s =
     (let item = address_item addr in
      case ix_Get L (retrievalDataIndex db) item s of
        Inl e \<Rightarrow> (Inl e, [])
      | Inr out \<Rightarrow>
         (case mode of
            ModeGetRequest \<Rightarrow> (Inr out, [out])
          | ModeGetPin \<Rightarrow> (ix_Get L (pinIndex db) item s, [])
          | ModeGetSync \<Rightarrow> (Inr out, [])
          | ModeGetLookup \<Rightarrow> (Inr out, [])
          | ModeGetRequestPin \<Rightarrow> (Inl ErrInvalidMode, [])))"

definition item_chunk :: "Item \<Rightarrow> Stamp chunk" where
  "item_chunk out =
     WithStamp (NewStamp (it_BatchID out) (it_Index out) (it_Timestamp out) (it_Sig out))
       (NewChunk (NewAddress (slice_of (it_Address out))) (slice_of (it_Data out)))"

text \<open>\<open>storage.ErrNotFound\<close> and the one of LevelDB are both \<open>sh_NotFound\<close>.\<close>

definition ls_Get :: "'s LevelDB \<Rightarrow> 't LSConf \<Rightarrow> ModeGet \<Rightarrow> Address \<Rightarrow> 's \<Rightarrow> (sh_error + Stamp chunk) \<times> Item list" where
  "ls_Get L db mode addr s = (case ls_get L db mode addr s of (r, up) \<Rightarrow> (map_sum id item_chunk r, up))"

definition ls_getMulti :: "'s LevelDB \<Rightarrow> 't LSConf \<Rightarrow> ModeGet \<Rightarrow> Address list \<Rightarrow> 's \<Rightarrow> (sh_error + Item list) \<times> Item list" where
  "ls_getMulti L db mode addrs s =
     (case ix_Fill L (retrievalDataIndex db) (map address_item addrs) s of
        Inl e \<Rightarrow> (Inl e, [])
      | Inr out \<Rightarrow>
         (case mode of
            ModeGetRequest \<Rightarrow> (Inr out, out)
          | ModeGetPin \<Rightarrow> (ix_Fill L (pinIndex db) out s, [])
          | ModeGetSync \<Rightarrow> (Inr out, [])
          | ModeGetLookup \<Rightarrow> (Inr out, [])
          | ModeGetRequestPin \<Rightarrow> (Inl ErrInvalidMode, [])))"

definition ls_GetMulti :: "'s LevelDB \<Rightarrow> 't LSConf \<Rightarrow> ModeGet \<Rightarrow> Address list \<Rightarrow> 's \<Rightarrow> (sh_error + Stamp chunk list) \<times> Item list" where
  "ls_GetMulti L db mode addrs s = (case ls_getMulti L db mode addrs s of (r, up) \<Rightarrow> (map_sum id (map item_chunk) r, up))"

definition updateGC_act :: "'s LevelDB \<Rightarrow> 't LSConf \<Rightarrow> 's \<Rightarrow> Item \<Rightarrow> ('t, unit) act" where
  "updateGC_act L db s item =
     thn (delB (gcIndex db) item) (\<lambda>_.
     let g = ix_Get L (gcIndex db) item s in
     thn (now db) (\<lambda>n. let item = item\<lparr>it_AccessTimestamp := n\<rparr> in
     thn (lft (unlessNotFound g)) (\<lambda>g.
     thn (if g \<noteq> None then putB (gcIndex db) item else ret ()) (\<lambda>_.
     putB (retrievalAccessIndex db) item))))"

definition updateGC :: "'s LevelDB \<Rightarrow> 't LSConf \<Rightarrow> Item \<Rightarrow> ('s, 't) LS \<Rightarrow> (sh_error + unit) \<times> ('s, 't) LS" where
  "updateGC L db item st =
     (let st1 = mark_dirty [NewAddress (slice_of (it_Address item))] st in
      case unlessNotFound (ix_Get L (retrievalAccessIndex db) item (ls_shed st)) of
        Inl e \<Rightarrow> (Inl e, st1)
      | Inr a \<Rightarrow>
          let item = (case a of Some i \<Rightarrow> item\<lparr>it_AccessTimestamp := it_AccessTimestamp i\<rparr> | None \<Rightarrow> item) in
          if it_AccessTimestamp item = 0 then (Inr (), st1)
          else run_act L st1 (updateGC_act L db (ls_shed st) item))"

definition ls_Has :: "'s LevelDB \<Rightarrow> 't LSConf \<Rightarrow> Address \<Rightarrow> 's \<Rightarrow> sh_error + bool" where
  "ls_Has L db addr s = ix_Has L (retrievalDataIndex db) (address_item addr) s"

definition ls_HasMulti :: "'s LevelDB \<Rightarrow> 't LSConf \<Rightarrow> Address list \<Rightarrow> 's \<Rightarrow> sh_error + bool list" where
  "ls_HasMulti L db addrs s = ix_HasMulti L (retrievalDataIndex db) (map address_item addrs) s"

definition pinCounter :: "'s LevelDB \<Rightarrow> 't LSConf \<Rightarrow> Address \<Rightarrow> 's \<Rightarrow> sh_error + u64" where
  "pinCounter L db addr s = map_sum id it_PinCounter (ix_Get L (pinIndex db) (address_item addr) s)"

section \<open>Garbage collection\<close>

definition gcBatchSize :: u64 where "gcBatchSize = 2000"
definition reserveEvictionBatch :: u64 where "reserveEvictionBatch = 200"

text \<open>The first part of \<open>collectGarbage\<close>, under the lock: addresses that change from now on are noted.\<close>

definition gc_begin :: "('s, 't) LS \<Rightarrow> ('s, 't) LS" where
  "gc_begin st = st\<lparr>ls_gcRunning := True\<rparr>"

definition gc_end :: "('s, 't) LS \<Rightarrow> ('s, 't) LS" where
  "gc_end st = st\<lparr>ls_gcRunning := False, ls_dirty := []\<rparr>"

text \<open>The second part, without the lock: the oldest entries of the index, down to the target, at most a batch. \<open>Inl\<close> is the result of
  an early return.\<close>

definition gc_pick :: "u64 \<Rightarrow> u64 \<Rightarrow> (Item list \<times> u64) IndexIterFunc" where
  "gc_pick gcSize target item c =
     (case c of (candidates, collectedCount) \<Rightarrow>
      if gcSize - collectedCount \<le> target then (Inr True, c)
      else (Inr (gcBatchSize \<le> collectedCount + 1), (candidates @ [item], collectedCount + 1)))"

definition gc_candidates :: "'s LevelDB \<Rightarrow> 't LSConf \<Rightarrow> 's \<Rightarrow> (bool \<times> sh_error option) + (Item list \<times> u64)" where
  "gc_candidates L db s =
     (case u64_Get L (lc_gcSize db) s of
        Inl e \<Rightarrow> Inl (True, Some e)
      | Inr gcSize \<Rightarrow>
          if gcSize = lc_gcTarget db then Inl (True, None)
          else (case ix_Iterate L (gcIndex db) (gc_pick gcSize (lc_gcTarget db)) default_options s ([], 0) of
                  (Some e, _) \<Rightarrow> Inl (False, Some e)
                | (None, c) \<Rightarrow> Inr c))"

text \<open>The third part, under the lock: what has not changed is deleted.\<close>

fun gc_delete :: "'t LSConf \<Rightarrow> Address list \<Rightarrow> Item list \<Rightarrow> u64 \<Rightarrow> ('t, u64) act" where
  "gc_delete db dirty [] collectedCount = ret collectedCount"
| "gc_delete db dirty (item # items) collectedCount =
     (if MemberOf (NewAddress (slice_of (it_Address item))) dirty then gc_delete db dirty items (collectedCount - 1)
      else
        thn (delB (retrievalDataIndex db) item) (\<lambda>_.
        thn (delB (retrievalAccessIndex db) item) (\<lambda>_.
        thn (delB (pullIndex db) item) (\<lambda>_.
        thn (delB (gcIndex db) item) (\<lambda>_.
        thn (delB (postageChunksIndex db) item) (\<lambda>_.
        thn (delB (postageIndexIndex db) item) (\<lambda>_.
        gc_delete db dirty items collectedCount)))))))"

definition gc_collect :: "'s LevelDB \<Rightarrow> 't LSConf \<Rightarrow> Item list \<times> u64 \<Rightarrow> ('s, 't) LS \<Rightarrow> (sh_error + (u64 \<times> bool)) \<times> ('s, 't) LS" where
  "gc_collect L db c st =
     (case u64_Get L (lc_gcSize db) (ls_shed st) of
        Inl e \<Rightarrow> (Inl e, st)
      | Inr gcSize \<Rightarrow>
          run_act L st (thn (gc_delete db (ls_dirty st) (fst c) (snd c)) (\<lambda>collectedCount t.
            (Inr (collectedCount, \<not> lc_gcTarget db < gcSize - collectedCount),
             t\<lparr>tx_batch := u64_PutInBatch (lc_gcSize db) (gcSize - collectedCount) (tx_batch t)\<rparr>))))"

text \<open>A run without other operations in between.\<close>

definition collectGarbage :: "'s LevelDB \<Rightarrow> 't LSConf \<Rightarrow> ('s, 't) LS \<Rightarrow> (u64 \<times> bool \<times> sh_error option) \<times> ('s, 't) LS" where
  "collectGarbage L db st =
     (let st1 = gc_begin st in
      case gc_candidates L db (ls_shed st1) of
        Inl (done, err) \<Rightarrow> ((0, done, err), gc_end st1)
      | Inr c \<Rightarrow>
         (case gc_collect L db c st1 of
            (Inl e, st2) \<Rightarrow> ((0, False, Some e), gc_end st2)
          | (Inr (collectedCount, done), st2) \<Rightarrow> ((collectedCount, done, None), gc_end st2)))"

text \<open>A turn of the worker: it waits for the trigger and triggers itself again when it is not done.\<close>

definition collectGarbageWorker :: "'s LevelDB \<Rightarrow> 't LSConf \<Rightarrow> ('s, 't) LS \<Rightarrow> ('s, 't) LS option" where
  "collectGarbageWorker L db st =
     (if \<not> ls_gcTrigger st then None
      else (case collectGarbage L db (st\<lparr>ls_gcTrigger := False\<rparr>) of
              ((_, done, _), st1) \<Rightarrow> Some (if \<not> done then st1\<lparr>ls_gcTrigger := True\<rparr> else st1)))"

section \<open>The reserve\<close>

text \<open>The callback of \<open>UnreserveBatch\<close>; it carries the changes of the two counters beside the batch.\<close>

definition unpin_cb :: "'s LevelDB \<Rightarrow> 't LSConf \<Rightarrow> 's \<Rightarrow> (int \<times> u64 \<times> 't Tx) IndexIterFunc" where
  "unpin_cb L db s item c =
     (case c of (gcSizeChange, reserveSizeChange, t) \<Rightarrow>
      case setUnpin L db s (NewAddress (slice_of (it_Address item))) t of
        (Inl e, t1) \<Rightarrow> if e = sh_NotFound then (Inr False, (gcSizeChange, reserveSizeChange, t1)) else (Inl e, (gcSizeChange, reserveSizeChange, t1))
      | (Inr c, t1) \<Rightarrow> (Inr False, (gcSizeChange + c, reserveSizeChange + 1, t1)))"

definition unreserve_bin :: "'s LevelDB \<Rightarrow> 't LSConf \<Rightarrow> 's \<Rightarrow> bytes \<Rightarrow> u8 \<Rightarrow> u64 \<Rightarrow> ('t, u64) act" where
  "unreserve_bin L db s batchID bin reserveSizeChange t =
     (case ix_Iterate L (postageChunksIndex db) (unpin_cb L db s) (default_options\<lparr>io_Prefix := batchID @ [bin]\<rparr>) s (0, reserveSizeChange, t) of
        (Some e, (_, _, t1)) \<Rightarrow> (Inl e, t1)
      | (None, (gcSizeChange, reserveSizeChange, t1)) \<Rightarrow>
          thn (incGCSizeInBatch L db s gcSizeChange) (\<lambda>_.
          let item = zero_item\<lparr>it_BatchID := batchID, it_Radius := bin\<rparr> in
          thn (putB (postageRadiusIndex db) item) (\<lambda>_.
          thn (if bin = MaxPO then delB (postageRadiusIndex db) item else ret ()) (\<lambda>_. ret reserveSizeChange))) t1)"

fun unreserve_bins :: "'s LevelDB \<Rightarrow> 't LSConf \<Rightarrow> bytes \<Rightarrow> u8 list \<Rightarrow> u64 \<Rightarrow> ('s, 't) LS \<Rightarrow> (sh_error + u64) \<times> ('s, 't) LS" where
  "unreserve_bins L db batchID [] n st = (Inr n, st)"
| "unreserve_bins L db batchID (bin # bins) n st =
     (case run_act L st (unreserve_bin L db (ls_shed st) batchID bin n) of
        (Inl e, st1) \<Rightarrow> (Inl e, st1)
      | (Inr n1, st1) \<Rightarrow> unreserve_bins L db batchID bins n1 st1)"

definition UnreserveBatch :: "'s LevelDB \<Rightarrow> 't LSConf \<Rightarrow> bytes \<Rightarrow> u8 \<Rightarrow> ('s, 't) LS \<Rightarrow> (sh_error + u64) \<times> ('s, 't) LS" where
  "UnreserveBatch L db batchID radius st =
     (case unlessNotFound (ix_Get L (postageRadiusIndex db) (zero_item\<lparr>it_BatchID := batchID\<rparr>) (ls_shed st)) of
        Inl e \<Rightarrow> (Inl e, st)
      | Inr i \<Rightarrow>
          let oldRadius = (case i of None \<Rightarrow> radius | Some i \<Rightarrow> it_Radius i) in
          case unreserve_bins L db batchID (map word_of_nat [unat oldRadius..<unat radius]) 0 st of
            (Inl e, st1) \<Rightarrow> (Inl e, st1)
          | (Inr n, st1) \<Rightarrow>
              case (if radius \<noteq> MaxPO + 1
                    then run_act L st1 (putB (postageRadiusIndex db) (zero_item\<lparr>it_BatchID := batchID, it_Radius := radius\<rparr>))
                    else (Inr (), st1)) of
                (Inl e, st2) \<Rightarrow> (Inl e, st2)
              | (Inr _, st2) \<Rightarrow>
                  case unlessNotFound (u64_Get L (lc_gcSize db) (ls_shed st2)) of
                    Inl e \<Rightarrow> (Inl e, st2)
                  | Inr g \<Rightarrow>
                      let gcSize = (case g of None \<Rightarrow> 0 | Some x \<Rightarrow> x) in
                      case (if 0 < n then run_act L st2 (incReserveSizeInBatch L db (ls_shed st2) (- uint n)) else (Inr (), st2)) of
                        (Inl e, st3) \<Rightarrow> (Inl e, st3)
                      | (Inr _, st3) \<Rightarrow> (Inr n, if lc_cacheCapacity db \<le> gcSize then st3\<lparr>ls_gcTrigger := True\<rparr> else st3))"

definition reserveEvictionTarget :: "'t LSConf \<Rightarrow> u64" where
  "reserveEvictionTarget db =
     (let targetCache = lc_reserveCapacity db - lc_cacheShare db;
          targetCeiling = lc_reserveCapacity db - lc_reserveShare db in
      if targetCache < targetCeiling then targetCeiling else targetCache)"

text \<open>The calls that \<open>unreserveFunc\<close> makes of its callback, and the error it ends with when none of them stops it.\<close>

fun evict_loop :: "'s LevelDB \<Rightarrow> 't LSConf \<Rightarrow> u64 \<Rightarrow> u64 \<Rightarrow> (bytes \<times> u8) list \<Rightarrow> sh_error option \<Rightarrow> u64 \<Rightarrow> ('s, 't) LS
     \<Rightarrow> (sh_error + (u64 \<times> bool)) \<times> ('s, 't) LS" where
  "evict_loop L db start target [] err evicted st = (case err of Some e \<Rightarrow> (Inl e, st) | None \<Rightarrow> (Inr (evicted, False), st))"
| "evict_loop L db start target ((batchID, radius) # calls) err evicted st =
     (case UnreserveBatch L db batchID radius st of
        (Inl e, st1) \<Rightarrow> (Inl e, st1)
      | (Inr n, st1) \<Rightarrow>
          let evicted1 = evicted + n in
          if start - evicted1 \<le> target then (Inr (evicted1, True), st1)
          else if reserveEvictionBatch \<le> evicted1 then (Inr (evicted1, False), st1)
          else evict_loop L db start target calls err evicted1 st1)"

definition evictReserve :: "'s LevelDB \<Rightarrow> 't LSConf \<Rightarrow> (bytes \<times> u8) list \<times> sh_error option \<Rightarrow> ('s, 't) LS
     \<Rightarrow> (u64 \<times> bool \<times> sh_error option) \<times> ('s, 't) LS" where
  "evictReserve L db unreserve st =
     (let target = reserveEvictionTarget db in
      case u64_Get L (lc_reserveSize db) (ls_shed st) of
        Inl e \<Rightarrow> ((0, False, Some e), st)
      | Inr reserveSizeStart \<Rightarrow>
          if reserveSizeStart = target then ((0, True, None), st)
          else (case evict_loop L db reserveSizeStart target (fst unreserve) (snd unreserve) 0 st of
                  (Inl e, st1) \<Rightarrow> ((0, False, Some e), st1)
                | (Inr (totalEvicted, done), st1) \<Rightarrow> ((totalEvicted, done \<or> fst unreserve = [], None), st1)))"

definition reserveEvictionWorker :: "'s LevelDB \<Rightarrow> 't LSConf \<Rightarrow> (bytes \<times> u8) list \<times> sh_error option \<Rightarrow> ('s, 't) LS \<Rightarrow> ('s, 't) LS option" where
  "reserveEvictionWorker L db unreserve st =
     (if \<not> ls_evictTrigger st then None
      else (case evictReserve L db unreserve (st\<lparr>ls_evictTrigger := False\<rparr>) of
              ((_, done, _), st1) \<Rightarrow> Some (if \<not> done then st1\<lparr>ls_evictTrigger := True\<rparr> else st1)))"

section \<open>Opening\<close>

definition then_s :: "'e + 'a \<Rightarrow> ('a \<Rightarrow> 'e + 'b) \<Rightarrow> 'e + 'b" where
  "then_s r f = (case r of Inl e \<Rightarrow> Inl e | Inr a \<Rightarrow> f a)"

definition DBSchemaCurrent :: string where "DBSchemaCurrent = ''batch-index''"

definition defaultCacheCapacity :: u64 where "defaultCacheCapacity = 1000000"

record 't LSOptions =
  op_Capacity :: u64
  op_ReserveCapacity :: u64
  op_Tags :: "(u32 \<Rightarrow> 't \<Rightarrow> tag_result \<times> 't) option"

text \<open>\<open>New\<close> with options: \<open>migrate\<close> stands for the migrations of an older schema, \<open>clock\<close> for \<open>now\<close>, and \<open>m9\<close>, \<open>m5\<close>, \<open>m1\<close> for
  the products of a capacity with 0.9, 0.5 and 0.1.\<close>

definition New_localstore ::
  "'s LevelDB \<Rightarrow> (schema \<Rightarrow> sh_error + bytes) \<Rightarrow> (bytes \<Rightarrow> sh_error + schema) \<Rightarrow> (string \<Rightarrow> 's \<Rightarrow> sh_error + 's) \<Rightarrow>
   (nat \<Rightarrow> u64) \<Rightarrow> (u64 \<Rightarrow> u64) \<Rightarrow> (u64 \<Rightarrow> u64) \<Rightarrow> (u64 \<Rightarrow> u64) \<Rightarrow> bytes \<Rightarrow> 't LSOptions \<Rightarrow> 's \<Rightarrow> sh_error + ('t LSConf \<times> 's)" where
  "New_localstore L je jd migrate clock m9 m5 m1 baseKey o0 s =
     (let cacheCapacity = (if op_Capacity o0 = 0 then defaultCacheCapacity else op_Capacity o0) in
      then_s (NewDBWrap L je jd s) (\<lambda>s.
      then_s (schemaFieldKey L je jd ''schema-name'' ''string'' s) (\<lambda>(schemaName, s).
      then_s (str_Get L schemaName s) (\<lambda>name.
      then_s (if name = '''' then str_Put L schemaName DBSchemaCurrent s else migrate name s) (\<lambda>s.
      then_s (schemaFieldKey L je jd ''gc-size'' ''uint64'' s) (\<lambda>(gcSize, s).
      then_s (schemaFieldKey L je jd ''reserve-size'' ''uint64'' s) (\<lambda>(reserveSize, s).
      then_s (NewIndex L je jd ''Address->StoreTimestamp|BinID|BatchID|BatchIndex|Sig|Data'' retrievalData_funcs s) (\<lambda>(dataIx, s).
      then_s (NewIndex L je jd ''Address->AccessTimestamp'' retrievalAccess_funcs s) (\<lambda>(accessIx, s).
      then_s (NewIndex L je jd ''PO|BinID->Hash'' (pull_funcs baseKey) s) (\<lambda>(pullIx, s).
      then_s (schemaFieldKey L je jd ''bin-ids'' ''vector-uint64'' s) (\<lambda>(binIDs, s).
      then_s (NewIndex L je jd ''StoreTimestamp|Hash->Tags'' push_funcs s) (\<lambda>(pushIx, s).
      then_s (NewIndex L je jd ''AccessTimestamp|BinID|Hash->BatchID|BatchIndex'' gc_funcs s) (\<lambda>(gcIx, s).
      then_s (NewIndex L je jd ''Hash->PinCounter'' pin_funcs s) (\<lambda>(pinIx, s).
      then_s (NewIndex L je jd ''BatchID|PO|Hash->nil'' (postageChunks_funcs baseKey) s) (\<lambda>(chunksIx, s).
      then_s (NewIndex L je jd ''BatchID->Radius'' postageRadius_funcs s) (\<lambda>(radiusIx, s).
      then_s (NewIndex L je jd ''BatchID|BatchIndex->Hash|Timestamp'' postageIndex_funcs s) (\<lambda>(indexIx, s).
      Inr (\<lparr>lc_baseKey = baseKey, lc_cacheCapacity = cacheCapacity, lc_reserveCapacity = op_ReserveCapacity o0,
            lc_gcTarget = m9 cacheCapacity, lc_cacheShare = m5 cacheCapacity, lc_reserveShare = m1 (op_ReserveCapacity o0),
            lc_tags = op_Tags o0, lc_now = clock, retrievalDataIndex = dataIx, retrievalAccessIndex = accessIx,
            pushIndex = pushIx, pullIndex = pullIx, gcIndex = gcIx, pinIndex = pinIx, postageChunksIndex = chunksIx,
            postageRadiusIndex = radiusIx, postageIndexIndex = indexIx, lc_binIDs = binIDs, lc_gcSize = gcSize,
            lc_reserveSize = reserveSize\<rparr>, s))))))))))))))))))"

end
