(* ===== verification/LocalstoreTyped.thy ===== *)
theory LocalstoreTyped
  imports Localstore
begin

text \<open>
  The layout of a database that \<open>New\<close> has created and the types of its entries: every index holds values of the length its decoder
  expects. Every operation keeps the entries well typed, so no operation panics in a decoder. The rules \<open>keeps\<close> (an operation on a
  batch keeps a predicate) carry this and the later proofs.
\<close>

section \<open>Predicates that operations keep\<close>

definition keeps :: "('t Tx \<Rightarrow> bool) \<Rightarrow> ('t, 'a) act \<Rightarrow> bool" where
  "keeps Q a \<longleftrightarrow> (\<forall>t. Q t \<longrightarrow> Q (snd (a t)))"

named_theorems keeps_rules \<open>predicates kept by the operations on a batch\<close>

lemma keeps_thn [keeps_rules]: "keeps Q m \<Longrightarrow> (\<And>a. keeps Q (f a)) \<Longrightarrow> keeps Q (thn m f)"
  by (auto simp: keeps_def thn_def split: prod.splits sum.splits)

lemma keeps_ret [keeps_rules]: "keeps Q (ret a)"
  by (simp add: keeps_def ret_def)

lemma keeps_lft [keeps_rules]: "keeps Q (lft r)"
  by (simp add: keeps_def lft_def)

lemma keeps_if [keeps_rules]: "(b \<Longrightarrow> keeps Q m) \<Longrightarrow> (\<not> b \<Longrightarrow> keeps Q n) \<Longrightarrow> keeps Q (if b then m else n)"
  by simp

lemma keeps_option [keeps_rules]: "(x = None \<Longrightarrow> keeps Q m) \<Longrightarrow> (\<And>a. x = Some a \<Longrightarrow> keeps Q (f a)) \<Longrightarrow> keeps Q (case x of None \<Rightarrow> m | Some a \<Rightarrow> f a)"
  by (cases x) simp_all

lemma keeps_sum [keeps_rules]: "(\<And>a. x = Inl a \<Longrightarrow> keeps Q (f a)) \<Longrightarrow> (\<And>a. x = Inr a \<Longrightarrow> keeps Q (g a)) \<Longrightarrow> keeps Q (case x of Inl a \<Rightarrow> f a | Inr a \<Rightarrow> g a)"
  by (cases x) simp_all

lemma keeps_prod [keeps_rules]: "(\<And>a b. x = (a, b) \<Longrightarrow> keeps Q (f a b)) \<Longrightarrow> keeps Q (case x of (a, b) \<Rightarrow> f a b)"
  by (cases x) simp_all

lemma keeps_let [keeps_rules]: "keeps Q (f a) \<Longrightarrow> keeps Q (let x = a in f x)"
  by simp

text \<open>A predicate on the batch only.\<close>

definition on_batch :: "(LBatch \<Rightarrow> bool) \<Rightarrow> 't Tx \<Rightarrow> bool" where
  "on_batch P t = P (tx_batch t)"

lemma keeps_now [keeps_rules]: "keeps (on_batch P) (now db)"
  by (simp add: keeps_def on_batch_def now_def)

lemma keeps_incBinID [keeps_rules]: "keeps (on_batch P) (incBinID L db s b)"
  by (auto simp: keeps_def on_batch_def incBinID_def split: sum.splits option.splits)

lemma keeps_putB: "(\<And>k v bs. ItemKey f i = Inr k \<Longrightarrow> ix_EncodeValue f i = Inr v \<Longrightarrow> P bs \<Longrightarrow> P (bs @ [BPut k v])) \<Longrightarrow> keeps (on_batch P) (putB f i)"
  by (auto simp: keeps_def on_batch_def putB_def ix_PutInBatch_def split: sum.splits)

lemma keeps_delB: "(\<And>k bs. ItemKey f i = Inr k \<Longrightarrow> P bs \<Longrightarrow> P (bs @ [BDel k])) \<Longrightarrow> keeps (on_batch P) (delB f i)"
  by (auto simp: keeps_def on_batch_def delB_def ix_DeleteInBatch_def split: sum.splits)

lemma keeps_incGC: "(\<And>v bs. P bs \<Longrightarrow> P (bs @ [BPut (lc_gcSize db) (encodeUint64 v)])) \<Longrightarrow> keeps (on_batch P) (incGCSizeInBatch L db s c)"
  unfolding incGCSizeInBatch_def
  by (auto simp: keeps_def on_batch_def ret_def thn_def lft_def u64_PutInBatch_def Let_def split: sum.splits option.splits)

lemma keeps_incReserve: "(\<And>v bs. P bs \<Longrightarrow> P (bs @ [BPut (lc_reserveSize db) (encodeUint64 v)])) \<Longrightarrow> keeps (on_batch P) (incReserveSizeInBatch L db s c)"
  unfolding incReserveSizeInBatch_def
  by (auto simp: keeps_def on_batch_def ret_def thn_def lft_def u64_PutInBatch_def Let_def split: sum.splits option.splits)

lemma keeps_put_binIDs:
  assumes "\<And>p v bs. P bs \<Longrightarrow> P (bs @ [BPut (indexKey (lc_binIDs db) p) (encodeUint64 v)])"
  shows "keeps (on_batch P) (put_binIDs db)"
proof -
  have "P bs \<Longrightarrow> P (fold (\<lambda>(p, i) b. vec_PutInBatch (lc_binIDs db) (ucast p) i b) xs bs)" for xs :: "(u8 \<times> u64) list" and bs
    by (induction xs arbitrary: bs) (auto simp: vec_PutInBatch_def u64_PutInBatch_def assms)
  then show ?thesis by (simp add: keeps_def on_batch_def put_binIDs_def)
qed

lemma keeps_tags: "keeps (on_batch P) (\<lambda>t. case (q, inc) of
                 (Some i, Some inc) \<Rightarrow>
                   if it_Tag i = 0 then (Inr (), t)
                   else (case inc (it_Tag i) (tx_tags t) of
                           (TagIncErr e, tg) \<Rightarrow> (Inl e, t\<lparr>tx_tags := tg\<rparr>)
                         | (_, tg) \<Rightarrow> (Inr (), t\<lparr>tx_tags := tg\<rparr>))
               | _ \<Rightarrow> (Inr (), t))"
  by (auto simp: keeps_def on_batch_def split: option.splits prod.splits tag_result.splits)

section \<open>The layout\<close>

text \<open>The prefixes are handed out from 2 on in the order in which \<open>New\<close> asks for them.\<close>

definition ls_layout :: "'t LSConf \<Rightarrow> bool" where
  "ls_layout db \<longleftrightarrow>
     retrievalDataIndex db = index_of 2 retrievalData_funcs \<and> retrievalAccessIndex db = index_of 3 retrievalAccess_funcs \<and>
     pullIndex db = index_of 4 (pull_funcs (lc_baseKey db)) \<and> pushIndex db = index_of 5 push_funcs \<and> gcIndex db = index_of 6 gc_funcs \<and>
     pinIndex db = index_of 7 pin_funcs \<and> postageChunksIndex db = index_of 8 (postageChunks_funcs (lc_baseKey db)) \<and>
     postageRadiusIndex db = index_of 9 postageRadius_funcs \<and> postageIndexIndex db = index_of 10 postageIndex_funcs \<and>
     lc_gcSize db = 1 # bytes_of_string ''gc-size'' \<and> lc_reserveSize db = 1 # bytes_of_string ''reserve-size'' \<and>
     lc_binIDs db = 1 # bytes_of_string ''bin-ids''"

lemmas funcs_defs = retrievalData_funcs_def retrievalAccess_funcs_def pull_funcs_def push_funcs_def gc_funcs_def pin_funcs_def
  postageChunks_funcs_def postageRadius_funcs_def postageIndex_funcs_def

lemma ItemKey_index: "ItemKey (index_of p f) i = map_sum id (Cons p) (if_EncodeKey f i)"
  by (simp add: ItemKey_def index_of_def split: sum.splits)

lemma layout_fields:
  assumes "ls_layout db"
  shows "lc_gcSize db = 1 # bytes_of_string ''gc-size''" "lc_reserveSize db = 1 # bytes_of_string ''reserve-size''"
    "lc_binIDs db = 1 # bytes_of_string ''bin-ids''"
  using assms by (simp_all add: ls_layout_def)

lemma layout_keys:
  assumes "ls_layout db"
  shows "ItemKey (retrievalDataIndex db) i = Inr (2 # slice_of (it_Address i))"
    and "ItemKey (retrievalAccessIndex db) i = Inr (3 # slice_of (it_Address i))"
    and "ItemKey (pullIndex db) i = Inr (4 # po (lc_baseKey db) (slice_of (it_Address i)) # be_bytes 8 (unat (it_BinID i)))"
    and "ItemKey (pushIndex db) i = Inr (5 # go_copy 8 40 (slice_of (it_Address i)) (be_bytes 8 (unat (it_StoreTimestamp i)) @ replicate 32 0))"
    and "ItemKey (gcIndex db) i = Inr (6 # be_bytes 8 (unat (it_AccessTimestamp i)) @ be_bytes 8 (unat (it_BinID i)) @ slice_of (it_Address i))"
    and "ItemKey (pinIndex db) i = Inr (7 # slice_of (it_Address i))"
    and "ItemKey (postageChunksIndex db) i =
      Inr (8 # go_copy 33 65 (slice_of (it_Address i)) ((go_copy 0 32 (it_BatchID i) (replicate 65 0))[32 := po (lc_baseKey db) (slice_of (it_Address i))]))"
    and "ItemKey (postageRadiusIndex db) i = Inr (9 # go_copy 0 32 (it_BatchID i) (replicate 32 0))"
    and "ItemKey (postageIndexIndex db) i = Inr (10 # go_copy 32 40 (it_Index i) (go_copy 0 32 (it_BatchID i) (replicate 40 0)))"
  using assms by (simp_all add: ls_layout_def ItemKey_index funcs_defs)

section \<open>Well-typed entries\<close>

definition typed_entry :: "bytes \<Rightarrow> bytes \<Rightarrow> bool" where
  "typed_entry k v \<longleftrightarrow>
     (case k of
        [] \<Rightarrow> True
      | p # r \<Rightarrow>
          (p = 1 \<longrightarrow> r = bytes_of_string ''gc-size'' \<or> r = bytes_of_string ''reserve-size'' \<or> prefix (bytes_of_string ''bin-ids'') r \<longrightarrow> length v = 8) \<and>
          (p = 2 \<longrightarrow> headerSize \<le> length v) \<and> (p = 3 \<longrightarrow> length v = 8) \<and> (p = 4 \<longrightarrow> length r = 9 \<and> length v = 64) \<and>
          (p = 5 \<longrightarrow> length r = 40) \<and> (p = 6 \<longrightarrow> 16 \<le> length r \<and> length v = 40) \<and> (p = 7 \<longrightarrow> length v = 8) \<and>
          (p = 8 \<longrightarrow> length r = 65) \<and> (p = 9 \<longrightarrow> length r = 32 \<and> length v = 1) \<and> (p = 10 \<longrightarrow> length r = 40 \<and> length v = 40))"

definition typed_map :: "(bytes \<Rightarrow> bytes option) \<Rightarrow> bool" where
  "typed_map m \<longleftrightarrow> (\<forall>k v. m k = Some v \<longrightarrow> typed_entry k v)"

definition typed_batch :: "LBatch \<Rightarrow> bool" where
  "typed_batch bs \<longleftrightarrow> (\<forall>k v. BPut k v \<in> set bs \<longrightarrow> typed_entry k v)"

lemma typed_batch_simps [simp]:
  "typed_batch []" "typed_batch (bs @ cs) \<longleftrightarrow> typed_batch bs \<and> typed_batch cs" "typed_batch [BPut k v] \<longleftrightarrow> typed_entry k v" "typed_batch [BDel k]"
  by (auto simp: typed_batch_def)

lemma typed_apply: "typed_map m \<Longrightarrow> typed_batch bs \<Longrightarrow> typed_map (apply_batch bs m)"
proof (induction bs arbitrary: m)
  case (Cons b bs)
  have "typed_map (apply_bop b m)" using Cons.prems by (cases b) (auto simp: typed_map_def typed_batch_def)
  moreover have "typed_batch bs" using Cons.prems(2) by (simp add: typed_batch_def)
  ultimately show ?case using Cons.IH by simp
qed simp

lemma typed_value:
  assumes "ls_layout db" and "ItemKey f i = Inr k" and "ix_EncodeValue f i = Inr v"
    and "f = retrievalDataIndex db \<or> f = retrievalAccessIndex db \<or> f = pullIndex db \<or> f = pushIndex db \<or> f = gcIndex db \<or> f = pinIndex db \<or>
      f = postageChunksIndex db \<or> f = postageRadiusIndex db \<or> f = postageIndexIndex db"
  shows "typed_entry k v"
  using assms(4,2,3) layout_keys [OF assms(1), of i] assms(1)
  by (elim disjE) (auto simp: typed_entry_def ls_layout_def index_of_def funcs_defs headerSize_def sp_MarshalBinary_def StampSize_def Let_def)

lemma typed_putB [keeps_rules]:
  assumes "ls_layout db"
  shows "keeps (on_batch typed_batch) (putB (retrievalDataIndex db) i)" "keeps (on_batch typed_batch) (putB (retrievalAccessIndex db) i)"
    "keeps (on_batch typed_batch) (putB (pullIndex db) i)" "keeps (on_batch typed_batch) (putB (pushIndex db) i)"
    "keeps (on_batch typed_batch) (putB (gcIndex db) i)" "keeps (on_batch typed_batch) (putB (pinIndex db) i)"
    "keeps (on_batch typed_batch) (putB (postageChunksIndex db) i)" "keeps (on_batch typed_batch) (putB (postageRadiusIndex db) i)"
    "keeps (on_batch typed_batch) (putB (postageIndexIndex db) i)"
  using typed_value [OF assms] by (intro keeps_putB; simp)+

lemma typed_delB [keeps_rules]: "keeps (on_batch typed_batch) (delB f i)"
  by (rule keeps_delB) simp

lemma length_encodeUint64 [simp]: "length (encodeUint64 v) = 8"
  by (simp add: encodeUint64_def)

lemma typed_counters [keeps_rules]:
  assumes "ls_layout db"
  shows "keeps (on_batch typed_batch) (incGCSizeInBatch L db s c)" "keeps (on_batch typed_batch) (incReserveSizeInBatch L db s c)"
    "keeps (on_batch typed_batch) (put_binIDs db)"
  by (rule keeps_incGC keeps_incReserve keeps_put_binIDs; simp add: typed_entry_def layout_fields [OF assms] indexKey_def)+

section \<open>Operations keep the entries well typed\<close>

lemma typed_ops [keeps_rules]:
  assumes lay: "ls_layout db"
  shows "keeps (on_batch typed_batch) (setPin L db s item)" "keeps (on_batch typed_batch) (setUnpin L db s addr)"
    "keeps (on_batch typed_batch) (setRemove L db s item check)" "keeps (on_batch typed_batch) (releaseReplaced L db s item)"
    "keeps (on_batch typed_batch) (updateGC_act L db s item)"
  unfolding setPin_def setUnpin_def setRemove_def releaseReplaced_def updateGC_act_def Let_def
  by (intro keeps_rules lay)+

lemma typed_ops2 [keeps_rules]:
  assumes lay: "ls_layout db"
  shows "keeps (on_batch typed_batch) (preserveOrCache L db s item forcePin forceCache)" "keeps (on_batch typed_batch) (replacePrevious L db s item)"
  unfolding preserveOrCache_def replacePrevious_def Let_def by (intro keeps_rules lay)+

lemma typed_ops3 [keeps_rules]:
  assumes lay: "ls_layout db"
  shows "keeps (on_batch typed_batch) (setSync L db s addr)" "keeps (on_batch typed_batch) (putRequest L db s item forcePin forceCache)"
    "keeps (on_batch typed_batch) (putUpload L db s item)" "keeps (on_batch typed_batch) (putSync L db s item)"
  unfolding setSync_def putRequest_def putUpload_def putSync_def Let_def by (intro keeps_rules keeps_tags lay)+

lemma typed_put_one [keeps_rules]:
  "ls_layout db \<Longrightarrow> keeps (on_batch typed_batch) (put_one L db s mode earlier ch)"
  unfolding put_one_def by (cases mode) (simp only: ModePut.case, intro keeps_rules, assumption?)+

lemma typed_loops [keeps_rules]:
  assumes lay: "ls_layout db"
  shows "keeps (on_batch typed_batch) (put_loop L db s mode earlier chs)" "keeps (on_batch typed_batch) (set_loop L db s smode addrs)"
    "keeps (on_batch typed_batch) (gc_delete db dirty items n)"
proof -
  show "keeps (on_batch typed_batch) (put_loop L db s mode earlier chs)"
    by (induction chs arbitrary: earlier) (simp_all only: put_loop.simps, (intro keeps_rules lay)+)
  have one: "keeps (on_batch typed_batch) (set_one L db s smode a)" for a
    unfolding set_one_def by (cases smode) (simp only: ModeSet.case, intro keeps_rules lay)+
  show "keeps (on_batch typed_batch) (set_loop L db s smode addrs)"
    by (induction addrs) (simp_all only: set_loop.simps, (intro keeps_rules one)+)
  show "keeps (on_batch typed_batch) (gc_delete db dirty items n)"
    by (induction items arbitrary: n) (simp_all only: gc_delete.simps, (intro keeps_rules lay)+)
qed

text \<open>The walk of an iterator keeps what its callback keeps.\<close>

lemma ix_walk_keeps:
  assumes "\<And>i c. Q c \<Longrightarrow> Q (snd (fn i c))" and "Q c"
  shows "Q (snd (ix_walk f fn p err es c))"
  using assms(2)
proof (induction es arbitrary: c)
  case (Cons kv es)
  then show ?case using assms(1) [OF Cons.prems] by (auto split: sum.splits prod.splits) (metis snd_conv)+
qed simp

lemma ix_Iterate_keeps:
  assumes "\<And>i c. Q c \<Longrightarrow> Q (snd (fn i c))" and "Q c"
  shows "Q (snd (ix_Iterate L f fn opts s c))"
  using ix_walk_keeps [of Q fn, OF assms] assms(2) by (auto simp: ix_Iterate_def Let_def split: sum.splits prod.splits)

lemma keeps_unreserve_bin:
  assumes "\<And>a. keeps Q (setUnpin L db s a)" and "\<And>c. keeps Q (incGCSizeInBatch L db s c)"
    and "\<And>i. keeps Q (putB (postageRadiusIndex db) i)" "\<And>i. keeps Q (delB (postageRadiusIndex db) i)"
  shows "keeps Q (unreserve_bin L db s batchID bin n)"
  unfolding keeps_def
proof (intro allI impI)
  fix t assume t: "Q t"
  let ?it = "ix_Iterate L (postageChunksIndex db) (unpin_cb L db s) (default_options\<lparr>io_Prefix := batchID @ [bin]\<rparr>) s (0, n, t)"
  have "Q (snd (snd (snd ?it)))"
  proof (rule ix_Iterate_keeps [where Q = "\<lambda>c. Q (snd (snd c))"])
    fix i and c :: "int \<times> u64 \<times> _" assume "Q (snd (snd c))"
    then show "Q (snd (snd (snd (unpin_cb L db s i c))))"
      using assms(1) [unfolded keeps_def] by (auto simp: unpin_cb_def split: prod.splits sum.splits) (metis snd_conv)+
  qed (use t in simp)
  then show "Q (snd (unreserve_bin L db s batchID bin n t))"
  proof -
    obtain e c m t1 where it: "?it = (e, c, m, t1)" by (metis prod.collapse)
    have "keeps Q (thn (incGCSizeInBatch L db s c) (\<lambda>_.
          let item = zero_item\<lparr>it_BatchID := batchID, it_Radius := bin\<rparr> in
          thn (putB (postageRadiusIndex db) item) (\<lambda>_.
          thn (if bin = MaxPO then delB (postageRadiusIndex db) item else ret ()) (\<lambda>_. ret m))))"
      by (intro keeps_rules assms)
    then show ?thesis using \<open>Q (snd (snd (snd ?it)))\<close> it by (cases e) (simp_all add: unreserve_bin_def keeps_def)
  qed
qed

lemma typed_unreserve_bin [keeps_rules]: "ls_layout db \<Longrightarrow> keeps (on_batch typed_batch) (unreserve_bin L db s batchID bin n)"
  by (intro keeps_unreserve_bin keeps_rules)

section \<open>Operations do not panic\<close>

lemma thn_lft_Inr: "thn (lft (Inr x)) f = f x"
  by (simp add: fun_eq_iff thn_def lft_def)

definition quiet :: "('t, 'a) act \<Rightarrow> bool" where
  "quiet a \<longleftrightarrow> (\<forall>t. fst (a t) \<noteq> Inl sh_Panic)"

named_theorems quiet_rules \<open>operations on a batch that do not panic\<close>

lemma quiet_thn [quiet_rules]:
  assumes "quiet m" and "\<And>a. quiet (f a)"
  shows "quiet (thn m f)"
  unfolding quiet_def
proof
  fix t
  obtain r t1 where "m t = (r, t1)" by fastforce
  moreover from this have "r \<noteq> Inl sh_Panic" using assms(1) by (metis fst_conv quiet_def)
  ultimately show "fst (thn m f t) \<noteq> Inl sh_Panic" using assms(2) by (cases r) (simp_all add: thn_def quiet_def)
qed

lemma quiet_basic [quiet_rules]: "quiet (ret a)" "quiet (now db)" "r \<noteq> Inl sh_Panic \<Longrightarrow> quiet (lft r)" "quiet (put_binIDs db)"
  by (simp_all add: quiet_def ret_def now_def lft_def put_binIDs_def)

lemma quiet_cases [quiet_rules]:
  "(b \<Longrightarrow> quiet m) \<Longrightarrow> (\<not> b \<Longrightarrow> quiet n) \<Longrightarrow> quiet (if b then m else n)"
  "(x = None \<Longrightarrow> quiet m) \<Longrightarrow> (\<And>a. x = Some a \<Longrightarrow> quiet (f a)) \<Longrightarrow> quiet (case x of None \<Rightarrow> m | Some a \<Rightarrow> f a)"
  "(\<And>a. y = Inl a \<Longrightarrow> quiet (g a)) \<Longrightarrow> (\<And>a. y = Inr a \<Longrightarrow> quiet (h a)) \<Longrightarrow> quiet (case y of Inl a \<Rightarrow> g a | Inr a \<Rightarrow> h a)"
  "(\<And>a b. z = (a, b) \<Longrightarrow> quiet (k a b)) \<Longrightarrow> quiet (case z of (a, b) \<Rightarrow> k a b)"
  by (cases x; cases y; cases z; simp)+

lemma unlessNotFound_quiet: "r \<noteq> Inl sh_Panic \<Longrightarrow> unlessNotFound r \<noteq> Inl sh_Panic"
  by (auto simp: unlessNotFound_def split: sum.splits)

text \<open>A database with the layout of \<open>New\<close>.\<close>

locale chunk_db = level_db L look
  for L :: "'s LevelDB" and look :: "'s \<Rightarrow> bytes \<Rightarrow> bytes option" +
  fixes db :: "'t LSConf"
  assumes lay: "ls_layout db"
begin

lemmas keys = layout_keys [OF lay]
lemmas fields = layout_fields [OF lay]

lemma decode_total:
  assumes "typed_entry k v" and "ItemKey f i = Inr k"
    and "f = retrievalDataIndex db \<or> f = retrievalAccessIndex db \<or> f = pushIndex db \<or> f = gcIndex db \<or> f = pinIndex db \<or>
      f = postageRadiusIndex db \<or> f = postageIndexIndex db"
  shows "ix_DecodeValue f j v \<noteq> Inl e"
  using assms(3,1,2) lay keys [of i]
  by (elim disjE) (auto simp: ls_layout_def index_of_def funcs_defs typed_entry_def headerSize_def StampSize_def sp_UnmarshalBinary_def go_Uint64_def
      split: list.splits)

lemma ix_Get_total:
  assumes "typed_map (look s)"
    and "f = retrievalDataIndex db \<or> f = retrievalAccessIndex db \<or> f = pushIndex db \<or> f = gcIndex db \<or> f = pinIndex db \<or>
      f = postageRadiusIndex db \<or> f = postageIndexIndex db"
  shows "ix_Get L f i s = Inl e \<Longrightarrow> e = sh_NotFound"
proof -
  assume get: "ix_Get L f i s = Inl e"
  obtain k where k: "ItemKey f i = Inr k" using assms(2) keys [of i] by auto
  show "e = sh_NotFound"
  proof (cases "look s k")
    case (Some v)
    then have "typed_entry k v" using assms(1) by (auto simp: typed_map_def)
    then have "ix_DecodeValue f i v \<noteq> Inl e" using decode_total [OF _ k assms(2)] by blast
    then show ?thesis using get ix_Get_look [OF k, of s] Some by (cases "ix_DecodeValue f i v") auto
  qed (use get ix_Get_look [OF k, of s] in simp)
qed

lemma counter_total:
  assumes "typed_map (look s)" and "k = lc_gcSize db \<or> k = lc_reserveSize db \<or> (\<exists>i. k = indexKey (lc_binIDs db) i)"
  shows "u64_Get L k s \<noteq> Inl e"
proof (cases "look s k")
  case (Some v)
  then have "typed_entry k v" using assms(1) by (auto simp: typed_map_def)
  then have "length v = 8" using assms(2) by (auto simp: typed_entry_def fields indexKey_def)
  then show ?thesis using Some by (simp add: u64_Get_look go_Uint64_def)
qed (simp add: u64_Get_look)

lemma get_quiet:
  assumes "typed_map (look s)"
  shows "ix_Get L (retrievalDataIndex db) i s \<noteq> Inl sh_Panic" "ix_Get L (retrievalAccessIndex db) i s \<noteq> Inl sh_Panic"
    "ix_Get L (pushIndex db) i s \<noteq> Inl sh_Panic" "ix_Get L (gcIndex db) i s \<noteq> Inl sh_Panic" "ix_Get L (pinIndex db) i s \<noteq> Inl sh_Panic"
    "ix_Get L (postageRadiusIndex db) i s \<noteq> Inl sh_Panic" "ix_Get L (postageIndexIndex db) i s \<noteq> Inl sh_Panic"
    "ix_Has L (retrievalDataIndex db) i s \<noteq> Inl sh_Panic" "ix_Has L (pinIndex db) i s \<noteq> Inl sh_Panic" "ix_Has L (gcIndex db) i s \<noteq> Inl sh_Panic"
    "u64_Get L (lc_gcSize db) s \<noteq> Inl sh_Panic" "u64_Get L (lc_reserveSize db) s \<noteq> Inl sh_Panic"
  using ix_Get_total [OF assms] counter_total [OF assms] by (auto simp: ix_Has_def keys ld_has)

lemma quiet_batch [quiet_rules]:
  "quiet (putB (retrievalDataIndex db) i)" "quiet (putB (retrievalAccessIndex db) i)" "quiet (putB (pullIndex db) i)" "quiet (putB (pushIndex db) i)"
  "quiet (putB (gcIndex db) i)" "quiet (putB (pinIndex db) i)" "quiet (putB (postageChunksIndex db) i)" "quiet (putB (postageRadiusIndex db) i)"
  "quiet (putB (postageIndexIndex db) i)"
  "quiet (delB (retrievalDataIndex db) i)" "quiet (delB (retrievalAccessIndex db) i)" "quiet (delB (pullIndex db) i)" "quiet (delB (pushIndex db) i)"
  "quiet (delB (gcIndex db) i)" "quiet (delB (pinIndex db) i)" "quiet (delB (postageChunksIndex db) i)" "quiet (delB (postageRadiusIndex db) i)"
  "quiet (delB (postageIndexIndex db) i)"
  using lay by (simp_all add: quiet_def putB_def delB_def ix_PutInBatch_def ix_DeleteInBatch_def keys)
    (simp_all add: ls_layout_def index_of_def funcs_defs)

lemma typed_run:
  assumes "typed_map (look (ls_shed st))" and "keeps (on_batch typed_batch) a" and "run_act L st a = (r, st')"
  shows "typed_map (look (ls_shed st'))"
proof -
  let ?t = "\<lparr>tx_batch = [], tx_binIDs = [], tx_tags = ls_tags st, tx_ticks = ls_ticks st, tx_gcTrigger = ls_gcTrigger st,
              tx_evictTrigger = ls_evictTrigger st\<rparr>"
  obtain r1 t1 where a: "a ?t = (r1, t1)" by fastforce
  have "on_batch typed_batch ?t" by (simp add: on_batch_def)
  then have "typed_batch (tx_batch t1)" using assms(2) a unfolding keeps_def on_batch_def by (metis snd_conv)
  then have "ld_Write L (tx_batch t1) s = Inr s' \<Longrightarrow> typed_map (look s) \<Longrightarrow> typed_map (look s')" for s s'
    using write_look typed_apply by metis
  then show ?thesis using assms(1,3) a by (auto simp: run_act_def Let_def split: sum.splits)
qed

lemma typed_snd_run: "keeps (on_batch typed_batch) a \<Longrightarrow> typed_map (look (ls_shed st)) \<Longrightarrow> typed_map (look (ls_shed (snd (run_act L st a))))"
  by (rule typed_run [OF _ _ surjective_pairing])

lemma quiet_run:
  assumes "quiet a" and "run_act L st a = (r, st')"
  shows "r \<noteq> Inl sh_Panic"
proof -
  obtain r1 t1 where a: "a \<lparr>tx_batch = [], tx_binIDs = [], tx_tags = ls_tags st, tx_ticks = ls_ticks st, tx_gcTrigger = ls_gcTrigger st,
              tx_evictTrigger = ls_evictTrigger st\<rparr> = (r1, t1)" by fastforce
  then have r1: "r1 \<noteq> Inl sh_Panic" using assms(1) by (metis fst_conv quiet_def)
  obtain s1 where "ld_Write L (tx_batch t1) (ls_shed st) = Inr s1" using ld_write by blast
  then show ?thesis using assms(2) a r1 by (cases r1) (auto simp: run_act_def Let_def)
qed

lemma typed_unreserve_bins:
  "typed_map (look (ls_shed st)) \<Longrightarrow> unreserve_bins L db batchID bins n st = (r, st') \<Longrightarrow> typed_map (look (ls_shed st'))"
proof (induction bins arbitrary: n st)
  case (Cons b bins)
  obtain r1 st1 where r1: "run_act L st (unreserve_bin L db (ls_shed st) batchID b n) = (r1, st1)" by fastforce
  have "typed_map (look (ls_shed st1))" by (rule typed_run [OF Cons.prems(1) typed_unreserve_bin [OF lay] r1])
  then show ?case using Cons.IH Cons.prems(2) r1 by (cases r1) simp_all
qed simp

lemma typed_run_unit:
  "typed_map (look (ls_shed st)) \<Longrightarrow> typed_map (look (ls_shed (snd (run_act L st (putB (postageRadiusIndex db) j)))))"
  "typed_map (look (ls_shed st)) \<Longrightarrow> typed_map (look (ls_shed (snd (run_act L st (incReserveSizeInBatch L db s c)))))"
  using typed_run [OF _ typed_putB(8) [OF lay]] typed_run [OF _ typed_counters(2) [OF lay]] by (metis prod.collapse)+

lemma typed_UnreserveBatch:
  assumes t: "typed_map (look (ls_shed st))"
  shows "typed_map (look (ls_shed (snd (UnreserveBatch L db batchID radius st))))"
proof (cases "unlessNotFound (ix_Get L (postageRadiusIndex db) (zero_item\<lparr>it_BatchID := batchID\<rparr>) (ls_shed st))")
  case (Inr i)
  let ?bins = "map word_of_nat [unat (case i of None \<Rightarrow> radius | Some i \<Rightarrow> it_Radius i)..<unat radius]"
  obtain g1 st1 where b: "unreserve_bins L db batchID ?bins 0 st = (g1, st1)" by fastforce
  let ?r2 = "if radius \<noteq> MaxPO + 1 then run_act L st1 (putB (postageRadiusIndex db) (zero_item\<lparr>it_BatchID := batchID, it_Radius := radius\<rparr>)) else (Inr (), st1)"
  obtain g2 st2 where r2: "?r2 = (g2, st2)" by fastforce
  have t1: "typed_map (look (ls_shed st1))" using typed_unreserve_bins [OF t b] .
  then have "typed_map (look (ls_shed (snd ?r2)))" using typed_run_unit(1) by simp
  then have t2: "typed_map (look (ls_shed st2))" unfolding r2 by simp
  have t3: "typed_map (look (ls_shed (snd (if 0 < n then run_act L st2 (incReserveSizeInBatch L db (ls_shed st2) c) else (Inr (), st2)))))" for n :: u64 and c
    using t2 typed_run_unit(2) by simp
  show ?thesis
  proof (cases g1)
    case Inl': (Inl e)
    then show ?thesis using t1 Inr b by (simp add: UnreserveBatch_def)
  next
    case Inr': (Inr n)
    show ?thesis
    proof (cases g2)
      case (Inl e)
      then show ?thesis using t2 Inr Inr' b r2 by (simp add: UnreserveBatch_def)
    next
      case g2: (Inr _)
      obtain g3 st3 where r3: "(if 0 < n then run_act L st2 (incReserveSizeInBatch L db (ls_shed st2) (- uint n)) else (Inr (), st2)) = (g3, st3)"
        by (metis surj_pair)
      have "typed_map (look (ls_shed st3))" using t3 [of n "- uint n"] unfolding r3 by simp
      then show ?thesis using t2 Inr Inr' b r2 g2 r3
        by (cases "unlessNotFound (u64_Get L (lc_gcSize db) (ls_shed st2))"; cases g3) (simp_all add: UnreserveBatch_def Let_def)
    qed
  qed
qed (use t in \<open>simp add: UnreserveBatch_def\<close>)

lemma typed_evict:
  "typed_map (look (ls_shed st)) \<Longrightarrow> typed_map (look (ls_shed (snd (evict_loop L db start target calls err n st))))"
proof (induction calls arbitrary: n st)
  case (Cons c calls)
  obtain b r where c: "c = (b, r)" by fastforce
  obtain g st1 where u: "UnreserveBatch L db b r st = (g, st1)" by fastforce
  then have "typed_map (look (ls_shed st1))" using typed_UnreserveBatch [OF Cons.prems, of b r] by simp
  then show ?case using Cons.IH u c by (cases g) (simp_all add: Let_def)
qed (simp split: option.splits)

lemma quiet_counters [quiet_rules]:
  assumes "typed_map (look s)"
  shows "quiet (incGCSizeInBatch L db s c)" "quiet (incReserveSizeInBatch L db s c)" "quiet (incBinID L db s b)"
proof -
  note q = get_quiet(11,12) [OF assms]
  have wrap: "quiet (\<lambda>t. let x = y in case z x of None \<Rightarrow> (Inr (), t) | Some n \<Rightarrow> (Inr (), g n t))" for y :: u64 and z and g :: "u64 \<Rightarrow> 'b Tx \<Rightarrow> 'b Tx"
    by (auto simp: quiet_def Let_def split: option.splits)
  show "quiet (incGCSizeInBatch L db s c)" unfolding incGCSizeInBatch_def
    by (intro quiet_rules unlessNotFound_quiet q wrap)
  show "quiet (incReserveSizeInBatch L db s c)" unfolding incReserveSizeInBatch_def
    by (intro quiet_rules unlessNotFound_quiet q wrap)
  have "vec_Get L (lc_binIDs db) j s \<noteq> Inl e" for j e using counter_total [OF assms] unfolding vec_Get_def by blast
  then show "quiet (incBinID L db s b)" by (auto simp: quiet_def incBinID_def split: option.splits sum.splits)
qed

lemma quiet_ops:
  assumes t: "typed_map (look s)"
  shows "quiet (setPin L db s item)" "quiet (setUnpin L db s addr)" "quiet (setRemove L db s item check)" "quiet (releaseReplaced L db s item)"
    "quiet (updateGC_act L db s item)" "quiet (preserveOrCache L db s item forcePin forceCache)"
proof -
  note q = get_quiet [OF t] and u = unlessNotFound_quiet
  show pin: "quiet (setPin L db s item)" for item unfolding setPin_def Let_def by (intro quiet_rules q u)
  show "quiet (setUnpin L db s addr)" unfolding setUnpin_def Let_def by (intro quiet_rules q u)
  show "quiet (setRemove L db s item check)" unfolding setRemove_def by (intro quiet_rules q u)
  show "quiet (releaseReplaced L db s item)" unfolding releaseReplaced_def by (intro quiet_rules q u t)
  show "quiet (updateGC_act L db s item)" unfolding updateGC_act_def Let_def by (intro quiet_rules q u)
  show "quiet (preserveOrCache L db s item forcePin forceCache)" unfolding preserveOrCache_def by (intro quiet_rules q u pin t)
qed

lemma previous_timestamp:
  assumes t: "typed_map (look s)" and p: "ix_Get L (postageIndexIndex db) item s = Inr previous"
  shows "length (it_Timestamp previous) = 8"
proof -
  obtain v where v: "look s (10 # go_copy 32 40 (it_Index item) (go_copy 0 32 (it_BatchID item) (replicate 40 0))) = Some v"
    using p by (cases "look s (10 # go_copy 32 40 (it_Index item) (go_copy 0 32 (it_BatchID item) (replicate 40 0)))")
      (simp_all add: ix_Get_look [OF keys(9)])
  then have "typed_entry (10 # go_copy 32 40 (it_Index item) (go_copy 0 32 (it_BatchID item) (replicate 40 0))) v"
    using t unfolding typed_map_def by blast
  then have "length v = 40" by (simp add: typed_entry_def)
  then show ?thesis using p v lay by (auto simp: ix_Get_look [OF keys(9)] ls_layout_def index_of_def postageIndex_funcs_def it_Merge_def)
qed

lemma quiet_replace:
  assumes t: "typed_map (look s)" and "8 \<le> length (it_Timestamp item)"
  shows "quiet (replacePrevious L db s item)"
proof -
  have l: "later previous item \<noteq> Inl sh_Panic" if "unlessNotFound (ix_Get L (postageIndexIndex db) item s) = Inr (Some previous)" for previous
  proof -
    have "ix_Get L (postageIndexIndex db) item s = Inr previous" using that by (auto simp: unlessNotFound_def split: sum.splits if_splits)
    then show ?thesis using previous_timestamp [OF t] assms(2) by (simp add: later_def go_Uint64_def)
  qed
  have *: "quiet (thn (lft r) f)" if "r \<noteq> Inl sh_Panic" and "\<And>a. r = Inr a \<Longrightarrow> quiet (f a)" for r :: "sh_error + 'x" and f :: "'x \<Rightarrow> ('b, 'y) act"
    using that by (cases r) (auto simp: quiet_def thn_def lft_def)
  have o: "quiet (lft (Inl ErrOverwrite))" by (simp add: quiet_def lft_def ErrOverwrite_def)
  show ?thesis unfolding replacePrevious_def
    by (intro * quiet_rules get_quiet [OF t] unlessNotFound_quiet o quiet_ops [OF t] l) simp_all
qed

end

text \<open>The tags service does not panic; the stamp of a chunk is there and has a timestamp.\<close>

definition tags_quiet :: "'t LSConf \<Rightarrow> bool" where
  "tags_quiet db \<longleftrightarrow> (\<forall>inc x y. lc_tags db = Some inc \<longrightarrow> fst (inc x y) \<noteq> TagIncErr sh_Panic)"

definition stamped :: "Stamp chunk \<Rightarrow> bool" where
  "stamped ch \<longleftrightarrow> (\<exists>stamp. ch_stamp ch = Some stamp \<and> 8 \<le> length (sp_timestamp stamp))"

lemma stamped_item: "stamped ch \<Longrightarrow> \<exists>item. chunkToItem ch = Inr item \<and> 8 \<le> length (it_Timestamp item)"
  by (auto simp: stamped_def chunkToItem_def)

context chunk_db
begin

lemma quiet_setSync:
  assumes t: "typed_map (look s)" and "tags_quiet db"
  shows "quiet (setSync L db s addr)"
proof -
  have tags: "quiet (\<lambda>t. case (q, lc_tags db) of
                 (Some i, Some inc) \<Rightarrow>
                   if it_Tag i = 0 then (Inr (), t)
                   else (case inc (it_Tag i) (tx_tags t) of
                           (TagIncErr e, tg) \<Rightarrow> (Inl e, t\<lparr>tx_tags := tg\<rparr>)
                         | (_, tg) \<Rightarrow> (Inr (), t\<lparr>tx_tags := tg\<rparr>))
               | _ \<Rightarrow> (Inr (), t))" for q
    using assms(2) by (auto simp: quiet_def tags_quiet_def split: option.splits prod.splits tag_result.splits) (metis fst_conv)
  show ?thesis unfolding setSync_def Let_def by (intro quiet_rules tags get_quiet [OF t] unlessNotFound_quiet quiet_ops [OF t])
qed

lemma quiet_put_one:
  assumes t: "typed_map (look s)" and "stamped ch"
  shows "quiet (put_one L db s mode earlier ch)"
proof -
  obtain item where item: "chunkToItem ch = Inr item" "8 \<le> length (it_Timestamp item)" using stamped_item [OF assms(2)] by blast
  note q = quiet_rules quiet_replace [OF t] quiet_ops [OF t] quiet_counters [OF t] get_quiet [OF t]
  have "quiet (putRequest L db s item p c)" for p c unfolding putRequest_def Let_def using item(2) by (intro q)
  moreover have "quiet (putUpload L db s item)" unfolding putUpload_def Let_def using item(2) by (intro q)
  moreover have "quiet (putSync L db s item)" unfolding putSync_def Let_def using item(2) by (intro q)
  ultimately show ?thesis unfolding put_one_def item(1) thn_lft_Inr by (cases mode) (auto intro!: quiet_rules quiet_ops [OF t])
qed

lemma quiet_loops:
  assumes t: "typed_map (look s)"
  shows "\<forall>ch \<in> set chs. stamped ch \<Longrightarrow> quiet (put_loop L db s mode earlier chs)" "tags_quiet db \<Longrightarrow> quiet (set_loop L db s smode addrs)"
proof -
  show "\<forall>ch \<in> set chs. stamped ch \<Longrightarrow> quiet (put_loop L db s mode earlier chs)"
    by (induction chs arbitrary: earlier) (simp_all only: put_loop.simps, (intro quiet_rules quiet_put_one [OF t]; simp)+)
  assume tags: "tags_quiet db"
  have one: "quiet (set_one L db s smode a)" for a
    unfolding set_one_def by (cases smode) (simp_all only: ModeSet.case, (intro quiet_ops [OF t] quiet_setSync [OF t] tags)+)
  show "quiet (set_loop L db s smode addrs)" by (induction addrs) (simp_all only: set_loop.simps, (intro quiet_rules one)+)
qed

end

section \<open>States that can be reached\<close>

text \<open>Operations under the lock are single steps, the parts of the collector are steps of their own. \<open>UnreserveBatch\<close> also runs
  without the lock, as the batch store calls it: the writes of its parts are steps, with the database \<open>s\<close> that a part has read, which
  may be an older one.\<close>

inductive ls_step :: "'s LevelDB \<Rightarrow> 't LSConf \<Rightarrow> ('s, 't) LS \<Rightarrow> ('s, 't) LS \<Rightarrow> bool" for L db where
  puts: "ls_step L db st (snd (ls_put L db mode chs st))"
| sets: "ls_step L db st (snd (ls_set L db smode addrs st))"
| notes_access: "ls_step L db st (snd (updateGC L db item st))"
| gc_begins: "ls_step L db st (gc_begin st)"
| gc_collects: "ls_step L db st (snd (gc_collect L db c st))"
| gc_ends: "ls_step L db st (gc_end st)"
| evicts: "ls_step L db st (snd (evictReserve L db unreserve st))"
| unreserves_bin: "ls_step L db st (snd (run_act L st (unreserve_bin L db s batchID bin n)))"
| unreserves_radius: "ls_step L db st (snd (run_act L st (putB (postageRadiusIndex db) i)))"
| unreserves_size: "ls_step L db st (snd (run_act L st (incReserveSizeInBatch L db s n)))"

context chunk_db
begin

lemma typed_put:
  assumes t: "typed_map (look (ls_shed st))"
  shows "typed_map (look (ls_shed (snd (ls_put L db mode chs st))))"
proof -
  have m: "ls_shed (mark_dirty as st) = ls_shed st" for as by (simp add: mark_dirty_def)
  have k: "keeps (on_batch typed_batch) (thn (put_loop L db (ls_shed st) mode [] chs) (\<lambda>(exist, gcSizeChange).
           thn (put_binIDs db) (\<lambda>_. thn (incGCSizeInBatch L db (ls_shed st) gcSizeChange) (\<lambda>_. ret exist))))"
    by (intro keeps_rules lay)
  have "typed_map (look (ls_shed (snd (run_act L (mark_dirty (map ch_addr chs) st) (thn (put_loop L db (ls_shed st) mode [] chs) (\<lambda>(exist, gcSizeChange).
           thn (put_binIDs db) (\<lambda>_. thn (incGCSizeInBatch L db (ls_shed st) gcSizeChange) (\<lambda>_. ret exist))))))))"
    using t by (intro typed_snd_run [OF k]) (simp only: m)
  then show ?thesis using t by (auto simp: ls_put_def Let_def split: sum.splits)
qed

lemma typed_set:
  assumes t: "typed_map (look (ls_shed st))"
  shows "typed_map (look (ls_shed (snd (ls_set L db smode addrs st))))"
proof -
  have k: "keeps (on_batch typed_batch) (thn (set_loop L db (ls_shed st) smode addrs) (\<lambda>c. incGCSizeInBatch L db (ls_shed st) c))"
    by (intro keeps_rules lay)
  show ?thesis unfolding ls_set_def Let_def using t by (intro typed_snd_run [OF k]) (simp add: mark_dirty_def)
qed

lemma typed_updateGC:
  assumes t: "typed_map (look (ls_shed st))"
  shows "typed_map (look (ls_shed (snd (updateGC L db item st))))"
proof -
  let ?st = "mark_dirty [NewAddress (slice_of (it_Address item))] st"
  have m: "ls_shed ?st = ls_shed st" by (simp add: mark_dirty_def)
  have "typed_map (look (ls_shed (snd (run_act L ?st (updateGC_act L db (ls_shed st) i)))))" for i
    using t by (intro typed_snd_run [OF typed_ops(5) [OF lay]]) (simp only: m)
  then show ?thesis using t m by (simp add: updateGC_def Let_def split: sum.splits)
qed

lemma typed_collect:
  assumes t: "typed_map (look (ls_shed st))"
  shows "typed_map (look (ls_shed (snd (gc_collect L db c st))))"
proof -
  have fin: "keeps (on_batch typed_batch) (\<lambda>t. (Inr (g n), t\<lparr>tx_batch := u64_PutInBatch (lc_gcSize db) (x n) (tx_batch t)\<rparr>))" for g :: "u64 \<Rightarrow> u64 \<times> bool" and x n
    by (simp add: keeps_def on_batch_def u64_PutInBatch_def typed_entry_def fields)
  have k: "keeps (on_batch typed_batch) (thn (gc_delete db (ls_dirty st) (fst c) (snd c)) (\<lambda>n t.
      (Inr (n, \<not> lc_gcTarget db < gcSize - n), t\<lparr>tx_batch := u64_PutInBatch (lc_gcSize db) (gcSize - n) (tx_batch t)\<rparr>)))" for gcSize
    by (intro keeps_rules lay fin)
  have "typed_map (look (ls_shed (snd (run_act L st (thn (gc_delete db (ls_dirty st) (fst c) (snd c)) (\<lambda>n t.
      (Inr (n, \<not> lc_gcTarget db < gcSize - n), t\<lparr>tx_batch := u64_PutInBatch (lc_gcSize db) (gcSize - n) (tx_batch t)\<rparr>)))))))" for gcSize
    using t by (intro typed_snd_run [OF k])
  then show ?thesis using t by (simp add: gc_collect_def split: sum.splits)
qed

lemma typed_evictReserve:
  assumes t: "typed_map (look (ls_shed st))"
  shows "typed_map (look (ls_shed (snd (evictReserve L db unreserve st))))"
proof -
  have "typed_map (look (ls_shed st1))" if "evict_loop L db n (reserveEvictionTarget db) (fst unreserve) (snd unreserve) 0 st = (r, st1)" for n r st1
    using typed_evict [OF t, of n "reserveEvictionTarget db" "fst unreserve" "snd unreserve" 0] that by simp
  then show ?thesis using t by (auto simp: evictReserve_def Let_def split: sum.splits prod.splits)
qed

lemma typed_step:
  assumes "ls_step L db st st'" and t: "typed_map (look (ls_shed st))"
  shows "typed_map (look (ls_shed st'))"
  using assms(1)
  by (cases rule: ls_step.cases)
    (simp_all add: typed_put [OF t] typed_set [OF t] typed_updateGC [OF t] typed_collect [OF t] typed_evictReserve [OF t] gc_begin_def gc_end_def t
      typed_snd_run [OF typed_unreserve_bin [OF lay] t] typed_run_unit [OF t])

lemma typed_reach: "(ls_step L db)\<^sup>*\<^sup>* st st' \<Longrightarrow> typed_map (look (ls_shed st)) \<Longrightarrow> typed_map (look (ls_shed st'))"
  by (induction rule: rtranclp_induct) (auto intro: typed_step)

end

section \<open>A new database\<close>

definition conf_of :: "bytes \<Rightarrow> u64 \<Rightarrow> u64 \<Rightarrow> u64 \<Rightarrow> u64 \<Rightarrow> u64 \<Rightarrow> (u32 \<Rightarrow> 't \<Rightarrow> tag_result \<times> 't) option \<Rightarrow> (nat \<Rightarrow> u64) \<Rightarrow> 't LSConf" where
  "conf_of baseKey cacheCapacity reserveCapacity gcTarget cacheShare reserveShare tags clock =
     \<lparr>lc_baseKey = baseKey, lc_cacheCapacity = cacheCapacity, lc_reserveCapacity = reserveCapacity, lc_gcTarget = gcTarget,
      lc_cacheShare = cacheShare, lc_reserveShare = reserveShare, lc_tags = tags, lc_now = clock,
      retrievalDataIndex = index_of 2 retrievalData_funcs, retrievalAccessIndex = index_of 3 retrievalAccess_funcs,
      pushIndex = index_of 5 push_funcs, pullIndex = index_of 4 (pull_funcs baseKey), gcIndex = index_of 6 gc_funcs,
      pinIndex = index_of 7 pin_funcs, postageChunksIndex = index_of 8 (postageChunks_funcs baseKey),
      postageRadiusIndex = index_of 9 postageRadius_funcs, postageIndexIndex = index_of 10 postageIndex_funcs,
      lc_binIDs = 1 # bytes_of_string ''bin-ids'', lc_gcSize = 1 # bytes_of_string ''gc-size'',
      lc_reserveSize = 1 # bytes_of_string ''reserve-size''\<rparr>"

lemma conf_of_layout: "ls_layout (conf_of b cc rc gt cs rs tg ck)"
  by (simp add: ls_layout_def conf_of_def)

definition has_schema :: "(bytes \<Rightarrow> sh_error + schema) \<Rightarrow> (bytes \<Rightarrow> bytes option) \<Rightarrow> schema \<Rightarrow> bool" where
  "has_schema jd m sc \<longleftrightarrow> (\<exists>b. m keySchema = Some b \<and> jd b = Inr sc)"

context level_db
begin

lemma put_schema:
  assumes codec: "\<And>sc. \<exists>b. je sc = Inr b \<and> jd b = Inr sc"
  obtains s' where "putSchema L je sc s = Inr s'" "has_schema jd (look s') sc" "\<And>k. k \<noteq> keySchema \<Longrightarrow> look s' k = look s k"
proof -
  obtain b where b: "je sc = Inr b" "jd b = Inr sc" using codec by blast
  obtain s' where "ld_Put L keySchema b s = Inr s'" "look s' = (look s)(keySchema \<mapsto> b)" using ld_put by blast
  then show thesis using b that [of s'] by (simp add: putSchema_def has_schema_def)
qed

lemma field_step:
  assumes codec: "\<And>sc. \<exists>b. je sc = Inr b \<and> jd b = Inr sc" and sc: "has_schema jd (look s) sc" and n: "map_of (sc_Fields sc) name = None" "name \<noteq> []" "ty \<noteq> []"
  obtains s' where "schemaFieldKey L je jd name ty s = Inr (1 # bytes_of_string name, s')"
    "has_schema jd (look s') (sc\<lparr>sc_Fields := AList.update name ty (sc_Fields sc)\<rparr>)" "\<And>k. k \<noteq> keySchema \<Longrightarrow> look s' k = look s k"
proof -
  have "getSchema L jd s = Inr sc" using sc by (auto simp: getSchema_def has_schema_def ld_get)
  moreover obtain s' where "putSchema L je (sc\<lparr>sc_Fields := AList.update name ty (sc_Fields sc)\<rparr>) s = Inr s'" "has_schema jd (look s') (sc\<lparr>sc_Fields := AList.update name ty (sc_Fields sc)\<rparr>)"
    "\<And>k. k \<noteq> keySchema \<Longrightarrow> look s' k = look s k" by (rule put_schema [OF codec, where s = s]) blast
  ultimately show thesis using n by (intro that [of s']) (simp_all add: schemaFieldKey_def keyPrefixFields_def)
qed

lemma index_step:
  assumes codec: "\<And>sc. \<exists>b. je sc = Inr b \<and> jd b = Inr sc" and sc: "has_schema jd (look s) sc" and n: "prefix_loop name 2 (sc_Indexes sc) = Inr i" "name \<noteq> []"
  obtains s' where "NewIndex L je jd name f s = Inr (index_of i f, s')"
    "has_schema jd (look s') (sc\<lparr>sc_Indexes := AList.update i name (sc_Indexes sc)\<rparr>)" "\<And>k. k \<noteq> keySchema \<Longrightarrow> look s' k = look s k"
proof -
  have "getSchema L jd s = Inr sc" using sc by (auto simp: getSchema_def has_schema_def ld_get)
  moreover obtain s' where "putSchema L je (sc\<lparr>sc_Indexes := AList.update i name (sc_Indexes sc)\<rparr>) s = Inr s'" "has_schema jd (look s') (sc\<lparr>sc_Indexes := AList.update i name (sc_Indexes sc)\<rparr>)"
    "\<And>k. k \<noteq> keySchema \<Longrightarrow> look s' k = look s k" by (rule put_schema [OF codec, where s = s]) blast
  ultimately show thesis using n by (intro that [of s']) (simp_all add: NewIndex_def schemaIndexPrefix_def keyPrefixIndexStart_def)
qed

lemma new_db:
  assumes codec: "\<And>sc. \<exists>b. je sc = Inr b \<and> jd b = Inr sc" and empty: "look s = Map.empty" and cap: "op_Capacity o0 \<noteq> 0"
  obtains s' where "New_localstore L je jd migrate clock m9 m5 m1 baseKey o0 s =
      Inr (conf_of baseKey (op_Capacity o0) (op_ReserveCapacity o0) (m9 (op_Capacity o0)) (m5 (op_Capacity o0)) (m1 (op_ReserveCapacity o0)) (op_Tags o0) clock, s')"
    "typed_map (look s')" "\<And>k. k \<noteq> keySchema \<Longrightarrow> k \<noteq> 1 # bytes_of_string ''schema-name'' \<Longrightarrow> look s' k = None"
proof -
  have s0: "NewDBWrap L je jd s = putSchema L je \<lparr>sc_Fields = [], sc_Indexes = []\<rparr> s"
    by (simp add: NewDBWrap_def getSchema_def ld_get empty)
  obtain s1 where s1: "putSchema L je \<lparr>sc_Fields = [], sc_Indexes = []\<rparr> s = Inr s1" "has_schema jd (look s1) \<lparr>sc_Fields = [], sc_Indexes = []\<rparr>"
    "\<And>k. k \<noteq> keySchema \<Longrightarrow> look s1 k = None" using put_schema [OF codec] empty by metis
  obtain s2 where s2: "schemaFieldKey L je jd ''schema-name'' ''string'' s1 = Inr (1 # bytes_of_string ''schema-name'', s2)" "has_schema jd (look s2) \<lparr>sc_Fields = [(''schema-name'', ''string'')], sc_Indexes = []\<rparr>"
    "\<And>k. k \<noteq> keySchema \<Longrightarrow> look s2 k = look s1 k" by (rule field_step [OF codec s1(2), of "''schema-name''" "''string''"]) simp_all
  have "str_Get L (1 # bytes_of_string ''schema-name'') s2 = Inr []" using s2(3) s1(3) by (simp add: str_Get_def ld_get keySchema_def)
  moreover obtain s3 where s3: "str_Put L (1 # bytes_of_string ''schema-name'') DBSchemaCurrent s2 = Inr s3" "has_schema jd (look s3) \<lparr>sc_Fields = [(''schema-name'', ''string'')], sc_Indexes = []\<rparr>"
    "\<And>k. k \<noteq> keySchema \<Longrightarrow> look s3 k = (if k = 1 # bytes_of_string ''schema-name'' then Some (bytes_of_string DBSchemaCurrent) else None)"
    using ld_put [of "1 # bytes_of_string ''schema-name''" "bytes_of_string DBSchemaCurrent" s2] s2(2,3) s1(3)
    by (auto simp: str_Put_def has_schema_def keySchema_def)
  ultimately have nm: "str_Get L (1 # bytes_of_string ''schema-name'') s2 = Inr []" by blast
  obtain s4 where s4: "schemaFieldKey L je jd ''gc-size'' ''uint64'' s3 = Inr (1 # bytes_of_string ''gc-size'', s4)" "has_schema jd (look s4) \<lparr>sc_Fields = [(''schema-name'', ''string''), (''gc-size'', ''uint64'')], sc_Indexes = []\<rparr>"
    "\<And>k. k \<noteq> keySchema \<Longrightarrow> look s4 k = look s3 k" by (rule field_step [OF codec s3(2), of "''gc-size''" "''uint64''"]) simp_all
  obtain s5 where s5: "schemaFieldKey L je jd ''reserve-size'' ''uint64'' s4 = Inr (1 # bytes_of_string ''reserve-size'', s5)" "has_schema jd (look s5) \<lparr>sc_Fields = [(''schema-name'', ''string''), (''gc-size'', ''uint64''), (''reserve-size'', ''uint64'')], sc_Indexes = []\<rparr>"
    "\<And>k. k \<noteq> keySchema \<Longrightarrow> look s5 k = look s4 k" by (rule field_step [OF codec s4(2), of "''reserve-size''" "''uint64''"]) simp_all
  obtain s6 where s6: "NewIndex L je jd ''Address->StoreTimestamp|BinID|BatchID|BatchIndex|Sig|Data'' retrievalData_funcs s5 = Inr (index_of 2 retrievalData_funcs, s6)" "has_schema jd (look s6) \<lparr>sc_Fields = [(''schema-name'', ''string''), (''gc-size'', ''uint64''), (''reserve-size'', ''uint64'')], sc_Indexes = [(2, ''Address->StoreTimestamp|BinID|BatchID|BatchIndex|Sig|Data'')]\<rparr>"
    "\<And>k. k \<noteq> keySchema \<Longrightarrow> look s6 k = look s5 k" by (rule index_step [OF codec s5(2), of "''Address->StoreTimestamp|BinID|BatchID|BatchIndex|Sig|Data''" 2 "retrievalData_funcs"]) simp_all
  obtain s7 where s7: "NewIndex L je jd ''Address->AccessTimestamp'' retrievalAccess_funcs s6 = Inr (index_of 3 retrievalAccess_funcs, s7)" "has_schema jd (look s7) \<lparr>sc_Fields = [(''schema-name'', ''string''), (''gc-size'', ''uint64''), (''reserve-size'', ''uint64'')], sc_Indexes = [(2, ''Address->StoreTimestamp|BinID|BatchID|BatchIndex|Sig|Data''), (3, ''Address->AccessTimestamp'')]\<rparr>"
    "\<And>k. k \<noteq> keySchema \<Longrightarrow> look s7 k = look s6 k" by (rule index_step [OF codec s6(2), of "''Address->AccessTimestamp''" 3 "retrievalAccess_funcs"]) simp_all
  obtain s8 where s8: "NewIndex L je jd ''PO|BinID->Hash'' (pull_funcs baseKey) s7 = Inr (index_of 4 (pull_funcs baseKey), s8)" "has_schema jd (look s8) \<lparr>sc_Fields = [(''schema-name'', ''string''), (''gc-size'', ''uint64''), (''reserve-size'', ''uint64'')], sc_Indexes = [(2, ''Address->StoreTimestamp|BinID|BatchID|BatchIndex|Sig|Data''), (3, ''Address->AccessTimestamp''), (4, ''PO|BinID->Hash'')]\<rparr>"
    "\<And>k. k \<noteq> keySchema \<Longrightarrow> look s8 k = look s7 k" by (rule index_step [OF codec s7(2), of "''PO|BinID->Hash''" 4 "(pull_funcs baseKey)"]) simp_all
  obtain s9 where s9: "schemaFieldKey L je jd ''bin-ids'' ''vector-uint64'' s8 = Inr (1 # bytes_of_string ''bin-ids'', s9)" "has_schema jd (look s9) \<lparr>sc_Fields = [(''schema-name'', ''string''), (''gc-size'', ''uint64''), (''reserve-size'', ''uint64''), (''bin-ids'', ''vector-uint64'')], sc_Indexes = [(2, ''Address->StoreTimestamp|BinID|BatchID|BatchIndex|Sig|Data''), (3, ''Address->AccessTimestamp''), (4, ''PO|BinID->Hash'')]\<rparr>"
    "\<And>k. k \<noteq> keySchema \<Longrightarrow> look s9 k = look s8 k" by (rule field_step [OF codec s8(2), of "''bin-ids''" "''vector-uint64''"]) simp_all
  obtain s10 where s10: "NewIndex L je jd ''StoreTimestamp|Hash->Tags'' push_funcs s9 = Inr (index_of 5 push_funcs, s10)" "has_schema jd (look s10) \<lparr>sc_Fields = [(''schema-name'', ''string''), (''gc-size'', ''uint64''), (''reserve-size'', ''uint64''), (''bin-ids'', ''vector-uint64'')], sc_Indexes = [(2, ''Address->StoreTimestamp|BinID|BatchID|BatchIndex|Sig|Data''), (3, ''Address->AccessTimestamp''), (4, ''PO|BinID->Hash''), (5, ''StoreTimestamp|Hash->Tags'')]\<rparr>"
    "\<And>k. k \<noteq> keySchema \<Longrightarrow> look s10 k = look s9 k" by (rule index_step [OF codec s9(2), of "''StoreTimestamp|Hash->Tags''" 5 "push_funcs"]) simp_all
  obtain s11 where s11: "NewIndex L je jd ''AccessTimestamp|BinID|Hash->BatchID|BatchIndex'' gc_funcs s10 = Inr (index_of 6 gc_funcs, s11)" "has_schema jd (look s11) \<lparr>sc_Fields = [(''schema-name'', ''string''), (''gc-size'', ''uint64''), (''reserve-size'', ''uint64''), (''bin-ids'', ''vector-uint64'')], sc_Indexes = [(2, ''Address->StoreTimestamp|BinID|BatchID|BatchIndex|Sig|Data''), (3, ''Address->AccessTimestamp''), (4, ''PO|BinID->Hash''), (5, ''StoreTimestamp|Hash->Tags''), (6, ''AccessTimestamp|BinID|Hash->BatchID|BatchIndex'')]\<rparr>"
    "\<And>k. k \<noteq> keySchema \<Longrightarrow> look s11 k = look s10 k" by (rule index_step [OF codec s10(2), of "''AccessTimestamp|BinID|Hash->BatchID|BatchIndex''" 6 "gc_funcs"]) simp_all
  obtain s12 where s12: "NewIndex L je jd ''Hash->PinCounter'' pin_funcs s11 = Inr (index_of 7 pin_funcs, s12)" "has_schema jd (look s12) \<lparr>sc_Fields = [(''schema-name'', ''string''), (''gc-size'', ''uint64''), (''reserve-size'', ''uint64''), (''bin-ids'', ''vector-uint64'')], sc_Indexes = [(2, ''Address->StoreTimestamp|BinID|BatchID|BatchIndex|Sig|Data''), (3, ''Address->AccessTimestamp''), (4, ''PO|BinID->Hash''), (5, ''StoreTimestamp|Hash->Tags''), (6, ''AccessTimestamp|BinID|Hash->BatchID|BatchIndex''), (7, ''Hash->PinCounter'')]\<rparr>"
    "\<And>k. k \<noteq> keySchema \<Longrightarrow> look s12 k = look s11 k" by (rule index_step [OF codec s11(2), of "''Hash->PinCounter''" 7 "pin_funcs"]) simp_all
  obtain s13 where s13: "NewIndex L je jd ''BatchID|PO|Hash->nil'' (postageChunks_funcs baseKey) s12 = Inr (index_of 8 (postageChunks_funcs baseKey), s13)" "has_schema jd (look s13) \<lparr>sc_Fields = [(''schema-name'', ''string''), (''gc-size'', ''uint64''), (''reserve-size'', ''uint64''), (''bin-ids'', ''vector-uint64'')], sc_Indexes = [(2, ''Address->StoreTimestamp|BinID|BatchID|BatchIndex|Sig|Data''), (3, ''Address->AccessTimestamp''), (4, ''PO|BinID->Hash''), (5, ''StoreTimestamp|Hash->Tags''), (6, ''AccessTimestamp|BinID|Hash->BatchID|BatchIndex''), (7, ''Hash->PinCounter''), (8, ''BatchID|PO|Hash->nil'')]\<rparr>"
    "\<And>k. k \<noteq> keySchema \<Longrightarrow> look s13 k = look s12 k" by (rule index_step [OF codec s12(2), of "''BatchID|PO|Hash->nil''" 8 "(postageChunks_funcs baseKey)"]) simp_all
  obtain s14 where s14: "NewIndex L je jd ''BatchID->Radius'' postageRadius_funcs s13 = Inr (index_of 9 postageRadius_funcs, s14)" "has_schema jd (look s14) \<lparr>sc_Fields = [(''schema-name'', ''string''), (''gc-size'', ''uint64''), (''reserve-size'', ''uint64''), (''bin-ids'', ''vector-uint64'')], sc_Indexes = [(2, ''Address->StoreTimestamp|BinID|BatchID|BatchIndex|Sig|Data''), (3, ''Address->AccessTimestamp''), (4, ''PO|BinID->Hash''), (5, ''StoreTimestamp|Hash->Tags''), (6, ''AccessTimestamp|BinID|Hash->BatchID|BatchIndex''), (7, ''Hash->PinCounter''), (8, ''BatchID|PO|Hash->nil''), (9, ''BatchID->Radius'')]\<rparr>"
    "\<And>k. k \<noteq> keySchema \<Longrightarrow> look s14 k = look s13 k" by (rule index_step [OF codec s13(2), of "''BatchID->Radius''" 9 "postageRadius_funcs"]) simp_all
  obtain s15 where s15: "NewIndex L je jd ''BatchID|BatchIndex->Hash|Timestamp'' postageIndex_funcs s14 = Inr (index_of 10 postageIndex_funcs, s15)" "has_schema jd (look s15) \<lparr>sc_Fields = [(''schema-name'', ''string''), (''gc-size'', ''uint64''), (''reserve-size'', ''uint64''), (''bin-ids'', ''vector-uint64'')], sc_Indexes = [(2, ''Address->StoreTimestamp|BinID|BatchID|BatchIndex|Sig|Data''), (3, ''Address->AccessTimestamp''), (4, ''PO|BinID->Hash''), (5, ''StoreTimestamp|Hash->Tags''), (6, ''AccessTimestamp|BinID|Hash->BatchID|BatchIndex''), (7, ''Hash->PinCounter''), (8, ''BatchID|PO|Hash->nil''), (9, ''BatchID->Radius''), (10, ''BatchID|BatchIndex->Hash|Timestamp'')]\<rparr>"
    "\<And>k. k \<noteq> keySchema \<Longrightarrow> look s15 k = look s14 k" by (rule index_step [OF codec s14(2), of "''BatchID|BatchIndex->Hash|Timestamp''" 10 "postageIndex_funcs"]) simp_all
  have other: "look s15 k = (if k = 1 # bytes_of_string ''schema-name'' then Some (bytes_of_string DBSchemaCurrent) else None)" if "k \<noteq> keySchema" for k
    using s4(3) [OF that] s5(3) [OF that] s6(3) [OF that] s7(3) [OF that] s8(3) [OF that] s9(3) [OF that] s10(3) [OF that] s11(3) [OF that] s12(3) [OF that] s13(3) [OF that] s14(3) [OF that] s15(3) [OF that] s3(3) [OF that] by simp
  have "typed_map (look s15)" unfolding typed_map_def
  proof (intro allI impI)
    fix k v assume "look s15 k = Some v"
    then have "k = keySchema \<or> k = 1 # bytes_of_string ''schema-name''" using other [of k] by (cases "k = keySchema") (simp_all split: if_splits)
    then show "typed_entry k v" by (auto simp: typed_entry_def keySchema_def bytes_of_string_def)
  qed
  moreover have "New_localstore L je jd migrate clock m9 m5 m1 baseKey o0 s =
      Inr (conf_of baseKey (op_Capacity o0) (op_ReserveCapacity o0) (m9 (op_Capacity o0)) (m5 (op_Capacity o0)) (m1 (op_ReserveCapacity o0)) (op_Tags o0) clock, s15)"
    unfolding New_localstore_def Let_def then_s_def s0 using cap
    by (simp add: s1(1) s2(1) s3(1) s4(1) s5(1) s6(1) s7(1) s8(1) s9(1) s10(1) s11(1) s12(1) s13(1) s14(1) s15(1) nm conf_of_def)
  ultimately show thesis using other by (intro that [of s15]) simp_all
qed

lemma new_layout:
  assumes "\<And>sc. \<exists>b. je sc = Inr b \<and> jd b = Inr sc" and "look s = Map.empty" and "op_Capacity o0 \<noteq> 0"
  obtains s' where "New_localstore L je jd migrate clock m9 m5 m1 baseKey o0 s =
      Inr (conf_of baseKey (op_Capacity o0) (op_ReserveCapacity o0) (m9 (op_Capacity o0)) (m5 (op_Capacity o0)) (m1 (op_ReserveCapacity o0)) (op_Tags o0) clock, s')"
    "typed_map (look s')"
  by (rule new_db [OF assms]) (rule that)

end

context chunk_db
begin

lemma put_quiet:
  assumes t: "typed_map (look (ls_shed st))" and "\<forall>ch \<in> set chs. stamped ch"
  shows "fst (ls_put L db mode chs st) \<noteq> Inl sh_Panic"
proof -
  have "quiet (thn (put_loop L db (ls_shed st) mode [] chs) (\<lambda>(exist, gcSizeChange).
           thn (put_binIDs db) (\<lambda>_. thn (incGCSizeInBatch L db (ls_shed st) gcSizeChange) (\<lambda>_. ret exist))))"
    by (intro quiet_rules quiet_loops [OF t] assms quiet_counters [OF t])
  then have "fst (run_act L (mark_dirty (map ch_addr chs) st) (thn (put_loop L db (ls_shed st) mode [] chs) (\<lambda>(exist, gcSizeChange).
           thn (put_binIDs db) (\<lambda>_. thn (incGCSizeInBatch L db (ls_shed st) gcSizeChange) (\<lambda>_. ret exist))))) \<noteq> Inl sh_Panic"
    by (rule quiet_run [OF _ surjective_pairing])
  moreover have "chunkToItem ch \<noteq> Inl e" if "stamped ch" for ch e using stamped_item [OF that] by auto
  ultimately show ?thesis using assms(2) get_quiet(8) [OF t]
    by (cases chs) (auto simp: ls_put_def Let_def split: sum.splits)
qed

lemma set_quiet:
  assumes t: "typed_map (look (ls_shed st))" and "tags_quiet db"
  shows "fst (ls_set L db smode addrs st) \<noteq> Inl sh_Panic"
proof -
  have "quiet (thn (set_loop L db (ls_shed st) smode addrs) (\<lambda>c. incGCSizeInBatch L db (ls_shed st) c))"
    by (intro quiet_rules quiet_loops [OF t] assms quiet_counters [OF t])
  then show ?thesis unfolding ls_set_def Let_def by (rule quiet_run [OF _ surjective_pairing])
qed

lemma Get_quiet: "typed_map (look s) \<Longrightarrow> fst (ls_Get L db mode addr s) \<noteq> Inl sh_Panic"
  using get_quiet(1,5) [of s "address_item addr"]
  by (cases mode; cases "ix_Get L (pinIndex db) (address_item addr) s")
    (auto simp: ls_Get_def ls_get_def Let_def ErrInvalidMode_def split: sum.splits prod.splits)

lemma updateGC_quiet:
  assumes t: "typed_map (look (ls_shed st))"
  shows "fst (updateGC L db item st) \<noteq> Inl sh_Panic"
proof -
  have "fst (run_act L st' (updateGC_act L db (ls_shed st) i)) \<noteq> Inl sh_Panic" for st' i
    by (rule quiet_run [OF quiet_ops(5) [OF t] surjective_pairing])
  then show ?thesis using unlessNotFound_quiet [OF get_quiet(2) [OF t, of item]] by (auto simp: updateGC_def Let_def split: sum.splits)
qed

end

section \<open>Iteration does not panic\<close>

context chunk_db
begin

lemma item_quiet:
  assumes "f = gcIndex db \<or> f = postageChunksIndex db" and "typed_entry (fst kv) (snd kv)"
  shows "itemFromIterator f (ix_prefix f @ p) kv \<noteq> Inl sh_Panic"
proof (cases "prefix (ix_prefix f @ p) (fst kv)")
  case True
  have gc: "ix_prefix (gcIndex db) = [6]" "ix_DecodeKey (gcIndex db) = if_DecodeKey gc_funcs" "ix_DecodeValue (gcIndex db) = if_DecodeValue gc_funcs"
    and pc: "ix_prefix (postageChunksIndex db) = [8]" "ix_DecodeKey (postageChunksIndex db) = if_DecodeKey (postageChunks_funcs (lc_baseKey db))"
      "ix_DecodeValue (postageChunksIndex db) = if_DecodeValue (postageChunks_funcs (lc_baseKey db))"
    using lay by (simp_all add: ls_layout_def index_of_def)
  show ?thesis using assms(1)
  proof
    assume f: "f = gcIndex db"
    then obtain r where "fst kv = 6 # r" using True by (cases "fst kv") (auto simp: gc(1))
    then show ?thesis using assms(2) by (simp add: f itemFromIterator_def gc gc_funcs_def typed_entry_def)
  next
    assume f: "f = postageChunksIndex db"
    then obtain r where "fst kv = 8 # r" using True by (cases "fst kv") (auto simp: pc(1))
    then show ?thesis using assms(2) by (simp add: f itemFromIterator_def pc postageChunks_funcs_def typed_entry_def)
  qed
qed (simp add: itemFromIterator_def)

lemma walk_quiet:
  assumes "f = gcIndex db \<or> f = postageChunksIndex db" and "\<And>i c. fst (fn i c) \<noteq> Inl sh_Panic"
  shows "\<forall>kv \<in> set es. typed_entry (fst kv) (snd kv) \<Longrightarrow> fst (ix_walk f fn (ix_prefix f @ p) None es c) \<noteq> Some sh_Panic"
proof (induction es arbitrary: c)
  case (Cons kv es)
  have q: "itemFromIterator f (ix_prefix f @ p) kv \<noteq> Inl sh_Panic" using Cons.prems by (intro item_quiet [OF assms(1)]) simp
  show ?case
  proof (cases "itemFromIterator f (ix_prefix f @ p) kv")
    case (Inr i)
    obtain r c1 where "fn i c = (r, c1)" by fastforce
    then show ?thesis using Inr assms(2) [of i c] Cons by (cases r) auto
  qed (use q in auto)
qed simp

lemma iterate_quiet:
  assumes t: "typed_map (look s)" and f: "f = gcIndex db \<or> f = postageChunksIndex db" and fn: "\<And>i c. fst (fn i c) \<noteq> Inl sh_Panic"
  shows "fst (ix_Iterate L f fn (default_options\<lparr>io_Prefix := p\<rparr>) s c) \<noteq> Some sh_Panic"
proof -
  obtain es where es: "ld_Entries L s = (es, None)" "sorted_wrt (<) (map fst es)" "map_of es = look s" using ld_entries by blast
  have ty: "typed_entry (fst kv) (snd kv)" if "kv \<in> set es" for kv
    using t es that strict_sorted_iff [of "map fst es"] unfolding typed_map_def by (metis map_of_eq_Some_iff prod.collapse)
  have "fst (ix_walk f fn (ix_prefix f @ p) None (drop n es) c) \<noteq> Some sh_Panic" for n
    by (rule walk_quiet [OF f fn]) (use ty in \<open>auto dest: in_set_dropD\<close>)
  then show ?thesis using es(1) by (simp add: ix_Iterate_def default_options_def Let_def iterate_from_def)
qed

lemma candidates_quiet:
  assumes t: "typed_map (look s)"
  shows "gc_candidates L db s \<noteq> Inl (d, Some sh_Panic)"
proof -
  have "fst (ix_Iterate L (gcIndex db) (gc_pick n k) default_options s c) \<noteq> Some sh_Panic" for n k c
    using iterate_quiet [OF t, of "gcIndex db" "gc_pick n k" "[]" c] by (simp add: gc_pick_def default_options_def split: prod.splits)
  then show ?thesis using get_quiet(11) [OF t] by (auto simp: gc_candidates_def split: sum.splits prod.splits option.splits) (metis fst_conv)
qed

lemma collect_quiet:
  assumes t: "typed_map (look (ls_shed st))"
  shows "fst (gc_collect L db c st) \<noteq> Inl sh_Panic"
proof -
  have del: "quiet (gc_delete db dirty items n)" for dirty items n
    by (induction items arbitrary: n) (simp_all only: gc_delete.simps, (intro quiet_rules)+)
  have "quiet (thn (gc_delete db (ls_dirty st) (fst c) (snd c)) (\<lambda>n t. (Inr (g n), h n t)))" for g :: "u64 \<Rightarrow> u64 \<times> bool" and h
    by (intro quiet_rules del) (simp add: quiet_def)
  from quiet_run [OF this surjective_pairing] show ?thesis
    using get_quiet(11) [OF t] by (auto simp: gc_collect_def split: sum.splits)
qed

lemma collectGarbage_quiet:
  assumes t: "typed_map (look (ls_shed st))"
  shows "snd (snd (fst (collectGarbage L db st))) \<noteq> Some sh_Panic"
proof -
  have t': "typed_map (look (ls_shed (gc_begin st)))" using t by (simp add: gc_begin_def)
  then show ?thesis using candidates_quiet [OF t'] collect_quiet [OF t']
    by (auto simp: collectGarbage_def Let_def split: sum.splits prod.splits) (metis fst_conv)
qed

lemma quiet_unreserve_bin:
  assumes t: "typed_map (look s)"
  shows "quiet (unreserve_bin L db s batchID bin n)"
  unfolding quiet_def
proof
  fix t0
  let ?it = "ix_Iterate L (postageChunksIndex db) (unpin_cb L db s) (default_options\<lparr>io_Prefix := batchID @ [bin]\<rparr>) s (0, n, t0)"
  have "fst (unpin_cb L db s i c) \<noteq> Inl sh_Panic" for i c
    using quiet_ops(2) [OF t] unfolding quiet_def by (auto simp: unpin_cb_def split: prod.splits sum.splits) (metis fst_conv)
  then have it: "fst ?it \<noteq> Some sh_Panic" by (intro iterate_quiet [OF t]) simp_all
  obtain e c m t1 where eq: "?it = (e, c, m, t1)" by (metis prod.collapse)
  have "quiet (thn (incGCSizeInBatch L db s c) (\<lambda>_.
          let item = zero_item\<lparr>it_BatchID := batchID, it_Radius := bin\<rparr> in
          thn (putB (postageRadiusIndex db) item) (\<lambda>_.
          thn (if bin = MaxPO then delB (postageRadiusIndex db) item else ret ()) (\<lambda>_. ret m))))"
    unfolding Let_def by (intro quiet_rules t)
  then show "fst (unreserve_bin L db s batchID bin n t0) \<noteq> Inl sh_Panic"
    using it eq by (cases e) (simp_all add: unreserve_bin_def quiet_def)
qed

lemma unreserve_bins_quiet:
  "typed_map (look (ls_shed st)) \<Longrightarrow> fst (unreserve_bins L db batchID bins n st) \<noteq> Inl sh_Panic"
proof (induction bins arbitrary: n st)
  case (Cons b bins)
  obtain r1 st1 where r1: "run_act L st (unreserve_bin L db (ls_shed st) batchID b n) = (r1, st1)" by fastforce
  have "typed_map (look (ls_shed st1))" by (rule typed_run [OF Cons.prems typed_unreserve_bin [OF lay] r1])
  then show ?case using Cons.IH r1 quiet_run [OF quiet_unreserve_bin [OF Cons.prems] r1] by (cases r1) simp_all
qed simp

lemma UnreserveBatch_quiet:
  assumes t: "typed_map (look (ls_shed st))"
  shows "fst (UnreserveBatch L db batchID radius st) \<noteq> Inl sh_Panic"
proof -
  have bins: "g \<noteq> Inl sh_Panic \<and> typed_map (look (ls_shed st1))" if "unreserve_bins L db batchID bins 0 st = (g, st1)" for bins g st1
    using unreserve_bins_quiet [OF t, of batchID bins 0] typed_unreserve_bins [OF t that] that by simp
  have radius: "g \<noteq> Inl sh_Panic \<and> typed_map (look (ls_shed st2))"
    if "(if b then run_act L st1 (putB (postageRadiusIndex db) j) else (Inr (), st1)) = (g, st2)" "typed_map (look (ls_shed st1))" for b j g st2 and st1 :: "('s, 't) LS"
    using that quiet_run [OF quiet_batch(8)] typed_run_unit(1) [OF that(2), of j] by (cases b) auto
  have size: "g \<noteq> Inl sh_Panic"
    if "(if b then run_act L st2 (incReserveSizeInBatch L db (ls_shed st2) c) else (Inr (), st2)) = (g, st3)" "typed_map (look (ls_shed st2))" for b c g st2 st3
    using that quiet_run [OF quiet_counters(2)] by (auto split: if_splits)
  show ?thesis
  proof (cases "unlessNotFound (ix_Get L (postageRadiusIndex db) (zero_item\<lparr>it_BatchID := batchID\<rparr>) (ls_shed st))")
    case (Inl e)
    then show ?thesis using unlessNotFound_quiet [OF get_quiet(6) [OF t]] by (auto simp: UnreserveBatch_def)
  next
    case (Inr i)
    let ?bins = "map word_of_nat [unat (case i of None \<Rightarrow> radius | Some i \<Rightarrow> it_Radius i)..<unat radius]"
    obtain g1 st1 where b: "unreserve_bins L db batchID ?bins 0 st = (g1, st1)" by fastforce
    obtain g2 st2 where r2: "(if radius \<noteq> MaxPO + 1
        then run_act L st1 (putB (postageRadiusIndex db) (zero_item\<lparr>it_BatchID := batchID, it_Radius := radius\<rparr>)) else (Inr (), st1)) = (g2, st2)"
      by (metis surj_pair)
    note q1 = bins [OF b]
    note q2 = radius [OF r2 q1 [THEN conjunct2]]
    have q3: "unlessNotFound (u64_Get L (lc_gcSize db) (ls_shed st2)) \<noteq> Inl sh_Panic" using q2 by (intro unlessNotFound_quiet get_quiet(11)) simp
    show ?thesis
    proof (cases g1)
      case (Inl e)
      then show ?thesis using Inr b q1 by (simp add: UnreserveBatch_def)
    next
      case n: (Inr n)
      obtain g3 st3 where r3: "(if 0 < n then run_act L st2 (incReserveSizeInBatch L db (ls_shed st2) (- uint n)) else (Inr (), st2)) = (g3, st3)"
        by (metis surj_pair)
      show ?thesis using Inr n b r2 r3 q2 q3 size [OF r3 q2 [THEN conjunct2]]
        by (cases g2; cases "unlessNotFound (u64_Get L (lc_gcSize db) (ls_shed st2))"; cases g3) (simp_all add: UnreserveBatch_def Let_def)
    qed
  qed
qed

lemma evict_quiet:
  "typed_map (look (ls_shed st)) \<Longrightarrow> err \<noteq> Some sh_Panic \<Longrightarrow> fst (evict_loop L db start target calls err n st) \<noteq> Inl sh_Panic"
proof (induction calls arbitrary: n st)
  case (Cons c calls)
  obtain b r where c: "c = (b, r)" by fastforce
  obtain g st1 where u: "UnreserveBatch L db b r st = (g, st1)" by fastforce
  then have "typed_map (look (ls_shed st1))" "g \<noteq> Inl sh_Panic"
    using typed_UnreserveBatch [OF Cons.prems(1), of b r] UnreserveBatch_quiet [OF Cons.prems(1), of b r] by simp_all
  then show ?case using Cons.IH Cons.prems(2) u c by (cases g) (simp_all add: Let_def)
qed (auto split: option.splits)

lemma evictReserve_quiet:
  assumes t: "typed_map (look (ls_shed st))" and "snd unreserve \<noteq> Some sh_Panic"
  shows "snd (snd (fst (evictReserve L db unreserve st))) \<noteq> Some sh_Panic"
  using evict_quiet [OF assms, of _ "reserveEvictionTarget db" "fst unreserve" 0] get_quiet(12) [OF t]
  by (auto simp: evictReserve_def Let_def split: sum.splits prod.splits) (metis fst_conv)

lemma GetMulti_quiet:
  assumes t: "typed_map (look s)"
  shows "fst (ls_GetMulti L db mode addrs s) \<noteq> Inl sh_Panic"
proof -
  have fill: "ix_Fill L f is s \<noteq> Inl sh_Panic" if "\<And>i. ix_Get L f i s \<noteq> Inl sh_Panic" for f "is"
  proof -
    have "fill_loop L f s is \<noteq> Inl sh_Panic" using that by (induction "is") (auto split: sum.splits)
    then show ?thesis by (simp add: ix_Fill_def ld_snapshot)
  qed
  show ?thesis using fill [OF get_quiet(1) [OF t]] fill [OF get_quiet(5) [OF t]]
    by (cases mode) (auto simp: ls_GetMulti_def ls_getMulti_def ErrInvalidMode_def map_sum_def split: sum.splits prod.splits)
qed

lemma lookups_quiet:
  assumes t: "typed_map (look s)"
  shows "ls_Has L db addr s \<noteq> Inl sh_Panic" "ls_HasMulti L db addrs s \<noteq> Inl sh_Panic" "pinCounter L db addr s \<noteq> Inl sh_Panic"
proof -
  have "has_loop L (retrievalDataIndex db) s is \<noteq> Inl sh_Panic" for "is"
    using get_quiet(8) [OF t] by (induction "is") (auto split: sum.splits)
  then show "ls_HasMulti L db addrs s \<noteq> Inl sh_Panic" by (simp add: ls_HasMulti_def ix_HasMulti_def ld_snapshot)
  show "ls_Has L db addr s \<noteq> Inl sh_Panic" "pinCounter L db addr s \<noteq> Inl sh_Panic"
    using get_quiet(5,8) [OF t] by (auto simp: ls_Has_def pinCounter_def map_sum_def split: sum.splits)
qed

end

definition demo_conf :: "unit LSConf" where
  "demo_conf = conf_of (replicate 32 0) 10 10 9 5 1 None (\<lambda>n. word_of_nat (Suc n))"

interpretation mls: chunk_db memdb map_of demo_conf
  by unfold_locales (simp add: demo_conf_def conf_of_layout)

section \<open>A codec for schemas\<close>

text \<open>A codec for schemas: a list of strings, where a character follows a one and a zero ends a string.\<close>

definition enc_str :: "string \<Rightarrow> bytes" where
  "enc_str s = concat (map (\<lambda>c. [1, word_of_nat (of_char c)]) s) @ [0]"

fun dec_strs :: "bytes \<Rightarrow> string \<Rightarrow> string list" where
  "dec_strs [] acc = []"
| "dec_strs [x] acc = (if x = 0 then [rev acc] else [])"
| "dec_strs (x # y # r) acc = (if x = 0 then rev acc # dec_strs (y # r) [] else dec_strs r (char_of (unat y) # acc))"

fun pairs :: "'a list \<Rightarrow> ('a \<times> 'a) list" where
  "pairs (x # y # r) = (x, y) # pairs r"
| "pairs _ = []"

definition schema_strs :: "schema \<Rightarrow> string list" where
  "schema_strs sc =
     replicate (length (sc_Fields sc)) (CHR ''f'') # concat (map (\<lambda>(n, t). [n, t]) (sc_Fields sc)) @
     concat (map (\<lambda>(i, n). [[char_of (unat i)], n]) (sc_Indexes sc))"

definition demo_je :: "schema \<Rightarrow> sh_error + bytes" where
  "demo_je sc = Inr (concat (map enc_str (schema_strs sc)))"

definition demo_jd :: "bytes \<Rightarrow> sh_error + schema" where
  "demo_jd b =
     (case dec_strs b [] of
        [] \<Rightarrow> Inl sh_NotFound
      | h # ss \<Rightarrow>
          Inr \<lparr>sc_Fields = pairs (take (2 * length h) ss),
               sc_Indexes = map (\<lambda>(i, n). (word_of_nat (of_char (hd i)), n)) (pairs (drop (2 * length h) ss))\<rparr>)"

lemma dec_enc: "dec_strs (concat (map enc_str ss)) [] = ss"
proof -
  have one: "dec_strs (concat (map (\<lambda>c. [1, word_of_nat (of_char c)]) s) @ 0 # r) acc = (rev acc @ s) # dec_strs r []" for s r acc
  proof (induction s arbitrary: acc)
    case Nil
    show ?case by (cases r) simp_all
  next
    case (Cons c s)
    have "unat (word_of_nat (of_char c) :: 8 word) = of_char c" by (simp add: unat_of_nat)
    then show ?case using Cons by simp
  qed
  show ?thesis using one by (induction ss) (simp_all add: enc_str_def)
qed

lemma pairs_concat: "pairs (concat (map (\<lambda>(n, t). [n, t]) xs)) = xs" "length (concat (map (\<lambda>(n, t). [n, t]) xs)) = 2 * length xs"
  by (induction xs) auto

lemma demo_codec: "\<exists>b. demo_je sc = Inr b \<and> demo_jd b = Inr sc"
proof -
  have i: "map (\<lambda>(i, n). (word_of_nat (of_char (hd i)), n)) (pairs (concat (map (\<lambda>(i, n). [[char_of (unat i)], n]) xs))) = xs" for xs :: "(u8 \<times> string) list"
    by (induction xs) (auto simp: mod_less [OF unat_byte_less])
  have "demo_jd (concat (map enc_str (schema_strs sc))) = Inr sc"
    unfolding demo_jd_def dec_enc using pairs_concat [of "sc_Fields sc"] i by (simp add: schema_strs_def)
  then show ?thesis by (simp add: demo_je_def)
qed

end
