(* ===== verification/LocalstoreView.thy ===== *)
theory LocalstoreView
  imports LocalstoreTyped
begin

text \<open>
  The part of the chunk database the garbage collector depends on, by address: the data, the access time, the pin and the entries of the
  index of the collector. \<open>hp\<close> gives what holds of it after an operation on a batch, \<open>addr_ok\<close> says when an address is consistent.
\<close>

section \<open>Keys that belong to an address\<close>

definition gckey :: "u64 \<Rightarrow> u64 \<Rightarrow> bytes \<Rightarrow> bytes" where
  "gckey at b a = 6 # be_bytes 8 (unat at) @ be_bytes 8 (unat b) @ a"

lemma unat_u64_less: "unat (w :: u64) < 256 ^ 8"
proof -
  have "unat w < 2 ^ LENGTH(64)" by (rule unsigned_less)
  then show ?thesis by simp
qed

lemma u64_bytes_inject [simp]: "be_bytes 8 (unat (x :: u64)) = be_bytes 8 (unat y) \<longleftrightarrow> x = y"
  using be_bytes_inject [OF unat_u64_less unat_u64_less, of x y] by (metis word_unat_eq_iff)

lemma u64_decode [simp]: "word_of_nat (be_val (be_bytes 8 (unat (x :: u64)))) = x"
  using unat_u64_less [of x] by simp

lemma u64_encode: "length b = 8 \<Longrightarrow> be_bytes 8 (unat (word_of_nat (be_val b) :: u64)) = b"
proof -
  assume b: "length b = 8"
  have "be_val b < 256 ^ 8" using be_val_less [of b] b by simp
  then have "unat (word_of_nat (be_val b) :: u64) = be_val b" by (simp add: unat_of_nat)
  then show ?thesis using be_bytes_be_val [of b] b by simp
qed

lemma gckey_inject [simp]: "gckey at b a = gckey at' b' a' \<longleftrightarrow> at = at' \<and> b = b' \<and> a = a'"
  by (auto simp: gckey_def)

lemma gckey_other [simp]:
  "gckey at b a \<noteq> 2 # x" "gckey at b a \<noteq> 3 # x" "gckey at b a \<noteq> 7 # x" "2 # x \<noteq> gckey at b a" "3 # x \<noteq> gckey at b a" "7 # x \<noteq> gckey at b a"
  by (simp_all add: gckey_def)

definition owner :: "bytes \<Rightarrow> bytes option" where
  "owner k = (case k of [] \<Rightarrow> None | p # r \<Rightarrow> if p = 2 \<or> p = 3 \<or> p = 7 then Some r else if p = 6 then Some (drop 16 r) else None)"

lemma owner_simps [simp]:
  "owner (2 # a) = Some a" "owner (3 # a) = Some a" "owner (7 # a) = Some a" "owner (gckey at b a) = Some a"
  "owner (1 # a) = None" "owner (4 # a) = None" "owner (5 # a) = None" "owner (8 # a) = None" "owner (9 # a) = None" "owner (10 # a) = None"
  by (simp_all add: owner_def gckey_def)

type_synonym kvmap = "bytes \<Rightarrow> bytes option"

definition owned :: "kvmap \<Rightarrow> kvmap" where
  "owned m k = (if owner k = None then None else m k)"

lemma owned_upd [simp]: "owner k \<noteq> None \<Longrightarrow> owned (m(k := v)) = (owned m)(k := v)" "owner k = None \<Longrightarrow> owned (m(k := v)) = owned m"
  by (auto simp: owned_def fun_eq_iff)

lemma owned_at [simp]: "owned m (2 # a) = m (2 # a)" "owned m (3 # a) = m (3 # a)" "owned m (7 # a) = m (7 # a)" "owned m (gckey at b a) = m (gckey at b a)"
  by (simp_all add: owned_def)

section \<open>The database after an operation\<close>

definition hp :: "kvmap \<Rightarrow> ('t, 'a) act \<Rightarrow> kvmap \<Rightarrow> ('a \<Rightarrow> kvmap \<Rightarrow> bool) \<Rightarrow> (kvmap \<Rightarrow> bool) \<Rightarrow> bool" where
  "hp m0 act m Q E \<longleftrightarrow>
     (\<forall>t r t'. owned (apply_batch (tx_batch t) m0) = m \<longrightarrow> act t = (r, t') \<longrightarrow>
        (case r of Inl e \<Rightarrow> E (owned (apply_batch (tx_batch t') m0)) | Inr x \<Rightarrow> Q x (owned (apply_batch (tx_batch t') m0))))"

named_theorems hp_rules \<open>databases after the operations\<close>

lemma hpI: "(\<And>t r t'. owned (apply_batch (tx_batch t) m0) = m \<Longrightarrow> act t = (r, t') \<Longrightarrow>
    (case r of Inl e \<Rightarrow> E (owned (apply_batch (tx_batch t') m0)) | Inr x \<Rightarrow> Q x (owned (apply_batch (tx_batch t') m0)))) \<Longrightarrow> hp m0 act m Q E"
  by (simp add: hp_def)

lemma hp_thn [hp_rules]:
  assumes "hp m0 act m (\<lambda>x m'. hp m0 (f x) m' Q E) E"
  shows "hp m0 (thn act f) m Q E"
proof (rule hpI)
  fix t r t' assume t: "owned (apply_batch (tx_batch t) m0) = m" and r: "thn act f t = (r, t')"
  obtain r1 t1 where a: "act t = (r1, t1)" by fastforce
  note h = assms [unfolded hp_def, rule_format, OF t a]
  show "case r of Inl e \<Rightarrow> E (owned (apply_batch (tx_batch t') m0)) | Inr x \<Rightarrow> Q x (owned (apply_batch (tx_batch t') m0))"
  proof (cases r1)
    case (Inl e)
    then show ?thesis using a h r by (auto simp: thn_def)
  next
    case (Inr x)
    then have "f x t1 = (r, t')" "hp m0 (f x) (owned (apply_batch (tx_batch t1) m0)) Q E" using a h r by (simp_all add: thn_def hp_def)
    then show ?thesis unfolding hp_def by blast
  qed
qed

lemma hp_ret [hp_rules]: "Q x m \<Longrightarrow> hp m0 (ret x) m Q E"
  by (simp add: hp_def ret_def)

lemma hp_lft [hp_rules]: "(\<And>x. r = Inr x \<Longrightarrow> Q x m) \<Longrightarrow> (\<And>e. r = Inl e \<Longrightarrow> E m) \<Longrightarrow> hp m0 (lft r) m Q E"
  by (auto simp: hp_def lft_def split: sum.splits)

lemma hp_now [hp_rules]: "(\<And>n. Q n m) \<Longrightarrow> hp m0 (now db) m Q E"
  by (auto simp: hp_def now_def)

lemma hp_incBinID [hp_rules]: "(\<And>n. Q n m) \<Longrightarrow> E m \<Longrightarrow> hp m0 (incBinID L db s b) m Q E"
  by (auto simp: hp_def incBinID_def split: sum.splits option.splits)

lemma hp_cases [hp_rules]:
  "(c \<Longrightarrow> hp m0 f m Q E) \<Longrightarrow> (\<not> c \<Longrightarrow> hp m0 g m Q E) \<Longrightarrow> hp m0 (if c then f else g) m Q E"
  "(x = None \<Longrightarrow> hp m0 f m Q E) \<Longrightarrow> (\<And>a. x = Some a \<Longrightarrow> hp m0 (h a) m Q E) \<Longrightarrow> hp m0 (case x of None \<Rightarrow> f | Some a \<Rightarrow> h a) m Q E"
  "(\<And>a. y = Inl a \<Longrightarrow> hp m0 (k a) m Q E) \<Longrightarrow> (\<And>a. y = Inr a \<Longrightarrow> hp m0 (l a) m Q E) \<Longrightarrow> hp m0 (case y of Inl a \<Rightarrow> k a | Inr a \<Rightarrow> l a) m Q E"
  "(\<And>a b. z = (a, b) \<Longrightarrow> hp m0 (n a b) m Q E) \<Longrightarrow> hp m0 (case z of (a, b) \<Rightarrow> n a b) m Q E"
  by (cases x; cases y; cases z; simp)+

lemma hp_mono: "hp m0 f m Q E \<Longrightarrow> (\<And>x m'. Q x m' \<Longrightarrow> Q' x m') \<Longrightarrow> (\<And>m'. E m' \<Longrightarrow> E' m') \<Longrightarrow> hp m0 f m Q' E'"
  unfolding hp_def by (fastforce split: sum.splits)

lemma hp_put:
  assumes "ItemKey f i = Inr k" and "\<And>v. ix_EncodeValue f i = Inr v \<Longrightarrow> Q () (if owner k = None then m else m(k \<mapsto> v))" and "E m"
  shows "hp m0 (putB f i) m Q E"
  using assms by (auto simp: hp_def putB_def ix_PutInBatch_def split: sum.splits if_splits)

lemma hp_del: "ItemKey f i = Inr k \<Longrightarrow> Q () (if owner k = None then m else m(k := None)) \<Longrightarrow> hp m0 (delB f i) m Q E"
  by (auto simp: hp_def delB_def ix_DeleteInBatch_def split: sum.splits if_splits)

lemma hp_tags [hp_rules]: "Q () m \<Longrightarrow> E m \<Longrightarrow> hp m0 (\<lambda>t. case (q, inc) of
                 (Some i, Some inc) \<Rightarrow>
                   if it_Tag i = 0 then (Inr (), t)
                   else (case inc (it_Tag i) (tx_tags t) of
                           (TagIncErr e, tg) \<Rightarrow> (Inl e, t\<lparr>tx_tags := tg\<rparr>)
                         | (_, tg) \<Rightarrow> (Inr (), t\<lparr>tx_tags := tg\<rparr>))
               | _ \<Rightarrow> (Inr (), t)) m Q E"
  by (auto simp: hp_def split: option.splits prod.splits tag_result.splits)

section \<open>Consistency\<close>

definition bin_of :: "bytes \<Rightarrow> u64" where
  "bin_of v = word_of_nat (be_val (take 8 v))"

text \<open>The value of the data index.\<close>

definition data_value :: "Item \<Rightarrow> bytes" where
  "data_value i = be_bytes 8 (unat (it_BinID i)) @ be_bytes 8 (unat (it_StoreTimestamp i)) @
     sp_MarshalBinary (NewStamp (it_BatchID i) (it_Index i) (it_Timestamp i) (it_Sig i)) @ slice_of (it_Data i)"

lemma bin_of_data_value [simp]: "bin_of (data_value i) = it_BinID i"
  by (simp add: bin_of_def data_value_def)

definition no_gc :: "kvmap \<Rightarrow> bytes \<Rightarrow> bool" where
  "no_gc m a \<longleftrightarrow> (\<forall>at b. m (gckey at b a) = None)"

definition addr_ok :: "kvmap \<Rightarrow> bytes \<Rightarrow> bool" where
  "addr_ok m a \<longleftrightarrow>
     (m (3 # a) \<noteq> None \<longrightarrow> m (2 # a) \<noteq> None) \<and>
     (\<forall>at b. m (gckey at b a) \<noteq> None \<longrightarrow>
        m (7 # a) = None \<and> m (3 # a) = Some (be_bytes 8 (unat at)) \<and> (\<exists>v. m (2 # a) = Some v \<and> bin_of v = b))"

definition agree :: "bytes \<Rightarrow> kvmap \<Rightarrow> kvmap \<Rightarrow> bool" where
  "agree a m m' \<longleftrightarrow> m (2 # a) = m' (2 # a) \<and> m (3 # a) = m' (3 # a) \<and> m (7 # a) = m' (7 # a) \<and> (\<forall>at b. m (gckey at b a) = m' (gckey at b a))"

lemma agree_refl [simp]: "agree a m m"
  by (simp add: agree_def)

lemma agree_trans: "agree a m m' \<Longrightarrow> agree a m' m'' \<Longrightarrow> agree a m m''"
  by (simp add: agree_def)

lemma agree_other [simp]:
  "x \<noteq> a \<Longrightarrow> agree x (m(2 # a := v)) m' \<longleftrightarrow> agree x m m'" "x \<noteq> a \<Longrightarrow> agree x (m(3 # a := v)) m' \<longleftrightarrow> agree x m m'"
  "x \<noteq> a \<Longrightarrow> agree x (m(7 # a := v)) m' \<longleftrightarrow> agree x m m'" "x \<noteq> a \<Longrightarrow> agree x (m(gckey at b a := v)) m' \<longleftrightarrow> agree x m m'"
  "x \<noteq> a \<Longrightarrow> agree x m' (m(2 # a := v)) \<longleftrightarrow> agree x m' m" "x \<noteq> a \<Longrightarrow> agree x m' (m(3 # a := v)) \<longleftrightarrow> agree x m' m"
  "x \<noteq> a \<Longrightarrow> agree x m' (m(7 # a := v)) \<longleftrightarrow> agree x m' m" "x \<noteq> a \<Longrightarrow> agree x m' (m(gckey at b a := v)) \<longleftrightarrow> agree x m' m"
  by (auto simp: agree_def)

lemma agree_addr_ok: "agree a m m' \<Longrightarrow> addr_ok m a = addr_ok m' a"
  by (simp add: addr_ok_def agree_def)

lemma addr_ok_no_gc: "no_gc m a \<Longrightarrow> m (3 # a) = None \<or> m (2 # a) \<noteq> None \<Longrightarrow> addr_ok m a"
  by (auto simp: addr_ok_def no_gc_def)

lemma addr_ok_gone:
  assumes "addr_ok m a"
  shows "m (3 # a) = None \<Longrightarrow> no_gc m a" "m (7 # a) \<noteq> None \<Longrightarrow> no_gc m a" "m (2 # a) = None \<Longrightarrow> no_gc m a" "m (2 # a) = None \<Longrightarrow> m (3 # a) = None"
  using assms by (auto simp: addr_ok_def no_gc_def)

lemma addr_ok_gc:
  assumes "addr_ok m a" and "m (gckey at b a) \<noteq> None"
  obtains v where "m (7 # a) = None" "m (3 # a) = Some (be_bytes 8 (unat at))" "m (2 # a) = Some v" "bin_of v = b"
  using assms unfolding addr_ok_def by blast

lemma addr_ok_add:
  assumes "addr_ok m a" and "m (7 # a) = None" and "m (3 # a) = Some (be_bytes 8 (unat at))" and "m (2 # a) = Some v" and "bin_of v = b"
  shows "addr_ok (m(gckey at b a \<mapsto> w)) a"
  using assms unfolding addr_ok_def by auto

text \<open>Entries of the collector at an address come from the database the operation started with.\<close>

definition gc_sub :: "kvmap \<Rightarrow> kvmap \<Rightarrow> bytes \<Rightarrow> bool" where
  "gc_sub m0 m a \<longleftrightarrow> (\<forall>at b. m (gckey at b a) \<noteq> None \<longrightarrow> m0 (gckey at b a) \<noteq> None)"

lemma gc_sub_simps: "agree a m m0 \<Longrightarrow> gc_sub m0 m a" "no_gc m a \<Longrightarrow> gc_sub m0 m a" "gc_sub m0 m a \<Longrightarrow> no_gc m0 a \<Longrightarrow> no_gc m a"
  by (auto simp: gc_sub_def agree_def no_gc_def)

lemma no_gc_upd [simp]:
  "no_gc (m(2 # a := v)) x = no_gc m x" "no_gc (m(3 # a := v)) x = no_gc m x" "no_gc (m(7 # a := v)) x = no_gc m x"
  by (simp_all add: no_gc_def)

lemma gc_sub_upd [simp]:
  "gc_sub m0 (m(2 # a := v)) x = gc_sub m0 m x" "gc_sub m0 (m(3 # a := v)) x = gc_sub m0 m x" "gc_sub m0 (m(7 # a := v)) x = gc_sub m0 m x"
  by (simp_all add: gc_sub_def)

text \<open>The only entry there can be is deleted.\<close>

lemma no_gc_delete:
  assumes "addr_ok m0 a" and "gc_sub m0 m a" and "m0 (3 # a) = Some (be_bytes 8 (unat at))" and "m0 (2 # a) = Some v" and "bin_of v = b"
  shows "no_gc (m(gckey at b a := None)) a"
  unfolding no_gc_def
proof (intro allI)
  fix at' b'
  show "(m(gckey at b a := None)) (gckey at' b' a) = None"
  proof (cases "m (gckey at' b' a) = None")
    case False
    then have "m0 (gckey at' b' a) \<noteq> None" using assms(2) by (auto simp: gc_sub_def)
    then have "at' = at \<and> b' = b" using assms(1,3-5) by (auto elim: addr_ok_gc)
    then show ?thesis by simp
  qed simp
qed

section \<open>Reads and writes of a database with the layout of New\<close>

context chunk_db
begin

lemma gckey_item: "ItemKey (gcIndex db) i = Inr (gckey (it_AccessTimestamp i) (it_BinID i) (slice_of (it_Address i)))"
  by (simp add: keys gckey_def)

lemma enc_values:
  "ix_EncodeValue (retrievalDataIndex db) i = Inr (data_value i)"
  "ix_EncodeValue (retrievalAccessIndex db) i = Inr (be_bytes 8 (unat (it_AccessTimestamp i)))"
  using lay by (simp_all add: ls_layout_def index_of_def funcs_defs data_value_def)

lemma hp_put_rules [hp_rules]:
  "Q () (m(2 # slice_of (it_Address i) \<mapsto> data_value i)) \<Longrightarrow> E m \<Longrightarrow> hp m0 (putB (retrievalDataIndex db) i) m Q E"
  "Q () (m(3 # slice_of (it_Address i) \<mapsto> be_bytes 8 (unat (it_AccessTimestamp i)))) \<Longrightarrow> E m \<Longrightarrow> hp m0 (putB (retrievalAccessIndex db) i) m Q E"
  "(\<And>v. Q () (m(gckey (it_AccessTimestamp i) (it_BinID i) (slice_of (it_Address i)) \<mapsto> v))) \<Longrightarrow> E m \<Longrightarrow> hp m0 (putB (gcIndex db) i) m Q E"
  "(\<And>v. Q () (m(7 # slice_of (it_Address i) \<mapsto> v))) \<Longrightarrow> E m \<Longrightarrow> hp m0 (putB (pinIndex db) i) m Q E"
  "Q () m \<Longrightarrow> E m \<Longrightarrow> hp m0 (putB (pullIndex db) i) m Q E" "Q () m \<Longrightarrow> E m \<Longrightarrow> hp m0 (putB (pushIndex db) i) m Q E"
  "Q () m \<Longrightarrow> E m \<Longrightarrow> hp m0 (putB (postageChunksIndex db) i) m Q E" "Q () m \<Longrightarrow> E m \<Longrightarrow> hp m0 (putB (postageRadiusIndex db) i) m Q E"
  "Q () m \<Longrightarrow> E m \<Longrightarrow> hp m0 (putB (postageIndexIndex db) i) m Q E"
proof -
  show "hp m0 (putB (retrievalDataIndex db) i) m Q E" if "Q () (m(2 # slice_of (it_Address i) \<mapsto> data_value i))" "E m"
    by (rule hp_put [OF keys(1)]) (use that in \<open>simp_all add: enc_values\<close>)
  show "hp m0 (putB (retrievalAccessIndex db) i) m Q E" if "Q () (m(3 # slice_of (it_Address i) \<mapsto> be_bytes 8 (unat (it_AccessTimestamp i))))" "E m"
    by (rule hp_put [OF keys(2)]) (use that in \<open>simp_all add: enc_values\<close>)
  show "hp m0 (putB (gcIndex db) i) m Q E" if "\<And>v. Q () (m(gckey (it_AccessTimestamp i) (it_BinID i) (slice_of (it_Address i)) \<mapsto> v))" "E m"
    by (rule hp_put [OF gckey_item]) (use that in simp_all)
  show "hp m0 (putB (pinIndex db) i) m Q E" if "\<And>v. Q () (m(7 # slice_of (it_Address i) \<mapsto> v))" "E m"
    by (rule hp_put [OF keys(6)]) (use that in simp_all)
qed (rule hp_put [OF keys(3)] hp_put [OF keys(4)] hp_put [OF keys(7)] hp_put [OF keys(8)] hp_put [OF keys(9)]; simp)+

lemma hp_del_rules [hp_rules]:
  "Q () (m(2 # slice_of (it_Address i) := None)) \<Longrightarrow> hp m0 (delB (retrievalDataIndex db) i) m Q E"
  "Q () (m(3 # slice_of (it_Address i) := None)) \<Longrightarrow> hp m0 (delB (retrievalAccessIndex db) i) m Q E"
  "Q () (m(gckey (it_AccessTimestamp i) (it_BinID i) (slice_of (it_Address i)) := None)) \<Longrightarrow> hp m0 (delB (gcIndex db) i) m Q E"
  "Q () (m(7 # slice_of (it_Address i) := None)) \<Longrightarrow> hp m0 (delB (pinIndex db) i) m Q E"
  "Q () m \<Longrightarrow> hp m0 (delB (pullIndex db) i) m Q E" "Q () m \<Longrightarrow> hp m0 (delB (pushIndex db) i) m Q E"
  "Q () m \<Longrightarrow> hp m0 (delB (postageChunksIndex db) i) m Q E" "Q () m \<Longrightarrow> hp m0 (delB (postageRadiusIndex db) i) m Q E"
  "Q () m \<Longrightarrow> hp m0 (delB (postageIndexIndex db) i) m Q E"
  by (rule hp_del [OF keys(1)] hp_del [OF keys(2)] hp_del [OF gckey_item] hp_del [OF keys(6)] hp_del [OF keys(3)] hp_del [OF keys(4)]
      hp_del [OF keys(7)] hp_del [OF keys(8)] hp_del [OF keys(9)]; simp)+

lemma hp_counters [hp_rules]:
  "Q () m \<Longrightarrow> E m \<Longrightarrow> hp m0 (incGCSizeInBatch L db s c) m Q E"
  "Q () m \<Longrightarrow> E m \<Longrightarrow> hp m0 (incReserveSizeInBatch L db s c) m Q E"
  "Q () m \<Longrightarrow> hp m0 (put_binIDs db) m Q E"
proof -
  have own: "owner (lc_gcSize db) = None" "owner (lc_reserveSize db) = None" "owner (indexKey (lc_binIDs db) p) = None" for p
    by (simp_all add: fields indexKey_def)
  show "Q () m \<Longrightarrow> E m \<Longrightarrow> hp m0 (incGCSizeInBatch L db s c) m Q E" "Q () m \<Longrightarrow> E m \<Longrightarrow> hp m0 (incReserveSizeInBatch L db s c) m Q E"
    using own by (auto simp: hp_def incGCSizeInBatch_def incReserveSizeInBatch_def ret_def thn_def lft_def u64_PutInBatch_def Let_def
      split: sum.splits option.splits if_splits)
  have "owned (apply_batch (fold (\<lambda>(p, i) b. vec_PutInBatch (lc_binIDs db) (ucast p) i b) xs bs) m0) = owned (apply_batch bs m0)" for xs :: "(u8 \<times> u64) list" and bs
    using own(3) by (induction xs arbitrary: bs) (auto simp: vec_PutInBatch_def u64_PutInBatch_def)
  then show "Q () m \<Longrightarrow> hp m0 (put_binIDs db) m Q E" by (auto simp: hp_def put_binIDs_def)
qed

lemma get_none: "unlessNotFound (ix_Get L f i s) = Inr None \<Longrightarrow> ItemKey f i = Inr k \<Longrightarrow> typed_map (look s) \<Longrightarrow>
    f = retrievalDataIndex db \<or> f = retrievalAccessIndex db \<or> f = pushIndex db \<or> f = gcIndex db \<or> f = pinIndex db \<or>
      f = postageRadiusIndex db \<or> f = postageIndexIndex db \<Longrightarrow> look s k = None"
proof -
  assume u: "unlessNotFound (ix_Get L f i s) = Inr None" and k: "ItemKey f i = Inr k" and t: "typed_map (look s)"
    and f: "f = retrievalDataIndex db \<or> f = retrievalAccessIndex db \<or> f = pushIndex db \<or> f = gcIndex db \<or> f = pinIndex db \<or>
      f = postageRadiusIndex db \<or> f = postageIndexIndex db"
  show "look s k = None"
  proof (cases "look s k")
    case (Some v)
    then have "typed_entry k v" using t by (auto simp: typed_map_def)
    then obtain j where "ix_DecodeValue f i v = Inr j" using decode_total [OF _ k f] by (cases "ix_DecodeValue f i v") auto
    then show ?thesis using u Some ix_Get_look [OF k, of s] by (simp add: unlessNotFound_def)
  qed
qed

lemma merge_sel:
  "it_AccessTimestamp (it_Merge i j) = (if it_AccessTimestamp i = 0 then it_AccessTimestamp j else it_AccessTimestamp i)"
  "it_BinID (it_Merge i j) = (if it_BinID i = 0 then it_BinID j else it_BinID i)"
  "it_Address (it_Merge i j) = (case it_Address i of None \<Rightarrow> it_Address j | Some x \<Rightarrow> Some x)"
  by (simp_all add: it_Merge_def split: option.splits)

lemma get_access:
  assumes ty: "typed_map (look s)" and "ix_Get L (retrievalAccessIndex db) i s = Inr j"
  obtains t where "look s (3 # slice_of (it_Address i)) = Some (be_bytes 8 (unat t))"
    and "it_AccessTimestamp j = (if t = 0 then it_AccessTimestamp i else t)"
proof -
  obtain v where v: "look s (3 # slice_of (it_Address i)) = Some v"
    using assms(2) by (cases "look s (3 # slice_of (it_Address i))") (simp_all add: ix_Get_look [OF keys(2)])
  then obtain t where t: "go_Uint64 v = Inr t" "it_AccessTimestamp j = (if t = 0 then it_AccessTimestamp i else t)"
    using assms(2) lay by (cases "go_Uint64 v") (auto simp: ix_Get_look [OF keys(2)] ls_layout_def index_of_def retrievalAccess_funcs_def merge_sel zero_item_def)
  have "typed_entry (3 # slice_of (it_Address i)) v" using ty v unfolding typed_map_def by blast
  then have "length v = 8" by (simp add: typed_entry_def)
  then have "be_bytes 8 (unat t) = v" using t(1) by (auto simp: go_Uint64_def u64_encode split: if_splits)
  then show thesis using v t(2) by (intro that [of t]) simp_all
qed

lemma get_data:
  assumes "ix_Get L (retrievalDataIndex db) i s = Inr j"
  obtains v where "look s (2 # slice_of (it_Address i)) = Some v" and "it_BinID j = (if bin_of v = 0 then it_BinID i else bin_of v)"
    and "it_Address j = it_Address i" and "it_AccessTimestamp j = it_AccessTimestamp i"
proof -
  obtain v where v: "look s (2 # slice_of (it_Address i)) = Some v"
    using assms by (cases "look s (2 # slice_of (it_Address i))") (simp_all add: ix_Get_look [OF keys(1)])
  then show thesis
    using assms lay that [OF v]
    by (auto simp: ix_Get_look [OF keys(1)] ls_layout_def index_of_def retrievalData_funcs_def merge_sel zero_item_def bin_of_def
        split: if_split_asm sum.split_asm)
qed

lemma some_get: "unlessNotFound r = Inr (Some i) \<Longrightarrow> r = Inr i"
  by (auto simp: unlessNotFound_def split: sum.splits if_splits)

lemma get_some: "ix_Get L f i s = Inr j \<Longrightarrow> ItemKey f i = Inr k \<Longrightarrow> look s k \<noteq> None"
  by (cases "look s k") (simp_all add: ix_Get_look)

lemma none_at:
  assumes "typed_map (look s)"
  shows "unlessNotFound (ix_Get L (retrievalDataIndex db) i s) = Inr None \<Longrightarrow> look s (2 # slice_of (it_Address i)) = None"
    "unlessNotFound (ix_Get L (retrievalAccessIndex db) i s) = Inr None \<Longrightarrow> look s (3 # slice_of (it_Address i)) = None"
    "unlessNotFound (ix_Get L (pinIndex db) i s) = Inr None \<Longrightarrow> look s (7 # slice_of (it_Address i)) = None"
    "unlessNotFound (ix_Get L (gcIndex db) i s) = Inr None \<Longrightarrow> look s (gckey (it_AccessTimestamp i) (it_BinID i) (slice_of (it_Address i))) = None"
  by (erule get_none [OF _ keys(1) assms] get_none [OF _ keys(2) assms] get_none [OF _ keys(6) assms] get_none [OF _ gckey_item assms]; simp)+

lemma some_at:
  "ix_Get L (retrievalDataIndex db) i s = Inr j \<Longrightarrow> look s (2 # slice_of (it_Address i)) \<noteq> None"
  "ix_Get L (retrievalAccessIndex db) i s = Inr j \<Longrightarrow> look s (3 # slice_of (it_Address i)) \<noteq> None"
  "ix_Get L (pinIndex db) i s = Inr j \<Longrightarrow> look s (7 # slice_of (it_Address i)) \<noteq> None"
  "ix_Get L (gcIndex db) i s = Inr j \<Longrightarrow> look s (gckey (it_AccessTimestamp i) (it_BinID i) (slice_of (it_Address i))) \<noteq> None"
  by (rule get_some [OF _ keys(1)] get_some [OF _ keys(2)] get_some [OF _ keys(6)] get_some [OF _ gckey_item]; assumption)+

end

end
