(* ===== verification/LocalstoreOps.thy ===== *)
theory LocalstoreOps
  imports LocalstoreView
begin

text \<open>
  What every operation of the chunk database does to the addresses it names and to the others: the rules \<open>..._hp\<close> for the parts of
  \<open>put\<close>, \<open>set\<close> and \<open>updateGC\<close>, each proved once from the rules of the steps on a batch.
\<close>

lemma thn_assoc: "thn (thn m f) g = thn m (\<lambda>x. thn (f x) g)"
  by (auto simp: thn_def fun_eq_iff split: prod.splits sum.splits)

lemma thn_ret: "thn (ret x) f = f x"
  by (simp add: thn_def ret_def fun_eq_iff)

section \<open>What the operations do to an address\<close>

abbreviation (input) others :: "bytes \<Rightarrow> kvmap \<Rightarrow> kvmap \<Rightarrow> bool" where
  "others a m m' \<equiv> \<forall>x. x \<noteq> a \<longrightarrow> agree x m' m"

context chunk_db
begin

lemma setPin_hp:
  assumes t: "typed_map (look s)" and ok: "addr_ok (look s) a" and sub: "gc_sub (look s) m a" and a: "a = slice_of (it_Address item)"
    and h1: "\<And>t. look s (3 # a) = Some (be_bytes 8 (unat t)) \<Longrightarrow> it_AccessTimestamp item = 0 \<or> it_AccessTimestamp item = t"
    and h2: "\<And>v. look s (2 # a) = Some v \<Longrightarrow> it_BinID item = 0 \<or> it_BinID item = bin_of v"
    and Q: "\<And>c m'. no_gc m' a \<Longrightarrow> others a m m' \<Longrightarrow> m' (2 # a) = m (2 # a) \<Longrightarrow> m' (3 # a) = m (3 # a) \<Longrightarrow> Q c m'"
    and E: "\<And>m'. E m'"
  shows "hp (look s) (setPin L db s item) m Q E"
  unfolding setPin_def Let_def
proof (intro hp_rules E, goal_cases)
  case (1 p q v)
  have "look s (3 # a) = None" using none_at(2) [OF t, of "item\<lparr>it_PinCounter := 0\<rparr>"] 1 a by simp
  then have "no_gc m a" using addr_ok_gone(1) [OF ok] gc_sub_simps(3) [OF sub] by blast
  then show ?case using a by (intro Q) auto
next
  case (2 p q i j v)
  obtain t where at: "look s (3 # a) = Some (be_bytes 8 (unat t))" "it_AccessTimestamp i = (if t = 0 then it_AccessTimestamp item else t)"
    by (rule get_access [OF t some_get, of "item\<lparr>it_PinCounter := 0\<rparr>"]) (use 2 a in auto)
  obtain w where w: "look s (2 # a) = Some w" "it_BinID j = (if bin_of w = 0 then it_BinID item else bin_of w)"
    by (rule get_data [OF 2(5)]) (use a in auto)
  have "it_AccessTimestamp i = t" "it_BinID j = bin_of w" using at w h1 h2 by auto
  then have "no_gc (m(gckey (it_AccessTimestamp i) (it_BinID j) a := None)) a" using no_gc_delete [OF ok sub at(1) w(1)] by simp
  then show ?case using a by (intro Q) auto
next
  case (3 p i v)
  then have "look s (7 # a) \<noteq> None" using some_at(3) [OF some_get] a by blast
  then have "no_gc m a" using addr_ok_gone(2) [OF ok] gc_sub_simps(3) [OF sub] by blast
  then show ?case using a by (intro Q) auto
qed

lemma setRemove_hp:
  assumes t: "typed_map (look s)" and ok: "addr_ok (look s) a" and sub0: "look s (2 # a) \<noteq> None \<Longrightarrow> gc_sub (look s) m a" and a: "a = slice_of (it_Address item)"
    and z: "it_AccessTimestamp item = 0" "it_StoreTimestamp item = 0" "it_BinID item = 0"
    and Q: "\<And>c m'. no_gc m' a \<Longrightarrow> others a m m' \<Longrightarrow> m' (2 # a) = None \<Longrightarrow> m' (3 # a) = None \<Longrightarrow> m' (7 # a) = None \<or> m' (7 # a) = m (7 # a) \<Longrightarrow>
      look s (2 # a) \<noteq> None \<Longrightarrow> Q c m'"
    and E: "\<And>m'. E m'"
  shows "hp (look s) (setRemove L db s item True) m Q E"
proof -
  let ?i = "\<lambda>x. case x of Some i \<Rightarrow> item\<lparr>it_AccessTimestamp := it_AccessTimestamp i\<rparr> | None \<Rightarrow> item"
  have i: "it_StoreTimestamp (?i x) = 0" "it_BinID (?i x) = 0" "it_Address (?i x) = it_Address item" for x using z by (cases x; simp)+
  have gone: "\<exists>v. look s (2 # a) = Some v \<and> it_BinID xa = bin_of v \<and> it_Address xa = it_Address item \<and>
      (look s (3 # a) = None \<or> look s (3 # a) = Some (be_bytes 8 (unat (it_AccessTimestamp xa))))"
    if x: "unlessNotFound (ix_Get L (retrievalAccessIndex db) item s) = Inr x" and xa: "ix_Get L (retrievalDataIndex db) (?i x) s = Inr xa" for x xa
  proof -
    obtain v where v: "look s (2 # slice_of (it_Address (?i x))) = Some v" "it_BinID xa = (if bin_of v = 0 then it_BinID (?i x) else bin_of v)"
      "it_Address xa = it_Address (?i x)" "it_AccessTimestamp xa = it_AccessTimestamp (?i x)" by (rule get_data [OF xa])
    have "look s (3 # a) = None \<or> look s (3 # a) = Some (be_bytes 8 (unat (it_AccessTimestamp xa)))"
    proof (cases x)
      case None
      then show ?thesis using none_at(2) [OF t, of item] x a by simp
    next
      case (Some j)
      then have j: "ix_Get L (retrievalAccessIndex db) item s = Inr j" using some_get x by simp
      obtain u where "look s (3 # slice_of (it_Address item)) = Some (be_bytes 8 (unat u))" "it_AccessTimestamp j = (if u = 0 then it_AccessTimestamp item else u)"
        by (rule get_access [OF t j])
      then show ?thesis using Some z v(4) t a by simp
    qed
    moreover have "look s (2 # a) = Some v" using v(1) a unfolding i by simp
    moreover have "it_BinID xa = bin_of v" using v(2) unfolding i by simp
    moreover have "it_Address xa = it_Address item" using v(3) unfolding i .
    ultimately show ?thesis by blast
  qed
  show ?thesis
    unfolding setRemove_def if_P [OF z(1)] thn_assoc thn_ret if_P [OF i(1)] if_P [OF TrueI]
  proof (intro hp_rules E, goal_cases)
    case (1 x xa xb)
    obtain v where v: "look s (2 # a) = Some v" "it_BinID xa = bin_of v" "it_Address xa = it_Address item"
      "look s (3 # a) = None \<or> look s (3 # a) = Some (be_bytes 8 (unat (it_AccessTimestamp xa)))" using gone [OF 1(1,2)] by blast
    have "look s (gckey (it_AccessTimestamp xa) (bin_of v) a) = None" using none_at(4) [OF t, of xa] 1(3,4) v a by simp
    then have "no_gc (look s) a" using v(1,4) ok unfolding no_gc_def by (auto elim: addr_ok_gc)
    then have "no_gc m a" using v(1) by (intro gc_sub_simps(3) [OF sub0]) simp_all
    then show ?case using v a by (intro Q) auto
  next
    case (2 x xa xb)
    obtain v where v: "look s (2 # a) = Some v" "it_BinID xa = bin_of v" "it_Address xa = it_Address item"
      "look s (3 # a) = None \<or> look s (3 # a) = Some (be_bytes 8 (unat (it_AccessTimestamp xa)))" using gone [OF 2(1,2)] by blast
    have sub: "gc_sub (look s) (m(2 # a := None, 3 # a := None)) a" using sub0 v(1) by simp
    have "no_gc (m(2 # a := None, 3 # a := None, gckey (it_AccessTimestamp xa) (it_BinID xa) a := None)) a"
    proof (cases "look s (3 # a)")
      case None
      then have "no_gc (m(2 # a := None, 3 # a := None)) a" using addr_ok_gone(1) [OF ok] gc_sub_simps(3) [OF sub] by blast
      then show ?thesis by (simp add: no_gc_def)
    qed (use v no_gc_delete [OF ok sub _ v(1)] in auto)
    then show ?case using v a by (intro Q) auto
  qed
qed

text \<open>Where the batch has not changed the address yet, \<open>setUnpin\<close> leaves it consistent also when it fails half way.\<close>

lemma setUnpin_hp:
  assumes t: "typed_map (look s)" and ok: "addr_ok (look s) a" and m: "agree a m (look s)"
    and Q: "\<And>c m'. look s (7 # a) \<noteq> None \<Longrightarrow> addr_ok m' a \<Longrightarrow> others a m m' \<Longrightarrow> Q c m'"
    and E: "E m" "\<And>m'. look s (7 # a) \<noteq> None \<Longrightarrow> addr_ok m' a \<Longrightarrow> others a m m' \<Longrightarrow> E m'"
  shows "hp (look s) (setUnpin L db s a) m Q E"
proof -
  have i [simp]: "slice_of (it_Address (address_item a)) = a" "it_BinID (address_item a) = 0" "it_AccessTimestamp (address_item a) = 0"
    by (simp_all add: address_item_def zero_item_def)
  have am: "addr_ok m a" using ok agree_addr_ok [OF m] by simp
  have pin: "look s (7 # a) \<noteq> None" "no_gc m a" if "ix_Get L (pinIndex db) (address_item a) s = Inr x" for x
  proof -
    show p: "look s (7 # a) \<noteq> None" using some_at(3) [OF that] by simp
    then show "no_gc m a" using m by (intro addr_ok_gone(2) [OF am]) (simp add: agree_def)
  qed
  have ok7: "addr_ok (m(7 # a := v)) a" if "no_gc m a" for v using that am by (intro addr_ok_no_gc) (auto simp: addr_ok_def)
  have dat: "\<exists>w. m (2 # a) = Some w \<and> bin_of w = it_BinID y" if g: "ix_Get L (retrievalDataIndex db) (address_item a\<lparr>it_PinCounter := it_PinCounter x\<rparr>) s = Inr y" for x y
  proof -
    obtain w where "look s (2 # slice_of (it_Address (address_item a\<lparr>it_PinCounter := it_PinCounter x\<rparr>))) = Some w"
      "it_BinID y = (if bin_of w = 0 then it_BinID (address_item a\<lparr>it_PinCounter := it_PinCounter x\<rparr>) else bin_of w)" by (rule get_data [OF g])
    then show ?thesis using m by (auto simp: agree_def)
  qed
  have q7: "Q c (m(7 # a := v))" "E (m(7 # a := v))" if "ix_Get L (pinIndex db) (address_item a) s = Inr x" for x c v
    using pin [OF that] ok7 by (auto intro!: Q E(2))
  show ?thesis
    unfolding setUnpin_def Let_def
  proof (intro hp_rules E(1), goal_cases)
    case (2 x xa xb xc n v)
    obtain w where w: "m (2 # a) = Some w" "bin_of w = it_BinID xa" using dat [OF 2(3)] by blast
    have "addr_ok (m(7 # a := None, 3 # a \<mapsto> be_bytes 8 (unat n), gckey n (it_BinID xa) a \<mapsto> v)) a"
      using w pin(2) [OF 2(1)] by (intro addr_ok_add [OF addr_ok_no_gc, where v = w]) simp_all
    then show ?case using pin(1) [OF 2(1)] by (intro Q) auto
  next
    case (3 x xa xb xc n)
    obtain w where w: "m (2 # a) = Some w" using dat [OF 3(3)] by blast
    have "addr_ok (m(7 # a := None, 3 # a \<mapsto> be_bytes 8 (unat n))) a" using w pin(2) [OF 3(1)] by (intro addr_ok_no_gc) simp_all
    then show ?case using pin(1) [OF 3(1)] by (intro E(2)) auto
  next
    case (5 x xa xb xc i v)
    obtain w where w: "m (2 # a) = Some w" "bin_of w = it_BinID xa" using dat [OF 5(3)] by blast
    obtain u where u: "look s (3 # a) = Some (be_bytes 8 (unat u))" "it_AccessTimestamp i = u"
      by (rule get_access [OF t some_get [OF 5(6) [unfolded 5(7)]]]) (auto split: if_splits)
    have "addr_ok (m(7 # a := None, gckey u (it_BinID xa) a \<mapsto> v)) a"
      using w u m pin(2) [OF 5(1)] ok7 by (intro addr_ok_add [where v = w]) (simp_all add: agree_def)
    then show ?case using pin(1) [OF 5(1)] u by (intro Q) auto
  qed (simp_all add: q7)
qed

lemma preserveOrCache_hp:
  assumes t: "typed_map (look s)" and ok: "addr_ok (look s) a" "addr_ok m a" and sub: "gc_sub (look s) m a" and a: "a = slice_of (it_Address item)"
    and h1: "\<And>t. look s (3 # a) = Some (be_bytes 8 (unat t)) \<Longrightarrow> it_AccessTimestamp item = t"
    and h2: "\<And>w. look s (2 # a) = Some w \<Longrightarrow> it_BinID item = bin_of w"
    and m: "m (3 # a) = Some (be_bytes 8 (unat (it_AccessTimestamp item)))" "m (2 # a) = Some v" "bin_of v = it_BinID item" "m (7 # a) = look s (7 # a)"
    and Q: "\<And>c m'. addr_ok m' a \<Longrightarrow> others a m m' \<Longrightarrow> m' (2 # a) = m (2 # a) \<Longrightarrow> Q c m'"
    and E: "\<And>m'. E m'"
  shows "hp (look s) (preserveOrCache L db s item p c) m Q E"
  unfolding preserveOrCache_def
proof (intro hp_rules setPin_hp [OF t ok(1) sub a] E, goal_cases)
  case (3 c' m')
  then show ?case using m by (intro Q addr_ok_no_gc) simp_all
next
  case (6 c' m')
  then show ?case using m by (intro Q addr_ok_no_gc) simp_all
next
  case 7
  then show ?case using ok by (intro Q) simp_all
next
  case 8
  then show ?case using ok by (intro Q) simp_all
next
  case (9 x xa v)
  have "look s (7 # a) = None" using 9(2,3) a by (simp add: ix_Has_look [OF keys(6)])
  then have "addr_ok (m(gckey (it_AccessTimestamp item) (it_BinID item) a \<mapsto> v)) a" using m by (intro addr_ok_add [OF ok(2)]) auto
  then show ?case using a by (intro Q) auto
qed (use h1 h2 in blast)+

lemma setSync_hp:
  assumes t: "typed_map (look s)" and ok: "addr_ok (look s) a" and m: "agree a m (look s)"
    and Q: "\<And>c m'. addr_ok m' a \<Longrightarrow> others a m m' \<Longrightarrow> Q c m'"
    and E: "\<And>m'. E m'"
  shows "hp (look s) (setSync L db s a) m Q E"
proof -
  have i [simp]: "slice_of (it_Address (address_item a)) = a" "it_BinID (address_item a) = 0" "it_AccessTimestamp (address_item a) = 0"
    by (simp_all add: address_item_def zero_item_def)
  have am: "addr_ok m a" using ok agree_addr_ok [OF m] by simp
  have dat: "\<exists>w. look s (2 # a) = Some w \<and> bin_of w = it_BinID y" if g: "ix_Get L (retrievalDataIndex db) (address_item a) s = Inr y" for y
  proof -
    obtain w where "look s (2 # slice_of (it_Address (address_item a))) = Some w"
      "it_BinID y = (if bin_of w = 0 then it_BinID (address_item a) else bin_of w)" by (rule get_data [OF g])
    then show ?thesis by auto
  qed
  show ?thesis unfolding setSync_def Let_def
  proof (intro hp_rules E, goal_cases)
    case 1
    then show ?case using am by (intro Q) simp_all
  next
    case (2 x i xa xb n)
    have n3: "look s (3 # a) = None" using none_at(2) [OF t 2(4) [unfolded 2(5)]] by simp
    obtain w where w: "look s (2 # a) = Some w" "bin_of w = it_BinID i" using dat [OF some_get [OF 2(1) [unfolded 2(2)]]] by blast
    have m': "m (2 # a) = Some w" "m (3 # a) = None" "m (7 # a) = look s (7 # a)" using w n3 m by (simp_all add: agree_def)
    then have "addr_ok (m(3 # a \<mapsto> be_bytes 8 (unat n))) a" using addr_ok_gone(1) [OF am] by (intro addr_ok_no_gc) simp_all
    then show ?case using w n3 m' gc_sub_simps(1) [OF m] by (intro preserveOrCache_hp [OF t ok, where v = w] Q E) simp_all
  next
    case (3 x i xa xb i1)
    obtain w where w: "look s (2 # a) = Some w" "bin_of w = it_BinID i" using dat [OF some_get [OF 3(1) [unfolded 3(2)]]] by blast
    obtain u where u: "look s (3 # a) = Some (be_bytes 8 (unat u))" "it_AccessTimestamp i1 = u"
      by (rule get_access [OF t some_get [OF 3(4) [unfolded 3(5)]]]) (auto split: if_splits)
    have m': "m (2 # a) = Some w" "m (3 # a) = Some (be_bytes 8 (unat u))" "m (7 # a) = look s (7 # a)" using w u m by (simp_all add: agree_def)
    then show ?case using w u am gc_sub_simps(1) [OF m] by (intro preserveOrCache_hp [OF t ok, where v = w] Q E) simp_all
  qed
qed

lemma updateGC_hp:
  assumes t: "typed_map (look s)" and ok: "addr_ok (look s) a" and m: "agree a m (look s)" and a: "a = slice_of (it_Address item)"
    and at: "look s (3 # a) = Some (be_bytes 8 (unat (it_AccessTimestamp item)))" and b: "\<And>v. look s (2 # a) = Some v \<Longrightarrow> it_BinID item = bin_of v"
    and Q: "\<And>c m'. addr_ok m' a \<Longrightarrow> others a m m' \<Longrightarrow> Q c m'"
    and E: "\<And>m'. E m'"
  shows "hp (look s) (updateGC_act L db s item) m Q E"
proof -
  obtain v where v: "look s (2 # a) = Some v" using ok at by (auto simp: addr_ok_def)
  have no: "no_gc (m(gckey (it_AccessTimestamp item) (it_BinID item) a := None)) a"
    using no_gc_delete [OF ok gc_sub_simps(1) [OF m] at v] b [OF v] by simp
  have m': "m (2 # a) = Some v" "m (7 # a) = look s (7 # a)" using v m by (simp_all add: agree_def)
  show ?thesis unfolding updateGC_act_def Let_def
  proof (intro hp_rules E, goal_cases)
    case (1 n g w)
    then obtain i where "ix_Get L (gcIndex db) item s = Inr i" using some_get [of "ix_Get L (gcIndex db) item s"] by (cases g) simp_all
    then have "look s (gckey (it_AccessTimestamp item) (it_BinID item) a) \<noteq> None" using some_at(4) a by blast
    then have "look s (7 # a) = None" using ok by (auto elim: addr_ok_gc)
    then have "addr_ok (m(gckey (it_AccessTimestamp item) (it_BinID item) a := None, gckey n (it_BinID item) a \<mapsto> w, 3 # a \<mapsto> be_bytes 8 (unat n))) a"
      using no m' b [OF v] by (auto simp: addr_ok_def no_gc_def)
    then show ?case using a by (intro Q) auto
  next
    case (2 n g)
    have "addr_ok (m(gckey (it_AccessTimestamp item) (it_BinID item) a := None, 3 # a \<mapsto> be_bytes 8 (unat n))) a"
      using no m' by (intro addr_ok_no_gc) simp_all
    then show ?case using a by (intro Q) auto
  qed
qed

end

section \<open>Putting\<close>

text \<open>An address that is not pinned and not named by an operation stays as it is, or is removed.\<close>

definition frame :: "kvmap \<Rightarrow> kvmap \<Rightarrow> bytes \<Rightarrow> bool" where
  "frame m0 m x \<longleftrightarrow> (m0 (7 # x) = None \<longrightarrow> agree x m m0 \<or> m (7 # x) = None \<and> m (2 # x) = None \<and> m (3 # x) = None)"

text \<open>The database while a put works on a list of chunks, where the addresses in \<open>B\<close> are done.\<close>

definition put_inv :: "kvmap \<Rightarrow> bytes set \<Rightarrow> kvmap \<Rightarrow> bool" where
  "put_inv m0 B m \<longleftrightarrow> (\<forall>x. addr_ok m x \<and> (m0 (2 # x) = None \<and> x \<notin> B \<longrightarrow> agree x m m0) \<and> (m0 (2 # x) \<noteq> None \<longrightarrow> gc_sub m0 m x) \<and> (x \<notin> B \<longrightarrow> frame m0 m x))"

lemma put_invD:
  assumes "put_inv m0 B m"
  shows "addr_ok m x" "m0 (2 # x) = None \<Longrightarrow> x \<notin> B \<Longrightarrow> agree x m m0" "m0 (2 # x) \<noteq> None \<Longrightarrow> gc_sub m0 m x" "x \<notin> B \<Longrightarrow> frame m0 m x"
  using assms by (auto simp: put_inv_def)

lemma put_inv_insert: "put_inv m0 B m \<Longrightarrow> put_inv m0 (insert a B) m"
  by (simp add: put_inv_def)

lemma frame_agree: "agree x m' m \<Longrightarrow> frame m0 m' x = frame m0 m x" "agree x m' m \<Longrightarrow> gc_sub m0 m' x = gc_sub m0 m x"
  "agree x m' m \<Longrightarrow> agree x m' m0 = agree x m m0"
  by (auto simp: frame_def agree_def gc_sub_def)

lemma put_inv_change:
  assumes "put_inv m0 B m" and "\<forall>x. x \<noteq> a \<longrightarrow> agree x m' m" and "addr_ok m' a" and "m0 (2 # a) \<noteq> None \<longrightarrow> gc_sub m0 m' a"
  shows "put_inv m0 (insert a B) m'"
  unfolding put_inv_def
proof
  fix x
  show "addr_ok m' x \<and> (m0 (2 # x) = None \<and> x \<notin> insert a B \<longrightarrow> agree x m' m0) \<and> (m0 (2 # x) \<noteq> None \<longrightarrow> gc_sub m0 m' x) \<and> (x \<notin> insert a B \<longrightarrow> frame m0 m' x)"
  proof (cases "x = a")
    case False
    then have "agree x m' m" using assms(2) by simp
    then show ?thesis using assms(1) False by (simp add: put_inv_def frame_agree agree_addr_ok [of x m' m])
  qed (use assms in simp)
qed

lemma put_inv_remove:
  assumes "put_inv m0 B m" and "\<forall>x. x \<noteq> p \<longrightarrow> agree x m' m" and "no_gc m' p" and "m' (2 # p) = None" "m' (3 # p) = None"
    and "m' (7 # p) = None \<or> m' (7 # p) = m (7 # p)" and "m0 (2 # p) \<noteq> None"
  shows "put_inv m0 B m'"
  unfolding put_inv_def
proof
  fix x
  show "addr_ok m' x \<and> (m0 (2 # x) = None \<and> x \<notin> B \<longrightarrow> agree x m' m0) \<and> (m0 (2 # x) \<noteq> None \<longrightarrow> gc_sub m0 m' x) \<and> (x \<notin> B \<longrightarrow> frame m0 m' x)"
  proof (cases "x = p")
    case False
    then have "agree x m' m" using assms(2) by simp
    then show ?thesis using assms(1) by (simp add: put_inv_def frame_agree agree_addr_ok [of x m' m])
  next
    case True
    have "frame m0 m' p" if "p \<notin> B"
      using put_invD(4) [OF assms(1) that] assms(4-6) by (auto simp: frame_def agree_def)
    then show ?thesis using assms True by (auto intro: addr_ok_no_gc gc_sub_simps)
  qed
qed

text \<open>An item as \<open>chunkToItem\<close> makes it.\<close>

definition stamp_key :: "Item \<Rightarrow> bytes" where
  "stamp_key i = go_copy 32 40 (it_Index i) (go_copy 0 32 (it_BatchID i) (replicate 40 0))"

text \<open>The value stored for a new chunk: its data and stamp, with a bin id and the time it was stored.\<close>

definition stored_as :: "kvmap \<Rightarrow> Item \<Rightarrow> kvmap \<Rightarrow> bool" where
  "stored_as m0 item m \<longleftrightarrow> (m0 (2 # slice_of (it_Address item)) = None \<and> m0 (10 # stamp_key item) = None \<longrightarrow>
     (\<exists>n b. m (2 # slice_of (it_Address item)) = Some (data_value (item\<lparr>it_StoreTimestamp := n, it_BinID := b\<rparr>))))"

definition fresh_item :: "Item \<Rightarrow> bool" where
  "fresh_item i \<longleftrightarrow> it_AccessTimestamp i = 0 \<and> it_StoreTimestamp i = 0 \<and> it_BinID i = 0"

lemma chunkToItem_fresh: "chunkToItem ch = Inr item \<Longrightarrow> fresh_item item \<and> slice_of (it_Address item) = ch_addr ch"
  by (auto simp: chunkToItem_def fresh_item_def zero_item_def split: option.splits)

context chunk_db
begin

lemma get_previous:
  assumes "ix_Get L (postageIndexIndex db) item s = Inr previous" and "fresh_item item"
  shows "fresh_item previous"
proof -
  obtain v where v: "look s (10 # go_copy 32 40 (it_Index item) (go_copy 0 32 (it_BatchID item) (replicate 40 0))) = Some v"
    using assms(1) by (cases "look s (10 # go_copy 32 40 (it_Index item) (go_copy 0 32 (it_BatchID item) (replicate 40 0)))")
      (simp_all add: ix_Get_look [OF keys(9)])
  have st: "it_StoreTimestamp (it_Merge i j) = (if it_StoreTimestamp i = 0 then it_StoreTimestamp j else it_StoreTimestamp i)" for i j
    by (simp add: it_Merge_def)
  show ?thesis
    using assms v lay by (auto simp: ix_Get_look [OF keys(9)] ls_layout_def index_of_def postageIndex_funcs_def merge_sel st zero_item_def fresh_item_def
        split: if_split_asm)
qed

lemma replacePrevious_hp:
  assumes t: "typed_map (look s)" and ok: "\<And>x. addr_ok (look s) x" and inv: "put_inv (look s) B m" and i: "fresh_item item" and a: "a = slice_of (it_Address item)"
    and Q: "\<And>e. look s (2 # a) \<noteq> None \<Longrightarrow> Q (Inl e) m" "\<And>e. look s (2 # a) = None \<Longrightarrow> look s (10 # stamp_key item) \<noteq> None \<Longrightarrow> Q (Inl e) m"
      "\<And>r m'. look s (2 # a) = None \<Longrightarrow> put_inv (look s) B m' \<Longrightarrow> Q (Inr r) m'"
    and E: "\<And>m'. E m'"
  shows "hp (look s) (replacePrevious L db s item) m Q E"
  unfolding replacePrevious_def
proof (intro hp_rules E, goal_cases)
  case (1 x)
  then show ?case using a by (intro Q(1)) (simp add: ix_Has_look [OF keys(1)])
next
  case (2 x p)
  then show ?case using a inv by (intro Q) (simp_all add: ix_Has_look [OF keys(1)])
next
  case (4 x p previous l)
  have "look s (10 # stamp_key item) \<noteq> None" using get_some [OF some_get [OF 4(3) [unfolded 4(4)]] keys(9)] unfolding stamp_key_def .
  then show ?case using 4(1,2) a by (intro Q(2)) (simp_all add: ix_Has_look [OF keys(1)])
next
  case (5 x p previous l)
  have none: "look s (2 # a) = None" using 5(1,2) a by (simp add: ix_Has_look [OF keys(1)])
  have "fresh_item previous" using get_previous [OF some_get [OF 5(3) [unfolded 5(4)]] i] .
  then show ?case unfolding fresh_item_def
    by (intro setRemove_hp [OF t ok put_invD(3) [OF inv] refl] hp_rules E Q none put_inv_remove [OF inv]) simp_all
qed simp

lemma put_clean:
  assumes "put_inv (look s) B m" and "a \<notin> B" and "look s (2 # a) = None" and "\<And>x. addr_ok (look s) x"
  shows "m (7 # a) = look s (7 # a)" "no_gc m a" "look s (3 # a) = None"
proof -
  have m: "agree a m (look s)" by (rule put_invD(2) [OF assms(1,3,2)])
  then show "m (7 # a) = look s (7 # a)" by (simp add: agree_def)
  show "no_gc m a" using gc_sub_simps(3) [OF gc_sub_simps(1) [OF m]] addr_ok_gone(3) [OF assms(4,3)] .
  show "look s (3 # a) = None" using addr_ok_gone(4) [OF assms(4,3)] .
qed

lemma create_hp:
  assumes t: "typed_map (look s)" and ok: "\<And>x. addr_ok (look s) x" and inv: "put_inv (look s) B m" and "a \<notin> B" and none: "look s (2 # a) = None"
    and Q: "\<And>c m'. put_inv (look s) (insert a B) m' \<Longrightarrow> m' (2 # a) = Some v \<Longrightarrow> Q c m'" and E: "\<And>m'. E m'"
    and i: "slice_of (it_Address i1) = a" "a = slice_of (it_Address item)" and v: "bin_of v = it_BinID item"
  shows "hp (look s) (preserveOrCache L db s item p c)
     (m(2 # slice_of (it_Address i1) \<mapsto> v, 3 # slice_of (it_Address item) \<mapsto> be_bytes 8 (unat (it_AccessTimestamp item)))) Q E"
proof -
  note c = put_clean [OF inv \<open>a \<notin> B\<close> none ok]
  let ?m = "m(2 # a \<mapsto> v, 3 # a \<mapsto> be_bytes 8 (unat (it_AccessTimestamp item)))"
  have "addr_ok ?m a" using c(2) by (intro addr_ok_no_gc) simp_all
  then have "hp (look s) (preserveOrCache L db s item p c) ?m Q E" using c none v
    by (intro preserveOrCache_hp [OF t ok _ _ i(2), where v = v] Q E put_inv_change [OF inv]) (simp_all add: gc_sub_simps)
  then show ?thesis using i by simp
qed

lemma releaseReplaced_hp [hp_rules]: "Q () m \<Longrightarrow> (\<And>m'. E m') \<Longrightarrow> hp m0 (releaseReplaced L db s item) m Q E"
  unfolding releaseReplaced_def by (intro hp_rules)

lemma puts_hp:
  assumes t: "typed_map (look s)" and ok: "\<And>x. addr_ok (look s) x" and inv: "put_inv (look s) B m" and i: "fresh_item item"
    and a: "a = slice_of (it_Address item)" "a \<notin> B"
    and Q: "\<And>r m'. put_inv (look s) (insert a B) m' \<Longrightarrow> stored_as (look s) item m' \<Longrightarrow> Q r m'" and E: "\<And>m'. E m'"
  shows "hp (look s) (putRequest L db s item p c) m Q E" "hp (look s) (putSync L db s item) m Q E"
proof -
  have Q': "Q r m" if "look s (2 # a) \<noteq> None \<or> look s (10 # stamp_key item) \<noteq> None" for r
    using that a by (intro Q put_inv_insert inv) (auto simp: stored_as_def)
  have st: "stored_as (look s) item m'" if "m' (2 # a) = Some (data_value (item\<lparr>it_StoreTimestamp := n, it_BinID := b\<rparr>))" for m' n b
    using that a by (auto simp: stored_as_def)
  have same: "data_value (j\<lparr>it_AccessTimestamp := n\<rparr>) = data_value j" for j n by (simp add: data_value_def)
  show "hp (look s) (putRequest L db s item p c) m Q E" unfolding putRequest_def Let_def
  proof (rule hp_thn, rule replacePrevious_hp [OF t ok inv i a(1)], goal_cases)
    case (3 r m')
    show ?case unfolding sum.case
      by (intro hp_rules create_hp [OF t ok 3(2) a(2) 3(1)] E; (rule Q, assumption, erule st)?) (simp_all add: a)
  qed (simp_all only: sum.case, (rule hp_ret, rule Q', simp | rule E)+)
  show "hp (look s) (putSync L db s item) m Q E" unfolding putSync_def Let_def
  proof (rule hp_thn, rule replacePrevious_hp [OF t ok inv i a(1)], goal_cases)
    case (3 r m')
    show ?case unfolding sum.case
      by (intro hp_rules create_hp [OF t ok 3(2) a(2) 3(1)] E; (rule Q, assumption, erule st)?) (simp_all add: a)
  qed (simp_all only: sum.case, (rule hp_ret, rule Q', simp | rule E)+)
qed

lemma putUpload_hp:
  assumes t: "typed_map (look s)" and ok: "\<And>x. addr_ok (look s) x" and inv: "put_inv (look s) B m" and i: "fresh_item item"
    and a: "a = slice_of (it_Address item)" "a \<notin> B"
    and Q: "\<And>r m'. put_inv (look s) (insert a B) m' \<Longrightarrow> gc_sub (look s) m' a \<Longrightarrow> stored_as (look s) item m' \<Longrightarrow> Q r m'" and E: "\<And>m'. E m'"
  shows "hp (look s) (putUpload L db s item) m Q E"
  unfolding putUpload_def Let_def
proof (rule hp_thn, rule replacePrevious_hp [OF t ok inv i a(1)], goal_cases)
  case (1 e)
  then have "stored_as (look s) item m" using a by (auto simp: stored_as_def)
  then show ?case unfolding sum.case by (intro hp_ret Q put_inv_insert inv put_invD(3) [OF inv] 1)
next
  case (2 e)
  then have "stored_as (look s) item m" by (auto simp: stored_as_def)
  then show ?case unfolding sum.case by (intro hp_ret Q put_inv_insert inv gc_sub_simps(1) put_invD(2) [OF inv] 2 a)
next
  case (3 r m')
  note c = put_clean [OF 3(2) a(2) 3(1) ok]
  have "put_inv (look s) (insert a B) (m'(2 # a \<mapsto> v))" for v
    using c 3 by (intro put_inv_change [OF 3(2)] addr_ok_no_gc) simp_all
  moreover have "gc_sub (look s) (m'(2 # a \<mapsto> v)) a" for v using c by (simp add: gc_sub_simps)
  moreover have "stored_as (look s) item (m'(2 # a \<mapsto> data_value (item\<lparr>it_StoreTimestamp := n, it_BinID := b\<rparr>)))" for n b using a by (auto simp: stored_as_def)
  ultimately show ?case unfolding sum.case by (intro hp_rules E Q) (simp_all add: a)
qed (rule E)

lemma put_one_hp:
  assumes t: "typed_map (look s)" and ok: "\<And>x. addr_ok (look s) x" and inv: "put_inv (look s) (set (map ch_addr earlier)) m"
    and Q: "\<And>r m'. put_inv (look s) (set (map ch_addr (earlier @ [ch]))) m' \<Longrightarrow>
      (\<And>item. ch_addr ch \<notin> set (map ch_addr earlier) \<Longrightarrow> chunkToItem ch = Inr item \<Longrightarrow> stored_as (look s) item m') \<Longrightarrow> Q r m'"
    and E: "\<And>m'. E m'"
  shows "hp (look s) (put_one L db s mode earlier ch) m Q E"
proof -
  have contains: "containsChunk a earlier \<longleftrightarrow> a \<in> set (map ch_addr earlier)" for a by (induction earlier) (auto simp: addr_Equal_def)
  show ?thesis
  proof (cases "containsChunk (ch_addr ch) earlier")
    case True
    then show ?thesis unfolding put_one_def using put_inv_insert [OF inv, of "ch_addr ch"] contains by (simp, intro hp_ret Q) simp_all
  next
    case False
    have "hp (look s) (case mode of ModePutRequest \<Rightarrow> putRequest L db s item False False | ModePutRequestPin \<Rightarrow> putRequest L db s item True False
        | ModePutRequestCache \<Rightarrow> putRequest L db s item False True | ModePutUpload \<Rightarrow> putUpload L db s item
        | ModePutUploadPin \<Rightarrow> thn (putUpload L db s item) (\<lambda>(exists, c). thn (setPin L db s item) (\<lambda>c1. ret (exists, c + c1)))
        | ModePutSync \<Rightarrow> putSync L db s item) m Q E" if item: "chunkToItem ch = Inr item" for item
    proof -
      have Q': "Q r m'" if "put_inv (look s) (insert (ch_addr ch) (set (map ch_addr earlier))) m'" and "stored_as (look s) item m'" for r m'
        using that item by (intro Q) simp_all
      have i: "fresh_item item" "ch_addr ch = slice_of (it_Address item)" "ch_addr ch \<notin> set (map ch_addr earlier)"
        using chunkToItem_fresh [OF item] False contains by auto
      have pin: "hp (look s) (case r of (exists, c) \<Rightarrow> thn (setPin L db s item) (\<lambda>c1. ret (exists, c + c1))) m' Q E"
        if "put_inv (look s) (insert (ch_addr ch) (set (map ch_addr earlier))) m'" and "gc_sub (look s) m' (ch_addr ch)" and "stored_as (look s) item m'"
        for r :: "bool \<times> int" and m'
      proof (intro hp_rules setPin_hp [OF t ok that(2) i(2)] E Q', goal_cases)
        case (3 e c c1 m1)
        then have "addr_ok m1 (ch_addr ch)" using put_invD(1) [OF that(1), of "ch_addr ch"] by (intro addr_ok_no_gc) (auto simp: addr_ok_def)
        then have "put_inv (look s) (insert (ch_addr ch) (insert (ch_addr ch) (set (map ch_addr earlier)))) m1"
          using 3 by (intro put_inv_change [OF that(1)]) (simp_all add: gc_sub_simps)
        then show ?case by simp
      next
        case (4 e c c1 m1)
        then show ?case using that(3) i(2) by (simp add: stored_as_def)
      qed (use i(1) in \<open>simp_all add: fresh_item_def\<close>)
      show ?thesis
        by (cases mode; simp only: ModePut.case) (intro puts_hp [OF t ok inv i] putUpload_hp [OF t ok inv i] hp_thn Q' pin E; assumption)+
    qed
    then show ?thesis unfolding put_one_def using False by (simp, intro hp_rules E) (auto intro: E)
  qed
qed

lemma put_loop_hp:
  assumes t: "typed_map (look s)" and ok: "\<And>x. addr_ok (look s) x"
  shows "put_inv (look s) (set (map ch_addr earlier)) m \<Longrightarrow> (\<And>r m'. put_inv (look s) (set (map ch_addr (earlier @ chs))) m' \<Longrightarrow> Q r m') \<Longrightarrow> (\<And>m'. E m') \<Longrightarrow>
    hp (look s) (put_loop L db s mode earlier chs) m Q E"
proof (induction chs arbitrary: earlier m Q)
  case Nil
  then show ?case by (simp, intro hp_ret) simp
next
  case (Cons ch chs)
  show ?case unfolding put_loop.simps
    by (intro hp_rules put_one_hp [OF t ok Cons.prems(1)] Cons.prems(3) Cons.IH Cons.prems(2)) simp_all
qed

end

section \<open>Setting\<close>

definition set_inv :: "kvmap \<Rightarrow> bytes set \<Rightarrow> kvmap \<Rightarrow> bool" where
  "set_inv m0 B m \<longleftrightarrow> (\<forall>x. addr_ok m x \<and> (x \<notin> B \<longrightarrow> agree x m m0))"

lemma set_inv_change:
  assumes "set_inv m0 B m" and "\<forall>x. x \<noteq> a \<longrightarrow> agree x m' m" and "addr_ok m' a"
  shows "set_inv m0 (insert a B) m'"
  unfolding set_inv_def
proof
  fix x
  show "addr_ok m' x \<and> (x \<notin> insert a B \<longrightarrow> agree x m' m0)"
  proof (cases "x = a")
    case False
    then have "agree x m' m" using assms(2) by simp
    then show ?thesis using assms(1) False by (simp add: set_inv_def frame_agree agree_addr_ok [of x m' m])
  qed (use assms in simp)
qed

context chunk_db
begin

lemma set_one_hp:
  assumes t: "typed_map (look s)" and ok: "\<And>x. addr_ok (look s) x" and inv: "set_inv (look s) B m" and "a \<notin> B"
    and Q: "\<And>r m'. set_inv (look s) (insert a B) m' \<Longrightarrow> Q r m'" and E: "\<And>m'. E m'"
  shows "hp (look s) (set_one L db s mode a) m Q E"
proof -
  have m: "agree a m (look s)" "addr_ok m a" using inv \<open>a \<notin> B\<close> by (simp_all add: set_inv_def)
  have i: "a = slice_of (it_Address (address_item a))" "it_AccessTimestamp (address_item a) = 0" "it_StoreTimestamp (address_item a) = 0" "it_BinID (address_item a) = 0"
    by (simp_all add: address_item_def zero_item_def)
  have Q': "Q r m'" if "no_gc m' a" "\<forall>x. x \<noteq> a \<longrightarrow> agree x m' m" "m' (3 # a) = None \<or> m' (2 # a) \<noteq> None" for r m'
    using that by (intro Q set_inv_change [OF inv] addr_ok_no_gc)
  have 3: "m (3 # a) = None \<or> m (2 # a) \<noteq> None" using m(2) by (auto simp: addr_ok_def)
  show ?thesis
  proof (cases mode)
    case ModeSetSync
    show ?thesis unfolding set_one_def ModeSetSync ModeSet.case by (intro setSync_hp [OF t ok m(1)] E Q set_inv_change [OF inv])
  next
    case ModeSetRemove
    show ?thesis unfolding set_one_def ModeSetRemove ModeSet.case
      by (intro setRemove_hp [OF t ok gc_sub_simps(1) [OF m(1)] i] E Q') simp_all
  next
    case ModeSetPin
    show ?thesis unfolding set_one_def ModeSetPin ModeSet.case
      by (intro setPin_hp [OF t ok gc_sub_simps(1) [OF m(1)] i(1)] E Q') (use i 3 in simp_all)
  next
    case ModeSetUnpin
    show ?thesis unfolding set_one_def ModeSetUnpin ModeSet.case by (intro setUnpin_hp [OF t ok m(1)] E Q set_inv_change [OF inv])
  qed
qed

lemma set_loop_hp:
  assumes t: "typed_map (look s)" and ok: "\<And>x. addr_ok (look s) x"
  shows "set_inv (look s) B m \<Longrightarrow> distinct addrs \<Longrightarrow> B \<inter> set addrs = {} \<Longrightarrow> (\<And>r m'. set_inv (look s) (B \<union> set addrs) m' \<Longrightarrow> Q r m') \<Longrightarrow> (\<And>m'. E m') \<Longrightarrow>
    hp (look s) (set_loop L db s mode addrs) m Q E"
proof (induction addrs arbitrary: B m Q)
  case Nil
  then show ?case by (simp, intro hp_ret) simp
next
  case (Cons a addrs)
  have B: "insert a B \<union> set addrs = B \<union> set (a # addrs)" by auto
  show ?case unfolding set_loop.simps
  proof (intro hp_rules set_one_hp [OF t ok Cons.prems(1)] Cons.prems(5), goal_cases)
    case (2 r m')
    show ?case using Cons.prems(2-4) B by (intro Cons.IH [OF 2] hp_rules Cons.prems(4,5)) auto
  qed (use Cons.prems in auto)
qed

end

end
