(* ===== verification/LocalstoreGC.thy ===== *)
theory LocalstoreGC
  imports LocalstoreOps
begin

text \<open>
  What the garbage collector relies on: an entry of its index belongs to a chunk that is stored and not pinned, and the entry carries
  the bin id and the access time of the chunk. Every operation keeps this, and the collector never deletes a pinned chunk, also when
  chunks are pinned while it runs.
\<close>

section \<open>Steps\<close>

lemma owned_ok [simp]: "addr_ok (owned m) x = addr_ok m x" "agree x (owned m) m' = agree x m m'" "agree x m' (owned m) = agree x m' m"
  "frame m0 (owned m) x = frame m0 m x" "gc_sub m0 (owned m) x = gc_sub m0 m x"
  by (simp_all add: addr_ok_def agree_def frame_def gc_sub_def)

definition good :: "kvmap \<Rightarrow> bool" where
  "good m \<longleftrightarrow> typed_map m \<and> (\<forall>x. addr_ok m x)"

context chunk_db
begin

lemma hp_run:
  assumes "hp (look (ls_shed st)) act (owned (look (ls_shed st))) Q E" and "run_act L st act = (r, st')"
  shows "ls_shed st' = ls_shed st \<or> (\<exists>x. Q x (owned (look (ls_shed st'))))" "ls_gcRunning st' = ls_gcRunning st" "ls_dirty st' = ls_dirty st"
proof -
  let ?t = "\<lparr>tx_batch = [], tx_binIDs = [], tx_tags = ls_tags st, tx_ticks = ls_ticks st, tx_gcTrigger = ls_gcTrigger st,
              tx_evictTrigger = ls_evictTrigger st\<rparr>"
  obtain r1 t1 where a: "act ?t = (r1, t1)" by fastforce
  have "case r1 of Inl e \<Rightarrow> E (owned (apply_batch (tx_batch t1) (look (ls_shed st)))) | Inr x \<Rightarrow> Q x (owned (apply_batch (tx_batch t1) (look (ls_shed st))))"
    using assms(1) [unfolded hp_def, rule_format, OF _ a] by simp
  moreover obtain s1 where "ld_Write L (tx_batch t1) (ls_shed st) = Inr s1" "look s1 = apply_batch (tx_batch t1) (look (ls_shed st))" using ld_write by blast
  ultimately show "ls_shed st' = ls_shed st \<or> (\<exists>x. Q x (owned (look (ls_shed st'))))" "ls_gcRunning st' = ls_gcRunning st" "ls_dirty st' = ls_dirty st"
    using assms(2) a by (cases r1; auto simp: run_act_def Let_def)+
qed

end

text \<open>An operation on the addresses in \<open>B\<close> keeps the database good; while the collector runs the addresses are noted, and elsewhere nothing
  is pinned or changed, but a chunk may be removed.\<close>

definition step_ok :: "('s \<Rightarrow> kvmap) \<Rightarrow> bytes set \<Rightarrow> ('s, 't) LS \<Rightarrow> ('s, 't) LS \<Rightarrow> bool" where
  "step_ok look B st st' \<longleftrightarrow>
     good (look (ls_shed st')) \<and> (\<forall>x. x \<notin> B \<longrightarrow> frame (look (ls_shed st)) (look (ls_shed st')) x) \<and> ls_gcRunning st' = ls_gcRunning st \<and>
     set (ls_dirty st) \<subseteq> set (ls_dirty st') \<and> (ls_gcRunning st \<longrightarrow> B \<subseteq> set (ls_dirty st') \<or> ls_shed st' = ls_shed st)"

lemma step_ok_refl: "good (look (ls_shed st)) \<Longrightarrow> step_ok look B st st"
  by (simp add: step_ok_def frame_def)

context chunk_db
begin

lemma run_step:
  assumes t: "typed_map (look (ls_shed st'))" and g: "good (look (ls_shed st))"
    and h: "hp (look (ls_shed st)) act (owned (look (ls_shed st))) (\<lambda>_ m'. \<forall>x. addr_ok m' x \<and> (x \<notin> set B \<longrightarrow> frame (look (ls_shed st)) m' x)) (\<lambda>_. True)"
    and r: "run_act L (mark_dirty B st) act = (r, st')"
  shows "step_ok look (set B) st st'"
proof -
  have m: "ls_shed (mark_dirty B st) = ls_shed st" "ls_gcRunning (mark_dirty B st) = ls_gcRunning st"
    "ls_dirty (mark_dirty B st) = ls_dirty st @ (if ls_gcRunning st then B else [])" by (simp_all add: mark_dirty_def)
  note run = hp_run [of "mark_dirty B st", unfolded m, OF h r]
  have "(\<forall>x. addr_ok (look (ls_shed st')) x) \<and> (\<forall>x. x \<notin> set B \<longrightarrow> frame (look (ls_shed st)) (look (ls_shed st')) x)"
    using run(1) g by (auto simp: good_def frame_def)
  then show ?thesis using t run(2,3) by (auto simp: step_ok_def good_def)
qed

lemma put_step:
  assumes g: "good (look (ls_shed st))" and p: "ls_put L db mode chs st = (r, st')"
  shows "step_ok look (set (map ch_addr chs)) st st'"
proof -
  have t: "typed_map (look (ls_shed st))" and ok: "\<And>x. addr_ok (look (ls_shed st)) x" using g by (simp_all add: good_def)
  let ?a = "thn (put_loop L db (ls_shed st) mode [] chs) (\<lambda>(exist, gcSizeChange).
           thn (put_binIDs db) (\<lambda>_. thn (incGCSizeInBatch L db (ls_shed st) gcSizeChange) (\<lambda>_. ret exist)))"
  have i: "put_inv (look (ls_shed st)) (set (map ch_addr [])) (owned (look (ls_shed st)))" using ok by (simp add: put_inv_def gc_sub_simps frame_def)
  have h: "hp (look (ls_shed st)) ?a (owned (look (ls_shed st)))
      (\<lambda>_ m'. \<forall>x. addr_ok m' x \<and> (x \<notin> set (map ch_addr chs) \<longrightarrow> frame (look (ls_shed st)) m' x)) (\<lambda>_. True)"
    by (intro hp_rules put_loop_hp [OF t ok i] TrueI) (simp add: put_inv_def)
  have t': "typed_map (look (ls_shed st'))" using typed_put [OF t, of mode chs] p by simp
  have "st' = st \<or> run_act L (mark_dirty (map ch_addr chs) st) ?a = (r, st')"
    using p by (auto simp: ls_put_def Let_def split: if_splits sum.splits)
  then show ?thesis using run_step [OF t' g h] step_ok_refl [where look = look, OF g] by blast
qed

lemma set_step:
  assumes g: "good (look (ls_shed st))" and p: "ls_set L db mode addrs st = (r, st')" and d: "distinct addrs"
  shows "step_ok look (set addrs) st st'"
proof -
  have t: "typed_map (look (ls_shed st))" and ok: "\<And>x. addr_ok (look (ls_shed st)) x" using g by (simp_all add: good_def)
  let ?a = "thn (set_loop L db (ls_shed st) mode addrs) (\<lambda>gcSizeChange. incGCSizeInBatch L db (ls_shed st) gcSizeChange)"
  have i: "set_inv (look (ls_shed st)) {} (owned (look (ls_shed st)))" using ok by (simp add: set_inv_def)
  have "hp (look (ls_shed st)) ?a (owned (look (ls_shed st)))
      (\<lambda>_ m'. \<forall>x. addr_ok m' x \<and> (x \<notin> set addrs \<longrightarrow> frame (look (ls_shed st)) m' x)) (\<lambda>_. True)"
    by (intro hp_rules set_loop_hp [OF t ok i d] TrueI) (simp_all add: set_inv_def frame_def)
  moreover have "typed_map (look (ls_shed st'))" using typed_set [OF t, of mode addrs] p by simp
  moreover have "run_act L (mark_dirty addrs st) ?a = (r, st')" using p by (simp add: ls_set_def Let_def)
  ultimately show ?thesis using run_step [OF _ g] by blast
qed

text \<open>A noted access is one of the chunk that is stored now.\<close>

lemma access_step:
  assumes g: "good (look (ls_shed st))" and p: "updateGC L db item st = (r, st')" and a: "a = slice_of (it_Address item)"
    and now: "it_AccessTimestamp item = 0" "\<And>v. look (ls_shed st) (2 # a) = Some v \<Longrightarrow> it_BinID item = bin_of v"
  shows "step_ok look {a} st st'"
proof -
  have t: "typed_map (look (ls_shed st))" and ok: "\<And>x. addr_ok (look (ls_shed st)) x" using g by (simp_all add: good_def)
  have t': "typed_map (look (ls_shed st'))" using typed_updateGC [OF t, of item] p by simp
  have s: "step_ok look {a} st (mark_dirty [a] st)" using g by (auto simp: step_ok_def mark_dirty_def frame_def)
  have na: "NewAddress (slice_of (it_Address item)) = a" using a by (simp add: NewAddress_def)
  show ?thesis
  proof (cases "ix_Get L (retrievalAccessIndex db) item (ls_shed st)")
    case (Inl e)
    then show ?thesis using p s now(1) by (auto simp: updateGC_def Let_def na unlessNotFound_def split: if_splits)
  next
    case (Inr i)
    let ?i = "item\<lparr>it_AccessTimestamp := it_AccessTimestamp i\<rparr>"
    obtain u where u: "look (ls_shed st) (3 # a) = Some (be_bytes 8 (unat u))" "it_AccessTimestamp i = u"
      by (rule get_access [OF t Inr]) (auto simp: now(1) a split: if_splits)
    have "hp (look (ls_shed st)) (updateGC_act L db (ls_shed st) ?i) (owned (look (ls_shed st)))
      (\<lambda>_ m'. \<forall>x. addr_ok m' x \<and> (x \<notin> set [a] \<longrightarrow> frame (look (ls_shed st)) m' x)) (\<lambda>_. True)"
    proof (rule updateGC_hp [OF t ok, of a], goal_cases)
      case (5 c m')
      have "addr_ok m' x \<and> (x \<notin> set [a] \<longrightarrow> frame (look (ls_shed st)) m' x)" for x
        using 5 ok [of x] agree_addr_ok [of x m' "look (ls_shed st)"] by (cases "x = a") (auto simp: frame_def)
      then show ?case by blast
    qed (use u a now in simp_all)
    moreover have "run_act L (mark_dirty [a] st) (updateGC_act L db (ls_shed st) ?i) = (r, st') \<or> st' = mark_dirty [a] st"
      using p Inr by (auto simp: updateGC_def Let_def na unlessNotFound_def split: if_splits)
    ultimately show ?thesis using run_step [OF t' g, of _ "[a]"] s by auto
  qed
qed

end

section \<open>Iteration\<close>

lemma ix_walk_items:
  assumes "\<And>kv i c. kv \<in> set es \<Longrightarrow> itemFromIterator f p kv = Inr i \<Longrightarrow> Q c \<Longrightarrow> Q (snd (fn i c))" and "Q c"
  shows "Q (snd (ix_walk f fn p err es c))"
  using assms
proof (induction es arbitrary: c)
  case (Cons kv es)
  show ?case
  proof (cases "itemFromIterator f p kv")
    case (Inl e)
    then show ?thesis using Cons.prems(2) by simp
  next
    case (Inr i)
    obtain r c1 where f: "fn i c = (r, c1)" by fastforce
    then have "Q c1" using Cons.prems(1) [OF _ Inr Cons.prems(2)] by simp
    moreover from this have "Q (snd (ix_walk f fn p err es c1))" using Cons.prems(1) by (intro Cons.IH) (simp_all, metis)
    ultimately show ?thesis using Inr f by (cases r) simp_all
  qed
qed simp

lemma iterate_forward: "iterate_from es err k p h False = Inr kvs \<Longrightarrow> \<exists>n. kvs = drop n es"
  by (auto simp: iterate_from_def Let_def split: if_splits)

context chunk_db
begin

lemma iterate_default:
  assumes "\<And>es. sorted_wrt (<) (map fst es) \<Longrightarrow> (\<forall>kv \<in> set es. look s (fst kv) = Some (snd kv)) \<Longrightarrow> Q (snd (ix_walk f fn (ix_prefix f @ p) None es c))"
    and "Q c"
  shows "Q (snd (ix_Iterate L f fn (default_options\<lparr>io_Prefix := p\<rparr>) s c))"
proof -
  obtain es where es: "ld_Entries L s = (es, None)" "sorted_wrt (<) (map fst es)" "map_of es = look s" using ld_entries by blast
  have d: "distinct (map fst es)" using es(2) strict_sorted_iff by blast
  have "sorted_wrt (<) (map fst (drop n es))" for n using es(2) by (metis append_take_drop_id drop_map sorted_wrt_append)
  moreover have "look s (fst kv) = Some (snd kv)" if "kv \<in> set (drop n es)" for kv n
    using that d es(3) in_set_dropD [OF that] by (metis map_of_eq_Some_iff prod.collapse)
  ultimately have "Q (snd (ix_walk f fn (ix_prefix f @ p) None (drop n es) c))" for n using assms(1) by blast
  then show ?thesis using es(1) assms(2) by (auto simp: ix_Iterate_def default_options_def Let_def split: sum.splits dest!: iterate_forward)
qed

end

section \<open>Candidates of the collector\<close>

definition in_gc :: "kvmap \<Rightarrow> Item \<Rightarrow> bool" where
  "in_gc m i \<longleftrightarrow> m (gckey (it_AccessTimestamp i) (it_BinID i) (slice_of (it_Address i))) \<noteq> None"

context chunk_db
begin

lemma split_16: "take 8 r @ take 8 (drop 8 r) @ drop 16 r = (r :: bytes)"
proof -
  have "drop 16 r = drop 8 (drop 8 r)" by simp
  then show ?thesis by (simp only: append_take_drop_id)
qed

lemma gc_item:
  assumes "itemFromIterator (gcIndex db) (ix_prefix (gcIndex db) @ []) kv = Inr i" and "look s (fst kv) = Some (snd kv)"
  shows "in_gc (look s) i"
proof -
  have p: "ix_prefix (gcIndex db) = [6]" using lay by (simp add: ls_layout_def index_of_def)
  then obtain r where r: "fst kv = 6 # r" using assms(1) by (cases "fst kv") (auto simp: itemFromIterator_def split: if_splits)
  have d: "ix_DecodeKey (gcIndex db) = if_DecodeKey gc_funcs" "ix_DecodeValue (gcIndex db) = if_DecodeValue gc_funcs" using lay by (simp_all add: ls_layout_def index_of_def)
  have "16 \<le> length r \<and> it_AccessTimestamp i = word_of_nat (be_val (take 8 r)) \<and> it_BinID i = word_of_nat (be_val (take 8 (drop 8 r))) \<and> it_Address i = Some (drop 16 r)"
    using assms(1) r unfolding itemFromIterator_def d p gc_funcs_def
    by (auto simp: merge_sel zero_item_def split: if_split_asm sum.split_asm)
  moreover from this have "length (take 8 r) = 8" "length (take 8 (drop 8 r)) = 8" by auto
  moreover note split_16 [of r]
  ultimately have "fst kv = gckey (it_AccessTimestamp i) (it_BinID i) (slice_of (it_Address i))" using r unfolding gckey_def by (metis slice_of_simps(2) u64_encode)
  then show ?thesis using assms(2) by (simp add: in_gc_def)
qed

lemma candidates_in_gc:
  assumes "gc_candidates L db s = Inr c"
  shows "\<forall>i \<in> set (fst c). in_gc (look s) i"
proof -
  have "\<forall>i \<in> set (fst (snd (ix_Iterate L (gcIndex db) (gc_pick n k) (default_options\<lparr>io_Prefix := []\<rparr>) s ([], 0)))). in_gc (look s) i" for n k
  proof (rule iterate_default [where Q = "\<lambda>c. \<forall>i \<in> set (fst c). in_gc (look s) i"])
    fix es assume es: "\<forall>kv \<in> set es. look s (fst kv) = Some (snd kv)"
    show "\<forall>i \<in> set (fst (snd (ix_walk (gcIndex db) (gc_pick n k) (ix_prefix (gcIndex db) @ []) None es ([], 0)))). in_gc (look s) i"
    proof (rule ix_walk_items [where Q = "\<lambda>c. \<forall>i \<in> set (fst c). in_gc (look s) i"])
      fix kv i and c :: "Item list \<times> u64" assume kv: "kv \<in> set es" "itemFromIterator (gcIndex db) (ix_prefix (gcIndex db) @ []) kv = Inr i" and c: "\<forall>i \<in> set (fst c). in_gc (look s) i"
      have "in_gc (look s) i" using gc_item [OF kv(2)] es kv(1) by blast
      then show "\<forall>i \<in> set (fst (snd (gc_pick n k i c))). in_gc (look s) i" using c by (auto simp: gc_pick_def split: prod.splits)
    qed simp
  qed simp
  moreover have "default_options\<lparr>io_Prefix := []\<rparr> = default_options" by (simp add: default_options_def)
  ultimately show ?thesis using assms by (auto simp: gc_candidates_def split: sum.splits if_splits prod.splits option.splits) (metis fst_conv snd_conv)
qed

section \<open>Collecting\<close>

end

text \<open>What the deletions rely on: a candidate that has not changed is not pinned, and its entry is there unless the chunk was removed.\<close>

definition cand_ok :: "kvmap \<Rightarrow> Item \<Rightarrow> bool" where
  "cand_ok m i \<longleftrightarrow> m (7 # slice_of (it_Address i)) = None \<and> (in_gc m i \<or> m (2 # slice_of (it_Address i)) = None)"

definition gc_inv :: "kvmap \<Rightarrow> kvmap \<Rightarrow> bool" where
  "gc_inv m0 m \<longleftrightarrow> (\<forall>x. addr_ok m x \<and> gc_sub m0 m x \<and> (m0 (7 # x) \<noteq> None \<longrightarrow> agree x m m0))"

lemma gc_inv_delete:
  assumes inv: "gc_inv m0 m" and ok: "\<And>x. addr_ok m0 x" and c: "cand_ok m0 i" and a: "a = slice_of (it_Address i)"
  shows "gc_inv m0 (m(2 # a := None, 3 # a := None, gckey (it_AccessTimestamp i) (it_BinID i) a := None))"
proof -
  let ?m = "m(2 # a := None, 3 # a := None, gckey (it_AccessTimestamp i) (it_BinID i) a := None)"
  have sub: "gc_sub m0 (m(2 # a := None, 3 # a := None)) a" using inv by (simp add: gc_inv_def)
  have "no_gc ?m a"
  proof (cases "m0 (2 # a)")
    case None
    then have "no_gc (m(2 # a := None, 3 # a := None)) a" using addr_ok_gone(3) [OF ok] gc_sub_simps(3) [OF sub] by blast
    then show ?thesis by (simp add: no_gc_def)
  next
    case (Some v)
    then have "m0 (gckey (it_AccessTimestamp i) (it_BinID i) a) \<noteq> None" using c a by (simp add: cand_ok_def in_gc_def)
    then obtain w where "m0 (3 # a) = Some (be_bytes 8 (unat (it_AccessTimestamp i)))" "m0 (2 # a) = Some w" "bin_of w = it_BinID i"
      by (rule addr_ok_gc [OF ok])
    then show ?thesis by (rule no_gc_delete [OF ok sub])
  qed
  then have "addr_ok ?m a" "gc_sub m0 ?m a" by (auto intro: addr_ok_no_gc gc_sub_simps)
  moreover have "m0 (7 # a) = None" using c a by (simp add: cand_ok_def)
  moreover have "agree x ?m m" if "x \<noteq> a" for x using that by simp
  ultimately show ?thesis unfolding gc_inv_def
  proof (intro allI, goal_cases)
    case (1 x)
    then show ?case using inv [unfolded gc_inv_def, rule_format, of x] agree_addr_ok [of x ?m m] frame_agree [of x ?m m] by (cases "x = a") auto
  qed
qed

context chunk_db
begin

lemma gc_delete_hp:
  assumes ok: "\<And>x. addr_ok (look s) x"
  shows "gc_inv (look s) m \<Longrightarrow> \<forall>i \<in> set items. slice_of (it_Address i) \<in> set dirty \<or> cand_ok (look s) i \<Longrightarrow>
    (\<And>r m'. gc_inv (look s) m' \<Longrightarrow> Q r m') \<Longrightarrow> (\<And>m'. E m') \<Longrightarrow> hp (look s) (gc_delete db dirty items n) m Q E"
proof (induction items arbitrary: m n)
  case Nil
  then show ?case by (simp, intro hp_ret) simp
next
  case (Cons i items)
  have mem: "MemberOf x dirty \<longleftrightarrow> x \<in> set dirty" for x by (induction dirty) (auto simp: addr_Equal_def)
  show ?case
  proof (cases "slice_of (it_Address i) \<in> set dirty")
    case True
    then show ?thesis using Cons by (simp add: mem NewAddress_def)
  next
    case False
    then have c: "cand_ok (look s) i" using Cons.prems(2) by simp
    then show ?thesis unfolding gc_delete.simps mem NewAddress_def using False gc_inv_delete [OF Cons.prems(1) ok c refl] Cons.prems(2)
      by (simp only: if_False) (intro hp_rules Cons.IH Cons.prems(3,4); (assumption | simp))
  qed
qed

lemma collect_step:
  assumes g: "good (look (ls_shed st))" and p: "gc_collect L db c st = (r, st')"
    and c: "\<forall>i \<in> set (fst c). slice_of (it_Address i) \<in> set (ls_dirty st) \<or> cand_ok (look (ls_shed st)) i"
  shows "good (look (ls_shed st'))" "look (ls_shed st) (7 # x) \<noteq> None \<Longrightarrow> agree x (look (ls_shed st')) (look (ls_shed st))"
proof -
  have t: "typed_map (look (ls_shed st))" and ok: "\<And>x. addr_ok (look (ls_shed st)) x" using g by (simp_all add: good_def)
  have t': "typed_map (look (ls_shed st'))" using typed_collect [OF t, of c] p by simp
  have i: "gc_inv (look (ls_shed st)) (owned (look (ls_shed st)))" using ok by (simp add: gc_inv_def gc_sub_simps)
  have own: "owner (lc_gcSize db) = None" by (simp add: fields)
  have f: "hp m0 (\<lambda>t. (Inr (h n), t\<lparr>tx_batch := u64_PutInBatch (lc_gcSize db) (k n) (tx_batch t)\<rparr>)) m Q E" if "Q (h n) m" for m0 m Q E n and h :: "u64 \<Rightarrow> u64 \<times> bool" and k
    using that own by (auto simp: hp_def u64_PutInBatch_def)
  have "gc_inv (look (ls_shed st)) (look (ls_shed st'))"
  proof (cases "u64_Get L (lc_gcSize db) (ls_shed st)")
    case (Inl e)
    then show ?thesis using p ok by (auto simp: gc_collect_def gc_inv_def gc_sub_simps)
  next
    case (Inr sz)
    let ?a = "thn (gc_delete db (ls_dirty st) (fst c) (snd c)) (\<lambda>n t. (Inr (n, \<not> lc_gcTarget db < sz - n), t\<lparr>tx_batch := u64_PutInBatch (lc_gcSize db) (sz - n) (tx_batch t)\<rparr>))"
    have h: "hp (look (ls_shed st)) ?a (owned (look (ls_shed st))) (\<lambda>_ m'. gc_inv (look (ls_shed st)) m') (\<lambda>_. True)"
      by (intro hp_thn gc_delete_hp [OF ok i c] TrueI f)
    have "run_act L st ?a = (r, st')" using p Inr by (simp add: gc_collect_def)
    from hp_run(1) [OF h this] show ?thesis using ok by (auto simp: gc_inv_def gc_sub_simps)
  qed
  then show "good (look (ls_shed st'))" "look (ls_shed st) (7 # x) \<noteq> None \<Longrightarrow> agree x (look (ls_shed st')) (look (ls_shed st))"
    using t' by (simp_all add: good_def gc_inv_def)
qed

end

section \<open>Eviction\<close>

definition un_inv :: "kvmap \<Rightarrow> bytes set \<Rightarrow> kvmap \<Rightarrow> bool" where
  "un_inv m0 B m \<longleftrightarrow> (\<forall>x. addr_ok m x \<and> (x \<notin> B \<or> m0 (7 # x) = None \<longrightarrow> agree x m m0))"

lemma un_inv_insert: "un_inv m0 B m \<Longrightarrow> un_inv m0 (insert a B) m"
  by (simp add: un_inv_def)

lemma un_inv_change:
  assumes "un_inv m0 B m" and "\<forall>x. x \<noteq> a \<longrightarrow> agree x m' m" and "addr_ok m' a" and "m0 (7 # a) \<noteq> None"
  shows "un_inv m0 (insert a B) m'"
  unfolding un_inv_def
proof
  fix x
  show "addr_ok m' x \<and> (x \<notin> insert a B \<or> m0 (7 # x) = None \<longrightarrow> agree x m' m0)"
  proof (cases "x = a")
    case False
    then have "agree x m' m" using assms(2) by simp
    then show ?thesis using assms(1) False by (simp add: un_inv_def frame_agree agree_addr_ok [of x m' m])
  qed (use assms in auto)
qed

text \<open>Another state of the database after steps that only unpin.\<close>

definition calm :: "('s \<Rightarrow> kvmap) \<Rightarrow> ('s, 't) LS \<Rightarrow> ('s, 't) LS \<Rightarrow> bool" where
  "calm look st st' \<longleftrightarrow> ls_gcRunning st' = ls_gcRunning st \<and> ls_dirty st' = ls_dirty st \<and>
     (good (look (ls_shed st)) \<longrightarrow> good (look (ls_shed st')) \<and>
        (\<forall>x. look (ls_shed st) (7 # x) = None \<longrightarrow> agree x (look (ls_shed st')) (look (ls_shed st))))"

lemma calm_refl [simp]: "calm look st st"
  by (simp add: calm_def)

lemma calm_trans:
  assumes "calm look st st1" and "calm look st1 st2"
  shows "calm look st st2"
proof -
  have "agree x (look (ls_shed st2)) (look (ls_shed st))" if g: "good (look (ls_shed st))" and x: "look (ls_shed st) (7 # x) = None" for x
  proof -
    have a: "agree x (look (ls_shed st1)) (look (ls_shed st))" and g1: "good (look (ls_shed st1))" using assms(1) g x by (simp_all add: calm_def)
    then have "look (ls_shed st1) (7 # x) = None" using x by (simp add: agree_def)
    then have "agree x (look (ls_shed st2)) (look (ls_shed st1))" using assms(2) g1 by (simp add: calm_def)
    then show ?thesis using a by (rule agree_trans)
  qed
  then show ?thesis using assms by (simp add: calm_def)
qed

lemma calm_step: "calm look st st' \<Longrightarrow> good (look (ls_shed st)) \<Longrightarrow> step_ok look {} st st'"
  by (auto simp: calm_def step_ok_def frame_def)

context chunk_db
begin

lemma calm_run:
  assumes k: "keeps (on_batch typed_batch) act"
    and h: "good (look (ls_shed st)) \<Longrightarrow> hp (look (ls_shed st)) act (owned (look (ls_shed st))) (\<lambda>_ m'. \<exists>B. un_inv (look (ls_shed st)) B m') (\<lambda>_. True)"
  shows "calm look st (snd (run_act L st act))"
proof -
  obtain r st' where r: "run_act L st act = (r, st')" by fastforce
  have d: "hp (look (ls_shed st)) act (owned (look (ls_shed st))) (\<lambda>_ _. True) (\<lambda>_. True)" by (simp add: hp_def split: sum.splits)
  have "good (look (ls_shed st')) \<and> (\<forall>x. look (ls_shed st) (7 # x) = None \<longrightarrow> agree x (look (ls_shed st')) (look (ls_shed st)))" if g: "good (look (ls_shed st))"
  proof -
    have "typed_map (look (ls_shed st'))" using typed_run [OF _ k r] g by (simp add: good_def)
    then show ?thesis using hp_run(1) [OF h [OF g] r] g by (auto simp: good_def un_inv_def)
  qed
  then show ?thesis using hp_run(2,3) [OF d r] r by (simp add: calm_def)
qed

lemma calm_small:
  "calm look st (snd (run_act L st (putB (postageRadiusIndex db) j)))" "calm look st (snd (run_act L st (incReserveSizeInBatch L db s c)))"
proof -
  have "\<exists>B. un_inv m0 B (owned m0)" if "good m0" for m0 using that by (auto simp: good_def un_inv_def)
  then show "calm look st (snd (run_act L st (putB (postageRadiusIndex db) j)))" "calm look st (snd (run_act L st (incReserveSizeInBatch L db s c)))"
    by (intro calm_run keeps_rules lay hp_rules TrueI; simp)+
qed

lemma postage_item:
  assumes "itemFromIterator (postageChunksIndex db) p kv = Inr i" and "length p = 34" and "typed_entry (fst kv) v" and "hd p = 8"
  shows "fst kv = p @ slice_of (it_Address i)"
proof -
  obtain r where r: "fst kv = p @ r" using assms(1) by (auto simp: itemFromIterator_def prefix_def split: if_split_asm)
  obtain q where q: "p = 8 # q" "length q = 33" using assms(2,4) by (cases p) auto
  have l: "length r = 32" using assms(3) r q by (simp add: typed_entry_def)
  have d: "ix_DecodeKey (postageChunksIndex db) = if_DecodeKey (postageChunks_funcs (lc_baseKey db))"
    "ix_DecodeValue (postageChunksIndex db) = if_DecodeValue (postageChunks_funcs (lc_baseKey db))" using lay by (simp_all add: ls_layout_def index_of_def)
  have "it_Address i = Some r" using assms(1) r q l unfolding itemFromIterator_def d postageChunks_funcs_def by (auto simp: merge_sel)
  then show ?thesis using r by simp
qed

lemma unpin_walk:
  assumes t: "typed_map (look s)" and ok: "\<And>x. addr_ok (look s) x" and p: "length p = 34" "hd p = 8"
  shows "un_inv (look s) B (owned (apply_batch (tx_batch (snd (snd c))) (look s))) \<Longrightarrow> distinct (map fst es) \<Longrightarrow> \<forall>kv \<in> set es. look s (fst kv) = Some (snd kv) \<Longrightarrow>
    \<forall>kv \<in> set es. \<forall>a. fst kv = p @ a \<longrightarrow> a \<notin> B \<Longrightarrow>
    \<exists>B. un_inv (look s) B (owned (apply_batch (tx_batch (snd (snd (snd (ix_walk (postageChunksIndex db) (unpin_cb L db s) p err es c))))) (look s)))"
proof (induction es arbitrary: B c)
  case (Cons kv es)
  show ?case
  proof (cases "itemFromIterator (postageChunksIndex db) p kv")
    case (Inl e)
    then show ?thesis using Cons.prems(1) by auto
  next
    case (Inr i)
    let ?a = "slice_of (it_Address i)"
    obtain n1 n2 t0 where c: "c = (n1, n2, t0)" by (metis prod.collapse)
    have "typed_entry (fst kv) (snd kv)" using t Cons.prems(3) unfolding typed_map_def by auto
    then have kv: "fst kv = p @ ?a" using postage_item [OF Inr p(1)] p(2) by blast
    then have aB: "?a \<notin> B" using Cons.prems(4) by simp
    let ?m = "owned (apply_batch (tx_batch t0) (look s))"
    have inv: "un_inv (look s) B ?m" using Cons.prems(1) c by simp
    then have ag: "agree ?a ?m (look s)" using aB unfolding un_inv_def by blast
    have h: "hp (look s) (setUnpin L db s ?a) ?m (\<lambda>_ m'. un_inv (look s) (insert ?a B) m') (\<lambda>m'. un_inv (look s) (insert ?a B) m')"
      by (intro setUnpin_hp [OF t ok ag] un_inv_insert inv un_inv_change [OF inv])
    obtain r t1 where u: "setUnpin L db s ?a t0 = (r, t1)" by fastforce
    have i1: "un_inv (look s) (insert ?a B) (owned (apply_batch (tx_batch t1) (look s)))"
      using h [unfolded hp_def, rule_format, OF refl u] by (cases r) simp_all
    obtain q c1 where q: "unpin_cb L db s i c = (q, c1)" by (cases "unpin_cb L db s i c") auto
    then have c1: "snd (snd c1) = t1" using u c by (auto simp: unpin_cb_def NewAddress_def split: sum.splits if_splits)
    have rest: "\<exists>B. un_inv (look s) B (owned (apply_batch (tx_batch (snd (snd (snd (ix_walk (postageChunksIndex db) (unpin_cb L db s) p err es c1))))) (look s)))"
    proof (rule Cons.IH)
      show "un_inv (look s) (insert ?a B) (owned (apply_batch (tx_batch (snd (snd c1))) (look s)))" using i1 c1 by simp
      show "\<forall>kv \<in> set es. \<forall>a. fst kv = p @ a \<longrightarrow> a \<notin> insert ?a B" using Cons.prems(2,4) kv by (auto simp: image_iff)
    qed (use Cons.prems in auto)
    show ?thesis using Inr q rest i1 c1 by (cases q) auto
  qed
qed auto

lemma calm_bin:
  assumes b: "length batchID = 32"
  shows "calm look st (snd (run_act L st (unreserve_bin L db (ls_shed st) batchID bin n)))"
proof (rule calm_run)
  show "keeps (on_batch typed_batch) (unreserve_bin L db (ls_shed st) batchID bin n)" by (intro keeps_rules lay)
  assume g: "good (look (ls_shed st))"
  then have t: "typed_map (look (ls_shed st))" and ok: "\<And>x. addr_ok (look (ls_shed st)) x" by (simp_all add: good_def)
  let ?s = "ls_shed st" and ?p = "ix_prefix (postageChunksIndex db) @ batchID @ [bin]"
  have p: "length ?p = 34" "hd ?p = 8" using lay b by (simp_all add: ls_layout_def index_of_def)
  show "hp (look ?s) (unreserve_bin L db ?s batchID bin n) (owned (look ?s)) (\<lambda>_ m'. \<exists>B. un_inv (look ?s) B m') (\<lambda>_. True)"
  proof (rule hpI)
    fix tx r tx' assume tx: "owned (apply_batch (tx_batch tx) (look ?s)) = owned (look ?s)" and r: "unreserve_bin L db ?s batchID bin n tx = (r, tx')"
    let ?it = "ix_Iterate L (postageChunksIndex db) (unpin_cb L db ?s) (default_options\<lparr>io_Prefix := batchID @ [bin]\<rparr>) ?s (0, n, tx)"
    have i0: "un_inv (look ?s) {} (owned (apply_batch (tx_batch tx) (look ?s)))" using ok tx by (simp add: un_inv_def)
    have it: "\<exists>B. un_inv (look ?s) B (owned (apply_batch (tx_batch (snd (snd (snd ?it)))) (look ?s)))"
    proof (rule iterate_default [where Q = "\<lambda>c. \<exists>B. un_inv (look ?s) B (owned (apply_batch (tx_batch (snd (snd c))) (look ?s)))"])
      fix es :: "(bytes \<times> bytes) list" assume es: "sorted_wrt (<) (map fst es)" "\<forall>kv \<in> set es. look ?s (fst kv) = Some (snd kv)"
      show "\<exists>B. un_inv (look ?s) B (owned (apply_batch (tx_batch (snd (snd (snd (ix_walk (postageChunksIndex db) (unpin_cb L db ?s) ?p None es (0, n, tx)))))) (look ?s)))"
        using es i0 strict_sorted_iff by (intro unpin_walk [OF t ok p]) auto
    qed (use i0 in auto)
    obtain e c m t1 where ite: "?it = (e, c, m, t1)" by (metis prod.collapse)
    obtain B where B: "un_inv (look ?s) B (owned (apply_batch (tx_batch t1) (look ?s)))" using it ite by auto
    have h: "hp (look ?s) (thn (incGCSizeInBatch L db ?s c) (\<lambda>_.
          let item = zero_item\<lparr>it_BatchID := batchID, it_Radius := bin\<rparr> in
          thn (putB (postageRadiusIndex db) item) (\<lambda>_.
          thn (if bin = MaxPO then delB (postageRadiusIndex db) item else ret ()) (\<lambda>_. ret m)))) (owned (apply_batch (tx_batch t1) (look ?s)))
          (\<lambda>_ m'. \<exists>B. un_inv (look ?s) B m') (\<lambda>_. True)"
      unfolding Let_def using B by (intro hp_rules TrueI; blast)
    show "case r of Inl e \<Rightarrow> True | Inr x \<Rightarrow> \<exists>B. un_inv (look ?s) B (owned (apply_batch (tx_batch tx') (look ?s)))"
      using h [unfolded hp_def, rule_format, OF refl] r ite by (cases e; cases r) (simp_all add: unreserve_bin_def)
  qed
qed

lemma calm_bins: "length batchID = 32 \<Longrightarrow> calm look st (snd (unreserve_bins L db batchID bins n st))"
proof (induction bins arbitrary: n st)
  case (Cons b bins)
  obtain r1 st1 where r1: "run_act L st (unreserve_bin L db (ls_shed st) batchID b n) = (r1, st1)" by fastforce
  have c: "calm look st st1" using calm_bin [OF Cons.prems, of st b n] r1 by simp
  show ?case using calm_trans [OF c Cons.IH [OF Cons.prems]] c r1 by (cases r1) simp_all
qed simp

lemma calm_batch:
  assumes b: "length batchID = 32"
  shows "calm look st (snd (UnreserveBatch L db batchID radius st))"
proof (cases "unlessNotFound (ix_Get L (postageRadiusIndex db) (zero_item\<lparr>it_BatchID := batchID\<rparr>) (ls_shed st))")
  case (Inr i)
  let ?bins = "map word_of_nat [unat (case i of None \<Rightarrow> radius | Some i \<Rightarrow> it_Radius i)..<unat radius]"
  obtain g1 st1 where bb: "unreserve_bins L db batchID ?bins 0 st = (g1, st1)" by fastforce
  let ?r2 = "if radius \<noteq> MaxPO + 1 then run_act L st1 (putB (postageRadiusIndex db) (zero_item\<lparr>it_BatchID := batchID, it_Radius := radius\<rparr>)) else (Inr (), st1)"
  obtain g2 st2 where r2: "?r2 = (g2, st2)" by fastforce
  have t1: "calm look st st1" using calm_bins [OF b, of st ?bins 0] bb by simp
  have "calm look st1 (snd ?r2)" using calm_small(1) by simp
  then have t2: "calm look st st2" unfolding r2 using calm_trans [OF t1] by simp
  show ?thesis
  proof (cases g1)
    case Inl': (Inl e)
    then show ?thesis using t1 Inr bb by (simp add: UnreserveBatch_def)
  next
    case Inr': (Inr n)
    obtain g3 st3 where r3: "(if 0 < n then run_act L st2 (incReserveSizeInBatch L db (ls_shed st2) (- uint n)) else (Inr (), st2)) = (g3, st3)"
      by (metis surj_pair)
    have "calm look st2 (snd (if 0 < n then run_act L st2 (incReserveSizeInBatch L db (ls_shed st2) (- uint n)) else (Inr (), st2)))" using calm_small(2) by simp
    then have "calm look st2 st3" unfolding r3 by simp
    then have t3: "calm look st st3" by (rule calm_trans [OF t2])
    then have t4: "calm look st (st3\<lparr>ls_gcTrigger := True\<rparr>)" by (simp add: calm_def)
    show ?thesis using t2 t3 t4 Inr Inr' bb r2 r3
      by (cases g2; cases "unlessNotFound (u64_Get L (lc_gcSize db) (ls_shed st2))"; cases g3) (simp_all add: UnreserveBatch_def Let_def)
  qed
qed (simp add: UnreserveBatch_def)

lemma calm_evict: "\<forall>c \<in> set calls. length (fst c) = 32 \<Longrightarrow> calm look st (snd (evict_loop L db start target calls err n st))"
proof (induction calls arbitrary: n st)
  case (Cons c calls)
  obtain b r where c: "c = (b, r)" by fastforce
  obtain g st1 where u: "UnreserveBatch L db b r st = (g, st1)" by fastforce
  then have c1: "calm look st st1" using calm_batch [of b st r] Cons.prems c by simp
  have "calm look st (snd (evict_loop L db start target calls err k st1))" for k using Cons.prems by (intro calm_trans [OF c1 Cons.IH]) simp
  then show ?case using c1 u c by (cases g) (simp_all add: Let_def)
qed (simp split: option.splits)

lemma evict_step:
  assumes g: "good (look (ls_shed st))" and p: "evictReserve L db unreserve st = (r, st')" and b: "\<forall>c \<in> set (fst unreserve). length (fst c) = 32"
  shows "step_ok look {} st st'"
proof -
  have "calm look st st1" if "evict_loop L db n (reserveEvictionTarget db) (fst unreserve) (snd unreserve) 0 st = (q, st1)" for n q st1
    using calm_evict [OF b, of st n "reserveEvictionTarget db" "snd unreserve" 0] that by simp
  then have "calm look st st'" using p by (auto simp: evictReserve_def Let_def split: sum.splits prod.splits if_splits)
  then show ?thesis using g by (rule calm_step)
qed

end

section \<open>Runs of the collector\<close>

text \<open>Where the collector is: idle, noting changes, or with its candidates.\<close>

datatype gc_phase = Idle | Marked | Picked "Item list \<times> u64"

text \<open>The steps of the database with one collector. An operation on addresses names each once. A noted access is one of the chunk that is
  stored now: a chunk removed and stored again between \<open>Get\<close> and \<open>updateGC\<close> has another bin id. The identifiers of batches have
  32 bytes.\<close>

inductive gc_step :: "'s LevelDB \<Rightarrow> 't LSConf \<Rightarrow> ('s, 't) LS \<times> gc_phase \<Rightarrow> ('s, 't) LS \<times> gc_phase \<Rightarrow> bool" for L db where
  gs_put: "ls_put L db mode chs st = (r, st') \<Longrightarrow> gc_step L db (st, ph) (st', ph)"
| gs_set: "distinct addrs \<Longrightarrow> ls_set L db smode addrs st = (r, st') \<Longrightarrow> gc_step L db (st, ph) (st', ph)"
| gs_access: "\<lbrakk>it_AccessTimestamp item = 0;
    \<forall>out. ix_Get L (retrievalDataIndex db) (address_item (slice_of (it_Address item))) (ls_shed st) = Inr out \<longrightarrow> it_BinID item = it_BinID out;
    updateGC L db item st = (r, st')\<rbrakk> \<Longrightarrow> gc_step L db (st, ph) (st', ph)"
| gs_evict: "\<forall>c \<in> set (fst unreserve). length (fst c) = 32 \<Longrightarrow> evictReserve L db unreserve st = (e, st') \<Longrightarrow> gc_step L db (st, ph) (st', ph)"
| gs_begin: "gc_step L db (st, Idle) (gc_begin st, Marked)"
| gs_pick: "gc_candidates L db (ls_shed st) = Inr c \<Longrightarrow> gc_step L db (st, Marked) (st, Picked c)"
| gs_abort: "gc_step L db (st, Marked) (gc_end st, Idle)"
| gs_collect: "gc_collect L db c st = (r, st') \<Longrightarrow> gc_step L db (st, Picked c) (gc_end st', Idle)"

definition run_inv :: "('s \<Rightarrow> kvmap) \<Rightarrow> ('s, 't) LS \<times> gc_phase \<Rightarrow> bool" where
  "run_inv look p \<longleftrightarrow> good (look (ls_shed (fst p))) \<and>
     (case snd p of
        Idle \<Rightarrow> True
      | Marked \<Rightarrow> ls_gcRunning (fst p)
      | Picked c \<Rightarrow> ls_gcRunning (fst p) \<and>
          (\<forall>i \<in> set (fst c). slice_of (it_Address i) \<in> set (ls_dirty (fst p)) \<or> cand_ok (look (ls_shed (fst p))) i))"

lemma cand_frame:
  assumes "cand_ok m i" and "addr_ok m (slice_of (it_Address i))" and "frame m m' (slice_of (it_Address i))"
  shows "cand_ok m' i"
  using assms by (auto simp: cand_ok_def frame_def agree_def in_gc_def)

lemma step_ok_inv:
  assumes "run_inv look (st, ph)" and "step_ok look B st st'"
  shows "run_inv look (st', ph)"
proof (cases ph)
  case (Picked c)
  have "slice_of (it_Address i) \<in> set (ls_dirty st') \<or> cand_ok (look (ls_shed st')) i" if "i \<in> set (fst c)" for i
  proof (cases "slice_of (it_Address i) \<in> set (ls_dirty st')")
    case False
    then have "slice_of (it_Address i) \<notin> set (ls_dirty st)" "slice_of (it_Address i) \<notin> B \<or> ls_shed st' = ls_shed st" "cand_ok (look (ls_shed st)) i"
      "addr_ok (look (ls_shed st)) (slice_of (it_Address i))"
      using assms Picked that by (auto simp: step_ok_def run_inv_def good_def)
    then show ?thesis using cand_frame assms(2) by (auto simp: step_ok_def)
  qed simp
  then show ?thesis using assms Picked by (simp add: run_inv_def step_ok_def)
qed (use assms in \<open>simp_all add: run_inv_def step_ok_def\<close>)

context chunk_db
begin

lemma run_inv_step:
  assumes "gc_step L db p p'" and inv: "run_inv look p"
  shows "run_inv look p'"
  using assms
proof (cases rule: gc_step.cases)
  case (gs_put mode chs st r st' ph)
  then have "good (look (ls_shed st))" using inv by (simp add: run_inv_def)
  from put_step [OF this gs_put(3)] show ?thesis using inv step_ok_inv unfolding gs_put(1,2) by blast
next
  case (gs_set addrs smode st r st' ph)
  then have "good (look (ls_shed st))" using inv by (simp add: run_inv_def)
  from set_step [OF this gs_set(4,3)] show ?thesis using inv step_ok_inv unfolding gs_set(1,2) by blast
next
  case (gs_access item st r st' ph)
  have g: "good (look (ls_shed st))" using inv gs_access by (simp add: run_inv_def)
  have "it_BinID item = bin_of v" if v: "look (ls_shed st) (2 # slice_of (it_Address item)) = Some v" for v
  proof -
    let ?i = "address_item (slice_of (it_Address item))"
    have i: "slice_of (it_Address ?i) = slice_of (it_Address item)" "it_BinID ?i = 0" by (simp_all add: address_item_def zero_item_def)
    have "ix_Get L (retrievalDataIndex db) ?i (ls_shed st) \<noteq> Inl e" for e
      using ix_Get_total [of "ls_shed st" "retrievalDataIndex db" ?i e] g v none_at(1) [of "ls_shed st" ?i] i
      by (auto simp: good_def unlessNotFound_def)
    then obtain out where out: "ix_Get L (retrievalDataIndex db) ?i (ls_shed st) = Inr out" by (metis sum.exhaust)
    obtain w where "look (ls_shed st) (2 # slice_of (it_Address ?i)) = Some w" "it_BinID out = (if bin_of w = 0 then it_BinID ?i else bin_of w)"
      by (rule get_data [OF out])
    then show ?thesis using gs_access(4) out v i by (auto split: if_splits)
  qed
  then have "step_ok look {slice_of (it_Address item)} st st'" using g gs_access by (intro access_step) auto
  then show ?thesis using inv gs_access step_ok_inv by blast
next
  case (gs_evict unreserve st e st' ph)
  then have "good (look (ls_shed st))" using inv by (simp add: run_inv_def)
  from evict_step [OF this gs_evict(4,3)] show ?thesis using inv step_ok_inv unfolding gs_evict(1,2) by blast
next
  case (gs_begin st)
  then show ?thesis using inv by (simp add: run_inv_def gc_begin_def)
next
  case (gs_pick st c)
  have "cand_ok (look (ls_shed st)) i" if "i \<in> set (fst c)" for i
  proof -
    have "in_gc (look (ls_shed st)) i" using candidates_in_gc [OF gs_pick(3)] that by blast
    moreover from this have "look (ls_shed st) (7 # slice_of (it_Address i)) = None"
      using inv gs_pick(1) unfolding in_gc_def by (auto simp: run_inv_def good_def elim: addr_ok_gc)
    ultimately show ?thesis by (simp add: cand_ok_def)
  qed
  then show ?thesis using inv gs_pick by (simp add: run_inv_def)
next
  case (gs_abort st)
  then show ?thesis using inv by (simp add: run_inv_def gc_end_def)
next
  case (gs_collect c st r st')
  then show ?thesis using inv collect_step(1) [OF _ gs_collect(3)] by (simp add: run_inv_def gc_end_def)
qed

lemma run_inv_reach: "(gc_step L db)\<^sup>*\<^sup>* p p' \<Longrightarrow> run_inv look p \<Longrightarrow> run_inv look p'"
  by (induction rule: rtranclp_induct) (auto intro: run_inv_step)

lemma spares_pinned:
  assumes inv: "run_inv look (st, Picked c)" and p: "gc_collect L db c st = (r, st')" and a: "pinCounter L db a (ls_shed st) = Inr n"
  shows "pinCounter L db a (ls_shed st') = Inr n" "ls_Get L db ModeGetLookup a (ls_shed st') = ls_Get L db ModeGetLookup a (ls_shed st)"
proof -
  have i: "slice_of (it_Address (address_item a)) = a" by (simp add: address_item_def zero_item_def)
  obtain j where "ix_Get L (pinIndex db) (address_item a) (ls_shed st) = Inr j" using a by (cases "ix_Get L (pinIndex db) (address_item a) (ls_shed st)") (auto simp: pinCounter_def)
  then have "look (ls_shed st) (7 # a) \<noteq> None" using some_at(3) i by metis
  then have "agree a (look (ls_shed st')) (look (ls_shed st))" using collect_step(2) [OF _ p, of a] inv by (simp add: run_inv_def)
  then have k: "look (ls_shed st') (7 # a) = look (ls_shed st) (7 # a)" "look (ls_shed st') (2 # a) = look (ls_shed st) (2 # a)" by (simp_all add: agree_def)
  show "pinCounter L db a (ls_shed st') = Inr n" using a k(1) i by (simp add: pinCounter_def ix_Get_look [OF keys(6)])
  have "ix_Get L (retrievalDataIndex db) (address_item a) (ls_shed st') = ix_Get L (retrievalDataIndex db) (address_item a) (ls_shed st)"
    using k(2) i by (simp add: ix_Get_look [OF keys(1)])
  then show "ls_Get L db ModeGetLookup a (ls_shed st') = ls_Get L db ModeGetLookup a (ls_shed st)"
    by (cases "ix_Get L (retrievalDataIndex db) (address_item a) (ls_shed st)") (simp_all add: ls_Get_def ls_get_def Let_def)
qed

end

section \<open>A new database is good\<close>

lemma new_good:
  assumes "level_db L look" and "\<And>sc. \<exists>b. je sc = Inr b \<and> jd b = Inr sc" and "look s0 = Map.empty" and "op_Capacity o0 \<noteq> 0"
  obtains db s1 where "New_localstore L je jd migrate clock m9 m5 m1 baseKey o0 s0 = Inr (db, s1)" "chunk_db L look db" "good (look s1)"
proof -
  let ?db = "conf_of baseKey (op_Capacity o0) (op_ReserveCapacity o0) (m9 (op_Capacity o0)) (m5 (op_Capacity o0)) (m1 (op_ReserveCapacity o0)) (op_Tags o0) clock"
  obtain s1 where new: "New_localstore L je jd migrate clock m9 m5 m1 baseKey o0 s0 = Inr (?db, s1)" "typed_map (look s1)"
    "\<And>k. k \<noteq> keySchema \<Longrightarrow> k \<noteq> 1 # bytes_of_string ''schema-name'' \<Longrightarrow> look s1 k = None"
    by (rule level_db.new_db [OF assms, where migrate = migrate and clock = clock and ?m9.0 = m9 and ?m5.0 = m5 and ?m1.0 = m1 and baseKey = baseKey]) blast
  have "chunk_db L look ?db" using assms(1) by (intro chunk_db.intro chunk_db_axioms.intro conf_of_layout)
  moreover have "good (look s1)" using new(2,3) by (simp add: good_def addr_ok_def gckey_def keySchema_def)
  ultimately show thesis using new(1) by (intro that [of ?db s1])
qed

end
