(* ===== verification/LocalstoreProps.thy ===== *)
theory LocalstoreProps
  imports LocalstoreGC
begin

text \<open>
  What a client of the chunk database sees: a chunk that is put is read back, and where the counters and the postage index go wrong.
  \<open>gives\<close> says that an operation on a batch succeeds with a result.
\<close>

section \<open>Operations that succeed\<close>

definition gives :: "('t, 'a) act \<Rightarrow> ('a \<Rightarrow> bool) \<Rightarrow> bool" where
  "gives a P \<longleftrightarrow> (\<forall>t. \<exists>x t'. a t = (Inr x, t') \<and> P x)"

named_theorems gives_rules \<open>operations on a batch that succeed\<close>

lemma gives_thn [gives_rules]: "gives m (\<lambda>x. gives (f x) P) \<Longrightarrow> gives (thn m f) P"
  unfolding gives_def
proof
  fix t assume g: "\<forall>t. \<exists>x t'. m t = (Inr x, t') \<and> (\<forall>t. \<exists>xa t'. f x t = (Inr xa, t') \<and> P xa)"
  obtain x t' where x: "m t = (Inr x, t')" "\<forall>t. \<exists>xa t'. f x t = (Inr xa, t') \<and> P xa" using g by blast
  then show "\<exists>x t'. thn m f t = (Inr x, t') \<and> P x" by (simp add: thn_def)
qed

lemma gives_ret [gives_rules]: "P x \<Longrightarrow> gives (ret x) P"
  by (simp add: gives_def ret_def)

lemma gives_lft [gives_rules]: "(\<And>e. r \<noteq> Inl e) \<Longrightarrow> (\<And>x. r = Inr x \<Longrightarrow> P x) \<Longrightarrow> gives (lft r) P"
  by (cases r) (auto simp: gives_def lft_def)

lemma gives_thn_mono: "gives m R \<Longrightarrow> (\<And>x. R x \<Longrightarrow> P x) \<Longrightarrow> gives m P"
  unfolding gives_def by blast

lemma gives_now [gives_rules]: "(\<And>n. P n) \<Longrightarrow> gives (now db) P"
  by (simp add: gives_def now_def)

lemma gives_cases [gives_rules]:
  "(c \<Longrightarrow> gives f P) \<Longrightarrow> (\<not> c \<Longrightarrow> gives g P) \<Longrightarrow> gives (if c then f else g) P"
  "(x = None \<Longrightarrow> gives f P) \<Longrightarrow> (\<And>a. x = Some a \<Longrightarrow> gives (h a) P) \<Longrightarrow> gives (case x of None \<Rightarrow> f | Some a \<Rightarrow> h a) P"
  "(\<And>a b. z = (a, b) \<Longrightarrow> gives (n a b) P) \<Longrightarrow> gives (case z of (a, b) \<Rightarrow> n a b) P"
  by (cases x; cases z; simp)+

context chunk_db
begin

lemma gives_batch [gives_rules]:
  assumes "P ()"
  shows "gives (putB (retrievalDataIndex db) i) P" "gives (putB (retrievalAccessIndex db) i) P" "gives (putB (pullIndex db) i) P" "gives (putB (pushIndex db) i) P"
    "gives (putB (gcIndex db) i) P" "gives (putB (pinIndex db) i) P" "gives (putB (postageChunksIndex db) i) P" "gives (putB (postageRadiusIndex db) i) P"
    "gives (putB (postageIndexIndex db) i) P" "gives (delB (gcIndex db) i) P" "gives (put_binIDs db) P"
  using lay assms by (simp_all add: gives_def putB_def delB_def ix_PutInBatch_def ix_DeleteInBatch_def keys put_binIDs_def)
    (simp_all add: ls_layout_def index_of_def funcs_defs)

lemma reads_total:
  assumes t: "typed_map (look s)"
  shows "unlessNotFound (ix_Get L (pinIndex db) i s) \<noteq> Inl e" "unlessNotFound (ix_Get L (retrievalAccessIndex db) i s) \<noteq> Inl e"
    "unlessNotFound (u64_Get L (lc_gcSize db) s) \<noteq> Inl e" "unlessNotFound (u64_Get L (lc_reserveSize db) s) \<noteq> Inl e"
    "ix_Has L (pinIndex db) i s \<noteq> Inl e" "unlessNotFound (ix_Has L (gcIndex db) i s) \<noteq> Inl e"
  using ix_Get_total [OF t, of "pinIndex db" i] ix_Get_total [OF t, of "retrievalAccessIndex db" i] counter_total [OF t, of "lc_gcSize db"] counter_total [OF t, of "lc_reserveSize db"]
    ix_Has_look [OF keys(6), of i s] ix_Has_look [OF gckey_item, of i s]
  by (auto simp: unlessNotFound_def split: sum.splits)

lemma gives_counters [gives_rules]:
  assumes t: "typed_map (look s)" and "\<And>x. P x"
  shows "gives (incGCSizeInBatch L db s c) P" "gives (incReserveSizeInBatch L db s c) P"
proof -
  have wrap: "gives (\<lambda>t. let x = y in case z x of None \<Rightarrow> (Inr (), t) | Some n \<Rightarrow> (Inr (), g n t)) P" for y :: u64 and z and g :: "u64 \<Rightarrow> 'b Tx \<Rightarrow> 'b Tx"
    using assms(2) by (auto simp: gives_def Let_def split: option.splits)
  show "gives (incGCSizeInBatch L db s c) P" "gives (incReserveSizeInBatch L db s c) P"
    unfolding incGCSizeInBatch_def incReserveSizeInBatch_def by (intro gives_rules wrap reads_total [OF t] assms(2))+
qed

lemma gives_incBinID [gives_rules]: "typed_map (look s) \<Longrightarrow> (\<And>x. P x) \<Longrightarrow> gives (incBinID L db s b) P"
  using counter_total [of s "indexKey (lc_binIDs db) (ucast b)"] by (cases "u64_Get L (indexKey (lc_binIDs db) (ucast b)) s")
    (auto simp: gives_def incBinID_def vec_Get_def split: option.splits)

lemma gives_setPin:
  assumes t: "typed_map (look s)" and ok: "addr_ok (look s) (slice_of (it_Address item))" and P: "\<And>x. P x"
  shows "gives (setPin L db s item) P"
  unfolding setPin_def Let_def
proof (intro gives_rules reads_total [OF t] P, goal_cases)
  case (1 p a i e)
  let ?j = "item\<lparr>it_PinCounter := 0\<rparr>"
  have "look s (3 # slice_of (it_Address ?j)) \<noteq> None" using some_at(2) [OF some_get [OF 1(3) [unfolded 1(4)]]] .
  then have n: "look s (2 # slice_of (it_Address item)) \<noteq> None" using ok by (auto simp: addr_ok_def)
  let ?i = "item\<lparr>it_PinCounter := 0, it_AccessTimestamp := it_AccessTimestamp i\<rparr>"
  show ?case
  proof
    assume g: "ix_Get L (retrievalDataIndex db) ?i s = Inl e"
    then have "e = sh_NotFound" using ix_Get_total [OF t, of "retrievalDataIndex db"] by blast
    then have "look s (2 # slice_of (it_Address ?i)) = None" using g by (intro none_at(1) [OF t]) (simp add: unlessNotFound_def)
    then show False using n by simp
  qed
qed

lemma gives_preserve:
  assumes "typed_map (look s)" and "addr_ok (look s) (slice_of (it_Address item))" and "\<And>x. P x"
  shows "gives (preserveOrCache L db s item p c) P"
  unfolding preserveOrCache_def by (intro gives_rules reads_total gives_setPin assms)

lemma gives_put_one:
  assumes t: "typed_map (look s)" and ok: "\<And>x. addr_ok (look s) x" and item: "chunkToItem ch = Inr item"
    and none: "look s (2 # ch_addr ch) = None" "look s (10 # stamp_key item) = None"
  shows "gives (put_one L db s mode [] ch) (\<lambda>r. fst r = False)"
proof -
  have a: "slice_of (it_Address item) = ch_addr ch" using chunkToItem_fresh [OF item] by simp
  have "unlessNotFound (ix_Get L (postageIndexIndex db) item s) = Inr None"
    using none(2) by (simp add: ix_Get_look [OF keys(9)] stamp_key_def unlessNotFound_def)
  then have r: "replacePrevious L db s item = ret (Inr None)"
    using none(1) a unfolding replacePrevious_def by (simp add: ix_Has_look [OF keys(1)] thn_lft_Inr)
  have p: "gives (preserveOrCache L db s j x y) P" if "\<And>c. P c" for j x y and P :: "int \<Rightarrow> bool" by (rule gives_preserve [OF t ok that])
  have "gives (putRequest L db s item x y) (\<lambda>r. fst r = False)" for x y
    unfolding putRequest_def r thn_ret Let_def by simp (intro gives_rules p t; simp)
  moreover have "gives (putSync L db s item) (\<lambda>r. fst r = False)"
    unfolding putSync_def r thn_ret Let_def by simp (intro gives_rules p t; simp)
  moreover have u: "gives (putUpload L db s item) (\<lambda>r. fst r = False)"
    unfolding putUpload_def r thn_ret Let_def by simp (intro gives_rules t; simp)
  moreover have "gives (thn (putUpload L db s item) (\<lambda>(exists, c). thn (setPin L db s item) (\<lambda>c1. ret (exists, c + c1)))) (\<lambda>r. fst r = False)"
    unfolding putUpload_def r thn_ret Let_def by simp (simp add: thn_assoc thn_ret, intro gives_rules gives_setPin [OF t ok] t; simp)
  ultimately show ?thesis by (cases mode) (simp_all add: put_one_def item thn_lft_Inr)
qed

lemma gives_deletes:
  assumes "P ()"
  shows "gives (delB (retrievalDataIndex db) i) P" "gives (delB (retrievalAccessIndex db) i) P" "gives (delB (pullIndex db) i) P"
    "gives (delB (postageChunksIndex db) i) P" "gives (delB (pinIndex db) i) P"
  using assms by (simp_all add: gives_def delB_def ix_DeleteInBatch_def keys)

lemma gives_setRemove:
  assumes t: "typed_map (look s)" and n: "look s (2 # slice_of (it_Address item)) \<noteq> None" and P: "\<And>x. P x"
  shows "gives (setRemove L db s item c) P"
proof -
  have d: "ix_Get L (retrievalDataIndex db) j s \<noteq> Inl e" if "slice_of (it_Address j) = slice_of (it_Address item)" for j e
    using ix_Get_total [OF t, of "retrievalDataIndex db" j e] none_at(1) [OF t, of j] n that by (auto simp: unlessNotFound_def)
  have g: "unlessNotFound (ix_Get L (gcIndex db) j s) \<noteq> Inl e" for j e
    using ix_Get_total [OF t, of "gcIndex db" j] by (auto simp: unlessNotFound_def split: sum.splits)
  show ?thesis unfolding setRemove_def
    by (intro gives_rules gives_deletes reads_total [OF t] d g P) (simp_all split: option.splits)
qed

lemma gives_run: "gives a P \<Longrightarrow> \<exists>x st'. run_act L st a = (Inr x, st') \<and> P x"
proof -
  assume g: "gives a P"
  obtain x t1 where a: "a \<lparr>tx_batch = [], tx_binIDs = [], tx_tags = ls_tags st, tx_ticks = ls_ticks st, tx_gcTrigger = ls_gcTrigger st,
              tx_evictTrigger = ls_evictTrigger st\<rparr> = (Inr x, t1)" "P x" using g unfolding gives_def by blast
  obtain s1 where "ld_Write L (tx_batch t1) (ls_shed st) = Inr s1" using ld_write by blast
  then show ?thesis using a by (simp add: run_act_def Let_def)
qed

lemma hp_run_ok:
  assumes "hp (look (ls_shed st)) act (owned (look (ls_shed st))) Q E" and "run_act L st act = (Inr x, st')"
  shows "Q x (owned (look (ls_shed st')))"
proof -
  let ?t = "\<lparr>tx_batch = [], tx_binIDs = [], tx_tags = ls_tags st, tx_ticks = ls_ticks st, tx_gcTrigger = ls_gcTrigger st,
              tx_evictTrigger = ls_evictTrigger st\<rparr>"
  obtain r1 t1 where a: "act ?t = (r1, t1)" by fastforce
  have "case r1 of Inl e \<Rightarrow> E (owned (apply_batch (tx_batch t1) (look (ls_shed st)))) | Inr x \<Rightarrow> Q x (owned (apply_batch (tx_batch t1) (look (ls_shed st))))"
    using assms(1) [unfolded hp_def, rule_format, OF _ a] by simp
  moreover obtain s1 where "ld_Write L (tx_batch t1) (ls_shed st) = Inr s1" "look s1 = apply_batch (tx_batch t1) (look (ls_shed st))" using ld_write by blast
  ultimately show ?thesis using assms(2) a by (cases r1) (auto simp: run_act_def Let_def)
qed

lemma decode_data:
  assumes v: "look s (2 # a) = Some (data_value (item\<lparr>it_StoreTimestamp := n, it_BinID := b\<rparr>))" and item: "chunkToItem ch = Inr item" and a: "a = ch_addr ch"
    and sp: "ch_stamp ch = Some stamp" "length (sp_batchID stamp) = 32" "length (sp_index stamp) = 8" "length (sp_timestamp stamp) = 8" "length (sp_sig stamp) = 65"
  shows "fst (ls_Get L db ModeGetLookup a s) = Inr (WithStamp stamp (NewChunk a (ch_sdata ch)))"
proof -
  let ?m = "sp_MarshalBinary stamp"
  have i: "slice_of (it_Address (address_item a)) = a" "it_Address (address_item a) = Some a" by (simp_all add: address_item_def zero_item_def)
  have m: "length ?m = StampSize" "(sp_UnmarshalBinary ?m :: unit postage_error + Stamp) = Inr stamp"
    by (rule stamp_roundtrip_aux [OF sp(2-5), THEN conjunct1] stamp_roundtrip_aux [OF sp(2-5), THEN conjunct2])+
  have st: "NewStamp (sp_batchID stamp) (sp_index stamp) (sp_timestamp stamp) (sp_sig stamp) = stamp" by (simp add: NewStamp_def)
  have d: "data_value (item\<lparr>it_StoreTimestamp := n, it_BinID := b\<rparr>) = be_bytes 8 (unat b) @ be_bytes 8 (unat n) @ ?m @ ch_sdata ch"
    using item sp(1) st by (auto simp: data_value_def chunkToItem_def)
  let ?v = "be_bytes 8 (unat b) @ be_bytes 8 (unat n) @ ?m @ ch_sdata ch"
  have parts: "headerSize \<le> length ?v" "take StampSize (drop 16 ?v) = ?m" "drop headerSize ?v = ch_sdata ch" using m by (simp_all add: headerSize_def)
  have dv: "ix_DecodeValue (retrievalDataIndex db) = if_DecodeValue retrievalData_funcs" using lay by (simp add: ls_layout_def index_of_def)
  obtain out where out: "ix_DecodeValue (retrievalDataIndex db) (address_item a) ?v = Inr out" "it_Address out = None" "it_Data out = Some (ch_sdata ch)"
    "it_BatchID out = sp_batchID stamp" "it_Index out = sp_index stamp" "it_Timestamp out = sp_timestamp stamp" "it_Sig out = sp_sig stamp"
    unfolding dv retrievalData_funcs_def using parts m(2) by (simp add: zero_item_def)
  have "item_chunk (it_Merge out (address_item a)) = WithStamp stamp (NewChunk a (ch_sdata ch))"
    using out(2-7) sp i(2) st by (simp add: item_chunk_def it_Merge_def NewAddress_def)
  moreover have "ix_Get L (retrievalDataIndex db) (address_item a) s = Inr (it_Merge out (address_item a))"
    using v out(1) i d by (simp add: ix_Get_look [OF keys(1)])
  ultimately show ?thesis by (simp add: ls_Get_def ls_get_def Let_def)
qed

lemma put_reads_back:
  assumes g: "good (look (ls_shed st))" and sp: "ch_stamp ch = Some stamp" "length (sp_batchID stamp) = 32" "length (sp_index stamp) = 8" "length (sp_timestamp stamp) = 8" "length (sp_sig stamp) = 65"
    and item: "chunkToItem ch = Inr item" and new: "ls_Has L db (ch_addr ch) (ls_shed st) = Inr False" "ix_Get L (postageIndexIndex db) item (ls_shed st) = Inl sh_NotFound"
  shows "\<exists>st'. ls_put L db mode [ch] st = (Inr [False], st') \<and> fst (ls_Get L db ModeGetLookup (ch_addr ch) (ls_shed st')) = Inr (WithStamp stamp (NewChunk (ch_addr ch) (ch_sdata ch)))"
proof -
  let ?s = "ls_shed st" and ?a = "ch_addr ch"
  have t: "typed_map (look ?s)" and ok: "\<And>x. addr_ok (look ?s) x" using g by (simp_all add: good_def)
  have a: "slice_of (it_Address item) = ?a" using chunkToItem_fresh [OF item] by simp
  have n2: "look ?s (2 # ?a) = None" using new(1) by (simp add: ls_Has_def ix_Has_look [OF keys(1)] address_item_def)
  have n10: "look ?s (10 # stamp_key item) = None" using get_none [OF _ keys(9) t, of item] new(2) by (simp add: unlessNotFound_def stamp_key_def)
  let ?act = "thn (put_loop L db ?s mode [] [ch]) (\<lambda>(exist, gcSizeChange).
           thn (put_binIDs db) (\<lambda>_. thn (incGCSizeInBatch L db ?s gcSizeChange) (\<lambda>_. ret exist)))"
  let ?st = "mark_dirty (map ch_addr [ch]) st"
  have m: "ls_shed ?st = ?s" by (simp add: mark_dirty_def)
  have "gives ?act (\<lambda>r. r = [False])"
    unfolding put_loop.simps thn_assoc
    by (intro gives_rules) (rule gives_thn_mono [OF gives_put_one [OF t ok item n2 n10]], auto intro!: gives_rules t)
  then obtain st' where r: "run_act L ?st ?act = (Inr [False], st')" using gives_run [of ?act _ ?st] by blast
  have "hp (look ?s) ?act (owned (look ?s)) (\<lambda>_ m'. stored_as (look ?s) item m') (\<lambda>_. True)"
    unfolding put_loop.simps
    by (intro hp_rules put_one_hp [OF t ok] TrueI) (use ok item in \<open>simp_all add: put_inv_def gc_sub_simps frame_def\<close>)
  then have "stored_as (look ?s) item (owned (look (ls_shed st')))" using hp_run_ok [of ?st, unfolded m, OF _ r] by blast
  then obtain k b where v: "look (ls_shed st') (2 # ?a) = Some (data_value (item\<lparr>it_StoreTimestamp := k, it_BinID := b\<rparr>))"
    using n2 n10 a by (auto simp: stored_as_def)
  have "ix_Has L (retrievalDataIndex db) item ?s = Inr False" using n2 a by (simp add: ix_Has_look [OF keys(1)])
  then have "ls_put L db mode [ch] st = (Inr [False], st')" using r item by (simp add: ls_put_def Let_def)
  then show ?thesis using decode_data [OF v item refl sp] by blast
qed

end

section \<open>The reserve\<close>

text \<open>The values a batch writes to the size of the reserve.\<close>

definition reserve_writes :: "'t LSConf \<Rightarrow> u64 \<Rightarrow> LBatch \<Rightarrow> bool" where
  "reserve_writes db n bs \<longleftrightarrow> (\<forall>b \<in> set bs. (\<forall>v. b = BPut (lc_reserveSize db) v \<longrightarrow> v = encodeUint64 (n + 1) \<or> v = encodeUint64 (n - 1)) \<and> b \<noteq> BDel (lc_reserveSize db))"

lemma reserve_writes_simps [simp]:
  "reserve_writes db n []" "reserve_writes db n (bs @ cs) \<longleftrightarrow> reserve_writes db n bs \<and> reserve_writes db n cs"
  "k \<noteq> lc_reserveSize db \<Longrightarrow> reserve_writes db n [BPut k v]" "k \<noteq> lc_reserveSize db \<Longrightarrow> reserve_writes db n [BDel k]"
  by (auto simp: reserve_writes_def)

lemma reserve_writes_apply:
  "reserve_writes db n bs \<Longrightarrow> apply_batch bs m (lc_reserveSize db) \<in> {m (lc_reserveSize db), Some (encodeUint64 (n + 1)), Some (encodeUint64 (n - 1))}"
proof (induction bs arbitrary: m)
  case (Cons b bs)
  have "reserve_writes db n bs" using Cons.prems by (simp add: reserve_writes_def)
  moreover have "apply_bop b m (lc_reserveSize db) \<in> {m (lc_reserveSize db), Some (encodeUint64 (n + 1)), Some (encodeUint64 (n - 1))}"
    using Cons.prems by (cases b) (auto simp: reserve_writes_def)
  ultimately show ?case using Cons.IH [of "apply_bop b m"] unfolding apply_batch_simps(2) by (simp only: insert_iff) metis
qed simp

context chunk_db
begin

lemma keeps_reserve_index [keeps_rules]:
  "keeps (on_batch (reserve_writes db n)) (putB (retrievalDataIndex db) i)" "keeps (on_batch (reserve_writes db n)) (putB (retrievalAccessIndex db) i)"
  "keeps (on_batch (reserve_writes db n)) (putB (pullIndex db) i)" "keeps (on_batch (reserve_writes db n)) (putB (pushIndex db) i)"
  "keeps (on_batch (reserve_writes db n)) (putB (gcIndex db) i)" "keeps (on_batch (reserve_writes db n)) (putB (pinIndex db) i)"
  "keeps (on_batch (reserve_writes db n)) (putB (postageChunksIndex db) i)" "keeps (on_batch (reserve_writes db n)) (putB (postageIndexIndex db) i)"
  "keeps (on_batch (reserve_writes db n)) (delB (retrievalDataIndex db) i)" "keeps (on_batch (reserve_writes db n)) (delB (retrievalAccessIndex db) i)"
  "keeps (on_batch (reserve_writes db n)) (delB (pullIndex db) i)" "keeps (on_batch (reserve_writes db n)) (delB (gcIndex db) i)"
  "keeps (on_batch (reserve_writes db n)) (delB (pinIndex db) i)" "keeps (on_batch (reserve_writes db n)) (delB (postageChunksIndex db) i)"
  by (rule keeps_putB keeps_delB; auto simp: keys fields)+

lemma keeps_reserve_counters:
  assumes "u64_Get L (lc_reserveSize db) s = Inr n"
  shows "keeps (on_batch (reserve_writes db n)) (incReserveSizeInBatch L db s 1)" "keeps (on_batch (reserve_writes db n)) (incReserveSizeInBatch L db s (- 1))"
    "keeps (on_batch (reserve_writes db n)) (incGCSizeInBatch L db s c)" "keeps (on_batch (reserve_writes db n)) (put_binIDs db)"
proof -
  have "bytes_of_string ''reserve-size'' \<noteq> bytes_of_string ''gc-size''" "\<And>x. bytes_of_string ''bin-ids'' @ x \<noteq> bytes_of_string ''reserve-size''"
    by (simp_all add: bytes_of_string_def)
  then have k: "lc_gcSize db \<noteq> lc_reserveSize db" "indexKey (lc_binIDs db) p \<noteq> lc_reserveSize db" for p by (auto simp: fields indexKey_def)
  show "keeps (on_batch (reserve_writes db n)) (incGCSizeInBatch L db s c)" "keeps (on_batch (reserve_writes db n)) (put_binIDs db)"
    using k by (intro keeps_incGC keeps_put_binIDs; simp)+
  have w: "reserve_writes db n [BPut (lc_reserveSize db) (encodeUint64 (n + 1))]" "reserve_writes db n [BPut (lc_reserveSize db) (encodeUint64 (n - 1))]"
    by (simp_all add: reserve_writes_def)
  show "keeps (on_batch (reserve_writes db n)) (incReserveSizeInBatch L db s 1)" "keeps (on_batch (reserve_writes db n)) (incReserveSizeInBatch L db s (- 1))"
    using assms w by (auto simp: keeps_def on_batch_def incReserveSizeInBatch_def ret_def thn_def lft_def unlessNotFound_def u64_PutInBatch_def sized_change_def Let_def)
qed

lemma keeps_reserve_put:
  assumes n: "u64_Get L (lc_reserveSize db) s = Inr n"
  shows "keeps (on_batch (reserve_writes db n)) (put_loop L db s mode earlier chs)"
proof -
  note r = keeps_rules keeps_reserve_counters [OF n]
  have pin: "keeps (on_batch (reserve_writes db n)) (setPin L db s item)" for item unfolding setPin_def Let_def by (intro r)
  have rem: "keeps (on_batch (reserve_writes db n)) (setRemove L db s item c)" for item c unfolding setRemove_def by (intro r)
  have rel: "keeps (on_batch (reserve_writes db n)) (releaseReplaced L db s item)" for item unfolding releaseReplaced_def by (intro r)
  have pre: "keeps (on_batch (reserve_writes db n)) (preserveOrCache L db s item x y)" for item x y unfolding preserveOrCache_def by (intro r pin)
  have rep: "keeps (on_batch (reserve_writes db n)) (replacePrevious L db s item)" for item unfolding replacePrevious_def by (intro r rem)
  have puts: "keeps (on_batch (reserve_writes db n)) (putRequest L db s item x y)" "keeps (on_batch (reserve_writes db n)) (putUpload L db s item)"
    "keeps (on_batch (reserve_writes db n)) (putSync L db s item)" for item x y
    unfolding putRequest_def putUpload_def putSync_def Let_def by (intro r rep rel pre)+
  have one: "keeps (on_batch (reserve_writes db n)) (put_one L db s mode earlier ch)" for earlier ch
    unfolding put_one_def by (cases mode) (simp_all only: ModePut.case, (intro r puts pin)+)
  show ?thesis by (induction chs arbitrary: earlier) (simp_all only: put_loop.simps, (intro r one)+)
qed

lemma reserve_put:
  assumes n: "u64_Get L (lc_reserveSize db) (ls_shed st) = Inr n"
  shows "u64_Get L (lc_reserveSize db) (ls_shed (snd (ls_put L db mode chs st))) \<in> {Inr n, Inr (n + 1), Inr (n - 1)}"
proof -
  let ?st = "mark_dirty (map ch_addr chs) st" and ?s = "ls_shed st"
  let ?act = "thn (put_loop L db ?s mode [] chs) (\<lambda>(exist, gcSizeChange).
           thn (put_binIDs db) (\<lambda>_. thn (incGCSizeInBatch L db ?s gcSizeChange) (\<lambda>_. ret exist)))"
  let ?t = "\<lparr>tx_batch = [], tx_binIDs = [], tx_tags = ls_tags ?st, tx_ticks = ls_ticks ?st, tx_gcTrigger = ls_gcTrigger ?st,
              tx_evictTrigger = ls_evictTrigger ?st\<rparr>"
  have k: "keeps (on_batch (reserve_writes db n)) ?act" by (intro keeps_rules keeps_reserve_put [OF n] keeps_reserve_counters [OF n])
  obtain r t1 where a: "?act ?t = (r, t1)" by fastforce
  have "on_batch (reserve_writes db n) ?t" by (simp add: on_batch_def)
  then have w: "reserve_writes db n (tx_batch t1)" using k a unfolding keeps_def on_batch_def by (metis snd_conv)
  obtain s1 where s1: "ld_Write L (tx_batch t1) ?s = Inr s1" "look s1 = apply_batch (tx_batch t1) (look ?s)" using ld_write by blast
  have dec: "go_Uint64 (encodeUint64 x) = Inr x" for x by (simp add: go_Uint64_def encodeUint64_def)
  have new: "u64_Get L (lc_reserveSize db) s1 \<in> {Inr n, Inr (n + 1), Inr (n - 1)}"
    using reserve_writes_apply [OF w, of "look ?s"] n unfolding u64_Get_look s1(2) by (auto simp: dec)
  have m: "ls_shed ?st = ?s" by (simp add: mark_dirty_def)
  have "ls_shed (snd (run_act L ?st ?act)) \<in> {?s, s1}" using a s1(1) m by (cases r) (simp_all add: run_act_def Let_def)
  then have "ls_shed (snd (ls_put L db mode chs st)) \<in> {?s, s1}" by (auto simp: ls_put_def Let_def split: sum.splits)
  then show ?thesis using n new by auto
qed

end

section \<open>Removed chunks\<close>

text \<open>A batch that leaves the postage index alone.\<close>

definition no_postage :: "LBatch \<Rightarrow> bool" where
  "no_postage bs \<longleftrightarrow> (\<forall>k v. BPut (10 # k) v \<notin> set bs \<and> BDel (10 # k) \<notin> set bs)"

lemma no_postage_simps [simp]:
  "no_postage []" "no_postage (bs @ cs) \<longleftrightarrow> no_postage bs \<and> no_postage cs"
  "p \<noteq> 10 \<Longrightarrow> no_postage [BPut (p # k) v]" "p \<noteq> 10 \<Longrightarrow> no_postage [BDel (p # k)]"
  by (auto simp: no_postage_def)

lemma no_postage_apply: "no_postage bs \<Longrightarrow> apply_batch bs m (10 # k) = m (10 # k)"
proof (induction bs arbitrary: m)
  case (Cons b bs)
  have "no_postage bs" using Cons.prems by (simp add: no_postage_def)
  moreover have "apply_bop b m (10 # k) = m (10 # k)" using Cons.prems by (cases b) (auto simp: no_postage_def)
  ultimately show ?case using Cons.IH by simp
qed simp

context chunk_db
begin

lemma remove_keeps_postage:
  assumes "ls_set L db ModeSetRemove addrs st = (r, st')"
  shows "look (ls_shed st') (10 # k) = look (ls_shed st) (10 # k)"
proof -
  have i: "keeps (on_batch no_postage) (delB (retrievalDataIndex db) i)" "keeps (on_batch no_postage) (delB (retrievalAccessIndex db) i)"
    "keeps (on_batch no_postage) (delB (pullIndex db) i)" "keeps (on_batch no_postage) (delB (gcIndex db) i)"
    "keeps (on_batch no_postage) (delB (pinIndex db) i)" "keeps (on_batch no_postage) (delB (postageChunksIndex db) i)" for i
    by (rule keeps_delB; auto simp: keys)+
  have g: "keeps (on_batch no_postage) (incGCSizeInBatch L db s c)" for s c by (rule keeps_incGC) (simp add: fields)
  have rem: "keeps (on_batch no_postage) (setRemove L db s item c)" for s item c unfolding setRemove_def by (intro keeps_rules i)
  have loop: "keeps (on_batch no_postage) (set_loop L db s ModeSetRemove addrs)" for s
    by (induction addrs) (simp_all only: set_loop.simps set_one_def ModeSet.case, (intro keeps_rules rem)+)
  let ?st = "mark_dirty addrs st"
  let ?act = "thn (set_loop L db (ls_shed st) ModeSetRemove addrs) (\<lambda>c. incGCSizeInBatch L db (ls_shed st) c)"
  let ?t = "\<lparr>tx_batch = [], tx_binIDs = [], tx_tags = ls_tags ?st, tx_ticks = ls_ticks ?st, tx_gcTrigger = ls_gcTrigger ?st,
              tx_evictTrigger = ls_evictTrigger ?st\<rparr>"
  have kp: "keeps (on_batch no_postage) ?act" by (intro keeps_rules loop g)
  obtain q t1 where a: "?act ?t = (q, t1)" by fastforce
  have "on_batch no_postage ?t" by (simp add: on_batch_def)
  then have w: "no_postage (tx_batch t1)" using kp a unfolding keeps_def on_batch_def by (metis snd_conv)
  obtain s1 where "ld_Write L (tx_batch t1) (ls_shed st) = Inr s1" "look s1 = apply_batch (tx_batch t1) (look (ls_shed st))" using ld_write by blast
  moreover have "ls_shed ?st = ls_shed st" by (simp add: mark_dirty_def)
  moreover have "run_act L ?st ?act = (r, st')" using assms by (simp add: ls_set_def Let_def)
  ultimately show ?thesis using a no_postage_apply [OF w] by (cases q) (auto simp: run_act_def Let_def)
qed

lemma removed_refused:
  assumes g: "good (look (ls_shed st))" and item: "chunkToItem ch = Inr item" "\<not> it_Immutable item" and m: "mode \<noteq> ModePutUploadPin"
    and p: "ix_Get L (postageIndexIndex db) item (ls_shed st) = Inr previous" "it_Timestamp previous = it_Timestamp item"
    and r: "ls_set L db ModeSetRemove [ch_addr ch] st = (Inr (), st1)"
  shows "\<exists>st2. ls_put L db mode [ch] st1 = (Inr [False], st2) \<and> ls_Has L db (ch_addr ch) (ls_shed st2) = Inr False"
proof -
  let ?a = "ch_addr ch"
  have t: "typed_map (look (ls_shed st))" and ok: "\<And>x. addr_ok (look (ls_shed st)) x" using g by (simp_all add: good_def)
  have t1: "typed_map (look (ls_shed st1))" using typed_set [OF t, of ModeSetRemove "[?a]"] r by simp
  have a: "slice_of (it_Address item) = ?a" using chunkToItem_fresh [OF item(1)] by simp
  have ia: "?a = slice_of (it_Address (address_item ?a))" "it_AccessTimestamp (address_item ?a) = 0" "it_StoreTimestamp (address_item ?a) = 0" "it_BinID (address_item ?a) = 0"
    by (simp_all add: address_item_def zero_item_def)
  have none: "look (ls_shed st1) (2 # ?a) = None"
  proof -
    let ?act = "thn (set_loop L db (ls_shed st) ModeSetRemove [?a]) (\<lambda>c. incGCSizeInBatch L db (ls_shed st) c)"
    have s: "ls_shed (mark_dirty [?a] st) = ls_shed st" by (simp add: mark_dirty_def)
    have "hp (look (ls_shed st)) ?act (owned (look (ls_shed st))) (\<lambda>_ m'. m' (2 # ?a) = None) (\<lambda>_. True)"
      unfolding set_loop.simps set_one_def ModeSet.case
      by (intro hp_rules setRemove_hp [OF t ok _ ia] TrueI) (use gc_sub_simps(1) in simp_all)
    moreover have "run_act L (mark_dirty [?a] st) ?act = (Inr (), st1)" using r by (simp add: ls_set_def Let_def)
    ultimately show ?thesis using hp_run_ok [of "mark_dirty [?a] st", unfolded s] by fastforce
  qed
  have p1: "ix_Get L (postageIndexIndex db) item (ls_shed st1) = Inr previous"
    using p(1) remove_keeps_postage [OF r] by (simp add: ix_Get_look [OF keys(9)])
  have l8: "length (it_Timestamp previous) = 8" by (rule previous_timestamp [OF t p(1)])
  have "replacePrevious L db (ls_shed st1) item = ret (Inl False)"
    using none a p1 item(2) p(2) l8 by (simp add: replacePrevious_def ix_Has_look [OF keys(1)] thn_lft_Inr unlessNotFound_def later_def go_Uint64_def)
  then have "put_one L db (ls_shed st1) mode [] ch = ret (False, 0)"
    using item(1) m by (cases mode) (simp_all add: put_one_def thn_lft_Inr putRequest_def putUpload_def putSync_def thn_ret)
  then have act: "thn (put_loop L db (ls_shed st1) mode [] [ch]) (\<lambda>(exist, gcSizeChange).
           thn (put_binIDs db) (\<lambda>_. thn (incGCSizeInBatch L db (ls_shed st1) gcSizeChange) (\<lambda>_. ret exist))) = thn (put_binIDs db) (\<lambda>_. ret [False])"
    by (simp add: thn_assoc thn_ret incGCSizeInBatch_def)
  obtain s2 where s2: "ld_Write L [] (ls_shed st1) = Inr s2" "look s2 = look (ls_shed st1)" using ld_write [of "[]"] by auto
  have "\<exists>st2. run_act L (mark_dirty (map ch_addr [ch]) st1) (thn (put_binIDs db) (\<lambda>_. ret [False])) = (Inr [False], st2) \<and> ls_shed st2 = s2"
    using s2(1) by (simp add: run_act_def thn_def put_binIDs_def ret_def Let_def mark_dirty_def)
  moreover have "ix_Has L (retrievalDataIndex db) item (ls_shed st1) = Inr False" using none a by (simp add: ix_Has_look [OF keys(1)])
  ultimately have "\<exists>st2. ls_put L db mode [ch] st1 = (Inr [False], st2) \<and> ls_shed st2 = s2"
    using item(1) act by (simp add: ls_put_def Let_def)
  moreover have "ls_Has L db ?a s2 = Inr False" using none s2(2) ia(1) by (simp add: ls_Has_def ix_Has_look [OF keys(1)])
  ultimately show ?thesis by blast
qed

end

section \<open>What a client sees\<close>

text \<open>C33. In a database that \<open>New\<close> created, at any time, a put of a chunk that is not there and whose stamp index is not taken succeeds in
  every mode, and \<open>Get\<close> returns the chunk with its data and its stamp.\<close>

theorem stored_chunk_read_back:
  assumes "level_db L look" and "\<And>sc. \<exists>b. je sc = Inr b \<and> jd b = Inr sc" and "look s0 = Map.empty" and "op_Capacity o0 \<noteq> 0"
    and "ch_stamp ch = Some stamp" "length (sp_batchID stamp) = 32" "length (sp_index stamp) = 8" "length (sp_timestamp stamp) = 8" "length (sp_sig stamp) = 65"
    and "chunkToItem ch = Inr item"
  shows "\<exists>db s1. New_localstore L je jd migrate clock m9 m5 m1 baseKey o0 s0 = Inr (db, s1) \<and>
    (\<forall>st0 st ph. ls_shed st0 = s1 \<longrightarrow> (gc_step L db)\<^sup>*\<^sup>* (st0, Idle) (st, ph) \<longrightarrow>
       ls_Has L db (ch_addr ch) (ls_shed st) = Inr False \<longrightarrow> ix_Get L (postageIndexIndex db) item (ls_shed st) = Inl sh_NotFound \<longrightarrow>
       (\<exists>st'. ls_put L db mode [ch] st = (Inr [False], st') \<and>
          fst (ls_Get L db ModeGetLookup (ch_addr ch) (ls_shed st')) = Inr (WithStamp stamp (NewChunk (ch_addr ch) (ch_sdata ch)))))"
proof -
  obtain db s1 where new: "New_localstore L je jd migrate clock m9 m5 m1 baseKey o0 s0 = Inr (db, s1)" "chunk_db L look db" "good (look s1)"
    by (rule new_good [OF assms(1-4)])
  have "good (look (ls_shed st))" if "ls_shed st0 = s1" "(gc_step L db)\<^sup>*\<^sup>* (st0, Idle) (st, ph)" for st0 st ph
    using chunk_db.run_inv_reach [OF new(2) that(2)] that(1) new(3) by (simp add: run_inv_def)
  then show ?thesis using new(1) chunk_db.put_reads_back [OF new(2) _ assms(5-10)] by blast
qed

text \<open>C34. One call of \<open>Put\<close> moves the size of the reserve by one at most, however many chunks it stores in the reserve: the size is
  read from the database and not from the batch.\<close>

theorem reserve_counted_once:
  assumes "level_db L look" and "\<And>sc. \<exists>b. je sc = Inr b \<and> jd b = Inr sc" and "look s0 = Map.empty" and "op_Capacity o0 \<noteq> 0"
  shows "\<exists>db s1. New_localstore L je jd migrate clock m9 m5 m1 baseKey o0 s0 = Inr (db, s1) \<and>
    (\<forall>st n. u64_Get L (lc_reserveSize db) (ls_shed st) = Inr n \<longrightarrow>
       u64_Get L (lc_reserveSize db) (ls_shed (snd (ls_put L db mode chs st))) \<in> {Inr n, Inr (n + 1), Inr (n - 1)})"
proof -
  obtain db s1 where "New_localstore L je jd migrate clock m9 m5 m1 baseKey o0 s0 = Inr (db, s1)" "chunk_db L look db" by (rule new_good [OF assms])
  then show ?thesis using chunk_db.reserve_put by blast
qed

text \<open>C35. A chunk that was removed cannot be stored again with its stamp: \<open>Set\<close> in the mode for removal leaves the entry of the postage
  index, and \<open>Put\<close> reports no error and stores nothing.\<close>

theorem removed_chunk_refused:
  assumes "level_db L look" and "\<And>sc. \<exists>b. je sc = Inr b \<and> jd b = Inr sc" and "look s0 = Map.empty" and "op_Capacity o0 \<noteq> 0"
    and "chunkToItem ch = Inr item" "\<not> it_Immutable item" and "mode \<noteq> ModePutUploadPin"
  shows "\<exists>db s1. New_localstore L je jd migrate clock m9 m5 m1 baseKey o0 s0 = Inr (db, s1) \<and>
    (\<forall>st st1 previous. good (look (ls_shed st)) \<longrightarrow> ix_Get L (postageIndexIndex db) item (ls_shed st) = Inr previous \<longrightarrow> it_Timestamp previous = it_Timestamp item \<longrightarrow>
       ls_set L db ModeSetRemove [ch_addr ch] st = (Inr (), st1) \<longrightarrow>
       (\<exists>st2. ls_put L db mode [ch] st1 = (Inr [False], st2) \<and> ls_Has L db (ch_addr ch) (ls_shed st2) = Inr False))"
proof -
  obtain db s1 where "New_localstore L je jd migrate clock m9 m5 m1 baseKey o0 s0 = Inr (db, s1)" "chunk_db L look db" by (rule new_good [OF assms(1-4)])
  then show ?thesis using chunk_db.removed_refused [OF _ _ assms(5-7)] by blast
qed

section \<open>A new database in memory\<close>

definition mem_options :: "unit LSOptions" where
  "mem_options = \<lparr>op_Capacity = 10, op_ReserveCapacity = 5, op_Tags = None\<rparr>"

definition mem_conf :: "unit LSConf" where
  "mem_conf = conf_of (replicate 32 0) 10 5 10 10 5 None (\<lambda>n. word_of_nat n)"

definition mem_new :: "sh_error + (unit LSConf \<times> memdb)" where
  "mem_new = New_localstore memdb demo_je demo_jd (\<lambda>_ s. Inr s) (\<lambda>n. word_of_nat n) id id id (replicate 32 0) mem_options []"

definition mem_state :: "memdb \<Rightarrow> (memdb, unit) LS" where
  "mem_state s = \<lparr>ls_shed = s, ls_tags = (), ls_ticks = 0, ls_gcRunning = False, ls_dirty = [], ls_gcTrigger = False, ls_evictTrigger = False\<rparr>"

definition mem_stamp :: Stamp where
  "mem_stamp = NewStamp (replicate 32 1) (replicate 8 2) (replicate 8 3) (replicate 65 4)"

definition mem_chunk :: "byte \<Rightarrow> Stamp chunk" where
  "mem_chunk b = WithStamp mem_stamp (NewChunk (replicate 32 b) [b])"

lemma mem_premises: "map_of ([] :: memdb) = Map.empty" "op_Capacity mem_options \<noteq> 0"
  by (simp_all add: mem_options_def)

lemma mem_new_db:
  "\<exists>s1. mem_new = Inr (mem_conf, s1) \<and> (\<forall>k. k \<noteq> keySchema \<longrightarrow> k \<noteq> 1 # bytes_of_string ''schema-name'' \<longrightarrow> map_of s1 k = None)"
proof -
  have c: "conf_of (replicate 32 0) (op_Capacity mem_options) (op_ReserveCapacity mem_options) (id (op_Capacity mem_options)) (id (op_Capacity mem_options))
     (id (op_ReserveCapacity mem_options)) (op_Tags mem_options) (\<lambda>n. word_of_nat n) = mem_conf" by (simp add: mem_options_def mem_conf_def)
  show ?thesis unfolding mem_new_def
    by (rule mdb.new_db [OF demo_codec mem_premises, where migrate = "\<lambda>_ s. Inr s" and clock = "\<lambda>n. word_of_nat n" and ?m9.0 = id and ?m5.0 = id and ?m1.0 = id and baseKey = "replicate 32 0", unfolded c]) blast
qed

lemma mem_db: "chunk_db memdb map_of mem_conf"
  unfolding mem_conf_def using mdb.level_db_axioms by (intro chunk_db.intro chunk_db_axioms.intro conf_of_layout)

lemma mem_item:
  obtains item where "chunkToItem (mem_chunk b) = Inr item" "slice_of (it_Address item) = replicate 32 b" "\<not> it_Immutable item" "it_Timestamp item = replicate 8 3"
  by (simp add: chunkToItem_def mem_chunk_def WithStamp_def NewChunk_def mem_stamp_def NewStamp_def)

theorem stored_chunk_read_back_witness:
  "\<exists>db s1 st'. mem_new = Inr (db, s1) \<and> ls_put memdb db ModePutSync [mem_chunk 9] (mem_state s1) = (Inr [False], st') \<and>
     fst (ls_Get memdb db ModeGetLookup (replicate 32 9) (ls_shed st')) = Inr (mem_chunk 9)"
proof -
  obtain s1 where new: "mem_new = Inr (mem_conf, s1)" "\<forall>k. k \<noteq> keySchema \<longrightarrow> k \<noteq> 1 # bytes_of_string ''schema-name'' \<longrightarrow> map_of s1 k = None" using mem_new_db by blast
  obtain item where item: "chunkToItem (mem_chunk 9) = Inr item" by (rule mem_item)
  have sp: "ch_stamp (mem_chunk 9) = Some mem_stamp" "length (sp_batchID mem_stamp) = 32" "length (sp_index mem_stamp) = 8" "length (sp_timestamp mem_stamp) = 8" "length (sp_sig mem_stamp) = 65"
    by (simp_all add: mem_chunk_def WithStamp_def mem_stamp_def NewStamp_def)
  have ch: "ch_addr (mem_chunk 9) = replicate 32 9" "WithStamp mem_stamp (NewChunk (replicate 32 9) (ch_sdata (mem_chunk 9))) = mem_chunk 9"
    by (simp_all add: mem_chunk_def WithStamp_def NewChunk_def)
  obtain db2 s2 where th: "mem_new = Inr (db2, s2)"
    "\<forall>st0 st ph. ls_shed st0 = s2 \<longrightarrow> (gc_step memdb db2)\<^sup>*\<^sup>* (st0, Idle) (st, ph) \<longrightarrow>
       ls_Has memdb db2 (ch_addr (mem_chunk 9)) (ls_shed st) = Inr False \<longrightarrow> ix_Get memdb (postageIndexIndex db2) item (ls_shed st) = Inl sh_NotFound \<longrightarrow>
       (\<exists>st'. ls_put memdb db2 ModePutSync [mem_chunk 9] st = (Inr [False], st') \<and>
          fst (ls_Get memdb db2 ModeGetLookup (ch_addr (mem_chunk 9)) (ls_shed st')) = Inr (WithStamp mem_stamp (NewChunk (ch_addr (mem_chunk 9)) (ch_sdata (mem_chunk 9)))))"
    using stored_chunk_read_back [OF mdb.level_db_axioms demo_codec mem_premises sp item, where migrate = "\<lambda>_ s. Inr s" and clock = "\<lambda>n. word_of_nat n" and ?m9.0 = id and ?m5.0 = id and ?m1.0 = id and baseKey = "replicate 32 0" and mode = ModePutSync, folded mem_new_def]
    by (elim exE conjE) (rule that)
  have eq: "db2 = mem_conf" "s2 = s1" using th(1) [symmetric] unfolding new(1) by simp_all
  have h: "ls_Has memdb mem_conf (ch_addr (mem_chunk 9)) (ls_shed (mem_state s1)) = Inr False"
    using new(2) by (simp add: ls_Has_def mdb.ix_Has_look [OF chunk_db.keys(1) [OF mem_db]] mem_state_def keySchema_def)
  have p: "ix_Get memdb (postageIndexIndex mem_conf) item (ls_shed (mem_state s1)) = Inl sh_NotFound"
    using new(2) by (simp add: mdb.ix_Get_look [OF chunk_db.keys(9) [OF mem_db]] mem_state_def keySchema_def)
  have "\<exists>st'. ls_put memdb mem_conf ModePutSync [mem_chunk 9] (mem_state s1) = (Inr [False], st') \<and>
          fst (ls_Get memdb mem_conf ModeGetLookup (ch_addr (mem_chunk 9)) (ls_shed st')) = Inr (WithStamp mem_stamp (NewChunk (ch_addr (mem_chunk 9)) (ch_sdata (mem_chunk 9))))"
    using th(2) [unfolded eq, rule_format, OF _ rtranclp.rtrancl_refl h p] by (simp add: mem_state_def)
  then show ?thesis using new(1) unfolding ch by blast
qed

theorem reserve_counted_once_witness:
  "\<exists>db s1. mem_new = Inr (db, s1) \<and>
     u64_Get memdb (lc_reserveSize db) (ls_shed (snd (ls_put memdb db ModePutSync [mem_chunk 9, mem_chunk 8, mem_chunk 7] (mem_state s1)))) \<in> {Inr 0, Inr 1, Inr (- 1)}"
proof -
  obtain s1 where new: "mem_new = Inr (mem_conf, s1)" "\<forall>k. k \<noteq> keySchema \<longrightarrow> k \<noteq> 1 # bytes_of_string ''schema-name'' \<longrightarrow> map_of s1 k = None" using mem_new_db by blast
  have n: "u64_Get memdb (lc_reserveSize mem_conf) (ls_shed (mem_state s1)) = Inr 0"
    using new(2) by (simp add: u64_Get_def memdb_def mem_conf_def conf_of_def mem_state_def keySchema_def bytes_of_string_def)
  obtain db2 s2 where th: "mem_new = Inr (db2, s2)"
    "\<forall>st n. u64_Get memdb (lc_reserveSize db2) (ls_shed st) = Inr n \<longrightarrow>
       u64_Get memdb (lc_reserveSize db2) (ls_shed (snd (ls_put memdb db2 ModePutSync [mem_chunk 9, mem_chunk 8, mem_chunk 7] st))) \<in> {Inr n, Inr (n + 1), Inr (n - 1)}"
    using reserve_counted_once [OF mdb.level_db_axioms demo_codec mem_premises, where migrate = "\<lambda>_ s. Inr s" and clock = "\<lambda>n. word_of_nat n" and ?m9.0 = id and ?m5.0 = id and ?m1.0 = id and baseKey = "replicate 32 0" and mode = ModePutSync and chs = "[mem_chunk 9, mem_chunk 8, mem_chunk 7]", folded mem_new_def]
    by (elim exE conjE) (rule that)
  have "db2 = mem_conf" using th(1) [symmetric] unfolding new(1) by simp
  then have "u64_Get memdb (lc_reserveSize mem_conf) (ls_shed (snd (ls_put memdb mem_conf ModePutSync [mem_chunk 9, mem_chunk 8, mem_chunk 7] (mem_state s1)))) \<in> {Inr 0, Inr 1, Inr (- 1)}"
    using th(2) [rule_format, of "mem_state s1" 0] n by simp
  then show ?thesis using new(1) by blast
qed

theorem removed_chunk_refused_witness:
  "\<exists>db s1 st st1 st2. mem_new = Inr (db, s1) \<and> ls_Has memdb db (replicate 32 9) (ls_shed st) = Inr True \<and>
     ls_set memdb db ModeSetRemove [replicate 32 9] st = (Inr (), st1) \<and>
     ls_put memdb db ModePutSync [mem_chunk 9] st1 = (Inr [False], st2) \<and> ls_Has memdb db (replicate 32 9) (ls_shed st2) = Inr False"
proof -
  obtain s1 where new: "mem_new = Inr (mem_conf, s1)" using mem_new_db by blast
  obtain item where item: "chunkToItem (mem_chunk 9) = Inr item" "slice_of (it_Address item) = replicate 32 9" "\<not> it_Immutable item" "it_Timestamp item = replicate 8 3" by (rule mem_item)
  let ?a = "replicate 32 9 :: bytes"
  have a: "ch_addr (mem_chunk 9) = ?a" by (simp add: mem_chunk_def WithStamp_def NewChunk_def)
  let ?s = "[(2 # ?a, data_value item), (10 # stamp_key item, ?a @ replicate 8 3)]"
  have t: "typed_map (map_of ?s)"
    by (auto simp: typed_map_def typed_entry_def data_value_def headerSize_def stamp_key_def sp_MarshalBinary_def StampSize_def Let_def split: if_splits)
  have good: "good (map_of (ls_shed (mem_state ?s)))" using t by (simp add: mem_state_def good_def addr_ok_def gckey_def)
  obtain previous where p: "ix_Get memdb (postageIndexIndex mem_conf) item (ls_shed (mem_state ?s)) = Inr previous" "it_Timestamp previous = it_Timestamp item"
    using item(4) by (simp add: ix_Get_def ItemKey_def memdb_def mem_state_def stamp_key_def mem_conf_def conf_of_def index_of_def postageIndex_funcs_def it_Merge_def)
  let ?st = "mem_state ?s"
  let ?act = "thn (set_loop memdb mem_conf ?s ModeSetRemove [?a]) (\<lambda>c. incGCSizeInBatch memdb mem_conf ?s c)"
  have "gives ?act (\<lambda>_. True)" unfolding set_loop.simps set_one_def ModeSet.case
    by (intro gives_rules chunk_db.gives_setRemove [OF mem_db t] chunk_db.gives_counters [OF mem_db t] TrueI) (simp add: address_item_def zero_item_def)
  then obtain st1 where "run_act memdb (mark_dirty [?a] ?st) ?act = (Inr (), st1)" using chunk_db.gives_run [OF mem_db] by fastforce
  then have rem: "ls_set memdb mem_conf ModeSetRemove [ch_addr (mem_chunk 9)] ?st = (Inr (), st1)"
    by (simp add: ls_set_def Let_def a mem_state_def)
  have m: "ModePutSync \<noteq> ModePutUploadPin" by simp
  obtain db2 s2 where th: "mem_new = Inr (db2, s2)"
    "\<forall>st st1 previous. good (map_of (ls_shed st)) \<longrightarrow> ix_Get memdb (postageIndexIndex db2) item (ls_shed st) = Inr previous \<longrightarrow> it_Timestamp previous = it_Timestamp item \<longrightarrow>
       ls_set memdb db2 ModeSetRemove [ch_addr (mem_chunk 9)] st = (Inr (), st1) \<longrightarrow>
       (\<exists>st2. ls_put memdb db2 ModePutSync [mem_chunk 9] st1 = (Inr [False], st2) \<and> ls_Has memdb db2 (ch_addr (mem_chunk 9)) (ls_shed st2) = Inr False)"
    using removed_chunk_refused [OF mdb.level_db_axioms demo_codec mem_premises item(1,3) m, where migrate = "\<lambda>_ s. Inr s" and clock = "\<lambda>n. word_of_nat n" and ?m9.0 = id and ?m5.0 = id and ?m1.0 = id and baseKey = "replicate 32 0", folded mem_new_def]
    by (elim exE conjE) (rule that)
  have eq: "db2 = mem_conf" using th(1) [symmetric] unfolding new by simp
  have h: "ls_Has memdb mem_conf ?a (ls_shed ?st) = Inr True"
    by (simp add: ls_Has_def mdb.ix_Has_look [OF chunk_db.keys(1) [OF mem_db]] mem_state_def address_item_def zero_item_def)
  show ?thesis using th(2) [unfolded eq, rule_format, OF good p rem] rem h new unfolding a by blast
qed

end
