(* ===== verification/LocalstoreRuns.thy ===== *)
theory LocalstoreRuns
  imports LocalstoreProps
begin

text \<open>
  Runs of the chunk database: what a put of a new chunk in the cache or as a pinned chunk writes, and what the collector then picks and
  deletes. The properties that no operation panics and that the collector spares pinned chunks are stated here, and a run of a database in
  memory shows that both are about databases with chunks, pins and collections.
\<close>

section \<open>What a put writes\<close>

context chunk_db
begin

text \<open>The values and the entries that the indexes write.\<close>

lemma encs:
  "ix_EncodeValue (retrievalDataIndex db) i = Inr (data_value i)"
  "ix_EncodeValue (retrievalAccessIndex db) i = Inr (be_bytes 8 (unat (it_AccessTimestamp i)))"
  "ix_EncodeValue (pinIndex db) i = Inr (be_bytes 8 (unat (it_PinCounter i)))"
  "\<exists>v. ix_EncodeValue (pullIndex db) i = Inr v" "\<exists>v. ix_EncodeValue (postageChunksIndex db) i = Inr v"
  "\<exists>v. ix_EncodeValue (postageIndexIndex db) i = Inr v" "\<exists>v. ix_EncodeValue (gcIndex db) i = Inr v"
  using lay by (simp_all add: ls_layout_def index_of_def funcs_defs data_value_def Let_def)

lemma putB_is:
  "putB (retrievalDataIndex db) i tx = (Inr (), tx\<lparr>tx_batch := tx_batch tx @ [BPut (2 # slice_of (it_Address i)) (data_value i)]\<rparr>)"
  "putB (retrievalAccessIndex db) i tx = (Inr (), tx\<lparr>tx_batch := tx_batch tx @ [BPut (3 # slice_of (it_Address i)) (be_bytes 8 (unat (it_AccessTimestamp i)))]\<rparr>)"
  "putB (pinIndex db) i tx = (Inr (), tx\<lparr>tx_batch := tx_batch tx @ [BPut (7 # slice_of (it_Address i)) (be_bytes 8 (unat (it_PinCounter i)))]\<rparr>)"
  by (simp_all add: putB_def ix_PutInBatch_def keys encs)

lemma putB_side:
  "\<exists>k v. putB (pullIndex db) i tx = (Inr (), tx\<lparr>tx_batch := tx_batch tx @ [BPut (4 # k) v]\<rparr>)"
  "\<exists>k v. putB (postageChunksIndex db) i tx = (Inr (), tx\<lparr>tx_batch := tx_batch tx @ [BPut (8 # k) v]\<rparr>)"
  "\<exists>v. putB (postageIndexIndex db) i tx = (Inr (), tx\<lparr>tx_batch := tx_batch tx @ [BPut (10 # stamp_key i) v]\<rparr>)"
  "\<exists>v. putB (gcIndex db) i tx = (Inr (), tx\<lparr>tx_batch := tx_batch tx @ [BPut (gckey (it_AccessTimestamp i) (it_BinID i) (slice_of (it_Address i))) v]\<rparr>)"
  using encs(4-7) [of i] by (simp_all add: putB_def ix_PutInBatch_def keys stamp_key_def gckey_def) (elim exE, simp, blast)+

lemma incBinID_is: "typed_map (look s) \<Longrightarrow> \<exists>n ids. incBinID L db s b tx = (Inr n, tx\<lparr>tx_binIDs := ids\<rparr>)"
proof -
  assume "typed_map (look s)"
  then have "vec_Get L (lc_binIDs db) (ucast b) s \<noteq> Inl e" for e using counter_total unfolding vec_Get_def by blast
  then show ?thesis by (auto simp: incBinID_def split: option.splits sum.splits)
qed

lemma replacePrevious_none:
  assumes "look s (2 # slice_of (it_Address i)) = None" "look s (10 # stamp_key i) = None"
  shows "replacePrevious L db s i tx = (Inr (Inr None), tx)"
  using assms by (simp add: replacePrevious_def thn_def lft_def ret_def ix_Has_look [OF keys(1)] ix_Get_look [OF keys(9)] stamp_key_def unlessNotFound_def)

text \<open>A chunk that is not there: what \<open>putRequest\<close> writes before it decides where the chunk belongs.\<close>

lemma putRequest_new:
  assumes t: "typed_map (look s)" and a: "slice_of (it_Address item) = a" and n: "look s (2 # a) = None" "look s (10 # stamp_key item) = None"
  obtains n b v k8 v8 w j t4 where "slice_of (it_Address j) = a" "it_AccessTimestamp j = n" "it_BinID j = b"
    "tx_batch t4 = tx_batch tx @ [BPut (2 # a) v, BPut (8 # k8) v8, BPut (10 # stamp_key item) w, BPut (3 # a) (be_bytes 8 (unat n))]"
    "putRequest L db s item p c tx = thn (preserveOrCache L db s j p c) (\<lambda>g. thn (if \<not> c then putB (pullIndex db) j else ret ()) (\<lambda>_. ret (False, g))) t4"
proof -
  let ?n = "lc_now db (tx_ticks tx)"
  let ?t1 = "tx\<lparr>tx_ticks := Suc (tx_ticks tx)\<rparr>" 
  obtain b ids where b: "incBinID L db s (po (lc_baseKey db) a) ?t1 = (Inr b, ?t1\<lparr>tx_binIDs := ids\<rparr>)" using incBinID_is [OF t] by blast
  let ?i = "item\<lparr>it_StoreTimestamp := ?n, it_BinID := b\<rparr>"
  let ?t2 = "?t1\<lparr>tx_binIDs := ids, tx_batch := tx_batch tx @ [BPut (2 # a) (data_value ?i)]\<rparr>"
  obtain k8 v8 where c8: "putB (postageChunksIndex db) ?i ?t2 = (Inr (), ?t2\<lparr>tx_batch := tx_batch ?t2 @ [BPut (8 # k8) v8]\<rparr>)" using putB_side(2) by blast
  let ?t3 = "?t2\<lparr>tx_batch := tx_batch ?t2 @ [BPut (8 # k8) v8]\<rparr>"
  have "stamp_key ?i = stamp_key item" by (simp add: stamp_key_def)
  then obtain w where w: "putB (postageIndexIndex db) ?i ?t3 = (Inr (), ?t3\<lparr>tx_batch := tx_batch ?t3 @ [BPut (10 # stamp_key item) w]\<rparr>)"
    using putB_side(3) [of ?i ?t3] by auto
  let ?j = "?i\<lparr>it_AccessTimestamp := lc_now db (Suc (tx_ticks tx))\<rparr>"
  let ?t4 = "tx\<lparr>tx_binIDs := ids, tx_ticks := Suc (Suc (tx_ticks tx)),
      tx_batch := tx_batch ?t3 @ [BPut (10 # stamp_key item) w, BPut (3 # a) (be_bytes 8 (unat (it_AccessTimestamp ?j)))]\<rparr>"
  have "putRequest L db s item p c tx = thn (preserveOrCache L db s ?j p c) (\<lambda>g. thn (if \<not> c then putB (pullIndex db) ?j else ret ()) (\<lambda>_. ret (False, g))) ?t4"
    using b c8 w n a replacePrevious_none [of s item tx] by (simp add: putRequest_def Let_def thn_def ret_def now_def putB_is split: prod.split sum.split)
  then show thesis using a by (intro that [of ?j "it_AccessTimestamp ?j" b ?t4 "data_value ?i" k8 v8 w]) simp_all
qed

lemma put_cached:
  assumes t: "typed_map (look s)" and a: "slice_of (it_Address item) = a"
    and n: "look s (2 # a) = None" "look s (10 # stamp_key item) = None" "look s (7 # a) = None" "\<And>r. look s (6 # r) = None"
  obtains tx' v k8 v8 w n b u where "putRequest L db s item False True tx = (Inr (False, 1), tx')"
    "tx_batch tx' = tx_batch tx @ [BPut (2 # a) v, BPut (8 # k8) v8, BPut (10 # stamp_key item) w, BPut (3 # a) (be_bytes 8 (unat n)), BPut (gckey n b a) u]"
proof -
  obtain n b v k8 v8 w j t4 where j: "slice_of (it_Address j) = a" "it_AccessTimestamp j = n" "it_BinID j = b"
    "tx_batch t4 = tx_batch tx @ [BPut (2 # a) v, BPut (8 # k8) v8, BPut (10 # stamp_key item) w, BPut (3 # a) (be_bytes 8 (unat n))]"
    "putRequest L db s item False True tx = thn (preserveOrCache L db s j False True) (\<lambda>g. thn (if \<not> True then putB (pullIndex db) j else ret ()) (\<lambda>_. ret (False, g))) t4"
    by (rule putRequest_new [OF t a n(1,2)])
  obtain u where u: "putB (gcIndex db) j t4 = (Inr (), t4\<lparr>tx_batch := tx_batch t4 @ [BPut (gckey n b a) u]\<rparr>)" using putB_side(4) [of j t4] j by auto
  have "ix_Has L (gcIndex db) j s = Inr False" using n(4) by (simp add: ix_Has_look [OF keys(5)])
  then have eq: "putRequest L db s item False True tx = (Inr (False, 1), t4\<lparr>tx_batch := tx_batch t4 @ [BPut (gckey n b a) u]\<rparr>)"
    using u n j by (simp add: thn_def ret_def preserveOrCache_def lft_def ix_Has_look [OF keys(6)] unlessNotFound_def)
  show thesis by (rule that [OF eq]) (simp add: j(4))
qed

lemma put_pinned:
  assumes t: "typed_map (look s)" and a: "slice_of (it_Address item) = a"
    and n: "look s (2 # a) = None" "look s (10 # stamp_key item) = None" "look s (7 # a) = None" "look s (3 # a) = None"
  obtains tx' v k8 v8 w k4 v4 and n :: u64 where "putRequest L db s item True False tx = (Inr (False, 0), tx')"
    "tx_batch tx' = tx_batch tx @ [BPut (2 # a) v, BPut (8 # k8) v8, BPut (10 # stamp_key item) w, BPut (3 # a) (be_bytes 8 (unat n)), BPut (7 # a) (be_bytes 8 1), BPut (4 # k4) v4]"
proof -
  obtain n b v k8 v8 w j t4 where j: "slice_of (it_Address j) = a" "it_AccessTimestamp j = n" "it_BinID j = b"
    "tx_batch t4 = tx_batch tx @ [BPut (2 # a) v, BPut (8 # k8) v8, BPut (10 # stamp_key item) w, BPut (3 # a) (be_bytes 8 (unat n))]"
    "putRequest L db s item True False tx = thn (preserveOrCache L db s j True False) (\<lambda>g. thn (if \<not> False then putB (pullIndex db) j else ret ()) (\<lambda>_. ret (False, g))) t4"
    by (rule putRequest_new [OF t a n(1,2)])
  let ?t5 = "t4\<lparr>tx_batch := tx_batch t4 @ [BPut (7 # a) (be_bytes 8 1)]\<rparr>"
  obtain k4 v4 where u: "putB (pullIndex db) j ?t5 = (Inr (), ?t5\<lparr>tx_batch := tx_batch ?t5 @ [BPut (4 # k4) v4]\<rparr>)" using putB_side(1) [of j ?t5] by auto
  have "preserveOrCache L db s j True False t4 = (Inr 0, ?t5)"
    using n(3,4) j(1) by (simp add: preserveOrCache_def setPin_def thn_def lft_def ret_def ix_Get_look [OF keys(6)] ix_Get_look [OF keys(2)] unlessNotFound_def putB_is)
  then have eq: "putRequest L db s item True False tx = (Inr (False, 0), ?t5\<lparr>tx_batch := tx_batch ?t5 @ [BPut (4 # k4) v4]\<rparr>)"
    using u j(5) by (simp add: thn_def ret_def)
  have "tx_batch (?t5\<lparr>tx_batch := tx_batch ?t5 @ [BPut (4 # k4) v4]\<rparr>) = tx_batch tx @ [BPut (2 # a) v, BPut (8 # k8) v8, BPut (10 # stamp_key item) w,
      BPut (3 # a) (be_bytes 8 (unat n)), BPut (7 # a) (be_bytes 8 1), BPut (4 # k4) v4]" using j(4) by simp
  from that [OF eq this] show thesis .
qed


lemma put_binIDs_is:
  obtains bs where "put_binIDs db tx = (Inr (), tx\<lparr>tx_batch := tx_batch tx @ bs\<rparr>)"
    "\<And>m k. (\<forall>r. k \<noteq> 1 # bytes_of_string ''bin-ids'' @ r) \<Longrightarrow> apply_batch bs m k = m k"
proof -
  have "\<exists>bs. fold (\<lambda>(p, i) b. vec_PutInBatch (lc_binIDs db) (ucast p) i b) xs b0 = b0 @ bs \<and>
      (\<forall>m k. (\<forall>r. k \<noteq> 1 # bytes_of_string ''bin-ids'' @ r) \<longrightarrow> apply_batch bs m k = m k)" for xs :: "(u8 \<times> u64) list" and b0
  proof (induction xs arbitrary: b0)
    case (Cons x xs)
    obtain p i where x: "x = (p, i)" by fastforce
    let ?b = "BPut (indexKey (lc_binIDs db) (ucast p)) (encodeUint64 i)"
    obtain bs where bs: "fold (\<lambda>(p, i) b. vec_PutInBatch (lc_binIDs db) (ucast p) i b) xs (b0 @ [?b]) = (b0 @ [?b]) @ bs"
      "\<forall>m k. (\<forall>r. k \<noteq> 1 # bytes_of_string ''bin-ids'' @ r) \<longrightarrow> apply_batch bs m k = m k" using Cons.IH [of "b0 @ [?b]"] by blast
    then show ?case by (intro exI [of _ "?b # bs"]) (auto simp: x vec_PutInBatch_def u64_PutInBatch_def indexKey_def fields)
  qed simp
  from this [of "tx_binIDs tx" "tx_batch tx"] show thesis by (auto simp: put_binIDs_def intro: that)
qed

lemma counter_not_bin:
  "\<forall>r. lc_gcSize db \<noteq> 1 # bytes_of_string ''bin-ids'' @ r" "p \<noteq> 1 \<Longrightarrow> \<forall>r. p # k \<noteq> 1 # bytes_of_string ''bin-ids'' @ r"
  by (simp_all add: fields bytes_of_string_def)

lemma pin_put:
  assumes t: "typed_map (look (ls_shed st))" and item: "chunkToItem ch = Inr item" and a: "ch_addr ch = a"
    and run: "\<not> ls_gcRunning st" and n: "look (ls_shed st) (2 # a) = None" "look (ls_shed st) (10 # stamp_key item) = None" "look (ls_shed st) (7 # a) = None" "look (ls_shed st) (3 # a) = None"
  obtains st' where "ls_put L db ModePutRequestPin [ch] st = (Inr [False], st')" "look (ls_shed st') (2 # a) \<noteq> None" "look (ls_shed st') (7 # a) = Some (be_bytes 8 1)"
    "\<And>r. look (ls_shed st') (6 # r) = look (ls_shed st) (6 # r)" "look (ls_shed st') (lc_gcSize db) = look (ls_shed st) (lc_gcSize db)"
    "\<And>x. x \<noteq> a \<Longrightarrow> look (ls_shed st') (2 # x) = look (ls_shed st) (2 # x)" "\<And>x. x \<noteq> a \<Longrightarrow> look (ls_shed st') (7 # x) = look (ls_shed st) (7 # x)"
    "\<And>k. k \<noteq> stamp_key item \<Longrightarrow> look (ls_shed st') (10 # k) = look (ls_shed st) (10 # k)" "\<not> ls_gcRunning st'" "ls_dirty st' = ls_dirty st"
proof -
  let ?tx = "\<lparr>tx_batch = [], tx_binIDs = [], tx_tags = ls_tags st, tx_ticks = ls_ticks st, tx_gcTrigger = ls_gcTrigger st, tx_evictTrigger = ls_evictTrigger st\<rparr>"
  have ia: "slice_of (it_Address item) = a" using chunkToItem_fresh [OF item] a by simp
  obtain tx1 v k8 v8 w k4 v4 and n :: u64 where p: "putRequest L db (ls_shed st) item True False ?tx = (Inr (False, 0), tx1)" "tx_batch tx1 = tx_batch ?tx @ [BPut (2 # a) v, BPut (8 # k8) v8,
     BPut (10 # stamp_key item) w, BPut (3 # a) (be_bytes 8 (unat n)), BPut (7 # a) (be_bytes 8 1), BPut (4 # k4) v4]" by (rule put_pinned [OF t ia n])
  obtain bs where bs: "put_binIDs db tx1 = (Inr (), tx1\<lparr>tx_batch := tx_batch tx1 @ bs\<rparr>)"
    "\<And>m k. (\<forall>r. k \<noteq> 1 # bytes_of_string ''bin-ids'' @ r) \<Longrightarrow> apply_batch bs m k = m k" by (rule put_binIDs_is [of tx1]) blast
  obtain s1 where s1: "ld_Write L (tx_batch tx1 @ bs) (ls_shed st) = Inr s1" "look s1 = apply_batch (tx_batch tx1 @ bs) (look (ls_shed st))" using ld_write by blast
  have keep: "look s1 k = apply_batch (tx_batch tx1) (look (ls_shed st)) k" if "\<forall>r. k \<noteq> 1 # bytes_of_string ''bin-ids'' @ r" for k
    using bs(2) [OF that] by (simp add: s1(2))
  obtain st' where st': "ls_put L db ModePutRequestPin [ch] st = (Inr [False], st')" "ls_shed st' = s1" "\<not> ls_gcRunning st'" "ls_dirty st' = ls_dirty st"
    using p(1) bs(1) s1(1) item by (simp add: ls_put_def Let_def run_act_def thn_def put_one_def lft_def ret_def incGCSizeInBatch_def mark_dirty_def run)
  show thesis by (rule that [OF st'(1)]) (simp_all add: st' keep counter_not_bin p(2), simp add: fields)
qed


lemma cache_put:
  assumes t: "typed_map (look (ls_shed st))" and item: "chunkToItem ch = Inr item" and a: "ch_addr ch = a"
    and run: "\<not> ls_gcRunning st" and n: "look (ls_shed st) (2 # a) = None" "look (ls_shed st) (10 # stamp_key item) = None" "look (ls_shed st) (7 # a) = None"
      "\<And>r. look (ls_shed st) (6 # r) = None" "look (ls_shed st) (lc_gcSize db) = None"
  obtains st' n b where "ls_put L db ModePutRequestCache [ch] st = (Inr [False], st')" "look (ls_shed st') (2 # a) \<noteq> None"
    "\<And>r. look (ls_shed st') (6 # r) \<noteq> None \<longleftrightarrow> 6 # r = gckey n b a" "look (ls_shed st') (lc_gcSize db) = Some (encodeUint64 1)"
    "\<And>x. look (ls_shed st') (7 # x) = look (ls_shed st) (7 # x)" "\<not> ls_gcRunning st'" "ls_dirty st' = ls_dirty st"
proof -
  let ?tx = "\<lparr>tx_batch = [], tx_binIDs = [], tx_tags = ls_tags st, tx_ticks = ls_ticks st, tx_gcTrigger = ls_gcTrigger st, tx_evictTrigger = ls_evictTrigger st\<rparr>"
  have ia: "slice_of (it_Address item) = a" using chunkToItem_fresh [OF item] a by simp
  obtain tx1 v k8 v8 w n b u where p: "putRequest L db (ls_shed st) item False True ?tx = (Inr (False, 1), tx1)" "tx_batch tx1 = tx_batch ?tx @ [BPut (2 # a) v, BPut (8 # k8) v8,
     BPut (10 # stamp_key item) w, BPut (3 # a) (be_bytes 8 (unat n)), BPut (gckey n b a) u]" by (rule put_cached [OF t ia n(1-4)])
  obtain bs where bs: "put_binIDs db tx1 = (Inr (), tx1\<lparr>tx_batch := tx_batch tx1 @ bs\<rparr>)"
    "\<And>m k. (\<forall>r. k \<noteq> 1 # bytes_of_string ''bin-ids'' @ r) \<Longrightarrow> apply_batch bs m k = m k" by (rule put_binIDs_is [of tx1]) blast
  let ?b = "tx_batch tx1 @ bs @ [BPut (lc_gcSize db) (encodeUint64 1)]"
  obtain s1 where s1: "ld_Write L ?b (ls_shed st) = Inr s1" "look s1 = apply_batch ?b (look (ls_shed st))" using ld_write by blast
  have keep: "look s1 k = apply_batch (tx_batch tx1) (look (ls_shed st)) k" if "\<forall>r. k \<noteq> 1 # bytes_of_string ''bin-ids'' @ r" "k \<noteq> lc_gcSize db" for k
    using bs(2) [OF that(1)] that(2) by (simp add: s1(2))
  have gc: "look s1 (lc_gcSize db) = Some (encodeUint64 1)" by (simp add: s1(2))
  have ne: "p # k \<noteq> lc_gcSize db" if "p \<noteq> 1" for p k using that by (simp add: fields)
  have "ix_Has L (retrievalDataIndex db) item (ls_shed st) = Inr False" using n(1) ia by (simp add: ix_Has_look [OF keys(1)])
  then obtain st' where st': "ls_put L db ModePutRequestCache [ch] st = (Inr [False], st')" "ls_shed st' = s1" "\<not> ls_gcRunning st'" "ls_dirty st' = ls_dirty st"
    using p(1) bs(1) s1(1) item n(5) a by (simp add: ls_put_def Let_def run_act_def thn_def put_one_def lft_def ret_def incGCSizeInBatch_def mark_dirty_def run u64_Get_look
        unlessNotFound_def sized_change_def u64_PutInBatch_def)
  show thesis by (rule that [OF st'(1), of n b]) (simp_all add: st' gc keep ne counter_not_bin p(2) n(4) del: gckey_other, simp_all add: gckey_def)
qed

end

section \<open>What the collector picks\<close>

lemma first_with_prefix: "[p] \<le> x \<Longrightarrow> x \<le> p # (r :: bytes) \<Longrightarrow> \<exists>r'. x = p # r'"
  by (cases x) (auto simp: list_le_def list_less_def)

context chunk_db
begin

text \<open>An index of the collector with one entry: what the iterator stands on.\<close>

lemma single_entry:
  assumes only: "\<And>r. look s (6 # r) \<noteq> None \<longleftrightarrow> 6 # r = k" and k: "k = 6 # r0"
  obtains es xs v where "ld_Entries L s = (es, None)" "it_Seek [6] es < length es" "drop (it_Seek [6] es) es = (k, v) # xs" "look s k = Some v"
    "\<forall>e \<in> set xs. \<not> prefix [6] (fst e)"
proof -
  obtain es where es: "ld_Entries L s = (es, None)" "sorted_wrt (<) (map fst es)" "map_of es = look s" using ld_entries by blast
  have d: "distinct (map fst es)" using es(2) strict_sorted_iff by blast
  let ?P = "\<lambda>e. fst e < ([6] :: bytes)"
  define rest where "rest = dropWhile ?P es"
  have drop: "drop (it_Seek [6] es) es = rest" by (simp add: it_Seek_def rest_def dropWhile_eq_drop)
  have split: "es = takeWhile ?P es @ rest" by (simp add: rest_def)
  obtain v where v: "look s k = Some v" using only [of r0] k by auto
  then have "(k, v) \<in> set es" using es(3) by (metis map_of_SomeD)
  moreover have "\<not> k < [6]" by (simp add: k list_less_def)
  ultimately have mem: "(k, v) \<in> set rest" by (metis (mono_tags, lifting) Un_iff fst_conv set_append set_takeWhileD split)
  then obtain x xs where rest: "rest = x # xs" by (cases rest) auto
  have "sorted_wrt (<) (map fst rest)" using es(2) by (metis map_append sorted_wrt_append split)
  then have srt: "\<forall>e \<in> set xs. fst x < fst e" using rest by auto
  have val: "look s (fst e) = Some (snd e)" if "e \<in> set rest" for e
  proof -
    have "e \<in> set es" using that split by (metis Un_iff set_append)
    then show ?thesis using d es(3) by (metis map_of_eq_Some_iff prod.collapse)
  qed
  have le: "fst x \<le> k" using mem rest srt by (auto simp: less_imp_le)
  have "\<not> ?P x" using rest rest_def hd_dropWhile [of ?P es] by (metis list.distinct(1) list.sel(1))
  then have "\<exists>r'. fst x = 6 # r'" using le k by (intro first_with_prefix [of 6 "fst x" r0]) simp_all
  then obtain r' where r': "fst x = 6 # r'" by blast
  moreover from this have "look s (6 # r') \<noteq> None" using val [of x] rest by simp
  ultimately have x: "fst x = k" using only by simp
  have "fst e \<noteq> k" "look s (fst e) \<noteq> None" if "e \<in> set xs" for e using that srt x val [of e] rest by auto
  then have no: "\<forall>e \<in> set xs. \<not> prefix [6] (fst e)" using only unfolding prefix_def by (metis append_Cons append_Nil)
  have "drop (it_Seek [6] es) es = (k, v) # xs" using drop rest x v val [of x] by (cases x) simp
  moreover from this have "it_Seek [6] es < length es" by (metis drop_eq_Nil2 leI list.distinct(1))
  ultimately show thesis using that es(1) v no by blast
qed

lemma single_candidate:
  assumes t: "typed_map (look s)" and sz: "look s (lc_gcSize db) = Some (encodeUint64 1)" and target: "lc_gcTarget db = 0"
    and only: "\<And>r. look s (6 # r) \<noteq> None \<longleftrightarrow> 6 # r = gckey n b a"
  obtains i where "gc_candidates L db s = Inr ([i], 1)" "slice_of (it_Address i) = a"
proof -
  obtain es xs v where es: "ld_Entries L s = (es, None)" "it_Seek [6] es < length es" "drop (it_Seek [6] es) es = (gckey n b a, v) # xs" "look s (gckey n b a) = Some v"
    "\<forall>e \<in> set xs. \<not> prefix [6] (fst e)" by (rule single_entry [OF only, of "be_bytes 8 (unat n) @ be_bytes 8 (unat b) @ a"]) (simp_all add: gckey_def)
  have d: "ix_DecodeKey (gcIndex db) = if_DecodeKey gc_funcs" "ix_DecodeValue (gcIndex db) = if_DecodeValue gc_funcs" "ix_prefix (gcIndex db) = [6]"
    using lay by (simp_all add: ls_layout_def index_of_def)
  have "typed_entry (gckey n b a) v" using t es(4) by (auto simp: typed_map_def)
  then have v: "length v = 40" by (simp add: typed_entry_def gckey_def)
  obtain i where i: "itemFromIterator (gcIndex db) [6] (gckey n b a, v) = Inr i" "slice_of (it_Address i) = a"
    using v by (simp add: itemFromIterator_def d gc_funcs_def gckey_def merge_sel zero_item_def)
  have "gc_pick 1 0 i ([], 0) = (Inr False, ([i], 1))" by (simp add: gc_pick_def gcBatchSize_def word_le_nat_alt)
  moreover have "ix_walk (gcIndex db) (gc_pick 1 0) [6] None xs ([i], 1) = (None, ([i], 1))"
    using es(5) by (cases xs) (simp_all add: itemFromIterator_def)
  ultimately have "ix_Iterate L (gcIndex db) (gc_pick 1 0) default_options s ([], 0) = (None, ([i], 1))"
    using es(1-3) i(1) by (simp add: ix_Iterate_def default_options_def d iterate_from_def)
  then have "gc_candidates L db s = Inr ([i], 1)"
    using sz target by (simp add: gc_candidates_def u64_Get_look go_Uint64_def encodeUint64_def)
  then show thesis using i(2) that by blast
qed

lemma collect_single:
  assumes sz: "look (ls_shed st) (lc_gcSize db) = Some (encodeUint64 1)" and "ls_dirty st = []" and a: "slice_of (it_Address i) = a"
  shows "\<exists>st'. gc_collect L db ([i], 1) st = (Inr (1, True), st') \<and> ls_Has L db a (ls_shed st') = Inr False"
proof -
  obtain k4 k8 k10 kg where key: "ItemKey (pullIndex db) i = Inr (4 # k4)" "ItemKey (postageChunksIndex db) i = Inr (8 # k8)"
    "ItemKey (postageIndexIndex db) i = Inr (10 # k10)" "ItemKey (gcIndex db) i = Inr (6 # kg)" by (simp add: keys)
  let ?b = "[BDel (2 # a), BDel (3 # a), BDel (4 # k4), BDel (6 # kg), BDel (8 # k8), BDel (10 # k10), BPut (lc_gcSize db) (encodeUint64 0)]"
  obtain s1 where s1: "ld_Write L ?b (ls_shed st) = Inr s1" "look s1 = apply_batch ?b (look (ls_shed st))" using ld_write by blast
  have "u64_Get L (lc_gcSize db) (ls_shed st) = Inr 1" using sz by (simp add: u64_Get_look go_Uint64_def encodeUint64_def)
  then have "\<exists>st'. gc_collect L db ([i], 1) st = (Inr (1, True), st') \<and> ls_shed st' = s1"
    using s1(1) a assms(2) by (simp add: gc_collect_def run_act_def thn_def ret_def delB_def ix_DeleteInBatch_def key keys(1,2) u64_PutInBatch_def Let_def)
  moreover have "look s1 (2 # a) = None" by (simp add: s1(2) fields)
  ultimately show ?thesis by (auto simp: ls_Has_def ix_Has_look [OF keys(1)] address_item_def)
qed

end

section \<open>Operations do not panic\<close>

text \<open>No operation panics in a state: a put of chunks that have a stamp with a timestamp of eight bytes or more, a set, when the tags
  service does not panic, the reads, a noted access, the parts of the collector with any candidates, and the evictions, when the batch
  store does not report a panic.\<close>

definition no_panic :: "'s LevelDB \<Rightarrow> 't LSConf \<Rightarrow> ('s, 't) LS \<Rightarrow> bool" where
  "no_panic L db st \<longleftrightarrow>
     (\<forall>mode chs. (\<forall>ch \<in> set chs. stamped ch) \<longrightarrow> fst (ls_put L db mode chs st) \<noteq> Inl sh_Panic) \<and>
     (\<forall>smode addrs. tags_quiet db \<longrightarrow> fst (ls_set L db smode addrs st) \<noteq> Inl sh_Panic) \<and>
     (\<forall>gmode addr. fst (ls_Get L db gmode addr (ls_shed st)) \<noteq> Inl sh_Panic) \<and>
     (\<forall>gmode addrs. fst (ls_GetMulti L db gmode addrs (ls_shed st)) \<noteq> Inl sh_Panic) \<and>
     (\<forall>addr. ls_Has L db addr (ls_shed st) \<noteq> Inl sh_Panic) \<and> (\<forall>addrs. ls_HasMulti L db addrs (ls_shed st) \<noteq> Inl sh_Panic) \<and>
     (\<forall>addr. pinCounter L db addr (ls_shed st) \<noteq> Inl sh_Panic) \<and>
     (\<forall>item. fst (updateGC L db item st) \<noteq> Inl sh_Panic) \<and>
     (\<forall>d. gc_candidates L db (ls_shed st) \<noteq> Inl (d, Some sh_Panic)) \<and>
     (\<forall>c. fst (gc_collect L db c st) \<noteq> Inl sh_Panic) \<and>
     (\<forall>batchID radius. fst (UnreserveBatch L db batchID radius st) \<noteq> Inl sh_Panic) \<and>
     (\<forall>unreserve. snd unreserve \<noteq> Some sh_Panic \<longrightarrow> snd (snd (fst (evictReserve L db unreserve st))) \<noteq> Some sh_Panic)"

lemma typed_no_panic:
  assumes cd: "chunk_db L look db" and t: "typed_map (look (ls_shed st))"
  shows "no_panic L db st"
  unfolding no_panic_def
  using chunk_db.put_quiet [OF cd t] chunk_db.set_quiet [OF cd t] chunk_db.Get_quiet [OF cd t] chunk_db.GetMulti_quiet [OF cd t]
    chunk_db.lookups_quiet [OF cd t] chunk_db.updateGC_quiet [OF cd t] chunk_db.candidates_quiet [OF cd t] chunk_db.collect_quiet [OF cd t]
    chunk_db.UnreserveBatch_quiet [OF cd t] chunk_db.evictReserve_quiet [OF cd t]
  by (intro conjI allI impI) simp_all

text \<open>C31. A new database is well typed; operations in any order, failed ones, parts of the collector and of evictions that run without the
  lock included, keep it so; and on a well-typed database no operation panics, as \<open>no_panic\<close> lists them: every value that an operation
  decodes has the length that its decoder expects.\<close>

theorem well_typed_store:
  assumes "level_db L look" and "\<And>sc. \<exists>b. je sc = Inr b \<and> jd b = Inr sc" and "look s0 = Map.empty" and "op_Capacity o0 \<noteq> 0"
  shows "\<exists>db s1. New_localstore L je jd migrate clock m9 m5 m1 baseKey o0 s0 = Inr (db, s1) \<and>
    (\<forall>st st'. ls_shed st = s1 \<longrightarrow> (ls_step L db)\<^sup>*\<^sup>* st st' \<longrightarrow> typed_map (look (ls_shed st')) \<and> no_panic L db st')"
proof -
  obtain db s1 where new: "New_localstore L je jd migrate clock m9 m5 m1 baseKey o0 s0 = Inr (db, s1)" "chunk_db L look db" "good (look s1)"
    by (rule new_good [OF assms])
  have "typed_map (look (ls_shed st'))" if "ls_shed st = s1" "(ls_step L db)\<^sup>*\<^sup>* st st'" for st st'
    using chunk_db.typed_reach [OF new(2) that(2)] that(1) new(3) by (simp add: good_def)
  then show ?thesis using new(1) typed_no_panic [OF new(2)] by blast
qed

section \<open>The collector spares pinned chunks\<close>

text \<open>C32. In a database that \<open>New\<close> created, whatever operations \<open>gc_step\<close> allows run before and while the collector works, its deletions
  keep every chunk that is pinned at that moment: its pin counter and what \<open>Get\<close> returns are the same as before. The operations are puts,
  sets that name each address once, accesses noted of the chunk that is stored now, and evictions under the lock. Not covered: an access
  noted late, after the chunk was removed and stored again under another bin id, a set that names an address twice, and \<open>UnreserveBatch\<close>
  called by the batch store without the lock.\<close>

theorem collector_spares_pinned:
  assumes "level_db L look" and "\<And>sc. \<exists>b. je sc = Inr b \<and> jd b = Inr sc" and "look s0 = Map.empty" and "op_Capacity o0 \<noteq> 0"
  shows "\<exists>db s1. New_localstore L je jd migrate clock m9 m5 m1 baseKey o0 s0 = Inr (db, s1) \<and>
    (\<forall>st0 st c r st' a n. ls_shed st0 = s1 \<longrightarrow> (gc_step L db)\<^sup>*\<^sup>* (st0, Idle) (st, Picked c) \<longrightarrow> gc_collect L db c st = (r, st') \<longrightarrow>
       pinCounter L db a (ls_shed st) = Inr n \<longrightarrow>
       pinCounter L db a (ls_shed st') = Inr n \<and> ls_Get L db ModeGetLookup a (ls_shed st') = ls_Get L db ModeGetLookup a (ls_shed st))"
proof -
  obtain db s1 where new: "New_localstore L je jd migrate clock m9 m5 m1 baseKey o0 s0 = Inr (db, s1)" "chunk_db L look db" "good (look s1)"
    by (rule new_good [OF assms])
  have "run_inv look (st, Picked c)" if "ls_shed st0 = s1" "(gc_step L db)\<^sup>*\<^sup>* (st0, Idle) (st, Picked c)" for st0 st c
    using chunk_db.run_inv_reach [OF new(2) that(2)] that(1) new(3) by (simp add: run_inv_def)
  then show ?thesis using new(1) chunk_db.spares_pinned [OF new(2)] by blast
qed


section \<open>A run in memory\<close>

text \<open>A collector with target 0; a pinned chunk, a chunk in the cache, and a run of the collector.\<close>

definition run_conf :: "unit LSConf" where
  "run_conf = conf_of (replicate 32 0) 10 5 0 10 5 None (\<lambda>n. word_of_nat (Suc n))"

definition run_new :: "sh_error + (unit LSConf \<times> memdb)" where
  "run_new = New_localstore memdb demo_je demo_jd (\<lambda>_ s. Inr s) (\<lambda>n. word_of_nat (Suc n)) (\<lambda>_. 0) id id (replicate 32 0) mem_options []"

definition other_chunk :: "Stamp chunk" where
  "other_chunk = WithStamp (NewStamp (replicate 32 1) (replicate 8 5) (replicate 8 3) (replicate 65 4)) (NewChunk (replicate 32 9) [9])"

lemma run_items:
  obtains i j where "chunkToItem (mem_chunk 8) = Inr i" "chunkToItem other_chunk = Inr j" "stamp_key i \<noteq> stamp_key j"
    "ch_addr (mem_chunk 8) = replicate 32 8" "ch_addr other_chunk = replicate 32 9"
  by (simp add: chunkToItem_def mem_chunk_def other_chunk_def WithStamp_def NewChunk_def mem_stamp_def NewStamp_def stamp_key_def go_copy_def)

lemma run_new_db:
  obtains s1 where "run_new = Inr (run_conf, s1)" "\<And>k. k \<noteq> keySchema \<Longrightarrow> k \<noteq> 1 # bytes_of_string ''schema-name'' \<Longrightarrow> map_of s1 k = None" "typed_map (map_of s1)"
proof -
  have c: "conf_of (replicate 32 0) (op_Capacity mem_options) (op_ReserveCapacity mem_options) 0 (id (op_Capacity mem_options))
     (id (op_ReserveCapacity mem_options)) (op_Tags mem_options) (\<lambda>n. word_of_nat (Suc n)) = run_conf" by (simp add: mem_options_def run_conf_def)
  show thesis unfolding run_new_def
    by (rule mdb.new_db [OF demo_codec mem_premises, where migrate = "\<lambda>_ s. Inr s" and clock = "\<lambda>n. word_of_nat (Suc n)" and ?m9.0 = "\<lambda>_. 0" and ?m5.0 = id and ?m1.0 = id and baseKey = "replicate 32 0", unfolded c])
      (rule that [unfolded run_new_def])
qed

lemma run_db: "chunk_db memdb map_of run_conf"
  unfolding run_conf_def using mdb.level_db_axioms by (intro chunk_db.intro chunk_db_axioms.intro conf_of_layout)

lemma run_exists:
  obtains s1 st1 st2 c st3 where "run_new = Inr (run_conf, s1)"
    "ls_put memdb run_conf ModePutRequestPin [mem_chunk 8] (mem_state s1) = (Inr [False], st1)"
    "ls_put memdb run_conf ModePutRequestCache [other_chunk] st1 = (Inr [False], st2)"
    "gc_candidates memdb run_conf (ls_shed st2) = Inr c" "gc_collect memdb run_conf c (gc_begin st2) = (Inr (1, True), st3)"
    "pinCounter memdb run_conf (replicate 32 8) (ls_shed st2) = Inr 1"
    "ls_Has memdb run_conf (replicate 32 9) (ls_shed st2) = Inr True" "ls_Has memdb run_conf (replicate 32 9) (ls_shed st3) = Inr False"
proof -
  let ?A = "replicate 32 9 :: bytes" and ?B = "replicate 32 8 :: bytes"
  obtain s1 where new: "run_new = Inr (run_conf, s1)" "\<And>k. k \<noteq> keySchema \<Longrightarrow> k \<noteq> 1 # bytes_of_string ''schema-name'' \<Longrightarrow> map_of s1 k = None" "typed_map (map_of s1)"
    by (rule run_new_db) blast
  obtain i j where it: "chunkToItem (mem_chunk 8) = Inr i" "chunkToItem other_chunk = Inr j" "stamp_key i \<noteq> stamp_key j"
    "ch_addr (mem_chunk 8) = ?B" "ch_addr other_chunk = ?A" by (rule run_items)
  have n: "map_of (ls_shed (mem_state s1)) (p # k) = None" if "p \<noteq> 0" "p \<noteq> 1" for p k using that new(2) by (simp add: mem_state_def keySchema_def)
  have g: "map_of (ls_shed (mem_state s1)) (lc_gcSize run_conf) = None"
    using new(2) by (simp add: mem_state_def run_conf_def conf_of_def keySchema_def bytes_of_string_def)
  have t: "typed_map (map_of (ls_shed (mem_state s1)))" "\<not> ls_gcRunning (mem_state s1)" "ls_dirty (mem_state s1) = []" using new(3) by (simp_all add: mem_state_def)
  obtain st1 where st1: "ls_put memdb run_conf ModePutRequestPin [mem_chunk 8] (mem_state s1) = (Inr [False], st1)" "map_of (ls_shed st1) (2 # ?B) \<noteq> None"
    "map_of (ls_shed st1) (7 # ?B) = Some (be_bytes 8 1)" "\<And>r. map_of (ls_shed st1) (6 # r) = map_of (ls_shed (mem_state s1)) (6 # r)"
    "map_of (ls_shed st1) (lc_gcSize run_conf) = map_of (ls_shed (mem_state s1)) (lc_gcSize run_conf)"
    "\<And>x. x \<noteq> ?B \<Longrightarrow> map_of (ls_shed st1) (2 # x) = map_of (ls_shed (mem_state s1)) (2 # x)" "\<And>x. x \<noteq> ?B \<Longrightarrow> map_of (ls_shed st1) (7 # x) = map_of (ls_shed (mem_state s1)) (7 # x)"
    "\<And>k. k \<noteq> stamp_key i \<Longrightarrow> map_of (ls_shed st1) (10 # k) = map_of (ls_shed (mem_state s1)) (10 # k)" "\<not> ls_gcRunning st1" "ls_dirty st1 = ls_dirty (mem_state s1)"
    by (rule chunk_db.pin_put [OF run_db t(1) it(1,4) t(2)]) (use n in auto)
  have t1: "typed_map (map_of (ls_shed st1))" using chunk_db.typed_put [OF run_db t(1), of ModePutRequestPin "[mem_chunk 8]"] st1(1) by simp
  have ne: "?A \<noteq> ?B" by simp
  obtain st2 m b where st2: "ls_put memdb run_conf ModePutRequestCache [other_chunk] st1 = (Inr [False], st2)" "map_of (ls_shed st2) (2 # ?A) \<noteq> None"
    "\<And>r. map_of (ls_shed st2) (6 # r) \<noteq> None \<longleftrightarrow> 6 # r = gckey m b ?A" "map_of (ls_shed st2) (lc_gcSize run_conf) = Some (encodeUint64 1)"
    "\<And>x. map_of (ls_shed st2) (7 # x) = map_of (ls_shed st1) (7 # x)" "\<not> ls_gcRunning st2" "ls_dirty st2 = ls_dirty st1"
    by (rule chunk_db.cache_put [OF run_db t1 it(2,5) st1(9)]) (use n g it(3) ne st1 in auto)
  have t2: "typed_map (map_of (ls_shed st2))" using chunk_db.typed_put [OF run_db t1, of ModePutRequestCache "[other_chunk]"] st2(1) by simp
  obtain q where q: "gc_candidates memdb run_conf (ls_shed st2) = Inr ([q], 1)" "slice_of (it_Address q) = ?A"
    by (rule chunk_db.single_candidate [OF run_db t2 st2(4) _ st2(3)]) (simp_all add: run_conf_def conf_of_def)
  obtain st3 where st3: "gc_collect memdb run_conf ([q], 1) (gc_begin st2) = (Inr (1, True), st3)" "ls_Has memdb run_conf ?A (ls_shed st3) = Inr False"
    using chunk_db.collect_single [OF run_db, of "gc_begin st2" q ?A] st2(4,7) st1(10) t(3) q(2) by (auto simp: gc_begin_def)
  have "pinCounter memdb run_conf ?B (ls_shed st2) = Inr 1"
    using st2(5) st1(3) by (simp add: pinCounter_def ix_Get_def memdb_def run_conf_def conf_of_def index_of_def pin_funcs_def ItemKey_def address_item_def zero_item_def go_Uint64_def it_Merge_def)
  moreover have "ls_Has memdb run_conf ?A (ls_shed st2) = Inr True"
    using st2(2) by (simp add: ls_Has_def mdb.ix_Has_look [OF chunk_db.keys(1) [OF run_db]] address_item_def)
  ultimately show thesis using that new(1) st1(1) st2(1) q(1) st3 by blast
qed

theorem well_typed_store_witness:
  "\<exists>db s1 st. run_new = Inr (db, s1) \<and> (ls_step memdb db)\<^sup>*\<^sup>* (mem_state s1) st \<and>
     pinCounter memdb db (replicate 32 8) (ls_shed st) = Inr 1 \<and> ls_Has memdb db (replicate 32 9) (ls_shed st) = Inr True \<and> no_panic memdb db st"
proof -
  obtain s1 st1 st2 where run: "run_new = Inr (run_conf, s1)"
    "ls_put memdb run_conf ModePutRequestPin [mem_chunk 8] (mem_state s1) = (Inr [False], st1)"
    "ls_put memdb run_conf ModePutRequestCache [other_chunk] st1 = (Inr [False], st2)"
    "pinCounter memdb run_conf (replicate 32 8) (ls_shed st2) = Inr 1" "ls_Has memdb run_conf (replicate 32 9) (ls_shed st2) = Inr True"
    by (rule run_exists)
  have "ls_step memdb run_conf (mem_state s1) st1" "ls_step memdb run_conf st1 st2"
    using ls_step.puts [of memdb run_conf "mem_state s1" ModePutRequestPin "[mem_chunk 8]"] ls_step.puts [of memdb run_conf st1 ModePutRequestCache "[other_chunk]"] run(2,3) by simp_all
  then have reach: "(ls_step memdb run_conf)\<^sup>*\<^sup>* (mem_state s1) st2" by (meson converse_rtranclp_into_rtranclp r_into_rtranclp)
  obtain db2 s2 where th: "run_new = Inr (db2, s2)" "\<forall>st st'. ls_shed st = s2 \<longrightarrow> (ls_step memdb db2)\<^sup>*\<^sup>* st st' \<longrightarrow> typed_map (map_of (ls_shed st')) \<and> no_panic memdb db2 st'"
    using well_typed_store [OF mdb.level_db_axioms demo_codec mem_premises, where migrate = "\<lambda>_ s. Inr s" and clock = "\<lambda>n. word_of_nat (Suc n)" and ?m9.0 = "\<lambda>_. 0" and ?m5.0 = id and ?m1.0 = id and baseKey = "replicate 32 0", folded run_new_def]
    by (elim exE conjE) (rule that)
  have eq: "db2 = run_conf" "s2 = s1" using th(1) [symmetric] unfolding run(1) by simp_all
  have "no_panic memdb run_conf st2" using th(2) [unfolded eq, rule_format, OF _ reach] by (simp add: mem_state_def)
  then show ?thesis using run(1,4,5) reach by blast
qed

theorem collector_spares_pinned_witness:
  "\<exists>db s1 st c st'. run_new = Inr (db, s1) \<and> (gc_step memdb db)\<^sup>*\<^sup>* (mem_state s1, Idle) (st, Picked c) \<and> gc_collect memdb db c st = (Inr (1, True), st') \<and>
     ls_Has memdb db (replicate 32 9) (ls_shed st) = Inr True \<and> ls_Has memdb db (replicate 32 9) (ls_shed st') = Inr False \<and>
     pinCounter memdb db (replicate 32 8) (ls_shed st) = Inr 1 \<and> pinCounter memdb db (replicate 32 8) (ls_shed st') = Inr 1 \<and>
     ls_Get memdb db ModeGetLookup (replicate 32 8) (ls_shed st') = ls_Get memdb db ModeGetLookup (replicate 32 8) (ls_shed st)"
proof -
  obtain s1 st1 st2 c st3 where run: "run_new = Inr (run_conf, s1)"
    "ls_put memdb run_conf ModePutRequestPin [mem_chunk 8] (mem_state s1) = (Inr [False], st1)"
    "ls_put memdb run_conf ModePutRequestCache [other_chunk] st1 = (Inr [False], st2)"
    "gc_candidates memdb run_conf (ls_shed st2) = Inr c" "gc_collect memdb run_conf c (gc_begin st2) = (Inr (1, True), st3)"
    "pinCounter memdb run_conf (replicate 32 8) (ls_shed st2) = Inr 1"
    "ls_Has memdb run_conf (replicate 32 9) (ls_shed st2) = Inr True" "ls_Has memdb run_conf (replicate 32 9) (ls_shed st3) = Inr False"
    by (rule run_exists)
  let ?st = "gc_begin st2"
  have same: "ls_shed ?st = ls_shed st2" by (simp add: gc_begin_def)
  have "gc_step memdb run_conf (mem_state s1, Idle) (st1, Idle)" "gc_step memdb run_conf (st1, Idle) (st2, Idle)"
    "gc_step memdb run_conf (st2, Idle) (?st, Marked)" "gc_step memdb run_conf (?st, Marked) (?st, Picked c)"
    using run(2,3,4) same by (auto intro: gc_step.intros)
  then have reach: "(gc_step memdb run_conf)\<^sup>*\<^sup>* (mem_state s1, Idle) (?st, Picked c)" by (meson converse_rtranclp_into_rtranclp r_into_rtranclp)
  obtain db2 s2 where th: "run_new = Inr (db2, s2)"
    "\<forall>st0 st c r st' a n. ls_shed st0 = s2 \<longrightarrow> (gc_step memdb db2)\<^sup>*\<^sup>* (st0, Idle) (st, Picked c) \<longrightarrow> gc_collect memdb db2 c st = (r, st') \<longrightarrow>
       pinCounter memdb db2 a (ls_shed st) = Inr n \<longrightarrow>
       pinCounter memdb db2 a (ls_shed st') = Inr n \<and> ls_Get memdb db2 ModeGetLookup a (ls_shed st') = ls_Get memdb db2 ModeGetLookup a (ls_shed st)"
    using collector_spares_pinned [OF mdb.level_db_axioms demo_codec mem_premises, where migrate = "\<lambda>_ s. Inr s" and clock = "\<lambda>n. word_of_nat (Suc n)" and ?m9.0 = "\<lambda>_. 0" and ?m5.0 = id and ?m1.0 = id and baseKey = "replicate 32 0", folded run_new_def]
    by (elim exE conjE) (rule that)
  have eq: "db2 = run_conf" "s2 = s1" using th(1) [symmetric] unfolding run(1) by simp_all
  have pin: "pinCounter memdb run_conf (replicate 32 8) (ls_shed ?st) = Inr 1" using run(6) same by simp
  have s: "ls_shed (mem_state s1) = s1" by (simp add: mem_state_def)
  have res: "pinCounter memdb run_conf (replicate 32 8) (ls_shed st3) = Inr 1"
    "ls_Get memdb run_conf ModeGetLookup (replicate 32 8) (ls_shed st3) = ls_Get memdb run_conf ModeGetLookup (replicate 32 8) (ls_shed ?st)"
    using th(2) [unfolded eq, rule_format, OF s reach run(5) pin] by simp_all
  have "ls_Has memdb run_conf (replicate 32 9) (ls_shed ?st) = Inr True" using run(7) same by simp
  then show ?thesis using run(1,5,8) reach pin res
    by (intro exI [of _ run_conf] exI [of _ s1] exI [of _ ?st] exI [of _ c] exI [of _ st3]) simp
qed

end
