(* ===== verification/Spec2Isabelle.thy ===== *)
theory Spec2Isabelle
  imports Swarm Intervals PSlice LightNode AccountingSafety
    PostageService BatchService Pseudosettle MantarayPersist SwapProps MockStore Chunks LocalstoreRuns
begin

text \<open>
  Verification of the Sana node (\<open>github.com/ethsana/sana\<close>), a node of a peer-to-peer storage network written in
  Go. The sources are under \<open>src/pkg\<close>.

  \<^bold>\<open>The program and its parts.\<close> A node has an address in a metric space of 32-byte strings (\<open>swarm\<close>) and
  keeps its peers ordered by their proximity to it (\<open>topology\<close>). It stores and forwards chunks of at most 4096 bytes;
  files are trees of chunks and manifests are tries of paths saved as chunks (\<open>manifest\<close>). A chunk carries a stamp
  (\<open>postage\<close>) of a batch bought on the chain; the events of the contract reach the node through \<open>batchservice\<close>, which
  keeps the \<open>batchstore\<close> with the reserve of chunks the node must store. Every chunk that is served is paid for:
  \<open>accounting\<close> keeps a balance per peer and lets \<open>settlement/pseudosettle\<close> (time) and \<open>settlement/swap\<close> (cheques)
  settle it. Chunks lie in \<open>localstore\<close>, a database of indexes (\<open>shed\<close>) with a cache, which a collector keeps small, and
  a reserve; all other persistent state lies in a key-value store (\<open>statestore\<close>).

  \<^bold>\<open>Theories and what they model.\<close>
  \<^item> \<open>Prelude\<close>, \<open>Encodings\<close>: fixed-width integers, byte strings, big-endian numbers, and the functions of Go's
    standard library the sources use (hexadecimal text, decimal and base-36 numbers, \<open>strings.Split\<close>).
  \<^item> \<open>Swarm\<close>: \<open>swarm/swarm.go\<close>, \<open>proximity.go\<close>, \<open>distance.go\<close>. \<open>DistanceCmp\<close> orders by XOR distance, a larger
    proximity order means a smaller distance.
  \<^item> \<open>Intervals\<close>: \<open>intervalstore/intervals.go\<close>. A list of ranges kept sorted and separated stands for a set of
    64-bit numbers; \<open>Next\<close> finds the first gap.
  \<^item> \<open>PSlice\<close>, \<open>LightNode\<close>: \<open>topology/pslice\<close>, \<open>topology/lightnode\<close>. The list of peers and the index of
    its bins agree.
  \<^item> \<open>Statestore\<close>: the interface of \<open>storage/store.go\<close> as a record of operations, the locale \<open>state_store\<close> with its
    laws (and \<open>reliable_store\<close> where no operation fails), interpreted on the in-memory store
    of \<open>statestore/mock\<close>. Every component below is proved over these locales, so also for stores that fail.
  \<^item> \<open>Accounting\<close>, \<open>AccountingSafety\<close>: \<open>accounting/accounting.go\<close>. The state is the record of the peers and the
    store, one function per method; \<open>acc_step\<close> is the interleaving of calls. Reservations stay within the payment
    threshold, balances move by exactly the amounts of an abstract ledger.
  \<^item> \<open>Postage\<close>, \<open>PostageService\<close>, \<open>BatchStore\<close>, \<open>BatchStoreProps\<close>, \<open>ReserveEviction\<close>, \<open>BatchService\<close>: \<open>postage\<close>,
    \<open>postage/batchstore\<close>, \<open>postage/batchservice\<close>. Stamps are unique and valid, the index of batches by value agrees with the
    batches, the eviction loop ends, events change exactly what they say.
  \<^item> \<open>Pseudosettle\<close>: \<open>settlement/pseudosettle\<close>, both ends of the protocol over \<open>Accounting\<close>. A peer is
    granted at most the refresh rate times the elapsed time.
  \<^item> \<open>Chequebook\<close>, \<open>ChequebookSafety\<close>, \<open>ChequebookIssue\<close>: \<open>settlement/swap/chequebook\<close> and \<open>erc20\<close>. Received cheques are
    credited once; issued cheques are covered however calls of \<open>Issue\<close> interleave and fail (\<open>issue_step\<close> is the step
    relation, \<open>Issue_steps\<close> the refinement of the sequential function by it).
  \<^item> \<open>Swap\<close>, \<open>SwapProps\<close>: \<open>settlement/swap\<close> with its headers, price oracle and protocol. A payment by cheque is
    booked with the same amount at both ends; handshakes keep the address book one to one.
  \<^item> \<open>Mantaray\<close>, \<open>MantarayTrie\<close>, \<open>MantarayCodec\<close>, \<open>MantarayPersist\<close>: \<open>manifest/mantaray\<close> and \<open>manifest/mantaray.go\<close>. A
    trie is a finite map from paths to entries, its serialisation is read back, a stored manifest has the
    same entries (but for empty entries and the empty path); the codec and the store are separate layers that meet in \<open>MantarayPersist\<close>.
  \<^item> \<open>Encryption\<close>, \<open>Pipeline\<close>, \<open>Joiner\<close>, \<open>FileTree\<close>, \<open>FilePipeline\<close>, \<open>FileFeed\<close>, \<open>LoadSave\<close>, \<open>MockStore\<close>:
    \<open>encryption\<close>, \<open>file/pipeline\<close>, \<open>file/joiner\<close>, \<open>file/loadsave\<close> and \<open>storage/mock\<close>. The pipeline cuts a stream in chunks
    and builds the tree of references (plain or encrypted); the joiner reads a range of it with one goroutine per
    branch. Every schedule reads the same bytes and ends; what is saved is loaded back.
  \<^item> \<open>Bmt\<close>, \<open>BmtTree\<close>, \<open>BmtHash\<close>, \<open>BmtCorrect\<close>: \<open>bmt\<close> and \<open>bmt/reference\<close>. The segments are hashed by goroutines that
    meet at the nodes of a pooled tree; \<open>bmt_step\<close> is their interleaving. Every schedule yields the reference hash.
  \<^item> \<open>Chunks\<close>: \<open>cac\<close> and \<open>soc\<close>, content-addressed and single-owner chunks, over the hasher of \<open>Bmt\<close>. Validation accepts
    exactly the chunks whose address is right.
  \<^item> \<open>Shed\<close>, \<open>StorageModes\<close>, \<open>Localstore\<close>: \<open>shed\<close> (fields, indexes and the schema over a key-value database, the locale
    \<open>level_db\<close>) and \<open>localstore\<close>, whose operations build a batch (\<open>act\<close>, a state transformer that may fail) and write
    it at once. \<open>LocalstoreTyped\<close>: every stored value has the form its index decodes, so no decoder panics.
    \<open>LocalstoreView\<close>, \<open>LocalstoreOps\<close>: a calculus (\<open>hp\<close>) of what an operation does to the entries of one address.
    \<open>LocalstoreGC\<close>: the collector runs in three phases with other operations in between (\<open>gc_step\<close>) and never takes
    a pinned chunk. \<open>LocalstoreProps\<close>: put and get, the counter of the reserve, removed chunks. \<open>LocalstoreRuns\<close>: the theorems on
    panics and on the collector, and a run in memory. \<open>level_db\<close> is a LevelDB that does not fail; a stale \<open>updateGC\<close>, an address
    named twice in a \<open>Set\<close> and \<open>UnreserveBatch\<close> without the lock are outside of \<open>gc_step\<close>.

  \<^bold>\<open>Conventions.\<close> A struct is a record and a method a function from the state to the result and the new
  state; an error is a value of a datatype, \<open>Inl\<close> of a sum or \<open>Some\<close> of an option, and a panic is an error of its
  own or \<open>None\<close>. Widths are kept (\<open>word\<close>, \<open>i64\<close>) where the code can overflow; \<open>big.Int\<close> is \<open>int\<close>. A lock makes a
  method one step; where it is released in between (\<open>Issue\<close>, \<open>Apply\<close>), the steps are modelled. Go maps are
  functions or association lists, and what depends on their order is stated for every order. Logging, metrics,
  tracing and contexts are left out.

  \<^bold>\<open>Parameters.\<close> Code outside the repository is an argument: hash functions, signatures and their recovery, JSON
  texts, the ABI and the chain (record \<open>Chain\<close>), clocks and random draws, the answers of remote peers. A theorem names
  what it needs of them (the decoder inverts the encoder, a signature recovers the signer), and its witness
  instantiates them.

  \<^bold>\<open>Fuel.\<close> The eviction loop of the reserve (\<open>evictOuter\<close>) is run with fuel. It need not end: when nothing was available
  before, it goes on until the radius wraps. With the reserve in range (\<open>reserve_in_range\<close>) each round frees half of the
  share the new batch still has, the radius stays at most its depth, and \<open>evictOuter_ends\<close> and \<open>Put_succeeds\<close> show that 64 rounds are enough. The goroutines of the joiner run with
  fuel twice the length of the data and those of the hasher with \<open>bmt_fuel\<close>; their theorems show that every schedule
  has ended by then. Every other loop is structural or
  has a termination proof (descent in a trie by the length of the path, loading a node included).

  \<^bold>\<open>Not modelled.\<close> Network transport (\<open>p2p\<close>), HTTP interfaces (\<open>api\<close>, \<open>debugapi\<close>), command line and wiring (\<open>cmd\<close>,
  \<open>node\<close>), cryptographic primitives, metrics; generated code. The manifest lists these parts with the reason.
\<close>

end
